(* ===== verification/Prelude.thy ===== *)
theory Prelude
  imports Main "HOL-Library.Word"
begin

unbundle bit_operations_syntax

text \<open>
  Shared vocabulary of the development: the fixed-width integer types of the firmware
  (\<open>UCHAR\<close>, \<open>USHORT\<close>, \<open>ULONG\<close> of \<open>mbport/port.h\<close>), the outcome type of a C
  function that may hit an assertion or touch memory outside an array, checked array
  accesses, big-endian 16-bit encoding, and the list and word lemmas the components share.
\<close>

named_theorems frame_simps \<open>fields an operation does not change\<close>
named_theorems res_simps \<open>rewriting of C outcomes\<close>

subsection \<open>Integer types\<close>

type_synonym u8 = "8 word"
type_synonym u16 = "16 word"
type_synonym u32 = "32 word"

subsection \<open>Outcomes of C code\<close>

text \<open>
  A call either runs to its end with a value or is stopped: by a failing \<open>assert\<close>, by an
  access outside the object a pointer designates, or by the use of a null pointer or of one
  whose object has been freed.
\<close>

datatype fault = Assert_Failed | Out_Of_Bounds | Null_Pointer | Dangling_Pointer

type_synonym 'a res = "fault + 'a"

fun bindR :: "'a res \<Rightarrow> ('a \<Rightarrow> 'b res) \<Rightarrow> 'b res" where
  "bindR (Inl e) f = Inl e"
| "bindR (Inr x) f = f x"

definition assertR :: "bool \<Rightarrow> unit res" where
  "assertR b = (if b then Inr () else Inl Assert_Failed)"

fun okR :: "'a res \<Rightarrow> bool" where
  "okR (Inl e) = False"
| "okR (Inr x) = True"

subsection \<open>Checked array accesses\<close>

definition rd :: "'a list \<Rightarrow> nat \<Rightarrow> 'a res" where
  "rd xs i = (if i < length xs then Inr (xs ! i) else Inl Out_Of_Bounds)"

definition wr :: "'a list \<Rightarrow> nat \<Rightarrow> 'a \<Rightarrow> 'a list res" where
  "wr xs i v = (if i < length xs then Inr (xs[i := v]) else Inl Out_Of_Bounds)"

definition window :: "nat \<Rightarrow> nat \<Rightarrow> 'a list \<Rightarrow> 'a list" where
  "window off n xs = take n (drop off xs)"

definition blit :: "nat \<Rightarrow> 'a list \<Rightarrow> 'a list \<Rightarrow> 'a list" where
  "blit off ys xs = take off xs @ ys @ drop (off + length ys) xs"

subsection \<open>Big-endian 16-bit values\<close>

definition hi_byte :: "u16 \<Rightarrow> u8" where
  "hi_byte w = ucast (drop_bit 8 w)"

definition lo_byte :: "u16 \<Rightarrow> u8" where
  "lo_byte w = ucast (w AND 0xFF)"

definition be16 :: "u8 \<Rightarrow> u8 \<Rightarrow> u16" where
  "be16 h l = push_bit 8 (ucast h) OR ucast l"

fun enc16 :: "u16 list \<Rightarrow> u8 list" where
  "enc16 [] = []"
| "enc16 (w # ws) = hi_byte w # lo_byte w # enc16 ws"

fun dec16 :: "u8 list \<Rightarrow> u16 list" where
  "dec16 (h # l # bs) = be16 h l # dec16 bs"
| "dec16 _ = []"

subsection \<open>Lemmas on outcomes\<close>

lemma bindR_eq_Inr [res_simps]: "bindR m f = Inr y \<longleftrightarrow> (\<exists>x. m = Inr x \<and> f x = Inr y)"
  by (cases m) auto

lemma bindR_eq_Inl [res_simps]:
  "bindR m f = Inl e \<longleftrightarrow> m = Inl e \<or> (\<exists>x. m = Inr x \<and> f x = Inl e)"
  by (cases m) auto

lemma okR_iff: "okR m \<longleftrightarrow> (\<exists>x. m = Inr x)"
  by (cases m) auto

lemma assertR_True [simp]: "assertR True = Inr ()"
  by (simp add: assertR_def)

lemma assertR_False [simp]: "assertR False = Inl Assert_Failed"
  by (simp add: assertR_def)

lemma assertR_eq_Inr [simp]: "assertR b = Inr u \<longleftrightarrow> b"
  by (simp add: assertR_def)

lemma rd_in [simp]: "i < length xs \<Longrightarrow> rd xs i = Inr (xs ! i)"
  by (simp add: rd_def)

lemma rd_out [simp]: "length xs \<le> i \<Longrightarrow> rd xs i = Inl Out_Of_Bounds"
  by (simp add: rd_def)

lemma rd_eq_Inr [res_simps]: "rd xs i = Inr v \<longleftrightarrow> i < length xs \<and> v = xs ! i"
  by (auto simp: rd_def)

lemma wr_in [simp]: "i < length xs \<Longrightarrow> wr xs i v = Inr (xs[i := v])"
  by (simp add: wr_def)

lemma wr_out [simp]: "length xs \<le> i \<Longrightarrow> wr xs i v = Inl Out_Of_Bounds"
  by (simp add: wr_def)

lemma wr_eq_Inr [res_simps]: "wr xs i v = Inr ys \<longleftrightarrow> i < length xs \<and> ys = xs[i := v]"
  by (auto simp: wr_def)

subsection \<open>Lemmas on windows\<close>

lemma length_window [simp]: "length (window off n xs) = min n (length xs - off)"
  by (simp add: window_def)

lemma nth_window: "i < n \<Longrightarrow> off + i < length xs \<Longrightarrow> window off n xs ! i = xs ! (off + i)"
  by (simp add: window_def)

lemma window_0 [simp]: "window off 0 xs = []"
  by (simp add: window_def)

lemma window_Suc: "off < length xs \<Longrightarrow> window off (Suc n) xs = xs ! off # window (Suc off) n xs"
  by (simp add: window_def flip: Cons_nth_drop_Suc)

lemma length_blit [simp]:
  "off + length ys \<le> length xs \<Longrightarrow> length (blit off ys xs) = length xs"
  by (simp add: blit_def)

lemma blit_Nil [simp]: "blit off [] xs = xs"
  by (simp add: blit_def)

lemma blit_Cons:
  assumes "off < length xs"
  shows "blit off (y # ys) xs = blit (Suc off) ys (xs[off := y])"
  using assms
  by (simp add: blit_def take_Suc_conv_app_nth list_update_append min_def)

lemma window_blit:
  "off + length ys \<le> length xs \<Longrightarrow> window off (length ys) (blit off ys xs) = ys"
  by (simp add: window_def blit_def min_def)

lemma nth_blit_before: "i < off \<Longrightarrow> off \<le> length xs \<Longrightarrow> blit off ys xs ! i = xs ! i"
  by (simp add: blit_def nth_append)

lemma nth_blit_after:
  assumes "off + length ys \<le> i" and "off + length ys \<le> length xs"
  shows "blit off ys xs ! i = xs ! i"
proof -
  have "min (length xs) off = off" "\<not> i < off" "\<not> i - off < length ys"
    using assms by auto
  moreover have "off + length ys + (i - off - length ys) = i" using assms by simp
  ultimately show ?thesis using assms by (simp add: blit_def nth_append)
qed

lemma nth_blit_inside:
  assumes "off \<le> i" and "i < off + length ys" and "off + length ys \<le> length xs"
  shows "blit off ys xs ! i = ys ! (i - off)"
proof -
  have "min (length xs) off = off" "\<not> i < off" "i - off < length ys"
    using assms by auto
  then show ?thesis by (simp add: blit_def nth_append)
qed

subsection \<open>Lemmas on 16-bit values\<close>

lemma bit_be16: "bit (be16 h l) n \<longleftrightarrow> (if n < 8 then bit l n else n < 16 \<and> bit h (n - 8))"
  by (auto simp: be16_def bit_simps dest: bit_imp_le_length)

lemma bit_hi_byte: "bit (hi_byte w) n \<longleftrightarrow> n < 8 \<and> bit w (n + 8)"
  by (auto simp: hi_byte_def bit_simps add.commute)

lemma bit_lo_byte: "bit (lo_byte w) n \<longleftrightarrow> n < 8 \<and> bit w n"
proof -
  have "bit (0xFF :: u16) n \<longleftrightarrow> n < 8"
  proof -
    have "(0xFF :: u16) = mask 8" by (simp add: mask_eq_exp_minus_1)
    then show ?thesis by (simp only: bit_mask_iff) auto
  qed
  then show ?thesis by (auto simp: lo_byte_def bit_simps)
qed

lemma be16_bytes [simp]: "be16 (hi_byte w) (lo_byte w) = w"
  by (rule bit_word_eqI) (auto simp: bit_be16 bit_hi_byte bit_lo_byte)

lemma hi_byte_be16 [simp]: "hi_byte (be16 h l) = h"
  by (rule bit_word_eqI) (auto simp: bit_be16 bit_hi_byte)

lemma lo_byte_be16 [simp]: "lo_byte (be16 h l) = l"
  by (rule bit_word_eqI) (auto simp: bit_be16 bit_lo_byte)

lemma length_enc16 [simp]: "length (enc16 ws) = 2 * length ws"
  by (induction ws) auto

lemma dec16_enc16 [simp]: "dec16 (enc16 ws) = ws"
  by (induction ws) auto

lemma enc16_dec16: "even (length bs) \<Longrightarrow> enc16 (dec16 bs) = bs"
  by (induction bs rule: dec16.induct) auto

lemma length_dec16 [simp]: "length (dec16 bs) = length bs div 2"
  by (induction bs rule: dec16.induct) auto

end
