(* ===== verification/MB_Types.thy ===== *)
theory MB_Types
  imports Prelude
begin

text \<open>
  The types and constants the protocol stack shares (\<open>include/mb.h\<close>, \<open>mbproto.h\<close>,
  \<open>mbport.h\<close>, \<open>mbframe.h\<close>, \<open>mbconfig.h\<close>).
\<close>

datatype eMBMode = MB_RTU | MB_ASCII | MB_TCP

datatype eMBRegisterMode = MB_REG_READ | MB_REG_WRITE

datatype eMBErrorCode = MB_ENOERR | MB_ENOREG | MB_EINVAL | MB_EPORTERR | MB_ENORES | MB_EIO
  | MB_EILLSTATE | MB_ETIMEDOUT

datatype eMBException = MB_EX_NONE | MB_EX_ILLEGAL_FUNCTION | MB_EX_ILLEGAL_DATA_ADDRESS
  | MB_EX_ILLEGAL_DATA_VALUE | MB_EX_SLAVE_DEVICE_FAILURE | MB_EX_ACKNOWLEDGE | MB_EX_SLAVE_BUSY
  | MB_EX_MEMORY_PARITY_ERROR | MB_EX_GATEWAY_PATH_FAILED | MB_EX_GATEWAY_TGT_FAILED

fun exception_code :: "eMBException \<Rightarrow> u8" where
  "exception_code MB_EX_NONE = 0x00"
| "exception_code MB_EX_ILLEGAL_FUNCTION = 0x01"
| "exception_code MB_EX_ILLEGAL_DATA_ADDRESS = 0x02"
| "exception_code MB_EX_ILLEGAL_DATA_VALUE = 0x03"
| "exception_code MB_EX_SLAVE_DEVICE_FAILURE = 0x04"
| "exception_code MB_EX_ACKNOWLEDGE = 0x05"
| "exception_code MB_EX_SLAVE_BUSY = 0x06"
| "exception_code MB_EX_MEMORY_PARITY_ERROR = 0x08"
| "exception_code MB_EX_GATEWAY_PATH_FAILED = 0x0A"
| "exception_code MB_EX_GATEWAY_TGT_FAILED = 0x0B"

datatype eMBEventType = EV_READY | EV_FRAME_RECEIVED | EV_EXECUTE | EV_FRAME_SENT

datatype eMBBytePos = BYTE_HIGH_NIBBLE | BYTE_LOW_NIBBLE

datatype eMBParity = MB_PAR_NONE | MB_PAR_ODD | MB_PAR_EVEN

record eMB_Config =
  cfg_ucMBAddress :: u8
  cfg_ucSlaveAddress :: u8
  cfg_ucPort :: u8
  cfg_ulBaudRate :: u32
  cfg_eParity :: eMBParity

definition MB_ADDRESS_BROADCAST :: u8 where "MB_ADDRESS_BROADCAST = 0"
definition MB_ADDRESS_MIN :: u8 where "MB_ADDRESS_MIN = 1"
definition MB_ADDRESS_MAX :: u8 where "MB_ADDRESS_MAX = 247"

definition MB_PDU_SIZE_MAX :: nat where "MB_PDU_SIZE_MAX = 253"
definition MB_PDU_SIZE_MIN :: nat where "MB_PDU_SIZE_MIN = 1"
definition MB_PDU_FUNC_OFF :: nat where "MB_PDU_FUNC_OFF = 0"
definition MB_PDU_DATA_OFF :: nat where "MB_PDU_DATA_OFF = 1"

definition MB_FUNC_NONE :: u8 where "MB_FUNC_NONE = 0"
definition MB_FUNC_READ_COILS :: u8 where "MB_FUNC_READ_COILS = 1"
definition MB_FUNC_READ_DISCRETE_INPUTS :: u8 where "MB_FUNC_READ_DISCRETE_INPUTS = 2"
definition MB_FUNC_READ_HOLDING_REGISTER :: u8 where "MB_FUNC_READ_HOLDING_REGISTER = 3"
definition MB_FUNC_READ_INPUT_REGISTER :: u8 where "MB_FUNC_READ_INPUT_REGISTER = 4"
definition MB_FUNC_WRITE_SINGLE_COIL :: u8 where "MB_FUNC_WRITE_SINGLE_COIL = 5"
definition MB_FUNC_WRITE_REGISTER :: u8 where "MB_FUNC_WRITE_REGISTER = 6"
definition MB_FUNC_WRITE_MULTIPLE_COILS :: u8 where "MB_FUNC_WRITE_MULTIPLE_COILS = 15"
definition MB_FUNC_WRITE_MULTIPLE_REGISTERS :: u8 where "MB_FUNC_WRITE_MULTIPLE_REGISTERS = 16"
definition MB_FUNC_OTHER_REPORT_SLAVEID :: u8 where "MB_FUNC_OTHER_REPORT_SLAVEID = 17"
definition MB_FUNC_READWRITE_MULTIPLE_REGISTERS :: u8 where "MB_FUNC_READWRITE_MULTIPLE_REGISTERS = 23"
definition MB_FUNC_ERROR :: u8 where "MB_FUNC_ERROR = 128"

definition MB_FUNC_HANDLERS_MAX :: nat where "MB_FUNC_HANDLERS_MAX = 16"
definition MB_FUNC_OTHER_REP_SLAVEID_BUF :: nat where "MB_FUNC_OTHER_REP_SLAVEID_BUF = 32"

lemmas mb_consts = MB_ADDRESS_BROADCAST_def MB_ADDRESS_MIN_def MB_ADDRESS_MAX_def
  MB_PDU_SIZE_MAX_def MB_PDU_SIZE_MIN_def MB_PDU_FUNC_OFF_def MB_PDU_DATA_OFF_def
  MB_FUNC_NONE_def MB_FUNC_READ_COILS_def MB_FUNC_READ_DISCRETE_INPUTS_def
  MB_FUNC_READ_HOLDING_REGISTER_def MB_FUNC_READ_INPUT_REGISTER_def
  MB_FUNC_WRITE_SINGLE_COIL_def MB_FUNC_WRITE_REGISTER_def MB_FUNC_WRITE_MULTIPLE_COILS_def
  MB_FUNC_WRITE_MULTIPLE_REGISTERS_def MB_FUNC_OTHER_REPORT_SLAVEID_def
  MB_FUNC_READWRITE_MULTIPLE_REGISTERS_def MB_FUNC_ERROR_def MB_FUNC_HANDLERS_MAX_def
  MB_FUNC_OTHER_REP_SLAVEID_BUF_def

end
