(* ===== verification/MB_Utils.thy ===== *)
theory MB_Utils
  imports MB_Types
begin

text \<open>
  The bit-field helpers of \<open>functions/mbutils.c\<close> on 16-bit words, their meaning on the bits of
  the byte area, and the translation of application errors into exceptions. A pointer into an
  array is the array with a position.
\<close>

subsection \<open>Operations\<close>

definition BITS_UCHAR :: u16 where
  "BITS_UCHAR = 8"

definition field_mask :: "u8 \<Rightarrow> u16" where
  "field_mask ucNBits = push_bit (unat ucNBits) 1 - 1"

definition word_at :: "u8 list \<Rightarrow> nat \<Rightarrow> u16 res" where
  "word_at buf i =
     bindR (rd buf i) (\<lambda>l. bindR (rd buf (i + 1)) (\<lambda>h. Inr (ucast l OR push_bit 8 (ucast h))))"

definition xMBUtilSetBits :: "u8 list \<Rightarrow> nat \<Rightarrow> u16 \<Rightarrow> u8 \<Rightarrow> u8 \<Rightarrow> u8 list res" where
  "xMBUtilSetBits ucByteBuf p usBitOffset ucNBits ucValue =
     bindR (assertR (ucNBits \<le> 8)) (\<lambda>_.
     let usByteOffset = usBitOffset div BITS_UCHAR;
         usNPreBits = usBitOffset - usByteOffset * BITS_UCHAR;
         usValue = push_bit (unat usNPreBits) (ucast ucValue);
         usMask = push_bit (unat usNPreBits) (field_mask ucNBits);
         i = p + unat usByteOffset in
     bindR (word_at ucByteBuf i) (\<lambda>usWordBuf.
     let usWordBuf' = (usWordBuf AND NOT usMask) OR usValue in
     bindR (wr ucByteBuf i (ucast (usWordBuf' AND 0xFF))) (\<lambda>buf.
     wr buf (i + 1) (ucast (drop_bit 8 usWordBuf')))))"

definition xMBUtilGetBits :: "u8 list \<Rightarrow> nat \<Rightarrow> u16 \<Rightarrow> u8 \<Rightarrow> u8 res" where
  "xMBUtilGetBits ucByteBuf p usBitOffset ucNBits =
     (let usByteOffset = usBitOffset div BITS_UCHAR;
          usNPreBits = usBitOffset - usByteOffset * BITS_UCHAR;
          usMask = field_mask ucNBits in
      bindR (word_at ucByteBuf (p + unat usByteOffset)) (\<lambda>usWordBuf.
      Inr (ucast (drop_bit (unat usNPreBits) usWordBuf AND usMask))))"

fun prveMBError2Exception :: "eMBErrorCode \<Rightarrow> eMBException" where
  "prveMBError2Exception MB_ENOERR = MB_EX_NONE"
| "prveMBError2Exception MB_ENOREG = MB_EX_ILLEGAL_DATA_ADDRESS"
| "prveMBError2Exception MB_ETIMEDOUT = MB_EX_SLAVE_BUSY"
| "prveMBError2Exception _ = MB_EX_SLAVE_DEVICE_FAILURE"

subsection \<open>The bits of a byte area\<close>

text \<open>Bit \<open>k\<close> of an area is bit \<open>k mod 8\<close> of its byte \<open>k div 8\<close>, as in the Modbus data model.\<close>

definition area_bit :: "u8 list \<Rightarrow> nat \<Rightarrow> bool" where
  "area_bit buf k = bit (buf ! (k div 8)) (k mod 8)"

definition byte_of :: "(nat \<Rightarrow> bool) \<Rightarrow> u8" where
  "byte_of f = horner_sum of_bool 2 (map f [0..<8])"

lemma bit_byte_of [simp]: "bit (byte_of f) i \<longleftrightarrow> i < 8 \<and> f i"
  by (auto simp: byte_of_def bit_horner_sum_bit_word_iff)

lemma byte_eqI: "(\<And>i. i < 8 \<Longrightarrow> bit v i = bit w i) \<Longrightarrow> v = (w :: u8)"
  by (rule bit_word_eqI) simp

lemma bit_u8_le: "bit (w :: u8) i \<Longrightarrow> i < 8"
  by (drule bit_imp_le_length) simp

lemma bit_field_mask: "bit (field_mask n) i \<longleftrightarrow> i < 16 \<and> i < unat n"
proof -
  have "field_mask n = mask (unat n)" by (simp add: field_mask_def mask_eq_exp_minus_1 push_bit_eq_mult)
  then show ?thesis by (simp add: bit_mask_iff)
qed

lemma word_at_ok: "Suc i < length buf \<Longrightarrow> word_at buf i = Inr (be16 (buf ! Suc i) (buf ! i))"
  by (simp add: word_at_def be16_def or.commute)

lemma word_at_out: "length buf \<le> Suc i \<Longrightarrow> word_at buf i = Inl Out_Of_Bounds"
  by (cases "i < length buf") (simp_all add: word_at_def)

lemma area_bit_byte: "i < 8 \<Longrightarrow> area_bit buf (8 * p + i) = bit (buf ! p) i"
  by (simp add: area_bit_def)

lemma bit_pair:
  assumes "i < 16"
  shows "bit (be16 (buf ! Suc p) (buf ! p)) i = area_bit buf (8 * p + i)"
proof (cases "i < 8")
  case True
  then show ?thesis by (simp add: bit_be16 area_bit_byte)
next
  case False
  then have "8 * p + i = 8 * Suc p + (i - 8)" "i - 8 < 8" using assms by auto
  then have "area_bit buf (8 * p + i) = bit (buf ! Suc p) (i - 8)" by (metis area_bit_byte)
  with False assms show ?thesis by (simp add: bit_be16)
qed

text \<open>The helpers are only ever called with a bit offset below 8.\<close>

lemma offset_split:
  assumes "b < (8 :: u16)"
  shows "b div BITS_UCHAR = 0" and "unat b < 8"
proof -
  show "unat b < 8" using assms by (simp add: word_less_nat_alt)
  then show "b div BITS_UCHAR = 0"
    by (simp add: BITS_UCHAR_def word_unat_eq_iff unat_div)
qed

subsection \<open>Effect of the helpers\<close>

lemma getbits_ok:
  assumes "b < 8" and "Suc p < length buf"
  shows "xMBUtilGetBits buf p b n =
    Inr (byte_of (\<lambda>i. i < unat n \<and> area_bit buf (8 * p + unat b + i)))"
proof -
  note o = offset_split [OF assms(1)]
  let ?w = "be16 (buf ! Suc p) (buf ! p)"
  have "(ucast (drop_bit (unat b) ?w AND field_mask n) :: u8) =
      byte_of (\<lambda>i. i < unat n \<and> area_bit buf (8 * p + unat b + i))"
  proof (rule byte_eqI)
    fix i :: nat assume "i < 8"
    with o(2) have "bit ?w (unat b + i) = area_bit buf (8 * p + unat b + i)"
      using bit_pair [of "unat b + i" buf p] by (simp add: add.assoc)
    with \<open>i < 8\<close> show "bit (ucast (drop_bit (unat b) ?w AND field_mask n) :: u8) i =
        bit (byte_of (\<lambda>i. i < unat n \<and> area_bit buf (8 * p + unat b + i))) i"
      by (auto simp: bit_simps bit_field_mask)
  qed
  then show ?thesis
    using assms(2) by (simp add: xMBUtilGetBits_def o(1) word_at_ok)
qed

lemma getbits_out:
  assumes "b < 8" and "length buf \<le> Suc p"
  shows "xMBUtilGetBits buf p b n = Inl Out_Of_Bounds"
  using offset_split [OF assms(1)] assms(2) by (simp add: xMBUtilGetBits_def word_at_out)

lemma setbits_out:
  assumes "b < 8" and "n \<le> 8" and "length buf \<le> Suc p"
  shows "xMBUtilSetBits buf p b n v = Inl Out_Of_Bounds"
  using offset_split [OF assms(1)] assms(2,3) by (simp add: xMBUtilSetBits_def Let_def word_at_out)

lemma area_bit_pair_update:
  assumes "Suc p < length buf"
  shows "area_bit (buf[p := lo_byte w, Suc p := hi_byte w]) k =
    (if 8 * p \<le> k \<and> k < 8 * p + 16 then bit w (k - 8 * p) else area_bit buf k)"
proof -
  have k: "k = 8 * (k div 8) + k mod 8" "k mod 8 < 8" by simp_all
  consider "k div 8 = p" | "k div 8 = Suc p" | "k div 8 < p" | "Suc p < k div 8" by linarith
  then show ?thesis
  proof cases
    case 1
    with k have "k - 8 * p = k mod 8" "8 * p \<le> k" "k < 8 * p + 16" by auto
    with 1 assms k(2) show ?thesis by (simp add: area_bit_def bit_lo_byte)
  next
    case 2
    with k have "k - 8 * p = k mod 8 + 8" "8 * p \<le> k" "k < 8 * p + 16" by auto
    with 2 assms k(2) show ?thesis by (simp add: area_bit_def bit_hi_byte)
  next
    case 3
    with k have "k < 8 * p" by auto
    with 3 show ?thesis by (simp add: area_bit_def)
  next
    case 4
    with k have "8 * p + 16 \<le> k" by auto
    with 4 show ?thesis by (simp add: area_bit_def)
  qed
qed

text \<open>
  The \<open>n\<close> addressed bits take the value; the value's remaining bits are or-ed into the bits
  behind the field, since only the mask is limited to \<open>n\<close>.
\<close>

definition field_bit :: "u8 list \<Rightarrow> nat \<Rightarrow> nat \<Rightarrow> u8 \<Rightarrow> nat \<Rightarrow> bool" where
  "field_bit buf start n v k \<longleftrightarrow>
     (if start \<le> k \<and> k < start + n then bit v (k - start)
      else if start + n \<le> k \<and> k < start + 8 then area_bit buf k \<or> bit v (k - start)
      else area_bit buf k)"

lemma setbits_ok:
  assumes "b < 8" and "n \<le> 8" and "Suc p < length buf"
  shows "\<exists>buf'. xMBUtilSetBits buf p b n v = Inr buf' \<and> length buf' = length buf \<and>
    (\<forall>k. area_bit buf' k = field_bit buf (8 * p + unat b) (unat n) v k)"
proof -
  note o = offset_split [OF assms(1)]
  have n: "unat n \<le> 8" using assms(2) by (simp add: word_le_nat_alt)
  let ?w = "be16 (buf ! Suc p) (buf ! p)"
  let ?w' = "(?w AND NOT (push_bit (unat b) (field_mask n))) OR push_bit (unat b) (ucast v)"
  let ?buf = "buf[p := lo_byte ?w', Suc p := hi_byte ?w']"
  have e: "xMBUtilSetBits buf p b n v = Inr ?buf"
    using assms by (simp add: xMBUtilSetBits_def o(1) word_at_ok Let_def lo_byte_def hi_byte_def)
  have bits: "bit ?w' j = (if unat b \<le> j \<and> j < unat b + unat n then bit v (j - unat b)
      else area_bit buf (8 * p + j) \<or> unat b \<le> j \<and> bit v (j - unat b))" if "j < 16" for j
    using that o(2) n by (auto simp: bit_simps bit_field_mask bit_pair dest: bit_u8_le)
  have "area_bit ?buf k = field_bit buf (8 * p + unat b) (unat n) v k" for k
  proof (cases "8 * p \<le> k \<and> k < 8 * p + 16")
    case True
    then have d: "8 * p + (k - 8 * p) = k" "k - 8 * p < 16" by auto
    have s: "k - 8 * p - unat b = k - (8 * p + unat b)" by simp
    have "area_bit ?buf k = bit ?w' (k - 8 * p)"
      using True assms(3) by (simp add: area_bit_pair_update)
    also have "\<dots> = field_bit buf (8 * p + unat b) (unat n) v k"
      unfolding bits [OF d(2)] d(1) s field_bit_def using True by (auto dest: bit_u8_le)
    finally show ?thesis .
  next
    case False
    with o(2) n show ?thesis
      using assms(3) by (auto simp: area_bit_pair_update field_bit_def)
  qed
  with e show ?thesis by simp
qed

end
