(* ===== verification/Register_Bank.thy ===== *)
theory Register_Bank
  imports Prelude
begin

text \<open>
  The interface of a register bank as a Modbus master sees it: ranges of cells are read and
  written by start address and count. A provider promises that a read shows the cells and that
  a write changes exactly the addressed ones; the lemmas are what a client may rely on.
\<close>

locale register_bank =
  fixes rdop :: "'s \<Rightarrow> u16 \<Rightarrow> u16 \<Rightarrow> 'v list option"
    and wrop :: "'s \<Rightarrow> u16 \<Rightarrow> 'v list \<Rightarrow> 's option"
    and cell :: "'s \<Rightarrow> nat \<Rightarrow> 'v"
    and rng :: "nat \<Rightarrow> nat \<Rightarrow> bool"
    and inv :: "'s \<Rightarrow> bool"
  assumes rd_ok: "inv s \<Longrightarrow> rng (unat a) (unat n) \<Longrightarrow>
      rdop s a n = Some (map (cell s) [unat a..<unat a + unat n])"
    and wr_ok: "inv s \<Longrightarrow> rng (unat a) (length vs) \<Longrightarrow>
      \<exists>s'. wrop s a vs = Some s' \<and> inv s' \<and>
        (\<forall>k. cell s' k = (if unat a \<le> k \<and> k < unat a + length vs then vs ! (k - unat a) else cell s k))"
    and rng_small: "rng i m \<Longrightarrow> m < 65536"
begin

definition wr_image :: "u16 \<Rightarrow> 'v list \<Rightarrow> (nat \<Rightarrow> 'v) \<Rightarrow> nat \<Rightarrow> 'v" where
  "wr_image a vs m = (\<lambda>k. if unat a \<le> k \<and> k < unat a + length vs then vs ! (k - unat a) else m k)"

lemma wr_cells:
  assumes "inv s" and "rng (unat a) (length vs)"
  obtains s' where "wrop s a vs = Some s'" "inv s'" "cell s' = wr_image a vs (cell s)"
  using wr_ok [OF assms] by (auto simp: wr_image_def fun_eq_iff)

lemma read_after_write:
  assumes "inv s" and "rng (unat a) (length vs)"
  shows "\<exists>s'. wrop s a vs = Some s' \<and> inv s' \<and> rdop s' a (word_of_nat (length vs)) = Some vs"
proof -
  obtain s' where s': "wrop s a vs = Some s'" "inv s'" "cell s' = wr_image a vs (cell s)"
    using wr_cells [OF assms] .
  have l: "unat (word_of_nat (length vs) :: u16) = length vs"
    using rng_small [OF assms(2)] by (simp add: unat_of_nat)
  have "map (cell s') [unat a..<unat a + length vs] = vs"
    by (rule nth_equalityI) (simp_all add: s'(3) wr_image_def)
  with rd_ok [OF s'(2), of a "word_of_nat (length vs)"] assms(2) s' show ?thesis
    by (simp add: l)
qed

lemma read_elsewhere:
  assumes "inv s" and "rng (unat a) (length vs)" and "rng (unat b) (unat n)"
    and "unat b + unat n \<le> unat a \<or> unat a + length vs \<le> unat b"
  shows "\<exists>s'. wrop s a vs = Some s' \<and> rdop s' b n = rdop s b n"
proof -
  obtain s' where s': "wrop s a vs = Some s'" "inv s'" "cell s' = wr_image a vs (cell s)"
    using wr_cells [OF assms(1,2)] .
  have "map (cell s') [unat b..<unat b + unat n] = map (cell s) [unat b..<unat b + unat n]"
    using assms(4) by (auto simp: s'(3) wr_image_def)
  with s' show ?thesis by (simp add: rd_ok [OF s'(2) assms(3)] rd_ok [OF assms(1,3)])
qed

text \<open>A sequence of writes leaves the image of writing them one after the other.\<close>

fun wr_all :: "'s \<Rightarrow> (u16 \<times> 'v list) list \<Rightarrow> 's option" where
  "wr_all s [] = Some s"
| "wr_all s ((a, vs) # ws) = (case wrop s a vs of None \<Rightarrow> None | Some s' \<Rightarrow> wr_all s' ws)"

lemma wr_all_image:
  assumes "inv s" and "\<forall>(a, vs) \<in> set ws. rng (unat a) (length vs)"
  shows "\<exists>s'. wr_all s ws = Some s' \<and> inv s' \<and>
    cell s' = fold (\<lambda>(a, vs). wr_image a vs) ws (cell s)"
  using assms
proof (induction ws arbitrary: s)
  case (Cons w ws)
  obtain a vs where w: "w = (a, vs)" by fastforce
  with Cons.prems have "rng (unat a) (length vs)" by simp
  with Cons.prems(1) obtain s1 where
    s1: "wrop s a vs = Some s1" "inv s1" "cell s1 = wr_image a vs (cell s)"
    by (rule wr_cells)
  from Cons.IH [OF s1(2)] Cons.prems(2) show ?case by (simp add: w s1)
qed simp

end

end
