(* ===== verification/User_MB_App.thy ===== *)
theory User_MB_App
  imports MB_Utils Register_Bank
begin

text \<open>
  The register map of the device and the four callbacks of \<open>app/user/modbus/user_mb_app.c\<close>.
  A callback gets the frame buffer and the position \<open>pucRegBuffer\<close> points at, and gives the
  buffer back as it left it. The loop counters are natural numbers: each is bounded by the
  guard of the callback.
\<close>

definition S_DISCRETE_INPUT_START :: nat where "S_DISCRETE_INPUT_START = 0"
definition S_DISCRETE_INPUT_NDISCRETES :: nat where "S_DISCRETE_INPUT_NDISCRETES = 64"
definition S_COIL_START :: nat where "S_COIL_START = 0"
definition S_COIL_NCOILS :: nat where "S_COIL_NCOILS = 64"
definition S_REG_INPUT_START :: nat where "S_REG_INPUT_START = 0"
definition S_REG_INPUT_NREGS :: nat where "S_REG_INPUT_NREGS = 100"
definition S_REG_HOLDING_START :: nat where "S_REG_HOLDING_START = 0"
definition S_REG_HOLDING_NREGS :: nat where "S_REG_HOLDING_NREGS = 100"

lemmas regmap_consts = S_DISCRETE_INPUT_START_def S_DISCRETE_INPUT_NDISCRETES_def
  S_COIL_START_def S_COIL_NCOILS_def S_REG_INPUT_START_def S_REG_INPUT_NREGS_def
  S_REG_HOLDING_START_def S_REG_HOLDING_NREGS_def

record mb_app =
  ucSDiscInBuf :: "u8 list"
  ucSCoilBuf :: "u8 list"
  usSRegInBuf :: "u16 list"
  usSRegHoldBuf :: "u16 list"

definition mb_app_reset :: mb_app where
  "mb_app_reset =
     \<lparr>ucSDiscInBuf = replicate (S_DISCRETE_INPUT_NDISCRETES div 8) 0,
      ucSCoilBuf = replicate (S_COIL_NCOILS div 8) 0,
      usSRegInBuf = replicate S_REG_INPUT_NREGS 0,
      usSRegHoldBuf = replicate S_REG_HOLDING_NREGS 0\<rparr>"

subsection \<open>The loops of the callbacks\<close>

text \<open>Registers to bytes and back, high byte first.\<close>

fun regs_to_bytes :: "u16 list \<Rightarrow> nat \<Rightarrow> nat \<Rightarrow> u8 list \<Rightarrow> nat \<Rightarrow> u8 list res" where
  "regs_to_bytes regs iRegIndex 0 buf p = Inr buf"
| "regs_to_bytes regs iRegIndex (Suc usNRegs) buf p =
     bindR (rd regs iRegIndex) (\<lambda>r.
     bindR (wr buf p (ucast (drop_bit 8 r))) (\<lambda>buf1.
     bindR (wr buf1 (p + 1) (ucast (r AND 0xFF))) (\<lambda>buf2.
     regs_to_bytes regs (iRegIndex + 1) usNRegs buf2 (p + 2))))"

fun bytes_to_regs :: "u16 list \<Rightarrow> nat \<Rightarrow> nat \<Rightarrow> u8 list \<Rightarrow> nat \<Rightarrow> u16 list res" where
  "bytes_to_regs regs iRegIndex 0 buf p = Inr regs"
| "bytes_to_regs regs iRegIndex (Suc usNRegs) buf p =
     bindR (rd buf p) (\<lambda>h.
     bindR (wr regs iRegIndex (push_bit 8 (ucast h))) (\<lambda>regs1.
     bindR (rd buf (p + 1)) (\<lambda>l.
     bindR (wr regs1 iRegIndex ((regs1 ! iRegIndex) OR ucast l)) (\<lambda>regs2.
     bytes_to_regs regs2 (iRegIndex + 1) usNRegs buf (p + 2)))))"

text \<open>Eight bits at a time out of a bit area, and into it.\<close>

fun bits_to_bytes :: "u8 list \<Rightarrow> nat \<Rightarrow> u16 \<Rightarrow> nat \<Rightarrow> u8 list \<Rightarrow> nat \<Rightarrow> u8 list res" where
  "bits_to_bytes area iRegIndex iRegBitIndex 0 buf p = Inr buf"
| "bits_to_bytes area iRegIndex iRegBitIndex (Suc iNReg) buf p =
     bindR (xMBUtilGetBits area iRegIndex iRegBitIndex 8) (\<lambda>v.
     bindR (wr buf p v) (\<lambda>buf1.
     bits_to_bytes area (iRegIndex + 1) iRegBitIndex iNReg buf1 (p + 1)))"

fun bytes_to_bits :: "u8 list \<Rightarrow> nat \<Rightarrow> u16 \<Rightarrow> nat \<Rightarrow> u8 list \<Rightarrow> nat \<Rightarrow> u8 list res" where
  "bytes_to_bits area iRegIndex iRegBitIndex 0 buf p = Inr area"
| "bytes_to_bits area iRegIndex iRegBitIndex (Suc iNReg) buf p =
     bindR (rd buf p) (\<lambda>v.
     bindR (xMBUtilSetBits area iRegIndex iRegBitIndex 8 v) (\<lambda>area1.
     bytes_to_bits area1 (iRegIndex + 1) iRegBitIndex iNReg buf (p + 1)))"

text \<open>The last byte keeps its low \<open>n mod 8\<close> bits: shifted up and down again in place.\<close>

definition trim_last :: "u8 list \<Rightarrow> nat \<Rightarrow> nat \<Rightarrow> u8 list res" where
  "trim_last buf p n =
     bindR (rd buf p) (\<lambda>v.
     bindR (wr buf p (push_bit (8 - n mod 8) v)) (\<lambda>buf1.
     bindR (rd buf1 p) (\<lambda>w. wr buf1 p (drop_bit (8 - n mod 8) w))))"

subsection \<open>The callbacks\<close>

definition eMBRegInputCB ::
  "mb_app \<Rightarrow> u8 list \<Rightarrow> nat \<Rightarrow> u16 \<Rightarrow> u16 \<Rightarrow> (u8 list \<times> eMBErrorCode) res" where
  "eMBRegInputCB app buf p usAddress usNRegs =
     (let addr = unat (usAddress - 1) in
      if addr \<ge> S_REG_INPUT_START \<and>
         addr + unat usNRegs \<le> S_REG_INPUT_START + S_REG_INPUT_NREGS then
        bindR (regs_to_bytes (usSRegInBuf app) (addr - S_REG_INPUT_START) (unat usNRegs) buf p)
          (\<lambda>buf'. Inr (buf', MB_ENOERR))
      else Inr (buf, MB_ENOREG))"

definition eMBRegHoldingCB ::
  "mb_app \<Rightarrow> u8 list \<Rightarrow> nat \<Rightarrow> u16 \<Rightarrow> u16 \<Rightarrow> eMBRegisterMode \<Rightarrow>
   (mb_app \<times> u8 list \<times> eMBErrorCode) res" where
  "eMBRegHoldingCB app buf p usAddress usNRegs eMode =
     (let addr = unat (usAddress - 1) in
      if addr \<ge> S_REG_HOLDING_START \<and>
         addr + unat usNRegs \<le> S_REG_HOLDING_START + S_REG_HOLDING_NREGS then
        (let iRegIndex = addr - S_REG_HOLDING_START in
         case eMode of
           MB_REG_READ \<Rightarrow>
             bindR (regs_to_bytes (usSRegHoldBuf app) iRegIndex (unat usNRegs) buf p)
               (\<lambda>buf'. Inr (app, buf', MB_ENOERR))
         | MB_REG_WRITE \<Rightarrow>
             bindR (bytes_to_regs (usSRegHoldBuf app) iRegIndex (unat usNRegs) buf p)
               (\<lambda>regs. Inr (app\<lparr>usSRegHoldBuf := regs\<rparr>, buf, MB_ENOERR)))
      else Inr (app, buf, MB_ENOREG))"

definition eMBRegCoilsCB ::
  "mb_app \<Rightarrow> u8 list \<Rightarrow> nat \<Rightarrow> u16 \<Rightarrow> u16 \<Rightarrow> eMBRegisterMode \<Rightarrow>
   (mb_app \<times> u8 list \<times> eMBErrorCode) res" where
  "eMBRegCoilsCB app buf p usAddress usNCoils eMode =
     (let iNReg = unat usNCoils div 8 + 1;
          addr = unat (usAddress - 1) in
      if addr \<ge> S_COIL_START \<and> addr + unat usNCoils \<le> S_COIL_START + S_COIL_NCOILS then
        (let iRegIndex = (addr - S_COIL_START) div 8;
             iRegBitIndex = word_of_nat ((addr - S_COIL_START) mod 8) in
         case eMode of
           MB_REG_READ \<Rightarrow>
             bindR (bits_to_bytes (ucSCoilBuf app) iRegIndex iRegBitIndex iNReg buf p) (\<lambda>buf1.
             bindR (trim_last buf1 (p + iNReg - 1) (unat usNCoils)) (\<lambda>buf2.
             Inr (app, buf2, MB_ENOERR)))
         | MB_REG_WRITE \<Rightarrow>
             bindR (bytes_to_bits (ucSCoilBuf app) iRegIndex iRegBitIndex (iNReg - 1) buf p) (\<lambda>area.
             let rest = unat usNCoils mod 8 in
             if rest \<noteq> 0 then
               bindR (rd buf (p + (iNReg - 1))) (\<lambda>v.
               bindR (xMBUtilSetBits area (iRegIndex + (iNReg - 1)) iRegBitIndex (word_of_nat rest) v)
                 (\<lambda>area'. Inr (app\<lparr>ucSCoilBuf := area'\<rparr>, buf, MB_ENOERR)))
             else Inr (app\<lparr>ucSCoilBuf := area\<rparr>, buf, MB_ENOERR)))
      else Inr (app, buf, MB_ENOREG))"

definition eMBRegDiscreteCB ::
  "mb_app \<Rightarrow> u8 list \<Rightarrow> nat \<Rightarrow> u16 \<Rightarrow> u16 \<Rightarrow> (u8 list \<times> eMBErrorCode) res" where
  "eMBRegDiscreteCB app buf p usAddress usNDiscrete =
     (let iNReg = unat usNDiscrete div 8 + 1;
          addr = unat (usAddress - 1) in
      if addr \<ge> S_DISCRETE_INPUT_START \<and>
         addr + unat usNDiscrete \<le> S_DISCRETE_INPUT_START + S_DISCRETE_INPUT_NDISCRETES then
        (let iRegIndex = (addr - S_DISCRETE_INPUT_START) div 8;
             iRegBitIndex = word_of_nat ((addr - S_DISCRETE_INPUT_START) mod 8) in
         bindR (bits_to_bytes (ucSDiscInBuf app) iRegIndex iRegBitIndex iNReg buf p) (\<lambda>buf1.
         bindR (trim_last buf1 (p + iNReg - 1) (unat usNDiscrete)) (\<lambda>buf2.
         Inr (buf2, MB_ENOERR))))
      else Inr (buf, MB_ENOREG))"

subsection \<open>Registers\<close>

lemma regs_to_bytes_ok:
  assumes "i + n \<le> length regs" and "p + 2 * n \<le> length buf"
  shows "regs_to_bytes regs i n buf p = Inr (blit p (enc16 (window i n regs)) buf)"
  using assms
proof (induction n arbitrary: i p buf)
  case (Suc n)
  let ?r = "regs ! i"
  have "regs_to_bytes regs i (Suc n) buf p =
      regs_to_bytes regs (Suc i) n (buf[p := hi_byte ?r, Suc p := lo_byte ?r]) (Suc (Suc p))"
    using Suc.prems by (simp add: hi_byte_def lo_byte_def)
  also have "\<dots> = Inr (blit (Suc (Suc p)) (enc16 (window (Suc i) n regs))
      (buf[p := hi_byte ?r, Suc p := lo_byte ?r]))"
    using Suc.prems by (intro Suc.IH) simp_all
  also have "\<dots> = Inr (blit p (enc16 (window i (Suc n) regs)) buf)"
    using Suc.prems by (simp add: window_Suc blit_Cons)
  finally show ?case .
qed simp

lemma bytes_to_regs_ok:
  assumes "i + n \<le> length regs" and "p + 2 * n \<le> length buf"
  shows "bytes_to_regs regs i n buf p = Inr (blit i (dec16 (window p (2 * n) buf)) regs)"
  using assms
proof (induction n arbitrary: i p regs)
  case (Suc n)
  let ?w = "be16 (buf ! p) (buf ! Suc p)"
  have "bytes_to_regs regs i (Suc n) buf p = bytes_to_regs (regs[i := ?w]) (Suc i) n buf (Suc (Suc p))"
    using Suc.prems by (simp add: be16_def)
  also have "\<dots> = Inr (blit (Suc i) (dec16 (window (Suc (Suc p)) (2 * n) buf)) (regs[i := ?w]))"
    using Suc.prems by (intro Suc.IH) simp_all
  also have "\<dots> = Inr (blit i (dec16 (window p (2 * Suc n) buf)) regs)"
    using Suc.prems by (simp add: window_Suc blit_Cons)
  finally show ?case .
qed simp

lemma u16_pred_succ [simp]: "unat (w + 1 - 1 :: u16) = unat w"
  by simp

subsection \<open>Coils and discrete inputs\<close>

text \<open>
  \<open>n\<close> bits from bit \<open>a\<close> of an area, packed eight to a byte, lowest address in bit 0; the
  callbacks always fill one byte beyond \<open>n div 8\<close>, all zero if eight divides \<open>n\<close>.
\<close>

definition packed :: "u8 list \<Rightarrow> nat \<Rightarrow> nat \<Rightarrow> u8 list" where
  "packed area a n =
     map (\<lambda>j. byte_of (\<lambda>t. 8 * j + t < n \<and> area_bit area (a + 8 * j + t))) [0..<n div 8 + 1]"

lemma length_packed [simp]: "length (packed area a n) = n div 8 + 1"
  by (simp add: packed_def)

definition bytes_from :: "u8 list \<Rightarrow> nat \<Rightarrow> nat \<Rightarrow> u8 list" where
  "bytes_from area a m = map (\<lambda>j. byte_of (\<lambda>t. area_bit area (a + 8 * j + t))) [0..<m]"

lemma bytes_from_Suc:
  "bytes_from area a (Suc m) = byte_of (\<lambda>t. area_bit area (a + t)) # bytes_from area (a + 8) m"
  by (simp add: bytes_from_def upt_conv_Cons map_Suc_upt [symmetric] o_def ac_simps del: upt_Suc)

lemma bits_to_bytes_ok:
  assumes "b < 8" and "m = 0 \<or> i + m < length area" and "p + m \<le> length buf"
  shows "bits_to_bytes area i b m buf p = Inr (blit p (bytes_from area (8 * i + unat b) m) buf)"
  using assms(2,3)
proof (induction m arbitrary: i p buf)
  case 0
  then show ?case by (simp add: bytes_from_def)
next
  case (Suc m)
  let ?v = "byte_of (\<lambda>t. area_bit area (8 * i + unat b + t))"
  have "xMBUtilGetBits area i b 8 = Inr (byte_of (\<lambda>t. t < 8 \<and> area_bit area (8 * i + unat b + t)))"
    using Suc.prems assms(1) getbits_ok [of b i area 8] by simp
  also have "byte_of (\<lambda>t. t < 8 \<and> area_bit area (8 * i + unat b + t)) = ?v"
    by (rule byte_eqI) simp
  finally have "bits_to_bytes area i b (Suc m) buf p =
      bits_to_bytes area (Suc i) b m (buf[p := ?v]) (Suc p)"
    using Suc.prems by simp
  also have "\<dots> = Inr (blit (Suc p) (bytes_from area (8 * Suc i + unat b) m) (buf[p := ?v]))"
    using Suc.prems by (intro Suc.IH) auto
  also have "\<dots> = Inr (blit p (bytes_from area (8 * i + unat b) (Suc m)) buf)"
    using Suc.prems by (simp add: bytes_from_Suc blit_Cons ac_simps)
  finally show ?case .
qed

lemma bits_to_bytes_out:
  assumes "b < 8" and "length area \<le> i + m" and "0 < m" and "p + m \<le> length buf"
  shows "bits_to_bytes area i b m buf p = Inl Out_Of_Bounds"
  using assms(2-4)
proof (induction m arbitrary: i p buf)
  case (Suc m)
  show ?case
  proof (cases "Suc i < length area")
    case True
    with Suc.prems have "0 < m" by auto
    with Suc True show ?thesis
      by (simp add: getbits_ok [OF assms(1)])
  qed (simp add: getbits_out [OF assms(1)])
qed simp

lemma trim_last_ok:
  assumes "p < length buf"
  shows "trim_last buf p n = Inr (buf[p := byte_of (\<lambda>t. t < n mod 8 \<and> bit (buf ! p) t)])"
proof -
  have "drop_bit (8 - n mod 8) (push_bit (8 - n mod 8) (buf ! p)) =
      byte_of (\<lambda>t. t < n mod 8 \<and> bit (buf ! p) t)"
    by (rule byte_eqI) (auto simp: bit_simps)
  with assms show ?thesis by (simp add: trim_last_def)
qed

text \<open>Trimming the last of the copied bytes leaves the packed bits.\<close>

lemma blit_last_update:
  assumes "p + length ys \<le> length buf" and "ys \<noteq> []"
  shows "(blit p ys buf)[p + length ys - 1 := v] = blit p (butlast ys @ [v]) buf"
    and "blit p ys buf ! (p + length ys - 1) = last ys"
proof -
  have l: "p + length ys - 1 = p + length (butlast ys)" using assms(2) by (cases ys) auto
  have e: "blit p ys buf = take p buf @ butlast ys @ last ys # drop (p + length ys) buf"
    using assms(2) by (simp add: blit_def)
  have t: "length (take p buf) = p" using assms(1) by simp
  show "(blit p ys buf)[p + length ys - 1 := v] = blit p (butlast ys @ [v]) buf"
    unfolding l e using assms by (simp add: blit_def list_update_append t del: length_take)
  show "blit p ys buf ! (p + length ys - 1) = last ys"
    unfolding l e by (simp add: nth_append t del: length_take)
qed

lemma packed_trim:
  "butlast (bytes_from area a (Suc (n div 8))) @
     [byte_of (\<lambda>t. t < n mod 8 \<and> bit (last (bytes_from area a (Suc (n div 8)))) t)] = packed area a n"
proof -
  have lt: "8 * j + t < n" if "j < n div 8" "t < 8" for j t using that by linarith
  have last: "8 * (n div 8) + t < n \<longleftrightarrow> t < n mod 8" for t by presburger
  have 1: "byte_of (\<lambda>t. area_bit area (a + 8 * j + t)) =
      byte_of (\<lambda>t. 8 * j + t < n \<and> area_bit area (a + 8 * j + t))" if "j < n div 8" for j
    by (rule byte_eqI) (simp add: lt that)
  have 2: "byte_of (\<lambda>t. t < n mod 8 \<and> t < 8 \<and> area_bit area (a + 8 * (n div 8) + t)) =
      byte_of (\<lambda>t. 8 * (n div 8) + t < n \<and> area_bit area (a + 8 * (n div 8) + t))"
    by (rule byte_eqI) (simp add: last)
  have "map (\<lambda>j. byte_of (\<lambda>t. area_bit area (a + 8 * j + t))) [0..<n div 8] =
     map (\<lambda>j. byte_of (\<lambda>t. 8 * j + t < n \<and> area_bit area (a + 8 * j + t))) [0..<n div 8]"
    by (rule map_cong) (simp_all add: 1)
  then show ?thesis by (simp add: bytes_from_def packed_def 2)
qed

lemma read_bits_ok:
  assumes "a div 8 + (n div 8 + 1) < length area" and "p + (n div 8 + 1) \<le> length buf"
  shows "bindR (bits_to_bytes area (a div 8) (word_of_nat (a mod 8)) (n div 8 + 1) buf p)
      (\<lambda>buf1. trim_last buf1 (p + (n div 8 + 1) - 1) n) = Inr (blit p (packed area a n) buf)"
proof -
  have b: "word_of_nat (a mod 8) < (8 :: u16)" "unat (word_of_nat (a mod 8) :: u16) = a mod 8"
    by (simp_all add: word_less_nat_alt unat_of_nat)
  let ?ys = "bytes_from area a (n div 8 + 1)"
  have l: "length ?ys = n div 8 + 1" by (simp add: bytes_from_def)
  have ne: "?ys \<noteq> []" using l by auto
  have "bits_to_bytes area (a div 8) (word_of_nat (a mod 8)) (n div 8 + 1) buf p = Inr (blit p ?ys buf)"
    using bits_to_bytes_ok [OF b(1), of "n div 8 + 1" "a div 8" area p buf] assms
    by (simp only: b(2)) simp
  moreover have "trim_last (blit p ?ys buf) (p + (n div 8 + 1) - 1) n = Inr (blit p (packed area a n) buf)"
    using assms(2) l ne blit_last_update [of p ?ys buf]
    by (simp add: trim_last_ok packed_trim flip: l)
  ultimately show ?thesis by simp
qed

text \<open>
  A write puts the frame's bits into the area; the rest of its last byte is or-ed into the bits
  behind the addressed ones.
\<close>

definition written_bit :: "u8 list \<Rightarrow> nat \<Rightarrow> nat \<Rightarrow> u8 list \<Rightarrow> nat \<Rightarrow> nat \<Rightarrow> bool" where
  "written_bit area a n buf p k \<longleftrightarrow>
     (if a \<le> k \<and> k < a + n then area_bit buf (8 * p + (k - a))
      else if a + n \<le> k \<and> k < a + 8 * ((n + 7) div 8)
      then area_bit area k \<or> area_bit buf (8 * p + (k - a))
      else area_bit area k)"

lemma bytes_to_bits_ok:
  assumes "b < 8" and "m = 0 \<or> i + m < length area" and "p + m \<le> length buf"
  shows "\<exists>area'. bytes_to_bits area i b m buf p = Inr area' \<and> length area' = length area \<and>
    (\<forall>k. area_bit area' k = written_bit area (8 * i + unat b) (8 * m) buf p k)"
  using assms(2,3)
proof (induction m arbitrary: i p area)
  case 0
  then show ?case by (auto simp: written_bit_def)
next
  case (Suc m)
  let ?a = "8 * i + unat b"
  obtain area1 where 1: "xMBUtilSetBits area i b 8 (buf ! p) = Inr area1" "length area1 = length area"
      "\<And>k. area_bit area1 k = field_bit area ?a 8 (buf ! p) k"
    using setbits_ok [OF assms(1), of 8 i area "buf ! p"] Suc.prems by auto
  obtain area2 where 2: "bytes_to_bits area1 (Suc i) b m buf (Suc p) = Inr area2"
      "length area2 = length area1"
      "\<And>k. area_bit area2 k = written_bit area1 (8 * Suc i + unat b) (8 * m) buf (Suc p) k"
    using Suc.IH [of "Suc i" area1 "Suc p"] Suc.prems 1(2) by auto
  have "area_bit area2 k = written_bit area ?a (8 * Suc m) buf p k" for k
  proof (cases "?a \<le> k \<and> k < ?a + 8")
    case True
    then have "area_bit buf (8 * p + (k - ?a)) = bit (buf ! p) (k - ?a)"
      by (intro area_bit_byte) auto
    with True show ?thesis by (simp add: 2(3) 1(3) written_bit_def field_bit_def)
  next
    case False
    have "8 * Suc p + (k - (?a + 8)) = 8 * p + (k - ?a)" if "?a + 8 \<le> k" using that by auto
    with False show ?thesis by (auto simp: 2(3) 1(3) written_bit_def field_bit_def ac_simps)
  qed
  with 1 2 Suc.prems show ?case by simp
qed

lemma write_rest:
  assumes f: "\<And>k. area_bit area1 k = written_bit area a (8 * (n div 8)) buf p k"
    and g: "\<And>k. area_bit area2 k =
      field_bit area1 (a + 8 * (n div 8)) (n mod 8) (buf ! (p + n div 8)) k"
    and "0 < n mod 8"
  shows "area_bit area2 k = written_bit area a n buf p k"
proof -
  have up: "8 * ((n + 7) div 8) = 8 * (n div 8) + 8" using assms(3) by presburger
  have n: "n = 8 * (n div 8) + n mod 8" "n mod 8 < 8" by simp_all
  let ?s = "a + 8 * (n div 8)"
  show ?thesis
  proof (cases "?s \<le> k \<and> k < ?s + 8")
    case True
    then have "8 * p + (k - a) = 8 * (p + n div 8) + (k - ?s)" "k - ?s < 8" by auto
    then have "area_bit buf (8 * p + (k - a)) = bit (buf ! (p + n div 8)) (k - ?s)"
      by (metis area_bit_byte)
    with True n up show ?thesis by (auto simp: g f written_bit_def field_bit_def)
  next
    case False
    with n up show ?thesis by (auto simp: g f written_bit_def field_bit_def)
  qed
qed

subsection \<open>The callbacks as the handlers call them\<close>

text \<open>A handler passes the address of the request plus one.\<close>

lemma input_cb_ok:
  assumes "unat a + unat n \<le> S_REG_INPUT_NREGS" and "S_REG_INPUT_NREGS \<le> length (usSRegInBuf app)"
    and "p + 2 * unat n \<le> length buf"
  shows "eMBRegInputCB app buf p (a + 1) n =
    Inr (blit p (enc16 (window (unat a) (unat n) (usSRegInBuf app))) buf, MB_ENOERR)"
  using assms by (simp add: eMBRegInputCB_def regs_to_bytes_ok regmap_consts)

lemma input_cb_noreg:
  "S_REG_INPUT_NREGS < unat a + unat n \<Longrightarrow> eMBRegInputCB app buf p (a + 1) n = Inr (buf, MB_ENOREG)"
  by (simp add: eMBRegInputCB_def regmap_consts)

lemma holding_cb_read:
  assumes "unat a + unat n \<le> S_REG_HOLDING_NREGS"
    and "S_REG_HOLDING_NREGS \<le> length (usSRegHoldBuf app)" and "p + 2 * unat n \<le> length buf"
  shows "eMBRegHoldingCB app buf p (a + 1) n MB_REG_READ =
    Inr (app, blit p (enc16 (window (unat a) (unat n) (usSRegHoldBuf app))) buf, MB_ENOERR)"
  using assms by (simp add: eMBRegHoldingCB_def regs_to_bytes_ok regmap_consts)

lemma holding_cb_write:
  assumes "unat a + unat n \<le> S_REG_HOLDING_NREGS"
    and "S_REG_HOLDING_NREGS \<le> length (usSRegHoldBuf app)" and "p + 2 * unat n \<le> length buf"
  shows "eMBRegHoldingCB app buf p (a + 1) n MB_REG_WRITE =
    Inr (app\<lparr>usSRegHoldBuf := blit (unat a) (dec16 (window p (2 * unat n) buf)) (usSRegHoldBuf app)\<rparr>,
         buf, MB_ENOERR)"
  using assms by (simp add: eMBRegHoldingCB_def bytes_to_regs_ok regmap_consts)

lemma holding_cb_noreg:
  "S_REG_HOLDING_NREGS < unat a + unat n \<Longrightarrow>
   eMBRegHoldingCB app buf p (a + 1) n m = Inr (app, buf, MB_ENOREG)"
  by (simp add: eMBRegHoldingCB_def regmap_consts)

lemma coils_cb_read:
  assumes "unat a + unat n \<le> S_COIL_NCOILS"
    and "unat a div 8 + (unat n div 8 + 1) < length (ucSCoilBuf app)"
    and "p + (unat n div 8 + 1) \<le> length buf"
  shows "eMBRegCoilsCB app buf p (a + 1) n MB_REG_READ =
    Inr (app, blit p (packed (ucSCoilBuf app) (unat a) (unat n)) buf, MB_ENOERR)"
  using assms(1) read_bits_ok [OF assms(2,3)]
  by (auto simp: eMBRegCoilsCB_def regmap_consts Let_def res_simps simp del: One_nat_def)

lemma discrete_cb_read:
  assumes "unat a + unat n \<le> S_DISCRETE_INPUT_NDISCRETES"
    and "unat a div 8 + (unat n div 8 + 1) < length (ucSDiscInBuf app)"
    and "p + (unat n div 8 + 1) \<le> length buf"
  shows "eMBRegDiscreteCB app buf p (a + 1) n =
    Inr (blit p (packed (ucSDiscInBuf app) (unat a) (unat n)) buf, MB_ENOERR)"
  using assms(1) read_bits_ok [OF assms(2,3)]
  by (auto simp: eMBRegDiscreteCB_def regmap_consts Let_def res_simps simp del: One_nat_def)

lemma bit_index:
  "word_of_nat (k mod 8) < (8 :: u16)" "unat (word_of_nat (k mod 8) :: u16) = k mod 8"
  "word_of_nat (k mod 8) \<le> (8 :: u8)" "unat (word_of_nat (k mod 8) :: u8) = k mod 8"
proof -
  have "k mod 8 < 8" by simp
  then show "word_of_nat (k mod 8) < (8 :: u16)" "unat (word_of_nat (k mod 8) :: u16) = k mod 8"
    "word_of_nat (k mod 8) \<le> (8 :: u8)" "unat (word_of_nat (k mod 8) :: u8) = k mod 8"
    by (simp_all add: word_less_nat_alt word_le_nat_alt unat_of_nat)
qed

lemma coils_cb_read_out:
  assumes "unat a + unat n \<le> S_COIL_NCOILS"
    and "length (ucSCoilBuf app) \<le> unat a div 8 + (unat n div 8 + 1)"
    and "p + (unat n div 8 + 1) \<le> length buf"
  shows "eMBRegCoilsCB app buf p (a + 1) n MB_REG_READ = Inl Out_Of_Bounds"
  using assms
  by (simp add: eMBRegCoilsCB_def regmap_consts Let_def bit_index bits_to_bytes_out del: bits_to_bytes.simps)

lemma coils_cb_noreg:
  "S_COIL_NCOILS < unat a + unat n \<Longrightarrow>
   eMBRegCoilsCB app buf p (a + 1) n m = Inr (app, buf, MB_ENOREG)"
  by (simp add: eMBRegCoilsCB_def regmap_consts Let_def)

lemma discrete_cb_noreg:
  "S_DISCRETE_INPUT_NDISCRETES < unat a + unat n \<Longrightarrow>
   eMBRegDiscreteCB app buf p (a + 1) n = Inr (buf, MB_ENOREG)"
  by (simp add: eMBRegDiscreteCB_def regmap_consts Let_def)

text \<open>The bytes a write of \<open>n\<close> coils touches: \<open>n div 8\<close> fields of eight and one for the rest.\<close>

lemma coils_cb_write:
  assumes "unat a + unat n \<le> S_COIL_NCOILS"
    and "n = 0 \<or> unat a div 8 + (unat n + 7) div 8 < length (ucSCoilBuf app)"
    and "p + (unat n + 7) div 8 \<le> length buf"
  shows "\<exists>area. eMBRegCoilsCB app buf p (a + 1) n MB_REG_WRITE =
      Inr (app\<lparr>ucSCoilBuf := area\<rparr>, buf, MB_ENOERR) \<and>
    length area = length (ucSCoilBuf app) \<and>
    (\<forall>k. area_bit area k = written_bit (ucSCoilBuf app) (unat a) (unat n) buf p k)"
proof -
  let ?n = "unat n" and ?a = "unat a" and ?area = "ucSCoilBuf app"
  have ceil: "(?n + 7) div 8 = (if ?n mod 8 = 0 then ?n div 8 else ?n div 8 + 1)" by presburger
  have n0: "n = 0 \<longleftrightarrow> ?n = 0" by (simp add: unat_eq_zero)
  have m: "?n div 8 = 0 \<or> ?a div 8 + ?n div 8 < length ?area" "p + ?n div 8 \<le> length buf"
    using assms(2,3) ceil n0 by (auto split: if_splits)
  obtain area1 where 1: "bytes_to_bits ?area (?a div 8) (word_of_nat (?a mod 8)) (?n div 8) buf p = Inr area1"
      "length area1 = length ?area"
      "\<And>k. area_bit area1 k = written_bit ?area ?a (8 * (?n div 8)) buf p k"
    using bytes_to_bits_ok [OF bit_index(1) m, of ?a] by (auto simp: bit_index)
  show ?thesis
  proof (cases "?n mod 8 = 0")
    case True
    then have "8 * (?n div 8) = ?n" by auto
    moreover have "eMBRegCoilsCB app buf p (a + 1) n MB_REG_WRITE =
        Inr (app\<lparr>ucSCoilBuf := area1\<rparr>, buf, MB_ENOERR)"
      using assms(1) True by (simp add: eMBRegCoilsCB_def regmap_consts Let_def 1(1))
    ultimately show ?thesis using 1(2,3) by (intro exI [of _ area1]) simp
  next
    case False
    then have n: "?n \<noteq> 0" by (cases "?n = 0") simp_all
    have l: "Suc (?a div 8 + ?n div 8) < length area1" "p + ?n div 8 < length buf"
      using assms(2,3) ceil False n n0 1(2) by auto
    obtain area2 where 2: "xMBUtilSetBits area1 (?a div 8 + ?n div 8) (word_of_nat (?a mod 8))
          (word_of_nat (?n mod 8)) (buf ! (p + ?n div 8)) = Inr area2" "length area2 = length area1"
        "\<And>k. area_bit area2 k = field_bit area1 (8 * (?a div 8 + ?n div 8) + ?a mod 8) (?n mod 8)
          (buf ! (p + ?n div 8)) k"
      using setbits_ok [OF bit_index(1) bit_index(3) l(1), of ?a ?n "buf ! (p + ?n div 8)"]
      by (auto simp: bit_index)
    have s: "8 * (?a div 8 + ?n div 8) + ?a mod 8 = ?a + 8 * (?n div 8)" by simp
    have "area_bit area2 k = written_bit ?area ?a ?n buf p k" for k
    proof (rule write_rest [of area1])
      show "area_bit area1 j = written_bit ?area ?a (8 * (?n div 8)) buf p j" for j by (rule 1(3))
      show "area_bit area2 j = field_bit area1 (?a + 8 * (?n div 8)) (?n mod 8)
          (buf ! (p + ?n div 8)) j" for j
        unfolding 2(3) s ..
      show "0 < ?n mod 8" using False by simp
    qed
    moreover have "eMBRegCoilsCB app buf p (a + 1) n MB_REG_WRITE =
        Inr (app\<lparr>ucSCoilBuf := area2\<rparr>, buf, MB_ENOERR)"
      using assms(1) False l(2)
      by (simp add: eMBRegCoilsCB_def regmap_consts Let_def 1(1) 2(1) del: bytes_to_bits.simps)
    ultimately show ?thesis using 1(2) 2(2) by (intro exI [of _ area2]) simp
  qed
qed

lemma bytes_to_bits_out:
  assumes "b < 8" and "length area \<le> i + m" and "0 < m" and "p + m \<le> length buf"
  shows "bytes_to_bits area i b m buf p = Inl Out_Of_Bounds"
  using assms(2-4)
proof (induction m arbitrary: i p area)
  case (Suc m)
  show ?case
  proof (cases "Suc i < length area")
    case True
    then obtain area1 where "xMBUtilSetBits area i b 8 (buf ! p) = Inr area1" "length area1 = length area"
      using setbits_ok [OF assms(1), of 8 i area "buf ! p"] by auto
    with Suc True show ?thesis by simp
  qed (use Suc.prems in \<open>simp add: setbits_out [OF assms(1)]\<close>)
qed simp

lemma coils_cb_write_out:
  assumes "unat a + unat n \<le> S_COIL_NCOILS" and "0 < unat n"
    and "length (ucSCoilBuf app) \<le> unat a div 8 + (unat n + 7) div 8"
    and "p + (unat n + 7) div 8 \<le> length buf"
  shows "eMBRegCoilsCB app buf p (a + 1) n MB_REG_WRITE = Inl Out_Of_Bounds"
proof -
  let ?n = "unat n" and ?a = "unat a" and ?area = "ucSCoilBuf app"
  have ceil: "(?n + 7) div 8 = (if ?n mod 8 = 0 then ?n div 8 else ?n div 8 + 1)" by presburger
  have len: "p + ?n div 8 \<le> length buf" using assms(4) ceil by (auto split: if_splits)
  have e: "eMBRegCoilsCB app buf p (a + 1) n MB_REG_WRITE = Inl Out_Of_Bounds"
    if "bytes_to_bits ?area (?a div 8) (word_of_nat (?a mod 8)) (?n div 8) buf p = Inl Out_Of_Bounds"
    using that assms(1) by (simp add: eMBRegCoilsCB_def regmap_consts Let_def)
  show ?thesis
  proof (cases "0 < ?n div 8 \<and> length ?area \<le> ?a div 8 + ?n div 8")
    case True
    then show ?thesis using len by (intro e bytes_to_bits_out) (simp_all add: bit_index)
  next
    case False
    with assms(2,3) ceil have rest: "?n mod 8 \<noteq> 0" and l: "length ?area \<le> Suc (?a div 8 + ?n div 8)"
      and m: "?n div 8 = 0 \<or> ?a div 8 + ?n div 8 < length ?area"
      by (auto split: if_splits)
    obtain area1 where
      "bytes_to_bits ?area (?a div 8) (word_of_nat (?a mod 8)) (?n div 8) buf p = Inr area1"
      "length area1 = length ?area"
      using bytes_to_bits_ok [OF bit_index(1) m len, of ?a] by auto
    with rest l assms(1,4) ceil show ?thesis
      by (simp add: eMBRegCoilsCB_def regmap_consts Let_def setbits_out bit_index del: bytes_to_bits.simps)
  qed
qed

lemma discrete_cb_read_out:
  assumes "unat a + unat n \<le> S_DISCRETE_INPUT_NDISCRETES"
    and "length (ucSDiscInBuf app) \<le> unat a div 8 + (unat n div 8 + 1)"
    and "p + (unat n div 8 + 1) \<le> length buf"
  shows "eMBRegDiscreteCB app buf p (a + 1) n = Inl Out_Of_Bounds"
  using assms
  by (simp add: eMBRegDiscreteCB_def regmap_consts Let_def bit_index bits_to_bytes_out del: bits_to_bytes.simps)

subsection \<open>The register banks behind the callbacks\<close>

definition mb_app_inv :: "mb_app \<Rightarrow> bool" where
  "mb_app_inv app \<longleftrightarrow>
     length (ucSDiscInBuf app) = 8 \<and> length (ucSCoilBuf app) = 8 \<and>
     length (usSRegInBuf app) = 100 \<and> length (usSRegHoldBuf app) = 100"

definition hold_rd :: "mb_app \<Rightarrow> u16 \<Rightarrow> u16 \<Rightarrow> u16 list option" where
  "hold_rd app a n =
     (case eMBRegHoldingCB app (replicate (2 * unat n) 0) 0 (a + 1) n MB_REG_READ of
        Inr (app', buf, MB_ENOERR) \<Rightarrow> Some (dec16 buf) | _ \<Rightarrow> None)"

definition hold_wr :: "mb_app \<Rightarrow> u16 \<Rightarrow> u16 list \<Rightarrow> mb_app option" where
  "hold_wr app a ws =
     (case eMBRegHoldingCB app (enc16 ws) 0 (a + 1) (word_of_nat (length ws)) MB_REG_WRITE of
        Inr (app', buf, MB_ENOERR) \<Rightarrow> Some app' | _ \<Rightarrow> None)"

text \<open>Coils travel packed, with zero padding.\<close>

definition pack_bits :: "bool list \<Rightarrow> u8 list" where
  "pack_bits bs =
     map (\<lambda>j. byte_of (\<lambda>t. 8 * j + t < length bs \<and> bs ! (8 * j + t))) [0..<(length bs + 7) div 8]"

definition coil_rd :: "mb_app \<Rightarrow> u16 \<Rightarrow> u16 \<Rightarrow> bool list option" where
  "coil_rd app a n =
     (case eMBRegCoilsCB app (replicate (unat n div 8 + 1) 0) 0 (a + 1) n MB_REG_READ of
        Inr (app', buf, MB_ENOERR) \<Rightarrow> Some (map (area_bit buf) [0..<unat n]) | _ \<Rightarrow> None)"

definition coil_wr :: "mb_app \<Rightarrow> u16 \<Rightarrow> bool list \<Rightarrow> mb_app option" where
  "coil_wr app a bs =
     (case eMBRegCoilsCB app (pack_bits bs) 0 (a + 1) (word_of_nat (length bs)) MB_REG_WRITE of
        Inr (app', buf, MB_ENOERR) \<Rightarrow> Some app' | _ \<Rightarrow> None)"

definition hold_rng :: "nat \<Rightarrow> nat \<Rightarrow> bool" where
  "hold_rng a n \<longleftrightarrow> a + n \<le> S_REG_HOLDING_NREGS"

definition coil_rng :: "nat \<Rightarrow> nat \<Rightarrow> bool" where
  "coil_rng a n \<longleftrightarrow> 0 < n \<and> a + n \<le> S_COIL_NCOILS \<and> a div 8 + n div 8 + 1 < S_COIL_NCOILS div 8"

interpretation holding: register_bank hold_rd hold_wr "\<lambda>app k. usSRegHoldBuf app ! k" hold_rng mb_app_inv
proof unfold_locales
  fix app :: mb_app and a n :: u16 and ws :: "u16 list" and i m :: nat
  assume inv: "mb_app_inv app"
  then have l: "length (usSRegHoldBuf app) = 100" by (simp add: mb_app_inv_def)
  show "hold_rd app a n = Some (map ((!) (usSRegHoldBuf app)) [unat a..<unat a + unat n])"
    if "hold_rng (unat a) (unat n)"
  proof -
    have "window (unat a) (unat n) (usSRegHoldBuf app) =
        map ((!) (usSRegHoldBuf app)) [unat a..<unat a + unat n]"
      using that l by (intro nth_equalityI) (simp_all add: nth_window hold_rng_def regmap_consts)
    then show ?thesis
      using that l
      by (simp add: hold_rd_def holding_cb_read hold_rng_def regmap_consts blit_def)
  qed
  show "\<exists>app'. hold_wr app a ws = Some app' \<and> mb_app_inv app' \<and>
      (\<forall>k. usSRegHoldBuf app' ! k =
        (if unat a \<le> k \<and> k < unat a + length ws then ws ! (k - unat a) else usSRegHoldBuf app ! k))"
    if r: "hold_rng (unat a) (length ws)"
  proof -
    have n: "unat (word_of_nat (length ws) :: u16) = length ws"
      using r by (simp add: unat_of_nat hold_rng_def regmap_consts)
    have "window 0 (2 * length ws) (enc16 ws) = enc16 ws" by (simp add: window_def)
    then have "hold_wr app a ws = Some (app\<lparr>usSRegHoldBuf := blit (unat a) ws (usSRegHoldBuf app)\<rparr>)"
      using r l by (simp add: hold_wr_def holding_cb_write hold_rng_def regmap_consts n)
    moreover have "blit (unat a) ws (usSRegHoldBuf app) ! k =
        (if unat a \<le> k \<and> k < unat a + length ws then ws ! (k - unat a) else usSRegHoldBuf app ! k)" for k
      using r l nth_blit_before [of k "unat a" "usSRegHoldBuf app" ws]
        nth_blit_inside [of "unat a" k ws "usSRegHoldBuf app"]
        nth_blit_after [of "unat a" ws k "usSRegHoldBuf app"]
      by (auto simp: hold_rng_def regmap_consts)
    ultimately show ?thesis
      using inv r l by (simp add: mb_app_inv_def hold_rng_def regmap_consts)
  qed
next
  fix i n :: nat
  show "hold_rng i n \<Longrightarrow> n < 65536" by (simp add: hold_rng_def regmap_consts)
qed

lemma area_bit_packed:
  assumes "k < n"
  shows "area_bit (packed area a n) k = area_bit area (a + k)"
proof -
  have "k div 8 < n div 8 + 1" using assms by (simp add: div_le_mono less_Suc_eq_le)
  then have "packed area a n ! (k div 8) =
      byte_of (\<lambda>t. 8 * (k div 8) + t < n \<and> area_bit area (a + 8 * (k div 8) + t))"
    by (simp add: packed_def del: upt_Suc)
  moreover have "a + 8 * (k div 8) + k mod 8 = a + k" by simp
  ultimately have "bit (packed area a n ! (k div 8)) (k mod 8) = area_bit area (a + k)"
    using assms by (simp add: ac_simps)
  then show ?thesis by (simp only: area_bit_def)
qed

lemma area_bit_pack:
  assumes "k < 8 * ((length bs + 7) div 8)"
  shows "area_bit (pack_bits bs) k \<longleftrightarrow> k < length bs \<and> bs ! k"
proof -
  have "k div 8 < (length bs + 7) div 8" using assms by linarith
  then show ?thesis by (simp add: area_bit_def pack_bits_def)
qed

lemma written_bit_pack:
  "written_bit area a (length bs) (pack_bits bs) 0 k =
    (if a \<le> k \<and> k < a + length bs then bs ! (k - a) else area_bit area k)"
proof -
  have "length bs \<le> 8 * ((length bs + 7) div 8)" by linarith
  then show ?thesis by (auto simp: written_bit_def area_bit_pack)
qed

interpretation coils: register_bank coil_rd coil_wr "\<lambda>app k. area_bit (ucSCoilBuf app) k" coil_rng mb_app_inv
proof unfold_locales
  fix app :: mb_app and a n :: u16 and bs :: "bool list"
  assume inv: "mb_app_inv app"
  then have l: "length (ucSCoilBuf app) = 8" by (simp add: mb_app_inv_def)
  show "coil_rd app a n = Some (map (area_bit (ucSCoilBuf app)) [unat a..<unat a + unat n])"
    if r: "coil_rng (unat a) (unat n)"
  proof -
    let ?p = "packed (ucSCoilBuf app) (unat a) (unat n)"
    have "eMBRegCoilsCB app (replicate (unat n div 8 + 1) 0) 0 (a + 1) n MB_REG_READ =
        Inr (app, blit 0 ?p (replicate (unat n div 8 + 1) 0), MB_ENOERR)"
      using r l by (intro coils_cb_read) (simp_all add: coil_rng_def regmap_consts)
    moreover have "map (area_bit ?p) [0..<unat n] =
        map (area_bit (ucSCoilBuf app)) [unat a..<unat a + unat n]"
      by (rule nth_equalityI) (simp_all add: area_bit_packed)
    ultimately show ?thesis by (simp add: coil_rd_def blit_def)
  qed
  show "\<exists>app'. coil_wr app a bs = Some app' \<and> mb_app_inv app' \<and>
      (\<forall>k. area_bit (ucSCoilBuf app') k =
        (if unat a \<le> k \<and> k < unat a + length bs then bs ! (k - unat a) else area_bit (ucSCoilBuf app) k))"
    if r: "coil_rng (unat a) (length bs)"
  proof -
    have n: "unat (word_of_nat (length bs) :: u16) = length bs"
      using r by (simp add: unat_of_nat coil_rng_def regmap_consts)
    have up: "(length bs + 7) div 8 \<le> length bs div 8 + 1" by linarith
    obtain area where
      "eMBRegCoilsCB app (pack_bits bs) 0 (a + 1) (word_of_nat (length bs)) MB_REG_WRITE =
        Inr (app\<lparr>ucSCoilBuf := area\<rparr>, pack_bits bs, MB_ENOERR)" "length area = 8"
      "\<forall>k. area_bit area k = written_bit (ucSCoilBuf app) (unat a) (length bs) (pack_bits bs) 0 k"
      using coils_cb_write [of a "word_of_nat (length bs)" app 0 "pack_bits bs"] r l up
      by (auto simp: n coil_rng_def regmap_consts pack_bits_def)
    with inv show ?thesis
      by (simp add: coil_wr_def mb_app_inv_def written_bit_pack)
  qed
next
  fix i n :: nat
  show "coil_rng i n \<Longrightarrow> n < 65536" by (simp add: coil_rng_def regmap_consts)
qed

subsection \<open>Properties\<close>

text \<open>Coils written by one request (packed, zero padded) read back exactly, and every range of
  coils that the write does not address reads as before, whatever bit offsets the two ranges
  have. The ranges are those whose last field ends inside \<open>ucSCoilBuf\<close>.\<close>

lemma coil_write_read:
  assumes "mb_app_inv app" and "coil_rng (unat a) (length bs)" and "coil_rng (unat b) (unat n)"
    and "unat b + unat n \<le> unat a \<or> unat a + length bs \<le> unat b"
  shows "\<exists>app'. coil_wr app a bs = Some app' \<and> coil_rd app' a (word_of_nat (length bs)) = Some bs \<and>
    coil_rd app' b n = coil_rd app b n"
  using coils.read_after_write [OF assms(1,2)] coils.read_elsewhere [OF assms] by auto

lemma coil_write_read_example:
  "\<exists>app'. coil_wr mb_app_reset 5 [True, False, True, True] = Some app' \<and>
    coil_rd app' 5 4 = Some [True, False, True, True] \<and>
    coil_rd app' 9 10 = coil_rd mb_app_reset 9 10"
proof -
  have "mb_app_inv mb_app_reset" by (simp add: mb_app_inv_def mb_app_reset_def regmap_consts)
  from coil_write_read [OF this, of 5 "[True, False, True, True]" 9 10] show ?thesis
    by (simp add: coil_rng_def regmap_consts)
qed

text \<open>Any sequence of holding register writes inside the bank succeeds and leaves what writing
  the values one after the other into an array leaves: later writes win, nothing else moves.\<close>

lemma holding_writes_compose:
  assumes "mb_app_inv app" and "\<forall>(a, ws) \<in> set reqs. hold_rng (unat a) (length ws)"
  shows "\<exists>app'. holding.wr_all app reqs = Some app' \<and>
    (!) (usSRegHoldBuf app') = fold (\<lambda>(a, ws) m k.
        if unat a \<le> k \<and> k < unat a + length ws then ws ! (k - unat a) else m k)
      reqs ((!) (usSRegHoldBuf app))"
proof -
  have "holding.wr_image = (\<lambda>a ws m k.
      if unat a \<le> k \<and> k < unat a + length ws then ws ! (k - unat a) else m k)"
    by (intro ext) (simp only: holding.wr_image_def)
  with holding.wr_all_image [OF assms] show ?thesis by auto
qed

lemma holding_writes_compose_example:
  "\<exists>app'. holding.wr_all mb_app_reset [(0, [1, 2, 3]), (2, [7])] = Some app' \<and>
    map ((!) (usSRegHoldBuf app')) [0..<3] = [1, 2, 7]"
proof -
  have "mb_app_inv mb_app_reset" by (simp add: mb_app_inv_def mb_app_reset_def regmap_consts)
  from holding_writes_compose [OF this, of "[(0, [1, 2, 3]), (2, [7])]"] show ?thesis
    by (auto simp: hold_rng_def regmap_consts fun_eq_iff numeral_3_eq_3)
qed

end
