(* ===== verification/MB_Func.thy ===== *)
theory MB_Func
  imports User_MB_App
begin

text \<open>
  The function code handlers (\<open>functions/mbfunccoils.c\<close>, \<open>mbfuncdisc.c\<close>, \<open>mbfuncinput.c\<close>,
  \<open>mbfuncholding.c\<close>, \<open>mbfuncother.c\<close>). A handler gets the memory from \<open>pucFrame\<close> on and the
  length of the request, and leaves the response in the same memory; the result is the device
  state, that memory, the new length and the exception.
\<close>

record mb_dev =
  d_app :: mb_app
  ucMBSlaveID :: "u8 list"
  usMBSlaveIDLen :: u16

definition mb_dev_reset :: mb_dev where
  "mb_dev_reset =
     \<lparr>d_app = mb_app_reset, ucMBSlaveID = replicate MB_FUNC_OTHER_REP_SLAVEID_BUF 0,
      usMBSlaveIDLen = 0\<rparr>"

type_synonym handler_result = "(mb_dev \<times> u8 list \<times> u16 \<times> eMBException) res"

definition MB_PDU_FUNC_READ_ADDR_OFF :: nat where "MB_PDU_FUNC_READ_ADDR_OFF = MB_PDU_DATA_OFF"
definition MB_PDU_FUNC_READ_CNT_OFF :: nat where "MB_PDU_FUNC_READ_CNT_OFF = MB_PDU_DATA_OFF + 2"
definition MB_PDU_FUNC_READ_SIZE :: u16 where "MB_PDU_FUNC_READ_SIZE = 4"
definition MB_PDU_FUNC_READ_COILCNT_MAX :: u16 where "MB_PDU_FUNC_READ_COILCNT_MAX = 0x07D0"
definition MB_PDU_FUNC_READ_REGCNT_MAX :: u16 where "MB_PDU_FUNC_READ_REGCNT_MAX = 0x007D"
definition MB_PDU_FUNC_WRITE_ADDR_OFF :: nat where "MB_PDU_FUNC_WRITE_ADDR_OFF = MB_PDU_DATA_OFF"
definition MB_PDU_FUNC_WRITE_VALUE_OFF :: nat where "MB_PDU_FUNC_WRITE_VALUE_OFF = MB_PDU_DATA_OFF + 2"
definition MB_PDU_FUNC_WRITE_SIZE :: u16 where "MB_PDU_FUNC_WRITE_SIZE = 4"
definition MB_PDU_FUNC_WRITE_MUL_ADDR_OFF :: nat where "MB_PDU_FUNC_WRITE_MUL_ADDR_OFF = MB_PDU_DATA_OFF"
definition MB_PDU_FUNC_WRITE_MUL_CNT_OFF :: nat where "MB_PDU_FUNC_WRITE_MUL_CNT_OFF = MB_PDU_DATA_OFF + 2"
definition MB_PDU_FUNC_WRITE_MUL_BYTECNT_OFF :: nat where "MB_PDU_FUNC_WRITE_MUL_BYTECNT_OFF = MB_PDU_DATA_OFF + 4"
definition MB_PDU_FUNC_WRITE_MUL_VALUES_OFF :: nat where "MB_PDU_FUNC_WRITE_MUL_VALUES_OFF = MB_PDU_DATA_OFF + 5"
definition MB_PDU_FUNC_WRITE_MUL_SIZE_MIN :: u16 where "MB_PDU_FUNC_WRITE_MUL_SIZE_MIN = 5"
definition MB_PDU_FUNC_WRITE_MUL_COILCNT_MAX :: u16 where "MB_PDU_FUNC_WRITE_MUL_COILCNT_MAX = 0x07B0"
definition MB_PDU_FUNC_WRITE_MUL_REGCNT_MAX :: u16 where "MB_PDU_FUNC_WRITE_MUL_REGCNT_MAX = 0x0078"
definition MB_PDU_FUNC_READWRITE_READ_ADDR_OFF :: nat where "MB_PDU_FUNC_READWRITE_READ_ADDR_OFF = MB_PDU_DATA_OFF"
definition MB_PDU_FUNC_READWRITE_READ_REGCNT_OFF :: nat where "MB_PDU_FUNC_READWRITE_READ_REGCNT_OFF = MB_PDU_DATA_OFF + 2"
definition MB_PDU_FUNC_READWRITE_WRITE_ADDR_OFF :: nat where "MB_PDU_FUNC_READWRITE_WRITE_ADDR_OFF = MB_PDU_DATA_OFF + 4"
definition MB_PDU_FUNC_READWRITE_WRITE_REGCNT_OFF :: nat where "MB_PDU_FUNC_READWRITE_WRITE_REGCNT_OFF = MB_PDU_DATA_OFF + 6"
definition MB_PDU_FUNC_READWRITE_BYTECNT_OFF :: nat where "MB_PDU_FUNC_READWRITE_BYTECNT_OFF = MB_PDU_DATA_OFF + 8"
definition MB_PDU_FUNC_READWRITE_WRITE_VALUES_OFF :: nat where "MB_PDU_FUNC_READWRITE_WRITE_VALUES_OFF = MB_PDU_DATA_OFF + 9"
definition MB_PDU_FUNC_READWRITE_SIZE_MIN :: u16 where "MB_PDU_FUNC_READWRITE_SIZE_MIN = 9"

lemmas pdu_consts = MB_PDU_FUNC_READ_ADDR_OFF_def MB_PDU_FUNC_READ_CNT_OFF_def
  MB_PDU_FUNC_READ_SIZE_def MB_PDU_FUNC_READ_COILCNT_MAX_def MB_PDU_FUNC_READ_REGCNT_MAX_def
  MB_PDU_FUNC_WRITE_ADDR_OFF_def MB_PDU_FUNC_WRITE_VALUE_OFF_def MB_PDU_FUNC_WRITE_SIZE_def
  MB_PDU_FUNC_WRITE_MUL_ADDR_OFF_def MB_PDU_FUNC_WRITE_MUL_CNT_OFF_def
  MB_PDU_FUNC_WRITE_MUL_BYTECNT_OFF_def MB_PDU_FUNC_WRITE_MUL_VALUES_OFF_def
  MB_PDU_FUNC_WRITE_MUL_SIZE_MIN_def MB_PDU_FUNC_WRITE_MUL_COILCNT_MAX_def
  MB_PDU_FUNC_WRITE_MUL_REGCNT_MAX_def MB_PDU_FUNC_READWRITE_READ_ADDR_OFF_def
  MB_PDU_FUNC_READWRITE_READ_REGCNT_OFF_def MB_PDU_FUNC_READWRITE_WRITE_ADDR_OFF_def
  MB_PDU_FUNC_READWRITE_WRITE_REGCNT_OFF_def MB_PDU_FUNC_READWRITE_BYTECNT_OFF_def
  MB_PDU_FUNC_READWRITE_WRITE_VALUES_OFF_def MB_PDU_FUNC_READWRITE_SIZE_MIN_def
  MB_PDU_SIZE_MIN_def MB_PDU_FUNC_OFF_def MB_PDU_DATA_OFF_def

lemma pdu_num:
  "MB_PDU_FUNC_OFF = 0" "MB_PDU_DATA_OFF = 1"
  "MB_PDU_FUNC_READ_ADDR_OFF = 1" "MB_PDU_FUNC_READ_CNT_OFF = 3" "MB_PDU_FUNC_READ_SIZE = 4"
  "MB_PDU_FUNC_READ_COILCNT_MAX = 0x07D0" "MB_PDU_FUNC_READ_REGCNT_MAX = 125"
  "MB_PDU_FUNC_WRITE_ADDR_OFF = 1" "MB_PDU_FUNC_WRITE_VALUE_OFF = 3" "MB_PDU_FUNC_WRITE_SIZE = 4"
  "MB_PDU_FUNC_WRITE_MUL_ADDR_OFF = 1" "MB_PDU_FUNC_WRITE_MUL_CNT_OFF = 3"
  "MB_PDU_FUNC_WRITE_MUL_BYTECNT_OFF = 5" "MB_PDU_FUNC_WRITE_MUL_VALUES_OFF = 6"
  "MB_PDU_FUNC_WRITE_MUL_SIZE_MIN = 5" "MB_PDU_FUNC_WRITE_MUL_COILCNT_MAX = 0x07B0"
  "MB_PDU_FUNC_WRITE_MUL_REGCNT_MAX = 120" "MB_PDU_FUNC_READWRITE_READ_ADDR_OFF = 1"
  "MB_PDU_FUNC_READWRITE_READ_REGCNT_OFF = 3" "MB_PDU_FUNC_READWRITE_WRITE_ADDR_OFF = 5"
  "MB_PDU_FUNC_READWRITE_WRITE_REGCNT_OFF = 7" "MB_PDU_FUNC_READWRITE_BYTECNT_OFF = 9"
  "MB_PDU_FUNC_READWRITE_WRITE_VALUES_OFF = 10" "MB_PDU_FUNC_READWRITE_SIZE_MIN = 9"
  by (simp_all add: pdu_consts)

text \<open>\<open>x = pucFrame[off] << 8; x |= pucFrame[off + 1]\<close>.\<close>

definition get16 :: "u8 list \<Rightarrow> nat \<Rightarrow> u16 res" where
  "get16 pucFrame off =
     bindR (rd pucFrame off) (\<lambda>h. bindR (rd pucFrame (off + 1)) (\<lambda>l.
       Inr (push_bit 8 (ucast h) OR ucast l)))"

text \<open>The number of bytes for a number of bits, cut to a byte as in the code.\<close>

definition bit_bytes :: "u16 \<Rightarrow> u8" where
  "bit_bytes n = (if n AND 0x0007 \<noteq> 0 then ucast (n div 8 + 1) else ucast (n div 8))"

subsection \<open>Coils and discrete inputs\<close>

definition eMBFuncReadCoils :: "mb_dev \<Rightarrow> u8 list \<Rightarrow> u16 \<Rightarrow> handler_result" where
  "eMBFuncReadCoils dev pucFrame usLen =
     (if usLen = MB_PDU_FUNC_READ_SIZE + 1 then
        bindR (get16 pucFrame MB_PDU_FUNC_READ_ADDR_OFF) (\<lambda>addr.
        bindR (get16 pucFrame MB_PDU_FUNC_READ_CNT_OFF) (\<lambda>usCoilCount.
        if usCoilCount \<ge> 1 \<and> usCoilCount < MB_PDU_FUNC_READ_COILCNT_MAX then
          bindR (wr pucFrame MB_PDU_FUNC_OFF MB_FUNC_READ_COILS) (\<lambda>f1.
          let ucNBytes = bit_bytes usCoilCount in
          bindR (wr f1 (MB_PDU_FUNC_OFF + 1) ucNBytes) (\<lambda>f2.
          bindR (eMBRegCoilsCB (d_app dev) f2 (MB_PDU_FUNC_OFF + 2) (addr + 1) usCoilCount MB_REG_READ)
            (\<lambda>(app, f3, e).
          if e \<noteq> MB_ENOERR then Inr (dev\<lparr>d_app := app\<rparr>, f3, 2, prveMBError2Exception e)
          else Inr (dev\<lparr>d_app := app\<rparr>, f3, 2 + ucast ucNBytes, MB_EX_NONE))))
        else Inr (dev, pucFrame, usLen, MB_EX_ILLEGAL_DATA_VALUE)))
      else Inr (dev, pucFrame, usLen, MB_EX_ILLEGAL_DATA_VALUE))"

definition eMBFuncWriteCoil :: "mb_dev \<Rightarrow> u8 list \<Rightarrow> u16 \<Rightarrow> handler_result" where
  "eMBFuncWriteCoil dev pucFrame usLen =
     (if usLen = MB_PDU_FUNC_WRITE_SIZE + 1 then
        bindR (get16 pucFrame MB_PDU_FUNC_WRITE_ADDR_OFF) (\<lambda>addr.
        bindR (rd pucFrame (MB_PDU_FUNC_WRITE_VALUE_OFF + 1)) (\<lambda>v1.
        bindR (rd pucFrame MB_PDU_FUNC_WRITE_VALUE_OFF) (\<lambda>v0.
        if v1 = 0x00 \<and> (v0 = 0xFF \<or> v0 = 0x00) then
          (let ucBuf = [if v0 = 0xFF then 1 else 0, 0] in
           bindR (eMBRegCoilsCB (d_app dev) ucBuf 0 (addr + 1) 1 MB_REG_WRITE) (\<lambda>(app, b, e).
           if e \<noteq> MB_ENOERR then Inr (dev\<lparr>d_app := app\<rparr>, pucFrame, usLen, prveMBError2Exception e)
           else Inr (dev\<lparr>d_app := app\<rparr>, pucFrame, usLen, MB_EX_NONE)))
        else Inr (dev, pucFrame, usLen, MB_EX_ILLEGAL_DATA_VALUE))))
      else Inr (dev, pucFrame, usLen, MB_EX_ILLEGAL_DATA_VALUE))"

definition eMBFuncWriteMultipleCoils :: "mb_dev \<Rightarrow> u8 list \<Rightarrow> u16 \<Rightarrow> handler_result" where
  "eMBFuncWriteMultipleCoils dev pucFrame usLen =
     (if usLen > MB_PDU_FUNC_WRITE_SIZE + 1 then
        bindR (get16 pucFrame MB_PDU_FUNC_WRITE_MUL_ADDR_OFF) (\<lambda>addr.
        bindR (get16 pucFrame MB_PDU_FUNC_WRITE_MUL_CNT_OFF) (\<lambda>usCoilCnt.
        bindR (rd pucFrame MB_PDU_FUNC_WRITE_MUL_BYTECNT_OFF) (\<lambda>ucByteCount.
        if usCoilCnt \<ge> 1 \<and> usCoilCnt \<le> MB_PDU_FUNC_WRITE_MUL_COILCNT_MAX \<and>
           bit_bytes usCoilCnt = ucByteCount then
          bindR (eMBRegCoilsCB (d_app dev) pucFrame MB_PDU_FUNC_WRITE_MUL_VALUES_OFF (addr + 1)
                   usCoilCnt MB_REG_WRITE) (\<lambda>(app, f, e).
          if e \<noteq> MB_ENOERR then Inr (dev\<lparr>d_app := app\<rparr>, f, usLen, prveMBError2Exception e)
          else Inr (dev\<lparr>d_app := app\<rparr>, f, word_of_nat MB_PDU_FUNC_WRITE_MUL_BYTECNT_OFF, MB_EX_NONE))
        else Inr (dev, pucFrame, usLen, MB_EX_ILLEGAL_DATA_VALUE))))
      else Inr (dev, pucFrame, usLen, MB_EX_ILLEGAL_DATA_VALUE))"

definition eMBFuncReadDiscreteInputs :: "mb_dev \<Rightarrow> u8 list \<Rightarrow> u16 \<Rightarrow> handler_result" where
  "eMBFuncReadDiscreteInputs dev pucFrame usLen =
     (if usLen = MB_PDU_FUNC_READ_SIZE + 1 then
        bindR (get16 pucFrame MB_PDU_FUNC_READ_ADDR_OFF) (\<lambda>addr.
        bindR (get16 pucFrame MB_PDU_FUNC_READ_CNT_OFF) (\<lambda>usDiscreteCnt.
        if usDiscreteCnt \<ge> 1 \<and> usDiscreteCnt < MB_PDU_FUNC_READ_COILCNT_MAX then
          bindR (wr pucFrame MB_PDU_FUNC_OFF MB_FUNC_READ_DISCRETE_INPUTS) (\<lambda>f1.
          let ucNBytes = bit_bytes usDiscreteCnt in
          bindR (wr f1 (MB_PDU_FUNC_OFF + 1) ucNBytes) (\<lambda>f2.
          bindR (eMBRegDiscreteCB (d_app dev) f2 (MB_PDU_FUNC_OFF + 2) (addr + 1) usDiscreteCnt)
            (\<lambda>(f3, e).
          if e \<noteq> MB_ENOERR then Inr (dev, f3, 2, prveMBError2Exception e)
          else Inr (dev, f3, 2 + ucast ucNBytes, MB_EX_NONE))))
        else Inr (dev, pucFrame, usLen, MB_EX_ILLEGAL_DATA_VALUE)))
      else Inr (dev, pucFrame, usLen, MB_EX_ILLEGAL_DATA_VALUE))"

subsection \<open>Registers\<close>

definition eMBFuncReadInputRegister :: "mb_dev \<Rightarrow> u8 list \<Rightarrow> u16 \<Rightarrow> handler_result" where
  "eMBFuncReadInputRegister dev pucFrame usLen =
     (if usLen = MB_PDU_FUNC_READ_SIZE + 1 then
        bindR (get16 pucFrame MB_PDU_FUNC_READ_ADDR_OFF) (\<lambda>addr.
        bindR (get16 pucFrame MB_PDU_FUNC_READ_CNT_OFF) (\<lambda>usRegCount.
        if usRegCount \<ge> 1 \<and> usRegCount < MB_PDU_FUNC_READ_REGCNT_MAX then
          bindR (wr pucFrame MB_PDU_FUNC_OFF MB_FUNC_READ_INPUT_REGISTER) (\<lambda>f1.
          bindR (wr f1 (MB_PDU_FUNC_OFF + 1) (ucast (usRegCount * 2))) (\<lambda>f2.
          bindR (eMBRegInputCB (d_app dev) f2 (MB_PDU_FUNC_OFF + 2) (addr + 1) usRegCount) (\<lambda>(f3, e).
          if e \<noteq> MB_ENOERR then Inr (dev, f3, 2, prveMBError2Exception e)
          else Inr (dev, f3, 2 + usRegCount * 2, MB_EX_NONE))))
        else Inr (dev, pucFrame, usLen, MB_EX_ILLEGAL_DATA_VALUE)))
      else Inr (dev, pucFrame, usLen, MB_EX_ILLEGAL_DATA_VALUE))"

definition eMBFuncWriteHoldingRegister :: "mb_dev \<Rightarrow> u8 list \<Rightarrow> u16 \<Rightarrow> handler_result" where
  "eMBFuncWriteHoldingRegister dev pucFrame usLen =
     (if usLen = MB_PDU_FUNC_WRITE_SIZE + 1 then
        bindR (get16 pucFrame MB_PDU_FUNC_WRITE_ADDR_OFF) (\<lambda>addr.
        bindR (eMBRegHoldingCB (d_app dev) pucFrame MB_PDU_FUNC_WRITE_VALUE_OFF (addr + 1) 1 MB_REG_WRITE)
          (\<lambda>(app, f, e).
        if e \<noteq> MB_ENOERR then Inr (dev\<lparr>d_app := app\<rparr>, f, usLen, prveMBError2Exception e)
        else Inr (dev\<lparr>d_app := app\<rparr>, f, usLen, MB_EX_NONE)))
      else Inr (dev, pucFrame, usLen, MB_EX_ILLEGAL_DATA_VALUE))"

definition eMBFuncWriteMultipleHoldingRegister :: "mb_dev \<Rightarrow> u8 list \<Rightarrow> u16 \<Rightarrow> handler_result" where
  "eMBFuncWriteMultipleHoldingRegister dev pucFrame usLen =
     (if usLen \<ge> MB_PDU_FUNC_WRITE_MUL_SIZE_MIN + 1 then
        bindR (get16 pucFrame MB_PDU_FUNC_WRITE_MUL_ADDR_OFF) (\<lambda>addr.
        bindR (get16 pucFrame MB_PDU_FUNC_WRITE_MUL_CNT_OFF) (\<lambda>usRegCount.
        bindR (rd pucFrame MB_PDU_FUNC_WRITE_MUL_BYTECNT_OFF) (\<lambda>ucRegByteCount.
        if usRegCount \<ge> 1 \<and> usRegCount \<le> MB_PDU_FUNC_WRITE_MUL_REGCNT_MAX \<and>
           ucRegByteCount = ucast (2 * usRegCount) then
          bindR (eMBRegHoldingCB (d_app dev) pucFrame MB_PDU_FUNC_WRITE_MUL_VALUES_OFF (addr + 1)
                   usRegCount MB_REG_WRITE) (\<lambda>(app, f, e).
          if e \<noteq> MB_ENOERR then Inr (dev\<lparr>d_app := app\<rparr>, f, usLen, prveMBError2Exception e)
          else Inr (dev\<lparr>d_app := app\<rparr>, f, word_of_nat MB_PDU_FUNC_WRITE_MUL_BYTECNT_OFF, MB_EX_NONE))
        else Inr (dev, pucFrame, usLen, MB_EX_ILLEGAL_DATA_VALUE))))
      else Inr (dev, pucFrame, usLen, MB_EX_ILLEGAL_DATA_VALUE))"

text \<open>The count is first read with its high byte and then overwritten by its low byte.\<close>

definition eMBFuncReadHoldingRegister :: "mb_dev \<Rightarrow> u8 list \<Rightarrow> u16 \<Rightarrow> handler_result" where
  "eMBFuncReadHoldingRegister dev pucFrame usLen =
     (if usLen = MB_PDU_FUNC_READ_SIZE + 1 then
        bindR (get16 pucFrame MB_PDU_FUNC_READ_ADDR_OFF) (\<lambda>addr.
        bindR (rd pucFrame MB_PDU_FUNC_READ_CNT_OFF) (\<lambda>hi.
        bindR (rd pucFrame (MB_PDU_FUNC_READ_CNT_OFF + 1)) (\<lambda>lo.
        let usRegCount = (ucast lo :: u16) in
        if usRegCount \<ge> 1 \<and> usRegCount \<le> MB_PDU_FUNC_READ_REGCNT_MAX then
          bindR (wr pucFrame MB_PDU_FUNC_OFF MB_FUNC_READ_HOLDING_REGISTER) (\<lambda>f1.
          bindR (wr f1 (MB_PDU_FUNC_OFF + 1) (ucast (usRegCount * 2))) (\<lambda>f2.
          bindR (eMBRegHoldingCB (d_app dev) f2 (MB_PDU_FUNC_OFF + 2) (addr + 1) usRegCount MB_REG_READ)
            (\<lambda>(app, f3, e).
          if e \<noteq> MB_ENOERR then Inr (dev\<lparr>d_app := app\<rparr>, f3, 2, prveMBError2Exception e)
          else Inr (dev\<lparr>d_app := app\<rparr>, f3, 2 + usRegCount * 2, MB_EX_NONE))))
        else Inr (dev, pucFrame, usLen, MB_EX_ILLEGAL_DATA_VALUE))))
      else Inr (dev, pucFrame, usLen, MB_EX_ILLEGAL_DATA_VALUE))"

text \<open>A request that is too short falls through with \<open>MB_EX_NONE\<close>.\<close>

definition eMBFuncReadWriteMultipleHoldingRegister :: "mb_dev \<Rightarrow> u8 list \<Rightarrow> u16 \<Rightarrow> handler_result" where
  "eMBFuncReadWriteMultipleHoldingRegister dev pucFrame usLen =
     (if usLen \<ge> MB_PDU_FUNC_READWRITE_SIZE_MIN + 1 then
        bindR (get16 pucFrame MB_PDU_FUNC_READWRITE_READ_ADDR_OFF) (\<lambda>raddr.
        bindR (get16 pucFrame MB_PDU_FUNC_READWRITE_READ_REGCNT_OFF) (\<lambda>usRegReadCount.
        bindR (get16 pucFrame MB_PDU_FUNC_READWRITE_WRITE_ADDR_OFF) (\<lambda>waddr.
        bindR (get16 pucFrame MB_PDU_FUNC_READWRITE_WRITE_REGCNT_OFF) (\<lambda>usRegWriteCount.
        bindR (rd pucFrame MB_PDU_FUNC_READWRITE_BYTECNT_OFF) (\<lambda>ucRegWriteByteCount.
        if usRegReadCount \<ge> 1 \<and> usRegReadCount \<le> 0x7D \<and>
           usRegWriteCount \<ge> 1 \<and> usRegWriteCount \<le> 0x79 \<and>
           2 * unat usRegWriteCount = unat ucRegWriteByteCount then
          bindR (eMBRegHoldingCB (d_app dev) pucFrame MB_PDU_FUNC_READWRITE_WRITE_VALUES_OFF
                   (waddr + 1) usRegWriteCount MB_REG_WRITE) (\<lambda>(app, f, e).
          if e = MB_ENOERR then
            bindR (wr f MB_PDU_FUNC_OFF MB_FUNC_READWRITE_MULTIPLE_REGISTERS) (\<lambda>f1.
            bindR (wr f1 (MB_PDU_FUNC_OFF + 1) (ucast (usRegReadCount * 2))) (\<lambda>f2.
            bindR (eMBRegHoldingCB app f2 (MB_PDU_FUNC_OFF + 2) (raddr + 1) usRegReadCount MB_REG_READ)
              (\<lambda>(app', f3, e').
            if e' = MB_ENOERR then Inr (dev\<lparr>d_app := app'\<rparr>, f3, 2 + 2 * usRegReadCount, MB_EX_NONE)
            else Inr (dev\<lparr>d_app := app'\<rparr>, f3, 2, prveMBError2Exception e'))))
          else Inr (dev\<lparr>d_app := app\<rparr>, f, usLen, prveMBError2Exception e))
        else Inr (dev, pucFrame, usLen, MB_EX_ILLEGAL_DATA_VALUE))))))
      else Inr (dev, pucFrame, usLen, MB_EX_NONE))"

subsection \<open>Slave identification\<close>

definition eMBSetSlaveID :: "mb_dev \<Rightarrow> u8 \<Rightarrow> bool \<Rightarrow> u8 list \<Rightarrow> u16 \<Rightarrow> (mb_dev \<times> eMBErrorCode) res" where
  "eMBSetSlaveID dev ucSlaveID xIsRunning pucAdditional usAdditionalLen =
     (if unat usAdditionalLen + 2 < MB_FUNC_OTHER_REP_SLAVEID_BUF then
        bindR (wr (ucMBSlaveID dev) 0 ucSlaveID) (\<lambda>b1.
        bindR (wr b1 1 (if xIsRunning then 0xFF else 0x00)) (\<lambda>b2.
        if usAdditionalLen > 0 then
          (if unat usAdditionalLen \<le> length pucAdditional \<and> 2 + unat usAdditionalLen \<le> length b2 then
             Inr (dev\<lparr>ucMBSlaveID := blit 2 (take (unat usAdditionalLen) pucAdditional) b2,
                      usMBSlaveIDLen := 2 + usAdditionalLen\<rparr>, MB_ENOERR)
           else Inl Out_Of_Bounds)
        else Inr (dev\<lparr>ucMBSlaveID := b2, usMBSlaveIDLen := 2\<rparr>, MB_ENOERR)))
      else Inr (dev, MB_ENORES))"

definition eMBFuncReportSlaveID :: "mb_dev \<Rightarrow> u8 list \<Rightarrow> u16 \<Rightarrow> handler_result" where
  "eMBFuncReportSlaveID dev pucFrame usLen =
     (let n = unat (usMBSlaveIDLen dev) in
      if n \<le> length (ucMBSlaveID dev) \<and> MB_PDU_DATA_OFF + n \<le> length pucFrame then
        Inr (dev, blit MB_PDU_DATA_OFF (take n (ucMBSlaveID dev)) pucFrame,
             word_of_nat MB_PDU_DATA_OFF + usMBSlaveIDLen dev, MB_EX_NONE)
      else Inl Out_Of_Bounds)"

end
