(* ===== verification/MB_Func_Spec.thy ===== *)
theory MB_Func_Spec
  imports MB_Func
begin

text \<open>
  What the function handlers answer. \<open>reply\<close> reads the response off the frame memory; each
  handler is characterised on every branch for a device whose buffers have their declared
  sizes and a frame memory of at least a maximal PDU.
\<close>

subsection \<open>Invariant and observation\<close>

definition mb_dev_inv :: "mb_dev \<Rightarrow> bool" where
  "mb_dev_inv dev \<longleftrightarrow> mb_app_inv (d_app dev) \<and> length (ucMBSlaveID dev) = 32 \<and>
     unat (usMBSlaveIDLen dev) \<le> 32"

fun reply :: "handler_result \<Rightarrow> (mb_dev \<times> u8 list \<times> eMBException) option" where
  "reply (Inl e) = None"
| "reply (Inr (dev, f, len, e)) = Some (dev, take (unat len) f, e)"

text \<open>The address and the count field of a request, in the position all requests share.\<close>

definition req_addr :: "u8 list \<Rightarrow> u16" where
  "req_addr f = be16 (f ! 1) (f ! 2)"

definition req_cnt :: "u8 list \<Rightarrow> u16" where
  "req_cnt f = be16 (f ! 3) (f ! 4)"

definition regs_at :: "mb_dev \<Rightarrow> nat \<Rightarrow> nat \<Rightarrow> u16 list" where
  "regs_at dev a n = window a n (usSRegHoldBuf (d_app dev))"

definition put_regs :: "mb_dev \<Rightarrow> nat \<Rightarrow> u16 list \<Rightarrow> mb_dev" where
  "put_regs dev a ws =
     dev\<lparr>d_app := (d_app dev)\<lparr>usSRegHoldBuf := blit a ws (usSRegHoldBuf (d_app dev))\<rparr>\<rparr>"

subsection \<open>Helper lemmas\<close>

lemma mb_dev_inv_reset: "mb_dev_inv mb_dev_reset"
  by (simp add: mb_dev_inv_def mb_app_inv_def mb_dev_reset_def mb_app_reset_def regmap_consts mb_consts)

lemma get16_ok: "Suc off < length f \<Longrightarrow> get16 f off = Inr (be16 (f ! off) (f ! Suc off))"
  by (simp add: get16_def be16_def)

lemma blit_two:
  "Suc 0 < length f \<Longrightarrow> blit (Suc (Suc 0)) ys (f[0 := x, Suc 0 := y]) = blit 0 (x # y # ys) f"
proof -
  assume "Suc 0 < length f"
  then have "0 < length f" "Suc 0 < length (f[0 := x])" by auto
  then show ?thesis by (simp only: blit_Cons)
qed

lemma take_blit_0: "take (length ys) (blit 0 ys f) = ys"
  by (simp add: blit_def)

lemma take_2_update: "Suc 0 < length f \<Longrightarrow> take 2 (f[0 := x, Suc 0 := y]) = [x, y]"
  by (cases f; cases "tl f") (auto simp: numeral_2_eq_2)

lemma unat_u8_less: "unat (b :: u8) < 256"
  using unsigned_less [of b, where ?'a = nat] by simp

lemma unat_ucast_u16 [simp]: "unat (ucast (b :: u8) :: u16) = unat b"
proof -
  have "unat b < 2 ^ 16" using unat_u8_less [of b] by simp
  then show ?thesis by (simp add: unsigned_ucast_eq take_bit_nat_eq_self)
qed

lemma unat_2_plus: "n \<le> 125 \<Longrightarrow> unat (2 + n * 2 :: u16) = 2 + 2 * unat n"
proof -
  assume "n \<le> 125"
  then have "unat n \<le> 125" by (simp add: word_le_nat_alt)
  then have "unat (n * 2) = 2 * unat n" by (simp add: unat_mult_lem [THEN iffD1])
  with \<open>unat n \<le> 125\<close> show ?thesis by (simp add: unat_plus_if')
qed

lemma read_regs_frame:
  assumes "253 \<le> length f" and "length ws = unat n" and "n \<le> 125"
  shows "take (unat (2 + n * 2 :: u16)) (blit (Suc (Suc 0)) (enc16 ws) (f[0 := x, Suc 0 := y])) =
    x # y # enc16 ws"
proof -
  have "length (x # y # enc16 ws) = unat (2 + n * 2)" using assms by (simp add: unat_2_plus)
  moreover have "Suc 0 < length f" using assms(1) by simp
  ultimately show ?thesis by (metis blit_two take_blit_0)
qed

subsection \<open>Reading registers\<close>

lemma ucast_times_2: "n \<le> 125 \<Longrightarrow> (ucast (n * 2) :: u8) = word_of_nat (2 * unat (n :: u16))"
proof -
  assume "n \<le> 125"
  then have "unat n \<le> 125" by (simp add: word_le_nat_alt)
  then have "unat (n * 2) = 2 * unat n" by (simp add: unat_mult_lem [THEN iffD1])
  moreover have "(ucast (n * 2) :: u8) = word_of_nat (unat (n * 2))" by simp
  ultimately show ?thesis by simp
qed

lemma word_range: "(1 \<le> n \<and> n \<le> m) \<longleftrightarrow> \<not> (unat n = 0 \<or> unat m < unat (n :: u16))"
  by (auto simp: word_le_nat_alt)

lemma word_range_less: "(1 \<le> n \<and> n < m) \<longleftrightarrow> \<not> (unat n = 0 \<or> unat m \<le> unat (n :: u16))"
  by (auto simp: word_le_nat_alt word_less_nat_alt)

lemma frame_fields:
  assumes "253 \<le> length f"
  shows "get16 f (Suc 0) = Inr (req_addr f)" "get16 f 3 = Inr (req_cnt f)"
    "rd f 3 = Inr (f ! 3)" "rd f 4 = Inr (f ! 4)" "rd f 5 = Inr (f ! 5)" "Suc 0 < length f" "f \<noteq> []"
  using assms by (auto simp: get16_ok req_addr_def req_cnt_def numeral_eq_Suc)

lemma read_holding_reply:
  assumes inv: "mb_dev_inv dev" and len: "253 \<le> length f"
  shows "reply (eMBFuncReadHoldingRegister dev f usLen) =
    (let a = unat (req_addr f); n = unat (f ! 4) in Some (dev,
     if usLen \<noteq> 5 \<or> n = 0 \<or> 125 < n then (take (unat usLen) f, MB_EX_ILLEGAL_DATA_VALUE)
     else if 100 < a + n then ([3, word_of_nat (2 * n)], MB_EX_ILLEGAL_DATA_ADDRESS)
     else (3 # word_of_nat (2 * n) # enc16 (regs_at dev a n), MB_EX_NONE)))"
proof -
  let ?a = "req_addr f" and ?n = "ucast (f ! 4) :: u16"
  note F = frame_fields [OF len]
  have regs: "length (usSRegHoldBuf (d_app dev)) = 100"
    using inv by (simp add: mb_dev_inv_def mb_app_inv_def)
  have r: "(1 \<le> ?n \<and> ?n \<le> 125) = (\<not> (unat (f ! 4) = 0 \<or> 125 < unat (f ! 4)))"
    using word_range [of ?n 125] by simp
  consider "usLen \<noteq> 5 \<or> \<not> (1 \<le> ?n \<and> ?n \<le> 125)"
    | (bad) "usLen = 5" "1 \<le> ?n \<and> ?n \<le> 125" "100 < unat ?a + unat ?n"
    | (ok) "usLen = 5" "1 \<le> ?n \<and> ?n \<le> 125" "unat ?a + unat ?n \<le> 100"
    by linarith
  then show ?thesis
  proof cases
    case 1
    then show ?thesis
      using F r by (auto simp: eMBFuncReadHoldingRegister_def pdu_num)
  next
    case bad
    then show ?thesis
      using F r
      by (simp add: eMBFuncReadHoldingRegister_def pdu_num holding_cb_noreg regmap_consts
          ucast_times_2 take_2_update MB_FUNC_READ_HOLDING_REGISTER_def)
  next
    case ok
    then show ?thesis
      using F r len regs
      by (simp add: eMBFuncReadHoldingRegister_def pdu_num holding_cb_read regmap_consts
          ucast_times_2 read_regs_frame MB_FUNC_READ_HOLDING_REGISTER_def regs_at_def)
  qed
qed

lemma read_input_reply:
  assumes inv: "mb_dev_inv dev" and len: "253 \<le> length f"
  shows "reply (eMBFuncReadInputRegister dev f usLen) =
    (let a = unat (req_addr f); n = unat (req_cnt f) in Some (dev,
     if usLen \<noteq> 5 \<or> n = 0 \<or> 125 \<le> n then (take (unat usLen) f, MB_EX_ILLEGAL_DATA_VALUE)
     else if 100 < a + n then ([4, word_of_nat (2 * n)], MB_EX_ILLEGAL_DATA_ADDRESS)
     else (4 # word_of_nat (2 * n) # enc16 (window a n (usSRegInBuf (d_app dev))), MB_EX_NONE)))"
proof -
  let ?a = "req_addr f" and ?n = "req_cnt f"
  note F = frame_fields [OF len]
  have regs: "length (usSRegInBuf (d_app dev)) = 100"
    using inv by (simp add: mb_dev_inv_def mb_app_inv_def)
  have r: "(1 \<le> ?n \<and> ?n < 125) = (\<not> (unat ?n = 0 \<or> 125 \<le> unat ?n))"
    using word_range_less [of ?n 125] by simp
  have le: "?n < 125 \<Longrightarrow> ?n \<le> 125" by simp
  consider "usLen \<noteq> 5 \<or> \<not> (1 \<le> ?n \<and> ?n < 125)"
    | (bad) "usLen = 5" "1 \<le> ?n \<and> ?n < 125" "100 < unat ?a + unat ?n"
    | (ok) "usLen = 5" "1 \<le> ?n \<and> ?n < 125" "unat ?a + unat ?n \<le> 100"
    by linarith
  then show ?thesis
  proof cases
    case 1
    then show ?thesis
      using F r by (auto simp: eMBFuncReadInputRegister_def pdu_num)
  next
    case bad
    then show ?thesis
      using F r le
      by (simp add: eMBFuncReadInputRegister_def pdu_num input_cb_noreg regmap_consts
          ucast_times_2 take_2_update MB_FUNC_READ_INPUT_REGISTER_def)
  next
    case ok
    then show ?thesis
      using F r len regs le
      by (simp add: eMBFuncReadInputRegister_def pdu_num input_cb_ok regmap_consts
          ucast_times_2 read_regs_frame MB_FUNC_READ_INPUT_REGISTER_def)
  qed
qed

subsection \<open>Writing registers\<close>

lemma write_single_reply:
  assumes inv: "mb_dev_inv dev" and len: "253 \<le> length f"
  shows "reply (eMBFuncWriteHoldingRegister dev f usLen) =
    (let a = unat (req_addr f) in
     if usLen \<noteq> 5 then Some (dev, take (unat usLen) f, MB_EX_ILLEGAL_DATA_VALUE)
     else if 100 < a + 1 then Some (dev, take 5 f, MB_EX_ILLEGAL_DATA_ADDRESS)
     else Some (put_regs dev a [req_cnt f], take 5 f, MB_EX_NONE))"
proof -
  let ?a = "req_addr f"
  note F = frame_fields [OF len]
  have regs: "length (usSRegHoldBuf (d_app dev)) = 100"
    using inv by (simp add: mb_dev_inv_def mb_app_inv_def)
  have w: "dec16 (window 3 2 f) = [req_cnt f]"
    using len by (simp add: numeral_eq_Suc window_Suc req_cnt_def)
  consider "usLen \<noteq> 5" | (bad) "usLen = 5" "100 < unat ?a + 1"
    | (ok) "usLen = 5" "unat ?a + 1 \<le> 100" by linarith
  then show ?thesis
  proof cases
    case 1
    then show ?thesis by (simp add: eMBFuncWriteHoldingRegister_def pdu_num)
  next
    case bad
    then show ?thesis
      using F by (simp add: eMBFuncWriteHoldingRegister_def pdu_num holding_cb_noreg regmap_consts)
  next
    case ok
    then show ?thesis
      using F len regs
      by (simp add: eMBFuncWriteHoldingRegister_def pdu_num holding_cb_write regmap_consts w
          put_regs_def)
  qed
qed

lemma write_multiple_reply:
  assumes inv: "mb_dev_inv dev" and len: "253 \<le> length f"
  shows "reply (eMBFuncWriteMultipleHoldingRegister dev f usLen) =
    (let a = unat (req_addr f); n = unat (req_cnt f) in
     if usLen < 6 \<or> n = 0 \<or> 120 < n \<or> unat (f ! 5) \<noteq> 2 * n
     then Some (dev, take (unat usLen) f, MB_EX_ILLEGAL_DATA_VALUE)
     else if 100 < a + n then Some (dev, take (unat usLen) f, MB_EX_ILLEGAL_DATA_ADDRESS)
     else Some (put_regs dev a (dec16 (window 6 (2 * n) f)), take 5 f, MB_EX_NONE))"
proof -
  let ?a = "req_addr f" and ?n = "req_cnt f"
  let ?v = "1 \<le> ?n \<and> ?n \<le> 120 \<and> f ! 5 = ucast (2 * ?n)"
  note F = frame_fields [OF len]
  have regs: "length (usSRegHoldBuf (d_app dev)) = 100"
    using inv by (simp add: mb_dev_inv_def mb_app_inv_def)
  have b: "(f ! 5 = ucast (2 * ?n)) = (unat (f ! 5) = 2 * unat ?n)" if "?n \<le> 120"
  proof -
    have "unat ?n \<le> 120" using that by (simp add: word_le_nat_alt)
    then have "unat (word_of_nat (2 * unat ?n) :: u8) = 2 * unat ?n"
      by (simp only: unat_of_nat) simp
    moreover have "?n \<le> 125" using that by (rule order_trans) simp
    then have "(ucast (2 * ?n) :: u8) = word_of_nat (2 * unat ?n)"
      by (simp only: mult.commute [of 2 ?n] ucast_times_2)
    ultimately show ?thesis by (simp only: word_unat_eq_iff)
  qed
  have r: "?v = (\<not> (unat ?n = 0 \<or> 120 < unat ?n \<or> unat (f ! 5) \<noteq> 2 * unat ?n))"
    using word_range [of ?n 120] b by auto
  consider (len) "usLen < 6" | (val) "6 \<le> usLen" "\<not> ?v"
    | (bad) "6 \<le> usLen" ?v "100 < unat ?a + unat ?n"
    | (ok) "6 \<le> usLen" ?v "unat ?a + unat ?n \<le> 100"
    by (meson linorder_not_le)
  then show ?thesis
  proof cases
    case len
    then have "\<not> 6 \<le> usLen" by simp
    with len show ?thesis by (simp add: eMBFuncWriteMultipleHoldingRegister_def pdu_num)
  next
    case val
    then show ?thesis
      using F r by (auto simp: eMBFuncWriteMultipleHoldingRegister_def pdu_num)
  next
    case bad
    then have "\<not> usLen < 6" by simp
    with bad show ?thesis
      using F r
      by (simp add: eMBFuncWriteMultipleHoldingRegister_def pdu_num holding_cb_noreg regmap_consts)
  next
    case ok
    then have "\<not> usLen < 6" by simp
    with ok show ?thesis
      using F r len regs
      by (simp add: eMBFuncWriteMultipleHoldingRegister_def pdu_num holding_cb_write regmap_consts
          put_regs_def)
  qed
qed

subsection \<open>Read and write in one request\<close>

definition rw_waddr :: "u8 list \<Rightarrow> u16" where "rw_waddr f = be16 (f ! 5) (f ! 6)"
definition rw_wcnt :: "u8 list \<Rightarrow> u16" where "rw_wcnt f = be16 (f ! 7) (f ! 8)"

lemma length_put_regs [simp]:
  "a + length ws \<le> length (usSRegHoldBuf (d_app dev)) \<Longrightarrow>
   length (usSRegHoldBuf (d_app (put_regs dev a ws))) = length (usSRegHoldBuf (d_app dev))"
  by (simp add: put_regs_def)

text \<open>The registers are written first, so the answer shows the new values.\<close>

lemma readwrite_reply:
  assumes inv: "mb_dev_inv dev" and len: "253 \<le> length f"
  shows "reply (eMBFuncReadWriteMultipleHoldingRegister dev f usLen) =
    (let a = unat (req_addr f); n = unat (req_cnt f); wa = unat (rw_waddr f); wn = unat (rw_wcnt f);
         dev' = put_regs dev wa (dec16 (window 10 (2 * wn) f)) in
     if usLen < 10 then Some (dev, take (unat usLen) f, MB_EX_NONE)
     else if n = 0 \<or> 125 < n \<or> wn = 0 \<or> 121 < wn \<or> unat (f ! 9) \<noteq> 2 * wn
     then Some (dev, take (unat usLen) f, MB_EX_ILLEGAL_DATA_VALUE)
     else if 100 < wa + wn then Some (dev, take (unat usLen) f, MB_EX_ILLEGAL_DATA_ADDRESS)
     else if 100 < a + n then Some (dev', [23, word_of_nat (2 * n)], MB_EX_ILLEGAL_DATA_ADDRESS)
     else Some (dev', 23 # word_of_nat (2 * n) # enc16 (regs_at dev' a n), MB_EX_NONE))"
proof -
  let ?a = "req_addr f" and ?n = "req_cnt f" and ?wa = "rw_waddr f" and ?wn = "rw_wcnt f"
  let ?v = "1 \<le> ?n \<and> ?n \<le> 125 \<and> 1 \<le> ?wn \<and> ?wn \<le> 121 \<and> unat (f ! 9) = 2 * unat ?wn"
  note F = frame_fields [OF len]
  have G: "get16 f 5 = Inr ?wa" "get16 f 7 = Inr ?wn" "rd f 9 = Inr (f ! 9)"
    using len by (auto simp: get16_ok rw_waddr_def rw_wcnt_def numeral_eq_Suc)
  have regs: "length (usSRegHoldBuf (d_app dev)) = 100"
    using inv by (simp add: mb_dev_inv_def mb_app_inv_def)
  have r: "?v = (\<not> (unat ?n = 0 \<or> 125 < unat ?n \<or> unat ?wn = 0 \<or> 121 < unat ?wn \<or>
      unat (f ! 9) \<noteq> 2 * unat ?wn))"
    using word_range [of ?n 125] word_range [of ?wn 121] by auto
  consider (len) "usLen < 10" | (val) "10 \<le> usLen" "\<not> ?v"
    | (wbad) "10 \<le> usLen" ?v "100 < unat ?wa + unat ?wn"
    | (rbad) "10 \<le> usLen" ?v "unat ?wa + unat ?wn \<le> 100" "100 < unat ?a + unat ?n"
    | (ok) "10 \<le> usLen" ?v "unat ?wa + unat ?wn \<le> 100" "unat ?a + unat ?n \<le> 100"
    by (meson linorder_not_le)
  then show ?thesis
  proof cases
    case len
    then have "\<not> 10 \<le> usLen" by simp
    with len show ?thesis by (simp add: eMBFuncReadWriteMultipleHoldingRegister_def pdu_num)
  next
    case val
    then have "\<not> usLen < 10" by simp
    with val show ?thesis
      using F G r by (auto simp: eMBFuncReadWriteMultipleHoldingRegister_def pdu_num)
  next
    case wbad
    then have "\<not> usLen < 10" by simp
    with wbad show ?thesis
      using F G r
      by (simp add: eMBFuncReadWriteMultipleHoldingRegister_def pdu_num holding_cb_noreg regmap_consts)
  next
    case rbad
    then have "\<not> usLen < 10" by simp
    with rbad show ?thesis
      using F G r len regs
      by (simp add: eMBFuncReadWriteMultipleHoldingRegister_def pdu_num holding_cb_noreg
          holding_cb_write regmap_consts put_regs_def ucast_times_2 take_2_update
          MB_FUNC_READWRITE_MULTIPLE_REGISTERS_def)
  next
    case ok
    then have nl: "\<not> usLen < 10" by simp
    let ?ws = "dec16 (window 10 (2 * unat ?wn) f)"
    let ?app = "(d_app dev)\<lparr>usSRegHoldBuf := blit (unat ?wa) ?ws (usSRegHoldBuf (d_app dev))\<rparr>"
    have "length ?ws = unat ?wn" using ok len by simp
    then have l: "length (blit (unat ?wa) ?ws (usSRegHoldBuf (d_app dev))) = 100"
      using ok regs by simp
    have cb: "eMBRegHoldingCB ?app (f[0 := x, Suc 0 := y]) (Suc (Suc 0)) (?a + 1) ?n MB_REG_READ =
        Inr (?app, blit (Suc (Suc 0)) (enc16 (window (unat ?a) (unat ?n) (usSRegHoldBuf ?app)))
          (f[0 := x, Suc 0 := y]), MB_ENOERR)" for x y
      using ok len l by (intro holding_cb_read) (simp_all add: regmap_consts)
    from ok nl show ?thesis
      using F G r len regs l
      by (simp add: eMBFuncReadWriteMultipleHoldingRegister_def pdu_num cb mult.commute [of _ ?n]
          holding_cb_write regmap_consts put_regs_def ucast_times_2 read_regs_frame regs_at_def
          MB_FUNC_READWRITE_MULTIPLE_REGISTERS_def)
  qed
qed

subsection \<open>Coils and discrete inputs\<close>

lemma bit_bytes_nat:
  assumes "unat n < 2040"
  shows "bit_bytes n = word_of_nat ((unat n + 7) div 8)" and "unat (bit_bytes n) = (unat n + 7) div 8"
proof -
  have "n AND 7 = take_bit 3 n" by (simp add: take_bit_eq_mask mask_eq_exp_minus_1)
  then have a: "n AND 7 \<noteq> 0 \<longleftrightarrow> unat n mod 8 \<noteq> 0"
    by (simp add: take_bit_eq_mod word_unat_eq_iff unat_mod)
  have d: "unat (n div 8) = unat n div 8" "unat (n div 8 + 1) = unat n div 8 + 1"
    using assms by (simp_all add: unat_div unat_plus_if')
  have c: "(unat n + 7) div 8 = (if unat n mod 8 = 0 then unat n div 8 else unat n div 8 + 1)"
    by presburger
  have "bit_bytes n = (if unat n mod 8 \<noteq> 0 then word_of_nat (unat (n div 8 + 1)) else word_of_nat (unat (n div 8)))"
    unfolding bit_bytes_def a by (simp only: of_nat_unat)
  then show e: "bit_bytes n = word_of_nat ((unat n + 7) div 8)" unfolding d c by simp
  have "(unat n + 7) div 8 < 256" using assms by simp
  then show "unat (bit_bytes n) = (unat n + 7) div 8" by (simp add: e unat_of_nat)
qed

lemma nbytes_len: "nb \<le> (255 :: nat) \<Longrightarrow> unat (2 + ucast (word_of_nat nb :: u8) :: u16) = 2 + nb"
  by (simp add: unat_plus_if' unat_of_nat)

lemma bits_frame:
  assumes "2 + length ys \<le> length f" and "nb \<le> length ys" and "nb \<le> 255"
  shows "take (unat (2 + ucast (word_of_nat nb :: u8) :: u16)) (blit (Suc (Suc 0)) ys (f[0 := x, Suc 0 := y])) =
    x # y # take nb ys"
proof -
  have "take (2 + nb) (take (length (x # y # ys)) (blit 0 (x # y # ys) f)) = take (2 + nb) (x # y # ys)"
    by (simp only: take_blit_0)
  moreover have "take (2 + nb) (take (length (x # y # ys)) g) = take (2 + nb) g" for g :: "u8 list"
    using assms(2) by simp
  ultimately have "take (2 + nb) (blit 0 (x # y # ys) f) = x # y # take nb ys"
    by (simp add: min_absorb1 [OF assms(2)])
  moreover have "Suc 0 < length f" using assms(1) by simp
  ultimately show ?thesis using assms(3) by (simp only: nbytes_len blit_two)
qed

lemma read_coils_reply:
  assumes inv: "mb_dev_inv dev" and len: "253 \<le> length f"
  shows "reply (eMBFuncReadCoils dev f usLen) =
    (let a = unat (req_addr f); n = unat (req_cnt f); nb = (n + 7) div 8 in
     if usLen \<noteq> 5 \<or> n = 0 \<or> 2000 \<le> n then Some (dev, take (unat usLen) f, MB_EX_ILLEGAL_DATA_VALUE)
     else if 64 < a + n then Some (dev, [1, word_of_nat nb], MB_EX_ILLEGAL_DATA_ADDRESS)
     else if 8 \<le> a div 8 + n div 8 + 1 then None
     else Some (dev, 1 # word_of_nat nb # take nb (packed (ucSCoilBuf (d_app dev)) a n), MB_EX_NONE))"
proof -
  let ?a = "req_addr f" and ?n = "req_cnt f"
  let ?v = "1 \<le> ?n \<and> ?n < 2000" and ?nb = "(unat (req_cnt f) + 7) div 8"
  note F = frame_fields [OF len]
  have area: "length (ucSCoilBuf (d_app dev)) = 8"
    using inv by (simp add: mb_dev_inv_def mb_app_inv_def)
  have r: "?v = (\<not> (unat ?n = 0 \<or> 2000 \<le> unat ?n))"
    using word_range_less [of ?n 2000] by simp
  consider (val) "usLen \<noteq> 5 \<or> \<not> ?v"
    | (bad) "usLen = 5" ?v "64 < unat ?a + unat ?n"
    | (out) "usLen = 5" ?v "unat ?a + unat ?n \<le> 64" "8 \<le> unat ?a div 8 + (unat ?n div 8 + 1)"
    | (ok) "usLen = 5" ?v "unat ?a + unat ?n \<le> 64" "unat ?a div 8 + (unat ?n div 8 + 1) < 8"
    by linarith
  then show ?thesis
  proof cases
    case val
    then show ?thesis using F r by (auto simp: eMBFuncReadCoils_def pdu_num)
  next
    case bad
    then have "bit_bytes ?n = word_of_nat ?nb" using r by (intro bit_bytes_nat) simp
    with bad show ?thesis
      using F r by (simp add: eMBFuncReadCoils_def pdu_num coils_cb_noreg regmap_consts
          take_2_update MB_FUNC_READ_COILS_def)
  next
    case out
    then show ?thesis
      using F r len area by (simp add: eMBFuncReadCoils_def pdu_num coils_cb_read_out regmap_consts Let_def)
  next
    case ok
    then have nb: "bit_bytes ?n = word_of_nat ?nb" using r by (intro bit_bytes_nat) simp
    have cb: "eMBRegCoilsCB (d_app dev) (f[0 := x, Suc 0 := y]) (Suc (Suc 0)) (?a + 1) ?n MB_REG_READ =
        Inr (d_app dev, blit (Suc (Suc 0)) (packed (ucSCoilBuf (d_app dev)) (unat ?a) (unat ?n))
          (f[0 := x, Suc 0 := y]), MB_ENOERR)" for x y
      using ok len area by (intro coils_cb_read) (simp_all add: regmap_consts)
    have fr: "take (unat (2 + ucast (word_of_nat ?nb :: u8) :: u16)) (blit (Suc (Suc 0))
        (packed (ucSCoilBuf (d_app dev)) (unat ?a) (unat ?n)) (f[0 := x, Suc 0 := y])) =
        x # y # take ?nb (packed (ucSCoilBuf (d_app dev)) (unat ?a) (unat ?n))" for x y
      using ok(3) len by (intro bits_frame) simp_all
    from ok show ?thesis
      using F r by (simp add: eMBFuncReadCoils_def pdu_num cb fr nb MB_FUNC_READ_COILS_def Let_def)
  qed
qed

lemma read_discrete_reply:
  assumes inv: "mb_dev_inv dev" and len: "253 \<le> length f"
  shows "reply (eMBFuncReadDiscreteInputs dev f usLen) =
    (let a = unat (req_addr f); n = unat (req_cnt f); nb = (n + 7) div 8 in
     if usLen \<noteq> 5 \<or> n = 0 \<or> 2000 \<le> n then Some (dev, take (unat usLen) f, MB_EX_ILLEGAL_DATA_VALUE)
     else if 64 < a + n then Some (dev, [2, word_of_nat nb], MB_EX_ILLEGAL_DATA_ADDRESS)
     else if 8 \<le> a div 8 + n div 8 + 1 then None
     else Some (dev, 2 # word_of_nat nb # take nb (packed (ucSDiscInBuf (d_app dev)) a n), MB_EX_NONE))"
proof -
  let ?a = "req_addr f" and ?n = "req_cnt f"
  let ?v = "1 \<le> ?n \<and> ?n < 2000" and ?nb = "(unat (req_cnt f) + 7) div 8"
  note F = frame_fields [OF len]
  have area: "length (ucSDiscInBuf (d_app dev)) = 8"
    using inv by (simp add: mb_dev_inv_def mb_app_inv_def)
  have r: "?v = (\<not> (unat ?n = 0 \<or> 2000 \<le> unat ?n))"
    using word_range_less [of ?n 2000] by simp
  consider (val) "usLen \<noteq> 5 \<or> \<not> ?v"
    | (bad) "usLen = 5" ?v "64 < unat ?a + unat ?n"
    | (out) "usLen = 5" ?v "unat ?a + unat ?n \<le> 64" "8 \<le> unat ?a div 8 + (unat ?n div 8 + 1)"
    | (ok) "usLen = 5" ?v "unat ?a + unat ?n \<le> 64" "unat ?a div 8 + (unat ?n div 8 + 1) < 8"
    by linarith
  then show ?thesis
  proof cases
    case val
    then show ?thesis using F r by (auto simp: eMBFuncReadDiscreteInputs_def pdu_num)
  next
    case bad
    then have "bit_bytes ?n = word_of_nat ?nb" using r by (intro bit_bytes_nat) simp
    with bad show ?thesis
      using F r by (simp add: eMBFuncReadDiscreteInputs_def pdu_num discrete_cb_noreg regmap_consts
          take_2_update MB_FUNC_READ_DISCRETE_INPUTS_def)
  next
    case out
    then show ?thesis
      using F r len area
      by (simp add: eMBFuncReadDiscreteInputs_def pdu_num discrete_cb_read_out regmap_consts Let_def)
  next
    case ok
    then have nb: "bit_bytes ?n = word_of_nat ?nb" using r by (intro bit_bytes_nat) simp
    have cb: "eMBRegDiscreteCB (d_app dev) (f[0 := x, Suc 0 := y]) (Suc (Suc 0)) (?a + 1) ?n =
        Inr (blit (Suc (Suc 0)) (packed (ucSDiscInBuf (d_app dev)) (unat ?a) (unat ?n))
          (f[0 := x, Suc 0 := y]), MB_ENOERR)" for x y
      using ok len area by (intro discrete_cb_read) (simp_all add: regmap_consts)
    have fr: "take (unat (2 + ucast (word_of_nat ?nb :: u8) :: u16)) (blit (Suc (Suc 0))
        (packed (ucSDiscInBuf (d_app dev)) (unat ?a) (unat ?n)) (f[0 := x, Suc 0 := y])) =
        x # y # take ?nb (packed (ucSDiscInBuf (d_app dev)) (unat ?a) (unat ?n))" for x y
      using ok(3) len by (intro bits_frame) simp_all
    from ok show ?thesis
      using F r by (simp add: eMBFuncReadDiscreteInputs_def pdu_num cb fr nb
          MB_FUNC_READ_DISCRETE_INPUTS_def Let_def)
  qed
qed

text \<open>The coils after a write, as a relation to the bits of the values in the frame.\<close>

definition coils_written :: "mb_dev \<Rightarrow> nat \<Rightarrow> nat \<Rightarrow> u8 list \<Rightarrow> nat \<Rightarrow> mb_dev \<Rightarrow> bool" where
  "coils_written dev a n f p dev' \<longleftrightarrow>
     (\<exists>area. dev' = dev\<lparr>d_app := (d_app dev)\<lparr>ucSCoilBuf := area\<rparr>\<rparr> \<and>
       length area = length (ucSCoilBuf (d_app dev)) \<and>
       (\<forall>k. area_bit area k = written_bit (ucSCoilBuf (d_app dev)) a n f p k))"

lemma write_coils_rejected:
  assumes inv: "mb_dev_inv dev" and len: "253 \<le> length f"
  defines "a \<equiv> unat (req_addr f)" and "n \<equiv> unat (req_cnt f)"
  assumes rej: "usLen < 6 \<or> n = 0 \<or> 1968 < n \<or> unat (f ! 5) \<noteq> (n + 7) div 8 \<or> 64 < a + n"
  shows "reply (eMBFuncWriteMultipleCoils dev f usLen) = Some (dev, take (unat usLen) f,
    if usLen < 6 \<or> n = 0 \<or> 1968 < n \<or> unat (f ! 5) \<noteq> (n + 7) div 8
    then MB_EX_ILLEGAL_DATA_VALUE else MB_EX_ILLEGAL_DATA_ADDRESS)"
proof -
  let ?a = "req_addr f" and ?n = "req_cnt f"
  let ?v = "1 \<le> ?n \<and> ?n \<le> 1968 \<and> bit_bytes ?n = f ! 5"
  note F = frame_fields [OF len]
  have b: "(bit_bytes ?n = f ! 5) = (unat (f ! 5) = (n + 7) div 8)" if "?n \<le> 1968"
    using that bit_bytes_nat(2) [of ?n] by (auto simp: word_unat_eq_iff word_le_nat_alt n_def)
  have r: "?v = (\<not> (n = 0 \<or> 1968 < n \<or> unat (f ! 5) \<noteq> (n + 7) div 8))"
    using word_range [of ?n 1968] b by (auto simp: n_def)
  have w: "(5 < usLen) = (\<not> usLen < 6)"
    by (auto simp: word_less_nat_alt)
  consider "usLen < 6" | "\<not> usLen < 6" "\<not> ?v" | "\<not> usLen < 6" ?v "64 < a + n"
    using rej r by blast
  then show ?thesis
  proof cases
    case 1
    then show ?thesis using w by (simp add: eMBFuncWriteMultipleCoils_def pdu_num)
  next
    case 2
    then show ?thesis using w F r by (auto simp: eMBFuncWriteMultipleCoils_def pdu_num)
  next
    case 3
    then show ?thesis
      using w F r by (simp add: eMBFuncWriteMultipleCoils_def pdu_num coils_cb_noreg regmap_consts
        a_def n_def)
  qed
qed

lemma write_coils_done:
  assumes inv: "mb_dev_inv dev" and len: "253 \<le> length f"
  defines "a \<equiv> unat (req_addr f)" and "n \<equiv> unat (req_cnt f)"
  assumes ok: "\<not> usLen < 6" "0 < n" "unat (f ! 5) = (n + 7) div 8" "a + n \<le> 64"
    "a div 8 + (n + 7) div 8 < 8"
  shows "\<exists>dev'. reply (eMBFuncWriteMultipleCoils dev f usLen) = Some (dev', take 5 f, MB_EX_NONE) \<and>
    coils_written dev a n f 6 dev'"
proof -
  let ?a = "req_addr f" and ?n = "req_cnt f"
  note F = frame_fields [OF len]
  have n: "unat ?n = n" "unat ?a = a" by (simp_all add: n_def a_def)
  have area: "length (ucSCoilBuf (d_app dev)) = 8"
    using inv by (simp add: mb_dev_inv_def mb_app_inv_def)
  have v: "1 \<le> ?n \<and> ?n \<le> 1968" "bit_bytes ?n = f ! 5"
    using word_range [of ?n 1968] bit_bytes_nat(2) [of ?n] ok by (auto simp: n word_unat_eq_iff)
  obtain area where "eMBRegCoilsCB (d_app dev) f 6 (?a + 1) ?n MB_REG_WRITE =
      Inr ((d_app dev)\<lparr>ucSCoilBuf := area\<rparr>, f, MB_ENOERR)" "length area = 8"
      "\<forall>k. area_bit area k = written_bit (ucSCoilBuf (d_app dev)) a n f 6 k"
    using coils_cb_write [of ?a ?n "d_app dev" 6 f] ok len area by (auto simp: n regmap_consts)
  moreover have "5 < usLen" using ok(1) by (auto simp: word_less_nat_alt)
  ultimately show ?thesis
    using F v area by (simp add: eMBFuncWriteMultipleCoils_def pdu_num coils_written_def) blast
qed

lemma write_coils_out_of_bounds:
  assumes inv: "mb_dev_inv dev" and len: "253 \<le> length f"
  defines "a \<equiv> unat (req_addr f)" and "n \<equiv> unat (req_cnt f)"
  assumes ok: "\<not> usLen < 6" "0 < n" "unat (f ! 5) = (n + 7) div 8" "a + n \<le> 64"
    "8 \<le> a div 8 + (n + 7) div 8"
  shows "reply (eMBFuncWriteMultipleCoils dev f usLen) = None"
proof -
  let ?a = "req_addr f" and ?n = "req_cnt f"
  note F = frame_fields [OF len]
  have n: "unat ?n = n" "unat ?a = a" by (simp_all add: n_def a_def)
  have area: "length (ucSCoilBuf (d_app dev)) = 8"
    using inv by (simp add: mb_dev_inv_def mb_app_inv_def)
  have v: "1 \<le> ?n \<and> ?n \<le> 1968" "bit_bytes ?n = f ! 5"
    using word_range [of ?n 1968] bit_bytes_nat(2) [of ?n] ok by (auto simp: n word_unat_eq_iff)
  have "eMBRegCoilsCB (d_app dev) f 6 (?a + 1) ?n MB_REG_WRITE = Inl Out_Of_Bounds"
    using ok len area by (intro coils_cb_write_out) (simp_all add: n regmap_consts)
  moreover have "5 < usLen" using ok(1) by (auto simp: word_less_nat_alt)
  ultimately show ?thesis
    using F v by (simp add: eMBFuncWriteMultipleCoils_def pdu_num)
qed

lemma write_coil_reply:
  assumes inv: "mb_dev_inv dev" and len: "253 \<le> length f"
  defines "a \<equiv> unat (req_addr f)"
  shows "reply (eMBFuncWriteCoil dev f usLen) =
     (if usLen \<noteq> 5 \<or> f ! 4 \<noteq> 0 \<or> (f ! 3 \<noteq> 0xFF \<and> f ! 3 \<noteq> 0)
      then Some (dev, take (unat usLen) f, MB_EX_ILLEGAL_DATA_VALUE)
      else if 64 < a + 1 then Some (dev, take 5 f, MB_EX_ILLEGAL_DATA_ADDRESS)
      else if 56 \<le> a then None
      else reply (eMBFuncWriteCoil dev f usLen)) \<and>
    (usLen = 5 \<and> f ! 4 = 0 \<and> (f ! 3 = 0xFF \<or> f ! 3 = 0) \<and> a < 56 \<longrightarrow>
      (\<exists>dev'. reply (eMBFuncWriteCoil dev f usLen) = Some (dev', take 5 f, MB_EX_NONE) \<and>
        coils_written dev a 1 [if f ! 3 = 0xFF then 1 else 0, 0] 0 dev'))"
proof -
  let ?a = "req_addr f" and ?b = "[if f ! 3 = 0xFF then 1 else 0, 0] :: u8 list"
  let ?v = "usLen = 5 \<and> f ! 4 = 0 \<and> (f ! 3 = 0xFF \<or> f ! 3 = 0)"
  note F = frame_fields [OF len]
  have area: "length (ucSCoilBuf (d_app dev)) = 8"
    using inv by (simp add: mb_dev_inv_def mb_app_inv_def)
  have div: "56 \<le> a \<longleftrightarrow> 8 \<le> a div 8 + 1" by linarith
  consider (val) "\<not> ?v" | (bad) ?v "64 < a + 1" | (out) ?v "a + 1 \<le> 64" "56 \<le> a" | (ok) ?v "a < 56"
    by linarith
  then show ?thesis
  proof cases
    case val
    then show ?thesis using F by (auto simp: eMBFuncWriteCoil_def pdu_num)
  next
    case bad
    then show ?thesis
      using F by (auto simp: eMBFuncWriteCoil_def pdu_num coils_cb_noreg regmap_consts a_def)
  next
    case out
    have "eMBRegCoilsCB (d_app dev) ?b 0 (?a + 1) 1 MB_REG_WRITE = Inl Out_Of_Bounds"
      using out area div by (intro coils_cb_write_out) (simp_all add: regmap_consts a_def)
    with out show ?thesis using F by (auto simp: eMBFuncWriteCoil_def pdu_num)
  next
    case ok
    obtain area where "eMBRegCoilsCB (d_app dev) ?b 0 (?a + 1) 1 MB_REG_WRITE =
        Inr ((d_app dev)\<lparr>ucSCoilBuf := area\<rparr>, ?b, MB_ENOERR)" "length area = 8"
        "\<forall>k. area_bit area k = written_bit (ucSCoilBuf (d_app dev)) a 1 ?b 0 k"
      using coils_cb_write [of ?a 1 "d_app dev" 0 ?b] ok area div by (auto simp: regmap_consts a_def)
    with ok show ?thesis
      using F area by (auto simp: eMBFuncWriteCoil_def pdu_num coils_written_def)
  qed
qed

subsection \<open>Invariant preservation\<close>

lemma mb_dev_inv_put_regs:
  "mb_dev_inv dev \<Longrightarrow> a + length ws \<le> 100 \<Longrightarrow> mb_dev_inv (put_regs dev a ws)"
  by (simp add: mb_dev_inv_def mb_app_inv_def put_regs_def)

lemma mb_dev_inv_coils_written:
  "mb_dev_inv dev \<Longrightarrow> coils_written dev a n f p dev' \<Longrightarrow> mb_dev_inv dev'"
  by (auto simp: mb_dev_inv_def mb_app_inv_def coils_written_def)

lemma regs_at_put_regs:
  "a + length ws \<le> length (usSRegHoldBuf (d_app dev)) \<Longrightarrow> regs_at (put_regs dev a ws) a (length ws) = ws"
  by (simp add: regs_at_def put_regs_def window_blit)

lemma take_drop_window: "window p n f = take n (drop p f)"
  by (simp add: window_def)

subsection \<open>Properties\<close>

text \<open>Reading holding registers, on every branch: a request of another length or a count
  outside 1..125 is an illegal data value, a range past register 99 an illegal data address,
  and otherwise the answer carries the byte count and the registers, high byte first. The
  count is the low byte of the count field alone; the high byte is lost. Nothing is changed and
  no access leaves a buffer.\<close>

lemma read_holding_registers:
  assumes "mb_dev_inv dev" and "253 \<le> length f"
  shows "reply (eMBFuncReadHoldingRegister dev f usLen) =
    (let a = unat (req_addr f); n = unat (f ! 4) in Some (dev,
     if usLen \<noteq> 5 \<or> n = 0 \<or> 125 < n then (take (unat usLen) f, MB_EX_ILLEGAL_DATA_VALUE)
     else if 100 < a + n then ([3, word_of_nat (2 * n)], MB_EX_ILLEGAL_DATA_ADDRESS)
     else (3 # word_of_nat (2 * n) # enc16 (regs_at dev a n), MB_EX_NONE)))"
  by (rule read_holding_reply [OF assms])

lemma read_holding_registers_example:
  "reply (eMBFuncReadHoldingRegister mb_dev_reset ([3, 0, 98, 7, 2] @ replicate 250 0) 5) =
     Some (mb_dev_reset, [3, 4, 0, 0, 0, 0], MB_EX_NONE)"
proof -
  let ?f = "[3, 0, 98, 7, 2] @ replicate 250 (0 :: u8)"
  have "enc16 (regs_at mb_dev_reset 98 2) = [0, 0, 0, 0]" by code_simp
  moreover have "req_addr ?f = 98" "?f ! 4 = 2" by (simp_all add: req_addr_def be16_def)
  ultimately show ?thesis
    using read_holding_registers [OF mb_dev_inv_reset, of ?f 5] by (simp add: Let_def)
qed

text \<open>What \<open>Write Multiple Registers\<close> accepts, \<open>Read Holding Registers\<close> returns: after a
  request with \<open>n\<close> values inside the bank, reading the same range with any frame answers with
  the very bytes the values came in.\<close>

lemma write_then_read_registers:
  assumes "mb_dev_inv dev" and "253 \<le> length f" and "253 \<le> length g"
    and "6 \<le> usLen" and "1 \<le> n" and "n \<le> 100"
    and "unat (req_cnt f) = n" and "unat (f ! 5) = 2 * n" and "unat (req_addr f) + n \<le> 100"
    and "req_addr g = req_addr f" and "unat (g ! 4) = n"
  shows "\<exists>dev'. reply (eMBFuncWriteMultipleHoldingRegister dev f usLen) = Some (dev', take 5 f, MB_EX_NONE) \<and>
    reply (eMBFuncReadHoldingRegister dev' g 5) =
      Some (dev', 3 # word_of_nat (2 * n) # take (2 * n) (drop 6 f), MB_EX_NONE)"
proof -
  let ?a = "unat (req_addr f)" and ?ws = "dec16 (window 6 (2 * n) f)"
  let ?dev = "put_regs dev ?a ?ws"
  have len: "length (window 6 (2 * n) f) = 2 * n" using assms by simp
  then have l: "length ?ws = n" by simp
  have regs: "length (usSRegHoldBuf (d_app dev)) = 100"
    using assms(1) by (simp add: mb_dev_inv_def mb_app_inv_def)
  have nl: "\<not> usLen < 6" using assms(4) by simp
  have "reply (eMBFuncWriteMultipleHoldingRegister dev f usLen) = Some (?dev, take 5 f, MB_EX_NONE)"
    using write_multiple_reply [OF assms(1,2), of usLen] assms nl by (simp add: Let_def)
  moreover have "regs_at ?dev ?a n = ?ws"
    using regs_at_put_regs [of ?a ?ws dev] l regs assms(9) by simp
  then have "enc16 (regs_at ?dev ?a n) = take (2 * n) (drop 6 f)"
    using len by (simp add: enc16_dec16 take_drop_window [symmetric])
  moreover have "mb_dev_inv ?dev" using assms(1,9) l by (intro mb_dev_inv_put_regs) simp_all
  ultimately show ?thesis
    using read_holding_reply [of ?dev g 5] assms by (simp add: Let_def)
qed

lemma write_then_read_registers_example:
  "\<exists>dev'. reply (eMBFuncWriteMultipleHoldingRegister mb_dev_reset
        ([16, 0, 7, 0, 2, 4, 0xAB, 0xCD, 0x12, 0x34] @ replicate 245 0) 10) =
      Some (dev', [16, 0, 7, 0, 2], MB_EX_NONE) \<and>
    reply (eMBFuncReadHoldingRegister dev' ([3, 0, 7, 0, 2] @ replicate 250 0) 5) =
      Some (dev', [3, 4, 0xAB, 0xCD, 0x12, 0x34], MB_EX_NONE)"
proof -
  define t u where "t = replicate 245 (0 :: u8)" and "u = replicate 250 (0 :: u8)"
  let ?f = "[16, 0, 7, 0, 2, 4, 0xAB, 0xCD, 0x12, 0x34] @ t" and ?g = "[3, 0, 7, 0, 2] @ u"
  have l: "length t = 245" "length u = 250" by (simp_all add: t_def u_def)
  have f: "unat (req_cnt ?f) = 2" "unat (?f ! 5) = 4" "req_addr ?f = 7" "req_addr ?g = 7"
    "unat (?g ! 4) = 2" by (simp_all add: req_addr_def req_cnt_def be16_def)
  have "take (2 * 2) (drop 6 ?f) = [0xAB, 0xCD, 0x12, 0x34]" "take 5 ?f = [16, 0, 7, 0, 2]"
    by (simp_all add: numeral_eq_Suc)
  with write_then_read_registers [OF mb_dev_inv_reset, of ?f ?g 10 2] f l show ?thesis
    unfolding t_def [symmetric] u_def [symmetric] by simp
qed

text \<open>C17: \<open>Read/Write Multiple Registers\<close> on every branch. The write is done before the read, so
  overlapping ranges answer with the new values; a bad write range changes nothing, while a bad
  read range is reported after the write has taken effect; a request shorter than ten bytes is
  accepted without an exception and echoed.\<close>

theorem readwrite_registers:
  assumes "mb_dev_inv dev" and "253 \<le> length f"
  shows "reply (eMBFuncReadWriteMultipleHoldingRegister dev f usLen) =
    (let a = unat (req_addr f); n = unat (req_cnt f); wa = unat (rw_waddr f); wn = unat (rw_wcnt f);
         dev' = put_regs dev wa (dec16 (window 10 (2 * wn) f)) in
     if usLen < 10 then Some (dev, take (unat usLen) f, MB_EX_NONE)
     else if n = 0 \<or> 125 < n \<or> wn = 0 \<or> 121 < wn \<or> unat (f ! 9) \<noteq> 2 * wn
     then Some (dev, take (unat usLen) f, MB_EX_ILLEGAL_DATA_VALUE)
     else if 100 < wa + wn then Some (dev, take (unat usLen) f, MB_EX_ILLEGAL_DATA_ADDRESS)
     else if 100 < a + n then Some (dev', [23, word_of_nat (2 * n)], MB_EX_ILLEGAL_DATA_ADDRESS)
     else Some (dev', 23 # word_of_nat (2 * n) # enc16 (regs_at dev' a n), MB_EX_NONE))"
  by (rule readwrite_reply [OF assms])

theorem readwrite_registers_witness:
  "\<exists>dev'. reply (eMBFuncReadWriteMultipleHoldingRegister mb_dev_reset
      ([23, 0, 4, 0, 2, 0, 5, 0, 1, 2, 0xBE, 0xEF] @ replicate 243 0) 12) =
    Some (dev', [23, 4, 0, 0, 0xBE, 0xEF], MB_EX_NONE)"
proof -
  define t where "t = replicate 243 (0 :: u8)"
  let ?f = "[23, 0, 4, 0, 2, 0, 5, 0, 1, 2, 0xBE, 0xEF] @ t"
  let ?dev = "put_regs mb_dev_reset 5 [0xBEEF]"
  have l: "length t = 243" by (simp add: t_def)
  have f: "unat (req_addr ?f) = 4" "unat (req_cnt ?f) = 2" "unat (rw_waddr ?f) = 5"
      "unat (rw_wcnt ?f) = 1" "unat (?f ! 9) = 2"
    by (simp_all add: req_addr_def req_cnt_def rw_waddr_def rw_wcnt_def be16_def)
  have "dec16 (window 10 (2 * 1) ?f) = [0xBEEF]" by (simp add: window_def be16_def)
  moreover have "enc16 (regs_at ?dev 4 2) = [0, 0, 0xBE, 0xEF]" by code_simp
  ultimately show ?thesis
    using readwrite_registers [OF mb_dev_inv_reset, of ?f 12] f l
    unfolding t_def [symmetric] by (simp add: Let_def)
qed

text \<open>C19: Reading coils, on every branch; an answer packs the coils eight to a byte, lowest address
  in the lowest bit, unused bits zero. When the last field reaches past \<open>ucSCoilBuf\<close> (from coil
  56 on, or 48 and more coils at once) the read leaves the buffer.\<close>

theorem read_coils:
  assumes "mb_dev_inv dev" and "253 \<le> length f"
  shows "reply (eMBFuncReadCoils dev f usLen) =
    (let a = unat (req_addr f); n = unat (req_cnt f); nb = (n + 7) div 8 in
     if usLen \<noteq> 5 \<or> n = 0 \<or> 2000 \<le> n then Some (dev, take (unat usLen) f, MB_EX_ILLEGAL_DATA_VALUE)
     else if 64 < a + n then Some (dev, [1, word_of_nat nb], MB_EX_ILLEGAL_DATA_ADDRESS)
     else if 8 \<le> a div 8 + n div 8 + 1 then None
     else Some (dev, 1 # word_of_nat nb # take nb (packed (ucSCoilBuf (d_app dev)) a n), MB_EX_NONE))"
  by (rule read_coils_reply [OF assms])

theorem read_coils_witness:
  "reply (eMBFuncReadCoils (mb_dev_reset\<lparr>d_app := mb_app_reset\<lparr>ucSCoilBuf := [0, 0, 0xA8, 0x35, 1, 0, 0, 0]\<rparr>\<rparr>)
      ([1, 0, 19, 0, 10] @ replicate 250 0) 5) =
    Some (mb_dev_reset\<lparr>d_app := mb_app_reset\<lparr>ucSCoilBuf := [0, 0, 0xA8, 0x35, 1, 0, 0, 0]\<rparr>\<rparr>,
      [1, 2, 0xB5, 0x02], MB_EX_NONE)"
proof -
  define t where "t = replicate 250 (0 :: u8)"
  let ?f = "[1, 0, 19, 0, 10] @ t" and ?b = "[0, 0, 0xA8, 0x35, 1, 0, 0, 0] :: u8 list"
  let ?dev = "mb_dev_reset\<lparr>d_app := mb_app_reset\<lparr>ucSCoilBuf := ?b\<rparr>\<rparr>"
  have "mb_dev_inv ?dev"
    using mb_dev_inv_reset by (simp add: mb_dev_inv_def mb_app_inv_def mb_dev_reset_def)
  moreover have "take 2 (packed ?b 19 10) = [0xB5, 0x02]" by code_simp
  moreover have "unat (req_addr ?f) = 19" "unat (req_cnt ?f) = 10" "length t = 250"
    by (simp_all add: req_addr_def req_cnt_def be16_def t_def)
  ultimately show ?thesis
    using read_coils [of ?dev ?f 5] unfolding t_def [symmetric] by (simp add: Let_def)
qed

text \<open>C18: \<open>Write Multiple Coils\<close> sets exactly the addressed coils to the bits of the frame, except
  that the unused bits of the last value byte are or-ed into the coils behind the range
  (\<open>written_bit\<close>); the answer is the head of the request.\<close>

theorem write_coils:
  assumes "mb_dev_inv dev" and "253 \<le> length f" and "6 \<le> usLen"
    and "0 < unat (req_cnt f)" and "unat (f ! 5) = (unat (req_cnt f) + 7) div 8"
    and "unat (req_addr f) + unat (req_cnt f) \<le> 64"
    and "unat (req_addr f) div 8 + (unat (req_cnt f) + 7) div 8 < 8"
  shows "\<exists>area. reply (eMBFuncWriteMultipleCoils dev f usLen) =
      Some (dev\<lparr>d_app := (d_app dev)\<lparr>ucSCoilBuf := area\<rparr>\<rparr>, take 5 f, MB_EX_NONE) \<and>
    length area = 8 \<and>
    (\<forall>k. area_bit area k =
      written_bit (ucSCoilBuf (d_app dev)) (unat (req_addr f)) (unat (req_cnt f)) f 6 k)"
proof -
  have "\<not> usLen < 6" using assms(3) by simp
  moreover have "length (ucSCoilBuf (d_app dev)) = 8"
    using assms(1) by (simp add: mb_dev_inv_def mb_app_inv_def)
  ultimately show ?thesis
    using write_coils_done [OF assms(1,2), of usLen] assms(4-7) by (auto simp: coils_written_def)
qed

text \<open>The witness writes the single coil 0 with a value byte of 0xFF: coils 1 to 7 come on too.\<close>

theorem write_coils_witness:
  "\<exists>area. reply (eMBFuncWriteMultipleCoils mb_dev_reset ([15, 0, 0, 0, 1, 1, 0xFF] @ replicate 248 0) 7) =
      Some (mb_dev_reset\<lparr>d_app := mb_app_reset\<lparr>ucSCoilBuf := area\<rparr>\<rparr>, [15, 0, 0, 0, 1], MB_EX_NONE) \<and>
    area_bit area 0 \<and> area_bit area 5 \<and> \<not> area_bit area 8"
proof -
  define t where "t = replicate 248 (0 :: u8)"
  let ?f = "[15, 0, 0, 0, 1, 1, 0xFF] @ t"
  have f: "unat (req_addr ?f) = 0" "unat (req_cnt ?f) = 1" "unat (?f ! 5) = 1" "length t = 248"
    by (simp_all add: req_addr_def req_cnt_def be16_def t_def)
  have b: "written_bit (ucSCoilBuf mb_app_reset) 0 1 ?f 6 0" "written_bit (ucSCoilBuf mb_app_reset) 0 1 ?f 6 5"
      "\<not> written_bit (ucSCoilBuf mb_app_reset) 0 1 ?f 6 8"
    by (simp_all add: written_bit_def area_bit_def mb_app_reset_def regmap_consts)
  have "253 \<le> length ?f" using f(4) by simp
  from write_coils [OF mb_dev_inv_reset this, of 7] obtain area where
    "reply (eMBFuncWriteMultipleCoils mb_dev_reset ?f 7) =
      Some (mb_dev_reset\<lparr>d_app := (d_app mb_dev_reset)\<lparr>ucSCoilBuf := area\<rparr>\<rparr>, take 5 ?f, MB_EX_NONE)"
    "\<forall>k. area_bit area k = written_bit (ucSCoilBuf (d_app mb_dev_reset)) 0 1 ?f 6 k"
    unfolding f by auto
  moreover have "d_app mb_dev_reset = mb_app_reset" by (simp add: mb_dev_reset_def)
  moreover have "take 5 ?f = [15, 0, 0, 0, 1]" by simp
  ultimately show ?thesis
    unfolding t_def [symmetric] using b by (intro exI [of _ area]) (simp only: simp_thms)
qed

end
