(* ===== verification/MB_Func_Shape.thy ===== *)
theory MB_Func_Shape
  imports MB_Func_Spec
begin

text \<open>
  What every function code handler keeps, whatever the request says: the size of the frame
  memory, the sizes of the register areas, and a response that fits a serial line frame. The
  stack relies on these contracts when it sends the response out of the same memory.
\<close>

lemma regs_to_bytes_length: "regs_to_bytes regs i n buf p = Inr buf' \<Longrightarrow> length buf' = length buf"
  by (induction n arbitrary: i buf p) (auto simp: res_simps)

lemma bytes_to_regs_length: "bytes_to_regs regs i n buf p = Inr regs' \<Longrightarrow> length regs' = length regs"
  by (induction n arbitrary: i regs p) (auto simp: res_simps)

lemma bits_to_bytes_length: "bits_to_bytes area i o' n buf p = Inr buf' \<Longrightarrow> length buf' = length buf"
  by (induction n arbitrary: i buf p) (auto simp: res_simps)

lemma setbits_length: "xMBUtilSetBits buf p off n v = Inr buf' \<Longrightarrow> length buf' = length buf"
  by (auto simp: xMBUtilSetBits_def Let_def res_simps)

lemma bytes_to_bits_length: "bytes_to_bits area i o' n buf p = Inr area' \<Longrightarrow> length area' = length area"
  by (induction n arbitrary: i area p) (auto simp: res_simps dest: setbits_length)

lemma trim_last_length: "trim_last buf p n = Inr buf' \<Longrightarrow> length buf' = length buf"
  by (auto simp: trim_last_def res_simps)

lemmas loop_lengths = regs_to_bytes_length bytes_to_regs_length bits_to_bytes_length
  bytes_to_bits_length trim_last_length setbits_length

lemma holding_cb_shape:
  "eMBRegHoldingCB app buf p a n mode = Inr (app', buf', e) \<Longrightarrow>
   length buf' = length buf \<and> (mb_app_inv app \<longrightarrow> mb_app_inv app')"
  by (cases mode)
     (auto simp: eMBRegHoldingCB_def Let_def res_simps mb_app_inv_def dest: loop_lengths split: if_splits)

lemma input_cb_shape:
  "eMBRegInputCB app buf p a n = Inr (buf', e) \<Longrightarrow> length buf' = length buf"
  by (auto simp: eMBRegInputCB_def Let_def res_simps dest: loop_lengths split: if_splits)

lemma coils_cb_shape:
  "eMBRegCoilsCB app buf p a n mode = Inr (app', buf', e) \<Longrightarrow>
   length buf' = length buf \<and> (mb_app_inv app \<longrightarrow> mb_app_inv app')"
  by (cases mode)
     (auto simp: eMBRegCoilsCB_def Let_def res_simps mb_app_inv_def dest!: loop_lengths split: if_splits)

lemma discrete_cb_shape:
  "eMBRegDiscreteCB app buf p a n = Inr (buf', e) \<Longrightarrow> length buf' = length buf"
  by (auto simp: eMBRegDiscreteCB_def Let_def res_simps dest!: loop_lengths split: if_splits)

text \<open>Response lengths.\<close>

lemma regs_response: "n \<le> 125 \<Longrightarrow> unat (2 + n * 2 :: u16) \<le> 253"
  by (simp add: unat_2_plus word_le_nat_alt)

lemma regs_response': "n \<le> 125 \<Longrightarrow> unat (2 + 2 * n :: u16) \<le> 253"
  using regs_response [of n] by (simp only: mult.commute [of 2 n])

lemma bits_response: "n < 0x7D0 \<Longrightarrow> unat (2 + ucast (bit_bytes n) :: u16) \<le> 253"
proof -
  assume "n < 0x7D0"
  then have n: "unat n < 2000" by (simp add: word_less_nat_alt)
  then have "unat (bit_bytes n) \<le> 250" by (subst bit_bytes_nat(2)) simp_all
  then show ?thesis by (simp add: unat_plus_if')
qed

definition handler_shape :: "mb_dev \<Rightarrow> u8 list \<Rightarrow> handler_result \<Rightarrow> bool" where
  "handler_shape dev f r \<longleftrightarrow> (\<forall>dev' f' len' e. r = Inr (dev', f', len', e) \<longrightarrow>
     length f' = length f \<and> unat len' \<le> 253 \<and> (mb_dev_inv dev \<longrightarrow> mb_dev_inv dev'))"

lemma shape_bind: "(\<And>x. m = Inr x \<Longrightarrow> handler_shape dev f (g x)) \<Longrightarrow> handler_shape dev f (bindR m g)"
  by (cases m) (auto simp: handler_shape_def)

lemma shape_bind3:
  "(\<And>a b c. m = Inr (a, b, c) \<Longrightarrow> handler_shape dev f (g a b c)) \<Longrightarrow>
   handler_shape dev f (bindR m (\<lambda>(a, b, c). g a b c))"
  by (cases m) (auto simp: handler_shape_def)

lemma shape_if:
  "(P \<Longrightarrow> handler_shape dev f a) \<Longrightarrow> (\<not> P \<Longrightarrow> handler_shape dev f b) \<Longrightarrow> handler_shape dev f (if P then a else b)"
  by simp

lemma shape_leaf:
  "length f' = length f \<Longrightarrow> unat len' \<le> 253 \<Longrightarrow> mb_dev_inv dev \<longrightarrow> mb_dev_inv dev' \<Longrightarrow>
   handler_shape dev f (Inr (dev', f', len', e))"
  by (simp add: handler_shape_def)

lemmas shape_intros = shape_bind3 shape_bind shape_if shape_leaf

lemma shape_read_holding: "unat len \<le> 253 \<Longrightarrow> handler_shape dev f (eMBFuncReadHoldingRegister dev f len)"
  using regs_response
  by (auto simp: handler_shape_def eMBFuncReadHoldingRegister_def Let_def res_simps pdu_num mb_dev_inv_def
      dest!: holding_cb_shape split: if_splits)

lemma shape_read_input: "unat len \<le> 253 \<Longrightarrow> handler_shape dev f (eMBFuncReadInputRegister dev f len)"
  using regs_response
  by (auto simp: handler_shape_def eMBFuncReadInputRegister_def Let_def res_simps pdu_num mb_dev_inv_def
      dest!: input_cb_shape split: if_splits)

lemma shape_write_single: "unat len \<le> 253 \<Longrightarrow> handler_shape dev f (eMBFuncWriteHoldingRegister dev f len)"
  by (auto simp: handler_shape_def eMBFuncWriteHoldingRegister_def Let_def res_simps pdu_num mb_dev_inv_def
      dest!: holding_cb_shape split: if_splits)

lemma shape_write_multiple:
  "unat len \<le> 253 \<Longrightarrow> handler_shape dev f (eMBFuncWriteMultipleHoldingRegister dev f len)"
  by (auto simp: handler_shape_def eMBFuncWriteMultipleHoldingRegister_def Let_def res_simps pdu_num
      mb_dev_inv_def dest!: holding_cb_shape split: if_splits)

lemma shape_readwrite:
  "unat len \<le> 253 \<Longrightarrow> handler_shape dev f (eMBFuncReadWriteMultipleHoldingRegister dev f len)"
  unfolding eMBFuncReadWriteMultipleHoldingRegister_def
  by (intro shape_intros)
     (auto simp: regs_response' wr_eq_Inr mb_dev_inv_def dest!: holding_cb_shape)

lemma shape_read_coils: "unat len \<le> 253 \<Longrightarrow> handler_shape dev f (eMBFuncReadCoils dev f len)"
  using bits_response
  by (auto simp: handler_shape_def eMBFuncReadCoils_def Let_def res_simps pdu_num mb_dev_inv_def
      dest!: coils_cb_shape split: if_splits)

lemma shape_write_coil: "unat len \<le> 253 \<Longrightarrow> handler_shape dev f (eMBFuncWriteCoil dev f len)"
  by (auto simp: handler_shape_def eMBFuncWriteCoil_def Let_def res_simps pdu_num mb_dev_inv_def
      dest!: coils_cb_shape split: if_splits)

lemma shape_write_coils: "unat len \<le> 253 \<Longrightarrow> handler_shape dev f (eMBFuncWriteMultipleCoils dev f len)"
  by (auto simp: handler_shape_def eMBFuncWriteMultipleCoils_def Let_def res_simps pdu_num mb_dev_inv_def
      dest!: coils_cb_shape split: if_splits)

lemma shape_read_discrete: "unat len \<le> 253 \<Longrightarrow> handler_shape dev f (eMBFuncReadDiscreteInputs dev f len)"
  using bits_response
  by (auto simp: handler_shape_def eMBFuncReadDiscreteInputs_def Let_def res_simps pdu_num mb_dev_inv_def
      dest!: discrete_cb_shape split: if_splits)

lemma shape_slave_id:
  assumes "mb_dev_inv dev"
  shows "handler_shape dev f (eMBFuncReportSlaveID dev f len)"
proof -
  have "unat (usMBSlaveIDLen dev) \<le> 32" using assms by (simp add: mb_dev_inv_def)
  then have "unat (1 + usMBSlaveIDLen dev) \<le> 253" by (simp add: unat_plus_if')
  then show ?thesis by (auto simp: handler_shape_def eMBFuncReportSlaveID_def Let_def pdu_num)
qed

text \<open>Setting the identification keeps the invariant.\<close>

lemma set_slave_id_inv:
  assumes "mb_dev_inv dev" and "eMBSetSlaveID dev i r extra n = Inr (dev', e)"
  shows "mb_dev_inv dev'"
proof -
  have "unat (2 + n) \<le> 32" if "unat n + 2 < 32" using that by (simp add: unat_plus_if')
  then show ?thesis using assms
    by (auto simp: eMBSetSlaveID_def mb_dev_inv_def res_simps MB_FUNC_OTHER_REP_SLAVEID_BUF_def split: if_splits)
qed

end
