(* ===== verification/MB_Port.thy ===== *)
theory MB_Port
  imports MB_Types
begin

text \<open>
  The instance record \<open>eModbus\<close> and the porting layer (\<open>mbport/portevent.c\<close>,
  \<open>portserial.c\<close>, \<open>porttimer.c\<close>). The two state pointers are optional values of the state type
  of the mode (null until the mode is initialised). The send pointer is a position in the frame
  buffer of the mode; \<open>buf_addr\<close> is the address the linker gave \<open>ucRTUBuf\<close>. The last fields
  are the hardware as the layer sees it: the driver-enable pin, the frame timer, and the bytes
  handed to the UART.
\<close>

record ('r, 's) eModbus =
  config :: eMB_Config
  RcvState :: "'r option"
  SndState :: "'s option"
  ucRTUBuf :: "u8 list"
  buf_addr :: u32
  ucASCIIBuf :: "u8 list option"
  pucSndBufferCur :: nat
  usSndBufferCount :: u16
  usRcvBufferPos :: u16
  eBytePos :: eMBBytePos
  ucMBLFCharacter :: u8
  eQueuedEvent :: eMBEventType
  xEventInQueue :: bool
  tx_done :: bool
  tx_cb_set :: bool
  timer_cb_set :: bool
  de_line :: bool
  timer_on :: bool
  wire :: "u8 list"

definition BSP_RS485 :: u8 where
  "BSP_RS485 = 1"

definition deref :: "'a option \<Rightarrow> 'a res" where
  "deref p = (case p of None \<Rightarrow> Inl Null_Pointer | Some v \<Rightarrow> Inr v)"

lemma deref_simps [simp]: "deref None = Inl Null_Pointer" "deref (Some v) = Inr v"
  by (simp_all add: deref_def)

subsection \<open>Events\<close>

definition xMBPortEventInit :: "('r, 's) eModbus \<Rightarrow> ('r, 's) eModbus \<times> bool" where
  "xMBPortEventInit m = (m\<lparr>xEventInQueue := False\<rparr>, True)"

definition xMBPortEventPost :: "('r, 's) eModbus \<Rightarrow> eMBEventType \<Rightarrow> ('r, 's) eModbus \<times> bool" where
  "xMBPortEventPost m e = (m\<lparr>xEventInQueue := True, eQueuedEvent := e\<rparr>, True)"

definition xMBPortEventGet :: "('r, 's) eModbus \<Rightarrow> ('r, 's) eModbus \<times> eMBEventType option" where
  "xMBPortEventGet m =
     (if xEventInQueue m then (m\<lparr>xEventInQueue := False\<rparr>, Some (eQueuedEvent m)) else (m, None))"

subsection \<open>Timers\<close>

definition xMBPortTimersInit :: "('r, 's) eModbus \<Rightarrow> u16 \<Rightarrow> ('r, 's) eModbus \<times> bool" where
  "xMBPortTimersInit m usTim1Timerout50us = (m\<lparr>timer_cb_set := True\<rparr>, True)"

definition vMBPortTimersEnable :: "('r, 's) eModbus \<Rightarrow> ('r, 's) eModbus" where
  "vMBPortTimersEnable m =
     (if cfg_ucPort (config m) = BSP_RS485 then m\<lparr>timer_on := True\<rparr> else m)"

definition vMBPortTimersDisable :: "('r, 's) eModbus \<Rightarrow> ('r, 's) eModbus" where
  "vMBPortTimersDisable m =
     (if cfg_ucPort (config m) = BSP_RS485 then m\<lparr>timer_on := False\<rparr> else m)"

subsection \<open>Serial line\<close>

definition xMBPortSerialInit ::
  "('r, 's) eModbus \<Rightarrow> u8 \<Rightarrow> u32 \<Rightarrow> u8 \<Rightarrow> eMBParity \<Rightarrow> ('r, 's) eModbus \<times> bool" where
  "xMBPortSerialInit m ucPORT ulBaudRate ucDataBits eParity =
     (m\<lparr>config := (config m)\<lparr>cfg_ucPort := ucPORT\<rparr>, tx_cb_set := True\<rparr>, True)"

text \<open>Enabling the transmitter calls back into the frame layer (\<open>cb\<close>) at once.\<close>

definition vMBPortSerialEnable ::
  "(('r, 's) eModbus \<Rightarrow> ('r, 's) eModbus res) \<Rightarrow> ('r, 's) eModbus \<Rightarrow> bool \<Rightarrow> bool \<Rightarrow>
   ('r, 's) eModbus res" where
  "vMBPortSerialEnable cb m xRxEnable xTxEnable =
     (let m1 = (if xRxEnable then m\<lparr>de_line := False\<rparr> else m) in
      if xTxEnable then cb (m1\<lparr>de_line := True\<rparr>) else Inr m1)"

definition xMBPortSerialPutByte :: "('r, 's) eModbus \<Rightarrow> u8 \<Rightarrow> ('r, 's) eModbus" where
  "xMBPortSerialPutByte m ucByte = m\<lparr>tx_done := False, wire := wire m @ [ucByte]\<rparr>"

text \<open>
  The UART is handed the address of the local pointer \<open>ucByte\<close> and a length of one: what goes
  out is the first byte of that pointer's own representation (little endian).
\<close>

definition xMBPortSerialPutBytes :: "('r, 's) eModbus \<Rightarrow> nat \<Rightarrow> u16 \<Rightarrow> ('r, 's) eModbus" where
  "xMBPortSerialPutBytes m ucByte usSize =
     m\<lparr>wire := wire m @ [ucast (buf_addr m + word_of_nat ucByte)]\<rparr>"

text \<open>The receive poll runs the receiver once per byte the UART queue held when it was asked.\<close>

fun feed :: "(('r, 's) eModbus \<Rightarrow> u8 \<Rightarrow> (('r, 's) eModbus \<times> bool) res) \<Rightarrow> ('r, 's) eModbus \<Rightarrow>
    u8 list \<Rightarrow> ('r, 's) eModbus res" where
  "feed fsm m [] = Inr m"
| "feed fsm m (b # bs) = bindR (fsm m b) (\<lambda>(m', need). feed fsm m' bs)"

lemma feed_append: "feed fsm m (xs @ ys) = bindR (feed fsm m xs) (\<lambda>m'. feed fsm m' ys)"
proof (induction xs arbitrary: m)
  case (Cons x xs)
  then show ?case by (cases "fsm m x") auto
qed simp

lemmas port_defs = xMBPortEventPost_def vMBPortTimersEnable_def vMBPortTimersDisable_def
  vMBPortSerialEnable_def xMBPortSerialPutByte_def xMBPortSerialPutBytes_def

end
