(* ===== verification/MB_CRC.thy ===== *)
theory MB_CRC
  imports Prelude
begin

text \<open>
  The RTU checksum of \<open>rtu/mbcrc.c\<close>: the two lookup tables and the loop of \<open>usMBCRC16\<close>
  exactly as they stand, the bit-serial CRC-16 with the reflected polynomial \<open>0xA001\<close> as
  reference, and their equivalence. The interface \<open>stream_checksum\<close> collects what the frame
  layers use of a checksum; \<open>CRC-16\<close> and the LRC of the ASCII mode both provide it.
\<close>

subsection \<open>Tables and loop of the code\<close>

definition aucCRCHi :: "u8 list" where
  "aucCRCHi = [
     0x00, 0xC1, 0x81, 0x40, 0x01, 0xC0, 0x80, 0x41, 0x01, 0xC0, 0x80, 0x41,
     0x00, 0xC1, 0x81, 0x40, 0x01, 0xC0, 0x80, 0x41, 0x00, 0xC1, 0x81, 0x40,
     0x00, 0xC1, 0x81, 0x40, 0x01, 0xC0, 0x80, 0x41, 0x01, 0xC0, 0x80, 0x41,
     0x00, 0xC1, 0x81, 0x40, 0x00, 0xC1, 0x81, 0x40, 0x01, 0xC0, 0x80, 0x41,
     0x00, 0xC1, 0x81, 0x40, 0x01, 0xC0, 0x80, 0x41, 0x01, 0xC0, 0x80, 0x41,
     0x00, 0xC1, 0x81, 0x40, 0x01, 0xC0, 0x80, 0x41, 0x00, 0xC1, 0x81, 0x40,
     0x00, 0xC1, 0x81, 0x40, 0x01, 0xC0, 0x80, 0x41, 0x00, 0xC1, 0x81, 0x40,
     0x01, 0xC0, 0x80, 0x41, 0x01, 0xC0, 0x80, 0x41, 0x00, 0xC1, 0x81, 0x40,
     0x00, 0xC1, 0x81, 0x40, 0x01, 0xC0, 0x80, 0x41, 0x01, 0xC0, 0x80, 0x41,
     0x00, 0xC1, 0x81, 0x40, 0x01, 0xC0, 0x80, 0x41, 0x00, 0xC1, 0x81, 0x40,
     0x00, 0xC1, 0x81, 0x40, 0x01, 0xC0, 0x80, 0x41, 0x01, 0xC0, 0x80, 0x41,
     0x00, 0xC1, 0x81, 0x40, 0x00, 0xC1, 0x81, 0x40, 0x01, 0xC0, 0x80, 0x41,
     0x00, 0xC1, 0x81, 0x40, 0x01, 0xC0, 0x80, 0x41, 0x01, 0xC0, 0x80, 0x41,
     0x00, 0xC1, 0x81, 0x40, 0x00, 0xC1, 0x81, 0x40, 0x01, 0xC0, 0x80, 0x41,
     0x01, 0xC0, 0x80, 0x41, 0x00, 0xC1, 0x81, 0x40, 0x01, 0xC0, 0x80, 0x41,
     0x00, 0xC1, 0x81, 0x40, 0x00, 0xC1, 0x81, 0x40, 0x01, 0xC0, 0x80, 0x41,
     0x00, 0xC1, 0x81, 0x40, 0x01, 0xC0, 0x80, 0x41, 0x01, 0xC0, 0x80, 0x41,
     0x00, 0xC1, 0x81, 0x40, 0x01, 0xC0, 0x80, 0x41, 0x00, 0xC1, 0x81, 0x40,
     0x00, 0xC1, 0x81, 0x40, 0x01, 0xC0, 0x80, 0x41, 0x01, 0xC0, 0x80, 0x41,
     0x00, 0xC1, 0x81, 0x40, 0x00, 0xC1, 0x81, 0x40, 0x01, 0xC0, 0x80, 0x41,
     0x00, 0xC1, 0x81, 0x40, 0x01, 0xC0, 0x80, 0x41, 0x01, 0xC0, 0x80, 0x41,
     0x00, 0xC1, 0x81, 0x40]"

definition aucCRCLo :: "u8 list" where
  "aucCRCLo = [
     0x00, 0xC0, 0xC1, 0x01, 0xC3, 0x03, 0x02, 0xC2, 0xC6, 0x06, 0x07, 0xC7,
     0x05, 0xC5, 0xC4, 0x04, 0xCC, 0x0C, 0x0D, 0xCD, 0x0F, 0xCF, 0xCE, 0x0E,
     0x0A, 0xCA, 0xCB, 0x0B, 0xC9, 0x09, 0x08, 0xC8, 0xD8, 0x18, 0x19, 0xD9,
     0x1B, 0xDB, 0xDA, 0x1A, 0x1E, 0xDE, 0xDF, 0x1F, 0xDD, 0x1D, 0x1C, 0xDC,
     0x14, 0xD4, 0xD5, 0x15, 0xD7, 0x17, 0x16, 0xD6, 0xD2, 0x12, 0x13, 0xD3,
     0x11, 0xD1, 0xD0, 0x10, 0xF0, 0x30, 0x31, 0xF1, 0x33, 0xF3, 0xF2, 0x32,
     0x36, 0xF6, 0xF7, 0x37, 0xF5, 0x35, 0x34, 0xF4, 0x3C, 0xFC, 0xFD, 0x3D,
     0xFF, 0x3F, 0x3E, 0xFE, 0xFA, 0x3A, 0x3B, 0xFB, 0x39, 0xF9, 0xF8, 0x38,
     0x28, 0xE8, 0xE9, 0x29, 0xEB, 0x2B, 0x2A, 0xEA, 0xEE, 0x2E, 0x2F, 0xEF,
     0x2D, 0xED, 0xEC, 0x2C, 0xE4, 0x24, 0x25, 0xE5, 0x27, 0xE7, 0xE6, 0x26,
     0x22, 0xE2, 0xE3, 0x23, 0xE1, 0x21, 0x20, 0xE0, 0xA0, 0x60, 0x61, 0xA1,
     0x63, 0xA3, 0xA2, 0x62, 0x66, 0xA6, 0xA7, 0x67, 0xA5, 0x65, 0x64, 0xA4,
     0x6C, 0xAC, 0xAD, 0x6D, 0xAF, 0x6F, 0x6E, 0xAE, 0xAA, 0x6A, 0x6B, 0xAB,
     0x69, 0xA9, 0xA8, 0x68, 0x78, 0xB8, 0xB9, 0x79, 0xBB, 0x7B, 0x7A, 0xBA,
     0xBE, 0x7E, 0x7F, 0xBF, 0x7D, 0xBD, 0xBC, 0x7C, 0xB4, 0x74, 0x75, 0xB5,
     0x77, 0xB7, 0xB6, 0x76, 0x72, 0xB2, 0xB3, 0x73, 0xB1, 0x71, 0x70, 0xB0,
     0x50, 0x90, 0x91, 0x51, 0x93, 0x53, 0x52, 0x92, 0x96, 0x56, 0x57, 0x97,
     0x55, 0x95, 0x94, 0x54, 0x9C, 0x5C, 0x5D, 0x9D, 0x5F, 0x9F, 0x9E, 0x5E,
     0x5A, 0x9A, 0x9B, 0x5B, 0x99, 0x59, 0x58, 0x98, 0x88, 0x48, 0x49, 0x89,
     0x4B, 0x8B, 0x8A, 0x4A, 0x4E, 0x8E, 0x8F, 0x4F, 0x8D, 0x4D, 0x4C, 0x8C,
     0x44, 0x84, 0x85, 0x45, 0x87, 0x47, 0x46, 0x86, 0x82, 0x42, 0x43, 0x83,
     0x41, 0x81, 0x80, 0x40]"

text \<open>
  One iteration: \<open>iIndex = ucCRCLo ^ *pucFrame++\<close>, then both halves are replaced. The frame is
  the memory from the start of the buffer, \<open>off\<close> the position of \<open>pucFrame\<close> in it.
\<close>

fun crc_loop :: "u8 list \<Rightarrow> nat \<Rightarrow> nat \<Rightarrow> u8 \<Rightarrow> u8 \<Rightarrow> (u8 \<times> u8) res" where
  "crc_loop buf off 0 ucCRCHi ucCRCLo = Inr (ucCRCHi, ucCRCLo)"
| "crc_loop buf off (Suc usLen) ucCRCHi ucCRCLo =
     bindR (rd buf off) (\<lambda>b.
       let iIndex = unat (ucCRCLo XOR b) in
       crc_loop buf (Suc off) usLen (aucCRCLo ! iIndex) (ucCRCHi XOR aucCRCHi ! iIndex))"

definition usMBCRC16 :: "u8 list \<Rightarrow> nat \<Rightarrow> nat \<Rightarrow> u16 res" where
  "usMBCRC16 buf off usLen =
     bindR (crc_loop buf off usLen 0xFF 0xFF) (\<lambda>(hi, lo). Inr (be16 hi lo))"

subsection \<open>Bit-serial reference\<close>

definition crc_bit :: "u16 \<Rightarrow> u16" where
  "crc_bit c = (if bit c 0 then drop_bit 1 c XOR 0xA001 else drop_bit 1 c)"

definition crc_byte :: "u16 \<Rightarrow> u8 \<Rightarrow> u16" where
  "crc_byte c b = (crc_bit ^^ 8) (c XOR ucast b)"

definition crc16 :: "u8 list \<Rightarrow> u16" where
  "crc16 bs = foldl crc_byte 0xFFFF bs"

subsection \<open>The tables hold the eight-step remainders\<close>

text \<open>The 256 remainders, evaluated once from the bit-serial step and once from the tables.\<close>

definition crc_table :: "u16 list" where
  "crc_table = [
     0x0000, 0xC0C1, 0xC181, 0x0140, 0xC301, 0x03C0, 0x0280, 0xC241,
     0xC601, 0x06C0, 0x0780, 0xC741, 0x0500, 0xC5C1, 0xC481, 0x0440,
     0xCC01, 0x0CC0, 0x0D80, 0xCD41, 0x0F00, 0xCFC1, 0xCE81, 0x0E40,
     0x0A00, 0xCAC1, 0xCB81, 0x0B40, 0xC901, 0x09C0, 0x0880, 0xC841,
     0xD801, 0x18C0, 0x1980, 0xD941, 0x1B00, 0xDBC1, 0xDA81, 0x1A40,
     0x1E00, 0xDEC1, 0xDF81, 0x1F40, 0xDD01, 0x1DC0, 0x1C80, 0xDC41,
     0x1400, 0xD4C1, 0xD581, 0x1540, 0xD701, 0x17C0, 0x1680, 0xD641,
     0xD201, 0x12C0, 0x1380, 0xD341, 0x1100, 0xD1C1, 0xD081, 0x1040,
     0xF001, 0x30C0, 0x3180, 0xF141, 0x3300, 0xF3C1, 0xF281, 0x3240,
     0x3600, 0xF6C1, 0xF781, 0x3740, 0xF501, 0x35C0, 0x3480, 0xF441,
     0x3C00, 0xFCC1, 0xFD81, 0x3D40, 0xFF01, 0x3FC0, 0x3E80, 0xFE41,
     0xFA01, 0x3AC0, 0x3B80, 0xFB41, 0x3900, 0xF9C1, 0xF881, 0x3840,
     0x2800, 0xE8C1, 0xE981, 0x2940, 0xEB01, 0x2BC0, 0x2A80, 0xEA41,
     0xEE01, 0x2EC0, 0x2F80, 0xEF41, 0x2D00, 0xEDC1, 0xEC81, 0x2C40,
     0xE401, 0x24C0, 0x2580, 0xE541, 0x2700, 0xE7C1, 0xE681, 0x2640,
     0x2200, 0xE2C1, 0xE381, 0x2340, 0xE101, 0x21C0, 0x2080, 0xE041,
     0xA001, 0x60C0, 0x6180, 0xA141, 0x6300, 0xA3C1, 0xA281, 0x6240,
     0x6600, 0xA6C1, 0xA781, 0x6740, 0xA501, 0x65C0, 0x6480, 0xA441,
     0x6C00, 0xACC1, 0xAD81, 0x6D40, 0xAF01, 0x6FC0, 0x6E80, 0xAE41,
     0xAA01, 0x6AC0, 0x6B80, 0xAB41, 0x6900, 0xA9C1, 0xA881, 0x6840,
     0x7800, 0xB8C1, 0xB981, 0x7940, 0xBB01, 0x7BC0, 0x7A80, 0xBA41,
     0xBE01, 0x7EC0, 0x7F80, 0xBF41, 0x7D00, 0xBDC1, 0xBC81, 0x7C40,
     0xB401, 0x74C0, 0x7580, 0xB541, 0x7700, 0xB7C1, 0xB681, 0x7640,
     0x7200, 0xB2C1, 0xB381, 0x7340, 0xB101, 0x71C0, 0x7080, 0xB041,
     0x5000, 0x90C1, 0x9181, 0x5140, 0x9301, 0x53C0, 0x5280, 0x9241,
     0x9601, 0x56C0, 0x5780, 0x9741, 0x5500, 0x95C1, 0x9481, 0x5440,
     0x9C01, 0x5CC0, 0x5D80, 0x9D41, 0x5F00, 0x9FC1, 0x9E81, 0x5E40,
     0x5A00, 0x9AC1, 0x9B81, 0x5B40, 0x9901, 0x59C0, 0x5880, 0x9841,
     0x8801, 0x48C0, 0x4980, 0x8941, 0x4B00, 0x8BC1, 0x8A81, 0x4A40,
     0x4E00, 0x8EC1, 0x8F81, 0x4F40, 0x8D01, 0x4DC0, 0x4C80, 0x8C41,
     0x4400, 0x84C1, 0x8581, 0x4540, 0x8701, 0x47C0, 0x4680, 0x8641,
     0x8201, 0x42C0, 0x4380, 0x8341, 0x4100, 0x81C1, 0x8081, 0x4040]"

definition crc8 :: "u16 \<Rightarrow> u16" where
  "crc8 c = (crc_bit ^^ 8) c"

lemma crc_bit_num:
  "crc_bit 0 = 0" "crc_bit 1 = 0xA001"
  "crc_bit (numeral n) =
     (if bit (numeral n :: u16) 0 then drop_bit 1 (numeral n) XOR 0xA001 else drop_bit 1 (numeral n))"
  by (simp_all add: crc_bit_def)

lemma crc8_unfold:
  "crc8 x = crc_bit (crc_bit (crc_bit (crc_bit (crc_bit (crc_bit (crc_bit (crc_bit x)))))))"
  by (simp add: crc8_def numeral_eq_Suc)

lemma crc8_num:
  "crc8 0 = 0" "crc8 1 = 0xC0C1"
  "crc8 (numeral x) = crc_bit (crc_bit (crc_bit (crc_bit (crc_bit (crc_bit (crc_bit
     (crc_bit (numeral x))))))))"
  by (simp_all add: crc8_unfold crc_bit_num)

lemma crc8_evaluated: "map crc8 (map word_of_nat [0..<256]) = crc_table"
proof -
  have "[0..<256] = 0 # 1 # [2..<256]" by (simp add: upt_rec)
  then show ?thesis
    unfolding crc_table_def by (simp add: upt_rec_numeral crc8_num crc_bit_num del: map_map)
qed

lemma tables_evaluated: "map2 be16 aucCRCLo aucCRCHi = crc_table"
  unfolding aucCRCHi_def aucCRCLo_def crc_table_def by (simp add: be16_def)

lemma length_crc_tables [simp]: "length aucCRCHi = 256" "length aucCRCLo = 256"
  by (simp_all add: aucCRCHi_def aucCRCLo_def)

lemma crc_table_entry:
  assumes "i < 256"
  shows "be16 (aucCRCLo ! i) (aucCRCHi ! i) = crc8 (word_of_nat i)"
proof -
  have "map2 be16 aucCRCLo aucCRCHi ! i = map crc8 (map word_of_nat [0..<256]) ! i"
    by (simp only: tables_evaluated crc8_evaluated)
  with assms show ?thesis by simp
qed

subsection \<open>Linearity and injectivity of the bit-serial step\<close>

lemma bit_A001: "bit (0xA001 :: int) n \<longleftrightarrow> n = 0 \<or> n = 13 \<or> n = 15"
proof -
  have "(0xA001 :: int) = push_bit 15 1 OR push_bit 13 1 OR 1" by simp
  then show ?thesis by (simp only: bit_simps) (auto simp: bit_1_iff)
qed

lemma bit_crc_bit: "bit (crc_bit c) n \<longleftrightarrow> (bit c (Suc n) \<noteq> (bit c 0 \<and> (n = 0 \<or> n = 13 \<or> n = 15)))"
  by (cases "bit c 0") (auto simp: crc_bit_def bit_xor_iff bit_drop_bit_eq bit_A001)

lemma crc_bit_xor: "crc_bit (x XOR y) = crc_bit x XOR crc_bit y"
  by (rule bit_word_eqI) (auto simp: bit_crc_bit bit_simps)

lemma crc_bit_eq_0: "crc_bit x = 0 \<Longrightarrow> x = 0"
proof (rule bit_word_eqI)
  fix n assume z: "crc_bit x = 0" and n: "n < LENGTH(16)"
  have b: "\<not> bit (crc_bit x) k" for k using z by simp
  have "\<not> bit x 16" by (simp add: impossible_bit)
  then have 0: "\<not> bit x 0" using b [of 15] by (simp add: bit_crc_bit)
  show "bit x n \<longleftrightarrow> bit 0 n"
    using b [of "n - 1"] 0 by (cases n) (simp_all add: bit_crc_bit)
qed

lemma crc_bits_xor: "(crc_bit ^^ n) (x XOR y) = (crc_bit ^^ n) x XOR (crc_bit ^^ n) y"
  by (induction n) (simp_all add: crc_bit_xor)

lemma crc8_xor: "crc8 (x XOR y) = crc8 x XOR crc8 y"
  by (simp add: crc8_def crc_bits_xor)

lemma crc_bits_eq_0: "(crc_bit ^^ n) x = 0 \<Longrightarrow> x = 0"
  by (induction n) (auto dest: crc_bit_eq_0)

lemma crc8_eq_0 [simp]: "crc8 x = 0 \<longleftrightarrow> x = 0"
  using crc_bits_eq_0 [of 8 x] by (auto simp: crc8_def crc_bit_num numeral_eq_Suc)

lemma word_xor_eq_0: "x XOR y = 0 \<longleftrightarrow> x = (y :: 'a :: len word)"
proof
  assume "x XOR y = 0"
  then have "(x XOR y) XOR y = y" by simp
  then show "x = y" by (simp add: xor.assoc)
qed simp

lemma word_xor_swap:
  fixes x y z w :: "'a :: len word"
  assumes "x XOR y = z XOR w"
  shows "x XOR z = y XOR w"
proof -
  have "(x XOR z) XOR (y XOR w) = (x XOR y) XOR (z XOR w)" by (simp only: ac_simps)
  also have "\<dots> = 0" using assms by simp
  finally show ?thesis by (simp only: word_xor_eq_0)
qed

lemma word_xor_cancel: "(c XOR x) XOR (c XOR y) = x XOR (y :: 'a :: len word)"
proof -
  have "(c XOR x) XOR (c XOR y) = (c XOR c) XOR (x XOR y)" by (simp only: ac_simps)
  then show ?thesis by (simp only: xor_self_eq xor.left_neutral)
qed

lemma crc8_inj: "crc8 x = crc8 y \<longleftrightarrow> x = y"
proof -
  have "crc8 x = crc8 y \<longleftrightarrow> crc8 (x XOR y) = 0" by (simp only: crc8_xor word_xor_eq_0)
  also have "\<dots> \<longleftrightarrow> x = y" by (simp add: word_xor_eq_0)
  finally show ?thesis .
qed

lemma crc_bits_shift:
  "(\<And>k. k < n \<Longrightarrow> \<not> bit x k) \<Longrightarrow> (crc_bit ^^ n) x = drop_bit n x"
proof (induction n)
  case (Suc n)
  then have "(crc_bit ^^ n) x = drop_bit n x" by simp
  moreover have "\<not> bit x n" using Suc.prems by simp
  ultimately show ?case
    by (simp add: crc_bit_def [of "drop_bit n x"] bit_drop_bit_eq drop_bit_drop_bit)
qed simp

lemma crc8_push [simp]: "crc8 (push_bit 8 (ucast h)) = ucast (h :: u8)"
proof -
  have "crc8 (push_bit 8 (ucast h)) = drop_bit 8 (push_bit 8 (ucast h) :: u16)"
    unfolding crc8_def by (rule crc_bits_shift) (simp add: bit_simps)
  also have "\<dots> = ucast h"
    by (rule bit_word_eqI) (auto simp: bit_simps dest: bit_imp_le_length)
  finally show ?thesis .
qed

lemma be16_xor: "be16 h l = push_bit 8 (ucast h) XOR ucast l"
  by (rule bit_word_eqI) (auto simp: be16_def bit_simps dest: bit_imp_le_length)

subsection \<open>The table loop computes the bit-serial remainder\<close>

lemma crc_loop_step:
  fixes h l b :: u8
  defines "i \<equiv> unat (l XOR b)"
  shows "be16 (aucCRCLo ! i) (h XOR aucCRCHi ! i) = crc_byte (be16 h l) b"
proof -
  have "i < 256" using unsigned_less [of "l XOR b"] by (simp add: i_def)
  have w: "(word_of_nat i :: u16) = ucast l XOR ucast b"
    by (simp add: i_def del: unsigned_xor_eq) (simp add: unsigned_xor_eq)
  have "be16 (aucCRCLo ! i) (h XOR aucCRCHi ! i) = be16 (aucCRCLo ! i) (aucCRCHi ! i) XOR ucast h"
    by (rule bit_word_eqI) (auto simp: bit_be16 bit_simps dest: bit_imp_le_length)
  also have "\<dots> = crc8 (ucast l XOR ucast b) XOR crc8 (push_bit 8 (ucast h))"
    using \<open>i < 256\<close> by (simp add: crc_table_entry w)
  also have "\<dots> = crc8 (be16 h l XOR ucast b)"
    by (simp add: be16_xor crc8_xor ac_simps)
  finally show ?thesis by (simp add: crc_byte_def crc8_def)
qed

lemma crc_loop_correct:
  assumes "off + n \<le> length buf"
  shows "\<exists>hi lo. crc_loop buf off n h l = Inr (hi, lo) \<and>
           be16 hi lo = foldl crc_byte (be16 h l) (window off n buf)"
  using assms
proof (induction n arbitrary: off h l)
  case (Suc n)
  let ?i = "unat (l XOR buf ! off)"
  obtain hi lo where
    "crc_loop buf (Suc off) n (aucCRCLo ! ?i) (h XOR aucCRCHi ! ?i) = Inr (hi, lo)"
    "be16 hi lo = foldl crc_byte (be16 (aucCRCLo ! ?i) (h XOR aucCRCHi ! ?i)) (window (Suc off) n buf)"
    using Suc.IH [of "Suc off"] Suc.prems by fastforce
  with Suc.prems show ?case by (simp add: Let_def window_Suc crc_loop_step)
qed simp

lemma usMBCRC16_ok:
  "off + n \<le> length buf \<Longrightarrow> usMBCRC16 buf off n = Inr (crc16 (window off n buf))"
proof -
  assume "off + n \<le> length buf"
  from crc_loop_correct [OF this, of "0xFF" "0xFF"]
  show ?thesis by (auto simp: usMBCRC16_def crc16_def be16_def)
qed

subsection \<open>What the frame layers use of a checksum\<close>

text \<open>
  A checksum that consumes one byte at a time and loses nothing: neither two states nor two
  bytes collide in a step. Then a frame with one changed byte has another checksum.
\<close>

locale stream_checksum =
  fixes step :: "'s \<Rightarrow> 'b \<Rightarrow> 's"
  assumes step_state: "step s b = step s' b \<Longrightarrow> s = s'"
    and step_byte: "step s b = step s b' \<Longrightarrow> b = b'"
begin

lemma fold_state: "foldl step s bs = foldl step s' bs \<Longrightarrow> s = s'"
  by (induction bs arbitrary: s s') (auto dest: step_state)

lemma one_byte_changed:
  "b \<noteq> b' \<Longrightarrow> foldl step s (xs @ b # ys) \<noteq> foldl step s (xs @ b' # ys)"
  by (auto dest!: fold_state step_byte)

end

interpretation crc: stream_checksum crc_byte
proof unfold_locales
  fix s s' :: u16 and b b' :: u8
  show "s = s'" if "crc_byte s b = crc_byte s' b"
  proof -
    have "s XOR ucast b = s' XOR ucast b" using that by (simp add: crc_byte_def crc8_inj flip: crc8_def)
    then have "s XOR s' = ucast b XOR ucast b" by (rule word_xor_swap)
    then show ?thesis by (simp add: word_xor_eq_0)
  qed
  show "b = b'" if "crc_byte s b = crc_byte s b'"
  proof -
    have "s XOR ucast b = s XOR ucast b'" using that by (simp add: crc_byte_def crc8_inj flip: crc8_def)
    then have "s XOR s = ucast b XOR ucast b'" by (rule word_xor_swap)
    then have "be16 0 b = be16 0 b'" by (simp add: be16_xor word_xor_eq_0 eq_commute [of 0])
    then show ?thesis by (metis lo_byte_be16)
  qed
qed

lemma crc_byte_eq_0: "crc_byte c b = 0 \<longleftrightarrow> c = ucast b"
proof -
  have "crc_byte c b = 0 \<longleftrightarrow> crc8 (c XOR ucast b) = 0" by (simp add: crc_byte_def crc8_def)
  then show ?thesis by (simp add: word_xor_eq_0)
qed

lemma crc_byte_eq_ucast: "crc_byte c a = ucast b \<longleftrightarrow> c = be16 b a"
proof -
  have "crc_byte c a = ucast b \<longleftrightarrow> crc8 (c XOR ucast a) = crc8 (push_bit 8 (ucast b))"
    by (simp add: crc_byte_def crc8_def [symmetric])
  also have "\<dots> \<longleftrightarrow> (c XOR ucast a) XOR push_bit 8 (ucast b) = 0"
    by (simp only: crc8_inj word_xor_eq_0)
  also have "\<dots> \<longleftrightarrow> c XOR be16 b a = 0"
    by (simp add: be16_xor ac_simps)
  finally show ?thesis by (simp add: word_xor_eq_0)
qed

text \<open>The remainder of a frame is zero exactly when its last two bytes are its own checksum.\<close>

lemma crc16_residue: "crc16 (bs @ [a, b]) = 0 \<longleftrightarrow> crc16 bs = be16 b a"
  by (simp add: crc16_def crc_byte_eq_0 crc_byte_eq_ucast)

lemma crc16_appended: "crc16 (bs @ [lo_byte (crc16 bs), hi_byte (crc16 bs)]) = 0"
  by (simp add: crc16_residue)

lemma crc16_one_byte: "b \<noteq> b' \<Longrightarrow> crc16 (xs @ b # ys) \<noteq> crc16 (xs @ b' # ys)"
  unfolding crc16_def by (rule crc.one_byte_changed)

text \<open>Every error confined to two adjacent bytes changes the checksum.\<close>

lemma crc16_two_bytes:
  assumes "crc16 (xs @ [a, b] @ ys) = crc16 (xs @ [a', b'] @ ys)"
  shows "a = a' \<and> b = b'"
proof -
  let ?c = "foldl crc_byte 0xFFFF xs"
  have "crc_byte (crc_byte ?c a) b = crc_byte (crc_byte ?c a') b'"
    using assms by (auto simp: crc16_def dest: crc.fold_state)
  then have "crc8 (?c XOR ucast a) XOR ucast b = crc8 (?c XOR ucast a') XOR ucast b'"
    by (simp add: crc_byte_def crc8_inj flip: crc8_def)
  then have "crc8 (?c XOR ucast a) XOR crc8 (?c XOR ucast a') = ucast b XOR ucast b'"
    by (rule word_xor_swap)
  moreover have "(?c XOR ucast a) XOR (?c XOR ucast a') = ucast a XOR ucast a'"
    by (rule word_xor_cancel)
  ultimately have "crc8 (ucast a XOR ucast a') = ucast b XOR ucast b'"
    by (simp only: flip: crc8_xor)
  then have "crc8 (ucast (a XOR a')) = crc8 (push_bit 8 (ucast (b XOR b')))"
    by (simp only: crc8_push) (simp only: unsigned_xor_eq)
  then have "ucast (a XOR a') = (push_bit 8 (ucast (b XOR b')) :: u16)" by (simp only: crc8_inj)
  then have "be16 0 (a XOR a') = be16 (b XOR b') 0" by (simp add: be16_xor)
  then have "a XOR a' = 0" "b XOR b' = 0" by (metis lo_byte_be16, metis hi_byte_be16)
  then show ?thesis by (simp add: word_xor_eq_0)
qed

subsection \<open>Properties\<close>

text \<open>C1: The table-driven loop of \<open>usMBCRC16\<close> stays inside the buffer and its tables and returns
  exactly the bit-serial CRC-16 (polynomial 0xA001, initial value 0xFFFF) of the frame.\<close>

theorem usMBCRC16_equivalence: "usMBCRC16 frame 0 (length frame) = Inr (crc16 frame)"
  using usMBCRC16_ok [of 0 "length frame" frame] by (simp add: window_def)

text \<open>If the checksum of a frame is zero, as a receiver demands, then no frame that differs
  from it in two adjacent bytes (or in one of them) passes the same test.\<close>

lemma crc_detects_two_bytes:
  assumes "usMBCRC16 (xs @ [a, b] @ ys) 0 (length xs + 2 + length ys) = Inr 0"
    and "a \<noteq> a' \<or> b \<noteq> b'"
  shows "\<exists>r. usMBCRC16 (xs @ [a', b'] @ ys) 0 (length xs + 2 + length ys) = Inr r \<and> r \<noteq> 0"
proof -
  have e: "usMBCRC16 (xs @ [c, d] @ ys) 0 (length xs + 2 + length ys) = Inr (crc16 (xs @ [c, d] @ ys))"
    for c d using usMBCRC16_ok [of 0 _ "xs @ [c, d] @ ys"] by (simp add: window_def)
  from assms(1) have "crc16 (xs @ [a, b] @ ys) = 0" by (simp only: e sum.inject)
  then have "crc16 (xs @ [a', b'] @ ys) \<noteq> 0"
    using crc16_two_bytes [of xs a b ys a' b'] assms(2) by auto
  then show ?thesis by (simp only: e sum.inject) simp
qed

lemma crc_detects_two_bytes_example:
  "\<exists>r. usMBCRC16 ([0x01, 0x03, 0x00] @ [0x01, 0x00] @ [0x0A, 0xC5, 0xCD]) 0 (3 + 2 + 3) = Inr r \<and> r \<noteq> 0"
proof -
  have "usMBCRC16 ([0x01, 0x03, 0x00] @ [0x00, 0x00] @ [0x0A, 0xC5, 0xCD]) 0
      (length [0x01, 0x03, 0x00 :: u8] + 2 + length [0x0A, 0xC5, 0xCD :: u8]) = Inr 0"
    by code_simp
  from crc_detects_two_bytes [OF this, of 1 0] show ?thesis by (simp add: numeral_eq_Suc)
qed

end
