(* ===== verification/MB_RTU.thy ===== *)
theory MB_RTU
  imports MB_Port MB_CRC
begin

text \<open>
  The RTU frame layer (\<open>rtu/mbrtu.c\<close>): initialisation, start and stop, the receive and the
  transmit state machine, the frame timer, and the functions the stack calls to take a frame and
  to send one. The receive state machine takes the character the UART delivers.
\<close>

datatype eMBRcvState = STATE_RX_INIT | STATE_RX_IDLE | STATE_RX_RCV | STATE_RX_ERROR
datatype eMBSndState = STATE_TX_IDLE | STATE_TX_XMIT

type_synonym rtu = "(eMBRcvState, eMBSndState) eModbus"

definition MB_SER_PDU_SIZE_MIN :: u16 where "MB_SER_PDU_SIZE_MIN = 4"
definition MB_SER_PDU_SIZE_MAX :: u16 where "MB_SER_PDU_SIZE_MAX = 256"
definition MB_SER_PDU_SIZE_CRC :: u16 where "MB_SER_PDU_SIZE_CRC = 2"
definition MB_SER_PDU_ADDR_OFF :: nat where "MB_SER_PDU_ADDR_OFF = 0"
definition MB_SER_PDU_PDU_OFF :: nat where "MB_SER_PDU_PDU_OFF = 1"

lemmas rtu_consts = MB_SER_PDU_SIZE_MIN_def MB_SER_PDU_SIZE_MAX_def MB_SER_PDU_SIZE_CRC_def
  MB_SER_PDU_ADDR_OFF_def MB_SER_PDU_PDU_OFF_def

subsection \<open>Start and stop\<close>

definition rtu_t35_50us :: "u32 \<Rightarrow> u32" where
  "rtu_t35_50us ulBaudRate =
     (if ulBaudRate > 19200 then 35 else (7 * 220000) div (2 * ulBaudRate))"

text \<open>The two state variables are allocated without a look at the result; the allocations are taken to succeed.\<close>

definition eMBRTUInit :: "rtu \<Rightarrow> u8 \<Rightarrow> u8 \<Rightarrow> u32 \<Rightarrow> eMBParity \<Rightarrow> rtu \<times> eMBErrorCode" where
  "eMBRTUInit m ucSlaveAddress ucPort ulBaudRate eParity =
     (let (m1, ok1) = xMBPortSerialInit m ucPort ulBaudRate 8 eParity in
      if \<not> ok1 then (m1, MB_EPORTERR)
      else
        let (m2, ok2) = xMBPortTimersInit m1 (ucast (rtu_t35_50us ulBaudRate)) in
        if \<not> ok2 then (m2, MB_EPORTERR)
        else (m2\<lparr>RcvState := Some STATE_RX_INIT, SndState := Some STATE_TX_IDLE\<rparr>, MB_ENOERR))"

definition eMBRTUStart :: "rtu \<Rightarrow> rtu res" where
  "eMBRTUStart m =
     bindR (deref (RcvState m)) (\<lambda>_.
     bindR (vMBPortSerialEnable Inr (m\<lparr>RcvState := Some STATE_RX_INIT\<rparr>) True False) (\<lambda>m1.
     Inr (vMBPortTimersEnable m1)))"

definition eMBRTUStop :: "rtu \<Rightarrow> rtu res" where
  "eMBRTUStop m =
     bindR (vMBPortSerialEnable Inr m False False) (\<lambda>m1. Inr (vMBPortTimersDisable m1))"

subsection \<open>State machines\<close>

definition xMBRTUReceiveFSM :: "rtu \<Rightarrow> u8 \<Rightarrow> (rtu \<times> bool) res" where
  "xMBRTUReceiveFSM m ucByte =
     bindR (deref (SndState m)) (\<lambda>snd.
     bindR (assertR (snd = STATE_TX_IDLE)) (\<lambda>_.
     bindR (deref (RcvState m)) (\<lambda>rcv.
     case rcv of
       STATE_RX_INIT \<Rightarrow> Inr (vMBPortTimersEnable m, False)
     | STATE_RX_ERROR \<Rightarrow> Inr (vMBPortTimersEnable m, False)
     | STATE_RX_IDLE \<Rightarrow>
         bindR (wr (ucRTUBuf m) 0 ucByte) (\<lambda>buf.
         Inr (vMBPortTimersEnable
                (m\<lparr>ucRTUBuf := buf, usRcvBufferPos := 1, RcvState := Some STATE_RX_RCV\<rparr>), False))
     | STATE_RX_RCV \<Rightarrow>
         if usRcvBufferPos m < MB_SER_PDU_SIZE_MAX then
           bindR (wr (ucRTUBuf m) (unat (usRcvBufferPos m)) ucByte) (\<lambda>buf.
           Inr (vMBPortTimersEnable
                  (m\<lparr>ucRTUBuf := buf, usRcvBufferPos := usRcvBufferPos m + 1\<rparr>), False))
         else Inr (vMBPortTimersEnable (m\<lparr>RcvState := Some STATE_RX_ERROR\<rparr>), False))))"

definition xMBRTUTransmitFSM :: "rtu \<Rightarrow> (rtu \<times> bool) res" where
  "xMBRTUTransmitFSM m =
     bindR (deref (RcvState m)) (\<lambda>rcv.
     bindR (assertR (rcv = STATE_RX_IDLE)) (\<lambda>_.
     bindR (deref (SndState m)) (\<lambda>snd.
     case snd of
       STATE_TX_IDLE \<Rightarrow>
         bindR (vMBPortSerialEnable Inr m True False) (\<lambda>m1. Inr (m1, False))
     | STATE_TX_XMIT \<Rightarrow>
         if usSndBufferCount m \<noteq> 0 then
           Inr ((xMBPortSerialPutBytes m (pucSndBufferCur m) (usSndBufferCount m))
                  \<lparr>usSndBufferCount := 0\<rparr>, False)
         else
           (let (m1, xNeedPoll) = xMBPortEventPost m EV_FRAME_SENT in
            bindR (vMBPortSerialEnable Inr m1 True False) (\<lambda>m2.
            Inr (m2\<lparr>SndState := Some STATE_TX_IDLE\<rparr>, xNeedPoll))))))"

definition xMBRTUTimerT35Expired :: "rtu \<Rightarrow> (rtu \<times> bool) res" where
  "xMBRTUTimerT35Expired m =
     bindR (deref (RcvState m)) (\<lambda>rcv.
     bindR (case rcv of
              STATE_RX_INIT \<Rightarrow> Inr (xMBPortEventPost m EV_READY)
            | STATE_RX_RCV \<Rightarrow> Inr (xMBPortEventPost m EV_FRAME_RECEIVED)
            | STATE_RX_ERROR \<Rightarrow> Inr (m, False)
            | STATE_RX_IDLE \<Rightarrow> Inl Assert_Failed) (\<lambda>(m1, xNeedPoll).
     Inr ((vMBPortTimersDisable m1)\<lparr>RcvState := Some STATE_RX_IDLE\<rparr>, xNeedPoll)))"

subsection \<open>Taking and sending frames\<close>

text \<open>
  A frame that is accepted is its address, the position of its PDU in the buffer, and the length
  of the PDU.
\<close>

definition eMBRTUReceive :: "rtu \<Rightarrow> ((u8 \<times> nat \<times> u16) option \<times> eMBErrorCode) res" where
  "eMBRTUReceive m =
     bindR (assertR (usRcvBufferPos m < MB_SER_PDU_SIZE_MAX)) (\<lambda>_.
     if usRcvBufferPos m \<ge> MB_SER_PDU_SIZE_MIN then
       bindR (usMBCRC16 (ucRTUBuf m) 0 (unat (usRcvBufferPos m))) (\<lambda>crc.
       if crc = 0 then
         bindR (rd (ucRTUBuf m) MB_SER_PDU_ADDR_OFF) (\<lambda>addr.
         Inr (Some (addr, MB_SER_PDU_PDU_OFF,
                    usRcvBufferPos m - word_of_nat MB_SER_PDU_PDU_OFF - MB_SER_PDU_SIZE_CRC), MB_ENOERR))
       else Inr (None, MB_EIO))
     else Inr (None, MB_EIO))"

definition eMBRTUSend :: "rtu \<Rightarrow> u8 \<Rightarrow> nat \<Rightarrow> u16 \<Rightarrow> (rtu \<times> eMBErrorCode) res" where
  "eMBRTUSend m ucSlaveAddress pucFrame usLength =
     bindR (deref (RcvState m)) (\<lambda>rcv.
     if rcv = STATE_RX_IDLE then
       bindR (if pucFrame = 0 then Inl Out_Of_Bounds else Inr (pucFrame - 1)) (\<lambda>cur.
       bindR (wr (ucRTUBuf m) (cur + MB_SER_PDU_ADDR_OFF) ucSlaveAddress) (\<lambda>b1.
       let count = 1 + usLength in
       bindR (usMBCRC16 b1 cur (unat count)) (\<lambda>usCRC16.
       bindR (wr b1 (unat count) (ucast (usCRC16 AND 0xFF))) (\<lambda>b2.
       bindR (wr b2 (unat (count + 1)) (ucast (drop_bit 8 usCRC16))) (\<lambda>b3.
       bindR (deref (SndState m)) (\<lambda>_.
       bindR (vMBPortSerialEnable (\<lambda>m. bindR (xMBRTUTransmitFSM m) (\<lambda>(m', b). Inr m'))
                (m\<lparr>pucSndBufferCur := cur, usSndBufferCount := count + 2, ucRTUBuf := b3,
                   SndState := Some STATE_TX_XMIT\<rparr>) False True) (\<lambda>m'.
       Inr (m', MB_ENOERR))))))))
     else Inr (m, MB_EIO))"

subsection \<open>Invariant\<close>

definition rtu_buf_ok :: "rtu \<Rightarrow> bool" where
  "rtu_buf_ok m \<longleftrightarrow> length (ucRTUBuf m) = 256 \<and> unat (usRcvBufferPos m) \<le> 256 \<and>
     RcvState m \<noteq> None \<and> SndState m \<noteq> None"

text \<open>
  The bytes of the frame under reception, as long as the receiver is taking it in.
\<close>

definition rtu_frame :: "rtu \<Rightarrow> u8 list" where
  "rtu_frame m = take (unat (usRcvBufferPos m)) (ucRTUBuf m)"

subsection \<open>Reception\<close>

lemma u16_inc: "unat (p :: u16) < 256 \<Longrightarrow> unat (p + 1) = unat p + 1"
  by (simp add: unat_plus_if')

lemma lt_256: "p < (256 :: u16) \<longleftrightarrow> unat p < 256"
  by (simp add: word_less_nat_alt)

lemma timers_frame [frame_simps]:
  "ucRTUBuf (vMBPortTimersEnable m) = ucRTUBuf m" "usRcvBufferPos (vMBPortTimersEnable m) = usRcvBufferPos m"
  "RcvState (vMBPortTimersEnable m) = RcvState m" "SndState (vMBPortTimersEnable m) = SndState m"
  "xEventInQueue (vMBPortTimersEnable m) = xEventInQueue m" "eQueuedEvent (vMBPortTimersEnable m) = eQueuedEvent m"
  "de_line (vMBPortTimersEnable m) = de_line m" "wire (vMBPortTimersEnable m) = wire m"
  "config (vMBPortTimersEnable m) = config m" "usSndBufferCount (vMBPortTimersEnable m) = usSndBufferCount m"
  "ucRTUBuf (vMBPortTimersDisable m) = ucRTUBuf m" "usRcvBufferPos (vMBPortTimersDisable m) = usRcvBufferPos m"
  "RcvState (vMBPortTimersDisable m) = RcvState m" "SndState (vMBPortTimersDisable m) = SndState m"
  "xEventInQueue (vMBPortTimersDisable m) = xEventInQueue m" "eQueuedEvent (vMBPortTimersDisable m) = eQueuedEvent m"
  "de_line (vMBPortTimersDisable m) = de_line m" "wire (vMBPortTimersDisable m) = wire m"
  "config (vMBPortTimersDisable m) = config m" "usSndBufferCount (vMBPortTimersDisable m) = usSndBufferCount m"
  by (simp_all add: vMBPortTimersEnable_def vMBPortTimersDisable_def)

text \<open>What reception leaves alone.\<close>

definition rx_same :: "rtu \<Rightarrow> rtu \<Rightarrow> bool" where
  "rx_same m m' \<longleftrightarrow> config m' = config m \<and> SndState m' = SndState m \<and> xEventInQueue m' = xEventInQueue m \<and>
     eQueuedEvent m' = eQueuedEvent m \<and> de_line m' = de_line m \<and> wire m' = wire m"

lemma rx_same_trans: "rx_same a b \<Longrightarrow> rx_same b c \<Longrightarrow> rx_same a c"
  by (simp add: rx_same_def)

lemma receive_byte_room:
  assumes "rtu_buf_ok m" and "SndState m = Some STATE_TX_IDLE" and "RcvState m = Some STATE_RX_RCV"
    and "unat (usRcvBufferPos m) < 256"
  shows "\<exists>m'. xMBRTUReceiveFSM m b = Inr (m', False) \<and> rtu_buf_ok m' \<and> rx_same m m' \<and>
    RcvState m' = Some STATE_RX_RCV \<and> unat (usRcvBufferPos m') = unat (usRcvBufferPos m) + 1 \<and>
    rtu_frame m' = rtu_frame m @ [b]"
  using assms
  by (simp add: xMBRTUReceiveFSM_def rtu_buf_ok_def rtu_consts lt_256 frame_simps u16_inc rx_same_def
      rtu_frame_def take_Suc_conv_app_nth)

lemma receive_byte_full:
  assumes "rtu_buf_ok m" and "SndState m = Some STATE_TX_IDLE" and "RcvState m = Some STATE_RX_RCV"
    and "unat (usRcvBufferPos m) = 256"
  shows "\<exists>m'. xMBRTUReceiveFSM m b = Inr (m', False) \<and> rtu_buf_ok m' \<and> rx_same m m' \<and>
    RcvState m' = Some STATE_RX_ERROR"
  using assms
  by (simp add: xMBRTUReceiveFSM_def rtu_buf_ok_def rtu_consts lt_256 frame_simps rx_same_def)

lemma receive_byte_idle:
  assumes "rtu_buf_ok m" and "SndState m = Some STATE_TX_IDLE" and "RcvState m = Some STATE_RX_IDLE"
  shows "\<exists>m'. xMBRTUReceiveFSM m b = Inr (m', False) \<and> rtu_buf_ok m' \<and> rx_same m m' \<and>
    RcvState m' = Some STATE_RX_RCV \<and> unat (usRcvBufferPos m') = 1 \<and> rtu_frame m' = [b]"
  using assms
  by (cases "ucRTUBuf m")
     (simp_all add: xMBRTUReceiveFSM_def rtu_buf_ok_def rtu_consts frame_simps rx_same_def rtu_frame_def)

lemma receive_byte_waiting:
  assumes "SndState m = Some STATE_TX_IDLE" and "RcvState m = Some r"
    and "r = STATE_RX_INIT \<or> r = STATE_RX_ERROR"
  shows "xMBRTUReceiveFSM m b = Inr (vMBPortTimersEnable m, False)"
  using assms by (auto simp: xMBRTUReceiveFSM_def)

lemma feed_error:
  assumes "rtu_buf_ok m" and "SndState m = Some STATE_TX_IDLE" and "RcvState m = Some STATE_RX_ERROR"
  shows "\<exists>m'. feed xMBRTUReceiveFSM m bs = Inr m' \<and> rtu_buf_ok m' \<and> rx_same m m' \<and>
    RcvState m' = Some STATE_RX_ERROR"
  using assms
proof (induction bs arbitrary: m)
  case Nil
  then show ?case by (simp add: rx_same_def)
next
  case (Cons b bs)
  let ?m = "vMBPortTimersEnable m"
  have "xMBRTUReceiveFSM m b = Inr (?m, False)" using Cons.prems by (simp add: receive_byte_waiting)
  moreover have "rtu_buf_ok ?m" "SndState ?m = Some STATE_TX_IDLE" "RcvState ?m = Some STATE_RX_ERROR"
    "rx_same m ?m"
    using Cons.prems by (simp_all add: rtu_buf_ok_def frame_simps rx_same_def)
  ultimately show ?case using Cons.IH [of ?m] rx_same_trans by fastforce
qed

lemma feed_rcv:
  assumes "rtu_buf_ok m" and "SndState m = Some STATE_TX_IDLE" and "RcvState m = Some STATE_RX_RCV"
  shows "\<exists>m'. feed xMBRTUReceiveFSM m bs = Inr m' \<and> rtu_buf_ok m' \<and> rx_same m m' \<and>
    (if unat (usRcvBufferPos m) + length bs \<le> 256
     then RcvState m' = Some STATE_RX_RCV \<and> rtu_frame m' = rtu_frame m @ bs \<and>
       unat (usRcvBufferPos m') = unat (usRcvBufferPos m) + length bs
     else RcvState m' = Some STATE_RX_ERROR)"
  using assms
proof (induction bs arbitrary: m)
  case Nil
  then show ?case by (simp add: rx_same_def rtu_buf_ok_def)
next
  case (Cons b bs)
  show ?case
  proof (cases "unat (usRcvBufferPos m) < 256")
    case True
    obtain m1 where m1: "xMBRTUReceiveFSM m b = Inr (m1, False)" "rtu_buf_ok m1" "rx_same m m1"
        "RcvState m1 = Some STATE_RX_RCV" "unat (usRcvBufferPos m1) = unat (usRcvBufferPos m) + 1"
        "rtu_frame m1 = rtu_frame m @ [b]"
      using receive_byte_room [OF Cons.prems True] by blast
    have "SndState m1 = Some STATE_TX_IDLE" using m1(3) Cons.prems(2) by (simp add: rx_same_def)
    from Cons.IH [OF m1(2) this m1(4)] m1 show ?thesis
      using rx_same_trans [of m m1] by (auto split: if_splits)
  next
    case False
    with Cons.prems(1) have "unat (usRcvBufferPos m) = 256" by (simp add: rtu_buf_ok_def)
    from receive_byte_full [OF Cons.prems this] obtain m1 where m1:
        "xMBRTUReceiveFSM m b = Inr (m1, False)" "rtu_buf_ok m1" "rx_same m m1"
        "RcvState m1 = Some STATE_RX_ERROR" by blast
    have "SndState m1 = Some STATE_TX_IDLE" using m1(3) Cons.prems(2) by (simp add: rx_same_def)
    from feed_error [OF m1(2) this m1(4)] m1 False show ?thesis
      using rx_same_trans [of m m1] by (auto split: if_splits)
  qed
qed

lemma feed_idle:
  assumes "rtu_buf_ok m" and "SndState m = Some STATE_TX_IDLE" and "RcvState m = Some STATE_RX_IDLE"
    and "bs \<noteq> []"
  shows "\<exists>m'. feed xMBRTUReceiveFSM m bs = Inr m' \<and> rtu_buf_ok m' \<and> rx_same m m' \<and>
    (if length bs \<le> 256 then RcvState m' = Some STATE_RX_RCV \<and> rtu_frame m' = bs \<and>
       unat (usRcvBufferPos m') = length bs
     else RcvState m' = Some STATE_RX_ERROR)"
proof -
  obtain b cs where bs: "bs = b # cs" using assms(4) by (cases bs) auto
  obtain m1 where m1: "xMBRTUReceiveFSM m b = Inr (m1, False)" "rtu_buf_ok m1" "rx_same m m1"
      "RcvState m1 = Some STATE_RX_RCV" "unat (usRcvBufferPos m1) = 1" "rtu_frame m1 = [b]"
    using receive_byte_idle [OF assms(1-3)] by blast
  have "SndState m1 = Some STATE_TX_IDLE" using m1(3) assms(2) by (simp add: rx_same_def)
  from feed_rcv [OF m1(2) this m1(4), of cs] m1 show ?thesis
    using rx_same_trans [of m m1] by (auto simp: bs split: if_splits)
qed

subsection \<open>The frame timer and the verdict on a frame\<close>

lemma t35_rcv:
  assumes "rtu_buf_ok m" and "RcvState m = Some STATE_RX_RCV"
  shows "\<exists>m'. xMBRTUTimerT35Expired m = Inr (m', True) \<and> rtu_buf_ok m' \<and>
    RcvState m' = Some STATE_RX_IDLE \<and> SndState m' = SndState m \<and> xEventInQueue m' \<and>
    eQueuedEvent m' = EV_FRAME_RECEIVED \<and> rtu_frame m' = rtu_frame m \<and>
    usRcvBufferPos m' = usRcvBufferPos m"
  using assms
  by (simp add: xMBRTUTimerT35Expired_def xMBPortEventPost_def rtu_buf_ok_def rtu_frame_def frame_simps)

lemma t35_error:
  assumes "rtu_buf_ok m" and "RcvState m = Some STATE_RX_ERROR"
  shows "\<exists>m'. xMBRTUTimerT35Expired m = Inr (m', False) \<and> rtu_buf_ok m' \<and>
    RcvState m' = Some STATE_RX_IDLE \<and> SndState m' = SndState m \<and>
    xEventInQueue m' = xEventInQueue m \<and> eQueuedEvent m' = eQueuedEvent m"
  using assms
  by (simp add: xMBRTUTimerT35Expired_def rtu_buf_ok_def frame_simps)

definition rtu_verdict :: "u8 list \<Rightarrow> ((u8 \<times> nat \<times> u16) option \<times> eMBErrorCode) res" where
  "rtu_verdict bs =
     (if 256 \<le> length bs then Inl Assert_Failed
      else if length bs < 4 \<or> crc16 bs \<noteq> 0 then Inr (None, MB_EIO)
      else Inr (Some (hd bs, 1, word_of_nat (length bs - 3)), MB_ENOERR))"

lemma receive_verdict:
  assumes "rtu_buf_ok m"
  shows "eMBRTUReceive m = rtu_verdict (rtu_frame m)"
proof -
  let ?p = "usRcvBufferPos m"
  have l: "length (ucRTUBuf m) = 256" "unat ?p \<le> 256" using assms by (auto simp: rtu_buf_ok_def)
  then have f: "length (rtu_frame m) = unat ?p" by (simp add: rtu_frame_def)
  have crc: "usMBCRC16 (ucRTUBuf m) 0 (unat ?p) = Inr (crc16 (rtu_frame m))"
    using usMBCRC16_ok [of 0 "unat ?p" "ucRTUBuf m"] l by (simp add: window_def rtu_frame_def)
  have ge: "4 \<le> ?p \<longleftrightarrow> 4 \<le> unat ?p" by (simp add: word_le_nat_alt)
  have hd: "ucRTUBuf m ! 0 = hd (rtu_frame m)" if "4 \<le> unat ?p"
    using that l by (cases "ucRTUBuf m"; cases "unat ?p") (simp_all add: rtu_frame_def)
  have len: "?p - 1 - 2 = word_of_nat (unat ?p - 3)" if "4 \<le> unat ?p"
  proof -
    have "word_of_nat (unat ?p - 3) = (word_of_nat (unat ?p) - word_of_nat 3 :: u16)"
      using that by (intro of_nat_diff) simp
    then show ?thesis by simp
  qed
  have ne: "ucRTUBuf m \<noteq> []" using l by auto
  show ?thesis
    using l hd len ne
    by (simp add: eMBRTUReceive_def rtu_verdict_def f crc rtu_consts lt_256 ge not_le not_less)
qed

subsection \<open>Sending\<close>

text \<open>A serial line ADU: address, PDU, and the checksum, low byte first.\<close>

definition rtu_adu :: "u8 \<Rightarrow> u8 list \<Rightarrow> u8 list" where
  "rtu_adu addr pdu =
     (addr # pdu) @ [lo_byte (crc16 (addr # pdu)), hi_byte (crc16 (addr # pdu))]"

lemma length_rtu_adu [simp]: "length (rtu_adu addr pdu) = length pdu + 3"
  by (simp add: rtu_adu_def)

lemma rtu_adu_verdict:
  assumes "1 \<le> length pdu" and "length pdu \<le> 252"
  shows "rtu_verdict (rtu_adu addr pdu) = Inr (Some (addr, 1, word_of_nat (length pdu)), MB_ENOERR)"
proof -
  have "crc16 (rtu_adu addr pdu) = 0" unfolding rtu_adu_def by (rule crc16_appended)
  moreover have "hd (rtu_adu addr pdu) = addr" by (simp add: rtu_adu_def)
  moreover have "pdu \<noteq> []" using assms(1) by (cases pdu) simp_all
  ultimately show ?thesis using assms(2) by (auto simp: rtu_verdict_def)
qed

lemma send_frame:
  assumes ok: "rtu_buf_ok m" and idle: "RcvState m = Some STATE_RX_IDLE" and n: "unat n \<le> 253"
  shows "\<exists>m'. eMBRTUSend m addr 1 n = Inr (m', MB_ENOERR) \<and> rtu_buf_ok m' \<and>
    RcvState m' = Some STATE_RX_IDLE \<and> SndState m' = Some STATE_TX_XMIT \<and> usSndBufferCount m' = 0 \<and>
    de_line m' \<and> wire m' = wire m @ [ucast (buf_addr m)] \<and> timer_on m' = timer_on m \<and>
    config m' = config m \<and> usRcvBufferPos m' = usRcvBufferPos m \<and> xEventInQueue m' = xEventInQueue m \<and>
    take (unat n + 3) (ucRTUBuf m') = rtu_adu addr (window 1 (unat n) (ucRTUBuf m))"
proof -
  define adu where "adu = addr # window 1 (unat n) (ucRTUBuf m)"
  let ?b1 = "(ucRTUBuf m)[0 := addr]" and ?c = "1 + n"
  have l: "length (ucRTUBuf m) = 256" using ok by (simp add: rtu_buf_ok_def)
  have c: "unat ?c = Suc (unat n)" "unat (?c + 1) = Suc (Suc (unat n))" "unat (?c + 2) = 3 + unat n"
    "unat (2 + n) = Suc (Suc (unat n))"
    using n by (simp_all add: unat_plus_if')
  have c2: "?c + 2 \<noteq> 0" using c(3) by (metis add_is_0 unat_0 zero_neq_numeral)
  have adu: "window 0 (Suc (unat n)) ?b1 = adu"
    using l by (cases "ucRTUBuf m") (simp_all add: adu_def window_def)
  have crc: "usMBCRC16 ?b1 0 (Suc (unat n)) = Inr (crc16 adu)"
    using usMBCRC16_ok [of 0 "Suc (unat n)" ?b1] l n adu by simp
  let ?b3 = "?b1[Suc (unat n) := lo_byte (crc16 adu), Suc (Suc (unat n)) := hi_byte (crc16 adu)]"
  have "length adu = Suc (unat n)" using l n by (simp add: adu_def)
  moreover have "take (Suc (unat n)) ?b1 = adu" using adu by (simp add: window_def)
  ultimately have t: "take (unat n + 3) ?b3 = adu @ [lo_byte (crc16 adu), hi_byte (crc16 adu)]"
    using l n
    by (simp add: numeral_eq_Suc take_Suc_conv_app_nth nth_list_update)
  then have "take (unat n + 3) ?b3 = rtu_adu addr (window 1 (unat n) (ucRTUBuf m))"
    by (simp add: rtu_adu_def adu_def)
  then show ?thesis
    using l n ok idle crc c2
    by (auto simp: eMBRTUSend_def rtu_consts c vMBPortSerialEnable_def xMBRTUTransmitFSM_def Let_def
        xMBPortSerialPutBytes_def rtu_buf_ok_def lo_byte_def [symmetric] hi_byte_def [symmetric])
qed

subsection \<open>The layer as a step relation\<close>

text \<open>
  What can happen to a running receiver: a character arrives, the frame timer runs out (only
  while it runs), the UART reports that it is empty, the stack sends a frame, takes an event, or
  lets a handler work on the buffer.
\<close>

datatype rtu_event = Ev_Byte u8 | Ev_T35 | Ev_TxEmpty | Ev_Send u8 u16 | Ev_Get | Ev_Work "u8 list"

inductive rtu_step :: "rtu \<Rightarrow> rtu_event \<Rightarrow> rtu \<Rightarrow> bool" where
  byte: "xMBRTUReceiveFSM m b = Inr (m', need) \<Longrightarrow> rtu_step m (Ev_Byte b) m'"
| t35: "timer_on m \<Longrightarrow> xMBRTUTimerT35Expired m = Inr (m', need) \<Longrightarrow> rtu_step m Ev_T35 m'"
| tx_empty: "xMBRTUTransmitFSM m = Inr (m', need) \<Longrightarrow> rtu_step m Ev_TxEmpty m'"
| send: "unat n \<le> 253 \<Longrightarrow> eMBRTUSend m addr 1 n = Inr (m', st) \<Longrightarrow> rtu_step m (Ev_Send addr n) m'"
| get: "xMBPortEventGet m = (m', ev) \<Longrightarrow> rtu_step m Ev_Get m'"
| work: "length buf = 256 \<Longrightarrow> rtu_step m (Ev_Work buf) (m\<lparr>ucRTUBuf := buf\<rparr>)"

inductive rtu_run :: "rtu \<Rightarrow> rtu_event list \<Rightarrow> rtu \<Rightarrow> bool" where
  start: "rtu_run m [] m"
| step: "rtu_run m es m1 \<Longrightarrow> rtu_step m1 e m2 \<Longrightarrow> rtu_run m (es @ [e]) m2"

inductive_cases rtu_stepE: "rtu_step m e m'"

definition rtu_safe :: "rtu \<Rightarrow> bool" where
  "rtu_safe m \<longleftrightarrow> rtu_buf_ok m \<and> cfg_ucPort (config m) = BSP_RS485 \<and>
     (timer_on m \<longleftrightarrow> RcvState m \<noteq> Some STATE_RX_IDLE) \<and>
     (SndState m = Some STATE_TX_XMIT \<longrightarrow> RcvState m = Some STATE_RX_IDLE) \<and>
     (de_line m \<longrightarrow> SndState m = Some STATE_TX_XMIT) \<and>
     (RcvState m = Some STATE_RX_RCV \<longrightarrow> 1 \<le> unat (usRcvBufferPos m))"

lemma safe_byte:
  assumes "rtu_safe m" and "xMBRTUReceiveFSM m b = Inr (m', need)"
  shows "rtu_safe m'"
proof -
  have s: "SndState m = Some STATE_TX_IDLE"
    using assms(2) by (cases "SndState m") (auto simp: xMBRTUReceiveFSM_def res_simps)
  obtain r where r: "RcvState m = Some r" using assms(1) by (auto simp: rtu_safe_def rtu_buf_ok_def)
  show ?thesis
    using assms s
    by (cases r) (auto simp: xMBRTUReceiveFSM_def r rtu_safe_def rtu_buf_ok_def rtu_consts lt_256
        res_simps vMBPortTimersEnable_def u16_inc split: if_splits)
qed

lemma safe_t35:
  assumes "rtu_safe m" and "xMBRTUTimerT35Expired m = Inr (m', need)"
  shows "rtu_safe m'"
proof -
  obtain r where r: "RcvState m = Some r" using assms(1) by (auto simp: rtu_safe_def rtu_buf_ok_def)
  show ?thesis
    using assms
    by (cases r) (auto simp: xMBRTUTimerT35Expired_def r rtu_safe_def rtu_buf_ok_def res_simps
        vMBPortTimersDisable_def xMBPortEventPost_def)
qed

lemma safe_tx_empty:
  assumes "rtu_safe m" and "xMBRTUTransmitFSM m = Inr (m', need)"
  shows "rtu_safe m'"
proof -
  obtain t where t: "SndState m = Some t" using assms(1) by (auto simp: rtu_safe_def rtu_buf_ok_def)
  show ?thesis
    using assms
    by (cases t) (auto simp: xMBRTUTransmitFSM_def t rtu_safe_def rtu_buf_ok_def res_simps
        vMBPortSerialEnable_def xMBPortEventPost_def xMBPortSerialPutBytes_def split: if_splits)
qed

lemma safe_send:
  assumes "rtu_safe m" and "unat n \<le> 253" and "eMBRTUSend m addr 1 n = Inr (m', st)"
  shows "rtu_safe m'"
proof (cases "RcvState m = Some STATE_RX_IDLE")
  case True
  have "rtu_buf_ok m" using assms(1) by (simp add: rtu_safe_def)
  from send_frame [OF this True assms(2), of addr] assms(1,3) True show ?thesis
    by (auto simp: rtu_safe_def)
next
  case False
  moreover obtain r where "RcvState m = Some r" using assms(1) by (auto simp: rtu_safe_def rtu_buf_ok_def)
  ultimately show ?thesis using assms by (auto simp: eMBRTUSend_def)
qed

lemma safe_step: "rtu_step m e m' \<Longrightarrow> rtu_safe m \<Longrightarrow> rtu_safe m'"
proof (induction rule: rtu_step.induct)
  case (get m m' ev)
  then show ?case by (auto simp: xMBPortEventGet_def rtu_safe_def rtu_buf_ok_def split: if_splits)
next
  case (work buf m)
  then show ?case by (simp add: rtu_safe_def rtu_buf_ok_def)
qed (auto intro: safe_byte safe_t35 safe_tx_empty safe_send)

lemma safe_run: "rtu_run m es m' \<Longrightarrow> rtu_safe m \<Longrightarrow> rtu_safe m'"
  by (induction rule: rtu_run.induct) (auto intro: safe_step)

text \<open>After initialisation on the RS485 port and start the layer is in a safe state.\<close>

lemma safe_started:
  assumes "eMBRTUInit m a BSP_RS485 baud par = (m1, MB_ENOERR)" and "eMBRTUStart m1 = Inr m2"
    and "length (ucRTUBuf m) = 256" and "unat (usRcvBufferPos m) \<le> 256"
  shows "rtu_safe m2"
  using assms
  by (auto simp: eMBRTUInit_def eMBRTUStart_def xMBPortSerialInit_def xMBPortTimersInit_def
      vMBPortSerialEnable_def vMBPortTimersEnable_def rtu_safe_def rtu_buf_ok_def Let_def)

subsection \<open>The instance of the firmware\<close>

text \<open>The statically allocated instance, and the layer as the service brings it up.\<close>

definition rtu_reset :: "u32 \<Rightarrow> rtu" where
  "rtu_reset a =
     \<lparr>config = \<lparr>cfg_ucMBAddress = 0, cfg_ucSlaveAddress = 0, cfg_ucPort = 0, cfg_ulBaudRate = 0,
               cfg_eParity = MB_PAR_NONE\<rparr>,
      RcvState = None, SndState = None, ucRTUBuf = replicate 256 0, buf_addr = a, ucASCIIBuf = None,
      pucSndBufferCur = 0, usSndBufferCount = 0, usRcvBufferPos = 0, eBytePos = BYTE_HIGH_NIBBLE,
      ucMBLFCharacter = 0, eQueuedEvent = EV_READY, xEventInQueue = False, tx_done = False,
      tx_cb_set = False, timer_cb_set = False, de_line = False, timer_on = False, wire = []\<rparr>"

definition rtu_boot :: "u32 \<Rightarrow> rtu res" where
  "rtu_boot a = eMBRTUStart (fst (eMBRTUInit (rtu_reset a) 1 BSP_RS485 115200 MB_PAR_NONE))"

lemma rtu_reset_simps [simp]:
  "length (ucRTUBuf (rtu_reset a)) = 256" "usRcvBufferPos (rtu_reset a) = 0"
  "wire (rtu_reset a) = []" "buf_addr (rtu_reset a) = a" "de_line (rtu_reset a) = False"
  by (simp_all add: rtu_reset_def)

lemma safe_boot: "rtu_boot a = Inr m \<Longrightarrow> rtu_safe m"
  unfolding rtu_boot_def
  by (rule safe_started [of "rtu_reset a" 1 115200 MB_PAR_NONE])
     (simp_all add: eMBRTUInit_def xMBPortSerialInit_def xMBPortTimersInit_def)

lemma safe_progress:
  assumes "rtu_safe m"
  shows "timer_on m \<Longrightarrow> okR (xMBRTUTimerT35Expired m)"
    and "SndState m = Some STATE_TX_IDLE \<Longrightarrow> okR (xMBRTUReceiveFSM m b)"
proof -
  obtain r where r: "RcvState m = Some r" using assms by (auto simp: rtu_safe_def rtu_buf_ok_def)
  show "okR (xMBRTUTimerT35Expired m)" if "timer_on m"
    using that assms r by (cases r) (auto simp: rtu_safe_def xMBRTUTimerT35Expired_def okR_iff res_simps
      xMBPortEventPost_def)
  show "okR (xMBRTUReceiveFSM m b)" if "SndState m = Some STATE_TX_IDLE"
    using that assms r
    by (cases r) (auto simp: rtu_safe_def rtu_buf_ok_def xMBRTUReceiveFSM_def rtu_consts lt_256 okR_iff)
qed

subsection \<open>Properties\<close>

text \<open>C14: Reception of a frame. A quiet receiver that is handed any non-empty run of characters and
  then the end-of-frame timeout is idle again; if there were at most 256 characters it reports a
  frame and holds exactly these, and \<open>eMBRTUReceive\<close> accepts it iff it has at least 4 bytes and
  a correct checksum, giving the address and the PDU length; a frame of exactly 256 bytes, which
  the state machine takes, stops \<open>eMBRTUReceive\<close> in its assertion. A longer run is dropped
  without an event.\<close>

theorem rtu_reception:
  assumes "rtu_buf_ok m" and "SndState m = Some STATE_TX_IDLE" and "RcvState m = Some STATE_RX_IDLE"
    and "bs \<noteq> []"
  shows "\<exists>m1 m2. feed xMBRTUReceiveFSM m bs = Inr m1 \<and>
    xMBRTUTimerT35Expired m1 = Inr (m2, length bs \<le> 256) \<and> RcvState m2 = Some STATE_RX_IDLE \<and>
    (if length bs \<le> 256
     then xEventInQueue m2 \<and> eQueuedEvent m2 = EV_FRAME_RECEIVED \<and> rtu_frame m2 = bs \<and>
       eMBRTUReceive m2 =
         (if length bs = 256 then Inl Assert_Failed
          else if length bs < 4 \<or> crc16 bs \<noteq> 0 then Inr (None, MB_EIO)
          else Inr (Some (hd bs, 1, word_of_nat (length bs - 3)), MB_ENOERR))
     else xEventInQueue m2 = xEventInQueue m)"
proof -
  from feed_idle [OF assms] obtain m1 where m1: "feed xMBRTUReceiveFSM m bs = Inr m1" "rtu_buf_ok m1"
    "rx_same m m1"
    "if length bs \<le> 256 then RcvState m1 = Some STATE_RX_RCV \<and> rtu_frame m1 = bs \<and>
       unat (usRcvBufferPos m1) = length bs else RcvState m1 = Some STATE_RX_ERROR"
    by blast
  show ?thesis
  proof (cases "length bs \<le> 256")
    case True
    with m1(4) t35_rcv [OF m1(2)] obtain m2 where m2: "xMBRTUTimerT35Expired m1 = Inr (m2, True)"
      "rtu_buf_ok m2" "RcvState m2 = Some STATE_RX_IDLE" "xEventInQueue m2"
      "eQueuedEvent m2 = EV_FRAME_RECEIVED" "rtu_frame m2 = bs"
      by auto
    from receive_verdict [OF m2(2)] True m1(1) m2 show ?thesis
      by (auto simp: rtu_verdict_def)
  next
    case False
    with m1(4) t35_error [OF m1(2)] m1(1,3) show ?thesis by (auto simp: rx_same_def)
  qed
qed

theorem rtu_reception_witness:
  "\<exists>m1 m2. feed xMBRTUReceiveFSM ((rtu_reset 0)\<lparr>RcvState := Some STATE_RX_IDLE, SndState := Some STATE_TX_IDLE\<rparr>)
      [0x01, 0x03, 0x00, 0x00, 0x00, 0x0A, 0xC5, 0xCD] = Inr m1 \<and>
    xMBRTUTimerT35Expired m1 = Inr (m2, True) \<and> eMBRTUReceive m2 = Inr (Some (1, 1, 5), MB_ENOERR)"
proof -
  let ?m = "(rtu_reset 0)\<lparr>RcvState := Some STATE_RX_IDLE, SndState := Some STATE_TX_IDLE\<rparr>"
  have c: "crc16 [0x01, 0x03, 0x00, 0x00, 0x00, 0x0A, 0xC5, 0xCD] = 0"
    by (simp add: crc16_def crc_byte_def crc8_num crc_bit_num flip: crc8_def)
  have m: "rtu_buf_ok ?m" "SndState ?m = Some STATE_TX_IDLE" "RcvState ?m = Some STATE_RX_IDLE"
    by (simp_all add: rtu_buf_ok_def)
  from rtu_reception [OF m, of "[0x01, 0x03, 0x00, 0x00, 0x00, 0x0A, 0xC5, 0xCD]"] obtain m1 m2 where
    "feed xMBRTUReceiveFSM ?m [0x01, 0x03, 0x00, 0x00, 0x00, 0x0A, 0xC5, 0xCD] = Inr m1"
    "xMBRTUTimerT35Expired m1 = Inr (m2, True)" "eMBRTUReceive m2 = Inr (Some (1, 1, 5), MB_ENOERR)"
    by (simp add: c del: feed.simps) blast
  then show ?thesis by blast
qed

text \<open>C15: Round trip between two instances. The ADU that \<open>eMBRTUSend\<close> leaves in the buffer for a PDU
  of up to 252 bytes, sent over a faithful line to a quiet receiver, arrives as a frame that is
  accepted with the sender's address and the same PDU.\<close>

theorem rtu_send_receive:
  assumes "rtu_buf_ok s" and "RcvState s = Some STATE_RX_IDLE" and "1 \<le> unat n" and "unat n \<le> 252"
    and "rtu_buf_ok r" and "SndState r = Some STATE_TX_IDLE" and "RcvState r = Some STATE_RX_IDLE"
  shows "\<exists>s' r1 r2. eMBRTUSend s addr 1 n = Inr (s', MB_ENOERR) \<and>
    feed xMBRTUReceiveFSM r (take (unat n + 3) (ucRTUBuf s')) = Inr r1 \<and>
    xMBRTUTimerT35Expired r1 = Inr (r2, True) \<and>
    eMBRTUReceive r2 = Inr (Some (addr, 1, n), MB_ENOERR) \<and>
    window 1 (unat n) (ucRTUBuf r2) = window 1 (unat n) (ucRTUBuf s)"
proof -
  let ?pdu = "window 1 (unat n) (ucRTUBuf s)"
  have lp: "length ?pdu = unat n" using assms(1,4) by (simp add: rtu_buf_ok_def)
  obtain s' where s': "eMBRTUSend s addr 1 n = Inr (s', MB_ENOERR)"
    "take (unat n + 3) (ucRTUBuf s') = rtu_adu addr ?pdu"
    using send_frame [OF assms(1,2), of n addr] assms(4) by auto
  have ne: "rtu_adu addr ?pdu \<noteq> []" by (simp add: rtu_adu_def)
  from feed_idle [OF assms(5-7) ne] obtain r1 where r1: "feed xMBRTUReceiveFSM r (rtu_adu addr ?pdu) = Inr r1"
    "rtu_buf_ok r1" "RcvState r1 = Some STATE_RX_RCV" "rtu_frame r1 = rtu_adu addr ?pdu"
    using assms(4) lp by auto
  from t35_rcv [OF r1(2,3)] obtain r2 where r2: "xMBRTUTimerT35Expired r1 = Inr (r2, True)"
    "rtu_buf_ok r2" "rtu_frame r2 = rtu_adu addr ?pdu" using r1(4) by auto
  have "eMBRTUReceive r2 = Inr (Some (addr, 1, n), MB_ENOERR)"
    using receive_verdict [OF r2(2)] rtu_adu_verdict [of ?pdu addr] assms(3,4) lp r2(3) by simp
  moreover have "window 1 (unat n) (ucRTUBuf r2) = ?pdu"
  proof -
    have "length (rtu_frame r2) = unat n + 3" using r2(3) lp by simp
    then have le: "unat n + 3 \<le> unat (usRcvBufferPos r2)" by (simp add: rtu_frame_def)
    then have "take (unat n) (drop 1 (rtu_frame r2)) = window 1 (unat n) (ucRTUBuf r2)"
      by (simp add: rtu_frame_def window_def drop_take min_def)
    moreover have "take (unat n) (drop 1 (rtu_frame r2)) = ?pdu"
      unfolding r2(3) using lp by (simp add: rtu_adu_def)
    ultimately show ?thesis by simp
  qed
  ultimately show ?thesis using s' r1 r2 by auto
qed

theorem rtu_send_receive_witness:
  "\<exists>s' r1 r2. eMBRTUSend ((rtu_reset 0)\<lparr>RcvState := Some STATE_RX_IDLE, SndState := Some STATE_TX_IDLE\<rparr>) 17 1 5 =
      Inr (s', MB_ENOERR) \<and>
    feed xMBRTUReceiveFSM ((rtu_reset 4)\<lparr>RcvState := Some STATE_RX_IDLE, SndState := Some STATE_TX_IDLE\<rparr>)
      (take 8 (ucRTUBuf s')) = Inr r1 \<and>
    xMBRTUTimerT35Expired r1 = Inr (r2, True) \<and> eMBRTUReceive r2 = Inr (Some (17, 1, 5), MB_ENOERR)"
proof -
  let ?s = "\<lambda>a. (rtu_reset a)\<lparr>RcvState := Some STATE_RX_IDLE, SndState := Some STATE_TX_IDLE\<rparr>"
  have m: "rtu_buf_ok (?s a)" "SndState (?s a) = Some STATE_TX_IDLE" "RcvState (?s a) = Some STATE_RX_IDLE" for a
    by (simp_all add: rtu_buf_ok_def)
  show ?thesis using rtu_send_receive [OF m(1,3) _ _ m, of 5 0 17 4] by auto
qed

text \<open>C16: Safety of every run of the layer from its initialisation on: the frame timer never expires
  in a state its handler rejects, a character never stops the receiver unless a transmission is
  pending, the RS485 driver is enabled only while one is, and the buffer position stays within
  the buffer.\<close>

theorem rtu_reachable_safe:
  assumes "rtu_boot a = Inr m0" and "rtu_run m0 es m"
  shows "(timer_on m \<longrightarrow> okR (xMBRTUTimerT35Expired m)) \<and>
    (SndState m = Some STATE_TX_IDLE \<longrightarrow> (\<forall>b. okR (xMBRTUReceiveFSM m b))) \<and>
    (de_line m \<longrightarrow> SndState m = Some STATE_TX_XMIT) \<and> unat (usRcvBufferPos m) \<le> 256"
proof -
  have "rtu_safe m" using safe_run [OF assms(2)] safe_boot [OF assms(1)] by simp
  with safe_progress [OF this] show ?thesis by (simp add: rtu_safe_def rtu_buf_ok_def)
qed

theorem rtu_reachable_safe_witness:
  "\<exists>m0 m. rtu_boot 0 = Inr m0 \<and> rtu_run m0 [Ev_T35] m \<and> okR (xMBRTUReceiveFSM m 0x3A)"
proof -
  obtain m0 where b: "rtu_boot 0 = Inr m0" "timer_on m0"
    by (simp add: rtu_boot_def eMBRTUInit_def eMBRTUStart_def xMBPortSerialInit_def xMBPortTimersInit_def
        vMBPortSerialEnable_def vMBPortTimersEnable_def)
  have "RcvState m0 = Some STATE_RX_INIT" and s: "SndState m0 = Some STATE_TX_IDLE"
    using b(1) by (auto simp: rtu_boot_def eMBRTUInit_def eMBRTUStart_def xMBPortSerialInit_def
      xMBPortTimersInit_def vMBPortSerialEnable_def vMBPortTimersEnable_def)
  then obtain m need where m: "xMBRTUTimerT35Expired m0 = Inr (m, need)" "SndState m = Some STATE_TX_IDLE"
    by (auto simp: xMBRTUTimerT35Expired_def xMBPortEventPost_def frame_simps)
  have "rtu_run m0 ([] @ [Ev_T35]) m"
    using rtu_step.t35 [OF b(2) m(1)] by (rule rtu_run.step [OF rtu_run.start])
  with rtu_reachable_safe [OF b(1), of "[Ev_T35]" m] m(2) b(1) show ?thesis by auto
qed

text \<open>C20: After a frame has been handed to the UART the receiver is deaf: the next character stops it
  in its assertion, and that stays so until the UART reports that it is empty. That report
  posts \<open>EV_FRAME_SENT\<close>, releases the driver, and makes the receiver listen again. Of the frame
  itself only one byte reaches the line, the low byte of the buffer's address.\<close>

theorem rtu_deaf_until_tx_empty:
  assumes "rtu_buf_ok m" and "RcvState m = Some STATE_RX_IDLE" and "unat n \<le> 253"
  shows "\<exists>m1 m2. eMBRTUSend m addr 1 n = Inr (m1, MB_ENOERR) \<and>
    wire m1 = wire m @ [ucast (buf_addr m)] \<and> de_line m1 \<and>
    xMBRTUReceiveFSM m1 b = Inl Assert_Failed \<and>
    xMBRTUTransmitFSM m1 = Inr (m2, True) \<and> \<not> de_line m2 \<and>
    xEventInQueue m2 \<and> eQueuedEvent m2 = EV_FRAME_SENT \<and> okR (xMBRTUReceiveFSM m2 b)"
proof -
  obtain m1 where m1: "eMBRTUSend m addr 1 n = Inr (m1, MB_ENOERR)" "rtu_buf_ok m1"
    "RcvState m1 = Some STATE_RX_IDLE" "SndState m1 = Some STATE_TX_XMIT" "usSndBufferCount m1 = 0"
    "de_line m1" "wire m1 = wire m @ [ucast (buf_addr m)]"
    using send_frame [OF assms, of addr] by blast
  let ?m2 = "m1\<lparr>xEventInQueue := True, eQueuedEvent := EV_FRAME_SENT, de_line := False,
    SndState := Some STATE_TX_IDLE\<rparr>"
  have "xMBRTUTransmitFSM m1 = Inr (?m2, True)"
    using m1 by (simp add: xMBRTUTransmitFSM_def xMBPortEventPost_def vMBPortSerialEnable_def)
  moreover have "okR (xMBRTUReceiveFSM ?m2 b)"
    using m1(2,3) by (auto simp: xMBRTUReceiveFSM_def okR_iff rtu_buf_ok_def)
  moreover have "xMBRTUReceiveFSM m1 b = Inl Assert_Failed"
    using m1 by (simp add: xMBRTUReceiveFSM_def)
  ultimately show ?thesis using m1 by (intro exI [of _ m1] exI [of _ ?m2]) simp
qed

theorem rtu_deaf_until_tx_empty_witness:
  "\<exists>m1. eMBRTUSend ((rtu_reset 0x20000410)\<lparr>RcvState := Some STATE_RX_IDLE, SndState := Some STATE_TX_IDLE\<rparr>) 1 1 6 =
      Inr (m1, MB_ENOERR) \<and> wire m1 = [0x10] \<and> xMBRTUReceiveFSM m1 0x01 = Inl Assert_Failed"
proof -
  let ?m = "(rtu_reset 0x20000410)\<lparr>RcvState := Some STATE_RX_IDLE, SndState := Some STATE_TX_IDLE\<rparr>"
  have m: "rtu_buf_ok ?m" "RcvState ?m = Some STATE_RX_IDLE" "wire ?m = []" "buf_addr ?m = 0x20000410"
    by (simp_all add: rtu_buf_ok_def)
  show ?thesis using rtu_deaf_until_tx_empty [OF m(1,2), of 6 1 1] m(3,4) by auto
qed

end
