(* ===== verification/MB_ASCII.thy ===== *)
theory MB_ASCII
  imports MB_Port MB_CRC
begin

text \<open>
  The ASCII frame layer (\<open>ascii/mbascii.c\<close>): hexadecimal characters, the longitudinal
  redundancy check, initialisation, the receive and the transmit state machine, the character
  timeout, and the functions the stack calls. \<open>ucASCIIBuf\<close> is the pointer of the instance; no
  function of the stack ever sets it, so it is null unless the application does.
\<close>

datatype ascii_RcvState = STATE_RX_IDLE | STATE_RX_RCV | STATE_RX_WAIT_EOF
datatype ascii_SndState = STATE_TX_IDLE | STATE_TX_START | STATE_TX_DATA | STATE_TX_END | STATE_TX_NOTIFY

type_synonym ascii = "(ascii_RcvState, ascii_SndState) eModbus"

definition MB_ASCII_DEFAULT_CR :: u8 where "MB_ASCII_DEFAULT_CR = 0x0D"
definition MB_ASCII_DEFAULT_LF :: u8 where "MB_ASCII_DEFAULT_LF = 0x0A"
definition ASCII_COLON :: u8 where "ASCII_COLON = 0x3A"
definition ASCII_SIZE_MIN :: u16 where "ASCII_SIZE_MIN = 3"
definition ASCII_SIZE_MAX :: u16 where "ASCII_SIZE_MAX = 256"
definition ASCII_SIZE_LRC :: u16 where "ASCII_SIZE_LRC = 1"

lemmas ascii_consts = MB_ASCII_DEFAULT_CR_def MB_ASCII_DEFAULT_LF_def ASCII_COLON_def
  ASCII_SIZE_MIN_def ASCII_SIZE_MAX_def ASCII_SIZE_LRC_def

subsection \<open>Characters and checksum\<close>

definition prvucMBCHAR2BIN :: "u8 \<Rightarrow> u8" where
  "prvucMBCHAR2BIN ucCharacter =
     (if ucCharacter \<ge> 0x30 \<and> ucCharacter \<le> 0x39 then ucCharacter - 0x30
      else if ucCharacter \<ge> 0x41 \<and> ucCharacter \<le> 0x46 then ucCharacter - 0x41 + 0x0A
      else 0xFF)"

definition prvucMBBIN2CHAR :: "u8 \<Rightarrow> u8 res" where
  "prvucMBBIN2CHAR ucByte =
     (if ucByte \<le> 0x09 then Inr (0x30 + ucByte)
      else if ucByte \<ge> 0x0A \<and> ucByte \<le> 0x0F then Inr (ucByte - 0x0A + 0x41)
      else Inl Assert_Failed)"

fun lrc_loop :: "u8 list \<Rightarrow> nat \<Rightarrow> nat \<Rightarrow> u8 \<Rightarrow> u8 res" where
  "lrc_loop buf off 0 ucLRC = Inr ucLRC"
| "lrc_loop buf off (Suc usLen) ucLRC =
     bindR (rd buf off) (\<lambda>b. lrc_loop buf (Suc off) usLen (ucLRC + b))"

definition prvucMBLRC :: "u8 list \<Rightarrow> nat \<Rightarrow> nat \<Rightarrow> u8 res" where
  "prvucMBLRC buf off usLen = bindR (lrc_loop buf off usLen 0) (\<lambda>s. Inr (- s))"

subsection \<open>Start and stop\<close>

text \<open>\<open>r0\<close> and \<open>s0\<close> are what the freshly allocated state cells happen to hold.\<close>

definition eMBASCIIInit ::
  "ascii_RcvState \<Rightarrow> ascii_SndState \<Rightarrow> ascii \<Rightarrow> u8 \<Rightarrow> u8 \<Rightarrow> u32 \<Rightarrow> eMBParity \<Rightarrow> ascii \<times> eMBErrorCode" where
  "eMBASCIIInit r0 s0 m ucSlaveAddress ucPort ulBaudRate eParity =
     (let m0 = m\<lparr>ucMBLFCharacter := MB_ASCII_DEFAULT_LF\<rparr>;
          (m1, ok1) = xMBPortSerialInit m0 ucPort ulBaudRate 7 eParity in
      if \<not> ok1 then (m1, MB_EPORTERR)
      else
        let (m2, ok2) = xMBPortTimersInit m1 20000 in
        if \<not> ok2 then (m2, MB_EPORTERR)
        else (m2\<lparr>RcvState := Some r0, SndState := Some s0\<rparr>, MB_ENOERR))"

definition eMBASCIIStart :: "ascii \<Rightarrow> ascii res" where
  "eMBASCIIStart m =
     bindR (vMBPortSerialEnable Inr m True False) (\<lambda>m1.
     bindR (deref (RcvState m1)) (\<lambda>_.
     Inr (fst (xMBPortEventPost (m1\<lparr>RcvState := Some STATE_RX_IDLE\<rparr>) EV_READY))))"

definition eMBASCIIStop :: "ascii \<Rightarrow> ascii res" where
  "eMBASCIIStop m =
     bindR (vMBPortSerialEnable Inr m False False) (\<lambda>m1. Inr (vMBPortTimersDisable m1))"

subsection \<open>State machines\<close>

definition ascii_put_high :: "ascii \<Rightarrow> u8 \<Rightarrow> ascii res" where
  "ascii_put_high m ucResult =
     (if usRcvBufferPos m < ASCII_SIZE_MAX then
        bindR (deref (ucASCIIBuf m)) (\<lambda>buf.
        bindR (wr buf (unat (usRcvBufferPos m)) (push_bit 4 ucResult)) (\<lambda>buf'.
        Inr (m\<lparr>ucASCIIBuf := Some buf', eBytePos := BYTE_LOW_NIBBLE\<rparr>)))
      else Inr (vMBPortTimersDisable (m\<lparr>RcvState := Some STATE_RX_IDLE\<rparr>)))"

definition ascii_put_low :: "ascii \<Rightarrow> u8 \<Rightarrow> ascii res" where
  "ascii_put_low m ucResult =
     bindR (deref (ucASCIIBuf m)) (\<lambda>buf.
     bindR (rd buf (unat (usRcvBufferPos m))) (\<lambda>v.
     bindR (wr buf (unat (usRcvBufferPos m)) (v OR ucResult)) (\<lambda>buf'.
     Inr (m\<lparr>ucASCIIBuf := Some buf', usRcvBufferPos := usRcvBufferPos m + 1,
            eBytePos := BYTE_HIGH_NIBBLE\<rparr>))))"

definition xMBASCIIReceiveFSM :: "ascii \<Rightarrow> u8 \<Rightarrow> (ascii \<times> bool) res" where
  "xMBASCIIReceiveFSM m ucByte =
     bindR (deref (SndState m)) (\<lambda>snd.
     bindR (assertR (snd = STATE_TX_IDLE)) (\<lambda>_.
     bindR (deref (RcvState m)) (\<lambda>rcv.
     case rcv of
       STATE_RX_RCV \<Rightarrow>
         (let m1 = vMBPortTimersEnable m in
          if ucByte = ASCII_COLON then
            Inr (m1\<lparr>eBytePos := BYTE_HIGH_NIBBLE, usRcvBufferPos := 0\<rparr>, False)
          else if ucByte = MB_ASCII_DEFAULT_CR then
            Inr (m1\<lparr>RcvState := Some STATE_RX_WAIT_EOF\<rparr>, False)
          else
            let ucResult = prvucMBCHAR2BIN ucByte in
            bindR (case eBytePos m1 of
                     BYTE_HIGH_NIBBLE \<Rightarrow> ascii_put_high m1 ucResult
                   | BYTE_LOW_NIBBLE \<Rightarrow> ascii_put_low m1 ucResult) (\<lambda>m2. Inr (m2, False)))
     | STATE_RX_WAIT_EOF \<Rightarrow>
         if ucByte = ucMBLFCharacter m then
           (let (m1, need) =
              xMBPortEventPost ((vMBPortTimersDisable m)\<lparr>RcvState := Some STATE_RX_IDLE\<rparr>) EV_FRAME_RECEIVED
            in Inr (m1, need))
         else if ucByte = ASCII_COLON then
           Inr (vMBPortTimersEnable
                  (m\<lparr>eBytePos := BYTE_HIGH_NIBBLE, usRcvBufferPos := 0, RcvState := Some STATE_RX_RCV\<rparr>), False)
         else Inr (m\<lparr>RcvState := Some STATE_RX_IDLE\<rparr>, False)
     | STATE_RX_IDLE \<Rightarrow>
         if ucByte = ASCII_COLON then
           Inr ((vMBPortTimersEnable m)
                  \<lparr>usRcvBufferPos := 0, eBytePos := BYTE_HIGH_NIBBLE, RcvState := Some STATE_RX_RCV\<rparr>, False)
         else Inr (m, False))))"

text \<open>Reading the byte the send pointer designates.\<close>

definition ascii_cur :: "ascii \<Rightarrow> u8 res" where
  "ascii_cur m = bindR (deref (ucASCIIBuf m)) (\<lambda>buf. rd buf (pucSndBufferCur m))"

definition xMBASCIITransmitFSM :: "ascii \<Rightarrow> (ascii \<times> bool) res" where
  "xMBASCIITransmitFSM m =
     bindR (deref (RcvState m)) (\<lambda>rcv.
     bindR (assertR (rcv = STATE_RX_IDLE)) (\<lambda>_.
     bindR (deref (SndState m)) (\<lambda>snd.
     case snd of
       STATE_TX_START \<Rightarrow>
         Inr ((xMBPortSerialPutByte m ASCII_COLON)
                \<lparr>SndState := Some STATE_TX_DATA, eBytePos := BYTE_HIGH_NIBBLE\<rparr>, False)
     | STATE_TX_DATA \<Rightarrow>
         if usSndBufferCount m > 0 then
           bindR (ascii_cur m) (\<lambda>v.
           case eBytePos m of
             BYTE_HIGH_NIBBLE \<Rightarrow>
               bindR (prvucMBBIN2CHAR (drop_bit 4 v)) (\<lambda>c.
               Inr ((xMBPortSerialPutByte m c)\<lparr>eBytePos := BYTE_LOW_NIBBLE\<rparr>, False))
           | BYTE_LOW_NIBBLE \<Rightarrow>
               bindR (prvucMBBIN2CHAR (v AND 0x0F)) (\<lambda>c.
               Inr ((xMBPortSerialPutByte m c)
                      \<lparr>pucSndBufferCur := pucSndBufferCur m + 1, eBytePos := BYTE_HIGH_NIBBLE,
                       usSndBufferCount := usSndBufferCount m - 1\<rparr>, False)))
         else Inr ((xMBPortSerialPutByte m MB_ASCII_DEFAULT_CR)\<lparr>SndState := Some STATE_TX_END\<rparr>, False)
     | STATE_TX_END \<Rightarrow>
         Inr ((xMBPortSerialPutByte m (ucMBLFCharacter m))\<lparr>SndState := Some STATE_TX_NOTIFY\<rparr>, False)
     | STATE_TX_NOTIFY \<Rightarrow>
         (let (m1, need) = xMBPortEventPost (m\<lparr>SndState := Some STATE_TX_IDLE\<rparr>) EV_FRAME_SENT in
          bindR (vMBPortSerialEnable Inr m1 True False) (\<lambda>m2.
          Inr (m2\<lparr>SndState := Some STATE_TX_IDLE\<rparr>, need)))
     | STATE_TX_IDLE \<Rightarrow>
         bindR (vMBPortSerialEnable Inr m True False) (\<lambda>m1. Inr (m1, False)))))"

definition xMBASCIITimerT1SExpired :: "ascii \<Rightarrow> (ascii \<times> bool) res" where
  "xMBASCIITimerT1SExpired m =
     bindR (deref (RcvState m)) (\<lambda>rcv.
     if rcv = STATE_RX_RCV \<or> rcv = STATE_RX_WAIT_EOF then
       Inr (vMBPortTimersDisable (m\<lparr>RcvState := Some STATE_RX_IDLE\<rparr>), False)
     else Inl Assert_Failed)"

subsection \<open>Taking and sending frames\<close>

definition eMBASCIIReceive :: "ascii \<Rightarrow> ((u8 \<times> nat \<times> u16) option \<times> eMBErrorCode) res" where
  "eMBASCIIReceive m =
     bindR (assertR (usRcvBufferPos m < ASCII_SIZE_MAX)) (\<lambda>_.
     if usRcvBufferPos m \<ge> ASCII_SIZE_MIN then
       bindR (deref (ucASCIIBuf m)) (\<lambda>buf.
       bindR (prvucMBLRC buf 0 (unat (usRcvBufferPos m))) (\<lambda>lrc.
       if lrc = 0 then
         bindR (rd buf 0) (\<lambda>addr.
         Inr (Some (addr, 1, usRcvBufferPos m - 1 - ASCII_SIZE_LRC), MB_ENOERR))
       else Inr (None, MB_EIO)))
     else Inr (None, MB_EIO))"

definition eMBASCIISend :: "ascii \<Rightarrow> u8 \<Rightarrow> nat \<Rightarrow> u16 \<Rightarrow> (ascii \<times> eMBErrorCode) res" where
  "eMBASCIISend m ucSlaveAddress pucFrame usLength =
     bindR (deref (RcvState m)) (\<lambda>rcv.
     if rcv = STATE_RX_IDLE then
       bindR (if pucFrame = 0 then Inl Out_Of_Bounds else Inr (pucFrame - 1)) (\<lambda>cur.
       bindR (deref (ucASCIIBuf m)) (\<lambda>buf.
       bindR (wr buf cur ucSlaveAddress) (\<lambda>b1.
       let count = 1 + usLength in
       bindR (prvucMBLRC b1 cur (unat count)) (\<lambda>usLRC.
       bindR (wr b1 (unat count) usLRC) (\<lambda>b2.
       bindR (deref (SndState m)) (\<lambda>_.
       bindR (vMBPortSerialEnable (\<lambda>m. bindR (xMBASCIITransmitFSM m) (\<lambda>(m', b). Inr m'))
                (m\<lparr>pucSndBufferCur := cur, usSndBufferCount := count + 1, ucASCIIBuf := Some b2,
                   SndState := Some STATE_TX_START\<rparr>) False True) (\<lambda>m'.
       Inr (m', MB_ENOERR))))))))
     else Inr (m, MB_EIO))"

text \<open>The UART reports an empty transmitter \<open>n\<close> times.\<close>

fun ascii_drain :: "nat \<Rightarrow> ascii \<Rightarrow> ascii res" where
  "ascii_drain 0 m = Inr m"
| "ascii_drain (Suc n) m = bindR (xMBASCIITransmitFSM m) (\<lambda>(m', need). ascii_drain n m')"

subsection \<open>Checksum\<close>

definition lrc :: "u8 list \<Rightarrow> u8" where
  "lrc bs = foldl (+) 0 bs"

text \<open>The sum of the bytes has the same interface as the CRC.\<close>

interpretation lrc: stream_checksum "(+) :: u8 \<Rightarrow> u8 \<Rightarrow> u8"
  by unfold_locales simp_all

lemma lrc_loop_ok:
  "off + n \<le> length buf \<Longrightarrow> lrc_loop buf off n s = Inr (foldl (+) s (window off n buf))"
  by (induction n arbitrary: off s) (simp_all add: window_Suc)

lemma prvucMBLRC_ok: "off + n \<le> length buf \<Longrightarrow> prvucMBLRC buf off n = Inr (- lrc (window off n buf))"
  by (simp add: prvucMBLRC_def lrc_loop_ok lrc_def)

lemma lrc_append: "lrc (bs @ [b]) = lrc bs + b"
  by (simp add: lrc_def)

lemma lrc_one_byte: "b \<noteq> b' \<Longrightarrow> lrc (xs @ b # ys) \<noteq> lrc (xs @ b' # ys)"
  unfolding lrc_def by (rule lrc.one_byte_changed)

subsection \<open>Characters\<close>

definition hexchar :: "u8 \<Rightarrow> u8" where
  "hexchar n = (if n \<le> 9 then 0x30 + n else 0x37 + n)"

definition hex :: "u8 \<Rightarrow> u8 list" where
  "hex b = [hexchar (drop_bit 4 b), hexchar (b AND 0x0F)]"

lemma nibble_cases:
  assumes "n \<le> (15 :: u8)"
  shows "n \<in> {0, 1, 2, 3, 4, 5, 6, 7, 8, 9, 10, 11, 12, 13, 14, 15}"
proof -
  define k where "k = unat n"
  have n: "n = word_of_nat k" by (simp add: k_def)
  have "k < 16" using assms by (simp add: k_def word_le_nat_alt)
  then have "k \<in> {0, 1, 2, 3, 4, 5, 6, 7, 8, 9, 10, 11, 12, 13, 14, 15}"
    by (simp only: insert_iff empty_iff) presburger
  then show ?thesis by (elim insertE emptyE) (simp_all add: n)
qed

lemma nibble_char:
  assumes "n \<le> (15 :: u8)"
  shows "prvucMBBIN2CHAR n = Inr (hexchar n)" and "prvucMBCHAR2BIN (hexchar n) = n"
    and "hexchar n \<noteq> ASCII_COLON" and "hexchar n \<noteq> MB_ASCII_DEFAULT_CR"
  using nibble_cases [OF assms]
  by (auto simp: prvucMBBIN2CHAR_def prvucMBCHAR2BIN_def hexchar_def ascii_consts)

lemma and_0F: "b AND 0x0F = take_bit 4 (b :: u8)"
  by (simp add: take_bit_eq_mask mask_eq_exp_minus_1)

lemma nibbles_le: "drop_bit 4 b \<le> (15 :: u8)" "b AND 0x0F \<le> (15 :: u8)"
proof -
  have "unat b < 256" using unsigned_less [where ?'a = nat and w = b] by simp
  then have "unat b div 16 \<le> 15" by simp
  then show "drop_bit 4 b \<le> (15 :: u8)" by (simp add: word_le_nat_alt unat_drop_bit_eq) (simp add: drop_bit_eq_div)
  show "b AND 0x0F \<le> (15 :: u8)" by (rule word_and_le1)
qed

lemma nibbles_join: "push_bit 4 (drop_bit 4 b) OR (b AND 0x0F) = (b :: u8)"
  unfolding and_0F by (rule bit_word_eqI) (auto simp: bit_simps)

subsection \<open>Transmitting\<close>

definition ascii_adu :: "u8 \<Rightarrow> u8 list \<Rightarrow> u8 list" where
  "ascii_adu addr pdu = addr # pdu @ [- lrc (addr # pdu)]"

lemma length_ascii_adu [simp]: "length (ascii_adu addr pdu) = length pdu + 2"
  by (simp add: ascii_adu_def)

lemma ascii_drain_add: "ascii_drain (a + b) m = bindR (ascii_drain a m) (ascii_drain b)"
proof (induction a arbitrary: m)
  case (Suc a)
  then show ?case by (cases "xMBASCIITransmitFSM m") (auto split: prod.splits)
qed simp

lemma drain_byte:
  assumes "RcvState m = Some STATE_RX_IDLE" "SndState m = Some STATE_TX_DATA" "eBytePos m = BYTE_HIGH_NIBBLE"
    "ucASCIIBuf m = Some buf" "pucSndBufferCur m < length buf" "usSndBufferCount m > 0"
  shows "ascii_drain 2 m = Inr (m\<lparr>pucSndBufferCur := pucSndBufferCur m + 1,
    usSndBufferCount := usSndBufferCount m - 1, tx_done := False,
    wire := wire m @ hex (buf ! pucSndBufferCur m)\<rparr>)"
  using assms
  by (simp add: numeral_2_eq_2 xMBASCIITransmitFSM_def ascii_cur_def port_defs nibble_char nibbles_le hex_def)

lemma drain_data:
  assumes "RcvState m = Some STATE_RX_IDLE" "SndState m = Some STATE_TX_DATA" "eBytePos m = BYTE_HIGH_NIBBLE"
    "ucASCIIBuf m = Some buf" "pucSndBufferCur m + n \<le> length buf" "unat (usSndBufferCount m) = n"
  shows "\<exists>m'. ascii_drain (2 * n) m = Inr m' \<and> RcvState m' = Some STATE_RX_IDLE \<and>
    SndState m' = Some STATE_TX_DATA \<and> usSndBufferCount m' = 0 \<and> ucMBLFCharacter m' = ucMBLFCharacter m \<and>
    wire m' = wire m @ concat (map hex (window (pucSndBufferCur m) n buf))"
  using assms
proof (induction n arbitrary: m)
  case 0
  then show ?case by (simp add: unsigned_eq_0_iff)
next
  case (Suc n)
  have pos: "usSndBufferCount m > 0" using Suc.prems(6) by (simp add: word_less_nat_alt)
  let ?m = "m\<lparr>pucSndBufferCur := pucSndBufferCur m + 1, usSndBufferCount := usSndBufferCount m - 1,
    tx_done := False, wire := wire m @ hex (buf ! pucSndBufferCur m)\<rparr>"
  have "ascii_drain 2 m = Inr ?m" using Suc.prems pos by (intro drain_byte) auto
  then have "ascii_drain (2 * Suc n) m = ascii_drain (2 * n) ?m"
    using ascii_drain_add [of 2 "2 * n" m] by simp
  moreover have "unat (usSndBufferCount m - 1) = n"
    using Suc.prems(6) pos by (simp add: unat_minus_one)
  moreover have "pucSndBufferCur m < length buf" using Suc.prems(5) by simp
  ultimately show ?case using Suc.IH [of ?m] Suc.prems by (simp add: window_Suc)
qed

lemma drain_tail:
  assumes "RcvState m = Some STATE_RX_IDLE" "SndState m = Some STATE_TX_DATA" "usSndBufferCount m = 0"
  shows "\<exists>m'. ascii_drain 3 m = Inr m' \<and> SndState m' = Some STATE_TX_IDLE \<and> xEventInQueue m' \<and>
    eQueuedEvent m' = EV_FRAME_SENT \<and> \<not> de_line m' \<and>
    wire m' = wire m @ [MB_ASCII_DEFAULT_CR, ucMBLFCharacter m]"
  using assms by (simp add: numeral_3_eq_3 xMBASCIITransmitFSM_def port_defs)

lemma ascii_send_ok:
  assumes "ucASCIIBuf s = Some bs" "RcvState s = Some STATE_RX_IDLE" "SndState s \<noteq> None"
    and "unat n + 2 \<le> length bs" "unat n \<le> 253"
  shows "\<exists>s1. eMBASCIISend s addr 1 n = Inr (s1, MB_ENOERR) \<and> RcvState s1 = Some STATE_RX_IDLE \<and>
    SndState s1 = Some STATE_TX_DATA \<and> eBytePos s1 = BYTE_HIGH_NIBBLE \<and> pucSndBufferCur s1 = 0 \<and>
    unat (usSndBufferCount s1) = unat n + 2 \<and> ucMBLFCharacter s1 = ucMBLFCharacter s \<and>
    wire s1 = wire s @ [ASCII_COLON] \<and> de_line s1 \<and>
    (\<exists>b. ucASCIIBuf s1 = Some b \<and> length b = length bs \<and>
      window 0 (unat n + 2) b = ascii_adu addr (window 1 (unat n) bs))"
proof -
  have c: "unat (1 + n) = unat n + 1" "unat (2 + n) = unat n + 2"
    using assms(5) by (simp_all add: unat_word_ariths)
  let ?b1 = "bs[0 := addr]"
  have w: "window 0 (unat n + 1) ?b1 = addr # window 1 (unat n) bs"
    using assms(4) by (cases bs) (simp_all add: window_def)
  let ?l = "- lrc (addr # window 1 (unat n) bs)"
  have l: "prvucMBLRC ?b1 0 (unat n + 1) = Inr ?l"
    unfolding w [symmetric] by (rule prvucMBLRC_ok) (use assms(4) in simp)
  have "window 0 (unat n + 2) (?b1[unat n + 1 := ?l]) = window 0 (unat n + 1) ?b1 @ [?l]"
    using assms(4) by (simp add: window_def take_Suc_conv_app_nth)
  then have adu: "window 0 (unat n + 2) (?b1[unat n + 1 := ?l]) = ascii_adu addr (window 1 (unat n) bs)"
    by (simp only: w ascii_adu_def append_Cons)
  obtain st where "SndState s = Some st" using assms(3) by auto
  moreover have "bs \<noteq> []" using assms(4) by auto
  ultimately show ?thesis using assms(1,2,4) adu
    by (simp add: eMBASCIISend_def Let_def c l [simplified] port_defs xMBASCIITransmitFSM_def)
qed

subsection \<open>Receiving\<close>

definition ascii_rx :: "ascii \<Rightarrow> nat \<Rightarrow> u8 list \<Rightarrow> u8 \<Rightarrow> bool" where
  "ascii_rx m p buf lf \<longleftrightarrow> SndState m = Some STATE_TX_IDLE \<and> RcvState m = Some STATE_RX_RCV \<and>
     eBytePos m = BYTE_HIGH_NIBBLE \<and> unat (usRcvBufferPos m) = p \<and> ucASCIIBuf m = Some buf \<and>
     ucMBLFCharacter m = lf"

lemma feed_hex:
  assumes "ascii_rx m p buf lf" and "p < 256" and "p < length buf"
  shows "\<exists>m'. ascii_rx m' (p + 1) (buf[p := b]) lf \<and>
    (\<forall>cs. feed xMBASCIIReceiveFSM m (hex b @ cs) = feed xMBASCIIReceiveFSM m' cs)"
proof -
  have "usRcvBufferPos m < 256" using assms(1,2) by (simp add: ascii_rx_def word_less_nat_alt)
  moreover have "unat (usRcvBufferPos m + 1) = p + 1"
    using assms(1,2) by (auto simp: ascii_rx_def unat_word_ariths)
  moreover have "push_bit 4 (drop_bit 4 b) OR b AND 15 = b" using nibbles_join by simp
  ultimately show ?thesis using assms
    by (intro exI [of _ "(vMBPortTimersEnable m)\<lparr>ucASCIIBuf := Some (buf[p := b]),
        usRcvBufferPos := usRcvBufferPos m + 1, eBytePos := BYTE_HIGH_NIBBLE\<rparr>"])
      (simp add: ascii_rx_def hex_def xMBASCIIReceiveFSM_def Let_def nibble_char nibbles_le
        ascii_put_high_def ascii_put_low_def ASCII_SIZE_MAX_def port_defs)
qed

lemma feed_hexes:
  assumes "ascii_rx m p buf lf" and "p + length bs \<le> 256" and "p + length bs \<le> length buf"
  shows "\<exists>m'. ascii_rx m' (p + length bs) (blit p bs buf) lf \<and>
    (\<forall>cs. feed xMBASCIIReceiveFSM m (concat (map hex bs) @ cs) = feed xMBASCIIReceiveFSM m' cs)"
  using assms
proof (induction bs arbitrary: m p buf)
  case (Cons b bs)
  then obtain m1 where 1: "ascii_rx m1 (p + 1) (buf[p := b]) lf"
    "\<And>cs. feed xMBASCIIReceiveFSM m (hex b @ cs) = feed xMBASCIIReceiveFSM m1 cs"
    using feed_hex [of m p buf lf b] by auto
  from Cons.IH [OF 1(1)] Cons.prems obtain m2 where
    "ascii_rx m2 (p + 1 + length bs) (blit (p + 1) bs (buf[p := b])) lf"
    "\<And>cs. feed xMBASCIIReceiveFSM m1 (concat (map hex bs) @ cs) = feed xMBASCIIReceiveFSM m2 cs"
    by auto
  then show ?case using Cons.prems 1(2) by (auto simp: blit_Cons)
qed auto

lemma feed_frame:
  assumes "SndState r = Some STATE_TX_IDLE" "RcvState r = Some STATE_RX_IDLE" "ucASCIIBuf r = Some br"
    and "length bs \<le> 256" and "length bs \<le> length br"
  shows "\<exists>r1. feed xMBASCIIReceiveFSM r
      (ASCII_COLON # concat (map hex bs) @ [MB_ASCII_DEFAULT_CR, ucMBLFCharacter r]) = Inr r1 \<and>
    xEventInQueue r1 \<and> eQueuedEvent r1 = EV_FRAME_RECEIVED \<and> RcvState r1 = Some STATE_RX_IDLE \<and>
    unat (usRcvBufferPos r1) = length bs \<and> ucASCIIBuf r1 = Some (blit 0 bs br)"
proof -
  let ?r = "(vMBPortTimersEnable r)\<lparr>usRcvBufferPos := 0, eBytePos := BYTE_HIGH_NIBBLE, RcvState := Some STATE_RX_RCV\<rparr>"
  have "ascii_rx ?r 0 br (ucMBLFCharacter r)" using assms by (simp add: ascii_rx_def port_defs)
  from feed_hexes [OF this, of bs] assms(4,5) obtain m' where
    m': "ascii_rx m' (length bs) (blit 0 bs br) (ucMBLFCharacter r)"
    "\<And>cs. feed xMBASCIIReceiveFSM ?r (concat (map hex bs) @ cs) = feed xMBASCIIReceiveFSM m' cs"
    by auto
  have "feed xMBASCIIReceiveFSM r (ASCII_COLON # cs) = feed xMBASCIIReceiveFSM ?r cs" for cs
    using assms by (simp add: xMBASCIIReceiveFSM_def)
  then show ?thesis using m'
    by (auto simp: ascii_rx_def xMBASCIIReceiveFSM_def port_defs ascii_consts)
qed

lemma lrc_adu: "lrc (ascii_adu addr pdu) = 0"
  using lrc_append [of "addr # pdu"] by (simp add: ascii_adu_def)

lemma ascii_receive_adu:
  assumes "ucASCIIBuf r = Some buf" "window 0 (length pdu + 2) buf = ascii_adu addr pdu"
    and "unat (usRcvBufferPos r) = length pdu + 2" and "1 \<le> length pdu" "length pdu \<le> 253"
  shows "eMBASCIIReceive r = Inr (Some (addr, 1, usRcvBufferPos r - 2), MB_ENOERR)"
proof -
  have "length (window 0 (length pdu + 2) buf) = length pdu + 2" by (simp only: assms(2) length_ascii_adu)
  then have le: "length pdu + 2 \<le> length buf" by simp
  then have "buf \<noteq> []" by auto
  moreover have "prvucMBLRC buf 0 (length pdu + 2) = Inr 0"
    using prvucMBLRC_ok [of 0 "length pdu + 2" buf] le by (simp only: assms(2) lrc_adu) simp
  moreover have "buf ! 0 = addr"
    using nth_window [of 0 "length pdu + 2" 0 buf] le \<open>buf \<noteq> []\<close>
    by (simp only: assms(2)) (simp add: ascii_adu_def)
  moreover have "3 \<le> usRcvBufferPos r" "usRcvBufferPos r < 256"
    using assms(3-5) by (simp_all add: word_le_nat_alt word_less_nat_alt)
  ultimately show ?thesis using assms(1,3)
    by (simp add: eMBASCIIReceive_def ascii_consts)
qed

subsection \<open>The instance of the firmware\<close>

definition ascii_reset :: "u32 \<Rightarrow> ascii" where
  "ascii_reset a =
     \<lparr>config = \<lparr>cfg_ucMBAddress = 0, cfg_ucSlaveAddress = 0, cfg_ucPort = 0, cfg_ulBaudRate = 0,
               cfg_eParity = MB_PAR_NONE\<rparr>,
      RcvState = None, SndState = None, ucRTUBuf = replicate 256 0, buf_addr = a, ucASCIIBuf = None,
      pucSndBufferCur = 0, usSndBufferCount = 0, usRcvBufferPos = 0, eBytePos = BYTE_HIGH_NIBBLE,
      ucMBLFCharacter = 0, eQueuedEvent = EV_READY, xEventInQueue = False, tx_done = False,
      tx_cb_set = False, timer_cb_set = False, de_line = False, timer_on = False, wire = []\<rparr>"

section \<open>Properties\<close>

text \<open>Round trip of the ASCII mode. A PDU of up to 253 bytes handed to \<open>eMBASCIISend\<close> leaves
  the transmitter, in as many transmitter interrupts as it has characters and one more, as a
  colon, two hexadecimal digits per byte of address, PDU and redundancy check, and the end of
  line; the sender is then idle again with the driver off and the sent event posted. A quiet
  receiver fed these characters reports a frame and accepts it with the same address and PDU.\<close>

lemma ascii_send_receive:
  assumes "ucASCIIBuf s = Some bs" "RcvState s = Some STATE_RX_IDLE" "SndState s \<noteq> None"
    and "unat n + 2 \<le> length bs" "1 \<le> unat n" "unat n \<le> 253" and "wire s = []"
    and "ucASCIIBuf r = Some br" "RcvState r = Some STATE_RX_IDLE" "SndState r = Some STATE_TX_IDLE"
    and "unat n + 2 \<le> length br" "ucMBLFCharacter r = ucMBLFCharacter s"
  shows "\<exists>s1 s2 r1 b. eMBASCIISend s addr 1 n = Inr (s1, MB_ENOERR) \<and>
    ascii_drain (2 * (unat n + 2) + 3) s1 = Inr s2 \<and>
    wire s2 = ASCII_COLON # concat (map hex (ascii_adu addr (window 1 (unat n) bs))) @
      [MB_ASCII_DEFAULT_CR, ucMBLFCharacter s] \<and>
    SndState s2 = Some STATE_TX_IDLE \<and> \<not> de_line s2 \<and> eQueuedEvent s2 = EV_FRAME_SENT \<and>
    feed xMBASCIIReceiveFSM r (wire s2) = Inr r1 \<and> eQueuedEvent r1 = EV_FRAME_RECEIVED \<and>
    eMBASCIIReceive r1 = Inr (Some (addr, 1, n), MB_ENOERR) \<and>
    ucASCIIBuf r1 = Some b \<and> window 1 (unat n) b = window 1 (unat n) bs"
proof -
  let ?pdu = "window 1 (unat n) bs"
  let ?adu = "ascii_adu addr ?pdu"
  have lp: "length ?pdu = unat n" using assms(4) by simp
  obtain s1 b1 where s1: "eMBASCIISend s addr 1 n = Inr (s1, MB_ENOERR)"
    "RcvState s1 = Some STATE_RX_IDLE" "SndState s1 = Some STATE_TX_DATA" "eBytePos s1 = BYTE_HIGH_NIBBLE"
    "pucSndBufferCur s1 = 0" "unat (usSndBufferCount s1) = unat n + 2" "wire s1 = [ASCII_COLON]"
    "ucMBLFCharacter s1 = ucMBLFCharacter s" "ucASCIIBuf s1 = Some b1" "length b1 = length bs"
    "window 0 (unat n + 2) b1 = ?adu"
    using ascii_send_ok [OF assms(1-4,6), of addr] assms(7) by auto
  have "pucSndBufferCur s1 + (unat n + 2) \<le> length b1" using s1(5,10) assms(4) by simp
  from drain_data [OF s1(2-4,9) this s1(6)] obtain m where
    m: "ascii_drain (2 * (unat n + 2)) s1 = Inr m" "RcvState m = Some STATE_RX_IDLE"
    "SndState m = Some STATE_TX_DATA" "usSndBufferCount m = 0" "ucMBLFCharacter m = ucMBLFCharacter s"
    "wire m = ASCII_COLON # concat (map hex ?adu)"
    by (simp only: s1(5,7,8,11) append_Cons append_Nil) blast
  from drain_tail [OF m(2-4)] obtain s2 where
    s2: "ascii_drain 3 m = Inr s2" "SndState s2 = Some STATE_TX_IDLE" "\<not> de_line s2"
    "eQueuedEvent s2 = EV_FRAME_SENT"
    "wire s2 = ASCII_COLON # concat (map hex ?adu) @ [MB_ASCII_DEFAULT_CR, ucMBLFCharacter s]"
    by (auto simp: m(5,6))
  have d: "ascii_drain (2 * (unat n + 2) + 3) s1 = Inr s2"
    using m(1) s2(1) by (simp only: ascii_drain_add bindR.simps)
  from feed_frame [OF assms(10,9,8), of ?adu] obtain r1 where
    r1: "feed xMBASCIIReceiveFSM r (wire s2) = Inr r1" "eQueuedEvent r1 = EV_FRAME_RECEIVED"
    "unat (usRcvBufferPos r1) = unat n + 2" "ucASCIIBuf r1 = Some (blit 0 ?adu br)"
    using assms(6,11) lp by (auto simp: s2(5) assms(12))
  have w: "window 0 (length ?pdu + 2) (blit 0 ?adu br) = ?adu"
    using window_blit [of 0 ?adu br] assms(11) lp by simp
  have "usRcvBufferPos r1 = n + 2"
    using r1(3) assms(6) by (simp add: word_unat_eq_iff unat_word_ariths)
  then have "eMBASCIIReceive r1 = Inr (Some (addr, 1, n), MB_ENOERR)"
    using ascii_receive_adu [OF r1(4) w] r1(3) assms(5,6) lp by simp
  moreover have "window 1 (unat n) (blit 0 ?adu br) = ?pdu"
    using lp by (simp add: window_def blit_def ascii_adu_def)
  ultimately show ?thesis using s1(1) d s2 r1 by auto
qed

lemma ascii_send_receive_example:
  "\<exists>s1 s2 r1. eMBASCIISend ((ascii_reset 0)\<lparr>ucASCIIBuf := Some (replicate 256 0), RcvState := Some STATE_RX_IDLE,
      SndState := Some STATE_TX_IDLE\<rparr>) 17 1 5 = Inr (s1, MB_ENOERR) \<and> ascii_drain 17 s1 = Inr s2 \<and>
    feed xMBASCIIReceiveFSM ((ascii_reset 0)\<lparr>ucASCIIBuf := Some (replicate 256 0), RcvState := Some STATE_RX_IDLE,
      SndState := Some STATE_TX_IDLE\<rparr>) (wire s2) = Inr r1 \<and>
    eMBASCIIReceive r1 = Inr (Some (17, 1, 5), MB_ENOERR)"
proof -
  define t where "t = replicate 256 (0 :: u8)"
  have l: "length t = 256" by (simp add: t_def)
  let ?m = "(ascii_reset 0)\<lparr>ucASCIIBuf := Some t, RcvState := Some STATE_RX_IDLE, SndState := Some STATE_TX_IDLE\<rparr>"
  have m: "ucASCIIBuf ?m = Some t" "RcvState ?m = Some STATE_RX_IDLE" "SndState ?m = Some STATE_TX_IDLE"
    "SndState ?m \<noteq> None" "wire ?m = []" by (simp_all add: ascii_reset_def)
  have 5: "unat (5 :: u16) + 2 \<le> length t" "1 \<le> unat (5 :: u16)" "unat (5 :: u16) \<le> 253" by (simp_all add: l)
  have d: "2 * (unat (5 :: u16) + 2) + 3 = (17 :: nat)" by simp
  show ?thesis
    using ascii_send_receive [OF m(1,2,4) 5 m(5) m(1-3) 5(1) refl, of 17]
    unfolding d t_def [symmetric] by blast
qed

text \<open>The ASCII mode as the stack sets it up has no receive buffer: after initialisation and start
  the first data character behind a colon stops the receiver at the null pointer, or, when the
  uninitialised sender state happens not to be idle, the colon already fails the assertion.\<close>

lemma ascii_without_buffer:
  assumes "c \<noteq> ASCII_COLON" and "c \<noteq> MB_ASCII_DEFAULT_CR"
  shows "\<exists>m. eMBASCIIStart (fst (eMBASCIIInit r0 s0 (ascii_reset a) addr port baud par)) = Inr m \<and>
    RcvState m = Some STATE_RX_IDLE \<and> eQueuedEvent m = EV_READY \<and>
    feed xMBASCIIReceiveFSM m (ASCII_COLON # c # cs) =
      Inl (if s0 = STATE_TX_IDLE then Null_Pointer else Assert_Failed)"
  using assms
  by (auto simp: ascii_reset_def eMBASCIIInit_def eMBASCIIStart_def xMBPortSerialInit_def xMBPortTimersInit_def
      port_defs xMBASCIIReceiveFSM_def Let_def ascii_put_high_def ASCII_SIZE_MAX_def)

lemma ascii_without_buffer_example:
  "\<exists>m. eMBASCIIStart (fst (eMBASCIIInit STATE_RX_RCV STATE_TX_IDLE (ascii_reset 0) 1 1 9600 MB_PAR_NONE)) = Inr m \<and>
    feed xMBASCIIReceiveFSM m [0x3A, 0x30, 0x31] = Inl Null_Pointer"
  using ascii_without_buffer [of "0x30" STATE_RX_RCV STATE_TX_IDLE 0 1 1 9600 MB_PAR_NONE "[0x31]"]
  by (auto simp: ascii_consts)

end
