(* ===== verification/MB_Stack.thy ===== *)
theory MB_Stack
  imports MB_Func_Shape MB_RTU MB_ASCII
begin

text \<open>
  The stack's core (\<open>mb.c\<close>) and the service that runs it (\<open>modbus_service.c\<close>): the handle with
  the functions of the selected mode, the handler table, initialisation, enabling, disabling,
  and the poll function with its static variables. The two modes are two values of the record
  \<open>frame_layer\<close>; \<open>eMBInit\<close> gets the one its \<open>switch\<close> selects, or none for a mode that is not
  compiled in.
\<close>

subsection \<open>Frame layers\<close>

record ('r, 's) frame_layer =
  fl_Mode :: eMBMode
  fl_Init :: "('r, 's) eModbus \<Rightarrow> u8 \<Rightarrow> u8 \<Rightarrow> u32 \<Rightarrow> eMBParity \<Rightarrow> ('r, 's) eModbus \<times> eMBErrorCode"
  fl_Start :: "('r, 's) eModbus \<Rightarrow> ('r, 's) eModbus res"
  fl_Stop :: "('r, 's) eModbus \<Rightarrow> ('r, 's) eModbus res"
  fl_Send :: "('r, 's) eModbus \<Rightarrow> u8 \<Rightarrow> nat \<Rightarrow> u16 \<Rightarrow> (('r, 's) eModbus \<times> eMBErrorCode) res"
  fl_Receive :: "('r, 's) eModbus \<Rightarrow> ((u8 \<times> nat \<times> u16) option \<times> eMBErrorCode) res"
  fl_ByteReceived :: "('r, 's) eModbus \<Rightarrow> u8 \<Rightarrow> (('r, 's) eModbus \<times> bool) res"
  fl_TransmitterEmpty :: "('r, 's) eModbus \<Rightarrow> (('r, 's) eModbus \<times> bool) res"
  fl_TimerExpired :: "('r, 's) eModbus \<Rightarrow> (('r, 's) eModbus \<times> bool) res"
  fl_mem :: "('r, 's) eModbus \<Rightarrow> u8 list res"
  fl_put :: "u8 list \<Rightarrow> ('r, 's) eModbus \<Rightarrow> ('r, 's) eModbus"

definition rtu_layer :: "(MB_RTU.eMBRcvState, MB_RTU.eMBSndState) frame_layer" where
  "rtu_layer =
     \<lparr>fl_Mode = MB_RTU, fl_Init = eMBRTUInit, fl_Start = eMBRTUStart, fl_Stop = eMBRTUStop,
      fl_Send = eMBRTUSend, fl_Receive = eMBRTUReceive, fl_ByteReceived = xMBRTUReceiveFSM,
      fl_TransmitterEmpty = xMBRTUTransmitFSM, fl_TimerExpired = xMBRTUTimerT35Expired,
      fl_mem = (\<lambda>m. Inr (ucRTUBuf m)), fl_put = (\<lambda>b m. m\<lparr>ucRTUBuf := b\<rparr>)\<rparr>"

definition ascii_layer ::
  "ascii_RcvState \<Rightarrow> ascii_SndState \<Rightarrow> (ascii_RcvState, ascii_SndState) frame_layer" where
  "ascii_layer r0 s0 =
     \<lparr>fl_Mode = MB_ASCII, fl_Init = eMBASCIIInit r0 s0, fl_Start = eMBASCIIStart, fl_Stop = eMBASCIIStop,
      fl_Send = eMBASCIISend, fl_Receive = eMBASCIIReceive, fl_ByteReceived = xMBASCIIReceiveFSM,
      fl_TransmitterEmpty = xMBASCIITransmitFSM, fl_TimerExpired = xMBASCIITimerT1SExpired,
      fl_mem = (\<lambda>m. deref (ucASCIIBuf m)), fl_put = (\<lambda>b m. m\<lparr>ucASCIIBuf := Some b\<rparr>)\<rparr>"

subsection \<open>State of the stack\<close>

datatype eMBState = STATE_ENABLED | STATE_DISABLED | STATE_NOT_INITIALIZED

record ('r, 's) eModbus_Handle =
  h_layer :: "('r, 's) frame_layer"
  h_eMBState :: eMBState
  eMBCurrentMode :: eMBMode

text \<open>A pointer to a heap object: null, to a freed object, or to a live one.\<close>

datatype 'a hptr = Null | Freed | Live 'a

fun live :: "'a hptr \<Rightarrow> 'a res" where
  "live Null = Inl Null_Pointer"
| "live Freed = Inl Dangling_Pointer"
| "live (Live h) = Inr h"

datatype mb_handler = H_ReportSlaveID | H_ReadInputRegister | H_ReadHoldingRegister
  | H_WriteMultipleHoldingRegister | H_WriteHoldingRegister | H_ReadWriteMultipleHoldingRegister
  | H_ReadCoils | H_WriteCoil | H_WriteMultipleCoils | H_ReadDiscreteInputs

fun run_handler :: "mb_handler \<Rightarrow> mb_dev \<Rightarrow> u8 list \<Rightarrow> u16 \<Rightarrow> handler_result" where
  "run_handler H_ReportSlaveID = eMBFuncReportSlaveID"
| "run_handler H_ReadInputRegister = eMBFuncReadInputRegister"
| "run_handler H_ReadHoldingRegister = eMBFuncReadHoldingRegister"
| "run_handler H_WriteMultipleHoldingRegister = eMBFuncWriteMultipleHoldingRegister"
| "run_handler H_WriteHoldingRegister = eMBFuncWriteHoldingRegister"
| "run_handler H_ReadWriteMultipleHoldingRegister = eMBFuncReadWriteMultipleHoldingRegister"
| "run_handler H_ReadCoils = eMBFuncReadCoils"
| "run_handler H_WriteCoil = eMBFuncWriteCoil"
| "run_handler H_WriteMultipleCoils = eMBFuncWriteMultipleCoils"
| "run_handler H_ReadDiscreteInputs = eMBFuncReadDiscreteInputs"

type_synonym handler_table = "(u8 \<times> mb_handler option) list"

definition xFuncHandlers0 :: handler_table where
  "xFuncHandlers0 =
     [(MB_FUNC_OTHER_REPORT_SLAVEID, Some H_ReportSlaveID),
      (MB_FUNC_READ_INPUT_REGISTER, Some H_ReadInputRegister),
      (MB_FUNC_READ_HOLDING_REGISTER, Some H_ReadHoldingRegister),
      (MB_FUNC_WRITE_MULTIPLE_REGISTERS, Some H_WriteMultipleHoldingRegister),
      (MB_FUNC_WRITE_REGISTER, Some H_WriteHoldingRegister),
      (MB_FUNC_READWRITE_MULTIPLE_REGISTERS, Some H_ReadWriteMultipleHoldingRegister),
      (MB_FUNC_READ_COILS, Some H_ReadCoils),
      (MB_FUNC_WRITE_SINGLE_COIL, Some H_WriteCoil),
      (MB_FUNC_WRITE_MULTIPLE_COILS, Some H_WriteMultipleCoils),
      (MB_FUNC_READ_DISCRETE_INPUTS, Some H_ReadDiscreteInputs)]
     @ replicate (MB_FUNC_HANDLERS_MAX - 10) (0, None)"

record ('r, 's) mb_stack =
  st_modbus :: "('r, 's) eModbus"
  st_cb :: "('r, 's) frame_layer option"
  st_handle :: "('r, 's) eModbus_Handle hptr"
  st_dev :: mb_dev
  xFuncHandlers :: handler_table
  ucMBFrame :: "nat option"
  ucRcvAddress :: u8
  ucFunctionCode :: u8
  usLength :: u16
  eException :: eMBException

subsection \<open>Initialisation\<close>

text \<open>\<open>alloc\<close> tells whether the allocation of the handle succeeds.\<close>

definition eMBInit ::
  "bool \<Rightarrow> ('r, 's) frame_layer option \<Rightarrow> ('r, 's) mb_stack \<Rightarrow> u8 \<Rightarrow> u8 \<Rightarrow> u32 \<Rightarrow> eMBParity \<Rightarrow>
   ('r, 's) mb_stack \<times> eMBErrorCode" where
  "eMBInit alloc layer s ucSlaveAddress ucPort ulBaudRate eParity =
     (if \<not> alloc then (s, MB_EINVAL)
      else
        let m = (st_modbus s)\<lparr>config := (config (st_modbus s))
                    \<lparr>cfg_ucPort := ucPort, cfg_ulBaudRate := ulBaudRate, cfg_eParity := eParity\<rparr>\<rparr> in
        if ucSlaveAddress = MB_ADDRESS_BROADCAST \<or> ucSlaveAddress < MB_ADDRESS_MIN
           \<or> ucSlaveAddress > MB_ADDRESS_MAX
        then (s\<lparr>st_modbus := m, st_handle := Freed\<rparr>, MB_EINVAL)
        else
          let m1 = m\<lparr>config := (config m)\<lparr>cfg_ucMBAddress := ucSlaveAddress\<rparr>\<rparr> in
          case layer of
            None \<Rightarrow> (s\<lparr>st_modbus := m1, st_handle := Freed\<rparr>, MB_EINVAL)
          | Some l \<Rightarrow>
              (let (m2, eStatus) = fl_Init l m1 (cfg_ucMBAddress (config m1)) (cfg_ucPort (config m1))
                                     (cfg_ulBaudRate (config m1)) (cfg_eParity (config m1));
                   s1 = s\<lparr>st_cb := Some l\<rparr> in
               if eStatus \<noteq> MB_ENOERR then (s1\<lparr>st_modbus := m2, st_handle := Freed\<rparr>, eStatus)
               else
                 let (m3, ok) = xMBPortEventInit m2 in
                 if \<not> ok then (s1\<lparr>st_modbus := m3, st_handle := Freed\<rparr>, MB_EPORTERR)
                 else (s1\<lparr>st_modbus := m3,
                          st_handle := Live \<lparr>h_layer = l, h_eMBState = STATE_DISABLED,
                                             eMBCurrentMode = fl_Mode l\<rparr>\<rparr>, MB_ENOERR)))"

subsection \<open>Registering handlers\<close>

fun table_place :: "handler_table \<Rightarrow> u8 \<Rightarrow> mb_handler \<Rightarrow> handler_table option" where
  "table_place [] code p = None"
| "table_place ((c, h) # t) code p =
     (if h = None \<or> h = Some p then Some ((code, Some p) # t)
      else map_option (\<lambda>t'. (c, h) # t') (table_place t code p))"

fun table_clear :: "handler_table \<Rightarrow> u8 \<Rightarrow> handler_table" where
  "table_clear [] code = []"
| "table_clear ((c, h) # t) code =
     (if c = code then (0, None) # t else (c, h) # table_clear t code)"

definition eMBRegisterCB ::
  "('r, 's) mb_stack \<Rightarrow> u8 \<Rightarrow> mb_handler option \<Rightarrow> ('r, 's) mb_stack \<times> eMBErrorCode" where
  "eMBRegisterCB s code pxHandler =
     (if 0 < code \<and> code \<le> 127 then
        (case pxHandler of
           Some p \<Rightarrow>
             (case table_place (xFuncHandlers s) code p of
                Some t \<Rightarrow> (s\<lparr>xFuncHandlers := t\<rparr>, MB_ENOERR)
              | None \<Rightarrow> (s, MB_ENORES))
         | None \<Rightarrow> (s\<lparr>xFuncHandlers := table_clear (xFuncHandlers s) code\<rparr>, MB_ENOERR))
      else (s, MB_EINVAL))"

subsection \<open>Starting and stopping\<close>

text \<open>No mode has a close function (\<open>MB_PORT_HAS_CLOSE\<close> is zero).\<close>

definition eMBClose :: "('r, 's) mb_stack \<Rightarrow> (('r, 's) mb_stack \<times> eMBErrorCode) res" where
  "eMBClose s =
     bindR (live (st_handle s)) (\<lambda>h.
     Inr (s, if h_eMBState h = STATE_DISABLED then MB_ENOERR else MB_EILLSTATE))"

definition eMBEnable :: "('r, 's) mb_stack \<Rightarrow> (('r, 's) mb_stack \<times> eMBErrorCode) res" where
  "eMBEnable s =
     bindR (live (st_handle s)) (\<lambda>h.
     if h_eMBState h = STATE_DISABLED then
       bindR (fl_Start (h_layer h) (st_modbus s)) (\<lambda>m.
       Inr (s\<lparr>st_modbus := m, st_handle := Live (h\<lparr>h_eMBState := STATE_ENABLED\<rparr>)\<rparr>, MB_ENOERR))
     else Inr (s, MB_EILLSTATE))"

definition eMBDisable :: "('r, 's) mb_stack \<Rightarrow> (('r, 's) mb_stack \<times> eMBErrorCode) res" where
  "eMBDisable s =
     bindR (live (st_handle s)) (\<lambda>h.
     if h_eMBState h = STATE_ENABLED then
       bindR (fl_Stop (h_layer h) (st_modbus s)) (\<lambda>m.
       Inr (s\<lparr>st_modbus := m, st_handle := Live (h\<lparr>h_eMBState := STATE_DISABLED\<rparr>)\<rparr>, MB_ENOERR))
     else if h_eMBState h = STATE_DISABLED then Inr (s, MB_ENOERR)
     else Inr (s, MB_EILLSTATE))"

subsection \<open>The poll function\<close>

text \<open>The search through the table stops at the first free entry.\<close>

fun table_lookup :: "handler_table \<Rightarrow> u8 \<Rightarrow> mb_handler option option" where
  "table_lookup [] code = None"
| "table_lookup ((c, h) # t) code =
     (if c = 0 then None else if c = code then Some h else table_lookup t code)"

text \<open>A handler works on the memory from the frame pointer on.\<close>

definition call_handler ::
  "mb_handler \<Rightarrow> mb_dev \<Rightarrow> u8 list \<Rightarrow> nat \<Rightarrow> u16 \<Rightarrow> (mb_dev \<times> u8 list \<times> u16 \<times> eMBException) res" where
  "call_handler h dev mem p len =
     bindR (run_handler h dev (drop p mem) len) (\<lambda>(dev', f, len', e). Inr (dev', take p mem @ f, len', e))"

definition poll_received :: "('r, 's) eModbus_Handle \<Rightarrow> ('r, 's) mb_stack \<Rightarrow> ('r, 's) mb_stack res" where
  "poll_received h s =
     bindR (fl_Receive (h_layer h) (st_modbus s)) (\<lambda>(r, eStatus).
     case r of
       None \<Rightarrow> Inr s
     | Some (addr, p, len) \<Rightarrow>
         (let s1 = s\<lparr>ucRcvAddress := addr, ucMBFrame := Some p, usLength := len\<rparr> in
          if eStatus = MB_ENOERR \<and>
             (addr = cfg_ucMBAddress (config (st_modbus s)) \<or> addr = MB_ADDRESS_BROADCAST)
          then Inr (s1\<lparr>st_modbus := fst (xMBPortEventPost (st_modbus s1) EV_EXECUTE)\<rparr>)
          else Inr s1))"

definition poll_dispatch :: "handler_table \<Rightarrow> u8 \<Rightarrow> mb_dev \<Rightarrow> u8 list \<Rightarrow> nat \<Rightarrow> u16 \<Rightarrow>
    (mb_dev \<times> u8 list \<times> u16 \<times> eMBException) res" where
  "poll_dispatch table code dev mem p len =
     (case table_lookup table code of
        None \<Rightarrow> Inr (dev, mem, len, MB_EX_ILLEGAL_FUNCTION)
      | Some None \<Rightarrow> Inl Null_Pointer
      | Some (Some fn) \<Rightarrow> call_handler fn dev mem p len)"

definition poll_execute :: "('r, 's) eModbus_Handle \<Rightarrow> ('r, 's) mb_stack \<Rightarrow> ('r, 's) mb_stack res" where
  "poll_execute h s =
     (let l = h_layer h; m = st_modbus s in
      bindR (deref (ucMBFrame s)) (\<lambda>p.
      bindR (fl_mem l m) (\<lambda>mem.
      bindR (rd mem (p + MB_PDU_FUNC_OFF)) (\<lambda>code.
      bindR (poll_dispatch (xFuncHandlers s) code (st_dev s) mem p (usLength s)) (\<lambda>(dev, mem1, len, e).
      let s1 = s\<lparr>ucFunctionCode := code, st_dev := dev, eException := e\<rparr> in
      if ucRcvAddress s \<noteq> MB_ADDRESS_BROADCAST then
        bindR (if e \<noteq> MB_EX_NONE then
                 bindR (wr mem1 p (code OR MB_FUNC_ERROR)) (\<lambda>b1.
                 bindR (wr b1 (p + 1) (exception_code e)) (\<lambda>b2. Inr (b2, 2)))
               else Inr (mem1, len)) (\<lambda>(mem2, len2).
        bindR (fl_Send l (fl_put l mem2 m) (cfg_ucMBAddress (config m)) p len2) (\<lambda>(m', eStatus).
        Inr (s1\<lparr>st_modbus := m', usLength := len2\<rparr>)))
      else Inr (s1\<lparr>st_modbus := fl_put l mem1 m, usLength := len\<rparr>))))))"

definition eMBPoll :: "('r, 's) mb_stack \<Rightarrow> (('r, 's) mb_stack \<times> eMBErrorCode) res" where
  "eMBPoll s =
     bindR (live (st_handle s)) (\<lambda>h.
     if h_eMBState h \<noteq> STATE_ENABLED then Inr (s, MB_EILLSTATE)
     else
       let (m, ev) = xMBPortEventGet (st_modbus s); s0 = s\<lparr>st_modbus := m\<rparr> in
       bindR (case ev of
                None \<Rightarrow> Inr s0
              | Some EV_READY \<Rightarrow> Inr s0
              | Some EV_FRAME_RECEIVED \<Rightarrow> poll_received h s0
              | Some EV_EXECUTE \<Rightarrow> poll_execute h s0
              | Some EV_FRAME_SENT \<Rightarrow> Inr s0) (\<lambda>s'. Inr (s', MB_ENOERR)))"

subsection \<open>The service\<close>

text \<open>
  \<open>mb_uart_rx_task\<close> runs the installed receiver once per byte that the UART queue held;
  the timer and transmitter callbacks go the same way.
\<close>

definition vMBPortSerialPoll :: "('r, 's) mb_stack \<Rightarrow> u8 list \<Rightarrow> ('r, 's) mb_stack res" where
  "vMBPortSerialPoll s bytes =
     (case st_cb s of
        None \<Rightarrow> Inr s
      | Some l \<Rightarrow> bindR (feed (fl_ByteReceived l) (st_modbus s) bytes) (\<lambda>m. Inr (s\<lparr>st_modbus := m\<rparr>)))"

definition mb_timer0_callback :: "('r, 's) mb_stack \<Rightarrow> ('r, 's) mb_stack res" where
  "mb_timer0_callback s =
     (case st_cb s of
        None \<Rightarrow> Inr s
      | Some l \<Rightarrow> bindR (fl_TimerExpired l (st_modbus s)) (\<lambda>(m, need). Inr (s\<lparr>st_modbus := m\<rparr>)))"

definition mb_uart_tx_task :: "('r, 's) mb_stack \<Rightarrow> ('r, 's) mb_stack res" where
  "mb_uart_tx_task s =
     (case st_cb s of
        None \<Rightarrow> Inr s
      | Some l \<Rightarrow> bindR (fl_TransmitterEmpty l (st_modbus s)) (\<lambda>(m, need). Inr (s\<lparr>st_modbus := m\<rparr>)))"

definition MODBUS_SLAVE_ADDRESS :: u8 where "MODBUS_SLAVE_ADDRESS = 1"
definition MODBUS_BAUD_RATE :: u32 where "MODBUS_BAUD_RATE = 115200"

type_synonym rtu_stack = "(MB_RTU.eMBRcvState, MB_RTU.eMBSndState) mb_stack"

definition rtu_stack_reset :: "u32 \<Rightarrow> rtu_stack" where
  "rtu_stack_reset a =
     \<lparr>st_modbus = rtu_reset a, st_cb = None, st_handle = Null, st_dev = mb_dev_reset,
      xFuncHandlers = xFuncHandlers0, ucMBFrame = None, ucRcvAddress = 0, ucFunctionCode = 0,
      usLength = 0, eException = MB_EX_NONE\<rparr>"

definition modbus_service_init :: "bool \<Rightarrow> rtu_stack \<Rightarrow> rtu_stack res" where
  "modbus_service_init alloc s =
     (let (s1, st) = eMBInit alloc (Some rtu_layer) s MODBUS_SLAVE_ADDRESS BSP_RS485 MODBUS_BAUD_RATE MB_PAR_NONE in
      bindR (eMBEnable s1) (\<lambda>(s2, st2). Inr s2))"

text \<open>One round of \<open>modbus_task\<close>; \<open>bytes\<close> is what the UART queue holds in that round.\<close>

definition modbus_task_round :: "('r, 's) mb_stack \<Rightarrow> u8 list \<Rightarrow> ('r, 's) mb_stack res" where
  "modbus_task_round s bytes =
     bindR (eMBPoll s) (\<lambda>(s1, st). vMBPortSerialPoll s1 bytes)"

fun task_rounds :: "('r, 's) mb_stack \<Rightarrow> u8 list list \<Rightarrow> ('r, 's) mb_stack res" where
  "task_rounds s [] = Inr s"
| "task_rounds s (c # cs) = bindR (modbus_task_round s c) (\<lambda>s'. task_rounds s' cs)"

section \<open>What the stack answers\<close>

text \<open>
  The answer to a request as a function of the device and the frame memory: the response of the
  handler for the function code, or the two bytes of an exception. It is undefined where the
  handler faults.
\<close>

definition exception_pdu :: "u8 \<Rightarrow> eMBException \<Rightarrow> u8 list" where
  "exception_pdu code e = [code OR MB_FUNC_ERROR, exception_code e]"

definition serve :: "handler_table \<Rightarrow> mb_dev \<Rightarrow> u8 list \<Rightarrow> u16 \<Rightarrow> (mb_dev \<times> u8 list) option" where
  "serve table dev f len =
     (case table_lookup table (f ! 0) of
        None \<Rightarrow> Some (dev, exception_pdu (f ! 0) MB_EX_ILLEGAL_FUNCTION)
      | Some None \<Rightarrow> None
      | Some (Some h) \<Rightarrow>
          (case reply (run_handler h dev f len) of
             None \<Rightarrow> None
           | Some (dev', rsp, e) \<Rightarrow>
               Some (dev', if e = MB_EX_NONE then rsp else exception_pdu (f ! 0) e)))"

definition stack_ready :: "u8 \<Rightarrow> rtu_stack \<Rightarrow> bool" where
  "stack_ready addr s \<longleftrightarrow>
     st_handle s = Live \<lparr>h_layer = rtu_layer, h_eMBState = STATE_ENABLED, eMBCurrentMode = MB_RTU\<rparr> \<and>
     st_cb s = Some rtu_layer \<and> mb_dev_inv (st_dev s) \<and> rtu_safe (st_modbus s) \<and>
     cfg_ucMBAddress (config (st_modbus s)) = addr \<and> addr \<noteq> MB_ADDRESS_BROADCAST"

lemma run_handler_shape:
  "mb_dev_inv dev \<Longrightarrow> unat len \<le> 253 \<Longrightarrow> handler_shape dev f (run_handler h dev f len)"
  by (cases h)
     (simp_all add: shape_read_holding shape_read_input shape_write_single shape_write_multiple
       shape_readwrite shape_read_coils shape_write_coil shape_write_coils shape_read_discrete shape_slave_id)

lemma list_two: "2 \<le> length xs \<Longrightarrow> \<exists>x y zs. xs = x # y # zs"
  by (cases xs; cases "tl xs") auto

lemma execute_answer:
  assumes "length mem = 256" and "mb_dev_inv dev" and "unat n \<le> 253"
    and "serve table dev (drop 1 mem) n = Some (dev', rsp)"
  shows "\<exists>mem1 n1 e mem2 n2. poll_dispatch table (mem ! 1) dev mem 1 n = Inr (dev', mem1, n1, e) \<and>
    (if e \<noteq> MB_EX_NONE then
       bindR (wr mem1 1 ((mem ! 1) OR MB_FUNC_ERROR)) (\<lambda>b1.
       bindR (wr b1 (1 + 1) (exception_code e)) (\<lambda>b2. Inr (b2, 2)))
     else Inr (mem1, n1)) = Inr (mem2, n2) \<and>
    length mem1 = 256 \<and> length mem2 = 256 \<and> unat n2 \<le> 253 \<and> unat n2 = length rsp \<and>
    window 1 (unat n2) mem2 = rsp \<and> mb_dev_inv dev'"
proof -
  obtain x y w where w: "mem = x # y # w" "length w = 254" using list_two [of mem] assms(1) by auto
  then obtain z v' ws' where "w = z # v' # ws'" using list_two [of w] by auto
  with w obtain ws where mem: "mem = x # y # z # ws" "length ws = 253" by auto
  show ?thesis
  proof (cases "table_lookup table y")
    case None
    then show ?thesis using assms mem
      by (auto simp: serve_def poll_dispatch_def window_def exception_pdu_def)
  next
    case (Some ho)
    with assms(4) mem obtain h where h: "table_lookup table y = Some (Some h)"
      by (cases ho) (auto simp: serve_def)
    with assms(4) mem obtain dv f' n' e where r: "run_handler h dev (y # z # ws) n = Inr (dv, f', n', e)"
      by (cases "run_handler h dev (y # z # ws) n") (auto simp: serve_def)
    have sh: "length f' = 255" "unat n' \<le> 253" "mb_dev_inv dv"
      using run_handler_shape [OF assms(2,3), of "y # z # ws" h] assms(2) mem(2)
      by (auto simp: handler_shape_def r)
    obtain u v us where f': "f' = u # v # us" "length us = 253" using list_two [of f'] sh(1) by auto
    have d: "poll_dispatch table (mem ! 1) dev mem 1 n = Inr (dv, x # f', n', e)"
      using mem h r by (simp add: poll_dispatch_def call_handler_def)
    have rsp: "dv = dev'" "rsp = (if e = MB_EX_NONE then take (unat n') f' else exception_pdu y e)"
      using assms(4) h r mem by (auto simp: serve_def)
    show ?thesis
    proof (cases "e = MB_EX_NONE")
      case True
      then show ?thesis using d rsp sh by (simp add: window_def)
    next
      case False
      then show ?thesis using d rsp sh mem f' by (simp add: window_def exception_pdu_def)
    qed
  qed
qed

lemma fl_rtu [simp]:
  "fl_Init rtu_layer = eMBRTUInit" "fl_Start rtu_layer = eMBRTUStart" "fl_Stop rtu_layer = eMBRTUStop"
  "fl_Send rtu_layer = eMBRTUSend" "fl_Receive rtu_layer = eMBRTUReceive"
  "fl_ByteReceived rtu_layer = xMBRTUReceiveFSM" "fl_TransmitterEmpty rtu_layer = xMBRTUTransmitFSM"
  "fl_TimerExpired rtu_layer = xMBRTUTimerT35Expired" "fl_mem rtu_layer m = Inr (ucRTUBuf m)"
  "fl_put rtu_layer b m = m\<lparr>ucRTUBuf := b\<rparr>" "fl_Mode rtu_layer = MB_RTU"
  by (simp_all add: rtu_layer_def)

text \<open>Taking a frame: it is kept for execution only if it is addressed to this slave or to all.\<close>

lemma poll_takes_frame:
  assumes "stack_ready addr s" and "xEventInQueue (st_modbus s)"
    and "eQueuedEvent (st_modbus s) = EV_FRAME_RECEIVED"
    and "rtu_verdict (rtu_frame (st_modbus s)) = Inr (Some (a, p, n), MB_ENOERR)"
  shows "eMBPoll s = Inr (s\<lparr>ucRcvAddress := a, ucMBFrame := Some p, usLength := n,
    st_modbus := (if a = addr \<or> a = MB_ADDRESS_BROADCAST
                  then (st_modbus s)\<lparr>xEventInQueue := True, eQueuedEvent := EV_EXECUTE\<rparr>
                  else (st_modbus s)\<lparr>xEventInQueue := False\<rparr>)\<rparr>, MB_ENOERR)"
proof -
  let ?m = "(st_modbus s)\<lparr>xEventInQueue := False\<rparr>"
  have "rtu_buf_ok ?m" using assms(1) by (simp add: stack_ready_def rtu_safe_def rtu_buf_ok_def)
  then have "eMBRTUReceive ?m = Inr (Some (a, p, n), MB_ENOERR)"
    using receive_verdict [of ?m] assms(4) by (simp add: rtu_frame_def)
  then show ?thesis using assms(1-3)
    by (auto simp: eMBPoll_def stack_ready_def xMBPortEventGet_def poll_received_def xMBPortEventPost_def)
qed

lemma stack_ready_modbus:
  assumes "stack_ready addr s" and "rtu_safe m" and "config m = config (st_modbus s)"
    and "st_handle s' = st_handle s" "st_cb s' = st_cb s" "mb_dev_inv (st_dev s')" "st_modbus s' = m"
  shows "stack_ready addr s'"
  using assms by (simp add: stack_ready_def)

lemma poll_answers:
  assumes "stack_ready addr s" and "xEventInQueue (st_modbus s)"
    and "eQueuedEvent (st_modbus s) = EV_EXECUTE" and "RcvState (st_modbus s) = Some MB_RTU.STATE_RX_IDLE"
    and "ucMBFrame s = Some 1" and "ucRcvAddress s \<noteq> MB_ADDRESS_BROADCAST" and "unat (usLength s) \<le> 253"
    and "serve (xFuncHandlers s) (st_dev s) (drop 1 (ucRTUBuf (st_modbus s))) (usLength s) = Some (dev', rsp)"
  shows "\<exists>s'. eMBPoll s = Inr (s', MB_ENOERR) \<and> stack_ready addr s' \<and> st_dev s' = dev' \<and>
    xFuncHandlers s' = xFuncHandlers s \<and> SndState (st_modbus s') = Some MB_RTU.STATE_TX_XMIT \<and>
    \<not> xEventInQueue (st_modbus s') \<and> length rsp \<le> 253 \<and>
    take (length rsp + 3) (ucRTUBuf (st_modbus s')) = rtu_adu addr rsp"
proof -
  let ?m = "(st_modbus s)\<lparr>xEventInQueue := False\<rparr>" and ?buf = "ucRTUBuf (st_modbus s)"
  have l: "length ?buf = 256" and inv: "mb_dev_inv (st_dev s)" and safe: "rtu_safe (st_modbus s)"
    and h: "st_handle s = Live \<lparr>h_layer = rtu_layer, h_eMBState = STATE_ENABLED, eMBCurrentMode = MB_RTU\<rparr>"
    and a: "cfg_ucMBAddress (config (st_modbus s)) = addr"
    using assms(1) by (auto simp: stack_ready_def rtu_safe_def rtu_buf_ok_def)
  obtain mem1 n1 e mem2 n2 where
    d: "poll_dispatch (xFuncHandlers s) (?buf ! 1) (st_dev s) ?buf 1 (usLength s) = Inr (dev', mem1, n1, e)"
    and x: "(if e \<noteq> MB_EX_NONE then
        bindR (wr mem1 1 ((?buf ! 1) OR MB_FUNC_ERROR)) (\<lambda>b1.
        bindR (wr b1 (1 + 1) (exception_code e)) (\<lambda>b2. Inr (b2, 2)))
      else Inr (mem1, n1)) = Inr (mem2, n2)"
    and s: "length mem2 = 256" "unat n2 \<le> 253" "unat n2 = length rsp" "window 1 (unat n2) mem2 = rsp" "mb_dev_inv dev'"
    using execute_answer [OF l inv assms(7,8)] by blast
  let ?m2 = "?m\<lparr>ucRTUBuf := mem2\<rparr>"
  have safe2: "rtu_safe ?m2" using safe s(1) by (simp add: rtu_safe_def rtu_buf_ok_def)
  then have ok2: "rtu_buf_ok ?m2" by (simp add: rtu_safe_def)
  have "RcvState ?m2 = Some MB_RTU.STATE_RX_IDLE" using assms(4) by simp
  from send_frame [OF ok2 this s(2), of addr] obtain m' where
    m': "eMBRTUSend ?m2 addr 1 n2 = Inr (m', MB_ENOERR)" "SndState m' = Some MB_RTU.STATE_TX_XMIT"
    "config m' = config (st_modbus s)" "\<not> xEventInQueue m'" "take (length rsp + 3) (ucRTUBuf m') = rtu_adu addr rsp"
    using s(3,4) by auto
  have safe': "rtu_safe m'" by (rule safe_send [OF safe2 s(2) m'(1)])
  let ?s' = "s\<lparr>ucFunctionCode := ?buf ! 1, st_dev := dev', eException := e, st_modbus := m', usLength := n2\<rparr>"
  have "poll_execute \<lparr>h_layer = rtu_layer, h_eMBState = STATE_ENABLED, eMBCurrentMode = MB_RTU\<rparr>
      (s\<lparr>st_modbus := ?m\<rparr>) = Inr ?s'"
    using d x m'(1) a assms(5,6) l
    by (cases "e = MB_EX_NONE") (auto simp: poll_execute_def MB_PDU_FUNC_OFF_def res_simps)
  then have "eMBPoll s = Inr (?s', MB_ENOERR)"
    using assms(2,3) h by (simp add: eMBPoll_def xMBPortEventGet_def)
  moreover have "stack_ready addr ?s'"
    using assms(1) safe' m'(3) s(5) by (simp add: stack_ready_def)
  ultimately show ?thesis using m' s(2,3) by auto
qed

text \<open>A broadcast is carried out and leaves the line alone.\<close>

lemma poll_broadcast:
  assumes "stack_ready addr s" and "xEventInQueue (st_modbus s)"
    and "eQueuedEvent (st_modbus s) = EV_EXECUTE"
    and "ucMBFrame s = Some 1" and "ucRcvAddress s = MB_ADDRESS_BROADCAST" and "unat (usLength s) \<le> 253"
    and "serve (xFuncHandlers s) (st_dev s) (drop 1 (ucRTUBuf (st_modbus s))) (usLength s) = Some (dev', rsp)"
  shows "\<exists>s' mem. eMBPoll s = Inr (s', MB_ENOERR) \<and> stack_ready addr s' \<and> st_dev s' = dev' \<and>
    st_modbus s' = (st_modbus s)\<lparr>xEventInQueue := False, ucRTUBuf := mem\<rparr>"
proof -
  let ?m = "(st_modbus s)\<lparr>xEventInQueue := False\<rparr>" and ?buf = "ucRTUBuf (st_modbus s)"
  have l: "length ?buf = 256" and inv: "mb_dev_inv (st_dev s)" and safe: "rtu_safe (st_modbus s)"
    and h: "st_handle s = Live \<lparr>h_layer = rtu_layer, h_eMBState = STATE_ENABLED, eMBCurrentMode = MB_RTU\<rparr>"
    using assms(1) by (auto simp: stack_ready_def rtu_safe_def rtu_buf_ok_def)
  obtain mem1 n1 e where
    d: "poll_dispatch (xFuncHandlers s) (?buf ! 1) (st_dev s) ?buf 1 (usLength s) = Inr (dev', mem1, n1, e)"
    and s: "length mem1 = 256" "mb_dev_inv dev'"
    using execute_answer [OF l inv assms(6,7)] by blast
  let ?s' = "s\<lparr>ucFunctionCode := ?buf ! 1, st_dev := dev', eException := e,
    st_modbus := ?m\<lparr>ucRTUBuf := mem1\<rparr>, usLength := n1\<rparr>"
  have "poll_execute \<lparr>h_layer = rtu_layer, h_eMBState = STATE_ENABLED, eMBCurrentMode = MB_RTU\<rparr>
      (s\<lparr>st_modbus := ?m\<rparr>) = Inr ?s'"
    using d assms(4,5) l by (simp add: poll_execute_def MB_PDU_FUNC_OFF_def)
  then have "eMBPoll s = Inr (?s', MB_ENOERR)"
    using assms(2,3) h by (simp add: eMBPoll_def xMBPortEventGet_def)
  moreover have "stack_ready addr ?s'"
    using assms(1) s by (simp add: stack_ready_def rtu_safe_def rtu_buf_ok_def)
  ultimately show ?thesis by auto
qed

text \<open>Rounds of the task in which only characters arrive.\<close>

lemma receive_event:
  "xMBRTUReceiveFSM m b = Inr (m', need) \<Longrightarrow> xEventInQueue m' = xEventInQueue m \<and> config m' = config m"
  by (cases "RcvState m")
     (auto simp: xMBRTUReceiveFSM_def res_simps frame_simps split: MB_RTU.eMBRcvState.splits if_splits)

lemma feed_event:
  "feed xMBRTUReceiveFSM m bs = Inr m' \<Longrightarrow> xEventInQueue m' = xEventInQueue m \<and> config m' = config m"
  by (induction bs arbitrary: m) (auto simp: res_simps dest: receive_event)

lemma poll_no_event:
  "stack_ready addr s \<Longrightarrow> \<not> xEventInQueue (st_modbus s) \<Longrightarrow> eMBPoll s = Inr (s, MB_ENOERR)"
  by (simp add: eMBPoll_def stack_ready_def xMBPortEventGet_def)

lemma safe_feed: "rtu_safe m \<Longrightarrow> feed xMBRTUReceiveFSM m bs = Inr m' \<Longrightarrow> rtu_safe m'"
  by (induction bs arbitrary: m) (auto simp: res_simps dest: safe_byte)

lemma rounds_receive:
  assumes "stack_ready addr s" and "\<not> xEventInQueue (st_modbus s)"
    and "feed xMBRTUReceiveFSM (st_modbus s) (concat cs) = Inr m"
  shows "task_rounds s cs = Inr (s\<lparr>st_modbus := m\<rparr>)"
  using assms
proof (induction cs arbitrary: s)
  case (Cons c cs)
  then obtain m1 where m1: "feed xMBRTUReceiveFSM (st_modbus s) c = Inr m1"
    "feed xMBRTUReceiveFSM m1 (concat cs) = Inr m" by (auto simp: feed_append res_simps)
  have c: "config m1 = config (st_modbus s)" using feed_event [OF m1(1)] by simp
  let ?s = "s\<lparr>st_modbus := m1\<rparr>"
  have "stack_ready addr ?s"
    using Cons.prems(1) c safe_feed [OF _ m1(1)] by (simp add: stack_ready_def)
  moreover have "modbus_task_round s c = Inr ?s"
    using poll_no_event [OF Cons.prems(1,2)] m1(1) Cons.prems(1)
    by (simp add: modbus_task_round_def vMBPortSerialPoll_def stack_ready_def)
  ultimately show ?case
    using Cons.IH [of ?s] m1(2) Cons.prems(2) feed_event [OF m1(1)] by simp
qed simp

definition quiet :: "rtu_stack \<Rightarrow> bool" where
  "quiet s \<longleftrightarrow> RcvState (st_modbus s) = Some MB_RTU.STATE_RX_IDLE \<and>
     SndState (st_modbus s) = Some MB_RTU.STATE_TX_IDLE \<and> \<not> xEventInQueue (st_modbus s)"

text \<open>A whole frame arrives, in any pieces, and the frame timer runs out.\<close>

lemma frame_arrives:
  assumes "stack_ready addr s" and "quiet s" and "concat cs = bs" and "bs \<noteq> []" and "length bs \<le> 256"
  shows "\<exists>s1 m. task_rounds s cs = Inr s1 \<and> mb_timer0_callback s1 = Inr (s\<lparr>st_modbus := m\<rparr>) \<and>
    stack_ready addr (s\<lparr>st_modbus := m\<rparr>) \<and> RcvState m = Some MB_RTU.STATE_RX_IDLE \<and>
    SndState m = Some MB_RTU.STATE_TX_IDLE \<and> xEventInQueue m \<and> eQueuedEvent m = EV_FRAME_RECEIVED \<and>
    wire m = wire (st_modbus s) \<and> config m = config (st_modbus s) \<and> rtu_frame m = bs"
proof -
  have safe: "rtu_safe (st_modbus s)" using assms(1) by (simp add: stack_ready_def)
  then have ok: "rtu_buf_ok (st_modbus s)" by (simp add: rtu_safe_def)
  obtain m1 where m1: "feed xMBRTUReceiveFSM (st_modbus s) (bs) = Inr m1" "rtu_buf_ok m1"
    "rx_same (st_modbus s) m1" "RcvState m1 = Some MB_RTU.STATE_RX_RCV" "rtu_frame m1 = bs"
    using feed_idle [OF ok _ _ assms(4)] assms(2,5) by (auto simp: quiet_def)
  have r: "task_rounds s cs = Inr (s\<lparr>st_modbus := m1\<rparr>)"
    using rounds_receive [OF assms(1)] assms(2,3) m1(1) by (simp add: quiet_def)
  let ?m = "(vMBPortTimersDisable (m1\<lparr>xEventInQueue := True, eQueuedEvent := EV_FRAME_RECEIVED\<rparr>))
    \<lparr>RcvState := Some MB_RTU.STATE_RX_IDLE\<rparr>"
  have t: "xMBRTUTimerT35Expired m1 = Inr (?m, True)"
    using m1(4) by (simp add: xMBRTUTimerT35Expired_def xMBPortEventPost_def)
  have "rtu_safe ?m" using safe_t35 [OF safe_feed [OF safe m1(1)] t] .
  moreover have "mb_timer0_callback (s\<lparr>st_modbus := m1\<rparr>) = Inr (s\<lparr>st_modbus := ?m\<rparr>)"
    using assms(1) t by (simp add: mb_timer0_callback_def stack_ready_def)
  ultimately show ?thesis
    using r assms(1,2) m1(3,5)
    by (intro exI [of _ "s\<lparr>st_modbus := m1\<rparr>"] exI [of _ ?m])
       (simp add: stack_ready_def rx_same_def quiet_def rtu_frame_def frame_simps)
qed

lemma two_rounds:
  assumes "eMBPoll s = Inr (sa, e)" and "eMBPoll sa = Inr (sb, e')"
    and "st_cb sa = Some l" and "st_cb sb = Some l"
  shows "task_rounds s [[], []] = Inr sb"
  using assms by (simp add: modbus_task_round_def vMBPortSerialPoll_def)

lemma request_taken:
  assumes "stack_ready addr s" and "quiet s" and "concat cs = rtu_adu a pdu"
    and "1 \<le> length pdu" and "length pdu \<le> 252" and "a = addr \<or> a = MB_ADDRESS_BROADCAST"
    and "\<And>f. length f = 255 \<Longrightarrow> take (length pdu) f = pdu \<Longrightarrow>
      serve (xFuncHandlers s) (st_dev s) f (word_of_nat (length pdu)) = Some (dev', rsp)"
  shows "\<exists>s1 s2 sx. task_rounds s cs = Inr s1 \<and> mb_timer0_callback s1 = Inr s2 \<and>
    eMBPoll s2 = Inr (sx, MB_ENOERR) \<and> stack_ready addr sx \<and> xEventInQueue (st_modbus sx) \<and>
    eQueuedEvent (st_modbus sx) = EV_EXECUTE \<and> RcvState (st_modbus sx) = Some MB_RTU.STATE_RX_IDLE \<and>
    SndState (st_modbus sx) = Some MB_RTU.STATE_TX_IDLE \<and> wire (st_modbus sx) = wire (st_modbus s) \<and>
    ucMBFrame sx = Some 1 \<and> ucRcvAddress sx = a \<and> unat (usLength sx) \<le> 253 \<and>
    serve (xFuncHandlers sx) (st_dev sx) (drop 1 (ucRTUBuf (st_modbus sx))) (usLength sx) = Some (dev', rsp)"
proof -
  obtain s1 m where m: "task_rounds s cs = Inr s1" "mb_timer0_callback s1 = Inr (s\<lparr>st_modbus := m\<rparr>)"
    "stack_ready addr (s\<lparr>st_modbus := m\<rparr>)" "RcvState m = Some MB_RTU.STATE_RX_IDLE"
    "SndState m = Some MB_RTU.STATE_TX_IDLE" "wire m = wire (st_modbus s)"
    "xEventInQueue m" "eQueuedEvent m = EV_FRAME_RECEIVED" "rtu_frame m = rtu_adu a pdu"
    using frame_arrives [OF assms(1-3)] assms(5) by (auto simp: rtu_adu_def)
  let ?n = "word_of_nat (length pdu) :: u16"
  let ?s = "s\<lparr>st_modbus := m\<lparr>xEventInQueue := True, eQueuedEvent := EV_EXECUTE\<rparr>,
    ucRcvAddress := a, ucMBFrame := Some 1, usLength := ?n\<rparr>"
  have v: "rtu_verdict (rtu_frame m) = Inr (Some (a, 1, ?n), MB_ENOERR)"
    unfolding m(9) by (rule rtu_adu_verdict [OF assms(4,5)])
  have p: "eMBPoll (s\<lparr>st_modbus := m\<rparr>) = Inr (?s, MB_ENOERR)"
    using poll_takes_frame [OF m(3), of a 1 ?n] m(7,8) v assms(6) by simp
  have r: "stack_ready addr ?s"
    using m(3) by (simp add: stack_ready_def rtu_safe_def rtu_buf_ok_def)
  have l: "length (ucRTUBuf m) = 256" using m(3) by (simp add: stack_ready_def rtu_safe_def rtu_buf_ok_def)
  have "take (length pdu) (drop 1 (ucRTUBuf m)) = take (length pdu) (drop 1 (rtu_frame m))"
    using arg_cong [OF m(9), of length] by (simp add: rtu_frame_def drop_take)
  also have "\<dots> = pdu" by (simp add: m(9) rtu_adu_def)
  finally have "serve (xFuncHandlers s) (st_dev s) (drop 1 (ucRTUBuf m)) ?n = Some (dev', rsp)"
    using assms(7) l by simp
  moreover have "unat ?n \<le> 253" using assms(5) by (simp add: unat_of_nat)
  ultimately show ?thesis using m(1,2,4-6) p r
    by (intro exI [of _ s1] exI [of _ "s\<lparr>st_modbus := m\<rparr>"] exI [of _ ?s]) simp
qed

lemma poll_drops_frame:
  assumes "stack_ready addr s" and "xEventInQueue (st_modbus s)"
    and "eQueuedEvent (st_modbus s) = EV_FRAME_RECEIVED"
    and "rtu_verdict (rtu_frame (st_modbus s)) = Inr (None, e)"
  shows "eMBPoll s = Inr (s\<lparr>st_modbus := (st_modbus s)\<lparr>xEventInQueue := False\<rparr>\<rparr>, MB_ENOERR)"
proof -
  let ?m = "(st_modbus s)\<lparr>xEventInQueue := False\<rparr>"
  have "rtu_buf_ok ?m" using assms(1) by (simp add: stack_ready_def rtu_safe_def rtu_buf_ok_def)
  then have "eMBRTUReceive ?m = Inr (None, e)"
    using receive_verdict [of ?m] assms(4) by (simp add: rtu_frame_def)
  then show ?thesis using assms(1-3)
    by (simp add: eMBPoll_def stack_ready_def xMBPortEventGet_def poll_received_def)
qed

subsection \<open>The service as it comes up\<close>

lemma service_boot:
  "\<exists>s0 s1 s. modbus_service_init True (rtu_stack_reset a) = Inr s0 \<and> mb_timer0_callback s0 = Inr s1 \<and>
    modbus_task_round s1 [] = Inr s \<and> stack_ready MODBUS_SLAVE_ADDRESS s \<and> quiet s \<and>
    st_dev s = mb_dev_reset \<and> xFuncHandlers s = xFuncHandlers0 \<and> wire (st_modbus s) = []"
proof -
  have "\<not> (MODBUS_SLAVE_ADDRESS = MB_ADDRESS_BROADCAST \<or> MODBUS_SLAVE_ADDRESS < MB_ADDRESS_MIN \<or>
      MODBUS_SLAVE_ADDRESS > MB_ADDRESS_MAX)"
    by (simp add: MODBUS_SLAVE_ADDRESS_def mb_consts)
  then show ?thesis
    by (simp add: modbus_service_init_def eMBInit_def Let_def eMBRTUInit_def xMBPortSerialInit_def
        xMBPortTimersInit_def xMBPortEventInit_def eMBEnable_def eMBRTUStart_def vMBPortSerialEnable_def
        vMBPortTimersEnable_def vMBPortTimersDisable_def rtu_stack_reset_def mb_timer0_callback_def
        xMBRTUTimerT35Expired_def xMBPortEventPost_def modbus_task_round_def eMBPoll_def
        xMBPortEventGet_def vMBPortSerialPoll_def stack_ready_def quiet_def mb_dev_inv_reset
        rtu_safe_def rtu_buf_ok_def MODBUS_SLAVE_ADDRESS_def mb_consts rtu_reset_def)
qed

subsection \<open>Two requests\<close>

lemma table0_lookup:
  "table_lookup xFuncHandlers0 3 = Some (Some H_ReadHoldingRegister)"
  "table_lookup xFuncHandlers0 6 = Some (Some H_WriteHoldingRegister)"
  by (simp_all add: xFuncHandlers0_def mb_consts)

lemma take_5_nth:
  assumes "take 5 f = [a, b, c, d, e]"
  shows "f ! 0 = a" "f ! 1 = b" "f ! 2 = c" "f ! 3 = d" "f ! 4 = e"
  using assms nth_take [of 0 5 f] nth_take [of 1 5 f] nth_take [of 2 5 f] nth_take [of 3 5 f] nth_take [of 4 5 f]
  by simp_all

lemma serve_read_holding:
  assumes "mb_dev_inv dev" and "length f = 255" and "take 5 f = [3, hi_byte a, lo_byte a, 0, n]"
    and "1 \<le> unat n" and "unat n \<le> 125" and "unat a + unat n \<le> 100"
  shows "serve xFuncHandlers0 dev f 5 =
    Some (dev, 3 # word_of_nat (2 * unat n) # enc16 (regs_at dev (unat a) (unat n)))"
  using assms read_holding_reply [of dev f 5] take_5_nth [OF assms(3)]
  by (simp add: serve_def table0_lookup req_addr_def Let_def)

lemma serve_example:
  assumes "length f = 255" and "take (length [3, 0, 7, 0, 2 :: u8]) f = [3, 0, 7, 0, 2]"
  shows "serve xFuncHandlers0 mb_dev_reset f (word_of_nat (length [3, 0, 7, 0, 2 :: u8])) =
    Some (mb_dev_reset, [3, 4, 0, 0, 0, 0])"
proof -
  have r: "enc16 (regs_at mb_dev_reset 7 2) = [0, 0, 0, 0]" by code_simp
  have h: "hi_byte 7 = 0" "lo_byte 7 = 7" by (simp_all add: hi_byte_def lo_byte_def)
  have "take 5 f = [3, 0, 7, 0, 2]" using assms(2) by (simp add: numeral_eq_Suc)
  then show ?thesis using serve_read_holding [OF mb_dev_inv_reset assms(1), of 7 2] r h by simp
qed

lemma serve_write_single:
  assumes "mb_dev_inv dev" and "length f = 255" and "take 5 f = [6, hi_byte a, lo_byte a, hi_byte v, lo_byte v]"
    and "unat a < 100"
  shows "serve xFuncHandlers0 dev f 5 = Some (put_regs dev (unat a) [v], take 5 f)"
  using assms write_single_reply [of dev f 5] take_5_nth [OF assms(3)]
  by (simp add: serve_def table0_lookup req_addr_def req_cnt_def Let_def)

subsection \<open>A request is answered, anything else is dropped\<close>

lemma request_answered:
  assumes "stack_ready addr s" and "quiet s" and "concat cs = rtu_adu addr pdu"
    and "1 \<le> length pdu" and "length pdu \<le> 252"
    and "\<And>f. length f = 255 \<Longrightarrow> take (length pdu) f = pdu \<Longrightarrow>
      serve (xFuncHandlers s) (st_dev s) f (word_of_nat (length pdu)) = Some (dev', rsp)"
  shows "\<exists>s1 s2 s3. task_rounds s cs = Inr s1 \<and> mb_timer0_callback s1 = Inr s2 \<and>
    task_rounds s2 [[], []] = Inr s3 \<and> stack_ready addr s3 \<and> st_dev s3 = dev' \<and>
    SndState (st_modbus s3) = Some MB_RTU.STATE_TX_XMIT \<and>
    take (length rsp + 3) (ucRTUBuf (st_modbus s3)) = rtu_adu addr rsp"
proof -
  obtain s1 s2 sx where x: "task_rounds s cs = Inr s1" "mb_timer0_callback s1 = Inr s2"
    "eMBPoll s2 = Inr (sx, MB_ENOERR)" "stack_ready addr sx" "xEventInQueue (st_modbus sx)"
    "eQueuedEvent (st_modbus sx) = EV_EXECUTE" "RcvState (st_modbus sx) = Some MB_RTU.STATE_RX_IDLE"
    "ucMBFrame sx = Some 1" "ucRcvAddress sx = addr" "unat (usLength sx) \<le> 253"
    "serve (xFuncHandlers sx) (st_dev sx) (drop 1 (ucRTUBuf (st_modbus sx))) (usLength sx) = Some (dev', rsp)"
    using request_taken [OF assms(1-5) disjI1 [OF refl] assms(6)] by blast
  have "ucRcvAddress sx \<noteq> MB_ADDRESS_BROADCAST" using assms(1) x(9) by (simp add: stack_ready_def)
  from poll_answers [OF x(4-8) this x(10,11)] obtain s3 where
    s3: "eMBPoll sx = Inr (s3, MB_ENOERR)" "stack_ready addr s3" "st_dev s3 = dev'"
    "SndState (st_modbus s3) = Some MB_RTU.STATE_TX_XMIT"
    "take (length rsp + 3) (ucRTUBuf (st_modbus s3)) = rtu_adu addr rsp" by auto
  have "task_rounds s2 [[], []] = Inr s3"
    using two_rounds [OF x(3) s3(1)] x(4) s3(2) by (simp add: stack_ready_def)
  with x(1,2) s3 show ?thesis by blast
qed

text \<open>What is no frame for this slave.\<close>

definition no_frame :: "u8 \<Rightarrow> u8 list \<Rightarrow> bool" where
  "no_frame addr bs \<longleftrightarrow> length bs < 4 \<or> crc16 bs \<noteq> 0 \<or> hd bs \<notin> {addr, MB_ADDRESS_BROADCAST}"

lemma no_frame_polled:
  assumes "stack_ready addr s" and "quiet s" and "concat cs = bs" and "bs \<noteq> []" and "length bs \<le> 255"
    and "no_frame addr bs"
  shows "\<exists>s1 s2 sx. task_rounds s cs = Inr s1 \<and> mb_timer0_callback s1 = Inr s2 \<and> st_cb s2 = st_cb s \<and>
    eMBPoll s2 = Inr (sx, MB_ENOERR) \<and> stack_ready addr sx \<and> quiet sx \<and> st_dev sx = st_dev s \<and>
    wire (st_modbus sx) = wire (st_modbus s) \<and> st_cb sx = st_cb s"
proof -
  obtain s1 m where m: "task_rounds s cs = Inr s1" "mb_timer0_callback s1 = Inr (s\<lparr>st_modbus := m\<rparr>)"
    "stack_ready addr (s\<lparr>st_modbus := m\<rparr>)" "RcvState m = Some MB_RTU.STATE_RX_IDLE"
    "SndState m = Some MB_RTU.STATE_TX_IDLE" "wire m = wire (st_modbus s)"
    "xEventInQueue m" "eQueuedEvent m = EV_FRAME_RECEIVED" "rtu_frame m = bs"
    using frame_arrives [OF assms(1-4)] assms(5) by auto
  have "\<exists>sx. eMBPoll (s\<lparr>st_modbus := m\<rparr>) = Inr (sx, MB_ENOERR) \<and> st_dev sx = st_dev s \<and>
      st_handle sx = st_handle s \<and> st_cb sx = st_cb s \<and> st_modbus sx = m\<lparr>xEventInQueue := False\<rparr>"
  proof (cases "length bs < 4 \<or> crc16 bs \<noteq> 0")
    case True
    then have "rtu_verdict (rtu_frame m) = Inr (None, MB_EIO)" using assms(5) m(9) by (simp add: rtu_verdict_def)
    then show ?thesis using poll_drops_frame [OF m(3)] m(7,8) by simp
  next
    case False
    then have "rtu_verdict (rtu_frame m) = Inr (Some (hd bs, 1, word_of_nat (length bs - 3)), MB_ENOERR)"
      using assms(5) m(9) by (simp add: rtu_verdict_def)
    then show ?thesis using poll_takes_frame [OF m(3)] m(7,8) assms(6) False by (simp add: no_frame_def)
  qed
  then obtain sx where sx: "eMBPoll (s\<lparr>st_modbus := m\<rparr>) = Inr (sx, MB_ENOERR)" "st_dev sx = st_dev s"
    "st_handle sx = st_handle s" "st_cb sx = st_cb s" "st_modbus sx = m\<lparr>xEventInQueue := False\<rparr>" by blast
  have "stack_ready addr sx"
    using m(3) sx by (simp add: stack_ready_def rtu_safe_def rtu_buf_ok_def)
  moreover have "quiet sx" using m(4,5) by (simp add: quiet_def sx(5))
  ultimately show ?thesis using m(1,2,6) sx
    by (intro exI [of _ s1] exI [of _ "s\<lparr>st_modbus := m\<rparr>"] exI [of _ sx]) simp
qed

lemma frame_dropped:
  assumes "stack_ready addr s" and "quiet s" and "concat cs = bs" and "bs \<noteq> []" and "length bs \<le> 255"
    and "length bs < 4 \<or> crc16 bs \<noteq> 0 \<or> hd bs \<notin> {addr, MB_ADDRESS_BROADCAST}"
  shows "\<exists>s1 s2 s3. task_rounds s cs = Inr s1 \<and> mb_timer0_callback s1 = Inr s2 \<and>
    task_rounds s2 [[], []] = Inr s3 \<and> stack_ready addr s3 \<and> quiet s3 \<and> st_dev s3 = st_dev s \<and>
    wire (st_modbus s3) = wire (st_modbus s)"
proof -
  obtain s1 s2 sx where sx: "task_rounds s cs = Inr s1" "mb_timer0_callback s1 = Inr s2" "st_cb s2 = st_cb s"
    "eMBPoll s2 = Inr (sx, MB_ENOERR)" "stack_ready addr sx" "quiet sx" "st_dev sx = st_dev s"
    "wire (st_modbus sx) = wire (st_modbus s)" "st_cb sx = st_cb s"
    using no_frame_polled [OF assms(1-5) assms(6) [folded no_frame_def]] by blast
  then have "task_rounds s2 [[], []] = Inr sx"
    using two_rounds [OF sx(4) poll_no_event [OF sx(5)]] assms(1) by (simp add: stack_ready_def quiet_def)
  with sx show ?thesis by blast
qed

section \<open>Properties\<close>

text \<open>C2: A request for this slave is answered. The serial frame of a request PDU of up to 252 bytes may
  arrive in any pieces, over any number of task rounds; when the frame timer has run out, two
  more rounds carry it out. The device is then as the function handler leaves it, and the frame
  buffer holds, ready for the transmitter, the serial frame of this slave's address and the
  handler's response, or of the exception.\<close>

theorem modbus_request_answered:
  assumes "stack_ready addr s" and "quiet s" and "concat cs = rtu_adu addr pdu"
    and "1 \<le> length pdu" and "length pdu \<le> 252"
    and "\<And>f. length f = 255 \<Longrightarrow> take (length pdu) f = pdu \<Longrightarrow>
      serve (xFuncHandlers s) (st_dev s) f (word_of_nat (length pdu)) = Some (dev', rsp)"
  shows "\<exists>s1 s2 s3. task_rounds s cs = Inr s1 \<and> mb_timer0_callback s1 = Inr s2 \<and>
    task_rounds s2 [[], []] = Inr s3 \<and> stack_ready addr s3 \<and> st_dev s3 = dev' \<and>
    SndState (st_modbus s3) = Some MB_RTU.STATE_TX_XMIT \<and>
    take (length rsp + 3) (ucRTUBuf (st_modbus s3)) = rtu_adu addr rsp"
  using assms by (rule request_answered)

theorem modbus_request_answered_witness:
  "\<exists>s0 s1 s2 s3 s4 s5. modbus_service_init True (rtu_stack_reset 0) = Inr s0 \<and>
    mb_timer0_callback s0 = Inr s1 \<and> modbus_task_round s1 [] = Inr s2 \<and>
    task_rounds s2 [take 3 (rtu_adu 1 [3, 0, 7, 0, 2]), [], drop 3 (rtu_adu 1 [3, 0, 7, 0, 2])] = Inr s3 \<and>
    mb_timer0_callback s3 = Inr s4 \<and> task_rounds s4 [[], []] = Inr s5 \<and>
    take 9 (ucRTUBuf (st_modbus s5)) = rtu_adu 1 [3, 4, 0, 0, 0, 0]"
proof -
  obtain s0 s1 s where s: "modbus_service_init True (rtu_stack_reset 0) = Inr s0" "mb_timer0_callback s0 = Inr s1"
    "modbus_task_round s1 [] = Inr s" "stack_ready 1 s" "quiet s" "st_dev s = mb_dev_reset"
    "xFuncHandlers s = xFuncHandlers0"
    using service_boot [of 0] unfolding MODBUS_SLAVE_ADDRESS_def by blast
  have c: "concat [take 3 (rtu_adu 1 [3, 0, 7, 0, 2]), [], drop 3 (rtu_adu 1 [3, 0, 7, 0, 2])] =
      rtu_adu 1 [3, 0, 7, 0, 2]"
    by (simp only: concat.simps append_Nil append_Nil2 append_take_drop_id)
  have sv: "serve (xFuncHandlers s) (st_dev s) f (word_of_nat (length [3, 0, 7, 0, 2 :: u8])) =
      Some (mb_dev_reset, [3, 4, 0, 0, 0, 0])"
    if "length f = 255" "take (length [3, 0, 7, 0, 2 :: u8]) f = [3, 0, 7, 0, 2]" for f
    unfolding s(6,7) by (rule serve_example [OF that])
  have l: "1 \<le> length [3, 0, 7, 0, 2 :: u8]" "length [3, 0, 7, 0, 2 :: u8] \<le> 252"
    "length [3, 4, 0, 0, 0, 0 :: u8] + 3 = 9" by simp_all
  show ?thesis
    using modbus_request_answered [OF s(4,5) c l(1,2) sv] s(1-3) unfolding l(3) by blast
qed

text \<open>A broadcast is carried out and not answered: the device changes as for an addressed request,
  nothing reaches the line, and the receiver goes on listening.\<close>

lemma modbus_broadcast_silent:
  assumes "stack_ready addr s" and "quiet s" and "concat cs = rtu_adu MB_ADDRESS_BROADCAST pdu"
    and "1 \<le> length pdu" and "length pdu \<le> 252"
    and "\<And>f. length f = 255 \<Longrightarrow> take (length pdu) f = pdu \<Longrightarrow>
      serve (xFuncHandlers s) (st_dev s) f (word_of_nat (length pdu)) = Some (dev', rsp)"
  shows "\<exists>s1 s2 s3. task_rounds s cs = Inr s1 \<and> mb_timer0_callback s1 = Inr s2 \<and>
    task_rounds s2 [[], []] = Inr s3 \<and> stack_ready addr s3 \<and> quiet s3 \<and> st_dev s3 = dev' \<and>
    wire (st_modbus s3) = wire (st_modbus s)"
proof -
  obtain s1 s2 sx where x: "task_rounds s cs = Inr s1" "mb_timer0_callback s1 = Inr s2"
    "eMBPoll s2 = Inr (sx, MB_ENOERR)" "stack_ready addr sx" "xEventInQueue (st_modbus sx)"
    "eQueuedEvent (st_modbus sx) = EV_EXECUTE" "RcvState (st_modbus sx) = Some MB_RTU.STATE_RX_IDLE"
    "SndState (st_modbus sx) = Some MB_RTU.STATE_TX_IDLE" "wire (st_modbus sx) = wire (st_modbus s)"
    "ucMBFrame sx = Some 1" "ucRcvAddress sx = MB_ADDRESS_BROADCAST" "unat (usLength sx) \<le> 253"
    "serve (xFuncHandlers sx) (st_dev sx) (drop 1 (ucRTUBuf (st_modbus sx))) (usLength sx) = Some (dev', rsp)"
    using request_taken [OF assms(1-5) disjI2 [OF refl] assms(6)] by blast
  from poll_broadcast [OF x(4-6) x(10-13)] obtain s3 mem where
    s3: "eMBPoll sx = Inr (s3, MB_ENOERR)" "stack_ready addr s3" "st_dev s3 = dev'"
    "st_modbus s3 = (st_modbus sx)\<lparr>xEventInQueue := False, ucRTUBuf := mem\<rparr>" by auto
  have "task_rounds s2 [[], []] = Inr s3"
    using two_rounds [OF x(3) s3(1)] x(4) s3(2) by (simp add: stack_ready_def)
  moreover have "quiet s3" using x(7,8) by (simp add: quiet_def s3(4))
  ultimately show ?thesis using x(1,2,9) s3 by auto
qed

lemma modbus_broadcast_silent_example:
  "\<exists>s0 s1 s2 s3 s4 s5. modbus_service_init True (rtu_stack_reset 0) = Inr s0 \<and>
    mb_timer0_callback s0 = Inr s1 \<and> modbus_task_round s1 [] = Inr s2 \<and>
    task_rounds s2 [rtu_adu 0 [6, 0, 7, 0xAB, 0xCD]] = Inr s3 \<and>
    mb_timer0_callback s3 = Inr s4 \<and> task_rounds s4 [[], []] = Inr s5 \<and>
    regs_at (st_dev s5) 7 1 = [0xABCD] \<and> wire (st_modbus s5) = []"
proof -
  obtain s0 s1 s where s: "modbus_service_init True (rtu_stack_reset 0) = Inr s0" "mb_timer0_callback s0 = Inr s1"
    "modbus_task_round s1 [] = Inr s" "stack_ready 1 s" "quiet s" "st_dev s = mb_dev_reset"
    "xFuncHandlers s = xFuncHandlers0" "wire (st_modbus s) = []"
    using service_boot [of 0] unfolding MODBUS_SLAVE_ADDRESS_def by blast
  have c: "concat [rtu_adu 0 [6, 0, 7, 0xAB, 0xCD]] = rtu_adu MB_ADDRESS_BROADCAST [6, 0, 7, 0xAB, 0xCD]"
    by (simp add: MB_ADDRESS_BROADCAST_def)
  have h: "hi_byte 7 = 0" "lo_byte 7 = 7" "hi_byte 0xABCD = 0xAB" "lo_byte 0xABCD = 0xCD"
    by (simp_all add: hi_byte_def lo_byte_def)
  have sv: "serve (xFuncHandlers s) (st_dev s) f (word_of_nat (length [6, 0, 7, 0xAB, 0xCD :: u8])) =
      Some (put_regs mb_dev_reset 7 [0xABCD], [6, 0, 7, 0xAB, 0xCD])"
    if "length f = 255" "take (length [6, 0, 7, 0xAB, 0xCD :: u8]) f = [6, 0, 7, 0xAB, 0xCD]" for f
  proof -
    have "take 5 f = [6, 0, 7, 0xAB, 0xCD]" using that(2) by (simp add: numeral_eq_Suc)
    then show ?thesis
      using serve_write_single [OF mb_dev_inv_reset that(1), of 7 "0xABCD"] h by (simp add: s(6,7))
  qed
  have l: "1 \<le> length [6, 0, 7, 0xAB, 0xCD :: u8]" "length [6, 0, 7, 0xAB, 0xCD :: u8] \<le> 252" by simp_all
  have "length (usSRegHoldBuf (d_app mb_dev_reset)) = 100"
    using mb_dev_inv_reset by (simp add: mb_dev_inv_def mb_app_inv_def)
  then have "regs_at (put_regs mb_dev_reset 7 [0xABCD]) 7 1 = [0xABCD]"
    using regs_at_put_regs [of 7 "[0xABCD]" mb_dev_reset] by simp
  then show ?thesis
    using modbus_broadcast_silent [OF s(4,5) c l sv] s(1-3,8) by auto
qed

text \<open>C13: What is not a request for this slave is dropped without a trace: a frame of up to 255 bytes
  that is too short, fails its checksum, or carries another address leaves the device, the
  line and the receiver as they were.\<close>

theorem modbus_frame_dropped:
  assumes "stack_ready addr s" and "quiet s" and "concat cs = bs" and "bs \<noteq> []" and "length bs \<le> 255"
    and "length bs < 4 \<or> crc16 bs \<noteq> 0 \<or> hd bs \<notin> {addr, MB_ADDRESS_BROADCAST}"
  shows "\<exists>s1 s2 s3. task_rounds s cs = Inr s1 \<and> mb_timer0_callback s1 = Inr s2 \<and>
    task_rounds s2 [[], []] = Inr s3 \<and> stack_ready addr s3 \<and> quiet s3 \<and> st_dev s3 = st_dev s \<and>
    wire (st_modbus s3) = wire (st_modbus s)"
  using assms by (rule frame_dropped)

theorem modbus_frame_dropped_witness:
  "\<exists>s0 s1 s2 s3 s4 s5. modbus_service_init True (rtu_stack_reset 0) = Inr s0 \<and>
    mb_timer0_callback s0 = Inr s1 \<and> modbus_task_round s1 [] = Inr s2 \<and>
    task_rounds s2 [[1, 3, 0, 7, 0, 2, 0, 0]] = Inr s3 \<and> mb_timer0_callback s3 = Inr s4 \<and>
    task_rounds s4 [[], []] = Inr s5 \<and> quiet s5 \<and> wire (st_modbus s5) = []"
proof -
  obtain s0 s1 s where s: "modbus_service_init True (rtu_stack_reset 0) = Inr s0" "mb_timer0_callback s0 = Inr s1"
    "modbus_task_round s1 [] = Inr s" "stack_ready 1 s" "quiet s" "wire (st_modbus s) = []"
    using service_boot [of 0] unfolding MODBUS_SLAVE_ADDRESS_def by blast
  have "usMBCRC16 [1, 3, 0, 7, 0, 2, 0, 0] 0 8 \<noteq> Inr 0" by code_simp
  then have "crc16 [1, 3, 0, 7, 0, 2, 0, 0] \<noteq> 0"
    using usMBCRC16_ok [of 0 8 "[1, 3, 0, 7, 0, 2, 0, 0]"] by (auto simp: window_def)
  moreover have "concat [[1, 3, 0, 7, 0, 2, 0, 0 :: u8]] = [1, 3, 0, 7, 0, 2, 0, 0]" by simp
  ultimately show ?thesis
    using modbus_frame_dropped [OF s(4,5), of "[[1, 3, 0, 7, 0, 2, 0, 0]]" "[1, 3, 0, 7, 0, 2, 0, 0]"] s(1-3,6)
    by auto
qed

text \<open>Unregistering a function code leaves a hole in the handler table, and the search for a handler
  stops at the first hole: every other function that is not entered in front of the removed
  one is answered as an illegal function from then on, although its handler is still
  registered.\<close>

lemma unregister_hides:
  assumes "table = front @ (code, Some h) # back" and "code \<noteq> 0" and "code \<le> 127"
    and "\<forall>(c, p) \<in> set front. c \<noteq> 0 \<and> c \<noteq> code" and "xFuncHandlers s = table"
    and "other \<noteq> 0" and "other \<notin> fst ` set front"
  shows "snd (eMBRegisterCB s code None) = MB_ENOERR \<and>
    table_lookup (xFuncHandlers (fst (eMBRegisterCB s code None))) other = None"
proof -
  have "table_clear (front @ (code, Some h) # back) code = front @ (0, None) # back"
    using assms(4) by (induction front) auto
  moreover have "table_lookup (front @ (0, None) # back) other = None"
    using assms(7) by (induction front) auto
  moreover have "0 < code" using assms(2) by (simp add: word_neq_0_conv)
  ultimately show ?thesis using assms(1,3,5) by (simp add: eMBRegisterCB_def)
qed

lemma unregister_hides_example:
  "table_lookup (xFuncHandlers (fst (eMBRegisterCB (rtu_stack_reset 0) MB_FUNC_READ_INPUT_REGISTER None)))
     MB_FUNC_READ_HOLDING_REGISTER = None \<and>
   table_lookup xFuncHandlers0 MB_FUNC_READ_HOLDING_REGISTER = Some (Some H_ReadHoldingRegister)"
proof -
  have t: "xFuncHandlers0 = [(MB_FUNC_OTHER_REPORT_SLAVEID, Some H_ReportSlaveID)] @
      (MB_FUNC_READ_INPUT_REGISTER, Some H_ReadInputRegister) # drop 2 xFuncHandlers0"
    by (simp add: xFuncHandlers0_def)
  have "xFuncHandlers (rtu_stack_reset 0) = xFuncHandlers0" by (simp add: rtu_stack_reset_def)
  then show ?thesis
    using unregister_hides [OF t, of "rtu_stack_reset 0" MB_FUNC_READ_HOLDING_REGISTER] table0_lookup
    by (simp add: mb_consts)
qed

text \<open>Initialisation that is refused leaves a dangling handle: for an address outside 1 to 247, or a
  mode that is not compiled in, \<open>eMBInit\<close> reports an invalid argument, frees the handle and keeps
  the pointer to it, so that enabling or polling the instance uses freed memory. Without
  memory for the handle the pointer stays as it was, and the service, which ignores the
  result, goes through the null pointer.\<close>

lemma init_failure_dangles:
  assumes "addr = MB_ADDRESS_BROADCAST \<or> addr > MB_ADDRESS_MAX \<or> layer = None"
  shows "\<exists>s'. eMBInit True layer s addr port baud par = (s', MB_EINVAL) \<and>
    eMBEnable s' = Inl Dangling_Pointer \<and> eMBPoll s' = Inl Dangling_Pointer \<and>
    modbus_service_init False (rtu_stack_reset a) = Inl Null_Pointer"
proof -
  have n: "modbus_service_init False (rtu_stack_reset a) = Inl Null_Pointer"
    by (simp add: modbus_service_init_def eMBInit_def eMBEnable_def rtu_stack_reset_def)
  obtain s' where "eMBInit True layer s addr port baud par = (s', MB_EINVAL)" "st_handle s' = Freed"
    using assms by (cases "addr = MB_ADDRESS_BROADCAST \<or> addr < MB_ADDRESS_MIN \<or> addr > MB_ADDRESS_MAX")
      (auto simp: eMBInit_def Let_def)
  then show ?thesis using n by (simp add: eMBEnable_def eMBPoll_def)
qed

lemma init_failure_dangles_example:
  "\<exists>s'. eMBInit True (Some rtu_layer) (rtu_stack_reset 0) 248 1 115200 MB_PAR_NONE = (s', MB_EINVAL) \<and>
    eMBEnable s' = Inl Dangling_Pointer"
  using init_failure_dangles [of 248 "Some rtu_layer" "rtu_stack_reset 0" 1 115200 MB_PAR_NONE 0]
  by (auto simp: mb_consts)

text \<open>The life cycle of an instance in RTU mode: initialisation disables it, only a disabled instance
  can be enabled and only a disabled one closed, disabling is idempotent, and polling is
  refused until the instance is enabled.\<close>

lemma stack_lifecycle:
  assumes "MB_ADDRESS_MIN \<le> addr" and "addr \<le> MB_ADDRESS_MAX"
  shows "\<exists>s1 s2 s3. eMBInit True (Some rtu_layer) s addr port baud par = (s1, MB_ENOERR) \<and>
    eMBPoll s1 = Inr (s1, MB_EILLSTATE) \<and> eMBDisable s1 = Inr (s1, MB_ENOERR) \<and>
    eMBEnable s1 = Inr (s2, MB_ENOERR) \<and> eMBEnable s2 = Inr (s2, MB_EILLSTATE) \<and>
    eMBClose s2 = Inr (s2, MB_EILLSTATE) \<and> eMBDisable s2 = Inr (s3, MB_ENOERR) \<and>
    eMBPoll s3 = Inr (s3, MB_EILLSTATE) \<and> eMBClose s3 = Inr (s3, MB_ENOERR)"
proof -
  have "\<not> (addr = MB_ADDRESS_BROADCAST \<or> addr < MB_ADDRESS_MIN \<or> addr > MB_ADDRESS_MAX)"
    using assms by (auto simp: mb_consts)
  then show ?thesis
    by (simp add: eMBInit_def Let_def eMBRTUInit_def xMBPortSerialInit_def xMBPortTimersInit_def
        xMBPortEventInit_def eMBPoll_def eMBEnable_def eMBDisable_def eMBClose_def eMBRTUStart_def
        eMBRTUStop_def vMBPortSerialEnable_def)
qed

lemma stack_lifecycle_example:
  "\<exists>s1. eMBInit True (Some rtu_layer) (rtu_stack_reset 0) 17 1 9600 MB_PAR_EVEN = (s1, MB_ENOERR) \<and>
    eMBPoll s1 = Inr (s1, MB_EILLSTATE)"
  using stack_lifecycle [of 17 "rtu_stack_reset 0" 1 9600 MB_PAR_EVEN] by (auto simp: mb_consts)

end
