(* ===== verification/Ring_Buffer.thy ===== *)
theory Ring_Buffer
  imports Prelude
begin

text \<open>
  The part the two queues of the firmware share (\<open>utils/cqueue\<close> and the FreeRTOS queue):
  the window of a circular array that holds the queued items, and the interface of a bounded
  first-in-first-out queue, with what a client may conclude from it.
\<close>

subsection \<open>Circular windows\<close>

definition ring :: "'a list \<Rightarrow> nat \<Rightarrow> nat \<Rightarrow> 'a list" where
  "ring buf start n = map (\<lambda>i. buf ! ((start + i) mod length buf)) [0..<n]"

text \<open>Send a list of items one after the other; drain a given number of items.\<close>

fun send_list :: "('q \<Rightarrow> 'a \<Rightarrow> ('q \<times> bool) res) \<Rightarrow> 'q \<Rightarrow> 'a list \<Rightarrow> ('q \<times> bool list) res" where
  "send_list snd1 q [] = Inr (q, [])"
| "send_list snd1 q (x # xs) =
     bindR (snd1 q x) (\<lambda>(q', b). bindR (send_list snd1 q' xs) (\<lambda>(q'', bs). Inr (q'', b # bs)))"

fun drain :: "('q \<Rightarrow> ('q \<times> 'a option) res) \<Rightarrow> nat \<Rightarrow> 'q \<Rightarrow> ('q \<times> 'a list) res" where
  "drain rcv 0 q = Inr (q, [])"
| "drain rcv (Suc n) q =
     bindR (rcv q) (\<lambda>(q', r). case r of
        None \<Rightarrow> Inr (q', [])
      | Some x \<Rightarrow> bindR (drain rcv n q') (\<lambda>(q'', xs). Inr (q'', x # xs)))"

subsection \<open>Lemmas on circular windows\<close>

lemma length_ring [simp]: "length (ring buf start n) = n"
  by (simp add: ring_def)

lemma ring_0 [simp]: "ring buf start 0 = []"
  by (simp add: ring_def)

lemma nth_ring: "i < n \<Longrightarrow> ring buf start n ! i = buf ! ((start + i) mod length buf)"
  by (simp add: ring_def)

lemma mod_add_inj:
  assumes "i < j" and "j < (L::nat)"
  shows "(s + i) mod L \<noteq> (s + j) mod L"
proof
  assume "(s + i) mod L = (s + j) mod L"
  then have "L dvd (s + j) - (s + i)"
    using assms by (metis add_le_cancel_left less_imp_le mod_eq_dvd_iff_nat)
  then have "L dvd j - i" by simp
  with assms show False by (auto dest: dvd_imp_le)
qed

lemma ring_back:
  assumes "n < length buf"
  shows "ring (buf[(start + n) mod length buf := x]) start (Suc n) = ring buf start n @ [x]"
proof (rule nth_equalityI)
  fix i assume "i < length (ring (buf[(start + n) mod length buf := x]) start (Suc n))"
  then have i: "i < Suc n" by simp
  have L: "0 < length buf" using assms by linarith
  show "ring (buf[(start + n) mod length buf := x]) start (Suc n) ! i = (ring buf start n @ [x]) ! i"
  proof (cases "i = n")
    case True
    then show ?thesis using L by (simp add: nth_ring nth_append)
  next
    case False
    with i have "i < n" by simp
    with assms have "(start + n) mod length buf \<noteq> (start + i) mod length buf"
      by (metis mod_add_inj)
    with \<open>i < n\<close> show ?thesis by (simp add: nth_ring nth_append)
  qed
qed simp

lemma ring_front:
  assumes "start < length buf"
  shows "ring buf start (Suc n) = buf ! start # ring buf (Suc start mod length buf) n"
proof (rule nth_equalityI)
  fix i assume "i < length (ring buf start (Suc n))"
  then have i: "i < Suc n" by simp
  show "ring buf start (Suc n) ! i = (buf ! start # ring buf (Suc start mod length buf) n) ! i"
  proof (cases i)
    case 0
    then show ?thesis using assms by (simp add: nth_ring)
  next
    case (Suc j)
    with i have "j < n" by simp
    moreover have "(start + Suc j) mod length buf = (Suc start mod length buf + j) mod length buf"
      by (simp add: mod_simps)
    ultimately show ?thesis using Suc by (simp add: nth_ring)
  qed
qed simp

lemma ring_update_outside:
  assumes "n < length buf" and "k < length buf" and "Suc k mod length buf = start"
  shows "ring (buf[k := x]) start n = ring buf start n"
proof (rule nth_equalityI)
  fix i assume "i < length (ring (buf[k := x]) start n)"
  then have i: "i < n" by simp
  have "k = (k + 0) mod length buf" using assms by simp
  moreover have "(k + 0) mod length buf \<noteq> (k + Suc i) mod length buf"
    using i assms by (intro mod_add_inj) simp_all
  moreover have "(start + i) mod length buf = (k + Suc i) mod length buf"
    using assms(3) by (metis add_Suc add_Suc_right mod_add_left_eq)
  ultimately have "(start + i) mod length buf \<noteq> k" by metis
  then show "ring (buf[k := x]) start n ! i = ring buf start n ! i"
    using i by (simp add: nth_ring)
qed simp

lemma ring_push_front:
  assumes "n < length buf" and "k < length buf" and "Suc k mod length buf = start"
  shows "ring (buf[k := x]) k (Suc n) = x # ring buf start n"
  using assms ring_front [of k "buf[k := x]" n] by (simp add: ring_update_outside)

subsection \<open>The interface of a bounded queue\<close>

text \<open>
  \<open>contents\<close> is the abstract value of a queue, \<open>capacity\<close> the number of items it promises to
  hold. A provider keeps \<open>inv\<close>, appends on a send that has room, refuses a send that has
  not, and hands the oldest item out first; none of its operations faults.
\<close>

locale bounded_fifo =
  fixes snd_op :: "'q \<Rightarrow> 'a \<Rightarrow> ('q \<times> bool) res"
    and rcv_op :: "'q \<Rightarrow> ('q \<times> 'a option) res"
    and contents :: "'q \<Rightarrow> 'a list"
    and capacity :: "'q \<Rightarrow> nat"
    and inv :: "'q \<Rightarrow> bool"
  assumes bound: "inv q \<Longrightarrow> length (contents q) \<le> capacity q"
    and send_room: "inv q \<Longrightarrow> length (contents q) < capacity q \<Longrightarrow>
      \<exists>q'. snd_op q x = Inr (q', True) \<and> inv q' \<and> contents q' = contents q @ [x] \<and>
           capacity q' = capacity q"
    and send_full: "inv q \<Longrightarrow> length (contents q) = capacity q \<Longrightarrow> snd_op q x = Inr (q, False)"
    and recv_none: "inv q \<Longrightarrow> contents q = [] \<Longrightarrow> rcv_op q = Inr (q, None)"
    and recv_some: "inv q \<Longrightarrow> contents q = x # xs \<Longrightarrow>
      \<exists>q'. rcv_op q = Inr (q', Some x) \<and> inv q' \<and> contents q' = xs \<and> capacity q' = capacity q"
begin

lemma send_never_faults: "inv q \<Longrightarrow> okR (snd_op q x)"
  using bound [of q] send_room [of q x] send_full [of q x]
  by (cases "length (contents q) < capacity q") (auto simp: okR_iff)

lemma send_list_room:
  assumes "inv q" and "length (contents q) + length xs \<le> capacity q"
  shows "\<exists>q'. send_list snd_op q xs = Inr (q', replicate (length xs) True) \<and> inv q' \<and>
              contents q' = contents q @ xs \<and> capacity q' = capacity q"
  using assms
proof (induction xs arbitrary: q)
  case Nil
  then show ?case by simp
next
  case (Cons x xs)
  then have "length (contents q) < capacity q" by simp
  with Cons.prems(1) obtain q1 where q1: "snd_op q x = Inr (q1, True)" "inv q1"
      "contents q1 = contents q @ [x]" "capacity q1 = capacity q"
    using send_room by blast
  with Cons.prems(2) have "length (contents q1) + length xs \<le> capacity q1" by simp
  from Cons.IH [OF q1(2) this] q1 show ?case by auto
qed

text \<open>Once the queue is full every further item is refused and nothing is lost.\<close>

lemma send_list_full:
  assumes "inv q" and "length (contents q) = capacity q"
  shows "send_list snd_op q xs = Inr (q, replicate (length xs) False)"
  using assms by (induction xs) (simp_all add: send_full)

lemma drain_contents:
  assumes "inv q" and "n \<le> length (contents q)"
  shows "\<exists>q'. drain rcv_op n q = Inr (q', take n (contents q)) \<and> inv q' \<and>
              contents q' = drop n (contents q) \<and> capacity q' = capacity q"
  using assms
proof (induction n arbitrary: q)
  case 0
  then show ?case by simp
next
  case (Suc n)
  then obtain x xs where c: "contents q = x # xs" by (cases "contents q") auto
  with Suc.prems(1) obtain q1 where q1: "rcv_op q = Inr (q1, Some x)" "inv q1" "contents q1 = xs"
      "capacity q1 = capacity q"
    using recv_some by blast
  with Suc.prems(2) c have "n \<le> length (contents q1)" by simp
  from Suc.IH [OF q1(2) this] q1 c show ?case by auto
qed

text \<open>First in, first out: what is sent to an empty queue comes out in the same order.\<close>

lemma send_then_drain:
  assumes "inv q" and "contents q = []" and "length xs \<le> capacity q"
  shows "\<exists>q' q''. send_list snd_op q xs = Inr (q', replicate (length xs) True) \<and>
                  drain rcv_op (length xs) q' = Inr (q'', xs) \<and> contents q'' = []"
proof -
  obtain q' where q': "send_list snd_op q xs = Inr (q', replicate (length xs) True)" "inv q'"
      "contents q' = xs"
    using send_list_room [of q xs] assms by auto
  then show ?thesis using drain_contents [of q' "length xs"] by auto
qed

end

end
