(* ===== verification/RTOS_Queue.thy ===== *)
theory RTOS_Queue
  imports Ring_Buffer
begin

text \<open>
  The queue of the kernel (\<open>FreeRTOS/Source/queue.c\<close>) as far as the firmware's UART path uses
  it: creation, reset, sends from an interrupt, and receives with a block time. The storage is
  a list of items, so the byte pointers \<open>pcWriteTo\<close>, \<open>pcReadFrom\<close>, \<open>pcHead\<close> and \<open>pcTail\<close> are
  item positions (\<open>pcHead\<close> is 0, \<open>pcTail\<close> is \<open>uxLength\<close>). The two event lists hold the
  priorities of the blocked tasks, highest first, as the kernel keeps them.
\<close>

datatype xCopyPosition = queueSEND_TO_BACK | queueSEND_TO_FRONT | queueOVERWRITE

record 'a rqueue =
  storage :: "'a list"
  pcWriteTo :: nat
  pcReadFrom :: nat
  uxMessagesWaiting :: nat
  uxLength :: nat
  xTasksWaitingToSend :: "nat list"
  xTasksWaitingToReceive :: "nat list"
  cRxLock :: int
  cTxLock :: int

definition queueUNLOCKED :: int where
  "queueUNLOCKED = -1"

subsection \<open>Event lists\<close>

text \<open>
  The highest-priority waiter is unblocked; the answer says whether it outranks the running task.
  The list is sorted, and the caller has checked that it is not empty.
\<close>

fun xTaskRemoveFromEventList :: "nat \<Rightarrow> nat list \<Rightarrow> (nat list \<times> bool) res" where
  "xTaskRemoveFromEventList cur [] = Inl Assert_Failed"
| "xTaskRemoveFromEventList cur (p # ps) = Inr (ps, cur < p)"

subsection \<open>Creation and reset\<close>

definition xQueueGenericReset :: "nat \<Rightarrow> 'a rqueue \<Rightarrow> bool \<Rightarrow> ('a rqueue \<times> bool) res" where
  "xQueueGenericReset cur q xNewQueue =
     (if uxLength q \<ge> 1 then
        let q1 = q\<lparr>uxMessagesWaiting := 0, pcWriteTo := 0, pcReadFrom := uxLength q - 1,
                   cRxLock := queueUNLOCKED, cTxLock := queueUNLOCKED\<rparr> in
        if \<not> xNewQueue then
          (if xTasksWaitingToSend q1 \<noteq> [] then
             bindR (xTaskRemoveFromEventList cur (xTasksWaitingToSend q1)) (\<lambda>(ps, yield).
               Inr (q1\<lparr>xTasksWaitingToSend := ps\<rparr>, True))
           else Inr (q1, True))
        else Inr (q1\<lparr>xTasksWaitingToSend := [], xTasksWaitingToReceive := []\<rparr>, True)
      else Inl Assert_Failed)"

text \<open>\<open>alloc\<close> is the storage \<open>pvPortMalloc\<close> handed out behind the queue structure, if it did.\<close>

definition xQueueGenericCreate :: "'a list option \<Rightarrow> nat \<Rightarrow> 'a rqueue option res" where
  "xQueueGenericCreate alloc uxQueueLength =
     (if uxQueueLength > 0 then
        (case alloc of
           None \<Rightarrow> Inr None
         | Some st \<Rightarrow>
             bindR (xQueueGenericReset 0
                \<lparr>storage = st, pcWriteTo = 0, pcReadFrom = 0, uxMessagesWaiting = 0,
                 uxLength = uxQueueLength, xTasksWaitingToSend = [], xTasksWaitingToReceive = [],
                 cRxLock = 0, cTxLock = 0\<rparr> True) (\<lambda>(q, b). Inr (Some q)))
      else Inl Assert_Failed)"

subsection \<open>Copying items in and out\<close>

definition prvCopyDataToQueue :: "'a rqueue \<Rightarrow> 'a \<Rightarrow> xCopyPosition \<Rightarrow> 'a rqueue res" where
  "prvCopyDataToQueue q item xPosition =
     (if xPosition = queueSEND_TO_BACK then
        bindR (wr (storage q) (pcWriteTo q) item) (\<lambda>st.
          let w = pcWriteTo q + 1 in
          Inr (q\<lparr>storage := st, pcWriteTo := (if w \<ge> uxLength q then 0 else w),
                 uxMessagesWaiting := uxMessagesWaiting q + 1\<rparr>))
      else
        bindR (wr (storage q) (pcReadFrom q) item) (\<lambda>st.
          let r = int (pcReadFrom q) - 1;
              r' = (if r < 0 then uxLength q - 1 else nat r);
              n = (if xPosition = queueOVERWRITE \<and> uxMessagesWaiting q > 0
                   then uxMessagesWaiting q - 1 else uxMessagesWaiting q) in
          Inr (q\<lparr>storage := st, pcReadFrom := r', uxMessagesWaiting := n + 1\<rparr>)))"

definition prvCopyDataFromQueue :: "'a rqueue \<Rightarrow> ('a rqueue \<times> 'a) res" where
  "prvCopyDataFromQueue q =
     (let r = pcReadFrom q + 1;
          r' = (if r \<ge> uxLength q then 0 else r) in
      bindR (rd (storage q) r') (\<lambda>item. Inr (q\<lparr>pcReadFrom := r'\<rparr>, item)))"

subsection \<open>Sending from an interrupt\<close>

definition prvIncrementQueueTxLock :: "nat \<Rightarrow> 'a rqueue \<Rightarrow> 'a rqueue res" where
  "prvIncrementQueueTxLock uxNumberOfTasks q =
     (if 0 \<le> cTxLock q \<and> cTxLock q < int uxNumberOfTasks then
        bindR (assertR (cTxLock q \<noteq> 127)) (\<lambda>_. Inr (q\<lparr>cTxLock := cTxLock q + 1\<rparr>))
      else Inr q)"

text \<open>
  The result is the queue, whether the item was queued, and whether a task of a higher priority
  than the interrupted one was woken (the flag the caller passed in is only ever set).
\<close>

definition xQueueGenericSendFromISR ::
  "nat \<Rightarrow> nat \<Rightarrow> 'a rqueue \<Rightarrow> 'a \<Rightarrow> bool \<Rightarrow> xCopyPosition \<Rightarrow> ('a rqueue \<times> bool \<times> bool) res" where
  "xQueueGenericSendFromISR ntasks cur q item woken xCopyPosition =
     bindR (assertR (\<not> (xCopyPosition = queueOVERWRITE \<and> uxLength q \<noteq> 1))) (\<lambda>_.
     if uxMessagesWaiting q < uxLength q \<or> xCopyPosition = queueOVERWRITE then
       bindR (prvCopyDataToQueue q item xCopyPosition) (\<lambda>q1.
         if cTxLock q = queueUNLOCKED then
           (if xTasksWaitingToReceive q1 \<noteq> [] then
              bindR (xTaskRemoveFromEventList cur (xTasksWaitingToReceive q1)) (\<lambda>(ps, hi).
                Inr (q1\<lparr>xTasksWaitingToReceive := ps\<rparr>, True, if hi then True else woken))
            else Inr (q1, True, woken))
         else bindR (prvIncrementQueueTxLock ntasks q1) (\<lambda>q2. Inr (q2, True, woken)))
     else Inr (q, False, woken))"

subsection \<open>Receiving\<close>

datatype 'a rcv_result = Received 'a | Queue_Empty | Still_Blocked

text \<open>
  One turn of the loop of \<open>xQueueReceive\<close> either returns or leaves the critical section; while
  it waits, interrupts and other tasks may work on the queue. \<open>env\<close> lists, turn by turn, what
  they made of the queue and whether the block time had run out when the task ran again; a
  task for which no further turn is listed is still blocked.
\<close>

fun xQueueReceive ::
  "nat \<Rightarrow> (('a rqueue \<Rightarrow> 'a rqueue) \<times> bool) list \<Rightarrow> 'a rqueue \<Rightarrow> nat \<Rightarrow>
   ('a rqueue \<times> 'a rcv_result) res" where
  "xQueueReceive cur env q xTicksToWait =
     (if uxMessagesWaiting q > 0 then
        bindR (prvCopyDataFromQueue q) (\<lambda>(q1, item).
          let q2 = q1\<lparr>uxMessagesWaiting := uxMessagesWaiting q - 1\<rparr> in
          if xTasksWaitingToSend q2 \<noteq> [] then
            bindR (xTaskRemoveFromEventList cur (xTasksWaitingToSend q2)) (\<lambda>(ps, yield).
              Inr (q2\<lparr>xTasksWaitingToSend := ps\<rparr>, Received item))
          else Inr (q2, Received item))
      else if xTicksToWait = 0 then Inr (q, Queue_Empty)
      else (case env of
          [] \<Rightarrow> Inr (q, Still_Blocked)
        | (others, expired) # env' \<Rightarrow>
            let q1 = others q in
            if \<not> expired then xQueueReceive cur env' q1 xTicksToWait
            else if uxMessagesWaiting q1 = 0 then Inr (q1, Queue_Empty)
            else xQueueReceive cur env' q1 0))"

subsection \<open>Invariant and abstraction\<close>

text \<open>
  The oldest item stands behind \<open>pcReadFrom\<close>, the window of the queued items ends at
  \<open>pcWriteTo\<close>.
\<close>

definition rq_front :: "'a rqueue \<Rightarrow> nat" where
  "rq_front q = Suc (pcReadFrom q) mod uxLength q"

definition rq_inv :: "'a rqueue \<Rightarrow> bool" where
  "rq_inv q \<longleftrightarrow> uxLength q = length (storage q) \<and> pcReadFrom q < uxLength q \<and>
     uxMessagesWaiting q \<le> uxLength q \<and>
     pcWriteTo q = (rq_front q + uxMessagesWaiting q) mod uxLength q \<and>
     cTxLock q = queueUNLOCKED"

definition rq_contents :: "'a rqueue \<Rightarrow> 'a list" where
  "rq_contents q = ring (storage q) (rq_front q) (uxMessagesWaiting q)"

text \<open>The send and the receive of a client that does not wait.\<close>

definition rq_send :: "'a rqueue \<Rightarrow> 'a \<Rightarrow> ('a rqueue \<times> bool) res" where
  "rq_send q x =
     bindR (xQueueGenericSendFromISR 0 0 q x False queueSEND_TO_BACK) (\<lambda>(q', b, w). Inr (q', b))"

definition rq_recv :: "'a rqueue \<Rightarrow> ('a rqueue \<times> 'a option) res" where
  "rq_recv q =
     bindR (xQueueReceive 0 [] q 0) (\<lambda>(q', r).
       Inr (q', case r of Received x \<Rightarrow> Some x | _ \<Rightarrow> None))"

declare xQueueReceive.simps [simp del]

subsection \<open>Lemmas\<close>

lemma wrap_mod: "k < L \<Longrightarrow> (if L \<le> Suc k then 0 else Suc k) = Suc k mod (L::nat)"
  by (simp add: mod_Suc)

lemma rq_inv_fields:
  assumes "rq_inv q"
  shows "uxLength q = length (storage q)" "0 < uxLength q" "pcReadFrom q < uxLength q"
    "pcWriteTo q < uxLength q" "rq_front q < uxLength q" "uxMessagesWaiting q \<le> uxLength q"
    "pcWriteTo q = (rq_front q + uxMessagesWaiting q) mod uxLength q" "cTxLock q = queueUNLOCKED"
  using assms by (auto simp: rq_inv_def rq_front_def intro!: mod_less_divisor)

lemma rq_event_lists [frame_simps]:
  "rq_inv (q\<lparr>xTasksWaitingToSend := ps\<rparr>) = rq_inv q"
  "rq_contents (q\<lparr>xTasksWaitingToSend := ps\<rparr>) = rq_contents q"
  "rq_inv (q\<lparr>xTasksWaitingToReceive := ps\<rparr>) = rq_inv q"
  "rq_contents (q\<lparr>xTasksWaitingToReceive := ps\<rparr>) = rq_contents q"
  by (simp_all add: rq_inv_def rq_contents_def rq_front_def)

lemma rq_length: "length (rq_contents q) = uxMessagesWaiting q"
  by (simp add: rq_contents_def)

lemma copy_to_back:
  assumes "rq_inv q" and "uxMessagesWaiting q < uxLength q"
  shows "\<exists>q'. prvCopyDataToQueue q x queueSEND_TO_BACK = Inr q' \<and> rq_inv q' \<and>
    rq_contents q' = rq_contents q @ [x] \<and> uxLength q' = uxLength q \<and>
    xTasksWaitingToReceive q' = xTasksWaitingToReceive q"
proof -
  note f = rq_inv_fields [OF assms(1)]
  have "uxMessagesWaiting q < length (storage q)" using assms(2) f by simp
  note b = ring_back [OF this, of "rq_front q" x]
  have "Suc (pcWriteTo q) mod uxLength q = (rq_front q + Suc (uxMessagesWaiting q)) mod uxLength q"
    unfolding f(7) by (simp add: mod_simps)
  then show ?thesis
    using f assms b
    by (simp add: prvCopyDataToQueue_def Let_def wrap_mod rq_inv_def rq_contents_def rq_front_def)
qed

lemma copy_to_front:
  assumes "rq_inv q" and "uxMessagesWaiting q < uxLength q"
  shows "\<exists>q'. prvCopyDataToQueue q x queueSEND_TO_FRONT = Inr q' \<and> rq_inv q' \<and>
    rq_contents q' = x # rq_contents q \<and> uxLength q' = uxLength q \<and>
    xTasksWaitingToReceive q' = xTasksWaitingToReceive q"
proof -
  note f = rq_inv_fields [OF assms(1)]
  define r' where "r' = (if pcReadFrom q = 0 then uxLength q - 1 else pcReadFrom q - 1)"
  have r': "r' < uxLength q" "Suc r' mod uxLength q = pcReadFrom q"
    using f by (auto simp: r'_def mod_Suc)
  have "ring ((storage q)[pcReadFrom q := x]) (pcReadFrom q) (Suc (uxMessagesWaiting q)) =
      x # ring (storage q) (rq_front q) (uxMessagesWaiting q)"
    using f assms(2) by (intro ring_push_front) (auto simp: rq_front_def)
  moreover have "(pcReadFrom q + Suc (uxMessagesWaiting q)) mod uxLength q =
      (rq_front q + uxMessagesWaiting q) mod uxLength q"
    by (simp add: rq_front_def mod_simps)
  moreover have "(let r = int (pcReadFrom q) - 1 in if r < 0 then uxLength q - 1 else nat r) = r'"
    by (auto simp: r'_def Let_def)
  ultimately show ?thesis
    using f assms r'
    by (simp add: prvCopyDataToQueue_def Let_def rq_inv_def rq_contents_def rq_front_def)
qed

lemma copy_from:
  assumes "rq_inv q" and "rq_contents q = x # xs"
  shows "\<exists>q'. prvCopyDataFromQueue q = Inr (q', x) \<and>
    q' = q\<lparr>pcReadFrom := rq_front q\<rparr>"
proof -
  note f = rq_inv_fields [OF assms(1)]
  obtain n where n: "uxMessagesWaiting q = Suc n"
    using assms(2) rq_length [of q] by (cases "uxMessagesWaiting q") auto
  have "storage q ! rq_front q = x"
    using ring_front [of "rq_front q" "storage q" n] f assms(2) n by (simp add: rq_contents_def)
  moreover have "(if uxLength q \<le> Suc (pcReadFrom q) then 0 else Suc (pcReadFrom q)) = rq_front q"
    using f(3) by (simp add: wrap_mod rq_front_def)
  moreover have "rq_front q < length (storage q)" using f(1,5) by simp
  ultimately show ?thesis by (simp add: prvCopyDataFromQueue_def Let_def)
qed

lemma advance_front:
  assumes "rq_inv q" and "rq_contents q = x # xs"
  defines "q' \<equiv> q\<lparr>pcReadFrom := rq_front q, uxMessagesWaiting := uxMessagesWaiting q - 1\<rparr>"
  shows "rq_inv q'" and "rq_contents q' = xs"
proof -
  note f = rq_inv_fields [OF assms(1)]
  obtain n where n: "uxMessagesWaiting q = Suc n"
    using assms(2) rq_length [of q] by (cases "uxMessagesWaiting q") auto
  have "x # xs = storage q ! rq_front q # ring (storage q) (Suc (rq_front q) mod uxLength q) n"
    using ring_front [of "rq_front q" "storage q" n] f assms(2) n by (simp add: rq_contents_def)
  then show "rq_contents q' = xs" by (simp add: q'_def rq_contents_def rq_front_def n)
  have "(Suc (rq_front q) mod uxLength q + n) mod uxLength q = (rq_front q + Suc n) mod uxLength q"
    by (simp add: mod_simps)
  then show "rq_inv q'" using f n by (simp add: q'_def rq_inv_def rq_front_def)
qed

text \<open>A receive that finds an item hands out the oldest one, whatever the block time.\<close>

lemma receive_some:
  assumes "rq_inv q" and "rq_contents q = x # xs"
  shows "\<exists>q'. xQueueReceive cur env q t = Inr (q', Received x) \<and> rq_inv q' \<and>
    rq_contents q' = xs \<and> uxLength q' = uxLength q"
proof -
  have n: "uxMessagesWaiting q > 0" using assms(2) rq_length [of q] by auto
  from copy_from [OF assms] have c: "prvCopyDataFromQueue q = Inr (q\<lparr>pcReadFrom := rq_front q\<rparr>, x)"
    by blast
  show ?thesis
    using n advance_front [OF assms]
    by (cases "xTasksWaitingToSend q")
       (simp_all add: xQueueReceive.simps [of cur env q t] c Let_def frame_simps)
qed

lemma receive_none:
  "rq_contents q = [] \<Longrightarrow> xQueueReceive cur env q 0 = Inr (q, Queue_Empty)"
  using rq_length [of q] by (simp add: xQueueReceive.simps [of cur env q 0])

interpretation rq: bounded_fifo rq_send rq_recv rq_contents uxLength rq_inv
proof unfold_locales
  fix q :: "'a rqueue" and x xs
  show "rq_inv q \<Longrightarrow> length (rq_contents q) \<le> uxLength q"
    by (simp add: rq_length rq_inv_def)
  show "\<exists>q'. rq_send q x = Inr (q', True) \<and> rq_inv q' \<and>
           rq_contents q' = rq_contents q @ [x] \<and> uxLength q' = uxLength q"
    if i: "rq_inv q" and l: "length (rq_contents q) < uxLength q"
  proof -
    have r: "uxMessagesWaiting q < uxLength q" using l by (simp add: rq_length)
    obtain q1 where "prvCopyDataToQueue q x queueSEND_TO_BACK = Inr q1" "rq_inv q1"
      "rq_contents q1 = rq_contents q @ [x]" "uxLength q1 = uxLength q"
      "xTasksWaitingToReceive q1 = xTasksWaitingToReceive q"
      using copy_to_back [OF i r, of x] by blast
    with i r show ?thesis
      by (cases "xTasksWaitingToReceive q")
         (simp_all add: rq_send_def xQueueGenericSendFromISR_def rq_length rq_inv_fields(8) frame_simps)
  qed
  show "rq_inv q \<Longrightarrow> length (rq_contents q) = uxLength q \<Longrightarrow> rq_send q x = Inr (q, False)"
    by (simp add: rq_send_def xQueueGenericSendFromISR_def rq_length)
  show "rq_inv q \<Longrightarrow> rq_contents q = [] \<Longrightarrow> rq_recv q = Inr (q, None)"
    by (simp add: rq_recv_def receive_none)
  show "\<exists>q'. rq_recv q = Inr (q', Some x) \<and> rq_inv q' \<and> rq_contents q' = xs \<and> uxLength q' = uxLength q"
    if "rq_inv q" and "rq_contents q = x # xs"
    using receive_some [OF that, of 0 "[]" 0] by (auto simp: rq_recv_def)
qed

text \<open>A send to the front of a queue with room puts the item before all others.\<close>

lemma send_front_room:
  assumes "rq_inv q" and "uxMessagesWaiting q < uxLength q"
  shows "\<exists>q' w. xQueueGenericSendFromISR ntasks cur q x woken queueSEND_TO_FRONT = Inr (q', True, w) \<and>
    rq_inv q' \<and> rq_contents q' = x # rq_contents q \<and> uxLength q' = uxLength q"
proof -
  obtain q1 where "prvCopyDataToQueue q x queueSEND_TO_FRONT = Inr q1" "rq_inv q1"
    "rq_contents q1 = x # rq_contents q" "uxLength q1 = uxLength q"
    "xTasksWaitingToReceive q1 = xTasksWaitingToReceive q"
    using copy_to_front [OF assms] by blast
  with assms show ?thesis
    by (cases "xTasksWaitingToReceive q")
       (simp_all add: xQueueGenericSendFromISR_def rq_inv_fields(8) frame_simps)
qed

lemma create_ok:
  assumes "st \<noteq> []"
  shows "\<exists>q. xQueueGenericCreate (Some st) (length st) = Inr (Some q) \<and> rq_inv q \<and>
    rq_contents q = [] \<and> uxLength q = length st"
  using assms
  by (auto simp: xQueueGenericCreate_def xQueueGenericReset_def Let_def rq_inv_def rq_front_def
    rq_contents_def Suc_le_eq)

end
