(* ===== verification/Board.thy ===== *)
theory Board
  imports RTOS_Queue
begin

text \<open>
  The board support package (\<open>Board/board.c\<close> and \<open>synaptix/bsp/bsp_board_gpio.c\<close>): LEDs,
  inputs, outputs and the RS485 driver pin on the GPIO ports, the timers, the UARTs with their
  receive queues, and the two tables of callbacks. The HAL is seen through its effect: a pin
  level, a running timer, the bytes handed to a UART. Enumeration arguments are integers, as the
  guards of the code treat them.
\<close>

datatype gpio_port = GPIOA | GPIOB | GPIOC

type_synonym pin = "gpio_port \<times> nat"

definition BSP_LED_NUM :: int where "BSP_LED_NUM = 3"
definition BSP_INPUT_NUM :: int where "BSP_INPUT_NUM = 4"
definition BSP_OUTPUT_NUM :: int where "BSP_OUTPUT_NUM = 4"
definition BSP_TIMER_NUM :: int where "BSP_TIMER_NUM = 3"
definition BSP_UART_NUM :: int where "BSP_UART_NUM = 3"

lemmas bsp_nums = BSP_LED_NUM_def BSP_INPUT_NUM_def BSP_OUTPUT_NUM_def BSP_TIMER_NUM_def BSP_UART_NUM_def

definition s_leds :: "pin list" where
  "s_leds = [(GPIOC, 13), (GPIOC, 14), (GPIOC, 15)]"

definition s_inputs :: "pin list" where
  "s_inputs = [(GPIOB, 6), (GPIOB, 5), (GPIOB, 4), (GPIOB, 3)]"

definition s_outputs :: "pin list" where
  "s_outputs = [(GPIOA, 6), (GPIOA, 7), (GPIOB, 0), (GPIOB, 1)]"

definition de_pin :: pin where
  "de_pin = (GPIOB, 13)"

text \<open>\<open>'c\<close> is the type of a transmit callback with its argument, \<open>'t\<close> that of a timer callback.\<close>

record ('c, 't) board =
  level :: "pin \<Rightarrow> bool"
  tim_running :: "bool list"
  rx_queue :: "u8 rqueue option list"
  tx_out :: "u8 list list"
  s_tx_cbs :: "'c option list"
  s_timer_cbs :: "'t option list"

definition board_reset :: "('c, 't) board" where
  "board_reset =
     \<lparr>level = (\<lambda>p. False), tim_running = [False, False, False], rx_queue = [None, None, None],
      tx_out = [[], [], []], s_tx_cbs = [None, None, None], s_timer_cbs = [None, None, None]\<rparr>"

subsection \<open>Pins\<close>

definition bsp_led_write :: "('c, 't) board \<Rightarrow> int \<Rightarrow> bool \<Rightarrow> (('c, 't) board \<times> int) res" where
  "bsp_led_write b led state =
     (if led < 0 \<or> led \<ge> BSP_LED_NUM then Inr (b, -1)
      else bindR (rd s_leds (nat led)) (\<lambda>p. Inr (b\<lparr>level := (level b)(p := state)\<rparr>, 0)))"

definition bsp_led_toggle :: "('c, 't) board \<Rightarrow> int \<Rightarrow> (('c, 't) board \<times> int) res" where
  "bsp_led_toggle b led =
     (if led < 0 \<or> led \<ge> BSP_LED_NUM then Inr (b, -1)
      else bindR (rd s_leds (nat led)) (\<lambda>p. Inr (b\<lparr>level := (level b)(p := \<not> level b p)\<rparr>, 0)))"

text \<open>The answer to a bad index is -1 as an \<open>int\<close>; an enumeration that the compiler makes one byte wide would give 255.\<close>

definition bsp_input_read :: "('c, 't) board \<Rightarrow> int \<Rightarrow> int res" where
  "bsp_input_read b input =
     (if input < 0 \<or> input \<ge> BSP_INPUT_NUM then Inr (-1)
      else bindR (rd s_inputs (nat input)) (\<lambda>p. Inr (of_bool (level b p))))"

definition bsp_output_write :: "('c, 't) board \<Rightarrow> int \<Rightarrow> bool \<Rightarrow> (('c, 't) board \<times> int) res" where
  "bsp_output_write b output state =
     (if output < 0 \<or> output \<ge> BSP_OUTPUT_NUM then Inr (b, -1)
      else bindR (rd s_outputs (nat output)) (\<lambda>p. Inr (b\<lparr>level := (level b)(p := state)\<rparr>, 0)))"

definition bsp_output_toggle :: "('c, 't) board \<Rightarrow> int \<Rightarrow> (('c, 't) board \<times> int) res" where
  "bsp_output_toggle b output =
     (if output < 0 \<or> output \<ge> BSP_OUTPUT_NUM then Inr (b, -1)
      else bindR (rd s_outputs (nat output)) (\<lambda>p. Inr (b\<lparr>level := (level b)(p := \<not> level b p)\<rparr>, 0)))"

definition bsp_rs485_de_on :: "('c, 't) board \<Rightarrow> ('c, 't) board" where
  "bsp_rs485_de_on b = b\<lparr>level := (level b)(de_pin := True)\<rparr>"

definition bsp_rs485_de_off :: "('c, 't) board \<Rightarrow> ('c, 't) board" where
  "bsp_rs485_de_off b = b\<lparr>level := (level b)(de_pin := False)\<rparr>"

text \<open>The aliases that number inputs and outputs from one.\<close>

definition bsp_get_input :: "('c, 't) board \<Rightarrow> int \<Rightarrow> int res" where
  "bsp_get_input b n = bsp_input_read b (n - 1)"

definition bsp_output_on :: "('c, 't) board \<Rightarrow> int \<Rightarrow> ('c, 't) board res" where
  "bsp_output_on b n = bindR (bsp_output_write b (n - 1) True) (\<lambda>(b', r). Inr b')"

definition bsp_output_off :: "('c, 't) board \<Rightarrow> int \<Rightarrow> ('c, 't) board res" where
  "bsp_output_off b n = bindR (bsp_output_write b (n - 1) False) (\<lambda>(b', r). Inr b')"

definition bsp_output_toggle_n :: "('c, 't) board \<Rightarrow> int \<Rightarrow> ('c, 't) board res" where
  "bsp_output_toggle_n b n = bindR (bsp_output_toggle b (n - 1)) (\<lambda>(b', r). Inr b')"

subsection \<open>Timers\<close>

definition bsp_timer_start :: "('c, 't) board \<Rightarrow> int \<Rightarrow> (('c, 't) board \<times> int) res" where
  "bsp_timer_start b timer =
     (if timer < 0 \<or> timer > BSP_TIMER_NUM then Inr (b, -1)
      else bindR (wr (tim_running b) (nat timer) True) (\<lambda>ts. Inr (b\<lparr>tim_running := ts\<rparr>, 0)))"

definition bsp_timer_stop :: "('c, 't) board \<Rightarrow> int \<Rightarrow> (('c, 't) board \<times> int) res" where
  "bsp_timer_stop b timer =
     (if timer < 0 \<or> timer > BSP_TIMER_NUM then Inr (b, -1)
      else bindR (wr (tim_running b) (nat timer) False) (\<lambda>ts. Inr (b\<lparr>tim_running := ts\<rparr>, 0)))"

text \<open>The tables of callbacks; dispatching names the callback that runs.\<close>

definition bsp_timer_set_handle :: "('c, 't) board \<Rightarrow> nat \<Rightarrow> 't option \<Rightarrow> ('c, 't) board res" where
  "bsp_timer_set_handle b timer cb =
     (if timer \<ge> 3 then Inr b
      else bindR (wr (s_timer_cbs b) timer cb) (\<lambda>cbs. Inr (b\<lparr>s_timer_cbs := cbs\<rparr>)))"

definition bsp_timer_cb :: "('c, 't) board \<Rightarrow> nat \<Rightarrow> ('t option \<times> int) res" where
  "bsp_timer_cb b timer =
     (if timer < 3 then bindR (rd (s_timer_cbs b) timer) (\<lambda>cb. Inr (cb, 0)) else Inr (None, 0))"

definition bsp_com_set_tx_callback :: "('c, 't) board \<Rightarrow> nat \<Rightarrow> 'c option \<Rightarrow> ('c, 't) board res" where
  "bsp_com_set_tx_callback b uart cb =
     (if uart \<ge> 3 then Inr b
      else bindR (wr (s_tx_cbs b) uart cb) (\<lambda>cbs. Inr (b\<lparr>s_tx_cbs := cbs\<rparr>)))"

definition bsp_uart_tx_done :: "('c, 't) board \<Rightarrow> nat \<Rightarrow> 'c option res" where
  "bsp_uart_tx_done b uart = (if uart \<ge> 3 then Inr None else rd (s_tx_cbs b) uart)"

definition bsp_get_address :: u8 where
  "bsp_get_address = 1"

subsection \<open>UARTs\<close>

text \<open>\<open>alloc\<close> is the storage the kernel's allocator hands out for the queue, if any.\<close>

definition bsp_uart_init :: "u8 list option \<Rightarrow> ('c, 't) board \<Rightarrow> int \<Rightarrow> (('c, 't) board \<times> int) res" where
  "bsp_uart_init alloc b uart =
     (if uart < 0 \<or> uart \<ge> BSP_UART_NUM then Inr (b, -1)
      else bindR (xQueueGenericCreate alloc 256) (\<lambda>q.
           bindR (wr (rx_queue b) (nat uart) q) (\<lambda>qs. Inr (b\<lparr>rx_queue := qs\<rparr>, 0))))"

text \<open>The queue handle of a UART; the kernel's functions assert that it is not null.\<close>

definition uart_queue :: "('c, 't) board \<Rightarrow> int \<Rightarrow> u8 rqueue res" where
  "uart_queue b uart =
     bindR (rd (rx_queue b) (nat uart)) (\<lambda>h. case h of None \<Rightarrow> Inl Assert_Failed | Some q \<Rightarrow> Inr q)"

definition set_queue :: "('c, 't) board \<Rightarrow> int \<Rightarrow> u8 rqueue \<Rightarrow> ('c, 't) board" where
  "set_queue b uart q = b\<lparr>rx_queue := (rx_queue b)[nat uart := Some q]\<rparr>"

text \<open>\<open>status\<close> is what \<open>HAL_UART_Transmit\<close> answers.\<close>

definition bsp_uart_transmit :: "int \<Rightarrow> ('c, 't) board \<Rightarrow> int \<Rightarrow> u8 list \<Rightarrow> u32 \<Rightarrow> (('c, 't) board \<times> int) res" where
  "bsp_uart_transmit status b uart buf len =
     (if uart < 0 \<or> uart \<ge> BSP_UART_NUM then Inr (b, -1)
      else if length buf < unat len then Inl Out_Of_Bounds
      else bindR (rd (tx_out b) (nat uart)) (\<lambda>out.
           Inr (b\<lparr>tx_out := (tx_out b)[nat uart := out @ take (unat len) buf]\<rparr>, status)))"

text \<open>
  The receive loop. Each turn reads the tick count and then waits at most one tick for a byte;
  \<open>turns\<close> gives for every turn the tick count read and what happens to the queue during the
  wait. The answer is None while the listed turns do not suffice for it to return.
\<close>

type_synonym turn = "u32 \<times> ((u8 rqueue \<Rightarrow> u8 rqueue) \<times> bool) list"

fun uart_receive_loop ::
  "nat \<Rightarrow> u32 \<Rightarrow> u32 \<Rightarrow> nat \<Rightarrow> turn list \<Rightarrow> u8 rqueue \<Rightarrow> u8 list \<Rightarrow> nat \<Rightarrow>
   (u8 rqueue \<times> u8 list \<times> nat) option res" where
  "uart_receive_loop cur time timeout len [] q buff i = Inr None"
| "uart_receive_loop cur time timeout len ((tick, env) # turns) q buff i =
     (if tick - time < timeout then
        bindR (xQueueReceive cur env q 1) (\<lambda>(q1, r).
        case r of
          Received x \<Rightarrow>
            bindR (wr buff i x) (\<lambda>buff'.
            if i + 1 \<ge> len then Inr (Some (q1, buff', i + 1))
            else uart_receive_loop cur time timeout len turns q1 buff' (i + 1))
        | Queue_Empty \<Rightarrow> uart_receive_loop cur time timeout len turns q1 buff i
        | Still_Blocked \<Rightarrow> Inr None)
      else Inr (Some (q, buff, i)))"

definition bsp_uart_receive ::
  "nat \<Rightarrow> u32 \<Rightarrow> turn list \<Rightarrow> ('c, 't) board \<Rightarrow> int \<Rightarrow> u8 list \<Rightarrow> u32 \<Rightarrow> u32 \<Rightarrow>
   (('c, 't) board \<times> u8 list \<times> int) option res" where
  "bsp_uart_receive cur now turns b uart buff len timeout =
     (if uart < 0 \<or> uart \<ge> BSP_UART_NUM then Inr (Some (b, buff, -1))
      else
        bindR (rd (rx_queue b) (nat uart)) (\<lambda>h.
        case h of
          None \<Rightarrow>
            (case turns of
               [] \<Rightarrow> Inr None
             | (tick, env) # _ \<Rightarrow> if tick - now < timeout then Inl Assert_Failed else Inr (Some (b, buff, 0)))
        | Some q \<Rightarrow>
            bindR (uart_receive_loop cur now timeout (unat len) turns q buff 0) (\<lambda>r.
            Inr (map_option (\<lambda>(q1, buff', i). (set_queue b uart q1, buff', int i)) r))))"

definition bsp_uart_available :: "('c, 't) board \<Rightarrow> int \<Rightarrow> int res" where
  "bsp_uart_available b uart =
     (if uart < 0 \<or> uart \<ge> BSP_UART_NUM then Inr (-1)
      else bindR (uart_queue b uart) (\<lambda>q. Inr (int (uxMessagesWaiting q))))"

definition bsp_uart_flush :: "nat \<Rightarrow> ('c, 't) board \<Rightarrow> int \<Rightarrow> (('c, 't) board \<times> int) res" where
  "bsp_uart_flush cur b uart =
     (if uart < 0 \<or> uart \<ge> BSP_UART_NUM then Inr (b, -1)
      else bindR (uart_queue b uart) (\<lambda>q.
           bindR (xQueueGenericReset cur q False) (\<lambda>(q1, ok).
           Inr (set_queue b uart q1, if ok then 0 else -1))))"

text \<open>
  The interrupt side: each byte goes to the front of the queue. The flag that asks for a
  context switch starts with whatever the stack holds (\<open>woken0\<close>); the last component of the
  result says whether the task yields.
\<close>

fun rx_cb_loop :: "nat \<Rightarrow> nat \<Rightarrow> u8 rqueue \<Rightarrow> u8 list \<Rightarrow> bool \<Rightarrow> (u8 rqueue \<times> bool) res" where
  "rx_cb_loop ntasks cur q [] woken = Inr (q, woken)"
| "rx_cb_loop ntasks cur q (x # xs) woken =
     bindR (xQueueGenericSendFromISR ntasks cur q x woken queueSEND_TO_FRONT) (\<lambda>(q1, sent, w).
     rx_cb_loop ntasks cur q1 xs w)"

definition bsp_uart_rx_cb ::
  "nat \<Rightarrow> nat \<Rightarrow> bool \<Rightarrow> ('c, 't) board \<Rightarrow> int \<Rightarrow> u8 list \<Rightarrow> u32 \<Rightarrow> (('c, 't) board \<times> bool \<times> int) res" where
  "bsp_uart_rx_cb ntasks cur woken0 b uart buf len =
     (if uart < 0 \<or> uart \<ge> BSP_UART_NUM then Inr (b, False, -1)
      else if len = 0 then Inr (b, woken0, 0)
      else if length buf < unat len then Inl Out_Of_Bounds
      else bindR (uart_queue b uart) (\<lambda>q.
           bindR (rx_cb_loop ntasks cur q (take (unat len) buf) woken0) (\<lambda>(q1, w).
           Inr (set_queue b uart q1, w, 0))))"

section \<open>Invariant\<close>

definition board_inv :: "('c, 't) board \<Rightarrow> bool" where
  "board_inv b \<longleftrightarrow> length (tim_running b) = 3 \<and> length (rx_queue b) = 3 \<and> length (tx_out b) = 3 \<and>
     length (s_tx_cbs b) = 3 \<and> length (s_timer_cbs b) = 3 \<and>
     (\<forall>q. Some q \<in> set (rx_queue b) \<longrightarrow> rq_inv q \<and> uxLength q = 256)"

lemma board_inv_reset: "board_inv board_reset"
  by (simp add: board_inv_def board_reset_def)

lemma board_inv_set_queue:
  "board_inv b \<Longrightarrow> rq_inv q \<Longrightarrow> uxLength q = 256 \<Longrightarrow> board_inv (set_queue b uart q)"
  by (auto simp: board_inv_def set_queue_def dest!: subsetD [OF set_update_subset_insert])

lemma uart_queue_inv:
  assumes "board_inv b" and "uart_queue b uart = Inr q"
  shows "rq_inv q" and "uxLength q = 256"
proof -
  have "Some q \<in> set (rx_queue b)"
    using assms(2) by (auto simp: uart_queue_def res_simps split: option.splits intro: nth_mem) (metis nth_mem)
  then show "rq_inv q" "uxLength q = 256" using assms(1) by (auto simp: board_inv_def)
qed

lemma uart_queue_set:
  "board_inv b \<Longrightarrow> 0 \<le> uart \<Longrightarrow> uart < 3 \<Longrightarrow> uart_queue (set_queue b uart q) uart = Inr q"
  by (simp add: uart_queue_def set_queue_def board_inv_def nat_less_iff)

lemma uart_init_ok:
  assumes "board_inv b" and "0 \<le> uart" and "uart < 3" and "length st = 256"
  shows "\<exists>b' q. bsp_uart_init (Some st) b uart = Inr (b', 0) \<and> board_inv b' \<and>
    uart_queue b' uart = Inr q \<and> rq_contents q = []"
proof -
  have "st \<noteq> []" using assms(4) by auto
  from create_ok [OF this] assms(4) obtain q where q: "xQueueGenericCreate (Some st) 256 = Inr (Some q)"
    "rq_inv q" "rq_contents q = []" "uxLength q = 256" by auto
  have "bsp_uart_init (Some st) b uart = Inr (set_queue b uart q, 0)"
    using assms(1-3) q(1) by (simp add: bsp_uart_init_def bsp_nums set_queue_def board_inv_def nat_less_iff)
  with q assms(1-3) show ?thesis using board_inv_set_queue uart_queue_set by blast
qed

text \<open>The interrupt stacks what fits in front of the queue.\<close>

lemma send_front_full:
  "rq_inv q \<Longrightarrow> uxMessagesWaiting q = uxLength q \<Longrightarrow>
   xQueueGenericSendFromISR n c q x w queueSEND_TO_FRONT = Inr (q, False, w)"
  by (simp add: xQueueGenericSendFromISR_def)

lemma rx_cb_loop_stacks:
  assumes "rq_inv q"
  shows "\<exists>q' w'. rx_cb_loop n c q xs w = Inr (q', w') \<and> rq_inv q' \<and> uxLength q' = uxLength q \<and>
    rq_contents q' = rev (take (uxLength q - length (rq_contents q)) xs) @ rq_contents q"
  using assms
proof (induction xs arbitrary: q w)
  case (Cons x xs)
  show ?case
  proof (cases "uxMessagesWaiting q < uxLength q")
    case True
    from send_front_room [OF Cons.prems this, of n c x w] obtain q1 w1 where
      1: "xQueueGenericSendFromISR n c q x w queueSEND_TO_FRONT = Inr (q1, True, w1)" "rq_inv q1"
      "rq_contents q1 = x # rq_contents q" "uxLength q1 = uxLength q" by blast
    obtain k where k: "uxLength q - length (rq_contents q) = Suc k"
      using True by (metis Suc_diff_Suc rq_length)
    then have "uxLength q1 - length (rq_contents q1) = k" by (simp add: 1(3,4))
    with Cons.IH [OF 1(2), of w1] 1 k show ?thesis by auto
  next
    case False
    then have full: "uxMessagesWaiting q = uxLength q" using Cons.prems by (simp add: rq_inv_def)
    then show ?thesis using send_front_full [OF Cons.prems full] Cons.IH [OF Cons.prems, of w]
      by (simp add: rq_length)
  qed
qed simp

text \<open>The receive loop takes the oldest bytes first.\<close>

lemma receive_loop_takes:
  assumes "rq_inv q" and "rq_contents q = xs @ ys" and "length xs = len - i" and "i < len"
    and "len - i \<le> length turns" and "\<forall>t \<in> set turns. fst t - time < timeout" and "len \<le> length buff"
  shows "\<exists>q'. uart_receive_loop cur time timeout len turns q buff i = Inr (Some (q', blit i xs buff, len)) \<and>
    rq_inv q' \<and> uxLength q' = uxLength q \<and> rq_contents q' = ys"
  using assms
proof (induction turns arbitrary: q xs i buff)
  case (Cons t turns)
  obtain tick env where t: "t = (tick, env)" by (cases t)
  obtain x xs' where xs: "xs = x # xs'" using Cons.prems(3,4) by (cases xs) auto
  obtain q1 where q1: "xQueueReceive cur env q 1 = Inr (q1, Received x)" "rq_inv q1"
    "rq_contents q1 = xs' @ ys" "uxLength q1 = uxLength q"
    using receive_some [OF Cons.prems(1), of x "xs' @ ys" cur env 1] Cons.prems(2) by (auto simp: xs)
  show ?case
  proof (cases "Suc i = len")
    case True
    then have "xs' = []" using Cons.prems(3) by (auto simp: xs True [symmetric])
    then show ?thesis using Cons.prems q1 True by (simp add: t xs blit_Cons)
  next
    case False
    then have "Suc i < len" using Cons.prems(4) by simp
    moreover have "length xs' = len - Suc i" using Cons.prems(3) by (simp add: xs)
    moreover have "len - Suc i \<le> length turns" using Cons.prems(5) by simp
    ultimately obtain q2 where "uart_receive_loop cur time timeout len turns q1 (buff[i := x]) (Suc i) =
        Inr (Some (q2, blit (Suc i) xs' (buff[i := x]), len))" "rq_inv q2" "uxLength q2 = uxLength q1"
      "rq_contents q2 = ys"
      using Cons.IH [OF q1(2,3), of "Suc i" "buff[i := x]"] Cons.prems(5-7) by auto
    then show ?thesis using Cons.prems q1 \<open>Suc i < len\<close> by (simp add: t xs blit_Cons)
  qed
qed simp

lemma uart_queue_Inr:
  "uart_queue b uart = Inr q \<longleftrightarrow> nat uart < length (rx_queue b) \<and> rx_queue b ! nat uart = Some q"
  by (auto simp: uart_queue_def res_simps split: option.splits)

lemma uart_receive_takes:
  assumes "board_inv b" and "0 \<le> uart" and "uart < 3" and "uart_queue b uart = Inr q"
    and "rq_contents q = xs @ ys" and "length xs = unat len" and "0 < unat len"
    and "unat len \<le> length turns" and "\<forall>t \<in> set turns. fst t - now < timeout" and "unat len \<le> length buff"
  shows "\<exists>b' q'. bsp_uart_receive cur now turns b uart buff len timeout =
      Inr (Some (b', xs @ drop (unat len) buff, int (unat len))) \<and>
    board_inv b' \<and> uart_queue b' uart = Inr q' \<and> rq_contents q' = ys"
proof -
  note i = uart_queue_inv [OF assms(1,4)]
  obtain q' where q': "uart_receive_loop cur now timeout (unat len) turns q buff 0 =
      Inr (Some (q', blit 0 xs buff, unat len))" "rq_inv q'" "uxLength q' = uxLength q" "rq_contents q' = ys"
    using receive_loop_takes [OF i(1) assms(5), of "unat len" 0 turns now timeout buff cur] assms(6-10) by auto
  have "bsp_uart_receive cur now turns b uart buff len timeout =
      Inr (Some (set_queue b uart q', blit 0 xs buff, int (unat len)))"
    using assms(2-4) q'(1) by (simp add: bsp_uart_receive_def bsp_nums uart_queue_Inr)
  moreover have "blit 0 xs buff = xs @ drop (unat len) buff" by (simp add: blit_def assms(6))
  moreover have "board_inv (set_queue b uart q')"
    using board_inv_set_queue [OF assms(1) q'(2)] q'(3) i(2) by simp
  ultimately show ?thesis using uart_queue_set [OF assms(1-3)] q'(4) by auto
qed

subsection \<open>The receive loop ends\<close>

text \<open>A wait that is over at some point, and during which others only use the queue properly.\<close>

definition wait_ends :: "((u8 rqueue \<Rightarrow> u8 rqueue) \<times> bool) list \<Rightarrow> bool" where
  "wait_ends env \<longleftrightarrow> (\<exists>e \<in> set env. snd e) \<and>
     (\<forall>e \<in> set env. \<forall>q. rq_inv q \<longrightarrow> rq_inv (fst e q) \<and> uxLength (fst e q) = uxLength q)"

lemma receive_ends:
  assumes "rq_inv q" and "t = 0 \<or> wait_ends env"
  shows "\<exists>q' r. xQueueReceive cur env q t = Inr (q', r) \<and> r \<noteq> Still_Blocked \<and> rq_inv q' \<and> uxLength q' = uxLength q"
  using assms
proof (induction env arbitrary: q t)
  case Nil
  show ?case
  proof (cases "rq_contents q")
    case Nil
    with Nil.prems show ?thesis using receive_none [of q cur "[]"] by (auto simp: wait_ends_def)
  next
    case (Cons x xs)
    from receive_some [OF Nil.prems(1) this, of cur "[]" t] show ?thesis by blast
  qed
next
  case (Cons e env)
  show ?case
  proof (cases "rq_contents q")
    case (Cons x xs)
    from receive_some [OF Cons.prems(1) this, of cur "e # env" t] show ?thesis by blast
  next
    case Nil
    then have n: "uxMessagesWaiting q = 0" using rq_length [of q] by simp
    show ?thesis
    proof (cases "t = 0")
      case True
      then show ?thesis using receive_none [OF Nil, of cur "e # env"] Cons.prems(1) by simp
    next
      case False
      then have w: "wait_ends (e # env)" using Cons.prems(2) by simp
      then have i: "rq_inv (fst e q)" "uxLength (fst e q) = uxLength q"
        using Cons.prems(1) by (simp_all add: wait_ends_def)
      have step: "xQueueReceive cur (e # env) q t =
          (if \<not> snd e then xQueueReceive cur env (fst e q) t
           else if uxMessagesWaiting (fst e q) = 0 then Inr (fst e q, Queue_Empty)
           else xQueueReceive cur env (fst e q) 0)"
        using n False by (subst xQueueReceive.simps) (simp add: split_beta Let_def)
      show ?thesis
      proof (cases "snd e")
        case True
        then show ?thesis using i Cons.IH [OF i(1), of 0] unfolding step by auto
      next
        case False
        then have "wait_ends env" using w by (auto simp: wait_ends_def)
        then show ?thesis using i Cons.IH [OF i(1), of t] False unfolding step by auto
      qed
    qed
  qed
qed

lemma receive_loop_ends:
  assumes "rq_inv q" and "\<forall>t \<in> set turns. wait_ends (snd t)" and "\<exists>t \<in> set turns. \<not> fst t - time < timeout"
    and "i < max 1 len" and "max 1 len \<le> length buff"
  shows "\<exists>q' buff' n. uart_receive_loop cur time timeout len turns q buff i = Inr (Some (q', buff', n)) \<and>
    rq_inv q' \<and> uxLength q' = uxLength q \<and> length buff' = length buff \<and> i \<le> n \<and> n \<le> max 1 len \<and>
    take i buff' = take i buff \<and> drop n buff' = drop n buff"
  using assms
proof (induction turns arbitrary: q i buff)
  case (Cons t turns)
  obtain tick env where t: "t = (tick, env)" by (cases t)
  show ?case
  proof (cases "tick - time < timeout")
    case False
    then show ?thesis using Cons.prems by (simp add: t)
  next
    case True
    then have later: "\<exists>t \<in> set turns. \<not> fst t - time < timeout" "\<forall>t \<in> set turns. wait_ends (snd t)" "wait_ends env"
      using Cons.prems(2,3) by (auto simp: t)
    obtain q1 r where r: "xQueueReceive cur env q 1 = Inr (q1, r)" "r \<noteq> Still_Blocked" "rq_inv q1"
      "uxLength q1 = uxLength q" using receive_ends [OF Cons.prems(1), of 1 env cur] later(3) by auto
    show ?thesis
    proof (cases r)
      case (Received x)
      have b: "i < length buff" using Cons.prems(4,5) by linarith
      show ?thesis
      proof (cases "len \<le> i + 1")
        case True
        then show ?thesis using \<open>tick - time < timeout\<close> r Received b Cons.prems(4) by (simp add: t)
      next
        case False
        then have "i + 1 < max 1 len" "max 1 len \<le> length (buff[i := x])" using Cons.prems(5) by auto
        from Cons.IH [OF r(3) later(2,1) this] obtain q' buff' n where
          *: "uart_receive_loop cur time timeout len turns q1 (buff[i := x]) (i + 1) = Inr (Some (q', buff', n))"
          "rq_inv q'" "uxLength q' = uxLength q1" "length buff' = length buff" "i + 1 \<le> n" "n \<le> max 1 len"
          "take (i + 1) buff' = take (i + 1) (buff[i := x])" "drop n buff' = drop n (buff[i := x])" by auto
        have "take i buff' = take i buff"
          using arg_cong [OF *(7), of "take i"] by (simp add: min_def)
        then show ?thesis using \<open>tick - time < timeout\<close> r Received b False * by (simp add: t)
      qed
    next
      case Queue_Empty
      then show ?thesis using Cons.IH [OF r(3) later(2,1) Cons.prems(4,5)] True r by (simp add: t)
    qed (use r in simp)
  qed
qed simp

subsection \<open>Pins\<close>

text \<open>LEDs, inputs, outputs and the driver line are all on different pins.\<close>

lemma pins_distinct: "distinct (s_leds @ s_inputs @ s_outputs @ [de_pin])"
  by (simp add: s_leds_def s_inputs_def s_outputs_def de_pin_def)

lemma nth4: "0 \<le> i \<Longrightarrow> i < 4 \<Longrightarrow> [a, b, c, d] ! nat i = (if i = 0 then a else if i = 1 then b else if i = 2 then c else d)"
proof -
  assume "0 \<le> i" and "i < 4"
  then have "i = 0 \<or> i = 1 \<or> i = 2 \<or> i = 3" by presburger
  then show ?thesis by auto
qed

section \<open>Properties\<close>

text \<open>Bytes that arrive in one interrupt are handed out in reverse. The interrupt function puts each
  byte at the front of the receive queue, so a read of as many bytes as arrived, within its
  timeout, fills the buffer with the last byte first.\<close>

lemma uart_bytes_reversed:
  assumes "board_inv b" and "0 \<le> uart" and "uart < 3" and "uart_queue b uart = Inr q"
    and "rq_contents q = []" and "length bs = unat len" and "1 \<le> unat len" and "unat len \<le> 256"
    and "unat len \<le> length turns" and "\<forall>t \<in> set turns. fst t - now < timeout" and "unat len \<le> length buff"
  shows "\<exists>b1 w b2. bsp_uart_rx_cb n c w0 b uart bs len = Inr (b1, w, 0) \<and>
    bsp_uart_available b1 uart = Inr (int (unat len)) \<and>
    bsp_uart_receive cur now turns b1 uart buff len timeout =
      Inr (Some (b2, rev bs @ drop (unat len) buff, int (unat len))) \<and>
    bsp_uart_available b2 uart = Inr 0"
proof -
  note i = uart_queue_inv [OF assms(1,4)]
  obtain q1 w where q1: "rx_cb_loop n c q bs w0 = Inr (q1, w)" "rq_inv q1" "uxLength q1 = uxLength q"
    "rq_contents q1 = rev bs"
    using rx_cb_loop_stacks [OF i(1), of n c bs w0] assms(5,6,8) i(2) by auto
  let ?b1 = "set_queue b uart q1"
  have "len \<noteq> 0" using assms(7) by auto
  then have r: "bsp_uart_rx_cb n c w0 b uart bs len = Inr (?b1, w, 0)"
    using assms(2-4,6) q1(1) by (simp add: bsp_uart_rx_cb_def bsp_nums)
  have b1: "board_inv ?b1" using board_inv_set_queue [OF assms(1) q1(2)] q1(3) i(2) by simp
  have u1: "uart_queue ?b1 uart = Inr q1" by (rule uart_queue_set [OF assms(1-3)])
  have "rq_contents q1 = rev bs @ []" "length (rev bs) = unat len" "0 < unat len"
    using q1(4) assms(6,7) by simp_all
  from uart_receive_takes [OF b1 assms(2,3) u1 this assms(9-11)] obtain b2 q2 where
    b2: "bsp_uart_receive cur now turns ?b1 uart buff len timeout =
      Inr (Some (b2, rev bs @ drop (unat len) buff, int (unat len)))"
    "uart_queue b2 uart = Inr q2" "rq_contents q2 = []" by blast
  have "uxMessagesWaiting q1 = unat len" "uxMessagesWaiting q2 = 0"
    using rq_length [of q1] rq_length [of q2] q1(4) b2(3) assms(6) by simp_all
  then show ?thesis using r u1 b2 assms(2,3) by (simp add: bsp_uart_available_def bsp_nums)
qed

lemma uart_bytes_reversed_example:
  "\<exists>b0 b1 w b2. bsp_uart_init (Some (replicate 256 0)) (board_reset :: (nat, nat) board) 1 = Inr (b0, 0) \<and>
    bsp_uart_rx_cb 8 24 False b0 1 [1, 3, 5] 3 = Inr (b1, w, 0) \<and>
    bsp_uart_receive 24 100 [(100, []), (100, []), (101, [])] b1 1 [0, 0, 0, 0] 3 10 =
      Inr (Some (b2, [5, 3, 1, 0], 3))"
proof -
  define t where "t = replicate 256 (0 :: u8)"
  have "length t = 256" by (simp add: t_def)
  from uart_init_ok [OF board_inv_reset _ _ this, of 1] obtain b0 q where
    b0: "bsp_uart_init (Some t) (board_reset :: (nat, nat) board) 1 = Inr (b0, 0)" "board_inv b0"
    "uart_queue b0 1 = Inr q" "rq_contents q = []" by auto
  have "\<forall>t \<in> set [(100, []), (100, []), (101, [])]. fst t - 100 < (10 :: u32)" by simp
  with uart_bytes_reversed [OF b0(2) _ _ b0(3,4), of "[1, 3, 5]" 3 "[(100, []), (100, []), (101, [])]" 100 10
      "[0, 0, 0, 0]" 8 24 False 24]
  show ?thesis using b0(1) unfolding t_def by auto
qed

text \<open>C23: The receive function always returns. If every wait for a byte ends (the kernel's time-out sees
  to that) and the tick count reaches the timeout at some turn, at whatever count the wrap-around
  of the 32-bit tick finds it, the function returns a count between 0 and the requested
  length, has written that many bytes and none behind them, and leaves the board intact. For a
  requested length of 0 the bound is 1: a byte that is there is stored before the length is looked at.\<close>

theorem bsp_uart_receive_returns:
  assumes "board_inv b" and "0 \<le> uart" and "uart < 3" and "uart_queue b uart = Inr q"
    and "\<forall>t \<in> set turns. wait_ends (snd t)" and "\<exists>t \<in> set turns. \<not> fst t - now < timeout"
    and "max 1 (unat len) \<le> length buff"
  shows "\<exists>b' buff' n. bsp_uart_receive cur now turns b uart buff len timeout = Inr (Some (b', buff', int n)) \<and>
    n \<le> max 1 (unat len) \<and> length buff' = length buff \<and> drop n buff' = drop n buff \<and> board_inv b'"
proof -
  note i = uart_queue_inv [OF assms(1,4)]
  have "0 < max 1 (unat len)" by simp
  from receive_loop_ends [OF i(1) assms(5,6) this assms(7), of cur] obtain q' buff' n where
    *: "uart_receive_loop cur now timeout (unat len) turns q buff 0 = Inr (Some (q', buff', n))"
    "rq_inv q'" "uxLength q' = uxLength q" "length buff' = length buff" "n \<le> max 1 (unat len)"
    "drop n buff' = drop n buff" by blast
  have "bsp_uart_receive cur now turns b uart buff len timeout = Inr (Some (set_queue b uart q', buff', int n))"
    using assms(2-4) *(1) by (simp add: bsp_uart_receive_def bsp_nums uart_queue_Inr)
  then show ?thesis using * board_inv_set_queue [OF assms(1) *(2)] i(2) by auto
qed

theorem bsp_uart_receive_returns_witness:
  "\<exists>b0 b' buff' n. bsp_uart_init (Some (replicate 256 0)) (board_reset :: (nat, nat) board) 1 = Inr (b0, 0) \<and>
    bsp_uart_receive 24 0xFFFFFFFF [(0xFFFFFFFF, [(\<lambda>q. q, True)]), (9, [(\<lambda>q. q, True)])] b0 1 [7, 7] 2 10 =
      Inr (Some (b', buff', int n)) \<and> n \<le> 2 \<and> length buff' = 2"
proof -
  define t where "t = replicate 256 (0 :: u8)"
  have "length t = 256" by (simp add: t_def)
  from uart_init_ok [OF board_inv_reset _ _ this, of 1] obtain b0 q where
    b0: "bsp_uart_init (Some t) (board_reset :: (nat, nat) board) 1 = Inr (b0, 0)" "board_inv b0"
    "uart_queue b0 1 = Inr q" by auto
  have "\<forall>t \<in> set [(0xFFFFFFFF :: u32, [(\<lambda>q :: u8 rqueue. q, True)]), (9, [(\<lambda>q. q, True)])]. wait_ends (snd t)"
    by (simp add: wait_ends_def)
  from bsp_uart_receive_returns [OF b0(2) _ _ b0(3) this, of "0xFFFFFFFF" 10 2 "[7, 7]" 24]
  show ?thesis using b0(1) unfolding t_def by auto
qed

text \<open>Argument checks of the board functions. For every argument the pin functions either refuse it
  with -1 and change nothing, or drive exactly the pin of the table, which is no pin of another
  group. The timer functions let index 3 through and reach behind their table.\<close>

lemma bsp_arguments:
  assumes "board_inv b"
  shows "bsp_output_write b x v =
      (if x \<in> {0..3} then Inr (b\<lparr>level := (level b)(s_outputs ! nat x := v)\<rparr>, 0) else Inr (b, -1)) \<and>
    bsp_led_write b x v =
      (if x \<in> {0..2} then Inr (b\<lparr>level := (level b)(s_leds ! nat x := v)\<rparr>, 0) else Inr (b, -1)) \<and>
    bsp_timer_start b x =
      (if x = 3 then Inl Out_Of_Bounds
       else if x \<in> {0..2} then Inr (b\<lparr>tim_running := (tim_running b)[nat x := True]\<rparr>, 0) else Inr (b, -1)) \<and>
    bsp_timer_stop b x =
      (if x = 3 then Inl Out_Of_Bounds
       else if x \<in> {0..2} then Inr (b\<lparr>tim_running := (tim_running b)[nat x := False]\<rparr>, 0) else Inr (b, -1)) \<and>
    distinct (s_leds @ s_inputs @ s_outputs @ [de_pin])"
proof (intro conjI pins_distinct)
qed (use assms in \<open>auto simp: bsp_output_write_def bsp_led_write_def bsp_timer_start_def bsp_timer_stop_def
  bsp_nums s_outputs_def s_leds_def rd_def wr_def board_inv_def nat_less_iff\<close>)

lemma bsp_arguments_example:
  "bsp_timer_start (board_reset :: (nat, nat) board) 3 = Inl Out_Of_Bounds \<and>
   bsp_output_write (board_reset :: (nat, nat) board) 4 True = Inr (board_reset, -1)"
proof -
  have i: "board_inv (board_reset :: (nat, nat) board)" by (rule board_inv_reset)
  show ?thesis using bsp_arguments [OF i, of 3 True] bsp_arguments [OF i, of 4 True] by simp
qed

end
