(* ===== verification/Gateway.thy ===== *)
theory Gateway
  imports MB_Stack Board
begin

text \<open>
  The Modbus service on the board: the receive queue of the RS485 UART between the interrupt and
  the task (\<open>portserial.c\<close>, \<open>modbus_service.c\<close>, \<open>board.c\<close>). \<open>MB_Stack\<close> gives a round of the task
  the bytes it reads; here those bytes are what \<open>bsp_uart_receive\<close> takes from the queue that
  \<open>bsp_uart_rx_cb\<close> fills, with interrupts before every read. The stack of the received bytes
  is what both sides amount to, and a round of the task refines a round over that stack.
\<close>

record ('r, 's, 'c, 't) gateway =
  gw_stack :: "('r, 's) mb_stack"
  gw_board :: "('c, 't) board"

text \<open>
  What one turn of the receive loop meets: the bytes of the interrupts before it (each with the
  uninitialised woken flag), the tick counts, and the byte its uninitialised variable holds.
\<close>

record poll_env =
  pe_arrivals :: "u8 list"
  pe_woken :: bool
  pe_now :: u32
  pe_turns :: "turn list"
  pe_ucByte :: u8

definition xMBPortSerialGetByte ::
  "nat \<Rightarrow> u32 \<Rightarrow> turn list \<Rightarrow> ('c, 't) board \<Rightarrow> u8 \<Rightarrow> (('c, 't) board \<times> u8 \<times> bool) option res" where
  "xMBPortSerialGetByte cur now turns b ucByte =
     bindR (bsp_uart_receive cur now turns b (uint BSP_RS485) [ucByte] 1 10) (\<lambda>r.
     case r of
       None \<Rightarrow> Inr None
     | Some (b', buf, n) \<Rightarrow> bindR (rd buf 0) (\<lambda>x. Inr (Some (b', x, (word_of_int n :: u8) = 1))))"

text \<open>
  The loop of \<open>mb_uart_rx_task\<close>. The receiver ignores the answer of the read and uses its variable
  in any case. The loop needs one environment per byte announced.
\<close>

fun rx_task_loop ::
  "nat \<Rightarrow> nat \<Rightarrow> ('m \<Rightarrow> u8 \<Rightarrow> ('m \<times> bool) res) \<Rightarrow> nat \<Rightarrow> poll_env list \<Rightarrow> 'm \<Rightarrow> ('c, 't) board \<Rightarrow>
   ('m \<times> ('c, 't) board) option res" where
  "rx_task_loop ntasks cur fsm 0 es m b = Inr (Some (m, b))"
| "rx_task_loop ntasks cur fsm (Suc k) [] m b = Inr None"
| "rx_task_loop ntasks cur fsm (Suc k) (e # es) m b =
     bindR (bsp_uart_rx_cb ntasks cur (pe_woken e) b (uint BSP_RS485) (pe_arrivals e)
              (word_of_nat (length (pe_arrivals e)))) (\<lambda>(b1, _).
     bindR (xMBPortSerialGetByte cur (pe_now e) (pe_turns e) b1 (pe_ucByte e)) (\<lambda>r.
     case r of
       None \<Rightarrow> Inr None
     | Some (b2, x, _) \<Rightarrow> bindR (fsm m x) (\<lambda>(m', need). rx_task_loop ntasks cur fsm k es m' b2)))"

definition mb_uart_rx_task ::
  "nat \<Rightarrow> nat \<Rightarrow> poll_env list \<Rightarrow> ('r, 's, 'c, 't) gateway \<Rightarrow> ('r, 's, 'c, 't) gateway option res" where
  "mb_uart_rx_task ntasks cur es g =
     bindR (bsp_uart_available (gw_board g) (uint BSP_RS485)) (\<lambda>len.
     if len > 0 then
       (case st_cb (gw_stack g) of
          None \<Rightarrow> Inr (Some g)
        | Some l \<Rightarrow>
            bindR (rx_task_loop ntasks cur (fl_ByteReceived l) (nat len) es (st_modbus (gw_stack g)) (gw_board g))
              (\<lambda>r. Inr (map_option (\<lambda>(m, b). g\<lparr>gw_stack := (gw_stack g)\<lparr>st_modbus := m\<rparr>, gw_board := b\<rparr>) r)))
     else Inr (Some g))"

text \<open>A round of \<open>modbus_task\<close>, and the events of the service.\<close>

definition gateway_round ::
  "nat \<Rightarrow> nat \<Rightarrow> poll_env list \<Rightarrow> ('r, 's, 'c, 't) gateway \<Rightarrow> ('r, 's, 'c, 't) gateway option res" where
  "gateway_round ntasks cur es g =
     bindR (eMBPoll (gw_stack g)) (\<lambda>(s, _). mb_uart_rx_task ntasks cur es (g\<lparr>gw_stack := s\<rparr>))"

datatype gw_event = Rx_Byte u8 | Task_Round "poll_env list" | Frame_Timer

fun gw_step ::
  "nat \<Rightarrow> nat \<Rightarrow> gw_event \<Rightarrow> ('r, 's, 'c, 't) gateway \<Rightarrow> ('r, 's, 'c, 't) gateway option res" where
  "gw_step ntasks cur (Rx_Byte x) g =
     bindR (bsp_uart_rx_cb ntasks cur False (gw_board g) (uint BSP_RS485) [x] 1) (\<lambda>(b, _).
     Inr (Some (g\<lparr>gw_board := b\<rparr>)))"
| "gw_step ntasks cur (Task_Round es) g = gateway_round ntasks cur es g"
| "gw_step ntasks cur Frame_Timer g =
     bindR (mb_timer0_callback (gw_stack g)) (\<lambda>s. Inr (Some (g\<lparr>gw_stack := s\<rparr>)))"

fun gw_run ::
  "nat \<Rightarrow> nat \<Rightarrow> gw_event list \<Rightarrow> ('r, 's, 'c, 't) gateway \<Rightarrow> ('r, 's, 'c, 't) gateway option res" where
  "gw_run ntasks cur [] g = Inr (Some g)"
| "gw_run ntasks cur (ev # evs) g =
     bindR (gw_step ntasks cur ev g) (\<lambda>r. case r of None \<Rightarrow> Inr None | Some g' \<Rightarrow> gw_run ntasks cur evs g')"

text \<open>\<open>modbus_service_init\<close> with its first call, the UART; \<open>alloc_q\<close> is the storage of its queue.\<close>

definition gateway_init ::
  "u8 list option \<Rightarrow> bool \<Rightarrow> (MB_RTU.eMBRcvState, MB_RTU.eMBSndState, 'c, 't) gateway \<Rightarrow>
   (MB_RTU.eMBRcvState, MB_RTU.eMBSndState, 'c, 't) gateway res" where
  "gateway_init alloc_q alloc g =
     bindR (bsp_uart_init alloc_q (gw_board g) (uint BSP_RS485)) (\<lambda>(b, _).
     bindR (modbus_service_init alloc (gw_stack g)) (\<lambda>s. Inr \<lparr>gw_stack = s, gw_board = b\<rparr>))"

section \<open>The stack of received bytes\<close>

definition stacked :: "u8 list \<Rightarrow> u8 list \<Rightarrow> u8 list" where
  "stacked bs st = rev (take (256 - length st) bs) @ st"

text \<open>What a round reads, with the arrivals before every read, and what it leaves.\<close>

fun drained :: "u8 list list \<Rightarrow> u8 list \<Rightarrow> u8 list \<times> u8 list" where
  "drained [] st = ([], st)"
| "drained (a # as) st =
     (let st' = stacked a st; (r, l) = drained as (tl st') in (hd st' # r, l))"

text \<open>The queue of the line holds these bytes, the next to be read first.\<close>

definition gw_holds :: "('c, 't) board \<Rightarrow> u8 list \<Rightarrow> bool" where
  "gw_holds b st \<longleftrightarrow> board_inv b \<and> (\<exists>q. uart_queue b (uint BSP_RS485) = Inr q \<and> rq_contents q = st)"

text \<open>A read that is asked for a waiting byte before its ten ticks are over.\<close>

definition prompt :: "poll_env \<Rightarrow> bool" where
  "prompt e \<longleftrightarrow> pe_turns e \<noteq> [] \<and> (\<forall>t \<in> set (pe_turns e). fst t - pe_now e < 10) \<and>
     length (pe_arrivals e) < 2 ^ 32"

lemma line_index [simp]: "uint BSP_RS485 = 1"
  by (simp add: BSP_RS485_def)

lemma holds_length: "gw_holds b st \<Longrightarrow> length st \<le> 256"
  using uart_queue_inv [of b 1] by (auto simp: gw_holds_def rq_inv_def rq_length)

lemma holds_available: "gw_holds b st \<Longrightarrow> bsp_uart_available b 1 = Inr (int (length st))"
  by (auto simp: gw_holds_def bsp_uart_available_def bsp_nums rq_length)

lemma holds_interrupt:
  assumes "gw_holds b st" and "length bs < 2 ^ 32"
  shows "\<exists>b' w. bsp_uart_rx_cb n c w0 b 1 bs (word_of_nat (length bs)) = Inr (b', w, 0) \<and>
    gw_holds b' (stacked bs st)"
proof (cases "bs = []")
  case True
  then show ?thesis using assms(1) by (simp add: bsp_uart_rx_cb_def bsp_nums stacked_def)
next
  case False
  obtain q where q: "board_inv b" "uart_queue b 1 = Inr q" "rq_contents q = st"
    using assms(1) by (auto simp: gw_holds_def)
  note i = uart_queue_inv [OF q(1,2)]
  obtain q' w where q': "rx_cb_loop n c q bs w0 = Inr (q', w)" "rq_inv q'" "uxLength q' = uxLength q"
    "rq_contents q' = stacked bs st"
    using rx_cb_loop_stacks [OF i(1), of n c bs w0] i(2) q(3) by (auto simp: stacked_def)
  have l: "unat (word_of_nat (length bs) :: u32) = length bs"
    using assms(2) by (simp add: unat_of_nat)
  then have "(word_of_nat (length bs) :: u32) \<noteq> 0" using False by (metis length_0_conv unat_0)
  then have "bsp_uart_rx_cb n c w0 b 1 bs (word_of_nat (length bs)) = Inr (set_queue b 1 q', w, 0)"
    using q(2) q'(1) l by (simp add: bsp_uart_rx_cb_def bsp_nums)
  moreover have "gw_holds (set_queue b 1 q') (stacked bs st)"
    using board_inv_set_queue [OF q(1) q'(2)] q'(3,4) i(2) uart_queue_set [OF q(1)] by (simp add: gw_holds_def)
  ultimately show ?thesis by blast
qed

lemma holds_get_byte:
  assumes "gw_holds b (x # st)" and "turns \<noteq> []" and "\<forall>t \<in> set turns. fst t - now < 10"
  shows "\<exists>b'. xMBPortSerialGetByte c now turns b u = Inr (Some (b', x, True)) \<and> gw_holds b' st"
proof -
  obtain q where q: "board_inv b" "uart_queue b 1 = Inr q" "rq_contents q = [x] @ st"
    using assms(1) by (auto simp: gw_holds_def)
  have "length [x] = unat (1 :: u32)" "0 < unat (1 :: u32)" "unat (1 :: u32) \<le> length [u]" by simp_all
  moreover have "unat (1 :: u32) \<le> length turns" using assms(2) by (cases turns) simp_all
  ultimately obtain b' q' where "bsp_uart_receive c now turns b 1 [u] 1 10 = Inr (Some (b', [x], 1))"
    "board_inv b'" "uart_queue b' 1 = Inr q'" "rq_contents q' = st"
    using uart_receive_takes [OF q(1) _ _ q(2,3), of 1 turns now 10 "[u]" c] assms(3) by auto
  then show ?thesis by (simp add: xMBPortSerialGetByte_def gw_holds_def)
qed

lemma stacked_Cons: "st \<noteq> [] \<Longrightarrow> \<exists>x st'. stacked a st = x # st' \<and> length st \<le> Suc (length st')"
  by (cases "stacked a st") (auto simp: stacked_def dest: arg_cong [of _ _ length])

lemma loop_drains:
  assumes "gw_holds b st" and "length es = k" and "k \<le> length st" and "\<forall>e \<in> set es. prompt e"
  shows "case feed fsm m (fst (drained (map pe_arrivals es) st)) of
      Inl f \<Rightarrow> rx_task_loop n c fsm k es m b = Inl f
    | Inr m' \<Rightarrow> \<exists>b'. rx_task_loop n c fsm k es m b = Inr (Some (m', b')) \<and>
        gw_holds b' (snd (drained (map pe_arrivals es) st))"
  using assms
proof (induction es arbitrary: k m b st)
  case (Cons e es)
  obtain k' where k: "k = Suc k'" "length es = k'" using Cons.prems(2) by auto
  have e: "pe_turns e \<noteq> []" "\<forall>t \<in> set (pe_turns e). fst t - pe_now e < 10" "length (pe_arrivals e) < 2 ^ 32"
    using Cons.prems(4) by (simp_all add: prompt_def)
  obtain b1 w where b1: "bsp_uart_rx_cb n c (pe_woken e) b 1 (pe_arrivals e)
      (word_of_nat (length (pe_arrivals e))) = Inr (b1, w, 0)" "gw_holds b1 (stacked (pe_arrivals e) st)"
    using holds_interrupt [OF Cons.prems(1) e(3)] by blast
  have "st \<noteq> []" using Cons.prems(3) k(1) by auto
  then obtain x st' where x: "stacked (pe_arrivals e) st = x # st'" "k' \<le> length st'"
    using stacked_Cons [of st "pe_arrivals e"] Cons.prems(3) k(1) by auto
  obtain b2 where b2: "xMBPortSerialGetByte c (pe_now e) (pe_turns e) b1 (pe_ucByte e) = Inr (Some (b2, x, True))"
    "gw_holds b2 st'" using holds_get_byte [OF b1(2) [unfolded x(1)] e(1,2)] by blast
  have r: "rx_task_loop n c fsm k (e # es) m b = bindR (fsm m x) (\<lambda>(m', need). rx_task_loop n c fsm k' es m' b2)"
    using b1(1) b2(1) by (simp add: k(1))
  have d: "drained (map pe_arrivals (e # es)) st =
      (x # fst (drained (map pe_arrivals es) st'), snd (drained (map pe_arrivals es) st'))"
    using x(1) by (simp add: Let_def split_beta)
  show ?case
  proof (cases "fsm m x")
    case (Inl f)
    then show ?thesis using r unfolding d by simp
  next
    case (Inr mn)
    obtain m' need where mn: "mn = (m', need)" by (cases mn)
    have "\<forall>e \<in> set es. prompt e" using Cons.prems(4) by simp
    from Cons.IH [OF b2(2) k(2) x(2) this, of m'] show ?thesis
      unfolding d r
      by (cases "feed fsm m' (fst (drained (map pe_arrivals es) st'))") (simp_all add: Inr mn)
  qed
qed simp

lemma received_keeps_cb:
  assumes "poll_received h s = Inr s'"
  shows "st_cb s' = st_cb s"
proof -
  obtain r e where r: "fl_Receive (h_layer h) (st_modbus s) = Inr (r, e)"
    using assms by (auto simp: poll_received_def bindR_eq_Inr)
  show ?thesis using assms
    by (cases r) (auto simp: poll_received_def r Let_def split: if_split_asm)
qed

lemma bindR_result: "bindR m f = Inr y \<Longrightarrow> (\<And>x. f x = Inr y \<Longrightarrow> P) \<Longrightarrow> P"
  by (cases m) auto

lemma execute_keeps_cb: "poll_execute h s = Inr s' \<Longrightarrow> st_cb s' = st_cb s"
  unfolding poll_execute_def Let_def
  by (elim bindR_result) (auto elim!: bindR_result split: if_split_asm prod.split_asm simp del: bindR.simps)

lemma poll_keeps_cb:
  assumes "eMBPoll s = Inr (s', e)"
  shows "st_cb s' = st_cb s"
proof -
  obtain h where "live (st_handle s) = Inr h" using assms by (auto simp: eMBPoll_def res_simps)
  then show ?thesis using assms
    by (auto simp: eMBPoll_def Let_def split_beta bindR_eq_Inr dest!: received_keeps_cb execute_keeps_cb
        split: if_split_asm option.split_asm eMBEventType.split_asm)
qed

lemma drained_none:
  "length st \<le> 256 \<Longrightarrow> drained (replicate (length st) []) st = (st, [])"
  by (induction st) (auto simp: stacked_def)

lemma round_keeps_cb: "modbus_task_round s bs = Inr s' \<Longrightarrow> st_cb s' = st_cb s"
  by (auto simp: modbus_task_round_def vMBPortSerialPoll_def bindR_eq_Inr dest!: poll_keeps_cb
      split: option.split_asm)

lemma rounds_keep_cb: "task_rounds s cs = Inr s' \<Longrightarrow> st_cb s' = st_cb s"
  by (induction cs arbitrary: s) (auto simp: bindR_eq_Inr dest: round_keeps_cb)

lemma round_refines:
  assumes "gw_holds (gw_board g) st" and "st_cb (gw_stack g) \<noteq> None" and "length es = length st"
    and "\<forall>e \<in> set es. prompt e"
  shows "case modbus_task_round (gw_stack g) (fst (drained (map pe_arrivals es) st)) of
      Inl f \<Rightarrow> gateway_round n c es g = Inl f
    | Inr s' \<Rightarrow> \<exists>b'. gateway_round n c es g = Inr (Some (g\<lparr>gw_stack := s', gw_board := b'\<rparr>)) \<and>
        gw_holds b' (snd (drained (map pe_arrivals es) st))"
proof (cases "eMBPoll (gw_stack g)")
  case (Inl f)
  then show ?thesis by (simp add: modbus_task_round_def gateway_round_def)
next
  case (Inr r)
  obtain s e where r: "eMBPoll (gw_stack g) = Inr (s, e)" using Inr by (cases r) auto
  obtain l where l: "st_cb s = Some l" using poll_keeps_cb [OF r] assms(2) by auto
  have a: "bsp_uart_available (gw_board g) 1 = Inr (int (length es))"
    using holds_available [OF assms(1)] assms(3) by simp
  show ?thesis
  proof (cases "es = []")
    case True
    then show ?thesis using r l a assms(1,3)
      by (cases g) (simp add: modbus_task_round_def gateway_round_def mb_uart_rx_task_def vMBPortSerialPoll_def)
  next
    case False
    from loop_drains [OF assms(1) refl _ assms(4), where fsm = "fl_ByteReceived l" and m = "st_modbus s" and n = n and c = c] assms(3)
    show ?thesis using r l a False
      by (cases "feed (fl_ByteReceived l) (st_modbus s) (fst (drained (map pe_arrivals es) st))")
        (auto simp: modbus_task_round_def gateway_round_def mb_uart_rx_task_def vMBPortSerialPoll_def)
  qed
qed

subsection \<open>Pieces of a frame between the rounds\<close>

definition quiet_env :: "poll_env \<Rightarrow> bool" where
  "quiet_env e \<longleftrightarrow> prompt e \<and> pe_arrivals e = []"

text \<open>The bytes of every piece arrive one interrupt after the other, then the task has its round.\<close>

definition piece_events :: "(u8 list \<times> poll_env list) list \<Rightarrow> gw_event list" where
  "piece_events ps = concat (map (\<lambda>(bs, es). map Rx_Byte bs @ [Task_Round es]) ps)"

definition pieces_ok :: "(u8 list \<times> poll_env list) list \<Rightarrow> bool" where
  "pieces_ok ps \<longleftrightarrow> (\<forall>(bs, es) \<in> set ps. length bs \<le> 256 \<and> length es = length bs \<and> (\<forall>e \<in> set es. quiet_env e))"

lemma piece_events_simps [simp]:
  "piece_events [] = []"
  "piece_events ((bs, es) # ps) = map Rx_Byte bs @ Task_Round es # piece_events ps"
  by (simp_all add: piece_events_def)

lemma stacked_step: "stacked bs (stacked [x] st) = stacked (x # bs) st"
proof (cases "256 - length st")
  case (Suc k)
  then have "256 - Suc (length st) = k" by simp
  with Suc show ?thesis by (simp add: stacked_def)
qed (simp add: stacked_def)

lemma run_bytes:
  assumes "gw_holds (gw_board g) st"
  shows "\<exists>b'. gw_run n c (map Rx_Byte bs @ evs) g = gw_run n c evs (g\<lparr>gw_board := b'\<rparr>) \<and>
    gw_holds b' (stacked bs st)"
  using assms
proof (induction bs arbitrary: g st)
  case Nil
  then show ?case by (intro exI [of _ "gw_board g"]) (simp add: stacked_def)
next
  case (Cons x bs)
  obtain b w where b: "bsp_uart_rx_cb n c False (gw_board g) 1 [x] 1 = Inr (b, w, 0)"
    "gw_holds b (stacked [x] st)" using holds_interrupt [OF Cons.prems, of "[x]" n c False] by auto
  from Cons.IH [of "g\<lparr>gw_board := b\<rparr>" "stacked [x] st"] b show ?case by (simp add: stacked_step)
qed

lemma run_pieces:
  assumes "gw_holds (gw_board g) []" and "st_cb (gw_stack g) \<noteq> None" and "pieces_ok ps"
    and "task_rounds (gw_stack g) (map (\<lambda>p. rev (fst p)) ps) = Inr s'"
  shows "\<exists>b'. gw_run n c (piece_events ps @ evs) g = gw_run n c evs (g\<lparr>gw_stack := s', gw_board := b'\<rparr>) \<and>
    gw_holds b' []"
  using assms
proof (induction ps arbitrary: g)
  case Nil
  then show ?case by (intro exI [of _ "gw_board g"]) (cases g, simp)
next
  case (Cons p ps)
  obtain bs es where p: "p = (bs, es)" by (cases p)
  have ok: "length bs \<le> 256" "length es = length bs" "\<forall>e \<in> set es. quiet_env e" "pieces_ok ps"
    using Cons.prems(3) by (auto simp: pieces_ok_def p)
  obtain s1 where s1: "modbus_task_round (gw_stack g) (rev bs) = Inr s1"
    "task_rounds s1 (map (\<lambda>p. rev (fst p)) ps) = Inr s'" using Cons.prems(4) by (auto simp: p bindR_eq_Inr)
  have st: "stacked bs [] = rev bs" using ok(1) by (simp add: stacked_def)
  obtain b1 where b1: "gw_run n c (map Rx_Byte bs @ Task_Round es # piece_events ps @ evs) g =
      gw_run n c (Task_Round es # piece_events ps @ evs) (g\<lparr>gw_board := b1\<rparr>)" "gw_holds b1 (rev bs)"
    using run_bytes [OF Cons.prems(1), of n c bs "Task_Round es # piece_events ps @ evs"] unfolding st by blast
  have "map pe_arrivals es = replicate (length (rev bs)) []"
    using ok(2,3) by (auto simp: quiet_env_def intro!: nth_equalityI)
  then have d: "drained (map pe_arrivals es) (rev bs) = (rev bs, [])"
    using drained_none [of "rev bs"] ok(1) by simp
  obtain b2 where b2: "gateway_round n c es (g\<lparr>gw_board := b1\<rparr>) = Inr (Some (g\<lparr>gw_stack := s1, gw_board := b2\<rparr>))"
    "gw_holds b2 []"
    using round_refines [of "g\<lparr>gw_board := b1\<rparr>" "rev bs" es n c] b1(2) Cons.prems(2) ok(2,3) s1(1) d
    by (auto simp: quiet_env_def)
  have "st_cb s1 \<noteq> None" using round_keeps_cb [OF s1(1)] Cons.prems(2) by simp
  with Cons.IH [of "g\<lparr>gw_stack := s1, gw_board := b2\<rparr>"] b2 ok(4) s1(2) b1(1) show ?case by (simp add: p)
qed

text \<open>
  Two idle rounds after the frame timer, and the whole of a transfer. As the timer runs out between any two
  rounds of the firmware, only transfers of a single piece are real ones.
\<close>

definition transfer :: "(u8 list \<times> poll_env list) list \<Rightarrow> gw_event list" where
  "transfer ps = piece_events ps @ Frame_Timer # piece_events [([], []), ([], [])]"

lemma run_transfer:
  assumes "gw_holds (gw_board g) []" and "st_cb (gw_stack g) = Some l" and "pieces_ok ps"
    and "task_rounds (gw_stack g) (map (\<lambda>p. rev (fst p)) ps) = Inr s1" and "mb_timer0_callback s1 = Inr s2"
    and "task_rounds s2 [[], []] = Inr s3" and "st_cb s2 = Some l"
  shows "\<exists>b. gw_run n c (transfer ps) g = Inr (Some (g\<lparr>gw_stack := s3, gw_board := b\<rparr>)) \<and> gw_holds b []"
proof -
  have cb: "st_cb (gw_stack g) \<noteq> None" using assms(2) by simp
  obtain b1 where b1: "gw_run n c (transfer ps) g =
      gw_run n c (Frame_Timer # piece_events [([], []), ([], [])]) (g\<lparr>gw_stack := s1, gw_board := b1\<rparr>)"
    "gw_holds b1 []"
    using run_pieces [OF assms(1) cb assms(3,4), of n c "Frame_Timer # piece_events [([], []), ([], [])]"]
    unfolding transfer_def by blast
  have p: "pieces_ok [([], []), ([], [])]" by (simp add: pieces_ok_def)
  have t: "task_rounds s2 (map (\<lambda>p. rev (fst p)) [([], [] :: poll_env list), ([], [])]) = Inr s3"
    using assms(6) by simp
  from run_pieces [OF _ _ p, of "g\<lparr>gw_stack := s2, gw_board := b1\<rparr>" s3 n c "[]"] b1(2) assms(7) t
  obtain b2 where "gw_run n c (piece_events [([], []), ([], [])]) (g\<lparr>gw_stack := s2, gw_board := b1\<rparr>) =
      Inr (Some (g\<lparr>gw_stack := s3, gw_board := b2\<rparr>))" "gw_holds b2 []" by auto
  then show ?thesis using b1(1) assms(5) by (intro exI [of _ b2]) (cases g, simp)
qed

subsection \<open>Rounds with the frame timer between them\<close>

text \<open>
  A piece is what arrives between two rounds: the bytes before the frame timer of the round before runs out,
  if it was started, and the bytes after it; then the task has its round, which reads them all.
\<close>

fun paced :: "bool \<Rightarrow> (u8 list \<times> u8 list \<times> poll_env list) list \<Rightarrow> gw_event list" where
  "paced timer [] = (if timer then [Frame_Timer] else [])"
| "paced timer ((before, bs, es) # ps) =
     map Rx_Byte before @ (if timer then [Frame_Timer] else []) @ map Rx_Byte bs @ Task_Round es #
     paced (before @ bs \<noteq> []) ps"

definition piece_ok :: "u8 list \<Rightarrow> u8 list \<Rightarrow> poll_env list \<Rightarrow> bool" where
  "piece_ok before bs es \<longleftrightarrow> length (before @ bs) \<le> 255 \<and> length es = length (before @ bs) \<and> (\<forall>e \<in> set es. quiet_env e)"

text \<open>The next poll leaves the stack waiting for a frame, with this device and this line.\<close>

definition settles :: "u8 \<Rightarrow> mb_dev \<Rightarrow> u8 list \<Rightarrow> rtu_stack \<Rightarrow> rtu_stack \<Rightarrow> bool" where
  "settles addr d w s q \<longleftrightarrow> eMBPoll s = Inr (q, MB_ENOERR) \<and> st_cb s = Some rtu_layer \<and> stack_ready addr q \<and> quiet q \<and>
     st_dev q = d \<and> wire (st_modbus q) = w"

definition waits :: "u8 \<Rightarrow> mb_dev \<Rightarrow> u8 list \<Rightarrow> bool \<Rightarrow> rtu_stack \<Rightarrow> bool" where
  "waits addr d w timer s \<longleftrightarrow> st_cb s = Some rtu_layer \<and>
     (\<exists>s' q. (if timer then mb_timer0_callback s = Inr s' else s' = s) \<and> settles addr d w s' q)"

lemma settles_round:
  assumes "settles addr d w s q"
  shows "modbus_task_round s bs = modbus_task_round q bs"
  using assms poll_no_event [of addr q] by (simp add: settles_def modbus_task_round_def quiet_def)

lemma settles_piece:
  assumes "settles addr d w s q" and "length f \<le> 255" and "no_frame addr f"
  shows "\<exists>s1. modbus_task_round s f = Inr s1 \<and> waits addr d w (f \<noteq> []) s1"
proof (cases "f = []")
  case True
  have q: "stack_ready addr q" "quiet q" "st_cb q = Some rtu_layer" "eMBPoll q = Inr (q, MB_ENOERR)"
    using assms(1) poll_no_event [of addr q] by (auto simp: settles_def stack_ready_def quiet_def)
  then have "modbus_task_round s f = Inr q"
    unfolding settles_round [OF assms(1)] by (simp add: True modbus_task_round_def vMBPortSerialPoll_def)
  then show ?thesis using assms(1) q by (auto simp: waits_def settles_def True)
next
  case False
  have q: "stack_ready addr q" "quiet q" using assms(1) by (simp_all add: settles_def)
  obtain s1 s2 sx where x: "task_rounds q [f] = Inr s1" "mb_timer0_callback s1 = Inr s2" "st_cb s2 = st_cb q"
    "eMBPoll s2 = Inr (sx, MB_ENOERR)" "stack_ready addr sx" "quiet sx" "st_dev sx = st_dev q"
    "wire (st_modbus sx) = wire (st_modbus q)"
    using no_frame_polled [OF q, of "[f]" f] False assms(2,3) by auto
  have cb: "st_cb q = Some rtu_layer" using q(1) by (simp add: stack_ready_def)
  have r: "modbus_task_round q f = Inr s1" using x(1) by (auto simp: bindR_eq_Inr)
  have "settles addr d w s2 sx" using x(3-8) cb assms(1) by (simp add: settles_def)
  moreover have "st_cb s1 = Some rtu_layer" using round_keeps_cb [OF r] cb by simp
  ultimately have "waits addr d w (f \<noteq> []) s1" using x(2) False by (auto simp: waits_def)
  then show ?thesis using r unfolding settles_round [OF assms(1)] by blast
qed

lemma run_paced:
  assumes "gw_holds (gw_board g) []" and "waits addr d w timer (gw_stack g)"
    and "\<forall>(before, bs, es) \<in> set ps. piece_ok before bs es \<and> no_frame addr (rev (before @ bs))"
  shows "\<exists>s b q. gw_run n c (paced timer ps @ [Task_Round []]) g = Inr (Some \<lparr>gw_stack = q, gw_board = b\<rparr>) \<and>
    gw_holds b [] \<and> settles addr d w s q"
  using assms
proof (induction ps arbitrary: g timer)
  case Nil
  obtain s q where s: "if timer then mb_timer0_callback (gw_stack g) = Inr s else s = gw_stack g"
    "settles addr d w s q" using Nil.prems(2) by (auto simp: waits_def)
  then have t: "gw_run n c (paced timer [] @ [Task_Round []]) g = gw_run n c [Task_Round []] (g\<lparr>gw_stack := s\<rparr>)"
    by (cases timer; cases g) simp_all
  have q: "stack_ready addr q" "quiet q" "st_cb q = Some rtu_layer" "eMBPoll q = Inr (q, MB_ENOERR)"
    using s(2) poll_no_event [of addr q] by (auto simp: settles_def stack_ready_def quiet_def)
  have "modbus_task_round s [] = Inr q" unfolding settles_round [OF s(2)]
    using q by (simp add: modbus_task_round_def vMBPortSerialPoll_def)
  then obtain b where "gateway_round n c [] (g\<lparr>gw_stack := s\<rparr>) = Inr (Some (g\<lparr>gw_stack := q, gw_board := b\<rparr>))"
    "gw_holds b []"
    using round_refines [of "g\<lparr>gw_stack := s\<rparr>" "[]" "[]" n c] Nil.prems(1) s(2) by (auto simp: settles_def)
  then show ?case using s(2) unfolding t by (cases g) auto
next
  case (Cons p ps)
  obtain before bs es where p: "p = (before, bs, es)" by (cases p)
  let ?f = "rev (before @ bs)"
  have ok: "length ?f \<le> 255" "length es = length ?f" "\<forall>e \<in> set es. quiet_env e" "no_frame addr ?f"
    using Cons.prems(3) by (auto simp: p piece_ok_def)
  obtain s q where s: "if timer then mb_timer0_callback (gw_stack g) = Inr s else s = gw_stack g"
    "settles addr d w s q" using Cons.prems(2) by (auto simp: waits_def)
  let ?e1 = "map Rx_Byte bs @ Task_Round es # paced (before @ bs \<noteq> []) ps @ [Task_Round []]"
  let ?e2 = "Task_Round es # paced (before @ bs \<noteq> []) ps @ [Task_Round []]"
  obtain b1 where b1: "gw_run n c (map Rx_Byte before @ (if timer then [Frame_Timer] else []) @ ?e1) g =
      gw_run n c ((if timer then [Frame_Timer] else []) @ ?e1) (g\<lparr>gw_board := b1\<rparr>)" "gw_holds b1 (stacked before [])"
    using run_bytes [OF Cons.prems(1)] by blast
  have t: "gw_run n c ((if timer then [Frame_Timer] else []) @ ?e1) (g\<lparr>gw_board := b1\<rparr>) =
      gw_run n c ?e1 \<lparr>gw_stack = s, gw_board = b1\<rparr>"
    using s(1) by (cases timer; cases g) auto
  obtain b2 where b2: "gw_run n c ?e1 \<lparr>gw_stack = s, gw_board = b1\<rparr> = gw_run n c ?e2 \<lparr>gw_stack = s, gw_board = b2\<rparr>"
    "gw_holds b2 (stacked bs (stacked before []))"
    using run_bytes [of "\<lparr>gw_stack = s, gw_board = b1\<rparr>" "stacked before []" n c bs ?e2] b1(2) by auto
  have f: "stacked bs (stacked before []) = ?f" using ok(1) by (simp add: stacked_def)
  have "map pe_arrivals es = replicate (length ?f) []"
    using ok(2,3) by (auto simp: quiet_env_def intro!: nth_equalityI)
  then have dr: "drained (map pe_arrivals es) ?f = (?f, [])" using drained_none [of ?f] ok(1) by simp
  obtain s1 where s1: "modbus_task_round s ?f = Inr s1" "waits addr d w (?f \<noteq> []) s1"
    using settles_piece [OF s(2) ok(1,4)] by blast
  obtain b3 where b3: "gateway_round n c es \<lparr>gw_stack = s, gw_board = b2\<rparr> = Inr (Some \<lparr>gw_stack = s1, gw_board = b3\<rparr>)"
    "gw_holds b3 []"
    using round_refines [of "\<lparr>gw_stack = s, gw_board = b2\<rparr>" ?f es n c] b2(2) s(2) ok(2,3) s1(1) dr
    by (auto simp: f settles_def quiet_env_def)
  have "gw_run n c (paced timer (p # ps) @ [Task_Round []]) g =
      gw_run n c (paced (before @ bs \<noteq> []) ps @ [Task_Round []]) \<lparr>gw_stack = s1, gw_board = b3\<rparr>"
    using b1(1) t b2(1) b3(1) by (simp add: p)
  moreover have "(?f \<noteq> []) = (before @ bs \<noteq> [])" by auto
  with s1(2) have "waits addr d w (before @ bs \<noteq> []) s1" by (simp only:)
  ultimately show ?case using Cons.IH [of "\<lparr>gw_stack = s1, gw_board = b3\<rparr>" "before @ bs \<noteq> []"] b3(2) Cons.prems(3)
    by simp
qed

subsection \<open>The service as it comes up\<close>

lemma gateway_boot:
  fixes b :: "('c, 't) board"
  assumes "board_inv b" and "length st = 256"
  shows "\<exists>g0 g. gateway_init (Some st) True \<lparr>gw_stack = rtu_stack_reset a, gw_board = b\<rparr> = Inr g0 \<and>
    gw_run n c [Frame_Timer, Task_Round []] g0 = Inr (Some g) \<and> gw_holds (gw_board g) [] \<and>
    stack_ready MODBUS_SLAVE_ADDRESS (gw_stack g) \<and> quiet (gw_stack g) \<and>
    st_dev (gw_stack g) = mb_dev_reset \<and> xFuncHandlers (gw_stack g) = xFuncHandlers0 \<and>
    wire (st_modbus (gw_stack g)) = []"
proof -
  obtain b' q where b: "bsp_uart_init (Some st) b 1 = Inr (b', 0)" "board_inv b'" "uart_queue b' 1 = Inr q"
    "rq_contents q = []" using uart_init_ok [OF assms(1) _ _ assms(2), of 1] by auto
  obtain s0 s1 s where s: "modbus_service_init True (rtu_stack_reset a) = Inr s0" "mb_timer0_callback s0 = Inr s1"
    "modbus_task_round s1 [] = Inr s" "stack_ready MODBUS_SLAVE_ADDRESS s" "quiet s" "st_dev s = mb_dev_reset"
    "xFuncHandlers s = xFuncHandlers0" "wire (st_modbus s) = []"
    using service_boot [of a] by blast
  let ?g1 = "\<lparr>gw_stack = s1, gw_board = b'\<rparr> :: (_, _, 'c, 't) gateway"
  have h: "gw_holds b' []" using b(2-4) by (simp add: gw_holds_def)
  have "st_cb s1 \<noteq> None" using round_keeps_cb [OF s(3)] s(4) by (simp add: stack_ready_def)
  then obtain b2 where b2: "gateway_round n c [] ?g1 = Inr (Some (?g1\<lparr>gw_stack := s, gw_board := b2\<rparr>))"
    "gw_holds b2 []" using round_refines [of ?g1 "[]" "[]" n c] h s(3) by auto
  show ?thesis
    using b(1) b2 s(1,2,4-8)
    by (intro exI [of _ "\<lparr>gw_stack = s0, gw_board = b'\<rparr>"] exI [of _ "\<lparr>gw_stack = s, gw_board = b2\<rparr>"])
      (simp add: gateway_init_def)
qed

definition calm :: poll_env where
  "calm = \<lparr>pe_arrivals = [], pe_woken = False, pe_now = 100, pe_turns = [(100, [])], pe_ucByte = 0\<rparr>"

lemma calm_quiet [simp]: "quiet_env calm" "prompt calm" "pe_arrivals calm = []"
  by (simp_all add: calm_def quiet_env_def prompt_def)

section \<open>Properties\<close>

text \<open>C3: A round of the task over the board refines a round over the stack of received bytes. With the
  bytes the queue of the line holds at the start, and the interrupts before every read, the round
  feeds the receiver exactly the bytes that popping a stack gives, ends in the same state of
  the Modbus stack or with the same fault, and leaves the rest of the stack in the queue.\<close>

theorem gateway_round_refines:
  assumes "gw_holds (gw_board g) st" and "st_cb (gw_stack g) \<noteq> None" and "length es = length st"
    and "\<forall>e \<in> set es. prompt e"
  shows "case modbus_task_round (gw_stack g) (fst (drained (map pe_arrivals es) st)) of
      Inl f \<Rightarrow> gateway_round n c es g = Inl f
    | Inr s' \<Rightarrow> \<exists>b'. gateway_round n c es g = Inr (Some (g\<lparr>gw_stack := s', gw_board := b'\<rparr>)) \<and>
        gw_holds b' (snd (drained (map pe_arrivals es) st))"
  using assms by (rule round_refines)

theorem gateway_round_refines_witness:
  "\<exists>g0 g1 g2 g3 m. gateway_init (Some (replicate 256 0)) True
      \<lparr>gw_stack = rtu_stack_reset 0, gw_board = (board_reset :: (nat, nat) board)\<rparr> = Inr g0 \<and>
    gw_run 8 24 [Frame_Timer, Task_Round []] g0 = Inr (Some g1) \<and>
    gw_run 8 24 [Rx_Byte 1, Rx_Byte 3] g1 = Inr (Some g2) \<and>
    gateway_round 8 24 [calm, calm\<lparr>pe_arrivals := [5]\<rparr>] g2 = Inr (Some g3) \<and>
    feed xMBRTUReceiveFSM (st_modbus (gw_stack g1)) [3, 5] = Inr m \<and> st_modbus (gw_stack g3) = m \<and>
    gw_holds (gw_board g3) [1]"
proof -
  define st where "st = replicate 256 (0 :: u8)"
  have "length st = 256" by (simp add: st_def)
  from gateway_boot [OF board_inv_reset this, of 0 8 24] obtain g0 g1 where
    g: "gateway_init (Some st) True
      \<lparr>gw_stack = rtu_stack_reset 0, gw_board = (board_reset :: (nat, nat) board)\<rparr> = Inr g0"
    "gw_run 8 24 [Frame_Timer, Task_Round []] g0 = Inr (Some g1)" "gw_holds (gw_board g1) []"
    "stack_ready MODBUS_SLAVE_ADDRESS (gw_stack g1)" "quiet (gw_stack g1)" by blast
  let ?m = "st_modbus (gw_stack g1)"
  have "stacked [1, 3] [] = [3, 1 :: u8]" by (simp add: stacked_def)
  then obtain b2 where b2: "gw_run 8 24 (map Rx_Byte [1, 3] @ []) g1 = gw_run 8 24 [] (g1\<lparr>gw_board := b2\<rparr>)"
    "gw_holds b2 [3, 1]" using run_bytes [OF g(3), of 8 24 "[1, 3]" "[]"] by metis
  have ok: "rtu_buf_ok ?m" using g(4) by (simp add: stack_ready_def rtu_safe_def)
  obtain m where m: "feed xMBRTUReceiveFSM ?m [3, 5] = Inr m"
    using feed_idle [OF ok, of "[3, 5]"] g(5) by (auto simp: quiet_def)
  let ?es = "[calm, calm\<lparr>pe_arrivals := [5]\<rparr>]" and ?g2 = "g1\<lparr>gw_board := b2\<rparr>"
  have d: "drained (map pe_arrivals ?es) [3, 1] = ([3, 5], [1])"
    by (simp add: stacked_def)
  have p: "eMBPoll (gw_stack g1) = Inr (gw_stack g1, MB_ENOERR)"
    using poll_no_event [OF g(4)] g(5) by (simp add: quiet_def)
  have cb: "st_cb (gw_stack g1) = Some rtu_layer" using g(4) by (simp add: stack_ready_def)
  have "\<forall>e \<in> set ?es. prompt e" by (simp add: prompt_def calm_def)
  with gateway_round_refines [of ?g2 "[3, 1]" ?es 8 24] b2(2) cb d p m obtain b3 where
    "gateway_round 8 24 ?es ?g2 = Inr (Some (?g2\<lparr>gw_stack := (gw_stack g1)\<lparr>st_modbus := m\<rparr>, gw_board := b3\<rparr>))"
    "gw_holds b3 [1]" by (auto simp: modbus_task_round_def vMBPortSerialPoll_def)
  with g(1,2) b2(1) m show ?thesis unfolding st_def
    by (intro exI [of _ g0] exI [of _ g1] exI [of _ ?g2] exI
        [of _ "?g2\<lparr>gw_stack := (gw_stack g1)\<lparr>st_modbus := m\<rparr>, gw_board := b3\<rparr>"]) simp
qed

text \<open>C7: What comes in pieces is lost. The timer of a frame, which its bytes start when they are read, runs out before
  the next round (1000 counts of TIM1, some milliseconds, against 20 ms), so every round ends a frame of its own: the bytes that arrived
  since the round before, last byte first. Whatever arrives, in however many pieces, each of at most 255
  bytes and none of them backwards a frame for this slave, changes nothing: the device and the line stay as they are, and
  the service waits for the next frame. A request of which one to three bytes arrive between two rounds is never answered.\<close>

theorem gateway_pieces_dropped:
  assumes "gw_holds (gw_board g) []" and "stack_ready addr (gw_stack g)" and "quiet (gw_stack g)"
    and "\<forall>(before, bs, es) \<in> set ps. piece_ok before bs es \<and> no_frame addr (rev (before @ bs))"
  shows "\<exists>g'. gw_run n c (paced False ps @ [Task_Round []]) g = Inr (Some g') \<and>
    gw_holds (gw_board g') [] \<and> stack_ready addr (gw_stack g') \<and> quiet (gw_stack g') \<and>
    st_dev (gw_stack g') = st_dev (gw_stack g) \<and> wire (st_modbus (gw_stack g')) = wire (st_modbus (gw_stack g))"
proof -
  have "waits addr (st_dev (gw_stack g)) (wire (st_modbus (gw_stack g))) False (gw_stack g)"
    using assms(2,3) poll_no_event [OF assms(2)] by (auto simp: waits_def settles_def stack_ready_def quiet_def)
  from run_paced [OF assms(1) this assms(4), of n c] show ?thesis by (auto simp: settles_def)
qed

theorem gateway_pieces_dropped_witness:
  "\<exists>g0 g1 g2. gateway_init (Some (replicate 256 0)) True
      \<lparr>gw_stack = rtu_stack_reset 0, gw_board = (board_reset :: (nat, nat) board)\<rparr> = Inr g0 \<and>
    gw_run 8 24 [Frame_Timer, Task_Round []] g0 = Inr (Some g1) \<and>
    gw_run 8 24 (paced False (map (\<lambda>x. ([], [x], [calm])) (rtu_adu 1 [3, 0, 7, 0, 2])) @ [Task_Round []]) g1 = Inr (Some g2) \<and>
    wire (st_modbus (gw_stack g2)) = [] \<and> quiet (gw_stack g2)"
proof -
  define st where "st = replicate 256 (0 :: u8)"
  have "length st = 256" by (simp add: st_def)
  from gateway_boot [OF board_inv_reset this, of 0 8 24] obtain g0 g1 where
    g: "gateway_init (Some st) True
      \<lparr>gw_stack = rtu_stack_reset 0, gw_board = (board_reset :: (nat, nat) board)\<rparr> = Inr g0"
    "gw_run 8 24 [Frame_Timer, Task_Round []] g0 = Inr (Some g1)" "gw_holds (gw_board g1) []"
    "stack_ready 1 (gw_stack g1)" "quiet (gw_stack g1)" "wire (st_modbus (gw_stack g1)) = []"
    unfolding MODBUS_SLAVE_ADDRESS_def by blast
  let ?ps = "map (\<lambda>x. ([], [x], [calm])) (rtu_adu 1 [3, 0, 7, 0, 2])"
  have "\<forall>(before, bs, es) \<in> set ?ps. piece_ok before bs es \<and> no_frame 1 (rev (before @ bs))"
    by (auto simp: piece_ok_def no_frame_def)
  from gateway_pieces_dropped [OF g(3-5) this, of 8 24] g(1,2,6) show ?thesis unfolding st_def by auto
qed

text \<open>C8: A request that arrives at once is lost. If the whole frame comes between two rounds, as it does
  at 115200 baud with a round every 20 ms, the queue hands it to the receiver backwards: the frame
  then starts with the high byte of the checksum, and unless this happens to be the slave's
  address or the broadcast address the request is dropped, the device and the line unchanged.\<close>

theorem gateway_burst_dropped:
  assumes "gw_holds (gw_board g) []" and "stack_ready addr (gw_stack g)" and "quiet (gw_stack g)"
    and "length es = length (rtu_adu addr pdu)" and "\<forall>e \<in> set es. quiet_env e" and "length pdu \<le> 252"
    and "hi_byte (crc16 (addr # pdu)) \<notin> {addr, MB_ADDRESS_BROADCAST}"
  shows "\<exists>g'. gw_run n c (transfer [(rtu_adu addr pdu, es)]) g = Inr (Some g') \<and>
    gw_holds (gw_board g') [] \<and> stack_ready addr (gw_stack g') \<and> quiet (gw_stack g') \<and>
    st_dev (gw_stack g') = st_dev (gw_stack g) \<and> wire (st_modbus (gw_stack g')) = wire (st_modbus (gw_stack g))"
proof -
  let ?ps = "[(rtu_adu addr pdu, es)]"
  have ps: "pieces_ok ?ps" using assms(4-6) by (simp add: pieces_ok_def)
  have r: "concat (map (\<lambda>p. rev (fst p)) ?ps) = rev (rtu_adu addr pdu)" by simp
  have bad: "rev (rtu_adu addr pdu) \<noteq> []" "length (rev (rtu_adu addr pdu)) \<le> 255"
    "length (rev (rtu_adu addr pdu)) < 4 \<or> crc16 (rev (rtu_adu addr pdu)) \<noteq> 0 \<or>
      hd (rev (rtu_adu addr pdu)) \<notin> {addr, MB_ADDRESS_BROADCAST}"
    using assms(6,7) by (simp_all add: rtu_adu_def)
  obtain s1 s2 s3 where s: "task_rounds (gw_stack g) (map (\<lambda>p. rev (fst p)) ?ps) = Inr s1"
    "mb_timer0_callback s1 = Inr s2" "task_rounds s2 [[], []] = Inr s3" "stack_ready addr s3" "quiet s3"
    "st_dev s3 = st_dev (gw_stack g)" "wire (st_modbus s3) = wire (st_modbus (gw_stack g))"
    using frame_dropped [OF assms(2,3) r bad] by blast
  have cb: "st_cb (gw_stack g) = Some rtu_layer" "st_cb s3 = Some rtu_layer"
    using assms(2) s(4) by (simp_all add: stack_ready_def)
  then have "st_cb s2 = Some rtu_layer" using rounds_keep_cb [OF s(3)] by simp
  from run_transfer [OF assms(1) cb(1) ps s(1-3) this, of n c] s(4-7) show ?thesis by auto
qed

theorem gateway_burst_dropped_witness:
  "\<exists>g0 g1 g2. gateway_init (Some (replicate 256 0)) True
      \<lparr>gw_stack = rtu_stack_reset 0, gw_board = (board_reset :: (nat, nat) board)\<rparr> = Inr g0 \<and>
    gw_run 8 24 [Frame_Timer, Task_Round []] g0 = Inr (Some g1) \<and>
    gw_run 8 24 (transfer [(rtu_adu 1 [6, 0, 7, 0xAB, 0xCD], replicate 8 calm)]) g1 = Inr (Some g2) \<and>
    st_dev (gw_stack g2) = mb_dev_reset"
proof -
  define st where "st = replicate 256 (0 :: u8)"
  have "length st = 256" by (simp add: st_def)
  from gateway_boot [OF board_inv_reset this, of 0 8 24] obtain g0 g1 where
    g: "gateway_init (Some st) True
      \<lparr>gw_stack = rtu_stack_reset 0, gw_board = (board_reset :: (nat, nat) board)\<rparr> = Inr g0"
    "gw_run 8 24 [Frame_Timer, Task_Round []] g0 = Inr (Some g1)" "gw_holds (gw_board g1) []"
    "stack_ready 1 (gw_stack g1)" "quiet (gw_stack g1)" "st_dev (gw_stack g1) = mb_dev_reset"
    unfolding MODBUS_SLAVE_ADDRESS_def by blast
  have c: "map_sum id (\<lambda>w. hi_byte w \<notin> {1, 0}) (usMBCRC16 [1, 6, 0, 7, 0xAB, 0xCD] 0 6) = Inr True" by code_simp
  have "hi_byte (crc16 (1 # [6, 0, 7, 0xAB, 0xCD])) \<notin> {1, MB_ADDRESS_BROADCAST}"
    using c usMBCRC16_ok [of 0 6 "[1, 6, 0, 7, 0xAB, 0xCD]"] by (simp add: window_def MB_ADDRESS_BROADCAST_def)
  from gateway_burst_dropped [OF g(3-5) _ _ _ this, of "replicate 8 calm" 8 24] g(1,2,6)
  show ?thesis unfolding st_def by auto
qed

end
