(* ===== verification/Shell.thy ===== *)
theory Shell
  imports Prelude
begin

text \<open>
  The command line shell (\<open>services/shell/cli_shell.c\<close>): the receive buffer, the editing of a
  line, its division into arguments and the call of a command. The output callbacks append to
  \<open>sent\<close>; \<open>dev\<close> is what the commands work on. A command that restarts the device does not return,
  which the flag in the results says.
\<close>

definition SHELL_RX_BUFFER_SIZE :: nat where "SHELL_RX_BUFFER_SIZE = 256"
definition SHELL_MAX_ARGS :: nat where "SHELL_MAX_ARGS = 16"
definition SHELL_PROMPT :: string where "SHELL_PROMPT = ''synaptix> ''"

abbreviation NUL :: char where "NUL \<equiv> CHR 0x00"
abbreviation NL :: char where "NL \<equiv> CHR 0x0A"
abbreviation CR :: char where "CR \<equiv> CHR 0x0D"
abbreviation BS :: char where "BS \<equiv> CHR 0x08"
abbreviation SP :: char where "SP \<equiv> CHR 0x20"

record 'd shell =
  sh_booted :: bool
  rx_size :: nat
  rx_buffer :: string
  sent :: string
  dev :: 'd

type_synonym 'h cmd_table = "(string \<times> 'h \<times> string) list"

definition prv_booted :: "'d shell \<Rightarrow> bool" where
  "prv_booted s = sh_booted s"

definition prv_send_char :: "'d shell \<Rightarrow> char \<Rightarrow> 'd shell" where
  "prv_send_char s c = (if \<not> prv_booted s then s else s\<lparr>sent := sent s @ [c]\<rparr>)"

definition prv_echo :: "'d shell \<Rightarrow> char \<Rightarrow> 'd shell" where
  "prv_echo s c =
     (if c = NL then prv_send_char (prv_send_char s CR) NL
      else if c = BS then prv_send_char (prv_send_char (prv_send_char s BS) SP) BS
      else prv_send_char s c)"

definition prv_echo_str :: "'d shell \<Rightarrow> string \<Rightarrow> 'd shell" where
  "prv_echo_str s str = s\<lparr>sent := sent s @ str\<rparr>"

definition prv_send_prompt :: "'d shell \<Rightarrow> 'd shell" where
  "prv_send_prompt s = prv_echo_str s SHELL_PROMPT"

definition prv_last_char :: "'d shell \<Rightarrow> char res" where
  "prv_last_char s = (if rx_size s = 0 then Inl Out_Of_Bounds else rd (rx_buffer s) (rx_size s - 1))"

definition prv_is_rx_buffer_full :: "'d shell \<Rightarrow> bool" where
  "prv_is_rx_buffer_full s \<longleftrightarrow> rx_size s \<ge> SHELL_RX_BUFFER_SIZE"

definition prv_reset_rx_buffer :: "'d shell \<Rightarrow> 'd shell" where
  "prv_reset_rx_buffer s = s\<lparr>rx_buffer := replicate SHELL_RX_BUFFER_SIZE NUL, rx_size := 0\<rparr>"

fun prv_find_command :: "'h cmd_table \<Rightarrow> string \<Rightarrow> 'h option" where
  "prv_find_command [] name = None"
| "prv_find_command ((command, handler, help) # cmds) name =
     (if command = name then Some handler else prv_find_command cmds name)"

text \<open>The string a pointer into the buffer designates.\<close>

fun cstr_from :: "string \<Rightarrow> string res" where
  "cstr_from [] = Inl Out_Of_Bounds"
| "cstr_from (c # cs) = (if c = NUL then Inr [] else bindR (cstr_from cs) (\<lambda>s. Inr (c # s)))"

definition cstr :: "string \<Rightarrow> nat \<Rightarrow> string res" where
  "cstr buf p = cstr_from (drop p buf)"

fun mapR :: "('a \<Rightarrow> 'b res) \<Rightarrow> 'a list \<Rightarrow> 'b list res" where
  "mapR f [] = Inr []"
| "mapR f (x # xs) = bindR (f x) (\<lambda>y. bindR (mapR f xs) (\<lambda>ys. Inr (y # ys)))"

text \<open>
  The table of arguments: \<open>argv[argc++] = p\<close>, where \<open>argv\<close> is declared with \<open>SHELL_MAX_ARGS\<close> entries. The
  list holds the entries set so far, so that its length is \<open>argc\<close>.
\<close>

definition argv_put :: "nat list \<Rightarrow> nat \<Rightarrow> nat list res" where
  "argv_put argv p = (if length argv < SHELL_MAX_ARGS then Inr (argv @ [p]) else Inl Out_Of_Bounds)"

definition argv_next :: "nat list \<Rightarrow> nat option \<Rightarrow> nat list res" where
  "argv_next argv next_arg = (case next_arg of Some p \<Rightarrow> argv_put argv p | None \<Rightarrow> Inr argv)"

text \<open>The loop over the buffer; the first argument is \<open>s->rx_size - i\<close>.\<close>

fun args_loop :: "nat \<Rightarrow> nat \<Rightarrow> nat \<Rightarrow> string \<Rightarrow> nat option \<Rightarrow> nat list \<Rightarrow> (string \<times> nat list) res" where
  "args_loop 0 i rxn buf next_arg argv = Inr (buf, argv)"
| "args_loop (Suc n) i rxn buf next_arg argv =
     (if length argv < SHELL_MAX_ARGS then
        bindR (rd buf i) (\<lambda>c.
        if c = SP \<or> c = NL \<or> i = rxn - 1 then
          bindR (wr buf i NUL) (\<lambda>buf'.
          bindR (argv_next argv next_arg) (\<lambda>argv'. args_loop n (i + 1) rxn buf' None argv'))
        else args_loop n (i + 1) rxn buf (case next_arg of None \<Rightarrow> Some i | Some p \<Rightarrow> Some p) argv)
      else Inr (buf, argv))"

lemma argv_next_ok:
  "length argv < SHELL_MAX_ARGS \<Longrightarrow>
   argv_next argv next_arg = Inr (case next_arg of Some p \<Rightarrow> argv @ [p] | None \<Rightarrow> argv)"
  by (simp add: argv_next_def argv_put_def split: option.split)

definition unknown_command :: "'d shell \<Rightarrow> string \<Rightarrow> 'd shell" where
  "unknown_command s name =
     prv_echo_str (prv_echo (prv_echo_str (prv_echo_str s ''Unknown command: '') name) NL)
       (''Type 'help' to list all commands'' @ [NL])"

text \<open>\<open>run\<close> carries out a command of the table; the flag tells whether it returns.\<close>

definition prv_process ::
  "'h cmd_table \<Rightarrow> ('h \<Rightarrow> 'd shell \<Rightarrow> string list \<Rightarrow> ('d shell \<times> bool) res) \<Rightarrow> 'd shell \<Rightarrow> ('d shell \<times> bool) res" where
  "prv_process tbl run s =
     bindR (prv_last_char s) (\<lambda>l.
     if l \<noteq> NL \<and> \<not> prv_is_rx_buffer_full s then Inr (s, True)
     else
       bindR (args_loop (rx_size s) 0 (rx_size s) (rx_buffer s) None []) (\<lambda>(buf, argv).
       let s1 = s\<lparr>rx_buffer := buf\<rparr>;
           s2 = (if rx_size s1 = SHELL_RX_BUFFER_SIZE then prv_echo s1 NL else s1) in
       bindR (if length argv \<ge> 1 then
                bindR (mapR (cstr buf) argv) (\<lambda>args.
                case prv_find_command tbl (hd args) of
                  None \<Rightarrow> Inr (unknown_command s2 (hd args), True)
                | Some h \<Rightarrow> run h s2 args)
              else Inr (s2, True)) (\<lambda>(s3, returned).
       if returned then Inr (prv_send_prompt (prv_reset_rx_buffer s3), True) else Inr (s3, False))))"

definition cli_shell_boot :: "'d shell \<Rightarrow> 'd shell" where
  "cli_shell_boot s = prv_echo_str (prv_reset_rx_buffer s) ([NL] @ SHELL_PROMPT)"

definition cli_shell_receive_char ::
  "'h cmd_table \<Rightarrow> ('h \<Rightarrow> 'd shell \<Rightarrow> string list \<Rightarrow> ('d shell \<times> bool) res) \<Rightarrow> 'd shell \<Rightarrow> char \<Rightarrow>
   ('d shell \<times> bool) res" where
  "cli_shell_receive_char tbl run s c =
     (if c = CR \<or> prv_is_rx_buffer_full s \<or> \<not> prv_booted s then Inr (s, True)
      else if c = BS then
        (if rx_size s > 0 then
           bindR (wr (rx_buffer s) (rx_size s - 1) NUL) (\<lambda>buf.
           Inr (s\<lparr>rx_buffer := buf, rx_size := rx_size s - 1\<rparr>, True))
         else Inr (s, True))
      else
        bindR (wr (rx_buffer s) (rx_size s) c) (\<lambda>buf.
        prv_process tbl run (s\<lparr>rx_buffer := buf, rx_size := rx_size s + 1\<rparr>)))"

definition cli_shell_put_line :: "'d shell \<Rightarrow> string \<Rightarrow> 'd shell" where
  "cli_shell_put_line s str = prv_echo (prv_echo_str s str) NL"

text \<open>\<open>text\<close> is the formatted string; the buffer has room for 255 characters and the terminator.\<close>

definition cli_shell_printf :: "'d shell \<Rightarrow> string \<Rightarrow> 'd shell" where
  "cli_shell_printf s text = cli_shell_put_line s (take 255 text)"

fun cli_shell_help_handler :: "'h cmd_table \<Rightarrow> 'd shell \<Rightarrow> 'd shell" where
  "cli_shell_help_handler [] s = s"
| "cli_shell_help_handler ((command, handler, help) # cmds) s =
     cli_shell_help_handler cmds
       (prv_echo (prv_echo_str (prv_echo_str (prv_echo_str s command) '': '') help) NL)"

text \<open>The receive task feeds what is there, one character after the other.\<close>

fun shell_feed ::
  "'h cmd_table \<Rightarrow> ('h \<Rightarrow> 'd shell \<Rightarrow> string list \<Rightarrow> ('d shell \<times> bool) res) \<Rightarrow> 'd shell \<Rightarrow> string \<Rightarrow>
   ('d shell \<times> bool) res" where
  "shell_feed tbl run s [] = Inr (s, True)"
| "shell_feed tbl run s (c # cs) =
     bindR (cli_shell_receive_char tbl run s c) (\<lambda>(s', returned).
     if returned then shell_feed tbl run s' cs else Inr (s', False))"

section \<open>The words of a line\<close>

function shell_words :: "string \<Rightarrow> string list" where
  "shell_words cs =
     (case dropWhile (\<lambda>c. c = SP) cs of
        [] \<Rightarrow> []
      | c # cs' \<Rightarrow> takeWhile (\<lambda>c. c \<noteq> SP) (c # cs') # shell_words (dropWhile (\<lambda>c. c \<noteq> SP) (c # cs')))"
  by pat_completeness auto
termination
proof (relation "measure length")
  fix cs c and cs' :: string
  assume d: "dropWhile (\<lambda>c. c = SP) cs = c # cs'"
  then have "c \<noteq> SP" using hd_dropWhile [of "\<lambda>c. c = SP" cs] by simp
  moreover have "length (c # cs') \<le> length cs" using length_dropWhile_le [of "\<lambda>c. c = SP" cs] d by simp
  moreover have "length (dropWhile (\<lambda>c. c \<noteq> SP) cs') \<le> length cs'" by (rule length_dropWhile_le)
  ultimately show "(dropWhile (\<lambda>c. c \<noteq> SP) (c # cs'), cs) \<in> measure length" by simp
qed simp

declare shell_words.simps [simp del]

fun split_words :: "string \<Rightarrow> string \<Rightarrow> string list" where
  "split_words cur [] = (if cur = [] then [] else [cur])"
| "split_words cur (c # cs) =
     (if c = SP then (if cur = [] then [] else [cur]) @ split_words [] cs else split_words (cur @ [c]) cs)"

lemma shell_words_Nil [simp]: "shell_words [] = []"
  by (simp add: shell_words.simps)

lemma shell_words_space [simp]: "shell_words (SP # cs) = shell_words cs"
  by (simp add: shell_words.simps [of "SP # cs"] shell_words.simps [of cs])

lemma split_words_spec:
  "split_words cur cs =
     (if cur = [] then shell_words cs
      else (cur @ takeWhile (\<lambda>c. c \<noteq> SP) cs) # shell_words (dropWhile (\<lambda>c. c \<noteq> SP) cs))"
proof (induction cur cs rule: split_words.induct)
  case (2 cur c cs)
  show ?case
  proof (cases "c = SP")
    case True
    then show ?thesis using 2 by simp
  next
    case False
    then show ?thesis using 2(2) by (simp add: shell_words.simps [of "c # cs"])
  qed
qed simp

lemma split_words_Nil: "split_words [] cs = shell_words cs"
  by (simp add: split_words_spec)

section \<open>What the loop finds\<close>

text \<open>\<open>arg_at buf i p w\<close>: the argument at \<open>p\<close> is \<open>w\<close> and ends before \<open>i\<close>.\<close>

definition arg_at :: "string \<Rightarrow> nat \<Rightarrow> nat \<Rightarrow> string \<Rightarrow> bool" where
  "arg_at buf i p w \<longleftrightarrow> p + length w < i \<and> i \<le> length buf \<and> window p (length w) buf = w \<and>
     buf ! (p + length w) = NUL \<and> NUL \<notin> set w"

lemma arg_at_later: "arg_at buf i p w \<Longrightarrow> i \<le> k \<Longrightarrow> k \<le> length buf \<Longrightarrow> arg_at buf k p w"
  by (simp add: arg_at_def)

lemma window_update_outside:
  "p + n \<le> i \<Longrightarrow> window p n (xs[i := v]) = window p n xs"
  by (simp add: window_def take_drop flip: drop_take)

lemma arg_at_update:
  assumes "arg_at buf i p w" and "i \<le> k" and "k < length buf"
  shows "arg_at (buf[k := NUL]) (Suc k) p w"
proof -
  have "p + length w < k" "p + length w \<noteq> k" using assms by (auto simp: arg_at_def)
  then show ?thesis using assms by (simp add: arg_at_def window_update_outside)
qed

lemma cstr_from_ok: "NUL \<notin> set w \<Longrightarrow> cstr_from (w @ NUL # rest) = Inr w"
  by (induction w) auto

lemma cstr_arg:
  assumes "arg_at buf i p w"
  shows "cstr buf p = Inr w"
proof -
  have l: "p + length w < length buf" using assms by (simp add: arg_at_def)
  then have "drop p buf = take (length w) (drop p buf) @ drop p buf ! length w # drop (Suc (length w)) (drop p buf)"
    by (intro id_take_nth_drop) simp
  then have "drop p buf = window p (length w) buf @ buf ! (p + length w) # drop (Suc (p + length w)) buf"
    using l by (simp add: window_def add.commute)
  also have "\<dots> = w @ NUL # drop (Suc (p + length w)) buf" using assms by (simp add: arg_at_def)
  finally show ?thesis using cstr_from_ok [of w] assms by (simp add: cstr_def arg_at_def)
qed

lemma mapR_cstr: "list_all2 (arg_at buf i) argv ws \<Longrightarrow> mapR (cstr buf) argv = Inr ws"
  by (induction rule: list_all2_induct) (simp_all add: cstr_arg)

text \<open>The argument that is being read starts at \<open>p\<close> and has the characters \<open>cur\<close> so far.\<close>

definition open_arg :: "string \<Rightarrow> nat \<Rightarrow> nat option \<Rightarrow> string \<Rightarrow> bool" where
  "open_arg buf i next_arg cur \<longleftrightarrow>
     (case next_arg of
        None \<Rightarrow> cur = []
      | Some p \<Rightarrow> cur \<noteq> [] \<and> p + length cur = i \<and> window p (length cur) buf = cur \<and> NUL \<notin> set cur)"

lemma open_arg_closes:
  assumes "open_arg buf i (Some p) cur" and "i < length buf"
  shows "arg_at (buf[i := NUL]) (Suc i) p cur"
  using assms by (auto simp: open_arg_def arg_at_def window_update_outside)

lemma window_snoc:
  assumes "p + length cur < length buf" and "window p (length cur) buf = cur"
  shows "window p (Suc (length cur)) buf = cur @ [buf ! (p + length cur)]"
  using assms by (simp add: window_def take_Suc_conv_app_nth)

lemma open_arg_grows:
  assumes "open_arg buf i next_arg cur" and "i < length buf" and "buf ! i = c" and "c \<noteq> NUL"
  shows "open_arg buf (Suc i) (case next_arg of None \<Rightarrow> Some i | Some p \<Rightarrow> Some p) (cur @ [c])"
proof (cases next_arg)
  case None
  then show ?thesis using assms by (simp add: open_arg_def window_def take_Suc_conv_app_nth)
next
  case (Some p)
  then have "window p (Suc (length cur)) buf = cur @ [c]"
    using window_snoc [of p cur buf] assms by (auto simp: open_arg_def)
  then show ?thesis using assms Some by (simp add: open_arg_def)
qed

lemma list_all2_snoc:
  "list_all2 P xs ys \<Longrightarrow> P x y \<Longrightarrow> list_all2 P (xs @ [x]) (ys @ [y])"
  by (rule list_all2_appendI) simp_all

lemma args_later:
  assumes "list_all2 (arg_at buf i) argv ws" and "i \<le> k" and "k \<le> length buf"
  shows "list_all2 (arg_at buf k) argv ws"
  using assms(1) by (rule list_all2_mono) (rule arg_at_later [OF _ assms(2,3)])

lemma args_update:
  assumes "list_all2 (arg_at buf i) argv ws" and "i < length buf"
  shows "list_all2 (arg_at (buf[i := NUL]) (Suc i)) argv ws"
  using assms(1) by (rule list_all2_mono) (rule arg_at_update [OF _ order_refl assms(2)])

lemma args_loop_words:
  assumes "window i (Suc (length body)) buf = body @ [c]" and "i + Suc (length body) = rxn" and "rxn \<le> length buf"
    and "NUL \<notin> set body" and "NL \<notin> set body" and "length argv \<le> 16"
    and "list_all2 (arg_at buf i) argv ws" and "open_arg buf i next_arg cur"
  shows "\<exists>buf' argv'. args_loop (Suc (length body)) i rxn buf next_arg argv = Inr (buf', argv') \<and>
    length buf' = length buf \<and> list_all2 (arg_at buf' rxn) argv' (take 16 (ws @ split_words cur body))"
  using assms
proof (induction body arbitrary: i buf argv ws next_arg cur)
  case Nil
  have lw: "length argv = length ws" using Nil.prems(7) by (rule list_all2_lengthD)
  have i: "i < length buf" "rxn = Suc i" using Nil.prems(2,3) by auto
  have later: "list_all2 (arg_at buf rxn) argv ws" "list_all2 (arg_at (buf[i := NUL]) rxn) argv ws"
    using args_later [OF Nil.prems(7), of rxn] args_update [OF Nil.prems(7) i(1)] i by simp_all
  show ?case
  proof (cases "length argv < 16")
    case False
    then have "take 16 (ws @ split_words cur []) = ws" using Nil.prems(6) lw by simp
    then show ?thesis using False later(1) by (simp add: SHELL_MAX_ARGS_def)
  next
    case True
    then have loop: "args_loop (Suc (length [])) i rxn buf next_arg argv =
        Inr (buf[i := NUL], case next_arg of Some p \<Rightarrow> argv @ [p] | None \<Rightarrow> argv)"
      using i by (simp add: argv_next_ok SHELL_MAX_ARGS_def)
    have "list_all2 (arg_at (buf[i := NUL]) rxn) (case next_arg of Some p \<Rightarrow> argv @ [p] | None \<Rightarrow> argv)
        (take 16 (ws @ split_words cur []))"
    proof (cases next_arg)
      case None
      then have "cur = []" using Nil.prems(8) by (simp add: open_arg_def)
      then show ?thesis using None later(2) True lw by simp
    next
      case (Some p)
      then have "cur \<noteq> []" "arg_at (buf[i := NUL]) rxn p cur"
        using Nil.prems(8) open_arg_closes [of buf i p cur] i by (auto simp: open_arg_def)
      then show ?thesis using Some later(2) True lw by (simp add: list_all2_snoc)
    qed
    then show ?thesis unfolding loop by auto
  qed
next
  case (Cons x body)
  have lw: "length argv = length ws" using Cons.prems(7) by (rule list_all2_lengthD)
  have i: "i < length buf" "i \<noteq> rxn - 1" "Suc i + Suc (length body) = rxn" using Cons.prems(2,3) by auto
  have x: "buf ! i = x" "window (Suc i) (Suc (length body)) buf = body @ [c]"
    using Cons.prems(1) i(1) by (simp_all add: window_Suc)
  have nx: "x \<noteq> NUL" "x \<noteq> NL" "NUL \<notin> set body" "NL \<notin> set body" using Cons.prems(4,5) by auto
  show ?case
  proof (cases "length argv < 16")
    case False
    have "list_all2 (arg_at buf rxn) argv ws"
      using args_later [OF Cons.prems(7), of rxn] Cons.prems(3) i by simp
    moreover have "take 16 (ws @ split_words cur (x # body)) = ws" using False Cons.prems(6) lw by simp
    ultimately show ?thesis using False by (simp add: SHELL_MAX_ARGS_def)
  next
    case True
    show ?thesis
    proof (cases "x = SP")
      case False
      have "list_all2 (arg_at buf (Suc i)) argv ws"
        using args_later [OF Cons.prems(7), of "Suc i"] i by simp
      from Cons.IH [OF x(2) i(3) Cons.prems(3) nx(3,4) Cons.prems(6) this
          open_arg_grows [OF Cons.prems(8) i(1) x(1) nx(1)]]
      show ?thesis using True False i(1,2) x(1) nx(2) by (simp add: SHELL_MAX_ARGS_def)
    next
      case sp: True
      let ?buf = "buf[i := NUL]" and ?argv = "case next_arg of Some p \<Rightarrow> argv @ [p] | None \<Rightarrow> argv"
      let ?ws = "ws @ (if cur = [] then [] else [cur])"
      have "window (Suc i) (Suc (length body)) ?buf = body @ [c]"
        using x(2) by (simp add: window_def)
      moreover have "list_all2 (arg_at ?buf (Suc i)) ?argv ?ws"
      proof -
        have "list_all2 (arg_at ?buf (Suc i)) argv ws"
          by (rule args_update [OF Cons.prems(7) i(1)])
        then show ?thesis using Cons.prems(8) i(1) open_arg_closes [of buf i _ cur]
          by (cases next_arg) (auto simp: open_arg_def intro: list_all2_snoc)
      qed
      moreover have "length ?argv \<le> 16" using True by (simp split: option.splits)
      moreover have "open_arg ?buf (Suc i) None []" by (simp add: open_arg_def)
      moreover have "rxn \<le> length ?buf" using Cons.prems(3) by simp
      ultimately obtain buf' argv' where "args_loop (Suc (length body)) (Suc i) rxn ?buf None ?argv = Inr (buf', argv')"
        "length buf' = length ?buf" "list_all2 (arg_at buf' rxn) argv' (take 16 (?ws @ split_words [] body))"
        using Cons.IH [of "Suc i" ?buf ?argv ?ws None "[]"] i(3) nx(3,4) by blast
      then show ?thesis using True sp i(1,2) x(1) by (simp add: argv_next_ok SHELL_MAX_ARGS_def)
    qed
  qed
qed

section \<open>A line from the prompt to the prompt\<close>

definition shell_typing :: "'d shell \<Rightarrow> string \<Rightarrow> bool" where
  "shell_typing s acc \<longleftrightarrow> sh_booted s \<and> rx_size s = length acc \<and> length (rx_buffer s) = 256 \<and>
     take (length acc) (rx_buffer s) = acc"

text \<open>The text a sequence of keys leaves on the line.\<close>

fun typed :: "string \<Rightarrow> string \<Rightarrow> string" where
  "typed acc [] = acc"
| "typed acc (c # cs) =
     (if c = CR then typed acc cs else if c = BS then typed (butlast acc) cs else typed (acc @ [c]) cs)"

text \<open>The effect of a command line with the arguments \<open>args\<close>.\<close>

definition execute ::
  "'h cmd_table \<Rightarrow> ('h \<Rightarrow> 'd shell \<Rightarrow> string list \<Rightarrow> ('d shell \<times> bool) res) \<Rightarrow> 'd shell \<Rightarrow> string list \<Rightarrow>
   ('d shell \<times> bool) res" where
  "execute tbl run s args =
     bindR (if args = [] then Inr (s, True)
            else case prv_find_command tbl (hd args) of
                None \<Rightarrow> Inr (unknown_command s (hd args), True)
              | Some h \<Rightarrow> run h s args) (\<lambda>(s3, returned).
     if returned then Inr (prv_send_prompt (prv_reset_rx_buffer s3), True) else Inr (s3, False))"

lemma receive_typed:
  assumes "shell_typing s acc" and "c \<noteq> NL" and "length acc < 255"
  shows "\<exists>buf. cli_shell_receive_char tbl run s c = Inr (s\<lparr>rx_buffer := buf, rx_size := length (typed acc [c])\<rparr>, True) \<and>
    shell_typing (s\<lparr>rx_buffer := buf, rx_size := length (typed acc [c])\<rparr>) (typed acc [c])"
proof -
  note t = assms(1) [unfolded shell_typing_def]
  have nf: "\<not> prv_is_rx_buffer_full s" using t assms(3) by (simp add: prv_is_rx_buffer_full_def SHELL_RX_BUFFER_SIZE_def)
  consider "c = CR" | "c = BS" "acc = []" | "c = BS" "acc \<noteq> []" | "c \<noteq> CR" "c \<noteq> BS" by blast
  then show ?thesis
  proof cases
    case 1
    then show ?thesis using t by (intro exI [of _ "rx_buffer s"]) (simp add: cli_shell_receive_char_def shell_typing_def)
  next
    case 2
    then show ?thesis using t nf
      by (intro exI [of _ "rx_buffer s"]) (simp add: cli_shell_receive_char_def shell_typing_def prv_booted_def)
  next
    case 3
    let ?buf = "(rx_buffer s)[length acc - 1 := NUL]"
    have "take (length acc - 1) (take (length acc) (rx_buffer s)) = take (length acc - 1) acc"
      using t by simp
    then have "take (length acc - 1) (rx_buffer s) = butlast acc" by (simp add: min_def butlast_conv_take)
    then show ?thesis using 3 t nf assms(3)
      by (intro exI [of _ ?buf]) (simp add: cli_shell_receive_char_def shell_typing_def prv_booted_def)
  next
    case 4
    let ?buf = "(rx_buffer s)[length acc := c]"
    have "take (Suc (length acc)) ?buf = acc @ [c]" using t assms(3) by (simp add: take_Suc_conv_app_nth)
    moreover have "cli_shell_receive_char tbl run s c = Inr (s\<lparr>rx_buffer := ?buf, rx_size := Suc (length acc)\<rparr>, True)"
      using 4 t nf assms(2,3)
      by (simp add: cli_shell_receive_char_def prv_booted_def prv_process_def prv_last_char_def
          prv_is_rx_buffer_full_def SHELL_RX_BUFFER_SIZE_def)
    ultimately show ?thesis using 4 t by (intro exI [of _ ?buf]) (simp add: shell_typing_def)
  qed
qed

lemma typed_append: "typed acc (xs @ ys) = typed (typed acc xs) ys"
  by (induction acc xs rule: typed.induct) simp_all

lemma length_typed: "length (typed acc cs) \<le> length acc + length cs"
  by (induction acc cs rule: typed.induct) auto

lemma set_typed: "set (typed acc cs) \<subseteq> set acc \<union> set cs"
  by (induction acc cs rule: typed.induct) (auto dest: in_set_butlastD)

lemma feed_typed:
  assumes "shell_typing s acc" and "NL \<notin> set cs" and "length acc + length cs \<le> 255"
  shows "\<exists>buf. shell_feed tbl run s cs = Inr (s\<lparr>rx_buffer := buf, rx_size := length (typed acc cs)\<rparr>, True) \<and>
    shell_typing (s\<lparr>rx_buffer := buf, rx_size := length (typed acc cs)\<rparr>) (typed acc cs)"
  using assms
proof (induction cs arbitrary: s acc)
  case Nil
  then have "s\<lparr>rx_buffer := rx_buffer s, rx_size := length acc\<rparr> = s" by (simp add: shell_typing_def)
  then show ?case using Nil.prems(1) by (intro exI [of _ "rx_buffer s"]) simp
next
  case (Cons c cs)
  have "c \<noteq> NL" "length acc < 255" using Cons.prems(2,3) by auto
  from receive_typed [OF Cons.prems(1) this, of tbl run] obtain buf where
    1: "cli_shell_receive_char tbl run s c = Inr (s\<lparr>rx_buffer := buf, rx_size := length (typed acc [c])\<rparr>, True)"
    "shell_typing (s\<lparr>rx_buffer := buf, rx_size := length (typed acc [c])\<rparr>) (typed acc [c])" by blast
  have "length (typed acc [c]) + length cs \<le> 255" using length_typed [of acc "[c]"] Cons.prems(3) by simp
  moreover have "NL \<notin> set cs" using Cons.prems(2) by simp
  moreover have "typed (typed acc [c]) cs = typed acc (c # cs)" using typed_append [of acc "[c]" cs] by simp
  ultimately show ?case using Cons.IH [OF 1(2)] 1(1) by (auto simp: bindR_eq_Inr)
qed

lemma prv_process_execute:
  assumes "prv_last_char s = Inr l" and "\<not> (l \<noteq> NL \<and> \<not> prv_is_rx_buffer_full s)"
    and "args_loop (rx_size s) 0 (rx_size s) (rx_buffer s) None [] = Inr (buf, argv)"
    and "mapR (cstr buf) argv = Inr args" and "length argv = length args"
    and "s2 = (let s1 = s\<lparr>rx_buffer := buf\<rparr> in if rx_size s = 256 then prv_echo s1 NL else s1)"
  shows "prv_process tbl run s = execute tbl run s2 args"
proof -
  have "1 \<le> length argv \<longleftrightarrow> args \<noteq> []" using assms(5) by (cases args) auto
  then show ?thesis using assms(2,4)
    by (auto simp: prv_process_def assms(1,3,6) execute_def Let_def SHELL_RX_BUFFER_SIZE_def simp del: args_loop.simps)
qed

lemma process_line:
  assumes "shell_typing s line" and "length line \<le> 255" and "NUL \<notin> set line" and "NL \<notin> set line"
    and "c = NL \<or> length line = 255" and "c \<noteq> CR" and "c \<noteq> BS"
  shows "\<exists>buf. length buf = 256 \<and> cli_shell_receive_char tbl run s c =
    execute tbl run (let s1 = s\<lparr>rx_size := length line + 1, rx_buffer := buf\<rparr> in
        if length line = 255 then prv_echo s1 NL else s1) (take 16 (shell_words line))"
proof -
  note t = assms(1) [unfolded shell_typing_def]
  let ?buf = "(rx_buffer s)[length line := c]"
  let ?s = "s\<lparr>rx_buffer := ?buf, rx_size := length line + 1\<rparr>"
  have "window 0 (Suc (length line)) ?buf = line @ [c]"
    using t assms(2) by (simp add: window_def take_Suc_conv_app_nth)
  moreover have "0 + Suc (length line) = length line + 1" "length line + 1 \<le> length ?buf" using t assms(2) by simp_all
  moreover have "length [] \<le> (16 :: nat)" "list_all2 (arg_at ?buf 0) [] []" "open_arg ?buf 0 None []"
    by (simp_all add: open_arg_def)
  ultimately obtain buf argv where
    a: "args_loop (Suc (length line)) 0 (length line + 1) ?buf None [] = Inr (buf, argv)" "length buf = length ?buf"
      "list_all2 (arg_at buf (length line + 1)) argv (take 16 ([] @ split_words [] line))"
    using args_loop_words [of 0 line ?buf c "length line + 1" "[]" "[]" None "[]"] assms(3,4) by blast
  define args where "args = take 16 (shell_words line)"
  have args: "mapR (cstr buf) argv = Inr args" "length argv = length args"
    using mapR_cstr [OF a(3)] list_all2_lengthD [OF a(3)] by (simp_all add: split_words_Nil args_def)
  have l: "prv_last_char ?s = Inr c" using t assms(2) by (simp add: prv_last_char_def)
  have f: "\<not> (c \<noteq> NL \<and> \<not> prv_is_rx_buffer_full ?s)"
    using assms(5) by (auto simp: prv_is_rx_buffer_full_def SHELL_RX_BUFFER_SIZE_def)
  let ?s2 = "let s1 = s\<lparr>rx_size := length line + 1, rx_buffer := buf\<rparr> in
        if length line = 255 then prv_echo s1 NL else s1"
  have "prv_process tbl run ?s = execute tbl run ?s2 args"
    by (intro prv_process_execute [OF l f]) (use a(1) args in \<open>simp_all del: args_loop.simps\<close>)
  moreover have "cli_shell_receive_char tbl run s c = prv_process tbl run ?s"
    using t assms(2,6,7)
    by (simp add: cli_shell_receive_char_def prv_is_rx_buffer_full_def SHELL_RX_BUFFER_SIZE_def prv_booted_def)
  moreover have "length buf = 256" using a(2) t by simp
  ultimately show ?thesis unfolding args_def by auto
qed

lemma shell_feed_snoc:
  "shell_feed tbl run s cs = Inr (s', True) \<Longrightarrow>
   shell_feed tbl run s (cs @ [c]) = cli_shell_receive_char tbl run s' c"
proof (induction cs arbitrary: s)
  case Nil
  then show ?case by (cases "cli_shell_receive_char tbl run s c") auto
next
  case (Cons x xs)
  then obtain s1 where "cli_shell_receive_char tbl run s x = Inr (s1, True)" "shell_feed tbl run s1 xs = Inr (s', True)"
    by (auto simp: bindR_eq_Inr split: if_splits)
  then show ?case using Cons.IH by simp
qed

lemma line_executes:
  assumes "shell_typing s acc" and "NUL \<notin> set acc \<union> set cs" and "NL \<notin> set acc \<union> set cs"
    and "length acc + length cs \<le> 255" and "line = typed acc cs"
    and "c = NL \<or> length line = 255" and "c \<noteq> CR" and "c \<noteq> BS"
  shows "\<exists>buf. length buf = 256 \<and> shell_feed tbl run s (cs @ [c]) =
    execute tbl run (let s1 = s\<lparr>rx_size := length line + 1, rx_buffer := buf\<rparr> in
        if length line = 255 then prv_echo s1 NL else s1) (take 16 (shell_words line))"
proof -
  from feed_typed [OF assms(1), of cs tbl run] assms(3,4,5) obtain b where
    1: "shell_feed tbl run s cs = Inr (s\<lparr>rx_buffer := b, rx_size := length line\<rparr>, True)"
    "shell_typing (s\<lparr>rx_buffer := b, rx_size := length line\<rparr>) line" by auto
  have "length line \<le> 255" "NUL \<notin> set line" "NL \<notin> set line"
    using length_typed [of acc cs] set_typed [of acc cs] assms(2-5) by auto
  from process_line [OF 1(2) this assms(6-8), of tbl run] show ?thesis
    unfolding shell_feed_snoc [OF 1(1)] by (simp add: Let_def)
qed

lemma typed_plain: "CR \<notin> set cs \<Longrightarrow> BS \<notin> set cs \<Longrightarrow> typed acc cs = acc @ cs"
  by (induction acc cs rule: typed.induct) auto

lemma plain_line_executes:
  assumes "shell_typing s []" and "NUL \<notin> set cs" and "NL \<notin> set cs" and "CR \<notin> set cs" and "BS \<notin> set cs"
    and "length cs < 255"
  shows "\<exists>buf. length buf = 256 \<and> shell_feed tbl run s (cs @ [NL]) =
    execute tbl run (s\<lparr>rx_size := length cs + 1, rx_buffer := buf\<rparr>) (take 16 (shell_words cs))"
  using line_executes [OF assms(1), of cs cs NL tbl run] assms(2-6) by (simp add: typed_plain)

text \<open>C28: From the prompt, typing the keys \<open>cs\<close> (backspace and carriage return included) and then the
  newline runs the command line whose arguments are the first 16 words of the text that the keys
  left on the line: looked up by the first word, called with all of them, an unknown name
  reported, an empty line answered by a new prompt. A line that has reached 255 characters is
  ended by whatever the next character is, and that character is lost.\<close>

theorem shell_line:
  assumes "shell_typing s []" and "NUL \<notin> set cs" and "NL \<notin> set cs" and "length cs \<le> 255"
    and "line = typed [] cs" and "c = NL \<or> length line = 255" and "c \<noteq> CR" and "c \<noteq> BS"
  shows "\<exists>buf. length buf = 256 \<and> shell_feed tbl run s (cs @ [c]) =
    execute tbl run (let s1 = s\<lparr>rx_size := length line + 1, rx_buffer := buf\<rparr> in
        if length line = 255 then prv_echo s1 NL else s1) (take 16 (shell_words line))"
  by (rule line_executes [OF assms(1)]) (use assms in simp_all)

text \<open>A table with one command that counts its calls.\<close>

definition count_shell :: "nat shell" where
  "count_shell = \<lparr>sh_booted = True, rx_size = 0, rx_buffer = replicate 256 NUL, sent = [], dev = 0\<rparr>"

theorem shell_line_witness:
  "\<exists>buf. length buf = 256 \<and>
     shell_feed [(''up'', (), ''h'')] (\<lambda>_ s args. Inr (s\<lparr>dev := dev s + length args\<rparr>, True)) count_shell (''upx'' @ [BS] @ '' 7'' @ [NL]) =
     execute [(''up'', (), ''h'')] (\<lambda>_ s args. Inr (s\<lparr>dev := dev s + length args\<rparr>, True))
       (count_shell\<lparr>rx_size := length ''up 7'' + 1, rx_buffer := buf\<rparr>) [''up'', ''7'']"
proof -
  have "take 16 (shell_words ''up 7'') = [''up'', ''7'']" by (simp add: shell_words.simps)
  moreover have "shell_typing count_shell []" by (simp add: shell_typing_def count_shell_def)
  ultimately show ?thesis
    using shell_line [of count_shell "''upx'' @ [BS] @ '' 7''" "''up 7''" NL "[(''up'', (), ''h'')]"
        "\<lambda>_ s args. Inr (s\<lparr>dev := dev s + length args\<rparr>, True)"]
    by (simp del: shell_feed.simps)
qed

section \<open>Any bytes at all\<close>

text \<open>Every argument pointer has a terminator behind it.\<close>

definition terminated :: "string \<Rightarrow> nat \<Rightarrow> bool" where
  "terminated buf p \<longleftrightarrow> (\<exists>q. p \<le> q \<and> q < length buf \<and> buf ! q = NUL)"

lemma terminated_update:
  assumes "terminated buf p"
  shows "terminated (buf[i := NUL]) p"
proof -
  obtain q where "p \<le> q" "q < length buf" "buf ! q = NUL" using assms by (auto simp: terminated_def)
  then have "p \<le> q \<and> q < length (buf[i := NUL]) \<and> buf[i := NUL] ! q = NUL"
    by (cases "i = q") simp_all
  then show ?thesis unfolding terminated_def by blast
qed

lemma terminated_here: "p \<le> i \<Longrightarrow> i < length buf \<Longrightarrow> terminated (buf[i := NUL]) p"
  unfolding terminated_def by (intro exI [of _ i]) simp

lemma cstr_from_total: "NUL \<in> set cs \<Longrightarrow> \<exists>w. cstr_from cs = Inr w"
  by (induction cs) auto

lemma cstr_total:
  assumes "terminated buf p"
  shows "\<exists>w. cstr buf p = Inr w"
proof -
  obtain q where q: "p \<le> q" "q < length buf" "buf ! q = NUL" using assms by (auto simp: terminated_def)
  then have "drop p buf ! (q - p) = NUL" "q - p < length (drop p buf)" by auto
  then have "NUL \<in> set (drop p buf)" by (metis nth_mem)
  then show ?thesis by (simp add: cstr_def cstr_from_total)
qed

lemma mapR_cstr_total:
  "\<forall>p \<in> set argv. terminated buf p \<Longrightarrow> \<exists>args. mapR (cstr buf) argv = Inr args \<and> length args = length argv"
proof (induction argv)
  case (Cons p argv)
  then obtain w ws where "cstr buf p = Inr w" "mapR (cstr buf) argv = Inr ws" "length ws = length argv"
    using cstr_total [of buf p] by auto
  then show ?case by simp
qed simp

lemma args_loop_total:
  assumes "i + n = rxn" and "rxn \<le> length buf" and "\<forall>p \<in> set argv. terminated buf p"
    and "\<forall>p. next_arg = Some p \<longrightarrow> p \<le> i"
  shows "\<exists>buf' argv'. args_loop n i rxn buf next_arg argv = Inr (buf', argv') \<and> length buf' = length buf \<and>
    (\<forall>p \<in> set argv'. terminated buf' p)"
  using assms
proof (induction n i rxn buf next_arg argv rule: args_loop.induct)
  case (2 n i rxn buf next_arg argv)
  show ?case
  proof (cases "length argv < SHELL_MAX_ARGS")
    case True
    have i: "i < length buf" using "2.prems"(1,2) by simp
    show ?thesis
    proof (cases "buf ! i = SP \<or> buf ! i = NL \<or> i = rxn - 1")
      case c: True
      let ?argv = "case next_arg of Some p \<Rightarrow> argv @ [p] | None \<Rightarrow> argv"
      have "\<forall>p \<in> set ?argv. terminated (buf[i := NUL]) p"
        using "2.prems"(3,4) i by (auto simp: terminated_update terminated_here split: option.splits)
      with "2.IH"(1) [OF True c, of "buf[i := NUL]" ?argv] "2.prems"(1,2) i
      show ?thesis using True c i by (auto simp: rd_def wr_def argv_next_ok)
    next
      case c: False
      have "\<forall>p. (case next_arg of None \<Rightarrow> Some i | Some p \<Rightarrow> Some p) = Some p \<longrightarrow> p \<le> i + 1"
        using "2.prems"(4) by (auto split: option.splits)
      with "2.IH"(2) [OF True c] "2.prems"(1,2,3) i
      show ?thesis using True c i by (auto simp: rd_def)
    qed
  qed (use 2 in simp)
qed simp

text \<open>What the table of commands promises: on a booted shell with its whole buffer and an acceptable
  device, a command returns or restarts the device, and keeps all three.\<close>

locale shell_commands =
  fixes tbl :: "'h cmd_table"
    and run :: "'h \<Rightarrow> 'd shell \<Rightarrow> string list \<Rightarrow> ('d shell \<times> bool) res"
    and ok :: "'d \<Rightarrow> bool"
  assumes run_keeps: "\<lbrakk>prv_find_command tbl (hd args) = Some h; args \<noteq> []; sh_booted s; length (rx_buffer s) = 256;
      ok (dev s)\<rbrakk> \<Longrightarrow>
    \<exists>s' returned. run h s args = Inr (s', returned) \<and> sh_booted s' \<and> length (rx_buffer s') = 256 \<and> ok (dev s')"

definition shell_ok :: "('d \<Rightarrow> bool) \<Rightarrow> 'd shell \<Rightarrow> bool" where
  "shell_ok ok s \<longleftrightarrow> sh_booted s \<and> length (rx_buffer s) = 256 \<and> rx_size s < 256 \<and> ok (dev s)"

lemma echo_frame [simp]:
  "sh_booted (prv_echo s c) = sh_booted s" "rx_buffer (prv_echo s c) = rx_buffer s" "rx_size (prv_echo s c) = rx_size s"
  "dev (prv_echo s c) = dev s" "sh_booted (prv_echo_str s x) = sh_booted s"
  "rx_buffer (prv_echo_str s x) = rx_buffer s" "rx_size (prv_echo_str s x) = rx_size s" "dev (prv_echo_str s x) = dev s"
  by (simp_all add: prv_echo_def prv_send_char_def prv_echo_str_def)

lemma ex_flag [simp]: "\<exists>b. b" "\<exists>b. \<not> b"
  by auto

context shell_commands
begin

lemma prv_process_keeps:
  assumes "sh_booted s" and "length (rx_buffer s) = 256" and "0 < rx_size s" and "rx_size s \<le> 256" and "ok (dev s)"
  shows "\<exists>s' returned. prv_process tbl run s = Inr (s', returned) \<and> ok (dev s') \<and> (returned \<longrightarrow> shell_ok ok s')"
proof -
  have "rx_size s - 1 < length (rx_buffer s)" using assms(2-4) by linarith
  then have l: "prv_last_char s = Inr (rx_buffer s ! (rx_size s - 1))"
    using assms(3) by (simp add: prv_last_char_def rd_def)
  show ?thesis
  proof (cases "rx_buffer s ! (rx_size s - 1) \<noteq> NL \<and> \<not> prv_is_rx_buffer_full s")
    case True
    then show ?thesis using assms l
      by (simp add: prv_process_def shell_ok_def prv_is_rx_buffer_full_def SHELL_RX_BUFFER_SIZE_def)
  next
    case f: False
    obtain buf argv where a: "args_loop (rx_size s) 0 (rx_size s) (rx_buffer s) None [] = Inr (buf, argv)"
      "length buf = 256" "\<forall>p \<in> set argv. terminated buf p"
      using args_loop_total [of 0 "rx_size s" "rx_size s" "rx_buffer s" "[]" None] assms(2,4) by auto
    obtain args where args: "mapR (cstr buf) argv = Inr args" "length argv = length args"
      using mapR_cstr_total [OF a(3)] by auto
    define s2 where "s2 = (let s1 = s\<lparr>rx_buffer := buf\<rparr> in if rx_size s = 256 then prv_echo s1 NL else s1)"
    have s2: "sh_booted s2" "length (rx_buffer s2) = 256" "ok (dev s2)"
      using assms a(2) by (simp_all add: s2_def Let_def)
    have "prv_process tbl run s = execute tbl run s2 args"
      by (rule prv_process_execute [OF l f a(1) args s2_def])
    moreover have "\<exists>s' returned. execute tbl run s2 args = Inr (s', returned) \<and> ok (dev s') \<and> (returned \<longrightarrow> shell_ok ok s')"
    proof (cases "args = []")
      case True
      then show ?thesis using s2
        by (simp add: execute_def shell_ok_def prv_send_prompt_def prv_reset_rx_buffer_def SHELL_RX_BUFFER_SIZE_def)
    next
      case ne: False
      show ?thesis
      proof (cases "prv_find_command tbl (hd args)")
        case None
        then show ?thesis using s2 ne
          by (simp add: execute_def shell_ok_def prv_send_prompt_def prv_reset_rx_buffer_def unknown_command_def
              SHELL_RX_BUFFER_SIZE_def)
      next
        case (Some h)
        from run_keeps [OF Some ne s2] obtain s' returned where
          "run h s2 args = Inr (s', returned)" "sh_booted s'" "length (rx_buffer s') = 256" "ok (dev s')" by blast
        then show ?thesis using ne Some
          by (cases returned) (auto simp: execute_def shell_ok_def prv_send_prompt_def prv_reset_rx_buffer_def
              SHELL_RX_BUFFER_SIZE_def)
      qed
    qed
    ultimately show ?thesis by simp
  qed
qed

lemma receive_char_keeps:
  assumes "shell_ok ok s"
  shows "\<exists>s' returned. cli_shell_receive_char tbl run s c = Inr (s', returned) \<and> ok (dev s') \<and> (returned \<longrightarrow> shell_ok ok s')"
proof -
  note k = assms [unfolded shell_ok_def]
  have nf: "\<not> prv_is_rx_buffer_full s" using k by (simp add: prv_is_rx_buffer_full_def SHELL_RX_BUFFER_SIZE_def)
  consider "c = CR" | "c = BS" "rx_size s = 0" | "c = BS" "0 < rx_size s" | "c \<noteq> CR" "c \<noteq> BS" by blast
  then show ?thesis
  proof cases
    case 4
    let ?s = "s\<lparr>rx_buffer := (rx_buffer s)[rx_size s := c], rx_size := rx_size s + 1\<rparr>"
    have "cli_shell_receive_char tbl run s c = prv_process tbl run ?s"
      using 4 k nf by (simp add: cli_shell_receive_char_def prv_booted_def wr_def)
    then show ?thesis using prv_process_keeps [of ?s] k by simp
  qed (use k nf in \<open>simp_all add: cli_shell_receive_char_def prv_booted_def wr_def shell_ok_def less_imp_diff_less\<close>)
qed

lemma feed_keeps:
  assumes "shell_ok ok s"
  shows "\<exists>s' returned. shell_feed tbl run s cs = Inr (s', returned) \<and> ok (dev s') \<and> (returned \<longrightarrow> shell_ok ok s')"
  using assms
proof (induction cs arbitrary: s)
  case Nil
  then show ?case by (simp add: shell_ok_def)
next
  case (Cons c cs)
  from receive_char_keeps [OF Cons.prems, of c] obtain s' returned where
    r: "cli_shell_receive_char tbl run s c = Inr (s', returned)" "ok (dev s')" "returned \<longrightarrow> shell_ok ok s'" by blast
  then show ?case using Cons.IH [of s'] by (cases returned) auto
qed

end

end
