(* ===== verification/USB_Bridge.thy ===== *)
theory USB_Bridge
  imports Board
begin

text \<open>
  The bridge between the USB serial port and the RS485 line (\<open>app/user/usb_rs485/usb_rs485.c\<close>
  over \<open>bsp/bsp_usb.c\<close>). While it is enabled the Modbus task is suspended, since both use the
  same UART. The scheduler is seen through what the code asks of it: the calls it makes, in their
  order (\<open>os_calls\<close>), and what they mean for the bridge, a suspended task and the notification count of the
  bridge task; \<open>Line_Owner\<close> carries the calls out on the kernel. The USB stack is a pair of byte lists per channel.
\<close>

definition BSP_USB_SHELL_CH :: u8 where "BSP_USB_SHELL_CH = 0"
definition BSP_USB_BRIDGE_CH :: u8 where "BSP_USB_BRIDGE_CH = 1"
definition BRIDGE_BUF_SIZE :: nat where "BRIDGE_BUF_SIZE = 256"
definition BSP_RS485 :: int where "BSP_RS485 = 1"

lemmas bridge_consts = BSP_USB_SHELL_CH_def BSP_USB_BRIDGE_CH_def BRIDGE_BUF_SIZE_def BSP_RS485_def

section \<open>The switch\<close>

text \<open>The calls of the scheduler: \<open>vTaskSuspend\<close> and \<open>vTaskResume\<close> on the Modbus task, \<open>xTaskNotifyGive\<close> to the bridge task.\<close>

datatype os_call = Suspend_Modbus | Resume_Modbus | Notify_Bridge

record bridge =
  s_enabled :: bool
  has_bridge_task :: bool
  has_modbus_task :: bool
  modbus_suspended :: bool
  notified :: nat
  os_calls :: "os_call list"

definition bridge_reset :: bridge where
  "bridge_reset = \<lparr>s_enabled = False, has_bridge_task = False, has_modbus_task = False,
     modbus_suspended = False, notified = 0, os_calls = []\<rparr>"

definition usb_rs485_set_modbus_handle :: "bridge \<Rightarrow> bool \<Rightarrow> bridge" where
  "usb_rs485_set_modbus_handle b handle = b\<lparr>has_modbus_task := handle\<rparr>"

text \<open>\<open>created\<close> tells whether the task could be created.\<close>

definition usb_rs485_init :: "bridge \<Rightarrow> bool \<Rightarrow> bridge" where
  "usb_rs485_init b created = (if created then b\<lparr>has_bridge_task := True\<rparr> else b)"

definition usb_rs485_enable :: "bridge \<Rightarrow> bridge" where
  "usb_rs485_enable b =
     (if s_enabled b then b
      else
        let b1 = (if has_modbus_task b
                  then b\<lparr>modbus_suspended := True, os_calls := os_calls b @ [Suspend_Modbus]\<rparr> else b);
            b2 = b1\<lparr>s_enabled := True\<rparr> in
        if has_bridge_task b2 then b2\<lparr>notified := notified b2 + 1, os_calls := os_calls b2 @ [Notify_Bridge]\<rparr>
        else b2)"

definition usb_rs485_disable :: "bridge \<Rightarrow> bridge" where
  "usb_rs485_disable b =
     (if \<not> s_enabled b then b
      else
        let b1 = b\<lparr>s_enabled := False\<rparr> in
        if has_modbus_task b1
        then b1\<lparr>modbus_suspended := False, os_calls := os_calls b1 @ [Resume_Modbus]\<rparr> else b1)"

definition usb_rs485_is_enabled :: "bridge \<Rightarrow> bool" where
  "usb_rs485_is_enabled b = s_enabled b"

definition tud_cdc_line_state_cb :: "bridge \<Rightarrow> u8 \<Rightarrow> bool \<Rightarrow> bool \<Rightarrow> bridge" where
  "tud_cdc_line_state_cb b itf dtr rts =
     (if itf \<noteq> BSP_USB_BRIDGE_CH then b
      else if dtr then usb_rs485_enable b else usb_rs485_disable b)"

section \<open>The bridge task\<close>

record ('c, 't) bridge_sys =
  br :: bridge
  bd :: "('c, 't) board"
  usb_rx :: "u8 list"
  usb_tx :: "u8 list"

text \<open>The USB layer: \<open>ready\<close> and \<open>room\<close> say what the USB stack accepts at the moment.\<close>

definition bsp_usb_transmit :: "bool \<Rightarrow> nat \<Rightarrow> u8 list \<Rightarrow> u8 list \<Rightarrow> u8 list \<times> nat" where
  "bsp_usb_transmit ready room tx buf =
     (if \<not> ready then (tx, 0) else (tx @ take room buf, min room (length buf)))"

definition bsp_usb_available :: "u8 list \<Rightarrow> nat" where
  "bsp_usb_available rx = length rx"

definition bsp_usb_receiver :: "u8 list \<Rightarrow> nat \<Rightarrow> u8 list \<times> u8 list" where
  "bsp_usb_receiver rx len = (take len rx, drop len rx)"

text \<open>What the surroundings are during one turn of the task's loop.\<close>

record turn_env =
  env_mounted :: bool
  env_connected :: bool
  env_ready :: bool
  env_room :: nat
  env_status :: int
  env_tick :: u32
  env_turns :: "turn list"

definition usb_to_rs485 :: "turn_env \<Rightarrow> ('c, 't) bridge_sys \<Rightarrow> ('c, 't) bridge_sys res" where
  "usb_to_rs485 env s =
     (let avail = bsp_usb_available (usb_rx s) in
      if avail > 0 then
        (let avail' = (if avail > BRIDGE_BUF_SIZE then BRIDGE_BUF_SIZE else avail);
             (buf, rx) = bsp_usb_receiver (usb_rx s) avail';
             s1 = s\<lparr>usb_rx := rx\<rparr> in
         if length buf > 0 then
           bindR (bsp_uart_transmit (env_status env) (bsp_rs485_de_on (bd s1)) BSP_RS485 buf
                    (word_of_nat (length buf))) (\<lambda>(b, st).
           Inr (s1\<lparr>bd := bsp_rs485_de_off b\<rparr>))
         else Inr s1)
      else Inr s)"

definition rs485_to_usb :: "nat \<Rightarrow> turn_env \<Rightarrow> ('c, 't) bridge_sys \<Rightarrow> ('c, 't) bridge_sys option res" where
  "rs485_to_usb cur env s =
     bindR (bsp_uart_available (bd s) BSP_RS485) (\<lambda>n.
     let rx_avail = nat n in
     if rx_avail > 0 then
       (let rx_avail' = (if rx_avail > BRIDGE_BUF_SIZE then BRIDGE_BUF_SIZE else rx_avail) in
        bindR (bsp_uart_receive cur (env_tick env) (env_turns env) (bd s) BSP_RS485
                 (replicate BRIDGE_BUF_SIZE 0) (word_of_nat rx_avail') 10) (\<lambda>r.
        case r of
          None \<Rightarrow> Inr None
        | Some (b, buf, len) \<Rightarrow>
            (let s1 = s\<lparr>bd := b\<rparr> in
             Inr (Some (if len > 0 \<and> env_connected env
                        then s1\<lparr>usb_tx := fst (bsp_usb_transmit (env_ready env) (env_room env) (usb_tx s1)
                                              (take (nat len) buf))\<rparr>
                        else s1)))))
     else Inr (Some s))"

text \<open>
  One turn of the loop; None is a task that is still blocked, be it for a notification or in
  the UART. A notification that is already there is taken without waiting.
\<close>

definition bridge_round :: "nat \<Rightarrow> turn_env \<Rightarrow> ('c, 't) bridge_sys \<Rightarrow> ('c, 't) bridge_sys option res" where
  "bridge_round cur env s =
     (if \<not> env_mounted env then Inr (Some s)
      else if \<not> s_enabled (br s) \<and> notified (br s) = 0 then Inr None
      else
        let s1 = (if \<not> s_enabled (br s) then s\<lparr>br := (br s)\<lparr>notified := 0\<rparr>\<rparr> else s) in
        bindR (usb_to_rs485 env s1) (\<lambda>s2. rs485_to_usb cur env s2))"

section \<open>Who owns the line\<close>

datatype bridge_event = Bridge_On | Bridge_Off | Line_State u8 bool bool

fun bridge_handle :: "bridge_event \<Rightarrow> bridge \<Rightarrow> bridge" where
  "bridge_handle Bridge_On b = usb_rs485_enable b"
| "bridge_handle Bridge_Off b = usb_rs485_disable b"
| "bridge_handle (Line_State itf dtr rts) b = tud_cdc_line_state_cb b itf dtr rts"

definition bridge_inv :: "bridge \<Rightarrow> bool" where
  "bridge_inv b \<longleftrightarrow> has_modbus_task b \<and> (modbus_suspended b \<longleftrightarrow> s_enabled b)"

text \<open>What a history of events asks for last.\<close>

fun wanted :: "bridge_event list \<Rightarrow> bool \<Rightarrow> bool" where
  "wanted [] on = on"
| "wanted (Bridge_On # es) on = wanted es True"
| "wanted (Bridge_Off # es) on = wanted es False"
| "wanted (Line_State itf dtr rts # es) on = wanted es (if itf = 1 then dtr else on)"

lemma enable_inv: "bridge_inv b \<Longrightarrow> bridge_inv (usb_rs485_enable b) \<and> s_enabled (usb_rs485_enable b)"
  by (auto simp: bridge_inv_def usb_rs485_enable_def Let_def)

lemma disable_inv: "bridge_inv b \<Longrightarrow> bridge_inv (usb_rs485_disable b) \<and> \<not> s_enabled (usb_rs485_disable b)"
  by (auto simp: bridge_inv_def usb_rs485_disable_def Let_def)

lemma handle_inv:
  assumes "bridge_inv b"
  shows "bridge_inv (bridge_handle e b) \<and> s_enabled (bridge_handle e b) = wanted [e] (s_enabled b)"
  using assms enable_inv [OF assms] disable_inv [OF assms]
  by (cases e) (auto simp: tud_cdc_line_state_cb_def BSP_USB_BRIDGE_CH_def)

lemma wanted_append: "wanted (xs @ ys) on = wanted ys (wanted xs on)"
  by (induction xs on rule: wanted.induct) simp_all

section \<open>What a turn moves\<close>

lemma usb_to_rs485_moves:
  assumes "board_inv (bd s)"
  shows "usb_to_rs485 env s = Inr (s\<lparr>usb_rx := drop 256 (usb_rx s),
    bd := if usb_rx s = [] then bd s
          else (bd s)\<lparr>level := (level (bd s))(de_pin := False),
                      tx_out := (tx_out (bd s))[1 := tx_out (bd s) ! 1 @ take 256 (usb_rx s)]\<rparr>\<rparr>)"
proof (cases "usb_rx s = []")
  case True
  then show ?thesis by (simp add: usb_to_rs485_def bsp_usb_available_def)
next
  case False
  define k where "k = (if length (usb_rx s) > 256 then 256 else length (usb_rx s))"
  have k: "take k (usb_rx s) = take 256 (usb_rx s)" "drop k (usb_rx s) = drop 256 (usb_rx s)" "0 < k" "k \<le> 256"
    "k \<le> length (usb_rx s)"
    using False by (auto simp: k_def)
  have l: "unat (word_of_nat (length (take 256 (usb_rx s))) :: u32) = length (take 256 (usb_rx s))"
    by (simp add: unat_of_nat)
  have l2: "length (usb_rx s) \<le> 256 \<Longrightarrow> unat (word_of_nat (length (usb_rx s)) :: u32) = length (usb_rx s)"
    by (simp add: unat_of_nat)
  have "1 < length (tx_out (bd s))" using assms by (simp add: board_inv_def)
  then show ?thesis
    using False k l l2
    by (auto simp: usb_to_rs485_def bsp_usb_available_def bsp_usb_receiver_def BRIDGE_BUF_SIZE_def
        k_def [symmetric] BSP_RS485_def bsp_nums bsp_uart_transmit_def bsp_rs485_de_on_def bsp_rs485_de_off_def
        Let_def)
qed

lemma uart_receive_frame:
  assumes "bsp_uart_receive cur now turns b uart buff len timeout = Inr (Some (b', buff', n))"
  shows "level b' = level b \<and> tx_out b' = tx_out b"
proof (cases "uart < 0 \<or> uart \<ge> BSP_UART_NUM")
  case False
  with assms obtain h where h: "rd (rx_queue b) (nat uart) = Inr h"
    by (auto simp: bsp_uart_receive_def res_simps)
  show ?thesis
  proof (cases h)
    case None
    then show ?thesis using assms False h
      by (auto simp: bsp_uart_receive_def split: list.splits if_splits)
  next
    case (Some q)
    then show ?thesis using assms False h
      by (auto simp: bsp_uart_receive_def res_simps set_queue_def)
  qed
qed (use assms in \<open>simp add: bsp_uart_receive_def\<close>)

lemma rs485_to_usb_moves:
  assumes "board_inv (bd s)" and "uart_queue (bd s) 1 = Inr q" and "rq_contents q = xs"
    and "length xs \<le> length (env_turns env)" and "\<forall>t \<in> set (env_turns env). fst t - env_tick env < 10"
  shows "\<exists>b q'. rs485_to_usb cur env s = Inr (Some (s\<lparr>bd := b,
      usb_tx := usb_tx s @ (if env_connected env \<and> env_ready env then take (env_room env) xs else [])\<rparr>)) \<and>
    board_inv b \<and> uart_queue b 1 = Inr q' \<and> rq_contents q' = [] \<and> level b = level (bd s) \<and> tx_out b = tx_out (bd s)"
proof (cases "xs = []")
  case True
  then have "uxMessagesWaiting q = 0" using rq_length [of q] assms(3) by simp
  then have "rs485_to_usb cur env s = Inr (Some s)"
    using assms(2) by (simp add: rs485_to_usb_def bsp_uart_available_def BSP_RS485_def bsp_nums)
  then show ?thesis using True assms(1-3) by (intro exI [of _ "bd s"] exI [of _ q]) auto
next
  case False
  note i = uart_queue_inv [OF assms(1,2)]
  have n: "uxMessagesWaiting q = length xs" using rq_length [of q] assms(3) by simp
  then have small: "length xs \<le> 256" using i by (simp add: rq_inv_def)
  then have nb: "\<not> BRIDGE_BUF_SIZE < length xs" by (simp add: BRIDGE_BUF_SIZE_def)
  have u: "unat (word_of_nat (length xs) :: u32) = length xs" using small by (simp add: unat_of_nat)
  have pos: "0 < unat (word_of_nat (length xs) :: u32)" "0 < length xs" using False u by auto
  have c: "rq_contents q = xs @ []" "length xs = unat (word_of_nat (length xs) :: u32)"
    "unat (word_of_nat (length xs) :: u32) \<le> length (env_turns env)"
    "unat (word_of_nat (length xs) :: u32) \<le> length (replicate BRIDGE_BUF_SIZE (0 :: u8))"
    using assms(3,4) u small by (simp_all add: BRIDGE_BUF_SIZE_def)
  obtain b q' where r: "bsp_uart_receive cur (env_tick env) (env_turns env) (bd s) 1 (replicate BRIDGE_BUF_SIZE 0)
      (word_of_nat (length xs)) 10 =
      Inr (Some (b, xs @ drop (unat (word_of_nat (length xs) :: u32)) (replicate BRIDGE_BUF_SIZE 0),
        int (unat (word_of_nat (length xs) :: u32))))"
    "board_inv b" "uart_queue b 1 = Inr q'" "rq_contents q' = []"
    using uart_receive_takes [OF assms(1) _ _ assms(2) c(1,2) pos(1) c(3) assms(5) c(4), of cur] by auto
  have a: "bsp_uart_available (bd s) 1 = Inr (int (length xs))"
    using assms(2) n by (simp add: bsp_uart_available_def bsp_nums)
  have "rs485_to_usb cur env s = Inr (Some (s\<lparr>bd := b,
      usb_tx := usb_tx s @ (if env_connected env \<and> env_ready env then take (env_room env) xs else [])\<rparr>))"
    using a r(1) u pos(2) nb by (simp add: rs485_to_usb_def BSP_RS485_def Let_def bsp_usb_transmit_def)
  then show ?thesis using r uart_receive_frame [OF r(1)] by blast
qed

text \<open>A whole turn on a mounted port.\<close>

lemma round_moves:
  assumes "board_inv (bd s)" and "uart_queue (bd s) 1 = Inr q" and "rq_contents q = xs"
    and "length xs \<le> length (env_turns env)" and "\<forall>t \<in> set (env_turns env). fst t - env_tick env < 10"
    and "env_mounted env" and "s_enabled (br s) \<or> 0 < notified (br s)"
  shows "\<exists>s' q'. bridge_round cur env s = Inr (Some s') \<and> usb_rx s' = drop 256 (usb_rx s) \<and>
    tx_out (bd s') = (tx_out (bd s))[1 := tx_out (bd s) ! 1 @ take 256 (usb_rx s)] \<and>
    usb_tx s' = usb_tx s @ (if env_connected env \<and> env_ready env then take (env_room env) xs else []) \<and>
    uart_queue (bd s') 1 = Inr q' \<and> rq_contents q' = [] \<and> board_inv (bd s') \<and>
    (usb_rx s \<noteq> [] \<longrightarrow> \<not> level (bd s') de_pin) \<and>
    br s' = (if s_enabled (br s) then br s else (br s)\<lparr>notified := 0\<rparr>)"
proof -
  define s1 where "s1 = (if s_enabled (br s) then s else s\<lparr>br := (br s)\<lparr>notified := 0\<rparr>\<rparr>)"
  define s2 where "s2 = s1\<lparr>usb_rx := drop 256 (usb_rx s1), bd := if usb_rx s1 = [] then bd s1
      else (bd s1)\<lparr>level := (level (bd s1))(de_pin := False),
                   tx_out := (tx_out (bd s1))[1 := tx_out (bd s1) ! 1 @ take 256 (usb_rx s1)]\<rparr>\<rparr>"
  have s1: "bd s1 = bd s" "usb_rx s1 = usb_rx s" "usb_tx s1 = usb_tx s" "br s1 = (if s_enabled (br s) then br s else (br s)\<lparr>notified := 0\<rparr>)"
    by (simp_all add: s1_def)
  have u: "usb_to_rs485 env s1 = Inr s2" unfolding s2_def by (rule usb_to_rs485_moves) (simp add: s1 assms(1))
  have i2: "board_inv (bd s2)" "uart_queue (bd s2) 1 = Inr q"
    using assms(1,2) by (auto simp: s2_def s1 board_inv_def uart_queue_def)
  from rs485_to_usb_moves [OF i2 assms(3-5), of cur] obtain b q' where
    m: "rs485_to_usb cur env s2 = Inr (Some (s2\<lparr>bd := b,
      usb_tx := usb_tx s2 @ (if env_connected env \<and> env_ready env then take (env_room env) xs else [])\<rparr>))"
    "board_inv b" "uart_queue b 1 = Inr q'" "rq_contents q' = []" "level b = level (bd s2)" "tx_out b = tx_out (bd s2)"
    by blast
  have "bridge_round cur env s = Inr (Some (s2\<lparr>bd := b,
      usb_tx := usb_tx s2 @ (if env_connected env \<and> env_ready env then take (env_room env) xs else [])\<rparr>))"
  proof -
    have "bridge_round cur env s = bindR (usb_to_rs485 env s1) (rs485_to_usb cur env)"
      using assms(6,7) by (auto simp: bridge_round_def s1_def Let_def)
    then show ?thesis by (simp only: u m(1) bindR.simps)
  qed
  then show ?thesis using m(2-6) by (auto simp: s2_def s1)
qed

lemma round_blocks:
  "env_mounted env \<Longrightarrow> \<not> s_enabled (br s) \<Longrightarrow> notified (br s) = 0 \<Longrightarrow> bridge_round cur env s = Inr None"
  by (simp add: bridge_round_def)

section \<open>Properties\<close>

text \<open>The line has one owner. After the initialisation of the Modbus task and the bridge, through every
  history of shell commands and line-state events of both USB ports, the Modbus task is
  suspended exactly while the bridge is enabled, and the bridge is enabled exactly if the last
  event that concerned it asked for that.\<close>

lemma bridge_one_owner:
  assumes "b0 = usb_rs485_init (usb_rs485_set_modbus_handle bridge_reset True) created"
  shows "let b = fold bridge_handle es b0 in
    (modbus_suspended b \<longleftrightarrow> s_enabled b) \<and> (usb_rs485_is_enabled b \<longleftrightarrow> wanted es False)"
proof -
  have b0: "bridge_inv b0" "\<not> s_enabled b0"
    by (simp_all add: assms bridge_inv_def usb_rs485_init_def usb_rs485_set_modbus_handle_def bridge_reset_def)
  have "bridge_inv (fold bridge_handle es b) \<and> s_enabled (fold bridge_handle es b) = wanted es (s_enabled b)"
    if "bridge_inv b" for b
    using that
  proof (induction es arbitrary: b)
    case (Cons e es)
    then show ?case using handle_inv [of b e] wanted_append [of "[e]" es "s_enabled b"] by simp
  qed simp
  from this [OF b0(1)] b0(2) show ?thesis
    by (simp add: Let_def bridge_inv_def usb_rs485_is_enabled_def)
qed

lemma bridge_one_owner_example:
  "modbus_suspended (fold bridge_handle [Line_State 1 True False, Line_State 0 False False, Bridge_On]
     (usb_rs485_init (usb_rs485_set_modbus_handle bridge_reset True) True))"
  using bridge_one_owner [OF refl, of "[Line_State 1 True False, Line_State 0 False False, Bridge_On]" True]
  by (simp add: Let_def usb_rs485_is_enabled_def)

text \<open>What the bridge moves. In a turn of its task, enabled and on a mounted port, the bytes waiting on
  the USB side, at most 256 of them, leave on the RS485 line in order and the driver line is
  released afterwards; the bytes waiting in the receive queue leave on the USB side in
  order, as many as the USB stack takes. The rest of them is lost, and all of them if no terminal is connected.\<close>

lemma bridge_moves_bytes:
  assumes "board_inv (bd s)" and "uart_queue (bd s) 1 = Inr q" and "rq_contents q = xs"
    and "length xs \<le> length (env_turns env)" and "\<forall>t \<in> set (env_turns env). fst t - env_tick env < 10"
    and "env_mounted env" and "s_enabled (br s)"
  shows "\<exists>s' q'. bridge_round cur env s = Inr (Some s') \<and> br s' = br s \<and>
    usb_rx s' = drop 256 (usb_rx s) \<and> tx_out (bd s') ! 1 = tx_out (bd s) ! 1 @ take 256 (usb_rx s) \<and>
    (usb_rx s \<noteq> [] \<longrightarrow> \<not> level (bd s') de_pin) \<and>
    usb_tx s' = usb_tx s @ (if env_connected env \<and> env_ready env then take (env_room env) xs else []) \<and>
    uart_queue (bd s') 1 = Inr q' \<and> rq_contents q' = [] \<and> board_inv (bd s')"
proof -
  have "1 < length (tx_out (bd s))" using assms(1) by (simp add: board_inv_def)
  then show ?thesis using round_moves [OF assms(1-6) disjI1 [OF assms(7)], of cur] assms(7) by auto
qed

lemma bridge_moves_bytes_example:
  "\<exists>b0 s'. bsp_uart_init (Some (replicate 256 0)) (board_reset :: (nat, nat) board) 1 = Inr (b0, 0) \<and>
    bridge_round 24 \<lparr>env_mounted = True, env_connected = True, env_ready = True, env_room = 64, env_status = 0,
        env_tick = 0, env_turns = []\<rparr>
      \<lparr>br = usb_rs485_enable bridge_reset, bd = b0, usb_rx = [1, 2, 3], usb_tx = []\<rparr> = Inr (Some s') \<and>
    tx_out (bd s') ! 1 = [1, 2, 3]"
proof -
  define t where "t = replicate 256 (0 :: u8)"
  have "length t = 256" by (simp add: t_def)
  from uart_init_ok [OF board_inv_reset _ _ this, of 1] obtain b0 q where
    b0: "bsp_uart_init (Some t) (board_reset :: (nat, nat) board) 1 = Inr (b0, 0)" "board_inv b0"
    "uart_queue b0 1 = Inr q" "rq_contents q = []" by auto
  have tx: "tx_out b0 ! 1 = []" using b0(1) by (auto simp: bsp_uart_init_def bsp_nums res_simps board_reset_def)
  let ?s = "\<lparr>br = usb_rs485_enable bridge_reset, bd = b0, usb_rx = [1, 2, 3], usb_tx = []\<rparr>"
  have s: "board_inv (bd ?s)" "uart_queue (bd ?s) 1 = Inr q" "s_enabled (br ?s)"
    using b0 by (simp_all add: usb_rs485_enable_def bridge_reset_def)
  show ?thesis
    using bridge_moves_bytes [OF s(1,2) b0(4) _ _ _ s(3), of "\<lparr>env_mounted = True, env_connected = True,
      env_ready = True, env_room = 64, env_status = 0, env_tick = 0, env_turns = []\<rparr>" 24] b0(1) tx
    unfolding t_def by auto
qed

text \<open>A bridge that is switched off takes bytes from Modbus once more. The notification of the last
  switching on stays with the bridge task while it runs, so after switching on and off the
  task does not wait: its next turn empties the receive queue of the line the resumed Modbus
  task polls, and only the turn after that waits.\<close>

lemma bridge_off_steals_bytes:
  assumes "board_inv (bd s)" and "uart_queue (bd s) 1 = Inr q" and "rq_contents q = xs"
    and "length xs \<le> length (env_turns env)" and "\<forall>t \<in> set (env_turns env). fst t - env_tick env < 10"
    and "env_mounted env" and "has_bridge_task b" and "has_modbus_task b" and "\<not> s_enabled b"
    and "br s = usb_rs485_disable (usb_rs485_enable b)"
  shows "\<not> s_enabled (br s) \<and> \<not> modbus_suspended (br s) \<and>
    (\<exists>s' q'. bridge_round cur env s = Inr (Some s') \<and> uart_queue (bd s') 1 = Inr q' \<and> rq_contents q' = [] \<and>
      usb_tx s' = usb_tx s @ (if env_connected env \<and> env_ready env then take (env_room env) xs else []) \<and>
      bridge_round cur env s' = Inr None)"
proof -
  have b: "\<not> s_enabled (br s)" "\<not> modbus_suspended (br s)" "0 < notified (br s)"
    using assms(7-10) by (simp_all add: usb_rs485_disable_def usb_rs485_enable_def Let_def)
  from round_moves [OF assms(1-6) disjI2 [OF b(3)], of cur] b(1) obtain s' q' where
    s': "bridge_round cur env s = Inr (Some s')" "uart_queue (bd s') 1 = Inr q'" "rq_contents q' = []"
    "usb_tx s' = usb_tx s @ (if env_connected env \<and> env_ready env then take (env_room env) xs else [])"
    "br s' = (br s)\<lparr>notified := 0\<rparr>" by auto
  have "bridge_round cur env s' = Inr None" using round_blocks [OF assms(6), of s' cur] s'(5) b(1) by simp
  with s' b show ?thesis by blast
qed

lemma bridge_off_steals_bytes_example:
  "\<exists>b0 s'. bsp_uart_init (Some (replicate 256 0)) (board_reset :: (nat, nat) board) 1 = Inr (b0, 0) \<and>
    bridge_round 24 \<lparr>env_mounted = True, env_connected = True, env_ready = True, env_room = 64, env_status = 0,
        env_tick = 0, env_turns = []\<rparr>
      \<lparr>br = usb_rs485_disable (usb_rs485_enable (usb_rs485_init (usb_rs485_set_modbus_handle bridge_reset True) True)),
       bd = b0, usb_rx = [], usb_tx = []\<rparr> = Inr (Some s')"
proof -
  define t where "t = replicate 256 (0 :: u8)"
  have "length t = 256" by (simp add: t_def)
  from uart_init_ok [OF board_inv_reset _ _ this, of 1] obtain b0 q where
    b0: "bsp_uart_init (Some t) (board_reset :: (nat, nat) board) 1 = Inr (b0, 0)" "board_inv b0"
    "uart_queue b0 1 = Inr q" "rq_contents q = []" by auto
  let ?b = "usb_rs485_init (usb_rs485_set_modbus_handle bridge_reset True) True"
  let ?s = "\<lparr>br = usb_rs485_disable (usb_rs485_enable ?b), bd = b0, usb_rx = [], usb_tx = []\<rparr>"
  have s: "board_inv (bd ?s)" "uart_queue (bd ?s) 1 = Inr q" using b0 by simp_all
  have b: "has_bridge_task ?b" "has_modbus_task ?b" "\<not> s_enabled ?b"
    by (simp_all add: usb_rs485_init_def usb_rs485_set_modbus_handle_def bridge_reset_def)
  show ?thesis
    using bridge_off_steals_bytes [OF s b0(4) _ _ _ b, of "\<lparr>env_mounted = True, env_connected = True,
      env_ready = True, env_room = 64, env_status = 0, env_tick = 0, env_turns = []\<rparr>" 24] b0(1)
    unfolding t_def by auto
qed

end
