(* ===== verification/Shell_Commands.thy ===== *)
theory Shell_Commands
  imports Shell USB_Bridge
begin

text \<open>
  The commands of the shell (\<open>app/user/shell/shell_commands.c\<close>): the table, the handlers and the
  conversions of the C library they use (\<open>atoi\<close>, which saturates at the limits of \<open>int\<close>, and the
  decimal format). The shell works on the board and on the bridge; \<open>restarted\<close> records a restart.
\<close>

record ('c, 't) shell_dev =
  sd_board :: "('c, 't) board"
  sd_bridge :: bridge
  restarted :: bool

section \<open>Numbers as text\<close>

definition isspace :: "char \<Rightarrow> bool" where
  "isspace c \<longleftrightarrow> c = SP \<or> (9 \<le> (of_char c :: nat) \<and> (of_char c :: nat) \<le> 13)"

definition isdigit :: "char \<Rightarrow> bool" where
  "isdigit c \<longleftrightarrow> 48 \<le> (of_char c :: nat) \<and> (of_char c :: nat) \<le> 57"

fun digits_value :: "nat \<Rightarrow> string \<Rightarrow> nat" where
  "digits_value n [] = n"
| "digits_value n (c # cs) = (if isdigit c then digits_value (10 * n + (of_char c - 48)) cs else n)"

definition atoi :: "string \<Rightarrow> int" where
  "atoi str =
     (case dropWhile isspace str of
        [] \<Rightarrow> 0
      | c # cs \<Rightarrow>
          if c = CHR ''-'' then max (- 2147483648) (- int (digits_value 0 cs))
          else min 2147483647 (int (digits_value 0 (if c = CHR ''+'' then cs else c # cs))))"

fun nat_digits :: "nat \<Rightarrow> string" where
  "nat_digits n = (if n < 10 then [char_of (48 + n)] else nat_digits (n div 10) @ [char_of (48 + n mod 10)])"

declare nat_digits.simps [simp del]

definition show_int :: "int \<Rightarrow> string" where
  "show_int n = (if n < 0 then CHR ''-'' # nat_digits (nat (- n)) else nat_digits (nat n))"

section \<open>The handlers\<close>

datatype shell_handler = H_help | H_reboot | H_get_io | H_set_do | H_bridge_on | H_bridge_off | H_bridge_status

definition s_shell_commands :: "shell_handler cmd_table" where
  "s_shell_commands =
     [(''help'', H_help, ''List all commands''),
      (''reboot'', H_reboot, ''Reboot the device''),
      (''get_io'', H_get_io, ''Read DI1-DI4 states''),
      (''set_do'', H_set_do, ''set_do <ch 1-4> <val 0|1>''),
      (''bridge_on'', H_bridge_on, ''Manually enable USB-RS485 bridge''),
      (''bridge_off'', H_bridge_off, ''Manually disable USB-RS485 bridge''),
      (''bridge_status'', H_bridge_status, ''Show current bridge on/off state'')]"

text \<open>The restart does not come back.\<close>

definition cmd_reboot :: "('c, 't) shell_dev shell \<Rightarrow> ('c, 't) shell_dev shell" where
  "cmd_reboot s =
     (let s1 = cli_shell_put_line s ''Rebooting...'' in s1\<lparr>dev := (dev s1)\<lparr>restarted := True\<rparr>\<rparr>)"

definition cmd_get_io :: "('c, 't) shell_dev shell \<Rightarrow> ('c, 't) shell_dev shell res" where
  "cmd_get_io s =
     bindR (bsp_get_input (sd_board (dev s)) 1) (\<lambda>i1.
     bindR (bsp_get_input (sd_board (dev s)) 2) (\<lambda>i2.
     bindR (bsp_get_input (sd_board (dev s)) 3) (\<lambda>i3.
     bindR (bsp_get_input (sd_board (dev s)) 4) (\<lambda>i4.
     Inr (cli_shell_printf s
       (''DI1='' @ show_int i1 @ '' DI2='' @ show_int i2 @ '' DI3='' @ show_int i3 @ '' DI4='' @ show_int i4))))))"

definition cmd_set_do ::
  "('c, 't) shell_dev shell \<Rightarrow> string list \<Rightarrow> (('c, 't) shell_dev shell \<times> int) res" where
  "cmd_set_do s argv =
     (if length argv \<noteq> 3 then Inr (cli_shell_put_line s ''Usage: set_do <1-4> <0|1>'', -1)
      else
        let ch = atoi (argv ! 1); val = atoi (argv ! 2) in
        if ch < 1 \<or> ch > 4 then Inr (cli_shell_put_line s ''Error: channel must be 1-4'', -1)
        else
          bindR (if val \<noteq> 0 then bsp_output_on (sd_board (dev s)) ch else bsp_output_off (sd_board (dev s)) ch) (\<lambda>b.
          Inr (cli_shell_printf (s\<lparr>dev := (dev s)\<lparr>sd_board := b\<rparr>\<rparr>)
                 (''DO'' @ show_int ch @ '' = '' @ show_int val), 0)))"

definition cmd_bridge_on :: "('c, 't) shell_dev shell \<Rightarrow> ('c, 't) shell_dev shell" where
  "cmd_bridge_on s =
     cli_shell_put_line (s\<lparr>dev := (dev s)\<lparr>sd_bridge := usb_rs485_enable (sd_bridge (dev s))\<rparr>\<rparr>)
       ''USB-RS485 bridge ENABLED (Modbus suspended)''"

definition cmd_bridge_off :: "('c, 't) shell_dev shell \<Rightarrow> ('c, 't) shell_dev shell" where
  "cmd_bridge_off s =
     cli_shell_put_line (s\<lparr>dev := (dev s)\<lparr>sd_bridge := usb_rs485_disable (sd_bridge (dev s))\<rparr>\<rparr>)
       ''USB-RS485 bridge DISABLED (Modbus resumed)''"

definition cmd_bridge_status :: "('c, 't) shell_dev shell \<Rightarrow> ('c, 't) shell_dev shell" where
  "cmd_bridge_status s =
     cli_shell_printf s (''Bridge: '' @ (if usb_rs485_is_enabled (sd_bridge (dev s)) then ''ENABLED'' else ''DISABLED''))"

fun run_command ::
  "shell_handler \<Rightarrow> ('c, 't) shell_dev shell \<Rightarrow> string list \<Rightarrow> (('c, 't) shell_dev shell \<times> bool) res" where
  "run_command H_help s argv = Inr (cli_shell_help_handler s_shell_commands s, True)"
| "run_command H_reboot s argv = Inr (cmd_reboot s, False)"
| "run_command H_get_io s argv = bindR (cmd_get_io s) (\<lambda>s'. Inr (s', True))"
| "run_command H_set_do s argv = bindR (cmd_set_do s argv) (\<lambda>(s', r). Inr (s', True))"
| "run_command H_bridge_on s argv = Inr (cmd_bridge_on s, True)"
| "run_command H_bridge_off s argv = Inr (cmd_bridge_off s, True)"
| "run_command H_bridge_status s argv = Inr (cmd_bridge_status s, True)"

section \<open>No command faults\<close>

definition shell_dev_ok :: "('c, 't) shell_dev \<Rightarrow> bool" where
  "shell_dev_ok d \<longleftrightarrow> board_inv (sd_board d) \<and> bridge_inv (sd_bridge d)"

lemma help_frame:
  "sh_booted (cli_shell_help_handler tbl s) = sh_booted s \<and> rx_buffer (cli_shell_help_handler tbl s) = rx_buffer s \<and>
   dev (cli_shell_help_handler tbl s) = dev s"
  by (induction tbl s rule: cli_shell_help_handler.induct) simp_all

lemma put_line_frame [simp]:
  "sh_booted (cli_shell_put_line s x) = sh_booted s" "rx_buffer (cli_shell_put_line s x) = rx_buffer s"
  "dev (cli_shell_put_line s x) = dev s" "rx_size (cli_shell_put_line s x) = rx_size s"
  by (simp_all add: cli_shell_put_line_def)

lemma printf_frame [simp]:
  "sh_booted (cli_shell_printf s x) = sh_booted s" "rx_buffer (cli_shell_printf s x) = rx_buffer s"
  "dev (cli_shell_printf s x) = dev s" "rx_size (cli_shell_printf s x) = rx_size s"
  by (simp_all add: cli_shell_printf_def)

lemma get_input_total: "1 \<le> n \<Longrightarrow> n \<le> 4 \<Longrightarrow> bsp_get_input b n = Inr (of_bool (level b (s_inputs ! nat (n - 1))))"
  by (simp add: bsp_get_input_def bsp_input_read_def bsp_nums s_inputs_def)

definition set_output :: "('c, 't) board \<Rightarrow> int \<Rightarrow> bool \<Rightarrow> ('c, 't) board" where
  "set_output b n v = b\<lparr>level := (level b)(s_outputs ! nat (n - 1) := v)\<rparr>"

lemma output_total:
  assumes "1 \<le> n" and "n \<le> 4"
  shows "bsp_output_on b n = Inr (set_output b n True)" and "bsp_output_off b n = Inr (set_output b n False)"
  using assms by (simp_all add: bsp_output_on_def bsp_output_off_def bsp_output_write_def bsp_nums s_outputs_def
      set_output_def)

lemma set_output_inv: "board_inv b \<Longrightarrow> board_inv (set_output b n v)"
  by (simp add: board_inv_def set_output_def)

lemma cmd_set_do_total:
  "\<exists>s' r. cmd_set_do s argv = Inr (s', r) \<and> sh_booted s' = sh_booted s \<and> rx_buffer s' = rx_buffer s \<and>
     (shell_dev_ok (dev s) \<longrightarrow> shell_dev_ok (dev s'))"
  by (simp add: cmd_set_do_def Let_def output_total shell_dev_ok_def set_output_inv)

lemma run_command_keeps:
  assumes "sh_booted s" and "length (rx_buffer s) = 256" and "shell_dev_ok (dev s)"
  shows "\<exists>s' returned. run_command h s args = Inr (s', returned) \<and> sh_booted s' \<and> length (rx_buffer s') = 256 \<and>
    shell_dev_ok (dev s')"
proof (cases h)
  case H_help
  then show ?thesis using assms help_frame [of s_shell_commands s] by simp
next
  case H_get_io
  then show ?thesis using assms by (simp add: cmd_get_io_def get_input_total)
next
  case H_set_do
  then show ?thesis using assms cmd_set_do_total [of s args] by auto
next
  case H_bridge_on
  then show ?thesis using assms enable_inv by (simp add: cmd_bridge_on_def shell_dev_ok_def)
next
  case H_bridge_off
  then show ?thesis using assms disable_inv by (simp add: cmd_bridge_off_def shell_dev_ok_def)
qed (use assms in \<open>simp_all add: cmd_reboot_def cmd_bridge_status_def shell_dev_ok_def Let_def\<close>)

interpretation cmds: shell_commands s_shell_commands run_command shell_dev_ok
  by unfold_locales (rule run_command_keeps)


definition start_shell :: "(nat, nat) shell_dev shell" where
  "start_shell = \<lparr>sh_booted = True, rx_size = 0, rx_buffer = replicate 256 NUL, sent = [],
     dev = \<lparr>sd_board = board_reset, sd_bridge = usb_rs485_set_modbus_handle bridge_reset True, restarted = False\<rparr>\<rparr>"


section \<open>Numbers come back\<close>

lemma digit_char: "d < 10 \<Longrightarrow> (of_char (char_of (48 + d) :: char) :: nat) = 48 + d"
  by simp

lemma isdigit_digit: "d < 10 \<Longrightarrow> isdigit (char_of (48 + d :: nat))"
  by (simp add: isdigit_def)

lemma digits_value_append:
  "list_all isdigit xs \<Longrightarrow> digits_value n (xs @ ys) = digits_value (digits_value n xs) ys"
  by (induction n xs rule: digits_value.induct) simp_all

lemma nat_digits_digits: "list_all isdigit (nat_digits n)"
proof (induction n rule: nat_digits.induct)
  case (1 n)
  then show ?case using isdigit_digit [of "n mod 10"] isdigit_digit [of n]
    by (cases "n < 10") (simp_all add: nat_digits.simps [of n] del: of_char_of)
qed

lemma digits_value_nat_digits: "digits_value 0 (nat_digits n) = n"
proof (induction n rule: nat_digits.induct)
  case (1 n)
  then show ?case using isdigit_digit [of "n mod 10"] isdigit_digit [of n]
    by (cases "n < 10") (simp_all add: nat_digits.simps [of n] digits_value_append nat_digits_digits)
qed

lemma nat_digits_not_Nil: "nat_digits n \<noteq> []"
  by (simp add: nat_digits.simps [of n])

lemma length_nat_digits: "n < 10 ^ Suc k \<Longrightarrow> length (nat_digits n) \<le> Suc k"
proof (induction k arbitrary: n)
  case (Suc k)
  then have "n div 10 < 10 ^ Suc k" by (simp add: less_mult_imp_div_less mult.commute)
  then show ?case using Suc.IH [of "n div 10"] by (simp add: nat_digits.simps [of n])
qed (simp add: nat_digits.simps)

lemma isdigit_plain: "isdigit c \<Longrightarrow> \<not> isspace c \<and> c \<noteq> CHR ''-'' \<and> c \<noteq> CHR ''+''"
  by (auto simp: isdigit_def isspace_def)

lemma atoi_show_int:
  assumes "- 2147483648 \<le> n" and "n \<le> 2147483647"
  shows "atoi (show_int n) = n"
proof (cases "n < 0")
  case True
  have "\<not> isspace (CHR ''-'')" by (simp add: isspace_def)
  then show ?thesis using True assms by (simp add: show_int_def atoi_def digits_value_nat_digits)
next
  case False
  obtain c cs where c: "nat_digits (nat n) = c # cs" using nat_digits_not_Nil [of "nat n"] by (cases "nat_digits (nat n)") auto
  then have "isdigit c" using nat_digits_digits [of "nat n"] by simp
  then show ?thesis using isdigit_plain [of c] False assms digits_value_nat_digits [of "nat n"]
    by (simp add: show_int_def atoi_def c)
qed

section \<open>From the keys to the pin\<close>

lemma show_int_chars: "c \<in> set (show_int n) \<Longrightarrow> isdigit c \<or> c = CHR ''-''"
  using nat_digits_digits [of "nat n"] nat_digits_digits [of "nat (- n)"]
  by (auto simp: show_int_def list_all_iff split: if_splits)

lemma show_int_plain: "c \<in> {SP, NL, NUL, CR, BS} \<Longrightarrow> c \<notin> set (show_int n)"
  using show_int_chars [of c n] by (auto simp: isdigit_def)

lemma show_int_not_Nil: "show_int n \<noteq> []"
  by (simp add: show_int_def nat_digits_not_Nil)

lemma length_show_int:
  assumes "- 2147483648 \<le> n" and "n \<le> 2147483647"
  shows "length (show_int n) \<le> 11"
proof -
  have "nat n < 10 ^ Suc 9" "nat (- n) < 10 ^ Suc 9" using assms by simp_all
  from length_nat_digits [OF this(1)] length_nat_digits [OF this(2)] show ?thesis by (simp add: show_int_def)
qed

lemma words_word:
  assumes "w \<noteq> []" and "SP \<notin> set w"
  shows "shell_words (w @ SP # cs) = w # shell_words cs" and "shell_words w = [w]"
proof -
  obtain c w' where w: "w = c # w'" "c \<noteq> SP" using assms by (cases w) auto
  have "takeWhile (\<lambda>c. c \<noteq> SP) w' = w'" "dropWhile (\<lambda>c. c \<noteq> SP) w' = []"
    using assms(2) w by (auto simp: takeWhile_eq_all_conv)
  moreover have "takeWhile (\<lambda>c. c \<noteq> SP) (w' @ SP # cs) = w'" "dropWhile (\<lambda>c. c \<noteq> SP) (w' @ SP # cs) = SP # cs"
    using \<open>takeWhile (\<lambda>c. c \<noteq> SP) w' = w'\<close> \<open>dropWhile (\<lambda>c. c \<noteq> SP) w' = []\<close>
    by (simp_all add: takeWhile_tail dropWhile_append3)
  ultimately show "shell_words (w @ SP # cs) = w # shell_words cs" "shell_words w = [w]"
    using w \<open>takeWhile (\<lambda>c. c \<noteq> SP) w' = w'\<close>
    by (simp_all add: shell_words.simps [of "c # _"] \<open>dropWhile (\<lambda>c. c \<noteq> SP) w' = []\<close>)
qed

definition set_do_reply :: "int \<Rightarrow> int \<Rightarrow> string" where
  "set_do_reply ch v =
     (if 1 \<le> ch \<and> ch \<le> 4 then ''DO'' @ show_int ch @ '' = '' @ show_int v else ''Error: channel must be 1-4'')"

definition set_do_device :: "('c, 't) shell_dev \<Rightarrow> int \<Rightarrow> int \<Rightarrow> ('c, 't) shell_dev" where
  "set_do_device d ch v =
     (if 1 \<le> ch \<and> ch \<le> 4 then d\<lparr>sd_board := set_output (sd_board d) ch (v \<noteq> 0)\<rparr> else d)"

lemma sent_put_line: "sh_booted s \<Longrightarrow> sent (cli_shell_put_line s x) = sent s @ x @ [CR, NL]"
  by (simp add: cli_shell_put_line_def prv_echo_def prv_echo_str_def prv_send_char_def prv_booted_def)

lemma cmd_set_do_eq:
  assumes "- 2147483648 \<le> ch" and "ch \<le> 2147483647" and "- 2147483648 \<le> v" and "v \<le> 2147483647"
  shows "\<exists>r. cmd_set_do s [w, show_int ch, show_int v] =
    Inr (cli_shell_put_line (s\<lparr>dev := set_do_device (dev s) ch v\<rparr>) (set_do_reply ch v), r)"
proof -
  have "length (show_int ch) \<le> 11" "length (show_int v) \<le> 11" using assms by (simp_all add: length_show_int)
  then have "take 255 (''DO'' @ show_int ch @ '' = '' @ show_int v) = ''DO'' @ show_int ch @ '' = '' @ show_int v"
    by (intro take_all) simp
  then show ?thesis using assms
    by (auto simp: cmd_set_do_def atoi_show_int set_do_reply_def set_do_device_def output_total cli_shell_printf_def)
qed

lemma execute_set_do:
  assumes "sh_booted s" and "- 2147483648 \<le> ch" and "ch \<le> 2147483647" and "- 2147483648 \<le> v" and "v \<le> 2147483647"
  shows "\<exists>s'. execute s_shell_commands run_command s [''set_do'', show_int ch, show_int v] = Inr (s', True) \<and>
    shell_typing s' [] \<and> dev s' = set_do_device (dev s) ch v \<and>
    sent s' = sent s @ set_do_reply ch v @ [CR, NL] @ SHELL_PROMPT"
proof -
  have f: "prv_find_command s_shell_commands ''set_do'' = Some H_set_do" by (simp add: s_shell_commands_def)
  from cmd_set_do_eq [OF assms(2-5), of s "''set_do''"] show ?thesis
    using assms(1) by (auto simp: execute_def f shell_typing_def prv_send_prompt_def prv_reset_rx_buffer_def
        prv_echo_str_def sent_put_line SHELL_RX_BUFFER_SIZE_def)
qed

text \<open>Typing \<open>set_do\<close>, a channel and a value at the prompt, each any number an \<open>int\<close> holds in decimal,
  sets exactly the pin of that output, high when the value is not zero, and acknowledges it
  with the same two numbers; a channel that is not one of the four outputs changes nothing and
  is reported. Either way the shell is back at an empty prompt.\<close>

lemma shell_set_do:
  assumes "shell_typing s []" and "- 2147483648 \<le> ch" and "ch \<le> 2147483647"
    and "- 2147483648 \<le> v" and "v \<le> 2147483647"
  shows "\<exists>s'. shell_feed s_shell_commands run_command s (''set_do '' @ show_int ch @ '' '' @ show_int v @ [NL]) = Inr (s', True) \<and>
    shell_typing s' [] \<and>
    dev s' = (if 1 \<le> ch \<and> ch \<le> 4
              then (dev s)\<lparr>sd_board := (sd_board (dev s))\<lparr>level := (level (sd_board (dev s)))(s_outputs ! nat (ch - 1) := v \<noteq> 0)\<rparr>\<rparr>
              else dev s) \<and>
    sent s' = sent s @ (if 1 \<le> ch \<and> ch \<le> 4 then ''DO'' @ show_int ch @ '' = '' @ show_int v
                        else ''Error: channel must be 1-4'') @ [CR, NL] @ SHELL_PROMPT"
proof -
  define cs where "cs = ''set_do'' @ SP # show_int ch @ SP # show_int v"
  have plain: "NUL \<notin> set cs" "NL \<notin> set cs" "CR \<notin> set cs" "BS \<notin> set cs"
    using show_int_plain by (auto simp: cs_def)
  have "length (show_int ch) \<le> 11" "length (show_int v) \<le> 11" using assms by (simp_all add: length_show_int)
  then have len: "length cs < 255" by (simp add: cs_def)
  have "shell_words cs = [''set_do'', show_int ch, show_int v]"
    using words_word(1) [of "''set_do''"] words_word [of "show_int _"] show_int_plain [of SP] show_int_not_Nil
    by (simp add: cs_def)
  then have "take 16 (shell_words cs) = [''set_do'', show_int ch, show_int v]" by simp
  then obtain buf where f: "shell_feed s_shell_commands run_command s (cs @ [NL]) =
      execute s_shell_commands run_command (s\<lparr>rx_size := length cs + 1, rx_buffer := buf\<rparr>) [''set_do'', show_int ch, show_int v]"
    using plain_line_executes [OF assms(1) plain len] by auto
  have "sh_booted (s\<lparr>rx_size := length cs + 1, rx_buffer := buf\<rparr>)" using assms(1) by (simp add: shell_typing_def)
  from execute_set_do [OF this assms(2-5)] have
    "\<exists>s'. shell_feed s_shell_commands run_command s (cs @ [NL]) = Inr (s', True) \<and> shell_typing s' [] \<and>
      dev s' = set_do_device (dev s) ch v \<and> sent s' = sent s @ set_do_reply ch v @ [CR, NL] @ SHELL_PROMPT"
    unfolding f by simp
  moreover have "cs @ [NL] = ''set_do '' @ show_int ch @ '' '' @ show_int v @ [NL]" by (simp add: cs_def)
  ultimately show ?thesis unfolding set_do_device_def set_output_def set_do_reply_def by simp
qed

lemma shell_set_do_example:
  "\<exists>s'. shell_feed s_shell_commands run_command start_shell (''set_do '' @ show_int 3 @ '' '' @ show_int 1 @ [NL]) = Inr (s', True) \<and>
    shell_typing s' [] \<and> level (sd_board (dev s')) (GPIOB, 0) \<and> show_int 3 = ''3''"
proof -
  have "shell_typing start_shell []" by (simp add: shell_typing_def start_shell_def)
  moreover have "show_int 3 = ''3''" by code_simp
  ultimately show ?thesis
    using shell_set_do [of start_shell 3 1] by (auto simp: s_outputs_def simp del: shell_feed.simps)
qed

end
