(* ===== verification/Shell_App.thy ===== *)
theory Shell_App
  imports Shell_Commands
begin

text \<open>
  The shell application (\<open>app/user/shell/shell_app.c\<close> over \<open>bsp/bsp_usb.c\<close>): the output callbacks over
  a USB channel, the wait for a terminal, and the task that feeds the characters of the channel to
  the shell one by one.
\<close>

text \<open>A C character and the byte that stands for it.\<close>

definition byte_char :: "u8 \<Rightarrow> char" where "byte_char b = char_of (unat b)"
definition char_byte :: "char \<Rightarrow> u8" where "char_byte c = word_of_nat (of_char c)"

lemma byte_char_byte [simp]: "byte_char (char_byte c) = c"
proof -
  have "(of_char c :: nat) < 256" using of_char_mod_256 [of c, where 'a = nat] by (metis mod_less_divisor zero_less_numeral)
  then have "unat (word_of_nat (of_char c) :: u8) = of_char c"
    by (simp add: unsigned_of_nat take_bit_nat_eq_self)
  then show ?thesis by (simp add: byte_char_def char_byte_def)
qed

section \<open>Output\<close>

text \<open>\<open>ready\<close> and \<open>room\<close> say what the USB stack accepts at the moment; the answers are not looked at.\<close>

definition shell_send_char :: "bool \<Rightarrow> nat \<Rightarrow> u8 list \<Rightarrow> char \<Rightarrow> u8 list \<times> int" where
  "shell_send_char ready room tx c = (fst (bsp_usb_transmit ready room tx [char_byte c]), 0)"

definition shell_send_str :: "bool \<Rightarrow> nat \<Rightarrow> u8 list \<Rightarrow> string option \<Rightarrow> u8 list \<times> int" where
  "shell_send_str ready room tx s =
     (case s of None \<Rightarrow> (tx, 0) | Some str \<Rightarrow> (fst (bsp_usb_transmit ready room tx (map char_byte str)), 0))"

section \<open>The receive task\<close>

text \<open>
  The wait polls the connection every 100 ms and writes a line to the log at every twentieth turn; the
  result is the counter and the counts that were logged, None while the polls listed all say no.
\<close>

fun wait_connected :: "bool list \<Rightarrow> u32 \<Rightarrow> u32 list \<Rightarrow> (u32 \<times> u32 list) option" where
  "wait_connected [] wait_hb logged = None"
| "wait_connected (connected # polls) wait_hb logged =
     (if connected then Some (wait_hb, logged)
      else wait_connected polls (wait_hb + 1) (if wait_hb mod 20 = 0 then logged @ [wait_hb + 1] else logged))"

fun shell_rx_loop ::
  "'h cmd_table \<Rightarrow> ('h \<Rightarrow> 'd shell \<Rightarrow> string list \<Rightarrow> ('d shell \<times> bool) res) \<Rightarrow> nat \<Rightarrow> 'd shell \<Rightarrow> u8 list \<Rightarrow>
   ('d shell \<times> u8 list \<times> bool) res" where
  "shell_rx_loop tbl run 0 s rx = Inr (s, rx, True)"
| "shell_rx_loop tbl run (Suc n) s rx =
     (let (buf, rx') = bsp_usb_receiver rx 1 in
      if length buf = 1 then
        bindR (cli_shell_receive_char tbl run s (byte_char (hd buf))) (\<lambda>(s', returned).
        if returned then shell_rx_loop tbl run n s' rx' else Inr (s', rx', False))
      else shell_rx_loop tbl run n s rx')"

definition shell_rx_round ::
  "'h cmd_table \<Rightarrow> ('h \<Rightarrow> 'd shell \<Rightarrow> string list \<Rightarrow> ('d shell \<times> bool) res) \<Rightarrow> 'd shell \<Rightarrow> u8 list \<Rightarrow>
   ('d shell \<times> u8 list \<times> bool) res" where
  "shell_rx_round tbl run s rx = shell_rx_loop tbl run (bsp_usb_available rx) s rx"

text \<open>The task once a terminal is there, with the bytes that arrive before every turn of its loop.\<close>

fun shell_rounds ::
  "'h cmd_table \<Rightarrow> ('h \<Rightarrow> 'd shell \<Rightarrow> string list \<Rightarrow> ('d shell \<times> bool) res) \<Rightarrow> u8 list list \<Rightarrow> 'd shell \<Rightarrow>
   ('d shell \<times> bool) res" where
  "shell_rounds tbl run [] s = Inr (s, True)"
| "shell_rounds tbl run (bs # bss) s =
     bindR (shell_rx_round tbl run s bs) (\<lambda>(s', rx, returned).
     if returned then shell_rounds tbl run bss s' else Inr (s', False))"

definition shell_receive_task ::
  "'h cmd_table \<Rightarrow> ('h \<Rightarrow> 'd shell \<Rightarrow> string list \<Rightarrow> ('d shell \<times> bool) res) \<Rightarrow> bool list \<Rightarrow> u8 list list \<Rightarrow> 'd shell \<Rightarrow>
   ('d shell \<times> bool) option res" where
  "shell_receive_task tbl run polls bss s =
     (case wait_connected polls 0 [] of
        None \<Rightarrow> Inr None
      | Some _ \<Rightarrow> bindR (shell_rounds tbl run bss (cli_shell_boot s)) (\<lambda>r. Inr (Some r)))"

text \<open>The callbacks are set and the task is created; a failed creation is not noticed.\<close>

definition shell_app_init :: "bool \<Rightarrow> 'd shell \<Rightarrow> 'd shell \<times> bool" where
  "shell_app_init created s = (s\<lparr>sh_booted := True\<rparr>, created)"

section \<open>Lemmas\<close>

lemma shell_feed_append:
  "shell_feed tbl run s (xs @ ys) =
     bindR (shell_feed tbl run s xs) (\<lambda>(s', returned). if returned then shell_feed tbl run s' ys else Inr (s', False))"
proof (induction xs arbitrary: s)
  case (Cons c xs)
  then show ?case by (cases "cli_shell_receive_char tbl run s c") auto
qed simp

lemma rx_loop_feeds:
  "bindR (shell_rx_loop tbl run (length rx) s rx) (\<lambda>(s', rest, r). Inr (s', r)) = shell_feed tbl run s (map byte_char rx)"
proof (induction rx arbitrary: s)
  case (Cons b rx)
  show ?case
  proof (cases "cli_shell_receive_char tbl run s (byte_char b)")
    case (Inr sr)
    obtain s' r where "sr = (s', r)" by (cases sr)
    then show ?thesis using Inr Cons.IH [of s'] by (cases r) (simp_all add: bsp_usb_receiver_def)
  qed (simp add: bsp_usb_receiver_def)
qed simp

lemma rx_loop_drains:
  "shell_rx_loop tbl run (length rx) s rx = Inr (s', rest, True) \<Longrightarrow> rest = []"
proof (induction rx arbitrary: s)
  case (Cons b rx)
  then show ?case
    by (cases "cli_shell_receive_char tbl run s (byte_char b)") (auto simp: bsp_usb_receiver_def split: if_splits)
qed simp

text \<open>However the host cuts what it sends, the shell sees one sequence of characters.\<close>

lemma rounds_feed: "shell_rounds tbl run bss s = shell_feed tbl run s (map byte_char (concat bss))"
proof (induction bss arbitrary: s)
  case (Cons bs bss)
  have f: "bindR (shell_rx_round tbl run s bs) (\<lambda>(s', rest, r). Inr (s', r)) = shell_feed tbl run s (map byte_char bs)"
    by (simp add: shell_rx_round_def bsp_usb_available_def rx_loop_feeds)
  show ?case
    unfolding shell_rounds.simps concat.simps map_append shell_feed_append f [symmetric] Cons.IH
    by (cases "shell_rx_round tbl run s bs") auto
qed simp

lemma shell_session:
  assumes "wait_connected polls 0 [] \<noteq> None"
  shows "shell_receive_task tbl run polls bss s =
    bindR (shell_feed tbl run (cli_shell_boot s) (map byte_char (concat bss))) (\<lambda>r. Inr (Some r))"
  using assms by (auto simp: shell_receive_task_def rounds_feed)

text \<open>The wait ends with the first poll that finds a terminal.\<close>

lemma wait_connected_iff: "wait_connected polls hb l \<noteq> None \<longleftrightarrow> True \<in> set polls"
  by (induction polls hb l rule: wait_connected.induct) auto

text \<open>What the channel does not take at once is lost.\<close>

lemma send_str_keeps:
  "shell_send_str True room tx (Some str) = (tx @ take room (map char_byte str), 0)"
  "shell_send_str False room tx (Some str) = (tx, 0)"
  by (simp_all add: shell_send_str_def bsp_usb_transmit_def)

end
