(* ===== verification/CQueue.thy ===== *)
theory CQueue
  imports Ring_Buffer
begin

text \<open>
  The circular queue of \<open>synaptix/utils/cqueue\<close>. The storage is a list of items, so a byte
  offset \<open>i * queue->size\<close> of the code is the index \<open>i\<close> of the list, and the length of the
  list is the room that was really allocated. \<open>q_len\<close> is the number of items the caller
  declared; nothing in the code relates the two, and an access past the storage is the
  outcome \<open>Out_Of_Bounds\<close>.
\<close>

record 'a cqueue =
  q_buff :: "'a list"
  q_size :: nat
  q_len :: nat
  q_head :: nat
  q_tail :: nat
  q_count :: nat

subsection \<open>Operations\<close>

definition cqueue_init_static :: "'a list \<Rightarrow> nat \<Rightarrow> nat \<Rightarrow> 'a cqueue" where
  "cqueue_init_static buff len sz =
     \<lparr>q_buff = buff, q_size = sz, q_len = len, q_head = 0, q_tail = 0, q_count = 0\<rparr>"

text \<open>\<open>alloc\<close> is what \<open>malloc (size * len)\<close> returned: the uninitialised items, or null.\<close>

definition cqueue_init :: "'a list option \<Rightarrow> nat \<Rightarrow> nat \<Rightarrow> 'a cqueue res" where
  "cqueue_init alloc len sz =
     (case alloc of
        None \<Rightarrow> Inl Assert_Failed
      | Some buff \<Rightarrow>
          Inr \<lparr>q_buff = buff, q_size = sz, q_len = len, q_head = 0, q_tail = 0, q_count = 0\<rparr>)"

definition cqueue_is_empty :: "'a cqueue \<Rightarrow> bool" where
  "cqueue_is_empty q = (if q_count q = 0 then True else False)"

definition cqueue_is_full :: "'a cqueue \<Rightarrow> bool" where
  "cqueue_is_full q = (if q_count q = q_len q then True else False)"

definition cqueue_receive :: "'a cqueue \<Rightarrow> ('a cqueue \<times> 'a option) res" where
  "cqueue_receive q =
     (if \<not> cqueue_is_empty q then
        bindR (rd (q_buff q) (q_tail q)) (\<lambda>item.
          Inr (q\<lparr>q_tail := (q_tail q + 1) mod q_len q, q_count := q_count q - 1\<rparr>, Some item))
      else Inr (q, None))"

definition cqueue_send :: "'a cqueue \<Rightarrow> 'a \<Rightarrow> ('a cqueue \<times> bool) res" where
  "cqueue_send q item =
     (if \<not> cqueue_is_full q then
        bindR (wr (q_buff q) (q_head q) item) (\<lambda>buff.
          let next = (q_head q + 1) mod q_len q in
          Inr (q\<lparr>q_buff := buff, q_head := next, q_count := q_count q + 1\<rparr>, True))
      else Inr (q, False))"

subsection \<open>Invariant and abstraction\<close>

text \<open>The declared length is the allocated one, and head, tail and count agree.\<close>

definition cqueue_inv :: "'a cqueue \<Rightarrow> bool" where
  "cqueue_inv q \<longleftrightarrow> q_len q = length (q_buff q) \<and> q_tail q < q_len q \<and> q_count q \<le> q_len q \<and>
     q_head q = (q_tail q + q_count q) mod q_len q"

definition cqueue_contents :: "'a cqueue \<Rightarrow> 'a list" where
  "cqueue_contents q = ring (q_buff q) (q_tail q) (q_count q)"

subsection \<open>Lemmas\<close>

lemma cqueue_inv_init_static: "buff \<noteq> [] \<Longrightarrow> cqueue_inv (cqueue_init_static buff (length buff) sz)"
  by (simp add: cqueue_inv_def cqueue_init_static_def)

lemma cqueue_contents_init_static [simp]: "cqueue_contents (cqueue_init_static buff len sz) = []"
  by (simp add: cqueue_contents_def cqueue_init_static_def)

lemma q_len_init_static [simp]: "q_len (cqueue_init_static buff len sz) = len"
  by (simp add: cqueue_init_static_def)

lemma cqueue_is_empty_contents: "cqueue_is_empty q \<longleftrightarrow> cqueue_contents q = []"
  by (metis cqueue_contents_def cqueue_is_empty_def length_0_conv length_ring)

lemma cqueue_send_room:
  assumes "cqueue_inv q" and "length (cqueue_contents q) < q_len q"
  shows "\<exists>q'. cqueue_send q x = Inr (q', True) \<and> cqueue_inv q' \<and>
              cqueue_contents q' = cqueue_contents q @ [x] \<and> q_len q' = q_len q"
proof -
  have c: "q_count q < length (q_buff q)" and L: "q_len q = length (q_buff q)" "0 < q_len q"
    using assms by (auto simp: cqueue_inv_def cqueue_contents_def)
  have h: "q_head q = (q_tail q + q_count q) mod length (q_buff q)"
    using assms(1) by (simp add: cqueue_inv_def)
  then have hb: "q_head q < length (q_buff q)" using L by simp
  have "Suc (q_head q) mod q_len q = (q_tail q + Suc (q_count q)) mod q_len q"
    using h L by (simp add: mod_simps)
  then show ?thesis
    using assms c L hb ring_back [OF c, of "q_tail q" x]
    by (simp add: cqueue_send_def cqueue_is_full_def Let_def cqueue_inv_def cqueue_contents_def h)
qed

lemma cqueue_receive_some:
  assumes "cqueue_inv q" and "cqueue_contents q = x # xs"
  shows "\<exists>q'. cqueue_receive q = Inr (q', Some x) \<and> cqueue_inv q' \<and> cqueue_contents q' = xs \<and>
              q_len q' = q_len q"
proof -
  obtain n where n: "q_count q = Suc n"
    using assms(2) by (cases "q_count q") (auto simp: cqueue_contents_def)
  have t: "q_tail q < length (q_buff q)" and L: "q_len q = length (q_buff q)"
    using assms(1) by (auto simp: cqueue_inv_def)
  have "x # xs = q_buff q ! q_tail q # ring (q_buff q) (Suc (q_tail q) mod q_len q) n"
    using ring_front [OF t, of n] assms(2) n L by (simp add: cqueue_contents_def)
  moreover have "(Suc (q_tail q) mod q_len q + n) mod q_len q = (q_tail q + Suc n) mod q_len q"
    by (simp add: mod_simps)
  ultimately show ?thesis
    using assms(1) t n L
    by (auto intro!: mod_less_divisor simp: cqueue_receive_def cqueue_is_empty_def cqueue_inv_def cqueue_contents_def)
qed

text \<open>The queue provides the bounded queue interface on its own operations.\<close>

interpretation cq: bounded_fifo cqueue_send cqueue_receive cqueue_contents q_len cqueue_inv
proof unfold_locales
  fix q :: "'a cqueue" and x xs
  show "cqueue_inv q \<Longrightarrow> length (cqueue_contents q) \<le> q_len q"
    by (simp add: cqueue_inv_def cqueue_contents_def)
  show "cqueue_inv q \<Longrightarrow> length (cqueue_contents q) < q_len q \<Longrightarrow>
      \<exists>q'. cqueue_send q x = Inr (q', True) \<and> cqueue_inv q' \<and>
           cqueue_contents q' = cqueue_contents q @ [x] \<and> q_len q' = q_len q"
    by (rule cqueue_send_room)
  show "cqueue_inv q \<Longrightarrow> length (cqueue_contents q) = q_len q \<Longrightarrow> cqueue_send q x = Inr (q, False)"
    by (simp add: cqueue_send_def cqueue_is_full_def cqueue_contents_def)
  show "cqueue_inv q \<Longrightarrow> cqueue_contents q = [] \<Longrightarrow> cqueue_receive q = Inr (q, None)"
    by (simp add: cqueue_receive_def cqueue_is_empty_contents)
  show "cqueue_inv q \<Longrightarrow> cqueue_contents q = x # xs \<Longrightarrow>
      \<exists>q'. cqueue_receive q = Inr (q', Some x) \<and> cqueue_inv q' \<and> cqueue_contents q' = xs \<and>
           q_len q' = q_len q"
    by (rule cqueue_receive_some)
qed

subsection \<open>A declared length larger than the storage\<close>

text \<open>
  A queue whose declared length exceeds its storage accepts items as long as the storage
  lasts and then writes behind it. The loose invariant below describes such a queue while
  nothing has been received from it.
\<close>

definition cqueue_filling :: "'a cqueue \<Rightarrow> bool" where
  "cqueue_filling q \<longleftrightarrow> q_tail q = 0 \<and> q_head q = q_count q \<and> length (q_buff q) < q_len q \<and>
     q_count q \<le> length (q_buff q)"

lemma cqueue_filling_send:
  assumes "cqueue_filling q" and "q_count q < length (q_buff q)"
  shows "\<exists>q'. cqueue_send q x = Inr (q', True) \<and> cqueue_filling q' \<and>
              q_count q' = Suc (q_count q) \<and> length (q_buff q') = length (q_buff q)"
  using assms by (auto simp: cqueue_send_def cqueue_filling_def cqueue_is_full_def Let_def)

lemma cqueue_filling_overrun:
  assumes "cqueue_filling q" and "q_count q = length (q_buff q)"
  shows "cqueue_send q x = Inl Out_Of_Bounds"
  using assms by (simp add: cqueue_send_def cqueue_filling_def cqueue_is_full_def)

lemma cqueue_filling_send_list:
  assumes "cqueue_filling q" and "q_count q + length xs = length (q_buff q)"
  shows "\<exists>q'. send_list cqueue_send q xs = Inr (q', replicate (length xs) True) \<and>
              cqueue_filling q' \<and> q_count q' = length (q_buff q')"
  using assms
proof (induction xs arbitrary: q)
  case Nil
  then show ?case by simp
next
  case (Cons x xs)
  then obtain q1 where "cqueue_send q x = Inr (q1, True)" "cqueue_filling q1"
      "q_count q1 = Suc (q_count q)" "length (q_buff q1) = length (q_buff q)"
    using cqueue_filling_send [of q x] by auto
  with Cons.IH [of q1] Cons.prems(2) show ?case by auto
qed

subsection \<open>Properties\<close>

text \<open>A queue set up over a storage of the declared length is a bounded first-in-first-out
  queue: whatever fits is accepted item by item, comes out in the order it went in, and leaves
  the queue empty, without an access outside the storage.\<close>

lemma cqueue_fifo:
  assumes "buff \<noteq> []" and "length xs \<le> length buff"
  shows "\<exists>q' q''. send_list cqueue_send (cqueue_init_static buff (length buff) sz) xs =
           Inr (q', replicate (length xs) True) \<and>
         drain cqueue_receive (length xs) q' = Inr (q'', xs) \<and> cqueue_is_empty q''"
proof -
  have "cqueue_inv (cqueue_init_static buff (length buff) sz)"
    using assms(1) by (rule cqueue_inv_init_static)
  from cq.send_then_drain [OF this, of xs] assms(2) show ?thesis
    by (simp add: cqueue_is_empty_contents)
qed

lemma cqueue_fifo_example:
  "\<exists>q' q''. send_list cqueue_send (cqueue_init_static [0, 0, 0 :: nat] 3 4) [7, 8, 9] =
      Inr (q', [True, True, True]) \<and>
    drain cqueue_receive 3 q' = Inr (q'', [7, 8, 9]) \<and> cqueue_is_empty q''"
  using cqueue_fifo [of "[0, 0, 0 :: nat]" "[7, 8, 9]" 4] by (simp add: numeral_3_eq_3)

end
