(* ===== verification/Zigbee.thy ===== *)
theory Zigbee
  imports CQueue
begin

text \<open>
  The driver of the Zigbee module (\<open>services/zigbee/zigbee.c\<close>): the module's parameters and
  their place in the command and response frames, the checksums, the command queue and the
  polling state machine. The byte driver is the list of bytes that wait to be read and the list
  of bytes written; the callbacks of the firmware do not touch the mesh structure, so a call is
  an entry of the list \<open>zb_calls\<close>.
\<close>

definition writeHeaderLen :: nat where "writeHeaderLen = 3"
definition readHeaderLen :: nat where "readHeaderLen = 4"
definition writeInsLen :: nat where "writeInsLen = 42"
definition ZIGBEE_BUFFER_SIZE :: nat where "ZIGBEE_BUFFER_SIZE = 256 * 4"
definition ZIGBEE_RES_SUCCESS :: u8 where "ZIGBEE_RES_SUCCESS = 0x01"
definition ZIGBEE_RES_FAIL :: u8 where "ZIGBEE_RES_FAIL = 0x00"
definition ZIGBEE_RES_TIMEOUT :: u8 where "ZIGBEE_RES_TIMEOUT = 0xFF"

lemmas zb_consts = writeHeaderLen_def readHeaderLen_def writeInsLen_def ZIGBEE_BUFFER_SIZE_def
  ZIGBEE_RES_SUCCESS_def ZIGBEE_RES_FAIL_def ZIGBEE_RES_TIMEOUT_def

record ZigbeeParameter =
  pointType :: u8
  PAN_ID :: u16
  Channel :: u8
  transferModel :: u8
  userAddress :: u16
  X7X8 :: u16
  uartBraudRate :: u8
  uartDataBits :: u8
  uartStopBits :: u8
  uartParity :: u8
  X13X14 :: u16
  antennaSelect :: u8
  macAddress :: "u8 list"
  prePointType :: u8
  prePAN_ID :: u16
  preChannel :: u8
  preTransferModel :: u8
  preUserAddress :: u16
  X31X32 :: u16
  preUartBraudRate :: u8
  preUartDataBits :: u8
  preUartStopBits :: u8
  preUartParity :: u8
  X37X38 :: u16
  preAntennaSelect :: u8
  shortAddress :: u16
  X42 :: u8
  isSecurity :: u8
  securityCode :: "u8 list"

definition param_zero :: ZigbeeParameter where
  "param_zero =
     \<lparr>pointType = 0, PAN_ID = 0, Channel = 0, transferModel = 0, userAddress = 0, X7X8 = 0,
      uartBraudRate = 0, uartDataBits = 0, uartStopBits = 0, uartParity = 0, X13X14 = 0,
      antennaSelect = 0, macAddress = replicate 8 0, prePointType = 0, prePAN_ID = 0, preChannel = 0,
      preTransferModel = 0, preUserAddress = 0, X31X32 = 0, preUartBraudRate = 0, preUartDataBits = 0,
      preUartStopBits = 0, preUartParity = 0, X37X38 = 0, preAntennaSelect = 0, shortAddress = 0,
      X42 = 0, isSecurity = 0, securityCode = replicate 4 0\<rparr>"

datatype ZigbeeEventType = ZB_EVENT_NONE | ZB_EVENT_LINK_MODULE | ZB_EVENT_READ_MODULE
  | ZB_EVENT_WRITE_MODULE | ZB_EVENT_RESET_MODULE | ZB_EVENT_ENTER_LOWPOWER | ZB_EVENT_GET_POSITION
  | ZB_EVENT_QUERY_POS

record ('cb, 'arg) ZigbeeEvent =
  ev_timeout :: u32
  ev_tick :: u32
  ev_event :: ZigbeeEventType
  ev_arg :: "'arg option"
  ev_cb :: "'cb option"

definition event_zero :: "('cb, 'arg) ZigbeeEvent" where
  "event_zero = \<lparr>ev_timeout = 0, ev_tick = 0, ev_event = ZB_EVENT_NONE, ev_arg = None, ev_cb = None\<rparr>"

record ('cb, 'arg) ZigbeeMesh =
  param :: ZigbeeParameter
  event :: "('cb, 'arg) ZigbeeEvent"
  event_tmp :: "('cb, 'arg) ZigbeeEvent"
  event_queue :: "('cb, 'arg) ZigbeeEvent cqueue"
  fw_version :: "u8 list"
  zb_buff :: "u8 list"
  buff_len :: u32
  time_reset :: u32
  zb_rx :: "u8 list"
  zb_tx :: "u8 list"
  zb_calls :: "('cb \<times> u8 \<times> 'arg option) list"

subsection \<open>Commands\<close>

definition linkIns :: "u8 list" where
  "linkIns = [0xFC, 0x06, 0x04, 0x44, 0x54, 0x4B, 0x52, 0x46, 0x81]"

definition restartIns :: "u8 list" where
  "restartIns = [0xFC, 0x06, 0x06, 0x44, 0x54, 0x4B, 0xAA, 0xBB, 0x50]"

definition readIns :: "u8 list" where
  "readIns = [0xFC, 0x06, 0x0E, 0x44, 0x54, 0x4B, 0x52, 0x46, 0x8B]"

definition queryEndDevicePosition :: "u8 list" where
  "queryEndDevicePosition = [0xFC, 0x04, 0x0A, 0x22, 0x33, 0x44, 0xA3]"

definition requestSignalIns :: "u8 list" where
  "requestSignalIns = [0xFC, 0x06, 0x0C, 0x44, 0x54, 0x4B, 0x52, 0x46, 0x89]"

definition enterLowPowerIns :: "u8 list" where
  "enterLowPowerIns = [0xFC, 0x06, 0x12, 0x44, 0x54, 0x4B, 0x43, 0x4F, 0x89]"

text \<open>The checksum: the sum of all bytes but the last; of an empty input it reads nothing.\<close>

fun xy_loop :: "u8 list \<Rightarrow> nat \<Rightarrow> nat \<Rightarrow> u8 \<Rightarrow> u8 res" where
  "xy_loop inputData i 0 result = Inr result"
| "xy_loop inputData i (Suc n) result =
     bindR (rd inputData i) (\<lambda>b. xy_loop inputData (i + 1) n (result + b))"

definition zigbeeGetXY :: "u8 list \<Rightarrow> nat \<Rightarrow> u8 res" where
  "zigbeeGetXY inputData inputLen = xy_loop inputData 0 (inputLen - 1) 0"

definition zigbeeIsInsBack :: "u8 list \<Rightarrow> nat \<Rightarrow> bool res" where
  "zigbeeIsInsBack inputData inputLen =
     bindR (rd inputData 0) (\<lambda>h.
     bindR (rd inputData 1) (\<lambda>n.
     bindR (zigbeeGetXY inputData inputLen) (\<lambda>xy.
     if inputLen = 0 then Inl Out_Of_Bounds
     else bindR (rd inputData (inputLen - 1)) (\<lambda>last.
     Inr (h = 0xFA \<and> inputLen = unat n + 4 \<and> last = xy)))))"

text \<open>The write command, with the parameter fields in the order of the assignments.\<close>

definition write_fields :: "ZigbeeParameter \<Rightarrow> u8 list" where
  "write_fields p =
     [pointType p, hi_byte (PAN_ID p), lo_byte (PAN_ID p), Channel p, transferModel p,
      hi_byte (userAddress p), lo_byte (userAddress p), hi_byte (X7X8 p), lo_byte (X7X8 p),
      uartBraudRate p, uartDataBits p, uartStopBits p, uartParity p,
      hi_byte (X13X14 p), lo_byte (X13X14 p), antennaSelect p,
      prePointType p, hi_byte (prePAN_ID p), lo_byte (prePAN_ID p), preChannel p, preTransferModel p,
      hi_byte (preUserAddress p), lo_byte (preUserAddress p), hi_byte (X31X32 p), lo_byte (X31X32 p),
      preUartBraudRate p, preUartDataBits p, preUartStopBits p, preUartParity p,
      hi_byte (X37X38 p), lo_byte (X37X38 p), preAntennaSelect p, 0x1, isSecurity p]"

definition zigbeeGetWriteIns :: "ZigbeeParameter \<Rightarrow> u8 list res" where
  "zigbeeGetWriteIns p =
     bindR (rd (securityCode p) 0) (\<lambda>c0. bindR (rd (securityCode p) 1) (\<lambda>c1.
     bindR (rd (securityCode p) 2) (\<lambda>c2. bindR (rd (securityCode p) 3) (\<lambda>c3.
     let body = [0xFC, 0x27, 0x07] @ write_fields p @ [c0, c1, c2, c3] in
     bindR (zigbeeGetXY (body @ [0]) writeInsLen) (\<lambda>xy. Inr (body @ [xy]))))))"

subsection \<open>Responses\<close>

text \<open>
  The byte the checksum is compared with. For an empty input the code reads index -1 of
  \<open>buff\<close>, which is the byte in front of it in the structure: \<open>fw_version[1]\<close>.
\<close>

definition zb_last :: "('cb, 'arg) ZigbeeMesh \<Rightarrow> nat \<Rightarrow> u8 res" where
  "zb_last z inputLen = (if inputLen = 0 then rd (fw_version z) 1 else rd (zb_buff z) (inputLen - 1))"

text \<open>The four tests every response handler makes; they differ in the second byte only.\<close>

definition zb_right :: "('cb, 'arg) ZigbeeMesh \<Rightarrow> u8 \<Rightarrow> nat \<Rightarrow> bool res" where
  "zb_right z second inputLen =
     bindR (zigbeeGetXY (zb_buff z) inputLen) (\<lambda>xy.
     bindR (rd (zb_buff z) 0) (\<lambda>b0. bindR (rd (zb_buff z) 1) (\<lambda>b1. bindR (rd (zb_buff z) 2) (\<lambda>b2.
     bindR (zb_last z inputLen) (\<lambda>last.
     Inr (b0 = 0xFA \<and> b1 = second \<and> b2 = 0x0A \<and> last = xy))))))"

definition zb_u16 :: "u8 \<Rightarrow> u8 \<Rightarrow> u16" where
  "zb_u16 h l = ucast h * 256 + ucast l"

text \<open>The parameters in a response; \<open>X k\<close> is the byte the comments of the code call Xk.\<close>

definition param_of :: "u8 list \<Rightarrow> ZigbeeParameter" where
  "param_of inputData =
     (let X = (\<lambda>k. inputData ! (readHeaderLen + k)) in
      \<lparr>pointType = X 0, PAN_ID = zb_u16 (X 1) (X 2), Channel = X 3, transferModel = X 4,
       userAddress = zb_u16 (X 5) (X 6), X7X8 = zb_u16 (X 7) (X 8), uartBraudRate = X 9,
       uartDataBits = X 10, uartStopBits = X 11, uartParity = X 12, X13X14 = zb_u16 (X 13) (X 14),
       antennaSelect = X 15, macAddress = map (\<lambda>i. X (16 + i)) [0..<8],
       prePointType = X 24, prePAN_ID = zb_u16 (X 25) (X 26), preChannel = X 27,
       preTransferModel = X 28, preUserAddress = zb_u16 (X 29) (X 30), X31X32 = zb_u16 (X 31) (X 32),
       preUartBraudRate = X 33, preUartDataBits = X 34, preUartStopBits = X 35, preUartParity = X 36,
       X37X38 = zb_u16 (X 37) (X 38), preAntennaSelect = X 39, shortAddress = zb_u16 (X 40) (X 41),
       X42 = X 42, isSecurity = X 43, securityCode = map (\<lambda>i. X (44 + i)) [0..<4]\<rparr>)"

definition zigbeeReadProcess ::
  "('cb, 'arg) ZigbeeMesh \<Rightarrow> nat \<Rightarrow> (('cb, 'arg) ZigbeeMesh \<times> u8) res" where
  "zigbeeReadProcess z inputLen =
     bindR (zb_right z 0x31 inputLen) (\<lambda>ok.
     if ok then
       (if readHeaderLen + 48 \<le> length (zb_buff z)
        then Inr (z\<lparr>param := param_of (zb_buff z)\<rparr>, ZIGBEE_RES_SUCCESS)
        else Inl Out_Of_Bounds)
     else Inr (z, ZIGBEE_RES_FAIL))"

definition zigbee_connect_process ::
  "('cb, 'arg) ZigbeeMesh \<Rightarrow> nat \<Rightarrow> (('cb, 'arg) ZigbeeMesh \<times> u8) res" where
  "zigbee_connect_process z inputLen =
     bindR (zb_right z 0x06 inputLen) (\<lambda>ok.
     if ok then
       bindR (rd (zb_buff z) 7) (\<lambda>h. bindR (rd (zb_buff z) 8) (\<lambda>l.
       bindR (wr (fw_version z) 0 (word_of_nat ((unat h * 256 + unat l) div 10))) (\<lambda>v.
       Inr (z\<lparr>fw_version := v\<rparr>, ZIGBEE_RES_SUCCESS))))
     else Inr (z, ZIGBEE_RES_FAIL))"

definition zigbee_reset_process ::
  "('cb, 'arg) ZigbeeMesh \<Rightarrow> nat \<Rightarrow> (('cb, 'arg) ZigbeeMesh \<times> u8) res" where
  "zigbee_reset_process z inputLen =
     bindR (zb_right z 0x06 inputLen) (\<lambda>ok.
     Inr (z, if ok then ZIGBEE_RES_SUCCESS else ZIGBEE_RES_FAIL))"

definition zigbee_write_process ::
  "('cb, 'arg) ZigbeeMesh \<Rightarrow> nat \<Rightarrow> (('cb, 'arg) ZigbeeMesh \<times> u8) res" where
  "zigbee_write_process z inputLen =
     bindR (zb_right z 0x01 inputLen) (\<lambda>ok.
     Inr (z, if ok then ZIGBEE_RES_SUCCESS else ZIGBEE_RES_FAIL))"

definition zigbee_request_signal_process ::
  "('cb, 'arg) ZigbeeMesh \<Rightarrow> nat \<Rightarrow> (('cb, 'arg) ZigbeeMesh \<times> u8) res" where
  "zigbee_request_signal_process z inputLen =
     bindR (zb_right z 0x04 inputLen) (\<lambda>ok.
     Inr (z, if ok then ZIGBEE_RES_SUCCESS else ZIGBEE_RES_FAIL))"

definition zigbee_query_ed_process ::
  "('cb, 'arg) ZigbeeMesh \<Rightarrow> nat \<Rightarrow> (('cb, 'arg) ZigbeeMesh \<times> u8) res" where
  "zigbee_query_ed_process z inputLen = Inr (z, ZIGBEE_RES_SUCCESS)"

subsection \<open>Initialisation and requests\<close>

text \<open>
  \<open>sz\<close> is \<open>sizeof (ZigbeeEvent_t)\<close>. The length given to the queue is the size of the list of ten
  events in bytes.
\<close>

definition zigbee_init :: "nat \<Rightarrow> ('cb, 'arg) ZigbeeMesh \<Rightarrow> ('cb, 'arg) ZigbeeMesh" where
  "zigbee_init sz z =
     z\<lparr>param := param_zero, event := event_zero, event_tmp := event_zero, time_reset := 0,
       event_queue := cqueue_init_static (replicate 10 event_zero) (10 * sz) sz\<rparr>"

definition zigbee_send_event ::
  "('cb, 'arg) ZigbeeMesh \<Rightarrow> ZigbeeEventType \<Rightarrow> u32 \<Rightarrow> 'cb option \<Rightarrow> 'arg option \<Rightarrow>
   ('cb, 'arg) ZigbeeMesh res" where
  "zigbee_send_event z e timeout cb arg =
     (let tmp = \<lparr>ev_timeout = timeout, ev_tick = 0, ev_event = e, ev_arg = arg, ev_cb = cb\<rparr> in
      bindR (cqueue_send (event_queue z) tmp) (\<lambda>(q, b).
      Inr (z\<lparr>event_tmp := tmp, event_queue := q\<rparr>)))"

definition zigbee_connect where
  "zigbee_connect z cb arg = zigbee_send_event z ZB_EVENT_LINK_MODULE 300 cb arg"

definition zigbee_reset_module where
  "zigbee_reset_module z cb arg = zigbee_send_event z ZB_EVENT_RESET_MODULE 300 cb arg"

definition zigbee_read_module where
  "zigbee_read_module z cb arg = zigbee_send_event z ZB_EVENT_READ_MODULE 1000 cb arg"

text \<open>The command is also assembled here, and assembled again when it is sent.\<close>

definition zigbee_write_module where
  "zigbee_write_module z cb arg =
     bindR (zigbeeGetWriteIns (param z)) (\<lambda>ins. zigbee_send_event z ZB_EVENT_WRITE_MODULE 1000 cb arg)"

definition zigbee_request_signal where
  "zigbee_request_signal z cb arg = zigbee_send_event z ZB_EVENT_GET_POSITION 300 cb arg"

definition zigbee_query_ed_pos where
  "zigbee_query_ed_pos z cb arg =
     (if pointType (param z) \<noteq> 1 then Inr z
      else zigbee_send_event z ZB_EVENT_QUERY_POS 2000 cb arg)"

subsection \<open>Polling\<close>

definition drv_write :: "('cb, 'arg) ZigbeeMesh \<Rightarrow> u8 list \<Rightarrow> ('cb, 'arg) ZigbeeMesh" where
  "drv_write z bs = z\<lparr>zb_tx := zb_tx z @ bs\<rparr>"

text \<open>The driver reads \<open>n\<close> of the waiting bytes into the front of the buffer.\<close>

definition drv_read :: "('cb, 'arg) ZigbeeMesh \<Rightarrow> nat \<Rightarrow> ('cb, 'arg) ZigbeeMesh res" where
  "drv_read z n =
     (if n \<le> length (zb_buff z)
      then Inr (z\<lparr>zb_buff := blit 0 (take n (zb_rx z)) (zb_buff z), zb_rx := drop n (zb_rx z)\<rparr>)
      else Inl Out_Of_Bounds)"

definition zb_call :: "('cb, 'arg) ZigbeeMesh \<Rightarrow> u8 \<Rightarrow> ('cb, 'arg) ZigbeeMesh" where
  "zb_call z res =
     (case ev_cb (event z) of
        None \<Rightarrow> z
      | Some cb \<Rightarrow> z\<lparr>zb_calls := zb_calls z @ [(cb, res, ev_arg (event z))]\<rparr>)"

definition zb_start :: "('cb, 'arg) ZigbeeMesh \<Rightarrow> u32 \<Rightarrow> ('cb, 'arg) ZigbeeMesh res" where
  "zb_start z timestamp =
     (case ev_event (event z) of
        ZB_EVENT_NONE \<Rightarrow>
          (let z1 = (if length (zb_rx z) > 0 then z\<lparr>time_reset := 0\<rparr> else z);
               z2 = z1\<lparr>time_reset := time_reset z1 + timestamp\<rparr> in
           Inr (if time_reset z2 \<ge> 10000 then (drv_write z2 restartIns)\<lparr>time_reset := 0\<rparr> else z2))
      | ZB_EVENT_LINK_MODULE \<Rightarrow> Inr (drv_write z linkIns)
      | ZB_EVENT_READ_MODULE \<Rightarrow> Inr (drv_write z readIns)
      | ZB_EVENT_WRITE_MODULE \<Rightarrow> bindR (zigbeeGetWriteIns (param z)) (\<lambda>ins. Inr (drv_write z ins))
      | ZB_EVENT_RESET_MODULE \<Rightarrow> Inr (drv_write z restartIns)
      | ZB_EVENT_ENTER_LOWPOWER \<Rightarrow> Inr (drv_write z enterLowPowerIns)
      | ZB_EVENT_GET_POSITION \<Rightarrow> Inr (drv_write z requestSignalIns)
      | ZB_EVENT_QUERY_POS \<Rightarrow> Inr (drv_write z queryEndDevicePosition))"

definition zb_process :: "('cb, 'arg) ZigbeeMesh \<Rightarrow> (('cb, 'arg) ZigbeeMesh \<times> u8) res" where
  "zb_process z =
     (let n = unat (buff_len z) in
      case ev_event (event z) of
        ZB_EVENT_LINK_MODULE \<Rightarrow> zigbee_connect_process z n
      | ZB_EVENT_READ_MODULE \<Rightarrow> zigbeeReadProcess z n
      | ZB_EVENT_WRITE_MODULE \<Rightarrow> zigbee_write_process z n
      | ZB_EVENT_RESET_MODULE \<Rightarrow> zigbee_reset_process z n
      | ZB_EVENT_GET_POSITION \<Rightarrow> zigbee_request_signal_process z n
      | ZB_EVENT_QUERY_POS \<Rightarrow> zigbee_query_ed_process z n
      | _ \<Rightarrow> Inr (z, ZIGBEE_RES_FAIL))"

text \<open>The end of the wait: the answer is read and judged, the callback called, the event closed.\<close>

definition zb_finish :: "('cb, 'arg) ZigbeeMesh \<Rightarrow> ('cb, 'arg) ZigbeeMesh res" where
  "zb_finish z =
     (let n = min (length (zb_rx z)) ZIGBEE_BUFFER_SIZE;
          z1 = z\<lparr>buff_len := word_of_nat n, event := (event z)\<lparr>ev_tick := 0\<rparr>\<rparr> in
      bindR (if n > 0 then drv_read z1 n else Inr z1) (\<lambda>z2.
      let z3 = (if n = 0 then zb_call z2 ZIGBEE_RES_TIMEOUT else z2) in
      bindR (zb_process z3) (\<lambda>(z4, res).
      let z5 = (if res \<noteq> ZIGBEE_RES_FAIL then zb_call z4 res else z4) in
      Inr (z5\<lparr>buff_len := 0, event := (event z5)\<lparr>ev_tick := 0, ev_event := ZB_EVENT_NONE\<rparr>\<rparr>))))"

definition zigbee_poll :: "('cb, 'arg) ZigbeeMesh \<Rightarrow> u32 \<Rightarrow> ('cb, 'arg) ZigbeeMesh res" where
  "zigbee_poll z timestamp =
     bindR (if ev_event (event z) = ZB_EVENT_NONE then
              bindR (if q_count (event_queue z) > 0 then
                       bindR (cqueue_receive (event_queue z)) (\<lambda>(q, item).
                       Inr (z\<lparr>event_queue := q,
                              event := (case item of None \<Rightarrow> event z | Some e \<Rightarrow> e)\<rparr>))
                     else Inr z) (\<lambda>z1. zb_start z1 timestamp)
            else Inr z) (\<lambda>z2.
     let ev = event z2;
         z3 = (if ev_tick ev < ev_timeout ev \<and> ev_event ev \<noteq> ZB_EVENT_NONE
               then z2\<lparr>event := ev\<lparr>ev_tick := ev_tick ev + timestamp\<rparr>\<rparr> else z2) in
     if ev_tick (event z3) \<ge> ev_timeout (event z3) \<and> ev_event (event z3) \<noteq> ZB_EVENT_NONE
     then zb_finish z3 else Inr z3)"

section \<open>Checksums and frames\<close>

definition sum_bytes :: "u8 list \<Rightarrow> u8" where
  "sum_bytes bs = foldl (+) 0 bs"

lemma xy_loop_ok:
  "i + n \<le> length bs \<Longrightarrow> xy_loop bs i n s = Inr (foldl (+) s (window i n bs))"
  by (induction n arbitrary: i s) (simp_all add: window_Suc)

lemma zigbeeGetXY_ok:
  "n - 1 \<le> length bs \<Longrightarrow> zigbeeGetXY bs n = Inr (sum_bytes (take (n - 1) bs))"
  by (simp add: zigbeeGetXY_def xy_loop_ok sum_bytes_def window_def)

lemma zb_u16_be16: "zb_u16 h l = be16 h l"
proof -
  have "(ucast h :: u16) * 256 = push_bit 8 (ucast h)" by (simp add: push_bit_eq_mult)
  moreover have "push_bit 8 (ucast h :: u16) + ucast l = push_bit 8 (ucast h) OR ucast l"
    by (rule disjunctive_add) (auto simp: bit_simps dest: bit_imp_le_length)
  ultimately show ?thesis by (simp add: zb_u16_def be16_def)
qed

text \<open>The response to a read command: header, the bytes X0 to X47, and the checksum.\<close>

definition response_fields :: "ZigbeeParameter \<Rightarrow> u8 list" where
  "response_fields p =
     [pointType p, hi_byte (PAN_ID p), lo_byte (PAN_ID p), Channel p, transferModel p,
      hi_byte (userAddress p), lo_byte (userAddress p), hi_byte (X7X8 p), lo_byte (X7X8 p),
      uartBraudRate p, uartDataBits p, uartStopBits p, uartParity p,
      hi_byte (X13X14 p), lo_byte (X13X14 p), antennaSelect p] @ macAddress p @
     [prePointType p, hi_byte (prePAN_ID p), lo_byte (prePAN_ID p), preChannel p, preTransferModel p,
      hi_byte (preUserAddress p), lo_byte (preUserAddress p), hi_byte (X31X32 p), lo_byte (X31X32 p),
      preUartBraudRate p, preUartDataBits p, preUartStopBits p, preUartParity p,
      hi_byte (X37X38 p), lo_byte (X37X38 p), preAntennaSelect p,
      hi_byte (shortAddress p), lo_byte (shortAddress p), ZigbeeParameter.X42 p, isSecurity p] @ securityCode p"

definition read_response :: "u8 \<Rightarrow> ZigbeeParameter \<Rightarrow> u8 list" where
  "read_response k p =
     (let body = [0xFA, 0x31, 0x0A, k] @ response_fields p in body @ [sum_bytes body])"

definition param_ok :: "ZigbeeParameter \<Rightarrow> bool" where
  "param_ok p \<longleftrightarrow> length (macAddress p) = 8 \<and> length (securityCode p) = 4"

lemma length_read_response: "param_ok p \<Longrightarrow> length (read_response k p) = 53"
  by (simp add: read_response_def response_fields_def param_ok_def Let_def)

lemma param_of_response:
  assumes "param_ok p"
  shows "param_of (read_response k p @ rest) = p"
proof -
  obtain m0 m1 m2 m3 m4 m5 m6 m7 where m: "macAddress p = [m0, m1, m2, m3, m4, m5, m6, m7]"
    using assms by (auto simp: param_ok_def numeral_eq_Suc length_Suc_conv)
  obtain c0 c1 c2 c3 where c: "securityCode p = [c0, c1, c2, c3]"
    using assms by (auto simp: param_ok_def numeral_eq_Suc length_Suc_conv)
  show ?thesis
    by (rule ZigbeeParameter.equality)
       (simp_all add: param_of_def Let_def read_response_def response_fields_def readHeaderLen_def
         m c zb_u16_be16 upt_rec)
qed

section \<open>Invariants\<close>

text \<open>
  The queue behind its declared length: it is declared for ten times the size of an event, its
  storage has ten events. \<open>n\<close> requests have gone in so far.
\<close>

definition zb_queue_after :: "nat \<Rightarrow> 'a cqueue \<Rightarrow> bool" where
  "zb_queue_after n q \<longleftrightarrow> 10 < q_len q \<and> length (q_buff q) = 10 \<and> q_head q = n \<and>
     q_tail q + q_count q = n \<and> n \<le> 10"

definition zb_inv :: "('cb, 'arg) ZigbeeMesh \<Rightarrow> bool" where
  "zb_inv z \<longleftrightarrow> length (fw_version z) = 2 \<and> length (zb_buff z) = 1024 \<and> param_ok (param z)"

lemma zb_queue_init: "2 \<le> sz \<Longrightarrow> zb_queue_after 0 (event_queue (zigbee_init sz z))"
  by (simp add: zb_queue_after_def zigbee_init_def cqueue_init_static_def)

lemma zb_queue_send:
  assumes "zb_queue_after n q" and "n < 10"
  shows "\<exists>q'. cqueue_send q x = Inr (q', True) \<and> zb_queue_after (Suc n) q' \<and> q_buff q' = (q_buff q)[n := x] \<and>
    q_count q' = Suc (q_count q) \<and> q_tail q' = q_tail q"
  using assms by (auto simp: zb_queue_after_def cqueue_send_def cqueue_is_full_def Let_def)

lemma zb_queue_overrun: "zb_queue_after 10 q \<Longrightarrow> cqueue_send q x = Inl Out_Of_Bounds"
  by (auto simp: zb_queue_after_def cqueue_send_def cqueue_is_full_def)

lemma zb_queue_sent:
  assumes "cqueue_send q x = Inr (q', b)" and "zb_queue_after n q"
  shows "zb_queue_after (Suc n) q'"
proof (cases "n < 10")
  case True
  then show ?thesis using zb_queue_send [OF assms(2), of x] assms(1) by auto
next
  case False
  then have "n = 10" using assms(2) by (simp add: zb_queue_after_def)
  then show ?thesis using zb_queue_overrun [of q x] assms by simp
qed

lemma zb_queue_receive:
  assumes "zb_queue_after n q" and "0 < q_count q"
  shows "\<exists>q'. cqueue_receive q = Inr (q', Some (q_buff q ! q_tail q)) \<and> zb_queue_after n q' \<and>
    q_count q' = q_count q - 1"
  using assms by (auto simp: zb_queue_after_def cqueue_receive_def cqueue_is_empty_def)

text \<open>Only requests and the first step of a poll touch the queue.\<close>

lemma drv_frame [frame_simps]:
  "event_queue (drv_write z bs) = event_queue z" "event_queue (zb_call z res) = event_queue z"
  "param (drv_write z bs) = param z" "event (drv_write z bs) = event z" "zb_rx (drv_write z bs) = zb_rx z"
  "zb_tx (drv_write z bs) = zb_tx z @ bs" "zb_calls (drv_write z bs) = zb_calls z"
  "fw_version (drv_write z bs) = fw_version z" "zb_buff (drv_write z bs) = zb_buff z"
  "param (zb_call z res) = param z" "fw_version (zb_call z res) = fw_version z"
  "zb_buff (zb_call z res) = zb_buff z" "event (zb_call z res) = event z" "zb_rx (zb_call z res) = zb_rx z"
  "buff_len (zb_call z res) = buff_len z"
  by (auto simp: drv_write_def zb_call_def split: option.splits)

lemma start_queue: "zb_start z ts = Inr z' \<Longrightarrow> event_queue z' = event_queue z"
  by (cases "ev_event (event z)") (auto simp: zb_start_def Let_def res_simps frame_simps split: if_splits)

lemma process_queue: "zb_process z = Inr (z', r) \<Longrightarrow> event_queue z' = event_queue z"
  by (cases "ev_event (event z)")
     (auto simp: zb_process_def Let_def res_simps zigbee_connect_process_def zigbeeReadProcess_def
       zigbee_write_process_def zigbee_reset_process_def zigbee_request_signal_process_def
       zigbee_query_ed_process_def split: if_splits)

lemma finish_queue: "zb_finish z = Inr z' \<Longrightarrow> event_queue z' = event_queue z"
  by (auto simp: zb_finish_def Let_def res_simps drv_read_def frame_simps dest!: process_queue split: if_splits)

lemma poll_queue:
  assumes "zigbee_poll z ts = Inr z'" and "zb_queue_after n (event_queue z)"
  shows "zb_queue_after n (event_queue z')"
proof -
  obtain z2 where z2: "(if ev_event (event z) = ZB_EVENT_NONE then
              bindR (if q_count (event_queue z) > 0 then
                       bindR (cqueue_receive (event_queue z)) (\<lambda>(q, item).
                       Inr (z\<lparr>event_queue := q,
                              event := (case item of None \<Rightarrow> event z | Some e \<Rightarrow> e)\<rparr>))
                     else Inr z) (\<lambda>z1. zb_start z1 ts)
            else Inr z) = Inr z2"
    using assms(1) by (auto simp: zigbee_poll_def res_simps)
  then have "zb_queue_after n (event_queue z2)"
    using assms(2) zb_queue_receive [OF assms(2)]
    by (auto simp: res_simps dest!: start_queue split: if_splits)
  moreover have "event_queue z' = event_queue z2"
    using assms(1) unfolding zigbee_poll_def z2
    by (auto simp: Let_def dest!: finish_queue split: if_splits)
  ultimately show ?thesis by simp
qed

section \<open>The life of the driver\<close>

text \<open>\<open>zb_run z n z'\<close>: requests, polls and arriving bytes lead from \<open>z\<close> to \<open>z'\<close>, with \<open>n\<close> requests.\<close>

inductive zb_run :: "('cb, 'arg) ZigbeeMesh \<Rightarrow> nat \<Rightarrow> ('cb, 'arg) ZigbeeMesh \<Rightarrow> bool" for z where
  zb_start: "zb_run z 0 z"
| zb_request: "zb_run z n z1 \<Longrightarrow> zigbee_send_event z1 e t cb arg = Inr z2 \<Longrightarrow> zb_run z (Suc n) z2"
| zb_poll: "zb_run z n z1 \<Longrightarrow> zigbee_poll z1 ts = Inr z2 \<Longrightarrow> zb_run z n z2"
| zb_bytes: "zb_run z n z1 \<Longrightarrow> zb_run z n (z1\<lparr>zb_rx := zb_rx z1 @ bs\<rparr>)"

lemma run_queue:
  assumes "zb_run (zigbee_init sz z0) n z" and "2 \<le> sz"
  shows "zb_queue_after n (event_queue z)"
  using assms
proof (induction rule: zb_run.induct)
  case zb_start
  then show ?case by (rule zb_queue_init)
next
  case (zb_request n z1 e t cb arg z2)
  then show ?case by (auto simp: zigbee_send_event_def Let_def res_simps dest: zb_queue_sent)
next
  case (zb_poll n z1 ts z2)
  then show ?case using poll_queue by blast
qed auto

subsection \<open>A command and its answer\<close>

fun zb_polls :: "nat \<Rightarrow> u32 \<Rightarrow> ('cb, 'arg) ZigbeeMesh \<Rightarrow> ('cb, 'arg) ZigbeeMesh res" where
  "zb_polls 0 ts z = Inr z"
| "zb_polls (Suc n) ts z = bindR (zigbee_poll z ts) (zb_polls n ts)"

lemma poll_waits:
  assumes "ev_event (event z) \<noteq> ZB_EVENT_NONE"
    and "unat (ev_tick (event z)) + unat ts < unat (ev_timeout (event z))"
  shows "zigbee_poll z ts = Inr (z\<lparr>event := (event z)\<lparr>ev_tick := ev_tick (event z) + ts\<rparr>\<rparr>)"
proof -
  have "unat (ev_timeout (event z)) < 2 ^ 32" using unsigned_less [where ?'a = nat and w = "ev_timeout (event z)"] by simp
  then have "unat (ev_tick (event z) + ts) = unat (ev_tick (event z)) + unat ts"
    using assms(2) by (intro unat_add_lem [THEN iffD1]) simp
  then have "ev_tick (event z) < ev_timeout (event z)" "\<not> ev_timeout (event z) \<le> ev_tick (event z) + ts"
    using assms(2) by (simp_all add: word_less_nat_alt word_le_nat_alt)
  then show ?thesis using assms(1) by (simp add: zigbee_poll_def Let_def)
qed

lemma polls_wait:
  assumes "ev_event (event z) \<noteq> ZB_EVENT_NONE"
    and "unat (ev_tick (event z)) + n < unat (ev_timeout (event z))"
  shows "zb_polls n 1 z = Inr (z\<lparr>event := (event z)\<lparr>ev_tick := ev_tick (event z) + of_nat n\<rparr>\<rparr>)"
  using assms
proof (induction n arbitrary: z)
  case (Suc n)
  have p: "zigbee_poll z 1 = Inr (z\<lparr>event := (event z)\<lparr>ev_tick := ev_tick (event z) + 1\<rparr>\<rparr>)"
    using Suc.prems by (intro poll_waits) simp_all
  have "unat (ev_timeout (event z)) < 2 ^ 32" using unsigned_less [where ?'a = nat and w = "ev_timeout (event z)"] by simp
  then have "unat (ev_tick (event z) + 1) = unat (ev_tick (event z)) + 1"
    using Suc.prems(2) by (simp add: unat_plus_if')
  then have "zb_polls n 1 (z\<lparr>event := (event z)\<lparr>ev_tick := ev_tick (event z) + 1\<rparr>\<rparr>) =
      Inr (z\<lparr>event := (event z)\<lparr>ev_tick := ev_tick (event z) + 1 + of_nat n\<rparr>\<rparr>)"
    using Suc.IH [of "z\<lparr>event := (event z)\<lparr>ev_tick := ev_tick (event z) + 1\<rparr>\<rparr>"] Suc.prems by simp
  then show ?case by (simp add: p add.assoc)
qed simp

lemma poll_finishes:
  assumes "ev_event (event z) \<noteq> ZB_EVENT_NONE"
    and "ev_tick (event z) < ev_timeout (event z)" and "ev_timeout (event z) \<le> ev_tick (event z) + ts"
  shows "zigbee_poll z ts = zb_finish (z\<lparr>event := (event z)\<lparr>ev_tick := ev_tick (event z) + ts\<rparr>\<rparr>)"
  using assms by (simp add: zigbee_poll_def Let_def)

text \<open>The structure as the C runtime clears it.\<close>

definition zigbee_bss :: "('cb, 'arg) ZigbeeMesh" where
  "zigbee_bss =
     \<lparr>param = param_zero, event = event_zero, event_tmp = event_zero,
      event_queue = cqueue_init_static [] 0 0, fw_version = [0, 0], zb_buff = replicate 1024 0,
      buff_len = 0, time_reset = 0, zb_rx = [], zb_tx = [], zb_calls = []\<rparr>"

definition zb_idle :: "('cb, 'arg) ZigbeeMesh \<Rightarrow> bool" where
  "zb_idle z \<longleftrightarrow> zb_inv z \<and> ev_event (event z) = ZB_EVENT_NONE \<and> q_count (event_queue z) = 0 \<and>
     (\<exists>n<10. zb_queue_after n (event_queue z))"

lemma idle_init: "2 \<le> sz \<Longrightarrow> zb_idle (zigbee_init sz zigbee_bss)"
  using zb_queue_init [of sz "zigbee_bss"]
  by (auto simp: zb_idle_def zb_inv_def zigbee_init_def zigbee_bss_def event_zero_def param_ok_def
      param_zero_def cqueue_init_static_def intro!: exI [of _ 0])

text \<open>A request on an idle driver goes out with the next poll and starts its timer.\<close>

fun zb_command :: "ZigbeeEventType \<Rightarrow> ZigbeeParameter \<Rightarrow> u8 list res" where
  "zb_command ZB_EVENT_NONE p = Inr []"
| "zb_command ZB_EVENT_LINK_MODULE p = Inr linkIns"
| "zb_command ZB_EVENT_READ_MODULE p = Inr readIns"
| "zb_command ZB_EVENT_WRITE_MODULE p = zigbeeGetWriteIns p"
| "zb_command ZB_EVENT_RESET_MODULE p = Inr restartIns"
| "zb_command ZB_EVENT_ENTER_LOWPOWER p = Inr enterLowPowerIns"
| "zb_command ZB_EVENT_GET_POSITION p = Inr requestSignalIns"
| "zb_command ZB_EVENT_QUERY_POS p = Inr queryEndDevicePosition"

lemma start_command:
  "ev_event (event z) \<noteq> ZB_EVENT_NONE \<Longrightarrow>
   zb_start z ts = bindR (zb_command (ev_event (event z)) (param z)) (\<lambda>c. Inr (drv_write z c))"
  by (cases "ev_event (event z)") (simp_all add: zb_start_def)

lemma request_goes_out:
  assumes "zb_idle z" and "e \<noteq> ZB_EVENT_NONE" and "1 < t" and "zb_command e (param z) = Inr c"
  shows "\<exists>z1 q. zigbee_send_event z e t cb arg = Inr z1 \<and> q_count q = 0 \<and>
    zigbee_poll z1 1 = Inr (z\<lparr>event_tmp := \<lparr>ev_timeout = t, ev_tick = 0, ev_event = e, ev_arg = arg, ev_cb = cb\<rparr>,
      event_queue := q, zb_tx := zb_tx z @ c,
      event := \<lparr>ev_timeout = t, ev_tick = 1, ev_event = e, ev_arg = arg, ev_cb = cb\<rparr>\<rparr>)"
proof -
  let ?ev = "\<lparr>ev_timeout = t, ev_tick = 0, ev_event = e, ev_arg = arg, ev_cb = cb\<rparr>"
  obtain n where n: "n < 10" "zb_queue_after n (event_queue z)" "q_count (event_queue z) = 0"
    and idle: "ev_event (event z) = ZB_EVENT_NONE"
    using assms(1) by (auto simp: zb_idle_def)
  obtain q1 where q1: "cqueue_send (event_queue z) ?ev = Inr (q1, True)" "zb_queue_after (Suc n) q1"
    "q_buff q1 = (q_buff (event_queue z))[n := ?ev]" "q_count q1 = 1" "q_tail q1 = q_tail (event_queue z)"
    using zb_queue_send [OF n(2,1), of ?ev] n(3) by auto
  have "q_tail q1 = n" "length (q_buff (event_queue z)) = 10" using n(2,3) q1(5) by (simp_all add: zb_queue_after_def)
  then have item: "q_buff q1 ! q_tail q1 = ?ev" using n(1) q1(3) by simp
  obtain q2 where q2: "cqueue_receive q1 = Inr (q2, Some ?ev)" "q_count q2 = 0"
    using zb_queue_receive [OF q1(2)] q1(4) item by auto
  let ?z1 = "z\<lparr>event_tmp := ?ev, event_queue := q1\<rparr>"
  have "zigbee_send_event z e t cb arg = Inr ?z1" using q1(1) by (simp add: zigbee_send_event_def)
  moreover have "0 < t" "\<not> t \<le> 1" using assms(3) by (simp_all add: word_less_nat_alt word_le_nat_alt)
  then have "zigbee_poll ?z1 1 = Inr (z\<lparr>event_tmp := ?ev, event_queue := q2, zb_tx := zb_tx z @ c,
      event := ?ev\<lparr>ev_tick := 1\<rparr>\<rparr>)"
    using idle q1(4) q2(1) assms(2,4)
    by (simp add: zigbee_poll_def start_command drv_write_def Let_def)
  ultimately show ?thesis using q2(2) by auto
qed

text \<open>The answer to a read command, when its time is up.\<close>

lemma finish_read:
  assumes "zb_inv z" and "ev_event (event z) = ZB_EVENT_READ_MODULE" and "zb_rx z = read_response k p"
    and "param_ok p" and "ev_cb (event z) = Some cb"
  shows "\<exists>z'. zb_finish z = Inr z' \<and> param z' = p \<and> ev_event (event z') = ZB_EVENT_NONE \<and> zb_tx z' = zb_tx z \<and>
    zb_calls z' = zb_calls z @ [(cb, ZIGBEE_RES_SUCCESS, ev_arg (event z))] \<and> zb_rx z' = []"
proof -
  have l: "length (read_response k p) = 53" by (rule length_read_response [OF assms(4)])
  define body where "body = [0xFA, 0x31, 0x0A, k] @ response_fields p"
  have r: "read_response k p = body @ [sum_bytes body]" by (simp add: read_response_def body_def Let_def)
  have lb: "length body = 52" using l by (simp add: r)
  define buf where "buf = blit 0 (read_response k p) (zb_buff z)"
  have b: "length (zb_buff z) = 1024" using assms(1) by (simp add: zb_inv_def)
  have buf: "buf = read_response k p @ drop 53 (zb_buff z)" by (simp add: buf_def blit_def l)
  have "take 52 buf = body" "buf ! 52 = sum_bytes body" by (simp_all add: buf r lb nth_append)
  moreover have "buf ! 0 = 0xFA" "buf ! 1 = 0x31" "buf ! 2 = 0x0A" by (simp_all add: buf r body_def)
  moreover have "length buf = 1024" using b l by (simp add: buf)
  moreover from this have "buf \<noteq> []" by auto
  ultimately have "zb_right z' 0x31 53 = Inr True" if "zb_buff z' = buf" for z' :: "('a, 'b) ZigbeeMesh"
    using that by (simp add: zb_right_def zigbeeGetXY_ok zb_last_def)
  moreover have "param_of buf = p" unfolding buf by (rule param_of_response [OF assms(4)])
  moreover have "unat (53 :: u32) = 53" by simp
  ultimately show ?thesis
    using assms(2,3,5) b l \<open>length buf = 1024\<close>
    by (simp add: zb_finish_def Let_def ZIGBEE_BUFFER_SIZE_def drv_read_def zb_process_def
        zigbeeReadProcess_def readHeaderLen_def buf_def [symmetric] zb_call_def
        ZIGBEE_RES_SUCCESS_def ZIGBEE_RES_FAIL_def)
qed

section \<open>Properties\<close>

text \<open>A read request, from the call to the callback. On an idle driver the read command goes out
  with the first poll; for 999 polls of one millisecond nothing else happens; if by the next
  poll the module has answered with its parameters, in the frame the data sheet gives, every
  field of the driver's copy is the module's, and the callback is told of the success.\<close>

lemma zigbee_read_answered:
  assumes "zb_idle z" and "param_ok p"
  shows "\<exists>z1 z2 z3. zigbee_read_module z (Some cb) arg = Inr z1 \<and> zb_polls 999 1 z1 = Inr z2 \<and>
    zb_tx z2 = zb_tx z @ readIns \<and> zb_calls z2 = zb_calls z \<and> param z2 = param z \<and>
    zigbee_poll (z2\<lparr>zb_rx := read_response k p\<rparr>) 1 = Inr z3 \<and> param z3 = p \<and>
    zb_calls z3 = zb_calls z @ [(cb, ZIGBEE_RES_SUCCESS, arg)] \<and> zb_tx z3 = zb_tx z2 \<and>
    ev_event (event z3) = ZB_EVENT_NONE"
proof -
  let ?ev = "\<lambda>k. \<lparr>ev_timeout = 1000, ev_tick = k, ev_event = ZB_EVENT_READ_MODULE, ev_arg = arg, ev_cb = Some cb\<rparr>"
  have "(1 :: u32) < 1000" by simp
  from request_goes_out [OF assms(1) _ this, of ZB_EVENT_READ_MODULE readIns "Some cb" arg]
  obtain z1 q where z1: "zigbee_read_module z (Some cb) arg = Inr z1"
    "zigbee_poll z1 1 = Inr (z\<lparr>event_tmp := ?ev 0, event_queue := q, zb_tx := zb_tx z @ readIns, event := ?ev 1\<rparr>)"
    by (auto simp: zigbee_read_module_def)
  let ?w = "\<lambda>k. z\<lparr>event_tmp := ?ev 0, event_queue := q, zb_tx := zb_tx z @ readIns, event := ?ev k\<rparr>"
  have w: "zb_polls 998 1 (?w 1) = Inr (?w 999)"
    using polls_wait [of "?w 1" 998] by simp
  have z2: "zb_polls 999 1 z1 = Inr (?w 999)"
  proof -
    have "zb_polls (Suc 998) 1 z1 = Inr (?w 999)" by (simp only: zb_polls.simps z1(2) bindR.simps w)
    then show ?thesis by simp
  qed
  let ?x = "(?w 999)\<lparr>zb_rx := read_response k p\<rparr>"
  have fin: "zigbee_poll ?x 1 = zb_finish (?x\<lparr>event := ?ev 1000\<rparr>)"
    using poll_finishes [of ?x 1] by simp
  have "zb_inv (?x\<lparr>event := ?ev 1000\<rparr>)" using assms(1) by (simp add: zb_idle_def zb_inv_def)
  from finish_read [OF this _ _ assms(2), of k cb] obtain z3 where
    "zb_finish (?x\<lparr>event := ?ev 1000\<rparr>) = Inr z3" "param z3 = p" "ev_event (event z3) = ZB_EVENT_NONE"
    "zb_tx z3 = zb_tx z @ readIns" "zb_calls z3 = zb_calls z @ [(cb, ZIGBEE_RES_SUCCESS, arg)]" by auto
  with fin have "zigbee_poll ?x 1 = Inr z3" by simp
  with z1(1) z2 \<open>param z3 = p\<close> \<open>ev_event (event z3) = ZB_EVENT_NONE\<close> \<open>zb_tx z3 = zb_tx z @ readIns\<close>
    \<open>zb_calls z3 = zb_calls z @ [(cb, ZIGBEE_RES_SUCCESS, arg)]\<close>
  show ?thesis by (intro exI [of _ z1] exI [of _ "?w 999"] exI [of _ z3]) simp
qed

lemma zigbee_read_answered_example:
  "\<exists>z1 z2 z3. zigbee_read_module (zigbee_init 20 (zigbee_bss :: (nat, nat) ZigbeeMesh)) (Some 7) None = Inr z1 \<and>
    zb_polls 999 1 z1 = Inr z2 \<and> zb_tx z2 = readIns \<and>
    zigbee_poll (z2\<lparr>zb_rx := read_response 0 (param_zero\<lparr>PAN_ID := 0x1234\<rparr>)\<rparr>) 1 = Inr z3 \<and>
    param z3 = param_zero\<lparr>PAN_ID := 0x1234\<rparr> \<and> zb_calls z3 = [(7, 1, None)]"
proof -
  have i: "zb_idle (zigbee_init 20 (zigbee_bss :: (nat, nat) ZigbeeMesh))" by (rule idle_init) simp
  have p: "param_ok (param_zero\<lparr>PAN_ID := 0x1234\<rparr>)" by (simp add: param_ok_def param_zero_def)
  show ?thesis
    using zigbee_read_answered [OF i p, of 7 None 0]
    by (auto simp: zigbee_init_def zigbee_bss_def ZIGBEE_RES_SUCCESS_def)
qed

lemma write_ins_ok:
  assumes "length (securityCode p) = 4"
  shows "zigbeeGetWriteIns p = Inr ([0xFC, 0x27, 0x07] @ write_fields p @ securityCode p @
    [sum_bytes ([0xFC, 0x27, 0x07] @ write_fields p @ securityCode p)])"
proof -
  obtain c0 c1 c2 c3 where c: "securityCode p = [c0, c1, c2, c3]"
    using assms by (auto simp: numeral_eq_Suc length_Suc_conv)
  let ?body = "[0xFC, 0x27, 0x07] @ write_fields p @ [c0, c1, c2, c3]"
  have "length ?body = 41" by (simp add: write_fields_def)
  then have "zigbeeGetXY (?body @ [0]) writeInsLen = Inr (sum_bytes ?body)"
    using zigbeeGetXY_ok [of writeInsLen "?body @ [0]"] by (simp add: writeInsLen_def)
  then show ?thesis by (simp add: zigbeeGetWriteIns_def c)
qed

lemma fixed_commands_sum:
  "c \<in> {linkIns, restartIns, readIns, queryEndDevicePosition, requestSignalIns, enterLowPowerIns} \<Longrightarrow>
   last c = sum_bytes (butlast c)"
  by (auto simp: sum_bytes_def linkIns_def restartIns_def readIns_def queryEndDevicePosition_def
      requestSignalIns_def enterLowPowerIns_def)

lemma unat_sum_bytes: "unat (sum_bytes bs) = sum_list (map unat bs) mod 256"
proof -
  have "unat (foldl (+) s bs) = (unat s + sum_list (map unat bs)) mod 256" for s :: u8
  proof (induction bs arbitrary: s)
    case (Cons b bs)
    have "unat (s + b) = (unat s + unat b) mod 256" by (simp add: unat_word_ariths)
    then show ?case using Cons.IH [of "s + b"] by (simp add: mod_add_left_eq add.assoc)
  next
    case Nil
    have "unat s < 256" using unsigned_less [where 'a = nat and w = s] by simp
    then show ?case by simp
  qed
  from this [of 0] show ?thesis by (simp add: sum_bytes_def)
qed

lemma unat_scaled: "unat (h * 256 + l :: u16) = (unat h * 256 + unat l) mod 65536"
  by (simp add: unat_word_ariths mod_add_left_eq)

lemma be_value: "256 * unat (hi_byte w) + unat (lo_byte w) = unat w"
proof -
  have l: "unat (b :: u8) < 256" for b using unsigned_less [where 'a = nat and w = b] by simp
  have u: "unat (ucast b :: u16) = unat (b :: u8)" for b 
    using l [of b] by (simp add: unsigned_ucast_eq take_bit_nat_eq_self)
  have "w = ucast (hi_byte w) * 256 + ucast (lo_byte w)"
    using zb_u16_be16 [of "hi_byte w" "lo_byte w"] by (simp add: zb_u16_def)
  then have "unat w = (unat (hi_byte w) * 256 + unat (lo_byte w)) mod 65536"
    by (metis unat_scaled u)
  then show ?thesis using l [of "hi_byte w"] l [of "lo_byte w"] by simp
qed

text \<open>C31: The write command, byte by byte as the module expects it: 42 bytes with the header FC 27 07; the
  one-byte parameters and the two-byte parameters, high byte first, at the places that are listed; a constant one
  and the security flag; the four bytes of the security code; and the sum of all bytes before it
  as the last byte. (The address, the short address and the byte X42 of the module are not part of the frame.)\<close>

theorem zigbee_write_frame:
  assumes "length (securityCode p) = 4"
  shows "\<exists>ins. zigbeeGetWriteIns p = Inr ins \<and> length ins = 42 \<and> take 3 ins = [0xFC, 0x27, 0x07] \<and>
    map ((!) ins) [3, 6, 7, 12, 13, 14, 15, 18] =
      [pointType p, Channel p, transferModel p, uartBraudRate p, uartDataBits p, uartStopBits p, uartParity p,
       antennaSelect p] \<and>
    map ((!) ins) [19, 22, 23, 28, 29, 30, 31, 34] =
      [prePointType p, preChannel p, preTransferModel p, preUartBraudRate p, preUartDataBits p, preUartStopBits p,
       preUartParity p, preAntennaSelect p] \<and>
    map (\<lambda>i. 256 * unat (ins ! i) + unat (ins ! (i + 1))) [4, 8, 10, 16, 20, 24, 26, 32] =
      map unat [PAN_ID p, userAddress p, X7X8 p, X13X14 p, prePAN_ID p, preUserAddress p, X31X32 p, X37X38 p] \<and>
    ins ! 35 = 1 \<and> ins ! 36 = isSecurity p \<and> take 4 (drop 37 ins) = securityCode p \<and>
    unat (ins ! 41) = sum_list (map unat (take 41 ins)) mod 256"
proof -
  let ?body = "[0xFC, 0x27, 0x07] @ write_fields p @ securityCode p"
  have l: "length (write_fields p) = 34" "length ?body = 41" using assms by (simp_all add: write_fields_def)
  have f: "(?body @ [s]) ! (3 + k) = write_fields p ! k" if "k < 34" for k s
    using that l(1) by (simp add: nth_append)
  note at = f [of 0] f [of 1] f [of 2] f [of 3] f [of 4] f [of 5] f [of 6] f [of 7] f [of 8] f [of 9] f [of 10]
    f [of 11] f [of 12] f [of 13] f [of 14] f [of 15] f [of 16] f [of 17] f [of 18] f [of 19] f [of 20] f [of 21]
    f [of 22] f [of 23] f [of 24] f [of 25] f [of 26] f [of 27] f [of 28] f [of 29] f [of 30] f [of 31] f [of 32] f [of 33]
  define s where "s = sum_bytes ?body"
  define ins where "ins = ?body @ [s]"
  have i: "zigbeeGetWriteIns p = Inr ins" using write_ins_ok [OF assms] by (simp add: ins_def s_def)
  have "take 41 ins = ?body" unfolding ins_def using l(2) by (metis append_eq_conv_conj)
  moreover have "ins ! 41 = s" unfolding ins_def using l(2) by (metis nth_append_length)
  ultimately have "unat (ins ! 41) = sum_list (map unat (take 41 ins)) mod 256" by (simp only: s_def unat_sum_bytes)
  moreover have "length ins = 42" "take 3 ins = [0xFC, 0x27, 0x07]" using l(2) by (simp_all add: ins_def)
  moreover have "take 4 (drop 37 ins) = securityCode p" using l(1) assms by (simp add: ins_def)
  moreover have "map ((!) ins) [3, 6, 7, 12, 13, 14, 15, 18] =
      [pointType p, Channel p, transferModel p, uartBraudRate p, uartDataBits p, uartStopBits p, uartParity p,
       antennaSelect p]" "map ((!) ins) [19, 22, 23, 28, 29, 30, 31, 34] =
      [prePointType p, preChannel p, preTransferModel p, preUartBraudRate p, preUartDataBits p, preUartStopBits p,
       preUartParity p, preAntennaSelect p]" "ins ! 35 = 1" "ins ! 36 = isSecurity p"
    using at by (simp_all add: ins_def write_fields_def)
  moreover have "map (\<lambda>i. 256 * unat (ins ! i) + unat (ins ! (i + 1))) [4, 8, 10, 16, 20, 24, 26, 32] =
      map unat [PAN_ID p, userAddress p, X7X8 p, X13X14 p, prePAN_ID p, preUserAddress p, X31X32 p, X37X38 p]"
    using at by (simp add: ins_def write_fields_def be_value)
  ultimately show ?thesis using i by (intro exI [of _ ins] conjI)
qed

theorem zigbee_write_frame_witness:
  "\<exists>ins. zigbeeGetWriteIns (param_zero\<lparr>PAN_ID := 0x1234, securityCode := [1, 2, 3, 4]\<rparr>) = Inr ins \<and> length ins = 42 \<and>
    256 * unat (ins ! 4) + unat (ins ! 5) = 0x1234 \<and> take 4 (drop 37 ins) = [1, 2, 3, 4]"
  using zigbee_write_frame [of "param_zero\<lparr>PAN_ID := 0x1234, securityCode := [1, 2, 3, 4]\<rparr>"] by auto

text \<open>Ten requests fit.\<close>

lemma requests_run:
  assumes "n \<le> 10" and "2 \<le> sz"
  shows "\<exists>z :: ('cb, 'arg) ZigbeeMesh. zb_run (zigbee_init sz z0) n z"
  using assms(1)
proof (induction n)
  case 0
  show ?case by (blast intro: zb_run.zb_start)
next
  case (Suc n)
  then obtain z :: "('cb, 'arg) ZigbeeMesh" where z: "zb_run (zigbee_init sz z0) n z" by auto
  let ?ev = "\<lparr>ev_timeout = 300, ev_tick = 0, ev_event = ZB_EVENT_LINK_MODULE, ev_arg = None, ev_cb = None\<rparr>"
  obtain q where "cqueue_send (event_queue z) ?ev = Inr (q, True)"
    using zb_queue_send [OF run_queue [OF z assms(2)], of ?ev] Suc.prems by auto
  then have "zigbee_send_event z ZB_EVENT_LINK_MODULE 300 None None = Inr (z\<lparr>event_tmp := ?ev, event_queue := q\<rparr>)"
    by (simp add: zigbee_send_event_def)
  with z show ?case by (blast intro: zb_run.zb_request)
qed

text \<open>C33: The eleventh request overruns the event list. The queue is declared for as many events as the
  list has bytes, so its head never wraps: whatever is polled and answered in between, after ten
  requests the next one is stored behind the list.\<close>

theorem zigbee_eleventh_request:
  assumes "zb_run (zigbee_init sz z0) 10 z" and "2 \<le> sz"
  shows "zigbee_connect z cb arg = Inl Out_Of_Bounds \<and> zigbee_read_module z cb arg = Inl Out_Of_Bounds \<and>
    zigbee_reset_module z cb arg = Inl Out_Of_Bounds \<and> zigbee_request_signal z cb arg = Inl Out_Of_Bounds \<and>
    q_count (event_queue z) \<le> 10"
proof -
  have q: "zb_queue_after 10 (event_queue z)" by (rule run_queue [OF assms])
  then have "zigbee_send_event z e t cb arg = Inl Out_Of_Bounds" for e t
    by (simp add: zigbee_send_event_def zb_queue_overrun)
  moreover have "q_count (event_queue z) \<le> 10" using q by (simp add: zb_queue_after_def)
  ultimately show ?thesis
    by (simp add: zigbee_connect_def zigbee_read_module_def zigbee_reset_module_def zigbee_request_signal_def)
qed

theorem zigbee_eleventh_request_witness:
  "\<exists>z. zb_run (zigbee_init 20 (zigbee_bss :: (nat, nat) ZigbeeMesh)) 10 z \<and>
    zigbee_connect z (Some 7) None = Inl Out_Of_Bounds"
proof -
  obtain z where z: "zb_run (zigbee_init 20 (zigbee_bss :: (nat, nat) ZigbeeMesh)) 10 z"
    using requests_run [of 10 20] by auto
  then show ?thesis using zigbee_eleventh_request [OF z, of "Some 7" None] by auto
qed

end
