(* ===== verification/Zigbee_Life.thy ===== *)
theory Zigbee_Life
  imports Zigbee
begin

text \<open>
  What becomes of a request to the Zigbee module: an event always closes when its time is up,
  whatever the module sends, and the bytes that arrived decide which calls are made.
\<close>

section \<open>How an answer is judged\<close>

text \<open>The second byte of the answer each kind of request expects.\<close>

fun zb_code :: "ZigbeeEventType \<Rightarrow> u8" where
  "zb_code ZB_EVENT_READ_MODULE = 0x31"
| "zb_code ZB_EVENT_WRITE_MODULE = 0x01"
| "zb_code ZB_EVENT_GET_POSITION = 0x04"
| "zb_code _ = 0x06"

definition zb_accepts :: "ZigbeeEventType \<Rightarrow> u8 \<Rightarrow> u8 list \<Rightarrow> nat \<Rightarrow> bool" where
  "zb_accepts e before buf n \<longleftrightarrow>
     (case e of ZB_EVENT_QUERY_POS \<Rightarrow> True | ZB_EVENT_NONE \<Rightarrow> False | ZB_EVENT_ENTER_LOWPOWER \<Rightarrow> False
      | _ \<Rightarrow> buf ! 0 = 0xFA \<and> buf ! 1 = zb_code e \<and> buf ! 2 = 0x0A \<and>
         (if n = 0 then before else buf ! (n - 1)) = sum_bytes (take (n - 1) buf))"

lemma right_total:
  assumes "zb_inv z" and "n \<le> 1024"
  shows "zb_right z c n = Inr (zb_buff z ! 0 = 0xFA \<and> zb_buff z ! 1 = c \<and> zb_buff z ! 2 = 0x0A \<and>
    (if n = 0 then fw_version z ! 1 else zb_buff z ! (n - 1)) = sum_bytes (take (n - 1) (zb_buff z)))"
  using assms by (cases n) (auto simp: zb_right_def zb_inv_def zigbeeGetXY_ok zb_last_def)

lemma param_ok_of: "param_ok (param_of bs)"
  by (simp add: param_of_def param_ok_def Let_def)

abbreviation zb_accepted :: "('cb, 'arg) ZigbeeMesh \<Rightarrow> bool" where
  "zb_accepted z \<equiv> zb_accepts (ev_event (event z)) (fw_version z ! 1) (zb_buff z) (unat (buff_len z))"

lemma right_accepts:
  assumes "zb_inv z" and "unat (buff_len z) \<le> 1024"
    and "ev_event (event z) \<notin> {ZB_EVENT_NONE, ZB_EVENT_ENTER_LOWPOWER, ZB_EVENT_QUERY_POS}"
  shows "zb_right z (zb_code (ev_event (event z))) (unat (buff_len z)) = Inr (zb_accepted z)"
  using assms(3) unfolding right_total [OF assms(1,2)]
  by (cases "ev_event (event z)") (simp_all only: zb_accepts_def ZigbeeEventType.simps insert_iff simp_thms)

text \<open>The answer is judged without a fault; it changes the parameters (a read) or the version (a
  connect) only, and never the byte in front of the buffer.\<close>

lemma process_total:
  assumes "zb_inv z" and "unat (buff_len z) \<le> 1024"
  shows "\<exists>p v. zb_process z =
      Inr (z\<lparr>param := p, fw_version := v\<rparr>, if zb_accepted z then ZIGBEE_RES_SUCCESS else ZIGBEE_RES_FAIL) \<and>
      param_ok p \<and> length v = 2 \<and> v ! 1 = fw_version z ! 1 \<and>
      (ev_event (event z) \<noteq> ZB_EVENT_READ_MODULE \<longrightarrow> p = param z)"
proof -
  have len: "length (zb_buff z) = 1024" "length (fw_version z) = 2" "param_ok (param z)"
    using assms(1) by (simp_all add: zb_inv_def)
  note right = right_accepts [OF assms]
  have same: "\<exists>p v. Inr (z, r) = Inr (z\<lparr>param := p, fw_version := v\<rparr>, r) \<and> param_ok p \<and> length v = 2 \<and>
      v ! 1 = fw_version z ! 1 \<and> (ev_event (event z) \<noteq> ZB_EVENT_READ_MODULE \<longrightarrow> p = param z)" for r :: u8
    using len by (intro exI [of _ "param z"] exI [of _ "fw_version z"]) simp
  show ?thesis
  proof (cases "ev_event (event z)")
    case ZB_EVENT_LINK_MODULE
    show ?thesis
    proof (cases "zb_accepted z")
      case True
      let ?v = "(fw_version z)[0 := word_of_nat ((unat (zb_buff z ! 7) * 256 + unat (zb_buff z ! 8)) div 10)]"
      have "zb_process z = Inr (z\<lparr>param := param z, fw_version := ?v\<rparr>, ZIGBEE_RES_SUCCESS)"
        using right len ZB_EVENT_LINK_MODULE True by (simp add: zb_process_def zigbee_connect_process_def)
      then show ?thesis using len True by (intro exI [of _ "param z"] exI [of _ ?v]) simp
    qed (use right ZB_EVENT_LINK_MODULE same [of ZIGBEE_RES_FAIL] in
        \<open>simp add: zb_process_def zigbee_connect_process_def\<close>)
  next
    case ZB_EVENT_READ_MODULE
    show ?thesis
    proof (cases "zb_accepted z")
      case True
      have "zb_process z = Inr (z\<lparr>param := param_of (zb_buff z), fw_version := fw_version z\<rparr>, ZIGBEE_RES_SUCCESS)"
        using right len ZB_EVENT_READ_MODULE True
        by (simp add: zb_process_def zigbeeReadProcess_def readHeaderLen_def)
      then show ?thesis using len True ZB_EVENT_READ_MODULE param_ok_of
        by (intro exI [of _ "param_of (zb_buff z)"] exI [of _ "fw_version z"]) simp
    qed (use right ZB_EVENT_READ_MODULE same [of ZIGBEE_RES_FAIL] in
        \<open>simp add: zb_process_def zigbeeReadProcess_def\<close>)
  qed (use same right in
     \<open>simp_all add: zb_process_def zigbee_write_process_def zigbee_reset_process_def
        zigbee_request_signal_process_def zigbee_query_ed_process_def zb_accepts_def\<close>)
qed

section \<open>The end of the wait\<close>

text \<open>The bytes the judgement sees: what was read, in front of what the buffer held.\<close>

definition zb_seen :: "('cb, 'arg) ZigbeeMesh \<Rightarrow> u8 list" where
  "zb_seen z = blit 0 (take 1024 (zb_rx z)) (zb_buff z)"

text \<open>The results the callback is given: a timeout if nothing arrived, and a success if the
  judgement accepts, which may be both.\<close>

definition zb_outcome :: "ZigbeeEventType \<Rightarrow> u8 \<Rightarrow> u8 list \<Rightarrow> u8 list \<Rightarrow> u8 list" where
  "zb_outcome e before buf arrived =
     (if arrived = [] then [ZIGBEE_RES_TIMEOUT] else []) @
     (if zb_accepts e before (blit 0 (take 1024 arrived) buf) (min (length arrived) 1024)
      then [ZIGBEE_RES_SUCCESS] else [])"

abbreviation zb_verdict :: "('cb, 'arg) ZigbeeMesh \<Rightarrow> u8 list" where
  "zb_verdict z \<equiv> zb_outcome (ev_event (event z)) (fw_version z ! 1) (zb_buff z) (zb_rx z)"

lemma finish_total:
  assumes "zb_inv z" and "ev_cb (event z) = Some cb"
  shows "\<exists>z'. zb_finish z = Inr z' \<and> zb_inv z' \<and> ev_event (event z') = ZB_EVENT_NONE \<and>
    event_queue z' = event_queue z \<and> zb_tx z' = zb_tx z \<and> zb_rx z' = drop 1024 (zb_rx z) \<and>
    fw_version z' ! 1 = fw_version z ! 1 \<and> zb_buff z' = zb_seen z \<and>
    zb_calls z' = zb_calls z @ map (\<lambda>r. (cb, r, ev_arg (event z))) (zb_verdict z)"
proof -
  define n where "n = min (length (zb_rx z)) 1024"
  define t where "t = (if zb_rx z = [] then [ZIGBEE_RES_TIMEOUT] else [])"
  define z3 where "z3 = z\<lparr>buff_len := word_of_nat n, event := (event z)\<lparr>ev_tick := 0\<rparr>, zb_buff := zb_seen z,
    zb_rx := drop 1024 (zb_rx z), zb_calls := zb_calls z @ map (\<lambda>r. (cb, r, ev_arg (event z))) t\<rparr>"
  have len: "length (zb_buff z) = 1024" using assms(1) by (simp add: zb_inv_def)
  have tn: "take n (zb_rx z) = take 1024 (zb_rx z)" "drop n (zb_rx z) = drop 1024 (zb_rx z)"
    by (simp_all add: n_def min_def)
  have n: "n \<le> 1024" "unat (word_of_nat n :: u32) = n" "n = 0 \<longleftrightarrow> zb_rx z = []"
    by (auto simp: n_def unat_of_nat min_def)
  have inv: "zb_inv z3" using assms(1) len by (simp add: z3_def zb_inv_def zb_seen_def)
  have z3: "z3 = (if n = 0 then zb_call (z\<lparr>buff_len := word_of_nat n, event := (event z)\<lparr>ev_tick := 0\<rparr>\<rparr>) ZIGBEE_RES_TIMEOUT
      else z\<lparr>buff_len := word_of_nat n, event := (event z)\<lparr>ev_tick := 0\<rparr>, zb_buff := zb_seen z, zb_rx := drop 1024 (zb_rx z)\<rparr>)"
    using n(3) assms(2) by (auto simp: z3_def zb_call_def t_def zb_seen_def)
  have acc: "zb_accepted z3 \<longleftrightarrow> zb_accepts (ev_event (event z)) (fw_version z ! 1) (zb_seen z) n"
    using n(2) by (simp add: z3_def)
  have "unat (buff_len z3) \<le> 1024" using n by (simp add: z3_def)
  from process_total [OF inv this] obtain p v where pv:
    "zb_process z3 = Inr (z3\<lparr>param := p, fw_version := v\<rparr>, if zb_accepted z3 then ZIGBEE_RES_SUCCESS else ZIGBEE_RES_FAIL)"
    "param_ok p" "length v = 2" "v ! 1 = fw_version z3 ! 1" by blast
  define z5 where "z5 = (if zb_accepted z3 then zb_call (z3\<lparr>param := p, fw_version := v\<rparr>) ZIGBEE_RES_SUCCESS
    else z3\<lparr>param := p, fw_version := v\<rparr>)"
  have "zb_finish z = Inr (z5\<lparr>buff_len := 0, event := (event z5)\<lparr>ev_tick := 0, ev_event := ZB_EVENT_NONE\<rparr>\<rparr>)"
    using n len tn pv(1) z3
    by (simp add: zb_finish_def Let_def ZIGBEE_BUFFER_SIZE_def n_def [symmetric] drv_read_def zb_seen_def
        z5_def ZIGBEE_RES_SUCCESS_def ZIGBEE_RES_FAIL_def split: if_splits)
  moreover have "zb_calls z5 = zb_calls z @ map (\<lambda>r. (cb, r, ev_arg (event z))) (zb_verdict z)"
    using assms(2) acc by (simp add: z5_def zb_call_def z3_def zb_outcome_def zb_seen_def t_def n_def)
  moreover have "zb_inv z5" "event_queue z5 = event_queue z" "zb_tx z5 = zb_tx z" "zb_rx z5 = drop 1024 (zb_rx z)"
    "fw_version z5 ! 1 = fw_version z ! 1" "zb_buff z5 = zb_seen z"
    using inv pv by (auto simp: z5_def zb_call_def zb_inv_def z3_def split: option.splits)
  ultimately show ?thesis by (auto simp: zb_inv_def)
qed

section \<open>A request from the call to its end\<close>

text \<open>Polls of one millisecond, each with the bytes that arrived before it.\<close>

fun zb_feed :: "u8 list list \<Rightarrow> ('cb, 'arg) ZigbeeMesh \<Rightarrow> ('cb, 'arg) ZigbeeMesh res" where
  "zb_feed [] z = Inr z"
| "zb_feed (bs # bss) z = bindR (zigbee_poll (z\<lparr>zb_rx := zb_rx z @ bs\<rparr>) 1) (zb_feed bss)"

lemma zb_feed_append: "zb_feed (xs @ ys) z = bindR (zb_feed xs z) (zb_feed ys)"
proof (induction xs arbitrary: z)
  case (Cons x xs)
  show ?case by (cases "zigbee_poll (z\<lparr>zb_rx := zb_rx z @ x\<rparr>) 1") (simp_all add: Cons.IH)
qed simp

lemma feed_queue:
  "zb_feed bss z = Inr z' \<Longrightarrow> zb_queue_after n (event_queue z) \<Longrightarrow> zb_queue_after n (event_queue z')"
proof (induction bss arbitrary: z)
  case (Cons bs bss)
  from Cons.prems obtain z1 where z1: "zigbee_poll (z\<lparr>zb_rx := zb_rx z @ bs\<rparr>) 1 = Inr z1" "zb_feed bss z1 = Inr z'"
    by (auto simp: bindR_eq_Inr)
  have "zb_queue_after n (event_queue z1)" using poll_queue [OF z1(1)] Cons.prems(2) by simp
  then show ?case by (rule Cons.IH [OF z1(2)])
qed simp

lemma feed_waits:
  assumes "ev_event (event z) \<noteq> ZB_EVENT_NONE"
    and "unat (ev_tick (event z)) + length bss < unat (ev_timeout (event z))"
  shows "zb_feed bss z = Inr (z\<lparr>zb_rx := zb_rx z @ concat bss,
    event := (event z)\<lparr>ev_tick := ev_tick (event z) + of_nat (length bss)\<rparr>\<rparr>)"
  using assms
proof (induction bss arbitrary: z)
  case (Cons bs bss)
  let ?z = "z\<lparr>zb_rx := zb_rx z @ bs\<rparr>"
  have p: "zigbee_poll ?z 1 = Inr (?z\<lparr>event := (event z)\<lparr>ev_tick := ev_tick (event z) + 1\<rparr>\<rparr>)"
    using Cons.prems poll_waits [of ?z 1] by simp
  have "unat (ev_timeout (event z)) < 2 ^ 32" using unsigned_less [where ?'a = nat and w = "ev_timeout (event z)"] by simp
  then have "unat (ev_tick (event z) + 1) = unat (ev_tick (event z)) + 1"
    using Cons.prems(2) by (simp add: unat_plus_if')
  then show ?case
    using Cons.IH [of "?z\<lparr>event := (event z)\<lparr>ev_tick := ev_tick (event z) + 1\<rparr>\<rparr>"] Cons.prems
    by (simp add: p add.assoc)
qed simp

text \<open>
  The driver at rest after \<open>n\<close> requests: no event is open and none waits. It is ready for one
  more as long as the event list, which holds ten, has room.
\<close>

definition zb_rests :: "nat \<Rightarrow> ('cb, 'arg) ZigbeeMesh \<Rightarrow> bool" where
  "zb_rests n z \<longleftrightarrow> zb_inv z \<and> ev_event (event z) = ZB_EVENT_NONE \<and> q_count (event_queue z) = 0 \<and>
     zb_queue_after n (event_queue z)"

definition zb_ready :: "nat \<Rightarrow> ('cb, 'arg) ZigbeeMesh \<Rightarrow> bool" where
  "zb_ready n z \<longleftrightarrow> n < 10 \<and> zb_rests n z"

lemma ready_init: "2 \<le> sz \<Longrightarrow> zb_ready 0 (zigbee_init sz zigbee_bss)"
  using zb_queue_init [of sz "zigbee_bss"]
  by (auto simp: zb_ready_def zb_rests_def zb_inv_def zigbee_init_def zigbee_bss_def event_zero_def param_ok_def
      param_zero_def cqueue_init_static_def)

lemma command_total:
  assumes "zb_inv z" shows "\<exists>c. zb_command e (param z) = Inr c"
proof -
  have "length (securityCode (param z)) = 4" using assms by (simp add: zb_inv_def param_ok_def)
  from write_ins_ok [OF this] show ?thesis by (cases e) simp_all
qed

lemma send_rx:
  "zigbee_send_event (z\<lparr>zb_rx := bs\<rparr>) e t cb arg = bindR (zigbee_send_event z e t cb arg) (\<lambda>z1. Inr (z1\<lparr>zb_rx := bs\<rparr>))"
  by (cases "cqueue_send (event_queue z) \<lparr>ev_timeout = t, ev_tick = 0, ev_event = e, ev_arg = arg, ev_cb = cb\<rparr>")
     (auto simp: zigbee_send_event_def Let_def)

text \<open>The state at the last poll: the command is out and everything that arrived waits to be read.\<close>

lemma request_waits:
  assumes "zb_ready n z" and "e \<noteq> ZB_EVENT_NONE" and "1 < t" and "length bss + 1 = unat t"
    and "bss \<noteq> []" and "zb_command e (param z) = Inr c"
  shows "\<exists>z1 q et. zigbee_send_event z e t cb arg = Inr z1 \<and> zb_feed bss z1 = Inr (z\<lparr>event_tmp := et,
      event_queue := q, zb_tx := zb_tx z @ c, zb_rx := zb_rx z @ concat bss,
      event := \<lparr>ev_timeout = t, ev_tick = t - 1, ev_event = e, ev_arg = arg, ev_cb = cb\<rparr>\<rparr>) \<and>
      q_count q = 0 \<and> zb_queue_after (Suc n) q"
proof -
  obtain b bs where bss: "bss = b # bs" using assms(5) by (cases bss) auto
  let ?z = "z\<lparr>zb_rx := zb_rx z @ b\<rparr>"
  let ?et = "\<lparr>ev_timeout = t, ev_tick = 0, ev_event = e, ev_arg = arg, ev_cb = cb\<rparr>"
  have idle: "zb_idle ?z" using assms(1) by (auto simp: zb_ready_def zb_rests_def zb_idle_def zb_inv_def)
  obtain z1' q where z1': "zigbee_send_event ?z e t cb arg = Inr z1'" "q_count q = 0"
    "zigbee_poll z1' 1 = Inr (?z\<lparr>event_tmp := ?et, event_queue := q, zb_tx := zb_tx z @ c,
      event := ?et\<lparr>ev_tick := 1\<rparr>\<rparr>)"
    using request_goes_out [OF idle assms(2,3), of c cb arg] assms(6) by auto
  obtain z1 where z1: "zigbee_send_event z e t cb arg = Inr z1" "z1' = z1\<lparr>zb_rx := zb_rx z @ b\<rparr>"
    using z1'(1) by (auto simp: send_rx bindR_eq_Inr)
  have "zb_rx z1 = zb_rx z" and qn: "zb_queue_after (Suc n) (event_queue z1)"
    using z1(1) assms(1) by (auto simp: zigbee_send_event_def Let_def bindR_eq_Inr zb_ready_def zb_rests_def dest: zb_queue_sent)
  then have feed1: "zb_feed bss z1 = zb_feed bs (?z\<lparr>event_tmp := ?et, event_queue := q, zb_tx := zb_tx z @ c,
      event := ?et\<lparr>ev_tick := 1\<rparr>\<rparr>)" using z1'(3) z1(2) by (simp add: bss)
  have "length bs + 2 = unat t" using assms(4) bss by simp
  moreover from this have "(of_nat (length bs + 2) :: u32) = t" by simp
  then have tick: "1 + of_nat (length bs) = t - (1 :: u32)" by (simp add: algebra_simps)
  ultimately have "zb_feed bs (?z\<lparr>event_tmp := ?et, event_queue := q, zb_tx := zb_tx z @ c,
      event := ?et\<lparr>ev_tick := 1\<rparr>\<rparr>) = Inr (z\<lparr>event_tmp := ?et,
      event_queue := q, zb_tx := zb_tx z @ c, zb_rx := zb_rx z @ b @ concat bs,
      event := ?et\<lparr>ev_tick := 1 + of_nat (length bs)\<rparr>\<rparr>)"
    using feed_waits [of "?z\<lparr>event_tmp := ?et, event_queue := q, zb_tx := zb_tx z @ c,
      event := ?et\<lparr>ev_tick := 1\<rparr>\<rparr>" bs] assms(2) by simp
  then have feed: "zb_feed bss z1 = Inr (z\<lparr>event_tmp := ?et,
      event_queue := q, zb_tx := zb_tx z @ c, zb_rx := zb_rx z @ concat bss,
      event := ?et\<lparr>ev_tick := t - 1\<rparr>\<rparr>)" unfolding feed1 tick by (simp add: bss)
  moreover have "zb_queue_after (Suc n) q" using feed_queue [OF feed qn] by simp
  ultimately show ?thesis using z1(1) z1'(2) by auto
qed

lemma request_ends:
  assumes "zb_ready n z" and "e \<noteq> ZB_EVENT_NONE" and "1 < t" and "length bss = unat t"
  shows "\<exists>z1 z2 c. zb_command e (param z) = Inr c \<and> zigbee_send_event z e t (Some cb) arg = Inr z1 \<and>
    zb_feed bss z1 = Inr z2 \<and> zb_rests (Suc n) z2 \<and> zb_tx z2 = zb_tx z @ c \<and>
    zb_rx z2 = drop 1024 (zb_rx z @ concat bss) \<and> fw_version z2 ! 1 = fw_version z ! 1 \<and>
    zb_buff z2 = blit 0 (take 1024 (zb_rx z @ concat bss)) (zb_buff z) \<and>
    zb_calls z2 = zb_calls z @ map (\<lambda>r. (cb, r, arg))
      (zb_outcome e (fw_version z ! 1) (zb_buff z) (zb_rx z @ concat bss))"
proof -
  have "1 < unat t" using assms(3) by (simp add: word_less_nat_alt)
  then have len: "1 < length bss" using assms(4) by simp
  define ys where "ys = butlast bss"
  define b where "b = last bss"
  have bss: "bss = ys @ [b]" "ys \<noteq> []" "length ys + 1 = unat t"
    using len assms(4) by (auto simp: ys_def b_def simp flip: length_greater_0_conv)
  obtain c where c: "zb_command e (param z) = Inr c"
    using command_total assms(1) unfolding zb_ready_def zb_rests_def by blast
  obtain z1 q et where z1: "zigbee_send_event z e t (Some cb) arg = Inr z1" and q: "q_count q = 0" "zb_queue_after (Suc n) q"
    and feed: "zb_feed ys z1 = Inr (z\<lparr>event_tmp := et, event_queue := q, zb_tx := zb_tx z @ c,
      zb_rx := zb_rx z @ concat ys,
      event := \<lparr>ev_timeout = t, ev_tick = t - 1, ev_event = e, ev_arg = arg, ev_cb = Some cb\<rparr>\<rparr>)"
    using request_waits [OF assms(1-3) bss(3,2) c, of "Some cb" arg] by blast
  let ?f = "z\<lparr>event_tmp := et, event_queue := q, zb_tx := zb_tx z @ c, zb_rx := zb_rx z @ concat bss,
      event := \<lparr>ev_timeout = t, ev_tick = t - 1, ev_event = e, ev_arg = arg, ev_cb = Some cb\<rparr>\<rparr>"
  let ?l = "?f\<lparr>event := (event ?f)\<lparr>ev_tick := t\<rparr>\<rparr>"
  have "t - 1 < t" using assms(3) by (simp add: word_less_nat_alt unat_sub_if_size)
  then have "zigbee_poll ?f 1 = zb_finish ?l"
    using poll_finishes [of ?f 1] assms(2) by simp
  moreover have "zb_inv ?l" using assms(1) by (simp add: zb_ready_def zb_rests_def zb_inv_def)
  moreover have "zb_feed bss z1 = bindR (zigbee_poll ?f 1) Inr"
  proof -
    let ?g = "z\<lparr>event_tmp := et, event_queue := q, zb_tx := zb_tx z @ c, zb_rx := zb_rx z @ concat ys,
      event := \<lparr>ev_timeout = t, ev_tick = t - 1, ev_event = e, ev_arg = arg, ev_cb = Some cb\<rparr>\<rparr>"
    have "?g\<lparr>zb_rx := zb_rx ?g @ b\<rparr> = ?f" by (rule ZigbeeMesh.equality) (simp_all add: bss(1))
    moreover have "zb_feed bss z1 = zb_feed [b] ?g" by (simp only: bss(1) zb_feed_append feed bindR.simps)
    ultimately show ?thesis by (cases "zigbee_poll ?f 1") simp_all
  qed
  ultimately obtain z2 where z2: "zb_feed bss z1 = Inr z2" "zb_inv z2" "ev_event (event z2) = ZB_EVENT_NONE"
    "event_queue z2 = q" "zb_tx z2 = zb_tx z @ c" "zb_rx z2 = drop 1024 (zb_rx z @ concat bss)"
    "fw_version z2 ! 1 = fw_version z ! 1" "zb_buff z2 = zb_seen ?l"
    "zb_calls z2 = zb_calls z @ map (\<lambda>r. (cb, r, arg)) (zb_verdict ?l)"
    using finish_total [of ?l cb] by auto
  from z2(2-4) q have "zb_rests (Suc n) z2" by (simp add: zb_rests_def)
  with z2 z1 c show ?thesis
    by (intro exI [of _ z1] exI [of _ z2] exI [of _ c]) (simp add: zb_seen_def)
qed

text \<open>An answer as the data sheet has it.\<close>

definition zb_answer :: "ZigbeeEventType \<Rightarrow> u8 list \<Rightarrow> bool" where
  "zb_answer e bs \<longleftrightarrow>
     (case e of ZB_EVENT_QUERY_POS \<Rightarrow> True | ZB_EVENT_NONE \<Rightarrow> False | ZB_EVENT_ENTER_LOWPOWER \<Rightarrow> False
      | _ \<Rightarrow> 3 \<le> length bs \<and> take 3 bs = [0xFA, zb_code e, 0x0A] \<and> last bs = sum_bytes (butlast bs))"

lemma take_3: "take 3 bs = [a, b, c] \<longleftrightarrow> 3 \<le> length bs \<and> bs ! 0 = a \<and> bs ! 1 = b \<and> bs ! 2 = c"
  by (cases bs; cases "tl bs"; cases "tl (tl bs)") (auto simp: numeral_3_eq_3 numeral_2_eq_2)

lemma accepts_answer:
  assumes "bs \<noteq> []" and "length bs \<le> 1024" and "length buf = 1024"
  shows "zb_accepts e before (blit 0 bs buf) (length bs) \<longleftrightarrow> zb_answer e bs"
proof -
  have b: "blit 0 bs buf ! i = bs ! i" if "i < length bs" for i
    using that assms by (simp add: nth_blit_inside)
  have t: "take (length bs - 1) (blit 0 bs buf) = butlast bs"
    by (simp add: blit_def butlast_conv_take)
  have l: "blit 0 bs buf ! (length bs - 1) = last bs" using assms(1) b by (simp add: last_conv_nth)
  have sums: "sum_bytes [] = 0" "sum_bytes [x] = x" for x by (simp_all add: sum_bytes_def)
  consider x where "bs = [x]" | x y where "bs = [x, y]" | "3 \<le> length bs"
    using assms(1) by (cases bs; cases "tl bs"; cases "tl (tl bs)") auto
  then show ?thesis
  proof cases
    case 1
    then show ?thesis by (cases e) (auto simp: zb_accepts_def zb_answer_def blit_def sums)
  next
    case 2
    then show ?thesis by (cases e) (auto simp: zb_accepts_def zb_answer_def blit_def sums)
  next
    case 3
    then have "take 3 bs = [0xFA, zb_code e, 0x0A] \<longleftrightarrow>
        blit 0 bs buf ! 0 = 0xFA \<and> blit 0 bs buf ! 1 = zb_code e \<and> blit 0 bs buf ! 2 = 0x0A"
      by (simp only: take_3 b) (auto simp: b)
    with 3 l t assms(1) show ?thesis
      by (simp add: zb_accepts_def zb_answer_def split: ZigbeeEventType.split) auto
  qed
qed

lemma answer_read:
  assumes "param_ok p" shows "zb_answer ZB_EVENT_READ_MODULE (read_response k p)"
  using length_read_response [OF assms, of k]
  by (simp add: zb_answer_def read_response_def Let_def numeral_3_eq_3)

text \<open>What is accepted when nothing arrived: the sum of no bytes is compared with the byte in front of the buffer.\<close>

lemma accepts_nothing:
  assumes "e \<noteq> ZB_EVENT_NONE" and "length buf = 1024"
  shows "zb_accepts e before (blit 0 [] buf) 0 \<longleftrightarrow> e = ZB_EVENT_QUERY_POS \<or>
    e \<noteq> ZB_EVENT_ENTER_LOWPOWER \<and> take 3 buf = [0xFA, zb_code e, 0x0A] \<and> before = 0"
  using assms by (cases e) (auto simp: zb_accepts_def take_3 sum_bytes_def blit_def)

section \<open>Properties\<close>

text \<open>C30: A request comes to its end, with exactly these calls. On a driver at rest that has had fewer than ten
  requests, after a request with a callback and as many polls of one millisecond as its timeout has,
  whatever bytes (1024 at most) arrived with the polls and in whatever pieces, the command has gone out once, the event is
  closed, and the driver is at rest again after one request more. The callback has been told of a success once if
  the bytes are the answer the request expects, of nothing if they are any others; if there are none, of a timeout, and
  then also of a success if the request is one for positions or an earlier answer of the same kind is still
  in the buffer and the byte in front of the buffer is zero.\<close>

theorem zigbee_request_closes:
  assumes "zb_ready n z" and "e \<noteq> ZB_EVENT_NONE" and "1 < t" and "length bss = unat t"
    and "length (zb_rx z @ concat bss) \<le> 1024"
  shows "\<exists>z1 z2 c. zb_command e (param z) = Inr c \<and> zigbee_send_event z e t (Some cb) arg = Inr z1 \<and>
    zb_feed bss z1 = Inr z2 \<and> zb_rests (Suc n) z2 \<and> zb_tx z2 = zb_tx z @ c \<and> zb_rx z2 = [] \<and>
    zb_calls z2 = zb_calls z @
     (let arrived = zb_rx z @ concat bss in
      if arrived \<noteq> [] then (if zb_answer e arrived then [(cb, ZIGBEE_RES_SUCCESS, arg)] else [])
      else if e = ZB_EVENT_QUERY_POS \<or>
          e \<noteq> ZB_EVENT_ENTER_LOWPOWER \<and> take 3 (zb_buff z) = [0xFA, zb_code e, 0x0A] \<and> fw_version z ! 1 = 0
        then [(cb, ZIGBEE_RES_TIMEOUT, arg), (cb, ZIGBEE_RES_SUCCESS, arg)]
        else [(cb, ZIGBEE_RES_TIMEOUT, arg)])"
proof -
  define a where "a = zb_rx z @ concat bss"
  obtain z1 z2 c where r: "zb_command e (param z) = Inr c" "zigbee_send_event z e t (Some cb) arg = Inr z1"
    "zb_feed bss z1 = Inr z2" "zb_rests (Suc n) z2" "zb_tx z2 = zb_tx z @ c" "zb_rx z2 = drop 1024 a"
    "zb_calls z2 = zb_calls z @ map (\<lambda>r. (cb, r, arg)) (zb_outcome e (fw_version z ! 1) (zb_buff z) a)"
    using request_ends [OF assms(1-4), of cb arg] unfolding a_def by blast
  have alen: "length a \<le> 1024" using assms(5) by (simp only: a_def)
  have buf: "length (zb_buff z) = 1024" using assms(1) by (simp add: zb_ready_def zb_rests_def zb_inv_def)
  have "zb_outcome e (fw_version z ! 1) (zb_buff z) a = (if zb_answer e a then [ZIGBEE_RES_SUCCESS] else [])"
    if "a \<noteq> []"
    using accepts_answer [OF that alen buf, of e "fw_version z ! 1"] alen that
    by (simp add: zb_outcome_def min_def)
  moreover have "zb_outcome e (fw_version z ! 1) (zb_buff z) a = (if e = ZB_EVENT_QUERY_POS \<or>
          e \<noteq> ZB_EVENT_ENTER_LOWPOWER \<and> take 3 (zb_buff z) = [0xFA, zb_code e, 0x0A] \<and> fw_version z ! 1 = 0
        then [ZIGBEE_RES_TIMEOUT, ZIGBEE_RES_SUCCESS] else [ZIGBEE_RES_TIMEOUT])" if "a = []"
    using that assms(2) buf accepts_nothing [of e "zb_buff z" "fw_version z ! 1"] by (simp add: zb_outcome_def)
  ultimately have "map (\<lambda>r. (cb, r, arg)) (zb_outcome e (fw_version z ! 1) (zb_buff z) a) =
     (if a \<noteq> [] then (if zb_answer e a then [(cb, ZIGBEE_RES_SUCCESS, arg)] else [])
      else if e = ZB_EVENT_QUERY_POS \<or>
          e \<noteq> ZB_EVENT_ENTER_LOWPOWER \<and> take 3 (zb_buff z) = [0xFA, zb_code e, 0x0A] \<and> fw_version z ! 1 = 0
        then [(cb, ZIGBEE_RES_TIMEOUT, arg), (cb, ZIGBEE_RES_SUCCESS, arg)]
        else [(cb, ZIGBEE_RES_TIMEOUT, arg)])" by simp
  with r alen show ?thesis unfolding Let_def a_def [symmetric]
    by (intro exI [of _ z1] exI [of _ z2] exI [of _ c]) simp
qed

theorem zigbee_request_closes_witness:
  "\<exists>z1 z2. zigbee_send_event (zigbee_init 20 (zigbee_bss :: (nat, nat) ZigbeeMesh)) ZB_EVENT_RESET_MODULE 3
      (Some 7) None = Inr z1 \<and> zb_feed [[0xFA], [0x06, 0x0A], [0x0A]] z1 = Inr z2 \<and> zb_rests 1 z2 \<and>
    zb_tx z2 = restartIns \<and> zb_calls z2 = [(7, ZIGBEE_RES_SUCCESS, None)]"
proof -
  let ?z = "zigbee_init 20 (zigbee_bss :: (nat, nat) ZigbeeMesh)"
  have r: "zb_ready 0 ?z" by (rule ready_init) simp
  have a: "zb_answer ZB_EVENT_RESET_MODULE [0xFA, 0x06, 0x0A, 0x0A]"
    by (simp add: zb_answer_def sum_bytes_def numeral_3_eq_3)
  have f: "zb_rx ?z = []" "zb_tx ?z = []" "zb_calls ?z = []"
    by (simp_all add: zigbee_init_def zigbee_bss_def)
  show ?thesis
    using zigbee_request_closes [OF r, of ZB_EVENT_RESET_MODULE 3 "[[0xFA], [0x06, 0x0A], [0x0A]]" 7 None] a f
    by (auto simp: Let_def)
qed

text \<open>C32: A request that is not answered can be reported as timed out and as a success. The last answer
  stays in the buffer, and the checksum of no bytes is the byte in front of the buffer, which
  nothing ever sets: after one read that was answered, the next one that is not answered
  calls its callback twice, with the parameters of the earlier answer still in place.\<close>

theorem zigbee_timeout_then_success:
  assumes "zb_ready n z" and "n < 9" and "zb_rx z = []" and "fw_version z ! 1 = 0" and "param_ok p"
    and "length bss = 1000" and "concat bss = read_response k p"
  shows "\<exists>z1 z2 z3 z4. zigbee_read_module z (Some cb) arg = Inr z1 \<and> zb_feed bss z1 = Inr z2 \<and>
    zigbee_read_module z2 (Some cb') arg' = Inr z3 \<and> zb_feed (replicate 1000 []) z3 = Inr z4 \<and>
    zb_calls z4 = zb_calls z @ [(cb, ZIGBEE_RES_SUCCESS, arg), (cb', ZIGBEE_RES_TIMEOUT, arg'),
      (cb', ZIGBEE_RES_SUCCESS, arg')]"
proof -
  define silence where "silence = replicate 1000 ([] :: u8 list)"
  have sil: "concat silence = []" "length silence = unat (1000 :: u32)" by (simp_all add: silence_def)
  let ?r = "read_response k p"
  have t: "(1 :: u32) < 1000" "length bss = unat (1000 :: u32)" using assms(6) by simp_all
  obtain z1 z2 where z2: "zigbee_read_module z (Some cb) arg = Inr z1" "zb_feed bss z1 = Inr z2"
    "zb_rests (Suc n) z2" "zb_rx z2 = drop 1024 ?r" "fw_version z2 ! 1 = 0"
    "zb_buff z2 = blit 0 (take 1024 ?r) (zb_buff z)"
    "zb_calls z2 = zb_calls z @ map (\<lambda>r. (cb, r, arg)) (zb_outcome ZB_EVENT_READ_MODULE 0 (zb_buff z) ?r)"
    using request_ends [OF assms(1) _ t, of ZB_EVENT_READ_MODULE cb arg] assms(2,3,4,7)
    by (auto simp: zigbee_read_module_def)
  have rdy: "zb_ready (Suc n) z2" using z2(3) assms(2) by (simp add: zb_ready_def)
  obtain z3 z4 where z4: "zigbee_read_module z2 (Some cb') arg' = Inr z3" "zb_feed silence z3 = Inr z4"
    "zb_calls z4 = zb_calls z2 @ map (\<lambda>r. (cb', r, arg')) (zb_outcome ZB_EVENT_READ_MODULE 0 (zb_buff z2) (zb_rx z2))"
    using request_ends [OF rdy _ t(1) sil(2), of ZB_EVENT_READ_MODULE cb' arg'] assms(2) z2(5) sil(1)
    by (auto simp: zigbee_read_module_def)
  have len: "length (zb_buff z) = 1024" "length ?r = 53"
    using assms(1) length_read_response [OF assms(5)] by (simp_all add: zb_ready_def zb_rests_def zb_inv_def)
  have r: "?r \<noteq> []" "take 1024 ?r = ?r" "zb_rx z2 = []" using len(2) z2(4) by auto
  have o1: "zb_outcome ZB_EVENT_READ_MODULE 0 (zb_buff z) ?r = [ZIGBEE_RES_SUCCESS]"
    using accepts_answer [OF r(1) _ len(1), of ZB_EVENT_READ_MODULE 0] answer_read [OF assms(5)] r len(2)
    by (simp add: zb_outcome_def)
  have "take 3 ?r = [0xFA, 0x31, 0x0A]" by (simp add: read_response_def Let_def numeral_3_eq_3)
  then have "zb_buff z2 ! 0 = 0xFA \<and> zb_buff z2 ! 1 = 0x31 \<and> zb_buff z2 ! 2 = 0x0A"
    unfolding take_3 z2(6) r(2) using len by (simp add: nth_blit_inside)
  then have o2: "zb_outcome ZB_EVENT_READ_MODULE 0 (zb_buff z2) (zb_rx z2) = [ZIGBEE_RES_TIMEOUT, ZIGBEE_RES_SUCCESS]"
    using r(3) by (simp add: zb_outcome_def zb_accepts_def sum_bytes_def)
  show ?thesis
    using z2 z4 unfolding o1 o2 silence_def by (intro exI [of _ z1] exI [of _ z2] exI [of _ z3] exI [of _ z4]) simp
qed

theorem zigbee_timeout_then_success_witness:
  "\<exists>z1 z2 z3 z4 bss. zigbee_read_module (zigbee_init 20 (zigbee_bss :: (nat, nat) ZigbeeMesh)) (Some 7) None = Inr z1 \<and>
    zb_feed bss z1 = Inr z2 \<and> zigbee_read_module z2 (Some 8) None = Inr z3 \<and>
    zb_feed (replicate 1000 []) z3 = Inr z4 \<and>
    zb_calls z4 = [(7, ZIGBEE_RES_SUCCESS, None), (8, ZIGBEE_RES_TIMEOUT, None), (8, ZIGBEE_RES_SUCCESS, None)]"
proof -
  let ?z = "zigbee_init 20 (zigbee_bss :: (nat, nat) ZigbeeMesh)"
  define bss where "bss = read_response 0 param_zero # replicate 999 []"
  have r: "zb_ready 0 ?z" by (rule ready_init) simp
  have p: "param_ok param_zero" by (simp add: param_ok_def param_zero_def)
  have b: "length bss = 1000" "concat bss = read_response 0 param_zero" by (simp_all add: bss_def)
  have f: "zb_rx ?z = []" "fw_version ?z ! 1 = 0" "zb_calls ?z = []"
    by (simp_all add: zigbee_init_def zigbee_bss_def)
  show ?thesis
    using zigbee_timeout_then_success [OF r zero_less_numeral f(1,2) p b, of 7 None 8 None]
    unfolding f(3) append_Nil by blast
qed

end
