(* ===== verification/RF_App.thy ===== *)
theory RF_App
  imports Zigbee_Life Board
begin

text \<open>
  The RF application (\<open>app/user/rf/rf_app.c\<close>) and the indicator (\<open>app/user/indicator/indicator.c\<close>):
  the Zigbee driver is polled once per millisecond tick, its callbacks set the network status,
  and the indicator drives the three LEDs from two timers. The function pointers of the
  indicator are names of the functions they can hold.
\<close>

section \<open>The indicator\<close>

definition INDICATOR_STATUS :: int where "INDICATOR_STATUS = 0"
definition INDICATOR_NET :: int where "INDICATOR_NET = 1"
definition INDICATOR_POW :: int where "INDICATOR_POW = 2"
definition EVENT_NET_CONNECTED :: u8 where "EVENT_NET_CONNECTED = 0x02"
definition EVENT_NET_DISCONNECTED :: u8 where "EVENT_NET_DISCONNECTED = 0x03"

definition BSP_LED_POWER :: int where "BSP_LED_POWER = 0"
definition BSP_LED_LINK :: int where "BSP_LED_LINK = 1"
definition BSP_LED_STATUS :: int where "BSP_LED_STATUS = 2"

lemmas ind_consts = INDICATOR_STATUS_def INDICATOR_NET_def INDICATOR_POW_def EVENT_NET_CONNECTED_def
  EVENT_NET_DISCONNECTED_def BSP_LED_POWER_def BSP_LED_LINK_def BSP_LED_STATUS_def

datatype led_fn = F_led_on | F_led_off | F_led_toggle | F_ind_on | F_ind_off | F_ind_toggle

record Indicator =
  ind_fn_on :: "led_fn option"
  ind_fn_off :: "led_fn option"
  ind_fn_toggle :: "led_fn option"
  timer_status :: u32
  timer_net :: u32
  net_connect :: u8

definition drop_result :: "('b \<times> int) res \<Rightarrow> 'b res" where
  "drop_result m = bindR m (\<lambda>(b, r). Inr b)"

definition led_on :: "('c, 't) board \<Rightarrow> int \<Rightarrow> ('c, 't) board res" where
  "led_on b n =
     (if n = INDICATOR_STATUS then drop_result (bsp_led_write b BSP_LED_STATUS True)
      else if n = INDICATOR_NET then drop_result (bsp_led_write b BSP_LED_LINK True)
      else if n = INDICATOR_POW then drop_result (bsp_led_write b BSP_LED_POWER True) else Inr b)"

text \<open>As in the source, the network LED is switched on here too.\<close>

definition led_off :: "('c, 't) board \<Rightarrow> int \<Rightarrow> ('c, 't) board res" where
  "led_off b n =
     (if n = INDICATOR_STATUS then drop_result (bsp_led_write b BSP_LED_STATUS False)
      else if n = INDICATOR_NET then drop_result (bsp_led_write b BSP_LED_LINK True)
      else if n = INDICATOR_POW then drop_result (bsp_led_write b BSP_LED_POWER False) else Inr b)"

definition led_toggle :: "('c, 't) board \<Rightarrow> int \<Rightarrow> ('c, 't) board res" where
  "led_toggle b n =
     (if n = INDICATOR_STATUS then drop_result (bsp_led_toggle b BSP_LED_STATUS)
      else if n = INDICATOR_NET then drop_result (bsp_led_toggle b BSP_LED_LINK)
      else if n = INDICATOR_POW then drop_result (bsp_led_toggle b BSP_LED_POWER) else Inr b)"

fun call_led :: "led_fn \<Rightarrow> ('c, 't) board \<Rightarrow> int \<Rightarrow> ('c, 't) board res" where
  "call_led F_led_on b n = led_on b n"
| "call_led F_led_off b n = led_off b n"
| "call_led F_led_toggle b n = led_toggle b n"
| "call_led F_ind_on b n = bsp_output_on b n"
| "call_led F_ind_off b n = bsp_output_off b n"
| "call_led F_ind_toggle b n = bsp_output_toggle_n b n"

definition indicator_set_net_status :: "Indicator \<Rightarrow> u8 \<Rightarrow> Indicator" where
  "indicator_set_net_status ind status = ind\<lparr>net_connect := status\<rparr>"

definition indicator_init :: "Indicator \<Rightarrow> Indicator" where
  "indicator_init ind =
     indicator_set_net_status
       \<lparr>ind_fn_on = Some F_led_on, ind_fn_off = Some F_led_off, ind_fn_toggle = Some F_led_toggle,
        timer_status = 0, timer_net = 0, net_connect = 0\<rparr> EVENT_NET_DISCONNECTED"

text \<open>A call without a check of the pointer, and one under \<open>if (f)\<close>.\<close>

definition call_fn :: "led_fn option \<Rightarrow> ('c, 't) board \<Rightarrow> int \<Rightarrow> ('c, 't) board res" where
  "call_fn f b n = (case f of None \<Rightarrow> Inl Null_Pointer | Some g \<Rightarrow> call_led g b n)"

definition call_fn_if :: "led_fn option \<Rightarrow> led_fn option \<Rightarrow> ('c, 't) board \<Rightarrow> int \<Rightarrow> ('c, 't) board res" where
  "call_fn_if guard f b n = (case guard of None \<Rightarrow> Inr b | Some g \<Rightarrow> call_fn f b n)"

definition indicator_poll :: "u32 \<Rightarrow> Indicator \<Rightarrow> ('c, 't) board \<Rightarrow> (Indicator \<times> ('c, 't) board) res" where
  "indicator_poll timestamp ind b =
     (let ind1 = ind\<lparr>timer_status := timer_status ind + timestamp\<rparr> in
      bindR (call_fn (ind_fn_on ind1) b INDICATOR_POW) (\<lambda>b1.
      bindR (if timer_status ind1 \<ge> 200 then
               bindR (call_fn_if (ind_fn_toggle ind1) (ind_fn_toggle ind1) b1 INDICATOR_STATUS) (\<lambda>b2.
               Inr (ind1\<lparr>timer_status := 0\<rparr>, b2))
             else Inr (ind1, b1)) (\<lambda>(ind2, b2).
      let ind3 = ind2\<lparr>timer_net := timer_net ind2 + timestamp\<rparr> in
      if net_connect ind3 = EVENT_NET_CONNECTED then
        (if timer_net ind3 \<ge> 2000 then
           bindR (call_fn_if (ind_fn_on ind3) (ind_fn_toggle ind3) b2 INDICATOR_NET) (\<lambda>b3.
           Inr (ind3\<lparr>timer_net := 0\<rparr>, b3))
         else Inr (ind3, b2))
      else if net_connect ind3 = EVENT_NET_DISCONNECTED then
        (if timer_net ind3 \<ge> 1000 then
           bindR (call_fn_if (ind_fn_toggle ind3) (ind_fn_toggle ind3) b2 INDICATOR_NET) (\<lambda>b3.
           Inr (ind3\<lparr>timer_net := 0\<rparr>, b3))
         else Inr (ind3, b2))
      else bindR (call_fn_if (ind_fn_off ind3) (ind_fn_off ind3) b2 INDICATOR_NET) (\<lambda>b3. Inr (ind3, b3)))))"

section \<open>The application\<close>

datatype rf_cb = Connect_cb | Read_cb | Reset_cb

text \<open>The callbacks differ in what they log.\<close>

definition zigbee_connect_cb :: "u8 \<Rightarrow> Indicator \<Rightarrow> Indicator" where
  "zigbee_connect_cb isSuccess ind =
     (if isSuccess = ZIGBEE_RES_SUCCESS then indicator_set_net_status ind EVENT_NET_CONNECTED
      else indicator_set_net_status ind EVENT_NET_DISCONNECTED)"

definition zigbee_read_cb :: "u8 \<Rightarrow> Indicator \<Rightarrow> Indicator" where
  "zigbee_read_cb isSuccess ind =
     (if isSuccess = ZIGBEE_RES_SUCCESS then indicator_set_net_status ind EVENT_NET_CONNECTED
      else indicator_set_net_status ind EVENT_NET_DISCONNECTED)"

definition zigbee_reset_cb :: "u8 \<Rightarrow> Indicator \<Rightarrow> Indicator" where
  "zigbee_reset_cb isSuccess ind =
     (if isSuccess = ZIGBEE_RES_SUCCESS then indicator_set_net_status ind EVENT_NET_CONNECTED
      else indicator_set_net_status ind EVENT_NET_DISCONNECTED)"

fun rf_call :: "rf_cb \<times> u8 \<times> unit option \<Rightarrow> Indicator \<Rightarrow> Indicator" where
  "rf_call (Connect_cb, r, arg) ind = zigbee_connect_cb r ind"
| "rf_call (Read_cb, r, arg) ind = zigbee_read_cb r ind"
| "rf_call (Reset_cb, r, arg) ind = zigbee_reset_cb r ind"

record ('c, 't) rf_app =
  zigbee :: "(rf_cb, unit) ZigbeeMesh"
  indicator :: Indicator
  rf_time_stamp :: u32
  rf_board :: "('c, 't) board"

definition rf_app_init :: "nat \<Rightarrow> u32 \<Rightarrow> ('c, 't) rf_app \<Rightarrow> ('c, 't) rf_app res" where
  "rf_app_init sz tick s =
     (let ind = (indicator s)\<lparr>ind_fn_on := Some F_ind_on, ind_fn_off := Some F_ind_off,
                  ind_fn_toggle := Some F_ind_toggle\<rparr>;
          ind' = indicator_init ind in
      bindR (zigbee_connect (zigbee_init sz (zigbee s)) (Some Connect_cb) None) (\<lambda>z1.
      bindR (zigbee_read_module z1 (Some Read_cb) None) (\<lambda>z2.
      bindR (zigbee_reset_module z2 (Some Reset_cb) None) (\<lambda>z3.
      Inr (s\<lparr>zigbee := z3, indicator := ind', rf_time_stamp := tick\<rparr>)))))"

text \<open>
  \<open>tick\<close> and \<open>tick'\<close> are the two readings of the clock. The callbacks only touch the indicator, so
  they may be carried out when the poll of the driver is over, in the order of their calls.
\<close>

definition rf_app_poll :: "u32 \<Rightarrow> u32 \<Rightarrow> ('c, 't) rf_app \<Rightarrow> ('c, 't) rf_app res" where
  "rf_app_poll tick tick' s =
     (if tick - rf_time_stamp s \<ge> 1 then
        bindR (zigbee_poll (zigbee s) 1) (\<lambda>z.
        let ind = fold rf_call (drop (length (zb_calls (zigbee s))) (zb_calls z)) (indicator s) in
        bindR (indicator_poll 1 ind (rf_board s)) (\<lambda>(ind', b).
        Inr (s\<lparr>zigbee := z, indicator := ind', rf_board := b, rf_time_stamp := tick'\<rparr>)))
      else Inr s)"

definition rf_app_busy :: "('c, 't) rf_app \<Rightarrow> bool" where
  "rf_app_busy s \<longleftrightarrow> ev_event (event (zigbee s)) \<noteq> ZB_EVENT_NONE"

text \<open>Polls, each with the readings of the clock and the bytes that arrived before it.\<close>

fun rf_feed :: "(u32 \<times> u32 \<times> u8 list) list \<Rightarrow> ('c, 't) rf_app \<Rightarrow> ('c, 't) rf_app res" where
  "rf_feed [] s = Inr s"
| "rf_feed ((tick, tick', bs) # es) s =
     bindR (rf_app_poll tick tick' (s\<lparr>zigbee := (zigbee s)\<lparr>zb_rx := zb_rx (zigbee s) @ bs\<rparr>\<rparr>)) (rf_feed es)"

fun rf_fresh :: "u32 \<Rightarrow> (u32 \<times> u32 \<times> u8 list) list \<Rightarrow> bool" where
  "rf_fresh stamp [] \<longleftrightarrow> True"
| "rf_fresh stamp ((tick, tick', bs) # es) \<longleftrightarrow> tick \<noteq> stamp \<and> rf_fresh tick' es"

section \<open>The rhythm of the LEDs\<close>

definition net_period :: "u8 \<Rightarrow> nat" where
  "net_period st = (if st = EVENT_NET_CONNECTED then 2000 else 1000)"

text \<open>The indicator after \<open>k\<close> polls of one millisecond, and the pins it has driven.\<close>

definition ind_at :: "u8 \<Rightarrow> nat \<Rightarrow> Indicator" where
  "ind_at st k =
     \<lparr>ind_fn_on = Some F_led_on, ind_fn_off = Some F_led_off, ind_fn_toggle = Some F_led_toggle,
      timer_status = word_of_nat (k mod 200), timer_net = word_of_nat (k mod net_period st), net_connect = st\<rparr>"

definition lit_at :: "u8 \<Rightarrow> nat \<Rightarrow> (pin \<Rightarrow> bool) \<Rightarrow> pin \<Rightarrow> bool" where
  "lit_at st k l = (\<lambda>p.
     if p = (GPIOC, 13) then l p \<or> 0 < k
     else if p = (GPIOC, 14) then l p \<noteq> odd (k div net_period st)
     else if p = (GPIOC, 15) then l p \<noteq> odd (k div 200) else l p)"

lemma led_fns:
  "led_on b INDICATOR_POW = Inr (b\<lparr>level := (level b)((GPIOC, 13) := True)\<rparr>)"
  "led_toggle b INDICATOR_NET = Inr (b\<lparr>level := (level b)((GPIOC, 14) := \<not> level b (GPIOC, 14))\<rparr>)"
  "led_toggle b INDICATOR_STATUS = Inr (b\<lparr>level := (level b)((GPIOC, 15) := \<not> level b (GPIOC, 15))\<rparr>)"
  by (simp_all add: led_on_def led_toggle_def ind_consts drop_result_def bsp_led_write_def bsp_led_toggle_def
      bsp_nums s_leds_def)

lemma led_off_net_lights: "led_off b INDICATOR_NET = led_on b INDICATOR_NET"
  by (simp add: led_off_def led_on_def ind_consts)

lemma timer_step:
  assumes "0 < m" and "m < 2 ^ 31"
  shows "(word_of_nat m :: u32) \<le> word_of_nat (k mod m) + 1 \<longleftrightarrow> Suc (k mod m) = m"
    and "word_of_nat (Suc k mod m) = (if Suc (k mod m) = m then 0 else word_of_nat (k mod m) + 1 :: u32)"
    and "Suc k div m = (if Suc (k mod m) = m then Suc (k div m) else k div m)"
proof -
  have l: "k mod m < m" using assms(1) by simp
  have "(word_of_nat (k mod m) + 1 :: u32) = word_of_nat (Suc (k mod m))" by simp
  moreover have "unat (word_of_nat (Suc (k mod m)) :: u32) = Suc (k mod m)" "unat (word_of_nat m :: u32) = m"
    using l assms(2) by (simp_all add: unat_of_nat del: of_nat_Suc)
  ultimately show "(word_of_nat m :: u32) \<le> word_of_nat (k mod m) + 1 \<longleftrightarrow> Suc (k mod m) = m"
    using l by (simp add: word_le_nat_alt del: of_nat_Suc) linarith
  show "word_of_nat (Suc k mod m) = (if Suc (k mod m) = m then 0 else word_of_nat (k mod m) + 1 :: u32)"
    by (simp add: mod_Suc)
  show "Suc k div m = (if Suc (k mod m) = m then Suc (k div m) else k div m)"
    by (simp add: div_Suc mod_Suc)
qed

lemmas timer_steps = timer_step [of 200, simplified] timer_step [of 1000, simplified] timer_step [of 2000, simplified]

lemma lit_step:
  "lit_at st (Suc k) l = (\<lambda>p.
     if p = (GPIOC, 13) then True
     else if p = (GPIOC, 14) \<and> Suc (k mod net_period st) = net_period st then \<not> lit_at st k l p
     else if p = (GPIOC, 15) \<and> Suc (k mod 200) = 200 then \<not> lit_at st k l p
     else lit_at st k l p)"
proof -
  have "Suc k div net_period st = (if Suc (k mod net_period st) = net_period st then Suc (k div net_period st) else k div net_period st)"
    "Suc k div 200 = (if Suc (k mod 200) = 200 then Suc (k div 200) else k div 200)"
    by (simp_all only: div_Suc) (simp_all add: mod_Suc)
  then show ?thesis by (intro ext) (simp add: lit_at_def)
qed

lemma indicator_poll_step:
  assumes "st = EVENT_NET_CONNECTED \<or> st = EVENT_NET_DISCONNECTED"
  shows "indicator_poll 1 (ind_at st k) (b\<lparr>level := lit_at st k l\<rparr>) =
    Inr (ind_at st (Suc k), b\<lparr>level := lit_at st (Suc k) l\<rparr>)"
proof -
  let ?A = "Suc (k mod 200) = 200" and ?B = "Suc (k mod net_period st) = net_period st"
  have P: "net_period st = 1000 \<or> net_period st = 2000" by (simp add: net_period_def)
  then have t: "(word_of_nat (net_period st) :: u32) \<le> word_of_nat (k mod net_period st) + 1 \<longleftrightarrow> ?B"
    "word_of_nat (Suc k mod net_period st) = (if ?B then 0 else word_of_nat (k mod net_period st) + 1 :: u32)"
    by (intro timer_step; auto)+
  have s: "(200 :: u32) \<le> word_of_nat (k mod 200) + 1 \<longleftrightarrow> ?A"
    "word_of_nat (Suc k mod 200) = (if ?A then 0 else word_of_nat (k mod 200) + 1 :: u32)"
    using timer_step [of 200 k] by simp_all
  have n: "(2000 :: u32) \<le> word_of_nat (k mod net_period st) + 1 \<longleftrightarrow> ?B" if "st = EVENT_NET_CONNECTED"
    using t(1) that by (simp add: net_period_def)
  have d: "(1000 :: u32) \<le> word_of_nat (k mod net_period st) + 1 \<longleftrightarrow> ?B" if "st = EVENT_NET_DISCONNECTED"
    using t(1) that by (simp add: net_period_def EVENT_NET_CONNECTED_def EVENT_NET_DISCONNECTED_def)
  have lv: "lit_at st (Suc k) l = (let l1 = (lit_at st k l)((GPIOC, 13) := True);
      l2 = (if ?A then l1((GPIOC, 15) := \<not> l1 (GPIOC, 15)) else l1) in
      if ?B then l2((GPIOC, 14) := \<not> l2 (GPIOC, 14)) else l2)"
    unfolding lit_step by (intro ext) (auto simp: Let_def)
  have ne: "EVENT_NET_DISCONNECTED \<noteq> EVENT_NET_CONNECTED" by (simp add: ind_consts)
  have i: "ind_at st (Suc k) = (ind_at st k)\<lparr>timer_status := word_of_nat (Suc k mod 200),
      timer_net := word_of_nat (Suc k mod net_period st)\<rparr>" by (simp add: ind_at_def)
  have f: "ind_fn_on (ind_at st k) = Some F_led_on" "ind_fn_toggle (ind_at st k) = Some F_led_toggle"
    "net_connect (ind_at st k) = st" "timer_status (ind_at st k) = word_of_nat (k mod 200)"
    "timer_net (ind_at st k) = word_of_nat (k mod net_period st)" by (simp_all add: ind_at_def)
  show ?thesis
    using assms
  proof
    assume st: "st = EVENT_NET_CONNECTED"
    show ?thesis
      by (cases ?A; cases ?B) (simp_all add: indicator_poll_def call_fn_def call_fn_if_def led_fns f i lv Let_def s t(2)
          n [OF st] st [symmetric] del: of_nat_Suc)
  next
    assume st: "st = EVENT_NET_DISCONNECTED"
    then have "st \<noteq> EVENT_NET_CONNECTED" using ne by simp
    then show ?thesis
      by (cases ?A; cases ?B) (simp_all add: indicator_poll_def call_fn_def call_fn_if_def led_fns f i lv Let_def s t(2)
          d [OF st] st [symmetric] del: of_nat_Suc)
  qed
qed

section \<open>The driver only adds calls\<close>

lemma call_grows: "\<exists>cs. zb_calls (zb_call z r) = zb_calls z @ cs"
  by (auto simp: zb_call_def split: option.splits)

lemma process_calls: "zb_process z = Inr (z', r) \<Longrightarrow> zb_calls z' = zb_calls z"
  by (cases "ev_event (event z)")
     (auto simp: zb_process_def Let_def res_simps zigbee_connect_process_def zigbeeReadProcess_def
       zigbee_write_process_def zigbee_reset_process_def zigbee_request_signal_process_def
       zigbee_query_ed_process_def split: if_splits)

lemma finish_grows:
  assumes "zb_finish z = Inr z'"
  shows "\<exists>cs. zb_calls z' = zb_calls z @ cs"
proof -
  define n where "n = min (length (zb_rx z)) ZIGBEE_BUFFER_SIZE"
  define z1 where "z1 = z\<lparr>buff_len := word_of_nat n, event := (event z)\<lparr>ev_tick := 0\<rparr>\<rparr>"
  from assms obtain z2 z4 r where z2: "(if n > 0 then drv_read z1 n else Inr z1) = Inr z2"
    and z4: "zb_process (if n = 0 then zb_call z2 ZIGBEE_RES_TIMEOUT else z2) = Inr (z4, r)"
    and z': "zb_calls z' = zb_calls (if r \<noteq> ZIGBEE_RES_FAIL then zb_call z4 r else z4)"
    unfolding zb_finish_def n_def [symmetric] Let_def z1_def [symmetric] by (auto simp only: bindR_eq_Inr) simp
  have "zb_calls z2 = zb_calls z" using z2 by (auto simp: drv_read_def z1_def split: if_splits)
  then obtain cs where "zb_calls z4 = zb_calls z @ cs"
    using process_calls [OF z4] call_grows [of z2 ZIGBEE_RES_TIMEOUT] by (cases "n = 0") auto
  then show ?thesis using z' call_grows [of z4 r] by (cases "r = ZIGBEE_RES_FAIL") auto
qed

lemma start_calls: "zb_start z ts = Inr z' \<Longrightarrow> zb_calls z' = zb_calls z"
  by (cases "ev_event (event z)") (auto simp: zb_start_def Let_def res_simps drv_write_def split: if_splits)

lemma poll_grows: "zigbee_poll z ts = Inr z' \<Longrightarrow> \<exists>cs. zb_calls z' = zb_calls z @ cs"
  by (auto simp: zigbee_poll_def Let_def res_simps dest!: start_calls finish_grows split: if_splits)

lemma feed_grows: "zb_feed bss z = Inr z' \<Longrightarrow> \<exists>cs. zb_calls z' = zb_calls z @ cs"
proof (induction bss arbitrary: z)
  case (Cons bs bss)
  then obtain z1 where z1: "zigbee_poll (z\<lparr>zb_rx := zb_rx z @ bs\<rparr>) 1 = Inr z1" "zb_feed bss z1 = Inr z'"
    by (auto simp: bindR_eq_Inr)
  from poll_grows [OF z1(1)] Cons.IH [OF z1(2)] show ?case by auto
qed simp

lemma rf_poll_quiet:
  assumes "tick \<noteq> rf_time_stamp s" and "zigbee_poll (zigbee s) 1 = Inr z" and "zb_calls z = zb_calls (zigbee s)"
    and "indicator s = ind_at st k" and "rf_board s = b\<lparr>level := lit_at st k l\<rparr>"
    and "st = EVENT_NET_CONNECTED \<or> st = EVENT_NET_DISCONNECTED"
  shows "rf_app_poll tick tick' s = Inr (s\<lparr>zigbee := z, indicator := ind_at st (Suc k),
    rf_board := b\<lparr>level := lit_at st (Suc k) l\<rparr>, rf_time_stamp := tick'\<rparr>)"
proof -
  have "(1 :: u32) \<le> tick - rf_time_stamp s" using assms(1) by (metis right_minus_eq word_less_1 linorder_not_le)
  then show ?thesis using assms(2-5) by (simp add: rf_app_poll_def indicator_poll_step [OF assms(6)])
qed

lemma rf_feed_quiet:
  assumes "rf_fresh (rf_time_stamp s) es" and "zb_feed (map (\<lambda>(t, t', bs). bs) es) (zigbee s) = Inr z"
    and "zb_calls z = zb_calls (zigbee s)" and "indicator s = ind_at st k" and "rf_board s = b\<lparr>level := lit_at st k l\<rparr>"
    and "st = EVENT_NET_CONNECTED \<or> st = EVENT_NET_DISCONNECTED"
  shows "\<exists>s'. rf_feed es s = Inr s' \<and> zigbee s' = z \<and> indicator s' = ind_at st (k + length es) \<and>
    rf_board s' = b\<lparr>level := lit_at st (k + length es) l\<rparr>"
  using assms
proof (induction es arbitrary: s k)
  case (Cons e es)
  obtain t t' bs where e: "e = (t, t', bs)" by (cases e)
  let ?s = "s\<lparr>zigbee := (zigbee s)\<lparr>zb_rx := zb_rx (zigbee s) @ bs\<rparr>\<rparr>"
  obtain z1 where z1: "zigbee_poll (zigbee ?s) 1 = Inr z1" "zb_feed (map (\<lambda>(t, t', bs). bs) es) z1 = Inr z"
    using Cons.prems(2) e by (auto simp: bindR_eq_Inr)
  obtain cs1 cs2 where c: "zb_calls z1 = zb_calls (zigbee s) @ cs1" "zb_calls z = zb_calls z1 @ cs2"
    using poll_grows [OF z1(1)] feed_grows [OF z1(2)] by auto
  then have "zb_calls (zigbee s) = zb_calls (zigbee s) @ cs1 @ cs2" using Cons.prems(3) by (metis append_assoc)
  then have "cs1 = []" "cs2 = []" by simp_all
  then have calls: "zb_calls z1 = zb_calls (zigbee ?s)" "zb_calls z = zb_calls z1" using c by simp_all
  define s1 where "s1 = ?s\<lparr>zigbee := z1, indicator := ind_at st (Suc k), rf_board := b\<lparr>level := lit_at st (Suc k) l\<rparr>,
    rf_time_stamp := t'\<rparr>"
  have "rf_app_poll t t' ?s = Inr s1"
    unfolding s1_def by (rule rf_poll_quiet [OF _ z1(1) calls(1)]) (use Cons.prems e in simp_all)
  moreover have "\<exists>s'. rf_feed es s1 = Inr s' \<and> zigbee s' = z \<and> indicator s' = ind_at st (Suc k + length es) \<and>
    rf_board s' = b\<lparr>level := lit_at st (Suc k + length es) l\<rparr>"
    by (rule Cons.IH) (use Cons.prems e z1(2) calls(2) in \<open>simp_all add: s1_def\<close>)
  ultimately show ?case by (simp add: e)
qed simp

text \<open>As long as the Zigbee driver reports nothing, whatever bytes arrive, one poll per clock tick lights
  the power LED, toggles the status LED every 200 polls and the network LED every 2000 polls
  while connected and every 1000 while not, and changes no other pin: the outputs to which
  \<open>rf_app_init\<close> first points the indicator are not touched. A poll counts for one
  millisecond however far the clock has gone.\<close>

lemma rf_app_rhythm:
  assumes "rf_fresh (rf_time_stamp s) es" and "zb_feed (map (\<lambda>(t, t', bs). bs) es) (zigbee s) = Inr z"
    and "zb_calls z = zb_calls (zigbee s)" and "indicator s = indicator_set_net_status (indicator_init ind) st"
    and "st = EVENT_NET_CONNECTED \<or> st = EVENT_NET_DISCONNECTED"
  shows "\<exists>s'. rf_feed es s = Inr s' \<and> zigbee s' = z \<and>
    rf_board s' = (rf_board s)\<lparr>level := (\<lambda>p.
      if p = s_leds ! 0 then level (rf_board s) p \<or> es \<noteq> []
      else if p = s_leds ! 1 then
        level (rf_board s) p \<noteq> odd (length es div (if st = EVENT_NET_CONNECTED then 2000 else 1000))
      else if p = s_leds ! 2 then level (rf_board s) p \<noteq> odd (length es div 200)
      else level (rf_board s) p)\<rparr>"
proof -
  have "indicator s = ind_at st 0"
    using assms(4) by (simp add: ind_at_def indicator_set_net_status_def indicator_init_def)
  moreover have "lit_at st 0 (level (rf_board s)) = level (rf_board s)" by (simp add: lit_at_def fun_eq_iff)
  then have "rf_board s = (rf_board s)\<lparr>level := lit_at st 0 (level (rf_board s))\<rparr>" by simp
  ultimately obtain s' where "rf_feed es s = Inr s'" "zigbee s' = z"
    "rf_board s' = (rf_board s)\<lparr>level := lit_at st (0 + length es) (level (rf_board s))\<rparr>"
    using rf_feed_quiet [OF assms(1-3) _ _ assms(5)] by blast
  then show ?thesis by (simp add: lit_at_def net_period_def s_leds_def)
qed

text \<open>A clock that goes on by one, and no bytes.\<close>

fun silent :: "u32 \<Rightarrow> nat \<Rightarrow> (u32 \<times> u32 \<times> u8 list) list" where
  "silent t 0 = []"
| "silent t (Suc n) = (t + 1, t + 1, []) # silent (t + 1) n"

lemma silent_facts:
  "rf_fresh t (silent t n) \<and> map (\<lambda>(t, t', bs). bs) (silent t n) = replicate n [] \<and> length (silent t n) = n"
  by (induction n arbitrary: t) simp_all

lemma rf_app_rhythm_example:
  "\<exists>z s'. zigbee_connect (zigbee_init 20 zigbee_bss) (Some Connect_cb) None = Inr z \<and>
     rf_feed (silent 0 299) \<lparr>zigbee = z, indicator = indicator_init (ind_at 0 0), rf_time_stamp = 0,
       rf_board = (board_reset :: (nat, nat) board)\<rparr> = Inr s' \<and> rf_app_busy s' \<and>
     level (rf_board s') (GPIOC, 13) \<and> level (rf_board s') (GPIOC, 15) \<and> \<not> level (rf_board s') (GPIOC, 14)"
proof -
  let ?z0 = "zigbee_init 20 zigbee_bss :: (rf_cb, unit) ZigbeeMesh"
  have ready: "zb_ready 0 ?z0" by (rule ready_init) simp
  obtain z q et where z: "zigbee_connect ?z0 (Some Connect_cb) None = Inr z" and
    f: "zb_feed (replicate 299 []) z = Inr (?z0\<lparr>event_tmp := et, event_queue := q, zb_tx := zb_tx ?z0 @ linkIns,
      zb_rx := zb_rx ?z0 @ concat (replicate 299 []),
      event := \<lparr>ev_timeout = 300, ev_tick = 300 - 1, ev_event = ZB_EVENT_LINK_MODULE, ev_arg = None, ev_cb = Some Connect_cb\<rparr>\<rparr>)"
    using request_waits [OF ready, of ZB_EVENT_LINK_MODULE 300 "replicate 299 []" linkIns "Some Connect_cb" None]
    by (auto simp: zigbee_connect_def)
  let ?s = "\<lparr>zigbee = z, indicator = indicator_init (ind_at 0 0), rf_time_stamp = 0,
    rf_board = (board_reset :: (nat, nat) board)\<rparr>"
  have c: "zb_calls z = zb_calls ?z0"
    using z by (auto simp: zigbee_connect_def zigbee_send_event_def Let_def bindR_eq_Inr)
  have "\<exists>s'. rf_feed (silent 0 299) ?s = Inr s' \<and>
    zigbee s' = ?z0\<lparr>event_tmp := et, event_queue := q, zb_tx := zb_tx ?z0 @ linkIns,
      zb_rx := zb_rx ?z0 @ concat (replicate 299 []),
      event := \<lparr>ev_timeout = 300, ev_tick = 300 - 1, ev_event = ZB_EVENT_LINK_MODULE, ev_arg = None, ev_cb = Some Connect_cb\<rparr>\<rparr> \<and>
    rf_board s' = (rf_board ?s)\<lparr>level := (\<lambda>p.
      if p = s_leds ! 0 then level (rf_board ?s) p \<or> silent 0 299 \<noteq> []
      else if p = s_leds ! 1 then
        level (rf_board ?s) p \<noteq> odd (length (silent 0 299) div (if EVENT_NET_DISCONNECTED = EVENT_NET_CONNECTED then 2000 else 1000))
      else if p = s_leds ! 2 then level (rf_board ?s) p \<noteq> odd (length (silent 0 299) div 200)
      else level (rf_board ?s) p)\<rparr>"
    by (rule rf_app_rhythm [where ind = "ind_at 0 0"])
       (use f c silent_facts [of 0 299] in \<open>simp_all add: indicator_init_def indicator_set_net_status_def\<close>)
  moreover have "silent 0 299 \<noteq> []" "length (silent 0 299) = 299" using silent_facts [of 0 299] by auto
  ultimately show ?thesis using z
    by (auto simp: rf_app_busy_def s_leds_def board_reset_def ind_consts simp del: silent.simps)
qed

end
