(* ===== verification/Logger.thy ===== *)
theory Logger
  imports Prelude
begin

text \<open>
  The logger (\<open>libs/logger/logger.c\<close>): a message is assembled in a global array of 4096
  characters without a check of its length and handed to the write function. The mutex of the
  source is compiled out, since nothing defines \<open>FREE_RTOS\<close>. \<open>'w\<close> names a write function.
\<close>

definition colors :: "string list" where
  "colors = [CHR 0x1B # ''[0m'', CHR 0x1B # ''[31m'', CHR 0x1B # ''[33m'', CHR 0x1B # ''[32m'', CHR 0x1B # ''[34m'']"

definition log_level_strings :: "string list" where
  "log_level_strings = [''[OFF]'', ''[ERROR]'', ''[WARNING]'', ''[INFO]'', ''[DEBUG]'']"

definition LOGGER_OFF :: nat where "LOGGER_OFF = 0"
definition LOGGER_ERROR :: nat where "LOGGER_ERROR = 1"
definition LOGGER_WARNING :: nat where "LOGGER_WARNING = 2"
definition LOGGER_INFO :: nat where "LOGGER_INFO = 3"
definition LOGGER_DEBUG :: nat where "LOGGER_DEBUG = 4"

definition crlf :: string where "crlf = [CHR 0x0D, CHR 0x0A]"

definition banner :: string where
  "banner = concat (map (\<lambda>l. l @ crlf)
    [''                                                                         ******               (((((('',
     ''                                                                           *****,.          ######'',
     ''                                                                             ,,,,,,,     ,######'',
     '' ###########                                                     ##     --     ,,,,,,,   #####'',
     '' ##          (##      ## (##########)  ##########  ###########. #####   ##       ,,,,,,,   #'',
     ''   -------##   ##   (##  (##       ##  ##.......#. ##       ,##  ##     ##         ,,,,,.'',
     '' ###########    (####    (#,       ##  ##       #. #########,##  ##     ##       ,***,..   #'',
     ''                 *##                               ##                          ,,,,,,*   (###('',
     ''               ###                                 ##                        ,,,,,,.      ######'',
     ''                                                                          ......,,         ######''])"

record 'w logger =
  LOG_LEVEL :: nat
  serial_write :: "'w option"
  log_out :: "('w \<times> string) list"

text \<open>\<open>strcat\<close> on the array: what is there, the addition and the terminator have to fit.\<close>

definition buff_size :: nat where "buff_size = 4096"

definition buff_cat :: "string \<Rightarrow> string \<Rightarrow> string res" where
  "buff_cat format str = (if length format + length str < buff_size then Inr (format @ str) else Inl Out_Of_Bounds)"

definition log_prefix :: "nat \<Rightarrow> string \<Rightarrow> string res" where
  "log_prefix level TAG =
     bindR (rd colors level) (\<lambda>c. bindR (rd log_level_strings level) (\<lambda>l. buff_cat [] (c @ l @ TAG @ '' : '')))"

definition log_write :: "'w logger \<Rightarrow> string \<Rightarrow> 'w logger" where
  "log_write s str = (case serial_write s of None \<Rightarrow> s | Some w \<Rightarrow> s\<lparr>log_out := log_out s @ [(w, str)]\<rparr>)"

text \<open>\<open>msg\<close> is the message as \<open>vsprintf\<close> formats it.\<close>

definition log_func :: "nat \<Rightarrow> string \<Rightarrow> string \<Rightarrow> 'w logger \<Rightarrow> 'w logger res" where
  "log_func level TAG msg s =
     (if LOG_LEVEL s < level then Inr s
      else
        bindR (log_prefix level TAG) (\<lambda>f1.
        bindR (buff_cat f1 msg) (\<lambda>f2.
        bindR (rd colors LOGGER_OFF) (\<lambda>c.
        bindR (buff_cat f2 c) (\<lambda>f3.
        bindR (buff_cat f3 crlf) (\<lambda>f4. Inr (log_write s f4)))))))"

definition logger_set_level :: "nat \<Rightarrow> 'w logger \<Rightarrow> 'w logger" where
  "logger_set_level level s = s\<lparr>LOG_LEVEL := level\<rparr>"

text \<open>\<open>%02X\<close> and a space.\<close>

definition hex2 :: "u8 \<Rightarrow> string" where
  "hex2 b = [''0123456789ABCDEF'' ! (unat b div 16), ''0123456789ABCDEF'' ! (unat b mod 16), CHR '' '']"

fun hex_loop :: "nat \<Rightarrow> nat \<Rightarrow> u8 list \<Rightarrow> string \<Rightarrow> string res" where
  "hex_loop 0 i hex_buff format = Inr format"
| "hex_loop (Suc n) i hex_buff format =
     bindR (rd hex_buff i) (\<lambda>b. bindR (buff_cat format (hex2 b)) (hex_loop n (i + 1) hex_buff))"

definition log_print_hex :: "nat \<Rightarrow> string \<Rightarrow> u8 list \<Rightarrow> u16 \<Rightarrow> 'w logger \<Rightarrow> 'w logger res" where
  "log_print_hex level TAG hex_buff len s =
     (if LOG_LEVEL s < level then Inr s
      else
        bindR (log_prefix level TAG) (\<lambda>f1.
        bindR (hex_loop (unat len) 0 hex_buff f1) (\<lambda>f2.
        bindR (buff_cat f2 crlf) (\<lambda>f3. Inr (log_write s f3)))))"

definition logger_init :: "nat \<Rightarrow> 'w option \<Rightarrow> 'w logger \<Rightarrow> 'w logger res" where
  "logger_init level p_func s =
     (let s1 = s\<lparr>LOG_LEVEL := level\<rparr>;
          s2 = (case p_func of None \<Rightarrow> s1 | Some f \<Rightarrow> s1\<lparr>serial_write := Some f\<rparr>) in
      case serial_write s2 of
        None \<Rightarrow> Inl Null_Pointer
      | Some w \<Rightarrow>
          bindR (rd colors LOGGER_INFO) (\<lambda>c.
          Inr (fold (\<lambda>str s. log_write s str) [c, crlf @ crlf, banner, crlf @ crlf, c] s2)))"

section \<open>When a line fits\<close>

lemma hex_loop_cat:
  assumes "i + n \<le> length bs" and "length format < buff_size"
  shows "hex_loop n i bs format =
    (if length format + 3 * n < buff_size then Inr (format @ concat (map hex2 (window i n bs))) else Inl Out_Of_Bounds)"
  using assms
proof (induction n arbitrary: i format)
  case (Suc n)
  have i: "i < length bs" using Suc.prems(1) by simp
  have w: "window i (Suc n) bs = bs ! i # window (Suc i) n bs"
    using i by (simp add: window_Suc)
  show ?case
  proof (cases "length format + 3 < buff_size")
    case True
    then have "hex_loop (Suc n) i bs format = hex_loop n (Suc i) bs (format @ hex2 (bs ! i))"
      using i by (simp add: buff_cat_def hex2_def)
    moreover have "length (format @ hex2 (bs ! i)) = length format + 3" by (simp add: hex2_def)
    ultimately show ?thesis using Suc.IH [of "Suc i" "format @ hex2 (bs ! i)"] Suc.prems(1) True w by simp
  next
    case False
    then show ?thesis using i by (simp add: buff_cat_def hex2_def)
  qed
qed (simp add: window_def)

lemma log_prefix_ok:
  assumes "level \<le> 4"
  shows "log_prefix level TAG =
    buff_cat [] (colors ! level @ log_level_strings ! level @ TAG @ '' : '')"
  using assms by (simp add: log_prefix_def colors_def log_level_strings_def)

text \<open>A hexadecimal dump is written exactly if it fits. At a level that is not filtered out, the line is
  the coloured level, the tag and two digits for each of the bytes; when the prefix, three
  characters a byte, the line end and the terminator exceed the 4096 characters of the global
  array, the function writes behind it.\<close>

lemma log_print_hex_fits:
  assumes "level \<le> 4" and "unat len \<le> length bs" and "serial_write s = Some w"
    and "p = colors ! level @ log_level_strings ! level @ TAG @ '' : ''"
  shows "log_print_hex level TAG bs len s =
    (if LOG_LEVEL s < level then Inr s
     else if length p + 3 * unat len + 2 < 4096
     then Inr (s\<lparr>log_out := log_out s @ [(w, p @ concat (map hex2 (take (unat len) bs)) @ crlf)]\<rparr>)
     else Inl Out_Of_Bounds)"
proof (cases "LOG_LEVEL s < level")
  case False
  have pre: "log_prefix level TAG = buff_cat [] p" using log_prefix_ok [OF assms(1)] assms(4) by simp
  show ?thesis
  proof (cases "length p < buff_size")
    case True
    have len: "length (concat (map hex2 xs)) = 3 * length xs" for xs
      by (induction xs) (simp_all add: hex2_def)
    have "length (window 0 (unat len) bs) = unat len" "window 0 (unat len) bs = take (unat len) bs"
      using assms(2) by (simp_all add: window_def)
    then show ?thesis
      using False True assms(2,3) hex_loop_cat [of 0 "unat len" bs p]
      by (simp add: log_print_hex_def pre buff_cat_def log_write_def len crlf_def buff_size_def)
  next
    case l: False
    then show ?thesis using False by (simp add: log_print_hex_def pre buff_cat_def buff_size_def)
  qed
qed (simp add: log_print_hex_def)

lemma log_print_hex_fits_example:
  "log_print_hex LOGGER_INFO ''RFDriver'' (replicate 1024 0) 1024
     \<lparr>LOG_LEVEL = 4, serial_write = Some (), log_out = []\<rparr> \<noteq> Inl Out_Of_Bounds \<and>
   log_print_hex LOGGER_INFO ''RFDriver'' (replicate 1400 0) 1400
     \<lparr>LOG_LEVEL = 4, serial_write = Some (), log_out = []\<rparr> = Inl Out_Of_Bounds"
proof -
  define a b where "a = replicate 1024 (0 :: u8)" and "b = replicate 1400 (0 :: u8)"
  have "length a = 1024" "length b = 1400" by (simp_all add: a_def b_def)
  then show ?thesis
    using log_print_hex_fits [OF _ _ _ refl, of 3 1024 a "\<lparr>LOG_LEVEL = 4, serial_write = Some (), log_out = []\<rparr>" "()" "''RFDriver''"]
      log_print_hex_fits [OF _ _ _ refl, of 3 1400 b "\<lparr>LOG_LEVEL = 4, serial_write = Some (), log_out = []\<rparr>" "()" "''RFDriver''"]
    unfolding a_def [symmetric] b_def [symmetric]
    by (simp add: LOGGER_INFO_def colors_def log_level_strings_def)
qed

end
