(* ===== verification/Application.thy ===== *)
theory Application
  imports Gateway Shell_App RF_App Logger
begin

text \<open>
  The firmware as a whole (\<open>app/app.c\<close>, the tasks it starts and the interrupts between them). One
  board and one bridge switch are shared by the Modbus task, the bridge task, the shell task and the
  logger; the components work on their parts of this state. When the turn of a task comes is left to the
  scheduler (\<open>Line_Owner\<close>). Start-up is a sequence of calls during which the USB task may already report the state
  of the serial line.
\<close>

record ('c, 't) firmware =
  fw_stack :: rtu_stack
  fw_board :: "('c, 't) board"
  fw_bridge :: bridge
  fw_usb_rx :: "u8 list"
  fw_usb_tx :: "u8 list"
  fw_shell :: "unit shell"
  fw_restarted :: bool
  fw_ind :: Indicator
  fw_log :: "unit logger"
  fw_poll_count :: nat
  fw_modbus_task :: bool
  fw_shell_task :: bool
  fw_app_task :: bool

section \<open>The log\<close>

definition BSP_LOGGER :: int where "BSP_LOGGER = 0"

definition uart_log_write :: "int \<Rightarrow> string \<Rightarrow> ('c, 't) board \<Rightarrow> ('c, 't) board res" where
  "uart_log_write status s b =
     bindR (bsp_uart_transmit status b BSP_LOGGER (map char_byte s) (word_of_nat (length s))) (\<lambda>(b', r). Inr b')"

fun write_all :: "int \<Rightarrow> string list \<Rightarrow> ('c, 't) board \<Rightarrow> ('c, 't) board res" where
  "write_all status [] b = Inr b"
| "write_all status (s # ss) b = bindR (uart_log_write status s b) (write_all status ss)"

text \<open>A call of the logger, what it writes going to its UART.\<close>

definition logging :: "int \<Rightarrow> (unit logger \<Rightarrow> unit logger res) \<Rightarrow> ('c, 't) firmware \<Rightarrow> ('c, 't) firmware res" where
  "logging status call f =
     bindR (call ((fw_log f)\<lparr>log_out := []\<rparr>)) (\<lambda>l.
     bindR (write_all status (map snd (log_out l)) (fw_board f)) (\<lambda>b.
     Inr (f\<lparr>fw_log := l\<lparr>log_out := []\<rparr>, fw_board := b\<rparr>)))"

section \<open>Start-up\<close>

text \<open>
  What the calls of the start meet: the storage of the two queues, whether the tasks can be created,
  whether the task handle on the stack of \<open>modbus_service_init\<close>, which a failed creation leaves as it is,
  happens not to be null, what the last message is formatted to, and what the USB task reports
  of the line before the Modbus task is known to the bridge, before the bridge task exists, and after.
  (\<open>bsp_init\<close> does nothing.)
\<close>

record start_env =
  se_log_queue :: "u8 list option"
  se_line_queue :: "u8 list option"
  se_handle :: bool
  se_modbus_task :: bool
  se_stale :: bool
  se_bridge_task :: bool
  se_shell_task :: bool
  se_app_task :: bool
  se_message :: string
  se_status :: int
  se_early :: "bridge_event list"
  se_mid :: "bridge_event list"
  se_late :: "bridge_event list"

definition app_logger_init :: "start_env \<Rightarrow> ('c, 't) firmware \<Rightarrow> ('c, 't) firmware res" where
  "app_logger_init e f =
     bindR (bsp_uart_init (se_log_queue e) (fw_board f) BSP_LOGGER) (\<lambda>(b, _).
     bindR (logging (se_status e) (logger_init LOGGER_DEBUG (Some ())) (f\<lparr>fw_board := b\<rparr>)) (\<lambda>f1.
     logging (se_status e) (log_func LOGGER_INFO ''APP'' ''Logger Init Success'') f1))"

definition usb_reports :: "bridge_event list \<Rightarrow> ('c, 't) firmware \<Rightarrow> ('c, 't) firmware" where
  "usb_reports evs f = f\<lparr>fw_bridge := fold bridge_handle evs (fw_bridge f)\<rparr>"

text \<open>\<open>modbus_service_init\<close> with its first call and its last two.\<close>

definition modbus_start :: "start_env \<Rightarrow> ('c, 't) firmware \<Rightarrow> ('c, 't) firmware res" where
  "modbus_start e f =
     bindR (gateway_init (se_line_queue e) (se_handle e) \<lparr>gw_stack = fw_stack f, gw_board = fw_board f\<rparr>) (\<lambda>g.
     let f1 = f\<lparr>fw_stack := gw_stack g, fw_board := gw_board g, fw_modbus_task := se_modbus_task e\<rparr> in
     Inr (f1\<lparr>fw_bridge := usb_rs485_set_modbus_handle (fw_bridge f1) (se_modbus_task e \<or> se_stale e)\<rparr>))"

definition app_init :: "start_env \<Rightarrow> ('c, 't) firmware \<Rightarrow> ('c, 't) firmware res" where
  "app_init e f =
     bindR (app_logger_init e f) (\<lambda>f1.
     let f2 = f1\<lparr>fw_ind := indicator_init (fw_ind f1)\<rparr>;
         (sh, shell_task) = shell_app_init (se_shell_task e) (fw_shell f2);
         f3 = usb_reports (se_early e) (f2\<lparr>fw_shell := sh, fw_shell_task := shell_task\<rparr>) in
     bindR (modbus_start e f3) (\<lambda>f4.
     let f5 = usb_reports (se_mid e) f4;
         f6 = f5\<lparr>fw_bridge := usb_rs485_init (fw_bridge f5) (se_bridge_task e)\<rparr>;
         f7 = usb_reports (se_late e) (f6\<lparr>fw_app_task := se_app_task e\<rparr>) in
     logging (se_status e) (log_func LOGGER_INFO ''APP'' (se_message e)) f7))"

text \<open>\<open>app_task\<close> writes one line and deletes itself.\<close>

definition app_task :: "int \<Rightarrow> ('c, 't) firmware \<Rightarrow> ('c, 't) firmware res" where
  "app_task status f =
     bindR (logging status (log_func LOGGER_INFO ''APP'' ''APP TASK IS CREATED'') f) (\<lambda>f1.
     Inr (f1\<lparr>fw_app_task := False\<rparr>))"

section \<open>The tasks and interrupts\<close>

definition with_dev :: "'d shell \<Rightarrow> 'e \<Rightarrow> 'e shell" where
  "with_dev s d = \<lparr>sh_booted = sh_booted s, rx_size = rx_size s, rx_buffer = rx_buffer s, sent = sent s, dev = d\<rparr>"

text \<open>The shell task works on the board and on the bridge.\<close>

definition shell_view :: "('c, 't) firmware \<Rightarrow> ('c, 't) shell_dev shell" where
  "shell_view f = with_dev (fw_shell f)
     \<lparr>sd_board = fw_board f, sd_bridge = fw_bridge f, restarted = fw_restarted f\<rparr>"

definition shell_result :: "('c, 't) shell_dev shell \<Rightarrow> ('c, 't) firmware \<Rightarrow> ('c, 't) firmware" where
  "shell_result s f = f\<lparr>fw_shell := with_dev s (), fw_board := sd_board (dev s),
     fw_bridge := sd_bridge (dev s), fw_restarted := restarted (dev s)\<rparr>"

definition bridge_view :: "('c, 't) firmware \<Rightarrow> ('c, 't) bridge_sys" where
  "bridge_view f = \<lparr>br = fw_bridge f, bd = fw_board f, usb_rx = fw_usb_rx f, usb_tx = fw_usb_tx f\<rparr>"

definition bridge_result :: "('c, 't) bridge_sys \<Rightarrow> ('c, 't) firmware \<Rightarrow> ('c, 't) firmware" where
  "bridge_result s f = f\<lparr>fw_bridge := br s, fw_board := bd s, fw_usb_rx := usb_rx s, fw_usb_tx := usb_tx s\<rparr>"

text \<open>A turn of \<open>modbus_task\<close>, with its sign of life at every fiftieth.\<close>

definition MODBUS_HEARTBEAT_EVERY_N_POLLS :: nat where "MODBUS_HEARTBEAT_EVERY_N_POLLS = 50"

definition modbus_turn ::
  "nat \<Rightarrow> nat \<Rightarrow> int \<Rightarrow> poll_env list \<Rightarrow> ('c, 't) firmware \<Rightarrow> ('c, 't) firmware option res" where
  "modbus_turn ntasks cur status es f =
     bindR (gateway_round ntasks cur es \<lparr>gw_stack = fw_stack f, gw_board = fw_board f\<rparr>) (\<lambda>r.
     case r of
       None \<Rightarrow> Inr None
     | Some g \<Rightarrow>
         (let f1 = f\<lparr>fw_stack := gw_stack g, fw_board := gw_board g, fw_poll_count := fw_poll_count f + 1\<rparr> in
          if fw_poll_count f1 \<ge> MODBUS_HEARTBEAT_EVERY_N_POLLS then
            bindR (logging status (log_func LOGGER_INFO ''SERVICE MODBUS''
                     (''modbus_task alive, bridge_enabled='' @ show_int (of_bool (usb_rs485_is_enabled (fw_bridge f1)))))
                   (f1\<lparr>fw_poll_count := 0\<rparr>)) (\<lambda>f2. Inr (Some f2))
          else Inr (Some f1)))"

datatype fw_event = Usb_Line u8 bool bool | Shell_Bytes "u8 list" | Line_Byte u8 | Line_Timer
  | Modbus_Turn "poll_env list" | Bridge_Turn turn_env

text \<open>
  A step of the firmware: an interrupt, a report of the USB task, or a turn of a task that was created,
  whenever it comes. None is a task that is still waiting. After a restart nothing moves.
\<close>

fun fw_step :: "nat \<Rightarrow> nat \<Rightarrow> int \<Rightarrow> fw_event \<Rightarrow> ('c, 't) firmware \<Rightarrow> ('c, 't) firmware option res" where
  "fw_step ntasks cur status (Usb_Line itf dtr rts) f =
     Inr (Some (f\<lparr>fw_bridge := tud_cdc_line_state_cb (fw_bridge f) itf dtr rts\<rparr>))"
| "fw_step ntasks cur status (Shell_Bytes bs) f =
     (if \<not> fw_shell_task f then Inr (Some f)
      else bindR (shell_rx_round s_shell_commands run_command (shell_view f) bs) (\<lambda>(s, rx, returned).
           Inr (Some (shell_result s f))))"
| "fw_step ntasks cur status (Line_Byte x) f =
     bindR (bsp_uart_rx_cb ntasks cur False (fw_board f) BSP_RS485 [x] 1) (\<lambda>(b, _).
     Inr (Some (f\<lparr>fw_board := b\<rparr>)))"
| "fw_step ntasks cur status Line_Timer f =
     bindR (mb_timer0_callback (fw_stack f)) (\<lambda>s. Inr (Some (f\<lparr>fw_stack := s\<rparr>)))"
| "fw_step ntasks cur status (Modbus_Turn es) f =
     (if \<not> fw_modbus_task f then Inr (Some f) else modbus_turn ntasks cur status es f)"
| "fw_step ntasks cur status (Bridge_Turn env) f =
     (if \<not> has_bridge_task (fw_bridge f) then Inr (Some f)
      else bindR (bridge_round cur env (bridge_view f)) (\<lambda>r. Inr (map_option (\<lambda>s. bridge_result s f) r)))"

fun fw_run :: "nat \<Rightarrow> nat \<Rightarrow> int \<Rightarrow> fw_event list \<Rightarrow> ('c, 't) firmware \<Rightarrow> ('c, 't) firmware option res" where
  "fw_run ntasks cur status [] f = Inr (Some f)"
| "fw_run ntasks cur status (ev # evs) f =
     (if fw_restarted f then Inr (Some f)
      else bindR (fw_step ntasks cur status ev f) (\<lambda>r.
           case r of None \<Rightarrow> Inr None | Some f' \<Rightarrow> fw_run ntasks cur status evs f'))"

section \<open>What the log does to the board\<close>

definition log_frame :: "('c, 't) board \<Rightarrow> ('c, 't) board \<Rightarrow> bool" where
  "log_frame b b' \<longleftrightarrow> board_inv b' \<and> rx_queue b' = rx_queue b \<and> level b' = level b \<and> tx_out b' ! 1 = tx_out b ! 1"

lemma write_ok:
  assumes "board_inv b"
  shows "\<exists>b'. uart_log_write st s b = Inr b' \<and> log_frame b b'"
proof -
  have "unat (word_of_nat (length s) :: u32) \<le> length s"
    by (simp add: unsigned_of_nat take_bit_nat_less_eq_self)
  then show ?thesis using assms
    by (auto simp: uart_log_write_def bsp_uart_transmit_def BSP_LOGGER_def bsp_nums board_inv_def rd_def log_frame_def)
qed

lemma write_all_ok:
  assumes "board_inv b"
  shows "\<exists>b'. write_all st ss b = Inr b' \<and> log_frame b b'"
  using assms
proof (induction ss arbitrary: b)
  case (Cons s ss)
  obtain b1 where b1: "uart_log_write st s b = Inr b1" "log_frame b b1" using write_ok [OF Cons.prems] by blast
  then obtain b2 where "write_all st ss b1 = Inr b2" "log_frame b1 b2"
    using Cons.IH [of b1] by (auto simp: log_frame_def)
  then show ?case using b1 by (auto simp: log_frame_def)
qed (simp add: log_frame_def)

lemma logging_ok:
  assumes "board_inv (fw_board f)" and "call ((fw_log f)\<lparr>log_out := []\<rparr>) = Inr l"
  shows "\<exists>b'. logging st call f = Inr (f\<lparr>fw_log := l\<lparr>log_out := []\<rparr>, fw_board := b'\<rparr>) \<and> log_frame (fw_board f) b'"
  using write_all_ok [OF assms(1), of st "map snd (log_out l)"] assms(2) by (auto simp: logging_def)

lemma log_frame_holds: "log_frame b b' \<Longrightarrow> gw_holds b st \<Longrightarrow> gw_holds b' st"
  by (auto simp: log_frame_def gw_holds_def uart_queue_def)

text \<open>A short message is written, once the logger has its output.\<close>

lemma log_func_ok:
  assumes "serial_write l = Some w" and "length TAG + length msg < 4000"
  shows "\<exists>out. log_func LOGGER_INFO TAG msg l = Inr (l\<lparr>log_out := out\<rparr>)"
proof (cases "LOG_LEVEL l < 3")
  case True
  have "l = l\<lparr>log_out := log_out l\<rparr>" by simp
  then show ?thesis using True by (metis log_func_def LOGGER_INFO_def)
next
  case False
  have p: "log_prefix 3 TAG = buff_cat [] (colors ! 3 @ log_level_strings ! 3 @ TAG @ '' : '')"
    using log_prefix_ok [of 3 TAG] by simp
  have c: "length (colors ! 3) = 5" "length (log_level_strings ! 3) = 6" "rd colors 0 = Inr (CHR 0x1B # ''[0m'')"
    by (simp_all add: colors_def log_level_strings_def rd_def)
  show ?thesis
    using assms False p c
    by (simp add: log_func_def LOGGER_INFO_def LOGGER_OFF_def buff_cat_def buff_size_def crlf_def log_write_def) blast
qed

section \<open>Start-up\<close>

lemma logger_init_ok:
  "\<exists>out. logger_init LOGGER_DEBUG (Some ()) l = Inr (l\<lparr>LOG_LEVEL := 4, serial_write := Some (), log_out := out\<rparr>)"
proof -
  have w: "\<exists>out. fold (\<lambda>str s. log_write s str) strs s = s\<lparr>log_out := out\<rparr>" if "serial_write s = Some ()" for strs and s :: "unit logger"
    using that
  proof (induction strs arbitrary: s)
    case Nil
    have "s = s\<lparr>log_out := log_out s\<rparr>" by simp
    then show ?case by (metis fold_Nil id_apply)
  next
    case (Cons str strs)
    from Cons.IH [of "log_write s str"] Cons.prems show ?case by (auto simp: log_write_def)
  qed
  let ?s = "l\<lparr>LOG_LEVEL := 4, serial_write := Some ()\<rparr>"
  have "serial_write ?s = Some ()" by simp
  from w [OF this] obtain out where
    "fold (\<lambda>str s. log_write s str) [colors ! 3, crlf @ crlf, banner, crlf @ crlf, colors ! 3] ?s = ?s\<lparr>log_out := out\<rparr>"
    by blast
  then show ?thesis
    by (intro exI [of _ out]) (simp add: logger_init_def LOGGER_DEBUG_def LOGGER_INFO_def rd_def Let_def colors_def)
qed

lemma info_ok:
  assumes "board_inv (fw_board f)" and "serial_write (fw_log f) = Some ()" and "length TAG + length msg < 4000"
  shows "\<exists>b'. logging st (log_func LOGGER_INFO TAG msg) f =
      Inr (f\<lparr>fw_log := (fw_log f)\<lparr>log_out := []\<rparr>, fw_board := b'\<rparr>) \<and> log_frame (fw_board f) b'"
proof -
  obtain out where "log_func LOGGER_INFO TAG msg ((fw_log f)\<lparr>log_out := []\<rparr>) = Inr ((fw_log f)\<lparr>log_out := out\<rparr>)"
    using log_func_ok [of "(fw_log f)\<lparr>log_out := []\<rparr>" "()" TAG msg] assms(2,3) by auto
  from logging_ok [of f "log_func LOGGER_INFO TAG msg", OF assms(1) this, of st] show ?thesis by simp
qed

text \<open>The memory suffices, the tasks can be created, and the last message has a sane length.\<close>

definition start_ok :: "start_env \<Rightarrow> bool" where
  "start_ok e \<longleftrightarrow> (\<exists>st. se_log_queue e = Some st \<and> length st = 256) \<and> (\<exists>st. se_line_queue e = Some st \<and> length st = 256) \<and>
     se_handle e \<and> se_modbus_task e \<and> se_bridge_task e \<and> se_shell_task e \<and> length (se_message e) < 3900"

lemma fold_handle_inv:
  "bridge_inv b \<Longrightarrow> bridge_inv (fold bridge_handle evs b) \<and> s_enabled (fold bridge_handle evs b) = wanted evs (s_enabled b) \<and>
   has_bridge_task (fold bridge_handle evs b) = has_bridge_task b"
proof (induction evs arbitrary: b)
  case (Cons ev evs)
  have "has_bridge_task (bridge_handle ev b) = has_bridge_task b"
    by (cases ev) (auto simp: usb_rs485_enable_def usb_rs485_disable_def tud_cdc_line_state_cb_def Let_def)
  then show ?case using Cons.IH [of "bridge_handle ev b"] handle_inv [OF Cons.prems, of ev] wanted_append [of "[ev]" evs]
    by simp
qed simp

lemma fold_handle_alone:
  "\<not> has_modbus_task b \<Longrightarrow> \<not> has_bridge_task b \<Longrightarrow>
   fold bridge_handle evs b = b\<lparr>s_enabled := wanted evs (s_enabled b)\<rparr>"
proof (induction evs arbitrary: b)
  case (Cons ev evs)
  have e: "bridge_handle ev b = b\<lparr>s_enabled := wanted [ev] (s_enabled b)\<rparr>"
    using Cons.prems by (cases ev)
      (auto simp: usb_rs485_enable_def usb_rs485_disable_def tud_cdc_line_state_cb_def BSP_USB_BRIDGE_CH_def Let_def)
  show ?case using Cons.IH [of "bridge_handle ev b"] Cons.prems e wanted_append [of "[ev]" evs] by simp
qed simp

lemma app_start:
  fixes f :: "('c, 't) firmware"
  assumes e: "start_ok e" and b: "board_inv (fw_board f)" and s: "fw_stack f = rtu_stack_reset a"
    and br: "fw_bridge f = bridge_reset"
  defines "early \<equiv> wanted (se_early e) False"
  shows "\<exists>f'. app_init e f = Inr f' \<and> modbus_service_init True (rtu_stack_reset a) = Inr (fw_stack f') \<and>
    gw_holds (fw_board f') [] \<and> fw_modbus_task f' \<and> fw_shell_task f' \<and> sh_booted (fw_shell f') \<and>
    has_bridge_task (fw_bridge f') \<and> fw_bridge f' = (fold bridge_handle (se_late e)
      (usb_rs485_init (fold bridge_handle (se_mid e) (usb_rs485_set_modbus_handle (bridge_reset\<lparr>s_enabled := early\<rparr>) True)) True)) \<and>
    serial_write (fw_log f') = Some () \<and> fw_restarted f' = fw_restarted f \<and> fw_usb_tx f' = fw_usb_tx f"
proof -
  obtain st1 st2 where q: "se_log_queue e = Some st1" "length st1 = 256" "se_line_queue e = Some st2" "length st2 = 256"
    using e by (auto simp: start_ok_def)
  obtain b1 where b1: "bsp_uart_init (Some st1) (fw_board f) 0 = Inr (b1, 0)" "board_inv b1"
    using uart_init_ok [OF b, of 0 st1] q(2) by auto
  let ?f1 = "f\<lparr>fw_board := b1\<rparr>"
  obtain out where l: "logger_init LOGGER_DEBUG (Some ()) ((fw_log ?f1)\<lparr>log_out := []\<rparr>) =
      Inr ((fw_log ?f1)\<lparr>log_out := [], LOG_LEVEL := 4, serial_write := Some (), log_out := out\<rparr>)"
    using logger_init_ok [of "(fw_log ?f1)\<lparr>log_out := []\<rparr>"] by auto
  obtain b2 where b2: "logging (se_status e) (logger_init LOGGER_DEBUG (Some ())) ?f1 =
      Inr (?f1\<lparr>fw_log := ((fw_log ?f1)\<lparr>LOG_LEVEL := 4, serial_write := Some ()\<rparr>)\<lparr>log_out := []\<rparr>, fw_board := b2\<rparr>)"
    "log_frame b1 b2"
    using logging_ok [of ?f1 "logger_init LOGGER_DEBUG (Some ())" _ "se_status e", OF _ l] b1(2) by auto
  define f2 where "f2 = ?f1\<lparr>fw_log := ((fw_log ?f1)\<lparr>LOG_LEVEL := 4, serial_write := Some ()\<rparr>)\<lparr>log_out := []\<rparr>, fw_board := b2\<rparr>"
  have i2: "board_inv (fw_board f2)" "serial_write (fw_log f2) = Some ()" using b2(2) by (simp_all add: f2_def log_frame_def)
  obtain b3 where b3: "logging (se_status e) (log_func LOGGER_INFO ''APP'' ''Logger Init Success'') f2 =
      Inr (f2\<lparr>fw_log := (fw_log f2)\<lparr>log_out := []\<rparr>, fw_board := b3\<rparr>)" "log_frame (fw_board f2) b3"
    using info_ok [OF i2, of "''APP''" "''Logger Init Success''" "se_status e"] by auto
  have i3: "board_inv b3" using b3(2) by (simp add: log_frame_def)
  define f3 where "f3 = f2\<lparr>fw_log := (fw_log f2)\<lparr>log_out := []\<rparr>, fw_board := b3\<rparr>"
  have li: "app_logger_init e f = Inr f3"
    using b1(1) b2(1) b3(1) q(1) by (simp add: app_logger_init_def BSP_LOGGER_def f2_def f3_def)
  obtain b4 qq where b4: "bsp_uart_init (Some st2) b3 1 = Inr (b4, 0)" "board_inv b4" "uart_queue b4 1 = Inr qq" "rq_contents qq = []"
    using uart_init_ok [OF i3, of 1 st2] q(4) by auto
  obtain s0 where s0: "modbus_service_init True (rtu_stack_reset a) = Inr s0" using service_boot [of a] by blast
  define f4 where "f4 = f3\<lparr>fw_ind := indicator_init (fw_ind f3), fw_shell := (fw_shell f3)\<lparr>sh_booted := True\<rparr>, fw_shell_task := True,
      fw_bridge := fold bridge_handle (se_early e) (fw_bridge f3)\<rparr>"
  have br3: "fw_bridge f3 = bridge_reset" "fw_stack f3 = rtu_stack_reset a" using br s by (simp_all add: f3_def f2_def)
  have br4: "fw_bridge f4 = bridge_reset\<lparr>s_enabled := early\<rparr>"
    using fold_handle_alone [of bridge_reset "se_early e"] by (simp add: f4_def br3 bridge_reset_def early_def)
  have br5: "fold bridge_handle (se_early e) (fw_bridge f) = bridge_reset\<lparr>s_enabled := early\<rparr>"
    using br4 br br3(1) by (simp add: f4_def)
  define f5 where "f5 = f4\<lparr>fw_stack := s0, fw_board := b4, fw_modbus_task := True,
      fw_bridge := usb_rs485_set_modbus_handle (fw_bridge f4) True\<rparr>"
  have ms: "modbus_start e f4 = Inr f5"
    using e q(3) s0 b4(1) br3(2)
    by (simp add: modbus_start_def gateway_init_def start_ok_def f4_def f5_def f3_def Let_def)
  define f6 where "f6 = f5\<lparr>fw_app_task := se_app_task e, fw_bridge := fold bridge_handle (se_late e)
      (usb_rs485_init (fold bridge_handle (se_mid e) (fw_bridge f5)) True)\<rparr>"
  have i6: "board_inv (fw_board f6)" "serial_write (fw_log f6) = Some ()"
    using b4(2) i2(2) by (simp_all add: f6_def f5_def f4_def f3_def)
  obtain b7 where b7: "logging (se_status e) (log_func LOGGER_INFO ''APP'' (se_message e)) f6 =
      Inr (f6\<lparr>fw_log := (fw_log f6)\<lparr>log_out := []\<rparr>, fw_board := b7\<rparr>)" "log_frame (fw_board f6) b7"
    using info_ok [OF i6, of "''APP''" "se_message e" "se_status e"] e by (auto simp: start_ok_def)
  let ?f = "f6\<lparr>fw_log := (fw_log f6)\<lparr>log_out := []\<rparr>, fw_board := b7\<rparr>"
  have run: "app_init e f = Inr ?f"
  proof -
    have "app_init e f = bindR (modbus_start e f4) (\<lambda>f4.
        logging (se_status e) (log_func LOGGER_INFO ''APP'' (se_message e))
          (usb_reports (se_late e) ((usb_reports (se_mid e) f4)\<lparr>fw_bridge :=
             usb_rs485_init (fw_bridge (usb_reports (se_mid e) f4)) (se_bridge_task e), fw_app_task := se_app_task e\<rparr>)))"
      using e by (simp add: app_init_def li shell_app_init_def start_ok_def usb_reports_def f4_def Let_def)
    also have "\<dots> = logging (se_status e) (log_func LOGGER_INFO ''APP'' (se_message e)) f6"
      using e by (simp add: ms usb_reports_def f6_def start_ok_def)
    finally show ?thesis using b7(1) by simp
  qed
  have "gw_holds (fw_board f6) []" using b4 by (simp add: gw_holds_def f6_def f5_def)
  then have h: "gw_holds b7 []" using log_frame_holds [OF b7(2)] by blast
  have hb: "has_bridge_task (fold bridge_handle evs b) = has_bridge_task b" for evs b
  proof (induction evs arbitrary: b)
    case (Cons ev evs)
    have "has_bridge_task (bridge_handle ev b) = has_bridge_task b"
      by (cases ev) (auto simp: usb_rs485_enable_def usb_rs485_disable_def tud_cdc_line_state_cb_def Let_def)
    then show ?case using Cons.IH by simp
  qed simp
  show ?thesis
    using run h s0 i6(2) hb
    by (intro exI [of _ ?f]) (simp add: f6_def f5_def f4_def f3_def f2_def br5 usb_rs485_init_def)
qed

section \<open>Bytes for the terminal\<close>

text \<open>The bytes that arrive between two turns of a task pile up.\<close>

lemma fw_run_bytes:
  assumes "gw_holds (fw_board f) st" and "\<not> fw_restarted f"
  shows "\<exists>b'. fw_run n c status (map Line_Byte bs @ evs) f = fw_run n c status evs (f\<lparr>fw_board := b'\<rparr>) \<and>
    gw_holds b' (stacked bs st)"
  using assms
proof (induction bs arbitrary: f st)
  case Nil
  have "f = f\<lparr>fw_board := fw_board f\<rparr>" by simp
  then show ?case using Nil by (metis append_Nil list.map(1) stacked_def take_Nil rev.simps(1))
next
  case (Cons x bs)
  obtain b1 w where b1: "bsp_uart_rx_cb n c False (fw_board f) 1 [x] 1 = Inr (b1, w, 0)" "gw_holds b1 (stacked [x] st)"
    using holds_interrupt [OF Cons.prems(1), of "[x]" n c False] by auto
  from Cons.IH [of "f\<lparr>fw_board := b1\<rparr>" "stacked [x] st"] b1 Cons.prems(2) show ?case
    by (simp add: stacked_step bridge_consts)
qed

lemma bridge_delivers:
  assumes "gw_holds (fw_board f) st" and "s_enabled (fw_bridge f)" and "has_bridge_task (fw_bridge f)"
    and "env_mounted env" and "env_connected env" and "env_ready env" and "length st \<le> env_room env"
    and "length st \<le> length (env_turns env)" and "\<forall>t \<in> set (env_turns env). fst t - env_tick env < 10"
  shows "\<exists>f'. fw_step n c status (Bridge_Turn env) f = Inr (Some f') \<and> fw_usb_tx f' = fw_usb_tx f @ st \<and>
    gw_holds (fw_board f') [] \<and> fw_stack f' = fw_stack f \<and> fw_bridge f' = fw_bridge f"
proof -
  obtain q where q: "board_inv (bd (bridge_view f))" "uart_queue (bd (bridge_view f)) 1 = Inr q" "rq_contents q = st"
    using assms(1) by (auto simp: gw_holds_def bridge_view_def)
  obtain s' q' where s': "bridge_round c env (bridge_view f) = Inr (Some s')"
    "usb_tx s' = usb_tx (bridge_view f) @ take (env_room env) st"
    "uart_queue (bd s') 1 = Inr q'" "rq_contents q' = []" "board_inv (bd s')" "br s' = fw_bridge f"
    using round_moves [OF q assms(8,9,4), of c] assms(2,5,6) by (auto simp: bridge_view_def)
  then show ?thesis using assms(3,7)
    by (intro exI [of _ "bridge_result s' f"]) (simp add: bridge_result_def gw_holds_def bridge_view_def)
qed

section \<open>Properties\<close>

text \<open>C4: With enough memory the start of the application completes: the queue of the line is empty, the
  Modbus stack is as its service leaves it, and the log has its output. The bridge and the Modbus
  task agree on who owns the line, the last report of the USB task deciding, unless the
  terminal was opened before the Modbus task was made known to the bridge: then both work on
  the line after the start. (The priorities the firmware gives its tasks let the USB task run only
  when the start is over.)\<close>

theorem app_start_owner:
  fixes f :: "('c, 't) firmware"
  assumes "start_ok e" and "board_inv (fw_board f)" and "fw_stack f = rtu_stack_reset a" and "fw_bridge f = bridge_reset"
  shows "\<exists>f'. app_init e f = Inr f' \<and> modbus_service_init True (rtu_stack_reset a) = Inr (fw_stack f') \<and>
    gw_holds (fw_board f') [] \<and> has_bridge_task (fw_bridge f') \<and> serial_write (fw_log f') = Some () \<and>
    (\<not> wanted (se_early e) False \<longrightarrow>
       bridge_inv (fw_bridge f') \<and> s_enabled (fw_bridge f') = wanted (se_mid e @ se_late e) False) \<and>
    (wanted (se_early e) False \<and> se_mid e = [] \<and> se_late e = [] \<longrightarrow>
       s_enabled (fw_bridge f') \<and> fw_modbus_task f' \<and> \<not> modbus_suspended (fw_bridge f'))"
proof -
  let ?early = "wanted (se_early e) False"
  let ?b = "usb_rs485_set_modbus_handle (bridge_reset\<lparr>s_enabled := ?early\<rparr>) True"
  obtain f' where f': "app_init e f = Inr f'" "modbus_service_init True (rtu_stack_reset a) = Inr (fw_stack f')"
    "gw_holds (fw_board f') []" "fw_modbus_task f'" "has_bridge_task (fw_bridge f')"
    "fw_bridge f' = fold bridge_handle (se_late e) (usb_rs485_init (fold bridge_handle (se_mid e) ?b) True)"
    "serial_write (fw_log f') = Some ()"
    using app_start [OF assms] by blast
  have init: "bridge_inv (usb_rs485_init b True) = bridge_inv b" "s_enabled (usb_rs485_init b True) = s_enabled b" for b
    by (simp_all add: usb_rs485_init_def bridge_inv_def)
  have "bridge_inv (fw_bridge f') \<and> s_enabled (fw_bridge f') = wanted (se_mid e @ se_late e) False" if "\<not> ?early"
  proof -
    have "bridge_inv ?b" "\<not> s_enabled ?b"
      using that by (simp_all add: bridge_inv_def bridge_reset_def usb_rs485_set_modbus_handle_def)
    then show ?thesis using fold_handle_inv [of ?b "se_mid e"] fold_handle_inv [of "usb_rs485_init (fold bridge_handle (se_mid e) ?b) True" "se_late e"]
      by (simp add: f'(6) init wanted_append)
  qed
  moreover have "s_enabled (fw_bridge f') \<and> \<not> modbus_suspended (fw_bridge f')"
    if "?early" "se_mid e = []" "se_late e = []"
    using that by (simp add: f'(6) usb_rs485_init_def usb_rs485_set_modbus_handle_def bridge_reset_def)
  ultimately show ?thesis using f' by blast
qed

definition start_env0 :: "bridge_event list \<Rightarrow> start_env" where
  "start_env0 early = \<lparr>se_log_queue = Some (replicate 256 0), se_line_queue = Some (replicate 256 0), se_handle = True,
     se_modbus_task = True, se_stale = False, se_bridge_task = True, se_shell_task = True, se_app_task = True,
     se_message = ''app_init'', se_status = 0, se_early = early, se_mid = [], se_late = []\<rparr>"

definition firmware_reset :: "(nat, nat) firmware" where
  "firmware_reset = \<lparr>fw_stack = rtu_stack_reset 0, fw_board = board_reset, fw_bridge = bridge_reset, fw_usb_rx = [],
     fw_usb_tx = [], fw_shell = \<lparr>sh_booted = False, rx_size = 0, rx_buffer = replicate 256 NUL, sent = [], dev = ()\<rparr>,
     fw_restarted = False,
     fw_ind = \<lparr>ind_fn_on = None, ind_fn_off = None, ind_fn_toggle = None, timer_status = 0, timer_net = 0, net_connect = 0\<rparr>,
     fw_log = \<lparr>LOG_LEVEL = 0, serial_write = None, log_out = []\<rparr>, fw_poll_count = 0, fw_modbus_task = False,
     fw_shell_task = False, fw_app_task = False\<rparr>"

lemma start_env0_ok: "start_ok (start_env0 early)"
  by (simp add: start_ok_def start_env0_def)

theorem app_start_owner_witness:
  "(\<exists>f'. app_init (start_env0 []) firmware_reset = Inr f' \<and> bridge_inv (fw_bridge f')) \<and>
   (\<exists>f'. app_init (start_env0 [Line_State 1 True False]) firmware_reset = Inr f' \<and>
      s_enabled (fw_bridge f') \<and> \<not> modbus_suspended (fw_bridge f'))"
proof -
  have b: "board_inv (fw_board firmware_reset)" "fw_stack firmware_reset = rtu_stack_reset 0" "fw_bridge firmware_reset = bridge_reset"
    by (simp_all add: firmware_reset_def board_inv_reset)
  show ?thesis
    using app_start_owner [OF start_env0_ok b, of "[]"] app_start_owner [OF start_env0_ok b, of "[Line_State 1 True False]"]
    by (auto simp: start_env0_def)
qed

text \<open>The firmware after the start, with the terminal open.\<close>

lemma open_terminal:
  "\<exists>f. app_init ((start_env0 [])\<lparr>se_late := [Line_State 1 True False]\<rparr>) firmware_reset = Inr f \<and>
     bridge_inv (fw_bridge f) \<and> s_enabled (fw_bridge f) \<and> gw_holds (fw_board f) [] \<and> has_bridge_task (fw_bridge f) \<and> \<not> fw_restarted f \<and> fw_usb_tx f = []"
proof -
  let ?e = "(start_env0 [])\<lparr>se_late := [Line_State 1 True False]\<rparr>"
  have e: "start_ok ?e" by (simp add: start_ok_def start_env0_def)
  obtain f where f: "app_init ?e firmware_reset = Inr f" "modbus_service_init True (rtu_stack_reset 0) = Inr (fw_stack f)"
    "gw_holds (fw_board f) []" "has_bridge_task (fw_bridge f)"
    "fw_bridge f = (fold bridge_handle (se_late ?e)
      (usb_rs485_init (fold bridge_handle (se_mid ?e) (usb_rs485_set_modbus_handle (bridge_reset\<lparr>s_enabled := wanted (se_early ?e) False\<rparr>) True)) True))"
    "\<not> fw_restarted f" "fw_usb_tx f = []"
    using app_start [OF e, of firmware_reset 0] by (auto simp: firmware_reset_def board_inv_reset)
  have b: "bridge_inv (fw_bridge f)" "s_enabled (fw_bridge f)"
    by (simp_all add: f(5) start_env0_def usb_rs485_set_modbus_handle_def usb_rs485_init_def bridge_reset_def
        tud_cdc_line_state_cb_def usb_rs485_enable_def bridge_consts bridge_inv_def)
  show ?thesis using f b by auto
qed

text \<open>C6: What arrives on the line between two turns of the bridge reaches the terminal backwards, since the
  interrupt puts every byte in front of the queue; the Modbus stack does not see it.\<close>

theorem fw_terminal_reversed:
  assumes "gw_holds (fw_board f) []" and "\<not> fw_restarted f" and "s_enabled (fw_bridge f)" and "has_bridge_task (fw_bridge f)"
    and "env_mounted env" and "env_connected env" and "env_ready env" and "length bs \<le> 256" and "length bs \<le> env_room env"
    and "length bs \<le> length (env_turns env)" and "\<forall>t \<in> set (env_turns env). fst t - env_tick env < 10"
  shows "\<exists>f'. fw_run n c status (map Line_Byte bs @ [Bridge_Turn env]) f = Inr (Some f') \<and>
    fw_usb_tx f' = fw_usb_tx f @ rev bs \<and> gw_holds (fw_board f') [] \<and> fw_stack f' = fw_stack f"
proof -
  obtain b where b: "fw_run n c status (map Line_Byte bs @ [Bridge_Turn env]) f = fw_run n c status [Bridge_Turn env] (f\<lparr>fw_board := b\<rparr>)"
    "gw_holds b (rev bs)"
    using fw_run_bytes [OF assms(1,2), of n c status bs "[Bridge_Turn env]"] assms(8) by (auto simp: stacked_def)
  have "\<exists>f'. fw_step n c status (Bridge_Turn env) (f\<lparr>fw_board := b\<rparr>) = Inr (Some f') \<and>
    fw_usb_tx f' = fw_usb_tx (f\<lparr>fw_board := b\<rparr>) @ rev bs \<and> gw_holds (fw_board f') [] \<and>
    fw_stack f' = fw_stack (f\<lparr>fw_board := b\<rparr>) \<and> fw_bridge f' = fw_bridge (f\<lparr>fw_board := b\<rparr>)"
    using assms b(2) by (intro bridge_delivers) simp_all
  then show ?thesis using b(1) assms(2) by (auto simp del: fw_step.simps)
qed

theorem fw_terminal_reversed_witness:
  "\<exists>f f'. app_init ((start_env0 [])\<lparr>se_late := [Line_State 1 True False]\<rparr>) firmware_reset = Inr f \<and>
     fw_run 24 3 0 [Line_Byte 1, Line_Byte 2, Line_Byte 3,
       Bridge_Turn \<lparr>env_mounted = True, env_connected = True, env_ready = True, env_room = 64, env_status = 0, env_tick = 7,
         env_turns = [(7, []), (7, []), (8, [])]\<rparr>] f = Inr (Some f') \<and> fw_usb_tx f' = [3, 2, 1]"
proof -
  obtain f where f: "app_init ((start_env0 [])\<lparr>se_late := [Line_State 1 True False]\<rparr>) firmware_reset = Inr f" "s_enabled (fw_bridge f)"
    "gw_holds (fw_board f) []" "\<not> fw_restarted f" "has_bridge_task (fw_bridge f)" "fw_usb_tx f = []" using open_terminal by blast
  let ?env = "\<lparr>env_mounted = True, env_connected = True, env_ready = True, env_room = 64, env_status = 0, env_tick = 7,
         env_turns = [(7, []), (7, []), (8, [])]\<rparr>"
  from fw_terminal_reversed [OF f(3,4,2,5), of ?env "[1, 2, 3]" 24 3 0] f(1,6) show ?thesis by auto
qed

end
