(* ===== verification/RTOS_List.thy ===== *)
theory RTOS_List
  imports Prelude "HOL-Library.Monad_Syntax"
begin

text \<open>
  The lists of the kernel (\<open>FreeRTOS/Source/list.c\<close> and the macros of \<open>include/list.h\<close>): rings of
  items that are linked in both directions and closed by an end marker inside the list structure.
  The store maps links to their fields; \<open>'l\<close> are the addresses of lists, \<open>'i\<close> those of items.

  An operation that does not come back is \<open>None\<close>: the search of \<open>vListInsert\<close> when it runs in a
  circle, and a use of a pointer that leads to no object, after which \<open>HardFault_Handler\<close> loops.

  The store is shown to hold, for every list, the sequence of its items and the place of its
  index, and every operation to do to that pair what its comment promises.
\<close>

section \<open>The store and its operations\<close>

datatype ('l, 'i) list_link = End 'l | Item 'i

record ('l, 'i) lists =
  xItemValue :: "('l, 'i) list_link \<Rightarrow> u32"
  pxNext :: "('l, 'i) list_link \<Rightarrow> ('l, 'i) list_link"
  pxPrevious :: "('l, 'i) list_link \<Rightarrow> ('l, 'i) list_link"
  pvOwner :: "'i \<Rightarrow> nat option"
  pxContainer :: "'i \<Rightarrow> 'l option"
  uxNumberOfItems :: "'l \<Rightarrow> u32"
  pxIndex :: "'l \<Rightarrow> ('l, 'i) list_link"

definition portMAX_DELAY :: u32 where
  "portMAX_DELAY = 0xFFFFFFFF"

definition vListInitialise :: "('l, 'i) lists \<Rightarrow> 'l \<Rightarrow> ('l, 'i) lists" where
  "vListInitialise st l =
     st\<lparr>pxIndex := (pxIndex st)(l := End l),
        xItemValue := (xItemValue st)(End l := portMAX_DELAY),
        pxNext := (pxNext st)(End l := End l),
        pxPrevious := (pxPrevious st)(End l := End l),
        uxNumberOfItems := (uxNumberOfItems st)(l := 0)\<rparr>"

definition vListInitialiseItem :: "('l, 'i) lists \<Rightarrow> 'i \<Rightarrow> ('l, 'i) lists" where
  "vListInitialiseItem st i = st\<lparr>pxContainer := (pxContainer st)(i := None)\<rparr>"

definition listSET_LIST_ITEM_VALUE :: "('l, 'i) lists \<Rightarrow> 'i \<Rightarrow> u32 \<Rightarrow> ('l, 'i) lists" where
  "listSET_LIST_ITEM_VALUE st i v = st\<lparr>xItemValue := (xItemValue st)(Item i := v)\<rparr>"

definition listSET_LIST_ITEM_OWNER :: "('l, 'i) lists \<Rightarrow> 'i \<Rightarrow> nat \<Rightarrow> ('l, 'i) lists" where
  "listSET_LIST_ITEM_OWNER st i t = st\<lparr>pvOwner := (pvOwner st)(i := Some t)\<rparr>"

definition listLIST_IS_EMPTY :: "('l, 'i) lists \<Rightarrow> 'l \<Rightarrow> bool" where
  "listLIST_IS_EMPTY st l \<longleftrightarrow> uxNumberOfItems st l = 0"

definition listCURRENT_LIST_LENGTH :: "('l, 'i) lists \<Rightarrow> 'l \<Rightarrow> u32" where
  "listCURRENT_LIST_LENGTH st l = uxNumberOfItems st l"

definition listGET_ITEM_VALUE_OF_HEAD_ENTRY :: "('l, 'i) lists \<Rightarrow> 'l \<Rightarrow> u32" where
  "listGET_ITEM_VALUE_OF_HEAD_ENTRY st l = xItemValue st (pxNext st (End l))"

text \<open>The end marker is a mini list item, which has no owner.\<close>

fun owner_of :: "('l, 'i) lists \<Rightarrow> ('l, 'i) list_link \<Rightarrow> nat option" where
  "owner_of st (End l) = None"
| "owner_of st (Item i) = pvOwner st i"

definition listGET_OWNER_OF_HEAD_ENTRY :: "('l, 'i) lists \<Rightarrow> 'l \<Rightarrow> nat option" where
  "listGET_OWNER_OF_HEAD_ENTRY st l = owner_of st (pxNext st (End l))"

definition listGET_OWNER_OF_NEXT_ENTRY ::
  "('l, 'i) lists \<Rightarrow> 'l \<Rightarrow> (nat \<times> ('l, 'i) lists) option" where
  "listGET_OWNER_OF_NEXT_ENTRY st l =
     (let s1 = st\<lparr>pxIndex := (pxIndex st)(l := pxNext st (pxIndex st l))\<rparr>;
          s2 = (if pxIndex s1 l = End l
                then s1\<lparr>pxIndex := (pxIndex s1)(l := pxNext s1 (End l))\<rparr> else s1)
      in do { t \<leftarrow> owner_of s2 (pxIndex s2 l); Some (t, s2) })"

definition vListInsertEnd :: "('l, 'i) lists \<Rightarrow> 'l \<Rightarrow> 'i \<Rightarrow> ('l, 'i) lists" where
  "vListInsertEnd st l i =
     (let ix = pxIndex st l;
          s1 = st\<lparr>pxNext := (pxNext st)(Item i := ix)\<rparr>;
          s2 = s1\<lparr>pxPrevious := (pxPrevious s1)(Item i := pxPrevious s1 ix)\<rparr>;
          s3 = s2\<lparr>pxNext := (pxNext s2)(pxPrevious s2 ix := Item i)\<rparr>;
          s4 = s3\<lparr>pxPrevious := (pxPrevious s3)(ix := Item i)\<rparr>
      in s4\<lparr>pxContainer := (pxContainer s4)(i := Some l),
            uxNumberOfItems := (uxNumberOfItems s4)(l := uxNumberOfItems s4 l + 1)\<rparr>)"

text \<open>The search for the place of a value; it may not end.\<close>

partial_function (option) insert_place ::
  "('l, 'i) lists \<Rightarrow> u32 \<Rightarrow> ('l, 'i) list_link \<Rightarrow> ('l, 'i) list_link option" where
  [code]: "insert_place st v p =
     (if xItemValue st (pxNext st p) \<le> v then insert_place st v (pxNext st p) else Some p)"

definition vListInsert :: "('l, 'i) lists \<Rightarrow> 'l \<Rightarrow> 'i \<Rightarrow> ('l, 'i) lists option" where
  "vListInsert st l i =
     (let v = xItemValue st (Item i) in do {
        p \<leftarrow> (if v = portMAX_DELAY then Some (pxPrevious st (End l)) else insert_place st v (End l));
        let s1 = st\<lparr>pxNext := (pxNext st)(Item i := pxNext st p)\<rparr>;
        let s2 = s1\<lparr>pxPrevious := (pxPrevious s1)(pxNext s1 (Item i) := Item i)\<rparr>;
        let s3 = s2\<lparr>pxPrevious := (pxPrevious s2)(Item i := p)\<rparr>;
        let s4 = s3\<lparr>pxNext := (pxNext s3)(p := Item i)\<rparr>;
        Some (s4\<lparr>pxContainer := (pxContainer s4)(i := Some l),
                 uxNumberOfItems := (uxNumberOfItems s4)(l := uxNumberOfItems s4 l + 1)\<rparr>)
      })"

definition uxListRemove :: "('l, 'i) lists \<Rightarrow> 'i \<Rightarrow> (u32 \<times> ('l, 'i) lists) option" where
  "uxListRemove st i = do {
     l \<leftarrow> pxContainer st i;
     let s1 = st\<lparr>pxPrevious := (pxPrevious st)(pxNext st (Item i) := pxPrevious st (Item i))\<rparr>;
     let s2 = s1\<lparr>pxNext := (pxNext s1)(pxPrevious s1 (Item i) := pxNext s1 (Item i))\<rparr>;
     let s3 = (if pxIndex s2 l = Item i
               then s2\<lparr>pxIndex := (pxIndex s2)(l := pxPrevious s2 (Item i))\<rparr> else s2);
     let s4 = s3\<lparr>pxContainer := (pxContainer s3)(i := None),
                 uxNumberOfItems := (uxNumberOfItems s3)(l := uxNumberOfItems s3 l - 1)\<rparr>;
     Some (uxNumberOfItems s4 l, s4)
   }"

section \<open>Rings\<close>

text \<open>A walk along the links, in both directions.\<close>

fun linked :: "('l, 'i) lists \<Rightarrow> ('l, 'i) list_link list \<Rightarrow> bool" where
  "linked st (a # b # r) \<longleftrightarrow> pxNext st a = b \<and> pxPrevious st b = a \<and> linked st (b # r)"
| "linked st r \<longleftrightarrow> True"

definition list_ring :: "'l \<Rightarrow> 'i list \<Rightarrow> ('l, 'i) list_link list" where
  "list_ring l xs = End l # map Item xs @ [End l]"

lemma linked_append:
  "linked st (as @ a # bs) \<longleftrightarrow> linked st (as @ [a]) \<and> linked st (a # bs)"
  by (induction as rule: linked.induct) auto

lemma linked_mid:
  "linked st (as @ a # b # bs) \<longleftrightarrow>
     linked st (as @ [a]) \<and> pxNext st a = b \<and> pxPrevious st b = a \<and> linked st (b # bs)"
  using linked_append [of st as a "b # bs"] by simp

lemma linked_cong:
  assumes "linked st r"
    and "\<And>a. a \<in> set (butlast r) \<Longrightarrow> pxNext st' a = pxNext st a"
    and "\<And>a. a \<in> set (tl r) \<Longrightarrow> pxPrevious st' a = pxPrevious st a"
  shows "linked st' r"
  using assms
proof (induction r rule: induct_list012)
  case (3 a b r)
  have "linked st' (b # r)"
    using 3 by (intro "3.IH"(2)) (auto dest: in_set_butlastD split: if_splits list.splits)
  then show ?case using 3 by (auto split: if_splits)
qed auto

lemma in_set_tlD: "a \<in> set (tl r) \<Longrightarrow> a \<in> set r"
  by (cases r) auto

lemma End_in_ring [simp]: "End l' \<in> set (list_ring l xs) \<longleftrightarrow> l' = l"
  by (auto simp: list_ring_def)

lemma Item_in_ring [simp]: "Item i \<in> set (list_ring l xs) \<longleftrightarrow> i \<in> set xs"
  by (auto simp: list_ring_def)

lemma ring_split:
  "list_ring l (as @ bs) = (End l # map Item as) @ map Item bs @ [End l]"
  by (simp add: list_ring_def)

text \<open>The links before and behind the place between \<open>as\<close> and \<open>bs\<close>.\<close>

definition before :: "'l \<Rightarrow> 'i list \<Rightarrow> ('l, 'i) list_link" where
  "before l as = (if as = [] then End l else Item (last as))"

definition behind :: "'l \<Rightarrow> 'i list \<Rightarrow> ('l, 'i) list_link" where
  "behind l bs = (case bs of [] \<Rightarrow> End l | b # _ \<Rightarrow> Item b)"

lemma before_Nil [simp]: "before l [] = End l"
  and before_snoc [simp]: "before l (as @ [a]) = Item a"
  and behind_Nil [simp]: "behind l [] = End l"
  and behind_Cons [simp]: "behind l (b # bs) = Item b"
  by (auto simp: before_def behind_def)

text \<open>A ring is cut at a place into the walk to it and the walk from it.\<close>

definition walk_to :: "'l \<Rightarrow> 'i list \<Rightarrow> ('l, 'i) list_link list" where
  "walk_to l as = End l # map Item as"

definition walk_from :: "'l \<Rightarrow> 'i list \<Rightarrow> ('l, 'i) list_link list" where
  "walk_from l bs = map Item bs @ [End l]"

lemma linked_ring_cut:
  "linked st (list_ring l (as @ bs)) \<longleftrightarrow>
     linked st (walk_to l as) \<and> pxNext st (before l as) = behind l bs \<and>
     pxPrevious st (behind l bs) = before l as \<and> linked st (walk_from l bs)"
proof (cases bs)
  case Nil
  then show ?thesis
    by (cases as rule: rev_cases)
       (auto simp: list_ring_def walk_to_def walk_from_def linked_mid [of st "End l # map Item _", simplified])
next
  case (Cons b bs')
  then show ?thesis
    by (cases as rule: rev_cases)
       (auto simp: list_ring_def walk_to_def walk_from_def linked_mid [of st "End l # map Item _", simplified])
qed


lemma le_portMAX_DELAY [simp]: "v \<le> portMAX_DELAY"
proof -
  have "unat v < 2 ^ 32" using unsigned_less [of v] by simp
  then show ?thesis by (simp add: word_le_nat_alt portMAX_DELAY_def)
qed

section \<open>The sequences the store holds\<close>

text \<open>The items of a list from its head, and the item its index is at, if not at the end marker.\<close>

type_synonym 'i seq = "'i list \<times> 'i option"

fun index_link :: "'l \<Rightarrow> 'i option \<Rightarrow> ('l, 'i) list_link" where
  "index_link l None = End l"
| "index_link l (Some i) = Item i"

definition holds :: "('l, 'i) lists \<Rightarrow> 'l \<Rightarrow> 'i seq \<Rightarrow> bool" where
  "holds st l A \<longleftrightarrow> linked st (list_ring l (fst A)) \<and> distinct (fst A) \<and>
     xItemValue st (End l) = portMAX_DELAY \<and> uxNumberOfItems st l = of_nat (length (fst A)) \<and>
     pxIndex st l = index_link l (snd A) \<and> set_option (snd A) \<subseteq> set (fst A)"

definition lists_ok :: "'l set \<Rightarrow> ('l, 'i) lists \<Rightarrow> ('l \<Rightarrow> 'i seq) \<Rightarrow> bool" where
  "lists_ok L st A \<longleftrightarrow> (\<forall>l\<in>L. holds st l (A l)) \<and> (\<forall>l. l \<notin> L \<longrightarrow> A l = ([], None)) \<and>
     (\<forall>i l. pxContainer st i = Some l \<longleftrightarrow> i \<in> set (fst (A l)))"

lemma lists_okD:
  assumes "lists_ok L st A"
  shows "l \<in> L \<Longrightarrow> holds st l (A l)" and "l \<notin> L \<Longrightarrow> A l = ([], None)"
    and "pxContainer st i = Some l \<longleftrightarrow> i \<in> set (fst (A l))"
  using assms by (auto simp: lists_ok_def)

lemma container_in: "lists_ok L st A \<Longrightarrow> pxContainer st i = Some l \<Longrightarrow> l \<in> L"
  by (metis empty_iff fst_conv list.set(1) lists_okD(2) lists_okD(3))

lemma not_contained:
  "lists_ok L st A \<Longrightarrow> pxContainer st i = None \<longleftrightarrow> (\<forall>l. i \<notin> set (fst (A l)))"
  by (metis lists_okD(3) not_Some_eq)

lemma one_list:
  "lists_ok L st A \<Longrightarrow> i \<in> set (fst (A l)) \<Longrightarrow> i \<in> set (fst (A l')) \<Longrightarrow> l = l'"
  by (metis lists_okD(3) option.inject)

lemma holds_cong:
  assumes "holds st l X"
    and "\<And>a. a \<in> set (list_ring l (fst X)) \<Longrightarrow> pxNext st' a = pxNext st a"
    and "\<And>a. a \<in> set (list_ring l (fst X)) \<Longrightarrow> pxPrevious st' a = pxPrevious st a"
    and "xItemValue st' (End l) = xItemValue st (End l)"
    and "uxNumberOfItems st' l = uxNumberOfItems st l" and "pxIndex st' l = pxIndex st l"
  shows "holds st' l X"
proof -
  have lk: "linked st (list_ring l (fst X))" using assms(1) by (simp add: holds_def)
  have "linked st' (list_ring l (fst X))"
    by (rule linked_cong [OF lk]) (erule assms(2) [OF in_set_butlastD] assms(3) [OF in_set_tlD])+
  then show ?thesis using assms(1,4-6) by (simp add: holds_def)
qed

lemma before_in_ring: "before l as \<in> set (list_ring l (as @ bs))"
  by (cases as rule: rev_cases) auto

lemma behind_in_ring: "behind l bs \<in> set (list_ring l (as @ bs))"
  by (cases bs) auto

lemma before_notin_walk:
  "distinct as \<Longrightarrow> before l as \<notin> set (butlast (walk_to l as))"
  by (cases as rule: rev_cases) (auto simp: walk_to_def butlast_append)

lemma behind_notin_walk: "distinct bs \<Longrightarrow> behind l bs \<notin> set (tl (walk_from l bs))"
  by (cases bs) (auto simp: walk_from_def)

lemma walk_tl: "set (tl (walk_to l as)) = Item ` set as"
  and walk_butlast: "set (butlast (walk_from l bs)) = Item ` set bs"
  by (auto simp: walk_to_def walk_from_def)

lemma behind_notin_tl:
  "set as \<inter> set bs = {} \<Longrightarrow> behind l bs \<notin> set (tl (walk_to l as))"
  by (cases bs) (auto simp: walk_tl)

lemma before_notin_butlast:
  "set as \<inter> set bs = {} \<Longrightarrow> before l as \<notin> set (butlast (walk_from l bs))"
  by (cases as rule: rev_cases) (auto simp: walk_butlast)

lemma Item_notin_walks:
  "i \<notin> set as \<Longrightarrow> Item i \<notin> set (walk_to l as)" "i \<notin> set bs \<Longrightarrow> Item i \<notin> set (walk_from l bs)"
  by (auto simp: walk_to_def walk_from_def)

text \<open>The two surgeries on a ring.\<close>

lemma linked_splice:
  assumes lk: "linked st (list_ring l (as @ bs))" and d: "distinct (as @ bs)" and i: "i \<notin> set (as @ bs)"
    and nx: "pxNext st' = (pxNext st)(Item i := behind l bs, before l as := Item i)"
    and pv: "pxPrevious st' = (pxPrevious st)(Item i := before l as, behind l bs := Item i)"
  shows "linked st' (list_ring l (as @ i # bs))"
proof -
  have ne: "before l as \<noteq> Item i" "behind l bs \<noteq> Item i"
    using i by (auto simp: before_def behind_def split: list.splits if_splits)
  have w: "linked st (walk_to l as)" "linked st (walk_from l bs)"
    using lk by (simp_all add: linked_ring_cut)
  have to: "linked st' (walk_to l as)"
  proof (rule linked_cong [OF w(1)])
    fix a
    show "pxNext st' a = pxNext st a" if a: "a \<in> set (butlast (walk_to l as))"
      using a d i before_notin_walk [of as l] Item_notin_walks(1) [of i as l] in_set_butlastD [OF a]
      by (auto simp: nx)
    show "pxPrevious st' a = pxPrevious st a" if a: "a \<in> set (tl (walk_to l as))"
      using a d i behind_notin_tl [of as bs l] Item_notin_walks(1) [of i as l] in_set_tlD [OF a]
      by (auto simp: pv)
  qed
  have frm: "linked st' (walk_from l bs)"
  proof (rule linked_cong [OF w(2)])
    fix a
    show "pxNext st' a = pxNext st a" if a: "a \<in> set (butlast (walk_from l bs))"
      using a d i before_notin_butlast [of as bs l] Item_notin_walks(2) [of i bs l] in_set_butlastD [OF a]
      by (auto simp: nx)
    show "pxPrevious st' a = pxPrevious st a" if a: "a \<in> set (tl (walk_from l bs))"
      using a d i behind_notin_walk [of bs l] Item_notin_walks(2) [of i bs l] in_set_tlD [OF a]
      by (auto simp: pv)
  qed
  have "linked st' (walk_from l (i # bs))"
  proof -
    have "walk_from l (i # bs) = Item i # walk_from l bs" by (simp add: walk_from_def)
    moreover have "walk_from l bs = behind l bs # tl (walk_from l bs)"
      by (cases bs) (auto simp: walk_from_def)
    ultimately show ?thesis
      using frm ne by (metis fun_upd_apply linked.simps(1) nx pv)
  qed
  then show ?thesis using to ne by (simp add: linked_ring_cut nx pv)
qed

lemma linked_unsplice:
  assumes lk: "linked st (list_ring l (as @ i # bs))" and d: "distinct (as @ i # bs)"
    and nx: "pxNext st' = (pxNext st)(before l as := behind l bs)"
    and pv: "pxPrevious st' = (pxPrevious st)(behind l bs := before l as)"
  shows "linked st' (list_ring l (as @ bs))"
proof -
  have w: "linked st (walk_to l as)" "linked st (walk_from l bs)"
    using lk linked_ring_cut [of st l "as @ [i]" bs] by (simp_all add: linked_ring_cut)
  have to: "linked st' (walk_to l as)"
  proof (rule linked_cong [OF w(1)])
    fix a
    show "pxNext st' a = pxNext st a" if a: "a \<in> set (butlast (walk_to l as))"
      using a d before_notin_walk [of as l] by (auto simp: nx)
    show "pxPrevious st' a = pxPrevious st a" if a: "a \<in> set (tl (walk_to l as))"
      using a d behind_notin_tl [of as bs l] by (auto simp: pv)
  qed
  have frm: "linked st' (walk_from l bs)"
  proof (rule linked_cong [OF w(2)])
    fix a
    show "pxNext st' a = pxNext st a" if a: "a \<in> set (butlast (walk_from l bs))"
      using a d before_notin_butlast [of as bs l] by (auto simp: nx)
    show "pxPrevious st' a = pxPrevious st a" if a: "a \<in> set (tl (walk_from l bs))"
      using a d behind_notin_walk [of bs l] by (auto simp: pv)
  qed
  show ?thesis using to frm by (simp add: linked_ring_cut nx pv)
qed

lemma ring_neighbours:
  assumes "linked st (list_ring l (as @ i # bs))"
  shows "pxNext st (Item i) = behind l bs" "pxPrevious st (Item i) = before l as"
  using assms linked_ring_cut [of st l "as @ [i]" bs] by (simp_all add: linked_ring_cut)

lemma ring_place:
  assumes "linked st (list_ring l (as @ bs))"
  shows "pxNext st (before l as) = behind l bs" "pxPrevious st (behind l bs) = before l as"
  using assms by (simp_all add: linked_ring_cut)


section \<open>What the operations do to the sequences\<close>

fun seq_insert :: "('i \<Rightarrow> u32) \<Rightarrow> 'i seq \<Rightarrow> 'i \<Rightarrow> 'i seq" where
  "seq_insert val (xs, c) i =
     (takeWhile (\<lambda>y. val y \<le> val i) xs @ i # dropWhile (\<lambda>y. val y \<le> val i) xs, c)"

fun seq_insert_end :: "'i seq \<Rightarrow> 'i \<Rightarrow> 'i seq" where
  "seq_insert_end (xs, None) i = (xs @ [i], None)"
| "seq_insert_end (xs, Some x) i =
     (takeWhile (\<lambda>y. y \<noteq> x) xs @ i # dropWhile (\<lambda>y. y \<noteq> x) xs, Some x)"

fun seq_remove :: "'i seq \<Rightarrow> 'i \<Rightarrow> 'i seq" where
  "seq_remove (xs, c) i =
     (remove1 i xs,
      if c = Some i then (let as = takeWhile (\<lambda>y. y \<noteq> i) xs in
                          if as = [] then None else Some (last as)) else c)"

text \<open>The order in which the items come to their turn, and what taking a turn does to it.\<close>

fun turns :: "'i seq \<Rightarrow> 'i list" where
  "turns (xs, None) = xs"
| "turns (xs, Some x) = tl (dropWhile (\<lambda>y. y \<noteq> x) xs) @ takeWhile (\<lambda>y. y \<noteq> x) xs @ [x]"

definition seq_next :: "'i seq \<Rightarrow> 'i seq" where
  "seq_next A = (fst A, Some (hd (turns A)))"

lemma cut_at:
  assumes "distinct (as @ x # bs)"
  shows "takeWhile (\<lambda>y. y \<noteq> x) (as @ x # bs) = as" "dropWhile (\<lambda>y. y \<noteq> x) (as @ x # bs) = x # bs"
    "remove1 x (as @ x # bs) = as @ bs"
proof -
  have "\<And>a. a \<in> set as \<Longrightarrow> a \<noteq> x" using assms by auto
  then show "takeWhile (\<lambda>y. y \<noteq> x) (as @ x # bs) = as"
    "dropWhile (\<lambda>y. y \<noteq> x) (as @ x # bs) = x # bs"
    by (simp_all add: takeWhile_append2 dropWhile_append2)
  show "remove1 x (as @ x # bs) = as @ bs" using assms by (auto simp: remove1_append)
qed

lemma turns_next:
  assumes "distinct xs" and "set_option c \<subseteq> set xs" and "xs \<noteq> []"
  shows "turns (seq_next (xs, c)) = rotate1 (turns (xs, c))"
proof (cases c)
  case None
  then show ?thesis using assms by (cases xs) (auto simp: seq_next_def)
next
  case (Some x)
  then obtain as bs where xs: "xs = as @ x # bs" using assms(2) split_list [of x xs] by auto
  then have d: "distinct (as @ x # bs)" using assms by simp
  show ?thesis
  proof (cases bs)
    case Nil
    then show ?thesis using cut_at [OF d] d Some
      by (cases as) (auto simp: seq_next_def xs)
  next
    case (Cons b bs')
    then have "distinct ((as @ [x]) @ b # bs')" using d by simp
    then show ?thesis using cut_at [OF d] cut_at [of "as @ [x]" b bs'] Some Cons
      by (auto simp: seq_next_def xs)
  qed
qed

lemma turns_remove:
  assumes "distinct xs" and "set_option c \<subseteq> set xs" and "i \<in> set xs"
  shows "turns (seq_remove (xs, c) i) = remove1 i (turns (xs, c))"
proof (cases c)
  case None
  then show ?thesis by simp
next
  case (Some x)
  then obtain as bs where xs: "xs = as @ x # bs" using assms(2) split_list [of x xs] by auto
  then have d: "distinct (as @ x # bs)" using assms by simp
  show ?thesis
  proof (cases "i = x")
    case True
    show ?thesis
    proof (cases as rule: rev_cases)
      case Nil
      then show ?thesis using cut_at [OF d] d Some True by (auto simp: xs remove1_append)
    next
      case (snoc as' p)
      then have "distinct (as' @ p # bs)" using d by simp
      then show ?thesis using cut_at [OF d] cut_at [of as' p bs] d Some True snoc
        by (auto simp: xs remove1_append)
    qed
  next
    case False
    have "distinct (remove1 i as @ x # remove1 i bs)" using d by (auto dest: notin_set_remove1)
    moreover have "remove1 i xs = remove1 i as @ x # remove1 i bs"
      using False d by (auto simp: xs remove1_append remove1_idem disjoint_iff)
    moreover have "remove1 i (bs @ as @ [x]) = remove1 i bs @ remove1 i as @ [x]"
      using False d by (auto simp: remove1_append remove1_idem disjoint_iff)
    ultimately show ?thesis
      using cut_at [OF d] cut_at [of "remove1 i as" x "remove1 i bs"] Some False by (simp add: xs)
  qed
qed

lemma turns_insert_end:
  assumes "distinct xs" and "set_option c \<subseteq> set xs" and "i \<notin> set xs"
  shows "turns (seq_insert_end (xs, c) i) =
    (if c = None then turns (xs, c) @ [i] else butlast (turns (xs, c)) @ [i] @ [last (turns (xs, c))])"
proof (cases c)
  case (Some x)
  then obtain as bs where xs: "xs = as @ x # bs" using assms(2) split_list [of x xs] by auto
  then have d: "distinct (as @ x # bs)" "distinct ((as @ [i]) @ x # bs)" using assms by auto
  show ?thesis using cut_at [OF d(1)] cut_at [OF d(2)] Some
    by (simp add: xs butlast_append)
qed simp

lemma set_turns: "distinct xs \<Longrightarrow> set_option c \<subseteq> set xs \<Longrightarrow> set (turns (xs, c)) = set xs"
proof (cases c)
  case (Some x)
  assume d: "distinct xs" and s: "set_option c \<subseteq> set xs"
  then obtain as bs where xs: "xs = as @ x # bs" using Some by (auto dest: split_list)
  then show ?thesis using cut_at [of as x bs] d Some by auto
qed simp


section \<open>The operations refine the sequences\<close>

lemma other_ring:
  assumes ok: "lists_ok L st A" and l: "fst (A l) = as @ bs" and l': "l' \<noteq> l"
  shows "before l as \<notin> set (list_ring l' (fst (A l')))" "behind l bs \<notin> set (list_ring l' (fst (A l')))"
proof -
  have "set (list_ring l' (fst (A l'))) \<inter> set (list_ring l (fst (A l))) = {}"
    using one_list [OF ok, of _ l l'] l' by (auto simp: list_ring_def)
  then show "before l as \<notin> set (list_ring l' (fst (A l')))" "behind l bs \<notin> set (list_ring l' (fst (A l')))"
    using before_in_ring [of l as bs] behind_in_ring [of l bs as] l by auto
qed

lemma lists_ok_fun_upd:
  assumes ok: "lists_ok L st A" and l: "l \<in> L" and new: "holds st' l X"
    and oth: "\<And>l'. l' \<noteq> l \<Longrightarrow> l' \<in> L \<Longrightarrow> holds st' l' (A l')"
    and c: "\<And>i. pxContainer st' i = (if i \<in> set (fst X) then Some l
                               else if pxContainer st i = Some l then None else pxContainer st i)"
    and free: "\<And>i. i \<in> set (fst X) \<Longrightarrow> i \<in> set (fst (A l)) \<or> pxContainer st i = None"
  shows "lists_ok L st' (A(l := X))"
  unfolding lists_ok_def
proof (intro conjI ballI allI impI)
  fix l' show "l' \<in> L \<Longrightarrow> holds st' l' ((A(l := X)) l')" using new oth by (cases "l' = l") auto
  show "l' \<notin> L \<Longrightarrow> (A(l := X)) l' = ([], None)" using l lists_okD(2) [OF ok] by auto
  fix i show "(pxContainer st' i = Some l') = (i \<in> set (fst ((A(l := X)) l')))"
    using lists_okD(3) [OF ok, of i l'] lists_okD(3) [OF ok, of i l] free [of i]
    by (cases "l' = l") (auto simp: c)
qed

lemma lists_ok_splice:
  assumes ok: "lists_ok L st A" and l: "l \<in> L" and xs: "fst (A l) = as @ bs"
    and i: "pxContainer st i = None"
    and nx: "pxNext st' = (pxNext st)(Item i := behind l bs, before l as := Item i)"
    and pv: "pxPrevious st' = (pxPrevious st)(Item i := before l as, behind l bs := Item i)"
    and same: "xItemValue st' = xItemValue st" "pxIndex st' = pxIndex st"
      "uxNumberOfItems st' = (uxNumberOfItems st)(l := uxNumberOfItems st l + 1)"
      "pxContainer st' = (pxContainer st)(i := Some l)"
  shows "lists_ok L st' (A(l := (as @ i # bs, snd (A l))))"
proof (rule lists_ok_fun_upd [OF ok l])
  have h: "holds st l (A l)" using lists_okD(1) [OF ok l] .
  have new: "\<And>l'. i \<notin> set (fst (A l'))" using i not_contained [OF ok] by blast
  show "holds st' l (as @ i # bs, snd (A l))"
    using h linked_splice [OF _ _ _ nx pv] new [of l] by (auto simp: holds_def xs same)
  fix l' assume l': "l' \<noteq> l" "l' \<in> L"
  show "holds st' l' (A l')"
    using l' new [of l'] other_ring [OF ok xs l'(1)]
    by (intro holds_cong [OF lists_okD(1) [OF ok l'(2)]]) (auto simp: nx pv same)
next
  fix j
  show "pxContainer st' j = (if j \<in> set (fst (as @ i # bs, snd (A l))) then Some l
          else if pxContainer st j = Some l then None else pxContainer st j)"
    using lists_okD(3) [OF ok, of j l] by (auto simp: same xs)
  show "j \<in> set (fst (as @ i # bs, snd (A l))) \<Longrightarrow> j \<in> set (fst (A l)) \<or> pxContainer st j = None"
    using i xs by auto
qed

lemma lists_ok_unsplice:
  assumes ok: "lists_ok L st A" and l: "l \<in> L" and xs: "fst (A l) = as @ i # bs"
    and nx: "pxNext st' = (pxNext st)(before l as := behind l bs)"
    and pv: "pxPrevious st' = (pxPrevious st)(behind l bs := before l as)"
    and same: "xItemValue st' = xItemValue st"
      "uxNumberOfItems st' = (uxNumberOfItems st)(l := uxNumberOfItems st l - 1)"
      "pxContainer st' = (pxContainer st)(i := None)"
    and ix: "pxIndex st' = (pxIndex st)(l := index_link l c)"
    and c: "set_option c \<subseteq> set (as @ bs)"
  shows "lists_ok L st' (A(l := (as @ bs, c)))"
proof (rule lists_ok_fun_upd [OF ok l])
  have h: "holds st l (A l)" using lists_okD(1) [OF ok l] .
  have d: "distinct (as @ i # bs)" using h by (simp add: holds_def xs)
  show "holds st' l (as @ bs, c)"
    using h linked_unsplice [OF _ d nx pv] d c by (auto simp: holds_def xs same ix)
  fix l' assume l': "l' \<noteq> l" "l' \<in> L"
  have "fst (A l) = as @ (i # bs)" "fst (A l) = (as @ [i]) @ bs" using xs by simp_all
  then show "holds st' l' (A l')"
    using l' other_ring(1) [OF ok _ l'(1)] other_ring(2) [OF ok _ l'(1)]
    by (intro holds_cong [OF lists_okD(1) [OF ok l'(2)]]) (auto simp: nx pv same ix)
next
  fix j
  have "distinct (as @ i # bs)" using lists_okD(1) [OF ok l] by (simp add: holds_def xs)
  then show "pxContainer st' j = (if j \<in> set (fst (as @ bs, c)) then Some l
          else if pxContainer st j = Some l then None else pxContainer st j)"
    using lists_okD(3) [OF ok, of j l] by (auto simp: same xs)
  show "j \<in> set (fst (as @ bs, c)) \<Longrightarrow> j \<in> set (fst (A l)) \<or> pxContainer st j = None"
    by (auto simp: xs)
qed

lemma insert_place_at:
  assumes "linked st (list_ring l (as @ bs))" and "v < xItemValue st (End l)"
  shows "insert_place st v (before l as) =
    Some (before l (as @ takeWhile (\<lambda>i. xItemValue st (Item i) \<le> v) bs))"
  using assms(1)
proof (induction bs arbitrary: as)
  case Nil
  then show ?case using assms(2) ring_place [of st l as "[]"]
    by (subst insert_place.simps) (simp add: not_less [symmetric])
next
  case (Cons b bs)
  have nx: "pxNext st (before l as) = Item b" using Cons.prems ring_place [of st l as "b # bs"] by simp
  show ?case
  proof (cases "xItemValue st (Item b) \<le> v")
    case True
    then show ?thesis using Cons.IH [of "as @ [b]"] Cons.prems nx
      by (subst insert_place.simps) simp
  next
    case False
    then show ?thesis using nx by (subst insert_place.simps) simp
  qed
qed

lemma link_ne:
  assumes "i \<notin> set as" "i \<notin> set bs"
  shows "before l as \<noteq> Item i" "behind l bs \<noteq> Item i"
  using assms by (auto simp: before_def behind_def split: list.splits)

lemma vListInsert_ok:
  assumes ok: "lists_ok L st A" and l: "l \<in> L" and i: "pxContainer st i = None"
  obtains st' where "vListInsert st l i = Some st'"
    "lists_ok L st' (A(l := seq_insert (\<lambda>i. xItemValue st (Item i)) (A l) i))"
    "xItemValue st' = xItemValue st" "pvOwner st' = pvOwner st"
    "pxContainer st' = (pxContainer st)(i := Some l)"
proof -
  define v where "v = xItemValue st (Item i)"
  define as bs where "as = takeWhile (\<lambda>i. xItemValue st (Item i) \<le> v) (fst (A l))"
    and "bs = dropWhile (\<lambda>i. xItemValue st (Item i) \<le> v) (fst (A l))"
  have xs: "fst (A l) = as @ bs" by (simp add: as_def bs_def)
  have h: "linked st (list_ring l (as @ bs))" "xItemValue st (End l) = portMAX_DELAY"
    using lists_okD(1) [OF ok l] by (simp_all add: holds_def xs)
  have "i \<notin> set (fst (A l))" using i not_contained [OF ok] by blast
  then have ne: "before l as \<noteq> Item i" "behind l bs \<noteq> Item i"
    using link_ne [of i as bs l] by (auto simp: xs)
  have place: "(if v = portMAX_DELAY then Some (pxPrevious st (End l)) else insert_place st v (End l)) =
    Some (before l as)"
  proof (cases "v = portMAX_DELAY")
    case True
    then have "bs = []" by (simp add: bs_def)
    then show ?thesis using True ring_place(2) [OF h(1)] by simp
  next
    case False
    then have "v < portMAX_DELAY" by (simp add: order_less_le)
    then show ?thesis using insert_place_at [of st l "[]" "fst (A l)" v] h False
      by (simp add: xs [symmetric]) (simp add: as_def)
  qed
  have p: "pxNext st (before l as) = behind l bs" using ring_place(1) [OF h(1)] .
  define st' where "st' = st\<lparr>pxPrevious := (pxPrevious st)(behind l bs := Item i, Item i := before l as),
    pxNext := (pxNext st)(Item i := behind l bs, before l as := Item i),
    pxContainer := (pxContainer st)(i := Some l),
    uxNumberOfItems := (uxNumberOfItems st)(l := uxNumberOfItems st l + 1)\<rparr>"
  have 1: "vListInsert st l i = Some st'"
    unfolding vListInsert_def v_def [symmetric] Let_def place by (simp add: st'_def p)
  have 2: "lists_ok L st' (A(l := (as @ i # bs, snd (A l))))"
    by (rule lists_ok_splice [OF ok l xs i]) (use ne in \<open>auto simp: st'_def fun_upd_twist\<close>)
  have 3: "seq_insert (\<lambda>i. xItemValue st (Item i)) (A l) i = (as @ i # bs, snd (A l))"
    by (cases "A l") (simp add: as_def bs_def v_def)
  show ?thesis using that [OF 1] 2 3 by (simp add: st'_def)
qed


text \<open>
  With the value of the end marker the search would not come back, which is why \<open>vListInsert\<close>
  tests for it.
\<close>

lemma insert_place_found: "insert_place st v p = Some q \<Longrightarrow> v < xItemValue st (pxNext st q)"
  by (rule insert_place.raw_induct [where P = "\<lambda>st v p q. v < xItemValue st (pxNext st q)"])
     (auto split: if_splits)

lemma insert_place_endless: "insert_place st portMAX_DELAY p = None"
proof (cases "insert_place st portMAX_DELAY p")
  case (Some q)
  then show ?thesis using insert_place_found [OF Some] by (simp add: not_le [symmetric])
qed

lemma vListInsertEnd_ok:
  assumes ok: "lists_ok L st A" and l: "l \<in> L" and i: "pxContainer st i = None"
  shows "lists_ok L (vListInsertEnd st l i) (A(l := seq_insert_end (A l) i))"
    "xItemValue (vListInsertEnd st l i) = xItemValue st" "pvOwner (vListInsertEnd st l i) = pvOwner st"
    "pxContainer (vListInsertEnd st l i) = (pxContainer st)(i := Some l)"
proof -
  have h: "linked st (list_ring l (fst (A l)))" "distinct (fst (A l))"
    "pxIndex st l = index_link l (snd (A l))" "set_option (snd (A l)) \<subseteq> set (fst (A l))"
    using lists_okD(1) [OF ok l] by (simp_all add: holds_def)
  obtain as bs where xs: "fst (A l) = as @ bs" and ix: "pxIndex st l = behind l bs"
    and new: "seq_insert_end (A l) i = (as @ i # bs, snd (A l))"
  proof (cases "snd (A l)")
    case None
    then show ?thesis using that [of "fst (A l)" "[]"] h by (cases "A l") auto
  next
    case (Some x)
    then obtain as bs where xs: "fst (A l) = as @ x # bs"
      using h(4) split_list [of x "fst (A l)"] by auto
    have "distinct (as @ x # bs)" using h(2) xs by simp
    then show ?thesis using that [of as "x # bs"] cut_at [of as x bs] h(3) Some xs
      by (cases "A l") auto
  qed
  have "i \<notin> set (fst (A l))" using i not_contained [OF ok] by blast
  then have ne: "before l as \<noteq> Item i" "behind l bs \<noteq> Item i"
    using link_ne [of i as bs l] by (auto simp: xs)
  have p: "pxPrevious st (behind l bs) = before l as"
    using ring_place(2) [of st l as bs] h(1) by (simp add: xs)
  show "lists_ok L (vListInsertEnd st l i) (A(l := seq_insert_end (A l) i))"
    unfolding new
    by (rule lists_ok_splice [OF ok l xs i]) (use ne in \<open>auto simp: vListInsertEnd_def ix p Let_def\<close>)
qed (simp_all add: vListInsertEnd_def Let_def)

lemma uxListRemove_ok:
  assumes ok: "lists_ok L st A" and i: "pxContainer st i = Some l"
  obtains st' where "uxListRemove st i = Some (of_nat (length (fst (A l)) - 1), st')"
    "lists_ok L st' (A(l := seq_remove (A l) i))"
    "xItemValue st' = xItemValue st" "pvOwner st' = pvOwner st"
    "pxContainer st' = (pxContainer st)(i := None)"
proof -
  have l: "l \<in> L" and "i \<in> set (fst (A l))"
    using container_in [OF ok i] lists_okD(3) [OF ok, of i l] i by auto
  then obtain as bs where xs: "fst (A l) = as @ i # bs" by (auto dest: split_list)
  have h: "linked st (list_ring l (as @ i # bs))" and d: "distinct (as @ i # bs)"
    and n: "uxNumberOfItems st l = of_nat (length (as @ i # bs))"
    and ix: "pxIndex st l = index_link l (snd (A l))" "set_option (snd (A l)) \<subseteq> set (as @ i # bs)"
    using lists_okD(1) [OF ok l] by (simp_all add: holds_def xs)
  have ne: "before l as \<noteq> Item i" "behind l bs \<noteq> Item i"
    using link_ne [of i as bs l] d by auto
  define c where "c = (if snd (A l) = Some i then (if as = [] then None else Some (last as)) else snd (A l))"
  have c: "seq_remove (A l) i = (as @ bs, c)"
  proof -
    have "A l = (as @ i # bs, snd (A l))" using xs by (metis prod.collapse)
    then have "seq_remove (A l) i = seq_remove (as @ i # bs, snd (A l)) i" by simp
    then show ?thesis using cut_at [OF d] by (simp add: c_def Let_def)
  qed
  have ci: "index_link l c = (if pxIndex st l = Item i then before l as else pxIndex st l)"
    by (cases "snd (A l)") (auto simp: c_def ix before_def)
  have cs: "set_option c \<subseteq> set (as @ bs)"
    using ix(2) d by (auto simp: c_def split: if_splits)
  define st' where "st' = st\<lparr>pxPrevious := (pxPrevious st)(behind l bs := before l as),
    pxNext := (pxNext st)(before l as := behind l bs),
    pxIndex := (pxIndex st)(l := index_link l c),
    pxContainer := (pxContainer st)(i := None),
    uxNumberOfItems := (uxNumberOfItems st)(l := uxNumberOfItems st l - 1)\<rparr>"
  have 1: "uxListRemove st i = Some (of_nat (length (fst (A l)) - 1), st')"
    using ne ring_neighbours [OF h] by (simp add: uxListRemove_def i st'_def ci n xs)
  have 2: "lists_ok L st' (A(l := (as @ bs, c)))"
    by (rule lists_ok_unsplice [OF ok l xs _ _ _ _ _ _ cs]) (simp_all add: st'_def)
  show ?thesis using that [OF 1] 2 c by (simp add: st'_def)
qed

lemma listGET_OWNER_OF_NEXT_ENTRY_ok:
  assumes ok: "lists_ok L st A" and l: "l \<in> L" and ne: "fst (A l) \<noteq> []"
    and own: "pvOwner st (hd (turns (A l))) = Some t"
  obtains st' where "listGET_OWNER_OF_NEXT_ENTRY st l = Some (t, st')"
    "lists_ok L st' (A(l := seq_next (A l)))"
    "xItemValue st' = xItemValue st" "pvOwner st' = pvOwner st" "pxContainer st' = pxContainer st"
proof -
  define x where "x = hd (turns (A l))"
  have h: "linked st (list_ring l (fst (A l)))" "distinct (fst (A l))"
    "pxIndex st l = index_link l (snd (A l))" "set_option (snd (A l)) \<subseteq> set (fst (A l))"
    using lists_okD(1) [OF ok l] by (simp_all add: holds_def)
  have first: "pxNext st (End l) = Item (hd (fst (A l)))"
    using ne h(1) ring_place(1) [of st l "[]" "fst (A l)"] by (cases "fst (A l)") auto
  have step: "(if pxNext st (pxIndex st l) = End l then pxNext st (End l) else pxNext st (pxIndex st l)) = Item x"
  proof (cases "snd (A l)")
    case None
    then show ?thesis using first h(3) by (cases "A l") (auto simp: x_def)
  next
    case (Some c)
    then obtain as bs where xs: "fst (A l) = as @ c # bs"
      using h(4) split_list [of c "fst (A l)"] by auto
    have "pxNext st (Item c) = behind l bs"
      using ring_neighbours(1) [of st l as c bs] h(1) xs by simp
    then show ?thesis using cut_at [of as c bs] first h(2,3) Some xs
      by (cases "A l"; cases as; cases bs) (auto simp: x_def)
  qed
  have xin: "x \<in> set (fst (A l))"
    using ne set_turns [of "fst (A l)" "snd (A l)"] h(2,4)
    by (metis hd_in_set list.set_sel(1) prod.collapse set_empty x_def)
  define st' where "st' = st\<lparr>pxIndex := (pxIndex st)(l := Item x)\<rparr>"
  have 1: "listGET_OWNER_OF_NEXT_ENTRY st l = Some (t, st')"
    using step own by (auto simp: listGET_OWNER_OF_NEXT_ENTRY_def Let_def st'_def x_def [symmetric] split: if_splits)
  have "holds st l (A l)" using lists_okD(1) [OF ok l] .
  then have "holds st' l (seq_next (A l))"
    using xin linked_cong [of st "list_ring l (fst (A l))" st']
    by (simp add: holds_def st'_def seq_next_def x_def)
  then have 2: "lists_ok L st' (A(l := seq_next (A l)))"
    using lists_okD(3) [OF ok]
    by (intro lists_ok_fun_upd [OF ok l])
       (auto simp: seq_next_def st'_def intro: holds_cong [OF lists_okD(1) [OF ok]])
  show ?thesis using that [OF 1 2] by (simp add: st'_def)
qed


lemma vListInitialise_ok:
  assumes ok: "lists_ok L st A" and l: "A l = ([], None)"
  shows "lists_ok (insert l L) (vListInitialise st l) A"
  unfolding lists_ok_def
proof (intro conjI ballI allI impI)
  fix l' assume "l' \<in> insert l L"
  then consider "l' = l" | "l' \<noteq> l" "l' \<in> L" by blast
  then show "holds (vListInitialise st l) l' (A l')"
  proof cases
    case 1
    then show ?thesis by (simp add: l holds_def vListInitialise_def list_ring_def)
  next
    case 2
    then show ?thesis
      by (intro holds_cong [OF lists_okD(1) [OF ok]]) (auto simp: vListInitialise_def)
  qed
next
  show "l' \<notin> insert l L \<Longrightarrow> A l' = ([], None)" for l' using lists_okD(2) [OF ok] by simp
  show "(pxContainer (vListInitialise st l) i = Some l') = (i \<in> set (fst (A l')))" for i l'
    using lists_okD(3) [OF ok] by (simp add: vListInitialise_def)
qed

lemma lists_ok_same:
  assumes ok: "lists_ok L st A"
    and "pxNext st' = pxNext st" "pxPrevious st' = pxPrevious st" "pxContainer st' = pxContainer st"
    "uxNumberOfItems st' = uxNumberOfItems st" "pxIndex st' = pxIndex st"
    "\<And>l. xItemValue st' (End l) = xItemValue st (End l)"
  shows "lists_ok L st' A"
  unfolding lists_ok_def
proof (intro conjI ballI allI impI)
  show "l \<in> L \<Longrightarrow> holds st' l (A l)" for l
    by (rule holds_cong [OF lists_okD(1) [OF ok]]) (simp_all add: assms)
qed (use lists_okD [OF ok] assms in simp_all)

lemma listSET_LIST_ITEM_VALUE_ok:
  "lists_ok L st A \<Longrightarrow> lists_ok L (listSET_LIST_ITEM_VALUE st i v) A"
  by (erule lists_ok_same) (simp_all add: listSET_LIST_ITEM_VALUE_def)

lemma listSET_LIST_ITEM_OWNER_ok:
  "lists_ok L st A \<Longrightarrow> lists_ok L (listSET_LIST_ITEM_OWNER st i t) A"
  by (erule lists_ok_same) (simp_all add: listSET_LIST_ITEM_OWNER_def)

lemma vListInitialiseItem_ok:
  "lists_ok L st A \<Longrightarrow> pxContainer st i = None \<Longrightarrow> lists_ok L (vListInitialiseItem st i) A"
  by (erule lists_ok_same) (auto simp: vListInitialiseItem_def)

lemma list_length:
  assumes "lists_ok L st A" and "l \<in> L"
  shows "listCURRENT_LIST_LENGTH st l = of_nat (length (fst (A l)))"
  using lists_okD(1) [OF assms] by (simp add: holds_def listCURRENT_LIST_LENGTH_def)

lemma list_is_empty:
  assumes "lists_ok L st A" and "l \<in> L" and "length (fst (A l)) < 2 ^ 32"
  shows "listLIST_IS_EMPTY st l \<longleftrightarrow> fst (A l) = []"
proof -
  have "(of_nat (length (fst (A l))) :: u32) = 0 \<longleftrightarrow> length (fst (A l)) = 0"
    using assms(3) by (auto simp: word_of_nat_eq_0_iff dest: dvd_imp_le)
  then show ?thesis
    using list_length [OF assms(1,2)] by (simp add: listLIST_IS_EMPTY_def listCURRENT_LIST_LENGTH_def)
qed

lemma list_head:
  assumes "lists_ok L st A" and "l \<in> L" and "fst (A l) = i # xs"
  shows "listGET_OWNER_OF_HEAD_ENTRY st l = pvOwner st i"
    "listGET_ITEM_VALUE_OF_HEAD_ENTRY st l = xItemValue st (Item i)"
proof -
  have "pxNext st (End l) = Item i"
    using lists_okD(1) [OF assms(1,2)] ring_place(1) [of st l "[]" "i # xs"]
    by (simp add: holds_def assms(3))
  then show "listGET_OWNER_OF_HEAD_ENTRY st l = pvOwner st i"
    "listGET_ITEM_VALUE_OF_HEAD_ENTRY st l = xItemValue st (Item i)"
    by (simp_all add: listGET_OWNER_OF_HEAD_ENTRY_def listGET_ITEM_VALUE_OF_HEAD_ENTRY_def)
qed

lemma seq_insert_sorted:
  assumes "sorted (map val xs)"
  shows "sorted (map val (fst (seq_insert val (xs, c) i)))"
proof -
  define as bs where "as = takeWhile (\<lambda>y. val y \<le> val i) xs" and "bs = dropWhile (\<lambda>y. val y \<le> val i) xs"
  have xs: "xs = as @ bs" by (simp add: as_def bs_def)
  have le: "\<And>y. y \<in> set as \<Longrightarrow> val y \<le> val i" by (auto simp: as_def dest: set_takeWhileD)
  have "\<And>y. y \<in> set bs \<Longrightarrow> val i \<le> val y"
  proof (cases bs)
    case (Cons z zs)
    then have "val i \<le> val z" using hd_dropWhile [of "\<lambda>y. val y \<le> val i" xs] by (simp add: bs_def)
    then show "val i \<le> val y" if "y \<in> set bs" for y
      using that assms Cons by (auto simp: xs sorted_append)
  qed simp
  then show ?thesis using assms le
    unfolding seq_insert.simps as_def [symmetric] bs_def [symmetric]
    by (auto simp: xs sorted_append intro: order_trans)
qed


text \<open>C12: the operations of the kernel's lists keep all rings intact and do to the sequence of items
  and the index of their list what is promised, and nothing to any other list. An insertion in
  order comes back and puts the item behind those with a value that is not greater; an insertion
  at the end puts it in front of the index; a removal steps the index back if it was at the item
  and answers the number of items left; and the next owner is that of the first item in the order
  of the turns.\<close>

theorem rtos_lists_refine:
  assumes "lists_ok L st A" and "l \<in> L"
  shows "(pxContainer st i = None \<longrightarrow>
      (\<exists>st'. vListInsert st l i = Some st' \<and>
         lists_ok L st' (A(l := seq_insert (\<lambda>i. xItemValue st (Item i)) (A l) i))) \<and>
      lists_ok L (vListInsertEnd st l i) (A(l := seq_insert_end (A l) i))) \<and>
    (pxContainer st i = Some l \<longrightarrow>
      (\<exists>st'. uxListRemove st i = Some (of_nat (length (fst (A l)) - 1), st') \<and>
         lists_ok L st' (A(l := seq_remove (A l) i)))) \<and>
    (\<forall>t. fst (A l) \<noteq> [] \<and> pvOwner st (hd (turns (A l))) = Some t \<longrightarrow>
      (\<exists>st'. listGET_OWNER_OF_NEXT_ENTRY st l = Some (t, st') \<and>
         lists_ok L st' (A(l := seq_next (A l)))))"
proof (intro conjI impI allI)
  assume i: "pxContainer st i = None"
  show "\<exists>st'. vListInsert st l i = Some st' \<and>
         lists_ok L st' (A(l := seq_insert (\<lambda>i. xItemValue st (Item i)) (A l) i))"
    by (rule vListInsert_ok [OF assms i]) blast
  show "lists_ok L (vListInsertEnd st l i) (A(l := seq_insert_end (A l) i))"
    by (rule vListInsertEnd_ok [OF assms i])
next
  assume "pxContainer st i = Some l"
  from uxListRemove_ok [OF assms(1) this]
  show "\<exists>st'. uxListRemove st i = Some (of_nat (length (fst (A l)) - 1), st') \<and>
         lists_ok L st' (A(l := seq_remove (A l) i))" by metis
next
  fix t assume t: "fst (A l) \<noteq> [] \<and> pvOwner st (hd (turns (A l))) = Some t"
  show "\<exists>st'. listGET_OWNER_OF_NEXT_ENTRY st l = Some (t, st') \<and>
         lists_ok L st' (A(l := seq_next (A l)))"
    using listGET_OWNER_OF_NEXT_ENTRY_ok [OF assms conjunct1 [OF t] conjunct2 [OF t]] by metis
qed

text \<open>Memory before any list is set up.\<close>

definition blank_lists :: "('l, 'i) lists" where
  "blank_lists = \<lparr>xItemValue = \<lambda>_. 0, pxNext = \<lambda>p. p, pxPrevious = \<lambda>p. p, pvOwner = \<lambda>_. None,
     pxContainer = \<lambda>_. None, uxNumberOfItems = \<lambda>_. 0, pxIndex = End\<rparr>"

lemma blank_lists_ok: "lists_ok {} blank_lists (\<lambda>_. ([], None))"
  by (simp add: lists_ok_def blank_lists_def)

theorem rtos_lists_refine_witness:
  "\<exists>st'. vListInsert (vListInitialise blank_lists (7 :: nat)) 7 (1 :: nat) = Some st' \<and>
     lists_ok {7} st' (\<lambda>l. if l = 7 then ([1], None) else ([], None))"
proof -
  have ok: "lists_ok {7} (vListInitialise blank_lists (7 :: nat)) (\<lambda>_. ([] :: nat list, None))"
    by (rule vListInitialise_ok [OF blank_lists_ok]) simp
  have i: "pxContainer (vListInitialise blank_lists (7 :: nat)) (1 :: nat) = None"
    by (simp add: vListInitialise_def blank_lists_def)
  have "(\<lambda>_. ([] :: nat list, None))(7 := ([1], None)) =
    (\<lambda>l :: nat. if l = 7 then ([1 :: nat], None :: nat option) else ([], None))" by auto
  then show ?thesis using rtos_lists_refine [OF ok, of 7 1] i by simp
qed

end
