(* ===== verification/RTOS_Tasks.thy ===== *)
theory RTOS_Tasks
  imports RTOS_List
begin

text \<open>
  The scheduler of the kernel (\<open>FreeRTOS/Source/tasks.c\<close> with the interrupt handlers of the
  port), in the configuration of the firmware: one core, preemption and time slicing, 32-bit
  ticks, 56 priorities, the generic task selection, one notification per task.

  The state is the store of lists of RTOS_List, the task control blocks and the variables of the
  file. A task control block is known by its address; its two list items are the items of the
  store. What a critical section protects is one step. A request for a context switch sets a
  flag, the pending PendSV exception, and the exception itself is \<open>PendSV_Handler\<close>.

  As in RTOS_List, an operation that does not come back is \<open>None\<close>: a failed \<open>configASSERT\<close> is an
  endless loop. Stacks, names, and the trace hooks, which are empty, are left out.
\<close>

section \<open>Data\<close>

datatype klist = Ready nat | Delayed1 | Delayed2 | PendingReady | WaitingTermination
  | SuspendedList | Event nat

datatype kitem = StateItem nat | EventItem nat

type_synonym kstore = "(klist, kitem) lists"

datatype notify_state = taskNOT_WAITING_NOTIFICATION | taskWAITING_NOTIFICATION
  | taskNOTIFICATION_RECEIVED

datatype eNotifyAction = eNoAction | eSetBits | eIncrement | eSetValueWithOverwrite
  | eSetValueWithoutOverwrite

record tcb =
  uxPriority :: nat
  uxBasePriority :: nat
  uxTCBNumber :: u32
  ulNotifiedValue :: u32
  ucNotifyState :: notify_state
  ucDelayAborted :: bool

record kernel =
  klists :: kstore
  tcbs :: "nat \<Rightarrow> tcb"
  pxCurrentTCB :: "nat option"
  pxDelayedTaskList :: klist
  pxOverflowDelayedTaskList :: klist
  uxDeletedTasksWaitingCleanUp :: u32
  uxCurrentNumberOfTasks :: u32
  xTickCount :: u32
  uxTopReadyPriority :: nat
  xSchedulerRunning :: bool
  xPendedTicks :: u32
  xYieldPending :: bool
  xNumOfOverflows :: u32
  uxTaskNumber :: u32
  xNextTaskUnblockTime :: u32
  uxSchedulerSuspended :: u32
  pendsv :: bool

definition configMAX_PRIORITIES :: nat where
  "configMAX_PRIORITIES = 56"

definition set_tcb :: "kernel \<Rightarrow> nat \<Rightarrow> (tcb \<Rightarrow> tcb) \<Rightarrow> kernel" where
  "set_tcb k t f = k\<lparr>tcbs := (tcbs k)(t := f (tcbs k t))\<rparr>"

section \<open>Requests for a context switch\<close>

definition vPortYield :: "kernel \<Rightarrow> kernel" where
  "vPortYield k = k\<lparr>pendsv := True\<rparr>"

definition taskYIELD_ANY_CORE_IF_USING_PREEMPTION :: "kernel \<Rightarrow> nat \<Rightarrow> kernel option" where
  "taskYIELD_ANY_CORE_IF_USING_PREEMPTION k t = do {
     c \<leftarrow> pxCurrentTCB k;
     Some (if uxPriority (tcbs k c) < uxPriority (tcbs k t) then vPortYield k else k)
   }"

section \<open>Lists of the kernel\<close>

definition listREMOVE_ITEM :: "kernel \<Rightarrow> kitem \<Rightarrow> kernel option" where
  "listREMOVE_ITEM k i = do { (n, s) \<leftarrow> uxListRemove (klists k) i; Some (k\<lparr>klists := s\<rparr>) }"

text \<open>An event item is taken off its list, if it is on one.\<close>

definition leave_event_list :: "kernel \<Rightarrow> nat \<Rightarrow> kernel option" where
  "leave_event_list k t =
     (if pxContainer (klists k) (EventItem t) \<noteq> None then listREMOVE_ITEM k (EventItem t) else Some k)"

definition list_insert_end :: "kernel \<Rightarrow> klist \<Rightarrow> kitem \<Rightarrow> kernel" where
  "list_insert_end k l i = k\<lparr>klists := vListInsertEnd (klists k) l i\<rparr>"

definition list_insert :: "kernel \<Rightarrow> klist \<Rightarrow> kitem \<Rightarrow> kernel option" where
  "list_insert k l i = do { s \<leftarrow> vListInsert (klists k) l i; Some (k\<lparr>klists := s\<rparr>) }"

definition prvAddTaskToReadyList :: "kernel \<Rightarrow> nat \<Rightarrow> kernel" where
  "prvAddTaskToReadyList k t =
     (let p = uxPriority (tcbs k t);
          k1 = (if p > uxTopReadyPriority k then k\<lparr>uxTopReadyPriority := p\<rparr> else k)
      in list_insert_end k1 (Ready p) (StateItem t))"

definition prvResetNextTaskUnblockTime :: "kernel \<Rightarrow> kernel" where
  "prvResetNextTaskUnblockTime k =
     (if listLIST_IS_EMPTY (klists k) (pxDelayedTaskList k)
      then k\<lparr>xNextTaskUnblockTime := portMAX_DELAY\<rparr>
      else k\<lparr>xNextTaskUnblockTime :=
               listGET_ITEM_VALUE_OF_HEAD_ENTRY (klists k) (pxDelayedTaskList k)\<rparr>)"

definition taskSWITCH_DELAYED_LISTS :: "kernel \<Rightarrow> kernel option" where
  "taskSWITCH_DELAYED_LISTS k =
     (if listLIST_IS_EMPTY (klists k) (pxDelayedTaskList k) then
        Some (prvResetNextTaskUnblockTime
          (k\<lparr>pxDelayedTaskList := pxOverflowDelayedTaskList k,
             pxOverflowDelayedTaskList := pxDelayedTaskList k,
             xNumOfOverflows := xNumOfOverflows k + 1\<rparr>))
      else None)"

definition prvAddCurrentTaskToDelayedList :: "kernel \<Rightarrow> u32 \<Rightarrow> bool \<Rightarrow> kernel option" where
  "prvAddCurrentTaskToDelayedList k xTicksToWait xCanBlockIndefinitely = do {
     c \<leftarrow> pxCurrentTCB k;
     let k1 = set_tcb k c (\<lambda>b. b\<lparr>ucDelayAborted := False\<rparr>);
     k2 \<leftarrow> listREMOVE_ITEM k1 (StateItem c);
     if xTicksToWait = portMAX_DELAY \<and> xCanBlockIndefinitely then
       Some (list_insert_end k2 SuspendedList (StateItem c))
     else do {
       let xTimeToWake = xTickCount k2 + xTicksToWait;
       let k3 = k2\<lparr>klists := listSET_LIST_ITEM_VALUE (klists k2) (StateItem c) xTimeToWake\<rparr>;
       if xTimeToWake < xTickCount k3 then list_insert k3 (pxOverflowDelayedTaskList k3) (StateItem c)
       else do {
         k4 \<leftarrow> list_insert k3 (pxDelayedTaskList k3) (StateItem c);
         Some (if xTimeToWake < xNextTaskUnblockTime k4
               then k4\<lparr>xNextTaskUnblockTime := xTimeToWake\<rparr> else k4)
       }
     }
   }"

section \<open>Selection of the running task\<close>

text \<open>Below priority 0 the assertion in the search fails.\<close>

fun top_ready :: "kstore \<Rightarrow> nat \<Rightarrow> nat option" where
  "top_ready s 0 = (if listLIST_IS_EMPTY s (Ready 0) then None else Some 0)"
| "top_ready s (Suc p) = (if listLIST_IS_EMPTY s (Ready (Suc p)) then top_ready s p else Some (Suc p))"

definition taskSELECT_HIGHEST_PRIORITY_TASK :: "kernel \<Rightarrow> kernel option" where
  "taskSELECT_HIGHEST_PRIORITY_TASK k = do {
     p \<leftarrow> top_ready (klists k) (uxTopReadyPriority k);
     (t, s) \<leftarrow> listGET_OWNER_OF_NEXT_ENTRY (klists k) (Ready p);
     Some (k\<lparr>klists := s, pxCurrentTCB := Some t, uxTopReadyPriority := p\<rparr>)
   }"

definition vTaskSwitchContext :: "kernel \<Rightarrow> kernel option" where
  "vTaskSwitchContext k =
     (if uxSchedulerSuspended k \<noteq> 0 then Some (k\<lparr>xYieldPending := True\<rparr>)
      else taskSELECT_HIGHEST_PRIORITY_TASK (k\<lparr>xYieldPending := False\<rparr>))"

definition PendSV_Handler :: "kernel \<Rightarrow> kernel option" where
  "PendSV_Handler k = vTaskSwitchContext (k\<lparr>pendsv := False\<rparr>)"

section \<open>The tick\<close>

text \<open>The loop that readies the tasks whose time has come; the flag asks for a switch.\<close>

partial_function (option) unblock_expired :: "u32 \<Rightarrow> bool \<Rightarrow> kernel \<Rightarrow> (bool \<times> kernel) option" where
  [code]: "unblock_expired now xSwitchRequired k =
     (if listLIST_IS_EMPTY (klists k) (pxDelayedTaskList k)
      then Some (xSwitchRequired, k\<lparr>xNextTaskUnblockTime := portMAX_DELAY\<rparr>)
      else Option.bind (listGET_OWNER_OF_HEAD_ENTRY (klists k) (pxDelayedTaskList k)) (\<lambda>t.
        let xItemValue = xItemValue (klists k) (Item (StateItem t)) in
        if now < xItemValue then Some (xSwitchRequired, k\<lparr>xNextTaskUnblockTime := xItemValue\<rparr>)
        else Option.bind (listREMOVE_ITEM k (StateItem t)) (\<lambda>k1.
             Option.bind (leave_event_list k1 t) (\<lambda>k2.
             Option.bind (pxCurrentTCB k2) (\<lambda>c.
               unblock_expired now
                 (xSwitchRequired \<or> uxPriority (tcbs k2 t) > uxPriority (tcbs k2 c))
                 (prvAddTaskToReadyList k2 t))))))"

definition xTaskIncrementTick :: "kernel \<Rightarrow> (bool \<times> kernel) option" where
  "xTaskIncrementTick k =
     (if uxSchedulerSuspended k = 0 then do {
        let now = xTickCount k + 1;
        let k1 = k\<lparr>xTickCount := now\<rparr>;
        k2 \<leftarrow> (if now = 0 then taskSWITCH_DELAYED_LISTS k1 else Some k1);
        (sw, k3) \<leftarrow> (if now \<ge> xNextTaskUnblockTime k2 then unblock_expired now False k2
                     else Some (False, k2));
        c \<leftarrow> pxCurrentTCB k3;
        let sw' = (sw \<or> listCURRENT_LIST_LENGTH (klists k3) (Ready (uxPriority (tcbs k3 c))) > 1);
        Some (sw' \<or> xYieldPending k3, k3)
      } else Some (False, k\<lparr>xPendedTicks := xPendedTicks k + 1\<rparr>))"

definition SysTick_Handler :: "kernel \<Rightarrow> kernel option" where
  "SysTick_Handler k = do {
     (sw, k1) \<leftarrow> xTaskIncrementTick k;
     Some (if sw then vPortYield k1 else k1)
   }"

section \<open>Suspending the scheduler\<close>

definition vTaskSuspendAll :: "kernel \<Rightarrow> kernel" where
  "vTaskSuspendAll k = k\<lparr>uxSchedulerSuspended := uxSchedulerSuspended k + 1\<rparr>"

text \<open>Tasks that were readied meanwhile; the flag says whether there was one.\<close>

partial_function (option) move_pending_ready :: "bool \<Rightarrow> kernel \<Rightarrow> (bool \<times> kernel) option" where
  [code]: "move_pending_ready any k =
     (if listLIST_IS_EMPTY (klists k) PendingReady then Some (any, k)
      else Option.bind (listGET_OWNER_OF_HEAD_ENTRY (klists k) PendingReady) (\<lambda>t.
           Option.bind (listREMOVE_ITEM k (EventItem t)) (\<lambda>k1.
           Option.bind (listREMOVE_ITEM k1 (StateItem t)) (\<lambda>k2.
           Option.bind (pxCurrentTCB k2) (\<lambda>c.
             let k3 = prvAddTaskToReadyList k2 t in
             move_pending_ready True
               (if uxPriority (tcbs k3 t) > uxPriority (tcbs k3 c)
                then k3\<lparr>xYieldPending := True\<rparr> else k3))))))"

text \<open>Ticks that came meanwhile.\<close>

fun catch_up_ticks :: "nat \<Rightarrow> kernel \<Rightarrow> kernel option" where
  "catch_up_ticks 0 k = Some k"
| "catch_up_ticks (Suc n) k = do {
     (sw, k1) \<leftarrow> xTaskIncrementTick k;
     catch_up_ticks n (if sw then k1\<lparr>xYieldPending := True\<rparr> else k1)
   }"

definition xTaskResumeAll :: "kernel \<Rightarrow> (bool \<times> kernel) option" where
  "xTaskResumeAll k =
     (if uxSchedulerSuspended k = 0 then None
      else let k1 = k\<lparr>uxSchedulerSuspended := uxSchedulerSuspended k - 1\<rparr> in
        if uxSchedulerSuspended k1 = 0 \<and> uxCurrentNumberOfTasks k1 > 0 then do {
          (any, k2) \<leftarrow> move_pending_ready False k1;
          let k3 = (if any then prvResetNextTaskUnblockTime k2 else k2);
          k4 \<leftarrow> (if xPendedTicks k3 > 0
                then do { k' \<leftarrow> catch_up_ticks (unat (xPendedTicks k3)) k3; Some (k'\<lparr>xPendedTicks := 0\<rparr>) }
                else Some k3);
          Some (if xYieldPending k4 then (True, vPortYield k4) else (False, k4))
        }
        else Some (False, k1))"

section \<open>Blocking and waking\<close>

text \<open>
  The calls that block are each one step here. In the source they lock the scheduler and let interrupts in
  between their parts; of these, the tick is then pended by \<open>xTaskIncrementTick\<close>, and the tasks readied wait for \<open>xTaskResumeAll\<close>.
\<close>

definition vTaskDelay :: "kernel \<Rightarrow> u32 \<Rightarrow> kernel option" where
  "vTaskDelay k xTicksToDelay = do {
     (xAlreadyYielded, k') \<leftarrow>
       (if xTicksToDelay > 0 then
          let k1 = vTaskSuspendAll k in
          if uxSchedulerSuspended k1 = 1 then do {
            k2 \<leftarrow> prvAddCurrentTaskToDelayedList k1 xTicksToDelay False;
            xTaskResumeAll k2
          } else None
        else Some (False, k));
     Some (if xAlreadyYielded then k' else vPortYield k')
   }"

definition vTaskPlaceOnEventList :: "kernel \<Rightarrow> klist \<Rightarrow> u32 \<Rightarrow> kernel option" where
  "vTaskPlaceOnEventList k pxEventList xTicksToWait = do {
     c \<leftarrow> pxCurrentTCB k;
     k1 \<leftarrow> list_insert k pxEventList (EventItem c);
     prvAddCurrentTaskToDelayedList k1 xTicksToWait True
   }"

definition xTaskRemoveFromEventList_kernel :: "kernel \<Rightarrow> klist \<Rightarrow> (bool \<times> kernel) option" where
  "xTaskRemoveFromEventList_kernel k pxEventList = do {
     t \<leftarrow> listGET_OWNER_OF_HEAD_ENTRY (klists k) pxEventList;
     k1 \<leftarrow> listREMOVE_ITEM k (EventItem t);
     k2 \<leftarrow> (if uxSchedulerSuspended k1 = 0 then do {
              k' \<leftarrow> listREMOVE_ITEM k1 (StateItem t);
              Some (prvAddTaskToReadyList k' t)
            } else Some (list_insert_end k1 PendingReady (EventItem t)));
     c \<leftarrow> pxCurrentTCB k2;
     Some (if uxPriority (tcbs k2 t) > uxPriority (tcbs k2 c)
           then (True, k2\<lparr>xYieldPending := True\<rparr>) else (False, k2))
   }"

definition ulTaskGenericNotifyTake_wait :: "kernel \<Rightarrow> u32 \<Rightarrow> kernel option" where
  "ulTaskGenericNotifyTake_wait k xTicksToWait = do {
     c \<leftarrow> pxCurrentTCB k;
     if ulNotifiedValue (tcbs k c) = 0 \<and> xTicksToWait > 0 then do {
       let k1 = vTaskSuspendAll k;
       let k2 = set_tcb k1 c (\<lambda>b. b\<lparr>ucNotifyState := taskWAITING_NOTIFICATION\<rparr>);
       k3 \<leftarrow> prvAddCurrentTaskToDelayedList k2 xTicksToWait True;
       (xAlreadyYielded, k4) \<leftarrow> xTaskResumeAll k3;
       Some (if xAlreadyYielded then k4 else vPortYield k4)
     } else Some k
   }"

definition ulTaskGenericNotifyTake_take :: "kernel \<Rightarrow> bool \<Rightarrow> (u32 \<times> kernel) option" where
  "ulTaskGenericNotifyTake_take k xClearCountOnExit = do {
     c \<leftarrow> pxCurrentTCB k;
     let ulReturn = ulNotifiedValue (tcbs k c);
     let k1 = (if ulReturn \<noteq> 0 then
                 set_tcb k c (\<lambda>b. b\<lparr>ulNotifiedValue := (if xClearCountOnExit then 0 else ulReturn - 1)\<rparr>)
               else k);
     Some (ulReturn, set_tcb k1 c (\<lambda>b. b\<lparr>ucNotifyState := taskNOT_WAITING_NOTIFICATION\<rparr>))
   }"

text \<open>The answer is what the notification value was before, and whether the action was taken.\<close>

definition xTaskGenericNotify ::
  "kernel \<Rightarrow> nat \<Rightarrow> u32 \<Rightarrow> eNotifyAction \<Rightarrow> (u32 \<times> bool \<times> kernel) option" where
  "xTaskGenericNotify k t ulValue eAction =
     (let b = tcbs k t;
          old = ucNotifyState b;
          xReturn = \<not> (eAction = eSetValueWithoutOverwrite \<and> old = taskNOTIFICATION_RECEIVED);
          v = (case eAction of
                 eSetBits \<Rightarrow> ulNotifiedValue b OR ulValue
               | eIncrement \<Rightarrow> ulNotifiedValue b + 1
               | eSetValueWithOverwrite \<Rightarrow> ulValue
               | eSetValueWithoutOverwrite \<Rightarrow>
                   (if old \<noteq> taskNOTIFICATION_RECEIVED then ulValue else ulNotifiedValue b)
               | eNoAction \<Rightarrow> ulNotifiedValue b);
          k1 = set_tcb k t (\<lambda>b. b\<lparr>ulNotifiedValue := v, ucNotifyState := taskNOTIFICATION_RECEIVED\<rparr>)
      in do {
        k2 \<leftarrow> (if old = taskWAITING_NOTIFICATION then do {
                 k' \<leftarrow> listREMOVE_ITEM k1 (StateItem t);
                 let k'' = prvAddTaskToReadyList k' t;
                 if pxContainer (klists k'') (EventItem t) = None
                 then taskYIELD_ANY_CORE_IF_USING_PREEMPTION k'' t else None
               } else Some k1);
        Some (ulNotifiedValue b, xReturn, k2)
      })"

section \<open>Suspending tasks\<close>

definition vTaskSuspend :: "kernel \<Rightarrow> nat option \<Rightarrow> kernel option" where
  "vTaskSuspend k xTaskToSuspend = do {
     t \<leftarrow> (case xTaskToSuspend of None \<Rightarrow> pxCurrentTCB k | Some t \<Rightarrow> Some t);
     k1 \<leftarrow> listREMOVE_ITEM k (StateItem t);
     k2 \<leftarrow> leave_event_list k1 t;
     let k3 = list_insert_end k2 SuspendedList (StateItem t);
     let k4 = (if ucNotifyState (tcbs k3 t) = taskWAITING_NOTIFICATION
               then set_tcb k3 t (\<lambda>b. b\<lparr>ucNotifyState := taskNOT_WAITING_NOTIFICATION\<rparr>) else k3);
     let k5 = (if xSchedulerRunning k4 then prvResetNextTaskUnblockTime k4 else k4);
     if Some t = pxCurrentTCB k5 then
       (if xSchedulerRunning k5 then
          (if uxSchedulerSuspended k5 = 0 then Some (vPortYield k5) else None)
        else if listCURRENT_LIST_LENGTH (klists k5) SuspendedList = uxCurrentNumberOfTasks k5
        then Some (k5\<lparr>pxCurrentTCB := None\<rparr>) else vTaskSwitchContext k5)
     else Some k5
   }"

definition prvTaskIsTaskSuspended :: "kernel \<Rightarrow> nat \<Rightarrow> bool" where
  "prvTaskIsTaskSuspended k t \<longleftrightarrow>
     pxContainer (klists k) (StateItem t) = Some SuspendedList \<and>
     pxContainer (klists k) (EventItem t) \<noteq> Some PendingReady \<and>
     pxContainer (klists k) (EventItem t) = None \<and>
     ucNotifyState (tcbs k t) \<noteq> taskWAITING_NOTIFICATION"

definition vTaskResume :: "kernel \<Rightarrow> nat \<Rightarrow> kernel option" where
  "vTaskResume k t =
     (if Some t \<noteq> pxCurrentTCB k \<and> prvTaskIsTaskSuspended k t then do {
        k1 \<leftarrow> listREMOVE_ITEM k (StateItem t);
        taskYIELD_ANY_CORE_IF_USING_PREEMPTION (prvAddTaskToReadyList k1 t) t
      } else Some k)"

section \<open>Time-outs\<close>

text \<open>The overflow count and the tick count at the start, as \<open>vTaskInternalSetTimeOutState\<close> takes them.\<close>

definition vTaskInternalSetTimeOutState :: "kernel \<Rightarrow> u32 \<times> u32" where
  "vTaskInternalSetTimeOutState k = (xNumOfOverflows k, xTickCount k)"

definition xTaskCheckForTimeOut ::
  "kernel \<Rightarrow> u32 \<times> u32 \<Rightarrow> u32 \<Rightarrow> (bool \<times> (u32 \<times> u32) \<times> u32 \<times> kernel) option" where
  "xTaskCheckForTimeOut k pxTimeOut pxTicksToWait =
     (let now = xTickCount k; xElapsedTime = now - snd pxTimeOut in do {
        c \<leftarrow> pxCurrentTCB k;
        Some (if ucDelayAborted (tcbs k c) then
                (True, pxTimeOut, pxTicksToWait, set_tcb k c (\<lambda>b. b\<lparr>ucDelayAborted := False\<rparr>))
              else if pxTicksToWait = portMAX_DELAY then (False, pxTimeOut, pxTicksToWait, k)
              else if xNumOfOverflows k \<noteq> fst pxTimeOut \<and> now \<ge> snd pxTimeOut then
                (True, pxTimeOut, 0, k)
              else if xElapsedTime < pxTicksToWait then
                (False, vTaskInternalSetTimeOutState k, pxTicksToWait - xElapsedTime, k)
              else (True, pxTimeOut, 0, k))
      })"

section \<open>Creating and deleting tasks\<close>

definition prvInitialiseTaskLists :: "kernel \<Rightarrow> kernel" where
  "prvInitialiseTaskLists k =
     (let s1 = foldl (\<lambda>s p. vListInitialise s (Ready p)) (klists k) [0 ..< configMAX_PRIORITIES];
          s2 = foldl vListInitialise s1
                 [Delayed1, Delayed2, PendingReady, WaitingTermination, SuspendedList]
      in k\<lparr>klists := s2, pxDelayedTaskList := Delayed1, pxOverflowDelayedTaskList := Delayed2\<rparr>)"

definition prvInitialiseNewTask :: "kernel \<Rightarrow> nat \<Rightarrow> nat \<Rightarrow> kernel option" where
  "prvInitialiseNewTask k t prio =
     (if prio < configMAX_PRIORITIES then
        let k1 = set_tcb k t (\<lambda>_. \<lparr>uxPriority = prio, uxBasePriority = prio, uxTCBNumber = 0,
                   ulNotifiedValue = 0, ucNotifyState = taskNOT_WAITING_NOTIFICATION,
                   ucDelayAborted = False\<rparr>);
            s1 = vListInitialiseItem (klists k1) (StateItem t);
            s2 = vListInitialiseItem s1 (EventItem t);
            s3 = listSET_LIST_ITEM_OWNER s2 (StateItem t) t;
            s4 = listSET_LIST_ITEM_VALUE s3 (EventItem t) (of_nat configMAX_PRIORITIES - of_nat prio);
            s5 = listSET_LIST_ITEM_OWNER s4 (EventItem t) t
        in Some (k1\<lparr>klists := s5\<rparr>)
      else None)"

definition prvAddNewTaskToReadyList :: "kernel \<Rightarrow> nat \<Rightarrow> kernel option" where
  "prvAddNewTaskToReadyList k t =
     (let k1 = k\<lparr>uxCurrentNumberOfTasks := uxCurrentNumberOfTasks k + 1\<rparr>;
          k2 = (case pxCurrentTCB k1 of
                  None \<Rightarrow>
                    let k' = k1\<lparr>pxCurrentTCB := Some t\<rparr> in
                    (if uxCurrentNumberOfTasks k' = 1 then prvInitialiseTaskLists k' else k')
                | Some c \<Rightarrow>
                    (if \<not> xSchedulerRunning k1 \<and> uxPriority (tcbs k1 c) \<le> uxPriority (tcbs k1 t)
                     then k1\<lparr>pxCurrentTCB := Some t\<rparr> else k1));
          k3 = k2\<lparr>uxTaskNumber := uxTaskNumber k2 + 1\<rparr>;
          k4 = set_tcb k3 t (\<lambda>b. b\<lparr>uxTCBNumber := uxTaskNumber k3\<rparr>);
          k5 = prvAddTaskToReadyList k4 t
      in if xSchedulerRunning k5 then taskYIELD_ANY_CORE_IF_USING_PREEMPTION k5 t else Some k5)"

text \<open>\<open>alloc\<close> is the control block the allocator handed out, if it did.\<close>

definition xTaskCreate :: "kernel \<Rightarrow> nat option \<Rightarrow> nat \<Rightarrow> (bool \<times> kernel) option" where
  "xTaskCreate k alloc prio =
     (case alloc of
        None \<Rightarrow> Some (False, k)
      | Some t \<Rightarrow> do {
          k1 \<leftarrow> prvInitialiseNewTask k t prio;
          k2 \<leftarrow> prvAddNewTaskToReadyList k1 t;
          Some (True, k2)
        })"

definition vTaskDelete :: "kernel \<Rightarrow> nat option \<Rightarrow> kernel option" where
  "vTaskDelete k xTaskToDelete = do {
     t \<leftarrow> (case xTaskToDelete of None \<Rightarrow> pxCurrentTCB k | Some t \<Rightarrow> Some t);
     k1 \<leftarrow> listREMOVE_ITEM k (StateItem t);
     k2 \<leftarrow> leave_event_list k1 t;
     let k3 = k2\<lparr>uxTaskNumber := uxTaskNumber k2 + 1\<rparr>;
     let k4 = (if xSchedulerRunning k3 \<and> Some t = pxCurrentTCB k3 then
                 (list_insert_end k3 WaitingTermination (StateItem t))
                   \<lparr>uxDeletedTasksWaitingCleanUp := uxDeletedTasksWaitingCleanUp k3 + 1\<rparr>
               else prvResetNextTaskUnblockTime
                      (k3\<lparr>uxCurrentNumberOfTasks := uxCurrentNumberOfTasks k3 - 1\<rparr>));
     if xSchedulerRunning k4 \<and> Some t = pxCurrentTCB k4 then
       (if uxSchedulerSuspended k4 = 0 then Some (vPortYield k4) else None)
     else Some k4
   }"

text \<open>
  The loop of the idle task over the deleted tasks, the count of them as its fuel; the answer is
  the list of control blocks it hands to \<open>prvDeleteTCB\<close>.
\<close>

fun clean_up_tasks :: "nat \<Rightarrow> kernel \<Rightarrow> (nat list \<times> kernel) option" where
  "clean_up_tasks 0 k = Some ([], k)"
| "clean_up_tasks (Suc n) k = do {
     t \<leftarrow> listGET_OWNER_OF_HEAD_ENTRY (klists k) WaitingTermination;
     k1 \<leftarrow> listREMOVE_ITEM k (StateItem t);
     (ts, k2) \<leftarrow> clean_up_tasks n
        (k1\<lparr>uxCurrentNumberOfTasks := uxCurrentNumberOfTasks k1 - 1,
            uxDeletedTasksWaitingCleanUp := uxDeletedTasksWaitingCleanUp k1 - 1\<rparr>);
     Some (t # ts, k2)
   }"

definition prvCheckTasksWaitingTermination :: "kernel \<Rightarrow> (nat list \<times> kernel) option" where
  "prvCheckTasksWaitingTermination k = clean_up_tasks (unat (uxDeletedTasksWaitingCleanUp k)) k"

text \<open>What \<open>vTaskStartScheduler\<close> sets once the idle task and the timer task are there.\<close>

definition vTaskStartScheduler :: "kernel \<Rightarrow> kernel" where
  "vTaskStartScheduler k =
     k\<lparr>xNextTaskUnblockTime := portMAX_DELAY, xSchedulerRunning := True, xTickCount := 0\<rparr>"

text \<open>The kernel before the first task.\<close>

definition kernel_reset :: kernel where
  "kernel_reset = \<lparr>klists = blank_lists,
     tcbs = \<lambda>_. \<lparr>uxPriority = 0, uxBasePriority = 0, uxTCBNumber = 0, ulNotifiedValue = 0,
                  ucNotifyState = taskNOT_WAITING_NOTIFICATION, ucDelayAborted = False\<rparr>,
     pxCurrentTCB = None, pxDelayedTaskList = Delayed1, pxOverflowDelayedTaskList = Delayed2,
     uxDeletedTasksWaitingCleanUp = 0, uxCurrentNumberOfTasks = 0, xTickCount = 0,
     uxTopReadyPriority = 0, xSchedulerRunning = False, xPendedTicks = 0, xYieldPending = False,
     xNumOfOverflows = 0, uxTaskNumber = 0, xNextTaskUnblockTime = 0, uxSchedulerSuspended = 0,
     pendsv = False\<rparr>"

end
