(* ===== verification/RTOS_Invariant.thy ===== *)
theory RTOS_Invariant
  imports RTOS_Tasks
begin

text \<open>
  The invariant of the scheduler: the rings of the kernel are intact and hold sequences of items;
  every task is on exactly one state list, a ready list being that of its priority; the two lists of
  delayed tasks are sorted by wake time, the current one with times to come, the other with
  times behind the wrap of the tick count; and no ready task is above the recorded top priority.
  While a task is taken from one list to another it is loose, a member of the set \<open>X\<close>.
\<close>

section \<open>Statement\<close>

definition core_lists :: "klist set" where
  "core_lists = Ready ` {..<configMAX_PRIORITIES} \<union>
     {Delayed1, Delayed2, PendingReady, WaitingTermination, SuspendedList}"

fun is_ready :: "klist \<Rightarrow> bool" where
  "is_ready (Ready p) = True"
| "is_ready _ = False"

definition itemval :: "kstore \<Rightarrow> kitem \<Rightarrow> u32" where
  "itemval s i = xItemValue s (Item i)"

definition state_list :: "kernel \<Rightarrow> nat \<Rightarrow> klist option" where
  "state_list k t = pxContainer (klists k) (StateItem t)"

definition event_list :: "kernel \<Rightarrow> nat \<Rightarrow> klist option" where
  "event_list k t = pxContainer (klists k) (EventItem t)"

text \<open>The store, for the task priorities \<open>pr\<close>.\<close>

definition store_ok ::
  "klist set \<Rightarrow> nat set \<Rightarrow> nat set \<Rightarrow> (nat \<Rightarrow> nat) \<Rightarrow> kstore \<Rightarrow> (klist \<Rightarrow> kitem seq) \<Rightarrow> bool" where
  "store_ok L T X pr s A \<longleftrightarrow> lists_ok L s A \<and> core_lists \<subseteq> L \<and> finite T \<and> card T < 2 ^ 30 \<and>
     (\<forall>t\<in>T. pvOwner s (StateItem t) = Some t \<and> pvOwner s (EventItem t) = Some t \<and>
            pr t < configMAX_PRIORITIES) \<and>
     (\<forall>t l. pxContainer s (StateItem t) = Some l \<longrightarrow> t \<in> T \<and>
            l \<in> {Ready (pr t), Delayed1, Delayed2, WaitingTermination, SuspendedList}) \<and>
     (\<forall>t l. pxContainer s (EventItem t) = Some l \<longrightarrow> t \<in> T \<and> l \<in> insert PendingReady (range Event)) \<and>
     (\<forall>t\<in>T. pxContainer s (StateItem t) = None \<longleftrightarrow> t \<in> X) \<and> X \<subseteq> T \<and>
     (\<forall>l. \<not> is_ready l \<longrightarrow> snd (A l) = None)"

text \<open>
  The delayed tasks, at time \<open>now\<close>, with the next time to look at them \<open>nxt\<close>; the flag is off
  while the tick handler works, when the time of some may have come.
\<close>

definition delays_ok ::
  "bool \<Rightarrow> (kitem \<Rightarrow> u32) \<Rightarrow> (klist \<Rightarrow> kitem seq) \<Rightarrow> klist \<Rightarrow> klist \<Rightarrow> u32 \<Rightarrow> u32 \<Rightarrow> bool" where
  "delays_ok b v A dl ov now nxt \<longleftrightarrow> {dl, ov} = {Delayed1, Delayed2} \<and>
     sorted (map v (fst (A dl))) \<and> (\<forall>i\<in>set (fst (A dl)). (if b then now < v i else now \<le> v i) \<and> nxt \<le> v i) \<and>
     sorted (map v (fst (A ov))) \<and> (\<forall>i\<in>set (fst (A ov)). v i < now)"

definition top_ok :: "(klist \<Rightarrow> kitem seq) \<Rightarrow> nat \<Rightarrow> bool" where
  "top_ok A tp \<longleftrightarrow> (\<forall>p. fst (A (Ready p)) \<noteq> [] \<longrightarrow> p \<le> tp) \<and> tp < configMAX_PRIORITIES"

definition kinv ::
  "bool \<Rightarrow> klist set \<Rightarrow> nat set \<Rightarrow> nat set \<Rightarrow> kernel \<Rightarrow> (klist \<Rightarrow> kitem seq) \<Rightarrow> bool" where
  "kinv b L T X k A \<longleftrightarrow> store_ok L T X (\<lambda>t. uxPriority (tcbs k t)) (klists k) A \<and>
     delays_ok b (itemval (klists k)) A (pxDelayedTaskList k) (pxOverflowDelayedTaskList k)
       (xTickCount k) (xNextTaskUnblockTime k) \<and>
     top_ok A (uxTopReadyPriority k)"

section \<open>Consequences\<close>

lemma store_okD:
  assumes "store_ok L T X pr s A"
  shows "lists_ok L s A" "core_lists \<subseteq> L"
    and "t \<in> T \<Longrightarrow> pvOwner s (StateItem t) = Some t"
    and "t \<in> T \<Longrightarrow> pvOwner s (EventItem t) = Some t"
    and "t \<in> T \<Longrightarrow> pr t < configMAX_PRIORITIES"
    and "pxContainer s (StateItem t) = Some l \<Longrightarrow> t \<in> T"
    and "pxContainer s (StateItem t) = Some l \<Longrightarrow>
           l \<in> {Ready (pr t), Delayed1, Delayed2, WaitingTermination, SuspendedList}"
    and "pxContainer s (EventItem t) = Some l \<Longrightarrow> t \<in> T"
    and "pxContainer s (EventItem t) = Some l \<Longrightarrow> l \<in> insert PendingReady (range Event)"
    and "t \<in> T \<Longrightarrow> pxContainer s (StateItem t) = None \<longleftrightarrow> t \<in> X"
    and "\<not> is_ready l \<Longrightarrow> snd (A l) = None"
  using assms by (auto simp: store_ok_def)

lemma on_list: "store_ok L T X pr s A \<Longrightarrow> i \<in> set (fst (A l)) \<longleftrightarrow> pxContainer s i = Some l"
  by (simp add: lists_okD(3) [OF store_okD(1)])

lemma short_list:
  assumes ok: "store_ok L T X pr s A" and l: "l \<in> L"
  shows "length (fst (A l)) < 2 ^ 32"
proof -
  have "finite T" "card T < 2 ^ 30" using ok by (simp_all add: store_ok_def)
  have sub: "set (fst (A l)) \<subseteq> StateItem ` T \<union> EventItem ` T"
  proof
    fix i assume "i \<in> set (fst (A l))"
    then have "pxContainer s i = Some l" using on_list [OF ok] by simp
    then show "i \<in> StateItem ` T \<union> EventItem ` T"
      using store_okD(6,8) [OF ok] by (cases i) blast+
  qed
  have "distinct (fst (A l))" using lists_okD(1) [OF store_okD(1) [OF ok] l] by (simp add: holds_def)
  then have "length (fst (A l)) = card (set (fst (A l)))" by (simp add: distinct_card)
  also have "\<dots> \<le> card (StateItem ` T \<union> EventItem ` T)"
    using sub \<open>finite T\<close> by (intro card_mono) auto
  also have "\<dots> \<le> card (StateItem ` T) + card (EventItem ` T)" by (rule card_Un_le)
  also have "\<dots> \<le> card T + card T"
    using \<open>finite T\<close> by (intro add_mono card_image_le)
  finally show ?thesis using \<open>card T < 2 ^ 30\<close> by simp
qed

lemma core_in [simp]:
  assumes "store_ok L T X pr s A"
  shows "Delayed1 \<in> L" "Delayed2 \<in> L" "PendingReady \<in> L" "WaitingTermination \<in> L" "SuspendedList \<in> L"
    "p < configMAX_PRIORITIES \<Longrightarrow> Ready p \<in> L"
  using store_okD(2) [OF assms] by (auto simp: core_lists_def)

lemma delayed_in:
  assumes "store_ok L T X pr s A" and "delays_ok b v A dl ov now nxt"
  shows "dl \<in> L" "ov \<in> L" "dl \<noteq> ov" "\<not> is_ready dl" "\<not> is_ready ov"
    "dl \<in> {Delayed1, Delayed2}" "ov \<in> {Delayed1, Delayed2}"
  using core_in [OF assms(1)] assms(2) by (auto simp: delays_ok_def doubleton_eq_iff)

lemma empty_iff_no_items:
  assumes "store_ok L T X pr s A" and "l \<in> L"
  shows "listLIST_IS_EMPTY s l \<longleftrightarrow> fst (A l) = []"
  by (rule list_is_empty [OF store_okD(1) [OF assms(1)] assms(2) short_list [OF assms]])

lemma fst_seq_remove [simp]: "fst (seq_remove B i) = remove1 i (fst B)"
  by (cases B) simp

lemma snd_seq_remove [simp]: "snd B = None \<Longrightarrow> snd (seq_remove B i) = None"
  by (cases B) simp

lemma set_seq_insert_end [simp]: "set (fst (seq_insert_end B i)) = insert i (set (fst B))"
proof (cases B)
  case (Pair xs c)
  then show ?thesis
  proof (cases c)
    case (Some x)
    have "set (takeWhile (\<lambda>y. y \<noteq> x) xs) \<union> set (dropWhile (\<lambda>y. y \<noteq> x) xs) = set xs"
      by (metis set_append takeWhile_dropWhile_id)
    then show ?thesis using Pair Some by auto
  qed auto
qed

lemma set_seq_insert [simp]: "set (fst (seq_insert v B i)) = insert i (set (fst B))"
proof (cases B)
  case (Pair xs c)
  have "set (takeWhile (\<lambda>y. v y \<le> v i) xs) \<union> set (dropWhile (\<lambda>y. v y \<le> v i) xs) = set xs"
    by (metis set_append takeWhile_dropWhile_id)
  then show ?thesis using Pair by auto
qed

lemma snd_seq_insert [simp]: "snd (seq_insert v B i) = snd B"
  by (cases B) simp

lemma snd_seq_insert_end [simp]: "snd (seq_insert_end B i) = snd B"
  by (cases "(B, i)" rule: seq_insert_end.cases) auto

lemma fst_insert_end_None: "snd B = None \<Longrightarrow> fst (seq_insert_end B i) = fst B @ [i]"
  by (cases B) simp


section \<open>Moves between lists\<close>

definition state_places :: "nat \<Rightarrow> klist set" where
  "state_places p = {Ready p, Delayed1, Delayed2, WaitingTermination, SuspendedList}"

lemma store_ok_state:
  assumes ok: "store_ok L T X pr s A" and t: "t \<in> T"
    and ls: "lists_ok L s' A'" and ow: "pvOwner s' = pvOwner s"
    and c: "pxContainer s' = (pxContainer s)(StateItem t := r)"
    and r: "set_option r \<subseteq> state_places (pr t)"
    and cur: "\<And>l. \<not> is_ready l \<Longrightarrow> snd (A' l) = None"
  shows "store_ok L T (if r = None then insert t X else X - {t}) pr s' A'"
  using assms store_okD [OF ok] unfolding store_ok_def state_places_def
  by (auto split: if_splits)

lemma store_ok_event:
  assumes ok: "store_ok L T X pr s A" and t: "t \<in> T"
    and ls: "lists_ok L s' A'" and ow: "pvOwner s' = pvOwner s"
    and c: "pxContainer s' = (pxContainer s)(EventItem t := r)"
    and r: "set_option r \<subseteq> insert PendingReady (range Event)"
    and cur: "\<And>l. \<not> is_ready l \<Longrightarrow> snd (A' l) = None"
  shows "store_ok L T X pr s' A'"
  using assms store_okD [OF ok] unfolding store_ok_def
  by (auto split: if_splits)

lemma delays_ok_cong:
  assumes "delays_ok b v A dl ov now nxt" and "A' dl = A dl" and "A' ov = A ov"
    and "\<And>i. i \<in> set (fst (A dl)) \<union> set (fst (A ov)) \<Longrightarrow> v' i = v i"
  shows "delays_ok b v' A' dl ov now nxt"
proof -
  have e: "map v' (fst (A dl)) = map v (fst (A dl))" "map v' (fst (A ov)) = map v (fst (A ov))"
    using assms(4) by auto
  show ?thesis using assms(1,4) unfolding delays_ok_def assms(2,3) e by simp
qed

lemma delays_ok_remove:
  assumes "delays_ok b v A dl ov now nxt"
  shows "delays_ok b v (A(l := seq_remove (A l) i)) dl ov now nxt"
  using assms by (auto simp: delays_ok_def sorted_map_remove1 dest: notin_set_remove1 in_set_remove1 set_remove1_subset [THEN subsetD])

lemma top_ok_remove: "top_ok A tp \<Longrightarrow> top_ok (A(l := seq_remove (A l) i)) tp"
  by (auto simp: top_ok_def) (metis remove1.simps(1))

text \<open>Taking the state item of a task off its list makes the task loose.\<close>

lemma remove_state:
  assumes inv: "kinv b L T X k A" and l: "state_list k t = Some l"
  obtains s where "listREMOVE_ITEM k (StateItem t) = Some (k\<lparr>klists := s\<rparr>)"
    "kinv b L T (insert t X) (k\<lparr>klists := s\<rparr>) (A(l := seq_remove (A l) (StateItem t)))"
    "pxContainer s = (pxContainer (klists k))(StateItem t := None)"
    "xItemValue s = xItemValue (klists k)"
proof -
  have ok: "store_ok L T X (\<lambda>t. uxPriority (tcbs k t)) (klists k) A"
    using inv by (simp add: kinv_def)
  have c: "pxContainer (klists k) (StateItem t) = Some l" using l by (simp add: state_list_def)
  obtain s where s: "uxListRemove (klists k) (StateItem t) = Some (of_nat (length (fst (A l)) - 1), s)"
    "lists_ok L s (A(l := seq_remove (A l) (StateItem t)))"
    "xItemValue s = xItemValue (klists k)" "pvOwner s = pvOwner (klists k)"
    "pxContainer s = (pxContainer (klists k))(StateItem t := None)"
    by (rule uxListRemove_ok [OF store_okD(1) [OF ok] c])
  have t: "t \<in> T" using store_okD(6) [OF ok c] .
  have "store_ok L T (if (None :: klist option) = None then insert t X else X - {t})
      (\<lambda>t. uxPriority (tcbs k t)) s (A(l := seq_remove (A l) (StateItem t)))"
    by (rule store_ok_state [OF ok t s(2,4,5)]) (use store_okD(11) [OF ok] in auto)
  then have "kinv b L T (insert t X) (k\<lparr>klists := s\<rparr>) (A(l := seq_remove (A l) (StateItem t)))"
    using inv s(3) by (simp add: kinv_def delays_ok_remove top_ok_remove itemval_def [abs_def])
  then show ?thesis using that [of s] s by (simp add: listREMOVE_ITEM_def)
qed

lemma remove_event:
  assumes inv: "kinv b L T X k A" and l: "event_list k t = Some l"
  obtains s where "listREMOVE_ITEM k (EventItem t) = Some (k\<lparr>klists := s\<rparr>)"
    "kinv b L T X (k\<lparr>klists := s\<rparr>) (A(l := seq_remove (A l) (EventItem t)))"
    "pxContainer s = (pxContainer (klists k))(EventItem t := None)"
    "xItemValue s = xItemValue (klists k)"
proof -
  have ok: "store_ok L T X (\<lambda>t. uxPriority (tcbs k t)) (klists k) A"
    using inv by (simp add: kinv_def)
  have c: "pxContainer (klists k) (EventItem t) = Some l" using l by (simp add: event_list_def)
  obtain s where s: "uxListRemove (klists k) (EventItem t) = Some (of_nat (length (fst (A l)) - 1), s)"
    "lists_ok L s (A(l := seq_remove (A l) (EventItem t)))"
    "xItemValue s = xItemValue (klists k)" "pvOwner s = pvOwner (klists k)"
    "pxContainer s = (pxContainer (klists k))(EventItem t := None)"
    by (rule uxListRemove_ok [OF store_okD(1) [OF ok] c])
  have t: "t \<in> T" using store_okD(8) [OF ok c] .
  have "store_ok L T X (\<lambda>t. uxPriority (tcbs k t)) s (A(l := seq_remove (A l) (EventItem t)))"
    by (rule store_ok_event [OF ok t s(2,4,5)]) (use store_okD(11) [OF ok] in auto)
  then have "kinv b L T X (k\<lparr>klists := s\<rparr>) (A(l := seq_remove (A l) (EventItem t)))"
    using inv s(3) by (simp add: kinv_def delays_ok_remove top_ok_remove itemval_def [abs_def])
  then show ?thesis using that [of s] s by (simp add: listREMOVE_ITEM_def)
qed

text \<open>A loose task is put at the end of a list that has no order.\<close>

lemma insert_end_state:
  assumes inv: "kinv b L T X k A" and t: "t \<in> T" and free: "state_list k t = None"
    and l: "l \<in> {Ready (uxPriority (tcbs k t)), WaitingTermination, SuspendedList}"
    and top: "l = Ready (uxPriority (tcbs k t)) \<Longrightarrow> uxPriority (tcbs k t) \<le> uxTopReadyPriority k"
  shows "kinv b L T (X - {t}) (list_insert_end k l (StateItem t)) (A(l := seq_insert_end (A l) (StateItem t)))"
    "pxContainer (klists (list_insert_end k l (StateItem t))) =
       (pxContainer (klists k))(StateItem t := Some l)"
    "xItemValue (klists (list_insert_end k l (StateItem t))) = xItemValue (klists k)"
proof -
  have ok: "store_ok L T X (\<lambda>t. uxPriority (tcbs k t)) (klists k) A"
    using inv by (simp add: kinv_def)
  have lL: "l \<in> L" using l core_in [OF ok] store_okD(5) [OF ok t] by auto
  have c: "pxContainer (klists k) (StateItem t) = None" using free by (simp add: state_list_def)
  note ins = vListInsertEnd_ok [OF store_okD(1) [OF ok] lL c]
  have "store_ok L T (if Some l = None then insert t X else X - {t}) (\<lambda>t. uxPriority (tcbs k t))
      (vListInsertEnd (klists k) l (StateItem t)) (A(l := seq_insert_end (A l) (StateItem t)))"
    by (rule store_ok_state [OF ok t ins(1,3,4)])
       (use l store_okD(11) [OF ok] in \<open>auto simp: state_places_def\<close>)
  moreover have "delays_ok b (itemval (klists k)) (A(l := seq_insert_end (A l) (StateItem t)))
      (pxDelayedTaskList k) (pxOverflowDelayedTaskList k) (xTickCount k) (xNextTaskUnblockTime k)"
  proof -
    have d: "delays_ok b (itemval (klists k)) A (pxDelayedTaskList k) (pxOverflowDelayedTaskList k)
      (xTickCount k) (xNextTaskUnblockTime k)" using inv by (simp add: kinv_def)
    show ?thesis by (rule delays_ok_cong [OF d]) (use l delayed_in [OF ok d] in auto)
  qed
  moreover have "top_ok (A(l := seq_insert_end (A l) (StateItem t))) (uxTopReadyPriority k)"
    using inv top l by (auto simp: kinv_def top_ok_def)
  ultimately show "kinv b L T (X - {t}) (list_insert_end k l (StateItem t))
      (A(l := seq_insert_end (A l) (StateItem t)))"
    by (simp add: kinv_def list_insert_end_def ins(2) itemval_def [abs_def])
  show "pxContainer (klists (list_insert_end k l (StateItem t))) =
       (pxContainer (klists k))(StateItem t := Some l)"
    "xItemValue (klists (list_insert_end k l (StateItem t))) = xItemValue (klists k)"
    using ins by (simp_all add: list_insert_end_def)
qed


text \<open>The event item of a task goes to the pending list or, in order, to the list of an event.\<close>

lemma delays_ok_other:
  assumes ok: "store_ok L T X pr s A" and d: "delays_ok b v A dl ov now nxt"
    and "l \<notin> {Delayed1, Delayed2}"
  shows "delays_ok b v (A(l := B)) dl ov now nxt"
  by (rule delays_ok_cong [OF d]) (use assms(3) delayed_in [OF ok d] in auto)

lemma insert_end_event:
  assumes inv: "kinv b L T X k A" and t: "t \<in> T" and free: "event_list k t = None"
  defines "l \<equiv> PendingReady"
  shows "kinv b L T X (list_insert_end k l (EventItem t)) (A(l := seq_insert_end (A l) (EventItem t)))"
    "pxContainer (klists (list_insert_end k l (EventItem t))) =
       (pxContainer (klists k))(EventItem t := Some l)"
    "xItemValue (klists (list_insert_end k l (EventItem t))) = xItemValue (klists k)"
proof -
  have ok: "store_ok L T X (\<lambda>t. uxPriority (tcbs k t)) (klists k) A"
    and d: "delays_ok b (itemval (klists k)) A (pxDelayedTaskList k) (pxOverflowDelayedTaskList k)
      (xTickCount k) (xNextTaskUnblockTime k)"
    using inv by (simp_all add: kinv_def)
  have lL: "l \<in> L" using core_in [OF ok] by (simp add: l_def)
  have c: "pxContainer (klists k) (EventItem t) = None" using free by (simp add: event_list_def)
  note ins = vListInsertEnd_ok [OF store_okD(1) [OF ok] lL c]
  have "store_ok L T X (\<lambda>t. uxPriority (tcbs k t))
      (vListInsertEnd (klists k) l (EventItem t)) (A(l := seq_insert_end (A l) (EventItem t)))"
    by (rule store_ok_event [OF ok t ins(1,3,4)]) (use store_okD(11) [OF ok] in \<open>auto simp: l_def\<close>)
  moreover have "top_ok (A(l := seq_insert_end (A l) (EventItem t))) (uxTopReadyPriority k)"
    using inv by (auto simp: kinv_def top_ok_def l_def)
  ultimately show "kinv b L T X (list_insert_end k l (EventItem t))
      (A(l := seq_insert_end (A l) (EventItem t)))"
    using delays_ok_other [OF ok d, of l]
    by (simp add: kinv_def list_insert_end_def ins(2) [unfolded l_def] itemval_def [abs_def] l_def)
  show "pxContainer (klists (list_insert_end k l (EventItem t))) =
       (pxContainer (klists k))(EventItem t := Some l)"
    "xItemValue (klists (list_insert_end k l (EventItem t))) = xItemValue (klists k)"
    using ins by (simp_all add: list_insert_end_def)
qed

lemma insert_event:
  assumes inv: "kinv b L T X k A" and t: "t \<in> T" and free: "event_list k t = None"
    and e: "Event e \<in> L"
  obtains s where "list_insert k (Event e) (EventItem t) = Some (k\<lparr>klists := s\<rparr>)"
    "kinv b L T X (k\<lparr>klists := s\<rparr>)
       (A(Event e := seq_insert (itemval (klists k)) (A (Event e)) (EventItem t)))"
    "pxContainer s = (pxContainer (klists k))(EventItem t := Some (Event e))"
    "xItemValue s = xItemValue (klists k)"
proof -
  have ok: "store_ok L T X (\<lambda>t. uxPriority (tcbs k t)) (klists k) A"
    and d: "delays_ok b (itemval (klists k)) A (pxDelayedTaskList k) (pxOverflowDelayedTaskList k)
      (xTickCount k) (xNextTaskUnblockTime k)"
    using inv by (simp_all add: kinv_def)
  have c: "pxContainer (klists k) (EventItem t) = None" using free by (simp add: event_list_def)
  obtain s where s: "vListInsert (klists k) (Event e) (EventItem t) = Some s"
    "lists_ok L s (A(Event e := seq_insert (itemval (klists k)) (A (Event e)) (EventItem t)))"
    "xItemValue s = xItemValue (klists k)" "pvOwner s = pvOwner (klists k)"
    "pxContainer s = (pxContainer (klists k))(EventItem t := Some (Event e))"
    by (rule vListInsert_ok [OF store_okD(1) [OF ok] e c]) (simp add: itemval_def [abs_def])
  have "store_ok L T X (\<lambda>t. uxPriority (tcbs k t)) s
      (A(Event e := seq_insert (itemval (klists k)) (A (Event e)) (EventItem t)))"
    by (rule store_ok_event [OF ok t s(2,4,5)]) (use store_okD(11) [OF ok] in auto)
  moreover have "top_ok (A(Event e := B)) (uxTopReadyPriority k)" for B
    using inv by (auto simp: kinv_def top_ok_def)
  ultimately have "kinv b L T X (k\<lparr>klists := s\<rparr>)
      (A(Event e := seq_insert (itemval (klists k)) (A (Event e)) (EventItem t)))"
    using delays_ok_other [OF ok d, of "Event e"]
    by (simp add: kinv_def s(3) itemval_def [abs_def])
  then show ?thesis using that [of s] s by (simp add: list_insert_def)
qed

text \<open>A loose task gets a wake time and joins the delayed tasks.\<close>

lemma loose_value:
  assumes inv: "kinv b L T X k A" and free: "state_list k t = None"
  shows "kinv b L T X (k\<lparr>klists := listSET_LIST_ITEM_VALUE (klists k) (StateItem t) v\<rparr>) A"
proof -
  have ok: "store_ok L T X (\<lambda>t. uxPriority (tcbs k t)) (klists k) A"
    and d: "delays_ok b (itemval (klists k)) A (pxDelayedTaskList k) (pxOverflowDelayedTaskList k)
      (xTickCount k) (xNextTaskUnblockTime k)"
    using inv by (simp_all add: kinv_def)
  have "store_ok L T X (\<lambda>t. uxPriority (tcbs k t)) (listSET_LIST_ITEM_VALUE (klists k) (StateItem t) v) A"
    using ok listSET_LIST_ITEM_VALUE_ok [OF store_okD(1) [OF ok]]
    by (simp add: store_ok_def) (simp add: listSET_LIST_ITEM_VALUE_def)
  moreover have "StateItem t \<notin> set (fst (A l))" for l
    using free on_list [OF ok, of "StateItem t" l] by (simp add: state_list_def)
  then have "delays_ok b (itemval (listSET_LIST_ITEM_VALUE (klists k) (StateItem t) v)) A
      (pxDelayedTaskList k) (pxOverflowDelayedTaskList k) (xTickCount k) (xNextTaskUnblockTime k)"
    by (intro delays_ok_cong [OF d]) (auto simp: itemval_def listSET_LIST_ITEM_VALUE_def)
  ultimately show ?thesis using inv by (simp add: kinv_def)
qed

lemma insert_state:
  assumes inv: "kinv True L T X k A" and t: "t \<in> T" and free: "state_list k t = None"
    and v: "v = itemval (klists k) (StateItem t)"
    and l: "(l = pxDelayedTaskList k \<and> xTickCount k < v \<and> xNextTaskUnblockTime k \<le> v) \<or>
            (l = pxOverflowDelayedTaskList k \<and> v < xTickCount k)"
  obtains s where "list_insert k l (StateItem t) = Some (k\<lparr>klists := s\<rparr>)"
    "kinv True L T (X - {t}) (k\<lparr>klists := s\<rparr>) (A(l := seq_insert (itemval (klists k)) (A l) (StateItem t)))"
    "pxContainer s = (pxContainer (klists k))(StateItem t := Some l)"
    "xItemValue s = xItemValue (klists k)"
proof -
  have ok: "store_ok L T X (\<lambda>t. uxPriority (tcbs k t)) (klists k) A"
    and d: "delays_ok True (itemval (klists k)) A (pxDelayedTaskList k) (pxOverflowDelayedTaskList k)
      (xTickCount k) (xNextTaskUnblockTime k)"
    using inv by (simp_all add: kinv_def)
  note D = delayed_in [OF ok d]
  have lL: "l \<in> L" and nr: "l \<in> {Delayed1, Delayed2}" using l D by auto
  have c: "pxContainer (klists k) (StateItem t) = None" using free by (simp add: state_list_def)
  obtain s where s: "vListInsert (klists k) l (StateItem t) = Some s"
    "lists_ok L s (A(l := seq_insert (itemval (klists k)) (A l) (StateItem t)))"
    "xItemValue s = xItemValue (klists k)" "pvOwner s = pvOwner (klists k)"
    "pxContainer s = (pxContainer (klists k))(StateItem t := Some l)"
    by (rule vListInsert_ok [OF store_okD(1) [OF ok] lL c]) (simp add: itemval_def [abs_def])
  have "store_ok L T (if Some l = None then insert t X else X - {t}) (\<lambda>t. uxPriority (tcbs k t)) s
      (A(l := seq_insert (itemval (klists k)) (A l) (StateItem t)))"
    by (rule store_ok_state [OF ok t s(2,4,5)])
       (use nr store_okD(11) [OF ok] in \<open>auto simp: state_places_def\<close>)
  moreover have "top_ok (A(l := B)) (uxTopReadyPriority k)" for B
    using inv nr by (auto simp: kinv_def top_ok_def)
  moreover have "sorted (map (itemval (klists k))
      (fst (seq_insert (itemval (klists k)) (A l) (StateItem t))))"
    using l d seq_insert_sorted [of "itemval (klists k)" "fst (A l)" "snd (A l)"]
    by (auto simp: delays_ok_def)
  then have "delays_ok True (itemval (klists k)) (A(l := seq_insert (itemval (klists k)) (A l) (StateItem t)))
      (pxDelayedTaskList k) (pxOverflowDelayedTaskList k) (xTickCount k) (xNextTaskUnblockTime k)"
    using l d D(3) v unfolding delays_ok_def by auto
  ultimately have "kinv True L T (X - {t}) (k\<lparr>klists := s\<rparr>)
      (A(l := seq_insert (itemval (klists k)) (A l) (StateItem t)))"
    by (simp add: kinv_def s(3) itemval_def [abs_def])
  then show ?thesis using that [of s] s by (simp add: list_insert_def)
qed

end
