(* ===== verification/RTOS_Tick.thy ===== *)
theory RTOS_Tick
  imports RTOS_Invariant
begin

text \<open>
  The tick of the scheduler: it never fails, keeps the invariant, readies exactly the tasks whose
  last tick it is, and lets every other delayed task wait one tick less, across the wrap of the
  tick count as well.
\<close>

section \<open>What the operations leave alone\<close>

lemma list_insert_end_fields [simp]:
  "tcbs (list_insert_end k l i) = tcbs k" "pxCurrentTCB (list_insert_end k l i) = pxCurrentTCB k"
  "pxDelayedTaskList (list_insert_end k l i) = pxDelayedTaskList k"
  "pxOverflowDelayedTaskList (list_insert_end k l i) = pxOverflowDelayedTaskList k"
  "uxDeletedTasksWaitingCleanUp (list_insert_end k l i) = uxDeletedTasksWaitingCleanUp k"
  "uxCurrentNumberOfTasks (list_insert_end k l i) = uxCurrentNumberOfTasks k"
  "xTickCount (list_insert_end k l i) = xTickCount k"
  "uxTopReadyPriority (list_insert_end k l i) = uxTopReadyPriority k"
  "xSchedulerRunning (list_insert_end k l i) = xSchedulerRunning k"
  "xPendedTicks (list_insert_end k l i) = xPendedTicks k"
  "xYieldPending (list_insert_end k l i) = xYieldPending k"
  "xNextTaskUnblockTime (list_insert_end k l i) = xNextTaskUnblockTime k"
  "uxSchedulerSuspended (list_insert_end k l i) = uxSchedulerSuspended k"
  "xNumOfOverflows (list_insert_end k l i) = xNumOfOverflows k"
  "pendsv (list_insert_end k l i) = pendsv k"
  by (simp_all add: list_insert_end_def)

text \<open>Only the lists, the top priority and the next time to look at the delayed tasks differ.\<close>

definition lists_only :: "kernel \<Rightarrow> kernel \<Rightarrow> bool" where
  "lists_only k k' \<longleftrightarrow> k' = k\<lparr>klists := klists k', uxTopReadyPriority := uxTopReadyPriority k',
     xNextTaskUnblockTime := xNextTaskUnblockTime k'\<rparr>"

lemma lists_only_iff:
  "lists_only k k' \<longleftrightarrow> tcbs k' = tcbs k \<and> pxCurrentTCB k' = pxCurrentTCB k \<and>
     pxDelayedTaskList k' = pxDelayedTaskList k \<and>
     pxOverflowDelayedTaskList k' = pxOverflowDelayedTaskList k \<and>
     uxDeletedTasksWaitingCleanUp k' = uxDeletedTasksWaitingCleanUp k \<and>
     uxCurrentNumberOfTasks k' = uxCurrentNumberOfTasks k \<and> xTickCount k' = xTickCount k \<and>
     xSchedulerRunning k' = xSchedulerRunning k \<and> xPendedTicks k' = xPendedTicks k \<and>
     xYieldPending k' = xYieldPending k \<and> xNumOfOverflows k' = xNumOfOverflows k \<and>
     uxTaskNumber k' = uxTaskNumber k \<and> uxSchedulerSuspended k' = uxSchedulerSuspended k \<and>
     pendsv k' = pendsv k"
  by (cases k; cases k') (auto simp: lists_only_def)

lemmas lists_onlyD = lists_only_iff [THEN iffD1]

lemma lists_only_refl [simp]: "lists_only k k"
  by (simp add: lists_only_iff)

lemma lists_only_trans: "lists_only k k1 \<Longrightarrow> lists_only k1 k2 \<Longrightarrow> lists_only k k2"
  by (simp add: lists_only_iff)

lemma lists_only_klists [simp]: "lists_only k (k\<lparr>klists := s\<rparr>)"
  by (simp add: lists_only_iff)

lemma lists_only_next [simp]: "lists_only k (k\<lparr>xNextTaskUnblockTime := n\<rparr>)"
  by (simp add: lists_only_iff)

lemma lists_only_add [simp]: "lists_only k (prvAddTaskToReadyList k t)"
  by (simp add: lists_only_iff prvAddTaskToReadyList_def list_insert_end_def Let_def)

lemma lists_only_reset [simp]: "lists_only k (prvResetNextTaskUnblockTime k)"
  by (simp add: lists_only_iff prvResetNextTaskUnblockTime_def)

section \<open>The invariant of the operations\<close>

definition ready :: "kernel \<Rightarrow> nat \<Rightarrow> bool" where
  "ready k t \<longleftrightarrow> (\<exists>p. state_list k t = Some (Ready p))"

text \<open>
  There is an idle task that is always ready, the counters are right, and a task that is ready or
  deleted or waits for a notification waits for no event.
\<close>

definition rest :: "nat set \<Rightarrow> nat \<Rightarrow> kernel \<Rightarrow> bool" where
  "rest T idle k \<longleftrightarrow> idle \<in> T \<and> uxPriority (tcbs k idle) = 0 \<and> state_list k idle = Some (Ready 0) \<and>
     xSchedulerRunning k \<and> uxCurrentNumberOfTasks k = of_nat (card T) \<and>
     uxDeletedTasksWaitingCleanUp k = of_nat (card {t \<in> T. state_list k t = Some WaitingTermination}) \<and>
     (\<exists>c\<in>T. pxCurrentTCB k = Some c) \<and>
     (\<forall>t. ready k t \<or> state_list k t = Some WaitingTermination \<longrightarrow> event_list k t = None) \<and>
     (\<forall>t\<in>T. ucNotifyState (tcbs k t) = taskWAITING_NOTIFICATION \<longrightarrow> event_list k t = None)"

lemma restD:
  assumes "rest T idle k"
  shows "idle \<in> T" "uxPriority (tcbs k idle) = 0" "state_list k idle = Some (Ready 0)"
    "xSchedulerRunning k" "uxCurrentNumberOfTasks k = of_nat (card T)"
    "uxDeletedTasksWaitingCleanUp k = of_nat (card {t \<in> T. state_list k t = Some WaitingTermination})"
    "\<exists>c\<in>T. pxCurrentTCB k = Some c" "ready k t \<Longrightarrow> event_list k t = None"
    "t \<in> T \<Longrightarrow> ucNotifyState (tcbs k t) = taskWAITING_NOTIFICATION \<Longrightarrow> event_list k t = None"
    "state_list k t = Some WaitingTermination \<Longrightarrow> event_list k t = None"
  using assms by (auto simp: rest_def)

lemma kinv_state:
  assumes "kinv b L T X k A" and "state_list k t = Some l"
  shows "t \<in> T" "l \<in> state_places (uxPriority (tcbs k t))" "t \<notin> X"
    "StateItem t \<in> set (fst (A l))"
proof -
  have ok: "store_ok L T X (\<lambda>t. uxPriority (tcbs k t)) (klists k) A"
    using assms(1) by (simp add: kinv_def)
  show t: "t \<in> T" using store_okD(6) [OF ok] assms(2) by (auto simp: state_list_def)
  show "l \<in> state_places (uxPriority (tcbs k t))"
    using store_okD(7) [OF ok] assms(2) by (auto simp: state_list_def state_places_def)
  show "t \<notin> X" using store_okD(10) [OF ok t] assms(2) by (auto simp: state_list_def)
  show "StateItem t \<in> set (fst (A l))" using on_list [OF ok] assms(2) by (simp add: state_list_def)
qed

lemma ready_iff:
  "kinv b L T X k A \<Longrightarrow> ready k t \<longleftrightarrow> state_list k t = Some (Ready (uxPriority (tcbs k t)))"
  using kinv_state(2) [of b L T X k A t] by (auto simp: ready_def state_places_def)

lemma kinv_loose: "kinv b L T X k A \<Longrightarrow> t \<in> T \<Longrightarrow> state_list k t = None \<longleftrightarrow> t \<in> X"
  using store_okD(10) [of L T X "\<lambda>t. uxPriority (tcbs k t)" "klists k" A t]
  by (simp add: kinv_def state_list_def)

lemma kinv_item:
  assumes "kinv b L T X k A" and "i \<in> set (fst (A l))" and "l \<notin> insert PendingReady (range Event)"
  obtains t where "i = StateItem t" "t \<in> T" "state_list k t = Some l" "pvOwner (klists k) i = Some t"
proof (cases i)
  have ok: "store_ok L T X (\<lambda>t. uxPriority (tcbs k t)) (klists k) A"
    using assms(1) by (simp add: kinv_def)
  have c: "pxContainer (klists k) i = Some l" using assms(2) on_list [OF ok] by simp
  {
    case (StateItem t)
    then have "t \<in> T" using store_okD(6) [OF ok] c by simp
    then show ?thesis using that [OF StateItem] StateItem c store_okD(3) [OF ok]
      by (simp add: state_list_def)
  next
    case (EventItem t)
    then show ?thesis using store_okD(9) [OF ok] c assms(3) by blast
  }
qed

lemma kinv_event_item:
  assumes "kinv b L T X k A" and "i \<in> set (fst (A l))" and "l \<in> insert PendingReady (range Event)"
  obtains t where "i = EventItem t" "t \<in> T" "event_list k t = Some l" "pvOwner (klists k) i = Some t"
proof (cases i)
  have ok: "store_ok L T X (\<lambda>t. uxPriority (tcbs k t)) (klists k) A"
    using assms(1) by (simp add: kinv_def)
  have c: "pxContainer (klists k) i = Some l" using assms(2) on_list [OF ok] by simp
  {
    case (EventItem t)
    then have "t \<in> T" using store_okD(8) [OF ok] c by simp
    then show ?thesis using that [OF EventItem] EventItem c store_okD(4) [OF ok]
      by (simp add: event_list_def)
  next
    case (StateItem t)
    then show ?thesis using store_okD(7) [OF ok] c assms(3) by blast
  }
qed

lemma kinv_empty:
  assumes "kinv b L T X k A" and "l \<in> core_lists"
  shows "listLIST_IS_EMPTY (klists k) l \<longleftrightarrow> fst (A l) = []"
proof -
  have ok: "store_ok L T X (\<lambda>t. uxPriority (tcbs k t)) (klists k) A"
    using assms(1) by (simp add: kinv_def)
  show ?thesis by (rule empty_iff_no_items [OF ok]) (use store_okD(2) [OF ok] assms(2) in blast)
qed

lemma kinv_delayed_core:
  assumes "kinv b L T X k A"
  shows "pxDelayedTaskList k \<in> {Delayed1, Delayed2}" "pxOverflowDelayedTaskList k \<in> {Delayed1, Delayed2}"
    "pxDelayedTaskList k \<noteq> pxOverflowDelayedTaskList k"
  using assms by (auto simp: kinv_def delays_ok_def doubleton_eq_iff)

lemma kinv_delayed_empty:
  assumes "kinv b L T X k A"
  shows "listLIST_IS_EMPTY (klists k) (pxDelayedTaskList k) \<longleftrightarrow> fst (A (pxDelayedTaskList k)) = []"
  by (rule kinv_empty [OF assms]) (use kinv_delayed_core(1) [OF assms] in \<open>auto simp: core_lists_def\<close>)

text \<open>A loose task becomes ready.\<close>

lemma add_ready:
  assumes inv: "kinv b L T X k A" and t: "t \<in> X" "t \<in> T"
  defines "p \<equiv> uxPriority (tcbs k t)"
  shows "kinv b L T (X - {t}) (prvAddTaskToReadyList k t) (A(Ready p := seq_insert_end (A (Ready p)) (StateItem t)))"
    "state_list (prvAddTaskToReadyList k t) u = (if u = t then Some (Ready p) else state_list k u)"
    "event_list (prvAddTaskToReadyList k t) u = event_list k u"
    "itemval (klists (prvAddTaskToReadyList k t)) = itemval (klists k)"
    "xNextTaskUnblockTime (prvAddTaskToReadyList k t) = xNextTaskUnblockTime k"
proof -
  define k1 where "k1 = (if p > uxTopReadyPriority k then k\<lparr>uxTopReadyPriority := p\<rparr> else k)"
  have p56: "p < configMAX_PRIORITIES"
    using inv t store_okD(5) by (auto simp: kinv_def p_def)
  have k1: "kinv b L T X k1 A" using inv p56 by (auto simp: kinv_def k1_def top_ok_def)
  have free: "state_list k1 t = None"
    using kinv_loose [OF inv t(2)] t(1) by (simp add: k1_def state_list_def)
  have pr: "uxPriority (tcbs k1 t) = p" by (simp add: k1_def p_def)
  note ins = insert_end_state [OF k1 t(2) free, of "Ready p"]
  have eq: "prvAddTaskToReadyList k t = list_insert_end k1 (Ready p) (StateItem t)"
    by (simp add: prvAddTaskToReadyList_def k1_def p_def Let_def)
  show "kinv b L T (X - {t}) (prvAddTaskToReadyList k t)
      (A(Ready p := seq_insert_end (A (Ready p)) (StateItem t)))"
    unfolding eq by (rule ins(1)) (simp_all add: k1_def p_def)
  have "pxContainer (klists (prvAddTaskToReadyList k t)) =
      (pxContainer (klists k1))(StateItem t := Some (Ready p))"
    "xItemValue (klists (prvAddTaskToReadyList k t)) = xItemValue (klists k1)"
    using ins(2,3) by (simp_all add: eq pr) (simp_all add: k1_def p_def)
  then show "state_list (prvAddTaskToReadyList k t) u = (if u = t then Some (Ready p) else state_list k u)"
    "event_list (prvAddTaskToReadyList k t) u = event_list k u"
    "itemval (klists (prvAddTaskToReadyList k t)) = itemval (klists k)"
    by (auto simp: state_list_def event_list_def itemval_def k1_def)
  show "xNextTaskUnblockTime (prvAddTaskToReadyList k t) = xNextTaskUnblockTime k"
    by (simp add: eq k1_def)
qed

lemma leave_event:
  assumes inv: "kinv b L T X k A"
  obtains s A' where "leave_event_list k t = Some (k\<lparr>klists := s\<rparr>)"
    "kinv b L T X (k\<lparr>klists := s\<rparr>) A'" "\<And>l. l \<notin> insert PendingReady (range Event) \<Longrightarrow> A' l = A l"
    "pxContainer s = (pxContainer (klists k))(EventItem t := None)"
    "xItemValue s = xItemValue (klists k)"
proof (cases "event_list k t")
  case None
  then have c: "pxContainer (klists k) (EventItem t) = None" by (simp add: event_list_def)
  then have "leave_event_list k t = Some (k\<lparr>klists := klists k\<rparr>)" by (simp add: leave_event_list_def)
  moreover have "pxContainer (klists k) = (pxContainer (klists k))(EventItem t := None)"
    using c by (simp add: fun_upd_idem)
  ultimately show ?thesis using that [of "klists k" A] inv by simp
next
  case (Some l)
  have ok: "store_ok L T X (\<lambda>t. uxPriority (tcbs k t)) (klists k) A"
    using inv by (simp add: kinv_def)
  have l: "l \<in> insert PendingReady (range Event)"
    using store_okD(9) [OF ok] Some by (simp add: event_list_def)
  obtain s where s: "listREMOVE_ITEM k (EventItem t) = Some (k\<lparr>klists := s\<rparr>)"
    "kinv b L T X (k\<lparr>klists := s\<rparr>) (A(l := seq_remove (A l) (EventItem t)))"
    "pxContainer s = (pxContainer (klists k))(EventItem t := None)"
    "xItemValue s = xItemValue (klists k)"
    by (rule remove_event [OF inv Some])
  have 1: "leave_event_list k t = Some (k\<lparr>klists := s\<rparr>)"
    using s(1) Some by (simp add: leave_event_list_def event_list_def)
  have 2: "(A(l := seq_remove (A l) (EventItem t))) l' = A l'"
    if "l' \<notin> insert PendingReady (range Event)" for l' using that l by auto
  show ?thesis by (rule that [OF 1 s(2) 2 s(3,4)])
qed


lemma rest_step:
  assumes r: "rest T idle k" and lo: "lists_only k k'"
    and "state_list k' idle = Some (Ready 0)"
    and "\<And>u. state_list k' u = Some WaitingTermination \<longleftrightarrow> state_list k u = Some WaitingTermination"
    and ev: "\<And>u. event_list k u = None \<Longrightarrow> event_list k' u = None"
    and rd: "\<And>u. ready k' u \<Longrightarrow> ready k u \<or> event_list k' u = None"
  shows "rest T idle k'"
proof -
  have "event_list k' u = None" if "ready k' u" for u
    using rd [OF that] ev restD(8) [OF r] by auto
  moreover have "event_list k' u = None"
    if "u \<in> T" "ucNotifyState (tcbs k u) = taskWAITING_NOTIFICATION" for u
    using ev restD(9) [OF r that] by auto
  moreover have "event_list k' u = None" if "state_list k u = Some WaitingTermination" for u
    using ev restD(10) [OF r that] by auto
  ultimately show ?thesis
    using assms(3,4) restD(1-7) [OF r] lists_onlyD [OF lo] by (auto simp: rest_def)
qed

section \<open>The tick\<close>

definition expired :: "kernel \<Rightarrow> nat \<Rightarrow> bool" where
  "expired k t \<longleftrightarrow> state_list k t = Some (pxDelayedTaskList k) \<and>
     itemval (klists k) (StateItem t) \<le> xTickCount k"

lemma kinv_delays:
  assumes "kinv b L T X k A"
  shows "delays_ok b (itemval (klists k)) A (pxDelayedTaskList k) (pxOverflowDelayedTaskList k)
      (xTickCount k) (xNextTaskUnblockTime k)"
  using assms by (simp add: kinv_def)

lemma kinv_next:
  assumes "kinv b L T X k A"
    and "\<And>i. i \<in> set (fst (A (pxDelayedTaskList k))) \<Longrightarrow> n \<le> itemval (klists k) i"
    and "b' \<Longrightarrow> \<not> b \<Longrightarrow> (\<And>i. i \<in> set (fst (A (pxDelayedTaskList k))) \<Longrightarrow> xTickCount k < itemval (klists k) i)"
  shows "kinv b' L T X (k\<lparr>xNextTaskUnblockTime := n\<rparr>) A"
  using assms by (cases b; cases b') (auto simp: kinv_def delays_ok_def)

lemma kinv_head:
  assumes inv: "kinv b L T X k A" and ne: "fst (A (pxDelayedTaskList k)) = i # xs"
  obtains t where "i = StateItem t" "t \<in> T" "state_list k t = Some (pxDelayedTaskList k)"
    "listGET_OWNER_OF_HEAD_ENTRY (klists k) (pxDelayedTaskList k) = Some t"
    "listGET_ITEM_VALUE_OF_HEAD_ENTRY (klists k) (pxDelayedTaskList k) = itemval (klists k) i"
    "\<And>j. j \<in> set (i # xs) \<Longrightarrow> itemval (klists k) i \<le> itemval (klists k) j"
proof -
  have ok: "store_ok L T X (\<lambda>t. uxPriority (tcbs k t)) (klists k) A"
    using inv by (simp add: kinv_def)
  note dl = delayed_in [OF ok kinv_delays [OF inv]]
  have "i \<in> set (fst (A (pxDelayedTaskList k)))" by (simp add: ne)
  moreover have "pxDelayedTaskList k \<notin> insert PendingReady (range Event)" using dl(6) by auto
  ultimately obtain t where t: "i = StateItem t" "t \<in> T" "state_list k t = Some (pxDelayedTaskList k)"
    "pvOwner (klists k) i = Some t" by (rule kinv_item [OF inv])
  have "sorted (map (itemval (klists k)) (i # xs))"
    using kinv_delays [OF inv] by (simp add: delays_ok_def ne)
  then have "\<And>j. j \<in> set (i # xs) \<Longrightarrow> itemval (klists k) i \<le> itemval (klists k) j" by auto
  then show ?thesis using that [OF t(1-3)] list_head [OF store_okD(1) [OF ok] dl(1) ne] t(4)
    by (simp add: itemval_def)
qed

lemma unblock_expired_ok:
  assumes "kinv False L T {} k A" and "rest T idle k" and "pxCurrentTCB k = Some c"
    and "now = xTickCount k"
  shows "\<exists>sw' k' A'. unblock_expired now sw k = Some (sw', k') \<and> kinv True L T {} k' A' \<and>
    rest T idle k' \<and> lists_only k k' \<and> itemval (klists k') = itemval (klists k) \<and>
    (\<forall>t. state_list k' t = (if expired k t then Some (Ready (uxPriority (tcbs k t))) else state_list k t)) \<and>
    (\<forall>t. event_list k' t = (if expired k t then None else event_list k t)) \<and>
    (sw' \<longleftrightarrow> sw \<or> (\<exists>t. expired k t \<and> uxPriority (tcbs k t) > uxPriority (tcbs k c)))"
  using assms
proof (induction "fst (A (pxDelayedTaskList k))" arbitrary: k A sw)
  case Nil
  note inv = Nil.prems(1)
  have none: "\<not> expired k t" for t
    using kinv_state(4) [OF inv, of t "pxDelayedTaskList k"] Nil.hyps by (auto simp: expired_def)
  have em: "listLIST_IS_EMPTY (klists k) (pxDelayedTaskList k)"
    using kinv_delayed_empty [OF inv] Nil.hyps by simp
  have 1: "unblock_expired now sw k = Some (sw, k\<lparr>xNextTaskUnblockTime := portMAX_DELAY\<rparr>)"
    using em by (subst unblock_expired.simps) simp
  have 2: "kinv True L T {} (k\<lparr>xNextTaskUnblockTime := portMAX_DELAY\<rparr>) A"
    by (rule kinv_next [OF inv]) (simp_all flip: Nil.hyps)
  have 3: "rest T idle (k\<lparr>xNextTaskUnblockTime := portMAX_DELAY\<rparr>)"
    using Nil.prems(2) restD(8) [OF Nil.prems(2)]
    by (intro rest_step [OF Nil.prems(2)]) (auto simp: state_list_def event_list_def ready_def rest_def)
  show ?case using 1 2 3 none by (auto simp: state_list_def event_list_def intro!: exI [of _ A])
next
  case (Cons i xs)
  note inv = Cons.prems(1) and r = Cons.prems(2) and now = Cons.prems(4)
  obtain t where t: "i = StateItem t" "t \<in> T" "state_list k t = Some (pxDelayedTaskList k)"
    "listGET_OWNER_OF_HEAD_ENTRY (klists k) (pxDelayedTaskList k) = Some t"
    "\<And>j. j \<in> set (i # xs) \<Longrightarrow> itemval (klists k) i \<le> itemval (klists k) j"
    using kinv_head [OF inv Cons.hyps(2) [symmetric]] by metis
  have ne: "\<not> listLIST_IS_EMPTY (klists k) (pxDelayedTaskList k)"
    using kinv_delayed_empty [OF inv] by (simp flip: Cons.hyps(2))
  define v where "v = itemval (klists k) (StateItem t)"
  show ?case
  proof (cases "now < v")
    case True
    have none: "\<not> expired k u" for u
    proof
      assume u: "expired k u"
      then have "StateItem u \<in> set (i # xs)"
        using kinv_state(4) [OF inv, of u "pxDelayedTaskList k"] by (simp add: expired_def flip: Cons.hyps(2))
      then have "v \<le> itemval (klists k) (StateItem u)" using t(1,5) by (simp add: v_def)
      moreover have "itemval (klists k) (StateItem u) \<le> now" using u now by (simp add: expired_def)
      ultimately have "v \<le> now" by (rule order.trans)
      then show False using True by simp
    qed
    have 1: "unblock_expired now sw k = Some (sw, k\<lparr>xNextTaskUnblockTime := v\<rparr>)"
      using ne t(4) True by (subst unblock_expired.simps) (simp add: v_def itemval_def)
    have 2: "kinv True L T {} (k\<lparr>xNextTaskUnblockTime := v\<rparr>) A"
      using t(1,5) True now
      by (intro kinv_next [OF inv]) (auto simp: v_def simp flip: Cons.hyps(2) intro: less_le_trans)
    have 3: "rest T idle (k\<lparr>xNextTaskUnblockTime := v\<rparr>)"
      using r restD(8) [OF r]
      by (intro rest_step [OF r]) (auto simp: state_list_def event_list_def ready_def rest_def)
    show ?thesis using 1 2 3 none by (auto simp: state_list_def event_list_def intro!: exI [of _ A])
  next
    case False
    note dl = kinv_delayed_core [OF inv]
    obtain s1 where s1: "listREMOVE_ITEM k (StateItem t) = Some (k\<lparr>klists := s1\<rparr>)"
      "kinv False L T {t} (k\<lparr>klists := s1\<rparr>)
        (A(pxDelayedTaskList k := seq_remove (A (pxDelayedTaskList k)) (StateItem t)))"
      "pxContainer s1 = (pxContainer (klists k))(StateItem t := None)" "xItemValue s1 = xItemValue (klists k)"
      by (rule remove_state [OF inv t(3)])
    define k1 where "k1 = k\<lparr>klists := s1\<rparr>"
    obtain s2 A2 where s2: "leave_event_list k1 t = Some (k1\<lparr>klists := s2\<rparr>)"
      "kinv False L T {t} (k1\<lparr>klists := s2\<rparr>) A2"
      "\<And>l. l \<notin> insert PendingReady (range Event) \<Longrightarrow>
        A2 l = (A(pxDelayedTaskList k := seq_remove (A (pxDelayedTaskList k)) (StateItem t))) l"
      "pxContainer s2 = (pxContainer s1)(EventItem t := None)" "xItemValue s2 = xItemValue s1"
      using leave_event [OF s1(2), of t] by (simp add: k1_def) metis
    define k2 where "k2 = k\<lparr>klists := s2\<rparr>"
    have k2: "k1\<lparr>klists := s2\<rparr> = k2" by (simp add: k1_def k2_def)
    define k3 where "k3 = prvAddTaskToReadyList k2 t"
    define A3 where "A3 = A2(Ready (uxPriority (tcbs k2 t)) :=
      seq_insert_end (A2 (Ready (uxPriority (tcbs k2 t)))) (StateItem t))"
    have inv2: "kinv False L T {t} k2 A2" using s2(2) k2 by simp
    note add = add_ready [OF inv2 singletonI t(2)]
    have inv3: "kinv False L T {} k3 A3" using add(1) by (simp add: k3_def A3_def)
    have lo: "lists_only k k3"
      using lists_only_trans [of k k2 k3] by (simp add: k2_def k3_def)
    have st: "state_list k3 u = (if u = t then Some (Ready (uxPriority (tcbs k t))) else state_list k u)"
      and ev: "event_list k3 u = (if u = t then None else event_list k u)" for u
      using add(2,3) [of u] s1(3) s2(4) by (auto simp: k3_def k2_def state_list_def event_list_def)
    have iv: "itemval (klists k3) = itemval (klists k)"
      using add(4) s1(4) s2(5) by (auto simp: k3_def k2_def itemval_def)
    have "t \<noteq> idle" using t(3) restD(3) [OF r] dl by auto
    then have r3: "rest T idle k3"
      using restD(3) [OF r] t(3) dl
      by (intro rest_step [OF r lo]) (auto simp: st ev ready_def split: if_splits)
    have xs: "xs = fst (A3 (pxDelayedTaskList k3))"
    proof -
      have "fst (A2 (pxDelayedTaskList k)) = xs"
      proof -
        have "pxDelayedTaskList k \<notin> insert PendingReady (range Event)" using dl(1) by auto
        then have "A2 (pxDelayedTaskList k) = seq_remove (A (pxDelayedTaskList k)) (StateItem t)"
          using s2(3) by simp
        then show ?thesis using t(1) by (simp flip: Cons.hyps(2))
      qed
      then show ?thesis using lists_onlyD [OF lo] dl by (auto simp: A3_def)
    qed
    have cn: "pxCurrentTCB k3 = Some c" "now = xTickCount k3"
      using lists_onlyD [OF lo] Cons.prems(3,4) by simp_all
    note IH = Cons.hyps(1) [OF xs inv3 r3 cn, of "sw \<or> uxPriority (tcbs k2 t) > uxPriority (tcbs k2 c)"]
    obtain sw' k' A' where res:
      "unblock_expired now (sw \<or> uxPriority (tcbs k2 t) > uxPriority (tcbs k2 c)) k3 = Some (sw', k')"
      "kinv True L T {} k' A'" "rest T idle k'" "lists_only k3 k'"
      "itemval (klists k') = itemval (klists k3)"
      "\<And>u. state_list k' u = (if expired k3 u then Some (Ready (uxPriority (tcbs k3 u))) else state_list k3 u)"
      "\<And>u. event_list k' u = (if expired k3 u then None else event_list k3 u)"
      "sw' \<longleftrightarrow> (sw \<or> uxPriority (tcbs k2 t) > uxPriority (tcbs k2 c)) \<or>
         (\<exists>u. expired k3 u \<and> uxPriority (tcbs k3 u) > uxPriority (tcbs k3 c))"
      by (insert IH) (elim exE conjE, blast)
    have ex: "expired k u \<longleftrightarrow> u = t \<or> expired k3 u" for u
      using t(3) False lists_onlyD [OF lo] dl now by (auto simp: expired_def st iv v_def)
    have nt: "\<not> expired k3 t" using lists_onlyD [OF lo] dl by (auto simp: expired_def st)
    have "unblock_expired now sw k = Some (sw', k')"
      using ne t(4) False s1(1) s2(1) res(1) Cons.prems(3)
      by (subst unblock_expired.simps)
         (simp add: v_def itemval_def k1_def [symmetric] k2 k3_def, simp add: k2_def)
    moreover have "lists_only k k'" by (rule lists_only_trans [OF lo res(4)])
    moreover have "state_list k' u = (if expired k u then Some (Ready (uxPriority (tcbs k u))) else state_list k u)"
      "event_list k' u = (if expired k u then None else event_list k u)" for u
      using res(6,7) [of u] ex [of u] nt lists_onlyD [OF lo] by (auto simp: st ev)
    moreover have "sw' \<longleftrightarrow> sw \<or> (\<exists>u. expired k u \<and> uxPriority (tcbs k u) > uxPriority (tcbs k c))"
    proof -
      have tc: "tcbs k2 = tcbs k" "tcbs k3 = tcbs k" using lists_onlyD [OF lo] by (simp_all add: k2_def)
      show ?thesis unfolding res(8) ex tc by blast
    qed
    moreover have "itemval (klists k') = itemval (klists k)" using res(5) iv by simp
    ultimately show ?thesis using res(2,3) by (intro exI conjI allI) assumption+
  qed
qed


lemma reset_next:
  assumes "kinv b L T X (k\<lparr>xNextTaskUnblockTime := n\<rparr>) A"
  shows "kinv b L T X (prvResetNextTaskUnblockTime k) A"
proof -
  let ?k = "k\<lparr>xNextTaskUnblockTime := n\<rparr>"
  show ?thesis
  proof (cases "fst (A (pxDelayedTaskList ?k))")
    case Nil
    then have "listLIST_IS_EMPTY (klists k) (pxDelayedTaskList k)"
      using kinv_delayed_empty [OF assms] by simp
    then show ?thesis
      using kinv_next [OF assms, of portMAX_DELAY b] Nil by (simp add: prvResetNextTaskUnblockTime_def)
  next
    case (Cons i xs)
    have ne: "\<not> listLIST_IS_EMPTY (klists k) (pxDelayedTaskList k)"
      using kinv_delayed_empty [OF assms] Cons by simp
    obtain t where "listGET_ITEM_VALUE_OF_HEAD_ENTRY (klists k) (pxDelayedTaskList k) = itemval (klists k) i"
      "\<And>j. j \<in> set (i # xs) \<Longrightarrow> itemval (klists k) i \<le> itemval (klists k) j"
      by (rule kinv_head [OF assms Cons]) simp
    then show ?thesis
      using kinv_next [OF assms, of "itemval (klists k) i" b] Cons ne
      by (simp add: prvResetNextTaskUnblockTime_def)
  qed
qed

lemma reset_next': "kinv b L T X k A \<Longrightarrow> kinv b L T X (prvResetNextTaskUnblockTime k) A"
  by (rule reset_next [where n = "xNextTaskUnblockTime k"]) simp

text \<open>How many ticks a delayed task still waits.\<close>

definition wait_left :: "kernel \<Rightarrow> nat \<Rightarrow> nat option" where
  "wait_left k t =
     (if state_list k t = Some (pxDelayedTaskList k)
      then Some (unat (itemval (klists k) (StateItem t)) - unat (xTickCount k))
      else if state_list k t = Some (pxOverflowDelayedTaskList k)
      then Some (2 ^ 32 + unat (itemval (klists k) (StateItem t)) - unat (xTickCount k))
      else None)"

lemma delayed_times:
  assumes "kinv b L T X k A"
  shows "state_list k t = Some (pxDelayedTaskList k) \<Longrightarrow>
      (if b then xTickCount k < itemval (klists k) (StateItem t)
       else xTickCount k \<le> itemval (klists k) (StateItem t)) \<and>
      xNextTaskUnblockTime k \<le> itemval (klists k) (StateItem t)"
    and "state_list k t = Some (pxOverflowDelayedTaskList k) \<Longrightarrow>
      itemval (klists k) (StateItem t) < xTickCount k"
  using kinv_delays [OF assms] kinv_state(4) [OF assms] unfolding delays_ok_def by blast+

lemma u32_bound: "unat (x :: u32) < 4294967296"
proof -
  have "unat x < 2 ^ LENGTH(32)" by (rule unsigned_less)
  then show ?thesis by simp
qed

lemma wait_left_pos: "kinv True L T X k A \<Longrightarrow> wait_left k t = Some n \<Longrightarrow> 0 < n"
  using delayed_times [of True L T X k A t] u32_bound [of "xTickCount k"]
  by (auto simp: wait_left_def word_less_nat_alt split: if_splits)

text \<open>The first part of a tick: the time moves on, and the lists are switched when it wraps.\<close>

definition tick_time :: "kernel \<Rightarrow> kernel option" where
  "tick_time k = (let now = xTickCount k + 1; k1 = k\<lparr>xTickCount := now\<rparr>
     in if now = 0 then taskSWITCH_DELAYED_LISTS k1 else Some k1)"

lemma unat_succ: "(x :: u32) + 1 \<noteq> 0 \<Longrightarrow> unat (x + 1) = Suc (unat x)"
  using unatSuc [of x] by (simp add: add.commute)

lemma unat_wrap: "(x :: u32) + 1 = 0 \<Longrightarrow> unat x = 2 ^ 32 - 1"
proof -
  assume "x + 1 = 0"
  then have "x = - 1" by (simp add: eq_neg_iff_add_eq_0)
  then show ?thesis by (simp add: unsigned_minus_1_eq_mask mask_eq_exp_minus_1)
qed


lemma tick_time_ok:
  assumes inv: "kinv True L T {} k A" and r: "rest T idle k"
  shows "\<exists>k' A'. tick_time k = Some k' \<and> kinv False L T {} k' A' \<and> rest T idle k' \<and>
    xTickCount k' = xTickCount k + 1 \<and> klists k' = klists k \<and> tcbs k' = tcbs k \<and>
    pxCurrentTCB k' = pxCurrentTCB k \<and> uxSchedulerSuspended k' = uxSchedulerSuspended k \<and>
    xPendedTicks k' = xPendedTicks k \<and> xYieldPending k' = xYieldPending k \<and> pendsv k' = pendsv k \<and>
    (\<forall>t. wait_left k t = (if state_list k' t = Some (pxDelayedTaskList k')
            then Some (Suc (unat (itemval (klists k') (StateItem t)) - unat (xTickCount k')))
          else if state_list k' t = Some (pxOverflowDelayedTaskList k')
            then Some (Suc (2 ^ 32 + unat (itemval (klists k') (StateItem t)) - unat (xTickCount k')))
          else None))"
proof -
  let ?v = "\<lambda>t. itemval (klists k) (StateItem t)"
  note dl = kinv_delayed_core [OF inv]
  note tm = delayed_times [OF inv]
  show ?thesis
  proof (cases "xTickCount k + 1 = 0")
    case False
    note u = unat_succ [OF False]
    define k' where "k' = k\<lparr>xTickCount := xTickCount k + 1\<rparr>"
    have 1: "tick_time k = Some k'" using False by (simp add: tick_time_def k'_def Let_def)
    have "xTickCount k < v \<longleftrightarrow> xTickCount k + 1 \<le> v" "v < xTickCount k \<Longrightarrow> v < xTickCount k + 1" for v
      using u by (simp_all add: word_less_nat_alt word_le_nat_alt Suc_le_eq)
    then have 2: "kinv False L T {} k' A"
      using inv by (auto simp: kinv_def delays_ok_def k'_def)
    have 3: "rest T idle k'"
      using r by (simp add: rest_def k'_def state_list_def event_list_def ready_def)
    have 4: "wait_left k t = (if state_list k' t = Some (pxDelayedTaskList k')
            then Some (Suc (unat (itemval (klists k') (StateItem t)) - unat (xTickCount k')))
          else if state_list k' t = Some (pxOverflowDelayedTaskList k')
            then Some (Suc (2 ^ 32 + unat (itemval (klists k') (StateItem t)) - unat (xTickCount k')))
          else None)" for t
      using tm(1) [of t] u32_bound [of "xTickCount k + 1"] u
      by (auto simp: wait_left_def k'_def state_list_def word_less_nat_alt)
    show ?thesis using 1 2 3 4 by (intro exI [of _ k'] exI [of _ A]) (simp add: k'_def)
  next
    case True
    note u = unat_wrap [OF True]
    have max: "\<not> xTickCount k < v" for v
      using u u32_bound [of v] by (simp add: word_less_nat_alt)
    have none: "state_list k t \<noteq> Some (pxDelayedTaskList k)" for t using tm(1) [of t] max by auto
    have em: "fst (A (pxDelayedTaskList k)) = []"
      using kinv_delays [OF inv] max by (cases "fst (A (pxDelayedTaskList k))") (auto simp: delays_ok_def)
    define k1 where "k1 = k\<lparr>xTickCount := 0, pxDelayedTaskList := pxOverflowDelayedTaskList k,
      pxOverflowDelayedTaskList := pxDelayedTaskList k, xNumOfOverflows := xNumOfOverflows k + 1\<rparr>"
    have "delays_ok False (itemval (klists k)) A (pxOverflowDelayedTaskList k) (pxDelayedTaskList k) 0 0"
      using kinv_delays [OF inv] em by (auto simp: delays_ok_def)
    then have "kinv False L T {} (k1\<lparr>xNextTaskUnblockTime := 0\<rparr>) A"
      using inv by (simp add: kinv_def k1_def)
    then have 2: "kinv False L T {} (prvResetNextTaskUnblockTime k1) A" by (rule reset_next)
    have lo: "lists_only k1 (prvResetNextTaskUnblockTime k1)" by simp
    have kl: "klists (prvResetNextTaskUnblockTime k1) = klists k"
      by (simp add: prvResetNextTaskUnblockTime_def k1_def)
    have 1: "tick_time k = Some (prvResetNextTaskUnblockTime k1)"
      using kinv_delayed_empty [OF inv] em True
      by (simp add: tick_time_def taskSWITCH_DELAYED_LISTS_def k1_def Let_def)
    have 3: "rest T idle (prvResetNextTaskUnblockTime k1)"
      using r lists_onlyD [OF lo] kl
      by (simp add: rest_def k1_def state_list_def event_list_def ready_def)
    have 4: "wait_left k t = (if state_list k t = Some (pxOverflowDelayedTaskList k)
            then Some (Suc (unat (?v t))) else None)" for t
      using none [of t] tm(2) [of t] u by (auto simp: wait_left_def)
    show ?thesis
      using 1 2 3 4 none lists_onlyD [OF lo] kl True
      by (intro exI [of _ "prvResetNextTaskUnblockTime k1"] exI [of _ A])
         (simp add: k1_def state_list_def)
  qed
qed


text \<open>
  What a tick does: a task whose last tick this is becomes ready, and every other delayed task has
  one tick less to wait.
\<close>

definition ticked :: "kernel \<Rightarrow> kernel \<Rightarrow> bool" where
  "ticked k k' \<longleftrightarrow> xTickCount k' = xTickCount k + 1 \<and> tcbs k' = tcbs k \<and>
     pxCurrentTCB k' = pxCurrentTCB k \<and> uxSchedulerSuspended k' = uxSchedulerSuspended k \<and>
     xPendedTicks k' = xPendedTicks k \<and> xYieldPending k' = xYieldPending k \<and> pendsv k' = pendsv k \<and>
     (\<forall>t. (wait_left k t = None \<longrightarrow> state_list k' t = state_list k t \<and>
             event_list k' t = event_list k t \<and> wait_left k' t = None) \<and>
          (wait_left k t = Some 1 \<longrightarrow> state_list k' t = Some (Ready (uxPriority (tcbs k t))) \<and>
             event_list k' t = None \<and> wait_left k' t = None) \<and>
          (\<forall>n. wait_left k t = Some (Suc (Suc n)) \<longrightarrow> wait_left k' t = Some (Suc n) \<and>
             event_list k' t = event_list k t))"

lemma wait_left_None:
  assumes "kinv b L T X k A"
  shows "wait_left k t = None \<longleftrightarrow> state_list k t \<noteq> Some Delayed1 \<and> state_list k t \<noteq> Some Delayed2"
  using kinv_delayed_core [OF assms] by (auto simp: wait_left_def)

lemma wait_left_lists_only:
  assumes "lists_only k k'" and "state_list k' t = state_list k t" and "itemval (klists k') = itemval (klists k)"
  shows "wait_left k' t = wait_left k t"
  using assms(2,3) lists_onlyD [OF assms(1)] by (simp add: wait_left_def)

lemma xTaskIncrementTick_ok:
  assumes inv: "kinv True L T {} k A" and r: "rest T idle k" and c: "pxCurrentTCB k = Some c"
    and run: "uxSchedulerSuspended k = 0"
  shows "\<exists>sw k' A'. xTaskIncrementTick k = Some (sw, k') \<and> kinv True L T {} k' A' \<and> rest T idle k' \<and>
    ticked k k' \<and> (xYieldPending k \<longrightarrow> sw) \<and>
    (\<forall>t. wait_left k t = Some 1 \<and> uxPriority (tcbs k t) > uxPriority (tcbs k c) \<longrightarrow> sw)"
proof -
  obtain k2 A2 where k2: "tick_time k = Some k2" "kinv False L T {} k2 A2" "rest T idle k2"
    "xTickCount k2 = xTickCount k + 1" "klists k2 = klists k" "tcbs k2 = tcbs k"
    "pxCurrentTCB k2 = pxCurrentTCB k" "uxSchedulerSuspended k2 = uxSchedulerSuspended k"
    "xPendedTicks k2 = xPendedTicks k" "xYieldPending k2 = xYieldPending k" "pendsv k2 = pendsv k"
    and left: "\<And>t. wait_left k t = (if state_list k2 t = Some (pxDelayedTaskList k2)
            then Some (Suc (unat (itemval (klists k2) (StateItem t)) - unat (xTickCount k2)))
          else if state_list k2 t = Some (pxOverflowDelayedTaskList k2)
            then Some (Suc (2 ^ 32 + unat (itemval (klists k2) (StateItem t)) - unat (xTickCount k2)))
          else None)"
    using tick_time_ok [OF inv r] by (elim exE conjE) blast
  note dl = kinv_delayed_core [OF k2(2)]
  have left': "wait_left k t = map_option Suc (wait_left k2 t)" for t
    by (simp add: left wait_left_def [of k2])
  have "expired k2 t \<longleftrightarrow> wait_left k2 t = Some 0" for t
    using delayed_times(1) [OF k2(2), of t] u32_bound [of "xTickCount k2"]
    by (auto simp: wait_left_def expired_def word_le_nat_alt)
  then have ex: "expired k2 t \<longleftrightarrow> wait_left k t = Some 1" for t by (simp add: left')
  have later: "wait_left k t = Some (Suc (Suc n)) \<longleftrightarrow> wait_left k2 t = Some (Suc n)" for t n
    by (simp add: left')
  have never: "wait_left k t = None \<longleftrightarrow> wait_left k2 t = None" for t
    by (simp add: left')
  obtain sw k3 A3 where k3: "(if xTickCount k2 \<ge> xNextTaskUnblockTime k2
      then unblock_expired (xTickCount k2) False k2 else Some (False, k2)) = Some (sw, k3)"
    "kinv True L T {} k3 A3" "rest T idle k3" "lists_only k2 k3" "itemval (klists k3) = itemval (klists k2)"
    "\<And>t. state_list k3 t = (if expired k2 t then Some (Ready (uxPriority (tcbs k2 t))) else state_list k2 t)"
    "\<And>t. event_list k3 t = (if expired k2 t then None else event_list k2 t)"
    "sw \<longleftrightarrow> (\<exists>t. expired k2 t \<and> uxPriority (tcbs k2 t) > uxPriority (tcbs k2 c))"
  proof (cases "xTickCount k2 \<ge> xNextTaskUnblockTime k2")
    case True
    have "pxCurrentTCB k2 = Some c" using k2(7) c by simp
    from unblock_expired_ok [OF k2(2,3) this refl, of False] obtain sw k3 A3 where
      u: "unblock_expired (xTickCount k2) False k2 = Some (sw, k3)"
      "kinv True L T {} k3 A3" "rest T idle k3" "lists_only k2 k3" "itemval (klists k3) = itemval (klists k2)"
      "\<And>t. state_list k3 t = (if expired k2 t then Some (Ready (uxPriority (tcbs k2 t))) else state_list k2 t)"
      "\<And>t. event_list k3 t = (if expired k2 t then None else event_list k2 t)"
      "sw \<longleftrightarrow> False \<or> (\<exists>t. expired k2 t \<and> uxPriority (tcbs k2 t) > uxPriority (tcbs k2 c))"
      by (elim exE conjE) blast
    show ?thesis
      by (rule that [of sw k3 A3, OF _ u(2-7)]) (use u(1,8) True in simp_all)
  next
    case False
    have none: "\<not> expired k2 t" for t
      using delayed_times(1) [OF k2(2), of t] False by (auto simp: expired_def dest: order.trans)
    have "kinv True L T {} k2 A2"
      using k2(2) False by (auto simp: kinv_def delays_ok_def dest: less_le_trans [of _ "xNextTaskUnblockTime k2"])
    then show ?thesis using that [of False k2 A2] k2(3) False none by simp
  qed
  define sw' where "sw' = ((sw \<or> listCURRENT_LIST_LENGTH (klists k3) (Ready (uxPriority (tcbs k3 c))) > 1) \<or> xYieldPending k3)"
  have res: "xTaskIncrementTick k = Some (sw', k3)"
  proof -
    have c3: "pxCurrentTCB k3 = Some c" using lists_onlyD [OF k3(4)] k2(7) c by simp
    have "xTaskIncrementTick k = Option.bind (tick_time k) (\<lambda>k2.
      Option.bind (if xTickCount k + 1 \<ge> xNextTaskUnblockTime k2
                   then unblock_expired (xTickCount k + 1) False k2 else Some (False, k2)) (\<lambda>(sw, k3).
      Option.bind (pxCurrentTCB k3) (\<lambda>c.
      Some ((sw \<or> listCURRENT_LIST_LENGTH (klists k3) (Ready (uxPriority (tcbs k3 c))) > 1)
             \<or> xYieldPending k3, k3))))"
      using run by (simp add: xTaskIncrementTick_def tick_time_def Let_def)
    then show ?thesis
      unfolding k2(1) Option.bind.bind_lunit k3(1) [unfolded k2(4)]
      by (simp add: c3 sw'_def)
  qed
  have "ticked k k3"
    unfolding ticked_def
  proof (intro conjI allI impI)
    note f = lists_onlyD [OF k3(4)] k2
    show "xTickCount k3 = xTickCount k + 1" "tcbs k3 = tcbs k" "pxCurrentTCB k3 = pxCurrentTCB k"
      "uxSchedulerSuspended k3 = uxSchedulerSuspended k" "xPendedTicks k3 = xPendedTicks k"
      "xYieldPending k3 = xYieldPending k" "pendsv k3 = pendsv k"
      using f by simp_all
    fix t
    have same: "state_list k2 t = state_list k t" "event_list k2 t = event_list k t"
      using k2(5) by (simp_all add: state_list_def event_list_def)
    {
      assume n: "wait_left k t = None"
      then have "\<not> expired k2 t" by (simp add: ex)
      then show "state_list k3 t = state_list k t" "event_list k3 t = event_list k t" "wait_left k3 t = None"
        using k3(6,7) same wait_left_lists_only [OF k3(4) _ k3(5), of t] never [of t] n by auto
    next
      assume n: "wait_left k t = Some 1"
      then have e: "expired k2 t" by (simp add: ex)
      then show "state_list k3 t = Some (Ready (uxPriority (tcbs k t)))" "event_list k3 t = None"
        using k3(6,7) k2(6) by auto
      then show "wait_left k3 t = None" using wait_left_None [OF k3(2)] by simp
    next
      fix n assume n: "wait_left k t = Some (Suc (Suc n))"
      then have e: "\<not> expired k2 t" by (simp add: ex)
      then show "wait_left k3 t = Some (Suc n)" "event_list k3 t = event_list k t"
        using k3(6,7) same wait_left_lists_only [OF k3(4) _ k3(5), of t] later [of t n] n by auto
    }
  qed
  moreover have "xYieldPending k \<longrightarrow> sw'" using lists_onlyD [OF k3(4)] k2(10) by (simp add: sw'_def)
  moreover have "\<forall>t. wait_left k t = Some 1 \<and> uxPriority (tcbs k t) > uxPriority (tcbs k c) \<longrightarrow> sw'"
    using k3(8) k2(6) by (auto simp: sw'_def ex)
  ultimately show ?thesis using res k3(2,3) by (intro exI conjI)
qed

end
