(* ===== verification/RTOS_Resume.thy ===== *)
theory RTOS_Resume
  imports RTOS_Tick
begin

text \<open>
  Suspending and resuming the scheduler. While it is suspended, woken tasks wait on the pending list
  and ticks are counted; when it is resumed the tasks become ready, the ticks are made up for
  one by one, and a switch is requested if one is due.
\<close>

section \<open>Woken tasks\<close>

definition pending :: "kernel \<Rightarrow> nat \<Rightarrow> bool" where
  "pending k t \<longleftrightarrow> event_list k t = Some PendingReady"

lemma kinv_yield: "kinv b L T X (k\<lparr>xYieldPending := y\<rparr>) A \<longleftrightarrow> kinv b L T X k A"
  by (simp add: kinv_def)

lemma rest_yield: "rest T idle (k\<lparr>xYieldPending := y\<rparr>) \<longleftrightarrow> rest T idle k"
  by (simp add: rest_def state_list_def event_list_def ready_def)

text \<open>The lists differ as in \<open>lists_only\<close>, and a switch may have been noted.\<close>

definition lists_yield :: "kernel \<Rightarrow> kernel \<Rightarrow> bool" where
  "lists_yield k k' \<longleftrightarrow> lists_only (k\<lparr>xYieldPending := xYieldPending k'\<rparr>) k'"

lemma lists_yieldD:
  assumes "lists_yield k k'"
  shows "tcbs k' = tcbs k" "pxCurrentTCB k' = pxCurrentTCB k" "pxDelayedTaskList k' = pxDelayedTaskList k"
    "pxOverflowDelayedTaskList k' = pxOverflowDelayedTaskList k" "xTickCount k' = xTickCount k"
    "xPendedTicks k' = xPendedTicks k" "uxSchedulerSuspended k' = uxSchedulerSuspended k"
    "pendsv k' = pendsv k" "uxCurrentNumberOfTasks k' = uxCurrentNumberOfTasks k"
  using assms by (simp_all add: lists_yield_def lists_only_iff)

lemma lists_yield_trans: "lists_yield k k1 \<Longrightarrow> lists_yield k1 k2 \<Longrightarrow> lists_yield k k2"
  by (simp add: lists_yield_def lists_only_iff)

lemma lists_only_yield: "lists_only k k' \<Longrightarrow> lists_yield k (k'\<lparr>xYieldPending := y\<rparr>)"
  by (simp add: lists_yield_def lists_only_iff)

lemma kinv_pending_empty:
  "kinv b L T X k A \<Longrightarrow> listLIST_IS_EMPTY (klists k) PendingReady \<longleftrightarrow> fst (A PendingReady) = []"
  by (rule kinv_empty) (auto simp: core_lists_def)

lemma kinv_event_set:
  assumes "kinv b L T X k A" and "event_list k t = Some l"
  shows "EventItem t \<in> set (fst (A l))" "t \<in> T"
proof -
  have ok: "store_ok L T X (\<lambda>t. uxPriority (tcbs k t)) (klists k) A"
    using assms(1) by (simp add: kinv_def)
  show "EventItem t \<in> set (fst (A l))" using on_list [OF ok] assms(2) by (simp add: event_list_def)
  show "t \<in> T" using store_okD(8) [OF ok] assms(2) by (auto simp: event_list_def)
qed

lemma kinv_pending_head:
  assumes inv: "kinv b L T X k A" and ne: "fst (A PendingReady) = i # xs"
  obtains t where "i = EventItem t" "t \<in> T" "pending k t"
    "listGET_OWNER_OF_HEAD_ENTRY (klists k) PendingReady = Some t"
proof -
  have ok: "store_ok L T X (\<lambda>t. uxPriority (tcbs k t)) (klists k) A"
    using inv by (simp add: kinv_def)
  have "i \<in> set (fst (A PendingReady))" by (simp add: ne)
  then obtain t where t: "i = EventItem t" "t \<in> T" "event_list k t = Some PendingReady"
    "pvOwner (klists k) i = Some t" by (rule kinv_event_item [OF inv]) simp
  then show ?thesis
    using that [OF t(1,2)] list_head(1) [OF store_okD(1) [OF ok] core_in(3) [OF ok] ne]
    by (simp add: pending_def)
qed

lemma move_pending_ready_ok:
  assumes "kinv True L T {} k A" and "rest T idle k" and "pxCurrentTCB k = Some c"
  shows "\<exists>any' k' A'. move_pending_ready any k = Some (any', k') \<and> kinv True L T {} k' A' \<and>
    rest T idle k' \<and> lists_yield k k' \<and> itemval (klists k') = itemval (klists k) \<and>
    (\<forall>t. state_list k' t = (if pending k t then Some (Ready (uxPriority (tcbs k t))) else state_list k t)) \<and>
    (\<forall>t. event_list k' t = (if pending k t then None else event_list k t)) \<and>
    (xYieldPending k' \<longleftrightarrow> xYieldPending k \<or>
       (\<exists>t. pending k t \<and> uxPriority (tcbs k t) > uxPriority (tcbs k c)))"
  using assms
proof (induction "fst (A PendingReady)" arbitrary: k A any)
  case Nil
  note inv = Nil.prems(1)
  have none: "\<not> pending k t" for t
    using kinv_event_set(1) [OF inv, of t PendingReady] Nil.hyps by (auto simp: pending_def)
  have "move_pending_ready any k = Some (any, k)"
    using kinv_pending_empty [OF inv] Nil.hyps by (subst move_pending_ready.simps) simp
  then show ?case
    using Nil.prems none by (intro exI [of _ any] exI [of _ k] exI [of _ A]) (simp add: lists_yield_def)
next
  case (Cons i xs)
  note inv = Cons.prems(1) and r = Cons.prems(2) and cur = Cons.prems(3)
  obtain t where t: "i = EventItem t" "t \<in> T" "pending k t"
    "listGET_OWNER_OF_HEAD_ENTRY (klists k) PendingReady = Some t"
    by (rule kinv_pending_head [OF inv Cons.hyps(2) [symmetric]])
  have ne: "\<not> listLIST_IS_EMPTY (klists k) PendingReady"
    using kinv_pending_empty [OF inv] by (simp flip: Cons.hyps(2))
  obtain s1 where s1: "listREMOVE_ITEM k (EventItem t) = Some (k\<lparr>klists := s1\<rparr>)"
    "kinv True L T {} (k\<lparr>klists := s1\<rparr>) (A(PendingReady := seq_remove (A PendingReady) (EventItem t)))"
    "pxContainer s1 = (pxContainer (klists k))(EventItem t := None)" "xItemValue s1 = xItemValue (klists k)"
    by (rule remove_event [OF inv t(3) [unfolded pending_def]])
  define k1 where "k1 = k\<lparr>klists := s1\<rparr>"
  define A1 where "A1 = A(PendingReady := seq_remove (A PendingReady) (EventItem t))"
  have inv1: "kinv True L T {} k1 A1" using s1(2) by (simp add: k1_def A1_def)
  have "state_list k1 t \<noteq> None" using kinv_loose [OF inv1 t(2)] by simp
  then obtain l where l: "state_list k1 t = Some l" by blast
  obtain s2 where s2: "listREMOVE_ITEM k1 (StateItem t) = Some (k1\<lparr>klists := s2\<rparr>)"
    "kinv True L T {t} (k1\<lparr>klists := s2\<rparr>) (A1(l := seq_remove (A1 l) (StateItem t)))"
    "pxContainer s2 = (pxContainer (klists k1))(StateItem t := None)" "xItemValue s2 = xItemValue (klists k1)"
    by (rule remove_state [OF inv1 l])
  define k2 where "k2 = k\<lparr>klists := s2\<rparr>"
  define A2 where "A2 = A1(l := seq_remove (A1 l) (StateItem t))"
  have k2: "k1\<lparr>klists := s2\<rparr> = k2" by (simp add: k1_def k2_def)
  have inv2: "kinv True L T {t} k2 A2" using s2(2) by (simp add: k2 A2_def)
  define k3 where "k3 = prvAddTaskToReadyList k2 t"
  define A3 where "A3 = A2(Ready (uxPriority (tcbs k2 t)) :=
    seq_insert_end (A2 (Ready (uxPriority (tcbs k2 t)))) (StateItem t))"
  note add = add_ready [OF inv2 singletonI t(2)]
  have inv3: "kinv True L T {} k3 A3" using add(1) by (simp add: k3_def A3_def)
  have lo: "lists_only k k3"
    using lists_only_trans [of k k2 k3] by (simp add: k2_def k3_def)
  define k4 where "k4 = (if uxPriority (tcbs k3 t) > uxPriority (tcbs k3 c)
                         then k3\<lparr>xYieldPending := True\<rparr> else k3)"
  have k4: "k4 = k3\<lparr>xYieldPending := xYieldPending k4\<rparr>" by (simp add: k4_def)
  have inv4: "kinv True L T {} k4 A3" using inv3 by (simp add: k4_def kinv_yield)
  have st3: "state_list k3 u = (if u = t then Some (Ready (uxPriority (tcbs k t))) else state_list k u)"
    and ev3: "event_list k3 u = (if u = t then None else event_list k u)" for u
    using add(2,3) [of u] s1(3) s2(3)
    by (auto simp: k3_def k2_def k1_def state_list_def event_list_def)
  have st: "state_list k4 u = state_list k3 u" and ev: "event_list k4 u = event_list k3 u" for u
    by (simp_all add: k4_def state_list_def event_list_def)
  note st = st [unfolded st3] and ev = ev [unfolded ev3]
  have iv: "itemval (klists k4) = itemval (klists k)"
    using add(4) s1(4) s2(4) by (auto simp: k4_def k3_def k2_def k1_def itemval_def)
  have tw: "state_list k t \<noteq> Some WaitingTermination" "t \<noteq> idle"
    using restD(10) [OF r, of t] restD(8) [OF r, of t] restD(3) [OF r] t(3)
    by (auto simp: pending_def ready_def)
  have "rest T idle k3"
    using restD(3) [OF r] tw
    by (intro rest_step [OF r lo])
       (auto simp: st3 ev3 ready_def split: if_splits)
  then have r4: "rest T idle k4" by (simp add: k4_def rest_yield)
  have xs: "xs = fst (A3 PendingReady)"
  proof -
    have "l \<noteq> PendingReady" using kinv_state(2) [OF inv1 l] by (auto simp: state_places_def)
    then show ?thesis by (simp add: A3_def A2_def A1_def t(1) flip: Cons.hyps(2))
  qed
  have ly: "lists_yield k k4" using lists_only_yield [OF lo] k4 by metis
  have cn: "pxCurrentTCB k4 = Some c" using lists_yieldD [OF ly] cur by simp
  from Cons.hyps(1) [OF xs inv4 r4 cn, of True] obtain any' k' A' where res:
    "move_pending_ready True k4 = Some (any', k')" "kinv True L T {} k' A'" "rest T idle k'"
    "lists_yield k4 k'" "itemval (klists k') = itemval (klists k4)"
    "\<And>u. state_list k' u = (if pending k4 u then Some (Ready (uxPriority (tcbs k4 u))) else state_list k4 u)"
    "\<And>u. event_list k' u = (if pending k4 u then None else event_list k4 u)"
    "xYieldPending k' \<longleftrightarrow> xYieldPending k4 \<or>
       (\<exists>u. pending k4 u \<and> uxPriority (tcbs k4 u) > uxPriority (tcbs k4 c))"
    by (elim exE conjE) blast
  have pe: "pending k u \<longleftrightarrow> u = t \<or> pending k4 u" and nt: "\<not> pending k4 t" for u
    using t(3) by (auto simp: pending_def ev)
  have tc: "tcbs k4 = tcbs k" "tcbs k3 = tcbs k" using lists_yieldD [OF ly] lists_onlyD [OF lo] by simp_all
  have 1: "move_pending_ready any k = Some (any', k')"
  proof -
    have "move_pending_ready any k = move_pending_ready True
        (if uxPriority (tcbs k3 t) > uxPriority (tcbs k3 c) then k3\<lparr>xYieldPending := True\<rparr> else k3)"
      using ne t(4) s1(1) s2(1) cur
      by (subst move_pending_ready.simps) (simp add: k1_def [symmetric] k2 k3_def, simp add: k2_def)
    then show ?thesis using res(1) by (simp add: k4_def)
  qed
  have 2: "state_list k' u = (if pending k u then Some (Ready (uxPriority (tcbs k u))) else state_list k u)"
    "event_list k' u = (if pending k u then None else event_list k u)" for u
    using res(6,7) [of u] pe [of u] nt tc by (auto simp: st ev)
  have 3: "xYieldPending k' \<longleftrightarrow> xYieldPending k \<or>
       (\<exists>u. pending k u \<and> uxPriority (tcbs k u) > uxPriority (tcbs k c))"
    unfolding res(8) pe tc using lists_onlyD [OF lo] by (auto simp: k4_def tc)
  show ?case
    using 1 2 3 res(2,3) lists_yield_trans [OF ly res(4)] res(5) iv
    by (intro exI [of _ any'] exI [of _ k'] exI [of _ A']) simp
qed


section \<open>Ticks that are made up for\<close>

text \<open>What a number of ticks do to the tasks.\<close>

definition waits_less :: "nat \<Rightarrow> kernel \<Rightarrow> kernel \<Rightarrow> nat \<Rightarrow> bool" where
  "waits_less n k k' t \<longleftrightarrow>
     (wait_left k t = None \<longrightarrow> state_list k' t = state_list k t \<and>
        event_list k' t = event_list k t \<and> wait_left k' t = None) \<and>
     (\<forall>m. wait_left k t = Some m \<longrightarrow>
        (if m \<le> n then state_list k' t = Some (Ready (uxPriority (tcbs k t))) \<and>
           event_list k' t = None \<and> wait_left k' t = None
         else wait_left k' t = Some (m - n) \<and> event_list k' t = event_list k t))"

definition elapsed :: "nat \<Rightarrow> kernel \<Rightarrow> kernel \<Rightarrow> bool" where
  "elapsed n k k' \<longleftrightarrow> (\<forall>t. waits_less n k k' t)"

lemma waits_lessD:
  assumes "waits_less n k k' t"
  shows "wait_left k t = None \<Longrightarrow> state_list k' t = state_list k t"
    "wait_left k t = None \<Longrightarrow> event_list k' t = event_list k t" "wait_left k t = None \<Longrightarrow> wait_left k' t = None"
    "wait_left k t = Some m \<Longrightarrow> m \<le> n \<Longrightarrow> state_list k' t = Some (Ready (uxPriority (tcbs k t)))"
    "wait_left k t = Some m \<Longrightarrow> m \<le> n \<Longrightarrow> event_list k' t = None"
    "wait_left k t = Some m \<Longrightarrow> m \<le> n \<Longrightarrow> wait_left k' t = None"
    "wait_left k t = Some m \<Longrightarrow> n < m \<Longrightarrow> wait_left k' t = Some (m - n)"
    "wait_left k t = Some m \<Longrightarrow> n < m \<Longrightarrow> event_list k' t = event_list k t"
  using assms unfolding waits_less_def by (auto simp: not_le [symmetric])

lemma waits_less_event:
  assumes "waits_less n k k' t"
  shows "event_list k' t = event_list k t \<or> event_list k' t = None"
proof (cases "wait_left k t")
  case (Some m)
  then show ?thesis using waits_lessD(5,8) [OF assms Some] by (cases "m \<le> n") auto
qed (use waits_lessD(2) [OF assms] in simp)

lemmas elapsedD = waits_lessD [OF elapsed_def [THEN iffD1, THEN spec]]

lemma tickedD:
  assumes "ticked k k'"
  shows "wait_left k t = None \<Longrightarrow> state_list k' t = state_list k t"
    "wait_left k t = None \<Longrightarrow> event_list k' t = event_list k t" "wait_left k t = None \<Longrightarrow> wait_left k' t = None"
    "wait_left k t = Some 1 \<Longrightarrow> state_list k' t = Some (Ready (uxPriority (tcbs k t)))"
    "wait_left k t = Some 1 \<Longrightarrow> event_list k' t = None" "wait_left k t = Some 1 \<Longrightarrow> wait_left k' t = None"
    "wait_left k t = Some (Suc (Suc n)) \<Longrightarrow> wait_left k' t = Some (Suc n)"
    "wait_left k t = Some (Suc (Suc n)) \<Longrightarrow> event_list k' t = event_list k t"
  using assms unfolding ticked_def by auto

lemma ticked_fields:
  assumes "ticked k k'"
  shows "xTickCount k' = xTickCount k + 1" "tcbs k' = tcbs k" "pxCurrentTCB k' = pxCurrentTCB k"
    "uxSchedulerSuspended k' = uxSchedulerSuspended k" "xPendedTicks k' = xPendedTicks k"
    "xYieldPending k' = xYieldPending k" "pendsv k' = pendsv k"
  using assms by (simp_all add: ticked_def)

lemma elapsed_0: "kinv True L T X k A \<Longrightarrow> elapsed 0 k k"
  using wait_left_pos [of L T X k A] unfolding elapsed_def waits_less_def by fastforce

lemma elapsed_Suc:
  assumes pos: "\<And>t m. wait_left k t = Some m \<Longrightarrow> 0 < m" and tk: "ticked k k1" and el: "elapsed n k1 k'"
  shows "elapsed (Suc n) k k'"
  unfolding elapsed_def waits_less_def
proof (intro allI conjI impI)
  fix t
  {
    assume n: "wait_left k t = None"
    note w = tickedD(1-3) [OF tk n]
    show "state_list k' t = state_list k t" "event_list k' t = event_list k t" "wait_left k' t = None"
      using elapsedD(1-3) [OF el w(3)] w by simp_all
  next
    fix m assume m: "wait_left k t = Some m"
    consider "m = 1" | j where "m = Suc (Suc j)" using pos [OF m] by (cases m) (auto simp: gr0_conv_Suc, metis nat.exhaust)
    then show "if m \<le> Suc n then state_list k' t = Some (Ready (uxPriority (tcbs k t))) \<and>
        event_list k' t = None \<and> wait_left k' t = None
      else wait_left k' t = Some (m - Suc n) \<and> event_list k' t = event_list k t"
    proof cases
      case 1
      note w = tickedD(4-6) [OF tk m [unfolded 1]]
      show ?thesis using elapsedD(1-3) [OF el w(3)] w 1 by simp
    next
      case (2 j)
      note w = tickedD(7,8) [OF tk m [unfolded 2]]
      show ?thesis
        using elapsedD(4-6) [OF el w(1)] elapsedD(7,8) [OF el w(1)] w 2 ticked_fields(2) [OF tk]
        by (auto simp: not_le)
    qed
  }
qed

text \<open>
  No ready task outranks the running one, unless a switch is already requested.
\<close>

definition cur_top :: "kernel \<Rightarrow> bool" where
  "cur_top k \<longleftrightarrow> pendsv k \<or> xYieldPending k \<or>
     (\<forall>c t. pxCurrentTCB k = Some c \<longrightarrow> ready k t \<longrightarrow> uxPriority (tcbs k t) \<le> uxPriority (tcbs k c))"

lemma wait_left_yield [simp]: "wait_left (k\<lparr>xYieldPending := y\<rparr>) = wait_left k"
  by (simp add: wait_left_def state_list_def fun_eq_iff)

lemma lists_yield_upd [simp]:
  "state_list (k\<lparr>xYieldPending := y\<rparr>) = state_list k" "event_list (k\<lparr>xYieldPending := y\<rparr>) = event_list k"
  "ready (k\<lparr>xYieldPending := y\<rparr>) = ready k"
  by (simp_all add: state_list_def event_list_def ready_def fun_eq_iff)

lemma ticked_ready:
  assumes "ticked k k1" and "kinv True L T X k A" and "kinv True L T X k1 A1" and "ready k1 t"
  shows "ready k t \<or> wait_left k t = Some 1"
proof (cases "wait_left k t")
  case None
  then show ?thesis using tickedD(1) [OF assms(1) None] assms(4) by (simp add: ready_def)
next
  case (Some m)
  show ?thesis
  proof (cases "m = 1")
    case False
    then obtain j where "m = Suc (Suc j)"
      using wait_left_pos [OF assms(2) Some] by (metis One_nat_def gr0_conv_Suc not0_implies_Suc)
    then have "wait_left k1 t = Some (Suc j)" using tickedD(7) [OF assms(1)] Some by simp
    then have "\<not> ready k1 t"
      using kinv_delayed_core [OF assms(3)] by (auto simp: wait_left_def ready_def split: if_splits)
    then show ?thesis using assms(4) by simp
  qed (use Some in simp)
qed

lemma catch_up_ticks_ok:
  assumes "kinv True L T {} k A" and "rest T idle k" and "pxCurrentTCB k = Some c"
    and "uxSchedulerSuspended k = 0"
  shows "\<exists>k' A'. catch_up_ticks n k = Some k' \<and> kinv True L T {} k' A' \<and> rest T idle k' \<and>
    elapsed n k k' \<and> tcbs k' = tcbs k \<and> pxCurrentTCB k' = pxCurrentTCB k \<and>
    uxSchedulerSuspended k' = 0 \<and> xPendedTicks k' = xPendedTicks k \<and> pendsv k' = pendsv k \<and>
    xTickCount k' = xTickCount k + of_nat n \<and> (cur_top k \<longrightarrow> cur_top k')"
  using assms
proof (induction n arbitrary: k A)
  case 0
  then show ?case using elapsed_0 [OF 0(1)] by auto
next
  case (Suc n)
  note inv = Suc.prems(1) and r = Suc.prems(2) and cur = Suc.prems(3)
  from xTaskIncrementTick_ok [OF Suc.prems] obtain sw k1 A1 where k1:
    "xTaskIncrementTick k = Some (sw, k1)" "kinv True L T {} k1 A1" "rest T idle k1" "ticked k k1"
    "xYieldPending k \<longrightarrow> sw"
    "\<And>t. wait_left k t = Some 1 \<Longrightarrow> uxPriority (tcbs k t) > uxPriority (tcbs k c) \<Longrightarrow> sw"
    by (elim exE conjE) blast
  define k2 where "k2 = (if sw then k1\<lparr>xYieldPending := True\<rparr> else k1)"
  have k2: "kinv True L T {} k2 A1" "rest T idle k2" "ticked k k2 \<or> sw"
    using k1(2-4) by (simp_all add: k2_def kinv_yield rest_yield)
  have f: "tcbs k2 = tcbs k" "pxCurrentTCB k2 = pxCurrentTCB k" "uxSchedulerSuspended k2 = 0"
    "xPendedTicks k2 = xPendedTicks k" "pendsv k2 = pendsv k" "xTickCount k2 = xTickCount k + 1"
    using ticked_fields [OF k1(4)] Suc.prems(4) by (simp_all add: k2_def)
  have sl: "wait_left k2 = wait_left k1" "state_list k2 = state_list k1" "event_list k2 = event_list k1"
    "ready k2 = ready k1"
    by (simp_all add: k2_def)
  have top: "cur_top k2" if "cur_top k"
  proof (cases sw)
    case False
    have "uxPriority (tcbs k1 t) \<le> uxPriority (tcbs k1 c)" if "ready k1 t" "\<not> pendsv k" for t
      using ticked_ready [OF k1(4) inv k1(2) that(1)] \<open>cur_top k\<close> k1(5,6) False cur that(2) ticked_fields(2) [OF k1(4)]
      by (auto simp: cur_top_def not_less [symmetric])
    then show ?thesis using cur ticked_fields [OF k1(4)] False by (auto simp: cur_top_def k2_def)
  qed (simp add: cur_top_def k2_def)
  have c2: "pxCurrentTCB k2 = Some c" using f cur by simp
  from Suc.IH [OF k2(1,2) c2 f(3)] obtain k' A' where k':
    "catch_up_ticks n k2 = Some k'" "kinv True L T {} k' A'" "rest T idle k'" "elapsed n k2 k'"
    "tcbs k' = tcbs k2" "pxCurrentTCB k' = pxCurrentTCB k2" "uxSchedulerSuspended k' = 0"
    "xPendedTicks k' = xPendedTicks k2" "pendsv k' = pendsv k2"
    "xTickCount k' = xTickCount k2 + of_nat n" "cur_top k2 \<longrightarrow> cur_top k'"
    by (elim exE conjE) blast
  have "elapsed n k1 k'" using k'(4) f(1) ticked_fields(2) [OF k1(4)] by (simp add: elapsed_def waits_less_def sl)
  from elapsed_Suc [OF wait_left_pos [OF inv] k1(4) this] have "elapsed (Suc n) k k'" .
  moreover have "catch_up_ticks (Suc n) k = Some k'" using k1(1) k'(1) by (simp add: k2_def)
  ultimately show ?case
    using k' f top by (intro exI [of _ k'] exI [of _ A']) (simp add: add.assoc)
qed


section \<open>Resuming\<close>

lemma rest_tasks:
  assumes "rest T idle k" and "kinv b L T X k A"
  shows "uxCurrentNumberOfTasks k > 0"
proof -
  have f: "finite T" "card T < 2 ^ 30" using assms(2) by (simp_all add: kinv_def store_ok_def)
  then have "card T \<noteq> 0" using restD(1) [OF assms(1)] by auto
  then have "(of_nat (card T) :: u32) \<noteq> 0"
    using f(2) by (subst word_of_nat_eq_0_iff) (auto dest: dvd_imp_le)
  then show ?thesis using restD(5) [OF assms(1)] by (simp add: word_neq_0_conv [symmetric])
qed

lemma lists_yield_lists:
  assumes "lists_only k k'" and "klists k' = klists k"
  shows "state_list k' = state_list k" "event_list k' = event_list k" "ready k' = ready k"
    "wait_left k' = wait_left k"
  using assms lists_onlyD [OF assms(1)]
  by (simp_all add: state_list_def event_list_def ready_def wait_left_def fun_eq_iff)

text \<open>
  What resuming the scheduler does to the tasks: the woken ones are ready, and for the others the
  ticks that were counted have passed.
\<close>

definition resumed :: "kernel \<Rightarrow> kernel \<Rightarrow> bool" where
  "resumed k k' \<longleftrightarrow>
     (\<forall>t. if pending k t then state_list k' t = Some (Ready (uxPriority (tcbs k t))) \<and>
            event_list k' t = None
          else waits_less (unat (xPendedTicks k)) k k' t)"

lemma prvReset_klists [simp]: "klists (prvResetNextTaskUnblockTime k) = klists k"
  by (simp add: prvResetNextTaskUnblockTime_def)

lemma xTaskResumeAll_ok:
  assumes inv: "kinv True L T {} k A" and r: "rest T idle k" and cur: "pxCurrentTCB k = Some c"
    and lock: "uxSchedulerSuspended k = 1"
  shows "\<exists>sw k' A'. xTaskResumeAll k = Some (sw, k') \<and> kinv True L T {} k' A' \<and> rest T idle k' \<and>
    resumed k k' \<and> tcbs k' = tcbs k \<and> pxCurrentTCB k' = pxCurrentTCB k \<and>
    uxSchedulerSuspended k' = 0 \<and> xPendedTicks k' = 0 \<and> (pendsv k \<longrightarrow> pendsv k') \<and>
    (xYieldPending k' \<longrightarrow> pendsv k') \<and> (sw \<longrightarrow> pendsv k') \<and>
    xTickCount k' = xTickCount k + xPendedTicks k \<and> (\<forall>t. \<not> pending k' t) \<and> (cur_top k \<longrightarrow> cur_top k')"
proof -
  define k1 where "k1 = k\<lparr>uxSchedulerSuspended := 0\<rparr>"
  have inv1: "kinv True L T {} k1 A" using inv by (simp add: kinv_def k1_def)
  have s1: "state_list k1 = state_list k" "event_list k1 = event_list k" "ready k1 = ready k"
    "wait_left k1 = wait_left k" "pending k1 = pending k"
    by (simp_all add: k1_def state_list_def event_list_def ready_def wait_left_def pending_def fun_eq_iff)
  have r1: "rest T idle k1" using r by (simp add: rest_def s1) (simp add: k1_def)
  have cur1: "pxCurrentTCB k1 = Some c" using cur by (simp add: k1_def)
  from move_pending_ready_ok [OF inv1 r1 cur1, of False] obtain any k2 A2 where k2:
    "move_pending_ready False k1 = Some (any, k2)" "kinv True L T {} k2 A2" "rest T idle k2"
    "lists_yield k1 k2" "itemval (klists k2) = itemval (klists k1)"
    "\<And>t. state_list k2 t = (if pending k1 t then Some (Ready (uxPriority (tcbs k1 t))) else state_list k1 t)"
    "\<And>t. event_list k2 t = (if pending k1 t then None else event_list k1 t)"
    "xYieldPending k2 \<longleftrightarrow> xYieldPending k1 \<or>
       (\<exists>t. pending k1 t \<and> uxPriority (tcbs k1 t) > uxPriority (tcbs k1 c))"
    by (elim exE conjE) blast
  note f2 = lists_yieldD [OF k2(4)]
  define k3 where "k3 = (if any then prvResetNextTaskUnblockTime k2 else k2)"
  have k3: "kinv True L T {} k3 A2" using reset_next' [OF k2(2)] k2(2) by (simp add: k3_def)
  have lo: "lists_only k2 k3" "klists k3 = klists k2" by (simp_all add: k3_def)
  note f3 = lists_onlyD [OF lo(1)] and s3 = lists_yield_lists [OF lo]
  have r3: "rest T idle k3" using k2(3) f3 by (simp add: rest_def s3)
  have cur3: "pxCurrentTCB k3 = Some c" "uxSchedulerSuspended k3 = 0"
    using f2 f3 cur1 by (simp_all add: k1_def)
  from catch_up_ticks_ok [OF k3 r3 cur3, of "unat (xPendedTicks k3)"] obtain k4 A4 where k4:
    "catch_up_ticks (unat (xPendedTicks k3)) k3 = Some k4" "kinv True L T {} k4 A4" "rest T idle k4"
    "elapsed (unat (xPendedTicks k3)) k3 k4" "tcbs k4 = tcbs k3" "pxCurrentTCB k4 = pxCurrentTCB k3"
    "uxSchedulerSuspended k4 = 0" "xPendedTicks k4 = xPendedTicks k3" "pendsv k4 = pendsv k3"
    "xTickCount k4 = xTickCount k3 + of_nat (unat (xPendedTicks k3))" "cur_top k3 \<longrightarrow> cur_top k4"
    by (elim exE conjE) blast
  define k5 where "k5 = k4\<lparr>xPendedTicks := 0\<rparr>"
  define k6 where "k6 = (if xYieldPending k5 then vPortYield k5 else k5)"
  have s6: "state_list k6 = state_list k4" "event_list k6 = event_list k4" "ready k6 = ready k4"
    "wait_left k6 = wait_left k4"
    by (simp_all add: k5_def k6_def vPortYield_def state_list_def event_list_def ready_def wait_left_def fun_eq_iff)
  have f6: "tcbs k6 = tcbs k4" "pxCurrentTCB k6 = pxCurrentTCB k4" "uxSchedulerSuspended k6 = uxSchedulerSuspended k4"
    "xPendedTicks k6 = 0" "xTickCount k6 = xTickCount k4" "pendsv k6 \<longleftrightarrow> pendsv k4 \<or> xYieldPending k4"
    "xYieldPending k6 = xYieldPending k4"
    by (simp_all add: k5_def k6_def vPortYield_def)
  have "kinv True L T {} k6 A4" using k4(2) by (simp add: kinv_def k5_def k6_def vPortYield_def)
  moreover have "rest T idle k6"
    using k4(3) by (simp add: rest_def s6) (simp add: k5_def k6_def vPortYield_def)
  moreover have "xTaskResumeAll k = Some (xYieldPending k5, k6)"
  proof -
    have n: "uxCurrentNumberOfTasks k > 0" using rest_tasks [OF r inv] .
    have "k4 = k3" if "xPendedTicks k3 = 0" using k4(1) that by simp
    then have p: "(if xPendedTicks k3 > 0
                then do { k' \<leftarrow> catch_up_ticks (unat (xPendedTicks k3)) k3; Some (k'\<lparr>xPendedTicks := 0\<rparr>) }
                else Some k3) = Some k5"
      using k4(1) by (auto simp: k5_def word_neq_0_conv [symmetric])
    have "xTaskResumeAll k = Option.bind (move_pending_ready False k1) (\<lambda>(any, k2).
      Option.bind (Some (if any then prvResetNextTaskUnblockTime k2 else k2)) (\<lambda>k3.
      Option.bind (if xPendedTicks k3 > 0
                then do { k' \<leftarrow> catch_up_ticks (unat (xPendedTicks k3)) k3; Some (k'\<lparr>xPendedTicks := 0\<rparr>) }
                else Some k3) (\<lambda>k4.
      Some (if xYieldPending k4 then (True, vPortYield k4) else (False, k4)))))"
      using lock n by (simp add: xTaskResumeAll_def k1_def Let_def)
    then show ?thesis
      unfolding k2(1) Option.bind.bind_lunit split_conv k3_def [symmetric] p by (simp add: k6_def)
  qed
  moreover have "resumed k k6"
    unfolding resumed_def
  proof
    fix t
    have w3: "wait_left k3 t = (if pending k t then None else wait_left k t)"
    proof -
      have "wait_left k2 t = None" if "pending k1 t"
        using that wait_left_None [OF k2(2), of t] k2(6) by simp
      moreover have "wait_left k2 t = wait_left k1 t" if "\<not> pending k1 t"
        using that f2 k2(5,6) by (simp add: wait_left_def)
      ultimately show ?thesis by (simp add: s3 s1)
    qed
    have pt: "xPendedTicks k3 = xPendedTicks k" "tcbs k3 = tcbs k" using f2 f3 by (simp_all add: k1_def)
    have w: "waits_less (unat (xPendedTicks k)) k3 k6 t"
      using k4(4) by (simp add: elapsed_def waits_less_def s6 pt)
    show "if pending k t then state_list k6 t = Some (Ready (uxPriority (tcbs k t))) \<and> event_list k6 t = None
      else waits_less (unat (xPendedTicks k)) k k6 t"
    proof (cases "pending k t")
      case True
      then show ?thesis using waits_lessD(1,2) [OF w] w3 k2(6,7) [of t] s1(5) f2 f3
        by (simp add: s3 k1_def)
    next
      case False
      then show ?thesis using w w3 k2(6,7) [of t] pt(2) by (simp add: waits_less_def s3 s1)
    qed
  qed
  moreover have "\<not> pending k6 t" for t
  proof
    assume "pending k6 t"
    then have p4: "event_list k4 t = Some PendingReady" by (simp add: pending_def s6)
    have "event_list k4 t = event_list k3 t \<or> event_list k4 t = None"
      by (rule waits_less_event [OF elapsed_def [THEN iffD1, THEN spec, OF k4(4)]])
    then have "event_list k2 t = Some PendingReady" using p4 s3 by simp
    then show False using k2(7) [of t] by (auto simp: pending_def split: if_splits)
  qed
  moreover have "cur_top k6" if "cur_top k"
  proof -
    have "cur_top k3"
    proof (cases "xYieldPending k3 \<or> pendsv k3")
      case False
      then have y: "\<not> xYieldPending k2" "\<not> pendsv k" "\<not> xYieldPending k"
        using f2 f3 k2(8) by (simp_all add: k1_def)
      have "uxPriority (tcbs k t) \<le> uxPriority (tcbs k c)" if t: "ready k2 t" for t
      proof (cases "pending k t")
        case True
        then show ?thesis using y(1) k2(8) s1(5) by (auto simp: k1_def not_less [symmetric])
      next
        case False
        then have "ready k t" using t k2(6) [of t] by (simp add: ready_def s1)
        then show ?thesis using \<open>cur_top k\<close> y cur by (simp add: cur_top_def)
      qed
      then show ?thesis using cur3 f2 f3 by (auto simp: cur_top_def s3 k1_def)
    qed (auto simp: cur_top_def)
    then have "cur_top k4" using k4(11) by simp
    then show ?thesis using f6 by (auto simp: cur_top_def s6)
  qed
  ultimately show ?thesis
    using f6 f2 f3 k4(5-10) k1_def
    by (intro exI [of _ "xYieldPending k5"] exI [of _ k6] exI [of _ A4]) (auto simp: k5_def)
qed

end
