(* ===== verification/RTOS_Block.thy ===== *)
theory RTOS_Block
  imports RTOS_Resume
begin

text \<open>
  Blocking and choosing: a task that blocks waits exactly the ticks it asked for, and the
  context switch picks a ready task of the highest priority.
\<close>

section \<open>Task control blocks\<close>

lemma set_tcb_fields [simp]:
  "klists (set_tcb k t f) = klists k" "pxCurrentTCB (set_tcb k t f) = pxCurrentTCB k"
  "pxDelayedTaskList (set_tcb k t f) = pxDelayedTaskList k"
  "pxOverflowDelayedTaskList (set_tcb k t f) = pxOverflowDelayedTaskList k"
  "uxDeletedTasksWaitingCleanUp (set_tcb k t f) = uxDeletedTasksWaitingCleanUp k"
  "uxCurrentNumberOfTasks (set_tcb k t f) = uxCurrentNumberOfTasks k"
  "xTickCount (set_tcb k t f) = xTickCount k" "uxTopReadyPriority (set_tcb k t f) = uxTopReadyPriority k"
  "xSchedulerRunning (set_tcb k t f) = xSchedulerRunning k" "xPendedTicks (set_tcb k t f) = xPendedTicks k"
  "xYieldPending (set_tcb k t f) = xYieldPending k"
  "xNextTaskUnblockTime (set_tcb k t f) = xNextTaskUnblockTime k"
  "uxSchedulerSuspended (set_tcb k t f) = uxSchedulerSuspended k"
  "xNumOfOverflows (set_tcb k t f) = xNumOfOverflows k" "pendsv (set_tcb k t f) = pendsv k"
  "tcbs (set_tcb k t f) = (tcbs k)(t := f (tcbs k t))"
  by (simp_all add: set_tcb_def)

lemma set_tcb_lists [simp]:
  "state_list (set_tcb k t f) = state_list k" "event_list (set_tcb k t f) = event_list k"
  "ready (set_tcb k t f) = ready k" "wait_left (set_tcb k t f) = wait_left k"
  "pending (set_tcb k t f) = pending k"
  by (simp_all add: state_list_def event_list_def ready_def wait_left_def pending_def fun_eq_iff)

lemma kinv_set_tcb:
  assumes "\<And>b. uxPriority (f b) = uxPriority b"
  shows "kinv b L T X (set_tcb k t f) A \<longleftrightarrow> kinv b L T X k A"
proof -
  have "(\<lambda>u. uxPriority (if u = t then f (tcbs k t) else tcbs k u)) = (\<lambda>u. uxPriority (tcbs k u))"
    using assms by auto
  then show ?thesis by (simp add: kinv_def)
qed

section \<open>Blocking\<close>

lemma wake_time:
  fixes now n :: u32
  shows "\<not> now + n < now \<Longrightarrow> unat (now + n) = unat now + unat n"
    and "now + n < now \<Longrightarrow> 2 ^ 32 + unat (now + n) = unat now + unat n"
proof -
  have m: "unat (now + n) = (unat now + unat n) mod 2 ^ 32" by (simp add: unat_word_ariths)
  note b = u32_bound [of now] u32_bound [of n]
  consider "unat now + unat n < 2 ^ 32" | "2 ^ 32 \<le> unat now + unat n" by linarith
  then have "(\<not> now + n < now \<longrightarrow> unat (now + n) = unat now + unat n) \<and>
             (now + n < now \<longrightarrow> 2 ^ 32 + unat (now + n) = unat now + unat n)"
  proof cases
    case 2
    then have "unat (now + n) = unat now + unat n - 2 ^ 32"
      using b unfolding m by (simp add: mod_if)
    then show ?thesis using 2 b by (simp add: word_less_nat_alt)
  qed (simp add: m word_less_nat_alt)
  then show "\<not> now + n < now \<Longrightarrow> unat (now + n) = unat now + unat n"
    and "now + n < now \<Longrightarrow> 2 ^ 32 + unat (now + n) = unat now + unat n" by simp_all
qed

lemma list_insert_next:
  "list_insert (k\<lparr>xNextTaskUnblockTime := n\<rparr>) l i = Some (k\<lparr>klists := s, xNextTaskUnblockTime := n\<rparr>) \<longleftrightarrow>
     list_insert k l i = Some (k\<lparr>klists := s\<rparr>)"
  by (cases k) (auto simp: list_insert_def bind_eq_Some_conv)

definition not_aborted :: "kernel \<Rightarrow> nat \<Rightarrow> kernel" where
  "not_aborted k c = set_tcb k c (\<lambda>b. b\<lparr>ucDelayAborted := False\<rparr>)"

lemma block_current:
  assumes inv: "kinv True L T {} k A" and cur: "pxCurrentTCB k = Some c" and cT: "c \<in> T" and n: "n > 0"
  shows "\<exists>k' A'. prvAddCurrentTaskToDelayedList k n indef = Some k' \<and> kinv True L T {} k' A' \<and>
    lists_only (not_aborted k c) k' \<and>
    (\<forall>u. u \<noteq> c \<longrightarrow> state_list k' u = state_list k u \<and> wait_left k' u = wait_left k u) \<and>
    event_list k' = event_list k \<and> \<not> ready k' c \<and> state_list k' c \<noteq> Some WaitingTermination \<and>
    wait_left k' c = (if n = portMAX_DELAY \<and> indef then None else Some (unat n)) \<and>
    (n = portMAX_DELAY \<and> indef \<longrightarrow> state_list k' c = Some SuspendedList)"
proof -
  define k1 where "k1 = not_aborted k c"
  have inv1: "kinv True L T {} k1 A" using inv by (simp add: k1_def not_aborted_def kinv_set_tcb)
  have l1: "state_list k1 = state_list k" "event_list k1 = event_list k" "wait_left k1 = wait_left k"
    by (simp_all add: k1_def not_aborted_def)
  have "state_list k1 c \<noteq> None" using kinv_loose [OF inv1 cT] by simp
  then obtain l where l: "state_list k1 c = Some l" by blast
  obtain s2 where s2: "listREMOVE_ITEM k1 (StateItem c) = Some (k1\<lparr>klists := s2\<rparr>)"
    "kinv True L T {c} (k1\<lparr>klists := s2\<rparr>) (A(l := seq_remove (A l) (StateItem c)))"
    "pxContainer s2 = (pxContainer (klists k1))(StateItem c := None)" "xItemValue s2 = xItemValue (klists k1)"
    using remove_state [OF inv1 l] by blast
  define k2 where "k2 = k1\<lparr>klists := s2\<rparr>"
  define A2 where "A2 = A(l := seq_remove (A l) (StateItem c))"
  have inv2: "kinv True L T {c} k2 A2" using s2(2) by (simp add: k2_def A2_def)
  have free: "state_list k2 c = None" using s2(3) by (simp add: k2_def state_list_def)
  have st2: "state_list k2 u = (if u = c then None else state_list k u)" and ev2: "event_list k2 = event_list k" for u
    using s2(3) l1 by (auto simp: k2_def state_list_def event_list_def fun_eq_iff k1_def not_aborted_def)
  have lo2: "lists_only k1 k2" by (simp add: k2_def)
  have f2: "xTickCount k2 = xTickCount k" "pxDelayedTaskList k2 = pxDelayedTaskList k"
    "pxOverflowDelayedTaskList k2 = pxOverflowDelayedTaskList k" "itemval (klists k2) = itemval (klists k)"
    using s2(4) by (simp_all add: k2_def k1_def not_aborted_def itemval_def fun_eq_iff)
  note dl = kinv_delayed_core [OF inv]
  have eq: "prvAddCurrentTaskToDelayedList k n indef =
    (if n = portMAX_DELAY \<and> indef then Some (list_insert_end k2 SuspendedList (StateItem c))
     else do {
       let xTimeToWake = xTickCount k2 + n;
       let k3 = k2\<lparr>klists := listSET_LIST_ITEM_VALUE (klists k2) (StateItem c) xTimeToWake\<rparr>;
       if xTimeToWake < xTickCount k3 then list_insert k3 (pxOverflowDelayedTaskList k3) (StateItem c)
       else do {
         k4 \<leftarrow> list_insert k3 (pxDelayedTaskList k3) (StateItem c);
         Some (if xTimeToWake < xNextTaskUnblockTime k4
               then k4\<lparr>xNextTaskUnblockTime := xTimeToWake\<rparr> else k4)
       }
     })"
    using s2(1) cur by (simp add: prvAddCurrentTaskToDelayedList_def k1_def not_aborted_def k2_def)
  show ?thesis
  proof (cases "n = portMAX_DELAY \<and> indef")
    case True
    define k' where "k' = list_insert_end k2 SuspendedList (StateItem c)"
    have "SuspendedList \<in> {Ready (uxPriority (tcbs k2 c)), WaitingTermination, SuspendedList}" by simp
    note ins = insert_end_state [OF inv2 cT free this, simplified, folded k'_def]
    have st: "state_list k' u = (if u = c then Some SuspendedList else state_list k u)" for u
      using ins(2) st2 by (simp add: state_list_def)
    have ev: "event_list k' = event_list k" using ins(2) ev2 by (simp add: event_list_def fun_eq_iff)
    have lo: "lists_only k1 k'"
      using lists_only_trans [OF lo2, of k'] by (simp add: k'_def list_insert_end_def)
    have "itemval (klists k') = itemval (klists k)"
      using f2(4) ins(3) by (simp add: itemval_def fun_eq_iff)
    then have "wait_left k' u = (if u = c then None else wait_left k u)" for u
      using f2 st dl by (auto simp: wait_left_def k'_def)
    then show ?thesis
      using True eq ins(1) lo st ev
      by (intro exI [of _ k'] exI) (auto simp: k'_def k1_def ready_def)
  next
    case False
    define v where "v = xTickCount k + n"
    define k3 where "k3 = k2\<lparr>klists := listSET_LIST_ITEM_VALUE (klists k2) (StateItem c) v\<rparr>"
    have inv3: "kinv True L T {c} k3 A2" unfolding k3_def by (rule loose_value [OF inv2 free])
    have st3: "state_list k3 = state_list k2" "event_list k3 = event_list k2"
      by (simp_all add: k3_def state_list_def event_list_def listSET_LIST_ITEM_VALUE_def fun_eq_iff)
    have iv3: "itemval (klists k3) = (itemval (klists k))(StateItem c := v)"
      using f2(4) by (auto simp: k3_def itemval_def listSET_LIST_ITEM_VALUE_def fun_eq_iff)
    have f3: "xTickCount k3 = xTickCount k" "pxDelayedTaskList k3 = pxDelayedTaskList k"
      "pxOverflowDelayedTaskList k3 = pxOverflowDelayedTaskList k"
      using f2 by (simp_all add: k3_def)
    have lo3: "lists_only k1 k3" using lists_only_trans [OF lo2, of k3] by (simp add: k3_def)
    have free3: "state_list k3 c = None" using free st3 by simp
    define ov where "ov \<longleftrightarrow> v < xTickCount k"
    define l' where "l' = (if ov then pxOverflowDelayedTaskList k else pxDelayedTaskList k)"
    define nx where "nx = (if \<not> ov \<and> v < xNextTaskUnblockTime k3 then v else xNextTaskUnblockTime k3)"
    define k4 where "k4 = k3\<lparr>xNextTaskUnblockTime := nx\<rparr>"
    have "xNextTaskUnblockTime k3 \<le> itemval (klists k3) i"
      if "i \<in> set (fst (A2 (pxDelayedTaskList k3)))" for i
      using kinv_delays [OF inv3] that by (auto simp: delays_ok_def)
    then have inv4: "kinv True L T {c} k4 A2"
      unfolding k4_def nx_def by (intro kinv_next [OF inv3]) (auto intro: order.trans less_imp_le)
    have st4: "state_list k4 = state_list k3" "event_list k4 = event_list k3" "itemval (klists k4) = itemval (klists k3)"
      by (simp_all add: k4_def state_list_def event_list_def fun_eq_iff)
    have gt: "xTickCount k < v" if "\<not> ov"
      using wake_time(1) [of "xTickCount k" n] that n by (simp add: ov_def v_def word_less_nat_alt)
    have vv: "v = itemval (klists k4) (StateItem c)" by (simp add: st4 iv3)
    have pl: "(l' = pxDelayedTaskList k4 \<and> xTickCount k4 < v \<and> xNextTaskUnblockTime k4 \<le> v) \<or>
        (l' = pxOverflowDelayedTaskList k4 \<and> v < xTickCount k4)"
      using gt f3 by (cases ov) (auto simp: l'_def k4_def nx_def ov_def)
    have free4: "state_list k4 c = None" using free3 st4 by simp
    obtain s where s: "list_insert k4 l' (StateItem c) = Some (k4\<lparr>klists := s\<rparr>)"
      "kinv True L T ({c} - {c}) (k4\<lparr>klists := s\<rparr>)
        (A2(l' := seq_insert (itemval (klists k4)) (A2 l') (StateItem c)))"
      "pxContainer s = (pxContainer (klists k4))(StateItem c := Some l')"
      "xItemValue s = xItemValue (klists k4)"
      using insert_state [OF inv4 cT free4 vv pl] by blast
    define k' where "k' = k4\<lparr>klists := s\<rparr>"
    have "state_list k' u = (if u = c then Some l' else state_list k4 u)" for u
      using s(3) by (simp add: state_list_def k'_def)
    then have st: "state_list k' u = (if u = c then Some l' else state_list k u)" for u
      using st2 st3 st4 by simp
    have "event_list k' = event_list k4" using s(3) by (simp add: event_list_def k'_def fun_eq_iff)
    then have ev: "event_list k' = event_list k" using ev2 st3 st4 by simp
    have iv: "itemval (klists k') = (itemval (klists k))(StateItem c := v)"
      using s(4) st4 iv3 by (simp add: itemval_def k'_def fun_eq_iff)
    have fk: "xTickCount k' = xTickCount k" "pxDelayedTaskList k' = pxDelayedTaskList k"
      "pxOverflowDelayedTaskList k' = pxOverflowDelayedTaskList k"
      using f3 by (simp_all add: k'_def k4_def)
    have lo: "lists_only k1 k'"
      using lists_only_trans [OF lo3, of k'] by (simp add: k'_def k4_def lists_only_iff)
    have wl: "wait_left k' u = (if u = c then Some (unat n) else wait_left k u)" for u
      using st iv fk dl wake_time [of "xTickCount k" n]
      by (auto simp: wait_left_def l'_def ov_def v_def)
    have ins: "list_insert k3 l' (StateItem c) = Some (k3\<lparr>klists := s\<rparr>)"
      using s(1) list_insert_next [of nx k3 l' "StateItem c" s] by (simp add: k4_def)
    have "prvAddCurrentTaskToDelayedList k n indef = Some k'"
      using False ins f2 f3
      by (auto simp: eq v_def [symmetric] k3_def [symmetric] ov_def [symmetric] Let_def l'_def
                     nx_def k'_def k4_def split: if_splits)
    then show ?thesis
      using s(2) lo st ev wl False dl
      by (intro exI [of _ k'] exI) (auto simp: k'_def [symmetric] k1_def ready_def l'_def)
  qed
qed

section \<open>The context switch\<close>

lemma top_ready_ok:
  assumes "\<And>q. q \<le> n \<Longrightarrow> listLIST_IS_EMPTY s (Ready q) \<longleftrightarrow> em q" and "\<not> em 0"
  shows "\<exists>p\<le>n. top_ready s n = Some p \<and> \<not> em p \<and> (\<forall>q. p < q \<and> q \<le> n \<longrightarrow> em q)"
  using assms
proof (induction n)
  case (Suc n)
  show ?case
  proof (cases "em (Suc n)")
    case True
    obtain p where "p \<le> n" "top_ready s n = Some p" "\<not> em p" "\<forall>q. p < q \<and> q \<le> n \<longrightarrow> em q"
      using Suc.IH Suc.prems by auto
    then show ?thesis using True Suc.prems(1) by (intro exI [of _ p]) (auto simp: le_Suc_eq)
  qed (use Suc.prems in auto)
qed auto

lemma store_ok_turn:
  assumes ok: "store_ok L T X pr s A" and ls: "lists_ok L s' (A(Ready p := B))"
    and same: "pvOwner s' = pvOwner s" "pxContainer s' = pxContainer s"
  shows "store_ok L T X pr s' (A(Ready p := B))"
  using ok ls unfolding store_ok_def same by auto

definition top_task :: "kernel \<Rightarrow> nat \<Rightarrow> bool" where
  "top_task k t \<longleftrightarrow> ready k t \<and> (\<forall>u. ready k u \<longrightarrow> uxPriority (tcbs k u) \<le> uxPriority (tcbs k t))"

lemma vTaskSwitchContext_ok:
  assumes inv: "kinv True L T {} k A" and r: "rest T idle k" and run: "uxSchedulerSuspended k = 0"
  shows "\<exists>k' t. vTaskSwitchContext k = Some k' \<and>
    kinv True L T {} k' (A(Ready (uxPriority (tcbs k t)) := seq_next (A (Ready (uxPriority (tcbs k t)))))) \<and>
    rest T idle k' \<and> StateItem t = hd (turns (A (Ready (uxPriority (tcbs k t))))) \<and> top_task k t \<and>
    state_list k' = state_list k \<and> event_list k' = event_list k \<and> wait_left k' = wait_left k \<and>
    k' = k\<lparr>klists := klists k', pxCurrentTCB := Some t, uxTopReadyPriority := uxTopReadyPriority k',
           xYieldPending := False\<rparr>"
proof -
  have ok: "store_ok L T {} (\<lambda>t. uxPriority (tcbs k t)) (klists k) A"
    and top: "top_ok A (uxTopReadyPriority k)"
    using inv by (simp_all add: kinv_def)
  define em where "em q \<longleftrightarrow> fst (A (Ready q)) = []" for q
  have e: "listLIST_IS_EMPTY (klists k) (Ready q) \<longleftrightarrow> em q" if "q \<le> uxTopReadyPriority k" for q
    unfolding em_def by (rule kinv_empty [OF inv]) (use that top in \<open>auto simp: top_ok_def core_lists_def\<close>)
  have ne0: "\<not> em 0"
    using kinv_state(4) [OF inv restD(3) [OF r]] by (auto simp: em_def)
  obtain p where p: "p \<le> uxTopReadyPriority k" "top_ready (klists k) (uxTopReadyPriority k) = Some p"
    "\<not> em p" "\<And>q. p < q \<Longrightarrow> q \<le> uxTopReadyPriority k \<Longrightarrow> em q"
    using top_ready_ok [of "uxTopReadyPriority k" "klists k" em, OF e ne0] by blast
  have hi: "q \<le> p" if "\<not> em q" for q
    using p(4) [of q] that top by (auto simp: top_ok_def em_def not_less [symmetric])
  have p56: "p < configMAX_PRIORITIES" using p(1) top by (simp add: top_ok_def)
  have lL: "Ready p \<in> L" using core_in(6) [OF ok p56] .
  have ne: "fst (A (Ready p)) \<noteq> []" using p(3) by (simp add: em_def)
  have h: "distinct (fst (A (Ready p)))" "set_option (snd (A (Ready p))) \<subseteq> set (fst (A (Ready p)))"
    using lists_okD(1) [OF store_okD(1) [OF ok] lL] by (simp_all add: holds_def)
  have "set (turns (A (Ready p))) = set (fst (A (Ready p)))"
    using set_turns [OF h] by simp
  then have "hd (turns (A (Ready p))) \<in> set (fst (A (Ready p)))"
    using ne by (metis hd_in_set set_empty)
  then obtain t where t: "hd (turns (A (Ready p))) = StateItem t" "t \<in> T" "state_list k t = Some (Ready p)"
    "pvOwner (klists k) (hd (turns (A (Ready p)))) = Some t"
    by (rule kinv_item [OF inv]) auto
  have pt: "uxPriority (tcbs k t) = p"
    using kinv_state(2) [OF inv t(3)] by (auto simp: state_places_def)
  obtain s where s: "listGET_OWNER_OF_NEXT_ENTRY (klists k) (Ready p) = Some (t, s)"
    "lists_ok L s (A(Ready p := seq_next (A (Ready p))))" "xItemValue s = xItemValue (klists k)"
    "pvOwner s = pvOwner (klists k)" "pxContainer s = pxContainer (klists k)"
    by (rule listGET_OWNER_OF_NEXT_ENTRY_ok [OF store_okD(1) [OF ok] lL ne t(4)])
  define k' where "k' = k\<lparr>klists := s, pxCurrentTCB := Some t, uxTopReadyPriority := p, xYieldPending := False\<rparr>"
  define A' where "A' = A(Ready p := seq_next (A (Ready p)))"
  have 1: "vTaskSwitchContext k = Some k'"
    using run p(2) s(1) by (simp add: vTaskSwitchContext_def taskSELECT_HIGHEST_PRIORITY_TASK_def k'_def)
  have fst': "fst (A' l) = fst (A l)" for l by (simp add: A'_def seq_next_def)
  have iv: "itemval s = itemval (klists k)" using s(3) by (simp add: itemval_def fun_eq_iff)
  have "store_ok L T {} (\<lambda>t. uxPriority (tcbs k t)) s A'"
    unfolding A'_def by (rule store_ok_turn [OF ok s(2,4,5)])
  moreover have "top_ok A' p" using hi p56 by (auto simp: top_ok_def fst' em_def)
  moreover have "delays_ok True (itemval s) A' (pxDelayedTaskList k) (pxOverflowDelayedTaskList k)
      (xTickCount k) (xNextTaskUnblockTime k)"
    using kinv_delays [OF inv] by (simp add: delays_ok_def fst' iv)
  ultimately have 2: "kinv True L T {} k' A'" by (simp add: kinv_def k'_def)
  have st: "state_list k' = state_list k" "event_list k' = event_list k" "wait_left k' = wait_left k" "ready k' = ready k"
    using s(5) iv by (simp_all add: state_list_def event_list_def wait_left_def ready_def k'_def fun_eq_iff)
  have 3: "rest T idle k'" using r t(2) by (simp add: rest_def st) (simp add: k'_def)
  have "uxPriority (tcbs k u) \<le> p" if "ready k u" for u
  proof (rule hi)
    have "state_list k u = Some (Ready (uxPriority (tcbs k u)))" using that ready_iff [OF inv] by simp
    then show "\<not> em (uxPriority (tcbs k u))" using kinv_state(4) [OF inv] by (force simp: em_def)
  qed
  then have 4: "top_task k t" using t(3) pt by (auto simp: top_task_def ready_def)
  show ?thesis
    using 1 2 3 4 st t(1) pt
    by (intro exI [of _ k'] exI [of _ t]) (simp add: A'_def k'_def)
qed

end
