(* ===== verification/RTOS_Ops.thy ===== *)
theory RTOS_Ops
  imports RTOS_Block
begin

text \<open>
  What the tasks and interrupts do to the scheduler, operation by operation: each one returns, keeps
  the scheduler sound, and leaves the waiting of all tasks alone but the ones it is about.
\<close>

section \<open>Soundness\<close>

text \<open>
  On top of the invariant: without the lock nothing is left over from it, and the running task is
  ready and no ready task outranks it unless a context switch is about to come.
\<close>

definition sched_ok :: "klist set \<Rightarrow> nat set \<Rightarrow> nat \<Rightarrow> kernel \<Rightarrow> bool" where
  "sched_ok L T idle k \<longleftrightarrow> (\<exists>A. kinv True L T {} k A) \<and> rest T idle k \<and> cur_top k \<and>
     (uxSchedulerSuspended k = 0 \<longrightarrow>
        xPendedTicks k = 0 \<and> (\<forall>t. \<not> pending k t) \<and> (xYieldPending k \<longrightarrow> pendsv k)) \<and>
     (uxSchedulerSuspended k \<noteq> 0 \<or> \<not> pendsv k \<longrightarrow> (\<exists>c. pxCurrentTCB k = Some c \<and> ready k c))"

lemma sched_okD:
  assumes "sched_ok L T idle k"
  shows "\<exists>A. kinv True L T {} k A" "rest T idle k" "cur_top k"
    "uxSchedulerSuspended k = 0 \<Longrightarrow> xPendedTicks k = 0"
    "uxSchedulerSuspended k = 0 \<Longrightarrow> \<not> pending k t"
    "uxSchedulerSuspended k = 0 \<Longrightarrow> xYieldPending k \<Longrightarrow> pendsv k"
    "pxCurrentTCB k = Some c \<Longrightarrow> uxSchedulerSuspended k \<noteq> 0 \<or> \<not> pendsv k \<Longrightarrow> ready k c"
  using assms by (auto simp: sched_ok_def)

lemma sched_okI:
  assumes "kinv True L T {} k A" "rest T idle k" "cur_top k" "pxCurrentTCB k = Some c"
    and "uxSchedulerSuspended k = 0 \<Longrightarrow> xPendedTicks k = 0"
    and "\<And>t. uxSchedulerSuspended k = 0 \<Longrightarrow> \<not> pending k t"
    and "uxSchedulerSuspended k = 0 \<Longrightarrow> xYieldPending k \<Longrightarrow> pendsv k"
    and "uxSchedulerSuspended k \<noteq> 0 \<or> \<not> pendsv k \<Longrightarrow> ready k c"
  shows "sched_ok L T idle k"
  unfolding sched_ok_def using assms by blast

text \<open>Fields that the lists and the invariant do not depend on.\<close>

lemma flag_lists [simp]:
  "state_list (k\<lparr>pendsv := p\<rparr>) = state_list k" "event_list (k\<lparr>pendsv := p\<rparr>) = event_list k"
  "ready (k\<lparr>pendsv := p\<rparr>) = ready k" "wait_left (k\<lparr>pendsv := p\<rparr>) = wait_left k"
  "pending (k\<lparr>pendsv := p\<rparr>) = pending k"
  "state_list (k\<lparr>uxSchedulerSuspended := n\<rparr>) = state_list k"
  "event_list (k\<lparr>uxSchedulerSuspended := n\<rparr>) = event_list k"
  "ready (k\<lparr>uxSchedulerSuspended := n\<rparr>) = ready k" "wait_left (k\<lparr>uxSchedulerSuspended := n\<rparr>) = wait_left k"
  "pending (k\<lparr>uxSchedulerSuspended := n\<rparr>) = pending k"
  "state_list (k\<lparr>xPendedTicks := n\<rparr>) = state_list k" "event_list (k\<lparr>xPendedTicks := n\<rparr>) = event_list k"
  "ready (k\<lparr>xPendedTicks := n\<rparr>) = ready k" "wait_left (k\<lparr>xPendedTicks := n\<rparr>) = wait_left k"
  "pending (k\<lparr>xPendedTicks := n\<rparr>) = pending k" "pending (k\<lparr>xYieldPending := y\<rparr>) = pending k"
  by (simp_all add: state_list_def event_list_def ready_def wait_left_def pending_def fun_eq_iff)

lemma flag_kinv [simp]:
  "kinv b L T X (k\<lparr>pendsv := p\<rparr>) A = kinv b L T X k A"
  "kinv b L T X (k\<lparr>uxSchedulerSuspended := n\<rparr>) A = kinv b L T X k A"
  "kinv b L T X (k\<lparr>xPendedTicks := n\<rparr>) A = kinv b L T X k A"
  "kinv b L T X (k\<lparr>xYieldPending := y\<rparr>) A = kinv b L T X k A"
  by (simp_all add: kinv_def)

lemma flag_rest [simp]:
  "rest T idle (k\<lparr>pendsv := p\<rparr>) = rest T idle k"
  "rest T idle (k\<lparr>uxSchedulerSuspended := n\<rparr>) = rest T idle k"
  "rest T idle (k\<lparr>xPendedTicks := n\<rparr>) = rest T idle k"
  "rest T idle (k\<lparr>xYieldPending := y\<rparr>) = rest T idle k"
  by (simp_all add: rest_def)

lemma waits_less_refl: "kinv True L T X k A \<Longrightarrow> waits_less 0 k k t"
  using elapsed_0 by (auto simp: elapsed_def)

lemma waits_less_0:
  assumes "kinv True L T X k A"
  shows "waits_less 0 k k' t \<longleftrightarrow> wait_left k' t = wait_left k t \<and> event_list k' t = event_list k t \<and>
    (wait_left k t = None \<longrightarrow> state_list k' t = state_list k t)"
  using wait_left_pos [OF assms, of t] by (cases "wait_left k t") (auto simp: waits_less_def)

lemma waits_less_same:
  assumes "kinv True L T X k A" and "state_list k' t = state_list k t" "event_list k' t = event_list k t"
    "wait_left k' t = wait_left k t"
  shows "waits_less 0 k k' t"
  using assms(2-4) by (simp add: waits_less_0 [OF assms(1)])

text \<open>A step to a sound state that takes \<open>n\<close> ticks off the waiting of all tasks but those in \<open>D\<close>.\<close>

definition good_step :: "klist set \<Rightarrow> nat set \<Rightarrow> nat \<Rightarrow> nat \<Rightarrow> nat set \<Rightarrow> kernel \<Rightarrow> kernel \<Rightarrow> bool" where
  "good_step L T idle n D k k' \<longleftrightarrow> sched_ok L T idle k' \<and>
     (\<forall>d. d \<notin> D \<longrightarrow> waits_less n k k' d \<and> tcbs k' d = tcbs k d)"

lemma ready_wait: "kinv b L T X k A \<Longrightarrow> ready k t \<Longrightarrow> wait_left k t = None"
  using wait_left_None [of b L T X k A t] unfolding ready_def by auto

section \<open>Interrupts\<close>

lemma tick_step:
  assumes ok: "sched_ok L T idle k"
  shows "\<exists>k'. SysTick_Handler k = Some k' \<and>
    good_step L T idle (if uxSchedulerSuspended k = 0 then 1 else 0) {} k k' \<and>
    uxSchedulerSuspended k' = uxSchedulerSuspended k \<and>
    xPendedTicks k' = (if uxSchedulerSuspended k = 0 then 0 else xPendedTicks k + 1)"
proof -
  obtain A where inv: "kinv True L T {} k A" using ok by (auto simp: sched_ok_def)
  have r: "rest T idle k" and top: "cur_top k" using ok by (simp_all add: sched_ok_def)
  obtain c where c: "c \<in> T" "pxCurrentTCB k = Some c" using restD(7) [OF r] by auto
  show ?thesis
  proof (cases "uxSchedulerSuspended k = 0")
    case False
    define k' where "k' = k\<lparr>xPendedTicks := xPendedTicks k + 1\<rparr>"
    have "SysTick_Handler k = Some k'"
      using False by (simp add: SysTick_Handler_def xTaskIncrementTick_def k'_def)
    moreover have "sched_ok L T idle k'"
      using ok False by (auto simp: sched_ok_def k'_def cur_top_def)
    moreover have "waits_less 0 k k' d" for d by (rule waits_less_same [OF inv]) (simp_all add: k'_def)
    ultimately show ?thesis using False by (auto simp: good_step_def k'_def)
  next
    case True
    from xTaskIncrementTick_ok [OF inv r c(2) True] obtain sw k1 A1 where k1:
      "xTaskIncrementTick k = Some (sw, k1)" "kinv True L T {} k1 A1" "rest T idle k1" "ticked k k1"
      "xYieldPending k \<longrightarrow> sw"
      "\<And>t. wait_left k t = Some 1 \<Longrightarrow> uxPriority (tcbs k t) > uxPriority (tcbs k c) \<Longrightarrow> sw"
      by (elim exE conjE) blast
    note f = ticked_fields [OF k1(4)]
    define k' where "k' = (if sw then vPortYield k1 else k1)"
    have el: "elapsed 1 k k1"
      using elapsed_Suc [OF wait_left_pos [OF inv] k1(4) elapsed_0 [OF k1(2)]] by simp
    have "waits_less 1 k k' d" for d
      using el by (simp add: elapsed_def waits_less_def k'_def vPortYield_def)
    moreover have "SysTick_Handler k = Some k'" using k1(1) by (simp add: SysTick_Handler_def k'_def)
    moreover have "sched_ok L T idle k'"
    proof (rule sched_okI)
      have l': "pending k' = pending k1" "ready k' = ready k1" by (simp_all add: k'_def vPortYield_def)
      show "kinv True L T {} k' A1" "rest T idle k'" using k1(2,3) by (simp_all add: k'_def vPortYield_def)
      show "pxCurrentTCB k' = Some c" "xPendedTicks k' = 0"
        using f c ok True by (simp_all add: k'_def vPortYield_def sched_ok_def)
      show "\<not> pending k' t" for t
        using waits_less_event [OF elapsed_def [THEN iffD1, THEN spec, OF el], of t] sched_okD(5) [OF ok True, of t]
        by (auto simp: pending_def l')
      show "pendsv k'" if "xYieldPending k'"
        using that k1(5) f by (auto simp: k'_def vPortYield_def split: if_splits)
      show "ready k' c" if "uxSchedulerSuspended k' \<noteq> 0 \<or> \<not> pendsv k'"
      proof -
        have "\<not> pendsv k" using that f True by (auto simp: k'_def vPortYield_def split: if_splits)
        then have rc: "ready k c" by (intro sched_okD(7) [OF ok c(2)]) simp
        then have "wait_left k c = None" by (rule ready_wait [OF inv])
        then show ?thesis using tickedD(1) [OF k1(4), of c] rc unfolding l'(2) ready_def by simp
      qed
      show "cur_top k'"
      proof (cases "sw \<or> pendsv k")
        case False
        then have "uxPriority (tcbs k t) \<le> uxPriority (tcbs k c)" if "ready k1 t" for t
          using ticked_ready [OF k1(4) inv k1(2) that] top k1(5,6) c(2)
          by (auto simp: cur_top_def not_less [symmetric])
        then show ?thesis using False c f by (simp add: cur_top_def k'_def)
      qed (auto simp: cur_top_def k'_def vPortYield_def f)
    qed
    moreover have "tcbs k' = tcbs k" "uxSchedulerSuspended k' = 0" "xPendedTicks k' = 0"
      using f True sched_okD(4) [OF ok True] by (simp_all add: k'_def vPortYield_def)
    ultimately show ?thesis using True by (simp add: good_step_def)
  qed
qed

lemma switch_step:
  assumes ok: "sched_ok L T idle k"
  shows "\<exists>k'. PendSV_Handler k = Some k' \<and> good_step L T idle 0 {} k k' \<and>
    uxSchedulerSuspended k' = uxSchedulerSuspended k \<and> xPendedTicks k' = xPendedTicks k"
proof -
  obtain A where inv: "kinv True L T {} k A" using ok by (auto simp: sched_ok_def)
  define k1 where "k1 = k\<lparr>pendsv := False\<rparr>"
  show ?thesis
  proof (cases "uxSchedulerSuspended k = 0")
    case False
    define k' where "k' = k1\<lparr>xYieldPending := True\<rparr>"
    have "PendSV_Handler k = Some k'"
      using False by (simp add: PendSV_Handler_def vTaskSwitchContext_def k1_def k'_def)
    moreover have "sched_ok L T idle k'"
      using ok False by (auto simp: sched_ok_def k1_def k'_def cur_top_def)
    moreover have "waits_less 0 k k' d" for d
      by (rule waits_less_same [OF inv]) (simp_all add: k1_def k'_def)
    ultimately show ?thesis by (auto simp: good_step_def k1_def k'_def)
  next
    case True
    have inv1: "kinv True L T {} k1 A" and r1: "rest T idle k1" and run1: "uxSchedulerSuspended k1 = 0"
      using ok inv True by (simp_all add: k1_def sched_ok_def)
    from vTaskSwitchContext_ok [OF inv1 r1 run1] obtain k' t A' where k':
      "vTaskSwitchContext k1 = Some k'" "kinv True L T {} k' A'" "rest T idle k'" "top_task k1 t"
      "state_list k' = state_list k1" "event_list k' = event_list k1" "wait_left k' = wait_left k1"
      "k' = k1\<lparr>klists := klists k', pxCurrentTCB := Some t, uxTopReadyPriority := uxTopReadyPriority k',
           xYieldPending := False\<rparr>"
      by (elim exE conjE) blast
    have f: "tcbs k' = tcbs k1" "pxCurrentTCB k' = Some t" "xYieldPending k' = False" "pendsv k' = False"
      "uxSchedulerSuspended k' = 0" "xPendedTicks k' = xPendedTicks k1"
      by (subst k'(8), simp add: k1_def True)+
    have rd: "ready k' = ready k1" "pending k' = pending k1"
      using k'(5,6) by (simp_all add: ready_def pending_def fun_eq_iff)
    have "sched_ok L T idle k'"
      using k'(2-4) ok True unfolding sched_ok_def f rd
      by (auto simp: cur_top_def top_task_def f rd k1_def)
    moreover have "waits_less 0 k k' d" for d
      by (rule waits_less_same [OF inv]) (simp_all add: k'(5-7) k1_def)
    moreover have "PendSV_Handler k = Some k'" using k'(1) by (simp add: PendSV_Handler_def k1_def)
    ultimately show ?thesis using f True by (auto simp: good_step_def k1_def)
  qed
qed

lemma resumedD: "resumed k k' \<Longrightarrow> \<not> pending k t \<Longrightarrow> waits_less (unat (xPendedTicks k)) k k' t"
  unfolding resumed_def by metis

section \<open>The lock\<close>

lemma lock_step:
  assumes ok: "sched_ok L T idle k" and free: "uxSchedulerSuspended k + 1 \<noteq> 0" and np: "\<not> pendsv k"
  shows "good_step L T idle 0 {} k (vTaskSuspendAll k)"
proof -
  obtain A c where inv: "kinv True L T {} k A" and c: "pxCurrentTCB k = Some c"
    using ok restD(7) [of T idle k] by (auto simp: sched_ok_def)
  have "sched_ok L T idle (vTaskSuspendAll k)"
  proof (rule sched_okI)
    show "cur_top (vTaskSuspendAll k)" using sched_okD(3) [OF ok] by (simp add: cur_top_def vTaskSuspendAll_def)
    show "ready (vTaskSuspendAll k) c" using sched_okD(7) [OF ok c] np by (simp add: vTaskSuspendAll_def)
    show "kinv True L T {} (vTaskSuspendAll k) A" "rest T idle (vTaskSuspendAll k)"
      "pxCurrentTCB (vTaskSuspendAll k) = Some c"
      using inv c sched_okD(2) [OF ok] by (simp_all add: vTaskSuspendAll_def)
  qed (use free in \<open>simp_all add: vTaskSuspendAll_def\<close>)
  moreover have "waits_less 0 k (vTaskSuspendAll k) d" for d
    by (rule waits_less_same [OF inv]) (simp_all add: vTaskSuspendAll_def)
  ultimately show ?thesis by (simp add: good_step_def vTaskSuspendAll_def)
qed

lemma unlock_step:
  assumes ok: "sched_ok L T idle k" and lock: "uxSchedulerSuspended k \<noteq> 0"
  shows "\<exists>sw k'. xTaskResumeAll k = Some (sw, k') \<and>
    good_step L T idle (unat (xPendedTicks k) - unat (xPendedTicks k')) {t. pending k t} k k' \<and>
    uxSchedulerSuspended k' = uxSchedulerSuspended k - 1 \<and>
    xPendedTicks k' = (if uxSchedulerSuspended k = 1 then 0 else xPendedTicks k)"
proof -
  obtain A c where inv: "kinv True L T {} k A" and r: "rest T idle k" and c: "pxCurrentTCB k = Some c"
    using ok restD(7) [of T idle k] by (auto simp: sched_ok_def)
  have rc: "ready k c" using sched_okD(7) [OF ok c] lock by simp
  show ?thesis
  proof (cases "uxSchedulerSuspended k = 1")
    case False
    define k' where "k' = k\<lparr>uxSchedulerSuspended := uxSchedulerSuspended k - 1\<rparr>"
    have nz: "uxSchedulerSuspended k' \<noteq> 0" using False by (simp add: k'_def)
    have "xTaskResumeAll k = Some (False, k')"
      using lock nz by (simp add: xTaskResumeAll_def k'_def Let_def)
    moreover have "sched_ok L T idle k'"
      by (rule sched_okI [where c = c and A = A])
         (use inv r c rc nz sched_okD(3) [OF ok] in \<open>simp_all add: k'_def cur_top_def\<close>)
    moreover have "waits_less 0 k k' d" for d by (rule waits_less_same [OF inv]) (simp_all add: k'_def)
    ultimately show ?thesis using False by (auto simp: good_step_def k'_def)
  next
    case True
    from xTaskResumeAll_ok [OF inv r c True] obtain sw k' A' where k':
      "xTaskResumeAll k = Some (sw, k')" "kinv True L T {} k' A'" "rest T idle k'"
      "resumed k k'" "tcbs k' = tcbs k" "pxCurrentTCB k' = pxCurrentTCB k"
      "uxSchedulerSuspended k' = 0" "xPendedTicks k' = 0" "xYieldPending k' \<longrightarrow> pendsv k'"
      "\<forall>t. \<not> pending k' t" "cur_top k \<longrightarrow> cur_top k'"
      by (elim exE conjE) blast
    have np: "\<not> pending k c" using restD(8) [OF r rc] by (simp add: pending_def)
    have w: "waits_less (unat (xPendedTicks k)) k k' d" if "\<not> pending k d" for d
      using k'(4) that by (simp add: resumed_def)
    have "ready k' c"
      using waits_lessD(1) [OF w [OF np] ready_wait [OF inv rc]] rc by (simp add: ready_def)
    then have "sched_ok L T idle k'"
      by (intro sched_okI [where c = c and A = A'])
         (use k'(2,3,6-11) c sched_okD(3) [OF ok] in simp_all)
    then show ?thesis using k'(1,5,7,8) w True
      by (intro exI [of _ sw] exI [of _ k']) (simp add: good_step_def)
  qed
qed

section \<open>Blocking\<close>

text \<open>The invariant while the running task, which is still ready, may already wait for an event.\<close>

definition rest_but :: "nat set \<Rightarrow> nat \<Rightarrow> nat \<Rightarrow> kernel \<Rightarrow> bool" where
  "rest_but T idle c k \<longleftrightarrow> idle \<in> T \<and> uxPriority (tcbs k idle) = 0 \<and> state_list k idle = Some (Ready 0) \<and>
     xSchedulerRunning k \<and> uxCurrentNumberOfTasks k = of_nat (card T) \<and>
     uxDeletedTasksWaitingCleanUp k = of_nat (card {t \<in> T. state_list k t = Some WaitingTermination}) \<and>
     (\<forall>t. t \<noteq> c \<and> (ready k t \<or> state_list k t = Some WaitingTermination) \<longrightarrow> event_list k t = None) \<and>
     (\<forall>t\<in>T. ucNotifyState (tcbs k t) = taskWAITING_NOTIFICATION \<longrightarrow> event_list k t = None)"

lemma block_and_resume:
  assumes inv: "kinv True L T {} k A" and r: "rest_but T idle c k" and c: "pxCurrentTCB k = Some c"
    and cT: "c \<in> T" "c \<noteq> idle" "ready k c" and n: "n > 0"
    and one: "uxSchedulerSuspended k = 1" and np: "xPendedTicks k = 0" "\<And>t. \<not> pending k t"
  shows "\<exists>k1 sw k2. prvAddCurrentTaskToDelayedList k n indef = Some k1 \<and>
    xTaskResumeAll k1 = Some (sw, k2) \<and>
    (let k' = (if sw then k2 else vPortYield k2) in sched_ok L T idle k' \<and>
       (\<forall>d. d \<noteq> c \<longrightarrow> waits_less 0 k k' d \<and> tcbs k' d = tcbs k d) \<and>
       uxSchedulerSuspended k' = 0 \<and> xPendedTicks k' = 0 \<and> pendsv k' \<and> event_list k' c = event_list k c \<and>
       wait_left k' c = (if n = portMAX_DELAY \<and> indef then None else Some (unat n)) \<and>
       (n = portMAX_DELAY \<and> indef \<longrightarrow> state_list k' c = Some SuspendedList) \<and>
       ucNotifyState (tcbs k' c) = ucNotifyState (tcbs k c))"
proof -
  from block_current [OF inv c cT(1) n, of indef] obtain k1 A1 where k1:
    "prvAddCurrentTaskToDelayedList k n indef = Some k1" "kinv True L T {} k1 A1"
    "lists_only (not_aborted k c) k1"
    "\<And>u. u \<noteq> c \<Longrightarrow> state_list k1 u = state_list k u"  "\<And>u. u \<noteq> c \<Longrightarrow> wait_left k1 u = wait_left k u"
    "event_list k1 = event_list k" "\<not> ready k1 c" "state_list k1 c \<noteq> Some WaitingTermination"
    "wait_left k1 c = (if n = portMAX_DELAY \<and> indef then None else Some (unat n))"
    "n = portMAX_DELAY \<and> indef \<longrightarrow> state_list k1 c = Some SuspendedList"
    by (elim exE conjE) blast
  have f1: "pxCurrentTCB k1 = Some c" "uxSchedulerSuspended k1 = 1" "xPendedTicks k1 = 0"
    "uxCurrentNumberOfTasks k1 = uxCurrentNumberOfTasks k" "xSchedulerRunning k1 = xSchedulerRunning k"
    "uxDeletedTasksWaitingCleanUp k1 = uxDeletedTasksWaitingCleanUp k"
    "tcbs k1 = (tcbs k)(c := (tcbs k c)\<lparr>ucDelayAborted := False\<rparr>)"
    using lists_onlyD [OF k1(3)] c one np by (simp_all add: not_aborted_def)
  have np1: "\<not> pending k1 t" for t using np(2) [of t] k1(6) by (simp add: pending_def)
  have nw: "state_list k c \<noteq> Some WaitingTermination" using cT(3) by (auto simp: ready_def)
  then have wt: "state_list k1 t = Some WaitingTermination \<longleftrightarrow> state_list k t = Some WaitingTermination" for t
    using k1(4) [of t] k1(8) by (cases "t = c") auto
  have rd: "ready k1 t \<longleftrightarrow> t \<noteq> c \<and> ready k t" for t
    using k1(4) [of t] k1(7) by (cases "t = c") (auto simp: ready_def)
  have "event_list k t = None" if "t \<noteq> c \<and> ready k t \<or> state_list k t = Some WaitingTermination" for t
  proof -
    have "t \<noteq> c" using that nw by auto
    then show ?thesis using that r unfolding rest_but_def by blast
  qed
  then have r1: "rest T idle k1"
    using r cT k1(4) [of idle] by (simp add: rest_def rest_but_def f1 wt rd k1(6))
  from xTaskResumeAll_ok [OF k1(2) r1 f1(1,2)] obtain sw k2 A2 where k2:
    "xTaskResumeAll k1 = Some (sw, k2)" "kinv True L T {} k2 A2" "rest T idle k2"
    "resumed k1 k2" "tcbs k2 = tcbs k1" "pxCurrentTCB k2 = pxCurrentTCB k1"
    "uxSchedulerSuspended k2 = 0" "xPendedTicks k2 = 0" "sw \<longrightarrow> pendsv k2"
    "\<forall>t. \<not> pending k2 t"
    by (elim exE conjE) blast
  define k' where "k' = (if sw then k2 else vPortYield k2)"
  have l': "state_list k' = state_list k2" "event_list k' = event_list k2" "wait_left k' = wait_left k2"
    "pending k' = pending k2" "tcbs k' = tcbs k2" "uxSchedulerSuspended k' = 0" "xPendedTicks k' = 0"
    and ps: "pendsv k'"
    using k2(7,8,9) by (simp_all add: k'_def vPortYield_def)
  have w: "wait_left k' d = wait_left k1 d \<and> event_list k' d = event_list k1 d \<and>
      (wait_left k1 d = None \<longrightarrow> state_list k' d = state_list k1 d)" for d
  proof -
    have "waits_less 0 k1 k2 d" using resumedD [OF k2(4) np1] by (simp add: f1(3))
    then show ?thesis unfolding waits_less_0 [OF k1(2)] l' .
  qed
  have "sched_ok L T idle k'"
    by (rule sched_okI [where c = c and A = A2])
       (use k2(2,3,6,10) f1(1) ps l' in \<open>simp_all add: cur_top_def k'_def vPortYield_def\<close>)
  moreover have "waits_less 0 k k' d \<and> tcbs k' d = tcbs k d" if "d \<noteq> c" for d
    using w [of d] k1(4,5) [OF that] k1(6) f1(7) that k2(5) by (simp add: waits_less_0 [OF inv] l')
  moreover have "event_list k' c = event_list k c"
    "wait_left k' c = (if n = portMAX_DELAY \<and> indef then None else Some (unat n))"
    "n = portMAX_DELAY \<and> indef \<longrightarrow> state_list k' c = Some SuspendedList"
    using w [of c] k1(6,9,10) by simp_all
  moreover have "ucNotifyState (tcbs k' c) = ucNotifyState (tcbs k c)" by (simp add: l' k2(5) f1(7))
  ultimately show ?thesis
    using k1(1) k2(1) l'(6,7) ps
    by (intro exI [of _ k1] exI [of _ sw] exI [of _ k2]) (simp add: k'_def Let_def)
qed

text \<open>The running task, when it may block: it is not the idle task, and no switch is about to come.\<close>

definition may_block :: "nat \<Rightarrow> kernel \<Rightarrow> nat \<Rightarrow> bool" where
  "may_block idle k c \<longleftrightarrow> pxCurrentTCB k = Some c \<and> c \<noteq> idle \<and> \<not> pendsv k \<and> uxSchedulerSuspended k = 0"

lemma may_blockD:
  assumes ok: "sched_ok L T idle k" and mb: "may_block idle k c"
  shows "c \<in> T" "ready k c" "event_list k c = None" "c \<noteq> idle" "pxCurrentTCB k = Some c"
    "uxSchedulerSuspended k = 0" "xPendedTicks k = 0" "\<not> pending k t"
proof -
  show c: "pxCurrentTCB k = Some c" "c \<noteq> idle" "uxSchedulerSuspended k = 0" using mb by (simp_all add: may_block_def)
  show "c \<in> T" using restD(7) [OF sched_okD(2) [OF ok]] c(1) by simp
  show rc: "ready k c" using sched_okD(7) [OF ok c(1)] mb by (simp add: may_block_def)
  show "event_list k c = None" using restD(8) [OF sched_okD(2) [OF ok] rc] .
  show "xPendedTicks k = 0" "\<not> pending k t" using sched_okD(4,5) [OF ok c(3)] by simp_all
qed

lemma rest_rest_but: "rest T idle k \<Longrightarrow> rest_but T idle c k"
  unfolding rest_def rest_but_def by blast

text \<open>The facts about the blocked task a blocking operation ends with.\<close>

definition blocked :: "kernel \<Rightarrow> nat \<Rightarrow> nat option \<Rightarrow> klist option \<Rightarrow> bool" where
  "blocked k c left ev \<longleftrightarrow> uxSchedulerSuspended k = 0 \<and> xPendedTicks k = 0 \<and> pendsv k \<and>
     wait_left k c = left \<and> event_list k c = ev \<and> (left = None \<longrightarrow> state_list k c = Some SuspendedList)"

lemma block_step:
  assumes inv0: "kinv True L T {} k0 A0" and inv: "kinv True L T {} k A" and r: "rest_but T idle c k"
    and c: "pxCurrentTCB k = Some c" and cT: "c \<in> T" "c \<noteq> idle" "ready k c" and n: "n > 0"
    and one: "uxSchedulerSuspended k = 1" and np: "xPendedTicks k = 0" "\<And>t. \<not> pending k t"
    and same: "\<And>d. d \<noteq> c \<Longrightarrow> state_list k d = state_list k0 d \<and> event_list k d = event_list k0 d \<and>
                 wait_left k d = wait_left k0 d \<and> tcbs k d = tcbs k0 d"
  obtains k1 sw k2 k' where "prvAddCurrentTaskToDelayedList k n indef = Some k1"
    "xTaskResumeAll k1 = Some (sw, k2)" "k' = (if sw then k2 else vPortYield k2)"
    "good_step L T idle 0 {c} k0 k'"
    "blocked k' c (if n = portMAX_DELAY \<and> indef then None else Some (unat n)) (event_list k c)"
    "ucNotifyState (tcbs k' c) = ucNotifyState (tcbs k c)"
proof -
  from block_and_resume [OF inv r c cT n one np, of indef] obtain k1 sw k2 where k:
    "prvAddCurrentTaskToDelayedList k n indef = Some k1" "xTaskResumeAll k1 = Some (sw, k2)"
    and rest: "let k' = (if sw then k2 else vPortYield k2) in sched_ok L T idle k' \<and>
       (\<forall>d. d \<noteq> c \<longrightarrow> waits_less 0 k k' d \<and> tcbs k' d = tcbs k d) \<and>
       uxSchedulerSuspended k' = 0 \<and> xPendedTicks k' = 0 \<and> pendsv k' \<and> event_list k' c = event_list k c \<and>
       wait_left k' c = (if n = portMAX_DELAY \<and> indef then None else Some (unat n)) \<and>
       (n = portMAX_DELAY \<and> indef \<longrightarrow> state_list k' c = Some SuspendedList) \<and>
       ucNotifyState (tcbs k' c) = ucNotifyState (tcbs k c)"
    by (elim exE conjE)
  define k' where "k' = (if sw then k2 else vPortYield k2)"
  have w: "waits_less 0 k0 k' d \<and> tcbs k' d = tcbs k0 d" if "d \<noteq> c" for d
    using rest same [OF that] that unfolding Let_def k'_def [symmetric]
    by (simp add: waits_less_0 [OF inv0] waits_less_0 [OF inv])
  show ?thesis
    by (rule that [OF k k'_def])
       (use rest w in \<open>simp_all add: Let_def k'_def [symmetric] good_step_def blocked_def\<close>)
qed

lemma delay_step:
  assumes ok: "sched_ok L T idle k" and mb: "may_block idle k c" and n: "n > 0"
  shows "\<exists>k'. vTaskDelay k n = Some k' \<and> good_step L T idle 0 {c} k k' \<and>
    blocked k' c (Some (unat n)) None \<and> ucNotifyState (tcbs k' c) = ucNotifyState (tcbs k c)"
proof -
  note c = may_blockD [OF ok mb]
  obtain A where inv: "kinv True L T {} k A" using sched_okD(1) [OF ok] by blast
  define k0 where "k0 = vTaskSuspendAll k"
  have l0: "state_list k0 = state_list k" "event_list k0 = event_list k" "ready k0 = ready k" "pending k0 = pending k"
    "wait_left k0 = wait_left k" "tcbs k0 = tcbs k" "uxSchedulerSuspended k0 = 1"
    "pxCurrentTCB k0 = Some c" "xPendedTicks k0 = 0"
    using c(5,6,7) by (simp_all add: k0_def vTaskSuspendAll_def)
  have inv0: "kinv True L T {} k0 A" using inv by (simp add: k0_def vTaskSuspendAll_def)
  have r0: "rest_but T idle c k0"
    using sched_okD(2) [OF ok] by (intro rest_rest_but) (simp add: k0_def vTaskSuspendAll_def)
  obtain k1 sw k2 k' where k': "prvAddCurrentTaskToDelayedList k0 n False = Some k1"
    "xTaskResumeAll k1 = Some (sw, k2)" "k' = (if sw then k2 else vPortYield k2)"
    "good_step L T idle 0 {c} k k'" "blocked k' c (if n = portMAX_DELAY \<and> False then None else Some (unat n)) (event_list k0 c)"
    "ucNotifyState (tcbs k' c) = ucNotifyState (tcbs k0 c)"
    by (rule block_step [where indef = False, OF inv inv0 r0 l0(8) c(1,4) c(2) [folded l0(3)] n l0(7,9)])
       (simp_all add: l0 c(8))
  have "vTaskDelay k n = Some k'"
    using n k'(1-3) l0(7) by (simp add: vTaskDelay_def k0_def [symmetric] Let_def)
  then show ?thesis using k'(4-6) c(3) l0 by auto
qed

lemma take_wait_step:
  assumes ok: "sched_ok L T idle k" and mb: "may_block idle k c"
    and zero: "ulNotifiedValue (tcbs k c) = 0" and n: "n > 0"
  shows "\<exists>k'. ulTaskGenericNotifyTake_wait k n = Some k' \<and> good_step L T idle 0 {c} k k' \<and>
    blocked k' c (if n = portMAX_DELAY then None else Some (unat n)) None \<and>
    ucNotifyState (tcbs k' c) = taskWAITING_NOTIFICATION"
proof -
  note c = may_blockD [OF ok mb]
  obtain A where inv: "kinv True L T {} k A" using sched_okD(1) [OF ok] by blast
  define k0 where "k0 = set_tcb (vTaskSuspendAll k) c (\<lambda>b. b\<lparr>ucNotifyState := taskWAITING_NOTIFICATION\<rparr>)"
  have l0: "state_list k0 = state_list k" "event_list k0 = event_list k" "ready k0 = ready k" "pending k0 = pending k"
    "wait_left k0 = wait_left k" "uxSchedulerSuspended k0 = 1"
    "pxCurrentTCB k0 = Some c" "xPendedTicks k0 = 0"
    "tcbs k0 = (tcbs k)(c := (tcbs k c)\<lparr>ucNotifyState := taskWAITING_NOTIFICATION\<rparr>)"
    using c(5,6,7) by (simp_all add: k0_def vTaskSuspendAll_def)
  have inv0: "kinv True L T {} k0 A" using inv by (simp add: k0_def vTaskSuspendAll_def kinv_set_tcb)
  have "rest T idle k0"
    using sched_okD(2) [OF ok] c(3-5) by (simp add: rest_def l0) (simp add: k0_def vTaskSuspendAll_def)
  then have r0: "rest_but T idle c k0" by (rule rest_rest_but)
  obtain k1 sw k2 k' where k': "prvAddCurrentTaskToDelayedList k0 n True = Some k1"
    "xTaskResumeAll k1 = Some (sw, k2)" "k' = (if sw then k2 else vPortYield k2)"
    "good_step L T idle 0 {c} k k'" "blocked k' c (if n = portMAX_DELAY \<and> True then None else Some (unat n)) (event_list k0 c)"
    "ucNotifyState (tcbs k' c) = ucNotifyState (tcbs k0 c)"
    by (rule block_step [where indef = True, OF inv inv0 r0 l0(7) c(1,4) c(2) [folded l0(3)] n l0(6,8)])
       (simp_all add: l0 c(8))
  have "ulTaskGenericNotifyTake_wait k n = Some k'"
    using n k'(1-3) c(5) zero
    by (simp add: ulTaskGenericNotifyTake_wait_def Let_def k0_def [symmetric])
  then show ?thesis using k'(4-6) c(3) by (auto simp: l0)
qed

text \<open>Waiting on the list of a queue, as \<open>xQueueReceive\<close> does when the queue is empty.\<close>

definition wait_on_queue :: "kernel \<Rightarrow> nat \<Rightarrow> u32 \<Rightarrow> kernel option" where
  "wait_on_queue k e xTicksToWait = do {
     k1 \<leftarrow> vTaskPlaceOnEventList (vTaskSuspendAll k) (Event e) xTicksToWait;
     (xAlreadyYielded, k2) \<leftarrow> xTaskResumeAll k1;
     Some (if xAlreadyYielded then k2 else vPortYield k2)
   }"

lemma wait_on_queue_step:
  assumes ok: "sched_ok L T idle k" and mb: "may_block idle k c" and e: "Event e \<in> L"
    and nw: "ucNotifyState (tcbs k c) \<noteq> taskWAITING_NOTIFICATION" and n: "n > 0"
  shows "\<exists>k'. wait_on_queue k e n = Some k' \<and> good_step L T idle 0 {c} k k' \<and>
    blocked k' c (if n = portMAX_DELAY then None else Some (unat n)) (Some (Event e)) \<and>
    ucNotifyState (tcbs k' c) = ucNotifyState (tcbs k c)"
proof -
  note c = may_blockD [OF ok mb]
  obtain A where inv: "kinv True L T {} k A" using sched_okD(1) [OF ok] by blast
  define ks where "ks = vTaskSuspendAll k"
  have invs: "kinv True L T {} ks A" and evs: "event_list ks c = None"
    using inv c(3) by (simp_all add: ks_def vTaskSuspendAll_def)
  obtain s where s: "list_insert ks (Event e) (EventItem c) = Some (ks\<lparr>klists := s\<rparr>)"
    "kinv True L T {} (ks\<lparr>klists := s\<rparr>)
       (A(Event e := seq_insert (itemval (klists ks)) (A (Event e)) (EventItem c)))"
    "pxContainer s = (pxContainer (klists ks))(EventItem c := Some (Event e))"
    "xItemValue s = xItemValue (klists ks)"
    by (rule insert_event [OF invs c(1) evs e])
  define k0 where "k0 = ks\<lparr>klists := s\<rparr>"
  have f0: "uxSchedulerSuspended k0 = 1" "pxCurrentTCB k0 = Some c" "xPendedTicks k0 = 0" "tcbs k0 = tcbs k"
    using c(5,6,7) by (simp_all add: k0_def ks_def vTaskSuspendAll_def)
  have l0: "state_list k0 = state_list k" "wait_left k0 = wait_left k" "ready k0 = ready k"
    "event_list k0 = (event_list k)(c := Some (Event e))"
    using s(3,4)
    by (simp_all add: k0_def ks_def vTaskSuspendAll_def state_list_def event_list_def wait_left_def ready_def
        itemval_def fun_eq_iff)
  have np: "\<not> pending k0 t" for t using c(8) [of t] by (simp add: pending_def l0)
  have r0: "rest_but T idle c k0"
  proof -
    have "rest_but T idle c k" by (rule rest_rest_but [OF sched_okD(2) [OF ok]])
    then show ?thesis using nw
      by (simp add: rest_but_def l0 f0) (simp add: k0_def ks_def vTaskSuspendAll_def)
  qed
  obtain k1 sw k2 k' where k': "prvAddCurrentTaskToDelayedList k0 n True = Some k1"
    "xTaskResumeAll k1 = Some (sw, k2)" "k' = (if sw then k2 else vPortYield k2)"
    "good_step L T idle 0 {c} k k'" "blocked k' c (if n = portMAX_DELAY \<and> True then None else Some (unat n)) (event_list k0 c)"
    "ucNotifyState (tcbs k' c) = ucNotifyState (tcbs k0 c)"
    by (rule block_step [where indef = True, OF inv s(2) [folded k0_def] r0 f0(2) c(1,4) c(2) [folded l0(3)] n f0(1,3) np])
       (simp_all add: l0 f0)
  have "wait_on_queue k e n = Some k'"
    using k'(1-3) s(1) c(5)
    by (simp add: wait_on_queue_def vTaskPlaceOnEventList_def ks_def [symmetric] k0_def [symmetric])
       (simp add: ks_def vTaskSuspendAll_def)
  then show ?thesis using k'(4-6) by (auto simp: l0 f0)
qed

section \<open>Waking\<close>

text \<open>A task is taken off its list and made ready.\<close>

lemma make_ready:
  assumes inv: "kinv True L T {} k A" and t: "t \<in> T"
  obtains s A' where "listREMOVE_ITEM k (StateItem t) = Some (k\<lparr>klists := s\<rparr>)"
    "kinv True L T {} (prvAddTaskToReadyList (k\<lparr>klists := s\<rparr>) t) A'"
    "lists_only k (prvAddTaskToReadyList (k\<lparr>klists := s\<rparr>) t)"
    "\<forall>u. state_list (prvAddTaskToReadyList (k\<lparr>klists := s\<rparr>) t) u =
          (if u = t then Some (Ready (uxPriority (tcbs k t))) else state_list k u)"
    "event_list (prvAddTaskToReadyList (k\<lparr>klists := s\<rparr>) t) = event_list k"
    "\<forall>u. u \<noteq> t \<longrightarrow> wait_left (prvAddTaskToReadyList (k\<lparr>klists := s\<rparr>) t) u = wait_left k u"
proof -
  have "state_list k t \<noteq> None" using kinv_loose [OF inv t] by simp
  then obtain l where l: "state_list k t = Some l" by blast
  obtain s where s: "listREMOVE_ITEM k (StateItem t) = Some (k\<lparr>klists := s\<rparr>)"
    "kinv True L T {t} (k\<lparr>klists := s\<rparr>) (A(l := seq_remove (A l) (StateItem t)))"
    "pxContainer s = (pxContainer (klists k))(StateItem t := None)" "xItemValue s = xItemValue (klists k)"
    by (rule remove_state [OF inv l])
  define k1 where "k1 = k\<lparr>klists := s\<rparr>"
  define k2 where "k2 = prvAddTaskToReadyList k1 t"
  note add = add_ready [OF s(2) singletonI t, folded k1_def, folded k2_def]
  have lo: "lists_only k k2" using lists_only_trans [of k k1 k2] by (simp add: k1_def k2_def)
  have st: "state_list k2 u = (if u = t then Some (Ready (uxPriority (tcbs k t))) else state_list k u)" for u
    using add(2) [of u] s(3) by (simp add: k1_def state_list_def)
  have ev: "event_list k2 = event_list k"
    using add(3) s(3) by (simp add: k1_def event_list_def fun_eq_iff)
  have iv: "itemval (klists k2) = itemval (klists k)"
    using add(4) s(4) by (simp add: k1_def itemval_def fun_eq_iff)
  have w: "wait_left k2 u = wait_left k u" if "u \<noteq> t" for u
    by (rule wait_left_lists_only [OF lo _ iv]) (simp add: st that)
  show ?thesis
    by (rule that [OF s(1)])
       (use add(1) lo st ev w in \<open>simp_all add: k1_def [symmetric] k2_def [symmetric]\<close>)
qed

lemma readied_ok:
  assumes ok: "sched_ok L T idle k" and inv: "kinv True L T {} k' A'" and r: "rest T idle k'"
    and c: "pxCurrentTCB k = Some c" and f: "pxCurrentTCB k' = Some c"
      "uxSchedulerSuspended k' = uxSchedulerSuspended k" "xPendedTicks k' = xPendedTicks k"
      "\<And>u. uxPriority (tcbs k' u) = uxPriority (tcbs k u)"
      "pendsv k \<Longrightarrow> pendsv k'" "xYieldPending k \<Longrightarrow> xYieldPending k'"
      "xYieldPending k' \<Longrightarrow> xYieldPending k \<or> pendsv k'"
    and rd: "\<And>u. ready k' u \<Longrightarrow> ready k u \<or> u = t" "ready k c \<Longrightarrow> ready k' c"
    and pd: "\<And>u. pending k' u \<Longrightarrow> pending k u \<or> uxSchedulerSuspended k \<noteq> 0"
    and pr: "\<not> pendsv k' \<Longrightarrow> \<not> xYieldPending k' \<Longrightarrow> ready k' t \<Longrightarrow> uxPriority (tcbs k t) \<le> uxPriority (tcbs k c)"
  shows "sched_ok L T idle k'"
proof (rule sched_okI [OF inv r _ f(1)])
  show "cur_top k'"
  proof (cases "pendsv k' \<or> xYieldPending k'")
    case False
    then have "uxPriority (tcbs k u) \<le> uxPriority (tcbs k c)" if "ready k' u" for u
      using that rd(1) [OF that] sched_okD(3) [OF ok] f(5,6) c pr by (auto simp: cur_top_def)
    then show ?thesis using f(1,4) by (simp add: cur_top_def)
  qed (auto simp: cur_top_def)
  show "xPendedTicks k' = 0" if "uxSchedulerSuspended k' = 0" using that f sched_okD(4) [OF ok] by simp
  show "\<not> pending k' u" if "uxSchedulerSuspended k' = 0" for u
    using that f pd [of u] sched_okD(5) [OF ok, of u] by auto
  show "pendsv k'" if "uxSchedulerSuspended k' = 0" "xYieldPending k'"
    using that f sched_okD(6) [OF ok] by auto
  show "ready k' c" if "uxSchedulerSuspended k' \<noteq> 0 \<or> \<not> pendsv k'"
    using that f(2,5) sched_okD(7) [OF ok c] rd(2) by auto
qed

text \<open>Waking the first task that waits on the list of a queue, as the sender to it does.\<close>

definition wake_from_queue :: "kernel \<Rightarrow> nat \<Rightarrow> kernel option" where
  "wake_from_queue k e = do {
     (xYield, k') \<leftarrow> xTaskRemoveFromEventList_kernel k (Event e);
     Some (if xYield then vPortYield k' else k')
   }"

lemma wake_step:
  assumes ok: "sched_ok L T idle k" and some: "event_list k u0 = Some (Event e)"
  shows "\<exists>k'. wake_from_queue k e = Some k' \<and> good_step L T idle 0 {t. event_list k t = Some (Event e)} k k' \<and>
    uxSchedulerSuspended k' = uxSchedulerSuspended k \<and> xPendedTicks k' = xPendedTicks k"
proof -
  obtain A where inv: "kinv True L T {} k A" using sched_okD(1) [OF ok] by blast
  have r: "rest T idle k" using sched_okD(2) [OF ok] .
  obtain c where c: "c \<in> T" "pxCurrentTCB k = Some c" using restD(7) [OF r] by auto
  have sok: "store_ok L T {} (\<lambda>t. uxPriority (tcbs k t)) (klists k) A" using inv by (simp add: kinv_def)
  have eL: "Event e \<in> L"
    using container_in [OF store_okD(1) [OF sok]] some by (simp add: event_list_def)
  have "EventItem u0 \<in> set (fst (A (Event e)))" using kinv_event_set(1) [OF inv some] .
  then obtain i xs where xs: "fst (A (Event e)) = i # xs" by (cases "fst (A (Event e))") auto
  then have "i \<in> set (fst (A (Event e)))" by simp
  then obtain t where t: "i = EventItem t" "t \<in> T" "event_list k t = Some (Event e)"
    "pvOwner (klists k) i = Some t" by (rule kinv_event_item [OF inv]) simp
  have hd: "listGET_OWNER_OF_HEAD_ENTRY (klists k) (Event e) = Some t"
    using list_head(1) [OF store_okD(1) [OF sok] eL xs] t(4) by simp
  obtain s1 where s1: "listREMOVE_ITEM k (EventItem t) = Some (k\<lparr>klists := s1\<rparr>)"
    "kinv True L T {} (k\<lparr>klists := s1\<rparr>) (A(Event e := seq_remove (A (Event e)) (EventItem t)))"
    "pxContainer s1 = (pxContainer (klists k))(EventItem t := None)" "xItemValue s1 = xItemValue (klists k)"
    by (rule remove_event [OF inv t(3)])
  define k1 where "k1 = k\<lparr>klists := s1\<rparr>"
  define A1 where "A1 = A(Event e := seq_remove (A (Event e)) (EventItem t))"
  have inv1: "kinv True L T {} k1 A1" using s1(2) by (simp add: k1_def A1_def)
  have l1: "state_list k1 = state_list k" "event_list k1 = (event_list k)(t := None)"
    "wait_left k1 = wait_left k" "ready k1 = ready k"
    using s1(3,4) by (simp_all add: k1_def state_list_def event_list_def wait_left_def ready_def itemval_def fun_eq_iff)
  have nrt: "\<not> ready k t" "state_list k t \<noteq> Some WaitingTermination"
    using restD(8,10) [OF r, of t] t(3) by auto
  then have ni: "t \<noteq> idle" using restD(3) [OF r] by (auto simp: ready_def)
  define hi where "hi \<longleftrightarrow> uxPriority (tcbs k t) > uxPriority (tcbs k c)"
  have main: "\<exists>k2 A2. (if uxSchedulerSuspended k1 = 0 then do {
              k' \<leftarrow> listREMOVE_ITEM k1 (StateItem t);
              Some (prvAddTaskToReadyList k' t)
            } else Some (list_insert_end k1 PendingReady (EventItem t))) = Some k2 \<and>
      kinv True L T {} k2 A2 \<and> lists_only k k2 \<and>
      (\<forall>u. u \<noteq> t \<longrightarrow> state_list k2 u = state_list k u \<and> event_list k2 u = event_list k u \<and>
           wait_left k2 u = wait_left k u) \<and>
      state_list k2 t \<noteq> Some WaitingTermination \<and>
      (if uxSchedulerSuspended k = 0 then event_list k2 t = None
       else event_list k2 t = Some PendingReady \<and> state_list k2 t = state_list k t)"
  proof (cases "uxSchedulerSuspended k = 0")
    case True
    obtain s2 A2 where s2: "listREMOVE_ITEM k1 (StateItem t) = Some (k1\<lparr>klists := s2\<rparr>)"
      "kinv True L T {} (prvAddTaskToReadyList (k1\<lparr>klists := s2\<rparr>) t) A2"
      "lists_only k1 (prvAddTaskToReadyList (k1\<lparr>klists := s2\<rparr>) t)"
      "\<forall>u. state_list (prvAddTaskToReadyList (k1\<lparr>klists := s2\<rparr>) t) u =
          (if u = t then Some (Ready (uxPriority (tcbs k1 t))) else state_list k1 u)"
      "event_list (prvAddTaskToReadyList (k1\<lparr>klists := s2\<rparr>) t) = event_list k1"
      "\<forall>u. u \<noteq> t \<longrightarrow> wait_left (prvAddTaskToReadyList (k1\<lparr>klists := s2\<rparr>) t) u = wait_left k1 u"
      by (rule make_ready [OF inv1 t(2)])
    have "lists_only k (prvAddTaskToReadyList (k1\<lparr>klists := s2\<rparr>) t)"
      using lists_only_trans [OF _ s2(3), of k] by (simp add: k1_def)
    then show ?thesis using s2 True l1
      by (intro exI [of _ "prvAddTaskToReadyList (k1\<lparr>klists := s2\<rparr>) t"] exI [of _ A2]) (simp add: k1_def)
  next
    case False
    have e1: "event_list k1 t = None" by (simp add: l1)
    define k2 where "k2 = list_insert_end k1 PendingReady (EventItem t)"
    note ins = insert_end_event [OF inv1 t(2) e1, folded k2_def]
    have l2: "state_list k2 = state_list k1" "event_list k2 = (event_list k1)(t := Some PendingReady)"
      using ins(2) by (simp_all add: k2_def state_list_def event_list_def fun_eq_iff)
    have "wait_left k2 = wait_left k1"
      using ins(2,3) by (simp add: k2_def wait_left_def state_list_def itemval_def fun_eq_iff)
    moreover have "lists_only k k2" by (simp add: k2_def list_insert_end_def k1_def)
    moreover have "uxSchedulerSuspended k1 \<noteq> 0" using False by (simp add: k1_def)
    ultimately show ?thesis using ins(1) False l1 l2 nrt
      by (intro exI [of _ k2] exI) (auto simp: k2_def [symmetric])
  qed
  then obtain k2 A2 where k2: "(if uxSchedulerSuspended k1 = 0 then do {
              k' \<leftarrow> listREMOVE_ITEM k1 (StateItem t);
              Some (prvAddTaskToReadyList k' t)
            } else Some (list_insert_end k1 PendingReady (EventItem t))) = Some k2"
      "kinv True L T {} k2 A2" "lists_only k k2"
      "\<And>u. u \<noteq> t \<Longrightarrow> state_list k2 u = state_list k u"
      "\<And>u. u \<noteq> t \<Longrightarrow> event_list k2 u = event_list k u"
      "\<And>u. u \<noteq> t \<Longrightarrow> wait_left k2 u = wait_left k u"
      "state_list k2 t \<noteq> Some WaitingTermination"
      "if uxSchedulerSuspended k = 0 then event_list k2 t = None
       else event_list k2 t = Some PendingReady \<and> state_list k2 t = state_list k t"
    by (elim exE conjE) blast
  note f = lists_onlyD [OF k2(3)]
  have same: "ready k2 u \<longleftrightarrow> ready k u" if "u \<noteq> t" for u using k2(4) [OF that] by (simp add: ready_def)
  define k' where "k' = (if hi then vPortYield (k2\<lparr>xYieldPending := True\<rparr>) else k2)"
  have l': "state_list k' = state_list k2" "event_list k' = event_list k2" "wait_left k' = wait_left k2"
    "ready k' = ready k2" "tcbs k' = tcbs k" "pxCurrentTCB k' = Some c" "pending k' = pending k2"
    "uxSchedulerSuspended k' = uxSchedulerSuspended k" "xPendedTicks k' = xPendedTicks k"
    "pendsv k' \<longleftrightarrow> pendsv k \<or> hi" "xYieldPending k' \<longleftrightarrow> xYieldPending k \<or> hi"
    using f c by (auto simp: k'_def vPortYield_def)
  have "wake_from_queue k e = Some k'"
  proof -
    have c2: "pxCurrentTCB k2 = Some c" using f c by simp
    have "wake_from_queue k e = Option.bind (listGET_OWNER_OF_HEAD_ENTRY (klists k) (Event e)) (\<lambda>t.
      Option.bind (listREMOVE_ITEM k (EventItem t)) (\<lambda>k1.
      Option.bind (if uxSchedulerSuspended k1 = 0 then do {
              k' \<leftarrow> listREMOVE_ITEM k1 (StateItem t);
              Some (prvAddTaskToReadyList k' t)
            } else Some (list_insert_end k1 PendingReady (EventItem t))) (\<lambda>k2.
      Option.bind (pxCurrentTCB k2) (\<lambda>c. Some (if uxPriority (tcbs k2 t) > uxPriority (tcbs k2 c)
         then vPortYield (k2\<lparr>xYieldPending := True\<rparr>) else k2)))))"
      by (auto simp: wake_from_queue_def xTaskRemoveFromEventList_kernel_def intro!: bind_option_cong)
    then show ?thesis
      unfolding hd s1(1) Option.bind.bind_lunit k1_def [symmetric] k2(1) c2 by (simp add: k'_def hi_def f)
  qed
  moreover have "sched_ok L T idle k'"
  proof (rule readied_ok [OF ok _ _ c(2) l'(6,8,9)])
    show "kinv True L T {} k' A2" using k2(2) by (simp add: k'_def vPortYield_def)
    have "rest T idle k2"
    proof (rule rest_step [OF r k2(3)])
      show "state_list k2 idle = Some (Ready 0)" using k2(4) ni restD(3) [OF r] by simp
      show "state_list k2 u = Some WaitingTermination \<longleftrightarrow> state_list k u = Some WaitingTermination" for u
        using k2(4,7) nrt(2) by (cases "u = t") auto
      show "event_list k u = None \<Longrightarrow> event_list k2 u = None" for u
        using k2(5) [of u] t(3) by (cases "u = t") auto
      show "ready k2 u \<Longrightarrow> ready k u \<or> event_list k2 u = None" for u
        using k2(8) same [of u] nrt(1) by (cases "u = t") (auto simp: ready_def split: if_splits)
    qed
    then show "rest T idle k'" by (simp add: k'_def vPortYield_def)
    show "ready k' u \<Longrightarrow> ready k u \<or> u = t" for u using same [of u] l' by auto
    show "ready k c \<Longrightarrow> ready k' c" using same [of c] nrt(1) l' by auto
    show "pending k' u \<Longrightarrow> pending k u \<or> uxSchedulerSuspended k \<noteq> 0" for u
      using k2(5) [of u] k2(8) by (cases "u = t") (auto simp: pending_def l')
    show "\<not> pendsv k' \<Longrightarrow> \<not> xYieldPending k' \<Longrightarrow> uxPriority (tcbs k t) \<le> uxPriority (tcbs k c)"
      by (simp add: l' hi_def)
  qed (use l' in auto)
  moreover have "waits_less 0 k k' d \<and> tcbs k' d = tcbs k d" if "event_list k d \<noteq> Some (Event e)" for d
  proof -
    have "d \<noteq> t" using that t(3) by auto
    then show ?thesis using waits_less_same [OF inv, of k' d] k2(4-6) by (simp add: l')
  qed
  ultimately show ?thesis using l'(8,9) by (intro exI [of _ k']) (auto simp: good_step_def)
qed

section \<open>Notifications\<close>

lemma rest_set_tcb:
  assumes "rest T idle k" and "\<And>b. uxPriority (f b) = uxPriority b"
    and "ucNotifyState (f (tcbs k t)) = taskWAITING_NOTIFICATION \<Longrightarrow> event_list k t = None"
  shows "rest T idle (set_tcb k t f)"
  using assms by (auto simp: rest_def)

lemma take_get_step:
  assumes ok: "sched_ok L T idle k" and c: "pxCurrentTCB k = Some c"
  shows "\<exists>v k'. ulTaskGenericNotifyTake_take k clear = Some (v, k') \<and> good_step L T idle 0 {c} k k' \<and>
    uxSchedulerSuspended k' = uxSchedulerSuspended k \<and> xPendedTicks k' = xPendedTicks k"
proof -
  define f where "f b = b\<lparr>ucNotifyState := taskNOT_WAITING_NOTIFICATION\<rparr>" for b :: tcb
  define g where "g b = (if ulNotifiedValue (tcbs k c) \<noteq> 0
    then b\<lparr>ulNotifiedValue := (if clear then 0 else ulNotifiedValue (tcbs k c) - 1)\<rparr> else b)" for b :: tcb
  define k' where "k' = set_tcb k c (\<lambda>b. f (g b))"
  obtain A where inv: "kinv True L T {} k A" using sched_okD(1) [OF ok] by blast
  have p: "uxPriority (f (g b)) = uxPriority b" "ucNotifyState (f (g b)) \<noteq> taskWAITING_NOTIFICATION" for b
    by (simp_all add: f_def g_def)
  have "set_tcb (set_tcb k c g) c f = k'" by (simp add: k'_def set_tcb_def)
  then have "ulTaskGenericNotifyTake_take k clear = Some (ulNotifiedValue (tcbs k c), k')"
    using c by (simp add: ulTaskGenericNotifyTake_take_def f_def [abs_def] g_def [abs_def] Let_def)
       (auto simp: set_tcb_def)
  moreover have "sched_ok L T idle k'"
    unfolding k'_def
    by (rule readied_ok [OF ok _ rest_set_tcb [OF sched_okD(2) [OF ok] p(1)] c])
       (use inv c p sched_okD(3) [OF ok] in \<open>auto simp: kinv_set_tcb cur_top_def\<close>)
  moreover have "waits_less 0 k k' d" for d by (rule waits_less_same [OF inv]) (simp_all add: k'_def)
  ultimately show ?thesis by (auto simp: good_step_def k'_def)
qed

text \<open>A task made ready by another, which yields to it if it has the higher priority.\<close>

lemma make_ready_step:
  assumes ok: "sched_ok L T idle k" and np: "\<not> pendsv k" and t: "t \<in> T" "event_list k t = None"
    and nw: "state_list k t \<noteq> Some WaitingTermination"
  shows "\<exists>s k'. listREMOVE_ITEM k (StateItem t) = Some (k\<lparr>klists := s\<rparr>) \<and>
    taskYIELD_ANY_CORE_IF_USING_PREEMPTION (prvAddTaskToReadyList (k\<lparr>klists := s\<rparr>) t) t = Some k' \<and>
    event_list (prvAddTaskToReadyList (k\<lparr>klists := s\<rparr>) t) t = None \<and>
    good_step L T idle 0 {t} k k' \<and> ready k' t \<and> tcbs k' = tcbs k \<and>
    uxSchedulerSuspended k' = uxSchedulerSuspended k \<and> xPendedTicks k' = xPendedTicks k"
proof -
  obtain A where inv: "kinv True L T {} k A" using sched_okD(1) [OF ok] by blast
  have r: "rest T idle k" using sched_okD(2) [OF ok] .
  obtain c where c: "c \<in> T" "pxCurrentTCB k = Some c" using restD(7) [OF r] by auto
  obtain s A' where s: "listREMOVE_ITEM k (StateItem t) = Some (k\<lparr>klists := s\<rparr>)"
    "kinv True L T {} (prvAddTaskToReadyList (k\<lparr>klists := s\<rparr>) t) A'"
    "lists_only k (prvAddTaskToReadyList (k\<lparr>klists := s\<rparr>) t)"
    "\<forall>u. state_list (prvAddTaskToReadyList (k\<lparr>klists := s\<rparr>) t) u =
          (if u = t then Some (Ready (uxPriority (tcbs k t))) else state_list k u)"
    "event_list (prvAddTaskToReadyList (k\<lparr>klists := s\<rparr>) t) = event_list k"
    "\<forall>u. u \<noteq> t \<longrightarrow> wait_left (prvAddTaskToReadyList (k\<lparr>klists := s\<rparr>) t) u = wait_left k u"
    by (rule make_ready [OF inv t(1)])
  define k2 where "k2 = prvAddTaskToReadyList (k\<lparr>klists := s\<rparr>) t"
  note s' = s(2-6) [folded k2_def]
  note f = lists_onlyD [OF s'(2)]
  define hi where "hi \<longleftrightarrow> uxPriority (tcbs k c) < uxPriority (tcbs k t)"
  define k' where "k' = (if hi then vPortYield k2 else k2)"
  have l': "state_list k' = state_list k2" "event_list k' = event_list k" "wait_left k' = wait_left k2"
    "ready k' = ready k2" "tcbs k' = tcbs k" "pxCurrentTCB k' = Some c" "pending k' = pending k"
    "uxSchedulerSuspended k' = uxSchedulerSuspended k" "xPendedTicks k' = xPendedTicks k"
    "pendsv k' \<longleftrightarrow> hi" "xYieldPending k' = xYieldPending k"
    using f c np s'(4) by (auto simp: k'_def vPortYield_def pending_def fun_eq_iff)
  have rd: "ready k2 u \<longleftrightarrow> u = t \<or> ready k u" for u using s'(3) by (auto simp: ready_def)
  have 1: "taskYIELD_ANY_CORE_IF_USING_PREEMPTION k2 t = Some k'"
    using f c by (simp add: taskYIELD_ANY_CORE_IF_USING_PREEMPTION_def k'_def hi_def)
  have "sched_ok L T idle k'"
  proof (rule readied_ok [OF ok _ _ c(2) l'(6,8,9)])
    show "kinv True L T {} k' A'" using s'(1) by (simp add: k'_def vPortYield_def)
    have "rest T idle k2"
      by (rule rest_step [OF r s'(2)]) (use s'(3,4) t nw restD(2,3) [OF r] in \<open>auto simp: rd\<close>)
    then show "rest T idle k'" by (simp add: k'_def vPortYield_def)
    show "\<not> pendsv k' \<Longrightarrow> \<not> xYieldPending k' \<Longrightarrow> uxPriority (tcbs k t) \<le> uxPriority (tcbs k c)"
      by (simp add: l' hi_def)
  qed (use l' np rd in auto)
  moreover have "waits_less 0 k k' d" if "d \<noteq> t" for d
    by (rule waits_less_same [OF inv]) (use s'(3,5) that in \<open>simp_all add: l'\<close>)
  ultimately show ?thesis
    using s(1) 1 s'(4) t(2) l' rd
    by (intro exI [of _ s] exI [of _ k']) (simp add: good_step_def k2_def [symmetric])
qed

lemma set_tcb_step:
  assumes ok: "sched_ok L T idle k" and p: "\<And>b. uxPriority (f b) = uxPriority b"
    and w: "ucNotifyState (f (tcbs k t)) = taskWAITING_NOTIFICATION \<Longrightarrow> event_list k t = None"
  shows "good_step L T idle 0 {t} k (set_tcb k t f)"
proof -
  obtain A where inv: "kinv True L T {} k A" using sched_okD(1) [OF ok] by blast
  obtain c where c: "pxCurrentTCB k = Some c" using restD(7) [OF sched_okD(2) [OF ok]] by auto
  have "sched_ok L T idle (set_tcb k t f)"
    by (rule readied_ok [OF ok _ rest_set_tcb [OF sched_okD(2) [OF ok] p w] c, where t = c])
       (use inv c p in \<open>auto simp: kinv_set_tcb\<close>)
  moreover have "waits_less 0 k (set_tcb k t f) d" for d by (rule waits_less_same [OF inv]) simp_all
  ultimately show ?thesis by (auto simp: good_step_def)
qed

lemma good_step_0_trans:
  assumes "sched_ok L T idle k" and "good_step L T1 idle 0 D k k1" and "good_step L T2 idle n D k1 k2"
  shows "good_step L T2 idle n D k k2"
proof -
  obtain A A1 where inv: "kinv True L T {} k A" "kinv True L T1 {} k1 A1"
    using assms(1,2) by (auto simp: good_step_def sched_ok_def)
  have "waits_less n k k2 d" if "d \<notin> D" for d
  proof -
    have w: "waits_less 0 k k1 d" "waits_less n k1 k2 d" "tcbs k1 d = tcbs k d"
      using assms that by (auto simp: good_step_def)
    then show ?thesis unfolding waits_less_0 [OF inv(1)] by (simp add: waits_less_def)
  qed
  then show ?thesis using assms by (simp add: good_step_def)
qed

lemma notify_step:
  assumes ok: "sched_ok L T idle k" and np: "\<not> pendsv k" and t: "t \<in> T"
    and nw: "state_list k t \<noteq> Some WaitingTermination"
  shows "\<exists>v ret k'. xTaskGenericNotify k t val act = Some (v, ret, k') \<and> good_step L T idle 0 {t} k k' \<and>
    (if ucNotifyState (tcbs k t) = taskWAITING_NOTIFICATION then ready k' t
     else state_list k' t = state_list k t \<and> event_list k' t = event_list k t) \<and>
    ucNotifyState (tcbs k' t) = taskNOTIFICATION_RECEIVED \<and>
    uxSchedulerSuspended k' = uxSchedulerSuspended k \<and> xPendedTicks k' = xPendedTicks k"
proof -
  define v where "v = (case act of
                 eSetBits \<Rightarrow> ulNotifiedValue (tcbs k t) OR val
               | eIncrement \<Rightarrow> ulNotifiedValue (tcbs k t) + 1
               | eSetValueWithOverwrite \<Rightarrow> val
               | eSetValueWithoutOverwrite \<Rightarrow>
                   (if ucNotifyState (tcbs k t) \<noteq> taskNOTIFICATION_RECEIVED then val else ulNotifiedValue (tcbs k t))
               | eNoAction \<Rightarrow> ulNotifiedValue (tcbs k t))"
  define k1 where "k1 = set_tcb k t (\<lambda>b. b\<lparr>ulNotifiedValue := v, ucNotifyState := taskNOTIFICATION_RECEIVED\<rparr>)"
  have g1: "good_step L T idle 0 {t} k k1" unfolding k1_def by (rule set_tcb_step [OF ok]) simp_all
  have ok1: "sched_ok L T idle k1" using g1 by (simp add: good_step_def)
  have f1: "uxSchedulerSuspended k1 = uxSchedulerSuspended k" "xPendedTicks k1 = xPendedTicks k" "\<not> pendsv k1"
    "ucNotifyState (tcbs k1 t) = taskNOTIFICATION_RECEIVED" "state_list k1 t \<noteq> Some WaitingTermination"
    "event_list k1 = event_list k" "state_list k1 = state_list k"
    using np nw by (simp_all add: k1_def)
  show ?thesis
  proof (cases "ucNotifyState (tcbs k t) = taskWAITING_NOTIFICATION")
    case False
    then have "\<exists>ret. xTaskGenericNotify k t val act = Some (ulNotifiedValue (tcbs k t), ret, k1)"
      unfolding xTaskGenericNotify_def Let_def v_def [symmetric] k1_def [symmetric] by simp
    then show ?thesis using g1 f1 False by auto
  next
    case True
    have ev: "event_list k1 t = None" using restD(9) [OF sched_okD(2) [OF ok] t True] f1(6) by simp
    from make_ready_step [OF ok1 f1(3) t ev f1(5)] obtain s k' where k':
      "listREMOVE_ITEM k1 (StateItem t) = Some (k1\<lparr>klists := s\<rparr>)"
      "taskYIELD_ANY_CORE_IF_USING_PREEMPTION (prvAddTaskToReadyList (k1\<lparr>klists := s\<rparr>) t) t = Some k'"
      "event_list (prvAddTaskToReadyList (k1\<lparr>klists := s\<rparr>) t) t = None"
      "good_step L T idle 0 {t} k1 k'" "ready k' t" "tcbs k' = tcbs k1"
      "uxSchedulerSuspended k' = uxSchedulerSuspended k1" "xPendedTicks k' = xPendedTicks k1"
      by (elim exE conjE) blast
    obtain ret where "xTaskGenericNotify k t val act = Some (ulNotifiedValue (tcbs k t), ret, k')"
      using True k'(1,2) k'(3) [unfolded event_list_def]
      unfolding xTaskGenericNotify_def Let_def v_def [symmetric] k1_def [symmetric] by auto
    moreover have "good_step L T idle 0 {t} k k'" by (rule good_step_0_trans [OF ok g1 k'(4)])
    ultimately show ?thesis using k'(5-8) f1(1,2,4) True
      by (intro exI [of _ "ulNotifiedValue (tcbs k t)"] exI [of _ ret] exI [of _ k']) simp
  qed
qed

section \<open>Suspending and resuming tasks\<close>

lemma resume_step:
  assumes ok: "sched_ok L T idle k" and np: "\<not> pendsv k"
  shows "\<exists>k'. vTaskResume k t = Some k' \<and> good_step L T idle 0 {t} k k' \<and>
    uxSchedulerSuspended k' = uxSchedulerSuspended k \<and> xPendedTicks k' = xPendedTicks k"
proof (cases "Some t \<noteq> pxCurrentTCB k \<and> prvTaskIsTaskSuspended k t")
  case True
  obtain A where inv: "kinv True L T {} k A" using sched_okD(1) [OF ok] by blast
  have st: "state_list k t = Some SuspendedList" "event_list k t = None"
    using True by (simp_all add: prvTaskIsTaskSuspended_def state_list_def event_list_def)
  have "t \<in> T" using kinv_state(1) [OF inv st(1)] .
  from make_ready_step [OF ok np this st(2)] st(1) obtain s k' where k':
      "listREMOVE_ITEM k (StateItem t) = Some (k\<lparr>klists := s\<rparr>)"
      "taskYIELD_ANY_CORE_IF_USING_PREEMPTION (prvAddTaskToReadyList (k\<lparr>klists := s\<rparr>) t) t = Some k'"
      "good_step L T idle 0 {t} k k'"
      "uxSchedulerSuspended k' = uxSchedulerSuspended k" "xPendedTicks k' = xPendedTicks k"
      by auto
  then show ?thesis using True by (auto simp: vTaskResume_def)
next
  case False
  obtain A where inv: "kinv True L T {} k A" using sched_okD(1) [OF ok] by blast
  have "vTaskResume k t = Some k" using False by (auto simp: vTaskResume_def)
  then show ?thesis using ok waits_less_refl [OF inv] by (auto simp: good_step_def)
qed

lemma suspend_step:
  assumes ok: "sched_ok L T idle k" and np: "\<not> pendsv k" and t: "t \<in> T" "t \<noteq> idle"
    and nw: "state_list k t \<noteq> Some WaitingTermination"
    and c: "pxCurrentTCB k = Some c" and self: "t = c \<Longrightarrow> uxSchedulerSuspended k = 0"
  shows "\<exists>k'. vTaskSuspend k (Some t) = Some k' \<and> good_step L T idle 0 {t} k k' \<and>
    state_list k' t = Some SuspendedList \<and> event_list k' t = None \<and>
    ucNotifyState (tcbs k' t) \<noteq> taskWAITING_NOTIFICATION \<and> (pendsv k' \<longleftrightarrow> t = c) \<and>
    uxSchedulerSuspended k' = uxSchedulerSuspended k \<and> xPendedTicks k' = xPendedTicks k"
proof -
  obtain A where inv: "kinv True L T {} k A" using sched_okD(1) [OF ok] by blast
  have r: "rest T idle k" using sched_okD(2) [OF ok] .
  have "state_list k t \<noteq> None" using kinv_loose [OF inv t(1)] by simp
  then obtain l where l: "state_list k t = Some l" by blast
  obtain s1 where s1: "listREMOVE_ITEM k (StateItem t) = Some (k\<lparr>klists := s1\<rparr>)"
    "kinv True L T {t} (k\<lparr>klists := s1\<rparr>) (A(l := seq_remove (A l) (StateItem t)))"
    "pxContainer s1 = (pxContainer (klists k))(StateItem t := None)" "xItemValue s1 = xItemValue (klists k)"
    by (rule remove_state [OF inv l])
  define k1 where "k1 = k\<lparr>klists := s1\<rparr>"
  obtain s2 A2 where s2: "leave_event_list k1 t = Some (k1\<lparr>klists := s2\<rparr>)"
    "kinv True L T {t} (k1\<lparr>klists := s2\<rparr>) A2"
    "pxContainer s2 = (pxContainer (klists k1))(EventItem t := None)" "xItemValue s2 = xItemValue (klists k1)"
    using leave_event [OF s1(2), of t] unfolding k1_def [symmetric] by metis
  define k2 where "k2 = k1\<lparr>klists := s2\<rparr>"
  have inv2: "kinv True L T {t} k2 A2" using s2(2) by (simp add: k2_def)
  have free: "state_list k2 t = None" using s1(3) s2(3) by (simp add: k2_def k1_def state_list_def)
  have sus: "SuspendedList \<in> {Ready (uxPriority (tcbs k2 t)), WaitingTermination, SuspendedList}" by simp
  define k3 where "k3 = list_insert_end k2 SuspendedList (StateItem t)"
  note ins = insert_end_state [OF inv2 t(1) free sus, simplified, folded k3_def]
  have lo3: "lists_only k k3" by (simp add: k3_def k2_def k1_def list_insert_end_def)
  have l3: "state_list k3 = (state_list k)(t := Some SuspendedList)" "event_list k3 = (event_list k)(t := None)"
    "itemval (klists k3) = itemval (klists k)"
    using ins(2,3) s1(3,4) s2(3,4)
    by (simp_all add: k2_def k1_def state_list_def event_list_def itemval_def fun_eq_iff)
  note f3 = lists_onlyD [OF lo3]
  define f where "f b = (if ucNotifyState (tcbs k t) = taskWAITING_NOTIFICATION
    then b\<lparr>ucNotifyState := taskNOT_WAITING_NOTIFICATION\<rparr> else b)" for b :: tcb
  define k4 where "k4 = set_tcb k3 t f"
  define k5 where "k5 = prvResetNextTaskUnblockTime k4"
  define k' where "k' = (if t = c then vPortYield k5 else k5)"
  have p: "uxPriority (f b) = uxPriority b" for b by (simp add: f_def)
  have inv4: "kinv True L T {} k4 (A2(SuspendedList := seq_insert_end (A2 SuspendedList) (StateItem t)))"
    using ins(1) by (simp add: k4_def kinv_set_tcb p)
  have inv': "kinv True L T {} k' (A2(SuspendedList := seq_insert_end (A2 SuspendedList) (StateItem t)))"
    using reset_next' [OF inv4] unfolding k'_def k5_def vPortYield_def by (cases "t = c") simp_all
  have lo5: "lists_only k4 k5" "klists k5 = klists k4" by (simp_all add: k5_def)
  note s5 = lists_yield_lists [OF lo5] and f5 = lists_onlyD [OF lo5(1)]
  have l': "state_list k' = (state_list k)(t := Some SuspendedList)" "event_list k' = (event_list k)(t := None)"
    "tcbs k' = (tcbs k)(t := f (tcbs k t))" "pxCurrentTCB k' = Some c"
    "uxSchedulerSuspended k' = uxSchedulerSuspended k" "xPendedTicks k' = xPendedTicks k"
    "xYieldPending k' = xYieldPending k" "pendsv k' \<longleftrightarrow> t = c"
    "uxDeletedTasksWaitingCleanUp k' = uxDeletedTasksWaitingCleanUp k"
    "uxCurrentNumberOfTasks k' = uxCurrentNumberOfTasks k" "xSchedulerRunning k' = xSchedulerRunning k"
    using l3 f3 f5 s5 np c by (simp_all add: k'_def k4_def vPortYield_def)
  have w: "wait_left k' u = wait_left k u" if "u \<noteq> t" for u
  proof -
    have "wait_left k3 u = wait_left k u"
      by (rule wait_left_lists_only [OF lo3 _ l3(3)]) (simp add: l3 that)
    moreover have "wait_left k' = wait_left k3" using s5(4) by (simp add: k'_def k4_def vPortYield_def)
    ultimately show ?thesis by simp
  qed
  have rd: "ready k' u \<longleftrightarrow> u \<noteq> t \<and> ready k u" for u by (simp add: ready_def l'(1))
  have wt: "state_list k' u = Some WaitingTermination \<longleftrightarrow> state_list k u = Some WaitingTermination" for u
    using nw by (simp add: l'(1))
  have "vTaskSuspend k (Some t) = Some k'"
  proof -
    have run: "xSchedulerRunning k4" "pxCurrentTCB k5 = Some c" "xSchedulerRunning k5"
      "t = c \<Longrightarrow> uxSchedulerSuspended k5 = 0"
      using f3 f5 restD(4) [OF r] c self by (simp_all add: k4_def)
    have e4: "(if ucNotifyState (tcbs k3 t) = taskWAITING_NOTIFICATION
               then set_tcb k3 t (\<lambda>b. b\<lparr>ucNotifyState := taskNOT_WAITING_NOTIFICATION\<rparr>) else k3) = k4"
      using f3 by (auto simp: k4_def f_def [abs_def] set_tcb_def)
    have "vTaskSuspend k (Some t) = Option.bind (listREMOVE_ITEM k (StateItem t)) (\<lambda>k1.
      Option.bind (leave_event_list k1 t) (\<lambda>k2.
      let k3 = list_insert_end k2 SuspendedList (StateItem t);
          k4 = (if ucNotifyState (tcbs k3 t) = taskWAITING_NOTIFICATION
                then set_tcb k3 t (\<lambda>b. b\<lparr>ucNotifyState := taskNOT_WAITING_NOTIFICATION\<rparr>) else k3);
          k5 = (if xSchedulerRunning k4 then prvResetNextTaskUnblockTime k4 else k4) in
      if Some t = pxCurrentTCB k5 then
       (if xSchedulerRunning k5 then
          (if uxSchedulerSuspended k5 = 0 then Some (vPortYield k5) else None)
        else if listCURRENT_LIST_LENGTH (klists k5) SuspendedList = uxCurrentNumberOfTasks k5
        then Some (k5\<lparr>pxCurrentTCB := None\<rparr>) else vTaskSwitchContext k5)
      else Some k5))"
      by (simp add: vTaskSuspend_def Let_def)
    then show ?thesis
      unfolding s1(1) k1_def [symmetric] Option.bind.bind_lunit s2(1) k2_def [symmetric] Let_def
        k3_def [symmetric] e4 if_P [OF run(1)] k5_def [symmetric]
      using run by (auto simp: k'_def)
  qed
  moreover have "sched_ok L T idle k'"
  proof (rule sched_okI [OF inv' _ _ l'(4)])
    show "rest T idle k'"
    proof -
      have "c \<in> T" using restD(7) [OF r] c by auto
      moreover have "state_list k' idle = Some (Ready 0)" using t(2) restD(3) [OF r] by (simp add: l'(1))
      ultimately show ?thesis
        unfolding rest_def wt using restD(1,2,4-6) [OF r] restD(8-10) [OF r]
        by (auto simp: rd l'(2-) p f_def)
    qed
    show "cur_top k'"
      using sched_okD(3) [OF ok] c np by (auto simp: cur_top_def rd l' p)
    show "uxSchedulerSuspended k' \<noteq> 0 \<or> \<not> pendsv k' \<Longrightarrow> ready k' c"
      using sched_okD(7) [OF ok c] np self by (auto simp: rd l')
  qed (use sched_okD(4-6) [OF ok] np in \<open>auto simp: l' pending_def\<close>)
  moreover have "waits_less 0 k k' d \<and> tcbs k' d = tcbs k d" if "d \<noteq> t" for d
    using waits_less_same [OF inv, of k' d] w [OF that] that by (simp add: l')
  moreover have "ucNotifyState (tcbs k' t) \<noteq> taskWAITING_NOTIFICATION" by (simp add: l' f_def)
  ultimately show ?thesis using l'(5,6,8) by (intro exI [of _ k']) (simp add: good_step_def l'(1,2))
qed

end
