(* ===== verification/RTOS_Life.thy ===== *)
theory RTOS_Life
  imports RTOS_Ops
begin

text \<open>
  Tasks that come and go: a task is created and joins the ready ones, deletes itself or is
  deleted by another, and the idle task cleans up what deleted itself.
\<close>

section \<open>A new task\<close>

text \<open>What the initialisation of a control block leaves alone.\<close>

definition set_up :: "kernel \<Rightarrow> nat \<Rightarrow> nat \<Rightarrow> kernel" where
  "set_up k t prio = (set_tcb k t (\<lambda>_. \<lparr>uxPriority = prio, uxBasePriority = prio, uxTCBNumber = 0,
       ulNotifiedValue = 0, ucNotifyState = taskNOT_WAITING_NOTIFICATION, ucDelayAborted = False\<rparr>))
     \<lparr>klists := listSET_LIST_ITEM_OWNER (listSET_LIST_ITEM_VALUE (listSET_LIST_ITEM_OWNER
        (vListInitialiseItem (vListInitialiseItem (klists k) (StateItem t)) (EventItem t)) (StateItem t) t)
        (EventItem t) (of_nat configMAX_PRIORITIES - of_nat prio)) (EventItem t) t\<rparr>"

lemma prvInitialiseNewTask_set_up:
  "prio < configMAX_PRIORITIES \<Longrightarrow> prvInitialiseNewTask k t prio = Some (set_up k t prio)"
  by (simp add: prvInitialiseNewTask_def set_up_def Let_def)

lemma set_up_lists:
  assumes ok: "lists_ok L (klists k) A"
    and free: "pxContainer (klists k) (StateItem t) = None" "pxContainer (klists k) (EventItem t) = None"
  shows "lists_ok L (klists (set_up k t prio)) A"
    "pxContainer (klists (set_up k t prio)) = pxContainer (klists k)"
    "pvOwner (klists (set_up k t prio)) = (pvOwner (klists k))(StateItem t := Some t, EventItem t := Some t)"
    "itemval (klists (set_up k t prio)) (StateItem u) = itemval (klists k) (StateItem u)"
proof -
  have 1: "lists_ok L (vListInitialiseItem (klists k) (StateItem t)) A"
    by (rule vListInitialiseItem_ok [OF ok free(1)])
  have 2: "lists_ok L (vListInitialiseItem (vListInitialiseItem (klists k) (StateItem t)) (EventItem t)) A"
    by (rule vListInitialiseItem_ok [OF 1]) (use free in \<open>simp add: vListInitialiseItem_def\<close>)
  show "lists_ok L (klists (set_up k t prio)) A"
    unfolding set_up_def
    by (simp add: listSET_LIST_ITEM_OWNER_ok listSET_LIST_ITEM_VALUE_ok 2)
  show "pxContainer (klists (set_up k t prio)) = pxContainer (klists k)"
    using free by (auto simp: set_up_def vListInitialiseItem_def listSET_LIST_ITEM_OWNER_def
        listSET_LIST_ITEM_VALUE_def fun_eq_iff)
  show "pvOwner (klists (set_up k t prio)) = (pvOwner (klists k))(StateItem t := Some t, EventItem t := Some t)"
    "itemval (klists (set_up k t prio)) (StateItem u) = itemval (klists k) (StateItem u)"
    by (simp_all add: set_up_def vListInitialiseItem_def listSET_LIST_ITEM_OWNER_def
        listSET_LIST_ITEM_VALUE_def itemval_def fun_eq_iff)
qed

lemma set_up_fields [simp]:
  "pxCurrentTCB (set_up k t prio) = pxCurrentTCB k" "uxTopReadyPriority (set_up k t prio) = uxTopReadyPriority k"
  "pxDelayedTaskList (set_up k t prio) = pxDelayedTaskList k"
  "pxOverflowDelayedTaskList (set_up k t prio) = pxOverflowDelayedTaskList k"
  "uxDeletedTasksWaitingCleanUp (set_up k t prio) = uxDeletedTasksWaitingCleanUp k"
  "uxCurrentNumberOfTasks (set_up k t prio) = uxCurrentNumberOfTasks k"
  "xTickCount (set_up k t prio) = xTickCount k" "xSchedulerRunning (set_up k t prio) = xSchedulerRunning k"
  "xPendedTicks (set_up k t prio) = xPendedTicks k" "xYieldPending (set_up k t prio) = xYieldPending k"
  "xNextTaskUnblockTime (set_up k t prio) = xNextTaskUnblockTime k"
  "uxSchedulerSuspended (set_up k t prio) = uxSchedulerSuspended k" "pendsv (set_up k t prio) = pendsv k"
  "uxPriority (tcbs (set_up k t prio) u) = (if u = t then prio else uxPriority (tcbs k u))"
  "ucNotifyState (tcbs (set_up k t prio) u) =
     (if u = t then taskNOT_WAITING_NOTIFICATION else ucNotifyState (tcbs k u))"
  by (simp_all add: set_up_def)

text \<open>A task that is set up is loose, until it is on its ready list.\<close>

lemma set_up_kinv:
  assumes inv: "kinv True L T {} k A" and t: "t \<notin> T" and small: "card T + 1 < 2 ^ 30"
    and prio: "prio < configMAX_PRIORITIES"
  shows "kinv True L (insert t T) {t} (set_up k t prio) A"
proof -
  have ok: "store_ok L T {} (\<lambda>t. uxPriority (tcbs k t)) (klists k) A" using inv by (simp add: kinv_def)
  have free: "pxContainer (klists k) (StateItem t) = None" "pxContainer (klists k) (EventItem t) = None"
    using store_okD(6) [OF ok, of t] store_okD(8) [OF ok, of t] t by (meson not_Some_eq)+
  note sl = set_up_lists [OF store_okD(1) [OF ok] free, of prio]
  have "store_ok L (insert t T) {t} (\<lambda>u. if u = t then prio else uxPriority (tcbs k u)) (klists (set_up k t prio)) A"
    using ok sl(1-3) t prio small free unfolding store_ok_def by auto
  moreover have "delays_ok True (itemval (klists (set_up k t prio))) A (pxDelayedTaskList k)
      (pxOverflowDelayedTaskList k) (xTickCount k) (xNextTaskUnblockTime k)"
  proof (rule delays_ok_cong [OF kinv_delays [OF inv] refl refl])
    fix i assume "i \<in> set (fst (A (pxDelayedTaskList k))) \<union> set (fst (A (pxOverflowDelayedTaskList k)))"
    then obtain l where "i \<in> set (fst (A l))" "l \<in> {Delayed1, Delayed2}"
      using kinv_delayed_core(1,2) [OF inv] by auto
    then obtain u where "i = StateItem u"
      using kinv_item [OF inv, of i l] by auto
    then show "itemval (klists (set_up k t prio)) i = itemval (klists k) i" using sl(4) by simp
  qed
  ultimately show ?thesis using inv by (simp add: kinv_def)
qed

text \<open>The last part of adding a task: its number, and its ready list.\<close>

definition enter :: "kernel \<Rightarrow> nat \<Rightarrow> kernel" where
  "enter k t = prvAddTaskToReadyList
     (set_tcb (k\<lparr>uxTaskNumber := uxTaskNumber k + 1\<rparr>) t (\<lambda>b. b\<lparr>uxTCBNumber := uxTaskNumber k + 1\<rparr>)) t"

lemma kinv_number [simp]: "kinv b L T X (k\<lparr>uxTaskNumber := n\<rparr>) A = kinv b L T X k A"
  by (simp add: kinv_def)

lemma enter_ok:
  assumes inv: "kinv True L T {t} k A" and t: "t \<in> T"
  shows "\<exists>A'. kinv True L T {} (enter k t) A'"
    "state_list (enter k t) u = (if u = t then Some (Ready (uxPriority (tcbs k t))) else state_list k u)"
    "event_list (enter k t) = event_list k"
    "uxPriority (tcbs (enter k t) u) = uxPriority (tcbs k u)"
    "ucNotifyState (tcbs (enter k t) u) = ucNotifyState (tcbs k u)"
    "pxCurrentTCB (enter k t) = pxCurrentTCB k" "uxCurrentNumberOfTasks (enter k t) = uxCurrentNumberOfTasks k"
    "uxDeletedTasksWaitingCleanUp (enter k t) = uxDeletedTasksWaitingCleanUp k"
    "xSchedulerRunning (enter k t) = xSchedulerRunning k" "xTickCount (enter k t) = xTickCount k"
    "uxSchedulerSuspended (enter k t) = uxSchedulerSuspended k" "xPendedTicks (enter k t) = xPendedTicks k"
    "pendsv (enter k t) = pendsv k" "xYieldPending (enter k t) = xYieldPending k"
    "pxDelayedTaskList (enter k t) = pxDelayedTaskList k"
    "pxOverflowDelayedTaskList (enter k t) = pxOverflowDelayedTaskList k"
    "u \<noteq> t \<Longrightarrow> tcbs (enter k t) u = tcbs k u" "itemval (klists (enter k t)) = itemval (klists k)"
proof -
  define k1 where "k1 = set_tcb (k\<lparr>uxTaskNumber := uxTaskNumber k + 1\<rparr>) t (\<lambda>b. b\<lparr>uxTCBNumber := uxTaskNumber k + 1\<rparr>)"
  have inv1: "kinv True L T {t} k1 A" using inv by (simp add: k1_def kinv_set_tcb)
  have e: "enter k t = prvAddTaskToReadyList k1 t" by (simp add: enter_def k1_def)
  note add = add_ready [OF inv1 singletonI t, folded e]
  have l1: "state_list k1 = state_list k" "event_list k1 = event_list k"
    by (simp_all add: k1_def state_list_def event_list_def fun_eq_iff)
  show "\<exists>A'. kinv True L T {} (enter k t) A'" using add(1) by auto
  show "state_list (enter k t) u = (if u = t then Some (Ready (uxPriority (tcbs k t))) else state_list k u)"
    "event_list (enter k t) = event_list k"
    using add(2,3) by (auto simp: l1 fun_eq_iff) (simp add: k1_def)
  have lo: "lists_only k1 (enter k t)" by (simp add: e)
  show "uxPriority (tcbs (enter k t) u) = uxPriority (tcbs k u)"
    "ucNotifyState (tcbs (enter k t) u) = ucNotifyState (tcbs k u)"
    "pxCurrentTCB (enter k t) = pxCurrentTCB k" "uxCurrentNumberOfTasks (enter k t) = uxCurrentNumberOfTasks k"
    "uxDeletedTasksWaitingCleanUp (enter k t) = uxDeletedTasksWaitingCleanUp k"
    "xSchedulerRunning (enter k t) = xSchedulerRunning k" "xTickCount (enter k t) = xTickCount k"
    "uxSchedulerSuspended (enter k t) = uxSchedulerSuspended k" "xPendedTicks (enter k t) = xPendedTicks k"
    "pendsv (enter k t) = pendsv k" "xYieldPending (enter k t) = xYieldPending k"
    "pxDelayedTaskList (enter k t) = pxDelayedTaskList k"
    "pxOverflowDelayedTaskList (enter k t) = pxOverflowDelayedTaskList k"
    "u \<noteq> t \<Longrightarrow> tcbs (enter k t) u = tcbs k u"
    using lists_onlyD [OF lo] by (auto simp: k1_def)
  show "itemval (klists (enter k t)) = itemval (klists k)" using add(4) by (simp add: k1_def)
qed

section \<open>Creation in a running system\<close>

lemma sched_tasks:
  assumes "sched_ok L T idle k"
  shows "T = {t. state_list k t \<noteq> None}" "state_list k t = None \<Longrightarrow> event_list k t = None" "finite T"
    "card T < 2 ^ 30" "unat (uxCurrentNumberOfTasks k) = card T"
proof -
  obtain A where inv: "kinv True L T {} k A" using sched_okD(1) [OF assms] by blast
  show T: "T = {t. state_list k t \<noteq> None}"
    using kinv_state(1) [OF inv] kinv_loose [OF inv] by blast
  show "state_list k t = None \<Longrightarrow> event_list k t = None"
    using kinv_event_set(2) [OF inv, of t] T by (cases "event_list k t") auto
  show f: "finite T" "card T < 2 ^ 30" using inv by (simp_all add: kinv_def store_ok_def)
  show "unat (uxCurrentNumberOfTasks k) = card T"
    using restD(5) [OF sched_okD(2) [OF assms]] f(2) by (simp add: unat_of_nat)
qed

lemma create_step:
  assumes ok: "sched_ok L T idle k" and np: "\<not> pendsv k" and t: "state_list k t = None"
    and small: "uxCurrentNumberOfTasks k < 2 ^ 30 - 1" and prio: "prio < configMAX_PRIORITIES"
  shows "\<exists>k'. xTaskCreate k (Some t) prio = Some (True, k') \<and> good_step L (insert t T) idle 0 {t} k k' \<and>
    uxSchedulerSuspended k' = uxSchedulerSuspended k \<and> xPendedTicks k' = xPendedTicks k"
proof -
  obtain A where inv: "kinv True L T {} k A" using sched_okD(1) [OF ok] by blast
  have r: "rest T idle k" using sched_okD(2) [OF ok] .
  obtain c where c: "c \<in> T" "pxCurrentTCB k = Some c" using restD(7) [OF r] by auto
  note tasks = sched_tasks [OF ok]
  have tT: "t \<notin> T" using tasks(1) t by blast
  have ev: "event_list k t = None" using tasks(2) t by blast
  have ct: "c \<noteq> t" and it: "idle \<noteq> t" using c(1) restD(1) [OF r] tT by auto
  have sm: "card T + 1 < 2 ^ 30" using small tasks(5) by (simp add: word_less_nat_alt)
  define k1 where "k1 = set_up k t prio"
  have inv1: "kinv True L (insert t T) {t} k1 A" unfolding k1_def by (rule set_up_kinv [OF inv tT sm prio])
  have sok: "store_ok L T {} (\<lambda>t. uxPriority (tcbs k t)) (klists k) A" using inv by (simp add: kinv_def)
  have free: "pxContainer (klists k) (StateItem t) = None" "pxContainer (klists k) (EventItem t) = None"
    using t ev by (simp_all add: state_list_def event_list_def)
  note s1 = set_up_lists [OF store_okD(1) [OF sok] free, of prio, folded k1_def]
  define k2 where "k2 = k1\<lparr>uxCurrentNumberOfTasks := uxCurrentNumberOfTasks k + 1\<rparr>"
  have inv2: "kinv True L (insert t T) {t} k2 A" using inv1 by (simp add: k2_def kinv_def)
  note en = enter_ok [OF inv2 insertI1]
  define hi where "hi \<longleftrightarrow> uxPriority (tcbs k c) < prio"
  define k' where "k' = (if hi then vPortYield (enter k2 t) else enter k2 t)"
  have l2: "state_list k2 = state_list k" "event_list k2 = event_list k"
    by (simp_all add: k2_def state_list_def event_list_def s1(2) fun_eq_iff)
  have l': "state_list k' u = (if u = t then Some (Ready prio) else state_list k u)"
    "event_list k' = event_list k" "uxPriority (tcbs k' u) = (if u = t then prio else uxPriority (tcbs k u))"
    "ucNotifyState (tcbs k' u) = (if u = t then taskNOT_WAITING_NOTIFICATION else ucNotifyState (tcbs k u))"
    "pxCurrentTCB k' = Some c" "uxSchedulerSuspended k' = uxSchedulerSuspended k"
    "xPendedTicks k' = xPendedTicks k" "pendsv k' \<longleftrightarrow> hi" "xYieldPending k' = xYieldPending k"
    "xSchedulerRunning k'" "uxCurrentNumberOfTasks k' = uxCurrentNumberOfTasks k + 1"
    "uxDeletedTasksWaitingCleanUp k' = uxDeletedTasksWaitingCleanUp k" for u
    using en(2-14) l2 c(2) np restD(4) [OF r] by (auto simp: k'_def vPortYield_def k2_def k1_def)
  have rd: "ready k' u \<longleftrightarrow> u = t \<or> ready k u" for u by (auto simp: ready_def l'(1))
  obtain A' where inv': "kinv True L (insert t T) {} k' A'"
    using en(1) by (auto simp: k'_def vPortYield_def)
  have "xTaskCreate k (Some t) prio = Some (True, k')"
  proof -
    have "pxCurrentTCB (enter k2 t) = Some c" "xSchedulerRunning (enter k2 t)"
      "uxPriority (tcbs (enter k2 t) c) = uxPriority (tcbs k c)" "uxPriority (tcbs (enter k2 t) t) = prio"
      using en(4,6,9) c(2) restD(4) [OF r] ct by (simp_all add: k2_def k1_def)
    then have y: "taskYIELD_ANY_CORE_IF_USING_PREEMPTION (enter k2 t) t = Some k'"
      by (simp add: taskYIELD_ANY_CORE_IF_USING_PREEMPTION_def k'_def hi_def)
    have "xSchedulerRunning k1" "pxCurrentTCB k1 = Some c" "uxCurrentNumberOfTasks k1 = uxCurrentNumberOfTasks k"
      using c(2) restD(4) [OF r] by (simp_all add: k1_def)
    then have "prvAddNewTaskToReadyList k1 t = taskYIELD_ANY_CORE_IF_USING_PREEMPTION (enter k2 t) t"
      using \<open>xSchedulerRunning (enter k2 t)\<close>
      by (simp add: prvAddNewTaskToReadyList_def Let_def enter_def k2_def)
    then show ?thesis using y prio by (simp add: xTaskCreate_def prvInitialiseNewTask_set_up k1_def)
  qed
  moreover have "sched_ok L (insert t T) idle k'"
  proof (rule sched_okI [OF inv' _ _ l'(5)])
    have "{u \<in> insert t T. state_list k' u = Some WaitingTermination} = {u \<in> T. state_list k u = Some WaitingTermination}"
      using t by (auto simp: l'(1))
    then show "rest (insert t T) idle k'"
      using r it tT ev tasks(3) c(1) unfolding rest_def by (auto simp: l' rd)
    show "cur_top k'" using sched_okD(3) [OF ok] c(2) np ct
      by (auto simp: cur_top_def rd l' hi_def not_less)
    show "uxSchedulerSuspended k' \<noteq> 0 \<or> \<not> pendsv k' \<Longrightarrow> ready k' c"
      using sched_okD(7) [OF ok c(2)] np by (simp add: rd)
  qed (use sched_okD(4-6) [OF ok] np in \<open>auto simp: l' pending_def\<close>)
  moreover have "waits_less 0 k k' d \<and> tcbs k' d = tcbs k d" if "d \<noteq> t" for d
  proof -
    have "tcbs k' d = tcbs k d" using en(17) [OF that] that
      by (simp add: k'_def vPortYield_def k2_def k1_def set_up_def)
    moreover have "wait_left k' d = wait_left k d"
      using en(10,15,16,18) s1(4) l'(1) that
      by (simp add: wait_left_def) (simp add: k'_def vPortYield_def k2_def k1_def)
    ultimately show ?thesis using waits_less_same [OF inv, of k' d] l'(1,2) that by simp
  qed
  ultimately show ?thesis using l'(6,7) by (intro exI [of _ k']) (simp add: good_step_def)
qed

section \<open>Deletion\<close>

text \<open>A task is taken off all lists.\<close>

lemma detach:
  assumes inv: "kinv True L T {} k A" and t: "t \<in> T"
  obtains s1 s A' where "listREMOVE_ITEM k (StateItem t) = Some (k\<lparr>klists := s1\<rparr>)"
    "leave_event_list (k\<lparr>klists := s1\<rparr>) t = Some (k\<lparr>klists := s\<rparr>)"
    "kinv True L T {t} (k\<lparr>klists := s\<rparr>) A'"
    "state_list (k\<lparr>klists := s\<rparr>) = (state_list k)(t := None)"
    "event_list (k\<lparr>klists := s\<rparr>) = (event_list k)(t := None)"
    "itemval s = itemval (klists k)"
proof -
  have "state_list k t \<noteq> None" using kinv_loose [OF inv t] by simp
  then obtain l where l: "state_list k t = Some l" by blast
  obtain s1 where s1: "listREMOVE_ITEM k (StateItem t) = Some (k\<lparr>klists := s1\<rparr>)"
    "kinv True L T {t} (k\<lparr>klists := s1\<rparr>) (A(l := seq_remove (A l) (StateItem t)))"
    "pxContainer s1 = (pxContainer (klists k))(StateItem t := None)" "xItemValue s1 = xItemValue (klists k)"
    by (rule remove_state [OF inv l])
  obtain s A' where s: "leave_event_list (k\<lparr>klists := s1\<rparr>) t = Some (k\<lparr>klists := s\<rparr>)"
    "kinv True L T {t} (k\<lparr>klists := s\<rparr>) A'"
    "pxContainer s = (pxContainer s1)(EventItem t := None)" "xItemValue s = xItemValue s1"
    using leave_event [OF s1(2), of t] by simp metis
  show ?thesis
    by (rule that [OF s1(1) s(1,2)])
       (use s1(3,4) s(3,4) in \<open>simp_all add: state_list_def event_list_def itemval_def fun_eq_iff\<close>)
qed

lemma kinv_forget:
  assumes "kinv True L T {t} k A" and "event_list k t = None"
  shows "kinv True L (T - {t}) {} k A"
proof -
  have ok: "store_ok L T {t} (\<lambda>t. uxPriority (tcbs k t)) (klists k) A" using assms(1) by (simp add: kinv_def)
  have t: "t \<in> T" using ok by (simp add: store_ok_def)
  then have none: "pxContainer (klists k) (StateItem t) = None" "pxContainer (klists k) (EventItem t) = None"
    using store_okD(10) [OF ok t] assms(2) by (simp_all add: event_list_def)
  have "card (T - {t}) \<le> card T" using ok by (simp add: store_ok_def card_Diff1_le)
  then have "store_ok L (T - {t}) {} (\<lambda>t. uxPriority (tcbs k t)) (klists k) A"
    using ok none unfolding store_ok_def by auto
  then show ?thesis using assms(1) by (simp add: kinv_def)
qed

lemma vTaskDelete_unfold:
  "vTaskDelete k (Some t) = Option.bind (listREMOVE_ITEM k (StateItem t)) (\<lambda>k1.
     Option.bind (leave_event_list k1 t) (\<lambda>k2.
     let k3 = k2\<lparr>uxTaskNumber := uxTaskNumber k2 + 1\<rparr>;
         k4 = (if xSchedulerRunning k3 \<and> Some t = pxCurrentTCB k3 then
                 (list_insert_end k3 WaitingTermination (StateItem t))
                   \<lparr>uxDeletedTasksWaitingCleanUp := uxDeletedTasksWaitingCleanUp k3 + 1\<rparr>
               else prvResetNextTaskUnblockTime
                      (k3\<lparr>uxCurrentNumberOfTasks := uxCurrentNumberOfTasks k3 - 1\<rparr>))
     in if xSchedulerRunning k4 \<and> Some t = pxCurrentTCB k4 then
       (if uxSchedulerSuspended k4 = 0 then Some (vPortYield k4) else None)
     else Some k4))"
  by (simp add: vTaskDelete_def Let_def)

lemma counter_kinv [simp]:
  "kinv b L T X (k\<lparr>uxCurrentNumberOfTasks := n\<rparr>) A = kinv b L T X k A"
  "kinv b L T X (k\<lparr>uxDeletedTasksWaitingCleanUp := n\<rparr>) A = kinv b L T X k A"
  by (simp_all add: kinv_def)

lemma counter_lists [simp]:
  "state_list (k\<lparr>uxTaskNumber := n\<rparr>) = state_list k" "event_list (k\<lparr>uxTaskNumber := n\<rparr>) = event_list k"
  "state_list (k\<lparr>uxCurrentNumberOfTasks := n\<rparr>) = state_list k"
  "event_list (k\<lparr>uxCurrentNumberOfTasks := n\<rparr>) = event_list k"
  "state_list (k\<lparr>uxDeletedTasksWaitingCleanUp := n\<rparr>) = state_list k"
  "event_list (k\<lparr>uxDeletedTasksWaitingCleanUp := n\<rparr>) = event_list k"
  by (simp_all add: state_list_def event_list_def fun_eq_iff)

lemma delete_other_step:
  assumes ok: "sched_ok L T idle k" and np: "\<not> pendsv k" and t: "t \<in> T" "t \<noteq> idle"
    and nw: "state_list k t \<noteq> Some WaitingTermination" and other: "pxCurrentTCB k \<noteq> Some t"
  shows "\<exists>k'. vTaskDelete k (Some t) = Some k' \<and> good_step L (T - {t}) idle 0 {t} k k' \<and>
    uxSchedulerSuspended k' = uxSchedulerSuspended k \<and> xPendedTicks k' = xPendedTicks k"
proof -
  obtain A where inv: "kinv True L T {} k A" using sched_okD(1) [OF ok] by blast
  have r: "rest T idle k" using sched_okD(2) [OF ok] .
  obtain c where c: "c \<in> T" "pxCurrentTCB k = Some c" "c \<noteq> t" using restD(7) [OF r] other by auto
  obtain s1 s A' where s: "listREMOVE_ITEM k (StateItem t) = Some (k\<lparr>klists := s1\<rparr>)"
    "leave_event_list (k\<lparr>klists := s1\<rparr>) t = Some (k\<lparr>klists := s\<rparr>)"
    "kinv True L T {t} (k\<lparr>klists := s\<rparr>) A'"
    "state_list (k\<lparr>klists := s\<rparr>) = (state_list k)(t := None)"
    "event_list (k\<lparr>klists := s\<rparr>) = (event_list k)(t := None)"
    "itemval s = itemval (klists k)" by (rule detach [OF inv t(1)])
  define k3 where "k3 = k\<lparr>klists := s, uxTaskNumber := uxTaskNumber k + 1,
    uxCurrentNumberOfTasks := uxCurrentNumberOfTasks k - 1\<rparr>"
  define k' where "k' = prvResetNextTaskUnblockTime k3"
  have k3: "k3 = (k\<lparr>klists := s\<rparr>)\<lparr>uxTaskNumber := uxTaskNumber k + 1,
    uxCurrentNumberOfTasks := uxCurrentNumberOfTasks k - 1\<rparr>" by (simp add: k3_def)
  have l3: "state_list k3 = (state_list k)(t := None)" "event_list k3 = (event_list k)(t := None)"
    unfolding k3 using s(4,5) by simp_all
  have "kinv True L T {t} k3 A'" unfolding k3 using s(3) by simp
  then have "kinv True L (T - {t}) {} k3 A'" by (rule kinv_forget) (simp add: l3)
  then have inv': "kinv True L (T - {t}) {} k' A'" unfolding k'_def by (rule reset_next')
  have lo: "lists_only k3 k'" "klists k' = klists k3" by (simp_all add: k'_def)
  note f = lists_onlyD [OF lo(1)] and sl = lists_yield_lists(1,2) [OF lo, unfolded l3]
  have f': "tcbs k' = tcbs k" "pxCurrentTCB k' = Some c" "xSchedulerRunning k'"
    "uxCurrentNumberOfTasks k' = uxCurrentNumberOfTasks k - 1"
    "uxDeletedTasksWaitingCleanUp k' = uxDeletedTasksWaitingCleanUp k"
    "uxSchedulerSuspended k' = uxSchedulerSuspended k" "xPendedTicks k' = xPendedTicks k"
    "pendsv k' = pendsv k" "xYieldPending k' = xYieldPending k"
    using f c restD(4) [OF r] by (simp_all add: k3_def)
  have rd: "ready k' u \<longleftrightarrow> u \<noteq> t \<and> ready k u" for u by (auto simp: ready_def sl)
  have w: "wait_left k' d = wait_left k d" if "d \<noteq> t" for d
    using f s(6) that by (simp add: wait_left_def sl lo(2)) (simp add: k3_def)
  have "vTaskDelete k (Some t) = Some k'"
    unfolding vTaskDelete_unfold s(1) Option.bind.bind_lunit s(2)
    using other f'(2) c(3) by (simp add: Let_def k'_def k3_def)
  moreover have "sched_ok L (T - {t}) idle k'"
  proof (rule sched_okI [OF inv' _ _ f'(2)])
    have n: "card T > 0" "card (T - {t}) = card T - 1"
      using t(1) sched_tasks(3) [OF ok] by (auto simp: card_gt_0_iff)
    have "{u \<in> T - {t}. state_list k' u = Some WaitingTermination} = {u \<in> T. state_list k u = Some WaitingTermination}"
      using nw by (auto simp: sl)
    then show "rest (T - {t}) idle k'"
      using r t(2) c n unfolding rest_def by (auto simp: f' rd sl of_nat_diff)
    show "cur_top k'" using sched_okD(3) [OF ok] c(2) np by (auto simp: cur_top_def rd f')
    show "uxSchedulerSuspended k' \<noteq> 0 \<or> \<not> pendsv k' \<Longrightarrow> ready k' c"
      using sched_okD(7) [OF ok c(2)] np c(3) by (simp add: rd f')
  qed (use sched_okD(4-6) [OF ok] np in \<open>auto simp: f' sl pending_def\<close>)
  moreover have "waits_less 0 k k' d \<and> tcbs k' d = tcbs k d" if "d \<noteq> t" for d
    using waits_less_same [OF inv, of k' d] w [OF that] that by (simp add: sl f')
  ultimately show ?thesis using f'(6,7) by (intro exI [of _ k']) (simp add: good_step_def)
qed

lemma delete_self_step:
  assumes ok: "sched_ok L T idle k" and np: "\<not> pendsv k" and t: "pxCurrentTCB k = Some t" "t \<noteq> idle"
    and run: "uxSchedulerSuspended k = 0"
  shows "\<exists>k'. vTaskDelete k (Some t) = Some k' \<and> good_step L T idle 0 {t} k k' \<and>
    uxSchedulerSuspended k' = 0 \<and> xPendedTicks k' = xPendedTicks k"
proof -
  obtain A where inv: "kinv True L T {} k A" using sched_okD(1) [OF ok] by blast
  have r: "rest T idle k" using sched_okD(2) [OF ok] .
  have tT: "t \<in> T" using restD(7) [OF r] t(1) by auto
  have "ready k t" using sched_okD(7) [OF ok t(1)] np by simp
  then have nw: "state_list k t \<noteq> Some WaitingTermination" by (auto simp: ready_def)
  obtain s1 s A' where s: "listREMOVE_ITEM k (StateItem t) = Some (k\<lparr>klists := s1\<rparr>)"
    "leave_event_list (k\<lparr>klists := s1\<rparr>) t = Some (k\<lparr>klists := s\<rparr>)"
    "kinv True L T {t} (k\<lparr>klists := s\<rparr>) A'"
    "state_list (k\<lparr>klists := s\<rparr>) = (state_list k)(t := None)"
    "event_list (k\<lparr>klists := s\<rparr>) = (event_list k)(t := None)"
    "itemval s = itemval (klists k)" by (rule detach [OF inv tT])
  define k3 where "k3 = k\<lparr>klists := s, uxTaskNumber := uxTaskNumber k + 1\<rparr>"
  have k3: "k3 = (k\<lparr>klists := s\<rparr>)\<lparr>uxTaskNumber := uxTaskNumber k + 1\<rparr>" by (simp add: k3_def)
  have l3: "state_list k3 = (state_list k)(t := None)" "event_list k3 = (event_list k)(t := None)"
    unfolding k3 using s(4,5) by simp_all
  have inv3: "kinv True L T {t} k3 A'" unfolding k3 using s(3) by simp
  define k4 where "k4 = list_insert_end k3 WaitingTermination (StateItem t)"
  have free: "state_list k3 t = None" by (simp add: l3)
  have wt: "WaitingTermination \<in> {Ready (uxPriority (tcbs k3 t)), WaitingTermination, SuspendedList}" by simp
  note ins = insert_end_state [OF inv3 tT free wt, simplified, folded k4_def]
  define k' where "k' = vPortYield (k4\<lparr>uxDeletedTasksWaitingCleanUp := uxDeletedTasksWaitingCleanUp k3 + 1\<rparr>)"
  have l': "state_list k' = (state_list k)(t := Some WaitingTermination)" "event_list k' = (event_list k)(t := None)"
    using ins(2) l3 by (simp_all add: k'_def vPortYield_def state_list_def event_list_def fun_eq_iff)
  have iv: "itemval (klists k') = itemval (klists k)"
    using ins(3) s(6) by (simp add: k'_def vPortYield_def itemval_def fun_eq_iff k3_def)
  have f': "tcbs k' = tcbs k" "pxCurrentTCB k' = Some t" "xSchedulerRunning k'"
    "uxCurrentNumberOfTasks k' = uxCurrentNumberOfTasks k"
    "uxDeletedTasksWaitingCleanUp k' = uxDeletedTasksWaitingCleanUp k + 1"
    "uxSchedulerSuspended k' = 0" "xPendedTicks k' = xPendedTicks k" "pendsv k'"
    "xTickCount k' = xTickCount k" "pxDelayedTaskList k' = pxDelayedTaskList k"
    "pxOverflowDelayedTaskList k' = pxOverflowDelayedTaskList k"
    using t(1) run restD(4) [OF r] by (simp_all add: k'_def vPortYield_def k4_def k3_def)
  have inv': "kinv True L T {} k' (A'(WaitingTermination := seq_insert_end (A' WaitingTermination) (StateItem t)))"
    using ins(1) by (simp add: k'_def vPortYield_def)
  have rd: "ready k' u \<longleftrightarrow> u \<noteq> t \<and> ready k u" for u by (auto simp: ready_def l')
  have w: "wait_left k' d = wait_left k d" if "d \<noteq> t" for d
    using that by (simp add: wait_left_def l' f' iv)
  have "vTaskDelete k (Some t) = Some k'"
    unfolding vTaskDelete_unfold s(1) Option.bind.bind_lunit s(2)
    using t(1) run restD(4) [OF r] by (simp add: Let_def k'_def k4_def k3_def)
  moreover have "sched_ok L T idle k'"
  proof (rule sched_okI [OF inv' _ _ f'(2)])
    have "{u \<in> T. state_list k' u = Some WaitingTermination} = insert t {u \<in> T. state_list k u = Some WaitingTermination}"
      using tT by (auto simp: l')
    then have "card {u \<in> T. state_list k' u = Some WaitingTermination} =
        Suc (card {u \<in> T. state_list k u = Some WaitingTermination})"
      using nw sched_tasks(3) [OF ok] by simp
    then show "rest T idle k'"
      using r t(2) tT unfolding rest_def by (auto simp: f' rd l'(2)) (auto simp: l'(1))
    show "cur_top k'" using f' by (simp add: cur_top_def)
  qed (use sched_okD(4-6) [OF ok] f' run in \<open>auto simp: l' pending_def\<close>)
  moreover have "waits_less 0 k k' d \<and> tcbs k' d = tcbs k d" if "d \<noteq> t" for d
    using waits_less_same [OF inv, of k' d] w [OF that] that by (simp add: l' f')
  ultimately show ?thesis using f'(6,7) by (intro exI [of _ k']) (simp add: good_step_def)
qed

section \<open>Cleaning up\<close>

definition deleted_tasks :: "kernel \<Rightarrow> nat set" where
  "deleted_tasks k = {t. state_list k t = Some WaitingTermination}"

lemma deleted_count:
  assumes ok: "sched_ok L T idle k"
  shows "deleted_tasks k \<subseteq> T" "unat (uxDeletedTasksWaitingCleanUp k) = card (deleted_tasks k)"
proof -
  show sub: "deleted_tasks k \<subseteq> T" using sched_tasks(1) [OF ok] by (auto simp: deleted_tasks_def)
  have "{t \<in> T. state_list k t = Some WaitingTermination} = deleted_tasks k"
    using sub by (auto simp: deleted_tasks_def)
  moreover have "card (deleted_tasks k) < 2 ^ 30"
    using card_mono [OF sched_tasks(3) [OF ok] sub] sched_tasks(4) [OF ok] by simp
  ultimately show "unat (uxDeletedTasksWaitingCleanUp k) = card (deleted_tasks k)"
    using restD(6) [OF sched_okD(2) [OF ok]] by (simp add: unat_of_nat)
qed

lemma reap_step:
  assumes ok: "sched_ok L T idle k" and c: "pxCurrentTCB k = Some c" "ready k c"
    and ne: "deleted_tasks k \<noteq> {}"
  shows "\<exists>t k1 k'. t \<in> deleted_tasks k \<and>
    listGET_OWNER_OF_HEAD_ENTRY (klists k) WaitingTermination = Some t \<and>
    listREMOVE_ITEM k (StateItem t) = Some k1 \<and>
    k' = k1\<lparr>uxCurrentNumberOfTasks := uxCurrentNumberOfTasks k1 - 1,
            uxDeletedTasksWaitingCleanUp := uxDeletedTasksWaitingCleanUp k1 - 1\<rparr> \<and>
    good_step L (T - {t}) idle 0 {t} k k' \<and> deleted_tasks k' = deleted_tasks k - {t} \<and>
    pxCurrentTCB k' = Some c \<and> ready k' c \<and>
    uxSchedulerSuspended k' = uxSchedulerSuspended k \<and> xPendedTicks k' = xPendedTicks k"
proof -
  obtain A where inv: "kinv True L T {} k A" using sched_okD(1) [OF ok] by blast
  have r: "rest T idle k" using sched_okD(2) [OF ok] .
  have sok: "store_ok L T {} (\<lambda>t. uxPriority (tcbs k t)) (klists k) A" using inv by (simp add: kinv_def)
  obtain u where "state_list k u = Some WaitingTermination" using ne by (auto simp: deleted_tasks_def)
  then have "StateItem u \<in> set (fst (A WaitingTermination))" by (rule kinv_state(4) [OF inv])
  then obtain i xs where xs: "fst (A WaitingTermination) = i # xs" by (cases "fst (A WaitingTermination)") auto
  have "i \<in> set (fst (A WaitingTermination))" "WaitingTermination \<notin> insert PendingReady (range Event)"
    by (auto simp: xs)
  then obtain t where t: "i = StateItem t" "t \<in> T" "state_list k t = Some WaitingTermination"
    "pvOwner (klists k) i = Some t" by (rule kinv_item [OF inv])
  have hd: "listGET_OWNER_OF_HEAD_ENTRY (klists k) WaitingTermination = Some t"
    using list_head(1) [OF store_okD(1) [OF sok] core_in(4) [OF sok] xs] t(4) by simp
  obtain s where s: "listREMOVE_ITEM k (StateItem t) = Some (k\<lparr>klists := s\<rparr>)"
    "kinv True L T {t} (k\<lparr>klists := s\<rparr>) (A(WaitingTermination := seq_remove (A WaitingTermination) (StateItem t)))"
    "pxContainer s = (pxContainer (klists k))(StateItem t := None)" "xItemValue s = xItemValue (klists k)"
    by (rule remove_state [OF inv t(3)])
  define k1 where "k1 = k\<lparr>klists := s\<rparr>"
  define k' where "k' = k1\<lparr>uxCurrentNumberOfTasks := uxCurrentNumberOfTasks k1 - 1,
            uxDeletedTasksWaitingCleanUp := uxDeletedTasksWaitingCleanUp k1 - 1\<rparr>"
  have ev: "event_list k t = None" using restD(10) [OF r t(3)] .
  have l': "state_list k' = (state_list k)(t := None)" "event_list k' = event_list k"
    using s(3) by (simp_all add: k'_def k1_def state_list_def event_list_def fun_eq_iff)
  have "event_list (k\<lparr>klists := s\<rparr>) t = None" using s(3) ev by (simp add: event_list_def)
  then have inv': "kinv True L (T - {t}) {} k' (A(WaitingTermination := seq_remove (A WaitingTermination) (StateItem t)))"
    using kinv_forget [OF s(2)] by (simp add: k'_def k1_def)
  have f': "tcbs k' = tcbs k" "pxCurrentTCB k' = Some c" "xSchedulerRunning k'"
    "uxCurrentNumberOfTasks k' = uxCurrentNumberOfTasks k - 1"
    "uxDeletedTasksWaitingCleanUp k' = uxDeletedTasksWaitingCleanUp k - 1"
    "uxSchedulerSuspended k' = uxSchedulerSuspended k" "xPendedTicks k' = xPendedTicks k"
    "pendsv k' = pendsv k" "xYieldPending k' = xYieldPending k"
    using c restD(4) [OF r] by (simp_all add: k'_def k1_def)
  have tc: "t \<noteq> c" "t \<noteq> idle" using c(2) t(3) restD(3) [OF r] by (auto simp: ready_def)
  have rd: "ready k' u \<longleftrightarrow> ready k u" for u using t(3) by (auto simp: ready_def l')
  have w: "wait_left k' d = wait_left k d" if "d \<noteq> t" for d
    using that s(4) by (simp add: wait_left_def l'(1)) (simp add: k'_def k1_def itemval_def)
  have dt: "deleted_tasks k' = deleted_tasks k - {t}" by (auto simp: deleted_tasks_def l'(1))
  have "sched_ok L (T - {t}) idle k'"
  proof (rule sched_okI [OF inv' _ _ f'(2)])
    have n: "card T > 0" "card (T - {t}) = card T - 1"
      using t(2) sched_tasks(3) [OF ok] by (auto simp: card_gt_0_iff)
    define W where "W = {u \<in> T. state_list k u = Some WaitingTermination}"
    have W: "{u \<in> T - {t}. state_list k' u = Some WaitingTermination} = W - {t}" by (auto simp: l'(1) W_def)
    have m: "card W > 0" "card (W - {t}) = card W - 1"
      using t(2,3) sched_tasks(3) [OF ok] by (auto simp: card_gt_0_iff W_def)
    have "c \<in> T" using restD(7) [OF r] c(1) by simp
    moreover have "state_list k' idle = Some (Ready 0)" using restD(3) [OF r] tc(2) by (simp add: l'(1))
    moreover have "event_list k u = None" if "ready k u \<or> state_list k' u = Some WaitingTermination" for u
      using that restD(8,10) [OF r, of u] by (auto simp: l'(1) split: if_splits)
    ultimately show "rest (T - {t}) idle k'"
      unfolding rest_def W m(2) n(2) using restD(1,2) [OF r] restD(5,6) [OF r, folded W_def] restD(9) [OF r] tc m(1) n(1)
      by (auto simp: f' rd l'(2) of_nat_diff)
    show "cur_top k'" using sched_okD(3) [OF ok] c(1) by (auto simp: cur_top_def rd f')
    show "ready k' c" using c(2) by (simp add: rd)
  qed (use sched_okD(4-6) [OF ok] in \<open>auto simp: f' l' pending_def\<close>)
  moreover have "waits_less 0 k k' d \<and> tcbs k' d = tcbs k d" if "d \<noteq> t" for d
    using waits_less_same [OF inv, of k' d] w [OF that] that by (simp add: l' f')
  ultimately show ?thesis
    using s(1) hd t(3) f'(2,6,7) c(2) rd dt
    by (intro exI [of _ t] exI [of _ k1] exI [of _ k'])
       (simp add: good_step_def k1_def [symmetric] k'_def deleted_tasks_def [of k])
qed

lemma good_step_mono: "good_step L T idle n D k k' \<Longrightarrow> D \<subseteq> D' \<Longrightarrow> good_step L T idle n D' k k'"
  by (auto simp: good_step_def)

lemma clean_up_ok:
  assumes "sched_ok L T idle k" and "pxCurrentTCB k = Some c" and "ready k c" and "n = card (deleted_tasks k)"
  shows "\<exists>ts k'. clean_up_tasks n k = Some (ts, k') \<and> distinct ts \<and> set ts = deleted_tasks k \<and>
    good_step L (T - deleted_tasks k) idle 0 (deleted_tasks k) k k' \<and> deleted_tasks k' = {} \<and>
    uxSchedulerSuspended k' = uxSchedulerSuspended k \<and> xPendedTicks k' = xPendedTicks k"
  using assms
proof (induction n arbitrary: k T)
  case 0
  obtain A where inv: "kinv True L T {} k A" using sched_okD(1) [OF 0(1)] by blast
  have "finite (deleted_tasks k)"
    using deleted_count(1) [OF 0(1)] sched_tasks(3) [OF 0(1)] by (rule finite_subset)
  then have "deleted_tasks k = {}" using 0(4) by simp
  then show ?case using 0(1) waits_less_refl [OF inv] by (simp add: good_step_def)
next
  case (Suc n)
  note ok = Suc.prems(1)
  have ne: "deleted_tasks k \<noteq> {}" using Suc.prems(4) by auto
  from reap_step [OF ok Suc.prems(2,3) ne] obtain t k1 k' where t: "t \<in> deleted_tasks k"
    "listGET_OWNER_OF_HEAD_ENTRY (klists k) WaitingTermination = Some t"
    "listREMOVE_ITEM k (StateItem t) = Some k1"
    "k' = k1\<lparr>uxCurrentNumberOfTasks := uxCurrentNumberOfTasks k1 - 1,
            uxDeletedTasksWaitingCleanUp := uxDeletedTasksWaitingCleanUp k1 - 1\<rparr>"
    "good_step L (T - {t}) idle 0 {t} k k'" "deleted_tasks k' = deleted_tasks k - {t}"
    "pxCurrentTCB k' = Some c" "ready k' c"
    "uxSchedulerSuspended k' = uxSchedulerSuspended k" "xPendedTicks k' = xPendedTicks k"
    by (elim exE conjE) blast
  have ok': "sched_ok L (T - {t}) idle k'" using t(5) by (simp add: good_step_def)
  have n: "n = card (deleted_tasks k')" using Suc.prems(4) t(1,6) by simp
  from Suc.IH [OF ok' t(7,8) n] obtain ts k2 where k2: "clean_up_tasks n k' = Some (ts, k2)" "distinct ts"
    "set ts = deleted_tasks k'" "good_step L (T - {t} - deleted_tasks k') idle 0 (deleted_tasks k') k' k2"
    "deleted_tasks k2 = {}" "uxSchedulerSuspended k2 = uxSchedulerSuspended k'" "xPendedTicks k2 = xPendedTicks k'"
    by (elim exE conjE) blast
  have T: "T - {t} - deleted_tasks k' = T - deleted_tasks k" using t(1,6) by auto
  have "good_step L (T - deleted_tasks k) idle 0 (deleted_tasks k) k k2"
    by (rule good_step_0_trans [OF ok good_step_mono [OF t(5)] good_step_mono [OF k2(4) [unfolded T]]])
       (use t(1,6) in auto)
  moreover have "clean_up_tasks (Suc n) k = Some (t # ts, k2)" using t(2,3,4) k2(1) by simp
  ultimately show ?case using k2 t by (intro exI [of _ "t # ts"] exI [of _ k2]) auto
qed

text \<open>The idle task hands every task that deleted itself to the release of its memory, once.\<close>

lemma clean_up_step:
  assumes ok: "sched_ok L T idle k" and c: "pxCurrentTCB k = Some c" "ready k c"
  shows "\<exists>ts k'. prvCheckTasksWaitingTermination k = Some (ts, k') \<and> distinct ts \<and> set ts = deleted_tasks k \<and>
    good_step L (T - deleted_tasks k) idle 0 (deleted_tasks k) k k' \<and> deleted_tasks k' = {} \<and>
    uxSchedulerSuspended k' = uxSchedulerSuspended k \<and> xPendedTicks k' = xPendedTicks k"
  unfolding prvCheckTasksWaitingTermination_def
  by (rule clean_up_ok [OF ok c deleted_count(2) [OF ok]])

end
