(* ===== verification/RTOS_Run.thy ===== *)
theory RTOS_Run
  imports RTOS_Life
begin

text \<open>
  Runs of the scheduler: the interrupts, and the calls of the running task, in any order in which
  they can come; what every run keeps, and what it means for a task that waits.
\<close>

section \<open>Steps\<close>

datatype kernel_event = TickInterrupt | SwitchInterrupt | CallDelay u32 | CallTakeWait u32
  | CallTakeGet bool | CallNotify nat u32 eNotifyAction | CallSuspend nat | CallResume nat
  | WaitOnQueue nat u32 | WakeFromQueue nat | LockScheduler | UnlockScheduler
  | CallCreate nat nat | CallDelete nat | IdleCleanUp

fun kernel_step :: "kernel \<Rightarrow> kernel_event \<Rightarrow> kernel option" where
  "kernel_step k TickInterrupt = SysTick_Handler k"
| "kernel_step k SwitchInterrupt = PendSV_Handler k"
| "kernel_step k (CallDelay n) = vTaskDelay k n"
| "kernel_step k (CallTakeWait n) = ulTaskGenericNotifyTake_wait k n"
| "kernel_step k (CallTakeGet clear) = map_option snd (ulTaskGenericNotifyTake_take k clear)"
| "kernel_step k (CallNotify t v a) = map_option (snd \<circ> snd) (xTaskGenericNotify k t v a)"
| "kernel_step k (CallSuspend t) = vTaskSuspend k (Some t)"
| "kernel_step k (CallResume t) = vTaskResume k t"
| "kernel_step k (WaitOnQueue e n) = wait_on_queue k e n"
| "kernel_step k (WakeFromQueue e) = wake_from_queue k e"
| "kernel_step k LockScheduler = Some (vTaskSuspendAll k)"
| "kernel_step k UnlockScheduler = map_option snd (xTaskResumeAll k)"
| "kernel_step k (CallCreate t prio) = map_option snd (xTaskCreate k (Some t) prio)"
| "kernel_step k (CallDelete t) = vTaskDelete k (Some t)"
| "kernel_step k IdleCleanUp = map_option snd (prvCheckTasksWaitingTermination k)"

text \<open>A handle is that of a task that is there and was not deleted.\<close>

definition live :: "kernel \<Rightarrow> nat \<Rightarrow> bool" where
  "live k t \<longleftrightarrow> state_list k t \<noteq> None \<and> state_list k t \<noteq> Some WaitingTermination"

text \<open>
  When a step can come. The switch interrupt comes when it is pending, and a task calls only while
  it is not. Calls keep the rules of the API: the idle task never blocks and is never suspended or deleted,
  no task blocks, suspends or deletes itself while it holds the scheduler locked, handles are live,
  a task that waits for a notification waits for nothing else, a new task has a control block that
  is not in use, and the idle task cleans up.
\<close>

fun may_happen :: "nat \<Rightarrow> nat list \<Rightarrow> kernel \<Rightarrow> kernel_event \<Rightarrow> bool" where
  "may_happen idle qs k TickInterrupt \<longleftrightarrow> True"
| "may_happen idle qs k SwitchInterrupt \<longleftrightarrow> pendsv k"
| "may_happen idle qs k (CallDelay n) \<longleftrightarrow> \<not> pendsv k \<and>
     (n = 0 \<or> pxCurrentTCB k \<noteq> Some idle \<and> uxSchedulerSuspended k = 0)"
| "may_happen idle qs k (CallTakeWait n) \<longleftrightarrow> \<not> pendsv k \<and>
     pxCurrentTCB k \<noteq> Some idle \<and> uxSchedulerSuspended k = 0"
| "may_happen idle qs k (CallTakeGet clear) \<longleftrightarrow> \<not> pendsv k"
| "may_happen idle qs k (CallNotify t v a) \<longleftrightarrow> \<not> pendsv k \<and> live k t"
| "may_happen idle qs k (CallSuspend t) \<longleftrightarrow> \<not> pendsv k \<and> live k t \<and> t \<noteq> idle \<and>
     (pxCurrentTCB k = Some t \<longrightarrow> uxSchedulerSuspended k = 0)"
| "may_happen idle qs k (CallResume t) \<longleftrightarrow> \<not> pendsv k"
| "may_happen idle qs k (WaitOnQueue e n) \<longleftrightarrow> \<not> pendsv k \<and> pxCurrentTCB k \<noteq> Some idle \<and>
     uxSchedulerSuspended k = 0 \<and> e \<in> set qs \<and> n > 0 \<and>
     (case pxCurrentTCB k of None \<Rightarrow> False
      | Some c \<Rightarrow> ucNotifyState (tcbs k c) \<noteq> taskWAITING_NOTIFICATION)"
| "may_happen idle qs k (WakeFromQueue e) \<longleftrightarrow> e \<in> set qs \<and> \<not> listLIST_IS_EMPTY (klists k) (Event e)"
| "may_happen idle qs k LockScheduler \<longleftrightarrow> \<not> pendsv k \<and> uxSchedulerSuspended k + 1 \<noteq> 0"
| "may_happen idle qs k UnlockScheduler \<longleftrightarrow> \<not> pendsv k \<and> uxSchedulerSuspended k \<noteq> 0"
| "may_happen idle qs k (CallCreate t prio) \<longleftrightarrow> \<not> pendsv k \<and> state_list k t = None \<and>
     prio < configMAX_PRIORITIES \<and> uxCurrentNumberOfTasks k < 2 ^ 30 - 1"
| "may_happen idle qs k (CallDelete t) \<longleftrightarrow> \<not> pendsv k \<and> live k t \<and> t \<noteq> idle \<and>
     (pxCurrentTCB k = Some t \<longrightarrow> uxSchedulerSuspended k = 0)"
| "may_happen idle qs k IdleCleanUp \<longleftrightarrow> \<not> pendsv k \<and> pxCurrentTCB k = Some idle"

text \<open>The tasks a step is about; a step is about no other.\<close>

fun about :: "kernel \<Rightarrow> kernel_event \<Rightarrow> nat set" where
  "about k TickInterrupt = {}"
| "about k SwitchInterrupt = {}"
| "about k (CallNotify t v a) = {t}"
| "about k (CallSuspend t) = {t}"
| "about k (CallResume t) = {t}"
| "about k (WakeFromQueue e) = {t. event_list k t = Some (Event e)}"
| "about k LockScheduler = {}"
| "about k UnlockScheduler = {t. pending k t}"
| "about k (CallCreate t prio) = {t}"
| "about k (CallDelete t) = {t}"
| "about k IdleCleanUp = deleted_tasks k"
| "about k _ = set_option (pxCurrentTCB k)"

text \<open>The ticks a step takes off the waiting of the tasks.\<close>

fun takes_off :: "kernel \<Rightarrow> kernel_event \<Rightarrow> nat" where
  "takes_off k TickInterrupt = (if uxSchedulerSuspended k = 0 then 1 else 0)"
| "takes_off k UnlockScheduler = (if uxSchedulerSuspended k = 1 then unat (xPendedTicks k) else 0)"
| "takes_off k _ = 0"

fun pended_after :: "kernel \<Rightarrow> kernel_event \<Rightarrow> u32" where
  "pended_after k TickInterrupt = (if uxSchedulerSuspended k = 0 then 0 else xPendedTicks k + 1)"
| "pended_after k UnlockScheduler = (if uxSchedulerSuspended k = 1 then 0 else xPendedTicks k)"
| "pended_after k _ = xPendedTicks k"

lemma delay_0_step:
  assumes ok: "sched_ok L T idle k"
  shows "good_step L T idle 0 D k (vPortYield k)"
proof -
  obtain A where inv: "kinv True L T {} k A" using sched_okD(1) [OF ok] by blast
  obtain c where c: "pxCurrentTCB k = Some c" using restD(7) [OF sched_okD(2) [OF ok]] by auto
  have "sched_ok L T idle (vPortYield k)"
    by (rule readied_ok [OF ok _ _ c, where t = c])
       (use inv c sched_okD(2) [OF ok] in \<open>auto simp: vPortYield_def\<close>)
  moreover have "waits_less 0 k (vPortYield k) d" for d
    by (rule waits_less_same [OF inv]) (simp_all add: vPortYield_def)
  ultimately show ?thesis by (simp add: good_step_def vPortYield_def)
qed

lemma queue_waiter:
  assumes ok: "sched_ok L T idle k" and e: "Event e \<in> L" and ne: "\<not> listLIST_IS_EMPTY (klists k) (Event e)"
  shows "\<exists>t. event_list k t = Some (Event e)"
proof -
  obtain A where inv: "kinv True L T {} k A" using sched_okD(1) [OF ok] by blast
  have sok: "store_ok L T {} (\<lambda>t. uxPriority (tcbs k t)) (klists k) A" using inv by (simp add: kinv_def)
  have "fst (A (Event e)) \<noteq> []" using ne empty_iff_no_items [OF sok e] by simp
  then have "hd (fst (A (Event e))) \<in> set (fst (A (Event e)))" by simp
  then obtain t where "event_list k t = Some (Event e)" by (rule kinv_event_item [OF inv]) simp
  then show ?thesis by blast
qed

lemma kernel_step_ok:
  assumes ok: "sched_ok L T idle k" and may: "may_happen idle qs k ev"
    and q: "\<And>e. e \<in> set qs \<Longrightarrow> Event e \<in> L"
  shows "\<exists>k' T'. kernel_step k ev = Some k' \<and>
    good_step L T' idle (takes_off k ev) (about k ev) k k' \<and> xPendedTicks k' = pended_after k ev"
proof -
  have r: "rest T idle k" using sched_okD(2) [OF ok] .
  obtain c where c: "c \<in> T" "pxCurrentTCB k = Some c" using restD(7) [OF r] by auto
  have mb: "may_block idle k c" if "\<not> pendsv k" "pxCurrentTCB k \<noteq> Some idle" "uxSchedulerSuspended k = 0"
    using that c by (auto simp: may_block_def)
  have p0: "xPendedTicks k = 0" if "uxSchedulerSuspended k = 0" using sched_okD(4) [OF ok that] .
  have live: "t \<in> T" "state_list k t \<noteq> Some WaitingTermination" if "live k t" for t
    using that sched_tasks(1) [OF ok] by (auto simp: live_def)
  show ?thesis
  proof (cases ev)
    case TickInterrupt
    then show ?thesis using tick_step [OF ok] by auto
  next
    case SwitchInterrupt
    then show ?thesis using switch_step [OF ok] by auto
  next
    case (CallDelay n)
    show ?thesis
    proof (cases "n = 0")
      case True
      then have "vTaskDelay k n = Some (vPortYield k)" by (simp add: vTaskDelay_def)
      then show ?thesis using CallDelay delay_0_step [OF ok] by (auto simp: vPortYield_def)
    next
      case False
      then have m: "may_block idle k c" "n > 0" "uxSchedulerSuspended k = 0"
        using mb may CallDelay by (auto simp: word_neq_0_conv)
      show ?thesis using delay_step [OF ok m(1,2)] CallDelay c p0 [OF m(3)] by (auto simp: blocked_def)
    qed
  next
    case (CallTakeWait n)
    have m: "may_block idle k c" "uxSchedulerSuspended k = 0" using mb may CallTakeWait by auto
    show ?thesis
    proof (cases "ulNotifiedValue (tcbs k c) = 0 \<and> n > 0")
      case True
      then show ?thesis using take_wait_step [OF ok m(1), of n] CallTakeWait c p0 [OF m(2)] by (auto simp: blocked_def)
    next
      case False
      obtain A where inv: "kinv True L T {} k A" using sched_okD(1) [OF ok] by blast
      have "ulTaskGenericNotifyTake_wait k n = Some k" using False c by (auto simp: ulTaskGenericNotifyTake_wait_def)
      then show ?thesis using CallTakeWait ok waits_less_refl [OF inv] by (auto simp: good_step_def)
    qed
  next
    case (CallTakeGet clear)
    then show ?thesis using take_get_step [OF ok c(2), of clear] c by auto
  next
    case (CallNotify t v a)
    then show ?thesis using notify_step [OF ok, of t v a] may live [of t] by auto
  next
    case (CallSuspend t)
    then show ?thesis using suspend_step [OF ok, of t c] may c live [of t] by auto
  next
    case (CallResume t)
    then show ?thesis using resume_step [OF ok, of t] may by auto
  next
    case (WaitOnQueue e n)
    have m: "may_block idle k c" "uxSchedulerSuspended k = 0" using mb may WaitOnQueue by auto
    show ?thesis
      using wait_on_queue_step [OF ok m(1), of e n] WaitOnQueue may c q p0 [OF m(2)] by (auto simp: blocked_def)
  next
    case (WakeFromQueue e)
    then obtain t where t: "event_list k t = Some (Event e)" using queue_waiter [OF ok, of e] q may by auto
    then show ?thesis using wake_step [OF ok t] WakeFromQueue by auto
  next
    case LockScheduler
    then show ?thesis using lock_step [OF ok] may by (auto simp: vTaskSuspendAll_def)
  next
    case UnlockScheduler
    then have l: "uxSchedulerSuspended k \<noteq> 0" using may by simp
    show ?thesis using unlock_step [OF ok l] UnlockScheduler by (auto split: if_splits)
  next
    case (CallCreate t prio)
    then show ?thesis using create_step [OF ok, of t prio] may by auto
  next
    case (CallDelete t)
    show ?thesis
    proof (cases "t = c")
      case True
      then show ?thesis using delete_self_step [OF ok, of t] may c CallDelete p0 by auto
    next
      case False
      then show ?thesis using delete_other_step [OF ok, of t] may c live [of t] CallDelete by auto
    qed
  next
    case IdleCleanUp
    then have "ready k c" using sched_okD(7) [OF ok c(2)] may by simp
    then show ?thesis using clean_up_step [OF ok c(2)] IdleCleanUp by auto
  qed
qed

section \<open>Runs\<close>

inductive kernel_reach :: "nat \<Rightarrow> nat list \<Rightarrow> kernel \<Rightarrow> kernel_event list \<Rightarrow> kernel \<Rightarrow> bool"
  for idle qs k0 where
  reach_start: "kernel_reach idle qs k0 [] k0"
| reach_step: "kernel_reach idle qs k0 evs k \<Longrightarrow> may_happen idle qs k ev \<Longrightarrow>
    kernel_step k ev = Some k' \<Longrightarrow> kernel_reach idle qs k0 (evs @ [ev]) k'"

lemma reach_ok:
  assumes "kernel_reach idle qs k0 evs k" and "\<exists>T. sched_ok L T idle k0"
    and q: "\<And>e. e \<in> set qs \<Longrightarrow> Event e \<in> L"
  shows "\<exists>T. sched_ok L T idle k"
  using assms(1,2)
proof (induction rule: kernel_reach.induct)
  case (reach_step evs k ev k')
  then show ?case using kernel_step_ok [OF _ reach_step.hyps(2) q] by (fastforce simp: good_step_def)
qed

text \<open>While a task waits, no other step is about it.\<close>

lemma sched_cur_ready:
  assumes "sched_ok L T idle k" and "\<not> pendsv k" and "pxCurrentTCB k = Some c"
  shows "ready k c"
  using sched_okD(7) [OF assms(1,3)] assms(2) by simp

definition ticks_in :: "kernel_event list \<Rightarrow> nat" where
  "ticks_in evs = length (filter (\<lambda>ev. ev = TickInterrupt) evs)"

definition leaves_alone :: "nat \<Rightarrow> kernel_event list \<Rightarrow> bool" where
  "leaves_alone t evs \<longleftrightarrow> (\<forall>ev\<in>set evs. (\<forall>v a. ev \<noteq> CallNotify t v a) \<and> ev \<noteq> CallSuspend t \<and> ev \<noteq> CallResume t \<and>
     ev \<noteq> CallDelete t)"

text \<open>A task that sleeps: it waits for time alone.\<close>

definition sleeping :: "kernel \<Rightarrow> nat \<Rightarrow> nat \<Rightarrow> bool" where
  "sleeping k t left \<longleftrightarrow> wait_left k t = Some left \<and> event_list k t = None"

lemma about_not:
  assumes ok: "sched_ok L T idle k" and "\<not> ready k t" and "event_list k t = None" and "live k t"
    and "may_happen idle qs k ev"
    and "(\<forall>v a. ev \<noteq> CallNotify t v a) \<and> ev \<noteq> CallSuspend t \<and> ev \<noteq> CallResume t \<and> ev \<noteq> CallDelete t"
  shows "t \<notin> about k ev"
proof -
  have c: "pxCurrentTCB k \<noteq> Some t" if "\<not> pendsv k" using sched_cur_ready [OF ok that] assms(2) by auto
  then show ?thesis using assms(3-6) by (cases ev) (auto simp: pending_def live_def deleted_tasks_def)
qed

lemma sleep_run:
  assumes "kernel_reach idle qs k0 evs k" and ok: "\<exists>T. sched_ok L T idle k0"
    and q: "\<And>e. e \<in> set qs \<Longrightarrow> Event e \<in> L"
    and start: "sleeping k0 t n" "uxSchedulerSuspended k0 = 0" "n < 2 ^ 32"
    and "leaves_alone t evs" and "ticks_in evs < n"
  shows "sleeping k t (n - (ticks_in evs - unat (xPendedTicks k))) \<and> unat (xPendedTicks k) \<le> ticks_in evs"
  using assms(1,7,8)
proof (induction rule: kernel_reach.induct)
  case reach_start
  then show ?case using start ok sched_okD(4) by (fastforce simp: ticks_in_def)
next
  case (reach_step evs k ev k')
  have l: "leaves_alone t evs" and m: "ticks_in evs < n"
    and ev: "(\<forall>v a. ev \<noteq> CallNotify t v a) \<and> ev \<noteq> CallSuspend t \<and> ev \<noteq> CallResume t \<and> ev \<noteq> CallDelete t"
    using reach_step.prems by (auto simp: leaves_alone_def ticks_in_def split: if_splits)
  define p where "p = unat (xPendedTicks k)"
  define w where "w = n - (ticks_in evs - p)"
  have s: "sleeping k t w" and p: "p \<le> ticks_in evs"
    using reach_step.IH [OF l m] unfolding p_def w_def by blast+
  obtain T where okk: "sched_ok L T idle k" using reach_ok [OF reach_step.hyps(1) ok q] by blast
  obtain A where inv: "kinv True L T {} k A" using sched_okD(1) [OF okk] by blast
  have "\<not> ready k t" using s ready_wait [OF inv] by (auto simp: sleeping_def)
  moreover have "live k t"
    using s kinv_delayed_core [OF inv] by (auto simp: sleeping_def live_def wait_left_def split: if_splits)
  ultimately have nb: "t \<notin> about k ev"
    using about_not [OF okk _ _ _ reach_step.hyps(2) ev] s by (simp add: sleeping_def)
  obtain k1 T' where "kernel_step k ev = Some k1"
    "good_step L T' idle (takes_off k ev) (about k ev) k k1" "xPendedTicks k1 = pended_after k ev"
    using kernel_step_ok [OF okk reach_step.hyps(2) q] by blast
  then have st: "waits_less (takes_off k ev) k k' t" "xPendedTicks k' = pended_after k ev"
    using reach_step.hyps(3) nb by (auto simp: good_step_def)
  have tk: "ticks_in (evs @ [ev]) = (if ev = TickInterrupt then Suc (ticks_in evs) else ticks_in evs)"
    by (simp add: ticks_in_def)
  have p0: "p = 0" if "uxSchedulerSuspended k = 0" using sched_okD(4) [OF okk that] by (simp add: p_def)
  have off: "takes_off k ev < w \<and> w - takes_off k ev =
      n - (ticks_in (evs @ [ev]) - unat (pended_after k ev)) \<and> unat (pended_after k ev) \<le> ticks_in (evs @ [ev])"
  proof (cases ev)
    case TickInterrupt
    show ?thesis
    proof (cases "uxSchedulerSuspended k = 0")
      case True
      then show ?thesis using p0 TickInterrupt reach_step.prems(2) tk by (simp add: w_def)
    next
      case False
      have "xPendedTicks k + 1 \<noteq> 0"
      proof
        assume "xPendedTicks k + 1 = 0"
        then have "unat (xPendedTicks k) = 2 ^ 32 - 1" by (rule unat_wrap)
        then show False using p m start(3) reach_step.prems(2) tk TickInterrupt by (simp add: p_def)
      qed
      then have "unat (xPendedTicks k + 1) = Suc p" using unat_succ by (simp add: p_def)
      then show ?thesis using False TickInterrupt p m tk by (simp add: w_def)
    qed
  next
    case UnlockScheduler
    then show ?thesis using p m tk by (simp add: w_def p_def) linarith
  qed (use p m tk in \<open>simp_all add: w_def p_def\<close>)
  have "sleeping k' t (w - takes_off k ev)"
    using waits_lessD(7,8) [OF st(1), of w] s off by (simp add: sleeping_def)
  moreover have "w - takes_off k ev = n - (ticks_in (evs @ [ev]) - unat (pended_after k ev))"
    using off by blast
  ultimately show ?case using off unfolding st(2) by metis
qed

end
