(* ===== verification/RTOS_Boot.thy ===== *)
theory RTOS_Boot
  imports RTOS_Run
begin

text \<open>
  From reset to the running scheduler: the queues are set up, the tasks are created and the
  scheduler is started. What holds then holds in every run.
\<close>

section \<open>Setting up\<close>

text \<open>The list of waiting tasks of each queue, as the reset of a queue leaves it.\<close>

definition queue_lists :: "kernel \<Rightarrow> nat list \<Rightarrow> kernel" where
  "queue_lists k qs = k\<lparr>klists := foldl (\<lambda>s e. vListInitialise s (Event e)) (klists k) qs\<rparr>"

fun create_tasks :: "kernel \<Rightarrow> (nat \<times> nat) list \<Rightarrow> kernel option" where
  "create_tasks k [] = Some k"
| "create_tasks k ((t, prio) # tasks) = do {
     (_, k1) \<leftarrow> xTaskCreate k (Some t) prio;
     create_tasks k1 tasks
   }"

text \<open>The tasks with their priorities, and the idle task, which starting the scheduler creates.\<close>

definition kernel_boot :: "(nat \<times> nat) list \<Rightarrow> nat \<Rightarrow> nat list \<Rightarrow> kernel option" where
  "kernel_boot tasks idle qs = do {
     k1 \<leftarrow> create_tasks (queue_lists kernel_reset qs) tasks;
     (_, k2) \<leftarrow> xTaskCreate k1 (Some idle) 0;
     Some (vTaskStartScheduler k2)
   }"

section \<open>Empty lists\<close>

abbreviation no_items :: "klist \<Rightarrow> kitem seq" where
  "no_items \<equiv> \<lambda>_. ([], None)"

lemma initialise_lists:
  assumes "lists_ok L s (\<lambda>_. ([], None))"
  shows "lists_ok (L \<union> g ` set xs) (foldl (\<lambda>s x. vListInitialise s (g x)) s xs) (\<lambda>_. ([], None))"
    "pvOwner (foldl (\<lambda>s x. vListInitialise s (g x)) s xs) = pvOwner s"
    "pxContainer (foldl (\<lambda>s x. vListInitialise s (g x)) s xs) = pxContainer s"
  using assms
proof (induction xs arbitrary: s L)
  case (Cons x xs)
  case 1
  show ?case using Cons(1) [OF vListInitialise_ok [OF 1 refl, of "g x"]] by simp
next
  case (Cons x xs)
  case 2
  show ?case using Cons(2) [OF vListInitialise_ok [OF 2 refl, of "g x"]] by (simp add: vListInitialise_def)
next
  case (Cons x xs)
  case 3
  show ?case using Cons(3) [OF vListInitialise_ok [OF 3 refl, of "g x"]] by (simp add: vListInitialise_def)
qed simp_all

lemma core_lists_alt:
  "core_lists = Ready ` set [0 ..< configMAX_PRIORITIES] \<union>
     (\<lambda>l. l) ` set [Delayed1, Delayed2, PendingReady, WaitingTermination, SuspendedList]"
  by (auto simp: core_lists_def)

lemma prvInitialiseTaskLists_ok:
  assumes "lists_ok L (klists k) no_items"
  shows "lists_ok (L \<union> core_lists) (klists (prvInitialiseTaskLists k)) no_items"
    "pvOwner (klists (prvInitialiseTaskLists k)) = pvOwner (klists k)"
    "pxContainer (klists (prvInitialiseTaskLists k)) = pxContainer (klists k)"
proof -
  note 1 = initialise_lists [OF assms, of Ready "[0 ..< configMAX_PRIORITIES]"]
  note 2 = initialise_lists [OF 1(1), of "\<lambda>l. l" "[Delayed1, Delayed2, PendingReady, WaitingTermination, SuspendedList]"]
  have e: "klists (prvInitialiseTaskLists k) =
    foldl (\<lambda>s x. vListInitialise s ((\<lambda>l. l) x)) (foldl (\<lambda>s x. vListInitialise s (Ready x)) (klists k) [0 ..< configMAX_PRIORITIES])
      [Delayed1, Delayed2, PendingReady, WaitingTermination, SuspendedList]"
    by (simp add: prvInitialiseTaskLists_def Let_def)
  show "lists_ok (L \<union> core_lists) (klists (prvInitialiseTaskLists k)) no_items"
    using 2(1) unfolding e core_lists_alt by (simp only: Un_assoc)
  show "pvOwner (klists (prvInitialiseTaskLists k)) = pvOwner (klists k)"
    "pxContainer (klists (prvInitialiseTaskLists k)) = pxContainer (klists k)"
    using 1(2,3) 2(2,3) unfolding e by simp_all
qed

section \<open>Before the start\<close>

definition booting :: "klist set \<Rightarrow> nat set \<Rightarrow> kernel \<Rightarrow> bool" where
  "booting L T k \<longleftrightarrow> (\<exists>A. kinv True L T {} k A) \<and> uxCurrentNumberOfTasks k = of_nat (card T) \<and>
     uxDeletedTasksWaitingCleanUp k = 0 \<and> \<not> xSchedulerRunning k \<and> xTickCount k = 0 \<and>
     uxSchedulerSuspended k = 0 \<and> xPendedTicks k = 0 \<and> \<not> pendsv k \<and> \<not> xYieldPending k \<and>
     (\<forall>t\<in>T. ready k t \<and> ucNotifyState (tcbs k t) = taskNOT_WAITING_NOTIFICATION) \<and>
     (\<forall>t. event_list k t = None) \<and>
     (\<exists>c\<in>T. pxCurrentTCB k = Some c \<and> (\<forall>u\<in>T. uxPriority (tcbs k u) \<le> uxPriority (tcbs k c)))"

lemma enter_booting:
  assumes inv: "kinv True L (insert t T) {t} k A" and n: "uxCurrentNumberOfTasks k = of_nat (card (insert t T))"
    and f: "uxDeletedTasksWaitingCleanUp k = 0" "\<not> xSchedulerRunning k" "xTickCount k = 0"
      "uxSchedulerSuspended k = 0" "xPendedTicks k = 0" "\<not> pendsv k" "\<not> xYieldPending k"
    and rd: "\<And>u. u \<in> T \<Longrightarrow> u \<noteq> t \<Longrightarrow> ready k u"
    and nw: "\<And>u. u \<in> insert t T \<Longrightarrow> ucNotifyState (tcbs k u) = taskNOT_WAITING_NOTIFICATION"
    and ev: "\<And>u. event_list k u = None"
    and c: "c \<in> insert t T" "pxCurrentTCB k = Some c"
      "\<And>u. u \<in> insert t T \<Longrightarrow> uxPriority (tcbs k u) \<le> uxPriority (tcbs k c)"
  shows "booting L (insert t T) (enter k t)"
proof -
  note en = enter_ok [OF inv insertI1]
  have "ready (enter k t) u" if "u \<in> insert t T" for u
    using that rd [of u] en(2) [of u] by (cases "u = t") (auto simp: ready_def)
  then show ?thesis
    unfolding booting_def en(4-14) using en(1,3) n f nw ev c by auto
qed

lemma create_first:
  assumes prio: "prio < configMAX_PRIORITIES"
  shows "\<exists>k'. xTaskCreate (queue_lists kernel_reset qs) (Some t) prio = Some (True, k') \<and>
    booting (Event ` set qs \<union> core_lists) {t} k' \<and> uxPriority (tcbs k' t) = prio"
proof -
  define k0 where "k0 = queue_lists kernel_reset qs"
  have f0: "pxCurrentTCB k0 = None" "uxCurrentNumberOfTasks k0 = 0" "xSchedulerRunning k0 = False"
    "uxDeletedTasksWaitingCleanUp k0 = 0" "xTickCount k0 = 0" "uxSchedulerSuspended k0 = 0"
    "xPendedTicks k0 = 0" "pendsv k0 = False" "xYieldPending k0 = False" "uxTopReadyPriority k0 = 0"
    by (simp_all add: k0_def queue_lists_def kernel_reset_def)
  have l0: "klists k0 = foldl (\<lambda>s e. vListInitialise s (Event e)) blank_lists qs"
    by (simp add: k0_def queue_lists_def kernel_reset_def)
  have s0: "lists_ok (Event ` set qs) (klists k0) no_items"
    using initialise_lists(1) [OF blank_lists_ok, of Event qs] by (simp add: l0)
  have free: "pxContainer (klists k0) i = None" for i
    using lists_okD(3) [OF s0, of i] by (cases "pxContainer (klists k0) i") auto
  define k1 where "k1 = set_up k0 t prio"
  note s1 = set_up_lists [OF s0 free free, of t prio, folded k1_def]
  define k2 where "k2 = prvInitialiseTaskLists (k1\<lparr>uxCurrentNumberOfTasks := 1, pxCurrentTCB := Some t\<rparr>)"
  have l2: "lists_ok (Event ` set qs \<union> core_lists) (klists k2) no_items"
    "pvOwner (klists k2) = pvOwner (klists k1)" "pxContainer (klists k2) = pxContainer (klists k1)"
    using prvInitialiseTaskLists_ok [of "Event ` set qs" "k1\<lparr>uxCurrentNumberOfTasks := 1, pxCurrentTCB := Some t\<rparr>"] s1(1)
    by (simp_all add: k2_def)
  have f2: "pxCurrentTCB k2 = Some t" "uxCurrentNumberOfTasks k2 = 1" "\<not> xSchedulerRunning k2"
    "uxDeletedTasksWaitingCleanUp k2 = 0" "xTickCount k2 = 0" "uxSchedulerSuspended k2 = 0"
    "xPendedTicks k2 = 0" "\<not> pendsv k2" "\<not> xYieldPending k2" "uxTopReadyPriority k2 = 0" "tcbs k2 = tcbs k1"
    "pxDelayedTaskList k2 = Delayed1" "pxOverflowDelayedTaskList k2 = Delayed2"
    using f0 by (simp_all add: k2_def prvInitialiseTaskLists_def Let_def k1_def)
  have c2: "pxContainer (klists k2) i = None" for i using l2(3) s1(2) free by simp
  have "store_ok (Event ` set qs \<union> core_lists) {t} {t} (\<lambda>u. uxPriority (tcbs k2 u)) (klists k2) no_items"
    using l2(1,2) c2 s1(3) prio f2(11) by (simp add: store_ok_def k1_def)
  then have inv: "kinv True (Event ` set qs \<union> core_lists) (insert t {}) {t} k2 no_items"
    by (simp add: kinv_def delays_ok_def top_ok_def f2 configMAX_PRIORITIES_def)
  have "booting (Event ` set qs \<union> core_lists) (insert t {}) (enter k2 t)"
    by (rule enter_booting [OF inv _ f2(4,3,5-9), where c = t])
       (use f2 c2 in \<open>simp_all add: k1_def event_list_def\<close>)
  moreover have "xTaskCreate k0 (Some t) prio = Some (True, enter k2 t)"
    using prio f0 f2(3) enter_ok(9) [OF inv insertI1]
    by (simp add: xTaskCreate_def prvInitialiseNewTask_set_up k1_def [symmetric] prvAddNewTaskToReadyList_def
        Let_def) (simp add: k1_def enter_def k2_def)
  moreover have "uxPriority (tcbs (enter k2 t) t) = prio"
    using enter_ok(4) [OF inv insertI1] f2(11) by (simp add: k1_def)
  ultimately show ?thesis by (auto simp: k0_def)
qed

lemma create_next:
  assumes b: "booting L T k" and t: "t \<notin> T" and small: "card T + 1 < 2 ^ 30"
    and prio: "prio < configMAX_PRIORITIES"
  shows "\<exists>k'. xTaskCreate k (Some t) prio = Some (True, k') \<and> booting L (insert t T) k' \<and>
    (\<forall>u. uxPriority (tcbs k' u) = (if u = t then prio else uxPriority (tcbs k u)))"
proof -
  obtain A c where inv: "kinv True L T {} k A" and c: "c \<in> T" "pxCurrentTCB k = Some c"
    "\<And>u. u \<in> T \<Longrightarrow> uxPriority (tcbs k u) \<le> uxPriority (tcbs k c)"
    using b by (auto simp: booting_def)
  have fin: "finite T" using inv by (simp add: kinv_def store_ok_def)
  have ct: "c \<noteq> t" using c(1) t by auto
  define k1 where "k1 = set_up k t prio"
  have inv1: "kinv True L (insert t T) {t} k1 A" unfolding k1_def by (rule set_up_kinv [OF inv t small prio])
  have sok: "store_ok L T {} (\<lambda>t. uxPriority (tcbs k t)) (klists k) A" using inv by (simp add: kinv_def)
  have free: "pxContainer (klists k) (StateItem t) = None" "pxContainer (klists k) (EventItem t) = None"
    using store_okD(6) [OF sok, of t] store_okD(8) [OF sok, of t] t by (meson not_Some_eq)+
  note s1 = set_up_lists(2) [OF store_okD(1) [OF sok] free, of prio, folded k1_def]
  define c' where "c' = (if uxPriority (tcbs k c) \<le> prio then t else c)"
  define k2 where "k2 = k1\<lparr>uxCurrentNumberOfTasks := uxCurrentNumberOfTasks k + 1, pxCurrentTCB := Some c'\<rparr>"
  have inv2: "kinv True L (insert t T) {t} k2 A" using inv1 by (simp add: k2_def kinv_def)
  have f2: "pxCurrentTCB k2 = Some c'" "uxCurrentNumberOfTasks k2 = of_nat (card (insert t T))"
    "uxDeletedTasksWaitingCleanUp k2 = 0" "\<not> xSchedulerRunning k2" "xTickCount k2 = 0"
    "uxSchedulerSuspended k2 = 0" "xPendedTicks k2 = 0" "\<not> pendsv k2" "\<not> xYieldPending k2" "tcbs k2 = tcbs k1"
    using b t fin by (auto simp: k2_def k1_def booting_def)
  have l2: "ready k2 = ready k" "event_list k2 = event_list k"
    by (simp_all add: k2_def ready_def state_list_def event_list_def s1 fun_eq_iff)
  have "booting L (insert t T) (enter k2 t)"
  proof (rule enter_booting [OF inv2 f2(2-9) _ _ _ _ f2(1)])
    show "c' \<in> insert t T" using c(1) by (simp add: c'_def)
    show "ready k2 u" if "u \<in> T" for u using b that by (simp add: booting_def l2)
    show "event_list k2 u = None" for u using b by (simp add: booting_def l2)
    show "ucNotifyState (tcbs k2 u) = taskNOT_WAITING_NOTIFICATION" if "u \<in> insert t T" for u
      using b that by (auto simp: booting_def f2 k1_def)
    show "uxPriority (tcbs k2 u) \<le> uxPriority (tcbs k2 c')" if "u \<in> insert t T" for u
      using that c(3) [of u] ct t by (auto simp: f2 k1_def c'_def)
  qed
  moreover have "xTaskCreate k (Some t) prio = Some (True, enter k2 t)"
  proof -
    have "k2 = (if uxPriority (tcbs k1 c) \<le> uxPriority (tcbs k1 t)
       then k1\<lparr>uxCurrentNumberOfTasks := uxCurrentNumberOfTasks k1 + 1, pxCurrentTCB := Some t\<rparr>
       else k1\<lparr>uxCurrentNumberOfTasks := uxCurrentNumberOfTasks k1 + 1\<rparr>)"
      using c(2) ct by (simp add: k2_def c'_def k1_def)
    moreover have "\<not> xSchedulerRunning (enter k2 t)" using enter_ok(9) [OF inv2 insertI1] f2(4) by simp
    moreover have "\<not> xSchedulerRunning k1" "pxCurrentTCB k1 = Some c"
      using b c(2) by (simp_all add: k1_def booting_def)
    ultimately show ?thesis
      using prio
      by (simp add: xTaskCreate_def prvInitialiseNewTask_set_up k1_def [symmetric] prvAddNewTaskToReadyList_def
          Let_def enter_def split: if_splits)
  qed
  moreover have "\<forall>u. uxPriority (tcbs (enter k2 t) u) = (if u = t then prio else uxPriority (tcbs k u))"
    using enter_ok(4) [OF inv2 insertI1] f2(10) by (simp add: k1_def)
  ultimately show ?thesis by blast
qed

lemma create_tasks_ok:
  assumes "booting L T k" and "distinct (map fst tasks)" and "fst ` set tasks \<inter> T = {}"
    and "\<And>t p. (t, p) \<in> set tasks \<Longrightarrow> p < configMAX_PRIORITIES" and "card T + length tasks < 2 ^ 30"
  shows "\<exists>k'. create_tasks k tasks = Some k' \<and> booting L (fst ` set tasks \<union> T) k' \<and>
    (\<forall>u. u \<notin> fst ` set tasks \<longrightarrow> uxPriority (tcbs k' u) = uxPriority (tcbs k u)) \<and>
    (\<forall>t p. (t, p) \<in> set tasks \<longrightarrow> uxPriority (tcbs k' t) = p)"
  using assms
proof (induction tasks arbitrary: k T)
  case (Cons tp tasks)
  obtain t p where tp: "tp = (t, p)" by fastforce
  have fin: "finite T" using Cons.prems(1) by (auto simp: booting_def kinv_def store_ok_def)
  have t: "t \<notin> T" "p < configMAX_PRIORITIES" "card T + 1 < 2 ^ 30" "t \<notin> fst ` set tasks"
    using Cons.prems(2-5) by (auto simp: tp)
  obtain k1 where k1: "xTaskCreate k (Some t) p = Some (True, k1)" "booting L (insert t T) k1"
    "\<And>u. uxPriority (tcbs k1 u) = (if u = t then p else uxPriority (tcbs k u))"
    using create_next [OF Cons.prems(1) t(1,3,2)] by blast
  have "\<exists>k'. create_tasks k1 tasks = Some k' \<and> booting L (fst ` set tasks \<union> insert t T) k' \<and>
    (\<forall>u. u \<notin> fst ` set tasks \<longrightarrow> uxPriority (tcbs k' u) = uxPriority (tcbs k1 u)) \<and>
    (\<forall>t p. (t, p) \<in> set tasks \<longrightarrow> uxPriority (tcbs k' t) = p)"
    by (rule Cons.IH [OF k1(2)]) (use Cons.prems(2-5) t fin in \<open>auto simp: tp\<close>)
  then obtain k' where k': "create_tasks k1 tasks = Some k'" "booting L (fst ` set tasks \<union> insert t T) k'"
    "\<And>u. u \<notin> fst ` set tasks \<Longrightarrow> uxPriority (tcbs k' u) = uxPriority (tcbs k1 u)"
    "\<And>t p. (t, p) \<in> set tasks \<Longrightarrow> uxPriority (tcbs k' t) = p" by blast
  have "booting L (fst ` set (tp # tasks) \<union> T) k'" using k'(2) by (simp add: tp)
  then show ?case using k1(1,3) k'(1,3,4) t(4) by (intro exI [of _ k']) (auto simp: tp)
qed auto

section \<open>The start\<close>

lemma start_ok:
  assumes b: "booting L T k" and idle: "idle \<in> T" "uxPriority (tcbs k idle) = 0"
  shows "sched_ok L T idle (vTaskStartScheduler k)"
proof -
  define k' where "k' = vTaskStartScheduler k"
  obtain A c where inv: "kinv True L T {} k A" and c: "c \<in> T" "pxCurrentTCB k = Some c"
    "\<And>u. u \<in> T \<Longrightarrow> uxPriority (tcbs k u) \<le> uxPriority (tcbs k c)"
    using b by (auto simp: booting_def)
  have l: "state_list k' = state_list k" "event_list k' = event_list k" "ready k' = ready k"
    by (simp_all add: k'_def vTaskStartScheduler_def state_list_def event_list_def ready_def fun_eq_iff)
  have rT: "ready k t" if "t \<in> T" for t using b that by (simp add: booting_def)
  have Tr: "t \<in> T" if "state_list k t = Some l" for t l using kinv_state(1) [OF inv that] .
  have none: "state_list k t \<noteq> Some l" if "\<not> is_ready l" for t l
    using rT [OF Tr, of t l] that by (auto simp: ready_def)
  have em: "fst (A l) = []" if "l \<in> {Delayed1, Delayed2}" for l
  proof (rule ccontr)
    assume "fst (A l) \<noteq> []"
    then have "hd (fst (A l)) \<in> set (fst (A l))" by simp
    moreover have "l \<notin> insert PendingReady (range Event)" using that by auto
    ultimately obtain t where "state_list k t = Some l" by (rule kinv_item [OF inv])
    then show False using none [of l t] that by auto
  qed
  have inv': "kinv True L T {} k' A"
    using inv em kinv_delayed_core [OF inv] by (auto simp: kinv_def k'_def vTaskStartScheduler_def delays_ok_def)
  have f: "xSchedulerRunning k'" "tcbs k' = tcbs k" "pxCurrentTCB k' = Some c"
    "uxSchedulerSuspended k' = 0" "xPendedTicks k' = 0" "\<not> pendsv k'" "\<not> xYieldPending k'"
    "uxCurrentNumberOfTasks k' = of_nat (card T)" "uxDeletedTasksWaitingCleanUp k' = 0"
    using b c by (simp_all add: booting_def k'_def vTaskStartScheduler_def)
  have no_wt: "{t \<in> T. state_list k t = Some WaitingTermination} = {}" using none [of WaitingTermination] by auto
  have ev: "event_list k t = None" for t using b by (simp add: booting_def)
  have si: "state_list k idle = Some (Ready 0)" using rT [OF idle(1)] ready_iff [OF inv, of idle] idle(2) by simp
  have "rest T idle k'"
    unfolding rest_def l f no_wt using idle si c ev f(1) by simp
  then have "sched_ok L T idle k'"
  proof (rule sched_okI [OF inv' _ _ f(3)])
    show "cur_top k'" using c(3) Tr f by (auto simp: cur_top_def l ready_def)
    show "ready k' c" using rT c by (simp add: l)
  qed (use f ev in \<open>simp_all add: pending_def l\<close>)
  then show ?thesis by (simp add: k'_def)
qed

lemma kernel_boot_ok:
  assumes "distinct (idle # map fst tasks)" and "\<And>t p. (t, p) \<in> set tasks \<Longrightarrow> p < configMAX_PRIORITIES"
    and "length tasks < 2 ^ 30 - 1"
  shows "\<exists>k. kernel_boot tasks idle qs = Some k \<and>
    sched_ok (Event ` set qs \<union> core_lists) (set (idle # map fst tasks)) idle k \<and> \<not> pendsv k \<and>
    uxSchedulerSuspended k = 0 \<and> (\<forall>t\<in>set (idle # map fst tasks). ready k t) \<and>
    (\<forall>t p. (t, p) \<in> set tasks \<longrightarrow> uxPriority (tcbs k t) = p)"
proof -
  define L where "L = Event ` set qs \<union> core_lists"
  have p0: "0 < configMAX_PRIORITIES" by (simp add: configMAX_PRIORITIES_def)
  have "\<exists>k1 k2. create_tasks (queue_lists kernel_reset qs) tasks = Some k1 \<and>
      xTaskCreate k1 (Some idle) 0 = Some (True, k2) \<and> booting L (set (idle # map fst tasks)) k2 \<and>
      uxPriority (tcbs k2 idle) = 0 \<and> (\<forall>t p. (t, p) \<in> set tasks \<longrightarrow> uxPriority (tcbs k2 t) = p)"
  proof (cases tasks)
    case Nil
    show ?thesis using create_first [OF p0, of qs idle] by (auto simp: L_def Nil)
  next
    case (Cons tp rest)
    obtain t p where tp: "tp = (t, p)" by fastforce
    obtain ka where ka: "xTaskCreate (queue_lists kernel_reset qs) (Some t) p = Some (True, ka)" "booting L {t} ka"
      "uxPriority (tcbs ka t) = p"
      using create_first [of p qs t] assms(2) Cons by (auto simp: L_def tp)
    have "\<exists>k'. create_tasks ka rest = Some k' \<and> booting L (fst ` set rest \<union> {t}) k' \<and>
      (\<forall>u. u \<notin> fst ` set rest \<longrightarrow> uxPriority (tcbs k' u) = uxPriority (tcbs ka u)) \<and>
      (\<forall>t p. (t, p) \<in> set rest \<longrightarrow> uxPriority (tcbs k' t) = p)"
      by (rule create_tasks_ok [OF ka(2)]) (use assms Cons in \<open>auto simp: tp\<close>)
    then obtain k1 where k1: "create_tasks ka rest = Some k1" "booting L (fst ` set rest \<union> {t}) k1"
      "\<And>u. u \<notin> fst ` set rest \<Longrightarrow> uxPriority (tcbs k1 u) = uxPriority (tcbs ka u)"
      "\<And>t p. (t, p) \<in> set rest \<Longrightarrow> uxPriority (tcbs k1 t) = p" by blast
    have e: "set (idle # map fst tasks) = insert idle (fst ` set rest \<union> {t})" by (auto simp: Cons tp)
    have "card (fst ` set rest \<union> {t}) \<le> length tasks"
      using card_image_le [of "set rest" fst] card_length [of rest] card_Un_le [of "fst ` set rest" "{t}"]
      by (simp add: Cons)
    then obtain k2 where k2: "xTaskCreate k1 (Some idle) 0 = Some (True, k2)"
      "booting L (set (idle # map fst tasks)) k2"
      "\<And>u. uxPriority (tcbs k2 u) = (if u = idle then 0 else uxPriority (tcbs k1 u))"
      using create_next [OF k1(2), of idle 0] assms(1,3) p0 unfolding e by (auto simp: Cons tp)
    have "uxPriority (tcbs k2 u) = q" if "(u, q) \<in> set tasks" for u q
    proof -
      have "u \<noteq> idle" using assms(1) that by force
      moreover have "t \<notin> fst ` set rest" using assms(1) by (simp add: Cons tp)
      ultimately show ?thesis using that k2(3) [of u] k1(3) [of t] k1(4) [of u q] ka(3) by (auto simp: Cons tp)
    qed
    then show ?thesis using k1(1) ka(1) k2 by (auto simp: Cons tp)
  qed
  then obtain k1 k2 where k: "create_tasks (queue_lists kernel_reset qs) tasks = Some k1"
      "xTaskCreate k1 (Some idle) 0 = Some (True, k2)" "booting L (set (idle # map fst tasks)) k2"
      "uxPriority (tcbs k2 idle) = 0" "\<And>t p. (t, p) \<in> set tasks \<Longrightarrow> uxPriority (tcbs k2 t) = p"
    by blast
  define k3 where "k3 = vTaskStartScheduler k2"
  have "kernel_boot tasks idle qs = Some k3" using k(1,2) by (simp add: kernel_boot_def k3_def)
  moreover have "sched_ok L (set (idle # map fst tasks)) idle k3"
    unfolding k3_def by (rule start_ok [OF k(3) _ k(4)]) simp
  moreover have "\<not> pendsv k3" "uxSchedulerSuspended k3 = 0" "tcbs k3 = tcbs k2" "ready k3 = ready k2"
    using k(3) by (simp_all add: booting_def k3_def vTaskStartScheduler_def ready_def state_list_def fun_eq_iff)
  moreover have "ready k2 t" if "t \<in> set (idle # map fst tasks)" for t
    using k(3) that unfolding booting_def by blast
  ultimately show ?thesis using k(5) unfolding L_def by (intro exI [of _ k3]) simp
qed

end
