(* ===== verification/RTOS_Scheduler.thy ===== *)
theory RTOS_Scheduler
  imports RTOS_Boot
begin

text \<open>
  What the scheduler promises, from the start of the kernel on: the running task is the right
  one, delays are exact, equals take turns, suspended tasks stay so, and time-outs are exact.
\<close>

section \<open>Suspended tasks\<close>

definition at_rest :: "kernel \<Rightarrow> nat \<Rightarrow> bool" where
  "at_rest k t \<longleftrightarrow> state_list k t = Some SuspendedList \<and> event_list k t = None \<and>
     ucNotifyState (tcbs k t) \<noteq> taskWAITING_NOTIFICATION"

lemma at_rest_step:
  assumes ok: "sched_ok L T idle k" and may: "may_happen idle qs k ev"
    and q: "\<And>e. e \<in> set qs \<Longrightarrow> Event e \<in> L" and r: "at_rest k t"
    and ev: "ev \<noteq> CallResume t" "ev \<noteq> CallDelete t" and s: "kernel_step k ev = Some k'"
  shows "at_rest k' t"
proof (cases "(\<exists>v a. ev = CallNotify t v a) \<or> ev = CallSuspend t")
  case True
  obtain c where c: "pxCurrentTCB k = Some c" using restD(7) [OF sched_okD(2) [OF ok]] by auto
  have live: "t \<in> T" "state_list k t \<noteq> Some WaitingTermination"
    using r sched_tasks(1) [OF ok] by (auto simp: at_rest_def)
  show ?thesis
    using True
  proof
    assume "\<exists>v a. ev = CallNotify t v a"
    then obtain v a where e: "ev = CallNotify t v a" by blast
    then show ?thesis using notify_step [OF ok, of t v a] may s r live by (auto simp: at_rest_def)
  next
    assume "ev = CallSuspend t"
    then show ?thesis using suspend_step [OF ok, of t c] may s c live by (auto simp: at_rest_def)
  qed
next
  case False
  obtain A where inv: "kinv True L T {} k A" using sched_okD(1) [OF ok] by blast
  have nr: "\<not> ready k t" using r by (auto simp: at_rest_def ready_def)
  have w: "wait_left k t = None" using wait_left_None [OF inv] r by (simp add: at_rest_def)
  have "t \<notin> about k ev" using about_not [OF ok nr _ _ may] r False ev by (auto simp: at_rest_def live_def)
  moreover obtain k1 T' where "kernel_step k ev = Some k1"
    "good_step L T' idle (takes_off k ev) (about k ev) k k1"
    using kernel_step_ok [OF ok may q] by blast
  ultimately have "waits_less (takes_off k ev) k k' t" "tcbs k' t = tcbs k t"
    using s by (auto simp: good_step_def)
  then show ?thesis using waits_lessD(1,2) w r by (simp add: at_rest_def)
qed

lemma at_rest_run:
  assumes "kernel_reach idle qs k0 evs k" and ok: "\<exists>T. sched_ok L T idle k0"
    and q: "\<And>e. e \<in> set qs \<Longrightarrow> Event e \<in> L" and r: "at_rest k0 t"
    and "CallResume t \<notin> set evs \<and> CallDelete t \<notin> set evs"
  shows "at_rest k t"
  using assms(1,5)
proof (induction rule: kernel_reach.induct)
  case reach_start
  then show ?case using r by simp
next
  case (reach_step evs k ev k')
  obtain T where okk: "sched_ok L T idle k" using reach_ok [OF reach_step.hyps(1) ok q] by blast
  show ?case
    by (rule at_rest_step [OF okk reach_step.hyps(2) q _ _ _ reach_step.hyps(3)])
       (use reach_step.IH reach_step.prems in auto)
qed

section \<open>Turns\<close>

fun switches :: "nat \<Rightarrow> kernel \<Rightarrow> kernel option" where
  "switches 0 k = Some k"
| "switches (Suc n) k = Option.bind (PendSV_Handler k) (switches n)"

definition item_task :: "kitem \<Rightarrow> nat" where
  "item_task i = (case i of StateItem t \<Rightarrow> t | EventItem t \<Rightarrow> t)"

definition turn_order :: "(klist \<Rightarrow> kitem seq) \<Rightarrow> nat \<Rightarrow> nat list" where
  "turn_order A p = map item_task (turns (A (Ready p)))"

lemma distinct_turns: "distinct xs \<Longrightarrow> set_option c \<subseteq> set xs \<Longrightarrow> distinct (turns (xs, c))"
proof (cases c)
  case (Some x)
  assume d: "distinct xs" and s: "set_option c \<subseteq> set xs"
  then obtain as bs where xs: "xs = as @ x # bs" using Some by (auto dest: split_list)
  then show ?thesis using cut_at [of as x bs] d Some by auto
qed simp

lemma turn_order_ok:
  assumes inv: "kinv True L T {} k A" and p: "p < configMAX_PRIORITIES"
  shows "distinct (turn_order A p)" "set (turn_order A p) = {t. ready k t \<and> uxPriority (tcbs k t) = p}"
    "turn_order A p \<noteq> [] \<Longrightarrow> turns (seq_next (A (Ready p))) = rotate1 (turns (A (Ready p)))"
proof -
  have ok: "store_ok L T {} (\<lambda>t. uxPriority (tcbs k t)) (klists k) A" using inv by (simp add: kinv_def)
  have h: "distinct (fst (A (Ready p)))" "set_option (snd (A (Ready p))) \<subseteq> set (fst (A (Ready p)))"
    using lists_okD(1) [OF store_okD(1) [OF ok] core_in(6) [OF ok p]] by (simp_all add: holds_def)
  have e: "set (turns (A (Ready p))) = set (fst (A (Ready p)))" using set_turns [OF h] by simp
  have items: "set (fst (A (Ready p))) = StateItem ` {t. state_list k t = Some (Ready p)}" (is "?l = ?r")
  proof
    show "?l \<subseteq> ?r"
    proof
      fix i assume "i \<in> ?l"
      then obtain t where "i = StateItem t" "state_list k t = Some (Ready p)"
        by (rule kinv_item [OF inv]) auto
      then show "i \<in> ?r" by simp
    qed
    show "?r \<subseteq> ?l" using kinv_state(4) [OF inv] by auto
  qed
  have "inj_on item_task (set (turns (A (Ready p))))"
    unfolding e items by (auto simp: inj_on_def item_task_def)
  then show "distinct (turn_order A p)"
    using distinct_turns [OF h] by (simp add: turn_order_def distinct_map)
  show "set (turn_order A p) = {t. ready k t \<and> uxPriority (tcbs k t) = p}"
    unfolding turn_order_def set_map e items image_image
    using ready_iff [OF inv] kinv_state(2) [OF inv]
    by (auto simp: item_task_def state_places_def)
  assume "turn_order A p \<noteq> []"
  then have "fst (A (Ready p)) \<noteq> []" using e by (auto simp: turn_order_def)
  then show "turns (seq_next (A (Ready p))) = rotate1 (turns (A (Ready p)))"
    using turns_next [OF h] by simp
qed

lemma ready_priority:
  assumes inv: "kinv b L T {} k A" and "ready k u"
  shows "uxPriority (tcbs k u) < configMAX_PRIORITIES"
proof -
  have ok: "store_ok L T {} (\<lambda>t. uxPriority (tcbs k t)) (klists k) A" using inv by (simp add: kinv_def)
  have "u \<in> T" using kinv_state(1) [OF inv] assms(2) unfolding ready_def by blast
  then show ?thesis by (rule store_okD(5) [OF ok])
qed

lemma switches_ok:
  assumes "kinv True L T {} k A" and "rest T idle k" and "uxSchedulerSuspended k = 0"
    and "ready k u" and "\<And>t. ready k t \<Longrightarrow> uxPriority (tcbs k t) \<le> uxPriority (tcbs k u)"
  shows "\<exists>k'. switches m k = Some k' \<and> (m > 0 \<longrightarrow> pxCurrentTCB k' =
    Some (turn_order A (uxPriority (tcbs k u)) ! ((m - 1) mod length (turn_order A (uxPriority (tcbs k u))))))"
  using assms
proof (induction m arbitrary: k A)
  case (Suc m)
  note inv = Suc.prems(1) and r = Suc.prems(2) and run = Suc.prems(3)
  define p where "p = uxPriority (tcbs k u)"
  define order where "order = turn_order A p"
  have p56: "p < configMAX_PRIORITIES" unfolding p_def by (rule ready_priority [OF inv Suc.prems(4)])
  define k0 where "k0 = k\<lparr>pendsv := False\<rparr>"
  have k0: "kinv True L T {} k0 A" "rest T idle k0" "uxSchedulerSuspended k0 = 0"
    using inv r run by (simp_all add: k0_def)
  from vTaskSwitchContext_ok [OF k0] obtain k1 t where k1: "vTaskSwitchContext k0 = Some k1"
    "kinv True L T {} k1 (A(Ready (uxPriority (tcbs k0 t)) := seq_next (A (Ready (uxPriority (tcbs k0 t))))))"
    "rest T idle k1" "StateItem t = hd (turns (A (Ready (uxPriority (tcbs k0 t)))))" "top_task k0 t"
    "state_list k1 = state_list k0"
    "k1 = k0\<lparr>klists := klists k1, pxCurrentTCB := Some t, uxTopReadyPriority := uxTopReadyPriority k1,
           xYieldPending := False\<rparr>"
    by (elim exE conjE) blast
  have pt: "uxPriority (tcbs k0 t) = p"
    using k1(5) Suc.prems(4,5) by (auto simp: top_task_def k0_def p_def intro: order.antisym)
  have f1: "pxCurrentTCB k1 = Some t" "tcbs k1 = tcbs k" "uxSchedulerSuspended k1 = 0"
    by (subst k1(7), simp add: k0_def run)+
  have rd: "ready k1 = ready k" using k1(6) by (simp add: ready_def k0_def fun_eq_iff)
  define A1 where "A1 = A(Ready p := seq_next (A (Ready p)))"
  have inv1: "kinv True L T {} k1 A1" using k1(2) by (simp add: pt A1_def)
  have ne: "order \<noteq> []"
    using turn_order_ok(2) [OF inv p56] Suc.prems(4) by (auto simp: order_def p_def)
  have o1: "turn_order A1 p = rotate1 order"
    using turn_order_ok(3) [OF inv p56] ne by (simp add: turn_order_def A1_def order_def rotate1_map)
  have hd: "order ! 0 = t"
    using k1(4) ne by (cases "turns (A (Ready p))") (auto simp: order_def turn_order_def pt item_task_def)
  from Suc.IH [OF inv1 k1(3) f1(3), unfolded rd f1(2), OF Suc.prems(4,5), folded p_def, unfolded o1]
  obtain k' where k': "switches m k1 = Some k'"
    "m > 0 \<longrightarrow> pxCurrentTCB k' = Some (rotate1 order ! ((m - 1) mod length order))" by auto
  have "pxCurrentTCB k' = Some (order ! (m mod length order))"
  proof (cases m)
    case 0
    then show ?thesis using k'(1) f1(1) hd by simp
  next
    case (Suc n)
    have "n mod length order < length order" using ne by simp
    then have "rotate1 order ! (n mod length order) = order ! (Suc (n mod length order) mod length order)"
      by (rule nth_rotate1)
    then show ?thesis using k'(2) Suc by (simp add: mod_Suc_eq)
  qed
  then show ?case
    using k'(1) k1(1) by (simp add: PendSV_Handler_def k0_def order_def p_def)
qed simp

section \<open>Runs from the start\<close>

definition good_tasks :: "(nat \<times> nat) list \<Rightarrow> nat \<Rightarrow> bool" where
  "good_tasks tasks idle \<longleftrightarrow> distinct (idle # map fst tasks) \<and>
     (\<forall>tp\<in>set tasks. snd tp < configMAX_PRIORITIES) \<and> length tasks < 2 ^ 30 - 1"

definition kernel_run :: "(nat \<times> nat) list \<Rightarrow> nat \<Rightarrow> nat list \<Rightarrow> kernel_event list \<Rightarrow> kernel \<Rightarrow> bool" where
  "kernel_run tasks idle qs evs k \<longleftrightarrow> good_tasks tasks idle \<and> (\<exists>k0. kernel_boot tasks idle qs = Some k0 \<and>
     kernel_reach idle qs k0 evs k)"

abbreviation run_lists :: "nat list \<Rightarrow> klist set" where
  "run_lists qs \<equiv> Event ` set qs \<union> core_lists"

lemma good_tasks_boot:
  assumes "good_tasks tasks idle"
  shows "\<exists>k. kernel_boot tasks idle qs = Some k \<and>
    sched_ok (run_lists qs) (set (idle # map fst tasks)) idle k \<and> \<not> pendsv k \<and>
    uxSchedulerSuspended k = 0 \<and> (\<forall>t\<in>set (idle # map fst tasks). ready k t) \<and>
    (\<forall>t p. (t, p) \<in> set tasks \<longrightarrow> uxPriority (tcbs k t) = p)"
  using assms by (intro kernel_boot_ok) (auto simp: good_tasks_def)

lemma run_ok:
  assumes "kernel_run tasks idle qs evs k"
  shows "\<exists>T. sched_ok (run_lists qs) T idle k"
proof -
  obtain k0 where k0: "good_tasks tasks idle" "kernel_boot tasks idle qs = Some k0"
    "kernel_reach idle qs k0 evs k"
    using assms unfolding kernel_run_def by blast
  obtain k1 where k1: "kernel_boot tasks idle qs = Some k1"
    "sched_ok (run_lists qs) (set (idle # map fst tasks)) idle k1"
    using good_tasks_boot [OF k0(1)] by blast
  have "\<exists>T. sched_ok (run_lists qs) T idle k0" using k0(2) k1 by auto
  then show ?thesis by (rule reach_ok [OF k0(3)]) simp
qed

lemma run_step:
  assumes "kernel_run tasks idle qs evs k" and "may_happen idle qs k ev"
  shows "\<exists>k'. kernel_step k ev = Some k' \<and> kernel_run tasks idle qs (evs @ [ev]) k'"
proof -
  obtain T where ok: "sched_ok (run_lists qs) T idle k" using run_ok [OF assms(1)] by blast
  obtain k' where k': "kernel_step k ev = Some k'"
    using kernel_step_ok [OF ok assms(2)] by auto
  have "kernel_run tasks idle qs (evs @ [ev]) k'"
    using assms k'(1) unfolding kernel_run_def by (blast intro: reach_step)
  then show ?thesis using k' by blast
qed

lemma run_sched:
  assumes "kernel_run tasks idle qs evs k"
  obtains T c where "sched_ok (run_lists qs) T idle k" "pxCurrentTCB k = Some c" "c \<in> T"
proof -
  obtain T where ok: "sched_ok (run_lists qs) T idle k" using run_ok [OF assms] by blast
  then show ?thesis using restD(7) [OF sched_okD(2) [OF ok]] that by blast
qed

text \<open>Two tasks over the idle task, and a queue.\<close>

abbreviation demo_tasks :: "(nat \<times> nat) list" where
  "demo_tasks \<equiv> [(1, 24), (2, 8)]"

lemma demo_good: "good_tasks demo_tasks 0"
  by (simp add: good_tasks_def configMAX_PRIORITIES_def)

lemma demo_boot:
  "\<exists>k. kernel_boot demo_tasks 0 [7] = Some k \<and> kernel_run demo_tasks 0 [7] [] k \<and>
     pxCurrentTCB k = Some 1 \<and> \<not> pendsv k \<and> uxSchedulerSuspended k = 0 \<and>
     sched_ok (run_lists [7]) {0, 1, 2} 0 k \<and> ready k 1 \<and> ready k 2"
proof -
  obtain k where k: "kernel_boot demo_tasks 0 [7] = Some k" "\<not> pendsv k" "uxSchedulerSuspended k = 0"
    "ready k 1" "uxPriority (tcbs k 1) = 24" "uxPriority (tcbs k 2) = 8"
    "sched_ok (run_lists [7]) {0, 1, 2} 0 k" "ready k 2"
    using good_tasks_boot [OF demo_good, of "[7]"] by auto
  obtain c where c: "c \<in> {0, 1, 2}" "pxCurrentTCB k = Some c"
    using restD(7) [OF sched_okD(2) [OF k(7)]] by blast
  have "uxPriority (tcbs k c) \<ge> 24"
    using sched_okD(3,6) [OF k(7)] k(2-5) c(2) by (auto simp: cur_top_def)
  then have "c = 1" using c(1) k(6) restD(2) [OF sched_okD(2) [OF k(7)]] by auto
  moreover have "kernel_run demo_tasks 0 [7] [] k"
    using demo_good k(1) by (auto simp: kernel_run_def intro: reach_start)
  ultimately show ?thesis using k c(2) by blast
qed

text \<open>C9: started with any tasks, the kernel never gets stuck: whatever interrupt or call can come in
  a run, in which tasks may be created and deleted, returns, no assertion of the scheduler
  fails and none of its loops is endless; and whenever no context switch is pending and the
  scheduler is not locked, the running task is ready and no ready task has a higher priority.\<close>

theorem kernel_runs_highest:
  assumes "good_tasks tasks idle"
  shows "\<exists>k0. kernel_boot tasks idle qs = Some k0 \<and>
    (\<forall>evs k. kernel_reach idle qs k0 evs k \<longrightarrow>
      (\<forall>ev. may_happen idle qs k ev \<longrightarrow> (\<exists>k'. kernel_step k ev = Some k')) \<and>
      (\<not> pendsv k \<and> uxSchedulerSuspended k = 0 \<longrightarrow> (\<exists>c. pxCurrentTCB k = Some c \<and> top_task k c)))"
proof -
  obtain k0 where k0: "kernel_boot tasks idle qs = Some k0" using good_tasks_boot [OF assms] by blast
  have "(\<exists>k'. kernel_step k ev = Some k')"
    if "kernel_reach idle qs k0 evs k" "may_happen idle qs k ev" for evs k ev
    using run_step [of tasks idle qs evs k ev] that assms k0 unfolding kernel_run_def by blast
  moreover have "\<exists>c. pxCurrentTCB k = Some c \<and> top_task k c"
    if "kernel_reach idle qs k0 evs k" "\<not> pendsv k \<and> uxSchedulerSuspended k = 0" for evs k
  proof -
    have run: "kernel_run tasks idle qs evs k" using that(1) assms k0 unfolding kernel_run_def by blast
    obtain T c where ok: "sched_ok (run_lists qs) T idle k" and c: "pxCurrentTCB k = Some c" by (rule run_sched [OF run])
    have "ready k c" using sched_cur_ready [OF ok _ c] that(2) by simp
    moreover have "\<not> xYieldPending k" using sched_okD(6) [OF ok] that(2) by blast
    ultimately show ?thesis using sched_okD(3) [OF ok] c that(2) by (auto simp: cur_top_def top_task_def)
  qed
  ultimately show ?thesis using k0 by blast
qed

theorem kernel_runs_highest_witness:
  "\<exists>k0 k1. kernel_boot [(1, 24), (2, 8)] 0 [7] = Some k0 \<and> pxCurrentTCB k0 = Some 1 \<and> top_task k0 1 \<and>
     kernel_step k0 TickInterrupt = Some k1"
proof -
  obtain k where k: "kernel_boot demo_tasks 0 [7] = Some k" "pxCurrentTCB k = Some 1" "\<not> pendsv k"
    "uxSchedulerSuspended k = 0" using demo_boot by blast
  obtain k' where k': "kernel_boot demo_tasks 0 [7] = Some k'"
    "\<forall>evs k. kernel_reach 0 [7] k' evs k \<longrightarrow>
      (\<forall>ev. may_happen 0 [7] k ev \<longrightarrow> (\<exists>k'. kernel_step k ev = Some k')) \<and>
      (\<not> pendsv k \<and> uxSchedulerSuspended k = 0 \<longrightarrow> (\<exists>c. pxCurrentTCB k = Some c \<and> top_task k c))"
    using kernel_runs_highest [OF demo_good, of "[7]"] by (elim exE conjE)
  have "k' = k" using k(1) k'(1) by simp
  note at = k'(2) [unfolded this, THEN spec, THEN spec, THEN mp, OF reach_start]
  have "\<exists>k1. kernel_step k TickInterrupt = Some k1"
    using conjunct1 [OF at, THEN spec, of TickInterrupt] by simp
  moreover have "top_task k 1" using conjunct2 [OF at] k(2-4) by simp
  ultimately show ?thesis using k by blast
qed

text \<open>C10: a delay is exact. A task that delays itself by \<open>n\<close> ticks is not ready before the
  \<open>n\<close>-th tick interrupt after its call, whatever else happens, across the wrap of the tick count and with
  ticks that come while the scheduler is locked; and it is ready right after the \<open>n\<close>-th if the
  scheduler is not locked then. This holds as long as no other task notifies, suspends, resumes or deletes it.\<close>

theorem kernel_delay_exact:
  assumes "kernel_run tasks idle qs evs k" and "pxCurrentTCB k = Some c"
    and "may_happen idle qs k (CallDelay n)" and "n > 0"
    and "kernel_step k (CallDelay n) = Some k1"
    and "kernel_reach idle qs k1 evs' k2" and "leaves_alone c evs'"
  shows "(ticks_in evs' < unat n \<longrightarrow> \<not> ready k2 c) \<and>
    (Suc (ticks_in evs') = unat n \<and> uxSchedulerSuspended k2 = 0 \<longrightarrow>
      (\<exists>k3. kernel_step k2 TickInterrupt = Some k3 \<and> ready k3 c))"
proof -
  obtain T where ok: "sched_ok (run_lists qs) T idle k" using run_ok [OF assms(1)] by blast
  have q: "\<And>e. e \<in> set qs \<Longrightarrow> Event e \<in> run_lists qs" by simp
  have "may_block idle k c" using assms(2-4) by (auto simp: may_block_def word_neq_0_conv)
  from delay_step [OF ok this assms(4)] assms(5) have
    d: "good_step (run_lists qs) T idle 0 {c} k k1" "blocked k1 c (Some (unat n)) None" by auto
  have ok1: "\<exists>T. sched_ok (run_lists qs) T idle k1" using d(1) by (auto simp: good_step_def)
  have sl: "sleeping k1 c (unat n)" "uxSchedulerSuspended k1 = 0" "unat n < 2 ^ 32"
    using d(2) u32_bound [of n] by (simp_all add: blocked_def sleeping_def)
  have s2: "sleeping k2 c (unat n - (ticks_in evs' - unat (xPendedTicks k2)))" "unat (xPendedTicks k2) \<le> ticks_in evs'"
    if "ticks_in evs' < unat n"
    using sleep_run [OF assms(6) ok1 q sl assms(7) that] by blast+
  obtain T2 where ok2: "sched_ok (run_lists qs) T2 idle k2" using reach_ok [OF assms(6) ok1 q] by blast
  obtain A where inv: "kinv True (run_lists qs) T2 {} k2 A" using sched_okD(1) [OF ok2] by blast
  show ?thesis
  proof (intro conjI impI)
    assume "ticks_in evs' < unat n"
    then show "\<not> ready k2 c" using s2(1) ready_wait [OF inv, of c] by (auto simp: sleeping_def)
  next
    assume t: "Suc (ticks_in evs') = unat n \<and> uxSchedulerSuspended k2 = 0"
    then have w: "wait_left k2 c = Some 1"
      using s2(1) sched_okD(4) [OF ok2] by (auto simp: sleeping_def)
    obtain k3 where k3: "SysTick_Handler k2 = Some k3" "good_step (run_lists qs) T2 idle 1 {} k2 k3"
      using tick_step [OF ok2] t by auto
    then have "waits_less 1 k2 k3 c" by (simp add: good_step_def)
    then show "\<exists>k3. kernel_step k2 TickInterrupt = Some k3 \<and> ready k3 c"
      using k3(1) waits_lessD(4) [OF _ w] by (auto simp: ready_def)
  qed
qed

theorem kernel_delay_exact_witness:
  "\<exists>k0 k1 k2 k3. kernel_boot [(1, 24), (2, 8)] 0 [7] = Some k0 \<and> kernel_step k0 (CallDelay 2) = Some k1 \<and>
     kernel_reach 0 [7] k1 [SwitchInterrupt, TickInterrupt] k2 \<and> \<not> ready k2 1 \<and>
     kernel_step k2 TickInterrupt = Some k3 \<and> ready k3 1"
proof -
  obtain k0 where k0: "kernel_boot demo_tasks 0 [7] = Some k0" "kernel_run demo_tasks 0 [7] [] k0"
    "pxCurrentTCB k0 = Some 1" "\<not> pendsv k0" "uxSchedulerSuspended k0 = 0" "sched_ok (run_lists [7]) {0, 1, 2} 0 k0"
    using demo_boot by blast
  have mb: "may_block 0 k0 1" using k0 by (simp add: may_block_def)
  have n: "(2 :: u32) > 0" by simp
  obtain k1 where k1: "vTaskDelay k0 2 = Some k1" "good_step (run_lists [7]) {0, 1, 2} 0 0 {1} k0 k1"
    "blocked k1 1 (Some 2) None" using delay_step [OF k0(6) mb n] by auto
  obtain ka where ka: "PendSV_Handler k1 = Some ka" "good_step (run_lists [7]) {0, 1, 2} 0 0 {} k1 ka"
    "uxSchedulerSuspended ka = uxSchedulerSuspended k1"
    using switch_step k1(2) unfolding good_step_def by blast
  obtain k2 where k2: "SysTick_Handler ka = Some k2" "uxSchedulerSuspended k2 = uxSchedulerSuspended ka"
    using tick_step ka(2) unfolding good_step_def by blast
  have b: "pendsv k1" "uxSchedulerSuspended k2 = 0" using k1(3) ka(3) k2(2) by (simp_all add: blocked_def)
  have "kernel_reach 0 [7] k1 ([] @ [SwitchInterrupt]) ka"
    by (rule reach_step [OF reach_start]) (simp_all add: b ka)
  then have r: "kernel_reach 0 [7] k1 (([] @ [SwitchInterrupt]) @ [TickInterrupt]) k2"
    by (rule reach_step) (simp_all add: k2)
  have "\<not> ready k2 1 \<and> (\<exists>k3. kernel_step k2 TickInterrupt = Some k3 \<and> ready k3 1)"
    using kernel_delay_exact [OF k0(2,3), of 2 k1 "[SwitchInterrupt, TickInterrupt]" k2] k0(3-5) k1(1) r b(2)
    by (simp add: ticks_in_def leaves_alone_def)
  then show ?thesis using k0(1) k1(1) r by auto
qed

text \<open>C11: tasks of equal priority take turns. In any state of a run with the scheduler not locked, the ready
  tasks of the highest priority are in an order, each of them once, in which one context switch after
  another runs them, from the first again after the last.\<close>

theorem kernel_round_robin:
  assumes "kernel_run tasks idle qs evs k" and "uxSchedulerSuspended k = 0" and "top_task k u"
  shows "\<exists>order. distinct order \<and>
    set order = {t. ready k t \<and> uxPriority (tcbs k t) = uxPriority (tcbs k u)} \<and>
    (\<forall>m. \<exists>k'. switches (Suc m) k = Some k' \<and> pxCurrentTCB k' = Some (order ! (m mod length order)))"
proof -
  obtain T where ok: "sched_ok (run_lists qs) T idle k" using run_ok [OF assms(1)] by blast
  obtain A where inv: "kinv True (run_lists qs) T {} k A"
    using sched_okD(1) [OF ok] by blast
  have u: "ready k u" "\<And>t. ready k t \<Longrightarrow> uxPriority (tcbs k t) \<le> uxPriority (tcbs k u)"
    using assms(3) by (simp_all add: top_task_def)
  note order = turn_order_ok(1,2) [OF inv ready_priority [OF inv u(1)]]
  have "\<exists>k'. switches (Suc m) k = Some k' \<and> pxCurrentTCB k' =
      Some (turn_order A (uxPriority (tcbs k u)) ! (m mod length (turn_order A (uxPriority (tcbs k u)))))" for m
    using switches_ok [OF inv sched_okD(2) [OF ok] assms(2) u, of "Suc m"] by (auto simp del: switches.simps)
  then show ?thesis using order by blast
qed

theorem kernel_round_robin_witness:
  "\<exists>k0 k1 k2 k3. kernel_boot [(1, 8), (2, 8)] 0 [] = Some k0 \<and> switches 1 k0 = Some k1 \<and>
     switches 2 k0 = Some k2 \<and> switches 3 k0 = Some k3 \<and>
     pxCurrentTCB k1 \<noteq> pxCurrentTCB k2 \<and> pxCurrentTCB k3 = pxCurrentTCB k1"
proof -
  have good: "good_tasks [(1, 8), (2, 8)] 0" by (simp add: good_tasks_def configMAX_PRIORITIES_def)
  obtain k0 where k0: "kernel_boot [(1, 8), (2, 8)] 0 [] = Some k0" "uxSchedulerSuspended k0 = 0"
    "ready k0 1" "ready k0 2" "uxPriority (tcbs k0 1) = 8" "uxPriority (tcbs k0 2) = 8"
    "sched_ok (run_lists []) {0, 1, 2} 0 k0"
    using good_tasks_boot [OF good, of "[]"] by auto
  obtain A where inv: "kinv True (run_lists []) {0, 1, 2} {} k0 A" using sched_okD(1) [OF k0(7)] by blast
  have T: "t \<in> {0, 1, 2}" if "ready k0 t" for t
    using kinv_state(1) [OF inv, of t] that unfolding ready_def by blast
  have z: "uxPriority (tcbs k0 0) = 0" using restD(2) [OF sched_okD(2) [OF k0(7)]] .
  have top: "top_task k0 1" using T k0 z by (fastforce simp: top_task_def)
  have run: "kernel_run [(1, 8), (2, 8)] 0 [] [] k0"
    using good k0(1) unfolding kernel_run_def by (blast intro: reach_start)
  obtain order where o: "distinct order" "set order = {t. ready k0 t \<and> uxPriority (tcbs k0 t) = 8}"
    "\<And>m. \<exists>k'. switches (Suc m) k0 = Some k' \<and> pxCurrentTCB k' = Some (order ! (m mod length order))"
    using kernel_round_robin [OF run k0(2) top] unfolding k0(5) by blast
  have "set order = {1, 2}" using o(2) T k0 z by force
  then have l: "length order = 2" using distinct_card [OF o(1)] by simp
  then have "order ! 0 \<noteq> order ! 1" using nth_eq_iff_index_eq [OF o(1), of 0 1] by simp
  then show ?thesis
    using k0(1) o(3) [of 0] o(3) [of 1] o(3) [of 2] l by (auto simp: numeral_2_eq_2 numeral_3_eq_3 simp del: switches.simps)
qed

text \<open>C38: a suspended task stays suspended. After a call that suspends a task, whatever happens but a
  call that resumes or deletes this task - notifications to it and further suspensions included - it is on no
  list but that of the suspended tasks, and never the one that runs.\<close>

theorem kernel_suspended_stays:
  assumes "kernel_run tasks idle qs evs k" and "may_happen idle qs k (CallSuspend t)"
    and "kernel_step k (CallSuspend t) = Some k1"
    and "kernel_reach idle qs k1 evs' k2" and "CallResume t \<notin> set evs' \<and> CallDelete t \<notin> set evs'"
  shows "state_list k2 t = Some SuspendedList \<and> event_list k2 t = None \<and>
    (\<not> pendsv k2 \<longrightarrow> pxCurrentTCB k2 \<noteq> Some t)"
proof -
  obtain T c where ok: "sched_ok (run_lists qs) T idle k" and c: "pxCurrentTCB k = Some c" by (rule run_sched [OF assms(1)])
  have q: "\<And>e. e \<in> set qs \<Longrightarrow> Event e \<in> run_lists qs" by simp
  have "t \<in> T" using assms(2) sched_tasks(1) [OF ok] by (simp add: live_def)
  then have "good_step (run_lists qs) T idle 0 {t} k k1 \<and> at_rest k1 t"
    using suspend_step [OF ok, of t c] assms(2,3) c by (auto simp: at_rest_def live_def)
  then have ok1: "\<exists>T. sched_ok (run_lists qs) T idle k1" "at_rest k1 t" by (auto simp: good_step_def)
  have r: "at_rest k2 t" by (rule at_rest_run [OF assms(4) ok1(1) q ok1(2) assms(5)])
  obtain T2 where ok2: "sched_ok (run_lists qs) T2 idle k2" using reach_ok [OF assms(4) ok1(1) q] by blast
  have "\<not> ready k2 t" using r by (auto simp: at_rest_def ready_def)
  then show ?thesis using r sched_cur_ready [OF ok2] by (auto simp: at_rest_def)
qed

theorem kernel_suspended_stays_witness:
  "\<exists>k0 k1 k2. kernel_boot [(1, 24), (2, 8)] 0 [7] = Some k0 \<and> kernel_step k0 (CallSuspend 2) = Some k1 \<and>
     kernel_step k1 (CallNotify 2 5 eSetBits) = Some k2 \<and> state_list k2 2 = Some SuspendedList"
proof -
  obtain k0 where k0: "kernel_boot demo_tasks 0 [7] = Some k0" "kernel_run demo_tasks 0 [7] [] k0"
    "pxCurrentTCB k0 = Some 1" "\<not> pendsv k0" "sched_ok (run_lists [7]) {0, 1, 2} 0 k0" "ready k0 2"
    using demo_boot by blast
  have nw: "state_list k0 2 \<noteq> Some WaitingTermination" using k0(6) by (auto simp: ready_def)
  have m: "may_happen 0 [7] k0 (CallSuspend 2)" using k0(3,4,6) nw by (auto simp: live_def ready_def)
  obtain k1 where k1: "vTaskSuspend k0 (Some 2) = Some k1" "sched_ok (run_lists [7]) {0, 1, 2} 0 k1"
    "\<not> pendsv k1" "state_list k1 2 = Some SuspendedList"
    using suspend_step [OF k0(5,4) _ _ nw k0(3)] by (auto simp: good_step_def)
  obtain v ret k2 where k2: "xTaskGenericNotify k1 2 5 eSetBits = Some (v, ret, k2)"
    using notify_step [OF k1(2,3), of 2 5 eSetBits] k1(4) by auto
  have "kernel_reach 0 [7] k1 ([] @ [CallNotify 2 5 eSetBits]) k2"
    by (rule reach_step [OF reach_start]) (simp_all add: k1 k2 live_def)
  then have "state_list k2 2 = Some SuspendedList"
    using kernel_suspended_stays [OF k0(2) m, of k1 "[CallNotify 2 5 eSetBits]" k2] k1(1) by simp
  then show ?thesis using k0(1) k1(1) k2 by auto
qed

section \<open>Time-outs\<close>

text \<open>C39: a time-out is exact. With \<open>d\<close> ticks since its start, fewer than the range of the tick count, the
  check answers that the time is up exactly if the time to wait was at most \<open>d\<close>, whether or not the
  count wrapped; otherwise it leaves the ticks that remain and starts anew from the present.\<close>

theorem kernel_timeout_exact:
  assumes "d < 2 ^ 32" and "xTickCount k1 = xTickCount k0 + of_nat d"
    and "xNumOfOverflows k1 = xNumOfOverflows k0 + (if unat (xTickCount k0) + d < 2 ^ 32 then 0 else 1)"
    and "pxCurrentTCB k1 = Some c" and "\<not> ucDelayAborted (tcbs k1 c)" and "n \<noteq> portMAX_DELAY"
  shows "xTaskCheckForTimeOut k1 (vTaskInternalSetTimeOutState k0) n = Some
    (if unat n \<le> d then (True, vTaskInternalSetTimeOutState k0, 0, k1)
     else (False, vTaskInternalSetTimeOutState k1, n - of_nat d, k1))"
proof -
  have u: "unat (of_nat d :: u32) = d" using assms(1) by (simp add: unat_of_nat)
  have e: "xTickCount k1 - xTickCount k0 = of_nat d" by (simp add: assms(2))
  have lt: "(of_nat d < n) \<longleftrightarrow> \<not> unat n \<le> d" by (auto simp: word_less_nat_alt u)
  have wrap: "\<not> (xNumOfOverflows k1 \<noteq> xNumOfOverflows k0 \<and> xTickCount k0 \<le> xTickCount k1)"
  proof (cases "unat (xTickCount k0) + d < 2 ^ 32")
    case False
    have "xTickCount k1 < xTickCount k0"
      using wake_time(1) [of "xTickCount k0" "of_nat d"] u False u32_bound [of "xTickCount k0 + of_nat d"]
      by (force simp: assms(2))
    then show ?thesis by (simp add: not_le)
  qed (simp add: assms(3))
  show ?thesis
    using assms(4-6) wrap
    by (auto simp: xTaskCheckForTimeOut_def vTaskInternalSetTimeOutState_def e lt Let_def)
qed

theorem kernel_timeout_exact_witness:
  "\<exists>k0 k1. xTickCount k0 = 0xFFFFFFFE \<and> xTickCount k1 = 3 \<and> xNumOfOverflows k1 = 1 \<and>
     xTaskCheckForTimeOut k1 (vTaskInternalSetTimeOutState k0) 9 =
       Some (False, vTaskInternalSetTimeOutState k1, 4, k1)"
proof -
  define k0 where "k0 = kernel_reset\<lparr>pxCurrentTCB := Some 1, xTickCount := 0xFFFFFFFE\<rparr>"
  define k1 where "k1 = k0\<lparr>xTickCount := 3, xNumOfOverflows := 1\<rparr>"
  have "xTaskCheckForTimeOut k1 (vTaskInternalSetTimeOutState k0) 9 = Some
    (if unat (9 :: u32) \<le> 5 then (True, vTaskInternalSetTimeOutState k0, 0, k1)
     else (False, vTaskInternalSetTimeOutState k1, 9 - of_nat 5, k1))"
    by (rule kernel_timeout_exact [where c = 1]) (simp_all add: k0_def k1_def kernel_reset_def portMAX_DELAY_def)
  then show ?thesis by (intro exI [of _ k0] exI [of _ k1]) (simp add: k0_def k1_def kernel_reset_def)
qed

end
