(* ===== verification/Line_Owner.thy ===== *)
theory Line_Owner
  imports Application RTOS_Scheduler
begin

text \<open>
  The firmware on its kernel: which task owns the RS485 line (\<open>usb_rs485.c\<close> over \<open>tasks.c\<close>). The calls of
  \<open>vTaskSuspend\<close>, \<open>vTaskResume\<close> and \<open>xTaskNotifyGive\<close> that the bridge makes are carried out on the model of the
  scheduler, and a task has a turn only while the scheduler runs it. That the Modbus task leaves the
  line alone while the bridge is on is then what these calls bring about. A call of the bridge, with its
  kernel calls, is one step, and so is the turn of a task; the kernel calls a task makes in its turn besides
  (delays, waits) are steps of their own.
\<close>

section \<open>The system\<close>

text \<open>The tasks: the Modbus task, the bridge, the USB stack, the shell and the idle task.\<close>

record handles =
  modbus_t :: nat
  bridge_t :: nat
  usb_t :: nat
  shell_t :: nat
  idle_t :: nat

definition handles_ok :: "handles \<Rightarrow> bool" where
  "handles_ok h \<longleftrightarrow> distinct [modbus_t h, bridge_t h, usb_t h, shell_t h, idle_t h]"

text \<open>What the bridge calls, as a call of the kernel: \<open>xTaskNotifyGive\<close> increments the notification value.\<close>

fun os_event :: "handles \<Rightarrow> os_call \<Rightarrow> kernel_event" where
  "os_event h Suspend_Modbus = CallSuspend (modbus_t h)"
| "os_event h Resume_Modbus = CallResume (modbus_t h)"
| "os_event h Notify_Bridge = CallNotify (bridge_t h) 0 eIncrement"

fun os_run :: "handles \<Rightarrow> os_call list \<Rightarrow> kernel \<Rightarrow> kernel option" where
  "os_run h [] k = Some k"
| "os_run h (c # cs) k = Option.bind (kernel_step k (os_event h c)) (os_run h cs)"

definition new_calls :: "('c, 't) firmware \<Rightarrow> ('c, 't) firmware \<Rightarrow> os_call list" where
  "new_calls f f' = drop (length (os_calls (fw_bridge f))) (os_calls (fw_bridge f'))"

definition running :: "kernel \<Rightarrow> nat \<Rightarrow> bool" where
  "running k t \<longleftrightarrow> \<not> pendsv k \<and> pxCurrentTCB k = Some t"

text \<open>
  When the code of the firmware runs: interrupts at any time, the code of a task while the scheduler runs this task. The
  line state is reported by the USB task. The shell takes one character at a time. The bridge uses the handles of two
  tasks, which must be those of living tasks.
\<close>

fun its_turn :: "handles \<Rightarrow> kernel \<Rightarrow> fw_event \<Rightarrow> bool" where
  "its_turn h k (Usb_Line itf dtr rts) \<longleftrightarrow> running k (usb_t h) \<and> live k (modbus_t h) \<and> live k (bridge_t h)"
| "its_turn h k (Shell_Bytes bs) \<longleftrightarrow> running k (shell_t h) \<and> live k (modbus_t h) \<and> live k (bridge_t h) \<and> length bs \<le> 1"
| "its_turn h k (Line_Byte x) \<longleftrightarrow> True"
| "its_turn h k Line_Timer \<longleftrightarrow> True"
| "its_turn h k (Modbus_Turn es) \<longleftrightarrow> running k (modbus_t h)"
| "its_turn h k (Bridge_Turn env) \<longleftrightarrow> running k (bridge_t h)"

datatype sys_event = Firmware_Event fw_event | Kernel_Event kernel_event

text \<open>
  A step: one of the kernel, or one of the firmware with the calls it makes. No other code of the firmware
  suspends, resumes or deletes the Modbus task.
\<close>

inductive sys_step ::
  "handles \<Rightarrow> nat list \<Rightarrow> ('c, 't) firmware \<times> kernel \<Rightarrow> sys_event \<Rightarrow> ('c, 't) firmware \<times> kernel \<Rightarrow> bool"
  for h qs where
  sys_kernel: "\<not> fw_restarted f \<Longrightarrow> may_happen (idle_t h) qs k ev \<Longrightarrow>
    ev \<notin> {CallSuspend (modbus_t h), CallResume (modbus_t h), CallDelete (modbus_t h)} \<Longrightarrow>
    kernel_step k ev = Some k' \<Longrightarrow> sys_step h qs (f, k) (Kernel_Event ev) (f, k')"
| sys_firmware: "\<not> fw_restarted f \<Longrightarrow> its_turn h k ev \<Longrightarrow> fw_step n c status ev f = Inr (Some f') \<Longrightarrow>
    os_run h (new_calls f f') k = Some k' \<Longrightarrow> sys_step h qs (f, k) (Firmware_Event ev) (f', k')"

inductive sys_run ::
  "handles \<Rightarrow> nat list \<Rightarrow> ('c, 't) firmware \<times> kernel \<Rightarrow> sys_event list \<Rightarrow> ('c, 't) firmware \<times> kernel \<Rightarrow> bool"
  for h qs s0 where
  sys_start: "sys_run h qs s0 [] s0"
| sys_next: "sys_run h qs s0 evs s \<Longrightarrow> sys_step h qs s ev s' \<Longrightarrow> sys_run h qs s0 (evs @ [ev]) s'"

inductive_cases sys_kernelE: "sys_step h qs (f, k) (Kernel_Event ev) s'"
inductive_cases sys_firmwareE: "sys_step h qs (f, k) (Firmware_Event ev) s'"

section \<open>What the calls do to the kernel\<close>

lemma live_after:
  assumes ok: "sched_ok L T idle k" and g: "good_step L T idle m D k k'" and "t \<notin> D" and l: "live k t"
  shows "live k' t"
proof -
  obtain A' where inv: "kinv True L T {} k' A'" using sched_okD(1) g unfolding good_step_def by blast
  have w: "waits_less m k k' t" using g assms(3) by (simp add: good_step_def)
  show ?thesis
  proof (cases "wait_left k t")
    case None
    then show ?thesis using waits_lessD(1) [OF w] l by (simp add: live_def)
  next
    case (Some n)
    show ?thesis
    proof (cases "n \<le> m")
      case True
      then show ?thesis using waits_lessD(4) [OF w Some] by (simp add: live_def)
    next
      case False
      then have "wait_left k' t = Some (n - m)" using waits_lessD(7) [OF w Some] by simp
      then show ?thesis using kinv_delayed_core [OF inv] by (auto simp: live_def wait_left_def split: if_splits)
    qed
  qed
qed

text \<open>Switched on: the Modbus task is suspended, and the bridge task is told.\<close>

lemma on_kernel:
  assumes ok: "\<exists>T. sched_ok (run_lists qs) T (idle_t h) k" and h: "handles_ok h"
    and r: "running k c" "c \<noteq> modbus_t h" and l: "live k (modbus_t h)" "live k (bridge_t h)"
  shows "\<exists>k'. os_run h (Suspend_Modbus # (if told then [Notify_Bridge] else [])) k = Some k' \<and>
    (\<exists>T. sched_ok (run_lists qs) T (idle_t h) k') \<and> at_rest k' (modbus_t h)"
proof -
  let ?m = "modbus_t h" and ?b = "bridge_t h" and ?L = "run_lists qs"
  obtain T where T: "sched_ok ?L T (idle_t h) k" using ok by blast
  have np: "\<not> pendsv k" and cur: "pxCurrentTCB k = Some c" using r(1) by (simp_all add: running_def)
  have m: "?m \<in> T" "?m \<noteq> idle_t h" "state_list k ?m \<noteq> Some WaitingTermination"
    using l(1) h sched_tasks(1) [OF T] by (auto simp: live_def handles_ok_def)
  obtain k1 where k1: "vTaskSuspend k (Some ?m) = Some k1" "good_step ?L T (idle_t h) 0 {?m} k k1" "at_rest k1 ?m"
    "\<not> pendsv k1"
    using suspend_step [OF T np m cur] r(2) by (auto simp: at_rest_def)
  have T1: "sched_ok ?L T (idle_t h) k1" using k1(2) by (simp add: good_step_def)
  show ?thesis
  proof (cases told)
    case False
    then show ?thesis using k1 T1 by auto
  next
    case True
    have "?b \<notin> {?m}" using h by (auto simp: handles_ok_def)
    from live_after [OF T k1(2) this l(2)] have b: "live k1 ?b" .
    then have bT: "?b \<in> T" "state_list k1 ?b \<noteq> Some WaitingTermination"
      using sched_tasks(1) [OF T1] by (auto simp: live_def)
    obtain v ret k2 where k2: "xTaskGenericNotify k1 ?b 0 eIncrement = Some (v, ret, k2)"
      "good_step ?L T (idle_t h) 0 {?b} k1 k2" using notify_step [OF T1 k1(4) bT] by blast
    have s: "kernel_step k1 (CallNotify ?b 0 eIncrement) = Some k2" using k2(1) by simp
    have "at_rest k2 ?m"
    proof (rule at_rest_step [OF T1 _ _ k1(3) _ _ s])
      show "may_happen (idle_t h) qs k1 (CallNotify ?b 0 eIncrement)" using k1(4) b by simp
    qed simp_all
    then show ?thesis using k1(1) k2 s True by (auto simp: good_step_def)
  qed
qed

lemma resume_readies:
  assumes ok: "sched_ok L T idle k" and np: "\<not> pendsv k" and r: "at_rest k t" and c: "pxCurrentTCB k \<noteq> Some t"
  shows "\<exists>k'. vTaskResume k t = Some k' \<and> ready k' t"
proof -
  obtain A where inv: "kinv True L T {} k A" using sched_okD(1) [OF ok] by blast
  have st: "state_list k t = Some SuspendedList" "event_list k t = None" "ucNotifyState (tcbs k t) \<noteq> taskWAITING_NOTIFICATION"
    using r by (simp_all add: at_rest_def)
  have "t \<in> T" using kinv_state(1) [OF inv st(1)] .
  from make_ready_step [OF ok np this st(2)] st(1) obtain s k' where
    "listREMOVE_ITEM k (StateItem t) = Some (k\<lparr>klists := s\<rparr>)"
    "taskYIELD_ANY_CORE_IF_USING_PREEMPTION (prvAddTaskToReadyList (k\<lparr>klists := s\<rparr>) t) t = Some k'" "ready k' t"
    by auto
  moreover have "Some t \<noteq> pxCurrentTCB k \<and> prvTaskIsTaskSuspended k t"
    using st c by (auto simp: prvTaskIsTaskSuspended_def state_list_def event_list_def)
  ultimately show ?thesis by (auto simp: vTaskResume_def)
qed

text \<open>Switched off: the Modbus task is ready again.\<close>

lemma off_kernel:
  assumes ok: "\<exists>T. sched_ok (run_lists qs) T (idle_t h) k" and r: "running k c" "c \<noteq> modbus_t h"
    and a: "at_rest k (modbus_t h)"
  shows "\<exists>k'. os_run h [Resume_Modbus] k = Some k' \<and> (\<exists>T. sched_ok (run_lists qs) T (idle_t h) k') \<and>
    ready k' (modbus_t h)"
proof -
  obtain T where T: "sched_ok (run_lists qs) T (idle_t h) k" using ok by blast
  have np: "\<not> pendsv k" and cur: "pxCurrentTCB k \<noteq> Some (modbus_t h)" using r by (simp_all add: running_def)
  obtain k' where "vTaskResume k (modbus_t h) = Some k'" "ready k' (modbus_t h)"
    using resume_readies [OF T np a cur] by blast
  moreover obtain k'' where "vTaskResume k (modbus_t h) = Some k''" "sched_ok (run_lists qs) T (idle_t h) k''"
    using resume_step [OF T np, of "modbus_t h"] unfolding good_step_def by blast
  ultimately show ?thesis by auto
qed

section \<open>What a step does to the line and to the bridge\<close>

text \<open>The Modbus side as the line and its masters see it.\<close>

definition modbus_still :: "rtu_stack \<Rightarrow> rtu_stack \<Rightarrow> bool" where
  "modbus_still s s' \<longleftrightarrow> st_dev s' = st_dev s \<and> wire (st_modbus s') = wire (st_modbus s)"

lemma timer_still:
  assumes "st_cb s = Some rtu_layer" and "mb_timer0_callback s = Inr s'"
  shows "modbus_still s s' \<and> st_cb s' = st_cb s"
proof -
  obtain m need where m: "xMBRTUTimerT35Expired (st_modbus s) = Inr (m, need)" "s' = s\<lparr>st_modbus := m\<rparr>"
    using assms by (auto simp: mb_timer0_callback_def rtu_layer_def res_simps)
  obtain r where "deref (RcvState (st_modbus s)) = Inr r"
    using m(1) by (auto simp: xMBRTUTimerT35Expired_def res_simps)
  then have "wire m = wire (st_modbus s)" using m(1)
    by (cases r) (auto simp: xMBRTUTimerT35Expired_def xMBPortEventPost_def res_simps frame_simps)
  then show ?thesis using m(2) by (simp add: modbus_still_def)
qed

lemma rx_task_keeps_cb:
  assumes "mb_uart_rx_task n c es g = Inr (Some g')"
  shows "st_cb (gw_stack g') = st_cb (gw_stack g)"
  using assms by (auto simp: mb_uart_rx_task_def bindR_eq_Inr split: if_split_asm option.split_asm)

lemma modbus_turn_keeps:
  assumes "modbus_turn n c status es f = Inr (Some f')"
  shows "fw_bridge f' = fw_bridge f \<and> st_cb (fw_stack f') = st_cb (fw_stack f)"
proof -
  have log: "fw_bridge f2 = fw_bridge f1 \<and> fw_stack f2 = fw_stack f1"
    if "logging status call f1 = Inr f2" for call and f1 f2 :: "('c, 't) firmware"
    using that by (auto simp: logging_def bindR_eq_Inr)
  obtain g where g: "gateway_round n c es \<lparr>gw_stack = fw_stack f, gw_board = fw_board f\<rparr> = Inr (Some g)"
    using assms by (auto simp: modbus_turn_def bindR_eq_Inr split: option.split_asm)
  then obtain s e where s: "eMBPoll (fw_stack f) = Inr (s, e)"
    "mb_uart_rx_task n c es \<lparr>gw_stack = s, gw_board = fw_board f\<rparr> = Inr (Some g)"
    by (auto simp: gateway_round_def bindR_eq_Inr)
  have cb: "st_cb (gw_stack g) = st_cb (fw_stack f)"
    using rx_task_keeps_cb [OF s(2)] poll_keeps_cb [OF s(1)] by simp
  show ?thesis
    using assms g cb by (auto simp: modbus_turn_def Let_def bindR_eq_Inr dest!: log split: if_split_asm)
qed

lemma rs485_keeps_bridge:
  assumes "rs485_to_usb cur env s = Inr (Some s')"
  shows "br s' = br s"
proof -
  obtain n where n: "bsp_uart_available (bd s) USB_Bridge.BSP_RS485 = Inr n"
    using assms by (auto simp: rs485_to_usb_def res_simps)
  let ?len = "if nat n > BRIDGE_BUF_SIZE then BRIDGE_BUF_SIZE else nat n"
  let ?r = "bsp_uart_receive cur (env_tick env) (env_turns env) (bd s) USB_Bridge.BSP_RS485
      (replicate BRIDGE_BUF_SIZE 0) (word_of_nat ?len) 10"
  show ?thesis
  proof (cases "nat n > 0")
    case True
    obtain r where r: "?r = Inr r"
      using assms n True by (cases ?r) (simp_all add: rs485_to_usb_def Let_def)
    show ?thesis
    proof (cases r)
      case None
      then show ?thesis using assms n True r by (simp add: rs485_to_usb_def Let_def)
    next
      case (Some x)
      obtain b buf len where "x = (b, buf, len)" by (cases x)
      then show ?thesis using assms n True r Some by (auto simp: rs485_to_usb_def Let_def split: if_splits)
    qed
  qed (use assms n in \<open>simp add: rs485_to_usb_def\<close>)
qed

text \<open>The bridge task only takes its notification.\<close>

lemma bridge_turn_keeps:
  assumes "bridge_round cur env s = Inr (Some s')"
  shows "\<exists>m. br s' = (br s)\<lparr>notified := m\<rparr>"
proof (cases "env_mounted env")
  case True
  define s1 where "s1 = (if \<not> s_enabled (br s) then s\<lparr>br := (br s)\<lparr>notified := 0\<rparr>\<rparr> else s)"
  obtain s2 where s2: "usb_to_rs485 env s1 = Inr s2" "rs485_to_usb cur env s2 = Inr (Some s')"
    using assms True by (auto simp: bridge_round_def s1_def res_simps Let_def split: if_split_asm)
  have "br s2 = br s1"
    using s2(1) by (auto simp: usb_to_rs485_def res_simps Let_def split: if_splits prod.splits)
  then have "br s' = (if \<not> s_enabled (br s) then (br s)\<lparr>notified := 0\<rparr> else (br s)\<lparr>notified := notified (br s)\<rparr>)"
    using rs485_keeps_bridge [OF s2(2)] by (simp add: s1_def)
  then show ?thesis
    by (intro exI [of _ "if s_enabled (br s) then notified (br s) else 0"]) (simp split: if_split_asm)
next
  case False
  then have "br s' = (br s)\<lparr>notified := notified (br s)\<rparr>" using assms by (simp add: bridge_round_def)
  then show ?thesis by blast
qed

text \<open>One character lets the shell switch the bridge at most once.\<close>

definition turned :: "bridge \<Rightarrow> bridge \<Rightarrow> bool" where
  "turned b b' \<longleftrightarrow> b' = b \<or> b' = usb_rs485_enable b \<or> b' = usb_rs485_disable b"

lemma command_switches:
  assumes "run_command hc s args = Inr (s', returned)"
  shows "turned (sd_bridge (dev s)) (sd_bridge (dev s'))"
  using assms
  by (cases hc) (auto simp: turned_def help_frame [of s_shell_commands] cmd_reboot_def cmd_get_io_def cmd_set_do_def cmd_bridge_on_def
      cmd_bridge_off_def cmd_bridge_status_def bindR_eq_Inr Let_def split: if_split_asm)

lemma process_switches:
  assumes p: "prv_process s_shell_commands run_command s = Inr (s', returned)"
  shows "turned (sd_bridge (dev s)) (sd_bridge (dev s'))"
proof -
  obtain l where l: "prv_last_char s = Inr l" using p by (auto simp: prv_process_def bindR_eq_Inr)
  show ?thesis
  proof (cases "l \<noteq> NL \<and> \<not> prv_is_rx_buffer_full s")
    case True
    then show ?thesis using p l by (simp add: prv_process_def turned_def)
  next
    case False
    obtain buf argv where a: "args_loop (rx_size s) 0 (rx_size s) (rx_buffer s) None [] = Inr (buf, argv)"
      using p False l by (cases "args_loop (rx_size s) 0 (rx_size s) (rx_buffer s) None []") (auto simp: prv_process_def)
    define s2 where "s2 = (if rx_size (s\<lparr>rx_buffer := buf\<rparr>) = SHELL_RX_BUFFER_SIZE then prv_echo (s\<lparr>rx_buffer := buf\<rparr>) NL else s\<lparr>rx_buffer := buf\<rparr>)"
    have d: "dev s2 = dev s" by (simp add: s2_def)
    define r where "r = (if length argv \<ge> 1 then
        bindR (mapR (cstr buf) argv) (\<lambda>args. case prv_find_command s_shell_commands (hd args) of
            None \<Rightarrow> Inr (unknown_command s2 (hd args), True) | Some h \<Rightarrow> run_command h s2 args)
        else Inr (s2, True))"
    have "prv_process s_shell_commands run_command s = bindR r (\<lambda>(s3, returned).
         if returned then Inr (prv_send_prompt (prv_reset_rx_buffer s3), True) else Inr (s3, False))"
      using False by (simp only: prv_process_def l a r_def s2_def Let_def bindR.simps prod.case if_False)
    then obtain s3 returned' where s3: "r = Inr (s3, returned')" "dev s' = dev s3"
      using p by (cases r) (auto simp: prv_send_prompt_def prv_reset_rx_buffer_def split: if_split_asm)
    have "turned (sd_bridge (dev s2)) (sd_bridge (dev s3))"
    proof (cases "\<exists>args hc. run_command hc s2 args = Inr (s3, returned')")
      case True
      then show ?thesis using command_switches by blast
    next
      case False
      then have "dev s3 = dev s2" using s3(1)
        by (auto simp: r_def bindR_eq_Inr unknown_command_def split: if_split_asm option.split_asm)
      then show ?thesis by (simp add: turned_def)
    qed
    then show ?thesis using s3(2) d by simp
  qed
qed

lemma receive_switches:
  assumes "cli_shell_receive_char s_shell_commands run_command s ch = Inr (s', returned)"
  shows "turned (sd_bridge (dev s)) (sd_bridge (dev s'))"
  using assms process_switches
  by (fastforce simp: cli_shell_receive_char_def turned_def bindR_eq_Inr split: if_split_asm)

lemma round_switches:
  assumes "shell_rx_round s_shell_commands run_command s bs = Inr (s', rx, returned)" and "length bs \<le> 1"
  shows "turned (sd_bridge (dev s)) (sd_bridge (dev s'))"
proof (cases bs)
  case Nil
  then show ?thesis using assms(1) by (simp add: shell_rx_round_def bsp_usb_available_def turned_def)
next
  case (Cons x xs)
  then obtain r where "cli_shell_receive_char s_shell_commands run_command s (byte_char x) = Inr (s', r)"
    using assms by (auto simp: shell_rx_round_def bsp_usb_available_def bsp_usb_receiver_def bindR_eq_Inr split: if_split_asm)
  then show ?thesis by (rule receive_switches)
qed

text \<open>Only the USB task and the shell switch the bridge, and only the Modbus task changes the device or writes to the line.\<close>

lemma step_bridge:
  assumes "its_turn h k ev" and "fw_step n c status ev f = Inr (Some f')"
  shows "(\<exists>m. fw_bridge f' = (fw_bridge f)\<lparr>notified := m\<rparr>) \<or>
    (running k (usb_t h) \<or> running k (shell_t h)) \<and> live k (modbus_t h) \<and> live k (bridge_t h) \<and>
    (fw_bridge f' = usb_rs485_enable (fw_bridge f) \<or> fw_bridge f' = usb_rs485_disable (fw_bridge f))"
proof -
  have same: "\<exists>m. b = b\<lparr>notified := m\<rparr>" for b :: bridge by (intro exI [of _ "notified b"]) simp
  show ?thesis
  proof (cases ev)
    case (Usb_Line itf dtr rts)
    then show ?thesis using assms same [of "fw_bridge f"] by (auto simp: tud_cdc_line_state_cb_def split: if_split_asm)
  next
    case (Shell_Bytes bs)
    show ?thesis
    proof (cases "fw_shell_task f")
      case True
      then obtain s rx r where s: "shell_rx_round s_shell_commands run_command (shell_view f) bs = Inr (s, rx, r)"
        "f' = shell_result s f" using assms(2) Shell_Bytes by (auto simp: bindR_eq_Inr)
      have "turned (fw_bridge f) (fw_bridge f')"
        using round_switches [OF s(1)] assms(1) Shell_Bytes s(2) by (simp add: shell_view_def with_dev_def shell_result_def)
      then show ?thesis using assms(1) Shell_Bytes same [of "fw_bridge f"] by (auto simp: turned_def)
    qed (use assms Shell_Bytes same in simp)
  next
    case (Modbus_Turn es)
    then show ?thesis using assms modbus_turn_keeps [of n c status es f f'] same [of "fw_bridge f"] by (auto split: if_split_asm)
  next
    case (Bridge_Turn env)
    then show ?thesis using assms same bridge_turn_keeps
      by (fastforce simp: bindR_eq_Inr bridge_view_def bridge_result_def split: if_split_asm)
  qed (use assms same in \<open>auto simp: bindR_eq_Inr\<close>)
qed

lemma step_stack:
  assumes "st_cb (fw_stack f) = Some rtu_layer" and "fw_step n c status ev f = Inr (Some f')"
  shows "st_cb (fw_stack f') = Some rtu_layer \<and> ((\<exists>es. ev = Modbus_Turn es) \<or> modbus_still (fw_stack f) (fw_stack f'))"
proof (cases ev)
  case Line_Timer
  then show ?thesis using assms timer_still [OF assms(1)] by (auto simp: bindR_eq_Inr)
next
  case (Modbus_Turn es)
  then show ?thesis using assms modbus_turn_keeps [of n c status es f f'] by (auto split: if_split_asm)
qed (use assms in \<open>auto simp: bindR_eq_Inr modbus_still_def shell_result_def bridge_result_def split: if_split_asm\<close>)

section \<open>The invariant\<close>

text \<open>While the bridge is on, the Modbus task is suspended in the kernel.\<close>

definition sys_inv :: "handles \<Rightarrow> nat list \<Rightarrow> ('c, 't) firmware \<Rightarrow> kernel \<Rightarrow> bool" where
  "sys_inv h qs f k \<longleftrightarrow> bridge_inv (fw_bridge f) \<and> st_cb (fw_stack f) = Some rtu_layer \<and>
     (\<exists>T. sched_ok (run_lists qs) T (idle_t h) k) \<and> (s_enabled (fw_bridge f) \<longrightarrow> at_rest k (modbus_t h))"

lemma firmware_keeps:
  assumes inv: "sys_inv h qs f k" and h: "handles_ok h" and t: "its_turn h k ev" and s: "fw_step n c status ev f = Inr (Some f')"
  shows "\<exists>k'. os_run h (new_calls f f') k = Some k' \<and> sys_inv h qs f' k' \<and>
    (s_enabled (fw_bridge f) \<and> \<not> s_enabled (fw_bridge f') \<longrightarrow> ready k' (modbus_t h))"
proof -
  let ?b = "fw_bridge f"
  have i: "bridge_inv ?b" "\<exists>T. sched_ok (run_lists qs) T (idle_t h) k" "s_enabled ?b \<longrightarrow> at_rest k (modbus_t h)"
    and cb: "st_cb (fw_stack f') = Some rtu_layer"
    using inv step_stack [OF _ s] by (simp_all add: sys_inv_def)
  have ex: ?thesis if "os_run h (new_calls f f') k = Some k'" "bridge_inv (fw_bridge f')"
    "\<exists>T. sched_ok (run_lists qs) T (idle_t h) k'" "s_enabled (fw_bridge f') \<longrightarrow> at_rest k' (modbus_t h)"
    "s_enabled ?b \<and> \<not> s_enabled (fw_bridge f') \<longrightarrow> ready k' (modbus_t h)" for k'
    using that cb by (auto simp: sys_inv_def)
  consider (same) m where "fw_bridge f' = ?b\<lparr>notified := m\<rparr>"
    | (on) "\<not> s_enabled ?b" "fw_bridge f' = usb_rs485_enable ?b"
      "running k (usb_t h) \<or> running k (shell_t h)" "live k (modbus_t h)" "live k (bridge_t h)"
    | (off) "s_enabled ?b" "fw_bridge f' = usb_rs485_disable ?b" "running k (usb_t h) \<or> running k (shell_t h)"
  proof -
    have "?b = ?b\<lparr>notified := notified ?b\<rparr>" by simp
    moreover have "s_enabled ?b \<longrightarrow> usb_rs485_enable ?b = ?b" "\<not> s_enabled ?b \<longrightarrow> usb_rs485_disable ?b = ?b"
      by (simp_all add: usb_rs485_enable_def usb_rs485_disable_def)
    ultimately show ?thesis using step_bridge [OF t s] that by metis
  qed
  then show ?thesis
  proof cases
    case same
    then show ?thesis using i by (intro ex [of k]) (simp_all add: new_calls_def bridge_inv_def)
  next
    case on
    obtain c where c: "running k c" "c \<noteq> modbus_t h" using on(3) h by (auto simp: handles_ok_def)
    obtain k' where k': "os_run h (Suspend_Modbus # (if has_bridge_task ?b then [Notify_Bridge] else [])) k = Some k'"
      "\<exists>T. sched_ok (run_lists qs) T (idle_t h) k'" "at_rest k' (modbus_t h)"
      using on_kernel [OF i(2) h c on(4,5), of "has_bridge_task ?b"] by blast
    have "new_calls f f' = Suspend_Modbus # (if has_bridge_task ?b then [Notify_Bridge] else [])"
      using on(1) i(1) by (simp add: new_calls_def on(2) usb_rs485_enable_def bridge_inv_def Let_def)
    then show ?thesis using k' on(1,2) enable_inv [OF i(1)] by (intro ex [of k']) simp_all
  next
    case off
    obtain c where c: "running k c" "c \<noteq> modbus_t h" using off(3) h by (auto simp: handles_ok_def)
    obtain k' where k': "os_run h [Resume_Modbus] k = Some k'" "\<exists>T. sched_ok (run_lists qs) T (idle_t h) k'" "ready k' (modbus_t h)"
      using off_kernel [OF i(2) c] i(3) off(1) by blast
    have "new_calls f f' = [Resume_Modbus]"
      using off(1) i(1) by (simp add: new_calls_def off(2) usb_rs485_disable_def bridge_inv_def Let_def)
    then show ?thesis using k' off(2) disable_inv [OF i(1)] by (intro ex [of k']) simp_all
  qed
qed

lemma kernel_keeps:
  assumes inv: "sys_inv h qs f k" and may: "may_happen (idle_t h) qs k ev"
    and ev: "ev \<notin> {CallSuspend (modbus_t h), CallResume (modbus_t h), CallDelete (modbus_t h)}" and s: "kernel_step k ev = Some k'"
  shows "sys_inv h qs f k'"
proof -
  obtain T where T: "sched_ok (run_lists qs) T (idle_t h) k" using inv by (auto simp: sys_inv_def)
  have q: "e \<in> set qs \<Longrightarrow> Event e \<in> run_lists qs" for e by simp
  obtain k1 T' where "kernel_step k ev = Some k1" "good_step (run_lists qs) T' (idle_t h) (takes_off k ev) (about k ev) k k1"
    using kernel_step_ok [OF T may q] by blast
  then have ok: "\<exists>T. sched_ok (run_lists qs) T (idle_t h) k'" using s by (auto simp: good_step_def)
  have "at_rest k' (modbus_t h)" if "s_enabled (fw_bridge f)"
    using at_rest_step [OF T may q _ _ _ s, of "modbus_t h"] inv that ev by (simp add: sys_inv_def)
  then show ?thesis using inv ok by (simp add: sys_inv_def)
qed

lemma step_keeps:
  assumes "sys_step h qs s ev s'" and "handles_ok h" and "sys_inv h qs (fst s) (snd s)"
  shows "sys_inv h qs (fst s') (snd s')"
  using assms(1)
proof (cases rule: sys_step.cases)
  case (sys_kernel f k ev k')
  then show ?thesis using kernel_keeps [of h qs f k ev k'] assms(3) by simp
next
  case (sys_firmware f k ev n c status f' k')
  then show ?thesis using firmware_keeps [OF _ assms(2) sys_firmware(5,6)] assms(3) by auto
qed

lemma run_keeps:
  assumes "sys_run h qs s0 evs s" and "handles_ok h" and "sys_inv h qs (fst s0) (snd s0)"
  shows "sys_inv h qs (fst s) (snd s)"
  using assms by (induction rule: sys_run.induct) (auto dest: step_keeps)

lemma not_running:
  assumes "sys_inv h qs f k" and "s_enabled (fw_bridge f)"
  shows "state_list k (modbus_t h) = Some SuspendedList \<and> \<not> running k (modbus_t h)"
proof -
  obtain T where T: "sched_ok (run_lists qs) T (idle_t h) k" using assms by (auto simp: sys_inv_def)
  have r: "at_rest k (modbus_t h)" using assms by (simp add: sys_inv_def)
  then have "\<not> ready k (modbus_t h)" by (auto simp: at_rest_def ready_def)
  then show ?thesis using sched_cur_ready [OF T] r by (auto simp: at_rest_def running_def)
qed

section \<open>The firmware as it starts\<close>

lemma start_inv:
  fixes f :: "('c, 't) firmware"
  assumes e: "start_ok e" "board_inv (fw_board f)" "fw_stack f = rtu_stack_reset a" "fw_bridge f = bridge_reset"
    and early: "\<not> wanted (se_early e) False" and off: "\<not> wanted (se_mid e @ se_late e) False"
    and f0: "app_init e f = Inr f0" and ok: "\<exists>T. sched_ok (run_lists qs) T (idle_t h) k"
  shows "sys_inv h qs f0 k"
proof -
  let ?b = "usb_rs485_set_modbus_handle (bridge_reset\<lparr>s_enabled := wanted (se_early e) False\<rparr>) True"
  have f0': "modbus_service_init True (rtu_stack_reset a) = Inr (fw_stack f0)"
    "fw_bridge f0 = fold bridge_handle (se_late e) (usb_rs485_init (fold bridge_handle (se_mid e) ?b) True)"
    using app_start [OF e] f0 by auto
  have init: "bridge_inv (usb_rs485_init b True) = bridge_inv b" "s_enabled (usb_rs485_init b True) = s_enabled b" for b
    by (simp_all add: usb_rs485_init_def bridge_inv_def)
  have b: "bridge_inv ?b" "\<not> s_enabled ?b"
    using early by (simp_all add: bridge_inv_def bridge_reset_def usb_rs485_set_modbus_handle_def)
  have "bridge_inv (fw_bridge f0) \<and> s_enabled (fw_bridge f0) = wanted (se_mid e @ se_late e) False"
    using b fold_handle_inv [of ?b "se_mid e"] fold_handle_inv [of "usb_rs485_init (fold bridge_handle (se_mid e) ?b) True" "se_late e"]
    by (simp add: f0'(2) init wanted_append)
  moreover have "st_cb (fw_stack f0) = Some rtu_layer"
  proof -
    obtain s0 s1 s where s: "modbus_service_init True (rtu_stack_reset a) = Inr s0" "mb_timer0_callback s0 = Inr s1"
      "modbus_task_round s1 [] = Inr s" "stack_ready MODBUS_SLAVE_ADDRESS s" using service_boot [of a] by blast
    have "st_cb s1 = Some rtu_layer" using round_keeps_cb [OF s(3)] s(4) by (simp add: stack_ready_def)
    then have "st_cb s0 = Some rtu_layer"
      using s(2) by (auto simp: mb_timer0_callback_def bindR_eq_Inr split: option.split_asm)
    then show ?thesis using s(1) f0'(1) by simp
  qed
  ultimately show ?thesis using off ok by (simp add: sys_inv_def)
qed

section \<open>One owner\<close>

text \<open>C5: The line has one owner. Take the firmware after a start that leaves the bridge off and in which the terminal was
  not opened too early, on a kernel at any point of a run, and let anything happen from there: interrupts, kernel calls, turns of the tasks,
  line reports of the host and commands typed into the shell. While the bridge is on, the Modbus task is in the list of suspended tasks and
  does not run, and whatever step changes the device or writes to the line as a Modbus slave is a turn of the Modbus
  task with the bridge off. Opening the terminal switches the bridge on, closing it switches it
  off and makes the Modbus task ready; no call of the kernel fails in either. (A turn of a task and a call
  of the bridge are one step each: a Modbus turn that the USB task interrupts is not seen.)\<close>

theorem line_has_one_owner:
  fixes f :: "('c, 't) firmware"
  assumes "start_ok e" and "board_inv (fw_board f)" and "fw_stack f = rtu_stack_reset a" and "fw_bridge f = bridge_reset"
    and "\<not> wanted (se_early e) False" and "\<not> wanted (se_mid e @ se_late e) False" and "app_init e f = Inr f0"
    and "kernel_run tasks (idle_t h) qs kevs k0" and "handles_ok h" and "sys_run h qs (f0, k0) evs (f1, k1)"
  shows "(s_enabled (fw_bridge f1) \<longrightarrow> state_list k1 (modbus_t h) = Some SuspendedList \<and> \<not> running k1 (modbus_t h)) \<and>
    (\<forall>ev f2 k2. sys_step h qs (f1, k1) ev (f2, k2) \<and> \<not> modbus_still (fw_stack f1) (fw_stack f2) \<longrightarrow>
      \<not> s_enabled (fw_bridge f1) \<and> (\<exists>es. ev = Firmware_Event (Modbus_Turn es))) \<and>
    (running k1 (usb_t h) \<and> live k1 (modbus_t h) \<and> live k1 (bridge_t h) \<and> \<not> fw_restarted f1 \<longrightarrow>
      (\<exists>f2 k2. sys_step h qs (f1, k1) (Firmware_Event (Usb_Line 1 True rts)) (f2, k2) \<and> s_enabled (fw_bridge f2) \<and>
        state_list k2 (modbus_t h) = Some SuspendedList) \<and>
      (\<exists>f2 k2. sys_step h qs (f1, k1) (Firmware_Event (Usb_Line 1 False rts)) (f2, k2) \<and> \<not> s_enabled (fw_bridge f2) \<and>
        (s_enabled (fw_bridge f1) \<longrightarrow> ready k2 (modbus_t h))))"
proof -
  have inv: "sys_inv h qs f1 k1"
    using run_keeps [OF assms(10,9)] start_inv [OF assms(1-7) run_ok [OF assms(8)]] by simp
  have cb: "st_cb (fw_stack f1) = Some rtu_layer" "bridge_inv (fw_bridge f1)" using inv by (simp_all add: sys_inv_def)
  have "\<not> s_enabled (fw_bridge f1) \<and> (\<exists>es. ev = Firmware_Event (Modbus_Turn es))"
    if s: "sys_step h qs (f1, k1) ev (f2, k2)" and ch: "\<not> modbus_still (fw_stack f1) (fw_stack f2)" for ev f2 k2
    using s
  proof (cases rule: sys_step.cases)
    case (sys_kernel ev)
    then show ?thesis using ch by (simp add: modbus_still_def)
  next
    case (sys_firmware ev n c status)
    then obtain es where "ev = Modbus_Turn es" using step_stack [OF cb(1) sys_firmware(4)] ch by blast
    then show ?thesis using sys_firmware not_running [OF inv] by auto
  qed
  moreover have "\<exists>f2 k2. sys_step h qs (f1, k1) (Firmware_Event (Usb_Line 1 dtr rts)) (f2, k2) \<and> sys_inv h qs f2 k2 \<and>
      (s_enabled (fw_bridge f2) \<longleftrightarrow> dtr) \<and> (s_enabled (fw_bridge f1) \<and> \<not> dtr \<longrightarrow> ready k2 (modbus_t h))"
    if t: "running k1 (usb_t h) \<and> live k1 (modbus_t h) \<and> live k1 (bridge_t h)" and r: "\<not> fw_restarted f1" for dtr
  proof -
    let ?f = "f1\<lparr>fw_bridge := tud_cdc_line_state_cb (fw_bridge f1) 1 dtr rts\<rparr>"
    have s: "fw_step 0 0 0 (Usb_Line 1 dtr rts) f1 = Inr (Some ?f)" by simp
    have on: "s_enabled (fw_bridge ?f) \<longleftrightarrow> dtr"
      using enable_inv [OF cb(2)] disable_inv [OF cb(2)] by (simp add: tud_cdc_line_state_cb_def BSP_USB_BRIDGE_CH_def)
    obtain k2 where "os_run h (new_calls f1 ?f) k1 = Some k2" "sys_inv h qs ?f k2"
      "s_enabled (fw_bridge f1) \<and> \<not> s_enabled (fw_bridge ?f) \<longrightarrow> ready k2 (modbus_t h)"
      using firmware_keeps [OF inv assms(9) _ s] t by auto
    then show ?thesis using sys_firmware [OF r _ s] t on by (intro exI [of _ ?f] exI [of _ k2]) auto
  qed
  ultimately show ?thesis using not_running [OF inv] not_running by blast
qed

text \<open>Four tasks, of which the USB task runs first.\<close>

abbreviation fw_tasks :: "(nat \<times> nat) list" where
  "fw_tasks \<equiv> [(1, 8), (2, 16), (3, 24), (4, 8)]"

definition fw_handles :: handles where
  "fw_handles = \<lparr>modbus_t = 1, bridge_t = 2, usb_t = 3, shell_t = 4, idle_t = 0\<rparr>"

lemma tasks_boot:
  "\<exists>k. kernel_run fw_tasks 0 [] [] k \<and> running k 3 \<and> live k 1 \<and> live k 2"
proof -
  have g: "good_tasks fw_tasks 0" by (simp add: good_tasks_def configMAX_PRIORITIES_def)
  obtain k where k: "kernel_boot fw_tasks 0 [] = Some k" "\<not> pendsv k" "uxSchedulerSuspended k = 0"
    "\<forall>t\<in>{0, 1, 2, 3, 4}. ready k t" "uxPriority (tcbs k 1) = 8" "uxPriority (tcbs k 2) = 16"
    "uxPriority (tcbs k 3) = 24" "uxPriority (tcbs k 4) = 8" "sched_ok (run_lists []) {0, 1, 2, 3, 4} 0 k"
    using good_tasks_boot [OF g, of "[]"] by auto
  obtain c where c: "c \<in> {0, 1, 2, 3, 4}" "pxCurrentTCB k = Some c"
    using restD(7) [OF sched_okD(2) [OF k(9)]] by blast
  have "uxPriority (tcbs k c) \<ge> 24"
    using sched_okD(3,6) [OF k(9)] k(2-4,7) c(2) by (auto simp: cur_top_def)
  then have "c = 3" using c(1) k(5-8) restD(2) [OF sched_okD(2) [OF k(9)]] by auto
  moreover have "live k t" if "ready k t" for t using that by (auto simp: ready_def live_def)
  moreover have "kernel_run fw_tasks 0 [] [] k" using g k(1) by (auto simp: kernel_run_def intro: reach_start)
  ultimately show ?thesis using k(2,4) c(2) by (auto simp: running_def)
qed

theorem line_has_one_owner_witness:
  "\<exists>f0 k0 f1 k1. app_init (start_env0 []) firmware_reset = Inr f0 \<and>
     kernel_run [(1, 8), (2, 16), (3, 24), (4, 8)] 0 [] [] k0 \<and>
     sys_run fw_handles [] (f0, k0) [Firmware_Event (Usb_Line 1 True True)] (f1, k1) \<and> s_enabled (fw_bridge f1) \<and>
     state_list k1 1 = Some SuspendedList \<and> \<not> running k1 1"
proof -
  have b: "board_inv (fw_board firmware_reset)" "fw_stack firmware_reset = rtu_stack_reset 0" "fw_bridge firmware_reset = bridge_reset"
    by (simp_all add: firmware_reset_def board_inv_reset)
  have w: "\<not> wanted (se_early (start_env0 [])) False" "\<not> wanted (se_mid (start_env0 []) @ se_late (start_env0 [])) False"
    by (simp_all add: start_env0_def)
  obtain f0 where f0: "app_init (start_env0 []) firmware_reset = Inr f0" "\<not> fw_restarted f0"
    using app_start [OF start_env0_ok b, of "[]"] by (auto simp: firmware_reset_def)
  obtain k0 where k0: "kernel_run fw_tasks 0 [] [] k0" "running k0 3" "live k0 1" "live k0 2" using tasks_boot by blast
  have h: "handles_ok fw_handles" "kernel_run fw_tasks (idle_t fw_handles) [] [] k0"
    using k0(1) by (simp_all add: handles_ok_def fw_handles_def)
  note owner = line_has_one_owner [OF start_env0_ok b w f0(1) h(2,1), of _ _ _ True]
  obtain f1 k1 where "sys_step fw_handles [] (f0, k0) (Firmware_Event (Usb_Line 1 True True)) (f1, k1)" "s_enabled (fw_bridge f1)"
    using owner [OF sys_start] k0(2-4) f0(2) by (auto simp: fw_handles_def)
  moreover from sys_next [OF sys_start this(1)]
  have r: "sys_run fw_handles [] (f0, k0) [Firmware_Event (Usb_Line 1 True True)] (f1, k1)" by simp
  ultimately show ?thesis using f0(1) k0(1) owner [OF r] by (auto simp: fw_handles_def)
qed

end
