(* ===== verification/Heap_4.thy ===== *)
theory Heap_4
  imports Prelude
begin

text \<open>
  The memory allocator of the firmware (\<open>heap_4.c\<close> of FreeRTOS): queues, tasks and the Modbus handle
  come from it. The memory is the headers (\<open>BlockLink_t\<close>) that lie in it, by address; an address
  is a natural number, null is 0, and \<open>xStart\<close> has an address of its own. The top bit of a size
  marks an allocated block. The overflow tests of the request are made on 32-bit words; all later
  sums stay below. The two loops over the list of free blocks have fuel.

  The invariant is that the heap is tiled by blocks: the proofs show that allocating and freeing
  are operations on the list of tiles, first fit with splitting and coalescing.
\<close>

record BlockLink =
  pxNextFreeBlock :: nat
  xBlockSize :: nat

record heap =
  hp_mem :: "nat \<Rightarrow> BlockLink option"
  ucHeap :: nat
  xStart :: nat
  pxEnd :: nat
  xFreeBytesRemaining :: nat
  xMinimumEverFreeBytesRemaining :: nat
  xNumberOfSuccessfulAllocations :: nat
  xNumberOfSuccessfulFrees :: nat

definition configTOTAL_HEAP_SIZE :: nat where "configTOTAL_HEAP_SIZE = 131077"
definition portBYTE_ALIGNMENT :: nat where "portBYTE_ALIGNMENT = 8"
definition portBYTE_ALIGNMENT_MASK :: nat where "portBYTE_ALIGNMENT_MASK = 7"
definition xHeapStructSize :: nat where "xHeapStructSize = 8"
definition heapMINIMUM_BLOCK_SIZE :: nat where "heapMINIMUM_BLOCK_SIZE = 16"

lemmas heap_consts = portBYTE_ALIGNMENT_def portBYTE_ALIGNMENT_MASK_def xHeapStructSize_def
  heapMINIMUM_BLOCK_SIZE_def

text \<open>The top bit of a size.\<close>

definition heapBLOCK_SIZE_IS_VALID :: "nat \<Rightarrow> bool" where
  "heapBLOCK_SIZE_IS_VALID n \<longleftrightarrow> n < 2 ^ 31"

definition heapBLOCK_IS_ALLOCATED :: "BlockLink \<Rightarrow> bool" where
  "heapBLOCK_IS_ALLOCATED b \<longleftrightarrow> 2 ^ 31 \<le> xBlockSize b"

definition heapALLOCATE_BLOCK :: "BlockLink \<Rightarrow> BlockLink" where
  "heapALLOCATE_BLOCK b = (if heapBLOCK_IS_ALLOCATED b then b else b\<lparr>xBlockSize := xBlockSize b + 2 ^ 31\<rparr>)"

definition heapFREE_BLOCK :: "BlockLink \<Rightarrow> BlockLink" where
  "heapFREE_BLOCK b = (if heapBLOCK_IS_ALLOCATED b then b\<lparr>xBlockSize := xBlockSize b - 2 ^ 31\<rparr> else b)"

definition link :: "heap \<Rightarrow> nat \<Rightarrow> BlockLink res" where
  "link h p = (case hp_mem h p of
     None \<Rightarrow> Inl (if p = 0 then Null_Pointer else Dangling_Pointer) | Some b \<Rightarrow> Inr b)"

definition put :: "nat \<Rightarrow> BlockLink \<Rightarrow> heap \<Rightarrow> heap" where
  "put p b h = h\<lparr>hp_mem := (hp_mem h)(p \<mapsto> b)\<rparr>"

definition heapVALIDATE_BLOCK_POINTER :: "heap \<Rightarrow> nat \<Rightarrow> unit res" where
  "heapVALIDATE_BLOCK_POINTER h p = assertR (ucHeap h \<le> p \<and> p \<le> ucHeap h + configTOTAL_HEAP_SIZE - 1)"

subsection \<open>Initialisation\<close>

definition prvHeapInit :: "heap \<Rightarrow> heap" where
  "prvHeapInit h =
     (let unaligned = ucHeap h mod portBYTE_ALIGNMENT \<noteq> 0;
          uxStartAddress = (if unaligned
            then (ucHeap h + (portBYTE_ALIGNMENT - 1)) div portBYTE_ALIGNMENT * portBYTE_ALIGNMENT else ucHeap h);
          xTotalHeapSize = (if unaligned then configTOTAL_HEAP_SIZE - (uxStartAddress - ucHeap h) else configTOTAL_HEAP_SIZE);
          uxEndAddress = (uxStartAddress + xTotalHeapSize - xHeapStructSize) div portBYTE_ALIGNMENT * portBYTE_ALIGNMENT;
          h1 = put (xStart h) \<lparr>pxNextFreeBlock = uxStartAddress, xBlockSize = 0\<rparr> h;
          h2 = put uxEndAddress \<lparr>pxNextFreeBlock = 0, xBlockSize = 0\<rparr> (h1\<lparr>pxEnd := uxEndAddress\<rparr>);
          sz = uxEndAddress - uxStartAddress;
          h3 = put uxStartAddress \<lparr>pxNextFreeBlock = uxEndAddress, xBlockSize = sz\<rparr> h2 in
      h3\<lparr>xMinimumEverFreeBytesRemaining := sz, xFreeBytesRemaining := sz\<rparr>)"

subsection \<open>Allocation\<close>

text \<open>The size that is looked for: with the header, rounded up, 0 when that overflows.\<close>

definition heapADD_WILL_OVERFLOW :: "u32 \<Rightarrow> u32 \<Rightarrow> bool" where
  "heapADD_WILL_OVERFLOW a b \<longleftrightarrow> a > (- 1) - b"

definition wanted_size :: "u32 \<Rightarrow> u32" where
  "wanted_size xWantedSize =
     (if xWantedSize > 0 then
        if \<not> heapADD_WILL_OVERFLOW xWantedSize (word_of_nat xHeapStructSize) then
          let w = xWantedSize + word_of_nat xHeapStructSize in
          if w AND word_of_nat portBYTE_ALIGNMENT_MASK \<noteq> 0 then
            let more = word_of_nat portBYTE_ALIGNMENT - (w AND word_of_nat portBYTE_ALIGNMENT_MASK) in
            if \<not> heapADD_WILL_OVERFLOW w more then w + more else 0
          else w
        else 0
      else xWantedSize)"

fun find_block :: "nat \<Rightarrow> heap \<Rightarrow> nat \<Rightarrow> nat \<Rightarrow> nat \<Rightarrow> (nat \<times> nat) option res" where
  "find_block 0 h pxPreviousBlock pxBlock xWantedSize = Inr None"
| "find_block (Suc fuel) h pxPreviousBlock pxBlock xWantedSize =
     bindR (link h pxBlock) (\<lambda>b.
     if xBlockSize b < xWantedSize \<and> pxNextFreeBlock b \<noteq> 0 then
       bindR (heapVALIDATE_BLOCK_POINTER h (pxNextFreeBlock b)) (\<lambda>_.
       find_block fuel h pxBlock (pxNextFreeBlock b) xWantedSize)
     else Inr (Some (pxPreviousBlock, pxBlock)))"

text \<open>Taking the block that was found: out of the list, split if the rest is large enough, marked.\<close>

definition take_block :: "heap \<Rightarrow> nat \<Rightarrow> nat \<Rightarrow> nat \<Rightarrow> (heap \<times> nat) res" where
  "take_block h pxPreviousBlock pxBlock xWantedSize =
     bindR (link h pxPreviousBlock) (\<lambda>prev.
     let pvReturn = pxNextFreeBlock prev + xHeapStructSize in
     bindR (heapVALIDATE_BLOCK_POINTER h pvReturn) (\<lambda>_.
     bindR (link h pxBlock) (\<lambda>b.
     let h1 = put pxPreviousBlock (prev\<lparr>pxNextFreeBlock := pxNextFreeBlock b\<rparr>) h in
     bindR (assertR (\<not> xBlockSize b < xWantedSize)) (\<lambda>_.
     bindR (if xBlockSize b - xWantedSize > heapMINIMUM_BLOCK_SIZE then
              let pxNewBlockLink = pxBlock + xWantedSize in
              bindR (assertR (pxNewBlockLink mod portBYTE_ALIGNMENT = 0)) (\<lambda>_.
              bindR (link h1 pxPreviousBlock) (\<lambda>prev1.
              Inr (put pxPreviousBlock (prev1\<lparr>pxNextFreeBlock := pxNewBlockLink\<rparr>)
                    (put pxNewBlockLink \<lparr>pxNextFreeBlock = pxNextFreeBlock prev1, xBlockSize = xBlockSize b - xWantedSize\<rparr>
                      (put pxBlock (b\<lparr>xBlockSize := xWantedSize\<rparr>) h1)))))
            else Inr h1) (\<lambda>h2.
     bindR (link h2 pxBlock) (\<lambda>b2.
     let free = xFreeBytesRemaining h2 - xBlockSize b2;
         h3 = h2\<lparr>xFreeBytesRemaining := free\<rparr>;
         h4 = (if free < xMinimumEverFreeBytesRemaining h3
               then h3\<lparr>xMinimumEverFreeBytesRemaining := free\<rparr> else h3);
         h5 = put pxBlock ((heapALLOCATE_BLOCK b2)\<lparr>pxNextFreeBlock := 0\<rparr>) h4 in
     Inr (h5\<lparr>xNumberOfSuccessfulAllocations := xNumberOfSuccessfulAllocations h5 + 1\<rparr>, pvReturn)))))))"

definition pvPortMalloc :: "nat \<Rightarrow> heap \<Rightarrow> u32 \<Rightarrow> (heap \<times> nat) option res" where
  "pvPortMalloc fuel h0 xWanted =
     (let xWantedSize = unat (wanted_size xWanted);
          h = (if pxEnd h0 = 0 then prvHeapInit h0 else h0) in
      bindR (if heapBLOCK_SIZE_IS_VALID xWantedSize \<and> xWantedSize > 0 \<and> xWantedSize \<le> xFreeBytesRemaining h then
               bindR (link h (xStart h)) (\<lambda>st.
               bindR (heapVALIDATE_BLOCK_POINTER h (pxNextFreeBlock st)) (\<lambda>_.
               bindR (find_block fuel h (xStart h) (pxNextFreeBlock st) xWantedSize) (\<lambda>r.
               case r of
                 None \<Rightarrow> Inr None
               | Some (pxPreviousBlock, pxBlock) \<Rightarrow>
                   if pxBlock \<noteq> pxEnd h
                   then bindR (take_block h pxPreviousBlock pxBlock xWantedSize) (\<lambda>hp. Inr (Some hp))
                   else Inr (Some (h, 0)))))
             else Inr (Some (h, 0))) (\<lambda>r.
      case r of
        None \<Rightarrow> Inr None
      | Some (h', pv) \<Rightarrow> bindR (assertR (pv mod portBYTE_ALIGNMENT = 0)) (\<lambda>_. Inr (Some (h', pv)))))"

text \<open>\<open>memset\<close> of the fresh block is no change of a header.\<close>

definition pvPortCalloc :: "nat \<Rightarrow> heap \<Rightarrow> u32 \<Rightarrow> u32 \<Rightarrow> (heap \<times> nat) option res" where
  "pvPortCalloc fuel h xNum xSize =
     (if \<not> (xNum > 0 \<and> xSize > (- 1) div xNum) then pvPortMalloc fuel h (xNum * xSize) else Inr (Some (h, 0)))"

subsection \<open>Freeing\<close>

fun insert_position :: "nat \<Rightarrow> heap \<Rightarrow> nat \<Rightarrow> nat \<Rightarrow> nat option res" where
  "insert_position 0 h pxIterator pxBlockToInsert = Inr None"
| "insert_position (Suc fuel) h pxIterator pxBlockToInsert =
     bindR (link h pxIterator) (\<lambda>it.
     if pxNextFreeBlock it < pxBlockToInsert
     then insert_position fuel h (pxNextFreeBlock it) pxBlockToInsert
     else Inr (Some pxIterator))"

definition prvInsertBlockIntoFreeList :: "nat \<Rightarrow> heap \<Rightarrow> nat \<Rightarrow> heap option res" where
  "prvInsertBlockIntoFreeList fuel h pxBlockToInsert =
     bindR (insert_position fuel h (xStart h) pxBlockToInsert) (\<lambda>r.
     case r of
       None \<Rightarrow> Inr None
     | Some pxIterator \<Rightarrow>
         bindR (if pxIterator \<noteq> xStart h then heapVALIDATE_BLOCK_POINTER h pxIterator else Inr ()) (\<lambda>_.
         bindR (link h pxIterator) (\<lambda>it.
         bindR (link h pxBlockToInsert) (\<lambda>b.
         let merged = (pxIterator + xBlockSize it = pxBlockToInsert);
             h1 = (if merged then put pxIterator (it\<lparr>xBlockSize := xBlockSize it + xBlockSize b\<rparr>) h else h);
             blk = (if merged then pxIterator else pxBlockToInsert) in
         bindR (link h1 blk) (\<lambda>b1.
         bindR (link h1 pxIterator) (\<lambda>it1.
         bindR (if blk + xBlockSize b1 = pxNextFreeBlock it1 then
                  if pxNextFreeBlock it1 \<noteq> pxEnd h1 then
                    bindR (link h1 (pxNextFreeBlock it1)) (\<lambda>nx.
                    Inr (put blk (b1\<lparr>xBlockSize := xBlockSize b1 + xBlockSize nx,
                                     pxNextFreeBlock := pxNextFreeBlock nx\<rparr>) h1))
                  else Inr (put blk (b1\<lparr>pxNextFreeBlock := pxEnd h1\<rparr>) h1)
                else Inr (put blk (b1\<lparr>pxNextFreeBlock := pxNextFreeBlock it1\<rparr>) h1)) (\<lambda>h2.
         if pxIterator \<noteq> blk then
           bindR (link h2 pxIterator) (\<lambda>it2. Inr (Some (put pxIterator (it2\<lparr>pxNextFreeBlock := blk\<rparr>) h2)))
         else Inr (Some h2))))))))"

definition vPortFree :: "nat \<Rightarrow> heap \<Rightarrow> nat \<Rightarrow> heap option res" where
  "vPortFree fuel h pv =
     (if pv = 0 then Inr (Some h)
      else
        let pxLink = pv - xHeapStructSize in
        bindR (heapVALIDATE_BLOCK_POINTER h pxLink) (\<lambda>_.
        bindR (link h pxLink) (\<lambda>b.
        bindR (assertR (heapBLOCK_IS_ALLOCATED b)) (\<lambda>_.
        bindR (assertR (pxNextFreeBlock b = 0)) (\<lambda>_.
        let b1 = heapFREE_BLOCK b; h1 = put pxLink b1 h;
            h2 = h1\<lparr>xFreeBytesRemaining := xFreeBytesRemaining h1 + xBlockSize b1\<rparr> in
        bindR (prvInsertBlockIntoFreeList fuel h2 pxLink) (\<lambda>r.
        Inr (map_option (\<lambda>h3. h3\<lparr>xNumberOfSuccessfulFrees := xNumberOfSuccessfulFrees h3 + 1\<rparr>) r)))))))"

subsection \<open>Statistics and reset\<close>

definition xPortGetFreeHeapSize :: "heap \<Rightarrow> nat" where
  "xPortGetFreeHeapSize h = xFreeBytesRemaining h"

definition xPortGetMinimumEverFreeHeapSize :: "heap \<Rightarrow> nat" where
  "xPortGetMinimumEverFreeHeapSize h = xMinimumEverFreeBytesRemaining h"

definition xPortResetHeapMinimumEverFreeHeapSize :: "heap \<Rightarrow> heap" where
  "xPortResetHeapMinimumEverFreeHeapSize h = h\<lparr>xMinimumEverFreeBytesRemaining := xFreeBytesRemaining h\<rparr>"

record HeapStats =
  xAvailableHeapSpaceInBytes :: nat
  xSizeOfLargestFreeBlockInBytes :: nat
  xSizeOfSmallestFreeBlockInBytes :: nat
  xNumberOfFreeBlocks :: nat
  hs_MinimumEverFreeBytesRemaining :: nat
  hs_NumberOfSuccessfulAllocations :: nat
  hs_NumberOfSuccessfulFrees :: nat

fun stats_loop :: "nat \<Rightarrow> heap \<Rightarrow> nat \<Rightarrow> nat \<Rightarrow> nat \<Rightarrow> nat \<Rightarrow> (nat \<times> nat \<times> nat) option res" where
  "stats_loop 0 h pxBlock xBlocks xMaxSize xMinSize = Inr None"
| "stats_loop (Suc fuel) h pxBlock xBlocks xMaxSize xMinSize =
     (if pxBlock = pxEnd h then Inr (Some (xBlocks, xMaxSize, xMinSize))
      else bindR (link h pxBlock) (\<lambda>b.
        stats_loop fuel h (pxNextFreeBlock b) (xBlocks + 1) (max xMaxSize (xBlockSize b)) (min xMinSize (xBlockSize b))))"

definition vPortGetHeapStats :: "nat \<Rightarrow> heap \<Rightarrow> HeapStats option res" where
  "vPortGetHeapStats fuel h =
     bindR (link h (xStart h)) (\<lambda>st.
     bindR (if pxNextFreeBlock st \<noteq> 0 then stats_loop fuel h (pxNextFreeBlock st) 0 0 (2 ^ 32 - 1)
            else Inr (Some (0, 0, 2 ^ 32 - 1))) (\<lambda>r.
     Inr (map_option (\<lambda>(n, mx, mn).
       \<lparr>xAvailableHeapSpaceInBytes = xFreeBytesRemaining h, xSizeOfLargestFreeBlockInBytes = mx,
        xSizeOfSmallestFreeBlockInBytes = mn, xNumberOfFreeBlocks = n,
        hs_MinimumEverFreeBytesRemaining = xMinimumEverFreeBytesRemaining h,
        hs_NumberOfSuccessfulAllocations = xNumberOfSuccessfulAllocations h,
        hs_NumberOfSuccessfulFrees = xNumberOfSuccessfulFrees h\<rparr>) r)))"

definition vPortHeapResetState :: "heap \<Rightarrow> heap" where
  "vPortHeapResetState h =
     h\<lparr>pxEnd := 0, xFreeBytesRemaining := 0, xMinimumEverFreeBytesRemaining := 0,
       xNumberOfSuccessfulAllocations := 0, xNumberOfSuccessfulFrees := 0\<rparr>"

section \<open>The heap as tiles\<close>

text \<open>A tile is a size and whether it is allocated.\<close>

type_synonym tile = "nat \<times> bool"
type_synonym headers = "nat \<Rightarrow> BlockLink option"

definition total :: "tile list \<Rightarrow> nat" where
  "total xs = sum_list (map fst xs)"

definition free_bytes :: "tile list \<Rightarrow> nat" where
  "free_bytes xs = sum_list (map fst (filter (\<lambda>x. \<not> snd x) xs))"

lemma total_simps [simp]: "total [] = 0" "total (x # xs) = fst x + total xs" "total (xs @ ys) = total xs + total ys"
  by (simp_all add: total_def)

lemma free_bytes_simps [simp]:
  "free_bytes [] = 0" "free_bytes (x # xs) = (if snd x then free_bytes xs else fst x + free_bytes xs)"
  "free_bytes (xs @ ys) = free_bytes xs + free_bytes ys"
  by (simp_all add: free_bytes_def)

lemma free_le_total: "free_bytes xs \<le> total xs"
  by (induction xs) auto

text \<open>The first free tile from an address on, and the last free one before its end.\<close>

fun first_free :: "nat \<Rightarrow> tile list \<Rightarrow> nat \<Rightarrow> nat" where
  "first_free a [] n = n"
| "first_free a ((s, al) # xs) n = (if al then first_free (a + s) xs n else a)"

fun last_free :: "nat \<Rightarrow> nat \<Rightarrow> tile list \<Rightarrow> nat" where
  "last_free p a [] = p"
| "last_free p a ((s, al) # xs) = last_free (if al then p else a) (a + s) xs"

text \<open>The headers of the tiles, \<open>n\<close> being the next free tile behind them.\<close>

fun seg :: "headers \<Rightarrow> nat \<Rightarrow> tile list \<Rightarrow> nat \<Rightarrow> bool" where
  "seg m a [] n = True"
| "seg m a ((s, al) # xs) n \<longleftrightarrow>
     m a = Some \<lparr>pxNextFreeBlock = (if al then 0 else first_free (a + s) xs n),
                 xBlockSize = (if al then s + 2 ^ 31 else s)\<rparr> \<and> seg m (a + s) xs n"

definition sizes_ok :: "tile list \<Rightarrow> bool" where
  "sizes_ok xs \<longleftrightarrow> (\<forall>x \<in> set xs. 16 \<le> fst x \<and> 8 dvd fst x)"

lemma sizes_ok_simps [simp]:
  "sizes_ok []" "sizes_ok (x # xs) \<longleftrightarrow> 16 \<le> fst x \<and> 8 dvd fst x \<and> sizes_ok xs"
  "sizes_ok (xs @ ys) \<longleftrightarrow> sizes_ok xs \<and> sizes_ok ys"
  by (auto simp: sizes_ok_def)

fun coalesced :: "tile list \<Rightarrow> bool" where
  "coalesced (x # y # xs) \<longleftrightarrow> (snd x \<or> snd y) \<and> coalesced (y # xs)"
| "coalesced _ = True"

lemma first_free_append: "first_free a (xs @ ys) n = first_free a xs (first_free (a + total xs) ys n)"
  by (induction xs arbitrary: a) (auto simp: add.assoc)

lemma last_free_append: "last_free p a (xs @ ys) = last_free (last_free p a xs) (a + total xs) ys"
  by (induction xs arbitrary: p a) (auto simp: add.assoc)

lemma seg_append:
  "seg m a (xs @ ys) n \<longleftrightarrow> seg m a xs (first_free (a + total xs) ys n) \<and> seg m (a + total xs) ys n"
  by (induction xs arbitrary: a) (auto simp: add.assoc first_free_append)

lemma first_free_bounds: "a + total xs \<le> n \<Longrightarrow> a \<le> first_free a xs n \<and> first_free a xs n \<le> n"
proof (induction xs arbitrary: a)
  case (Cons x xs)
  from Cons.IH [of "a + fst x"] Cons.prems show ?case by (cases x) auto
qed simp

lemma last_free_in: "sizes_ok xs \<Longrightarrow> last_free p a xs = p \<or> (a \<le> last_free p a xs \<and> last_free p a xs < a + total xs)"
proof (induction xs arbitrary: p a)
  case (Cons x xs)
  from Cons.IH [of "if snd x then p else a" "a + fst x"] Cons.prems show ?case
    by (cases x) (auto split: if_splits)
qed simp

lemma seg_cong:
  assumes "sizes_ok xs" and "\<And>q. a \<le> q \<Longrightarrow> q < a + total xs \<Longrightarrow> m q = m' q"
  shows "seg m a xs n = seg m' a xs n"
  using assms
proof (induction xs arbitrary: a)
  case (Cons x xs)
  have "seg m (a + fst x) xs n = seg m' (a + fst x) xs n"
    using Cons.prems by (intro Cons.IH) auto
  moreover have "m a = m' a" using Cons.prems by auto
  ultimately show ?case by (cases x) auto
qed simp

text \<open>Redirecting the last free tile in front of an address redirects the whole chain.\<close>

lemma relink:
  assumes "seg m a xs n" and "sizes_ok xs" and "p < a \<or> a + total xs \<le> p" and "m p = Some b"
    and "pxNextFreeBlock b = first_free a xs n"
  shows "\<exists>c. m (last_free p a xs) = Some c \<and> pxNextFreeBlock c = n \<and>
    seg (m(last_free p a xs \<mapsto> c\<lparr>pxNextFreeBlock := n'\<rparr>)) a xs n' \<and>
    (m(last_free p a xs \<mapsto> c\<lparr>pxNextFreeBlock := n'\<rparr>)) p = Some (b\<lparr>pxNextFreeBlock := first_free a xs n'\<rparr>)"
  using assms
proof (induction xs arbitrary: a p b)
  case (Cons x xs)
  obtain s al where x: "x = (s, al)" by (cases x)
  have s: "16 \<le> s" "sizes_ok xs" using Cons.prems(2) by (simp_all add: x)
  let ?h = "\<lparr>pxNextFreeBlock = (if al then 0 else first_free (a + s) xs n), xBlockSize = (if al then s + 2 ^ 31 else s)\<rparr>"
  have m: "m a = Some ?h" "seg m (a + s) xs n" using Cons.prems(1) by (simp_all add: x)
  show ?case
  proof (cases al)
    case True
    have "p < a + s \<or> a + s + total xs \<le> p" using Cons.prems(3) by (auto simp: x)
    moreover have "pxNextFreeBlock b = first_free (a + s) xs n" using Cons.prems(5) True by (simp add: x)
    ultimately obtain c where
      c: "m (last_free p (a + s) xs) = Some c" "pxNextFreeBlock c = n"
      "seg (m(last_free p (a + s) xs \<mapsto> c\<lparr>pxNextFreeBlock := n'\<rparr>)) (a + s) xs n'"
      "(m(last_free p (a + s) xs \<mapsto> c\<lparr>pxNextFreeBlock := n'\<rparr>)) p = Some (b\<lparr>pxNextFreeBlock := first_free (a + s) xs n'\<rparr>)"
      using Cons.IH [OF m(2) s(2) _ Cons.prems(4)] by blast
    have "last_free p (a + s) xs \<noteq> a"
      using last_free_in [OF s(2), of p "a + s"] Cons.prems(3) s(1) by (auto simp: x)
    then have "(m(last_free p (a + s) xs \<mapsto> c\<lparr>pxNextFreeBlock := n'\<rparr>)) a = m a" by simp
    then show ?thesis using c m True by (auto simp: x simp del: fun_upd_apply)
  next
    case False
    have "a < a + s \<or> a + s + total xs \<le> a" using s by simp
    moreover have "pxNextFreeBlock ?h = first_free (a + s) xs n" using False by simp
    ultimately obtain c where
      c: "m (last_free a (a + s) xs) = Some c" "pxNextFreeBlock c = n"
      "seg (m(last_free a (a + s) xs \<mapsto> c\<lparr>pxNextFreeBlock := n'\<rparr>)) (a + s) xs n'"
      "(m(last_free a (a + s) xs \<mapsto> c\<lparr>pxNextFreeBlock := n'\<rparr>)) a = Some (?h\<lparr>pxNextFreeBlock := first_free (a + s) xs n'\<rparr>)"
      using Cons.IH [OF m(2) s(2) _ m(1)] by blast
    have "last_free a (a + s) xs \<noteq> p"
      using last_free_in [OF s(2), of a "a + s"] Cons.prems(3) s(1) by (auto simp: x)
    then have "(m(last_free a (a + s) xs \<mapsto> c\<lparr>pxNextFreeBlock := n'\<rparr>)) p = m p" by simp
    moreover have "b\<lparr>pxNextFreeBlock := a\<rparr> = b" using Cons.prems(5) False by (cases b) (simp add: x)
    ultimately show ?thesis using c False Cons.prems(4) by (auto simp: x simp del: fun_upd_apply)
  qed
qed auto

subsection \<open>The representation\<close>

definition heap_start :: "heap \<Rightarrow> nat" where
  "heap_start h = (ucHeap h + 7) div 8 * 8"

definition heap_end :: "heap \<Rightarrow> nat" where
  "heap_end h = (ucHeap h + 131069) div 8 * 8"

text \<open>Where the linker puts the array and the list head.\<close>

definition placed :: "heap \<Rightarrow> bool" where
  "placed h \<longleftrightarrow> 0 < ucHeap h \<and> 0 < xStart h \<and> (xStart h < ucHeap h \<or> ucHeap h + 131077 \<le> xStart h)"

definition heap_rep :: "heap \<Rightarrow> tile list \<Rightarrow> bool" where
  "heap_rep h xs \<longleftrightarrow> placed h \<and> pxEnd h = heap_end h \<and> heap_end h = heap_start h + total xs \<and>
     sizes_ok xs \<and> coalesced xs \<and> seg (hp_mem h) (heap_start h) xs (heap_end h) \<and>
     hp_mem h (xStart h) = Some \<lparr>pxNextFreeBlock = first_free (heap_start h) xs (heap_end h), xBlockSize = 0\<rparr> \<and>
     hp_mem h (heap_end h) = Some \<lparr>pxNextFreeBlock = 0, xBlockSize = 0\<rparr> \<and>
     xFreeBytesRemaining h = free_bytes xs \<and> xMinimumEverFreeBytesRemaining h \<le> free_bytes xs"

lemma round_down: "u div 8 * 8 \<le> (u :: nat)" "u < u div 8 * 8 + 8"
  using div_mult_mod_eq [of u 8] mod_less_divisor [of 8 u] by linarith+

lemma heap_bounds:
  "ucHeap h \<le> heap_start h" "heap_start h \<le> ucHeap h + 7" "heap_end h + 8 \<le> ucHeap h + 131077"
  "ucHeap h + 131062 \<le> heap_end h" "8 dvd heap_start h" "8 dvd heap_end h"
  unfolding heap_start_def heap_end_def
  using round_down(1) [of "ucHeap h + 7"] round_down(2) [of "ucHeap h + 7"]
    round_down(1) [of "ucHeap h + 131069"] round_down(2) [of "ucHeap h + 131069"]
  by - (linarith | simp only: dvd_triv_right)+

lemma placedD: "placed h \<Longrightarrow> 0 < heap_start h" "placed h \<Longrightarrow> xStart h < heap_start h \<or> heap_end h < xStart h"
  using heap_bounds [of h] by (auto simp: placed_def)

lemma init_rep:
  assumes "placed h"
  shows "heap_rep (prvHeapInit h) [(heap_end h - heap_start h, False)]"
proof -
  have a: "heap_start h = ucHeap h" if "ucHeap h mod 8 = 0"
  proof -
    from that obtain k where "ucHeap h = 8 * k" by (auto simp: mod_eq_0_iff_dvd)
    then show ?thesis by (simp add: heap_start_def)
  qed
  have e: "heap_start h + (131077 - (heap_start h - ucHeap h)) - 8 = ucHeap h + 131069"
    using heap_bounds(1,2) [of h] by linarith
  let ?h = "prvHeapInit h"
  have same: "heap_start ?h = heap_start h" "heap_end ?h = heap_end h" "placed ?h = placed h"
    by (simp_all add: prvHeapInit_def Let_def put_def heap_start_def heap_end_def placed_def)
  have init: "?h = (put (heap_start h) \<lparr>pxNextFreeBlock = heap_end h, xBlockSize = heap_end h - heap_start h\<rparr>
      (put (heap_end h) \<lparr>pxNextFreeBlock = 0, xBlockSize = 0\<rparr>
        ((put (xStart h) \<lparr>pxNextFreeBlock = heap_start h, xBlockSize = 0\<rparr> h)\<lparr>pxEnd := heap_end h\<rparr>)))
      \<lparr>xMinimumEverFreeBytesRemaining := heap_end h - heap_start h, xFreeBytesRemaining := heap_end h - heap_start h\<rparr>"
  proof (cases "ucHeap h mod 8 = 0")
    case True
    show ?thesis unfolding prvHeapInit_def Let_def heap_consts configTOTAL_HEAP_SIZE_def
      by (simp add: True a heap_end_def add.commute)
  next
    case False
    have st: "(ucHeap h + (8 - 1)) div 8 * 8 = heap_start h" by (simp add: heap_start_def)
    have en: "(ucHeap h + 131069) div 8 * 8 = heap_end h" by (simp add: heap_end_def)
    show ?thesis unfolding prvHeapInit_def Let_def heap_consts configTOTAL_HEAP_SIZE_def
      by (simp only: False if_True st e en simp_thms)
  qed
  have b: "heap_start h < heap_end h" "16 \<le> heap_end h - heap_start h" using heap_bounds [of h] by simp_all
  have d: "8 dvd heap_end h - heap_start h" using heap_bounds(5,6) [of h] by (rule dvd_diff_nat [rotated])
  note p = placedD [OF assms]
  show ?thesis
    unfolding heap_rep_def same using assms p b d
    by (auto simp: init put_def)
qed

subsection \<open>Finding a block\<close>

fun fitting :: "nat \<Rightarrow> tile list \<Rightarrow> (tile list \<times> nat \<times> tile list) option" where
  "fitting w [] = None"
| "fitting w ((s, al) # xs) =
     (if \<not> al \<and> w \<le> s then Some ([], s, xs)
      else map_option (\<lambda>(pre, t, post). ((s, al) # pre, t, post)) (fitting w xs))"

lemma fittingD: "fitting w xs = Some (pre, s, post) \<Longrightarrow> xs = pre @ (s, False) # post \<and> w \<le> s"
proof (induction xs arbitrary: pre)
  case (Cons x xs)
  then show ?case by (cases x) (auto split: if_splits)
qed simp

lemma fitting_free: "fitting w xs = Some (pre, s, post) \<Longrightarrow> w \<le> free_bytes xs"
  using fittingD by fastforce

lemma find_ok:
  assumes "seg (hp_mem h) a xs n" and "sizes_ok xs" and "hp_mem h n = Some \<lparr>pxNextFreeBlock = 0, xBlockSize = 0\<rparr>"
    and "n = a + total xs" and "0 < a" and "ucHeap h \<le> a" and "n \<le> ucHeap h + 131076" and "0 < w" and "length xs < fuel"
  shows "find_block fuel h p (first_free a xs n) w = Inr (Some (case fitting w xs of
      None \<Rightarrow> (last_free p a xs, n) | Some (pre, s, post) \<Rightarrow> (last_free p a pre, a + total pre)))"
  using assms
proof (induction xs arbitrary: a p fuel)
  case Nil
  then obtain f where "fuel = Suc f" by (cases fuel) auto
  then show ?case using Nil by (simp add: link_def)
next
  case (Cons x xs)
  obtain s al where x: "x = (s, al)" by (cases x)
  have sg: "seg (hp_mem h) (a + s) xs n" "n = a + s + total xs" "sizes_ok xs"
    using Cons.prems(1,2,4) by (simp_all add: x)
  have ih: "find_block f h p (first_free (a + s) xs n) w = Inr (Some (case fitting w xs of
      None \<Rightarrow> (last_free p (a + s) xs, n) | Some (pre, s', post) \<Rightarrow> (last_free p (a + s) pre, a + s + total pre)))"
    if "length xs < f" for f p
    using Cons.IH [OF sg(1,3) Cons.prems(3) sg(2), of f p] Cons.prems(5-8) that by simp
  show ?case
  proof (cases al)
    case True
    then show ?thesis using ih [of fuel p] Cons.prems(9)
      by (cases "fitting w xs") (auto simp: x add.assoc split: prod.splits)
  next
    case False
    obtain f where f: "fuel = Suc f" using Cons.prems(9) by (cases fuel) auto
    have l: "link h a = Inr \<lparr>pxNextFreeBlock = first_free (a + s) xs n, xBlockSize = s\<rparr>"
      using Cons.prems(1) False by (simp add: x link_def)
    have ff: "a + s \<le> first_free (a + s) xs n" "first_free (a + s) xs n \<le> n"
      using first_free_bounds [of "a + s" xs n] sg(2) by simp_all
    then have v: "heapVALIDATE_BLOCK_POINTER h (first_free (a + s) xs n) = Inr ()"
      using Cons.prems(6,7) by (simp add: heapVALIDATE_BLOCK_POINTER_def configTOTAL_HEAP_SIZE_def)
    have nz: "first_free (a + s) xs n \<noteq> 0" using ff(1) Cons.prems(5) by simp
    show ?thesis
    proof (cases "s < w")
      case True
      have "find_block fuel h p a w = find_block f h a (first_free (a + s) xs n) w"
        using l v nz True by (simp add: f)
      then show ?thesis using ih [of f a] Cons.prems(9) False True f
        by (cases "fitting w xs") (auto simp: x add.assoc split: prod.splits)
    next
      case le: False
      then show ?thesis using l False by (simp add: x f)
    qed
  qed
qed

subsection \<open>Taking a block\<close>

text \<open>The list head or the last free tile in front of a tile can be redirected.\<close>

lemma redirect:
  assumes "heap_rep h (pre @ post)"
  defines "a \<equiv> heap_start h" and "p \<equiv> last_free (xStart h) (heap_start h) pre"
  shows "\<exists>c. hp_mem h p = Some c \<and> pxNextFreeBlock c = first_free (a + total pre) post (heap_end h) \<and>
    (\<forall>m n. (\<forall>q. q < a + total pre \<or> heap_end h < q \<longrightarrow> m q = ((hp_mem h)(p \<mapsto> c\<lparr>pxNextFreeBlock := n\<rparr>)) q) \<longrightarrow>
      seg m a pre n \<and> m (xStart h) = Some \<lparr>pxNextFreeBlock = first_free a pre n, xBlockSize = 0\<rparr>)"
proof -
  let ?n = "first_free (a + total pre) post (heap_end h)"
  have r: "seg (hp_mem h) a pre ?n" "sizes_ok pre" "placed h"
    "hp_mem h (xStart h) = Some \<lparr>pxNextFreeBlock = first_free a pre ?n, xBlockSize = 0\<rparr>"
    and n: "heap_end h = a + total (pre @ post)"
    using assms(1) unfolding heap_rep_def seg_append first_free_append a_def sizes_ok_simps by blast+
  then have e: "a + total pre \<le> heap_end h" by simp
  note out = placedD(2) [OF r(3)]
  then have o: "xStart h < a \<or> a + total pre \<le> xStart h" using e by (auto simp: a_def)
  have rl: "\<exists>c. hp_mem h p = Some c \<and> pxNextFreeBlock c = ?n \<and>
    seg ((hp_mem h)(p \<mapsto> c\<lparr>pxNextFreeBlock := n\<rparr>)) a pre n \<and>
    ((hp_mem h)(p \<mapsto> c\<lparr>pxNextFreeBlock := n\<rparr>)) (xStart h) = Some \<lparr>pxNextFreeBlock = first_free a pre n, xBlockSize = 0\<rparr>" for n
    using relink [OF r(1,2) o r(4), of n] by (simp add: p_def a_def)
  then obtain c where c: "hp_mem h p = Some c" "pxNextFreeBlock c = ?n" by blast
  have "seg m a pre n \<and> m (xStart h) = Some \<lparr>pxNextFreeBlock = first_free a pre n, xBlockSize = 0\<rparr>"
    if m: "\<forall>q. q < a + total pre \<or> heap_end h < q \<longrightarrow> m q = ((hp_mem h)(p \<mapsto> c\<lparr>pxNextFreeBlock := n\<rparr>)) q" for m n
  proof -
    have k: "seg ((hp_mem h)(p \<mapsto> c\<lparr>pxNextFreeBlock := n\<rparr>)) a pre n"
      "((hp_mem h)(p \<mapsto> c\<lparr>pxNextFreeBlock := n\<rparr>)) (xStart h) = Some \<lparr>pxNextFreeBlock = first_free a pre n, xBlockSize = 0\<rparr>"
      using rl [of n] c(1) by (auto simp del: fun_upd_apply)
    have "seg m a pre n = seg ((hp_mem h)(p \<mapsto> c\<lparr>pxNextFreeBlock := n\<rparr>)) a pre n"
      using m by (intro seg_cong [OF r(2)]) blast
    moreover have "m (xStart h) = ((hp_mem h)(p \<mapsto> c\<lparr>pxNextFreeBlock := n\<rparr>)) (xStart h)"
      using m out e by (auto simp: a_def simp del: fun_upd_apply)
    ultimately show ?thesis using k by simp
  qed
  then show ?thesis using c by blast
qed

definition taken :: "nat \<Rightarrow> nat \<Rightarrow> tile list" where
  "taken w s = (if 16 < s - w then [(w, True), (s - w, False)] else [(s, True)])"

lemma coalesced_append:
  "coalesced (xs @ y # ys) \<longleftrightarrow> coalesced (xs @ [y]) \<and> coalesced (y # ys)"
  by (induction xs rule: coalesced.induct) auto

lemma coalesced_taken: "coalesced (pre @ (s, False) # post) \<Longrightarrow> coalesced (pre @ taken w s @ post)"
proof -
  assume "coalesced (pre @ (s, False) # post)"
  then have c: "coalesced (pre @ [(s, False)])" "coalesced ((s, False) # post)"
    using coalesced_append by blast+
  have "coalesced (pre @ [(t, True)])" for t
    using c(1) by (induction pre rule: coalesced.induct) auto
  moreover have "coalesced ((t, al) # post)" for t al
    using c(2) by (cases post) (auto split: prod.splits)
  ultimately show ?thesis
    using coalesced_append [of pre "(w, True)" "(s - w, False) # post"] coalesced_append [of pre "(s, True)" post]
    by (auto simp: taken_def)
qed

text \<open>What the proofs know of a heap with a given tile.\<close>

lemma tile_facts:
  assumes "heap_rep h (pre @ (s, al) # post)"
  defines "A \<equiv> heap_start h + total pre"
  shows "hp_mem h A = Some \<lparr>pxNextFreeBlock = (if al then 0 else first_free (A + s) post (heap_end h)),
                           xBlockSize = (if al then s + 2 ^ 31 else s)\<rparr>"
    and "seg (hp_mem h) (A + s) post (heap_end h)" and "heap_end h = A + s + total post"
    and "16 \<le> s" and "8 dvd s" and "8 dvd A" and "s < 2 ^ 31" and "sizes_ok pre" and "sizes_ok post"
    and "last_free (xStart h) (heap_start h) pre < A \<or> heap_end h < last_free (xStart h) (heap_start h) pre"
    and "xStart h < heap_start h \<or> heap_end h < xStart h" and "ucHeap h \<le> A" and "A + 16 \<le> ucHeap h + 131077"
proof -
  note r = assms(1) [unfolded heap_rep_def seg_append seg.simps sizes_ok_simps total_simps]
  show "hp_mem h A = Some \<lparr>pxNextFreeBlock = (if al then 0 else first_free (A + s) post (heap_end h)),
                           xBlockSize = (if al then s + 2 ^ 31 else s)\<rparr>"
    and "seg (hp_mem h) (A + s) post (heap_end h)" and sp: "sizes_ok pre" and "sizes_ok post"
    and s: "16 \<le> s" and "8 dvd s" using r unfolding A_def fst_conv by blast+
  show e: "heap_end h = A + s + total post" using r by (simp add: A_def)
  have "8 dvd total pre" using sp by (induction pre) auto
  then show "8 dvd A" using heap_bounds(5) [of h] by (simp add: A_def)
  show "s < 2 ^ 31" "ucHeap h \<le> A" "A + 16 \<le> ucHeap h + 131077" using e s heap_bounds(1-3) [of h] by (simp_all add: A_def)
  show o: "xStart h < heap_start h \<or> heap_end h < xStart h" using placedD(2) r by blast
  show "last_free (xStart h) (heap_start h) pre < A \<or> heap_end h < last_free (xStart h) (heap_start h) pre"
    using last_free_in [OF sp, of "xStart h" "heap_start h"] o by (auto simp: A_def)
qed

lemma take_block_run:
  assumes "hp_mem h P = Some c" and "hp_mem h A = Some b" and "pxNextFreeBlock c = A" and "P \<noteq> A" and "0 < w"
    and "heapVALIDATE_BLOCK_POINTER h (A + 8) = Inr ()" and "w \<le> xBlockSize b" and "(A + w) mod 8 = 0"
    and "xBlockSize b < 2 ^ 31"
  defines "split \<equiv> 16 < xBlockSize b - w" and "nx \<equiv> pxNextFreeBlock b"
  defines "u \<equiv> (if split then w else xBlockSize b)"
  defines "m \<equiv> (if split then (hp_mem h)(P \<mapsto> c\<lparr>pxNextFreeBlock := A + w\<rparr>, A + w \<mapsto> \<lparr>pxNextFreeBlock = nx, xBlockSize = xBlockSize b - w\<rparr>)
                else (hp_mem h)(P \<mapsto> c\<lparr>pxNextFreeBlock := nx\<rparr>))(A \<mapsto> \<lparr>pxNextFreeBlock = 0, xBlockSize = u + 2 ^ 31\<rparr>)"
  shows "(A + w \<noteq> P \<or> \<not> split) \<Longrightarrow> take_block h P A w = Inr (h\<lparr>hp_mem := m, xFreeBytesRemaining := xFreeBytesRemaining h - u,
      xMinimumEverFreeBytesRemaining := min (xMinimumEverFreeBytesRemaining h) (xFreeBytesRemaining h - u),
      xNumberOfSuccessfulAllocations := xNumberOfSuccessfulAllocations h + 1\<rparr>, A + 8)"
proof -
  assume np: "A + w \<noteq> P \<or> \<not> split"
  have b: "b\<lparr>xBlockSize := w, pxNextFreeBlock := 0\<rparr> = \<lparr>pxNextFreeBlock = 0, xBlockSize = w\<rparr>" for w by (cases b) simp
  let ?F = "xFreeBytesRemaining h - u"
  show ?thesis
  proof (cases split)
    case True
    have eq: "((hp_mem h)(P \<mapsto> c\<lparr>pxNextFreeBlock := nx\<rparr>, A \<mapsto> b\<lparr>xBlockSize := w\<rparr>,
        A + w \<mapsto> \<lparr>pxNextFreeBlock = nx, xBlockSize = xBlockSize b - w\<rparr>, P \<mapsto> c\<lparr>pxNextFreeBlock := A + w\<rparr>,
        A \<mapsto> \<lparr>pxNextFreeBlock = 0, xBlockSize = w + 2 ^ 31\<rparr>)) = m"
      using np True assms(4,5) by (auto simp: m_def u_def)
    show ?thesis
      using assms(1-9) True eq np unfolding split_def u_def nx_def
      by (cases b; cases "?F < xMinimumEverFreeBytesRemaining h")
        (simp_all add: take_block_def heap_consts assertR_def put_def link_def heapALLOCATE_BLOCK_def
          heapBLOCK_IS_ALLOCATED_def Let_def u_def split_def nx_def del: fun_upd_apply add: fun_upd_same fun_upd_other)
  next
    case False
    then show ?thesis
      using assms(1-9) unfolding split_def u_def nx_def m_def
      by (cases b; cases "?F < xMinimumEverFreeBytesRemaining h")
        (simp_all add: take_block_def heap_consts assertR_def put_def link_def heapALLOCATE_BLOCK_def
          heapBLOCK_IS_ALLOCATED_def Let_def u_def split_def)
  qed
qed

lemma take_ok:
  assumes r: "heap_rep h (pre @ (s, False) # post)" and w: "16 \<le> w" "8 dvd w" "w \<le> s"
  defines "A \<equiv> heap_start h + total pre" and "P \<equiv> last_free (xStart h) (heap_start h) pre"
  shows "\<exists>h'. take_block h P A w = Inr (h', A + 8) \<and> heap_rep h' (pre @ taken w s @ post) \<and>
    heap_start h' = heap_start h \<and> xNumberOfSuccessfulAllocations h' = xNumberOfSuccessfulAllocations h + 1"
proof -
  note f = tile_facts [OF r, folded A_def]
  let ?nx = "first_free (A + s) post (heap_end h)"
  obtain c where c: "hp_mem h P = Some c" "pxNextFreeBlock c = A"
    and re: "\<And>m n. (\<forall>q. q < A \<or> heap_end h < q \<longrightarrow> m q = ((hp_mem h)(P \<mapsto> c\<lparr>pxNextFreeBlock := n\<rparr>)) q) \<Longrightarrow>
      seg m (heap_start h) pre n \<and> m (xStart h) = Some \<lparr>pxNextFreeBlock = first_free (heap_start h) pre n, xBlockSize = 0\<rparr>"
    using redirect [OF r] unfolding A_def [symmetric] P_def [symmetric] by auto
  have l: "link h P = Inr c" "link h A = Inr \<lparr>pxNextFreeBlock = ?nx, xBlockSize = s\<rparr>"
    using c(1) f(1) by (simp_all add: link_def)
  have PA: "P \<noteq> A" "P < A \<or> heap_end h < P" using f(10) f(3) by (auto simp: P_def)
  have v: "heapVALIDATE_BLOCK_POINTER h (A + 8) = Inr ()"
    using f(12,13) by (simp add: heapVALIDATE_BLOCK_POINTER_def configTOTAL_HEAP_SIZE_def)
  have tot: "heap_end h = heap_start h + total (pre @ (s, False) # post)" "xFreeBytesRemaining h = free_bytes (pre @ (s, False) # post)"
    "xMinimumEverFreeBytesRemaining h \<le> free_bytes (pre @ (s, False) # post)"
    "hp_mem h (heap_end h) = Some \<lparr>pxNextFreeBlock = 0, xBlockSize = 0\<rparr>" "pxEnd h = heap_end h" "placed h"
    using r unfolding heap_rep_def by blast+
  have co: "coalesced (pre @ taken w s @ post)" using r coalesced_taken unfolding heap_rep_def by blast
  have al: "(A + w) mod 8 = 0" using f(6) w(2) by (simp add: mod_eq_0_iff_dvd)
  have sd: "8 dvd s - w" using f(5) w(2) by (rule dvd_diff_nat)
  show ?thesis
  proof (cases "16 < s - w")
    case True
    let ?m = "(hp_mem h)(P \<mapsto> c\<lparr>pxNextFreeBlock := A + w\<rparr>, A + w \<mapsto> \<lparr>pxNextFreeBlock = ?nx, xBlockSize = s - w\<rparr>,
        A \<mapsto> \<lparr>pxNextFreeBlock = 0, xBlockSize = w + 2 ^ 31\<rparr>)"
    have "w < 2 ^ 31" using f(7) w(3) by linarith
    then obtain h' where h': "take_block h P A w = Inr (h', A + 8)" "hp_mem h' = ?m" "ucHeap h' = ucHeap h" "xStart h' = xStart h"
      "pxEnd h' = pxEnd h" "xFreeBytesRemaining h' = xFreeBytesRemaining h - w"
      "xMinimumEverFreeBytesRemaining h' \<le> xFreeBytesRemaining h - w"
      "xNumberOfSuccessfulAllocations h' = xNumberOfSuccessfulAllocations h + 1"
      using take_block_run [OF c(1) f(1) c(2) PA(1) _ v _ al] True PA f(3,4) w f(7) by auto
    have same: "heap_start h' = heap_start h" "heap_end h' = heap_end h" "placed h' = placed h"
      by (simp_all add: heap_start_def heap_end_def placed_def h')
    have "seg ?m (A + s) post (heap_end h)"
    proof -
      have "seg ?m (A + s) post (heap_end h) = seg (hp_mem h) (A + s) post (heap_end h)"
        using PA f(3,4) True by (intro seg_cong [OF f(9)]) auto
      then show ?thesis using f(2) by simp
    qed
    moreover have "seg ?m (heap_start h) pre (A + w) \<and>
        ?m (xStart h) = Some \<lparr>pxNextFreeBlock = first_free (heap_start h) pre (A + w), xBlockSize = 0\<rparr>"
      using f(3) True by (intro re) auto
    moreover have "?m (heap_end h) = hp_mem h (heap_end h)" using PA f(3,4) True by auto
    ultimately have "heap_rep h' (pre @ taken w s @ post)"
      unfolding heap_rep_def same h'(2-4) h'(5) using tot f(4,8,9) w sd True co h'(6,7)
      by (simp add: taken_def seg_append first_free_append A_def add.assoc)
    then show ?thesis using h'(1,8) same(1) by blast
  next
    case False
    let ?m = "(hp_mem h)(P \<mapsto> c\<lparr>pxNextFreeBlock := ?nx\<rparr>, A \<mapsto> \<lparr>pxNextFreeBlock = 0, xBlockSize = s + 2 ^ 31\<rparr>)"
    obtain h' where h': "take_block h P A w = Inr (h', A + 8)" "hp_mem h' = ?m" "ucHeap h' = ucHeap h" "xStart h' = xStart h"
      "pxEnd h' = pxEnd h" "xFreeBytesRemaining h' = xFreeBytesRemaining h - s"
      "xMinimumEverFreeBytesRemaining h' \<le> xFreeBytesRemaining h - s"
      "xNumberOfSuccessfulAllocations h' = xNumberOfSuccessfulAllocations h + 1"
      using take_block_run [OF c(1) f(1) c(2) PA(1) _ v _ al] False w f(7) by auto
    have same: "heap_start h' = heap_start h" "heap_end h' = heap_end h" "placed h' = placed h"
      by (simp_all add: heap_start_def heap_end_def placed_def h')
    have "seg ?m (A + s) post (heap_end h)"
    proof -
      have "seg ?m (A + s) post (heap_end h) = seg (hp_mem h) (A + s) post (heap_end h)"
        using PA f(3,4) by (intro seg_cong [OF f(9)]) auto
      then show ?thesis using f(2) by simp
    qed
    moreover have "seg ?m (heap_start h) pre ?nx \<and>
        ?m (xStart h) = Some \<lparr>pxNextFreeBlock = first_free (heap_start h) pre ?nx, xBlockSize = 0\<rparr>"
      using f(3) by (intro re) auto
    moreover have "?m (heap_end h) = hp_mem h (heap_end h)" using PA f(3,4) by auto
    ultimately have "heap_rep h' (pre @ taken w s @ post)"
      unfolding heap_rep_def same h'(2-4) h'(5) using tot f(4,5,8,9) False co h'(6,7)
      by (simp add: taken_def seg_append first_free_append A_def add.assoc)
    then show ?thesis using h'(1,8) same(1) by blast
  qed
qed

subsection \<open>Allocating\<close>

lemma overflow_iff: "heapADD_WILL_OVERFLOW a b \<longleftrightarrow> 2 ^ 32 \<le> unat a + unat b"
proof -
  have "unat (- 1 - b :: u32) = 2 ^ 32 - 1 - unat b"
    by (subst unat_sub) (simp_all add: unsigned_minus_1_eq_mask mask_eq_exp_minus_1)
  then show ?thesis using unsigned_less [of b, where 'a = nat] by (auto simp: heapADD_WILL_OVERFLOW_def word_less_nat_alt)
qed

lemma low_three_bits: "unat (w AND 7 :: u32) = unat w mod 8"
proof -
  have "(7 :: nat) = mask 3" by (simp add: mask_eq_exp_minus_1)
  moreover have "unat (w AND 7) = unat w AND unat (7 :: u32)" by (rule unsigned_and_eq)
  moreover have "unat (7 :: u32) = 7" by simp
  ultimately have "unat (w AND 7) = take_bit 3 (unat w)" by (simp only: take_bit_eq_mask)
  then show ?thesis by (simp add: take_bit_eq_mod)
qed

definition rounded :: "nat \<Rightarrow> nat" where "rounded n = (n + 15) div 8 * 8"

lemma wanted_size_ok:
  "unat (wanted_size x) = (if x = 0 \<or> 2 ^ 32 \<le> rounded (unat x) then 0 else rounded (unat x))"
proof (cases "x = 0 \<or> 2 ^ 32 \<le> unat x + 8")
  case True
  then show ?thesis by (auto simp: wanted_size_def heap_consts overflow_iff rounded_def word_gt_0)
next
  case False
  let ?w = "x + 8"
  have w: "unat ?w = unat x + 8" using False by (subst unat_add_lem [THEN iffD1]) simp_all
  obtain q r where qr: "unat x + 8 = 8 * q + r" "r < 8" "r = unat ?w mod 8" "q = unat ?w div 8"
    using mult_div_mod_eq [of 8 "unat ?w"] w by (metis mod_less_divisor zero_less_numeral)
  have rd: "rounded (unat x) = (if r = 0 then 8 * q else 8 * q + 8)"
  proof -
    have e: "unat x + 15 = (if r = 0 then 7 + 8 * q else (r - 1) + 8 * (q + 1))" using qr(1,2) by auto
    have "(unat x + 15) div 8 = (if r = 0 then q else q + 1)"
      unfolding e using qr(2) by (simp only: div_mult_self2 split: if_split) simp
    then show ?thesis by (simp add: rounded_def)
  qed
  have lb: "unat (?w AND 7) = r" "?w AND 7 = 0 \<longleftrightarrow> r = 0"
    using low_three_bits [of ?w] qr(3) by (auto simp: unat_eq_zero)
  have m: "unat (8 - (?w AND 7)) = 8 - r" using qr(2) lb(1)
    by (subst unat_sub) (simp_all add: word_le_nat_alt)
  have x: "0 < x" using False by (simp add: word_gt_0)
  show ?thesis
  proof (cases "r = 0")
    case True
    then show ?thesis using x False lb(2) w rd qr(1) by (simp add: wanted_size_def heap_consts overflow_iff)
  next
    case r: False
    have o: "heapADD_WILL_OVERFLOW ?w (8 - (?w AND 7)) \<longleftrightarrow> 2 ^ 32 \<le> 8 * q + 8"
      using w m qr(1,2) by (simp add: overflow_iff)
    have s: "unat (?w + (8 - (?w AND 7))) = 8 * q + 8" if "\<not> 2 ^ 32 \<le> 8 * q + 8"
      using that w m qr(1,2) by (subst unat_add_lem [THEN iffD1]) simp_all
    show ?thesis using x False lb(2) r rd o s by (simp add: wanted_size_def heap_consts overflow_iff Let_def)
  qed
qed
definition malloc_tiles :: "nat \<Rightarrow> tile list \<Rightarrow> (tile list \<times> nat) option" where
  "malloc_tiles n xs =
     (if n = 0 then None
      else map_option (\<lambda>(pre, s, post). (pre @ taken (rounded n) s @ post, total pre)) (fitting (rounded n) xs))"

text \<open>An untouched heap is set up by the first allocation.\<close>

definition heap_tiles :: "heap \<Rightarrow> tile list \<Rightarrow> bool" where
  "heap_tiles h xs \<longleftrightarrow>
     (if pxEnd h = 0 then placed h \<and> xs = [(heap_end h - heap_start h, False)] else heap_rep h xs)"

lemma rep_end: "heap_rep h xs \<Longrightarrow> pxEnd h \<noteq> 0"
  using heap_bounds(4) [of h] by (auto simp: heap_rep_def)

lemma rep_tiles: "heap_rep h xs \<Longrightarrow> heap_tiles h xs"
  by (simp add: heap_tiles_def rep_end)

lemma rounded_ok: "8 dvd rounded n" "0 < n \<Longrightarrow> 16 \<le> rounded n"
proof -
  show "8 dvd rounded n" by (simp add: rounded_def)
  assume "0 < n"
  then have "16 div 8 \<le> (n + 15) div 8" by (intro div_le_mono) simp
  then show "16 \<le> rounded n" by (simp add: rounded_def)
qed

lemma search_ok:
  assumes "heap_rep h xs" and "0 < w" and "length xs < fuel"
  shows "find_block fuel h (xStart h) (first_free (heap_start h) xs (heap_end h)) w = Inr (Some (case fitting w xs of
      None \<Rightarrow> (last_free (xStart h) (heap_start h) xs, heap_end h)
    | Some (pre, s, post) \<Rightarrow> (last_free (xStart h) (heap_start h) pre, heap_start h + total pre)))"
proof -
  have r: "seg (hp_mem h) (heap_start h) xs (heap_end h)" "sizes_ok xs" "heap_end h = heap_start h + total xs"
    "hp_mem h (heap_end h) = Some \<lparr>pxNextFreeBlock = 0, xBlockSize = 0\<rparr>" "placed h"
    using assms(1) unfolding heap_rep_def by blast+
  show ?thesis using r assms(2,3) placedD(1) [OF r(5)] heap_bounds(1,3) [of h] by (intro find_ok) auto
qed

lemma malloc_rep:
  assumes r: "heap_rep h xs" and "length xs < fuel"
  shows "\<exists>h'. pvPortMalloc fuel h n =
      Inr (Some (h', case malloc_tiles (unat n) xs of None \<Rightarrow> 0 | Some (ys, off) \<Rightarrow> heap_start h + off + 8)) \<and>
    heap_rep h' (case malloc_tiles (unat n) xs of None \<Rightarrow> xs | Some (ys, off) \<Rightarrow> ys) \<and> heap_start h' = heap_start h"
proof -
  let ?w = "unat (wanted_size n)"
  have e: "pxEnd h \<noteq> 0" using r by (rule rep_end)
  have t: "heap_end h = heap_start h + total xs" "xFreeBytesRemaining h = free_bytes xs" "pxEnd h = heap_end h"
    "hp_mem h (xStart h) = Some \<lparr>pxNextFreeBlock = first_free (heap_start h) xs (heap_end h), xBlockSize = 0\<rparr>"
    using r unfolding heap_rep_def by blast+
  have small: "free_bytes xs < 2 ^ 31" using free_le_total [of xs] t(1) heap_bounds(1,3) [of h] by simp
  have none: "fitting v xs = None" if "free_bytes xs < v" for v
    using fitting_free [of v xs] that by (cases "fitting v xs") fastforce+
  show ?thesis
  proof (cases "0 < ?w \<and> ?w \<le> free_bytes xs")
    case False
    have "malloc_tiles (unat n) xs = None"
    proof (cases "n = 0")
      case n: False
      have "0 < unat n" using n by (simp add: unat_gt_0)
      then have "free_bytes xs < rounded (unat n)"
        using False n small wanted_size_ok [of n] rounded_ok(2) [of "unat n"] by (simp split: if_splits)
      then show ?thesis using none by (simp add: malloc_tiles_def)
    qed (simp add: malloc_tiles_def)
    moreover have "pvPortMalloc fuel h n = Inr (Some (h, 0))"
      using False e t(2) by (auto simp: pvPortMalloc_def assertR_def heap_consts Let_def)
    ultimately show ?thesis using r by simp
  next
    case True
    have w: "?w = rounded (unat n)" "unat n \<noteq> 0"
      using True wanted_size_ok [of n] by (auto simp: unat_eq_zero split: if_splits)
    have ff: "heap_start h \<le> first_free (heap_start h) xs (heap_end h)" "first_free (heap_start h) xs (heap_end h) \<le> heap_end h"
      using first_free_bounds [of "heap_start h" xs "heap_end h"] t(1) by simp_all
    have v: "heapVALIDATE_BLOCK_POINTER h (first_free (heap_start h) xs (heap_end h)) = Inr ()"
      using ff heap_bounds(1,3) [of h] by (simp add: heapVALIDATE_BLOCK_POINTER_def configTOTAL_HEAP_SIZE_def assertR_def)
    note s = search_ok [OF r _ assms(2), of ?w]
    have valid: "heapBLOCK_SIZE_IS_VALID ?w" using True small by (simp add: heapBLOCK_SIZE_IS_VALID_def)
    have l: "link h (xStart h) = Inr \<lparr>pxNextFreeBlock = first_free (heap_start h) xs (heap_end h), xBlockSize = 0\<rparr>"
      using t(4) by (simp add: link_def)
    show ?thesis
    proof (cases "fitting ?w xs")
      case None
      have "pvPortMalloc fuel h n = Inr (Some (h, 0))"
        using True e t(2,3) valid l v s None by (simp add: pvPortMalloc_def assertR_def heap_consts Let_def)
      then show ?thesis using r None w by (simp add: malloc_tiles_def)
    next
      case (Some f)
      obtain pre b post where f: "f = (pre, b, post)" by (cases f) auto
      have xs: "xs = pre @ (b, False) # post" "?w \<le> b" using fittingD Some f by blast+
      have w16: "16 \<le> ?w" "8 dvd ?w" using rounded_ok [of "unat n"] w by simp_all
      obtain h' where h': "take_block h (last_free (xStart h) (heap_start h) pre) (heap_start h + total pre) ?w
            = Inr (h', heap_start h + total pre + 8)"
          "heap_rep h' (pre @ taken ?w b @ post)" "heap_start h' = heap_start h"
        using take_ok [OF r [unfolded xs(1)] w16 xs(2)] by blast
      have "heap_start h + total pre \<noteq> heap_end h" using tile_facts(3,4) [OF r [unfolded xs(1)]] by simp
      moreover have "8 dvd heap_start h + total pre" using tile_facts(6) [OF r [unfolded xs(1)]] .
      then have "(heap_start h + total pre + 8) mod 8 = 0" by (simp add: mod_eq_0_iff_dvd)
      ultimately have "pvPortMalloc fuel h n = Inr (Some (h', heap_start h + total pre + 8))"
        using True e t(2,3) valid l v s Some f h'(1) by (simp add: pvPortMalloc_def assertR_def heap_consts Let_def)
      then show ?thesis using h' Some f w by (simp add: malloc_tiles_def)
    qed
  qed
qed

subsection \<open>Giving a block back\<close>

text \<open>Merging a free tile with a free one behind it, and with a free one in front of it.\<close>

fun join_right :: "nat \<Rightarrow> tile list \<Rightarrow> tile list" where
  "join_right s ((t, False) # post) = (s + t, False) # post"
| "join_right s post = (s, False) # post"

definition free_tiles :: "tile list \<Rightarrow> nat \<Rightarrow> tile list \<Rightarrow> tile list" where
  "free_tiles pre s post =
     (if pre \<noteq> [] \<and> \<not> snd (last pre) then butlast pre @ join_right (fst (last pre) + s) post
      else pre @ join_right s post)"

lemma all_allocated: "\<forall>x \<in> set xs. snd x \<Longrightarrow> last_free p a xs = p"
  by (induction xs arbitrary: a) auto

lemma last_free_cases:
  "(\<forall>x \<in> set xs. snd x) \<or>
   (\<exists>us t vs. xs = us @ (t, False) # vs \<and> (\<forall>x \<in> set vs. snd x) \<and> (\<forall>p a. last_free p a xs = a + total us))"
proof (induction xs rule: rev_induct)
  case (snoc x xs)
  obtain s al where x: "x = (s, al)" by (cases x)
  show ?case
  proof (cases al)
    case True
    from snoc show ?thesis
    proof
      assume "\<exists>us t vs. xs = us @ (t, False) # vs \<and> (\<forall>x \<in> set vs. snd x) \<and> (\<forall>p a. last_free p a xs = a + total us)"
      then obtain us t vs where "xs = us @ (t, False) # vs" "\<forall>x \<in> set vs. snd x" "\<forall>p a. last_free p a xs = a + total us"
        by blast
      then have "xs @ [x] = us @ (t, False) # (vs @ [x])" "\<forall>y \<in> set (vs @ [x]). snd y"
        "\<forall>p a. last_free p a (xs @ [x]) = a + total us"
        using True by (auto simp: last_free_append x)
      then show ?thesis by blast
    qed (use True x in auto)
  next
    case False
    have "\<forall>p a. last_free p a (xs @ [x]) = a + total xs" using False by (simp add: last_free_append x)
    then show ?thesis using False x by (intro disjI2 exI [of _ xs] exI [of _ s] exI [of _ "[]"]) simp
  qed
qed simp

lemma insert_position_ok:
  assumes "seg (hp_mem h) a xs n" and "hp_mem h p = Some b" and "pxNextFreeBlock b = first_free a xs n"
    and "A = a + total xs" and "A \<le> n" and "sizes_ok xs" and "length xs < fuel"
  shows "insert_position fuel h p A = Inr (Some (last_free p a xs))"
  using assms
proof (induction xs arbitrary: a p b fuel)
  case Nil
  then obtain f where "fuel = Suc f" by (cases fuel) auto
  then show ?case using Nil by (simp add: link_def)
next
  case (Cons x xs)
  obtain s al where x: "x = (s, al)" by (cases x)
  have sg: "seg (hp_mem h) (a + s) xs n" "A = a + s + total xs" "sizes_ok xs" "16 \<le> s"
    using Cons.prems(1,4,6) by (simp_all add: x)
  show ?case
  proof (cases al)
    case True
    then show ?thesis using Cons.IH [OF sg(1) Cons.prems(2) _ sg(2) Cons.prems(5) sg(3)] Cons.prems(3,7)
      by (simp add: x)
  next
    case False
    obtain f where f: "fuel = Suc f" "length xs < f" using Cons.prems(7) by (cases fuel) auto
    have m: "hp_mem h a = Some \<lparr>pxNextFreeBlock = first_free (a + s) xs n, xBlockSize = s\<rparr>"
      using Cons.prems(1) False by (simp add: x)
    have "insert_position f h a A = Inr (Some (last_free a (a + s) xs))"
      using Cons.IH [OF sg(1) m _ sg(2) Cons.prems(5) sg(3) f(2)] by simp
    then show ?thesis using Cons.prems(2,3) sg(2,4) False by (simp add: x f link_def)
  qed
qed

lemma free_bytes_join [simp]: "free_bytes (join_right s post) = s + free_bytes post"
  by (induction s post rule: join_right.induct) auto

lemma free_tiles_bytes [simp]: "free_bytes (free_tiles pre s post) = free_bytes pre + s + free_bytes post"
  by (induction pre rule: rev_induct) (auto simp: free_tiles_def)

lemma coalesced_join: "coalesced ((s, True) # post) \<Longrightarrow> coalesced (join_right s' post)"
  by (induction s post rule: join_right.induct) (auto elim: coalesced.elims)

text \<open>The step that looks at the free neighbour behind.\<close>

definition swallowed :: "tile list \<Rightarrow> nat \<times> tile list" where
  "swallowed post = (case post of (t, False) # ps \<Rightarrow> (t, ps) | _ \<Rightarrow> (0, post))"

lemma join_swallowed: "join_right s post = (s + fst (swallowed post), False) # snd (swallowed post)"
  by (induction s post rule: join_right.induct) (auto simp: swallowed_def)

lemma merge_behind:
  assumes "seg (hp_mem h) E post N" and "sizes_ok post" and "N = E + total post" and "pxEnd h = N"
    and "blk + xBlockSize b = E" and "it = first_free E post N"
  shows "(if blk + xBlockSize b = it then
            if it \<noteq> pxEnd h then
              bindR (link h it) (\<lambda>nx.
              Inr (put blk (b\<lparr>xBlockSize := xBlockSize b + xBlockSize nx, pxNextFreeBlock := pxNextFreeBlock nx\<rparr>) h))
            else Inr (put blk (b\<lparr>pxNextFreeBlock := pxEnd h\<rparr>) h)
          else Inr (put blk (b\<lparr>pxNextFreeBlock := it\<rparr>) h))
       = Inr (put blk \<lparr>pxNextFreeBlock = first_free (E + fst (swallowed post)) (snd (swallowed post)) N,
                        xBlockSize = xBlockSize b + fst (swallowed post)\<rparr> h)"
proof (cases post)
  case Nil
  then show ?thesis using assms by (cases b) (simp add: swallowed_def)
next
  case (Cons x ps)
  obtain t al where x: "x = (t, al)" by (cases x)
  have t: "16 \<le> t" "E < N" using assms(2,3) by (simp_all add: Cons x)
  show ?thesis
  proof (cases al)
    case True
    have "E + t \<le> first_free (E + t) ps N" using first_free_bounds [of "E + t" ps N] assms(3) by (simp add: Cons x)
    then show ?thesis using assms(5,6) True t by (cases b) (simp add: Cons x swallowed_def)
  next
    case False
    then show ?thesis using assms(1,4,5,6) t by (cases b) (simp add: Cons x swallowed_def link_def)
  qed
qed

lemma swallowed_ok:
  assumes "seg m E post N" and "sizes_ok post" and "coalesced ((s, True) # post)"
  shows "seg m (E + fst (swallowed post)) (snd (swallowed post)) N" "sizes_ok (snd (swallowed post))"
    "total post = fst (swallowed post) + total (snd (swallowed post))" "8 dvd fst (swallowed post)"
    "free_bytes post = fst (swallowed post) + free_bytes (snd (swallowed post))"
  using assms by (auto simp: swallowed_def split: list.split bool.split)

lemma coalesced_free:
  assumes "coalesced (pre @ (s, True) # post)"
  shows "coalesced (free_tiles pre s post)"
proof -
  have c: "coalesced (pre @ [(s, True)])" "coalesced ((s, True) # post)"
    using assms coalesced_append by blast+
  have j: "coalesced (join_right t post)" for t using c(2) by (rule coalesced_join)
  show ?thesis
  proof (cases "pre \<noteq> [] \<and> \<not> snd (last pre)")
    case True
    then obtain us t where pre: "pre = us @ [(t, False)]"
      by (metis append_butlast_last_id prod.collapse)
    have "coalesced (us @ [(u, False)])" for u
      using c(1) unfolding pre by (induction us rule: coalesced.induct) auto
    then show ?thesis using j [of "t + s"] coalesced_append [of us "(t + s + fst (swallowed post), False)"]
      by (simp add: pre free_tiles_def join_swallowed)
  next
    case False
    have "coalesced (pre @ [(u, False)])" for u
      using c(1) False by (induction pre rule: coalesced.induct) auto
    then show ?thesis using j [of s] False coalesced_append [of pre "(s + fst (swallowed post), False)"]
      by (auto simp add: free_tiles_def join_swallowed)
  qed
qed

lemma insert_runs:
  assumes it: "insert_position fuel h (xStart h) A = Inr (Some P)" and "P = xStart h \<or> heapVALIDATE_BLOCK_POINTER h P = Inr ()"
    and c: "hp_mem h P = Some c" and A: "hp_mem h A = Some \<lparr>pxNextFreeBlock = 0, xBlockSize = s\<rparr>"
    and c_next: "pxNextFreeBlock c = first_free (A + s) post N" and "P \<noteq> A"
    and h: "seg (hp_mem h) (A + s) post N" "sizes_ok post" "N = A + s + total post" "pxEnd h = N"
    and P: "P < A + s \<or> N < P"
  defines "nx \<equiv> first_free (A + s + fst (swallowed post)) (snd (swallowed post)) N" and "u \<equiv> fst (swallowed post)"
  shows "prvInsertBlockIntoFreeList fuel h A = Inr (Some (
    if P + xBlockSize c = A then put P \<lparr>pxNextFreeBlock = nx, xBlockSize = xBlockSize c + s + u\<rparr> h
    else put P (c\<lparr>pxNextFreeBlock := A\<rparr>) (put A \<lparr>pxNextFreeBlock = nx, xBlockSize = s + u\<rparr> h)))"
proof -
  have v: "(if P \<noteq> xStart h then heapVALIDATE_BLOCK_POINTER h P else Inr ()) = Inr ()" using assms(2) by auto
  have l: "link h P = Inr c" "link h A = Inr \<lparr>pxNextFreeBlock = 0, xBlockSize = s\<rparr>" using c A by (simp_all add: link_def)
  show ?thesis
  proof (cases "P + xBlockSize c = A")
    case True
    let ?h = "put P (c\<lparr>xBlockSize := xBlockSize c + s\<rparr>) h"
    have "seg (hp_mem ?h) (A + s) post N = seg (hp_mem h) (A + s) post N"
      using P h(3) by (intro seg_cong [OF h(2)]) (auto simp: put_def)
    then have sg: "seg (hp_mem ?h) (A + s) post N" using h(1) by simp
    have e: "pxEnd ?h = N" using h(4) by (simp add: put_def)
    have b: "P + xBlockSize (c\<lparr>xBlockSize := xBlockSize c + s\<rparr>) = A + s" using True by simp
    have l1: "link ?h P = Inr (c\<lparr>xBlockSize := xBlockSize c + s\<rparr>)" by (simp add: link_def put_def)
    have pp: "put P b (put P c h) = put P b h" for b c by (simp add: put_def)
    have n1: "pxNextFreeBlock (c\<lparr>xBlockSize := xBlockSize c + s\<rparr>) = first_free (A + s) post N" using c_next by simp
    note m = merge_behind [OF sg h(2,3) e b n1]
    show ?thesis
      unfolding prvInsertBlockIntoFreeList_def it bindR.simps option.case v l Let_def if_P [OF True] BlockLink.select_convs l1 m
      by (simp add: nx_def u_def pp)
  next
    case False
    have b: "A + xBlockSize \<lparr>pxNextFreeBlock = 0, xBlockSize = s\<rparr> = A + s" by simp
    note m = merge_behind [OF h b c_next]
    have l2: "link (put A x h) P = Inr c" for x using c assms(6) by (simp add: link_def put_def)
    show ?thesis
      unfolding prvInsertBlockIntoFreeList_def it bindR.simps option.case v l Let_def if_not_P [OF False] m
      using assms(6) by (simp add: nx_def u_def l2)
  qed
qed

lemma free_runs:
  assumes r: "heap_rep h (pre @ (s, True) # post)" and fuel: "length pre < fuel"
  defines "A \<equiv> heap_start h + total pre" and "P \<equiv> last_free (xStart h) (heap_start h) pre"
    and "nx \<equiv> first_free (heap_start h + total pre + s + fst (swallowed post)) (snd (swallowed post)) (heap_end h)"
    and "u \<equiv> fst (swallowed post)"
  shows "\<exists>c. hp_mem h P = Some c \<and> pxNextFreeBlock c = first_free (A + s) post (heap_end h) \<and>
    vPortFree fuel h (A + 8) = Inr (Some (h\<lparr>hp_mem :=
      (if P + xBlockSize c = A
       then (hp_mem h)(A \<mapsto> \<lparr>pxNextFreeBlock = 0, xBlockSize = s\<rparr>, P \<mapsto> \<lparr>pxNextFreeBlock = nx, xBlockSize = xBlockSize c + s + u\<rparr>)
       else (hp_mem h)(A \<mapsto> \<lparr>pxNextFreeBlock = nx, xBlockSize = s + u\<rparr>, P \<mapsto> c\<lparr>pxNextFreeBlock := A\<rparr>)),
      xFreeBytesRemaining := xFreeBytesRemaining h + s,
      xNumberOfSuccessfulFrees := xNumberOfSuccessfulFrees h + 1\<rparr>))"
proof -
  note f = tile_facts [OF r, folded A_def]
  let ?N = "heap_end h"
  let ?H = "(put A \<lparr>pxNextFreeBlock = 0, xBlockSize = s\<rparr> h)\<lparr>xFreeBytesRemaining := xFreeBytesRemaining h + s\<rparr>"
  obtain c where c: "hp_mem h P = Some c" "pxNextFreeBlock c = first_free (A + s) post ?N"
    using redirect [OF r] unfolding A_def [symmetric] P_def [symmetric] by auto
  have rep: "seg (hp_mem h) (heap_start h) pre (first_free (A + s) post ?N)" "placed h" "pxEnd h = ?N"
    "hp_mem h (xStart h) = Some \<lparr>pxNextFreeBlock = first_free (heap_start h) pre (first_free (A + s) post ?N), xBlockSize = 0\<rparr>"
    using r unfolding heap_rep_def seg_append first_free_append A_def first_free.simps if_True by blast+
  have PA: "P \<noteq> A" "P < A + s \<or> ?N < P" using f(3,4,10) by (auto simp: P_def)
  have vP: "P = xStart h \<or> heapVALIDATE_BLOCK_POINTER ?H P = Inr ()"
    using last_free_in [OF f(8), of "xStart h" "heap_start h"] heap_bounds(1) [of h] f(12,13)
    by (auto simp: P_def A_def heapVALIDATE_BLOCK_POINTER_def configTOTAL_HEAP_SIZE_def assertR_def put_def)
  have vA: "heapVALIDATE_BLOCK_POINTER h A = Inr ()"
    using f(12,13) by (simp add: heapVALIDATE_BLOCK_POINTER_def configTOTAL_HEAP_SIZE_def assertR_def)
  have x: "xStart h \<noteq> A" using f(11) f(3) by (auto simp: A_def)
  have sg: "seg (hp_mem ?H) (heap_start h) pre (first_free (A + s) post ?N)" "seg (hp_mem ?H) (A + s) post ?N"
  proof -
    have "seg (hp_mem ?H) (heap_start h) pre (first_free (A + s) post ?N)
        = seg (hp_mem h) (heap_start h) pre (first_free (A + s) post ?N)"
      by (intro seg_cong [OF f(8)]) (simp add: put_def A_def)
    then show "seg (hp_mem ?H) (heap_start h) pre (first_free (A + s) post ?N)" using rep(1) by simp
    have "seg (hp_mem ?H) (A + s) post ?N = seg (hp_mem h) (A + s) post ?N"
      using f(4) by (intro seg_cong [OF f(9)]) (simp add: put_def)
    then show "seg (hp_mem ?H) (A + s) post ?N" using f(2) by simp
  qed
  have "A \<le> first_free (A + s) post ?N" using first_free_bounds [of "A + s" post ?N] f(3) by simp
  moreover have "hp_mem ?H (xStart h) = Some \<lparr>pxNextFreeBlock = first_free (heap_start h) pre (first_free (A + s) post ?N), xBlockSize = 0\<rparr>"
    using rep(4) x by (simp add: put_def)
  ultimately have pos: "insert_position fuel ?H (xStart h) A = Inr (Some P)"
    unfolding P_def using insert_position_ok [OF sg(1) _ _ A_def [THEN meta_eq_to_obj_eq] _ f(8) fuel] by simp
  have ins: "prvInsertBlockIntoFreeList fuel ?H A = Inr (Some (
    if P + xBlockSize c = A then put P \<lparr>pxNextFreeBlock = nx, xBlockSize = xBlockSize c + s + u\<rparr> ?H
    else put P (c\<lparr>pxNextFreeBlock := A\<rparr>) (put A \<lparr>pxNextFreeBlock = nx, xBlockSize = s + u\<rparr> ?H)))"
    unfolding nx_def u_def A_def [symmetric]
    using pos vP c PA sg(2) f(3,9) rep(3) by (intro insert_runs) (simp_all add: put_def)
  have "vPortFree fuel h (A + 8) = Inr (map_option (\<lambda>h3. h3\<lparr>xNumberOfSuccessfulFrees := xNumberOfSuccessfulFrees h3 + 1\<rparr>)
      (Some (if P + xBlockSize c = A then put P \<lparr>pxNextFreeBlock = nx, xBlockSize = xBlockSize c + s + u\<rparr> ?H
       else put P (c\<lparr>pxNextFreeBlock := A\<rparr>) (put A \<lparr>pxNextFreeBlock = nx, xBlockSize = s + u\<rparr> ?H))))"
  proof -
    have "heapFREE_BLOCK \<lparr>pxNextFreeBlock = 0, xBlockSize = s + 2 ^ 31\<rparr> = \<lparr>pxNextFreeBlock = 0, xBlockSize = s\<rparr>"
      by (simp add: heapFREE_BLOCK_def heapBLOCK_IS_ALLOCATED_def)
    moreover have "xFreeBytesRemaining (put A b h) = xFreeBytesRemaining h" for b by (simp add: put_def)
    moreover have "link h A = Inr \<lparr>pxNextFreeBlock = 0, xBlockSize = s + 2 ^ 31\<rparr>" using f(1) by (simp add: link_def)
    ultimately show ?thesis using vA ins
      by (simp add: vPortFree_def heap_consts heapBLOCK_IS_ALLOCATED_def assertR_def Let_def)
  qed
  then show ?thesis using c by (simp add: put_def)
qed

lemma merges_left:
  assumes r: "heap_rep h (pre @ (s, al) # post)" and c: "hp_mem h (last_free (xStart h) (heap_start h) pre) = Some c"
  shows "last_free (xStart h) (heap_start h) pre + xBlockSize c = heap_start h + total pre \<longleftrightarrow> pre \<noteq> [] \<and> \<not> snd (last pre)"
proof -
  note f = tile_facts [OF r]
  have xh: "hp_mem h (xStart h) = Some \<lparr>pxNextFreeBlock = first_free (heap_start h) (pre @ (s, al) # post) (heap_end h), xBlockSize = 0\<rparr>"
    and sg: "seg (hp_mem h) (heap_start h) (pre @ (s, al) # post) (heap_end h)"
    using r unfolding heap_rep_def by blast+
  show ?thesis
  proof (cases "\<forall>x \<in> set pre. snd x")
    case True
    then have "last_free (xStart h) (heap_start h) pre = xStart h" by (rule all_allocated)
    moreover have "xStart h \<noteq> heap_start h + total pre" using f(3,11) by auto
    moreover have "\<not> (pre \<noteq> [] \<and> \<not> snd (last pre))" using True last_in_set by blast
    ultimately show ?thesis using c xh by auto
  next
    case False
    then obtain us t vs where p: "pre = us @ (t, False) # vs" "\<forall>x \<in> set vs. snd x"
      "\<forall>p a. last_free p a pre = a + total us" using last_free_cases [of pre] by blast
    have "hp_mem h (heap_start h + total us) = Some \<lparr>pxNextFreeBlock = first_free (heap_start h + total us + t) (vs @ (s, al) # post) (heap_end h), xBlockSize = t\<rparr>"
      using sg unfolding p(1) append_assoc append_Cons seg_append seg.simps by simp
    then have ct: "xBlockSize c = t" using c p(3) by auto
    have "vs = [] \<longleftrightarrow> total vs = 0" using f(8) p(1) by (cases vs) auto
    moreover have "pre \<noteq> [] \<and> \<not> snd (last pre) \<longleftrightarrow> vs = []" using p(1,2) by auto
    ultimately show ?thesis using p(1,3) ct by simp
  qed
qed

lemma free_rep:
  assumes r: "heap_rep h (pre @ (s, True) # post)" and fuel: "length pre < fuel"
  shows "\<exists>h'. vPortFree fuel h (heap_start h + total pre + 8) = Inr (Some h') \<and>
    heap_rep h' (free_tiles pre s post) \<and> heap_start h' = heap_start h"
proof -
  let ?A = "heap_start h + total pre" and ?P = "last_free (xStart h) (heap_start h) pre" and ?N = "heap_end h"
  let ?u = "fst (swallowed post)" and ?ps = "snd (swallowed post)"
  let ?nx = "first_free (?A + s + ?u) ?ps ?N"
  note f = tile_facts [OF r]
  have co: "coalesced (pre @ (s, True) # post)" using r unfolding heap_rep_def by blast
  then have co2: "coalesced ((s, True) # post)" using coalesced_append by blast
  note sw = swallowed_ok [OF f(2,9) co2]
  obtain c h' where c: "hp_mem h ?P = Some c" and run: "vPortFree fuel h (?A + 8) = Inr (Some h')"
    and mem: "hp_mem h' = (if ?P + xBlockSize c = ?A
       then (hp_mem h)(?A \<mapsto> \<lparr>pxNextFreeBlock = 0, xBlockSize = s\<rparr>, ?P \<mapsto> \<lparr>pxNextFreeBlock = ?nx, xBlockSize = xBlockSize c + s + ?u\<rparr>)
       else (hp_mem h)(?A \<mapsto> \<lparr>pxNextFreeBlock = ?nx, xBlockSize = s + ?u\<rparr>, ?P \<mapsto> c\<lparr>pxNextFreeBlock := ?A\<rparr>))"
    and rest: "ucHeap h' = ucHeap h" "xStart h' = xStart h" "pxEnd h' = pxEnd h"
      "xFreeBytesRemaining h' = xFreeBytesRemaining h + s"
      "xMinimumEverFreeBytesRemaining h' = xMinimumEverFreeBytesRemaining h"
    using free_runs [OF r fuel] by force
  have same: "heap_start h' = heap_start h" "heap_end h' = ?N" "placed h' = placed h"
    by (simp_all add: heap_start_def heap_end_def placed_def rest)
  have tot: "?N = heap_start h + total (pre @ (s, True) # post)" "xFreeBytesRemaining h = free_bytes (pre @ (s, True) # post)"
    "xMinimumEverFreeBytesRemaining h \<le> free_bytes (pre @ (s, True) # post)"
    "hp_mem h ?N = Some \<lparr>pxNextFreeBlock = 0, xBlockSize = 0\<rparr>" "pxEnd h = ?N" "placed h"
    using r unfolding heap_rep_def by blast+
  have away: "\<forall>q. ?A < q \<and> q \<le> ?N \<longrightarrow> hp_mem h' q = hp_mem h q" using f(10) by (auto simp: mem)
  have "seg (hp_mem h') (?A + s + ?u) ?ps ?N = seg (hp_mem h) (?A + s + ?u) ?ps ?N"
    using away f(3,4) sw(3) by (intro seg_cong [OF sw(2)]) auto
  then have behind: "seg (hp_mem h') (?A + s + ?u) ?ps ?N" using sw(1) by simp
  have "?A < ?N" using f(3,4) by simp
  then have last: "hp_mem h' ?N = hp_mem h ?N" using away by blast
  have bytes: "free_bytes (free_tiles pre s post) = xFreeBytesRemaining h'" using tot(2) rest(4) by simp
  have "seg (hp_mem h') (heap_start h) (free_tiles pre s post) ?N \<and>
    hp_mem h' (xStart h) = Some \<lparr>pxNextFreeBlock = first_free (heap_start h) (free_tiles pre s post) ?N, xBlockSize = 0\<rparr> \<and>
    sizes_ok (free_tiles pre s post) \<and> total (free_tiles pre s post) = total (pre @ (s, True) # post)"
  proof (cases "?P + xBlockSize c = ?A")
    case True
    then have "pre \<noteq> [] \<and> \<not> snd (last pre)" using merges_left [OF r c] by blast
    then obtain us t where pre: "pre = us @ [(t, False)]" by (metis append_butlast_last_id prod.collapse)
    have P: "?P = heap_start h + total us" "xBlockSize c = t"
      using True by (simp_all add: pre last_free_append)
    have so: "sizes_ok us" "16 \<le> t" "8 dvd t" using f(8) by (simp_all add: pre)
    have m: "hp_mem h' ?P = Some \<lparr>pxNextFreeBlock = ?nx, xBlockSize = t + s + ?u\<rparr>" using True P(2) by (simp add: mem)
    have sg: "seg (hp_mem h) (heap_start h) us ?P" and
      xh: "hp_mem h (xStart h) = Some \<lparr>pxNextFreeBlock = first_free (heap_start h) us ?P, xBlockSize = 0\<rparr>"
      using r unfolding heap_rep_def pre append_assoc append_Cons append_Nil seg_append first_free_append P(1) [unfolded pre] by simp_all
    have "seg (hp_mem h') (heap_start h) us ?P = seg (hp_mem h) (heap_start h) us ?P"
      using True P so by (intro seg_cong [OF so(1)]) (auto simp: mem pre)
    moreover have "hp_mem h' (xStart h) = hp_mem h (xStart h)"
      using f(3,4,11) P so by (auto simp: mem pre)
    ultimately show ?thesis
      using sg xh m behind P so f(5) sw(2,3,4)
      by (simp add: pre free_tiles_def join_swallowed seg_append first_free_append add.assoc)
  next
    case False
    then have n: "\<not> (pre \<noteq> [] \<and> \<not> snd (last pre))" using merges_left [OF r c] by blast
    have "seg (hp_mem h') (heap_start h) pre ?A \<and>
        hp_mem h' (xStart h) = Some \<lparr>pxNextFreeBlock = first_free (heap_start h) pre ?A, xBlockSize = 0\<rparr>"
    proof -
      obtain c' where c': "hp_mem h ?P = Some c'" and re: "\<And>m n. (\<forall>q. q < ?A \<or> ?N < q \<longrightarrow> m q = ((hp_mem h)(?P \<mapsto> c'\<lparr>pxNextFreeBlock := n\<rparr>)) q) \<Longrightarrow>
          seg m (heap_start h) pre n \<and> m (xStart h) = Some \<lparr>pxNextFreeBlock = first_free (heap_start h) pre n, xBlockSize = 0\<rparr>"
        using redirect [OF r] by blast
      have "c' = c" using c c' by simp
      then show ?thesis using False \<open>?A < ?N\<close> by (intro re) (simp add: mem)
    qed
    moreover have "hp_mem h' ?A = Some \<lparr>pxNextFreeBlock = ?nx, xBlockSize = s + ?u\<rparr>"
      using False f(3,10) by (auto simp: mem)
    ultimately show ?thesis
      using behind f(4,5,8) sw(2,3,4) n
      by (auto simp add: free_tiles_def join_swallowed seg_append first_free_append add.assoc)
  qed
  then have "heap_rep h' (free_tiles pre s post)"
    unfolding heap_rep_def same rest(2,3,5) bytes using tot last coalesced_free [OF co] rest(4) by simp
  then show ?thesis using run same(1) by blast
qed

lemma malloc_ok:
  assumes t: "heap_tiles h xs" and "length xs < fuel"
  shows "\<exists>h'. pvPortMalloc fuel h n =
      Inr (Some (h', case malloc_tiles (unat n) xs of None \<Rightarrow> 0 | Some (ys, off) \<Rightarrow> heap_start h + off + 8)) \<and>
    heap_rep h' (case malloc_tiles (unat n) xs of None \<Rightarrow> xs | Some (ys, off) \<Rightarrow> ys) \<and> heap_start h' = heap_start h"
proof (cases "pxEnd h = 0")
  case True
  then have p: "placed h" and xs: "xs = [(heap_end h - heap_start h, False)]" using t by (simp_all add: heap_tiles_def)
  have r: "heap_rep (prvHeapInit h) xs" unfolding xs by (rule init_rep [OF p])
  have s: "heap_start (prvHeapInit h) = heap_start h" by (simp add: prvHeapInit_def Let_def put_def heap_start_def)
  have e: "pvPortMalloc fuel h n = pvPortMalloc fuel (prvHeapInit h) n"
    using True rep_end [OF r] unfolding pvPortMalloc_def by (simp add: Let_def)
  show ?thesis using malloc_rep [OF r assms(2), of n] unfolding s e .
next
  case False
  then show ?thesis using t malloc_rep [OF _ assms(2)] by (simp add: heap_tiles_def)
qed

section \<open>The blocks that are out\<close>

text \<open>The allocated tiles: the address given to the caller and the bytes that are his.\<close>

fun blocks :: "nat \<Rightarrow> tile list \<Rightarrow> nat \<Rightarrow> nat option" where
  "blocks a [] = Map.empty"
| "blocks a ((s, al) # xs) = (if al then [a + 8 \<mapsto> s - 8] else Map.empty) ++ blocks (a + s) xs"

lemma blocks_append: "blocks a (xs @ ys) = blocks a xs ++ blocks (a + total xs) ys"
  by (induction xs arbitrary: a) (auto simp: add.assoc)

lemma blocks_bounds:
  "sizes_ok xs \<Longrightarrow> blocks a xs p = Some u \<Longrightarrow> a + 8 \<le> p \<and> p + u \<le> a + total xs \<and> p < a + total xs \<and> (8 dvd a \<longrightarrow> 8 dvd p)"
proof (induction xs arbitrary: a)
  case (Cons x xs)
  obtain s al where x: "x = (s, al)" by (cases x)
  from Cons.prems consider "blocks (a + s) xs p = Some u" | "p = a + 8" "u = s - 8"
    by (auto simp: x map_add_Some_iff split: if_splits)
  then show ?case
  proof cases
    case 1
    from Cons.IH [OF _ 1] Cons.prems(1) show ?thesis by (simp add: x)
  qed (use Cons.prems(1) in \<open>simp add: x\<close>)
qed simp

lemma blocks_out: "sizes_ok xs \<Longrightarrow> p < a + 8 \<or> a + total xs \<le> p \<Longrightarrow> blocks a xs p = None"
  using blocks_bounds [of xs a p] by (cases "blocks a xs p") fastforce+

lemma blocks_split:
  assumes "blocks a xs p = Some u" and "sizes_ok xs"
  shows "\<exists>pre s post. xs = pre @ (s, True) # post \<and> p = a + total pre + 8 \<and> u = s - 8"
  using assms
proof (induction xs arbitrary: a)
  case (Cons x xs)
  obtain s al where x: "x = (s, al)" by (cases x)
  from Cons.prems consider "blocks (a + s) xs p = Some u" | "p = a + 8" "u = s - 8" al
    by (auto simp: x map_add_Some_iff split: if_splits)
  then show ?case
  proof cases
    case 1
    then obtain pre t post where "xs = pre @ (t, True) # post" "p = a + s + total pre + 8" "u = t - 8"
      using Cons.IH [OF 1] Cons.prems(2) by (auto simp: x)
    then show ?thesis by (intro exI [of _ "x # pre"] exI [of _ t] exI [of _ post]) (simp add: x)
  next
    case 2
    then show ?thesis by (intro exI [of _ "[]"] exI [of _ s] exI [of _ xs]) (simp add: x)
  qed
qed simp

lemma blocks_apart:
  assumes "sizes_ok xs" and "blocks a xs p = Some u" and "blocks a xs q = Some v" and "p < q"
  shows "p + u + 8 \<le> q"
proof -
  obtain pre s post where s: "xs = pre @ (s, True) # post" "p = a + total pre + 8" "u = s - 8"
    using blocks_split [OF assms(2,1)] by blast
  have so: "sizes_ok pre" "sizes_ok post" "16 \<le> s" using assms(1) by (simp_all add: s(1))
  have "blocks a pre q = None" using blocks_out [OF so(1)] assms(4) s(2) by simp
  then have "blocks (a + total pre + s) post q = Some v"
    using assms(3,4) by (auto simp: s(1,2) blocks_append map_add_Some_iff)
  from blocks_bounds [OF so(2) this] show ?thesis using s so(3) by simp
qed

lemma blocks_taken:
  assumes "sizes_ok (pre @ (s, False) # post)" and "16 \<le> w" and "w \<le> s"
  shows "\<exists>u \<ge> w - 8. blocks a (pre @ taken w s @ post) = (blocks a (pre @ (s, False) # post))(a + total pre + 8 \<mapsto> u)"
    and "blocks a (pre @ (s, False) # post) (a + total pre + 8) = None"
proof -
  let ?p = "a + total pre + 8"
  have so: "sizes_ok pre" "sizes_ok post" "16 \<le> s" using assms(1) by simp_all
  have n: "blocks a pre ?p = None" "blocks (a + total pre + s) post ?p = None"
    using blocks_out [OF so(1), of ?p a] blocks_out [OF so(2), of ?p "a + total pre + s"] so(3) by simp_all
  then show "blocks a (pre @ (s, False) # post) ?p = None" by (simp add: blocks_append map_add_def)
  have split: "m1 ++ [?p \<mapsto> u] ++ blocks (a + total pre + s) post = (m1 ++ blocks (a + total pre + s) post)(?p \<mapsto> u)" for m1 u
    using n(2) by (auto simp: map_add_def fun_eq_iff split: option.split)
  show "\<exists>u \<ge> w - 8. blocks a (pre @ taken w s @ post) = (blocks a (pre @ (s, False) # post))(?p \<mapsto> u)"
  proof (cases "16 < s - w")
    case True
    then have "blocks a (pre @ taken w s @ post) = blocks a pre ++ [?p \<mapsto> w - 8] ++ blocks (a + total pre + s) post"
      using assms(3) by (simp add: taken_def blocks_append add.assoc)
    then show ?thesis using split by (auto simp: blocks_append)
  next
    case False
    then have "blocks a (pre @ taken w s @ post) = blocks a pre ++ [?p \<mapsto> s - 8] ++ blocks (a + total pre + s) post"
      by (simp add: taken_def blocks_append add.assoc)
    then show ?thesis using split assms(3) by (auto simp: blocks_append intro: exI [of _ "s - 8"])
  qed
qed

lemma blocks_join: "blocks a (join_right s post) = blocks (a + s) post"
  by (induction s post rule: join_right.induct) (simp_all add: add.assoc)

lemma blocks_free:
  assumes "sizes_ok (pre @ (s, True) # post)"
  shows "blocks a (free_tiles pre s post) = (blocks a (pre @ (s, True) # post))(a + total pre + 8 := None)"
proof -
  let ?p = "a + total pre + 8"
  have so: "sizes_ok pre" "sizes_ok post" "16 \<le> s" using assms by simp_all
  have n: "blocks a pre ?p = None" "blocks (a + total pre + s) post ?p = None"
    using blocks_out [OF so(1), of ?p a] blocks_out [OF so(2), of ?p "a + total pre + s"] so(3) by simp_all
  have "blocks a (free_tiles pre s post) = blocks a pre ++ blocks (a + total pre + s) post"
  proof (cases "pre \<noteq> [] \<and> \<not> snd (last pre)")
    case True
    then obtain us t where "pre = us @ [(t, False)]" by (metis append_butlast_last_id prod.collapse)
    then show ?thesis by (simp add: free_tiles_def blocks_append blocks_join add.assoc)
  qed (auto simp: free_tiles_def blocks_append blocks_join)
  then show ?thesis using n by (auto simp: blocks_append map_add_def fun_eq_iff split: option.split)
qed

section \<open>Statistics\<close>

lemma stats_loop_ok:
  assumes "seg (hp_mem h) a xs n" and "pxEnd h = n" and "sizes_ok xs" and "n = a + total xs" and "length xs < fuel"
  shows "stats_loop fuel h (first_free a xs n) c mx mn =
    (let fs = map fst (filter (\<lambda>x. \<not> snd x) xs) in
     Inr (Some (c + length fs, fold (\<lambda>s m. max m s) fs mx, fold (\<lambda>s m. min m s) fs mn)))"
  using assms
proof (induction xs arbitrary: a fuel c mx mn)
  case Nil
  then obtain f where "fuel = Suc f" by (cases fuel) auto
  then show ?case using Nil by simp
next
  case (Cons x xs)
  obtain s al where x: "x = (s, al)" by (cases x)
  have sg: "seg (hp_mem h) (a + s) xs n" "n = a + s + total xs" "sizes_ok xs" "a \<noteq> n"
    using Cons.prems(1,3,4) by (simp_all add: x)
  show ?case
  proof (cases al)
    case True
    then show ?thesis using Cons.IH [OF sg(1) Cons.prems(2) sg(3,2)] Cons.prems(5) by (simp add: x)
  next
    case False
    obtain f where f: "fuel = Suc f" "length xs < f" using Cons.prems(5) by (cases fuel) auto
    have "link h a = Inr \<lparr>pxNextFreeBlock = first_free (a + s) xs n, xBlockSize = s\<rparr>"
      using Cons.prems(1) False by (simp add: x link_def)
    then show ?thesis
      using Cons.IH [OF sg(1) Cons.prems(2) sg(3,2) f(2)] sg(4) Cons.prems(2) False by (simp add: x f Let_def)
  qed
qed

lemma heap_stats:
  assumes r: "heap_rep h xs" and "length xs < fuel"
  shows "\<exists>st. vPortGetHeapStats fuel h = Inr (Some st) \<and> xAvailableHeapSpaceInBytes st = free_bytes xs \<and>
    xNumberOfFreeBlocks st = length (filter (\<lambda>x. \<not> snd x) xs) \<and>
    xSizeOfLargestFreeBlockInBytes st = fold (\<lambda>s m. max m s) (map fst (filter (\<lambda>x. \<not> snd x) xs)) 0"
proof -
  have t: "seg (hp_mem h) (heap_start h) xs (heap_end h)" "pxEnd h = heap_end h" "sizes_ok xs"
    "heap_end h = heap_start h + total xs" "xFreeBytesRemaining h = free_bytes xs" "placed h"
    "hp_mem h (xStart h) = Some \<lparr>pxNextFreeBlock = first_free (heap_start h) xs (heap_end h), xBlockSize = 0\<rparr>"
    using r unfolding heap_rep_def by blast+
  have "heap_start h \<le> first_free (heap_start h) xs (heap_end h)"
    using first_free_bounds [of "heap_start h" xs "heap_end h"] t(4) by simp
  then have "first_free (heap_start h) xs (heap_end h) \<noteq> 0" using placedD(1) [OF t(6)] by simp
  then show ?thesis
    using stats_loop_ok [OF t(1-4) assms(2)] t(5,7) by (simp add: vPortGetHeapStats_def link_def Let_def)
qed

text \<open>An array whose size overflows is refused.\<close>

lemma calloc_overflow: "2 ^ 32 \<le> unat n * unat m \<Longrightarrow> pvPortCalloc fuel h n m = Inr (Some (h, 0))"
proof -
  assume o: "2 ^ 32 \<le> unat n * unat m"
  then have "0 < unat n" by (cases "unat n") auto
  moreover have "(2 ^ 32 - 1) div unat n < unat m"
    using o \<open>0 < unat n\<close> by (subst div_less_iff_less_mult) (simp_all add: mult.commute)
  moreover have "unat (- 1 div n) = (2 ^ 32 - 1) div unat n"
    by (simp add: unat_div_distrib unsigned_minus_1_eq_mask mask_eq_exp_minus_1)
  ultimately show ?thesis
    by (simp add: pvPortCalloc_def word_less_nat_alt)
qed

section \<open>Properties\<close>

text \<open>C27: on a heap tiled by blocks, allocation is first fit: the request with its header, rounded
  up to eight bytes, is cut from the first free tile that can hold it (the rest stays a free tile when it
  is larger than 16 bytes) and the address behind the header is returned; when there is no such tile,
  or the request is 0 or overflows, it returns 0 and the tiles are as before. It never fails an
  assertion and never follows a bad pointer.\<close>

theorem heap_first_fit:
  assumes "heap_tiles h xs" and "length xs < fuel"
  shows "\<exists>h'. pvPortMalloc fuel h n =
      Inr (Some (h', case malloc_tiles (unat n) xs of None \<Rightarrow> 0 | Some (ys, off) \<Rightarrow> heap_start h + off + 8)) \<and>
    heap_rep h' (case malloc_tiles (unat n) xs of None \<Rightarrow> xs | Some (ys, off) \<Rightarrow> ys) \<and> heap_start h' = heap_start h"
  using assms by (rule malloc_ok)

text \<open>The heap of the target before the first allocation.\<close>

definition fresh_heap :: heap where
  "fresh_heap = \<lparr>hp_mem = Map.empty, ucHeap = 536870915, xStart = 536870000, pxEnd = 0, xFreeBytesRemaining = 0,
     xMinimumEverFreeBytesRemaining = 0, xNumberOfSuccessfulAllocations = 0, xNumberOfSuccessfulFrees = 0\<rparr>"

lemma fresh_tiles: "heap_tiles fresh_heap [(131064, False)]"
  by (simp add: heap_tiles_def fresh_heap_def placed_def heap_start_def heap_end_def)

lemma fresh_100: "malloc_tiles 100 [(131064, False)] = Some ([(112, True), (130952, False)], 0)"
  by (simp add: malloc_tiles_def rounded_def taken_def)

theorem heap_first_fit_witness:
  "\<exists>h'. pvPortMalloc 5 fresh_heap 100 = Inr (Some (h', 536870928)) \<and> heap_rep h' [(112, True), (130952, False)]"
  using heap_first_fit [OF fresh_tiles, of 5 100] by (auto simp: fresh_100 heap_start_def fresh_heap_def)

text \<open>C26: freeing the block of a tile that is allocated succeeds and makes the tile free, merged
  with the free tile behind it and with the free tile in front of it, so that two free tiles never touch;
  all other tiles keep their addresses and sizes.\<close>

theorem heap_coalesces:
  assumes "heap_rep h (pre @ (s, True) # post)" and "length pre < fuel"
  shows "\<exists>h'. vPortFree fuel h (heap_start h + total pre + 8) = Inr (Some h') \<and>
    heap_rep h' (free_tiles pre s post) \<and> heap_start h' = heap_start h"
  using assms by (rule free_rep)

theorem heap_coalesces_witness:
  "\<exists>h h'. pvPortMalloc 5 fresh_heap 100 = Inr (Some (h, 536870928)) \<and>
     vPortFree 5 h 536870928 = Inr (Some h') \<and> heap_rep h' [(131064, False)]"
proof -
  obtain h where h: "pvPortMalloc 5 fresh_heap 100 = Inr (Some (h, 536870928))"
    "heap_rep h ([] @ (112, True) # [(130952, False)])" "heap_start h = 536870920"
    using malloc_ok [OF fresh_tiles, of 5 100] by (auto simp: fresh_100 heap_start_def fresh_heap_def)
  show ?thesis using heap_coalesces [OF h(2), of 5] h(1,3) by (auto simp: free_tiles_def)
qed

subsection \<open>Histories of the allocator\<close>

text \<open>The heap after any sequence of allocations and of frees of blocks that are out, with the blocks
  that are out and the sizes asked for. The fuel is a bound on the number of tiles.\<close>

definition heap_fuel :: nat where "heap_fuel = 131077"

inductive heap_run :: "heap \<Rightarrow> (nat \<Rightarrow> nat option) \<Rightarrow> bool" where
  heap_new: "placed h \<Longrightarrow> pxEnd h = 0 \<Longrightarrow> heap_run h Map.empty"
| heap_malloc: "heap_run h live \<Longrightarrow> pvPortMalloc heap_fuel h n = Inr (Some (h', p)) \<Longrightarrow>
    heap_run h' (if p = 0 then live else live(p \<mapsto> unat n))"
| heap_free: "heap_run h live \<Longrightarrow> p \<in> dom live \<Longrightarrow> vPortFree heap_fuel h p = Inr (Some h') \<Longrightarrow>
    heap_run h' (live(p := None))"

definition fits :: "(nat \<Rightarrow> nat option) \<Rightarrow> (nat \<Rightarrow> nat option) \<Rightarrow> bool" where
  "fits live bs \<longleftrightarrow> dom live = dom bs \<and> (\<forall>p n u. live p = Some n \<longrightarrow> bs p = Some u \<longrightarrow> n \<le> u)"

lemma tiles_few: "heap_tiles h xs \<Longrightarrow> length xs < heap_fuel \<and> sizes_ok xs \<and> heap_end h = heap_start h + total xs"
proof -
  assume t: "heap_tiles h xs"
  have len: "sizes_ok xs \<Longrightarrow> 16 * length xs \<le> total xs" for xs by (induction xs) auto
  have d: "8 dvd heap_end h - heap_start h" using heap_bounds(5,6) [of h] by (rule dvd_diff_nat [rotated])
  have s: "sizes_ok xs \<and> heap_end h = heap_start h + total xs"
  proof (cases "pxEnd h = 0")
    case True
    then show ?thesis using t d heap_bounds(2,4) [of h] by (simp add: heap_tiles_def)
  next
    case False
    then have "heap_rep h xs" using t by (simp add: heap_tiles_def)
    then show ?thesis unfolding heap_rep_def by blast
  qed
  then show ?thesis using len [of xs] heap_bounds(1,3) [of h] by (simp add: heap_fuel_def)
qed

lemma rounded_le: "0 < n \<Longrightarrow> n \<le> rounded n - 8"
  using round_down(2) [of "n + 15"] by (simp add: rounded_def)

lemma malloc_fits:
  assumes t: "heap_tiles h xs" and f: "fits live (blocks (heap_start h) xs)"
    and m: "pvPortMalloc heap_fuel h n = Inr (Some (h', p))"
  shows "\<exists>ys. heap_tiles h' ys \<and> fits (if p = 0 then live else live(p \<mapsto> unat n)) (blocks (heap_start h') ys) \<and>
    (p \<noteq> 0 \<longrightarrow> live p = None)"
proof -
  have so: "length xs < heap_fuel" "sizes_ok xs" using tiles_few [OF t] by blast+
  obtain h1 where h1: "pvPortMalloc heap_fuel h n =
      Inr (Some (h1, case malloc_tiles (unat n) xs of None \<Rightarrow> 0 | Some (ys, off) \<Rightarrow> heap_start h + off + 8))"
    "heap_rep h1 (case malloc_tiles (unat n) xs of None \<Rightarrow> xs | Some (ys, off) \<Rightarrow> ys)" "heap_start h1 = heap_start h"
    using malloc_ok [OF t so(1)] by blast
  show ?thesis
  proof (cases "malloc_tiles (unat n) xs")
    case None
    then have "h' = h1" "p = 0" "heap_rep h1 xs" using m h1 by simp_all
    then show ?thesis using f h1(3) rep_tiles by auto
  next
    case (Some yo)
    then obtain pre s post where n: "unat n \<noteq> 0" and fit: "fitting (rounded (unat n)) xs = Some (pre, s, post)"
      and yo: "yo = (pre @ taken (rounded (unat n)) s @ post, total pre)"
      by (auto simp: malloc_tiles_def split: if_splits)
    let ?w = "rounded (unat n)" and ?p = "heap_start h + total pre + 8"
    have xs: "xs = pre @ (s, False) # post" "?w \<le> s" using fittingD [OF fit] by blast+
    have p: "h' = h1" "p = ?p" "heap_rep h1 (pre @ taken ?w s @ post)" using m h1 Some yo by simp_all
    note bt = blocks_taken [OF so(2) [unfolded xs(1)] rounded_ok(2) xs(2), of "heap_start h"]
    obtain u where u: "?w - 8 \<le> u" "blocks (heap_start h) (pre @ taken ?w s @ post) = (blocks (heap_start h) xs)(?p \<mapsto> u)"
      using bt(1) n xs(1) by auto
    have new: "blocks (heap_start h) xs ?p = None" using bt(2) n xs(1) by simp
    have "unat n \<le> u" using rounded_le [of "unat n"] n u(1) by linarith
    then have "fits (live(?p \<mapsto> unat n)) ((blocks (heap_start h) xs)(?p \<mapsto> u))"
      using f by (auto simp: fits_def)
    moreover have "live ?p = None" using f new by (auto simp: fits_def)
    ultimately show ?thesis using p u(2) h1(3) rep_tiles [OF p(3)] by auto
  qed
qed

lemma free_fits:
  assumes t: "heap_tiles h xs" and f: "fits live (blocks (heap_start h) xs)" and p: "p \<in> dom live"
  shows "\<exists>h' ys. vPortFree heap_fuel h p = Inr (Some h') \<and> heap_tiles h' ys \<and>
    fits (live(p := None)) (blocks (heap_start h') ys)"
proof -
  have so: "length xs < heap_fuel" "sizes_ok xs" using tiles_few [OF t] by blast+
  obtain u where u: "blocks (heap_start h) xs p = Some u" using f p by (auto simp: fits_def)
  obtain pre s post where x: "xs = pre @ (s, True) # post" "p = heap_start h + total pre + 8"
    using blocks_split [OF u so(2)] by blast
  have "pxEnd h \<noteq> 0"
  proof
    assume "pxEnd h = 0"
    then have "xs = [(heap_end h - heap_start h, False)]" using t by (simp add: heap_tiles_def)
    then show False using u by simp
  qed
  then have r: "heap_rep h (pre @ (s, True) # post)" using t x(1) by (simp add: heap_tiles_def)
  have "length pre < heap_fuel" using so(1) x(1) by simp
  then obtain h' where h': "vPortFree heap_fuel h p = Inr (Some h')" "heap_rep h' (free_tiles pre s post)" "heap_start h' = heap_start h"
    using free_rep [OF r] x(2) by blast
  have "fits (live(p := None)) (blocks (heap_start h') (free_tiles pre s post))"
    using f unfolding h'(3) blocks_free [OF so(2) [unfolded x(1)]] x(2) [symmetric] by (auto simp: fits_def x(1))
  then show ?thesis using h'(1) rep_tiles [OF h'(2)] by blast
qed

lemma heap_run_inv: "heap_run h live \<Longrightarrow> \<exists>xs. heap_tiles h xs \<and> fits live (blocks (heap_start h) xs)"
proof (induction rule: heap_run.induct)
  case (heap_new h)
  then show ?case by (simp add: heap_tiles_def fits_def)
next
  case (heap_malloc h live n h' p)
  then show ?case using malloc_fits by blast
next
  case (heap_free h live p h')
  then obtain xs where "heap_tiles h xs" "fits live (blocks (heap_start h) xs)" by blast
  from free_fits [OF this heap_free.hyps(2)] heap_free.hyps(3) show ?case by (auto simp del: fun_upd_apply)
qed

text \<open>C25: after any history of allocations and frees, the blocks that are out lie in the heap array,
  are aligned to eight bytes, are at least as large as asked for, and are apart: between the end of one
  and the start of the next there is room for a header.\<close>

theorem heap_blocks_disjoint:
  assumes "heap_run h live" and "live p = Some n"
  shows "ucHeap h \<le> p \<and> p + n \<le> ucHeap h + configTOTAL_HEAP_SIZE \<and> 8 dvd p \<and>
    (\<forall>q \<in> dom live. p < q \<longrightarrow> p + n + xHeapStructSize \<le> q)"
proof -
  obtain xs where t: "heap_tiles h xs" and f: "fits live (blocks (heap_start h) xs)" using heap_run_inv [OF assms(1)] by blast
  have so: "sizes_ok xs" "heap_end h = heap_start h + total xs" using tiles_few [OF t] by blast+
  obtain u where u: "blocks (heap_start h) xs p = Some u" "n \<le> u" using f assms(2) by (fastforce simp: fits_def)
  note b = blocks_bounds [OF so(1) u(1)]
  have "p + n + 8 \<le> q" if q: "q \<in> dom live" "p < q" for q
  proof -
    have "q \<in> dom (blocks (heap_start h) xs)" using f q(1) by (simp add: fits_def)
    then obtain v where "blocks (heap_start h) xs q = Some v" by blast
    from blocks_apart [OF so(1) u(1) this q(2)] u(2) show ?thesis by simp
  qed
  then show ?thesis using b u(2) so(2) heap_bounds(1,3,5) [of h] by (simp add: configTOTAL_HEAP_SIZE_def xHeapStructSize_def)
qed

lemma fresh_run:
  "\<exists>h. heap_run h [536870928 \<mapsto> 100] \<and> ucHeap h \<le> 536870928"
proof -
  have "placed fresh_heap" "pxEnd fresh_heap = 0" by (simp_all add: fresh_heap_def placed_def)
  then have r: "heap_run fresh_heap Map.empty" by (rule heap_new)
  obtain h where h: "pvPortMalloc heap_fuel fresh_heap 100 = Inr (Some (h, 536870928))" "heap_start h = 536870920"
    using malloc_ok [OF fresh_tiles, of heap_fuel 100] by (auto simp: fresh_100 heap_fuel_def heap_start_def fresh_heap_def)
  show ?thesis using heap_malloc [OF r h(1)] h(2) heap_bounds(1) [of h] by auto
qed

theorem heap_blocks_disjoint_witness:
  "\<exists>h. heap_run h [536870928 \<mapsto> 100] \<and> 536870928 + 100 \<le> ucHeap h + configTOTAL_HEAP_SIZE"
  using fresh_run heap_blocks_disjoint [of _ "[536870928 \<mapsto> 100]" 536870928 100] by auto

text \<open>C24: the allocator never fails and never leaks: after any history every request returns (an
  address that is not out, or 0) and every block that is out can be freed; and when no block is out the
  free bytes have run together again, so that every request that fits the whole heap is served.\<close>

theorem heap_no_leak:
  assumes "heap_run h live"
  shows "(\<forall>n. \<exists>h' p. pvPortMalloc heap_fuel h n = Inr (Some (h', p)) \<and> (p \<noteq> 0 \<longrightarrow> live p = None)) \<and>
    (\<forall>p \<in> dom live. \<exists>h'. vPortFree heap_fuel h p = Inr (Some h')) \<and>
    (live = Map.empty \<longrightarrow> (\<forall>n. 0 < n \<longrightarrow> unat n \<le> heap_end h - heap_start h - 8 \<longrightarrow>
       (\<exists>h'. pvPortMalloc heap_fuel h n = Inr (Some (h', heap_start h + 8)))))"
proof -
  obtain xs where t: "heap_tiles h xs" and f: "fits live (blocks (heap_start h) xs)" using heap_run_inv [OF assms] by blast
  have so: "length xs < heap_fuel" "sizes_ok xs" "heap_end h = heap_start h + total xs" using tiles_few [OF t] by blast+
  have "\<exists>h' p. pvPortMalloc heap_fuel h n = Inr (Some (h', p)) \<and> (p \<noteq> 0 \<longrightarrow> live p = None)" for n
    using malloc_ok [OF t so(1), of n] malloc_fits [OF t f, of n] by blast
  moreover have "\<exists>h'. vPortFree heap_fuel h p = Inr (Some h')" if "p \<in> dom live" for p
    using free_fits [OF t f that] by blast
  moreover have "\<exists>h'. pvPortMalloc heap_fuel h n = Inr (Some (h', heap_start h + 8))"
    if e: "live = Map.empty" and n: "0 < n" "unat n \<le> heap_end h - heap_start h - 8" for n
  proof -
    have "dom (blocks (heap_start h) xs) = {}" using f e by (simp add: fits_def)
    then have free: "\<forall>x \<in> set xs. \<not> snd x"
    proof -
      have "dom (blocks a ys) = {} \<Longrightarrow> \<forall>x \<in> set ys. \<not> snd x" for a ys
        by (induction a ys rule: blocks.induct) (auto split: if_splits)
      then show ?thesis using \<open>dom (blocks (heap_start h) xs) = {}\<close> by blast
    qed
    have co: "coalesced xs"
    proof (cases "pxEnd h = 0")
      case False
      then have "heap_rep h xs" using t by (simp add: heap_tiles_def)
      then show ?thesis unfolding heap_rep_def by blast
    qed (use t in \<open>simp add: heap_tiles_def\<close>)
    have "total xs \<noteq> 0" using so(3) heap_bounds(2,4) [of h] by linarith
    then obtain s where xs: "xs = [(s, False)]" using free co by (cases xs rule: coalesced.cases) auto
    have s: "s = heap_end h - heap_start h" "8 dvd s" using so(2,3) xs by simp_all
    obtain k where k: "s = 8 * k" using s(2) by (rule dvdE)
    have "unat n + 15 \<le> 8 * k + 7" using n(2) k s(1) so(2) xs by simp
    then have "(unat n + 15) div 8 \<le> (8 * k + 7) div 8" by (rule div_le_mono)
    then have "rounded (unat n) \<le> s" using k by (simp add: rounded_def)
    moreover have "unat n \<noteq> 0" using n(1) by (simp add: unat_gt_0)
    ultimately have "malloc_tiles (unat n) xs = Some (taken (rounded (unat n)) s, 0)"
      by (simp add: malloc_tiles_def xs)
    then show ?thesis using malloc_ok [OF t so(1), of n] by auto
  qed
  ultimately show ?thesis by blast
qed

theorem heap_no_leak_witness:
  "\<exists>h h'. heap_run h [536870928 \<mapsto> 100] \<and> vPortFree heap_fuel h 536870928 = Inr (Some h')"
  using fresh_run heap_no_leak [of _ "[536870928 \<mapsto> 100]"] by auto

end
