(* ===== verification/DHCP_Server.thy ===== *)
theory DHCP_Server
  imports Prelude
begin

text \<open>
  The DHCP server of the USB network (\<open>dhserver.c\<close>): the table of leases, the scan of the options
  of a packet, the options of an answer and the handling of a datagram. A packet is the bytes of
  \<open>DHCP_TYPE\<close> with its padding, since a datagram overwrites only as much of the global as it is long.
  Addresses are the words of \<open>ip4_addr_t\<close>, whose bytes lie in memory in network order. What lwIP
  answers (the buffer for the reply, a control block, the result of binding) is an argument.
\<close>

subsection \<open>Bytes of addresses and numbers\<close>

definition ip_bytes :: "u32 \<Rightarrow> u8 list" where
  "ip_bytes w = [ucast w, ucast (drop_bit 8 w), ucast (drop_bit 16 w), ucast (drop_bit 24 w)]"

definition be32_bytes :: "u32 \<Rightarrow> u8 list" where
  "be32_bytes w = rev (ip_bytes w)"

definition ip_of :: "u8 list \<Rightarrow> u32" where
  "ip_of bs = ucast (bs ! 0) OR push_bit 8 (ucast (bs ! 1)) OR push_bit 16 (ucast (bs ! 2))
     OR push_bit 24 (ucast (bs ! 3))"

definition get_ip :: "u8 list \<Rightarrow> nat \<Rightarrow> u32 res" where
  "get_ip mem p = (if p + 4 \<le> length mem then Inr (ip_of (window p 4 mem)) else Inl Out_Of_Bounds)"

definition set_ip :: "u8 list \<Rightarrow> nat \<Rightarrow> u32 \<Rightarrow> u8 list res" where
  "set_ip mem p value = (if p + 4 \<le> length mem then Inr (blit p (ip_bytes value) mem) else Inl Out_Of_Bounds)"

subsection \<open>State\<close>

record dhcp_entry =
  e_mac :: "u8 list"
  e_addr :: u32
  e_lease :: u32

text \<open>The domain is the string without its terminator; the entries are kept in the server's state.\<close>

record dhcp_config =
  c_router :: u32
  c_port :: u16
  c_dns :: u32
  c_domain :: "u8 list option"
  num_entry :: int

definition DP_OP :: nat where "DP_OP = 0"
definition DP_SECS :: nat where "DP_SECS = 8"
definition DP_FLAGS :: nat where "DP_FLAGS = 10"
definition DP_CIADDR :: nat where "DP_CIADDR = 12"
definition DP_YIADDR :: nat where "DP_YIADDR = 16"
definition DP_GIADDR :: nat where "DP_GIADDR = 24"
definition DP_CHADDR :: nat where "DP_CHADDR = 28"
definition DP_MAGIC :: nat where "DP_MAGIC = 236"
definition DP_OPTIONS :: nat where "DP_OPTIONS = 240"
definition DP_OPTIONS_SIZE :: nat where "DP_OPTIONS_SIZE = 275"
definition DHCP_SIZE :: nat where "DHCP_SIZE = 516"

lemmas dp_offsets = DP_OP_def DP_SECS_def DP_FLAGS_def DP_CIADDR_def DP_YIADDR_def DP_GIADDR_def
  DP_CHADDR_def DP_MAGIC_def DP_OPTIONS_def DP_OPTIONS_SIZE_def DHCP_SIZE_def

definition DHCP_DISCOVER :: u8 where "DHCP_DISCOVER = 1"
definition DHCP_OFFER :: u8 where "DHCP_OFFER = 2"
definition DHCP_REQUEST :: u8 where "DHCP_REQUEST = 3"
definition DHCP_ACK :: u8 where "DHCP_ACK = 5"
definition DHCP_SUBNETMASK :: u8 where "DHCP_SUBNETMASK = 1"
definition DHCP_ROUTER :: u8 where "DHCP_ROUTER = 3"
definition DHCP_DNSSERVER :: u8 where "DHCP_DNSSERVER = 6"
definition DHCP_DNSDOMAIN :: u8 where "DHCP_DNSDOMAIN = 15"
definition DHCP_IPADDRESS :: u8 where "DHCP_IPADDRESS = 50"
definition DHCP_LEASETIME :: u8 where "DHCP_LEASETIME = 51"
definition DHCP_MESSAGETYPE :: u8 where "DHCP_MESSAGETYPE = 53"
definition DHCP_SERVERID :: u8 where "DHCP_SERVERID = 54"
definition DHCP_END :: u8 where "DHCP_END = 255"

lemmas dhcp_codes = DHCP_DISCOVER_def DHCP_OFFER_def DHCP_REQUEST_def DHCP_ACK_def DHCP_SUBNETMASK_def
  DHCP_ROUTER_def DHCP_DNSSERVER_def DHCP_DNSDOMAIN_def DHCP_IPADDRESS_def DHCP_LEASETIME_def
  DHCP_MESSAGETYPE_def DHCP_SERVERID_def DHCP_END_def

definition magic_cookie :: "u8 list" where
  "magic_cookie = [0x63, 0x82, 0x53, 0x63]"

text \<open>\<open>udp_pcbs\<close> are the control blocks that are allocated in lwIP.\<close>

record dhserver =
  dhcp_data :: "u8 list"
  pcb :: "nat option"
  dh_config :: "dhcp_config option"
  dh_entries :: "dhcp_entry list"
  udp_pcbs :: "nat list"

subsection \<open>The table of leases\<close>

fun entry_loop :: "(dhcp_entry \<Rightarrow> bool) \<Rightarrow> dhcp_entry list \<Rightarrow> nat \<Rightarrow> nat \<Rightarrow> nat option res" where
  "entry_loop P es 0 i = Inr None"
| "entry_loop P es (Suc k) i =
     bindR (rd es i) (\<lambda>e. if P e then Inr (Some i) else entry_loop P es k (i + 1))"

definition entry_by_ip :: "dhcp_config \<Rightarrow> dhcp_entry list \<Rightarrow> u32 \<Rightarrow> nat option res" where
  "entry_by_ip c es ip = entry_loop (\<lambda>e. e_addr e = ip) es (nat (num_entry c)) 0"

definition entry_by_mac :: "dhcp_config \<Rightarrow> dhcp_entry list \<Rightarrow> u8 list \<Rightarrow> nat option res" where
  "entry_by_mac c es mac = entry_loop (\<lambda>e. take 6 (e_mac e) = take 6 mac) es (nat (num_entry c)) 0"

definition is_vacant :: "dhcp_entry \<Rightarrow> bool" where
  "is_vacant e \<longleftrightarrow> take 6 (e_mac e) = replicate 6 0"

definition vacant_address :: "dhcp_config \<Rightarrow> dhcp_entry list \<Rightarrow> nat option res" where
  "vacant_address c es = entry_loop is_vacant es (nat (num_entry c)) 0"

definition free_entry :: "dhcp_entry list \<Rightarrow> nat \<Rightarrow> dhcp_entry list" where
  "free_entry es i = es[i := (es ! i)\<lparr>e_mac := replicate 6 0\<rparr>]"

subsection \<open>Options\<close>

lemma bindR_cong [fundef_cong]:
  "m = m' \<Longrightarrow> (\<And>x. m' = Inr x \<Longrightarrow> f x = g x) \<Longrightarrow> bindR m f = bindR m' g"
  by (cases m') auto

function find_option_loop :: "u8 list \<Rightarrow> nat \<Rightarrow> u8 \<Rightarrow> nat \<Rightarrow> nat option res" where
  "find_option_loop attrs sz attr i =
     (if i + 1 < sz then
        bindR (rd attrs (i + 1)) (\<lambda>l.
          let next = i + unat l + 2 in
          if next > sz then Inr None
          else bindR (rd attrs i) (\<lambda>a.
            if a = attr then Inr (Some i) else find_option_loop attrs sz attr next))
      else Inr None)"
  by pat_completeness auto

termination
  by (relation "measure (\<lambda>(attrs, sz, attr, i). sz - i)") (auto simp: res_simps)

declare find_option_loop.simps [simp del]

definition find_dhcp_option :: "u8 list \<Rightarrow> nat \<Rightarrow> u8 \<Rightarrow> nat option res" where
  "find_dhcp_option attrs sz attr = find_option_loop attrs sz attr 0"

definition option_bytes :: "u8 \<Rightarrow> u8 list \<Rightarrow> u8 list" where
  "option_bytes code v = code # word_of_nat (length v) # v"

text \<open>The bytes that \<open>fill_options\<close> writes one after the other.\<close>

definition fill_options ::
  "u8 \<Rightarrow> u8 list option \<Rightarrow> u32 \<Rightarrow> u32 \<Rightarrow> u32 \<Rightarrow> u32 \<Rightarrow> u32 \<Rightarrow> u8 list" where
  "fill_options msg_type domain dns lease_time serverid router subnet =
     option_bytes DHCP_MESSAGETYPE [msg_type]
     @ option_bytes DHCP_SERVERID (ip_bytes serverid)
     @ option_bytes DHCP_LEASETIME (be32_bytes lease_time)
     @ option_bytes DHCP_SUBNETMASK (ip_bytes subnet)
     @ (if router \<noteq> 0 then option_bytes DHCP_ROUTER (ip_bytes router) else [])
     @ (case domain of Some s \<Rightarrow> option_bytes DHCP_DNSDOMAIN s | None \<Rightarrow> [])
     @ (if dns \<noteq> 0 then option_bytes DHCP_DNSSERVER (ip_bytes dns) else [])
     @ [DHCP_END]"

subsection \<open>Answering a datagram\<close>

definition dp_options :: "u8 list \<Rightarrow> u8 list" where
  "dp_options d = window DP_OPTIONS DP_OPTIONS_SIZE d"

definition dp_chaddr :: "u8 list \<Rightarrow> u8 list" where
  "dp_chaddr d = window DP_CHADDR 16 d"

text \<open>The interface is its address and its netmask. The test of \<open>yiaddr\<close> changes nothing.\<close>

definition get_dhcp_destination :: "u32 \<times> u32 \<Rightarrow> u8 list \<Rightarrow> u32 \<Rightarrow> bool \<Rightarrow> u32 res" where
  "get_dhcp_destination netif dhcp yiaddr is_nak =
     bindR (get_ip dhcp DP_GIADDR) (\<lambda>giaddr.
     bindR (get_ip dhcp DP_CIADDR) (\<lambda>ciaddr.
     let dest_broadcast = fst netif OR NOT (snd netif) in
     Inr (if giaddr \<noteq> 0 then giaddr
          else if is_nak then dest_broadcast
          else if ciaddr \<noteq> 0 then ciaddr
          else dest_broadcast)))"

text \<open>The fields of an answer, common to the two kinds.\<close>

definition dhcp_answer ::
  "dhcp_config \<Rightarrow> u32 \<times> u32 \<Rightarrow> u8 \<Rightarrow> u8 list \<Rightarrow> u32 \<Rightarrow> u8 list \<Rightarrow> u8 list res" where
  "dhcp_answer c netif msg_type yiaddr lease d =
     (let d1 = blit DP_YIADDR yiaddr (blit DP_FLAGS [0, 0] (blit DP_SECS [0, 0] (blit DP_OP [2] d)));
          d2 = blit DP_OPTIONS (replicate DP_OPTIONS_SIZE 0) (blit DP_MAGIC magic_cookie d1);
          opts = fill_options msg_type (c_domain c) (c_dns c) lease (fst netif) (c_router c) (snd netif) in
      if length opts \<le> DP_OPTIONS_SIZE then Inr (blit DP_OPTIONS opts d2) else Inl Out_Of_Bounds)"

text \<open>What is sent: destination, port and the bytes.\<close>

type_synonym datagram = "u32 \<times> u16 \<times> u8 list"

definition dhcp_discover ::
  "dhcp_config \<Rightarrow> u32 \<times> u32 \<Rightarrow> bool \<Rightarrow> dhserver \<Rightarrow> u16 \<Rightarrow> (dhserver \<times> datagram option) res" where
  "dhcp_discover c netif alloc s port =
     (let d = dhcp_data s; es = dh_entries s in
      bindR (entry_by_mac c es (dp_chaddr d)) (\<lambda>m.
      bindR (case m of None \<Rightarrow> vacant_address c es | Some i \<Rightarrow> Inr (Some i)) (\<lambda>v.
      case v of
        None \<Rightarrow> Inr (s, None)
      | Some i \<Rightarrow>
          bindR (rd es i) (\<lambda>e.
          bindR (dhcp_answer c netif DHCP_OFFER (ip_bytes (e_addr e)) (e_lease e) d) (\<lambda>d'.
          let s' = s\<lparr>dhcp_data := d'\<rparr> in
          if \<not> alloc then Inr (s', None)
          else bindR (get_dhcp_destination netif d' (e_addr e) False) (\<lambda>dest.
               Inr (s', Some (dest, port, d')))))))) "

definition dhcp_request ::
  "dhcp_config \<Rightarrow> u32 \<times> u32 \<Rightarrow> bool \<Rightarrow> dhserver \<Rightarrow> u16 \<Rightarrow> (dhserver \<times> datagram option) res" where
  "dhcp_request c netif alloc s port =
     (let d = dhcp_data s; opts = dp_options d in
      bindR (find_dhcp_option opts DP_OPTIONS_SIZE DHCP_IPADDRESS) (\<lambda>r.
      case r of
        None \<Rightarrow> Inr (s, None)
      | Some p \<Rightarrow>
          bindR (rd opts (p + 1)) (\<lambda>len.
          if len \<noteq> 4 then Inr (s, None)
          else
            bindR (entry_by_mac c (dh_entries s) (dp_chaddr d)) (\<lambda>m.
            let es = (case m of None \<Rightarrow> dh_entries s | Some i \<Rightarrow> free_entry (dh_entries s) i);
                s1 = s\<lparr>dh_entries := es\<rparr> in
            bindR (get_ip opts (p + 2)) (\<lambda>ip.
            bindR (entry_by_ip c es ip) (\<lambda>v.
            case v of
              None \<Rightarrow> Inr (s1, None)
            | Some i \<Rightarrow>
                bindR (rd es i) (\<lambda>e.
                if \<not> is_vacant e then Inr (s1, None)
                else
                  bindR (dhcp_answer c netif DHCP_ACK (window (p + 2) 4 opts) (e_lease e) d) (\<lambda>d'.
                  let s2 = s1\<lparr>dhcp_data := d'\<rparr> in
                  if \<not> alloc then Inr (s2, None)
                  else
                    let s3 = s2\<lparr>dh_entries := es[i := e\<lparr>e_mac := take 6 (dp_chaddr d')\<rparr>]\<rparr> in
                    bindR (get_dhcp_destination netif d' (e_addr e) False) (\<lambda>dest.
                    Inr (s3, Some (dest, port, d'))))))))))) "

text \<open>\<open>payload\<close> is the first buffer of the datagram; it overwrites the start of the global packet.\<close>

definition udp_recv_proc ::
  "u32 \<times> u32 \<Rightarrow> bool \<Rightarrow> dhserver \<Rightarrow> u8 list \<Rightarrow> u16 \<Rightarrow> (dhserver \<times> datagram option) res" where
  "udp_recv_proc netif alloc s payload port =
     (let s1 = s\<lparr>dhcp_data := blit 0 (take DHCP_SIZE payload) (dhcp_data s)\<rparr>;
          opts = dp_options (dhcp_data s1) in
      bindR (find_dhcp_option opts DP_OPTIONS_SIZE DHCP_MESSAGETYPE) (\<lambda>r.
      case r of
        None \<Rightarrow> Inr (s1, None)
      | Some p \<Rightarrow>
          bindR (rd opts (p + 2)) (\<lambda>msg.
          case dh_config s1 of
            None \<Rightarrow> if msg = DHCP_DISCOVER \<or> msg = DHCP_REQUEST then Inl Null_Pointer else Inr (s1, None)
          | Some c \<Rightarrow>
              if msg = DHCP_DISCOVER then dhcp_discover c netif alloc s1 port
              else if msg = DHCP_REQUEST then dhcp_request c netif alloc s1 port
              else Inr (s1, None))))"

subsection \<open>Starting and stopping\<close>

datatype err_t = ERR_OK | ERR_MEM | ERR_USE | ERR_OTHER

definition dhserv_free :: "dhserver \<Rightarrow> dhserver" where
  "dhserv_free s =
     (case pcb s of
        None \<Rightarrow> s
      | Some p \<Rightarrow> s\<lparr>udp_pcbs := remove1 p (udp_pcbs s), pcb := None\<rparr>)"

text \<open>\<open>new_pcb\<close> is the control block \<open>udp_new\<close> hands out, \<open>bound\<close> the answer of \<open>udp_bind\<close>.\<close>

definition dhserv_init :: "nat option \<Rightarrow> err_t \<Rightarrow> dhserver \<Rightarrow> dhcp_config \<Rightarrow> dhserver \<times> err_t" where
  "dhserv_init new_pcb bound s c =
     (let s1 = dhserv_free s in
      case new_pcb of
        None \<Rightarrow> (s1\<lparr>pcb := None\<rparr>, ERR_MEM)
      | Some p \<Rightarrow>
          let s2 = s1\<lparr>pcb := Some p, udp_pcbs := p # udp_pcbs s1\<rparr> in
          if bound \<noteq> ERR_OK then (dhserv_free s2, bound)
          else (s2\<lparr>dh_config := Some c\<rparr>, ERR_OK))"

subsection \<open>The configuration of the firmware\<close>

text \<open>
  The constants of \<open>usb_netif.c\<close> and \<open>app_config.h\<close>. The netmask is written with the bytes of the
  gateway.
\<close>

definition usb_ipaddr :: u32 where "usb_ipaddr = ip_of [192, 168, 4, 1]"
definition usb_netmask :: u32 where "usb_netmask = ip_of [192, 168, 4, 1]"
definition usb_gateway :: u32 where "usb_gateway = ip_of [192, 168, 4, 1]"

definition usb_entries :: "dhcp_entry list" where
  "usb_entries = map (\<lambda>k. \<lparr>e_mac = replicate 6 0, e_addr = ip_of [192, 168, 4, 1 + k], e_lease = 24 * 60 * 60\<rparr>) [1, 2, 3]"

definition usb_dhcp_config :: dhcp_config where
  "usb_dhcp_config =
     \<lparr>c_router = ip_of [192, 168, 4, 1], c_port = 67, c_dns = ip_of [192, 168, 4, 1],
      c_domain = Some [0x75, 0x73, 0x62], num_entry = 3\<rparr>"

definition dhserver_reset :: dhserver where
  "dhserver_reset =
     \<lparr>dhcp_data = replicate DHCP_SIZE 0, pcb = None, dh_config = None, dh_entries = usb_entries, udp_pcbs = []\<rparr>"

section \<open>The table and the options\<close>

lemma entry_loop_find:
  "i + k \<le> length es \<Longrightarrow> entry_loop P es k i = Inr (List.find (\<lambda>j. P (es ! j)) [i..<i + k])"
proof (induction k arbitrary: i)
  case (Suc k)
  have "[i..<i + Suc k] = i # [Suc i..<Suc i + k]" by (simp add: upt_conv_Cons)
  moreover have "i < length es" "Suc i + k \<le> length es" using Suc.prems by simp_all
  ultimately show ?case using Suc.IH [of "Suc i"] by (simp del: upt_Suc)
qed simp

lemma find_upt: "List.find P [0..<n] = Some i \<Longrightarrow> i < n \<and> P i"
  by (auto simp: find_Some_iff)

lemma find_option_total:
  assumes "length attrs = sz"
  shows "\<exists>r. find_option_loop attrs sz attr i = Inr r \<and>
    (\<forall>p. r = Some p \<longrightarrow> p + 1 < sz \<and> p + unat (attrs ! (p + 1)) + 2 \<le> sz \<and> attrs ! p = attr)"
  using assms
proof (induction attrs sz attr i rule: find_option_loop.induct)
  case (1 attrs sz attr i)
  show ?case
  proof (cases "i + 1 < sz")
    case True
    then have r: "rd attrs (i + 1) = Inr (attrs ! (i + 1))" "rd attrs i = Inr (attrs ! i)"
      using 1(2) by simp_all
    show ?thesis
    proof (cases "i + unat (attrs ! (i + 1)) + 2 > sz \<or> attrs ! i = attr")
      case True
      then show ?thesis using r \<open>i + 1 < sz\<close>
        by (subst find_option_loop.simps) (auto simp: Let_def)
    next
      case False
      from 1(1) [OF True r(1) refl _ r(2) _ 1(2)] False show ?thesis using r True
        by (subst find_option_loop.simps) (simp add: Let_def)
    qed
  next
    case False
    then show ?thesis by (subst find_option_loop.simps) simp
  qed
qed

lemma find_option_step:
  assumes "attrs = pre @ option_bytes code v @ post" and "length v < 256" and "length attrs = sz"
  shows "find_option_loop attrs sz attr (length pre) =
    (if code = attr then Inr (Some (length pre)) else find_option_loop attrs sz attr (length (pre @ option_bytes code v)))"
proof -
  have n: "attrs ! length pre = code" "attrs ! Suc (length pre) = word_of_nat (length v)"
    by (simp_all add: assms(1) option_bytes_def nth_append)
  have u: "unat (word_of_nat (length v) :: u8) = length v" using assms(2) by (simp add: unat_of_nat)
  have l: "Suc (length pre) < sz" "length pre + length v + 2 \<le> sz"
    using assms(3) by (auto simp: assms(1) option_bytes_def)
  show ?thesis using l assms(3)
    by (subst find_option_loop.simps) (simp add: n u Let_def option_bytes_def)
qed

text \<open>Scanning a list of options: the first with the code is found.\<close>

definition options_of :: "(u8 \<times> u8 list) list \<Rightarrow> u8 list" where
  "options_of os = concat (map (\<lambda>(c, v). option_bytes c v) os)"

lemma options_of_simps [simp]:
  "options_of [] = []" "options_of ((c, v) # os) = option_bytes c v @ options_of os"
  by (simp_all add: options_of_def)

lemma options_of_append [simp]: "options_of (os @ os') = options_of os @ options_of os'"
  by (simp add: options_of_def)

lemma find_option_finds:
  assumes "attrs = options_of (os1 @ (attr, v) # os2) @ post" and "attr \<notin> fst ` set os1"
    and "\<forall>o' \<in> set (os1 @ [(attr, v)]). length (snd o') < 256"
  shows "find_dhcp_option attrs (length attrs) attr = Inr (Some (length (options_of os1)))"
proof -
  have "find_option_loop attrs (length attrs) attr (length (options_of os0)) =
      Inr (Some (length (options_of (os0 @ os1))))"
    if "attrs = options_of (os0 @ os1 @ (attr, v) # os2) @ post" "attr \<notin> fst ` set os1"
      "\<forall>o' \<in> set (os1 @ [(attr, v)]). length (snd o') < 256" for os0
    using that
  proof (induction os1 arbitrary: os0)
    case Nil
    then show ?case
      using find_option_step [of attrs "options_of os0" attr v "options_of os2 @ post" "length attrs" attr] by simp
  next
    case (Cons x os1)
    obtain c w where x: "x = (c, w)" by (cases x)
    have at: "attrs = options_of os0 @ option_bytes c w @ options_of (os1 @ (attr, v) # os2) @ post"
      and c: "c \<noteq> attr" "length w < 256" using Cons.prems by (auto simp: x)
    have "find_option_loop attrs (length attrs) attr (length (options_of os0)) =
        find_option_loop attrs (length attrs) attr (length (options_of (os0 @ [x])))"
      using find_option_step [OF at c(2) refl, of attr] c(1) by (simp only: x if_False options_of_append
          options_of_simps append_Nil2)
    also have "\<dots> = Inr (Some (length (options_of ((os0 @ [x]) @ os1))))"
      by (rule Cons.IH) (use Cons.prems in auto)
    finally show ?case by simp
  qed
  from this [of "[]"] assms show ?thesis by (simp add: find_dhcp_option_def)
qed

subsection \<open>Addresses and their bytes\<close>

lemma length_ip_bytes [simp]: "length (ip_bytes w) = 4" "length (be32_bytes w) = 4"
  by (simp_all add: ip_bytes_def be32_bytes_def)

lemma ip_of_bytes [simp]: "ip_of (ip_bytes w) = w"
proof (rule bit_word_eqI)
  fix n
  show "bit (ip_of (ip_bytes w)) n \<longleftrightarrow> bit w n" if "n < LENGTH(32)"
    using that by (cases "n < 8"; cases "n < 16"; cases "n < 24") (auto simp: ip_of_def ip_bytes_def bit_simps)
qed

lemma ip_bytes_of:
  assumes "length bs = 4"
  shows "ip_bytes (ip_of bs) = bs"
proof -
  obtain a b c d where bs: "bs = [a, b, c, d]"
    using assms by (auto simp: length_Suc_conv numeral_eq_Suc)
  have "ucast (ip_of bs) = a" "ucast (drop_bit 8 (ip_of bs)) = b"
    "ucast (drop_bit 16 (ip_of bs)) = c" "ucast (drop_bit 24 (ip_of bs)) = d"
    by (rule bit_word_eqI; auto simp: ip_of_def bs bit_simps dest: bit_imp_le_length)+
  then show ?thesis by (simp add: ip_bytes_def bs)
qed

subsection \<open>The fields of an answer\<close>

lemma window_blit_other:
  assumes "o1 + n \<le> o2 \<or> o2 + length ys \<le> o1" and "o2 + length ys \<le> length xs" and "o1 + n \<le> length xs"
  shows "window o1 n (blit o2 ys xs) = window o1 n xs"
proof (rule nth_equalityI)
  fix i
  assume "i < length (window o1 n (blit o2 ys xs))"
  then have "i < n" "o1 + i < length xs" using assms(2,3) by simp_all
  moreover have "blit o2 ys xs ! (o1 + i) = xs ! (o1 + i)"
    using assms(1,2) \<open>i < n\<close> nth_blit_before [of "o1 + i" o2 xs ys] nth_blit_after [of o2 ys "o1 + i" xs] by auto
  ultimately show "window o1 n (blit o2 ys xs) ! i = window o1 n xs ! i"
    using assms(2) by (simp add: nth_window)
qed (use assms in simp)

lemma window_add: "window o1 (m + n) xs = window o1 m xs @ window (o1 + m) n xs"
  by (simp add: window_def take_add add.commute)

definition reply_options :: "dhcp_config \<Rightarrow> u32 \<times> u32 \<Rightarrow> u8 \<Rightarrow> u32 \<Rightarrow> (u8 \<times> u8 list) list" where
  "reply_options c netif msg_type lease =
     [(DHCP_MESSAGETYPE, [msg_type]), (DHCP_SERVERID, ip_bytes (fst netif)),
      (DHCP_LEASETIME, be32_bytes lease), (DHCP_SUBNETMASK, ip_bytes (snd netif))]
     @ (if c_router c \<noteq> 0 then [(DHCP_ROUTER, ip_bytes (c_router c))] else [])
     @ (case c_domain c of Some s \<Rightarrow> [(DHCP_DNSDOMAIN, s)] | None \<Rightarrow> [])
     @ (if c_dns c \<noteq> 0 then [(DHCP_DNSSERVER, ip_bytes (c_dns c))] else [])"

text \<open>A domain that leaves the options room in their area.\<close>

definition domain_fits :: "dhcp_config \<Rightarrow> bool" where
  "domain_fits c \<longleftrightarrow> (case c_domain c of None \<Rightarrow> True | Some s \<Rightarrow> length s \<le> 239)"

lemma fill_options_eq:
  "fill_options t (c_domain c) (c_dns c) lease (fst netif) (c_router c) (snd netif) =
    options_of (reply_options c netif t lease) @ [DHCP_END]"
  by (simp add: fill_options_def reply_options_def split: option.splits)

lemma fill_options_length:
  "domain_fits c \<Longrightarrow> length (options_of (reply_options c netif t lease)) \<le> 274"
  by (auto simp: reply_options_def option_bytes_def domain_fits_def split: option.splits)

lemma reply_codes_distinct: "distinct (map fst (reply_options c netif t lease))"
  by (simp add: reply_options_def dhcp_codes split: option.splits)

lemma reply_values_short: "domain_fits c \<Longrightarrow> ov \<in> set (reply_options c netif t lease) \<Longrightarrow> length (snd ov) < 256"
  by (auto simp: reply_options_def domain_fits_def split: option.splits if_splits)

lemma answer_fields:
  assumes "length d = 516" and "length yi = 4" and "domain_fits c"
  shows "\<exists>d'. dhcp_answer c netif t yi lease d = Inr d' \<and> length d' = 516 \<and>
    (\<exists>k. dp_options d' = options_of (reply_options c netif t lease) @ DHCP_END # replicate k 0) \<and>
    d' ! 0 = 2 \<and> window 16 4 d' = yi \<and> dp_chaddr d' = dp_chaddr d \<and> window 24 4 d' = window 24 4 d \<and>
    window 12 4 d' = window 12 4 d \<and> window 236 4 d' = magic_cookie \<and> window 8 4 d' = [0, 0, 0, 0]"
proof -
  have m4: "length magic_cookie = 4" by (simp add: magic_cookie_def)
  define opts where "opts = options_of (reply_options c netif t lease) @ [DHCP_END]"
  define z where "z = replicate 275 (0 :: u8)"
  have lz: "length z = 275" by (simp add: z_def)
  have lo: "length opts \<le> 275" using fill_options_length [OF assms(3)] by (simp add: opts_def)
  define d1 where "d1 = blit 16 yi (blit 10 [0, 0] (blit 8 [0, 0] (blit 0 [2] d)))"
  define d2 where "d2 = blit 236 magic_cookie d1"
  have l1: "length d1 = 516" "length d2 = 516"
    using assms(1,2) by (simp_all add: d1_def d2_def magic_cookie_def)
  let ?d' = "blit 240 opts (blit 240 z d2)"
  have a: "dhcp_answer c netif t yi lease d = Inr ?d'"
    using lo by (simp add: dhcp_answer_def fill_options_eq dp_offsets d1_def d2_def opts_def z_def)
  have w: "window o' n ?d' = window o' n d2" if "o' + n \<le> 240" for o' n
    using that lo lz l1(2) by (simp add: window_blit_other)
  have w2: "window o' n ?d' = window o' n d1" if "o' + n \<le> 236" for o' n
    using w [of o' n] that l1(1) by (simp add: d2_def window_blit_other magic_cookie_def)
  have "window 240 275 ?d' = opts @ replicate (275 - length opts) 0"
    using lo lz l1(2) by (simp add: window_def blit_def z_def min_def)
  then have "dp_options ?d' = options_of (reply_options c netif t lease) @ DHCP_END # replicate (275 - length opts) 0"
    by (simp add: dp_options_def dp_offsets opts_def)
  moreover have "window 236 4 ?d' = magic_cookie"
    using w [of 236 4] window_blit [of 236 magic_cookie d1, unfolded m4] l1(1) by (simp add: d2_def)
  moreover have "window 16 4 ?d' = yi"
    using w2 [of 16 4] window_blit [of 16 yi] assms(1,2) by (simp add: d1_def)
  moreover have "window 28 16 ?d' = window 28 16 d" "window 24 4 ?d' = window 24 4 d" "window 12 4 ?d' = window 12 4 d"
    using w2 [of 28 16] w2 [of 24 4] w2 [of 12 4] assms(1,2) by (simp_all add: d1_def window_blit_other)
  moreover have "window 8 4 ?d' = [0, 0, 0, 0]"
  proof -
    let ?x = "blit 0 [2] d"
    have "window 8 2 (blit 10 [0, 0] (blit 8 [0, 0] ?x)) = [0, 0]" "window 10 2 (blit 10 [0, 0] (blit 8 [0, 0] ?x)) = [0, 0]"
      using assms(1) window_blit [of 8 "[0, 0]" ?x] window_blit [of 10 "[0, 0]" "blit 8 [0, 0] ?x"]
      by (simp_all add: window_blit_other numeral_2_eq_2)
    then show ?thesis
      using w2 [of 8 4] window_add [of 8 2 2 "blit 10 [0, 0] (blit 8 [0, 0] ?x)"] assms(1,2) by (simp add: d1_def window_blit_other)
  qed
  moreover have "window 0 1 ?d' = [2]"
    using w2 [of 0 1] assms(1,2) window_blit [of 0 "[2]" d] by (simp add: d1_def window_blit_other)
  moreover have "?d' ! 0 = window 0 1 ?d' ! 0" using l1 lo lz by (simp add: nth_window)
  ultimately show ?thesis using a l1 lo lz
    by (intro exI [of _ ?d']) (auto simp: dp_chaddr_def dp_offsets)
qed

lemma destination_total:
  "length d = 516 \<Longrightarrow> get_dhcp_destination netif d yi nak = Inr
     (if ip_of (window 24 4 d) \<noteq> 0 then ip_of (window 24 4 d)
      else if nak then fst netif OR NOT (snd netif)
      else if ip_of (window 12 4 d) \<noteq> 0 then ip_of (window 12 4 d)
      else fst netif OR NOT (snd netif))"
  by (simp add: get_dhcp_destination_def get_ip_def dp_offsets Let_def)

subsection \<open>The server in order\<close>

definition dh_ok :: "dhcp_config \<Rightarrow> dhserver \<Rightarrow> bool" where
  "dh_ok c s \<longleftrightarrow> length (dhcp_data s) = 516 \<and> dh_config s = Some c \<and> domain_fits c \<and>
     num_entry c = int (length (dh_entries s)) \<and> (\<forall>e \<in> set (dh_entries s). length (e_mac e) = 6)"

text \<open>No two entries in use have the same hardware address.\<close>

definition leases_ok :: "dhcp_entry list \<Rightarrow> bool" where
  "leases_ok es \<longleftrightarrow> (\<forall>i < length es. \<forall>j < length es.
     i \<noteq> j \<and> e_mac (es ! i) = e_mac (es ! j) \<longrightarrow> is_vacant (es ! i))"

text \<open>The packet as it lies in the global once a datagram is copied, its client, and its request.\<close>

definition received :: "dhserver \<Rightarrow> u8 list \<Rightarrow> u8 list" where
  "received s payload = blit 0 (take 516 payload) (dhcp_data s)"

definition client_of :: "u8 list \<Rightarrow> u8 list" where
  "client_of d = take 6 (dp_chaddr d)"

definition option_at :: "u8 list \<Rightarrow> u8 \<Rightarrow> nat \<Rightarrow> bool" where
  "option_at d code p \<longleftrightarrow> find_dhcp_option (dp_options d) 275 code = Inr (Some p)"

definition msg_type :: "u8 list \<Rightarrow> u8 \<Rightarrow> bool" where
  "msg_type d t \<longleftrightarrow> (\<exists>p. option_at d DHCP_MESSAGETYPE p \<and> p + 2 < 275 \<and> dp_options d ! (p + 2) = t)"

text \<open>The entry of a client: its own, or the first free one.\<close>

definition entry_of :: "dhcp_entry list \<Rightarrow> u8 list \<Rightarrow> nat option" where
  "entry_of es mac = List.find (\<lambda>i. e_mac (es ! i) = mac) [0..<length es]"

definition slot_for :: "dhcp_entry list \<Rightarrow> u8 list \<Rightarrow> nat option" where
  "slot_for es mac =
     (case entry_of es mac of None \<Rightarrow> List.find (\<lambda>i. is_vacant (es ! i)) [0..<length es] | Some i \<Rightarrow> Some i)"

lemma find_cong_set: "(\<And>x. x \<in> set xs \<Longrightarrow> P x = Q x) \<Longrightarrow> List.find P xs = List.find Q xs"
  by (induction xs) auto

lemma length_received: "length (dhcp_data s) = 516 \<Longrightarrow> length (received s payload) = 516"
  by (simp add: received_def)

lemma length_options [simp]: "length d = 516 \<Longrightarrow> length (dp_options d) = 275"
  by (simp add: dp_options_def dp_offsets)

lemma length_client [simp]: "length d = 516 \<Longrightarrow> length (client_of d) = 6"
  by (simp add: client_of_def dp_chaddr_def dp_offsets)

lemma by_mac_eq:
  assumes "dh_ok c s" and "length mac \<ge> 6"
  shows "entry_by_mac c (dh_entries s) mac = Inr (entry_of (dh_entries s) (take 6 mac))"
  using assms unfolding entry_by_mac_def entry_of_def
  by (subst entry_loop_find) (auto simp: dh_ok_def intro!: find_cong_set)

lemma vacant_eq:
  "dh_ok c s \<Longrightarrow> vacant_address c (dh_entries s) =
     Inr (List.find (\<lambda>i. is_vacant (dh_entries s ! i)) [0..<length (dh_entries s)])"
  unfolding vacant_address_def by (subst entry_loop_find) (auto simp: dh_ok_def)

lemma by_ip_eq:
  "num_entry c = int (length es) \<Longrightarrow> entry_by_ip c es ip = Inr (List.find (\<lambda>i. e_addr (es ! i) = ip) [0..<length es])"
  unfolding entry_by_ip_def by (subst entry_loop_find) auto

lemma option_total:
  assumes "length d = 516"
  shows "\<exists>r. find_dhcp_option (dp_options d) 275 code = Inr r \<and>
    (\<forall>p. r = Some p \<longrightarrow> p + 1 < 275 \<and> p + unat (dp_options d ! (p + 1)) + 2 \<le> 275)"
  using find_option_total [of "dp_options d" 275 code 0] assms by (auto simp: find_dhcp_option_def)

lemma vacant_iff: "length (e_mac e) = 6 \<Longrightarrow> is_vacant e \<longleftrightarrow> e_mac e = replicate 6 0"
  by (simp add: is_vacant_def)

subsection \<open>A request for an offer\<close>

lemma discover_result:
  assumes "dh_ok c s" and "slot_for (dh_entries s) (client_of (dhcp_data s)) = Some i"
  shows "\<exists>d'. dhcp_answer c netif DHCP_OFFER (ip_bytes (e_addr (dh_entries s ! i))) (e_lease (dh_entries s ! i))
      (dhcp_data s) = Inr d' \<and>
    dhcp_discover c netif alloc s port = Inr (s\<lparr>dhcp_data := d'\<rparr>,
      if alloc then Some (projr (get_dhcp_destination netif d' (e_addr (dh_entries s ! i)) False), port, d') else None)"
proof -
  let ?e = "dh_entries s ! i"
  have l: "length (dhcp_data s) = 516" "domain_fits c" using assms(1) by (simp_all add: dh_ok_def)
  have c6: "6 \<le> length (dp_chaddr (dhcp_data s))" using l by (simp add: dp_chaddr_def dp_offsets)
  have i: "i < length (dh_entries s)"
    using assms(2) by (auto simp: slot_for_def entry_of_def split: option.splits dest: find_upt)
  obtain d' where d': "dhcp_answer c netif DHCP_OFFER (ip_bytes (e_addr ?e)) (e_lease ?e) (dhcp_data s) = Inr d'"
    "length d' = 516" using answer_fields [OF l(1) _ l(2), of "ip_bytes (e_addr ?e)" netif DHCP_OFFER "e_lease ?e"]
    by auto
  then show ?thesis using assms(2) i destination_total [OF d'(2)]
    by (simp add: dhcp_discover_def by_mac_eq [OF assms(1) c6] vacant_eq [OF assms(1)] Let_def slot_for_def
        client_of_def split: option.splits)
qed

lemma discover_none:
  assumes "dh_ok c s" and "slot_for (dh_entries s) (client_of (dhcp_data s)) = None"
  shows "dhcp_discover c netif alloc s port = Inr (s, None)"
proof -
  have "6 \<le> length (dp_chaddr (dhcp_data s))" using assms(1) by (simp add: dp_chaddr_def dp_offsets dh_ok_def)
  then show ?thesis using assms
    by (simp add: dhcp_discover_def by_mac_eq vacant_eq Let_def slot_for_def client_of_def split: option.splits)
qed

subsection \<open>A request for an address\<close>

definition released :: "dhcp_entry list \<Rightarrow> u8 list \<Rightarrow> dhcp_entry list" where
  "released es mac = (case entry_of es mac of None \<Rightarrow> es | Some i \<Rightarrow> free_entry es i)"

definition entry_at :: "dhcp_entry list \<Rightarrow> u32 \<Rightarrow> nat option" where
  "entry_at es ip = List.find (\<lambda>i. e_addr (es ! i) = ip) [0..<length es]"

text \<open>The address a request names, if it names one.\<close>

definition wanted :: "u8 list \<Rightarrow> u32 option" where
  "wanted d = (case find_dhcp_option (dp_options d) 275 DHCP_IPADDRESS of
     Inr (Some p) \<Rightarrow> if dp_options d ! (p + 1) = 4 then Some (ip_of (window (p + 2) 4 (dp_options d))) else None
   | _ \<Rightarrow> None)"

lemma entry_ofD: "entry_of es mac = Some i \<Longrightarrow> i < length es \<and> e_mac (es ! i) = mac"
  by (auto simp: entry_of_def dest: find_upt)

lemma released_length [simp]: "length (released es mac) = length es"
  by (simp add: released_def free_entry_def split: option.splits)

lemma released_nth:
  "i < length es \<Longrightarrow> released es mac ! i =
     (if entry_of es mac = Some i then (es ! i)\<lparr>e_mac := replicate 6 0\<rparr> else es ! i)"
  by (auto simp: released_def free_entry_def nth_list_update split: option.splits dest: entry_ofD)

lemma released_ok: "dh_ok c s \<Longrightarrow> dh_ok c (s\<lparr>dh_entries := released (dh_entries s) mac\<rparr>)"
  by (auto simp: dh_ok_def set_conv_nth released_nth)

lemma entry_at_released: "entry_at (released es mac) ip = entry_at es ip"
  unfolding entry_at_def released_length by (rule find_cong_set) (simp add: released_nth)

lemma entry_atD: "entry_at es ip = Some i \<Longrightarrow> i < length es \<and> e_addr (es ! i) = ip"
  by (auto simp: entry_at_def dest: find_upt)

lemma request_none:
  assumes "dh_ok c s" and "wanted (dhcp_data s) = None"
  shows "dhcp_request c netif alloc s port = Inr (s, None)"
proof -
  have l: "length (dhcp_data s) = 516" using assms(1) by (simp add: dh_ok_def)
  obtain r where r: "find_dhcp_option (dp_options (dhcp_data s)) 275 DHCP_IPADDRESS = Inr r"
    "\<forall>p. r = Some p \<longrightarrow> p + 1 < 275" using option_total [OF l] by blast
  show ?thesis
  proof (cases r)
    case (Some p)
    then have "dp_options (dhcp_data s) ! (p + 1) \<noteq> 4" using assms(2) r(1) by (auto simp: wanted_def)
    then show ?thesis using r Some l
      by (simp add: dhcp_request_def Let_def dp_offsets)
  qed (use r in \<open>simp add: dhcp_request_def Let_def dp_offsets\<close>)
qed

lemma request_some:
  assumes "dh_ok c s" and "wanted (dhcp_data s) = Some ip"
  shows "let es = released (dh_entries s) (client_of (dhcp_data s)); s1 = s\<lparr>dh_entries := es\<rparr> in
    case entry_at (dh_entries s) ip of
      None \<Rightarrow> dhcp_request c netif alloc s port = Inr (s1, None)
    | Some i \<Rightarrow>
        if \<not> is_vacant (es ! i) then dhcp_request c netif alloc s port = Inr (s1, None)
        else \<exists>d'. dhcp_answer c netif DHCP_ACK (ip_bytes ip) (e_lease (es ! i)) (dhcp_data s) = Inr d' \<and>
          dhcp_request c netif alloc s port =
            Inr (if alloc then (s1\<lparr>dhcp_data := d', dh_entries := es[i := (es ! i)\<lparr>e_mac := client_of (dhcp_data s)\<rparr>]\<rparr>,
                   Some (projr (get_dhcp_destination netif d' ip False), port, d'))
                 else (s1\<lparr>dhcp_data := d'\<rparr>, None))"
proof -
  let ?d = "dhcp_data s"
  let ?o = "dp_options ?d"
  define es where "es = released (dh_entries s) (client_of ?d)"
  have l: "length ?d = 516" "domain_fits c" using assms(1) by (simp_all add: dh_ok_def)
  have ne: "num_entry c = int (length es)" using assms(1) by (simp add: dh_ok_def es_def)
  have c6: "6 \<le> length (dp_chaddr ?d)" using l by (simp add: dp_chaddr_def dp_offsets)
  obtain p where p: "find_dhcp_option ?o 275 DHCP_IPADDRESS = Inr (Some p)" "?o ! (p + 1) = 4"
    "ip = ip_of (window (p + 2) 4 ?o)"
    using assms(2) by (auto simp: wanted_def split: sum.splits option.splits if_splits)
  then have pl: "p + 1 < 275" "p + 6 \<le> 275" using option_total [OF l(1), of DHCP_IPADDRESS] by auto
  have w4: "length (window (p + 2) 4 ?o) = 4" using pl l by simp
  have g: "get_ip ?o (p + 2) = Inr ip" using pl l by (simp add: get_ip_def p(3))
  have es': "(case entry_of (dh_entries s) (client_of ?d) of None \<Rightarrow> dh_entries s
      | Some i \<Rightarrow> free_entry (dh_entries s) i) = es" by (simp add: es_def released_def)
  note run = dhcp_request_def Let_def dp_offsets by_mac_eq [OF assms(1) c6, folded client_of_def] es' g
    by_ip_eq [OF ne] entry_at_def [symmetric] es_def [symmetric] p(1,2)
    p(2) [unfolded Suc_eq_plus1 [symmetric]]
  show ?thesis
  proof (cases "entry_at (dh_entries s) ip")
    case None
    then have "entry_at es ip = None" using entry_at_released [of "dh_entries s" "client_of ?d" ip] by (simp add: es_def)
    then show ?thesis using None pl l by (simp add: run del: add_2_eq_Suc')
  next
    case (Some i)
    then have i: "i < length es" "entry_at es ip = Some i" "e_addr (es ! i) = ip"
      using entry_at_released [of "dh_entries s" "client_of ?d" ip] entry_atD [of es ip i] by (auto simp: es_def)
    obtain d' where d': "dhcp_answer c netif DHCP_ACK (ip_bytes ip) (e_lease (es ! i)) ?d = Inr d'"
      "length d' = 516" "dp_chaddr d' = dp_chaddr ?d"
      using answer_fields [OF l(1) _ l(2), of "ip_bytes ip" netif DHCP_ACK "e_lease (es ! i)"] by auto
    have "window (p + 2) 4 ?o = ip_bytes ip" using ip_bytes_of [OF w4] by (simp add: p(3))
    then show ?thesis using i d' Some destination_total [OF d'(2)] pl l
      by (simp add: run client_of_def [symmetric] del: add_2_eq_Suc')
  qed
qed

subsection \<open>What a datagram does\<close>

definition message_of :: "u8 list \<Rightarrow> u8 option res" where
  "message_of d = (case find_dhcp_option (dp_options d) 275 DHCP_MESSAGETYPE of
     Inr (Some p) \<Rightarrow> if p + 2 < 275 then Inr (Some (dp_options d ! (p + 2))) else Inl Out_Of_Bounds
   | _ \<Rightarrow> Inr None)"

lemma received_ok: "dh_ok c s \<Longrightarrow> dh_ok c (s\<lparr>dhcp_data := received s payload\<rparr>)"
  by (simp add: dh_ok_def length_received)

lemma recv_dispatch:
  fixes s payload
  defines "d \<equiv> received s payload"
  defines "s1 \<equiv> s\<lparr>dhcp_data := d\<rparr>"
  assumes "dh_ok c s"
  shows "udp_recv_proc netif alloc s payload port =
    bindR (message_of d) (\<lambda>m.
      if m = Some DHCP_DISCOVER then dhcp_discover c netif alloc s1 port
      else if m = Some DHCP_REQUEST then dhcp_request c netif alloc s1 port
      else Inr (s1, None))"
proof -
  have l: "length d = 516" "dh_config s = Some c" using assms(3) by (simp_all add: dh_ok_def d_def length_received)
  have d: "blit 0 (take 516 payload) (dhcp_data s) = d" by (simp add: d_def received_def)
  obtain r where r: "find_dhcp_option (dp_options d) 275 DHCP_MESSAGETYPE = Inr r"
    "\<forall>p. r = Some p \<longrightarrow> p + 1 < 275" using option_total [OF l(1)] by blast
  show ?thesis
  proof (cases r)
    case None
    then show ?thesis using r l
      by (simp add: udp_recv_proc_def Let_def dp_offsets d message_of_def s1_def)
  next
    case (Some p)
    show ?thesis
    proof (cases "p + 2 < 275")
      case True
      then show ?thesis using r l Some
        by (simp add: udp_recv_proc_def Let_def dp_offsets d message_of_def s1_def)
    next
      case False
      then have "rd (dp_options d) (p + 2) = Inl Out_Of_Bounds" using l by simp
      then show ?thesis using r l Some False
        by (simp add: udp_recv_proc_def Let_def dp_offsets d message_of_def del: add_2_eq_Suc')
    qed
  qed
qed

text \<open>
  What the server promises about the table: addresses stay, an entry in use by another client
  stays, and an answer names the address of an entry that was free or the client's own; an
  acknowledged address is the client's afterwards.
\<close>

definition lease_promise :: "dhcp_entry list \<Rightarrow> u8 list \<Rightarrow> dhcp_entry list \<Rightarrow> datagram option \<Rightarrow> bool" where
  "lease_promise es mac es' out \<longleftrightarrow>
     length es' = length es \<and>
     (\<forall>i < length es. e_addr (es' ! i) = e_addr (es ! i) \<and> e_lease (es' ! i) = e_lease (es ! i) \<and>
        (\<not> is_vacant (es ! i) \<and> e_mac (es ! i) \<noteq> mac \<longrightarrow> es' ! i = es ! i)) \<and>
     (\<forall>dest port d. out = Some (dest, port, d) \<longrightarrow> client_of d = mac \<and>
        (\<exists>i < length es. window 16 4 d = ip_bytes (e_addr (es ! i)) \<and>
          (is_vacant (es ! i) \<or> e_mac (es ! i) = mac) \<and>
          (message_of d = Inr (Some DHCP_ACK) \<longrightarrow> e_mac (es' ! i) = mac)))"

lemma message_of_answer:
  assumes "dp_options d' = options_of (reply_options c netif t lease) @ DHCP_END # replicate k 0"
    and "length d' = 516" and "domain_fits c"
  shows "message_of d' = Inr (Some t)"
proof -
  have o0: "dp_options d' = options_of ([] @ (DHCP_MESSAGETYPE, [t]) # tl (reply_options c netif t lease)) @
      DHCP_END # replicate k 0"
    unfolding assms(1) by (simp add: reply_options_def)
  have "find_dhcp_option (dp_options d') (length (dp_options d')) DHCP_MESSAGETYPE = Inr (Some 0)"
    using find_option_finds [OF o0] by simp
  moreover have "dp_options d' ! 2 = t" using o0 by (simp add: option_bytes_def)
  ultimately show ?thesis using assms(2) by (simp add: message_of_def numeral_2_eq_2)
qed

lemma slot_forD:
  assumes "slot_for es mac = Some i"
  shows "i < length es \<and> (is_vacant (es ! i) \<or> e_mac (es ! i) = mac)"
  using assms by (auto simp: slot_for_def split: option.splits dest: find_upt entry_ofD)

lemma discover_promise:
  assumes "dh_ok c s" and "dhcp_discover c netif alloc s port = Inr (s', out)"
  shows "dh_ok c s' \<and> dh_entries s' = dh_entries s \<and>
    lease_promise (dh_entries s) (client_of (dhcp_data s)) (dh_entries s') out"
proof (cases "slot_for (dh_entries s) (client_of (dhcp_data s))")
  case None
  then show ?thesis using assms discover_none [OF assms(1) None] by (simp add: lease_promise_def)
next
  case (Some i)
  let ?e = "dh_entries s ! i"
  have l: "length (dhcp_data s) = 516" "domain_fits c" using assms(1) by (simp_all add: dh_ok_def)
  obtain d' k where d': "dhcp_answer c netif DHCP_OFFER (ip_bytes (e_addr ?e)) (e_lease ?e) (dhcp_data s) = Inr d'"
    "length d' = 516" "dp_options d' = options_of (reply_options c netif DHCP_OFFER (e_lease ?e)) @ DHCP_END # replicate k 0"
    "window 16 4 d' = ip_bytes (e_addr ?e)" "dp_chaddr d' = dp_chaddr (dhcp_data s)"
    using answer_fields [OF l(1) _ l(2), of "ip_bytes (e_addr ?e)" netif DHCP_OFFER "e_lease ?e"] by auto
  have r: "s' = s\<lparr>dhcp_data := d'\<rparr>" "\<forall>dest pt d. out = Some (dest, pt, d) \<longrightarrow> d = d'"
    using discover_result [OF assms(1) Some, of netif alloc port] d'(1) assms(2) by (auto split: if_splits)
  have "message_of d' \<noteq> Inr (Some DHCP_ACK)"
    using message_of_answer [OF d'(3,2) l(2)] by (simp add: dhcp_codes)
  then show ?thesis using r d' slot_forD [OF Some] assms(1)
    by (auto simp: lease_promise_def dh_ok_def client_of_def)
qed

lemma released_leases:
  assumes "leases_ok es"
  shows "leases_ok (released es mac)"
  unfolding leases_ok_def
proof (intro allI impI)
  fix i j
  assume i: "i < length (released es mac)" and j: "j < length (released es mac)"
    and e: "i \<noteq> j \<and> e_mac (released es mac ! i) = e_mac (released es mac ! j)"
  have l: "i < length es" "j < length es" using i j by simp_all
  show "is_vacant (released es mac ! i)"
  proof (cases "entry_of es mac = Some i")
    case True
    then show ?thesis using l by (simp add: released_nth is_vacant_def)
  next
    case False
    then have ei: "released es mac ! i = es ! i" using l by (simp add: released_nth)
    show ?thesis
    proof (cases "entry_of es mac = Some j")
      case True
      then have "e_mac (es ! i) = replicate 6 0" using e l unfolding ei by (simp add: released_nth)
      then show ?thesis by (simp add: ei is_vacant_def)
    next
      case False
      then have "e_mac (es ! i) = e_mac (es ! j)" using e l unfolding ei by (simp add: released_nth)
      then show ?thesis using assms(1) l e unfolding ei leases_ok_def by blast
    qed
  qed
qed

lemma released_no_mac:
  assumes "leases_ok es" and "j < length es"
    and "e_mac (released es mac ! j) = mac"
  shows "is_vacant (released es mac ! j)"
proof (cases "entry_of es mac")
  case None
  then have "e_mac (es ! j) \<noteq> mac" using assms(2) by (auto simp: entry_of_def find_None_iff)
  then show ?thesis using assms(2,3) None by (simp add: released_nth)
next
  case (Some k)
  then have k: "k < length es" "e_mac (es ! k) = mac" using entry_ofD by auto
  show ?thesis
  proof (cases "j = k")
    case True
    then show ?thesis using k Some by (simp add: released_nth is_vacant_def)
  next
    case False
    then have "is_vacant (es ! j)"
      using assms(1,2,3) k Some by (auto simp: leases_ok_def released_nth)
    then show ?thesis using False Some assms(2) by (simp add: released_nth)
  qed
qed

lemma assigned_leases:
  assumes "leases_ok es" and "\<forall>j < length es. e_mac (es ! j) = mac \<longrightarrow> is_vacant (es ! j)"
    and "i < length es" and "length mac = 6"
  shows "leases_ok (es[i := (es ! i)\<lparr>e_mac := mac\<rparr>])"
  unfolding leases_ok_def
proof (intro allI impI)
  let ?es = "es[i := (es ! i)\<lparr>e_mac := mac\<rparr>]"
  fix j k
  assume j: "j < length ?es" and k: "k < length ?es" and e: "j \<noteq> k \<and> e_mac (?es ! j) = e_mac (?es ! k)"
  consider "j = i" "k \<noteq> i" | "j \<noteq> i" "k = i" | "j \<noteq> i" "k \<noteq> i" using e by blast
  then show "is_vacant (?es ! j)"
  proof cases
    case 1
    then have m: "e_mac (es ! k) = mac" using e assms(3) by auto
    then have "is_vacant (es ! k)" using assms(2) k by simp
    then show ?thesis using 1 m assms(3) by (simp add: is_vacant_def)
  next
    case 2
    then have "e_mac (es ! j) = mac" using e assms(3) by auto
    then show ?thesis using 2 assms(2) j by simp
  next
    case 3
    then show ?thesis using assms(1) j k e unfolding leases_ok_def by auto
  qed
qed

lemma request_promise:
  assumes "dh_ok c s" and "leases_ok (dh_entries s)" and "dhcp_request c netif alloc s port = Inr (s', out)"
  shows "dh_ok c s' \<and> leases_ok (dh_entries s') \<and>
    lease_promise (dh_entries s) (client_of (dhcp_data s)) (dh_entries s') out"
proof (cases "wanted (dhcp_data s)")
  case None
  then show ?thesis using assms request_none [OF assms(1) None] by (simp add: lease_promise_def)
next
  case (Some ip)
  let ?mac = "client_of (dhcp_data s)"
  define es where "es = released (dh_entries s) ?mac"
  let ?s1 = "s\<lparr>dh_entries := es\<rparr>"
  have m6: "\<forall>e \<in> set (dh_entries s). length (e_mac e) = 6" and l: "length (dhcp_data s) = 516" "domain_fits c"
    using assms(1) by (simp_all add: dh_ok_def)
  have ok1: "dh_ok c ?s1" "leases_ok es"
    using released_ok [OF assms(1)] released_leases [OF assms(2)] by (simp_all add: es_def)
  have rel: "lease_promise (dh_entries s) ?mac es None"
    by (auto simp: lease_promise_def es_def released_nth dest: entry_ofD)
  note req = request_some [OF assms(1) Some, of netif alloc port, folded es_def]
  show ?thesis
  proof (cases "entry_at (dh_entries s) ip")
    case None
    then show ?thesis using req assms(3) ok1 rel by (simp add: es_def Let_def)
  next
    case (Some i)
    note at = entry_atD [OF Some]
    show ?thesis
    proof (cases "is_vacant (es ! i)")
      case False
      then show ?thesis using req assms(3) ok1 rel Some by (simp add: es_def Let_def)
    next
      case True
      obtain d' where d': "dhcp_answer c netif DHCP_ACK (ip_bytes ip) (e_lease (es ! i)) (dhcp_data s) = Inr d'"
        "length d' = 516" "window 16 4 d' = ip_bytes ip" "dp_chaddr d' = dp_chaddr (dhcp_data s)"
        using answer_fields [OF l(1) _ l(2), of "ip_bytes ip" netif DHCP_ACK "e_lease (es ! i)"] by auto
      let ?es = "es[i := (es ! i)\<lparr>e_mac := ?mac\<rparr>]"
      have r: "(s', out) = (if alloc then (?s1\<lparr>dhcp_data := d', dh_entries := ?es\<rparr>,
            Some (projr (get_dhcp_destination netif d' ip False), port, d'))
          else (?s1\<lparr>dhcp_data := d'\<rparr>, None))"
        using req assms(3) d'(1) Some True by (simp add: es_def Let_def split: if_splits)
      have i: "i < length es" using at by (simp add: es_def)
      have nm: "\<forall>j < length es. e_mac (es ! j) = ?mac \<longrightarrow> is_vacant (es ! j)"
        using released_no_mac [OF assms(2)] by (simp add: es_def)
      have le: "leases_ok ?es"
        using assigned_leases [OF ok1(2) nm i] l by simp
      have free: "is_vacant (dh_entries s ! i) \<or> e_mac (dh_entries s ! i) = ?mac"
        using True at by (auto simp: es_def released_nth dest: entry_ofD split: if_splits)
      have "lease_promise (dh_entries s) ?mac ?es (Some (dest, port, d'))" for dest
        using rel i d' at free
        by (auto simp: lease_promise_def nth_list_update client_of_def es_def)
      moreover have "dh_ok c (?s1\<lparr>dhcp_data := d', dh_entries := ?es\<rparr>)" "dh_ok c (?s1\<lparr>dhcp_data := d'\<rparr>)"
        using ok1(1) d'(2) l i
        by (auto simp: dh_ok_def dest!: subsetD [OF set_update_subset_insert])
      ultimately show ?thesis using r ok1(2) le rel by (cases alloc) simp_all
    qed
  qed
qed

lemma discover_runs: "dh_ok c s \<Longrightarrow> \<exists>r. dhcp_discover c netif alloc s port = Inr r"
  using discover_none discover_result by (cases "slot_for (dh_entries s) (client_of (dhcp_data s))") blast+

lemma request_runs: "dh_ok c s \<Longrightarrow> \<exists>r. dhcp_request c netif alloc s port = Inr r"
proof (cases "wanted (dhcp_data s)")
  case (Some ip)
  assume "dh_ok c s"
  from request_some [OF this Some, of netif alloc port] show ?thesis
    by (auto simp: Let_def split: option.splits if_splits)
qed (auto dest: request_none)

lemma message_ofD: "message_of d = Inl f \<longleftrightarrow> f = Out_Of_Bounds \<and>
    (\<exists>p. find_dhcp_option (dp_options d) 275 DHCP_MESSAGETYPE = Inr (Some p) \<and> \<not> p + 2 < 275)"
  by (auto simp: message_of_def split: sum.splits option.splits if_splits)

text \<open>The server owns exactly the control block it points to, whatever the start-up answers.\<close>

definition pcb_owned :: "dhserver \<Rightarrow> bool" where
  "pcb_owned s \<longleftrightarrow> udp_pcbs s = (case pcb s of None \<Rightarrow> [] | Some p \<Rightarrow> [p])"

lemma free_owned: "pcb_owned s \<Longrightarrow> pcb_owned (dhserv_free s) \<and> pcb (dhserv_free s) = None"
  by (simp add: pcb_owned_def dhserv_free_def split: option.splits)

lemma init_owned:
  assumes "pcb_owned s" and "dhserv_init new_pcb bound s c = (s', e)"
  shows "pcb_owned s' \<and> (e = ERR_OK \<longleftrightarrow> pcb s' \<noteq> None)"
proof -
  have "udp_pcbs (dhserv_free s) = []" using free_owned [OF assms(1)] by (simp add: pcb_owned_def)
  then show ?thesis using assms(2)
    by (auto simp: dhserv_init_def Let_def pcb_owned_def dhserv_free_def split: option.splits if_splits)
qed

subsection \<open>Packets of a client\<close>

definition packet :: "u8 list \<Rightarrow> u8 list \<Rightarrow> u8 list" where
  "packet mac opts = replicate 28 0 @ mac @ replicate 206 0 @ opts @ replicate (276 - length opts) 0"

lemma packet_fields:
  assumes "length mac = 6" and "length opts \<le> 275"
  shows "length (packet mac opts) = 516" "client_of (packet mac opts) = mac"
    "dp_options (packet mac opts) = opts @ replicate (275 - length opts) 0"
    "length (dhcp_data s) = 516 \<Longrightarrow> received s (packet mac opts) = packet mac opts"
proof -
  show l: "length (packet mac opts) = 516" using assms by (simp add: packet_def)
  show "client_of (packet mac opts) = mac"
    using assms by (simp add: client_of_def dp_chaddr_def dp_offsets packet_def window_def)
  show "dp_options (packet mac opts) = opts @ replicate (275 - length opts) 0"
    using assms by (simp add: dp_options_def dp_offsets packet_def window_def)
  show "length (dhcp_data s) = 516 \<Longrightarrow> received s (packet mac opts) = packet mac opts"
    using l by (simp add: received_def blit_def)
qed

lemma packet_option:
  assumes "length mac = 6" and "length (options_of os) \<le> 275" and "os = os1 @ (code, v) # os2"
    and "code \<notin> fst ` set os1" and "\<forall>x \<in> set os. length (snd x) < 256"
  shows "find_dhcp_option (dp_options (packet mac (options_of os))) 275 code = Inr (Some (length (options_of os1)))"
proof -
  let ?o = "dp_options (packet mac (options_of os))"
  have o1: "?o = options_of (os1 @ (code, v) # os2) @ replicate (275 - length (options_of os)) 0"
    using packet_fields(3) [OF assms(1,2)] by (simp add: assms(3))
  have "length ?o = 275" using packet_fields(1) [OF assms(1,2)] by simp
  then show ?thesis using find_option_finds [OF o1 assms(4)] assms(3,5) by simp
qed

subsection \<open>The server as the firmware starts it\<close>

definition usb_server :: dhserver where
  "usb_server = fst (dhserv_init (Some 0) ERR_OK dhserver_reset usb_dhcp_config)"

lemma usb_server_simps [simp]:
  "dhcp_data usb_server = replicate 516 0" "dh_config usb_server = Some usb_dhcp_config"
  "dh_entries usb_server = usb_entries"
  by (simp_all add: usb_server_def dhserv_init_def dhserv_free_def dhserver_reset_def Let_def DHCP_SIZE_def)

lemma usb_server_ok:
  "dh_ok usb_dhcp_config usb_server" "leases_ok (dh_entries usb_server)" "distinct (map e_addr (dh_entries usb_server))"
proof -
  show "dh_ok usb_dhcp_config usb_server"
    by (simp add: dh_ok_def domain_fits_def) (simp add: usb_dhcp_config_def usb_entries_def)
  show "leases_ok (dh_entries usb_server)"
    by (auto simp: leases_ok_def usb_entries_def is_vacant_def less_Suc_eq numeral_eq_Suc nth_Cons split: nat.splits)
  have "map (\<lambda>e. ip_bytes (e_addr e)) usb_entries = [[192, 168, 4, 2], [192, 168, 4, 3], [192, 168, 4, 4]]"
    by (simp add: usb_entries_def ip_bytes_of)
  then have "distinct (map ip_bytes (map e_addr usb_entries))" by (simp add: comp_def)
  then show "distinct (map e_addr (dh_entries usb_server))" by (simp only: distinct_map usb_server_simps)
qed

lemma usb_slot: "mac \<noteq> replicate 6 0 \<Longrightarrow> slot_for usb_entries mac = Some 0"
  by (simp add: slot_for_def entry_of_def usb_entries_def is_vacant_def numeral_eq_Suc upt_rec)

definition discover_packet :: "u8 list \<Rightarrow> u8 list" where
  "discover_packet mac = packet mac (options_of [(DHCP_MESSAGETYPE, [DHCP_DISCOVER])])"

definition request_packet :: "u8 list \<Rightarrow> u32 \<Rightarrow> u8 list" where
  "request_packet mac ip = packet mac (options_of [(DHCP_MESSAGETYPE, [DHCP_REQUEST]), (DHCP_IPADDRESS, ip_bytes ip)])"

lemma option_bytes_length [simp]: "length (option_bytes c v) = length v + 2"
  by (simp add: option_bytes_def)

lemma packet_message:
  assumes "length mac = 6" and "length (options_of ((DHCP_MESSAGETYPE, [t]) # os)) \<le> 275"
    and "\<forall>x \<in> set os. length (snd x) < 256"
  shows "message_of (packet mac (options_of ((DHCP_MESSAGETYPE, [t]) # os))) = Inr (Some t)"
proof -
  have "find_dhcp_option (dp_options (packet mac (options_of ((DHCP_MESSAGETYPE, [t]) # os)))) 275 DHCP_MESSAGETYPE =
      Inr (Some (length (options_of [])))"
    by (rule packet_option [OF assms(1,2), of "[]"]) (use assms(3) in auto)
  then show ?thesis using packet_fields(3) [OF assms(1,2)]
    by (simp add: message_of_def option_bytes_def numeral_2_eq_2)
qed

lemma discover_packet_facts:
  assumes "length mac = 6" and "length (dhcp_data s) = 516"
  shows "message_of (received s (discover_packet mac)) = Inr (Some DHCP_DISCOVER)"
    "client_of (received s (discover_packet mac)) = mac"
  using packet_message [OF assms(1), of DHCP_DISCOVER "[]"] packet_fields [OF assms(1), of "options_of [(DHCP_MESSAGETYPE, [DHCP_DISCOVER])]"]
    assms(2) by (simp_all add: discover_packet_def)

lemma request_packet_facts:
  assumes "length mac = 6" and "length (dhcp_data s) = 516"
  shows "message_of (received s (request_packet mac ip)) = Inr (Some DHCP_REQUEST)"
    "client_of (received s (request_packet mac ip)) = mac" "wanted (received s (request_packet mac ip)) = Some ip"
proof -
  let ?os = "[(DHCP_MESSAGETYPE, [DHCP_REQUEST]), (DHCP_IPADDRESS, ip_bytes ip)]"
  have l: "length (options_of ?os) \<le> 275" by simp
  note f = packet_fields [OF assms(1) l]
  have r: "received s (request_packet mac ip) = packet mac (options_of ?os)"
    using f(4) assms(2) by (simp only: request_packet_def)
  show "message_of (received s (request_packet mac ip)) = Inr (Some DHCP_REQUEST)"
    unfolding r by (rule packet_message [OF assms(1) l]) simp
  show "client_of (received s (request_packet mac ip)) = mac" unfolding r by (rule f(2))
  have "find_dhcp_option (dp_options (packet mac (options_of ?os))) 275 DHCP_IPADDRESS =
      Inr (Some (length (options_of [(DHCP_MESSAGETYPE, [DHCP_REQUEST])])))"
    by (rule packet_option [OF assms(1) l, of _ _ "ip_bytes ip" "[]"]) (auto simp: dhcp_codes)
  moreover have "dp_options (packet mac (options_of ?os)) =
      [53, 1, 3, 50, 4] @ ip_bytes ip @ replicate 266 0"
    unfolding f(3) by (simp add: option_bytes_def dhcp_codes)
  ultimately show "wanted (received s (request_packet mac ip)) = Some ip"
    unfolding r by (simp add: wanted_def window_def)
qed

section \<open>Properties\<close>

text \<open>C35: An address is never leased to two clients. Whatever datagram arrives, long or short, well formed
  or not: no two entries in use have the same hardware address afterwards, an entry in use by
  another client than the sender is untouched, every answer names the address of an entry that
  was free or the sender's own, and after an acknowledgement that entry is the sender's.\<close>

theorem dhcp_lease_exclusive:
  assumes "dh_ok c s" and "leases_ok (dh_entries s)"
    and "udp_recv_proc netif alloc s payload port = Inr (s', out)"
  shows "dh_ok c s' \<and> leases_ok (dh_entries s') \<and>
    lease_promise (dh_entries s) (client_of (received s payload)) (dh_entries s') out"
proof -
  let ?s1 = "s\<lparr>dhcp_data := received s payload\<rparr>"
  have ok: "dh_ok c ?s1" by (rule received_ok [OF assms(1)])
  consider "dhcp_discover c netif alloc ?s1 port = Inr (s', out)" | "dhcp_request c netif alloc ?s1 port = Inr (s', out)"
    | "(s', out) = (?s1, None)"
    using assms(3) unfolding recv_dispatch [OF assms(1)] by (auto simp: bindR_eq_Inr split: if_splits)
  then show ?thesis
  proof cases
    case 1
    then show ?thesis using discover_promise [OF ok 1] assms(2) by auto
  next
    case 2
    then show ?thesis using request_promise [OF ok _ 2] assms(2) by auto
  next
    case 3
    then show ?thesis using ok assms(2) by (simp add: lease_promise_def)
  qed
qed

theorem dhcp_lease_exclusive_witness:
  "\<exists>s' out. udp_recv_proc (usb_ipaddr, usb_netmask) True usb_server (discover_packet [2, 0, 0, 0, 0, 1]) 68 = Inr (s', out) \<and>
    leases_ok (dh_entries s') \<and> lease_promise usb_entries [2, 0, 0, 0, 0, 1] (dh_entries s') out"
proof -
  let ?net = "(usb_ipaddr, usb_netmask)" and ?p = "discover_packet [2, 0, 0, 0, 0, 1]"
  have f: "message_of (received usb_server ?p) = Inr (Some DHCP_DISCOVER)"
    "client_of (received usb_server ?p) = [2, 0, 0, 0, 0, 1]"
    using discover_packet_facts [of "[2, 0, 0, 0, 0, 1]" usb_server] by simp_all
  have "udp_recv_proc ?net True usb_server ?p 68 =
      dhcp_discover usb_dhcp_config ?net True (usb_server\<lparr>dhcp_data := received usb_server ?p\<rparr>) 68"
    by (simp add: recv_dispatch [OF usb_server_ok(1)] f(1))
  then obtain s' out where r: "udp_recv_proc ?net True usb_server ?p 68 = Inr (s', out)"
    using discover_runs [OF received_ok [OF usb_server_ok(1)], of ?net True ?p 68] by auto
  from dhcp_lease_exclusive [OF usb_server_ok(1,2) r] r show ?thesis unfolding f(2) usb_server_simps by blast
qed

text \<open>C36: The server reads outside the option area exactly for one kind of packet: one whose message type
  option is the last two bytes of the area and has no value. For every other datagram, of any
  length, it comes to its end.\<close>

theorem dhcp_out_of_bounds:
  assumes "dh_ok c s"
  shows "(\<exists>f. udp_recv_proc netif alloc s payload port = Inl f) \<longleftrightarrow>
    find_dhcp_option (dp_options (received s payload)) 275 DHCP_MESSAGETYPE = Inr (Some 273)"
proof -
  let ?d = "received s payload" and ?s1 = "s\<lparr>dhcp_data := received s payload\<rparr>"
  have ok: "dh_ok c ?s1" by (rule received_ok [OF assms])
  have l: "length ?d = 516" using assms by (simp add: dh_ok_def length_received)
  obtain r1 r2 where r: "dhcp_discover c netif alloc ?s1 port = Inr r1" "dhcp_request c netif alloc ?s1 port = Inr r2"
    using discover_runs [OF ok] request_runs [OF ok] by metis
  have "(\<exists>f. udp_recv_proc netif alloc s payload port = Inl f) \<longleftrightarrow> (\<exists>f. message_of ?d = Inl f)"
    unfolding recv_dispatch [OF assms] by (cases "message_of ?d") (simp_all add: r)
  also have "\<dots> \<longleftrightarrow> find_dhcp_option (dp_options ?d) 275 DHCP_MESSAGETYPE = Inr (Some 273)"
  proof -
    obtain q where q: "find_dhcp_option (dp_options ?d) 275 DHCP_MESSAGETYPE = Inr q"
      "\<forall>p. q = Some p \<longrightarrow> p + 1 < 275" using option_total [OF l] by blast
    have "p + 1 < 275 \<Longrightarrow> (\<not> p + 2 < 275) = (p = 273)" for p :: nat by arith
    then show ?thesis unfolding message_ofD using q by (cases q) auto
  qed
  finally show ?thesis .
qed

theorem dhcp_out_of_bounds_witness:
  "\<exists>f. udp_recv_proc (usb_ipaddr, usb_netmask) True usb_server
     (packet [2, 0, 0, 0, 0, 1] (options_of [(60, replicate 253 0), (61, replicate 16 0), (DHCP_MESSAGETYPE, [])])) 68 = Inl f"
proof -
  let ?os = "[(60, replicate 253 0), (61, replicate 16 0), (DHCP_MESSAGETYPE, [])]"
  have l: "length [2, 0, 0, 0, 0, 1 :: u8] = 6" "length (options_of ?os) \<le> 275" by simp_all
  have "find_dhcp_option (dp_options (packet [2, 0, 0, 0, 0, 1] (options_of ?os))) 275 DHCP_MESSAGETYPE =
      Inr (Some (length (options_of [(60, replicate 253 0), (61, replicate 16 0)])))"
    by (rule packet_option [OF l, of _ _ "[]" "[]"]) (auto simp: dhcp_codes)
  then have "find_dhcp_option (dp_options (received usb_server (packet [2, 0, 0, 0, 0, 1] (options_of ?os)))) 275
      DHCP_MESSAGETYPE = Inr (Some 273)"
    using packet_fields(4) [OF l, of usb_server] by simp
  then show ?thesis using dhcp_out_of_bounds [OF usb_server_ok(1)] by blast
qed

text \<open>Every option of an answer is found again. Scanning the option area of an answer with the
  server's own function finds, for each option it carries, its position, with the length and
  the value that were put in; an absent router or name server is left out.\<close>

lemma dhcp_options_roundtrip:
  assumes "length d = 516" and "length yi = 4" and "domain_fits c"
    and "dhcp_answer c netif t yi lease d = Inr d'" and "(code, v) \<in> set (reply_options c netif t lease)"
  shows "\<exists>p. find_dhcp_option (dp_options d') 275 code = Inr (Some p) \<and>
    unat (dp_options d' ! (p + 1)) = length v \<and> window (p + 2) (length v) (dp_options d') = v"
proof -
  obtain k where k: "dp_options d' = options_of (reply_options c netif t lease) @ DHCP_END # replicate k 0" "length d' = 516"
    using answer_fields [OF assms(1-3), of netif t lease] assms(4) by auto
  obtain os1 os2 where os: "reply_options c netif t lease = os1 @ (code, v) # os2"
    using assms(5) by (meson split_list)
  have "code \<notin> fst ` set os1" using reply_codes_distinct [of c netif t lease] unfolding os by auto
  moreover have sh: "\<forall>x \<in> set (os1 @ (code, v) # os2). length (snd x) < 256"
    using reply_values_short [OF assms(3), of _ netif t lease] unfolding os by blast
  ultimately have "find_dhcp_option (dp_options d') (length (dp_options d')) code = Inr (Some (length (options_of os1)))"
    using find_option_finds [of "dp_options d'" os1 code v os2 "DHCP_END # replicate k 0"] k(1) unfolding os by simp
  then have f: "find_dhcp_option (dp_options d') 275 code = Inr (Some (length (options_of os1)))" using k(2) by simp
  have o': "dp_options d' = options_of os1 @ (code # word_of_nat (length v) # v) @ options_of os2 @ DHCP_END # replicate k 0"
    unfolding k(1) os by (simp add: option_bytes_def)
  have "unat (word_of_nat (length v) :: u8) = length v" using sh by (simp add: unat_of_nat)
  then have "unat (dp_options d' ! (length (options_of os1) + 1)) = length v"
    "window (length (options_of os1) + 2) (length v) (dp_options d') = v"
    unfolding o' by (simp_all add: nth_append window_def)
  with f show ?thesis by blast
qed

lemma dhcp_options_roundtrip_example:
  "\<exists>d' p. dhcp_answer usb_dhcp_config (usb_ipaddr, usb_netmask) DHCP_OFFER [192, 168, 4, 2] 86400 (replicate 516 0) = Inr d' \<and>
    find_dhcp_option (dp_options d') 275 DHCP_SUBNETMASK = Inr (Some p) \<and>
    window (p + 2) 4 (dp_options d') = [192, 168, 4, 1]"
proof -
  have df: "domain_fits usb_dhcp_config" by (simp add: domain_fits_def usb_dhcp_config_def)
  have l: "length (replicate 516 (0 :: u8)) = 516" "length [192, 168, 4, 2 :: u8] = 4" by simp_all
  obtain d' where d': "dhcp_answer usb_dhcp_config (usb_ipaddr, usb_netmask) DHCP_OFFER [192, 168, 4, 2] 86400 (replicate 516 0) = Inr d'"
    using answer_fields [OF l df, of "(usb_ipaddr, usb_netmask)" DHCP_OFFER 86400] by blast
  have "(DHCP_SUBNETMASK, [192, 168, 4, 1]) \<in> set (reply_options usb_dhcp_config (usb_ipaddr, usb_netmask) DHCP_OFFER 86400)"
    by (simp add: reply_options_def usb_netmask_def ip_bytes_of)
  from dhcp_options_roundtrip [OF l df d' this] d' show ?thesis by (auto simp: numeral_eq_Suc)
qed

text \<open>Discover and request lead to a lease. A client that has an entry, or finds one free, is offered
  that entry's address; if it then requests this address, whatever else its packet holds, it is
  acknowledged with this address and the entry carries its hardware address.\<close>

lemma dhcp_handshake:
  assumes "dh_ok c s" and "distinct (map e_addr (dh_entries s))"
    and "message_of (received s p1) = Inr (Some DHCP_DISCOVER)" and "client_of (received s p1) = mac"
    and "slot_for (dh_entries s) mac = Some i"
  shows "\<exists>s1 dest1 d1. udp_recv_proc netif True s p1 port = Inr (s1, Some (dest1, port, d1)) \<and>
    message_of d1 = Inr (Some DHCP_OFFER) \<and> window 16 4 d1 = ip_bytes (e_addr (dh_entries s ! i)) \<and>
    (\<forall>p2. message_of (received s1 p2) = Inr (Some DHCP_REQUEST) \<and> client_of (received s1 p2) = mac \<and>
        wanted (received s1 p2) = Some (e_addr (dh_entries s ! i)) \<longrightarrow>
      (\<exists>s2 dest2 d2. udp_recv_proc netif True s1 p2 port = Inr (s2, Some (dest2, port, d2)) \<and>
        message_of d2 = Inr (Some DHCP_ACK) \<and> window 16 4 d2 = ip_bytes (e_addr (dh_entries s ! i)) \<and>
        e_mac (dh_entries s2 ! i) = mac))"
proof -
  let ?d = "received s p1" and ?e = "dh_entries s ! i"
  let ?s = "s\<lparr>dhcp_data := ?d\<rparr>"
  have ok: "dh_ok c ?s" and l: "length ?d = 516" "domain_fits c"
    using received_ok [OF assms(1)] assms(1) by (simp_all add: dh_ok_def length_received)
  obtain d1 k where d1: "dhcp_answer c netif DHCP_OFFER (ip_bytes (e_addr ?e)) (e_lease ?e) ?d = Inr d1"
    "length d1 = 516" "dp_options d1 = options_of (reply_options c netif DHCP_OFFER (e_lease ?e)) @ DHCP_END # replicate k 0"
    "window 16 4 d1 = ip_bytes (e_addr ?e)"
    using answer_fields [OF l(1) _ l(2), of "ip_bytes (e_addr ?e)" netif DHCP_OFFER "e_lease ?e"] by auto
  let ?s1 = "s\<lparr>dhcp_data := d1\<rparr>"
  have run1: "udp_recv_proc netif True s p1 port =
      Inr (?s1, Some (projr (get_dhcp_destination netif d1 (e_addr ?e) False), port, d1))"
    using recv_dispatch [OF assms(1), of netif True p1 port] discover_result [OF ok, of i netif True port] d1(1) assms(3-5)
    by (auto simp: Let_def)
  have second: "\<exists>s2 dest2 d2. udp_recv_proc netif True ?s1 p2 port = Inr (s2, Some (dest2, port, d2)) \<and>
      message_of d2 = Inr (Some DHCP_ACK) \<and> window 16 4 d2 = ip_bytes (e_addr ?e) \<and> e_mac (dh_entries s2 ! i) = mac"
    if p2: "message_of (received ?s1 p2) = Inr (Some DHCP_REQUEST)" "client_of (received ?s1 p2) = mac"
      "wanted (received ?s1 p2) = Some (e_addr ?e)" for p2
  proof -
    have ok1: "dh_ok c ?s1" using assms(1) d1(2) by (simp add: dh_ok_def)
    let ?d2 = "received ?s1 p2"
    let ?s2 = "?s1\<lparr>dhcp_data := ?d2\<rparr>"
    have ok2: "dh_ok c ?s2" and l2: "length ?d2 = 516"
      using received_ok [OF ok1] ok1 by (simp_all add: dh_ok_def length_received)
    note i = slot_forD [OF assms(5)]
    have at: "entry_at (dh_entries s) (e_addr ?e) = Some i"
      unfolding entry_at_def using i assms(2)
      by (auto simp: find_Some_iff distinct_conv_nth intro!: exI [of _ i])
    have vac: "is_vacant (released (dh_entries s) mac ! i)"
    proof (cases "entry_of (dh_entries s) mac")
      case None
      then show ?thesis using assms(5) i by (auto simp: slot_for_def released_nth dest: find_upt)
    next
      case (Some j)
      then show ?thesis using assms(5) i by (simp add: slot_for_def released_nth is_vacant_def)
    qed
    have el: "e_lease (released (dh_entries s) mac ! i) = e_lease ?e" using i by (simp add: released_nth)
    obtain d2 k2 where d2: "dhcp_answer c netif DHCP_ACK (ip_bytes (e_addr ?e)) (e_lease ?e) ?d2 = Inr d2"
      "length d2 = 516" "dp_options d2 = options_of (reply_options c netif DHCP_ACK (e_lease ?e)) @ DHCP_END # replicate k2 0"
      "window 16 4 d2 = ip_bytes (e_addr ?e)"
      using answer_fields [OF l2 _ l(2), of "ip_bytes (e_addr ?e)" netif DHCP_ACK "e_lease ?e"] by auto
    have "message_of ?d2 \<noteq> Inr (Some DHCP_DISCOVER)" using p2(1) by (simp add: dhcp_codes)
    then have "udp_recv_proc netif True ?s1 p2 port = dhcp_request c netif True ?s2 port"
      using recv_dispatch [OF ok1, of netif True p2 port] p2(1) by (simp add: dhcp_codes)
    then show ?thesis
      using request_some [OF ok2, of "e_addr ?e" netif True port] p2(2,3) at vac d2 el i message_of_answer [OF d2(3,2) l(2)]
      by (auto simp: Let_def)
  qed
  have "message_of d1 = Inr (Some DHCP_OFFER)" by (rule message_of_answer [OF d1(3,2) l(2)])
  with run1 d1(4) second show ?thesis by blast
qed

lemma dhcp_handshake_example:
  "\<exists>s1 dest1 d1 s2 dest2 d2.
    udp_recv_proc (usb_ipaddr, usb_netmask) True usb_server (discover_packet [2, 0, 0, 0, 0, 1]) 68 = Inr (s1, Some (dest1, 68, d1)) \<and>
    udp_recv_proc (usb_ipaddr, usb_netmask) True s1 (request_packet [2, 0, 0, 0, 0, 1] (ip_of [192, 168, 4, 2])) 68 =
      Inr (s2, Some (dest2, 68, d2)) \<and>
    window 16 4 d2 = [192, 168, 4, 2] \<and> e_mac (dh_entries s2 ! 0) = [2, 0, 0, 0, 0, 1]"
proof -
  let ?m = "[2, 0, 0, 0, 0, 1 :: u8]"
  have m: "length ?m = 6" "?m \<noteq> replicate 6 0" by (simp_all add: numeral_eq_Suc)
  have a: "e_addr (dh_entries usb_server ! 0) = ip_of [192, 168, 4, 2]" by (simp add: usb_entries_def)
  have sl: "slot_for (dh_entries usb_server) ?m = Some 0" using usb_slot [OF m(2)] by simp
  have l: "length (dhcp_data usb_server) = 516" by simp
  from dhcp_handshake [OF usb_server_ok(1,3) discover_packet_facts [OF m(1) l] sl, of "(usb_ipaddr, usb_netmask)" 68]
  obtain s1 dest1 d1 where 1: "udp_recv_proc (usb_ipaddr, usb_netmask) True usb_server (discover_packet ?m) 68 = Inr (s1, Some (dest1, 68, d1))"
    "\<forall>p2. message_of (received s1 p2) = Inr (Some DHCP_REQUEST) \<and> client_of (received s1 p2) = ?m \<and>
        wanted (received s1 p2) = Some (ip_of [192, 168, 4, 2]) \<longrightarrow>
      (\<exists>s2 dest2 d2. udp_recv_proc (usb_ipaddr, usb_netmask) True s1 p2 68 = Inr (s2, Some (dest2, 68, d2)) \<and>
        message_of d2 = Inr (Some DHCP_ACK) \<and> window 16 4 d2 = ip_bytes (ip_of [192, 168, 4, 2]) \<and>
        e_mac (dh_entries s2 ! 0) = ?m)"
    unfolding a by blast
  have "dh_ok usb_dhcp_config s1"
    using 1(1) recv_dispatch [OF usb_server_ok(1)] discover_packet_facts [OF m(1) l]
      discover_promise [OF received_ok [OF usb_server_ok(1)]] by auto
  then have "length (dhcp_data s1) = 516" by (simp add: dh_ok_def)
  from request_packet_facts [OF m(1) this, of "ip_of [192, 168, 4, 2]"] 1 show ?thesis
    by (simp add: ip_bytes_of) blast
qed

text \<open>A refused request costs the client its lease. A client that holds an entry and requests an
  address that is not in the table, or is in use by another client, gets no answer (no refusal
  either), and its own entry is free afterwards.\<close>

lemma dhcp_refused_loses_lease:
  assumes "dh_ok c s" and "message_of (received s p) = Inr (Some DHCP_REQUEST)"
    and "entry_of (dh_entries s) (client_of (received s p)) = Some k" and "wanted (received s p) = Some ip"
    and "\<forall>j. entry_at (dh_entries s) ip = Some j \<longrightarrow> j \<noteq> k \<and> \<not> is_vacant (dh_entries s ! j)"
  shows "\<exists>s'. udp_recv_proc netif alloc s p port = Inr (s', None) \<and> is_vacant (dh_entries s' ! k) \<and>
    (\<forall>j < length (dh_entries s). j \<noteq> k \<longrightarrow> dh_entries s' ! j = dh_entries s ! j)"
proof -
  let ?d = "received s p"
  let ?s = "s\<lparr>dhcp_data := ?d\<rparr>" and ?es = "released (dh_entries s) (client_of ?d)"
  have ok: "dh_ok c ?s" by (rule received_ok [OF assms(1)])
  have k: "k < length (dh_entries s)" using entry_ofD [OF assms(3)] by simp
  have "udp_recv_proc netif alloc s p port = dhcp_request c netif alloc ?s port"
    using recv_dispatch [OF assms(1), of netif alloc p port] assms(2) by (simp add: dhcp_codes)
  also have "\<dots> = Inr (?s\<lparr>dh_entries := ?es\<rparr>, None)"
  proof (cases "entry_at (dh_entries s) ip")
    case None
    then show ?thesis using request_some [OF ok, of ip netif alloc port] assms(4) by (simp add: Let_def)
  next
    case (Some j)
    then have "\<not> is_vacant (?es ! j)" using assms(3,5) entry_atD [OF Some] by (simp add: released_nth)
    then show ?thesis using request_some [OF ok, of ip netif alloc port] assms(4) Some by (simp add: Let_def)
  qed
  finally show ?thesis using k assms(3) by (simp add: released_nth is_vacant_def)
qed

lemma dhcp_refused_loses_lease_example:
  "\<exists>s'. udp_recv_proc (usb_ipaddr, usb_netmask) True
      (usb_server\<lparr>dh_entries := [(usb_entries ! 0)\<lparr>e_mac := [2, 0, 0, 0, 0, 1]\<rparr>, usb_entries ! 1, usb_entries ! 2]\<rparr>)
      (request_packet [2, 0, 0, 0, 0, 1] (ip_of [10, 0, 0, 7])) 68 = Inr (s', None) \<and> is_vacant (dh_entries s' ! 0)"
proof -
  let ?s = "usb_server\<lparr>dh_entries := [(usb_entries ! 0)\<lparr>e_mac := [2, 0, 0, 0, 0, 1]\<rparr>, usb_entries ! 1, usb_entries ! 2]\<rparr>"
  have ok: "dh_ok usb_dhcp_config ?s"
    using usb_server_ok(1) by (auto simp: dh_ok_def usb_entries_def usb_dhcp_config_def)
  have m: "length [2, 0, 0, 0, 0, 1 :: u8] = 6" "length (dhcp_data ?s) = 516" by simp_all
  note f = request_packet_facts [OF m, of "ip_of [10, 0, 0, 7]"]
  have k: "entry_of (dh_entries ?s) (client_of (received ?s (request_packet [2, 0, 0, 0, 0, 1] (ip_of [10, 0, 0, 7])))) = Some 0"
    unfolding f(2) by (simp add: entry_of_def upt_rec)
  have ne: "ip_of [192, 168, 4, x] \<noteq> ip_of [10, 0, 0, 7]" for x
  proof -
    have "ip_bytes (ip_of [192, 168, 4, x]) \<noteq> ip_bytes (ip_of [10, 0, 0, 7])" by (simp add: ip_bytes_of)
    then show ?thesis by metis
  qed
  have "entry_at (dh_entries ?s) (ip_of [10, 0, 0, 7]) = None"
    using ne by (simp add: entry_at_def usb_entries_def upt_rec)
  then show ?thesis using dhcp_refused_loses_lease [OF ok f(1) k f(3), of "(usb_ipaddr, usb_netmask)" True 68] by auto
qed

end
