(* ===== verification/DNS_Server.thy ===== *)
theory DNS_Server
  imports DHCP_Server
begin

text \<open>
  The name server of the USB network (\<open>dnserver.c\<close>) with the name the firmware knows
  (\<open>dns_query_proc\<close> of \<open>usb_netif.c\<close>): the parser of a question, the answer to a datagram and the
  control block. A datagram is the bytes of its first buffer; the buffer for the answer is an
  argument.
\<close>

definition DNS_MAX_HOST_NAME_LEN :: nat where "DNS_MAX_HOST_NAME_LEN = 128"
definition DNS_HEADER_SIZE :: nat where "DNS_HEADER_SIZE = 12"

record dns_query =
  q_name :: "u8 list"
  q_type :: u16
  q_Class :: u16

definition dns_query_reset :: dns_query where
  "dns_query_reset = \<lparr>q_name = replicate DNS_MAX_HOST_NAME_LEN 0, q_type = 0, q_Class = 0\<rparr>"

definition get_uint16 :: "u8 list \<Rightarrow> nat \<Rightarrow> u16 res" where
  "get_uint16 mem p = bindR (rd mem p) (\<lambda>l. bindR (rd mem (p + 1)) (\<lambda>h. Inr (be16 h l)))"

text \<open>\<open>memcpy\<close> from one buffer into another, at offsets.\<close>

definition copy_to :: "u8 list \<Rightarrow> nat \<Rightarrow> u8 list \<Rightarrow> nat \<Rightarrow> nat \<Rightarrow> u8 list res" where
  "copy_to dst dp src sp n =
     (if dp + n \<le> length dst \<and> sp + n \<le> length src then Inr (blit dp (window sp n src) dst)
      else Inl Out_Of_Bounds)"

subsection \<open>Parsing a question\<close>

text \<open>The loop over the labels; on the left a negative code and what is in the name by then, otherwise
  the reading position, the remaining size, the length of the name and the name.\<close>

type_synonym label_state = "nat \<times> nat \<times> nat \<times> u8 list"

function label_loop :: "u8 list \<Rightarrow> nat \<Rightarrow> nat \<Rightarrow> nat \<Rightarrow> nat \<Rightarrow> u8 list \<Rightarrow> (int \<times> u8 list + label_state) res" where
  "label_loop data ptr left len labels name =
     (if left = 0 then Inr (Inl (-1, name))
      else bindR (rd data ptr) (\<lambda>b.
        let lable_len = unat b; ptr1 = ptr + 1; left1 = left - 1 in
        if lable_len = 0 then Inr (Inr (ptr1, left1, len, name))
        else if labels > 0 \<and> len = DNS_MAX_HOST_NAME_LEN then Inr (Inl (-2, name))
        else bindR (if labels > 0 then wr name len 0x2E else Inr name) (\<lambda>name1.
          let len1 = (if labels > 0 then len + 1 else len) in
          if lable_len > left1 then Inr (Inl (-1, name1))
          else if len1 + lable_len \<ge> DNS_MAX_HOST_NAME_LEN then Inr (Inl (-2, name1))
          else bindR (copy_to name1 len1 data ptr1 lable_len) (\<lambda>name2.
            label_loop data (ptr1 + lable_len) (left1 - lable_len) (len1 + lable_len) (labels + 1) name2))))"
  by pat_completeness auto

termination
  by (relation "measure (\<lambda>(data, ptr, left, len, labels, name). left)") auto

declare label_loop.simps [simp del]

definition parse_next_query :: "u8 list \<Rightarrow> nat \<Rightarrow> dns_query \<Rightarrow> (dns_query \<times> int) res" where
  "parse_next_query data sz query =
     bindR (label_loop data 0 sz 0 0 (q_name query)) (\<lambda>r.
     case r of
       Inl (e, name) \<Rightarrow> Inr (query\<lparr>q_name := name\<rparr>, e)
     | Inr (ptr, left, len, name) \<Rightarrow>
         if left < 4 then Inr (query\<lparr>q_name := name\<rparr>, -1)
         else
           bindR (wr name len 0) (\<lambda>name1.
           bindR (get_uint16 data ptr) (\<lambda>t.
           bindR (get_uint16 data (ptr + 2)) (\<lambda>c.
           Inr (\<lparr>q_name = name1, q_type = t, q_Class = c\<rparr>, int (ptr + 4))))))"

subsection \<open>The answer\<close>

definition c_string :: "u8 list \<Rightarrow> u8 list" where
  "c_string bs = takeWhile (\<lambda>b. b \<noteq> 0) bs"

definition tiny_usb :: "u8 list" where
  "tiny_usb = [0x74, 0x69, 0x6E, 0x79, 0x2E, 0x75, 0x73, 0x62]"

definition dns_query_proc :: "u8 list \<Rightarrow> u32 option" where
  "dns_query_proc name = (if c_string name = tiny_usb then Some usb_ipaddr else None)"

text \<open>The 16 bytes of \<open>dns_answer_t\<close>.\<close>

definition dns_answer :: "u32 \<Rightarrow> u8 list" where
  "dns_answer addr = [0xC0, 0x0C, 0, 1, 0, 1, 0, 0, 0, 32, 0, 4] @ ip_bytes addr"

definition dns_recv_proc ::
  "bool \<Rightarrow> (u8 list \<Rightarrow> u32 option) \<Rightarrow> dns_query \<Rightarrow> u8 list \<Rightarrow> (dns_query \<times> u8 list option) res" where
  "dns_recv_proc alloc query_proc query payload =
     (if length payload \<le> DNS_HEADER_SIZE then Inr (query, None)
      else
        bindR (rd payload 2) (\<lambda>f.
        if bit f 7 then Inr (query, None)
        else
          bindR (rd payload 4) (\<lambda>h. bindR (rd payload 5) (\<lambda>l.
          if be16 h l \<noteq> 1 then Inr (query, None)
          else
            bindR (parse_next_query (drop DNS_HEADER_SIZE payload) (length payload - DNS_HEADER_SIZE) query)
              (\<lambda>(query1, r).
            if r < 0 then Inr (query1, None)
            else
              case query_proc (q_name query1) of
                None \<Rightarrow> Inr (query1, None)
              | Some host_addr \<Rightarrow>
                  let len = nat r + DNS_HEADER_SIZE in
                  if \<not> alloc then Inr (query1, None)
                  else
                    bindR (copy_to (replicate (len + 16) 0) 0 payload 0 len) (\<lambda>out.
                    let out1 = out[2 := (out ! 2) OR 0x80];
                        out2 = blit 6 [0, 1] out1 in
                    Inr (query1, Some (blit len (dns_answer host_addr) out2))))))))"

record dnsserver =
  dns_pcb :: "nat option"
  dns_proc :: "(u8 list \<Rightarrow> u32 option) option"
  dns_pcbs :: "nat list"

definition dnserv_free :: "dnsserver \<Rightarrow> dnsserver" where
  "dnserv_free s =
     (case dns_pcb s of
        None \<Rightarrow> s
      | Some p \<Rightarrow> s\<lparr>dns_pcbs := remove1 p (dns_pcbs s), dns_pcb := None\<rparr>)"

definition dnserv_init ::
  "nat option \<Rightarrow> err_t \<Rightarrow> dnsserver \<Rightarrow> (u8 list \<Rightarrow> u32 option) \<Rightarrow> dnsserver \<times> err_t" where
  "dnserv_init new_pcb bound s qp =
     (let s1 = dnserv_free s in
      case new_pcb of
        None \<Rightarrow> (s1\<lparr>dns_pcb := None\<rparr>, ERR_MEM)
      | Some p \<Rightarrow>
          let s2 = s1\<lparr>dns_pcb := Some p, dns_pcbs := p # dns_pcbs s1\<rparr> in
          if bound \<noteq> ERR_OK then (dnserv_free s2, bound)
          else (s2\<lparr>dns_proc := Some qp\<rparr>, ERR_OK))"

section \<open>The parser\<close>

lemma copy_to_in:
  "dp + n \<le> length dst \<Longrightarrow> sp + n \<le> length src \<Longrightarrow> copy_to dst dp src sp n = Inr (blit dp (window sp n src) dst)"
  by (simp add: copy_to_def)

text \<open>Whatever the bytes are, the loop stays in both buffers.\<close>

lemma label_loop_total:
  assumes "length data = ptr + left" and "length name = 128" and "len < 128"
  shows "\<exists>r. label_loop data ptr left len labels name = Inr r \<and>
    (case r of Inl (e, name') \<Rightarrow> (e = -1 \<or> e = -2) \<and> length name' = 128
     | Inr (ptr', left', len', name') \<Rightarrow> ptr' + left' = length data \<and> length name' = 128 \<and> len' < 128 \<and> ptr < ptr')"
  using assms
proof (induction data ptr left len labels name rule: label_loop.induct)
  case (1 data ptr left len labels name)
  show ?case
  proof (cases "left = 0")
    case True
    then show ?thesis using "1.prems"(2) by (subst label_loop.simps) simp
  next
    case False
    then have b: "rd data ptr = Inr (data ! ptr)" using "1.prems"(1) by simp
    let ?n = "unat (data ! ptr)"
    define name1 where "name1 = (if labels > 0 then name[len := 0x2E] else name)"
    define len1 where "len1 = (if labels > 0 then len + 1 else len)"
    have n1: "(if labels > 0 then wr name len 0x2E else Inr name) = Inr name1" "length name1 = 128"
      using "1.prems"(2,3) by (simp_all add: name1_def)
    show ?thesis
    proof (cases "?n = 0 \<or> ?n > left - 1 \<or> len1 + ?n \<ge> 128")
      case True
      then show ?thesis using False b n1 "1.prems"
        by (subst label_loop.simps) (auto simp: Let_def len1_def [symmetric] DNS_MAX_HOST_NAME_LEN_def)
    next
      case n: False
      then have c: "copy_to name1 len1 data (ptr + 1) ?n = Inr (blit len1 (window (ptr + 1) ?n data) name1)"
        using n1(2) "1.prems"(1) False by (intro copy_to_in) auto
      have step: "label_loop data ptr left len labels name =
          label_loop data (ptr + 1 + ?n) (left - 1 - ?n) (len1 + ?n) (labels + 1) (blit len1 (window (ptr + 1) ?n data) name1)"
        using False b n n1 c "1.prems"(3)
        by (subst label_loop.simps) (simp add: Let_def len1_def [symmetric] DNS_MAX_HOST_NAME_LEN_def)
      have "\<not> ?n = 0" "\<not> (0 < labels \<and> len = DNS_MAX_HOST_NAME_LEN)" "\<not> left - 1 < ?n"
        "\<not> DNS_MAX_HOST_NAME_LEN \<le> len1 + ?n"
        using n "1.prems"(3) by (auto simp: DNS_MAX_HOST_NAME_LEN_def)
      note ih = "1.IH" [OF False b refl refl refl this(1,2) n1(1) len1_def this(3,4) c]
      have "length data = ptr + 1 + ?n + (left - 1 - ?n)" "length (blit len1 (window (ptr + 1) ?n data) name1) = 128"
        "len1 + ?n < 128"
        using n n1(2) "1.prems"(1) False by auto
      from ih [OF this] obtain r where r: "label_loop data (ptr + 1 + ?n) (left - 1 - ?n) (len1 + ?n) (labels + 1)
          (blit len1 (window (ptr + 1) ?n data) name1) = Inr r"
        "case r of Inl (e, name') \<Rightarrow> (e = -1 \<or> e = -2) \<and> length name' = 128
         | Inr (ptr', left', len', name') \<Rightarrow> ptr' + left' = length data \<and> length name' = 128 \<and> len' < 128 \<and> ptr + 1 + ?n < ptr'"
        by blast
      then show ?thesis unfolding step by (cases r) auto
    qed
  qed
qed

lemma parse_total:
  assumes "length data = sz" and "length (q_name q) = 128"
  shows "\<exists>q' r. parse_next_query data sz q = Inr (q', r) \<and> length (q_name q') = 128 \<and>
    (r = -1 \<or> r = -2 \<or> (0 < r \<and> r \<le> int sz \<and> 0 \<in> set (q_name q')))"
proof -
  have "length data = 0 + sz" "(0 :: nat) < 128" using assms(1) by simp_all
  from label_loop_total [OF this(1) assms(2) this(2), of 0] obtain r where
    r: "label_loop data 0 sz 0 0 (q_name q) = Inr r"
    "case r of Inl (e, name') \<Rightarrow> (e = -1 \<or> e = -2) \<and> length name' = 128
     | Inr (ptr', left', len', name') \<Rightarrow> ptr' + left' = length data \<and> length name' = 128 \<and> len' < 128 \<and> 0 < ptr'"
    by blast
  show ?thesis
  proof (cases r)
    case (Inl x)
    then show ?thesis using r by (cases x) (auto simp: parse_next_query_def)
  next
    case (Inr x)
    obtain ptr left len name where x: "x = (ptr, left, len, name)" by (cases x)
    then have b: "ptr + left = sz" "length name = 128" "len < 128" "0 < ptr" using r Inr assms(1) by auto
    show ?thesis
    proof (cases "left < 4")
      case True
      then show ?thesis using r b Inr x by (simp add: parse_next_query_def)
    next
      case False
      then have "ptr + 4 \<le> length data" using b assms(1) by simp
      then have "\<exists>t. get_uint16 data ptr = Inr t" "\<exists>t. get_uint16 data (ptr + 2) = Inr t"
        by (simp_all add: get_uint16_def)
      moreover have "0 \<in> set (name[len := 0])" using b by (simp add: set_update_memI)
      ultimately show ?thesis using r b Inr x False assms(1)
        by (auto simp: parse_next_query_def)
    qed
  qed
qed

text \<open>The bytes of a name, and the name with its dots.\<close>

definition dns_name :: "u8 list list \<Rightarrow> u8 list" where
  "dns_name ls = concat (map (\<lambda>l. word_of_nat (length l) # l) ls) @ [0]"

fun joined :: "bool \<Rightarrow> u8 list list \<Rightarrow> u8 list" where
  "joined first [] = []"
| "joined first (l # ls) = (if first then l else 0x2E # l) @ joined False ls"

definition labels_ok :: "u8 list list \<Rightarrow> bool" where
  "labels_ok ls \<longleftrightarrow> (\<forall>l \<in> set ls. l \<noteq> [] \<and> length l < 256)"

lemma blit_append:
  "o1 + length xs + length ys \<le> length m \<Longrightarrow> blit o1 (xs @ ys) m = blit (o1 + length xs) ys (blit o1 xs m)"
  by (simp add: blit_def ac_simps)

lemma label_loop_name:
  assumes "data = pre @ dns_name ls @ tail" and "labels_ok ls" and "length name = 128"
    and "len + length (joined (labels = 0) ls) < 128"
  shows "label_loop data (length pre) (length (dns_name ls @ tail)) len labels name =
    Inr (Inr (length (pre @ dns_name ls), length tail, len + length (joined (labels = 0) ls),
      blit len (joined (labels = 0) ls) name))"
  using assms
proof (induction ls arbitrary: pre len labels name)
  case Nil
  then show ?case by (subst label_loop.simps) (simp add: dns_name_def Let_def nth_append)
next
  case (Cons l ls)
  let ?w = "word_of_nat (length l) :: u8" and ?dot = "if labels = 0 then [] else [0x2E] :: u8 list"
  have l: "l \<noteq> []" "length l < 256" "labels_ok ls" using Cons.prems(2) by (auto simp: labels_ok_def)
  have u: "unat ?w = length l" using l(2) by (simp add: unat_of_nat)
  have dn: "dns_name (l # ls) = (?w # l) @ dns_name ls" by (simp add: dns_name_def)
  have data: "data = (pre @ ?w # l) @ dns_name ls @ tail" unfolding Cons.prems(1) dn by simp
  have j: "joined (labels = 0) (l # ls) = (?dot @ l) @ joined False ls" by simp
  let ?len1 = "len + length ?dot"
  have b: "rd data (length pre) = Inr ?w" by (simp add: data nth_append)
  have n1: "(if labels > 0 then wr name len 0x2E else Inr name) = Inr (blit len ?dot name)"
    using Cons.prems(3,4) by (auto simp: blit_Cons)
  have fit: "?len1 + length l + length (joined False ls) < 128" using Cons.prems(4) by (simp add: j split: if_splits)
  have nl: "length (blit len ?dot name) = 128" using Cons.prems(3,4) by auto
  have c: "copy_to (blit len ?dot name) ?len1 data (Suc (length pre)) (length l) =
      Inr (blit ?len1 l (blit len ?dot name))"
    using nl fit by (subst copy_to_in) (simp_all add: data window_def)
  have len1: "(if labels > 0 then len + 1 else len) = ?len1" by simp
  have "label_loop data (length pre) (length (dns_name (l # ls) @ tail)) len labels name =
      label_loop data (length (pre @ ?w # l)) (length (dns_name ls @ tail)) (?len1 + length l) (labels + 1)
        (blit ?len1 l (blit len ?dot name))"
    using b u l c nl fit Cons.prems(4) n1 unfolding dn
    by (subst label_loop.simps) (simp add: Let_def len1 DNS_MAX_HOST_NAME_LEN_def)
  also have "\<dots> = Inr (Inr (length ((pre @ ?w # l) @ dns_name ls), length tail,
      ?len1 + length l + length (joined False ls), blit (?len1 + length l) (joined False ls) (blit ?len1 l (blit len ?dot name))))"
    using Cons.IH [OF data l(3), of "blit ?len1 l (blit len ?dot name)" "?len1 + length l" "labels + 1"] fit nl
    by simp
  also have "blit (?len1 + length l) (joined False ls) (blit ?len1 l (blit len ?dot name)) =
      blit len (joined (labels = 0) (l # ls)) name"
    unfolding j using fit Cons.prems(3) by (simp add: blit_append add.assoc)
  finally show ?case unfolding j dn by (simp add: add.assoc)
qed

text \<open>A question and the header of its answer.\<close>

definition question :: "u8 list list \<Rightarrow> u16 \<Rightarrow> u16 \<Rightarrow> u8 list" where
  "question ls t c = dns_name ls @ [lo_byte t, hi_byte t, lo_byte c, hi_byte c]"

definition answer_header :: "u8 list \<Rightarrow> u8 list" where
  "answer_header h = blit 6 [0, 1] (h[2 := (h ! 2) OR 0x80])"

lemma parse_question:
  assumes "labels_ok ls" and "length (joined True ls) < 128" and "length (q_name q) = 128"
  shows "parse_next_query (question ls t c @ rest) (length (question ls t c @ rest)) q =
    Inr (\<lparr>q_name = blit 0 (joined True ls @ [0]) (q_name q), q_type = t, q_Class = c\<rparr>, int (length (question ls t c)))"
proof -
  let ?tail = "[lo_byte t, hi_byte t, lo_byte c, hi_byte c] @ rest"
  let ?data = "dns_name ls @ ?tail"
  have d: "question ls t c @ rest = ?data" by (simp add: question_def)
  have loop: "label_loop ?data 0 (length ?data) 0 0 (q_name q) =
      Inr (Inr (length (dns_name ls), length ?tail, length (joined True ls), blit 0 (joined True ls) (q_name q)))"
    using label_loop_name [of ?data "[]" ls ?tail "q_name q" 0 0] assms by simp
  have w: "wr (blit 0 (joined True ls) (q_name q)) (length (joined True ls)) 0 =
      Inr (blit 0 (joined True ls @ [0]) (q_name q))"
    using assms(2,3) by (simp add: blit_append blit_Cons)
  have g: "get_uint16 ?data (length (dns_name ls)) = Inr t" "get_uint16 ?data (length (dns_name ls) + 2) = Inr c"
    by (simp_all add: get_uint16_def nth_append)
  show ?thesis unfolding d parse_next_query_def loop using w g by (simp add: question_def)
qed

lemma blit_at_end: "length p = k \<Longrightarrow> length ys = length z \<Longrightarrow> blit k ys (p @ z) = p @ ys"
  by (simp add: blit_def)

lemma c_string_terminated: "0 \<in> set xs \<Longrightarrow> c_string (xs @ ys) = c_string xs"
  by (induction xs) (auto simp: c_string_def)

lemma c_string_zero: "c_string (xs @ [0]) = c_string xs"
  by (induction xs) (auto simp: c_string_def)

section \<open>Properties\<close>

text \<open>No datagram makes the name server read or write outside its buffers: for every sequence of
  bytes the name stays in its 128 characters, and either nothing is sent or the datagram has a
  question that ends inside it and the answer is that much of it and 16 bytes.\<close>

lemma dns_total:
  assumes "length (q_name q) = 128"
  shows "\<exists>q' out. dns_recv_proc alloc qp q payload = Inr (q', out) \<and> length (q_name q') = 128 \<and>
    (\<forall>r. out = Some r \<longrightarrow> 28 < length r \<and> length r \<le> length payload + 16 \<and> 0 \<in> set (q_name q'))"
proof (cases "length payload \<le> 12 \<or> bit (payload ! 2) 7 \<or> be16 (payload ! 4) (payload ! 5) \<noteq> 1")
  case True
  then show ?thesis using assms by (auto simp: dns_recv_proc_def DNS_HEADER_SIZE_def)
next
  case False
  have "length (drop 12 payload) = length payload - 12" by simp
  from parse_total [OF this assms] obtain q' r where
    p: "parse_next_query (drop 12 payload) (length payload - 12) q = Inr (q', r)" "length (q_name q') = 128"
    "r = -1 \<or> r = -2 \<or> (0 < r \<and> r \<le> int (length payload - 12) \<and> 0 \<in> set (q_name q'))" by blast
  show ?thesis
  proof (cases "r < 0 \<or> qp (q_name q') = None \<or> \<not> alloc")
    case True
    then show ?thesis using False p by (auto simp: dns_recv_proc_def DNS_HEADER_SIZE_def split: option.splits)
  next
    case ok: False
    then obtain a where a: "qp (q_name q') = Some a" by auto
    have r: "0 < nat r" "nat r + 12 \<le> length payload" "0 \<in> set (q_name q')" using p(3) ok False by auto
    have "copy_to (replicate (28 + nat r) 0) 0 payload 0 (nat r + 12) =
        Inr (blit 0 (window 0 (nat r + 12) payload) (replicate (28 + nat r) 0))"
      using r by (intro copy_to_in) auto
    then show ?thesis using False p(1,2) ok a r
      by (auto simp: dns_recv_proc_def DNS_HEADER_SIZE_def Let_def dns_answer_def)
  qed
qed

lemma dns_total_example:
  "\<exists>q' out. dns_recv_proc True dns_query_proc dns_query_reset (replicate 4 0 @ [0, 1] @ replicate 6 0 @ [200, 65]) = Inr (q', out) \<and>
    length (q_name q') = 128"
  using dns_total [of dns_query_reset True dns_query_proc "replicate 4 0 @ [0, 1] @ replicate 6 0 @ [200, 65]"]
  by (auto simp: dns_query_reset_def DNS_MAX_HOST_NAME_LEN_def)

text \<open>C37: A question for \<open>tiny.usb\<close> is answered with the address of the board, and any other name is not
  answered at all. This holds for every type and class that is asked for and every tail of the
  datagram; the answer repeats the header with the counts of the further sections as they
  were, although the answer does not contain these sections.\<close>

theorem dns_answers:
  assumes "length h = 12" and "\<not> bit (h ! 2) 7" and "h ! 4 = 0" and "h ! 5 = 1"
    and "labels_ok ls" and "length (joined True ls) < 128" and "length (q_name q) = 128"
  shows "\<exists>q'. dns_recv_proc alloc dns_query_proc q (h @ question ls t c @ rest) =
    Inr (q', if alloc \<and> c_string (joined True ls) = tiny_usb
             then Some (answer_header h @ question ls t c @ dns_answer usb_ipaddr) else None)"
proof -
  let ?q = "\<lparr>q_name = blit 0 (joined True ls @ [0]) (q_name q), q_type = t, q_Class = c\<rparr>"
  let ?n = "length (question ls t c)" and ?p = "h @ question ls t c @ rest"
  have b: "be16 0 1 = 1" by (simp add: be16_def)
  have name: "c_string (q_name ?q) = c_string (joined True ls)"
    using c_string_terminated [of "joined True ls @ [0]"] by (simp add: blit_def c_string_zero)
  have h: "rd ?p 2 = Inr (h ! 2)" "rd ?p 4 = Inr 0" "rd ?p 5 = Inr 1"
    using assms(1,3,4) by (simp_all add: rd_def nth_append)
  have par: "parse_next_query (question ls t c @ rest) (?n + length rest) q = Inr (?q, int ?n)"
    using parse_question [OF assms(5-7), of t c rest] by simp
  have n0: "0 < ?n" by (simp add: question_def)
  have copy: "copy_to (replicate (28 + ?n) 0) 0 ?p 0 (?n + 12) = Inr (h @ question ls t c @ replicate 16 0)"
    using assms(1) by (subst copy_to_in) (simp_all add: window_def blit_def)
  have "blit 6 [0, 1] ((h @ question ls t c @ replicate 16 0)[2 := ((h @ question ls t c @ replicate 16 0) ! 2) OR 0x80]) =
      (answer_header h @ question ls t c) @ replicate 16 0"
    using assms(1) by (simp add: answer_header_def nth_append list_update_append blit_def)
  then have "blit (?n + 12) (dns_answer a) (blit 6 [0, 1] ((h @ question ls t c @ replicate 16 0)[2 :=
      ((h @ question ls t c @ replicate 16 0) ! 2) OR 0x80])) = answer_header h @ question ls t c @ dns_answer a" for a
    using blit_at_end [of "answer_header h @ question ls t c" "?n + 12" "dns_answer a" "replicate 16 0"] assms(1)
    by (simp add: answer_header_def dns_answer_def)
  then show ?thesis using assms(1,2) h b par n0 name copy
    by (cases "c_string (joined True ls) = tiny_usb")
      (simp_all add: dns_recv_proc_def DNS_HEADER_SIZE_def Let_def dns_query_proc_def)
qed

theorem dns_answers_witness:
  "\<exists>q'. dns_recv_proc True dns_query_proc dns_query_reset
     ([0x12, 0x34, 1, 0, 0, 1, 0, 0, 0, 0, 0, 1] @ question [[0x74, 0x69, 0x6E, 0x79], [0x75, 0x73, 0x62]] 1 1 @ []) =
   Inr (q', Some ([0x12, 0x34, 0x81, 0, 0, 1, 0, 1, 0, 0, 0, 1] @
     question [[0x74, 0x69, 0x6E, 0x79], [0x75, 0x73, 0x62]] 1 1 @ dns_answer usb_ipaddr))"
proof -
  let ?ls = "[[0x74, 0x69, 0x6E, 0x79], [0x75, 0x73, 0x62 :: u8]]"
  let ?h = "[0x12, 0x34, 1, 0, 0, 1, 0, 0, 0, 0, 0, 1 :: u8]"
  have j: "joined True ?ls = tiny_usb" by (simp add: tiny_usb_def)
  have c: "c_string (joined True ?ls) = tiny_usb" unfolding j by (simp add: c_string_def tiny_usb_def)
  have a: "answer_header ?h = [0x12, 0x34, 0x81, 0, 0, 1, 0, 1, 0, 0, 0, 1]"
    by (simp add: answer_header_def blit_def)
  have "\<not> bit (?h ! 2) 7" by simp
  from dns_answers [of ?h, OF _ this, of ?ls dns_query_reset True 1 1 "[]"] c
  show ?thesis unfolding a by (simp add: labels_ok_def tiny_usb_def dns_query_reset_def DNS_MAX_HOST_NAME_LEN_def)
qed

end
