(* ===== verification/USB_Netif.thy ===== *)
theory USB_Netif
  imports Board DNS_Server
begin

text \<open>
  The USB network interface (\<open>usb_netif.c\<close>): the lwIP interface with its link state, the callbacks
  of the USB stack, packets in both directions, the blinking LED, and the start of the task with
  the two servers. Of lwIP the setting of the link state (\<open>netif.c\<close>) is modelled, of TinyUSB the
  link state it reports to the host; their other answers are arguments.
\<close>

definition BLINK_NOT_MOUNTED :: u32 where "BLINK_NOT_MOUNTED = 250"
definition BLINK_MOUNTED :: u32 where "BLINK_MOUNTED = 1000"
definition BLINK_SUSPENDED :: u32 where "BLINK_SUSPENDED = 2500"
definition CFG_TUD_NET_MTU :: nat where "CFG_TUD_NET_MTU = 1514"

lemmas blink_consts = BLINK_NOT_MOUNTED_def BLINK_MOUNTED_def BLINK_SUSPENDED_def

definition tud_network_mac_address :: "u8 list" where
  "tud_network_mac_address = [0x02, 0x02, 0x84, 0x6A, 0x96, 0x00]"

text \<open>\<open>has_link_callback\<close> tells whether the link callback is installed; \<open>host_link\<close> is the link
  state TinyUSB reports to the host, \<open>live_pbufs\<close> the packets that this module owns.\<close>

record usb_netif =
  flag_up :: bool
  flag_link_up :: bool
  has_link_callback :: bool
  nif_mtu :: nat
  hwaddr :: "u8 list"
  nif_ip :: u32
  nif_netmask :: u32
  nif_gw :: u32
  host_link :: bool
  blink_interval_ms :: u32
  start_ms :: u32
  led_state :: bool
  live_pbufs :: nat

definition usb_netif_reset :: usb_netif where
  "usb_netif_reset =
     \<lparr>flag_up = False, flag_link_up = False, has_link_callback = False, nif_mtu = 0, hwaddr = replicate 6 0,
      nif_ip = 0, nif_netmask = 0, nif_gw = 0, host_link = True, blink_interval_ms = BLINK_NOT_MOUNTED,
      start_ms = 0, led_state = False, live_pbufs = 0\<rparr>"

subsection \<open>Link state\<close>

text \<open>
  Besides this callback, TinyUSB's \<open>netd_init\<close> sets the link state at every bus reset (\<open>ncm_device.c\<close>). It is not
  modelled: a reset is followed by one of the callbacks below.
\<close>

definition usbnet_netif_link_callback :: "usb_netif \<Rightarrow> usb_netif" where
  "usbnet_netif_link_callback s = s\<lparr>host_link := flag_link_up s\<rparr>"

definition netif_set_link_up :: "usb_netif \<Rightarrow> usb_netif" where
  "netif_set_link_up s =
     (if \<not> flag_link_up s then
        let s1 = s\<lparr>flag_link_up := True\<rparr> in
        if has_link_callback s1 then usbnet_netif_link_callback s1 else s1
      else s)"

definition netif_set_link_down :: "usb_netif \<Rightarrow> usb_netif" where
  "netif_set_link_down s =
     (if flag_link_up s then
        let s1 = s\<lparr>flag_link_up := False\<rparr> in
        if has_link_callback s1 then usbnet_netif_link_callback s1 else s1
      else s)"

definition netif_init_cb :: "usb_netif \<Rightarrow> usb_netif" where
  "netif_init_cb s = s\<lparr>nif_mtu := CFG_TUD_NET_MTU, flag_up := True, flag_link_up := True\<rparr>"

text \<open>\<open>netif_add\<close> clears the flags and the callback before it calls the function above.\<close>

definition netif_add :: "usb_netif \<Rightarrow> u32 \<Rightarrow> u32 \<Rightarrow> u32 \<Rightarrow> usb_netif" where
  "netif_add s ip nm gw =
     netif_init_cb (s\<lparr>nif_mtu := 0, flag_up := False, flag_link_up := False, has_link_callback := False,
                      nif_ip := ip, nif_netmask := nm, nif_gw := gw\<rparr>)"

definition init_lwip :: "usb_netif \<Rightarrow> usb_netif" where
  "init_lwip s =
     (let s1 = s\<lparr>hwaddr := tud_network_mac_address[5 := (tud_network_mac_address ! 5) XOR 1]\<rparr>;
          s2 = netif_add s1 usb_ipaddr usb_netmask usb_gateway in
      netif_set_link_up (s2\<lparr>has_link_callback := True\<rparr>))"

subsection \<open>Callbacks of the USB stack\<close>

definition tud_mount_cb :: "usb_netif \<Rightarrow> usb_netif" where
  "tud_mount_cb s = netif_set_link_up (s\<lparr>blink_interval_ms := BLINK_MOUNTED\<rparr>)"

definition tud_umount_cb :: "usb_netif \<Rightarrow> usb_netif" where
  "tud_umount_cb s = netif_set_link_down (s\<lparr>blink_interval_ms := BLINK_NOT_MOUNTED\<rparr>)"

definition tud_suspend_cb :: "usb_netif \<Rightarrow> usb_netif" where
  "tud_suspend_cb s = s\<lparr>blink_interval_ms := BLINK_SUSPENDED\<rparr>"

definition tud_resume_cb :: "bool \<Rightarrow> usb_netif \<Rightarrow> usb_netif" where
  "tud_resume_cb mounted s =
     s\<lparr>blink_interval_ms := (if mounted then BLINK_MOUNTED else BLINK_NOT_MOUNTED)\<rparr>"

subsection \<open>Packets\<close>

text \<open>A packet from the host: \<open>alloc\<close> is whether there is a buffer, \<open>taken\<close> whether the stack's input
  takes it. The answer has the returned value, what the stack was given, and whether TinyUSB may
  send the next packet.\<close>

definition tud_network_recv_cb ::
  "bool \<Rightarrow> bool \<Rightarrow> usb_netif \<Rightarrow> u8 list \<Rightarrow> u16 \<Rightarrow> (usb_netif \<times> bool \<times> u8 list option \<times> bool) res" where
  "tud_network_recv_cb alloc taken s src sz =
     (if sz \<noteq> 0 then
        if \<not> alloc then Inr (s, False, None, False)
        else if length src < unat sz then Inl Out_Of_Bounds
        else
          let p = take (unat sz) src; s1 = s\<lparr>live_pbufs := live_pbufs s + 1\<rparr>;
              s2 = s1\<lparr>live_pbufs := live_pbufs s1 - 1\<rparr> in
          Inr (s2, True, if taken then Some p else None, True)
      else Inr (s, True, None, False))"

definition tud_network_xmit_cb :: "u8 list \<Rightarrow> u8 list \<Rightarrow> (u8 list \<times> nat) res" where
  "tud_network_xmit_cb dst p =
     (if length dst < length p then Inl Out_Of_Bounds else Inr (blit 0 p dst, length p))"

text \<open>The loop that hands a packet to TinyUSB: each turn tells whether the device is ready and whether
  the driver can take the packet; None while the turns listed do not suffice. The second part
  says whether the packet was handed over.\<close>

fun linkoutput_fn :: "(bool \<times> bool) list \<Rightarrow> (err_t \<times> bool) option" where
  "linkoutput_fn [] = None"
| "linkoutput_fn ((ready, can_xmit) # turns) =
     (if \<not> ready then Some (ERR_USE, False)
      else if can_xmit then Some (ERR_OK, True)
      else linkoutput_fn turns)"

subsection \<open>The LED\<close>

definition led_blinking_task :: "u32 \<Rightarrow> usb_netif \<Rightarrow> ('c, 't) board \<Rightarrow> usb_netif \<times> ('c, 't) board" where
  "led_blinking_task now s b =
     (if now - start_ms s < blink_interval_ms s then (s, b)
      else
        let s1 = s\<lparr>start_ms := start_ms s + blink_interval_ms s\<rparr>;
            b1 = b\<lparr>level := (level b)((GPIOC, 13) := led_state s)\<rparr> in
        (s1\<lparr>led_state := \<not> led_state s1\<rparr>, b1))"

subsection \<open>The task\<close>

text \<open>The two servers are started over and over until they report success.\<close>

fun dhcp_start :: "(nat option \<times> err_t) list \<Rightarrow> dhserver \<Rightarrow> dhserver option" where
  "dhcp_start [] s = None"
| "dhcp_start ((p, bound) # as) s =
     (case dhserv_init p bound s usb_dhcp_config of
        (s', e) \<Rightarrow> if e \<noteq> ERR_OK then dhcp_start as s' else Some s')"

fun dns_start :: "(nat option \<times> err_t) list \<Rightarrow> dnsserver \<Rightarrow> dnsserver option" where
  "dns_start [] s = None"
| "dns_start ((p, bound) # as) s =
     (case dnserv_init p bound s dns_query_proc of
        (s', e) \<Rightarrow> if e \<noteq> ERR_OK then dns_start as s' else Some s')"

datatype usb_event = Mounted | Unmounted | Suspended | Resumed bool | Blink u32

fun usb_event_step :: "usb_event \<Rightarrow> usb_netif \<times> ('c, 't) board \<Rightarrow> usb_netif \<times> ('c, 't) board" where
  "usb_event_step Mounted (s, b) = (tud_mount_cb s, b)"
| "usb_event_step Unmounted (s, b) = (tud_umount_cb s, b)"
| "usb_event_step Suspended (s, b) = (tud_suspend_cb s, b)"
| "usb_event_step (Resumed mounted) (s, b) = (tud_resume_cb mounted s, b)"
| "usb_event_step (Blink now) (s, b) = led_blinking_task now s b"

definition usb_run :: "usb_event list \<Rightarrow> usb_netif \<times> ('c, 't) board \<Rightarrow> usb_netif \<times> ('c, 't) board" where
  "usb_run evs sb = fold usb_event_step evs sb"

text \<open>
  \<open>usb_netif_task\<close>: the events before the device is ready, the set-up, then the loop. The wait for
  the interface to be up is over at once, as \<open>netif_init_cb\<close> sets the flag.
\<close>

definition usb_netif_task ::
  "usb_event list \<Rightarrow> (nat option \<times> err_t) list \<Rightarrow> (nat option \<times> err_t) list \<Rightarrow> usb_event list \<Rightarrow>
   usb_netif \<times> ('c, 't) board \<Rightarrow> dhserver \<Rightarrow> dnsserver \<Rightarrow>
   ((usb_netif \<times> ('c, 't) board) \<times> dhserver \<times> dnsserver) option" where
  "usb_netif_task before dh_answers dns_answers after sb dh dn =
     (let (s, b) = usb_run before sb; s1 = init_lwip s in
      if \<not> flag_up s1 then None
      else case dhcp_start dh_answers dh of
        None \<Rightarrow> None
      | Some dh1 \<Rightarrow>
          (case dns_start dns_answers dn of
             None \<Rightarrow> None
           | Some dn1 \<Rightarrow> Some (usb_run after (s1, b), dh1, dn1)))"

section \<open>Link and servers\<close>

definition link_told :: "usb_netif \<Rightarrow> bool" where
  "link_told s \<longleftrightarrow> has_link_callback s \<and> flag_up s \<and> host_link s = flag_link_up s"

text \<open>What the last events ask for.\<close>

fun asked_link :: "usb_event \<Rightarrow> bool \<Rightarrow> bool" where
  "asked_link Mounted l = True"
| "asked_link Unmounted l = False"
| "asked_link _ l = l"

fun asked_blink :: "usb_event \<Rightarrow> u32 \<Rightarrow> u32" where
  "asked_blink Mounted i = BLINK_MOUNTED"
| "asked_blink Unmounted i = BLINK_NOT_MOUNTED"
| "asked_blink Suspended i = BLINK_SUSPENDED"
| "asked_blink (Resumed m) i = (if m then BLINK_MOUNTED else BLINK_NOT_MOUNTED)"
| "asked_blink (Blink now) i = i"

lemma step_link:
  assumes "link_told s" and "usb_event_step ev (s, b) = (s', b')"
  shows "link_told s' \<and> flag_link_up s' = asked_link ev (flag_link_up s) \<and>
    blink_interval_ms s' = asked_blink ev (blink_interval_ms s)"
  using assms
  by (cases ev) (auto simp: link_told_def tud_mount_cb_def tud_umount_cb_def tud_suspend_cb_def tud_resume_cb_def
      netif_set_link_up_def netif_set_link_down_def usbnet_netif_link_callback_def led_blinking_task_def Let_def
      split: if_splits)

lemma run_link:
  assumes "link_told s" and "usb_run evs (s, b) = (s', b')"
  shows "link_told s' \<and> flag_link_up s' = fold asked_link evs (flag_link_up s) \<and>
    blink_interval_ms s' = fold asked_blink evs (blink_interval_ms s)"
  using assms
proof (induction evs arbitrary: s b)
  case (Cons ev evs)
  obtain s1 b1 where s1: "usb_event_step ev (s, b) = (s1, b1)" by (cases "usb_event_step ev (s, b)")
  from step_link [OF Cons.prems(1) s1] Cons.IH [of s1 b1] Cons.prems(2) s1 show ?case
    by (simp add: usb_run_def)
qed (simp add: usb_run_def)

lemma run_blink: "usb_run evs (s, b) = (s', b') \<Longrightarrow> blink_interval_ms s' = fold asked_blink evs (blink_interval_ms s)"
proof (induction evs arbitrary: s b)
  case (Cons ev evs)
  obtain s1 b1 where s1: "usb_event_step ev (s, b) = (s1, b1)" by (cases "usb_event_step ev (s, b)")
  have "blink_interval_ms s1 = asked_blink ev (blink_interval_ms s)"
    using s1 by (cases ev) (auto simp: tud_mount_cb_def tud_umount_cb_def tud_suspend_cb_def tud_resume_cb_def
      netif_set_link_up_def netif_set_link_down_def usbnet_netif_link_callback_def led_blinking_task_def Let_def
      split: if_splits)
  then show ?case using Cons.IH [of s1 b1] Cons.prems s1 by (simp add: usb_run_def)
qed (simp add: usb_run_def)

text \<open>Before the set-up the callback is not installed; the host is then told nothing.\<close>

lemma step_before:
  "\<not> has_link_callback s \<Longrightarrow> usb_event_step ev (s, b) = (s', b') \<Longrightarrow>
     \<not> has_link_callback s' \<and> host_link s' = host_link s"
  by (cases ev) (auto simp: tud_mount_cb_def tud_umount_cb_def tud_suspend_cb_def tud_resume_cb_def
      netif_set_link_up_def netif_set_link_down_def led_blinking_task_def Let_def split: if_splits)

lemma run_before:
  "\<not> has_link_callback s \<Longrightarrow> usb_run evs (s, b) = (s', b') \<Longrightarrow> \<not> has_link_callback s' \<and> host_link s' = host_link s"
proof (induction evs arbitrary: s b)
  case (Cons ev evs)
  obtain s1 b1 where s1: "usb_event_step ev (s, b) = (s1, b1)" by (cases "usb_event_step ev (s, b)")
  from step_before [OF Cons.prems(1) s1] Cons.IH [of s1 b1] Cons.prems(2) s1 show ?case
    by (simp add: usb_run_def)
qed (simp add: usb_run_def)

lemma init_told: "host_link s \<Longrightarrow> link_told (init_lwip s) \<and> flag_link_up (init_lwip s)"
  by (simp add: init_lwip_def netif_add_def netif_init_cb_def netif_set_link_up_def Let_def link_told_def)

lemma init_blink: "blink_interval_ms (init_lwip s) = blink_interval_ms s"
  by (simp add: init_lwip_def netif_add_def netif_init_cb_def netif_set_link_up_def Let_def)

subsection \<open>The servers\<close>

definition dns_owned :: "dnsserver \<Rightarrow> bool" where
  "dns_owned s \<longleftrightarrow> dns_pcbs s = (case dns_pcb s of None \<Rightarrow> [] | Some p \<Rightarrow> [p])"

lemma dns_init_owned:
  assumes "dns_owned s" and "dnserv_init new_pcb bound s qp = (s', e)"
  shows "dns_owned s' \<and> (e = ERR_OK \<longleftrightarrow> dns_pcb s' \<noteq> None) \<and> (e = ERR_OK \<longrightarrow> dns_proc s' = Some qp) \<and>
    (e = ERR_OK \<longleftrightarrow> new_pcb \<noteq> None \<and> bound = ERR_OK)"
proof -
  have "dns_pcbs (dnserv_free s) = []"
    using assms(1) by (simp add: dns_owned_def dnserv_free_def split: option.splits)
  then show ?thesis using assms(2)
    by (auto simp: dnserv_init_def Let_def dns_owned_def dnserv_free_def split: option.splits if_splits)
qed

lemma dns_start_owned:
  "dns_owned s \<Longrightarrow> (dns_start as s \<noteq> None \<longleftrightarrow> (\<exists>p. (Some p, ERR_OK) \<in> set as)) \<and>
    (\<forall>s'. dns_start as s = Some s' \<longrightarrow> (\<exists>p. dns_pcb s' = Some p \<and> dns_pcbs s' = [p]) \<and> dns_proc s' = Some dns_query_proc)"
proof (induction as arbitrary: s)
  case (Cons a as)
  obtain p bound where a: "a = (p, bound)" by (cases a)
  obtain s1 e where s1: "dnserv_init p bound s dns_query_proc = (s1, e)"
    by (cases "dnserv_init p bound s dns_query_proc")
  note i = dns_init_owned [OF Cons.prems s1]
  show ?case
  proof (cases "e = ERR_OK")
    case True
    then have "dns_start (a # as) s = Some s1" using a s1 by simp
    moreover obtain q where "p = Some q" "bound = ERR_OK" using i True by auto
    ultimately show ?thesis using a i True by (auto simp: dns_owned_def)
  next
    case False
    then have "dns_start (a # as) s = dns_start as s1" using a s1 by simp
    moreover have "(Some q, ERR_OK) \<noteq> a" for q using i False a by auto
    ultimately show ?thesis using i Cons.IH [of s1] by simp
  qed
qed simp

lemma dhcp_init_ok: "dhserv_init p bound s c = (s', e) \<Longrightarrow>
    (e = ERR_OK \<longleftrightarrow> p \<noteq> None \<and> bound = ERR_OK) \<and> (e = ERR_OK \<longrightarrow> dh_config s' = Some c) \<and>
    dh_entries s' = dh_entries s \<and> dhcp_data s' = dhcp_data s"
  by (auto simp: dhserv_init_def Let_def dhserv_free_def split: option.splits if_splits)

lemma dhcp_start_owned:
  "pcb_owned s \<Longrightarrow> (dhcp_start as s \<noteq> None \<longleftrightarrow> (\<exists>p. (Some p, ERR_OK) \<in> set as)) \<and>
    (\<forall>s'. dhcp_start as s = Some s' \<longrightarrow> (\<exists>p. pcb s' = Some p \<and> udp_pcbs s' = [p]) \<and>
      dh_config s' = Some usb_dhcp_config \<and> dh_entries s' = dh_entries s \<and> dhcp_data s' = dhcp_data s)"
proof (induction as arbitrary: s)
  case (Cons a as)
  obtain p bound where a: "a = (p, bound)" by (cases a)
  obtain s1 e where s1: "dhserv_init p bound s usb_dhcp_config = (s1, e)"
    by (cases "dhserv_init p bound s usb_dhcp_config")
  note i = init_owned [OF Cons.prems s1] dhcp_init_ok [OF s1]
  show ?case
  proof (cases "e = ERR_OK")
    case True
    then have "dhcp_start (a # as) s = Some s1" using a s1 by simp
    moreover obtain q where "p = Some q" "bound = ERR_OK" using i True by auto
    ultimately show ?thesis using a i True by (auto simp: pcb_owned_def)
  next
    case False
    then have d: "dhcp_start (a # as) s = dhcp_start as s1" using a s1 by simp
    have "(Some q, ERR_OK) \<noteq> a" for q using i False a by auto
    then have m: "(\<exists>q. (Some q, ERR_OK) \<in> set (a # as)) = (\<exists>q. (Some q, ERR_OK) \<in> set as)" by auto
    have e: "dh_entries s1 = dh_entries s" "dhcp_data s1 = dhcp_data s" "pcb_owned s1" using i by simp_all
    from Cons.IH [OF e(3)] show ?thesis unfolding d e(1,2) m .
  qed
qed simp

subsection \<open>Packets in both directions\<close>

text \<open>A packet for the host is handed over exactly if the driver takes it before the device goes away;
  the loop ends as soon as either happens, and spins until then.\<close>

lemma linkoutput_ends: "linkoutput_fn turns \<noteq> None \<longleftrightarrow> (\<exists>t \<in> set turns. \<not> fst t \<or> snd t)"
  by (induction turns rule: linkoutput_fn.induct) auto

lemma linkoutput_handed: "linkoutput_fn turns = Some (e, handed) \<Longrightarrow> handed \<longleftrightarrow> e = ERR_OK"
  by (induction turns rule: linkoutput_fn.induct) (auto split: if_splits)

text \<open>A packet from the host is given to the stack or freed, never both and never neither.\<close>

lemma recv_owned:
  "tud_network_recv_cb alloc taken s src sz = Inr (s', ok, given, renew) \<Longrightarrow>
     s' = s \<and> (ok \<longleftrightarrow> sz = 0 \<or> alloc) \<and> (given \<noteq> None \<longleftrightarrow> sz \<noteq> 0 \<and> alloc \<and> taken) \<and> (renew \<longleftrightarrow> sz \<noteq> 0 \<and> alloc)"
  by (cases s) (auto simp: tud_network_recv_cb_def Let_def split: if_splits)

subsection \<open>The LED\<close>

lemma blink_step:
  assumes "i = unat (blink_interval_ms s)" and "0 < i" and "start_ms s = t + word_of_nat (i * (n div i))"
  shows "led_blinking_task (t + word_of_nat (Suc n)) s b =
    (if Suc n div i = n div i then (s, b)
     else (s\<lparr>start_ms := t + word_of_nat (i * (Suc n div i)), led_state := \<not> led_state s\<rparr>,
           b\<lparr>level := (level b)((GPIOC, 13) := led_state s)\<rparr>))"
proof -
  have m: "n = i * (n div i) + n mod i" by simp
  have w1: "t + word_of_nat (Suc n) - start_ms s = (word_of_nat (Suc (n mod i)) :: u32)"
    unfolding assms(3) by (subst m) (simp only: of_nat_add of_nat_Suc, simp)
  have w2: "unat (word_of_nat (Suc (n mod i)) :: u32) = Suc (n mod i)"
  proof -
    have "Suc (n mod i) \<le> i" using assms(2) by (simp add: Suc_leI)
    moreover have "i < 2 ^ 32" unfolding assms(1) using unsigned_less [of "blink_interval_ms s"] by simp
    ultimately show ?thesis unfolding unat_of_nat by simp
  qed
  have lt: "t + word_of_nat (Suc n) - start_ms s < blink_interval_ms s \<longleftrightarrow> Suc (n mod i) < i"
    unfolding w1 word_less_nat_alt w2 by (simp add: assms(1))
  show ?thesis
  proof (cases "Suc (n mod i) < i")
    case True
    then have "Suc n div i = n div i" by (simp add: div_Suc mod_Suc)
    then show ?thesis using lt True by (simp add: led_blinking_task_def)
  next
    case False
    then have e: "Suc (n mod i) = i" using assms(2) by (metis Suc_lessI mod_less_divisor)
    then have d: "Suc n div i = Suc (n div i)" by (simp add: div_Suc mod_Suc)
    have "start_ms s + blink_interval_ms s = t + word_of_nat (i * Suc (n div i))"
      unfolding assms(3) by (simp add: assms(1) algebra_simps)
    then show ?thesis using lt False d by (simp add: led_blinking_task_def Let_def)
  qed
qed

section \<open>Properties\<close>

text \<open>C40: The host is told the link state. After the start of the task, whatever the host did before and
  does after it, the link state TinyUSB reports is that of the interface, which is up unless the
  last mount or unmount event was an unmount, and the LED blinks at the rate of the last event.
  The start needs only that each server is set up once in the end; the control blocks of failed
  attempts are given back, so that each server owns exactly one.\<close>

theorem usb_netif_follows:
  assumes "pcb_owned dh" and "dns_owned dn"
  shows "(usb_netif_task before as1 as2 after (usb_netif_reset, b) dh dn \<noteq> None \<longleftrightarrow>
      (\<exists>p. (Some p, ERR_OK) \<in> set as1) \<and> (\<exists>p. (Some p, ERR_OK) \<in> set as2)) \<and>
    (\<forall>s' b' dh' dn'. usb_netif_task before as1 as2 after (usb_netif_reset, b) dh dn = Some ((s', b'), dh', dn') \<longrightarrow>
      host_link s' = flag_link_up s' \<and> flag_link_up s' = fold asked_link after True \<and>
      blink_interval_ms s' = fold asked_blink after (fold asked_blink before BLINK_NOT_MOUNTED) \<and>
      (\<exists>p. pcb dh' = Some p \<and> udp_pcbs dh' = [p]) \<and> (\<exists>p. dns_pcb dn' = Some p \<and> dns_pcbs dn' = [p]))"
proof -
  obtain s0 b0 where s0: "usb_run before (usb_netif_reset, b) = (s0, b0)" by (cases "usb_run before (usb_netif_reset, b)")
  obtain s1 b1 where s1: "usb_run after (init_lwip s0, b0) = (s1, b1)" by (cases "usb_run after (init_lwip s0, b0)")
  have h: "host_link s0" using run_before [OF _ s0] by (simp add: usb_netif_reset_def)
  note t = init_told [OF h]
  have bl: "blink_interval_ms s0 = fold asked_blink before BLINK_NOT_MOUNTED"
    using run_blink [OF s0] by (simp add: usb_netif_reset_def)
  have "flag_up (init_lwip s0)" using t by (simp add: link_told_def)
  then have task: "usb_netif_task before as1 as2 after (usb_netif_reset, b) dh dn =
      (case dhcp_start as1 dh of None \<Rightarrow> None
       | Some dh1 \<Rightarrow> (case dns_start as2 dn of None \<Rightarrow> None | Some dn1 \<Rightarrow> Some ((s1, b1), dh1, dn1)))"
    by (simp add: usb_netif_task_def s0 s1 Let_def split: option.split)
  have l: "host_link s1 = flag_link_up s1" "flag_link_up s1 = fold asked_link after True"
    "blink_interval_ms s1 = fold asked_blink after (fold asked_blink before BLINK_NOT_MOUNTED)"
    using run_link [OF _ s1] t by (simp_all add: link_told_def init_blink bl)
  note dh = dhcp_start_owned [OF assms(1), of as1] and dn = dns_start_owned [OF assms(2), of as2]
  show ?thesis
  proof (cases "dhcp_start as1 dh")
    case None
    then show ?thesis using dh unfolding task by simp
  next
    case (Some dh1)
    show ?thesis
    proof (cases "dns_start as2 dn")
      case None
      then show ?thesis using dn Some unfolding task by simp
    next
      case (Some dn1)
      with \<open>dhcp_start as1 dh = Some dh1\<close> show ?thesis using dh dn l unfolding task by simp
    qed
  qed
qed

theorem usb_netif_follows_witness:
  "\<exists>s b' dh' dn'. usb_netif_task [Mounted, Unmounted, Mounted] [(None, ERR_OK), (Some 4, ERR_USE), (Some 5, ERR_OK)] [(Some 6, ERR_OK)]
      [Suspended, Resumed True, Unmounted] (usb_netif_reset, board_reset :: (nat, nat) board) dhserver_reset
      \<lparr>dns_pcb = None, dns_proc = None, dns_pcbs = []\<rparr> = Some ((s, b'), dh', dn') \<and>
    \<not> host_link s \<and> blink_interval_ms s = BLINK_NOT_MOUNTED"
proof -
  have o1: "pcb_owned dhserver_reset" by (simp add: pcb_owned_def dhserver_reset_def)
  have o2: "dns_owned \<lparr>dns_pcb = None, dns_proc = None, dns_pcbs = []\<rparr>" by (simp add: dns_owned_def)
  from usb_netif_follows [OF o1 o2, of "[Mounted, Unmounted, Mounted]" "[(None, ERR_OK), (Some 4, ERR_USE), (Some 5, ERR_OK)]"
      "[(Some 6, ERR_OK)]" "[Suspended, Resumed True, Unmounted]" "board_reset :: (nat, nat) board"]
  show ?thesis by fastforce
qed

text \<open>The network task blinks with the power LED. Called every millisecond for \<open>n\<close> milliseconds it
  writes once per interval, at every count of the 32-bit clock and without drift; the pin is the
  one the board calls its power LED, so whatever the indicator has put there is overwritten from
  the first interval on, where the LED is switched off.\<close>

lemma usb_blink_rhythm:
  assumes "blink_interval_ms s \<noteq> 0" and "i = unat (blink_interval_ms s)"
    and "usb_run (map (\<lambda>k. Blink (start_ms s + word_of_nat k)) [1..<Suc n]) (s, b) = (s', b')"
  shows "s' = s\<lparr>start_ms := start_ms s + word_of_nat (i * (n div i)),
      led_state := (led_state s \<noteq> odd (n div i))\<rparr> \<and>
    level b' = (if n < i then level b else (level b)(s_leds ! 0 := (led_state s = odd (n div i))))"
  using assms(3)
proof (induction n arbitrary: s' b')
  case 0
  have "0 < i" using assms(1,2) by (simp add: unat_gt_0)
  then show ?case using 0 by (cases s) (auto simp: usb_run_def)
next
  case (Suc n)
  let ?evs = "\<lambda>n. map (\<lambda>k. Blink (start_ms s + word_of_nat k)) [1..<Suc n]"
  obtain s1 b1 where s1: "usb_run (?evs n) (s, b) = (s1, b1)" by (cases "usb_run (?evs n) (s, b)")
  have i: "0 < i" using assms(1,2) by (simp add: unat_gt_0)
  note ih = Suc.IH [OF s1]
  have r: "(s', b') = led_blinking_task (start_ms s + word_of_nat (Suc n)) s1 b1"
    using Suc.prems s1 by (simp add: usb_run_def)
  have "i = unat (blink_interval_ms s1)" "start_ms s1 = start_ms s + word_of_nat (i * (n div i))"
    using ih assms(2) by simp_all
  note step = blink_step [OF this(1) i this(2), of b1, folded r]
  show ?case
  proof (cases "Suc n div i = n div i")
    case True
    then have "Suc n < i \<longleftrightarrow> n < i" using i by (metis div_eq_0_iff not_gr_zero)
    then show ?thesis using step ih True by simp
  next
    case False
    then have d: "Suc n div i = Suc (n div i)" by (simp add: div_Suc split: if_splits)
    then have ge: "\<not> Suc n < i" by (metis div_less nat.distinct(1))
    have p: "s_leds ! 0 = (GPIOC, 13)" by (simp add: s_leds_def)
    show ?thesis using step ih False d ge by (cases "n < i") (auto simp: p fun_upd_twist)
  qed
qed

lemma usb_blink_rhythm_example:
  "\<exists>s' b'. usb_run (map (\<lambda>k. Blink (0 + word_of_nat k)) [1..<Suc 250]) (usb_netif_reset, board_reset :: (nat, nat) board) = (s', b') \<and>
    start_ms s' = 250 \<and> led_state s' \<and> \<not> level b' (GPIOC, 13)"
proof -
  obtain s' b' where r: "usb_run (map (\<lambda>k. Blink (start_ms usb_netif_reset + word_of_nat k)) [1..<Suc 250])
      (usb_netif_reset, board_reset :: (nat, nat) board) = (s', b')" by fastforce
  have i: "blink_interval_ms usb_netif_reset \<noteq> 0" "250 = unat (blink_interval_ms usb_netif_reset)"
    by (simp_all add: usb_netif_reset_def BLINK_NOT_MOUNTED_def)
  from usb_blink_rhythm [OF i r] r show ?thesis
    by (intro exI [of _ s'] exI [of _ b']) (simp add: usb_netif_reset_def s_leds_def del: upt_Suc)
qed

end
