(* ===== verification/MB_Refine.thy ===== *)
theory MB_Refine
  imports MB_Stack
begin

text \<open>
  The register functions of the slave as a refinement of an abstract register server. The
  abstract state is two maps from addresses to values; the abstract requests and responses are
  values, not bytes. The stack's table, handlers and buffers implement it: for every history of
  well-formed requests the bytes it answers are the encodings of the abstract responses.
\<close>

section \<open>The abstract server\<close>

record reg_server =
  holding :: "nat \<Rightarrow> u16"
  inputs :: "nat \<Rightarrow> u16"

datatype reg_request =
  Read_Holding u16 u16
| Read_Input u16 u16
| Write_Single u16 u16
| Write_Multiple u16 "u16 list"
| Read_Write u16 u16 u16 "u16 list"

datatype reg_response = Values "u16 list" | Written | Refused eMBException

definition in_range :: "u16 \<Rightarrow> nat \<Rightarrow> bool" where
  "in_range a n \<longleftrightarrow> unat a + n \<le> 100"

definition cells :: "(nat \<Rightarrow> u16) \<Rightarrow> u16 \<Rightarrow> u16 \<Rightarrow> u16 list" where
  "cells m a n = map m [unat a..<unat a + unat n]"

definition store :: "u16 \<Rightarrow> u16 list \<Rightarrow> reg_server \<Rightarrow> reg_server" where
  "store a vs s =
     s\<lparr>holding := \<lambda>k. if unat a \<le> k \<and> k < unat a + length vs then vs ! (k - unat a) else holding s k\<rparr>"

text \<open>A request for cells that do not exist is refused; a read and write whose read part is refused
  has written all the same.\<close>

fun spec_step :: "reg_request \<Rightarrow> reg_server \<Rightarrow> reg_server \<times> reg_response" where
  "spec_step (Read_Holding a n) s =
     (s, if in_range a (unat n) then Values (cells (holding s) a n) else Refused MB_EX_ILLEGAL_DATA_ADDRESS)"
| "spec_step (Read_Input a n) s =
     (s, if in_range a (unat n) then Values (cells (inputs s) a n) else Refused MB_EX_ILLEGAL_DATA_ADDRESS)"
| "spec_step (Write_Single a v) s =
     (if in_range a 1 then (store a [v] s, Written) else (s, Refused MB_EX_ILLEGAL_DATA_ADDRESS))"
| "spec_step (Write_Multiple a vs) s =
     (if in_range a (length vs) then (store a vs s, Written) else (s, Refused MB_EX_ILLEGAL_DATA_ADDRESS))"
| "spec_step (Read_Write a n wa vs) s =
     (if in_range wa (length vs) then
        (let s' = store wa vs s in
         (s', if in_range a (unat n) then Values (cells (holding s') a n) else Refused MB_EX_ILLEGAL_DATA_ADDRESS))
      else (s, Refused MB_EX_ILLEGAL_DATA_ADDRESS))"

text \<open>The limits of the protocol, and of the code where it is stricter.\<close>

fun wf_request :: "reg_request \<Rightarrow> bool" where
  "wf_request (Read_Holding a n) \<longleftrightarrow> 1 \<le> n \<and> n \<le> 125"
| "wf_request (Read_Input a n) \<longleftrightarrow> 1 \<le> n \<and> n < 125"
| "wf_request (Write_Single a v) \<longleftrightarrow> True"
| "wf_request (Write_Multiple a vs) \<longleftrightarrow> 1 \<le> length vs \<and> length vs \<le> 120"
| "wf_request (Read_Write a n wa vs) \<longleftrightarrow> 1 \<le> n \<and> n \<le> 125 \<and> 1 \<le> length vs \<and> length vs \<le> 121"

section \<open>Encoding\<close>

fun encode :: "reg_request \<Rightarrow> u8 list" where
  "encode (Read_Holding a n) = 3 # enc16 [a, n]"
| "encode (Read_Input a n) = 4 # enc16 [a, n]"
| "encode (Write_Single a v) = 6 # enc16 [a, v]"
| "encode (Write_Multiple a vs) =
     16 # enc16 [a, word_of_nat (length vs)] @ word_of_nat (2 * length vs) # enc16 vs"
| "encode (Read_Write a n wa vs) =
     23 # enc16 [a, n, wa, word_of_nat (length vs)] @ word_of_nat (2 * length vs) # enc16 vs"

fun encode_response :: "reg_request \<Rightarrow> reg_response \<Rightarrow> u8 list" where
  "encode_response rq (Values vs) = encode rq ! 0 # word_of_nat (2 * length vs) # enc16 vs"
| "encode_response rq Written = take 5 (encode rq)"
| "encode_response rq (Refused e) = exception_pdu (encode rq ! 0) e"

text \<open>The abstraction of the device.\<close>

definition abs_dev :: "mb_dev \<Rightarrow> reg_server" where
  "abs_dev dev = \<lparr>holding = (!) (usSRegHoldBuf (d_app dev)), inputs = (!) (usSRegInBuf (d_app dev))\<rparr>"

section \<open>One request\<close>

lemma table0:
  "table_lookup xFuncHandlers0 4 = Some (Some H_ReadInputRegister)"
  "table_lookup xFuncHandlers0 16 = Some (Some H_WriteMultipleHoldingRegister)"
  "table_lookup xFuncHandlers0 23 = Some (Some H_ReadWriteMultipleHoldingRegister)"
  by (simp_all add: xFuncHandlers0_def mb_consts)

lemma length_window_area:
  assumes "a + n \<le> length area"
  shows "window a n area = map ((!) area) [a..<a + n]"
  by (rule nth_equalityI) (use assms in \<open>auto simp: window_def\<close>)

lemma cells_regs:
  assumes "mb_dev_inv dev" and "in_range a (unat n)"
  shows "regs_at dev (unat a) (unat n) = cells (holding (abs_dev dev)) a n"
    and "window (unat a) (unat n) (usSRegInBuf (d_app dev)) = cells (inputs (abs_dev dev)) a n"
  using assms
  by (simp_all add: regs_at_def cells_def abs_dev_def in_range_def mb_dev_inv_def mb_app_inv_def length_window_area)

lemma length_cells [simp]: "length (cells m a n) = unat n"
  by (simp add: cells_def)

lemma abs_put_regs:
  assumes "mb_dev_inv dev" and "in_range a (length vs)"
  shows "abs_dev (put_regs dev (unat a) vs) = store a vs (abs_dev dev)"
proof -
  let ?h = "usSRegHoldBuf (d_app dev)"
  have h: "unat a + length vs \<le> length ?h"
    using assms by (simp add: mb_dev_inv_def mb_app_inv_def in_range_def)
  have "blit (unat a) vs ?h ! k = (if unat a \<le> k \<and> k < unat a + length vs then vs ! (k - unat a) else ?h ! k)" for k
    using h by (simp add: nth_blit_before nth_blit_inside nth_blit_after not_less not_le)
  then show ?thesis by (simp add: abs_dev_def put_regs_def store_def fun_eq_iff)
qed

lemma read_small: "n \<le> 125 \<Longrightarrow> hi_byte n = 0 \<and> unat (lo_byte n) = unat (n :: u16)"
proof -
  assume "n \<le> 125"
  then have n: "unat n \<le> 125" by (simp add: word_le_nat_alt)
  have "unat (drop_bit 8 n) = 0" using n by (simp add: drop_bit_eq_div unat_div)
  then have "drop_bit 8 n = 0" by (simp only: word_unat_eq_iff unat_0)
  then have h: "hi_byte n = 0" by (simp add: hi_byte_def)
  have "lo_byte n = ucast n"
  proof (rule bit_word_eqI)
    fix i show "bit (lo_byte n) i = bit (ucast n :: u8) i" if "i < LENGTH(8)"
      using that by (simp add: bit_lo_byte bit_simps)
  qed
  then have "unat (lo_byte n) = unat n" using n by (simp add: unsigned_ucast_eq take_bit_nat_eq_self)
  with h show ?thesis by simp
qed

lemma unat_len [simp]:
  "n < 256 \<Longrightarrow> unat (word_of_nat n :: u16) = n" "n < 256 \<Longrightarrow> unat (word_of_nat n :: u8) = n"
  by (simp_all add: unat_of_nat)

lemma unat_double: "n \<le> 121 \<Longrightarrow> unat (2 * word_of_nat n :: u8) = 2 * n"
  using unat_len(2) [of "2 * n"] by simp

lemma serve_handler:
  assumes "table_lookup table (f ! 0) = Some (Some h)" and "reply (run_handler h dev f len) = Some (dev', rsp, e)"
  shows "serve table dev f len = Some (dev', if e = MB_EX_NONE then rsp else exception_pdu (f ! 0) e)"
  using assms by (simp add: serve_def)

definition refines :: "reg_request \<Rightarrow> mb_dev \<Rightarrow> (mb_dev \<times> u8 list) option \<Rightarrow> bool" where
  "refines rq dev result \<longleftrightarrow>
     (\<exists>dev' rsp. result = Some (dev', rsp) \<and> mb_dev_inv dev' \<and>
        (let (s', r) = spec_step rq (abs_dev dev) in abs_dev dev' = s' \<and> rsp = encode_response rq r))"

lemma refines_read_holding:
  assumes "mb_dev_inv dev" and "wf_request (Read_Holding a n)" and "f = encode (Read_Holding a n) @ g"
    and "253 \<le> length f"
  shows "refines (Read_Holding a n) dev (serve xFuncHandlers0 dev f 5)"
proof -
  have n: "n \<le> 125" "n \<noteq> 0" using assms(2) by auto
  then have un: "unat n \<le> 125" "unat n \<noteq> 0" by (simp_all add: word_le_nat_alt word_unat_eq_iff)
  have f: "f ! 0 = 3" "req_addr f = a" "unat (f ! 4) = unat n"
    using assms(3) read_small [OF n(1)] by (simp_all add: req_addr_def)
  have "reply (run_handler H_ReadHoldingRegister dev f 5) = Some (dev,
      if in_range a (unat n) then (3 # word_of_nat (2 * unat n) # enc16 (cells (holding (abs_dev dev)) a n), MB_EX_NONE)
      else ([3, word_of_nat (2 * unat n)], MB_EX_ILLEGAL_DATA_ADDRESS))"
    using read_holding_reply [OF assms(1,4), of 5] un cells_regs(1) [OF assms(1)]
    by (simp add: f in_range_def Let_def)
  then show ?thesis
    using serve_handler [of xFuncHandlers0 f H_ReadHoldingRegister dev 5 dev] assms(1) table0_lookup(1) f(1)
    by (auto simp: refines_def split: if_splits)
qed

lemma refines_read_input:
  assumes "mb_dev_inv dev" and "wf_request (Read_Input a n)" and "f = encode (Read_Input a n) @ g"
    and "253 \<le> length f"
  shows "refines (Read_Input a n) dev (serve xFuncHandlers0 dev f 5)"
proof -
  have un: "unat n < 125" "unat n \<noteq> 0"
    using assms(2) by (auto simp: word_less_nat_alt word_le_nat_alt word_unat_eq_iff)
  have f: "f ! 0 = 4" "req_addr f = a" "req_cnt f = n"
    using assms(3) by (simp_all add: req_addr_def req_cnt_def)
  have "reply (run_handler H_ReadInputRegister dev f 5) = Some (dev,
      if in_range a (unat n) then (4 # word_of_nat (2 * unat n) # enc16 (cells (inputs (abs_dev dev)) a n), MB_EX_NONE)
      else ([4, word_of_nat (2 * unat n)], MB_EX_ILLEGAL_DATA_ADDRESS))"
    using read_input_reply [OF assms(1,4), of 5] un cells_regs(2) [OF assms(1)]
    by (simp add: f in_range_def Let_def)
  then show ?thesis
    using serve_handler [of xFuncHandlers0 f H_ReadInputRegister dev 5 dev] assms(1) table0(1) f(1)
    by (auto simp: refines_def split: if_splits)
qed

lemma refines_write_single:
  assumes "mb_dev_inv dev" and "f = encode (Write_Single a v) @ g" and "253 \<le> length f"
  shows "refines (Write_Single a v) dev (serve xFuncHandlers0 dev f 5)"
proof -
  have f: "f ! 0 = 6" "req_addr f = a" "req_cnt f = v" "take 5 f = encode (Write_Single a v)"
    using assms(2) by (simp_all add: req_addr_def req_cnt_def)
  have "reply (run_handler H_WriteHoldingRegister dev f 5) =
      (if in_range a 1 then Some (put_regs dev (unat a) [v], take 5 f, MB_EX_NONE)
       else Some (dev, take 5 f, MB_EX_ILLEGAL_DATA_ADDRESS))"
    using write_single_reply [OF assms(1,3), of 5] by (simp add: f in_range_def Let_def)
  then have "serve xFuncHandlers0 dev f 5 =
      (if in_range a 1 then Some (put_regs dev (unat a) [v], take 5 f)
       else Some (dev, exception_pdu 6 MB_EX_ILLEGAL_DATA_ADDRESS))"
    using serve_handler [of xFuncHandlers0 f H_WriteHoldingRegister dev 5] table0_lookup(2) f(1)
    by (auto split: if_splits)
  moreover have "mb_dev_inv (put_regs dev (unat a) [v])" "abs_dev (put_regs dev (unat a) [v]) = store a [v] (abs_dev dev)"
    if "in_range a 1"
    using that mb_dev_inv_put_regs [OF assms(1), of "unat a" "[v]"] abs_put_regs [OF assms(1), of a "[v]"]
    by (simp_all add: in_range_def)
  ultimately show ?thesis using assms(1) f(4) by (auto simp: refines_def)
qed

lemma length_encode:
  "length (encode (Write_Multiple a vs)) = 6 + 2 * length vs"
  "length (encode (Read_Write a n wa vs)) = 10 + 2 * length vs"
  by simp_all

lemma dec_window:
  assumes "length xs = p" and "n = 2 * length vs"
  shows "dec16 (window p n (xs @ enc16 vs @ g)) = vs"
  using assms by (simp add: window_def)

lemma refines_write_multiple:
  assumes "mb_dev_inv dev" and "wf_request (Write_Multiple a vs)" and "f = encode (Write_Multiple a vs) @ g"
    and "253 \<le> length f"
  shows "refines (Write_Multiple a vs) dev
    (serve xFuncHandlers0 dev f (word_of_nat (length (encode (Write_Multiple a vs)))))"
proof -
  let ?k = "length vs" and ?len = "word_of_nat (length (encode (Write_Multiple a vs))) :: u16"
  have k: "1 \<le> ?k" "?k \<le> 120" using assms(2) by auto
  have f: "f ! 0 = 16" "req_addr f = a" "req_cnt f = word_of_nat ?k" "f ! 5 = word_of_nat (2 * ?k)"
    "take 5 f = take 5 (encode (Write_Multiple a vs))"
    using assms(3) by (simp_all add: req_addr_def req_cnt_def)
  have "f = (16 # enc16 [a, word_of_nat ?k] @ [word_of_nat (2 * ?k)]) @ enc16 vs @ g" using assms(3) by simp
  then have w: "dec16 (window 6 (2 * ?k) f) = vs" by (simp only:) (rule dec_window; simp)
  have l: "unat ?len = 6 + 2 * ?k" using k by (simp only: length_encode) (rule unat_len; simp)
  then have "\<not> ?len < 6" by (simp add: word_less_nat_alt)
  then have "reply (run_handler H_WriteMultipleHoldingRegister dev f ?len) =
      (if in_range a ?k then Some (put_regs dev (unat a) vs, take 5 f, MB_EX_NONE)
       else Some (dev, take (unat ?len) f, MB_EX_ILLEGAL_DATA_ADDRESS))"
    using write_multiple_reply [OF assms(1,4), of ?len] k w unat_double [of ?k]
    by (auto simp: f(2-4) in_range_def Let_def)
  then have "serve xFuncHandlers0 dev f ?len =
      (if in_range a ?k then Some (put_regs dev (unat a) vs, take 5 f)
       else Some (dev, exception_pdu 16 MB_EX_ILLEGAL_DATA_ADDRESS))"
    using serve_handler [of xFuncHandlers0 f H_WriteMultipleHoldingRegister dev ?len] table0(2) f(1)
    by (auto split: if_splits)
  moreover have "mb_dev_inv (put_regs dev (unat a) vs)" "abs_dev (put_regs dev (unat a) vs) = store a vs (abs_dev dev)"
    if "in_range a ?k"
    using that mb_dev_inv_put_regs [OF assms(1), of "unat a" vs] abs_put_regs [OF assms(1), of a vs]
    by (simp_all add: in_range_def)
  ultimately show ?thesis using assms(1) f(5) by (auto simp: refines_def)
qed

lemma refines_read_write:
  assumes "mb_dev_inv dev" and "wf_request (Read_Write a n wa vs)" and "f = encode (Read_Write a n wa vs) @ g"
    and "253 \<le> length f"
  shows "refines (Read_Write a n wa vs) dev
    (serve xFuncHandlers0 dev f (word_of_nat (length (encode (Read_Write a n wa vs)))))"
proof -
  let ?k = "length vs"
  define len where "len = (word_of_nat (length (encode (Read_Write a n wa vs))) :: u16)"
  let ?dev = "put_regs dev (unat wa) vs"
  have k: "1 \<le> ?k" "?k \<le> 121" and n: "n \<le> 125" "n \<noteq> 0" using assms(2) by auto
  have un: "unat n \<le> 125" "unat n \<noteq> 0" using n by (simp_all add: word_le_nat_alt word_unat_eq_iff)
  have f: "f ! 0 = 23" "req_addr f = a" "req_cnt f = n" "rw_waddr f = wa" "rw_wcnt f = word_of_nat ?k"
    "f ! 9 = word_of_nat (2 * ?k)"
    using assms(3) by (simp_all add: req_addr_def req_cnt_def rw_waddr_def rw_wcnt_def)
  have "f = (23 # enc16 [a, n, wa, word_of_nat ?k] @ [word_of_nat (2 * ?k)]) @ enc16 vs @ g" using assms(3) by simp
  then have w: "dec16 (window 10 (2 * ?k) f) = vs" by (simp only:) (rule dec_window; simp)
  have l: "unat len = 10 + 2 * ?k" using k unfolding len_def by (simp only: length_encode) (rule unat_len; simp)
  then have "\<not> len < 10" by (simp add: word_less_nat_alt)
  then have r: "reply (run_handler H_ReadWriteMultipleHoldingRegister dev f len) =
      (if \<not> in_range wa ?k then Some (dev, take (unat len) f, MB_EX_ILLEGAL_DATA_ADDRESS)
       else if in_range a (unat n) then Some (?dev, 23 # word_of_nat (2 * unat n) # enc16 (regs_at ?dev (unat a) (unat n)), MB_EX_NONE)
       else Some (?dev, [23, word_of_nat (2 * unat n)], MB_EX_ILLEGAL_DATA_ADDRESS))"
    using readwrite_reply [OF assms(1,4), of len] k w un unat_double [of ?k]
    by (auto simp: f(2-6) in_range_def Let_def)
  have inv: "mb_dev_inv ?dev" "abs_dev ?dev = store wa vs (abs_dev dev)" if "in_range wa ?k"
    using that mb_dev_inv_put_regs [OF assms(1), of "unat wa" vs] abs_put_regs [OF assms(1), of wa vs]
    by (simp_all add: in_range_def)
  have sv: "reply (run_handler H_ReadWriteMultipleHoldingRegister dev f len) = Some (d, rsp, e) \<Longrightarrow>
      serve xFuncHandlers0 dev f len = Some (d, if e = MB_EX_NONE then rsp else exception_pdu 23 e)" for d rsp e
    using serve_handler [of xFuncHandlers0 f H_ReadWriteMultipleHoldingRegister dev len d rsp e] table0(3) f(1) by simp
  have "refines (Read_Write a n wa vs) dev (serve xFuncHandlers0 dev f len)"
  proof (cases "in_range wa ?k")
    case False
    then show ?thesis using sv r assms(1) by (simp add: refines_def)
  next
    case True
    then show ?thesis
      using sv r inv cells_regs(1) [OF inv(1) [OF True], of a n]
      by (cases "in_range a (unat n)") (simp_all add: refines_def Let_def)
  qed
  then show ?thesis by (simp only: len_def)
qed

lemma request_refines:
  assumes "mb_dev_inv dev" and "wf_request rq" and "take (length (encode rq)) f = encode rq" and "253 \<le> length f"
  shows "refines rq dev (serve xFuncHandlers0 dev f (word_of_nat (length (encode rq))))"
proof -
  define g where "g = drop (length (encode rq)) f"
  have f: "f = encode rq @ g" unfolding g_def using assms(3) append_take_drop_id by metis
  show ?thesis
  proof (cases rq)
    case (Read_Holding a n)
    then show ?thesis using refines_read_holding [OF assms(1) _ _ assms(4), of a n g] assms(2) f by simp
  next
    case (Read_Input a n)
    then show ?thesis using refines_read_input [OF assms(1) _ _ assms(4), of a n g] assms(2) f by simp
  next
    case (Write_Single a v)
    then show ?thesis using refines_write_single [OF assms(1) _ assms(4), of a v g] f by simp
  next
    case (Write_Multiple a vs)
    then show ?thesis using refines_write_multiple [OF assms(1) _ _ assms(4), of a vs g] assms(2) f by simp
  next
    case (Read_Write a n wa vs)
    then show ?thesis using refines_read_write [OF assms(1) _ _ assms(4), of a n wa vs g] assms(2) f by simp
  qed
qed

section \<open>Histories\<close>

text \<open>The slave works off a history of requests, each in a frame memory of its own; the abstract server
  does the same on values.\<close>

fun serve_all :: "mb_dev \<Rightarrow> (u8 list \<times> nat) list \<Rightarrow> (mb_dev \<times> u8 list list) option" where
  "serve_all dev [] = Some (dev, [])"
| "serve_all dev ((f, n) # fs) =
     (case serve xFuncHandlers0 dev f (word_of_nat n) of
        None \<Rightarrow> None
      | Some (dev', rsp) \<Rightarrow> map_option (\<lambda>(d, rsps). (d, rsp # rsps)) (serve_all dev' fs))"

fun spec_all :: "reg_server \<Rightarrow> reg_request list \<Rightarrow> reg_server \<times> u8 list list" where
  "spec_all s [] = (s, [])"
| "spec_all s (rq # rqs) =
     (let (s', r) = spec_step rq s; (s'', rsps) = spec_all s' rqs in (s'', encode_response rq r # rsps))"

definition carries :: "reg_request \<Rightarrow> u8 list \<times> nat \<Rightarrow> bool" where
  "carries rq fn \<longleftrightarrow> wf_request rq \<and> snd fn = length (encode rq) \<and> 253 \<le> length (fst fn) \<and>
     take (snd fn) (fst fn) = encode rq"

section \<open>Properties\<close>

text \<open>C21: The slave refines an abstract register server. For every history of well-formed register
  requests (read holding, read input, write single, write multiple, read and write), whatever
  stands in the frame memory behind the requests, the responses are the encodings of the
  abstract responses, the registers at the end are the abstract ones, and no request is left unanswered.\<close>

theorem registers_refine_server:
  assumes "mb_dev_inv dev" and "list_all2 carries rqs fs"
  shows "\<exists>dev'. serve_all dev fs = Some (dev', snd (spec_all (abs_dev dev) rqs)) \<and> mb_dev_inv dev' \<and>
    abs_dev dev' = fst (spec_all (abs_dev dev) rqs)"
  using assms(2,1)
proof (induction arbitrary: dev rule: list_all2_induct)
  case Nil
  then show ?case by simp
next
  case (Cons rq rqs fn fs)
  obtain s' r where sr: "spec_step rq (abs_dev dev) = (s', r)" by fastforce
  obtain f n where fn: "fn = (f, n)" by fastforce
  have c: "wf_request rq" "n = length (encode rq)" "253 \<le> length f" "take (length (encode rq)) f = encode rq"
    using Cons.hyps(1) by (auto simp: carries_def fn)
  have "refines rq dev (serve xFuncHandlers0 dev f (word_of_nat n))"
    unfolding c(2) by (rule request_refines [OF Cons.prems c(1,4,3)])
  then obtain dev1 where d: "serve xFuncHandlers0 dev f (word_of_nat n) = Some (dev1, encode_response rq r)"
    "mb_dev_inv dev1" "abs_dev dev1 = s'" by (auto simp: refines_def sr)
  from Cons.IH [OF d(2)] obtain dev2 where "serve_all dev1 fs = Some (dev2, snd (spec_all s' rqs))" "mb_dev_inv dev2"
    "abs_dev dev2 = fst (spec_all s' rqs)" unfolding d(3) by blast
  then show ?case by (simp add: fn d(1) sr split_beta)
qed

theorem registers_refine_server_witness:
  "\<exists>dev'. serve_all mb_dev_reset
      [(encode (Write_Multiple 98 [0xABCD, 0x1234]) @ replicate 250 0, 10),
       (encode (Read_Write 97 3 99 [0x77]) @ replicate 250 0xFF, 12),
       (encode (Write_Single 100 1) @ replicate 250 0, 5)] =
    Some (dev', [encode_response (Write_Multiple 98 [0xABCD, 0x1234]) Written,
      encode_response (Read_Write 97 3 99 [0x77]) (Values [0, 0xABCD, 0x77]),
      exception_pdu 6 MB_EX_ILLEGAL_DATA_ADDRESS])"
proof -
  define t where "t = replicate 250 (0 :: u8)"
  define u where "u = replicate 250 (0xFF :: u8)"
  have t: "length t = 250" "length u = 250" by (simp_all add: t_def u_def)
  let ?rqs = "[Write_Multiple 98 [0xABCD, 0x1234], Read_Write 97 3 99 [0x77], Write_Single 100 1]"
  have c: "list_all2 carries ?rqs [(encode (Write_Multiple 98 [0xABCD, 0x1234]) @ t, 10),
      (encode (Read_Write 97 3 99 [0x77]) @ u, 12), (encode (Write_Single 100 1) @ t, 5)]"
    by (simp add: carries_def t)
  have a: "holding (abs_dev mb_dev_reset) 97 = 0"
    by (simp add: abs_dev_def mb_dev_reset_def mb_app_reset_def regmap_consts)
  have "snd (spec_all (abs_dev mb_dev_reset) ?rqs) = [encode_response (Write_Multiple 98 [0xABCD, 0x1234]) Written,
      encode_response (Read_Write 97 3 99 [0x77]) (Values [0, 0xABCD, 0x77]),
      exception_pdu 6 MB_EX_ILLEGAL_DATA_ADDRESS]"
    by (simp add: in_range_def store_def cells_def Let_def upt_rec a)
  with registers_refine_server [OF mb_dev_inv_reset c] show ?thesis unfolding t_def u_def by auto
qed

end
