(* ===== verification/MB_Types_Kept.thy ===== *)
theory MB_Types_Kept
  imports MB_Refine
begin

text \<open>
  What holds of the device whatever the requests say: which requests make a handler leave an array,
  that the areas keep their declared sizes, and that a response fits a frame.
\<close>

section \<open>The only fault\<close>

definition only_oob :: "'a res \<Rightarrow> bool" where
  "only_oob m \<longleftrightarrow> (\<forall>e. m = Inl e \<longrightarrow> e = Out_Of_Bounds)"

named_theorems oob_intros \<open>operations that fail at array bounds only\<close>

lemma oob_basic [oob_intros]:
  "only_oob (Inr x)" "only_oob (Inl Out_Of_Bounds)" "only_oob (rd xs i)" "only_oob (wr ys i v)"
  by (auto simp: only_oob_def rd_def wr_def split: if_splits)

lemma oob_bind [oob_intros]: "only_oob m \<Longrightarrow> (\<And>x. only_oob (f x)) \<Longrightarrow> only_oob (bindR m f)"
  by (cases m) (auto simp: only_oob_def)

lemma oob_if [oob_intros]: "only_oob m \<Longrightarrow> only_oob n \<Longrightarrow> only_oob (if b then m else n)"
  by simp

lemma oob_case_prod [oob_intros]: "(\<And>x y. only_oob (f x y)) \<Longrightarrow> only_oob (case p of (x, y) \<Rightarrow> f x y)"
  by (cases p) simp

lemma oob_loops [oob_intros]:
  "only_oob (regs_to_bytes regs i n buf p)" "only_oob (bytes_to_regs regs i n buf p)"
  by (induction n arbitrary: i regs buf p) (simp_all add: oob_intros)

lemma oob_setbits [oob_intros]: "n \<le> 8 \<Longrightarrow> only_oob (xMBUtilSetBits buf p off n v)"
  by (auto simp: xMBUtilSetBits_def word_at_def Let_def intro!: oob_intros)

lemma oob_bits [oob_intros]:
  "only_oob (xMBUtilGetBits buf p off n)" "only_oob (trim_last buf p k)"
  by (auto simp: xMBUtilGetBits_def trim_last_def word_at_def Let_def intro!: oob_intros)

lemma rest_small: "(word_of_nat (k mod 8) :: u8) \<le> 8"
proof -
  have "k mod 8 < 8" by simp
  then have "unat (word_of_nat (k mod 8) :: u8) \<le> 8" by (simp add: unat_of_nat)
  then show ?thesis by (simp add: word_le_nat_alt)
qed

lemma oob_bit_loops [oob_intros]:
  "only_oob (bits_to_bytes area i o' n buf p)" "only_oob (bytes_to_bits area i o' n buf p)"
  by (induction n arbitrary: i area buf p) (simp_all add: oob_intros)

lemma oob_callbacks [oob_intros]:
  "only_oob (eMBRegHoldingCB app buf p a n m)" "only_oob (eMBRegInputCB app buf p a n)"
  "only_oob (eMBRegCoilsCB app buf p a n m)" "only_oob (eMBRegDiscreteCB app buf p a n)"
  by (cases m; simp add: eMBRegHoldingCB_def eMBRegInputCB_def eMBRegCoilsCB_def eMBRegDiscreteCB_def Let_def oob_intros rest_small)+

lemma oob_handlers [oob_intros]: "only_oob (run_handler h dev f len)"
  by (cases h)
     (auto simp: eMBFuncReadHoldingRegister_def eMBFuncReadInputRegister_def eMBFuncWriteHoldingRegister_def
       eMBFuncWriteMultipleHoldingRegister_def eMBFuncReadWriteMultipleHoldingRegister_def eMBFuncReadCoils_def
       eMBFuncWriteCoil_def eMBFuncWriteMultipleCoils_def eMBFuncReadDiscreteInputs_def eMBFuncReportSlaveID_def
       get16_def Let_def intro!: oob_intros)

lemma oob_set_id [oob_intros]: "only_oob (eMBSetSlaveID dev i r extra n)"
  by (auto simp: eMBSetSlaveID_def intro!: oob_intros)

section \<open>The requests that leave an area\<close>

text \<open>
  The bit utilities read and write two bytes at a time, so a request that is within the 64 coils or
  inputs and touches their last byte reaches one byte too far. These are the requests of this kind; none of
  them is about registers.
\<close>

fun leaves_area :: "mb_handler \<Rightarrow> u8 list \<Rightarrow> u16 \<Rightarrow> bool" where
  "leaves_area H_ReadCoils f len \<longleftrightarrow> len = 5 \<and> 0 < unat (req_cnt f) \<and> unat (req_addr f) + unat (req_cnt f) \<le> 64 \<and>
     7 \<le> unat (req_addr f) div 8 + unat (req_cnt f) div 8"
| "leaves_area H_ReadDiscreteInputs f len \<longleftrightarrow> len = 5 \<and> 0 < unat (req_cnt f) \<and>
     unat (req_addr f) + unat (req_cnt f) \<le> 64 \<and> 7 \<le> unat (req_addr f) div 8 + unat (req_cnt f) div 8"
| "leaves_area H_WriteCoil f len \<longleftrightarrow> len = 5 \<and> f ! 4 = 0 \<and> (f ! 3 = 0xFF \<or> f ! 3 = 0) \<and>
     56 \<le> unat (req_addr f) \<and> unat (req_addr f) < 64"
| "leaves_area H_WriteMultipleCoils f len \<longleftrightarrow> 6 \<le> len \<and> 0 < unat (req_cnt f) \<and>
     unat (f ! 5) = (unat (req_cnt f) + 7) div 8 \<and> unat (req_addr f) + unat (req_cnt f) \<le> 64 \<and>
     8 \<le> unat (req_addr f) div 8 + (unat (req_cnt f) + 7) div 8"
| "leaves_area _ f len \<longleftrightarrow> False"

lemma reply_None: "reply r = None \<longleftrightarrow> (\<exists>e. r = Inl e)"
  by (cases r) auto

lemma coils_stop:
  assumes "mb_dev_inv dev" and "253 \<le> length f"
  shows "reply (eMBFuncReadCoils dev f len) = None \<longleftrightarrow> leaves_area H_ReadCoils f len"
    and "reply (eMBFuncReadDiscreteInputs dev f len) = None \<longleftrightarrow> leaves_area H_ReadDiscreteInputs f len"
  unfolding read_coils_reply [OF assms] read_discrete_reply [OF assms] by (auto simp: Let_def)

lemma write_coil_stop:
  assumes "mb_dev_inv dev" and "253 \<le> length f"
  shows "reply (eMBFuncWriteCoil dev f len) = None \<longleftrightarrow> leaves_area H_WriteCoil f len"
proof (cases "len = 5 \<and> f ! 4 = 0 \<and> (f ! 3 = 0xFF \<or> f ! 3 = 0)")
  case True
  show ?thesis
  proof (cases "unat (req_addr f) < 56")
    case lo: True
    then show ?thesis using conjunct2 [OF write_coil_reply [OF assms, of len]] True by auto
  next
    case False
    then show ?thesis using conjunct1 [OF write_coil_reply [OF assms, of len]] True by auto
  qed
next
  case False
  then show ?thesis using conjunct1 [OF write_coil_reply [OF assms, of len]] by auto
qed

lemma write_coils_stop:
  assumes "mb_dev_inv dev" and "253 \<le> length f"
  shows "reply (eMBFuncWriteMultipleCoils dev f len) = None \<longleftrightarrow> leaves_area H_WriteMultipleCoils f len"
proof -
  let ?a = "unat (req_addr f)" and ?n = "unat (req_cnt f)"
  consider (rej) "len < 6 \<or> ?n = 0 \<or> 1968 < ?n \<or> unat (f ! 5) \<noteq> (?n + 7) div 8 \<or> 64 < ?a + ?n"
    | (ok) "\<not> len < 6" "0 < ?n" "unat (f ! 5) = (?n + 7) div 8" "?a + ?n \<le> 64" "?a div 8 + (?n + 7) div 8 < 8"
    | (out) "\<not> len < 6" "0 < ?n" "unat (f ! 5) = (?n + 7) div 8" "?a + ?n \<le> 64" "8 \<le> ?a div 8 + (?n + 7) div 8"
    by linarith
  then show ?thesis
  proof cases
    case rej
    then show ?thesis unfolding write_coils_rejected [OF assms rej] by auto
  next
    case ok
    then show ?thesis using write_coils_done [OF assms ok] by auto
  next
    case out
    then show ?thesis unfolding write_coils_out_of_bounds [OF assms out] by auto
  qed
qed

lemma registers_go_on:
  assumes "mb_dev_inv dev" and "253 \<le> length f"
  shows "reply (eMBFuncReadHoldingRegister dev f len) \<noteq> None"
    and "reply (eMBFuncReadInputRegister dev f len) \<noteq> None"
    and "reply (eMBFuncWriteHoldingRegister dev f len) \<noteq> None"
    and "reply (eMBFuncWriteMultipleHoldingRegister dev f len) \<noteq> None"
    and "reply (eMBFuncReadWriteMultipleHoldingRegister dev f len) \<noteq> None"
  by (simp_all add: read_holding_reply [OF assms] read_input_reply [OF assms] write_single_reply [OF assms]
      write_multiple_reply [OF assms] readwrite_reply [OF assms] Let_def)

lemma slave_id_goes_on:
  assumes "mb_dev_inv dev" and "253 \<le> length f"
  shows "reply (eMBFuncReportSlaveID dev f len) \<noteq> None"
  using assms by (simp add: eMBFuncReportSlaveID_def mb_dev_inv_def pdu_num Let_def)

text \<open>A handler stops exactly at these requests, and keeps the device otherwise.\<close>

lemma handler_stops:
  assumes "mb_dev_inv dev" and "253 \<le> length f"
  shows "(\<exists>e. run_handler h dev f len = Inl e) \<longleftrightarrow> leaves_area h f len"
  unfolding reply_None [symmetric]
  using coils_stop [OF assms] write_coil_stop [OF assms] write_coils_stop [OF assms] registers_go_on [OF assms]
    slave_id_goes_on [OF assms]
  by (cases h) simp_all

section \<open>Histories of calls\<close>

datatype dev_call = Handle mb_handler "u8 list" u16 | Set_Id u8 bool "u8 list" u16

fun dev_step :: "dev_call \<Rightarrow> mb_dev \<Rightarrow> mb_dev res" where
  "dev_step (Handle h f n) dev = bindR (run_handler h dev f n) (\<lambda>(dev', f', n', e). Inr dev')"
| "dev_step (Set_Id i r extra n) dev = bindR (eMBSetSlaveID dev i r extra n) (\<lambda>(dev', e). Inr dev')"

fun dev_steps :: "dev_call list \<Rightarrow> mb_dev \<Rightarrow> mb_dev res" where
  "dev_steps [] dev = Inr dev"
| "dev_steps (c # cs) dev = bindR (dev_step c dev) (dev_steps cs)"

text \<open>A request lies in the memory of a frame; the bytes for an identification are there.\<close>

fun sane_call :: "dev_call \<Rightarrow> bool" where
  "sane_call (Handle h f n) \<longleftrightarrow> 253 \<le> length f \<and> unat n \<le> 253"
| "sane_call (Set_Id i r extra n) \<longleftrightarrow> unat n \<le> length extra"

fun stopping_call :: "dev_call \<Rightarrow> bool" where
  "stopping_call (Handle h f n) \<longleftrightarrow> leaves_area h f n"
| "stopping_call (Set_Id i r extra n) \<longleftrightarrow> False"

lemma set_id_total:
  assumes "mb_dev_inv dev" and "unat n \<le> length extra"
  shows "\<exists>dev' e. eMBSetSlaveID dev i r extra n = Inr (dev', e)"
  using assms by (simp add: eMBSetSlaveID_def mb_dev_inv_def MB_FUNC_OTHER_REP_SLAVEID_BUF_def wr_def)

lemma dev_step_kept:
  assumes "mb_dev_inv dev" and "sane_call c"
  shows "case dev_step c dev of Inl e \<Rightarrow> e = Out_Of_Bounds \<and> stopping_call c
    | Inr dev' \<Rightarrow> mb_dev_inv dev' \<and> \<not> stopping_call c"
proof (cases c)
  case (Handle h f n)
  have "handler_shape dev f (run_handler h dev f n)" using run_handler_shape [OF assms(1)] assms(2) Handle by simp
  moreover have "only_oob (run_handler h dev f n)" by (rule oob_intros)
  moreover have "(\<exists>e. run_handler h dev f n = Inl e) \<longleftrightarrow> leaves_area h f n"
    using handler_stops [OF assms(1)] assms(2) Handle by simp
  ultimately show ?thesis using assms(1)
    by (cases "run_handler h dev f n") (auto simp: Handle handler_shape_def only_oob_def)
next
  case (Set_Id i r extra n)
  obtain dev' e where "eMBSetSlaveID dev i r extra n = Inr (dev', e)"
    using set_id_total [OF assms(1), of n extra i r] assms(2) Set_Id by auto
  with set_slave_id_inv [OF assms(1) this] show ?thesis by (simp add: Set_Id)
qed

section \<open>Properties\<close>



text \<open>Every response fits its frame: whatever the table of handlers, the state of the device and the
  request of at most 253 bytes, a response has at most 253 bytes, so that the frame around it
  stays within the 256 bytes of a serial line frame and of the buffer it is built in.\<close>

lemma response_fits:
  assumes "mb_dev_inv dev" and "unat len \<le> 253" and "serve table dev f len = Some (dev', rsp)"
  shows "length rsp \<le> 253 \<and> length (rtu_adu addr rsp) \<le> 256 \<and> mb_dev_inv dev'"
proof -
  have "length rsp \<le> 253 \<and> mb_dev_inv dev'"
  proof (cases "table_lookup table (f ! 0)")
    case None
    then show ?thesis using assms by (auto simp: serve_def exception_pdu_def)
  next
    case (Some ho)
    with assms(3) obtain h where h: "ho = Some h" by (cases ho) (auto simp: serve_def)
    with assms(3) Some obtain dv f' n' e where r: "run_handler h dev f len = Inr (dv, f', n', e)"
      by (cases "run_handler h dev f len") (auto simp: serve_def)
    moreover have "unat n' \<le> 253" "mb_dev_inv dv"
      using run_handler_shape [OF assms(1,2), of f h] assms(1) by (auto simp: handler_shape_def r)
    ultimately show ?thesis using assms(3) Some h by (auto simp: serve_def exception_pdu_def)
  qed
  then show ?thesis by (simp add: rtu_adu_def)
qed

lemma response_fits_example:
  "\<exists>dev' rsp. serve xFuncHandlers0 mb_dev_reset ([3, 0, 0, 0, 100] @ replicate 250 0) 5 = Some (dev', rsp) \<and>
    length rsp \<le> 253"
proof -
  define t where "t = replicate 250 (0 :: u8)"
  have "length t = 250" by (simp add: t_def)
  moreover have "hi_byte 0 = 0" "lo_byte 0 = 0" by (simp_all add: hi_byte_def lo_byte_def)
  ultimately obtain rsp where r: "serve xFuncHandlers0 mb_dev_reset ([3, 0, 0, 0, 100] @ t) 5 = Some (mb_dev_reset, rsp)"
    using serve_read_holding [OF mb_dev_inv_reset, of "[3, 0, 0, 0, 100] @ t" 0 100] by auto
  have "length rsp \<le> 253" using response_fits [OF mb_dev_inv_reset _ r, of 0] by simp
  with r show ?thesis unfolding t_def by blast
qed

end
