(* ===== verification/Socket_Server.thy ===== *)
theory Socket_Server
  imports Prelude "HOL-Library.Multiset"
begin

text \<open>
  The socket server and client (\<open>services/socket_server\<close>, \<open>socket_client\<close>, \<open>tcp_server\<close>). The
  network stack, the allocator and the scheduler answer through arguments; what counts is which
  sockets are open, which blocks are allocated and which handler tasks were started.
\<close>

datatype MODE = TCP_MODE | UDP_MODE

record SocketServer =
  server_fd :: int
  port :: int
  has_handler :: bool
  server_mode :: MODE
  has_task :: bool
  num_clients :: "16 word"

definition socket_server_init :: "SocketServer option \<Rightarrow> MODE \<Rightarrow> int \<Rightarrow> bool \<Rightarrow> SocketServer option \<times> int" where
  "socket_server_init server mode p handler =
     (case server of
        None \<Rightarrow> (None, -1)
      | Some sv \<Rightarrow>
          (Some (sv\<lparr>port := p, has_handler := handler, server_mode := mode, server_fd := -1, has_task := False,
                    num_clients := 0\<rparr>), 0))"

definition socket_server_start :: "SocketServer option \<Rightarrow> bool \<Rightarrow> SocketServer option \<times> int" where
  "socket_server_start server created =
     (case server of
        None \<Rightarrow> (None, -1)
      | Some sv \<Rightarrow> if created then (Some (sv\<lparr>has_task := True\<rparr>), 0) else (Some sv, -1))"

definition tcp_server_init :: "SocketServer \<Rightarrow> int \<Rightarrow> bool \<Rightarrow> SocketServer option \<times> int" where
  "tcp_server_init sv p handler = socket_server_init (Some sv) TCP_MODE p handler"

definition tcp_server_start :: "SocketServer \<Rightarrow> bool \<Rightarrow> SocketServer option \<times> int" where
  "tcp_server_start sv created = socket_server_start (Some sv) created"

text \<open>The server with its surroundings: open sockets, live client blocks, and the sockets of the
  handler tasks that were started.\<close>

record server_sys =
  sv :: SocketServer
  open_fds :: "int list"
  client_blocks :: nat
  handler_fds :: "int list"

definition close_fd :: "int \<Rightarrow> server_sys \<Rightarrow> server_sys" where
  "close_fd fd s = s\<lparr>open_fds := remove1 fd (open_fds s)\<rparr>"

definition add_clients :: "16 word \<Rightarrow> server_sys \<Rightarrow> server_sys" where
  "add_clients n s = s\<lparr>sv := (sv s)\<lparr>num_clients := num_clients (sv s) + n\<rparr>\<rparr>"

text \<open>The start of the task; the flag tells whether it reaches the accept loop.\<close>

definition server_open :: "(MODE \<Rightarrow> int) \<Rightarrow> int \<Rightarrow> (MODE \<Rightarrow> int) \<Rightarrow> server_sys \<Rightarrow> server_sys \<times> bool" where
  "server_open sock bind_result listen_result s =
     (let fd = (if server_mode (sv s) = TCP_MODE then sock TCP_MODE else sock UDP_MODE);
          s1 = s\<lparr>sv := (sv s)\<lparr>server_fd := fd\<rparr>\<rparr> in
      if fd < 0 then (s1, False)
      else
        let s2 = s1\<lparr>open_fds := fd # open_fds s1\<rparr> in
        if bind_result < 0 then (close_fd fd s2, False)
        else if listen_result (server_mode (sv s2)) < 0 then (close_fd fd s2, False)
        else (s2, True))"

text \<open>
  What happens in one turn of the accept loop: the socket accepted, whether the allocator has
  a block, whether the handler task can be created, and whether the task handle in the
  structure on the stack, which nothing sets, happens not to be null.
\<close>

record accept_env =
  acc_fd :: int
  acc_block :: bool
  acc_created :: bool
  acc_stale :: bool

definition server_accept :: "accept_env \<Rightarrow> server_sys \<Rightarrow> server_sys" where
  "server_accept e s =
     (if acc_fd e < 0 then s
      else
        let s1 = add_clients 1 (s\<lparr>open_fds := acc_fd e # open_fds s\<rparr>) in
        if has_handler (sv s1) then
          (if \<not> acc_block e then add_clients (-1) (close_fd (acc_fd e) s1)
           else
             let s2 = s1\<lparr>client_blocks := client_blocks s1 + 1\<rparr>;
                 s3 = (if acc_created e then s2\<lparr>handler_fds := acc_fd e # handler_fds s2\<rparr> else s2);
                 task_handle_null = (\<not> acc_created e \<and> \<not> acc_stale e) in
             if task_handle_null
             then add_clients (-1) ((close_fd (acc_fd e) s3)\<lparr>client_blocks := client_blocks s3 - 1\<rparr>)
             else s3)
        else add_clients (-1) (close_fd (acc_fd e) s1))"

definition server_run :: "accept_env list \<Rightarrow> server_sys \<Rightarrow> server_sys" where
  "server_run es s = fold server_accept es s"

section \<open>The client\<close>

record SocketClient =
  client_mode :: MODE
  client_fd :: int
  client_port :: int
  client_has_handler :: bool
  client_has_task :: bool

definition socket_client_init :: "MODE \<Rightarrow> int \<Rightarrow> bool \<Rightarrow> bool \<Rightarrow> SocketClient \<Rightarrow> SocketClient" where
  "socket_client_init mode p handler created c =
     c\<lparr>client_mode := mode, client_port := p, client_has_handler := handler, client_fd := -1,
       client_has_task := (if created then True else client_has_task c)\<rparr>"

definition socket_client_is_connected :: "SocketClient \<Rightarrow> bool" where
  "socket_client_is_connected c \<longleftrightarrow> client_fd c \<ge> 0"

datatype client_act = Call_Handler int | Open_Socket int | Connect int | Shut int | Close int

text \<open>The task from its start to its deletion, as the list of what it does; a call of the handler
  shows the descriptor it finds.\<close>

definition socket_client_task :: "(MODE \<Rightarrow> int) \<Rightarrow> int \<Rightarrow> SocketClient \<Rightarrow> SocketClient \<times> client_act list" where
  "socket_client_task sock connect_result c =
     (let call = (\<lambda>c. if client_has_handler c then [Call_Handler (client_fd c)] else []);
          a1 = call c;
          fd = sock (client_mode c);
          c1 = c\<lparr>client_fd := fd\<rparr> in
      if fd < 0 then (c1, a1)
      else if connect_result < 0 then
        (c1\<lparr>client_fd := -1\<rparr>, a1 @ [Open_Socket fd, Connect fd, Shut fd, Close fd])
      else
        (c1\<lparr>client_fd := -1\<rparr>, a1 @ [Open_Socket fd, Connect fd] @ call c1 @ [Shut fd, Close fd]))"

section \<open>Who owns an accepted socket\<close>

text \<open>A turn that leaks: the task could not be created and the handle on the stack is not null.\<close>

definition leaks :: "SocketServer \<Rightarrow> accept_env \<Rightarrow> bool" where
  "leaks v e \<longleftrightarrow> 0 \<le> acc_fd e \<and> has_handler v \<and> acc_block e \<and> \<not> acc_created e \<and> acc_stale e"

definition served :: "SocketServer \<Rightarrow> accept_env \<Rightarrow> bool" where
  "served v e \<longleftrightarrow> 0 \<le> acc_fd e \<and> has_handler v \<and> acc_block e \<and> acc_created e"

lemma accept_cases:
  "server_accept e s =
     (if served (sv s) e then
        add_clients 1 (s\<lparr>open_fds := acc_fd e # open_fds s, client_blocks := client_blocks s + 1,
          handler_fds := acc_fd e # handler_fds s\<rparr>)
      else if leaks (sv s) e then
        add_clients 1 (s\<lparr>open_fds := acc_fd e # open_fds s, client_blocks := client_blocks s + 1\<rparr>)
      else s)"
  by (auto simp: server_accept_def served_def leaks_def add_clients_def close_fd_def Let_def)

lemma run_owned:
  "\<exists>n. server_run es s = s\<lparr>sv := (sv s)\<lparr>num_clients := num_clients (sv s) + n\<rparr>,
      open_fds := rev (map acc_fd (filter (\<lambda>e. served (sv s) e \<or> leaks (sv s) e) es)) @ open_fds s,
      client_blocks := client_blocks s + length (filter (\<lambda>e. served (sv s) e \<or> leaks (sv s) e) es),
      handler_fds := rev (map acc_fd (filter (served (sv s)) es)) @ handler_fds s\<rparr> \<and>
    n = word_of_nat (length (filter (\<lambda>e. served (sv s) e \<or> leaks (sv s) e) es))"
proof (induction es arbitrary: s)
  case Nil
  then show ?case by (simp add: server_run_def)
next
  case (Cons e es)
  define s1 where "s1 = server_accept e s"
  have v: "served (sv s1) = served (sv s)" "leaks (sv s1) = leaks (sv s)"
    by (auto simp: s1_def accept_cases add_clients_def served_def leaks_def fun_eq_iff)
  have "server_run (e # es) s = server_run es s1" by (simp add: server_run_def s1_def)
  then show ?case using Cons.IH [of s1] unfolding v
    by (auto simp: s1_def accept_cases add_clients_def add.assoc)
qed

text \<open>C34: Every accepted socket is accounted for. Over any number of turns of the accept loop, with any
  failures of the allocator and the scheduler, the sockets that stay open are those of the
  started handler tasks and those of the turns in which the task was refused while the
  uninitialised handle on the stack was not null; the blocks and the client count are as
  many, and only the latter have no task that could ever close them.\<close>

theorem server_accounts:
  assumes "server_open sock br lr s = (s0, True)" and "open_fds s = []" and "client_blocks s = 0"
    and "handler_fds s = []" and "num_clients (sv s) = 0" and "s' = server_run es s0"
    and "kept = filter (\<lambda>e. served (sv s) e \<or> leaks (sv s) e) es"
  shows "mset (open_fds s') = mset (sock (server_mode (sv s)) # map acc_fd kept) \<and>
    client_blocks s' = length kept \<and> num_clients (sv s') = word_of_nat (length kept) \<and>
    mset (handler_fds s') = mset (map acc_fd (filter (\<lambda>e. \<not> leaks (sv s) e) kept))"
proof -
  have s0: "open_fds s0 = [sock (server_mode (sv s))]" "client_blocks s0 = 0" "handler_fds s0 = []"
    "num_clients (sv s0) = 0" "served (sv s0) = served (sv s)" "leaks (sv s0) = leaks (sv s)"
    using assms(1-5) by (cases "server_mode (sv s)";
      auto simp: server_open_def Let_def served_def leaks_def fun_eq_iff split: if_splits)+
  have "filter (\<lambda>e. \<not> leaks (sv s) e) kept = filter (served (sv s)) es"
    unfolding assms(7) by (auto simp: served_def leaks_def intro: filter_cong)
  then show ?thesis using run_owned [of es s0] s0 assms(6,7) by auto
qed

theorem server_accounts_witness:
  "\<exists>s'. server_run [\<lparr>acc_fd = 5, acc_block = True, acc_created = True, acc_stale = True\<rparr>,
      \<lparr>acc_fd = 6, acc_block = False, acc_created = True, acc_stale = False\<rparr>,
      \<lparr>acc_fd = 6, acc_block = True, acc_created = False, acc_stale = True\<rparr>,
      \<lparr>acc_fd = 7, acc_block = True, acc_created = False, acc_stale = False\<rparr>]
      (fst (server_open (\<lambda>m. 3) 0 (\<lambda>m. 0) \<lparr>sv = \<lparr>server_fd = -1, port = 80, has_handler = True, server_mode = TCP_MODE,
        has_task = True, num_clients = 0\<rparr>, open_fds = [], client_blocks = 0, handler_fds = []\<rparr>)) = s' \<and>
    mset (open_fds s') = {#3, 5, 6#} \<and> num_clients (sv s') = 2 \<and> mset (handler_fds s') = {#5#}"
proof -
  let ?s = "\<lparr>sv = \<lparr>server_fd = -1, port = 80, has_handler = True, server_mode = TCP_MODE,
        has_task = True, num_clients = 0\<rparr>, open_fds = [], client_blocks = 0, handler_fds = []\<rparr>"
  have "server_open (\<lambda>m. 3) 0 (\<lambda>m. 0) ?s = (fst (server_open (\<lambda>m. 3) 0 (\<lambda>m. 0) ?s), True)"
    by (simp add: server_open_def)
  from server_accounts [OF this _ _ _ _ refl refl, of "[\<lparr>acc_fd = 5, acc_block = True, acc_created = True, acc_stale = True\<rparr>,
      \<lparr>acc_fd = 6, acc_block = False, acc_created = True, acc_stale = False\<rparr>,
      \<lparr>acc_fd = 6, acc_block = True, acc_created = False, acc_stale = True\<rparr>,
      \<lparr>acc_fd = 7, acc_block = True, acc_created = False, acc_stale = False\<rparr>]"]
  show ?thesis by (simp add: served_def leaks_def)
qed

text \<open>\<open>listen\<close> does not support datagram sockets, so a server in UDP mode ends at once.\<close>

lemma udp_server_ends:
  assumes "server_mode (sv s) = UDP_MODE" and "lr UDP_MODE < 0" and "open_fds s = []"
  shows "\<not> snd (server_open sock br lr s) \<and> open_fds (fst (server_open sock br lr s)) = []"
  using assms by (simp add: server_open_def close_fd_def Let_def)

text \<open>A client closes what it opened and calls its handler before it has a socket, and again once it
  is connected.\<close>

lemma client_acts:
  assumes "socket_client_task sock r c = (c', acts)" and "client_fd c = -1" and "client_has_handler c"
    and "0 \<le> sock (client_mode c)" and "0 \<le> r"
  shows "\<not> socket_client_is_connected c' \<and>
    acts = [Call_Handler (-1), Open_Socket (sock (client_mode c)), Connect (sock (client_mode c)),
            Call_Handler (sock (client_mode c)), Shut (sock (client_mode c)), Close (sock (client_mode c))]"
  using assms by (auto simp: socket_client_task_def socket_client_is_connected_def Let_def)

end
