(* ===== verification/Spec2Isabelle.thy ===== *)
theory Spec2Isabelle
  imports Line_Owner RTOS_Scheduler Application Heap_4 Gateway USB_Netif MB_Stack MB_Types_Kept MB_Refine MB_ASCII MB_CRC Board Zigbee_Life CQueue RTOS_Queue
    USB_Bridge Shell_Commands RF_App Socket_Server Logger
begin

text \<open>
  The RF-IO-RS485 gateway firmware: an STM32 board that answers as a Modbus slave on an RS485
  line, drives four outputs, four inputs and three LEDs, talks to a Zigbee module over a second
  UART, and offers a shell and a transparent bridge to the RS485 line over USB.

  The parts and how they interact. \<open>board.c\<close> and \<open>bsp_board_gpio.c\<close> are the board: pins, timers,
  and UARTs whose receive interrupts fill a FreeRTOS queue per UART. The Modbus task
  (\<open>modbus_service.c\<close>) polls the queue of the RS485 UART through \<open>mbport\<close> and feeds the stack
  (\<open>mb.c\<close>): the RTU or ASCII frame layer assembles a frame, \<open>eMBPoll\<close> looks up its function code
  and calls a handler, the handler calls the register callbacks of the application
  (\<open>user_mb_app.c\<close>), and the response is sent from the buffer of the request. The bridge
  (\<open>usb_rs485.c\<close>) takes the line over by suspending the Modbus task. The shell (\<open>cli_shell.c\<close>,
  \<open>shell_commands.c\<close>) sets outputs and switches the bridge. The RF application (\<open>rf_app.c\<close>) polls
  the Zigbee driver (\<open>zigbee.c\<close>, over the circular queue \<open>cqueue.c\<close>) and the indicator. The USB
  port is a network card as well (\<open>usb_netif.c\<close>), on which the board is the DHCP and the DNS
  server of the host. Tasks and queues take their memory from the allocator of FreeRTOS
  (\<open>heap_4.c\<close>), and \<open>app.c\<close> starts everything.

  Conventions. Integers have their C width as words; sizes and indices that stay in a buffer are
  natural numbers. A C function is a function from the state it works on to \<open>'a res\<close>, which is
  its result or a fault: a failed assertion, an access outside an array, a null or a dangling
  pointer. A pointer into a buffer is the buffer with an offset. Storage from an allocator, the
  answers of the HAL and of the USB stack and the readings of the clock are arguments. Definitions
  keep the names of the source.

  Theories, in the order of their dependence:
  \<^item> Prelude: word types, faults, checked accesses, and the list and word lemmas all share.
  \<^item> Ring_Buffer: the contract of a bounded first-in first-out queue, as a locale, interpreted in
    CQueue (\<open>utils/cqueue\<close>) and RTOS_Queue (\<open>FreeRTOS/Source/queue.c\<close>, as far as the UART path
    uses it); both are proved to deliver items in order.
  \<^item> Register_Bank: the contract of a bank of cells that ranges are read from and written to, as a
    locale, interpreted in User_MB_App on the callbacks of \<open>user_mb_app.c\<close>.
  \<^item> MB_CRC (\<open>rtu/mbcrc.c\<close>): the table loop equals the bit-serial CRC, and what it detects.
  \<^item> MB_Types (\<open>include/*.h\<close>), MB_Utils (\<open>functions/mbutils.c\<close>): bit fields over bytes as maps of bits.
  \<^item> MB_Func (\<open>functions/mbfunc*.c\<close>): the ten handlers. MB_Func_Shape: sizes they keep. MB_Func_Spec:
    the answer of the read and write requests on every branch. MB_Types_Kept: histories
    of calls, of which exactly those that touch the last byte of the coils or inputs stop at an array bound, and
    the bound on responses.
  \<^item> MB_Port (\<open>mbport\<close>), MB_RTU (\<open>rtu/mbrtu.c\<close>), MB_ASCII (\<open>ascii/mbascii.c\<close>): the frame layers, what
    reception makes of any bytes, that what is sent is received, and an invariant of the
    reachable states of the RTU machine.
  \<^item> MB_Stack (\<open>mb.c\<close>, \<open>modbus_service.c\<close>): life cycle, handler table, poll function and task. A request
    that arrives in pieces before the frame timer runs out is answered; broadcasts and bad frames are not. MB_Refine: the
    register functions refine an abstract register server.
  \<^item> Board: pins, timers and UARTs. The receive loop returns by its timeout.
  \<^item> Zigbee: commands, responses and the polling machine, and the bytes of the write command. Zigbee_Life: each
    of the first ten requests comes to its end, with the calls its answer deserves.
  \<^item> USB_Bridge (\<open>usb_rs485.c\<close>, \<open>bsp_usb.c\<close>): the switch with the kernel calls it makes, and what a
    turn of the task moves.
  \<^item> Shell (\<open>cli_shell.c\<close>): a typed line runs the command of its words, and the table of arguments
    is never overrun; the contract of a command table is the locale \<open>shell_commands\<close>, interpreted in Shell_Commands on the table of
    \<open>shell_commands.c\<close>, where \<open>set_do\<close> is followed from the keys to the pin.
  \<^item> RF_App (\<open>rf_app.c\<close>, \<open>indicator.c\<close>): the rhythm of the LEDs.
  \<^item> Socket_Server (\<open>socketserver.c\<close>, \<open>socketclient.c\<close>, \<open>tcp_server.c\<close>): who owns an accepted socket. The
    lwIP sockets are arguments.
  \<^item> Logger (\<open>logger.c\<close>): which lines fit the buffer.
  \<^item> Gateway (\<open>modbus_service.c\<close> over \<open>mbport.c\<close> and the board): the stack of MB_Stack on the UART
    queue of Board, a round of the task with the interrupts before each of its reads. It refines
    the rounds of the stack over a stack of bytes. One that arrives in a burst is taken in reverse and dropped, and
    one that arrives in pieces over several rounds is dropped as well, since the timer of a frame runs
    out between two rounds.
  \<^item> USB_Netif (\<open>usb_netif.c\<close>, \<open>network_interface_app.c\<close>): link state, packets in both directions, LED.
  \<^item> DHCP_Server (\<open>dhserver.c\<close>), DNS_Server (\<open>dnserver.c\<close>): the leases are exclusive, the dialogue of
    a client ends with a lease, a name is answered with the address; packets that are read past
    their end.
  \<^item> Heap_4 (\<open>heap_4.c\<close>): the block headers as a map from addresses. The invariant tiles the heap with
    blocks, in use or on the free list; allocation is first fit, freeing merges neighbours, and
    freeing everything gives the heap of the start back.
  \<^item> Shell_App (\<open>shell_app.c\<close> over \<open>bsp_usb.c\<close>): the task that feeds the shell from the terminal.
  \<^item> Application (\<open>app.c\<close>, \<open>service.c\<close>): the initialisation sequence, and the firmware as one state
    with a step for every task and interrupt.
  \<^item> RTOS_List (\<open>FreeRTOS/Source/list.c\<close>): the lists of the kernel as links in a store, which refine
    operations on sequences of items with an index.
  \<^item> RTOS_Tasks (\<open>FreeRTOS/Source/tasks.c\<close> and the handlers of the port): the scheduler over that store,
    from the creation of tasks to the tick, delays, event lists, notifications, suspension of tasks
    and of the scheduler, time-outs and deletion. RTOS_Invariant: what holds between its operations,
    and the moves between lists they are made of. RTOS_Tick, RTOS_Resume, RTOS_Block: the tick, the
    end of a lock with the ticks and tasks it held up, blocking, and the context switch.
    RTOS_Ops: every operation a task or an interrupt may start returns, keeps the
    scheduler sound and leaves the waiting of other tasks alone. RTOS_Life: the same for tasks that
    are created and deleted while the system runs, and for the idle task that cleans up after them.
    RTOS_Run, RTOS_Boot: runs as an inductive relation, and the start. RTOS_Scheduler: what
    follows for every run from the start.
  \<^item> Line_Owner: the firmware of Application on the kernel of RTOS_Scheduler. The calls the bridge makes
    are carried out on the kernel, a task has a turn only while the kernel runs it, and which task owns the
    RS485 line is an invariant of the runs of both.

  Bounds and loops. All loops of the source that are modelled end by structural recursion or by
  a measure, except the task loops, of which one turn is a definition and histories of turns are
  lists. The receive loop of \<open>bsp_uart_receive\<close> takes the list of its turns as an argument and
  answers None if the list ends first; \<open>bsp_uart_receive_returns\<close> shows that a list that
  reaches the timeout is enough. A queue operation that blocks answers \<open>Still_Blocked\<close> likewise.
  The walks along the free list of the heap have the fuel \<open>heap_fuel\<close>, which is more than the
  number of blocks that fit the heap, so they never run out on a heap that meets the invariant.
  In the theories of the kernel \<open>None\<close> is an operation that does not come back, as a failed
  \<open>configASSERT\<close> is an endless loop. The loops \<open>insert_place\<close>, \<open>unblock_expired\<close> and
  \<open>move_pending_ready\<close>, which follow links, are partial functions; they are proved to return in
  every state that meets the invariant, and so do all operations of a run.

  What the proofs bring to light is stated as theorems about the code as it is: bytes of one
  interrupt are handed out in reverse order, a request that arrives over several rounds is never answered, the event queue of the Zigbee driver overruns its
  storage with the eleventh request, an unanswered request can be reported as a success, the
  transmitter sends one byte of a frame, the ASCII mode has no buffer, unregistering a handler
  hides later ones, padding bits of a coil request are written, a bridge that was switched
  off takes bytes from Modbus once more, what a terminal types through the bridge reaches the
  line in reverse order, a refused request loses the lease of its client, and DHCP packets are
  read past their end.

  Not modelled: Modbus over TCP (compiled out by \<open>mbconfig.h\<close>); of the FreeRTOS
  kernel its timers, event groups, stream buffers and co-routines, mutexes with priority
  inheritance, changes of priority, aborted delays and queries, and the calls for interrupts that
  the firmware does not use; HAL, CMSIS,
  start-up code and generated peripheral configuration, seen through their effects; TinyUSB,
  lwIP and Mongoose with the USB descriptors, whose answers are arguments; the web service,
  whose task nothing starts and whose pages the Mongoose wizard generates; and the ports and
  the demonstration project that come with the Modbus library (\<open>stack/port\<close>, \<open>stack/demo\<close>).
  The theories of the application do not run on the model of the scheduler, but for Line_Owner: elsewhere a
  task appears as a suspended flag and a notification count.

  Where the model is coarser than the code. A critical section is one step, and so are
  \<open>vTaskDelay\<close>, \<open>ulTaskGenericNotifyTake\<close> up to its wait, and the wait for a queue, although in \<open>tasks.c\<close> and
  \<open>queue.c\<close> only their parts are critical sections and an interrupt can come in between, while the scheduler is
  locked. A turn of a task and a call of the bridge are one step each. The bus reset of \<open>netd_init\<close> in
  TinyUSB's \<open>ncm_device.c\<close>, which sets the link state as well, is left out: every reset is followed by one of the modelled
  callbacks. The allocation of the handle in \<open>eMBRTUInit\<close> is assumed to succeed. Where the compiler
  makes enumerations one byte wide, \<open>bsp_input_read\<close> would give 255 for the -1 of the model. The counters
  and sizes of the heap are natural numbers, only the arithmetic of a request has 32 bits.
\<close>

end
